(* ===== verification/DbPrelude.thy ===== *)
theory DbPrelude
  imports Main "HOL-Library.Word" "HOL-Library.List_Lexorder"
begin

text \<open>
  Shared vocabulary of the development: bytes and their little-endian fields, checked machine
  arithmetic, slices, and the result type that carries every early return of the Rust code.

  Bytes are 8-bit words.  The unsigned integers the code uses for ids, offsets, lengths and
  sequence numbers are natural numbers here, with each overflow check of the source
  (\<open>checked_add\<close>, \<open>saturating_add\<close>, \<open>try_from\<close>) written out against its width; the
  hash functions, whose multiplications wrap, use 64-bit words.  \<open>usize\<close> is 64 bits wide.
\<close>

unbundle bit_operations_syntax

type_synonym byte = "8 word"
type_synonym bytes = "8 word list"

named_theorems layout "lengths and slices of concatenated fields"
named_theorems result_iff "when a chain of fallible steps succeeds"


subsection \<open>Results\<close>

text \<open>\<open>Inl\<close> is Rust's \<open>Err\<close>, \<open>Inr\<close> its \<open>Ok\<close>; \<open>rbind\<close> is the question-mark operator.\<close>

definition rbind :: "'e + 'a \<Rightarrow> ('a \<Rightarrow> 'e + 'b) \<Rightarrow> 'e + 'b" where
  "rbind m f = (case m of Inl e \<Rightarrow> Inl e | Inr x \<Rightarrow> f x)"

definition ensure :: "bool \<Rightarrow> 'e \<Rightarrow> 'e + unit" where
  "ensure b e = (if b then Inr () else Inl e)"

definition ok_or :: "'a option \<Rightarrow> 'e \<Rightarrow> 'e + 'a" where
  "ok_or x e = (case x of None \<Rightarrow> Inl e | Some y \<Rightarrow> Inr y)"

definition rmap :: "('a \<Rightarrow> 'b) \<Rightarrow> 'e + 'a \<Rightarrow> 'e + 'b" where
  "rmap f m = (case m of Inl e \<Rightarrow> Inl e | Inr x \<Rightarrow> Inr (f x))"

definition is_ok :: "'e + 'a \<Rightarrow> bool" where
  "is_ok m = (case m of Inl _ \<Rightarrow> False | Inr _ \<Rightarrow> True)"

definition ok :: "'e + 'a \<Rightarrow> 'a option" where
  "ok m = (case m of Inl _ \<Rightarrow> None | Inr x \<Rightarrow> Some x)"

fun rmapM :: "('a \<Rightarrow> 'e + 'b) \<Rightarrow> 'a list \<Rightarrow> 'e + 'b list" where
  "rmapM f [] = Inr []"
| "rmapM f (x # xs) = rbind (f x) (\<lambda>y. rbind (rmapM f xs) (\<lambda>ys. Inr (y # ys)))"

fun rfold :: "('s \<Rightarrow> 'a \<Rightarrow> 'e + 's) \<Rightarrow> 's \<Rightarrow> 'a list \<Rightarrow> 'e + 's" where
  "rfold f s [] = Inr s"
| "rfold f s (x # xs) = rbind (f s x) (\<lambda>s'. rfold f s' xs)"

lemma rbind_simps [simp]:
  "rbind (Inl e) f = Inl e" "rbind (Inr x) f = f x"
  by (simp_all add: rbind_def)

lemma rbind_cong [fundef_cong]:
  "m = m' \<Longrightarrow> (\<And>x. m' = Inr x \<Longrightarrow> f x = g x) \<Longrightarrow> rbind m f = rbind m' g"
  by (cases m') simp_all

lemma rbind_eq_Inr [result_iff]: "rbind m f = Inr y \<longleftrightarrow> (\<exists>x. m = Inr x \<and> f x = Inr y)"
  by (cases m) simp_all

lemma rbind_mono:
  "rbind m f = Inr x \<Longrightarrow> (\<And>y. m = Inr y \<Longrightarrow> f y = Inr x \<Longrightarrow> g y = Inr x) \<Longrightarrow> rbind m g = Inr x"
  by (cases m) simp_all

lemma ensure_simps [simp]: "ensure True e = Inr ()" "ensure False e = Inl e"
  by (simp_all add: ensure_def)

lemma ensure_eq_Inr [result_iff]: "ensure b e = Inr u \<longleftrightarrow> b"
  by (simp add: ensure_def)

lemma ensure_eq_Inl: "ensure b e = Inl e' \<longleftrightarrow> \<not> b \<and> e' = e"
  by (auto simp: ensure_def)

lemma ok_or_simps [simp]: "ok_or (Some x) e = Inr x" "ok_or None e = Inl e"
  by (simp_all add: ok_or_def)

lemma ok_or_eq_Inr [result_iff]: "ok_or x e = Inr y \<longleftrightarrow> x = Some y"
  by (cases x) simp_all

lemma rmap_simps [simp]: "rmap f (Inl e) = Inl e" "rmap f (Inr x) = Inr (f x)"
  by (simp_all add: rmap_def)

lemma rmap_eq_Inr [result_iff]: "rmap f m = Inr y \<longleftrightarrow> (\<exists>x. m = Inr x \<and> y = f x)"
  by (cases m) auto

lemma is_ok_simps [simp]: "is_ok (Inl e) = False" "is_ok (Inr x) = True"
  by (simp_all add: is_ok_def)

lemma ok_simps [simp]: "ok (Inl e) = None" "ok (Inr x) = Some x"
  by (simp_all add: ok_def)

lemma is_ok_iff: "is_ok m \<longleftrightarrow> (\<exists>x. m = Inr x)"
  by (cases m) auto

lemma rmapM_total: "(\<And>x. x \<in> set xs \<Longrightarrow> f x = Inr (g x)) \<Longrightarrow> rmapM f xs = Inr (map g xs)"
  by (induction xs) simp_all

lemma rmapM_eq_Inr:
  "rmapM f xs = Inr ys \<longleftrightarrow> length ys = length xs \<and> (\<forall>i < length xs. f (xs ! i) = Inr (ys ! i))"
proof (induction xs arbitrary: ys)
  case Nil
  then show ?case by auto
next
  case (Cons x xs)
  show ?case
  proof (cases ys)
    case Nil
    then show ?thesis by (auto simp: rbind_eq_Inr)
  next
    case (Cons z zs)
    then show ?thesis
      by (auto simp: rbind_eq_Inr Cons.IH All_less_Suc2)
  qed
qed

lemma rfold_append: "rfold f s (xs @ ys) = rbind (rfold f s xs) (\<lambda>s'. rfold f s' ys)"
proof (induction xs arbitrary: s)
  case Nil
  show ?case by simp
next
  case (Cons x xs)
  then show ?case by (cases "f s x") simp_all
qed


subsection \<open>Checked arithmetic\<close>

definition u64_max :: nat where
  "u64_max = 18446744073709551615"

definition checked_add64 :: "nat \<Rightarrow> nat \<Rightarrow> nat option" where
  "checked_add64 a b = (if a + b \<le> u64_max then Some (a + b) else None)"

definition checked_mul64 :: "nat \<Rightarrow> nat \<Rightarrow> nat option" where
  "checked_mul64 a b = (if a * b \<le> u64_max then Some (a * b) else None)"

definition checked_sub64 :: "nat \<Rightarrow> nat \<Rightarrow> nat option" where
  "checked_sub64 a b = (if b \<le> a then Some (a - b) else None)"

definition saturating_add64 :: "nat \<Rightarrow> nat \<Rightarrow> nat" where
  "saturating_add64 a b = min (a + b) u64_max"

definition try_u16 :: "nat \<Rightarrow> nat option" where
  "try_u16 n = (if n \<le> 65535 then Some n else None)"

definition try_u32 :: "nat \<Rightarrow> nat option" where
  "try_u32 n = (if n \<le> 4294967295 then Some n else None)"

definition try_u64 :: "nat \<Rightarrow> nat option" where
  "try_u64 n = (if n \<le> u64_max then Some n else None)"

lemma checked_add64_eq_Some [result_iff]:
  "checked_add64 a b = Some c \<longleftrightarrow> a + b \<le> u64_max \<and> c = a + b"
  by (auto simp: checked_add64_def)

lemma checked_mul64_eq_Some [result_iff]:
  "checked_mul64 a b = Some c \<longleftrightarrow> a * b \<le> u64_max \<and> c = a * b"
  by (auto simp: checked_mul64_def)

lemma checked_sub64_eq_Some [result_iff]:
  "checked_sub64 a b = Some c \<longleftrightarrow> b \<le> a \<and> c = a - b"
  by (auto simp: checked_sub64_def)

lemma try_eq_Some [result_iff]:
  "try_u16 n = Some c \<longleftrightarrow> n \<le> 65535 \<and> c = n"
  "try_u32 n = Some c \<longleftrightarrow> n \<le> 4294967295 \<and> c = n"
  "try_u64 n = Some c \<longleftrightarrow> n \<le> u64_max \<and> c = n"
  by (auto simp: try_u16_def try_u32_def try_u64_def)


subsection \<open>Slices\<close>

text \<open>\<open>seg i j xs\<close> is \<open>xs[i..j]\<close>.  Rust panics when \<open>j\<close> passes the end; every use in the
  models stands under the length check the code makes first.\<close>

definition seg :: "nat \<Rightarrow> nat \<Rightarrow> 'a list \<Rightarrow> 'a list" where
  "seg i j xs = take (j - i) (drop i xs)"

lemma length_seg [layout]: "length (seg i j xs) = min (j - i) (length xs - i)"
  by (auto simp: seg_def)

lemma seg_append [layout]:
  "seg i j (xs @ ys) =
     (if j \<le> length xs then seg i j xs
      else if length xs \<le> i then seg (i - length xs) (j - length xs) ys
      else drop i xs @ take (j - length xs) ys)"
  by (auto simp: seg_def)

lemma seg_whole: "length xs \<le> j \<Longrightarrow> seg 0 j xs = xs"
  by (simp add: seg_def)

lemma seg_Cons [layout]:
  "seg i j (x # xs) =
     (if j = 0 then [] else if i = 0 then x # take (j - 1) xs else seg (i - 1) (j - 1) xs)"
  by (cases i; cases j) (simp_all add: seg_def)

lemma seg_Nil [layout]: "seg i j [] = []"
  by (simp add: seg_def)

lemma seg_0 [layout]: "seg 0 j xs = take j xs"
  by (simp add: seg_def)

lemma seg_join: "i \<le> j \<Longrightarrow> j \<le> k \<Longrightarrow> seg i j xs @ seg j k xs = seg i k xs"
proof -
  assume le: "i \<le> j" "j \<le> k"
  then have "drop j xs = drop (j - i) (drop i xs)" and "k - i = (j - i) + (k - j)"
    by simp_all
  then show ?thesis
    by (simp add: seg_def take_add)
qed

lemma seg_seg: "seg i j (seg a b xs) = seg (a + i) (min (a + j) b) xs"
proof -
  have "min (j - i) (b - (a + i)) = min (a + j) b - (a + i)" by arith
  then show ?thesis
    by (simp add: seg_def drop_take take_take add.commute min.commute)
qed

lemma take_seg: "take n (seg i j xs) = seg i (min (i + n) j) xs"
  using seg_seg [of 0 n i j xs] by (simp add: seg_0)

lemma seg_drop: "seg i j (drop a xs) = seg (a + i) (a + j) xs"
  by (simp add: seg_def add.commute)

lemma seg_take: "seg i j (take n xs) = seg i (min j n) xs"
proof -
  have "min (j - i) (n - i) = min j n - i" by arith
  then show ?thesis by (simp add: seg_def drop_take take_take)
qed


lemma seg_empty [simp, layout]: "j \<le> i \<Longrightarrow> seg i j xs = []"
  by (simp add: seg_def)

lemma drop_seg: "drop n (seg i j xs) = seg (i + n) j xs"
  by (simp add: seg_def drop_take add.commute)

lemma seg_after: "seg (length a + i) (length a + j) (a @ xs) = seg i j xs"
  by (simp add: seg_def)

lemma seg_after0: "seg (length a) (length a + j) (a @ xs) = take j xs"
  using seg_after [of a 0 j xs] by (simp add: seg_0)


subsection \<open>Little-endian fields\<close>

primrec le_bytes :: "nat \<Rightarrow> nat \<Rightarrow> bytes" where
  "le_bytes 0 n = []"
| "le_bytes (Suc k) n = word_of_nat n # le_bytes k (n div 256)"

primrec le_val :: "bytes \<Rightarrow> nat" where
  "le_val [] = 0"
| "le_val (b # bs) = unat b + 256 * le_val bs"

lemma length_le_bytes [simp, layout]: "length (le_bytes k n) = k"
  by (induction k arbitrary: n) simp_all

lemma unat_byte_less: "unat (b :: byte) < 256"
proof -
  have "unat b < 2 ^ LENGTH(8)" by (rule unsigned_less)
  then show ?thesis by simp
qed

lemma le_val_less: "le_val bs < 256 ^ length bs"
proof (induction bs)
  case Nil
  show ?case by simp
next
  case (Cons b bs)
  have "unat b + 256 * le_val bs < 256 * (le_val bs + 1)"
    using unat_byte_less [of b] by simp
  also have "\<dots> \<le> 256 * 256 ^ length bs"
    using Cons by (intro mult_le_mono2) simp
  finally show ?case by simp
qed

lemma le_val_le_bytes: "le_val (le_bytes k n) = n mod 256 ^ k"
proof (induction k arbitrary: n)
  case 0
  show ?case by simp
next
  case (Suc k)
  have "unat (word_of_nat n :: byte) = n mod 256"
    by (simp add: unat_of_nat)
  then show ?case
    using Suc by (simp add: mod_mult2_eq)
qed

lemma le_bytes_le_val: "le_bytes (length bs) (le_val bs) = bs"
proof (induction bs)
  case Nil
  show ?case by simp
next
  case (Cons b bs)
  have "word_of_nat (unat b + 256 * le_val bs) = b"
  proof -
    have "word_of_nat (256 * le_val bs) = (0 :: byte)"
      by (subst word_of_nat_eq_0_iff) simp
    then show ?thesis by simp
  qed
  moreover have "(unat b + 256 * le_val bs) div 256 = le_val bs"
    using unat_byte_less [of b] by simp
  ultimately show ?case
    using Cons by simp
qed

definition read_u16 :: "bytes \<Rightarrow> nat" where
  "read_u16 bs = le_val (take 2 bs)"

definition read_u32 :: "bytes \<Rightarrow> nat" where
  "read_u32 bs = le_val (take 4 bs)"

definition read_u64 :: "bytes \<Rightarrow> nat" where
  "read_u64 bs = le_val (take 8 bs)"

lemma read_le_bytes:
  "length bs = 2 \<Longrightarrow> read_u16 bs = n \<longleftrightarrow> n < 65536 \<and> bs = le_bytes 2 n"
  "length bs = 4 \<Longrightarrow> read_u32 bs = n \<longleftrightarrow> n < 4294967296 \<and> bs = le_bytes 4 n"
  "length bs = 8 \<Longrightarrow> read_u64 bs = n \<longleftrightarrow> n \<le> u64_max \<and> bs = le_bytes 8 n"
proof -
  have gen: "le_val bs = n \<longleftrightarrow> n < 256 ^ k \<and> bs = le_bytes k n" if "length bs = k" for k
    using le_val_less [of bs] le_bytes_le_val [of bs] le_val_le_bytes [of k n] that by auto
  show "length bs = 2 \<Longrightarrow> read_u16 bs = n \<longleftrightarrow> n < 65536 \<and> bs = le_bytes 2 n"
    using gen [of 2] by (simp add: read_u16_def)
  show "length bs = 4 \<Longrightarrow> read_u32 bs = n \<longleftrightarrow> n < 4294967296 \<and> bs = le_bytes 4 n"
    using gen [of 4] by (simp add: read_u32_def)
  show "length bs = 8 \<Longrightarrow> read_u64 bs = n \<longleftrightarrow> n \<le> u64_max \<and> bs = le_bytes 8 n"
    using gen [of 8] by (auto simp: read_u64_def u64_max_def)
qed

lemma read_of_le_bytes [simp]:
  "n < 65536 \<Longrightarrow> read_u16 (le_bytes 2 n) = n"
  "n < 4294967296 \<Longrightarrow> read_u32 (le_bytes 4 n) = n"
  "n \<le> u64_max \<Longrightarrow> read_u64 (le_bytes 8 n) = n"
  by (simp_all add: read_u16_def read_u32_def read_u64_def le_val_le_bytes u64_max_def
      del: le_bytes.simps)

lemma le_bytes_inject:
  "le_bytes k m = le_bytes k n \<longleftrightarrow> m mod 256 ^ k = n mod 256 ^ k"
  by (metis le_bytes_le_val le_val_le_bytes length_le_bytes)

lemma unat_word32_less: "unat (w :: 32 word) < 4294967296"
proof -
  have "unat w < 2 ^ LENGTH(32)" by (rule unsigned_less)
  then show ?thesis by simp
qed

text \<open>A little-endian \<open>u32\<close> checksum field.\<close>

definition crc_field :: "32 word \<Rightarrow> bytes" where
  "crc_field w = le_bytes 4 (unat w)"

lemma length_crc_field [simp, layout]: "length (crc_field w) = 4"
  by (simp add: crc_field_def)

lemma read_crc_field [simp]: "read_u32 (crc_field w) = unat w"
  by (simp add: crc_field_def unat_word32_less)

lemma read_u32_eq_crc: "length bs = 4 \<Longrightarrow> read_u32 bs = unat w \<longleftrightarrow> bs = crc_field w"
  by (simp add: read_le_bytes crc_field_def unat_word32_less)


subsection \<open>Text\<close>

text \<open>A Rust string or byte-string literal, as its bytes.\<close>

definition ascii :: "string \<Rightarrow> bytes" where
  "ascii s = map of_char s"

lemma length_ascii [simp, layout]: "length (ascii s) = length s"
  by (simp add: ascii_def)

end
