(* ===== verification/OrdMap.thy ===== *)
theory OrdMap
  imports DbPrelude
begin

text \<open>
  Rust's \<open>BTreeMap\<close>: a finite map whose entries are enumerated in increasing key order.  The
  type is the association lists with strictly increasing keys, so two maps with the same
  lookups are equal, and iteration, \<open>range\<close> and \<open>first\<close>/\<open>last\<close> read the list.
\<close>

subsection \<open>Association lists with increasing keys\<close>

definition al_ord :: "('k::linorder \<times> 'v) list \<Rightarrow> bool" where
  "al_ord xs = sorted_wrt (<) (map fst xs)"

fun al_insert :: "'k::linorder \<Rightarrow> 'v \<Rightarrow> ('k \<times> 'v) list \<Rightarrow> ('k \<times> 'v) list" where
  "al_insert k v [] = [(k, v)]"
| "al_insert k v ((a, b) # xs) =
     (if k < a then (k, v) # (a, b) # xs
      else if k = a then (k, v) # xs
      else (a, b) # al_insert k v xs)"

definition al_remove :: "'k \<Rightarrow> ('k \<times> 'v) list \<Rightarrow> ('k \<times> 'v) list" where
  "al_remove k xs = filter (\<lambda>(a, _). a \<noteq> k) xs"

lemma al_ord_Nil [simp]: "al_ord []"
  by (simp add: al_ord_def)

lemma al_ord_Cons [simp]:
  "al_ord ((a, b) # xs) \<longleftrightarrow> (\<forall>(k, v) \<in> set xs. a < k) \<and> al_ord xs"
  by (auto simp: al_ord_def)

lemma al_ord_append:
  "al_ord (xs @ ys) \<longleftrightarrow>
     al_ord xs \<and> al_ord ys \<and> (\<forall>(a, _) \<in> set xs. \<forall>(b, _) \<in> set ys. a < b)"
  by (force simp: al_ord_def sorted_wrt_append)

lemma al_ord_distinct: "al_ord xs \<Longrightarrow> distinct (map fst xs)"
  by (simp add: al_ord_def strict_sorted_iff)

lemma set_al_insert: "set (al_insert k v xs) \<subseteq> insert (k, v) (set xs)"
  by (induction k v xs rule: al_insert.induct) auto

lemma al_ord_insert: "al_ord xs \<Longrightarrow> al_ord (al_insert k v xs)"
proof (induction k v xs rule: al_insert.induct)
  case (1 k v)
  show ?case by simp
next
  case (2 k v a b xs)
  then show ?case
    using set_al_insert [of k v xs] by (fastforce split: if_splits)
qed

lemma map_of_al_insert: "map_of (al_insert k v xs) = (map_of xs)(k \<mapsto> v)"
  by (induction k v xs rule: al_insert.induct) (auto simp: fun_eq_iff)

lemma al_ord_filter: "al_ord xs \<Longrightarrow> al_ord (filter P xs)"
proof (induction xs)
  case Nil
  show ?case by simp
next
  case (Cons x xs)
  then show ?case by (cases x) auto
qed

lemma al_ord_map_of: "al_ord xs \<Longrightarrow> (k, v) \<in> set xs \<longleftrightarrow> map_of xs k = Some v"
  by (simp add: al_ord_distinct map_of_eq_Some_iff)

lemma map_of_al_filter:
  "al_ord xs \<Longrightarrow>
     map_of (filter (\<lambda>(a, b). P a b) xs) k =
       (case map_of xs k of Some v \<Rightarrow> if P k v then Some v else None | None \<Rightarrow> None)"
proof (induction xs)
  case Nil
  show ?case by simp
next
  case (Cons x xs)
  obtain a b where x: "x = (a, b)" by force
  have none: "map_of xs a = None"
    using Cons.prems x by (auto simp: map_of_eq_None_iff)
  show ?case
    using Cons x none by (auto split: option.splits)
qed

lemma al_ord_unique:
  "al_ord xs \<Longrightarrow> al_ord ys \<Longrightarrow> map_of xs = map_of ys \<Longrightarrow> xs = ys"
proof -
  assume a: "al_ord xs" "al_ord ys" "map_of xs = map_of ys"
  have "set xs = set ys"
    using a al_ord_map_of [of xs] al_ord_map_of [of ys] by (auto simp: set_eq_iff)
  moreover have "sorted (map fst zs) \<and> distinct (map fst zs)" if "al_ord zs" for zs :: "('a::linorder \<times> 'b) list"
    using that by (simp add: al_ord_def strict_sorted_iff)
  ultimately show "xs = ys"
    using a(1,2) map_sorted_distinct_set_unique
    by (metis al_ord_distinct distinct_map inj_on_Un_image_eq_iff map_sorted_distinct_set_unique Un_absorb)
qed


subsection \<open>The type of ordered maps\<close>

typedef (overloaded) ('k::linorder, 'v) ordmap = "{xs :: ('k \<times> 'v) list. al_ord xs}"
  morphisms entries OrdMap
  by (rule exI [of _ "[]"]) simp

setup_lifting type_definition_ordmap

lift_definition om_empty :: "('k::linorder, 'v) ordmap" is "[]" by simp

lift_definition om_lookup :: "('k::linorder, 'v) ordmap \<Rightarrow> 'k \<Rightarrow> 'v option" is map_of .

lift_definition om_insert :: "'k::linorder \<Rightarrow> 'v \<Rightarrow> ('k, 'v) ordmap \<Rightarrow> ('k, 'v) ordmap"
  is al_insert by (rule al_ord_insert)

lift_definition om_filter ::
    "('k::linorder \<Rightarrow> 'v \<Rightarrow> bool) \<Rightarrow> ('k, 'v) ordmap \<Rightarrow> ('k, 'v) ordmap"
  is "\<lambda>P. filter (\<lambda>(a, b). P a b)" by (rule al_ord_filter)

definition om_remove :: "'k::linorder \<Rightarrow> ('k, 'v) ordmap \<Rightarrow> ('k, 'v) ordmap" where
  "om_remove k m = om_filter (\<lambda>a _. a \<noteq> k) m"

definition om_size :: "('k::linorder, 'v) ordmap \<Rightarrow> nat" where
  "om_size m = length (entries m)"

definition om_keys :: "('k::linorder, 'v) ordmap \<Rightarrow> 'k list" where
  "om_keys m = map fst (entries m)"

definition om_range ::
    "'k::linorder \<Rightarrow> 'k option \<Rightarrow> ('k, 'v) ordmap \<Rightarrow> ('k \<times> 'v) list" where
  \<comment> \<open>\<open>range((Included(lo), Excluded(hi)))\<close>, unbounded above for \<open>None\<close>\<close>
  "om_range lo hi m =
     filter (\<lambda>(k, _). lo \<le> k \<and> (case hi of None \<Rightarrow> True | Some h \<Rightarrow> k < h)) (entries m)"

lemma entries_ord [simp]: "al_ord (entries m)"
  by transfer

lemma om_lookup_entries: "om_lookup m = map_of (entries m)"
  by transfer simp

lemma om_lookup_empty [simp]: "om_lookup om_empty = Map.empty"
  by transfer simp

lemma om_lookup_insert [simp]: "om_lookup (om_insert k v m) = (om_lookup m)(k \<mapsto> v)"
  by transfer (rule map_of_al_insert)

lemma om_lookup_filter:
  "om_lookup (om_filter P m) k =
     (case om_lookup m k of Some v \<Rightarrow> if P k v then Some v else None | None \<Rightarrow> None)"
  by transfer (rule map_of_al_filter)

lemma om_lookup_remove [simp]: "om_lookup (om_remove k m) = (om_lookup m)(k := None)"
  by (auto simp: om_remove_def om_lookup_filter fun_eq_iff split: option.splits)

lemma ordmap_eqI: "(\<And>k. om_lookup m k = om_lookup m' k) \<Longrightarrow> m = m'"
proof -
  assume "\<And>k. om_lookup m k = om_lookup m' k"
  then have "map_of (entries m) = map_of (entries m')"
    by (auto simp: om_lookup_entries)
  then have "entries m = entries m'"
    by (intro al_ord_unique) simp_all
  then show "m = m'" by (simp add: entries_inject)
qed

lemma ordmap_eq_iff: "m = m' \<longleftrightarrow> om_lookup m = om_lookup m'"
  by (auto intro: ordmap_eqI)

lemma set_entries: "(k, v) \<in> set (entries m) \<longleftrightarrow> om_lookup m k = Some v"
  by (simp add: om_lookup_entries al_ord_map_of)

lemma entries_empty [simp]: "entries om_empty = []"
  by transfer simp

lemma entries_insert: "entries (om_insert k v m) = al_insert k v (entries m)"
  by transfer simp

lemma entries_filter: "entries (om_filter P m) = filter (\<lambda>(a, b). P a b) (entries m)"
  by transfer simp

lemma entries_eq_Nil [simp]: "entries m = [] \<longleftrightarrow> m = om_empty"
  by (metis entries_empty entries_inject)

lemma distinct_om_keys: "distinct (om_keys m)"
  by (simp add: om_keys_def al_ord_distinct)

lemma set_om_keys: "set (om_keys m) = dom (om_lookup m)"
  by (auto simp: om_keys_def om_lookup_entries dom_map_of_conv_image_fst)

lemma finite_dom_om_lookup: "finite (dom (om_lookup m))"
  by (simp add: set_om_keys [symmetric])

lemma card_dom_om_lookup: "card (dom (om_lookup m)) = om_size m"
  by (simp add: set_om_keys [symmetric] distinct_card [OF distinct_om_keys])
     (simp add: om_size_def om_keys_def)

lemma om_size_insert_new:
  "om_lookup m k = None \<Longrightarrow> om_size (om_insert k v m) = Suc (om_size m)"
  by (simp add: card_dom_om_lookup [symmetric] finite_dom_om_lookup card_insert_disjoint domIff)

text \<open>\<open>BTreeMap::extend\<close>/\<open>collect\<close>: later entries replace earlier ones.\<close>

definition om_of_list :: "('k::linorder \<times> 'v) list \<Rightarrow> ('k, 'v) ordmap" where
  "om_of_list xs = fold (\<lambda>(k, v) m. om_insert k v m) xs om_empty"

lemma om_lookup_fold_insert:
  "om_lookup (fold (\<lambda>(k, v) m. om_insert k v m) xs m) = om_lookup m ++ map_of (rev xs)"
proof (induction xs arbitrary: m)
  case Nil
  show ?case by simp
next
  case (Cons x xs)
  then show ?case by (cases x) (auto simp: map_add_def fun_eq_iff split: option.splits)
qed

text \<open>\<open>filter_map\<close> on the values.\<close>

lemma al_ord_map_filter:
  "al_ord xs \<Longrightarrow> al_ord (List.map_filter (\<lambda>(k, v). map_option (Pair k) (f k v)) xs)"
proof (induction xs)
  case Nil
  show ?case by (simp add: List.map_filter_def)
next
  case (Cons x xs)
  obtain a b where x: "x = (a, b)" by force
  have keys: "fst ` set (List.map_filter (\<lambda>(k, v). map_option (Pair k) (f k v)) xs) \<subseteq> fst ` set xs"
    by (force simp: map_filter_def)
  show ?case
  proof (cases "f a b")
    case None
    then show ?thesis using Cons x by (simp add: map_filter_simps)
  next
    case (Some c)
    then show ?thesis using Cons x keys by (force simp: map_filter_simps)
  qed
qed

lift_definition om_map_filter :: "('k::linorder \<Rightarrow> 'v \<Rightarrow> 'w option) \<Rightarrow> ('k, 'v) ordmap \<Rightarrow> ('k, 'w) ordmap"
  is "\<lambda>f. List.map_filter (\<lambda>(k, v). map_option (Pair k) (f k v))" by (rule al_ord_map_filter)

lemma entries_map_filter:
  "entries (om_map_filter f m) = List.map_filter (\<lambda>(k, v). map_option (Pair k) (f k v)) (entries m)"
  by transfer simp

lemma om_lookup_map_filter: "om_lookup (om_map_filter f m) k = Option.bind (om_lookup m k) (f k)"
proof -
  have "map_of (List.map_filter (\<lambda>(k, v). map_option (Pair k) (f k v)) xs) k = Option.bind (map_of xs k) (f k)"
    if "al_ord xs" for xs
    using that
  proof (induction xs)
    case Nil
    show ?case by (simp add: List.map_filter_def)
  next
    case (Cons x xs)
    obtain a b where x: "x = (a, b)" by force
    have none: "map_of xs a = None" using Cons.prems x by (auto simp: map_of_eq_None_iff)
    show ?case
      using Cons x none by (cases "f a b") (auto simp: map_filter_simps)
  qed
  then show ?thesis by (simp add: om_lookup_entries entries_map_filter)
qed

lemma om_range_filter: "om_range lo hi m = entries (om_filter (\<lambda>k _. lo \<le> k \<and> (case hi of None \<Rightarrow> True | Some h \<Rightarrow> k < h)) m)"
  by (simp add: om_range_def entries_filter)

instantiation ordmap :: (linorder, equal) equal
begin

definition equal_ordmap :: "('a, 'b) ordmap \<Rightarrow> ('a, 'b) ordmap \<Rightarrow> bool" where
  "equal_ordmap m m' = (entries m = entries m')"

instance
  by standard (simp add: equal_ordmap_def entries_inject)

end


subsection \<open>Sizes\<close>

lemma om_size_le:
  assumes "\<And>k. om_lookup d' k \<noteq> None \<Longrightarrow> om_lookup d k \<noteq> None \<or> k \<in> set ks"
  shows "om_size d' \<le> om_size d + length ks"
proof -
  have "dom (om_lookup d') \<subseteq> dom (om_lookup d) \<union> set ks" using assms by (auto simp: domIff)
  then have "card (dom (om_lookup d')) \<le> card (dom (om_lookup d) \<union> set ks)"
    by (intro card_mono) (simp_all add: finite_dom_om_lookup)
  also have "\<dots> \<le> card (dom (om_lookup d)) + card (set ks)" by (rule card_Un_le)
  finally show ?thesis
    using card_length [of ks] by (simp add: card_dom_om_lookup)
qed

lemma om_size_insert_le: "om_size (om_insert k v d) \<le> Suc (om_size d)"
proof -
  have "om_size (om_insert k v d) \<le> om_size d + length [k]"
    by (rule om_size_le) (auto split: if_splits)
  then show ?thesis by simp
qed

lemma om_size_replace: "om_lookup d k \<noteq> None \<Longrightarrow> om_size (om_insert k v d) = om_size d"
  by (simp add: card_dom_om_lookup [symmetric] insert_absorb domIff)

lemma om_size_remove_le: "om_size (om_remove k d) \<le> om_size d"
  by (simp add: om_size_def om_remove_def entries_filter)

end
