(* ===== verification/KvCore.thy ===== *)
theory KvCore
  imports OrdMap
begin

text \<open>
  The shared logical semantics of \<open>crates/db-core\<close>: errors and their classes
  (\<open>error.rs\<close>), the hexadecimal byte strings (\<open>bytes.rs\<close>), the operations and their
  outcomes (\<open>operation.rs\<close>), the input limits and capability checks (\<open>engine.rs\<close>), and
  the \<open>KvEngine\<close> trait with the step and workload executors.  A Rust function taking a
  \<open>KvEngine\<close> takes here the record of the trait's methods; a method returns its result with
  the state after the call.  Message texts of errors are not modelled.
\<close>

subsection \<open>Errors (error.rs)\<close>

datatype db_format =
  FmtWorkload | FmtLogFile | FmtLogRecord | FmtWal | FmtWalRecord | FmtBloom | FmtSstable
| FmtCurrent | FmtManifest | FmtBtree | FmtRelational | FmtExperiment

datatype io_kind = NotFound | AlreadyExists | UnexpectedEof | OtherIo

datatype error_class = ClsInvalidInput | ClsIo | ClsCorruption | ClsUnsupportedVersion | ClsPoisoned

datatype db_error =
  InvalidInput
| Io io_kind
| Corruption nat
| UnsupportedVersion db_format nat nat
| Poisoned

type_synonym 'a result = "db_error + 'a"

fun db_error_class :: "db_error \<Rightarrow> error_class" where
  "db_error_class InvalidInput = ClsInvalidInput"
| "db_error_class (Io _) = ClsIo"
| "db_error_class (Corruption _) = ClsCorruption"
| "db_error_class (UnsupportedVersion _ _ _) = ClsUnsupportedVersion"
| "db_error_class Poisoned = ClsPoisoned"


subsection \<open>Hexadecimal byte strings (bytes.rs)\<close>

datatype byte_string_error = OddLength nat | InvalidDigit nat byte

definition HEX :: bytes where
  "HEX = [0x30, 0x31, 0x32, 0x33, 0x34, 0x35, 0x36, 0x37, 0x38, 0x39,
          0x61, 0x62, 0x63, 0x64, 0x65, 0x66]"

fun to_hex :: "bytes \<Rightarrow> bytes" where
  "to_hex [] = []"
| "to_hex (b # bs) = HEX ! unat (drop_bit 4 b) # HEX ! unat (b AND 0x0f) # to_hex bs"

definition decode_nibble :: "byte \<Rightarrow> byte option" where
  "decode_nibble b =
     (if 0x30 \<le> b \<and> b \<le> 0x39 then Some (b - 0x30)
      else if 0x61 \<le> b \<and> b \<le> 0x66 then Some (b - 0x61 + 10)
      else if 0x41 \<le> b \<and> b \<le> 0x46 then Some (b - 0x41 + 10)
      else None)"

fun from_hex_pairs :: "nat \<Rightarrow> bytes \<Rightarrow> byte_string_error + bytes" where
  "from_hex_pairs index (p0 # p1 # rest) =
     rbind (ok_or (decode_nibble p0) (InvalidDigit (index * 2) p0)) (\<lambda>high.
     rbind (ok_or (decode_nibble p1) (InvalidDigit (index * 2 + 1) p1)) (\<lambda>low.
     rbind (from_hex_pairs (index + 1) rest) (\<lambda>tl.
     Inr ((push_bit 4 high OR low) # tl))))"
| "from_hex_pairs index _ = Inr []"

definition from_hex :: "bytes \<Rightarrow> byte_string_error + bytes" where
  "from_hex encoded =
     (if length encoded mod 2 \<noteq> 0 then Inl (OddLength (length encoded))
      else from_hex_pairs 0 encoded)"

lemma decode_nibble_HEX: "n < 16 \<Longrightarrow> decode_nibble (HEX ! n) = Some (word_of_nat n)"
proof -
  have "\<forall>n \<in> set [0..<16]. decode_nibble (HEX ! n) = Some (word_of_nat n)"
    by (simp add: upt_rec decode_nibble_def HEX_def)
  then show "n < 16 \<Longrightarrow> decode_nibble (HEX ! n) = Some (word_of_nat n)" by simp
qed

lemma unat_drop_bit_4: "unat (drop_bit 4 (b :: byte)) < 16"
proof -
  have "unat (drop_bit 4 b) = unat b div 16"
    by (simp add: drop_bit_eq_div unat_div_distrib)
  then show ?thesis using unat_byte_less [of b] by simp
qed

lemma low_nibble: "b AND 0x0f = take_bit 4 (b :: byte)"
  by (simp add: take_bit_eq_mask mask_eq_exp_minus_1)

lemma unat_and_15: "unat (b AND 0x0f :: byte) < 16"
  unfolding low_nibble by (simp add: take_bit_eq_mod unat_mod_distrib)

lemma join_nibbles: "push_bit 4 (drop_bit 4 b) OR (b AND 0x0f) = (b :: byte)"
  unfolding low_nibble by (rule bit_eqI) (auto simp: bit_simps)

lemma from_hex_pairs_to_hex: "from_hex_pairs i (to_hex bs) = Inr bs"
  by (induction bs arbitrary: i)
     (simp_all add: decode_nibble_HEX unat_drop_bit_4 unat_and_15 join_nibbles)

lemma length_to_hex [simp]: "length (to_hex bs) = 2 * length bs"
  by (induction bs) simp_all

lemma from_hex_to_hex: "from_hex (to_hex bs) = Inr bs"
  by (simp add: from_hex_def from_hex_pairs_to_hex)

lemma from_hex_pairs_InvalidDigit:
  "from_hex_pairs n s = Inl e \<Longrightarrow>
     \<exists>i < length s. e = InvalidDigit (n * 2 + i) (s ! i) \<and> decode_nibble (s ! i) = None \<and>
       (\<forall>j < i. decode_nibble (s ! j) \<noteq> None)"
proof (induction n s rule: from_hex_pairs.induct)
  case (1 n p0 p1 rest)
  show ?case
  proof (cases "decode_nibble p0")
    case None
    with 1 show ?thesis by (intro exI [of _ "0::nat"]) auto
  next
    case (Some hi)
    show ?thesis
    proof (cases "decode_nibble p1")
      case None
      with 1 Some show ?thesis by (intro exI [of _ "1::nat"]) auto
    next
      case low: (Some lo)
      with 1 Some have "from_hex_pairs (n + 1) rest = Inl e"
        by (cases "from_hex_pairs (n + 1) rest") auto
      from "1.IH" [OF _ _ this] Some low obtain i where
        ib: "i < length rest" "e = InvalidDigit ((n + 1) * 2 + i) (rest ! i)"
          "decode_nibble (rest ! i) = None" "\<forall>j < i. decode_nibble (rest ! j) \<noteq> None"
        by fastforce
      have "decode_nibble ((p0 # p1 # rest) ! j) \<noteq> None" if "j < i + 2" for j
        using that ib(4) Some low by (cases j; cases "j - 1") auto
      with ib show ?thesis by (intro exI [of _ "i + 2"]) auto
    qed
  qed
qed simp_all


subsection \<open>Operations and outcomes (operation.rs)\<close>

datatype workload_step =
  Put (step_key: bytes) (step_value: bytes)
| Get (step_key: bytes)
| Delete (step_key: bytes)
| Reopen

datatype outcome =
  OPut "bytes option"
| OGet "bytes option"
| ODelete "bytes option"
| OReopened


subsection \<open>Limits and capabilities (engine.rs)\<close>

definition MAX_KEY_BYTES :: nat where
  "MAX_KEY_BYTES = 4 * 1024"

definition MAX_VALUE_BYTES :: nat where
  "MAX_VALUE_BYTES = 1024 * 1024"

datatype logical_model = KeyValue
datatype storage_architecture = InMemoryReference | AppendLog | BPlusTree | LsmTree
datatype concurrency_mode = CallerSerialized
datatype persistence = Volatile | Persistent
datatype crash_recovery =
  NoRecovery | TruncatedFinalAppend | MirroredCopyOnWritePages | WriteAheadLogReplay
datatype distribution_mode = Standalone

record engine_capabilities =
  ec_logical_model :: logical_model
  ec_storage_architecture :: storage_architecture
  ec_concurrency :: concurrency_mode
  ec_persistence :: persistence
  ec_crash_recovery :: crash_recovery
  ec_distribution :: distribution_mode
  ec_ordered_range_scan :: bool
  ec_max_key_bytes :: nat
  ec_max_value_bytes :: nat

definition validate_key :: "bytes \<Rightarrow> unit result" where
  "validate_key key = (if length key > MAX_KEY_BYTES then Inl InvalidInput else Inr ())"

definition validate_range_scan :: "bytes \<Rightarrow> bytes option \<Rightarrow> unit result" where
  "validate_range_scan start stop =
     rbind (validate_key start) (\<lambda>_.
       case stop of
         None \<Rightarrow> Inr ()
       | Some e \<Rightarrow> rbind (validate_key e) (\<lambda>_. if e < start then Inl InvalidInput else Inr ()))"

definition validate_key_value :: "bytes \<Rightarrow> bytes \<Rightarrow> unit result" where
  "validate_key_value key val =
     rbind (validate_key key) (\<lambda>_.
       if length val > MAX_VALUE_BYTES then Inl InvalidInput else Inr ())"

datatype capability_mismatch =
  MmLogicalModel | MmConcurrency | MmPersistence | MmDistribution | MmOrderedRangeScan
| MmMaxKeyBytes | MmMaxValueBytes | MmRequiredOrderedRangeScan

definition capability_mismatches ::
    "engine_capabilities \<Rightarrow> engine_capabilities \<Rightarrow> bool \<Rightarrow> capability_mismatch list" where
  "capability_mismatches left right require_ordered_range =
     (if ec_logical_model left \<noteq> ec_logical_model right then [MmLogicalModel] else []) @
     (if ec_concurrency left \<noteq> ec_concurrency right then [MmConcurrency] else []) @
     (if ec_persistence left \<noteq> ec_persistence right then [MmPersistence] else []) @
     (if ec_distribution left \<noteq> ec_distribution right then [MmDistribution] else []) @
     (if ec_ordered_range_scan left \<noteq> ec_ordered_range_scan right then [MmOrderedRangeScan] else []) @
     (if ec_max_key_bytes left \<noteq> ec_max_key_bytes right then [MmMaxKeyBytes] else []) @
     (if ec_max_value_bytes left \<noteq> ec_max_value_bytes right then [MmMaxValueBytes] else []) @
     (if require_ordered_range \<and> (\<not> ec_ordered_range_scan left \<or> \<not> ec_ordered_range_scan right)
      then [MmRequiredOrderedRangeScan] else [])"

definition validate_experiment_compatibility ::
    "engine_capabilities \<Rightarrow> engine_capabilities \<Rightarrow> bool \<Rightarrow> unit result" where
  "validate_experiment_compatibility left right require_ordered_range =
     (if capability_mismatches left right require_ordered_range = [] then Inr ()
      else Inl InvalidInput)"

lemma validate_key_Inr [result_iff]: "validate_key k = Inr u \<longleftrightarrow> length k \<le> MAX_KEY_BYTES"
  by (auto simp: validate_key_def)

lemma validate_key_value_Inr [result_iff]:
  "validate_key_value k v = Inr u \<longleftrightarrow> length k \<le> MAX_KEY_BYTES \<and> length v \<le> MAX_VALUE_BYTES"
  by (auto simp: validate_key_value_def result_iff)

lemma validate_key_Inl: "validate_key k = Inl e \<longleftrightarrow> MAX_KEY_BYTES < length k \<and> e = InvalidInput"
  by (auto simp: validate_key_def)

lemma validate_key_value_Inl:
  "validate_key_value k v = Inl e \<longleftrightarrow>
     (MAX_KEY_BYTES < length k \<or> MAX_VALUE_BYTES < length v) \<and> e = InvalidInput"
  by (auto simp: validate_key_value_def validate_key_def)

lemma validate_range_scan_Inr [result_iff]:
  "validate_range_scan lo hi = Inr u \<longleftrightarrow>
     length lo \<le> MAX_KEY_BYTES \<and>
     (\<forall>h. hi = Some h \<longrightarrow> length h \<le> MAX_KEY_BYTES \<and> lo \<le> h)"
  by (cases hi) (auto simp: validate_range_scan_def validate_key_def)

end
