(* ===== verification/KvEngine.thy ===== *)
theory KvEngine
  imports KvCore
begin

text \<open>
  The \<open>KvEngine\<close> trait and what runs on it: \<open>execute_step\<close> and \<open>execute_workload\<close>
  (\<open>engine.rs\<close>), \<open>Workload::validate\<close> (\<open>workload.rs\<close>) and the differential harness
  \<open>compare_workload\<close> (\<open>differential.rs\<close>).  The contract every engine claims is the
  locale \<open>kv_model\<close>: under an invariant and while its counters have room, each method acts
  as the abstract ordered map does; \<open>kv_engine\<close> adds that invalid input changes nothing.  The harness theorem
  is proved once from the contract.
\<close>

subsection \<open>The trait\<close>

record 's kv_ops =
  op_capabilities :: "'s \<Rightarrow> engine_capabilities"
  op_put :: "'s \<Rightarrow> bytes \<Rightarrow> bytes \<Rightarrow> bytes option result \<times> 's"
  op_get :: "'s \<Rightarrow> bytes \<Rightarrow> bytes option result \<times> 's"
  op_delete :: "'s \<Rightarrow> bytes \<Rightarrow> bytes option result \<times> 's"
  op_range_scan :: "'s \<Rightarrow> bytes \<Rightarrow> bytes option \<Rightarrow> nat \<Rightarrow> (bytes \<times> bytes) list result \<times> 's"
  op_reopen :: "'s \<Rightarrow> unit result \<times> 's"

definition default_range_scan ::
    "'s \<Rightarrow> bytes \<Rightarrow> bytes option \<Rightarrow> nat \<Rightarrow> (bytes \<times> bytes) list result \<times> 's" where
  "default_range_scan s start stop limit = (Inl InvalidInput, s)"

fun execute_step :: "'s kv_ops \<Rightarrow> 's \<Rightarrow> workload_step \<Rightarrow> outcome result \<times> 's" where
  "execute_step E s (Put key val) = (case op_put E s key val of (r, s') \<Rightarrow> (rmap OPut r, s'))"
| "execute_step E s (Get key) = (case op_get E s key of (r, s') \<Rightarrow> (rmap OGet r, s'))"
| "execute_step E s (Delete key) = (case op_delete E s key of (r, s') \<Rightarrow> (rmap ODelete r, s'))"
| "execute_step E s Reopen =
     (case op_reopen E s of (r, s') \<Rightarrow> (rmap (\<lambda>_. OReopened) r, s'))"


subsection \<open>Workloads (workload.rs)\<close>

definition WORKLOAD_FORMAT_VERSION :: nat where
  "WORKLOAD_FORMAT_VERSION = 1"

definition MAX_WORKLOAD_STEPS :: nat where
  "MAX_WORKLOAD_STEPS = 1000000"

record workload =
  wl_format_version :: nat
  wl_seed :: "64 word option"
  wl_steps :: "workload_step list"

fun validate_step :: "workload_step \<Rightarrow> unit result" where
  "validate_step (Put key val) = validate_key_value key val"
| "validate_step (Get key) = validate_key key"
| "validate_step (Delete key) = validate_key key"
| "validate_step Reopen = Inr ()"

definition workload_validate :: "workload \<Rightarrow> unit result" where
  "workload_validate w =
     (if wl_format_version w \<noteq> WORKLOAD_FORMAT_VERSION
      then Inl (UnsupportedVersion FmtWorkload (wl_format_version w) WORKLOAD_FORMAT_VERSION)
      else if length (wl_steps w) > MAX_WORKLOAD_STEPS then Inl InvalidInput
      else rfold (\<lambda>_ step. validate_step step) () (wl_steps w))"

fun execute_steps :: "'s kv_ops \<Rightarrow> 's \<Rightarrow> workload_step list \<Rightarrow> outcome list result \<times> 's" where
  "execute_steps E s [] = (Inr [], s)"
| "execute_steps E s (step # rest) =
     (case execute_step E s step of
        (Inl e, s') \<Rightarrow> (Inl e, s')
      | (Inr out, s') \<Rightarrow>
          (case execute_steps E s' rest of (r, s'') \<Rightarrow> (rmap (\<lambda>outs. out # outs) r, s'')))"

definition execute_workload ::
    "'s kv_ops \<Rightarrow> 's \<Rightarrow> workload \<Rightarrow> outcome list result \<times> 's" where
  "execute_workload E s w =
     (case workload_validate w of
        Inl e \<Rightarrow> (Inl e, s)
      | Inr _ \<Rightarrow> execute_steps E s (wl_steps w))"


subsection \<open>The differential harness (differential.rs)\<close>

datatype differential_error =
  InvalidWorkload db_error
| IncompatibleCapabilities
| LeftEngine nat db_error
| RightEngine nat db_error
| Mismatch nat workload_step outcome outcome

record differential_report =
  steps_checked :: nat

fun compare_steps ::
    "'l kv_ops \<Rightarrow> 'r kv_ops \<Rightarrow> 'l \<Rightarrow> 'r \<Rightarrow> nat \<Rightarrow> workload_step list \<Rightarrow>
     (differential_error + unit) \<times> 'l \<times> 'r" where
  "compare_steps L R l r i [] = (Inr (), l, r)"
| "compare_steps L R l r i (step # rest) =
     (case execute_step L l step of
        (Inl e, l') \<Rightarrow> (Inl (LeftEngine i e), l', r)
      | (Inr left, l') \<Rightarrow>
          (case execute_step R r step of
             (Inl e, r') \<Rightarrow> (Inl (RightEngine i e), l', r')
           | (Inr right, r') \<Rightarrow>
               (if left \<noteq> right then (Inl (Mismatch i step left right), l', r')
                else compare_steps L R l' r' (i + 1) rest)))"

definition compare_workload ::
    "'l kv_ops \<Rightarrow> 'r kv_ops \<Rightarrow> 'l \<Rightarrow> 'r \<Rightarrow> workload \<Rightarrow>
     (differential_error + differential_report) \<times> 'l \<times> 'r" where
  "compare_workload L R l r w =
     (case workload_validate w of
        Inl e \<Rightarrow> (Inl (InvalidWorkload e), l, r)
      | Inr _ \<Rightarrow>
          (let lc = op_capabilities L l; rc = op_capabilities R r in
           if ec_logical_model lc \<noteq> ec_logical_model rc then (Inl IncompatibleCapabilities, l, r)
           else if ec_concurrency lc \<noteq> ec_concurrency rc \<or> ec_distribution lc \<noteq> ec_distribution rc
           then (Inl IncompatibleCapabilities, l, r)
           else if ec_max_key_bytes lc \<noteq> ec_max_key_bytes rc \<or>
                   ec_max_value_bytes lc \<noteq> ec_max_value_bytes rc
           then (Inl IncompatibleCapabilities, l, r)
           else case compare_steps L R l r 0 (wl_steps w) of
                  (Inl e, l', r') \<Rightarrow> (Inl e, l', r')
                | (Inr _, l', r') \<Rightarrow> (Inr \<lparr>steps_checked = length (wl_steps w)\<rparr>, l', r')))"


subsection \<open>The abstract semantics\<close>

type_synonym kv_state = "(bytes, bytes) ordmap"

fun spec_step :: "kv_state \<Rightarrow> workload_step \<Rightarrow> outcome \<times> kv_state" where
  "spec_step m (Put key val) = (OPut (om_lookup m key), om_insert key val m)"
| "spec_step m (Get key) = (OGet (om_lookup m key), m)"
| "spec_step m (Delete key) = (ODelete (om_lookup m key), om_remove key m)"
| "spec_step m Reopen = (OReopened, m)"

fun spec_steps :: "kv_state \<Rightarrow> workload_step list \<Rightarrow> outcome list \<times> kv_state" where
  "spec_steps m [] = ([], m)"
| "spec_steps m (step # rest) =
     (case spec_step m step of
        (out, m') \<Rightarrow> (case spec_steps m' rest of (outs, m'') \<Rightarrow> (out # outs, m'')))"

definition spec_range :: "kv_state \<Rightarrow> bytes \<Rightarrow> bytes option \<Rightarrow> nat \<Rightarrow> (bytes \<times> bytes) list" where
  "spec_range m start stop limit = take limit (om_range start stop m)"

definition common_contract :: "engine_capabilities \<Rightarrow> bool" where
  "common_contract c \<longleftrightarrow>
     ec_logical_model c = KeyValue \<and> ec_concurrency c = CallerSerialized \<and>
     ec_distribution c = Standalone \<and>
     ec_max_key_bytes c = MAX_KEY_BYTES \<and> ec_max_value_bytes c = MAX_VALUE_BYTES"


subsection \<open>The engine contract\<close>

text \<open>
  \<open>abs\<close> is the abstraction to the ordered map, \<open>invar\<close> the engine's invariant, and
  \<open>room n s\<close> says that \<open>n\<close> more steps fit the engine's machine counters and files.  An engine
  promises to take the pairs that satisfy \<open>fits\<close>: every valid pair, except for the page-bound B+ tree.
\<close>

fun step_fits :: "(bytes \<Rightarrow> bytes \<Rightarrow> bool) \<Rightarrow> workload_step \<Rightarrow> bool" where
  "step_fits fits (Put k v) \<longleftrightarrow> fits k v"
| "step_fits fits _ \<longleftrightarrow> True"

lemma step_fits_all [simp]: "step_fits (\<lambda>_ _. True) st"
  by (cases st) simp_all

locale kv_model =
  fixes E :: "'s kv_ops"
    and invar :: "'s \<Rightarrow> bool"
    and room :: "nat \<Rightarrow> 's \<Rightarrow> bool"
    and abs :: "'s \<Rightarrow> kv_state"
    and fits :: "bytes \<Rightarrow> bytes \<Rightarrow> bool"
  assumes contract: "common_contract (op_capabilities E s)"
    and put_ok: "invar s \<Longrightarrow> room (Suc n) s \<Longrightarrow> validate_key_value k v = Inr () \<Longrightarrow> fits k v \<Longrightarrow>
      \<exists>s'. op_put E s k v = (Inr (om_lookup (abs s) k), s') \<and> invar s' \<and> room n s' \<and>
        abs s' = om_insert k v (abs s)"
    and get_ok: "invar s \<Longrightarrow> room (Suc n) s \<Longrightarrow> validate_key k = Inr () \<Longrightarrow>
      \<exists>s'. op_get E s k = (Inr (om_lookup (abs s) k), s') \<and> invar s' \<and> room n s' \<and> abs s' = abs s"
    and delete_ok: "invar s \<Longrightarrow> room (Suc n) s \<Longrightarrow> validate_key k = Inr () \<Longrightarrow>
      \<exists>s'. op_delete E s k = (Inr (om_lookup (abs s) k), s') \<and> invar s' \<and> room n s' \<and>
        abs s' = om_remove k (abs s)"
    and reopen_ok: "invar s \<Longrightarrow> room (Suc n) s \<Longrightarrow>
      \<exists>s'. op_reopen E s = (Inr (), s') \<and> invar s' \<and> room n s' \<and> abs s' = abs s"
begin

lemma step_refines:
  assumes "invar s" "room (Suc n) s" "validate_step st = Inr ()" "step_fits fits st"
  shows "\<exists>s'. execute_step E s st = (Inr (fst (spec_step (abs s) st)), s') \<and> invar s' \<and>
    room n s' \<and> abs s' = snd (spec_step (abs s) st)"
proof (cases st)
  case (Put k v)
  then show ?thesis using put_ok [OF assms(1,2), of k v] assms(3,4) by auto
next
  case (Get k)
  then show ?thesis using get_ok [OF assms(1,2), of k] assms(3) by auto
next
  case (Delete k)
  then show ?thesis using delete_ok [OF assms(1,2), of k] assms(3) by auto
next
  case Reopen
  then show ?thesis using reopen_ok [OF assms(1,2)] by auto
qed

lemma steps_refine:
  assumes "invar s" "room (length steps + n) s" "\<forall>st \<in> set steps. validate_step st = Inr () \<and> step_fits fits st"
  shows "\<exists>s'. execute_steps E s steps = (Inr (fst (spec_steps (abs s) steps)), s') \<and> invar s' \<and>
    room n s' \<and> abs s' = snd (spec_steps (abs s) steps)"
  using assms
proof (induction steps arbitrary: s)
  case Nil
  then show ?case by simp
next
  case (Cons st rest)
  then obtain s1 where s1: "execute_step E s st = (Inr (fst (spec_step (abs s) st)), s1)"
    "invar s1" "room (length rest + n) s1" "abs s1 = snd (spec_step (abs s) st)"
    using step_refines [of s "length rest + n" st] by auto
  with Cons obtain s2 where
    "execute_steps E s1 rest = (Inr (fst (spec_steps (abs s1) rest)), s2)" "invar s2"
    "room n s2" "abs s2 = snd (spec_steps (abs s1) rest)"
    by fastforce
  with s1 show ?case by (simp add: case_prod_beta)
qed

end


text \<open>An engine that owns its files also refuses invalid input in every state, before anything else.\<close>

locale kv_engine = kv_model +
  assumes put_invalid: "validate_key_value k v = Inl e \<Longrightarrow> op_put E s k v = (Inl e, s)"
    and get_invalid: "validate_key k = Inl e \<Longrightarrow> op_get E s k = (Inl e, s)"
    and delete_invalid: "validate_key k = Inl e \<Longrightarrow> op_delete E s k = (Inl e, s)"
begin

lemma invalid_step_frame: "validate_step st = Inl e \<Longrightarrow> execute_step E s st = (Inl e, s)"
  by (cases st) (simp_all add: put_invalid get_invalid delete_invalid)

end


text \<open>An engine whose capability advertises ordered scans also promises them.\<close>

locale kv_ordered = kv_engine +
  assumes ordered_flag: "ec_ordered_range_scan (op_capabilities E s)"
    and scan_ok: "invar s \<Longrightarrow> room (Suc n) s \<Longrightarrow> validate_range_scan lo hi = Inr () \<Longrightarrow>
      \<exists>s'. op_range_scan E s lo hi limit = (Inr (spec_range (abs s) lo hi limit), s') \<and>
        invar s' \<and> room n s' \<and> abs s' = abs s"
    and scan_invalid: "validate_range_scan lo hi = Inl e \<Longrightarrow>
      op_range_scan E s lo hi limit = (Inl e, s)"
begin

lemma scan_sound:
  assumes "invar s" "room (Suc n) s" "validate_range_scan lo hi = Inr ()"
    and "op_range_scan E s lo hi limit = (Inr rows, s')"
  shows "length rows \<le> limit \<and> sorted_wrt (<) (map fst rows) \<and>
    (\<forall>(k, v) \<in> set rows. om_lookup (abs s) k = Some v \<and> lo \<le> k \<and> (\<forall>h. hi = Some h \<longrightarrow> k < h))"
proof -
  have rows: "rows = take limit (om_range lo hi (abs s))"
    using scan_ok [OF assms(1-3), of limit] assms(4) by (auto simp: spec_range_def)
  have "al_ord (om_range lo hi (abs s))"
    by (simp add: om_range_def al_ord_filter)
  then have "sorted_wrt (<) (map fst rows)"
    by (simp add: rows al_ord_def sorted_wrt_take flip: take_map)
  moreover have "(\<forall>(k, v) \<in> set rows. om_lookup (abs s) k = Some v \<and> lo \<le> k \<and>
      (\<forall>h. hi = Some h \<longrightarrow> k < h))"
    by (auto simp: rows om_range_def set_entries dest!: in_set_takeD split: option.splits)
  ultimately show ?thesis by (simp add: rows)
qed

end


subsection \<open>The harness on two engines that keep the contract\<close>

lemma workload_validate_Inr [result_iff]:
  "workload_validate w = Inr u \<longleftrightarrow>
     wl_format_version w = WORKLOAD_FORMAT_VERSION \<and> length (wl_steps w) \<le> MAX_WORKLOAD_STEPS \<and>
     (\<forall>st \<in> set (wl_steps w). validate_step st = Inr ())"
proof -
  have "rfold (\<lambda>_ st. validate_step st) () steps = Inr () \<longleftrightarrow>
      (\<forall>st \<in> set steps. validate_step st = Inr ())" for steps
    by (induction steps) (auto simp: result_iff)
  then show ?thesis by (auto simp: workload_validate_def)
qed

locale kv_engine_pair =
  left: kv_model L linvar lroom labs lfits + right: kv_model R rinvar rroom rabs rfits
  for L :: "'l kv_ops" and linvar lroom labs lfits
    and R :: "'r kv_ops" and rinvar rroom rabs rfits
begin

lemma compare_steps_agree:
  assumes "linvar l" "lroom (length steps + n) l" "rinvar r" "rroom (length steps + n) r"
    and "labs l = rabs r" "\<forall>st \<in> set steps. validate_step st = Inr () \<and> step_fits lfits st \<and> step_fits rfits st"
  shows "\<exists>l' r'. compare_steps L R l r i steps = (Inr (), l', r') \<and> linvar l' \<and> rinvar r' \<and>
    labs l' = rabs r' \<and> labs l' = snd (spec_steps (labs l) steps)"
  using assms
proof (induction steps arbitrary: l r i)
  case Nil
  then show ?case by simp
next
  case (Cons st rest)
  obtain l1 where l1: "execute_step L l st = (Inr (fst (spec_step (labs l) st)), l1)"
    "linvar l1" "lroom (length rest + n) l1" "labs l1 = snd (spec_step (labs l) st)"
    using left.step_refines [of l "length rest + n" st] Cons.prems by auto
  obtain r1 where r1: "execute_step R r st = (Inr (fst (spec_step (rabs r) st)), r1)"
    "rinvar r1" "rroom (length rest + n) r1" "rabs r1 = snd (spec_step (rabs r) st)"
    using right.step_refines [of r "length rest + n" st] Cons.prems by auto
  from Cons.IH [of l1 r1 "i + 1"] l1 r1 Cons.prems
  show ?case by (auto simp: case_prod_beta)
qed

lemma compare_workload_agrees:
  assumes "linvar l" "lroom (length (wl_steps w)) l" "rinvar r" "rroom (length (wl_steps w)) r"
    and "labs l = rabs r" "workload_validate w = Inr ()"
    and "\<forall>st \<in> set (wl_steps w). step_fits lfits st \<and> step_fits rfits st"
  shows "\<exists>l' r'. compare_workload L R l r w = (Inr \<lparr>steps_checked = length (wl_steps w)\<rparr>, l', r') \<and>
    linvar l' \<and> rinvar r' \<and> labs l' = rabs r' \<and>
    labs l' = snd (spec_steps (labs l) (wl_steps w))"
proof -
  have "\<forall>st \<in> set (wl_steps w). validate_step st = Inr () \<and> step_fits lfits st \<and> step_fits rfits st"
    using assms(6,7) by (simp add: result_iff)
  from compare_steps_agree [of l "wl_steps w" 0 r 0, OF _ _ _ _ assms(5) this] assms
  obtain l' r' where "compare_steps L R l r 0 (wl_steps w) = (Inr (), l', r')"
    "linvar l'" "rinvar r'" "labs l' = rabs r'" "labs l' = snd (spec_steps (labs l) (wl_steps w))"
    by auto
  then show ?thesis
    using assms(6) left.contract [of l] right.contract [of r]
    by (simp add: compare_workload_def Let_def common_contract_def)
qed

end

end
