(* ===== verification/WorkloadGen.thy ===== *)
theory WorkloadGen
  imports KvEngine
begin

text \<open>
  The deterministic workload generator of \<open>crates/db-core/src/workload.rs\<close>: the SplitMix64
  generator on 64-bit words, whose additions and multiplications wrap, the key and value
  construction, and \<open>generate_workload\<close>.  The lemmas show that every accepted configuration
  gives a workload that passes its own validation, with the step count computed up front.
\<close>

subsection \<open>SplitMix64\<close>

definition splitmix_next :: "64 word \<Rightarrow> 64 word \<times> 64 word" where
  "splitmix_next state0 =
     (let state = state0 + 0x9e3779b97f4a7c15;
          v0 = state;
          v1 = (v0 XOR drop_bit 30 v0) * 0xbf58476d1ce4e5b9;
          v2 = (v1 XOR drop_bit 27 v1) * 0x94d049bb133111eb
      in (v2 XOR drop_bit 31 v2, state))"

definition splitmix_bounded :: "64 word \<Rightarrow> 64 word \<Rightarrow> 64 word \<times> 64 word" where
  "splitmix_bounded state upper_exclusive =
     (case splitmix_next state of (v, state') \<Rightarrow> (v mod upper_exclusive, state'))"

text \<open>\<open>fill\<close> on a buffer of \<open>n\<close> bytes; each chunk of at most eight bytes takes one output.\<close>

function splitmix_fill :: "nat \<Rightarrow> 64 word \<Rightarrow> bytes \<times> 64 word" where
  "splitmix_fill n state =
     (if n = 0 then ([], state)
      else case splitmix_next state of (random, state') \<Rightarrow>
             (let chunk = take (min 8 n) (le_bytes 8 (unat random))
              in case splitmix_fill (n - min 8 n) state' of
                   (rest, state'') \<Rightarrow> (chunk @ rest, state'')))"
  by pat_completeness auto
termination by (relation "measure fst") auto

declare splitmix_fill.simps [simp del]

definition generated_key :: "32 word \<Rightarrow> bytes" where
  "generated_key key_id = (if key_id = 0 then [] else le_bytes 4 (unat key_id))"


subsection \<open>The generator\<close>

record generator_config =
  gc_seed :: "64 word"
  gc_operations :: "32 word"
  gc_key_space :: "32 word"
  gc_max_value_bytes :: "32 word"
  gc_reopen_every :: "32 word option"

definition generate_operation ::
    "generator_config \<Rightarrow> 64 word \<Rightarrow> workload_step \<times> 64 word" where
  "generate_operation config state0 =
     (case splitmix_bounded state0 (ucast (gc_key_space config)) of (key_id, state1) \<Rightarrow>
        (let key = generated_key (ucast key_id)
         in case splitmix_bounded state1 100 of (choice, state2) \<Rightarrow>
              (if choice \<le> 49
               then case splitmix_bounded state2 (ucast (gc_max_value_bytes config) + 1) of
                      (len, state3) \<Rightarrow>
                        (case splitmix_fill (unat len) state3 of
                           (val, state4) \<Rightarrow> (Put key val, state4))
               else if choice \<le> 79 then (Get key, state2)
               else (Delete key, state2))))"

text \<open>The loop \<open>for operation_index in 0..operations\<close>, with \<open>n\<close> iterations left.\<close>

fun generate_steps :: "generator_config \<Rightarrow> nat \<Rightarrow> nat \<Rightarrow> 64 word \<Rightarrow> workload_step list" where
  "generate_steps config i 0 state = []"
| "generate_steps config i (Suc n) state =
     (case generate_operation config state of (step, state') \<Rightarrow>
        step #
        ((case gc_reopen_every config of
            None \<Rightarrow> []
          | Some every \<Rightarrow> if (i + 1) mod unat every = 0 then [Reopen] else []) @
         generate_steps config (i + 1) n state'))"

definition generated_reopens :: "generator_config \<Rightarrow> nat" where
  "generated_reopens config =
     (case gc_reopen_every config of
        None \<Rightarrow> 0 | Some every \<Rightarrow> unat (gc_operations config div every))"

definition generate_workload :: "generator_config \<Rightarrow> workload result" where
  "generate_workload config =
     (if gc_key_space config = 0 then Inl InvalidInput
      else if unat (gc_max_value_bytes config) > MAX_VALUE_BYTES then Inl InvalidInput
      else if gc_reopen_every config = Some 0 then Inl InvalidInput
      else rbind (ok_or (checked_add64 (unat (gc_operations config)) (generated_reopens config))
                   InvalidInput) (\<lambda>capacity.
        if capacity > MAX_WORKLOAD_STEPS then Inl InvalidInput
        else Inr \<lparr>wl_format_version = WORKLOAD_FORMAT_VERSION,
                  wl_seed = Some (gc_seed config),
                  wl_steps = generate_steps config 0 (unat (gc_operations config))
                               (gc_seed config)\<rparr>))"


subsection \<open>The generated steps are valid and counted\<close>

lemma length_splitmix_fill: "length (fst (splitmix_fill n state)) = n"
proof (induction n state rule: splitmix_fill.induct)
  case (1 n state)
  show ?case
    by (subst splitmix_fill.simps) (auto simp: 1 Let_def split: prod.splits; use 1 in force)
qed

lemma length_generated_key: "length (generated_key key_id) \<le> 4"
  by (simp add: generated_key_def)

lemma unat_splitmix_bounded:
  "0 < n \<Longrightarrow> unat (fst (splitmix_bounded state n)) < unat n"
  by (auto simp: splitmix_bounded_def unat_mod_distrib word_gt_0 unat_gt_0 split: prod.splits)

definition logical_step :: "workload_step \<Rightarrow> bool" where
  "logical_step step = (step \<noteq> Reopen)"

lemma unat_ucast_plus1: "unat (ucast (n :: 32 word) + 1 :: 64 word) = unat n + 1"
proof -
  have "unat n < 2 ^ LENGTH(32)" by (rule unsigned_less)
  then have n: "unat n < 2 ^ 32" by simp
  then have u: "unat (ucast n :: 64 word) = unat n"
    by (simp add: unsigned_ucast_eq take_bit_nat_eq_self)
  show ?thesis
    using n by (simp add: unat_word_ariths u)
qed

lemma generate_operation_valid:
  assumes "unat (gc_max_value_bytes config) \<le> MAX_VALUE_BYTES"
  shows "validate_step (fst (generate_operation config state)) = Inr () \<and>
    logical_step (fst (generate_operation config state))"
proof -
  have key: "length (generated_key k) \<le> MAX_KEY_BYTES" for k
    using length_generated_key [of k] by (simp add: MAX_KEY_BYTES_def)
  have len: "unat (fst (splitmix_bounded s (ucast (gc_max_value_bytes config) + 1))) \<le> MAX_VALUE_BYTES" for s
    using unat_splitmix_bounded [of "ucast (gc_max_value_bytes config) + 1" s] assms
    by (simp add: unat_ucast_plus1 word_gt_0 flip: unat_gt_0)
  then have fill: "length (fst (splitmix_fill
      (unat (fst (splitmix_bounded s (ucast (gc_max_value_bytes config) + 1)))) s')) \<le> MAX_VALUE_BYTES" for s s'
    by (simp add: length_splitmix_fill)
  show ?thesis
    by (simp add: generate_operation_def Let_def case_prod_beta logical_step_def result_iff key fill)
qed

lemma generate_steps_Suc:
  "generate_steps config i (Suc n) state =
     fst (generate_operation config state) #
     ((case gc_reopen_every config of
         None \<Rightarrow> []
       | Some every \<Rightarrow> if (i + 1) mod unat every = 0 then [Reopen] else []) @
      generate_steps config (i + 1) n (snd (generate_operation config state)))"
  by (simp add: case_prod_beta)

lemma generate_steps_valid:
  assumes "unat (gc_max_value_bytes config) \<le> MAX_VALUE_BYTES"
  shows "\<forall>step \<in> set (generate_steps config i n state). validate_step step = Inr ()"
  using generate_operation_valid [OF assms]
  by (induction n arbitrary: i state)
     (auto simp: generate_steps_Suc simp del: generate_steps.simps(2) split: option.splits if_splits)

lemma count_logical_generate_steps:
  assumes "unat (gc_max_value_bytes config) \<le> MAX_VALUE_BYTES"
  shows "length (filter logical_step (generate_steps config i n state)) = n"
  using generate_operation_valid [OF assms]
  by (induction n arbitrary: i state)
     (auto simp: generate_steps_Suc logical_step_def simp del: generate_steps.simps(2)
       split: option.splits)

lemma count_reopen_generate_steps:
  assumes mv: "unat (gc_max_value_bytes config) \<le> MAX_VALUE_BYTES"
  shows "(case gc_reopen_every config of
      None \<Rightarrow> length (generate_steps config i n state) = n
    | Some every \<Rightarrow> every \<noteq> 0 \<longrightarrow>
        i div unat every + length (generate_steps config i n state) = n + (i + n) div unat every)"
proof (induction n arbitrary: i state)
  case 0
  show ?case by (simp split: option.splits)
next
  case (Suc n)
  show ?case
  proof (cases "gc_reopen_every config")
    case None
    then show ?thesis using Suc [of "i + 1"] by (simp add: generate_steps_Suc del: generate_steps.simps(2))
  next
    case (Some every)
    have "i div unat every + length (generate_steps config i (Suc n) state) =
        Suc n + (i + Suc n) div unat every" if "every \<noteq> 0"
    proof -
      have "0 < unat every" using that by (simp add: unat_gt_0)
      then have "Suc i div unat every = i div unat every + (if Suc i mod unat every = 0 then 1 else 0)"
        by (simp add: div_Suc)
      then show ?thesis
        using Suc [of "i + 1" "snd (generate_operation config state)"] Some that
        by (simp add: generate_steps_Suc del: generate_steps.simps(2) split: if_splits)
    qed
    then show ?thesis by (simp add: Some)
  qed
qed

lemma length_generate_steps:
  assumes "unat (gc_max_value_bytes config) \<le> MAX_VALUE_BYTES" "gc_reopen_every config \<noteq> Some 0"
  shows "length (generate_steps config 0 (unat (gc_operations config)) state) =
    unat (gc_operations config) + generated_reopens config"
  using count_reopen_generate_steps [OF assms(1), of 0 "unat (gc_operations config)" state] assms(2)
  by (auto simp: generated_reopens_def unat_div_distrib split: option.splits)


subsection \<open>Properties\<close>

text \<open>The generator accepts exactly the configurations within its limits, rejecting every
  other as invalid input; an accepted one yields a workload that passes \<open>validate\<close>, records the
  seed, holds exactly \<open>operations\<close> logical actions and exactly the number of reopen actions the
  capacity computation predicted.\<close>

theorem generate_workload_correct:
  "generate_workload config =
     (if gc_key_space config \<noteq> 0 \<and> unat (gc_max_value_bytes config) \<le> MAX_VALUE_BYTES \<and>
         gc_reopen_every config \<noteq> Some 0 \<and>
         unat (gc_operations config) + generated_reopens config \<le> MAX_WORKLOAD_STEPS
      then Inr \<lparr>wl_format_version = WORKLOAD_FORMAT_VERSION, wl_seed = Some (gc_seed config),
                wl_steps = generate_steps config 0 (unat (gc_operations config)) (gc_seed config)\<rparr>
      else Inl InvalidInput) \<and>
   (\<forall>w. generate_workload config = Inr w \<longrightarrow>
      workload_validate w = Inr () \<and>
      length (filter logical_step (wl_steps w)) = unat (gc_operations config) \<and>
      length (filter (\<lambda>st. st = Reopen) (wl_steps w)) = generated_reopens config)"
proof (intro conjI allI impI)
  show eq: "generate_workload config = (if gc_key_space config \<noteq> 0 \<and>
      unat (gc_max_value_bytes config) \<le> MAX_VALUE_BYTES \<and> gc_reopen_every config \<noteq> Some 0 \<and>
      unat (gc_operations config) + generated_reopens config \<le> MAX_WORKLOAD_STEPS
      then Inr \<lparr>wl_format_version = WORKLOAD_FORMAT_VERSION, wl_seed = Some (gc_seed config),
                wl_steps = generate_steps config 0 (unat (gc_operations config)) (gc_seed config)\<rparr>
      else Inl InvalidInput)"
    by (simp add: generate_workload_def checked_add64_def MAX_WORKLOAD_STEPS_def u64_max_def)
  fix w assume "generate_workload config = Inr w"
  with eq have mv: "unat (gc_max_value_bytes config) \<le> MAX_VALUE_BYTES"
    and re: "gc_reopen_every config \<noteq> Some 0"
    and cap: "unat (gc_operations config) + generated_reopens config \<le> MAX_WORKLOAD_STEPS"
    and w: "w = \<lparr>wl_format_version = WORKLOAD_FORMAT_VERSION, wl_seed = Some (gc_seed config),
                wl_steps = generate_steps config 0 (unat (gc_operations config)) (gc_seed config)\<rparr>"
    by (auto split: if_splits)
  show "workload_validate w = Inr ()"
    using generate_steps_valid [OF mv] cap
    by (simp add: w result_iff length_generate_steps [OF mv re])
  show logical: "length (filter logical_step (wl_steps w)) = unat (gc_operations config)"
    by (simp add: w count_logical_generate_steps [OF mv])
  have "length (filter logical_step (wl_steps w)) + length (filter (\<lambda>st. st = Reopen) (wl_steps w)) =
      length (wl_steps w)"
    using sum_length_filter_compl [of logical_step "wl_steps w"] by (simp add: logical_step_def)
  then show "length (filter (\<lambda>st. st = Reopen) (wl_steps w)) = generated_reopens config"
    using logical by (simp add: w length_generate_steps [OF mv re])
qed


lemma generate_workload_witness:
  "\<exists>w. generate_workload \<lparr>gc_seed = 0x5eed, gc_operations = 100, gc_key_space = 8,
      gc_max_value_bytes = 32, gc_reopen_every = Some 7\<rparr> = Inr w \<and>
    workload_validate w = Inr () \<and> length (filter (\<lambda>st. st = Reopen) (wl_steps w)) = 14"
proof -
  let ?c = "\<lparr>gc_seed = 0x5eed, gc_operations = 100, gc_key_space = 8,
      gc_max_value_bytes = 32, gc_reopen_every = Some 7\<rparr>"
  have "generated_reopens ?c = 14" by (simp add: generated_reopens_def)
  note correct = generate_workload_correct [of ?c] this
  obtain w where "generate_workload ?c = Inr w"
    using correct by (simp add: MAX_VALUE_BYTES_def MAX_WORKLOAD_STEPS_def)
  then show ?thesis
    using correct by auto
qed

end
