(* ===== verification/Shrink.thy ===== *)
theory Shrink
  imports KvEngine "HOL-Library.Sublist"
begin

text \<open>
  Workload minimisation (\<open>crates/db-core/src/shrink.rs\<close>): the chunk-removal pass whose
  granularity adapts, then single-step deletion.  The caller's predicate is a function that
  answers or fails, \<open>of_db\<close> is the caller's \<open>From<DbError>\<close>.  Both loops are partial functions:
  a call that does not return is \<open>None\<close>, and the lemmas prove that every call returns.
\<close>

subsection \<open>The minimiser\<close>

definition without_range :: "workload \<Rightarrow> nat \<Rightarrow> nat \<Rightarrow> workload" where
  "without_range w start stop = w\<lparr>wl_steps := take start (wl_steps w) @ drop stop (wl_steps w)\<rparr>"

text \<open>The inner loop of the chunk pass: the first removable chunk at or after \<open>start\<close>.\<close>

partial_function (option) find_chunk ::
    "(workload \<Rightarrow> 'e + bool) \<Rightarrow> workload \<Rightarrow> nat \<Rightarrow> nat \<Rightarrow> ('e + workload option) option" where
  "find_chunk p current chunk_size start =
     (let len = length (wl_steps current) in
      if \<not> start < len then Some (Inr None)
      else let stop = min (saturating_add64 start chunk_size) len in
        if stop - start = len then Some (Inr None)
        else let candidate = without_range current start stop in
          case p candidate of
            Inl e \<Rightarrow> Some (Inl e)
          | Inr reproduces \<Rightarrow>
              if reproduces then Some (Inr (Some candidate))
              else find_chunk p current chunk_size stop)"

partial_function (option) chunk_pass ::
    "(workload \<Rightarrow> 'e + bool) \<Rightarrow> workload \<Rightarrow> nat \<Rightarrow> ('e + workload) option" where
  "chunk_pass p current granularity =
     (let len = length (wl_steps current) in
      if \<not> 2 \<le> len then Some (Inr current)
      else Option.bind (find_chunk p current ((len + granularity - 1) div granularity) 0) (\<lambda>r.
        case r of
          Inl e \<Rightarrow> Some (Inl e)
        | Inr reduced \<Rightarrow>
            (case reduced of
               Some candidate \<Rightarrow> chunk_pass p candidate (max (granularity - 1) 2)
             | None \<Rightarrow>
                 if granularity \<ge> len then Some (Inr current)
                 else chunk_pass p current (min (min (granularity * 2) u64_max) len))))"

partial_function (option) single_pass ::
    "(workload \<Rightarrow> 'e + bool) \<Rightarrow> workload \<Rightarrow> nat \<Rightarrow> ('e + workload) option" where
  "single_pass p current index =
     (if \<not> index < length (wl_steps current) then Some (Inr current)
      else let candidate = without_range current index (index + 1) in
        case p candidate of
          Inl e \<Rightarrow> Some (Inl e)
        | Inr reproduces \<Rightarrow>
            if reproduces then single_pass p candidate 0 else single_pass p current (index + 1))"

definition minimize_failing_workload ::
    "(db_error \<Rightarrow> 'e) \<Rightarrow> (workload \<Rightarrow> 'e + bool) \<Rightarrow> workload \<Rightarrow> ('e + workload) option" where
  "minimize_failing_workload of_db p w =
     (case workload_validate w of
        Inl e \<Rightarrow> Some (Inl (of_db e))
      | Inr _ \<Rightarrow>
          (case p w of
             Inl e \<Rightarrow> Some (Inl e)
           | Inr False \<Rightarrow> Some (Inl (of_db InvalidInput))
           | Inr True \<Rightarrow>
               Option.bind (chunk_pass p w 2) (\<lambda>r.
                 case r of Inl e \<Rightarrow> Some (Inl e) | Inr current \<Rightarrow> single_pass p current 0)))"


subsection \<open>Candidates are sub-workloads\<close>

definition sub_workload :: "workload \<Rightarrow> workload \<Rightarrow> bool" where
  "sub_workload c w \<longleftrightarrow> wl_format_version c = wl_format_version w \<and> wl_seed c = wl_seed w \<and>
     subseq (wl_steps c) (wl_steps w)"

lemma sub_workload_refl [simp]: "sub_workload w w"
  by (simp add: sub_workload_def)

lemma sub_workload_trans: "sub_workload a b \<Longrightarrow> sub_workload b c \<Longrightarrow> sub_workload a c"
  by (auto simp: sub_workload_def intro: subseq_order.order_trans)

lemma sub_workload_length: "sub_workload c w \<Longrightarrow> length (wl_steps c) \<le> length (wl_steps w)"
  by (auto simp: sub_workload_def dest: list_emb_length)

lemma subseq_subset: "subseq xs ys \<Longrightarrow> set xs \<subseteq> set ys"
  by (induction rule: list_emb.induct) auto

lemma sub_workload_valid:
  "sub_workload c w \<Longrightarrow> workload_validate w = Inr () \<Longrightarrow> workload_validate c = Inr ()"
  using sub_workload_length [of c w]
  by (auto simp: sub_workload_def result_iff dest!: subseq_subset)

lemma sub_workload_without_range: "i \<le> j \<Longrightarrow> sub_workload (without_range w i j) w"
proof -
  assume "i \<le> j"
  then have "subseq (drop j (wl_steps w)) (drop i (wl_steps w))"
    by (metis drop_drop le_add_diff_inverse2 suffix_drop suffix_imp_subseq)
  then have "subseq (take i (wl_steps w) @ drop j (wl_steps w))
      (take i (wl_steps w) @ drop i (wl_steps w))"
    by (intro list_emb_append_mono) simp_all
  then show ?thesis by (simp add: sub_workload_def without_range_def)
qed

lemma length_without_range:
  "i < j \<Longrightarrow> j \<le> length (wl_steps w) \<Longrightarrow>
     length (wl_steps (without_range w i j)) < length (wl_steps w)"
  by (simp add: without_range_def)


subsection \<open>Each loop returns\<close>

text \<open>\<open>shrunk p w r\<close>: what any of the loops may return when started on \<open>w\<close>.\<close>

definition shrunk :: "(workload \<Rightarrow> 'e + bool) \<Rightarrow> workload \<Rightarrow> 'e + workload \<Rightarrow> bool" where
  "shrunk p w r =
     (case r of
        Inl e \<Rightarrow> (\<exists>c. sub_workload c w \<and> p c = Inl e)
      | Inr m \<Rightarrow> sub_workload m w \<and> p m = Inr True)"

lemma shrunk_mono: "sub_workload c w \<Longrightarrow> shrunk p c r \<Longrightarrow> shrunk p w r"
  by (auto simp: shrunk_def intro: sub_workload_trans split: sum.splits)

lemma find_chunk_returns:
  assumes "0 < chunk" "length (wl_steps w) \<le> u64_max"
  shows "\<exists>r. find_chunk p w chunk start = Some r \<and>
    (case r of
       Inl e \<Rightarrow> \<exists>c. sub_workload c w \<and> p c = Inl e
     | Inr None \<Rightarrow> True
     | Inr (Some c) \<Rightarrow> sub_workload c w \<and> p c = Inr True \<and> length (wl_steps c) < length (wl_steps w))"
proof (induction "length (wl_steps w) - start" arbitrary: start rule: less_induct)
  case less
  let ?n = "length (wl_steps w)"
  let ?stop = "min (saturating_add64 start chunk) ?n"
  show ?case
  proof (cases "start < ?n \<and> ?stop - start \<noteq> ?n")
    case False
    then show ?thesis by (subst find_chunk.simps) (auto simp: Let_def)
  next
    case True
    let ?c = "without_range w start ?stop"
    have lt: "start < ?stop" "?stop \<le> ?n"
      using True assms by (auto simp: saturating_add64_def)
    then have c: "sub_workload ?c w" "length (wl_steps ?c) < ?n"
      by (auto intro!: sub_workload_without_range length_without_range simp del: min_less_iff_conj)
    show ?thesis
    proof (cases "p ?c")
      case (Inl e)
      with True c show ?thesis by (subst find_chunk.simps) (auto simp: Let_def)
    next
      case (Inr b)
      show ?thesis
      proof (cases b)
        case True
        with Inr c \<open>start < ?n \<and> _\<close> show ?thesis by (subst find_chunk.simps) (auto simp: Let_def)
      next
        case False
        have "?n - ?stop < ?n - start" using lt by linarith
        from less.hyps [OF this] Inr False \<open>start < ?n \<and> _\<close> show ?thesis
          by (subst find_chunk.simps) (simp add: Let_def)
      qed
    qed
  qed
qed

lemma chunk_pass_returns:
  assumes "2 \<le> g" "length (wl_steps w) \<le> MAX_WORKLOAD_STEPS" "p w = Inr True"
  shows "\<exists>r. chunk_pass p w g = Some r \<and> shrunk p w r"
  using assms
proof (induction "(length (wl_steps w), length (wl_steps w) - g)" arbitrary: w g
    rule: wf_induct_rule [OF wf_lex_prod [OF wf_less_than wf_less_than]])
  case (1 w g)
  let ?n = "length (wl_steps w)"
  show ?case
  proof (cases "2 \<le> ?n")
    case False
    with "1.prems" show ?thesis by (subst chunk_pass.simps) (simp add: shrunk_def)
  next
    case True
    let ?chunk = "(?n + g - 1) div g"
    have "0 < ?chunk" using True "1.prems"(1) by (simp add: div_greater_zero_iff)
    moreover have n: "?n \<le> u64_max"
      using "1.prems"(2) by (simp add: MAX_WORKLOAD_STEPS_def u64_max_def)
    ultimately obtain r where r: "find_chunk p w ?chunk 0 = Some r" and
      post: "case r of Inl e \<Rightarrow> \<exists>c. sub_workload c w \<and> p c = Inl e | Inr None \<Rightarrow> True
        | Inr (Some c) \<Rightarrow> sub_workload c w \<and> p c = Inr True \<and> length (wl_steps c) < ?n"
      using find_chunk_returns by blast
    consider (err) e where "r = Inl e" | (none) "r = Inr None" | (found) c where "r = Inr (Some c)"
      by (metis option.exhaust sum.exhaust)
    then show ?thesis
    proof cases
      case err
      with r post True show ?thesis by (subst chunk_pass.simps) (auto simp: Let_def shrunk_def)
    next
      case found
      with post have c: "sub_workload c w" "p c = Inr True" "length (wl_steps c) < ?n" by auto
      then obtain r' where "chunk_pass p c (max (g - 1) 2) = Some r'" "shrunk p c r'"
        using "1.hyps" [of c "max (g - 1) 2"] "1.prems"(2) by auto
      with found r True c shrunk_mono show ?thesis
        by (subst chunk_pass.simps) (auto simp: Let_def)
    next
      case none
      show ?thesis
      proof (cases "g \<ge> ?n")
        case True
        with none r \<open>2 \<le> ?n\<close> "1.prems" show ?thesis
          by (subst chunk_pass.simps) (simp add: Let_def shrunk_def)
      next
        case False
        let ?g = "min (min (g * 2) u64_max) ?n"
        have "g < ?g" using False n "1.prems"(1) by auto
        then obtain r' where "chunk_pass p w ?g = Some r'" "shrunk p w r'"
          using "1.hyps" [of w ?g] "1.prems" False by force
        with none r True False show ?thesis
          by (subst chunk_pass.simps) (auto simp: Let_def)
      qed
    qed
  qed
qed

text \<open>The last pass also leaves a workload none of whose steps can be removed.\<close>

definition one_minimal :: "(workload \<Rightarrow> 'e + bool) \<Rightarrow> workload \<Rightarrow> bool" where
  "one_minimal p m = (\<forall>i < length (wl_steps m). p (without_range m i (i + 1)) = Inr False)"

lemma single_pass_returns:
  assumes "p w = Inr True" "\<forall>j < i. j < length (wl_steps w) \<longrightarrow> p (without_range w j (j + 1)) = Inr False"
  shows "\<exists>r. single_pass p w i = Some r \<and> shrunk p w r \<and>
    (\<forall>m. r = Inr m \<longrightarrow> one_minimal p m)"
  using assms
proof (induction "(length (wl_steps w), length (wl_steps w) - i)" arbitrary: w i
    rule: wf_induct_rule [OF wf_lex_prod [OF wf_less_than wf_less_than]])
  case (1 w i)
  let ?n = "length (wl_steps w)"
  let ?c = "without_range w i (i + 1)"
  show ?case
  proof (cases "i < ?n")
    case False
    with "1.prems" show ?thesis
      by (subst single_pass.simps) (auto simp: shrunk_def one_minimal_def)
  next
    case True
    then have c: "sub_workload ?c w" "length (wl_steps ?c) < ?n"
      by (auto intro!: sub_workload_without_range length_without_range)
    consider (err) e where "p ?c = Inl e" | (yes) "p ?c = Inr True" | (no) "p ?c = Inr False"
      by (metis sum.exhaust bool.exhaust)
    then show ?thesis
    proof cases
      case err
      with True c show ?thesis
        by (subst single_pass.simps) (auto simp: Let_def shrunk_def)
    next
      case yes
      with "1.hyps" [of ?c 0] c obtain r where "single_pass p ?c 0 = Some r" "shrunk p ?c r"
        "\<forall>m. r = Inr m \<longrightarrow> one_minimal p m" by auto
      with yes True c shrunk_mono show ?thesis
        by (subst single_pass.simps) (auto simp: Let_def)
    next
      case no
      have "\<forall>j < i + 1. j < ?n \<longrightarrow> p (without_range w j (j + 1)) = Inr False"
        using "1.prems"(2) no by (auto simp: less_Suc_eq)
      moreover have "((?n, ?n - (i + 1)), ?n, ?n - i) \<in> less_than <*lex*> less_than"
        using True by simp
      ultimately obtain r where "single_pass p w (i + 1) = Some r"
        "shrunk p w r" "\<forall>m. r = Inr m \<longrightarrow> one_minimal p m"
        using "1.hyps" [of w "i + 1"] "1.prems"(1) by blast
      with no True show ?thesis
        by (subst single_pass.simps) (auto simp: Let_def)
    qed
  qed
qed

text \<open>C33 (shrink): minimisation always returns.  It refuses an invalid workload with the
  validation error and a workload that does not reproduce the failure as invalid input; the only
  other error is one the predicate raised on a sub-workload; and a result is a valid
  sub-workload with the original metadata that still reproduces the failure and from which no
  single step can be removed.\<close>

theorem minimize_failing_workload_correct:
  "\<exists>r. minimize_failing_workload of_db p w = Some r \<and>
     (case r of
        Inl e \<Rightarrow>
          (\<exists>d. workload_validate w = Inl d \<and> e = of_db d) \<or>
          p w = Inr False \<and> e = of_db InvalidInput \<or>
          (\<exists>c. sub_workload c w \<and> p c = Inl e)
      | Inr m \<Rightarrow>
          sub_workload m w \<and> workload_validate m = Inr () \<and> p m = Inr True \<and> one_minimal p m)"
proof (cases "workload_validate w")
  case (Inl d)
  then show ?thesis by (auto simp: minimize_failing_workload_def)
next
  case (Inr u)
  then have valid: "workload_validate w = Inr ()" by simp
  consider (err) e where "p w = Inl e" | (no) "p w = Inr False" | (yes) "p w = Inr True"
    by (metis sum.exhaust bool.exhaust)
  then show ?thesis
  proof cases
    case err
    with valid show ?thesis
      by (auto simp: minimize_failing_workload_def intro!: exI [of _ w])
  next
    case no
    with valid show ?thesis by (auto simp: minimize_failing_workload_def)
  next
    case yes
    have "length (wl_steps w) \<le> MAX_WORKLOAD_STEPS"
      using valid by (simp add: result_iff)
    with yes obtain r where r: "chunk_pass p w 2 = Some r" "shrunk p w r"
      using chunk_pass_returns [of 2 w p] by auto
    show ?thesis
    proof (cases r)
      case (Inl e)
      with r yes valid show ?thesis
        by (auto simp: minimize_failing_workload_def shrunk_def)
    next
      case (Inr c)
      with r have c: "sub_workload c w" "p c = Inr True" by (auto simp: shrunk_def)
      then obtain r' where r': "single_pass p c 0 = Some r'" "shrunk p c r'"
          "\<forall>m. r' = Inr m \<longrightarrow> one_minimal p m"
        using single_pass_returns [of p c 0] by auto
      from shrunk_mono [OF c(1) r'(2)] have "shrunk p w r'" .
      with r r' Inr yes valid show ?thesis
        by (cases r') (auto simp: minimize_failing_workload_def shrunk_def
          dest: sub_workload_valid)
    qed
  qed
qed


lemma minimize_failing_workload_witness:
  "\<exists>m. minimize_failing_workload id (\<lambda>w. Inr (Reopen \<in> set (wl_steps w)))
       \<lparr>wl_format_version = 1, wl_seed = Some 42, wl_steps = [Get [], Reopen, Delete [7]]\<rparr> = Some (Inr m) \<and>
     wl_seed m = Some 42 \<and> Reopen \<in> set (wl_steps m)"
proof -
  let ?w = "\<lparr>wl_format_version = 1, wl_seed = Some 42, wl_steps = [Get [], Reopen, Delete [7]]\<rparr>"
  let ?p = "\<lambda>w. Inr (Reopen \<in> set (wl_steps w)) :: db_error + bool"
  have "workload_validate ?w = Inr ()"
    by (simp add: result_iff WORKLOAD_FORMAT_VERSION_def MAX_WORKLOAD_STEPS_def MAX_KEY_BYTES_def)
  moreover obtain r where "minimize_failing_workload id ?p ?w = Some r"
      "case r of
         Inl e \<Rightarrow>
           (\<exists>d. workload_validate ?w = Inl d \<and> e = id d) \<or>
           ?p ?w = Inr False \<and> e = id InvalidInput \<or> (\<exists>c. sub_workload c ?w \<and> ?p c = Inl e)
       | Inr m \<Rightarrow>
           sub_workload m ?w \<and> workload_validate m = Inr () \<and> ?p m = Inr True \<and> one_minimal ?p m"
    using minimize_failing_workload_correct [of id ?p ?w] by blast
  ultimately show ?thesis
    by (cases r) (auto simp: sub_workload_def)
qed

end
