(* ===== verification/MemoryEngine.thy ===== *)
theory MemoryEngine
  imports KvEngine
begin

text \<open>
  The in-memory reference engine (\<open>crates/db-storage-memory/src/lib.rs\<close>): a \<open>BTreeMap\<close> behind
  the common trait.  It is the oracle of the differential harness; the interpretation below
  shows that it keeps the whole contract with no room condition at all.
\<close>

record memory_engine =
  mem_values :: kv_state

definition memory_new :: memory_engine where
  "memory_new = \<lparr>mem_values = om_empty\<rparr>"

definition memory_len :: "memory_engine \<Rightarrow> nat" where
  "memory_len e = om_size (mem_values e)"

definition memory_is_empty :: "memory_engine \<Rightarrow> bool" where
  "memory_is_empty e = (om_size (mem_values e) = 0)"

definition memory_capabilities :: "memory_engine \<Rightarrow> engine_capabilities" where
  "memory_capabilities e =
     \<lparr>ec_logical_model = KeyValue, ec_storage_architecture = InMemoryReference,
      ec_concurrency = CallerSerialized, ec_persistence = Volatile,
      ec_crash_recovery = NoRecovery, ec_distribution = Standalone,
      ec_ordered_range_scan = True, ec_max_key_bytes = MAX_KEY_BYTES,
      ec_max_value_bytes = MAX_VALUE_BYTES\<rparr>"

definition memory_put ::
    "memory_engine \<Rightarrow> bytes \<Rightarrow> bytes \<Rightarrow> bytes option result \<times> memory_engine" where
  "memory_put e key val =
     (case validate_key_value key val of
        Inl err \<Rightarrow> (Inl err, e)
      | Inr _ \<Rightarrow> (Inr (om_lookup (mem_values e) key),
                  e\<lparr>mem_values := om_insert key val (mem_values e)\<rparr>))"

definition memory_get :: "memory_engine \<Rightarrow> bytes \<Rightarrow> bytes option result \<times> memory_engine" where
  "memory_get e key =
     (case validate_key key of
        Inl err \<Rightarrow> (Inl err, e)
      | Inr _ \<Rightarrow> (Inr (om_lookup (mem_values e) key), e))"

definition memory_delete :: "memory_engine \<Rightarrow> bytes \<Rightarrow> bytes option result \<times> memory_engine" where
  "memory_delete e key =
     (case validate_key key of
        Inl err \<Rightarrow> (Inl err, e)
      | Inr _ \<Rightarrow> (Inr (om_lookup (mem_values e) key),
                  e\<lparr>mem_values := om_remove key (mem_values e)\<rparr>))"

definition memory_range_scan ::
    "memory_engine \<Rightarrow> bytes \<Rightarrow> bytes option \<Rightarrow> nat \<Rightarrow>
       (bytes \<times> bytes) list result \<times> memory_engine" where
  "memory_range_scan e start stop limit =
     (case validate_range_scan start stop of
        Inl err \<Rightarrow> (Inl err, e)
      | Inr _ \<Rightarrow>
          if limit = 0 \<or> stop = Some start then (Inr [], e)
          else (Inr (take limit (om_range start stop (mem_values e))), e))"

definition memory_reopen :: "memory_engine \<Rightarrow> unit result \<times> memory_engine" where
  "memory_reopen e = (Inr (), e)"

definition memory_ops :: "memory_engine kv_ops" where
  "memory_ops =
     \<lparr>op_capabilities = memory_capabilities, op_put = memory_put, op_get = memory_get,
      op_delete = memory_delete, op_range_scan = memory_range_scan, op_reopen = memory_reopen\<rparr>"


subsection \<open>The contract\<close>

lemma om_range_empty: "om_range lo (Some lo) m = []"
  by (auto simp: om_range_def filter_empty_conv)

interpretation mem: kv_ordered memory_ops "\<lambda>_. True" "\<lambda>_ _. True" mem_values "\<lambda>_ _. True"
  by unfold_locales
     (auto simp: memory_ops_def memory_put_def memory_get_def memory_delete_def memory_reopen_def
        memory_range_scan_def memory_capabilities_def common_contract_def spec_range_def
        om_range_empty)

end
