(* ===== verification/Decimal.thy ===== *)
theory Decimal
  imports DbPrelude
begin

text \<open>
  Zero-padded decimal numbers in file names: Rust's \<open>format!("{n:0w}")\<close> and
  \<open>str::parse::<u64>\<close> on strings of ASCII digits.  Padding and parsing are inverse to each
  other on every digit string of the right width.
\<close>

function dec_digits :: "nat \<Rightarrow> bytes" where
  "dec_digits n =
     (if n < 10 then [0x30 + of_nat n] else dec_digits (n div 10) @ [0x30 + of_nat (n mod 10)])"
  by pat_completeness auto
termination by (relation "measure id") auto

declare dec_digits.simps [simp del]

definition format_dec :: "nat \<Rightarrow> nat \<Rightarrow> bytes" where
  "format_dec width n =
     replicate (width - length (dec_digits n)) 0x30 @ dec_digits n"

definition is_ascii_digit :: "byte \<Rightarrow> bool" where
  "is_ascii_digit b \<longleftrightarrow> 0x30 \<le> b \<and> b \<le> 0x39"

definition dec_val :: "bytes \<Rightarrow> nat" where
  "dec_val bs = foldl (\<lambda>v b. v * 10 + unat (b - 0x30)) 0 bs"

text \<open>\<open>parse::<u64>\<close> of a string already known to hold digits only.\<close>

definition parse_digits :: "bytes \<Rightarrow> nat option" where
  "parse_digits bs = (if bs = [] then None else try_u64 (dec_val bs))"

lemma digit_of_nat:
  assumes "d < 10"
  shows "is_ascii_digit (0x30 + of_nat d)" and "unat ((0x30 + of_nat d :: byte) - 0x30) = d"
proof -
  have "\<forall>d \<in> set [0..<10]. is_ascii_digit (0x30 + of_nat d)"
    by (simp add: upt_rec is_ascii_digit_def)
  then show "is_ascii_digit (0x30 + of_nat d)"
    using assms by simp
  show "unat ((0x30 + of_nat d :: byte) - 0x30) = d"
    using assms by (simp add: unat_of_nat)
qed

lemma is_ascii_digitE:
  assumes "is_ascii_digit b"
  shows "unat (b - 0x30) < 10" and "b = 0x30 + of_nat (unat (b - 0x30))"
proof -
  have b: "unat b \<ge> 48" "unat b \<le> 57"
    using assms by (simp_all add: is_ascii_digit_def word_le_nat_alt)
  then have "unat (b - 0x30) = unat b - 48"
    by (simp add: unat_sub word_le_nat_alt)
  with b show "unat (b - 0x30) < 10" by simp
  show "b = 0x30 + of_nat (unat (b - 0x30))" by simp
qed

lemma dec_val_append: "dec_val (xs @ [b]) = dec_val xs * 10 + unat (b - 0x30)"
  by (simp add: dec_val_def)

lemma dec_val_zeros: "dec_val (replicate k 0x30 @ xs) = dec_val xs"
  by (induction xs rule: rev_induct)
     (simp_all add: dec_val_append flip: append_assoc, induction k, simp_all add: dec_val_def)

lemma dec_digits_ne [simp]: "dec_digits n \<noteq> []"
  by (subst dec_digits.simps) simp

lemma digits_dec_digits: "\<forall>b \<in> set (dec_digits n). is_ascii_digit b"
  by (induction n rule: dec_digits.induct) (subst dec_digits.simps, auto intro: digit_of_nat)

lemma dec_val_dec_digits: "dec_val (dec_digits n) = n"
proof (induction n rule: dec_digits.induct)
  case (1 n)
  show ?case
  proof (cases "n < 10")
    case True
    then show ?thesis by (subst dec_digits.simps) (simp add: dec_val_def unat_of_nat)
  next
    case False
    with 1 show ?thesis
      by (subst dec_digits.simps) (simp add: dec_val_append unat_of_nat)
  qed
qed

lemma dec_val_format: "dec_val (format_dec w n) = n"
  by (simp add: format_dec_def dec_val_zeros dec_val_dec_digits)

lemma digits_format: "\<forall>b \<in> set (format_dec w n). is_ascii_digit b"
  using digits_dec_digits [of n] by (auto simp: format_dec_def is_ascii_digit_def)

lemma format_dec_ne [simp]: "format_dec w n \<noteq> []"
  by (simp add: format_dec_def)

lemma dec_digits_snoc:
  "v \<noteq> 0 \<Longrightarrow> d < 10 \<Longrightarrow> dec_digits (v * 10 + d) = dec_digits v @ [0x30 + of_nat d]"
  by (subst dec_digits.simps) simp

lemma format_dec_val:
  assumes "\<forall>b \<in> set xs. is_ascii_digit b" "xs \<noteq> []"
  shows "format_dec (length xs) (dec_val xs) = xs"
  using assms
proof (induction xs rule: rev_induct)
  case Nil
  then show ?case by simp
next
  case (snoc b xs)
  let ?d = "unat (b - 0x30)"
  have d: "?d < 10" "b = 0x30 + of_nat ?d"
    using snoc.prems is_ascii_digitE [of b] by auto
  show ?case
  proof (cases "dec_val xs = 0")
    case True
    have zero: "xs = replicate (length xs) 0x30"
    proof (cases "xs = []")
      case False
      then have "xs = format_dec (length xs) 0"
        using snoc True by auto
      also have "\<dots> = replicate (length xs) 0x30"
        using False by (cases xs) (simp_all add: format_dec_def dec_digits.simps [of 0] replicate_append_same)
      finally show ?thesis .
    qed simp
    have "dec_digits ?d = [b]"
      using d by (subst dec_digits.simps) simp
    then show ?thesis
      using True zero by (simp add: dec_val_append format_dec_def)
  next
    case False
    then have ne: "xs \<noteq> []" by (auto simp: dec_val_def)
    with snoc have xs: "format_dec (length xs) (dec_val xs) = xs" by simp
    have "dec_digits (dec_val (xs @ [b])) = dec_digits (dec_val xs) @ [b]"
      using dec_digits_snoc [OF False d(1)] d(2) by (simp add: dec_val_append)
    then have "format_dec (length (xs @ [b])) (dec_val (xs @ [b])) =
        format_dec (length xs) (dec_val xs) @ [b]"
      by (simp add: format_dec_def)
    then show ?thesis by (simp add: xs)
  qed
qed

lemma length_dec_digits: "length (dec_digits n) \<le> Suc k \<longleftrightarrow> n < 10 ^ Suc k"
proof (induction k arbitrary: n)
  case 0
  show ?case by (subst dec_digits.simps) (auto simp: Suc_le_eq)
next
  case (Suc k)
  show ?case
  proof (cases "n < 10")
    case True
    then have "n < 10 * (10 * 10 ^ k)"
      by (rule order_less_le_trans) simp
    with True show ?thesis by (subst dec_digits.simps) simp
  next
    case False
    then have "length (dec_digits n) = Suc (length (dec_digits (n div 10)))"
      by (subst dec_digits.simps) simp
    moreover have "n div 10 < 10 ^ Suc k \<longleftrightarrow> n < 10 ^ Suc (Suc k)"
      by (simp add: div_less_iff_less_mult mult.commute)
    ultimately show ?thesis using Suc [of "n div 10"] by simp
  qed
qed

lemma length_format_dec: "n < 10 ^ w \<Longrightarrow> 0 < w \<Longrightarrow> length (format_dec w n) = w"
  using length_dec_digits [of n "w - 1"] by (simp add: format_dec_def)

lemma length_format_dec_wide: "10 ^ w \<le> n \<Longrightarrow> 0 < w \<Longrightarrow> w < length (format_dec w n)"
  using length_dec_digits [of n "w - 1"] by (simp add: format_dec_def)

lemma format_dec_inject: "format_dec w m = format_dec w n \<longleftrightarrow> m = n"
  by (metis dec_val_format)


subsection \<open>Numbered names\<close>

definition strip_prefix :: "bytes \<Rightarrow> bytes \<Rightarrow> bytes option" where
  "strip_prefix p xs = (if take (length p) xs = p then Some (drop (length p) xs) else None)"

definition strip_suffix :: "bytes \<Rightarrow> bytes \<Rightarrow> bytes option" where
  "strip_suffix p xs =
     (if length p \<le> length xs \<and> drop (length xs - length p) xs = p
      then Some (take (length xs - length p) xs) else None)"

lemma strip_prefix_eq_Some: "strip_prefix p xs = Some ys \<longleftrightarrow> xs = p @ ys"
  by (auto simp: strip_prefix_def) (metis append_take_drop_id)

lemma strip_suffix_eq_Some: "strip_suffix p xs = Some ys \<longleftrightarrow> xs = ys @ p"
  by (auto simp: strip_suffix_def) (metis append_take_drop_id)

text \<open>A width-\<open>w\<close> numbered name between a prefix and a suffix parses to the id it was
  formatted from, and to no other.\<close>

lemma numbered_name_digits:
  assumes "0 < w" "\<forall>b \<in> set ds. is_ascii_digit b" "length ds = w"
  shows "ds = format_dec w n \<longleftrightarrow> dec_val ds = n"
proof
  assume "ds = format_dec w n"
  then show "dec_val ds = n" by (simp add: dec_val_format)
next
  assume "dec_val ds = n"
  moreover have "ds \<noteq> []" using assms(1,3) by auto
  ultimately show "ds = format_dec w n"
    using format_dec_val [OF assms(2)] assms(3) by simp
qed

end
