(* ===== verification/RecordScan.thy ===== *)
theory RecordScan
  imports KvCore
begin

text \<open>
  What the append log (\<open>db-storage-log\<close>) and the LSM write-ahead log (\<open>wal.rs\<close>) share: a
  file is a header followed by self-delimiting, checksummed, consecutively numbered records,
  and a scan replays it record by record, stopping at an incomplete last record.

  The locale \<open>record_scan\<close> is the interface between a record codec and its scanner.  From
  the codec's promises (a whole record reads back, exactly the incomplete records for the expected
  sequence read as torn, and whatever reads as a record is the canonical encoding of it) it derives
  what recovery needs: replay of a complete file, replay of a file with a torn tail, soundness of
  every successful scan, an exact description of the files a scan accepts, and that truncating to
  the reported valid prefix repairs the file.
\<close>

subsection \<open>Scan results\<close>

record truncated_tail =
  tail_record_offset :: nat
  tail_available_bytes :: nat
  tail_required_bytes :: "nat option"

record 's scan_result =
  sc_file_bytes :: nat
  sc_valid_bytes :: nat
  sc_record_count :: nat
  sc_next_sequence :: nat
  sc_recoverable_tail :: "truncated_tail option"
  sc_values :: 's

text \<open>One turn of a scan loop: an incomplete record, with the length its header declares when
  the header is whole, or a record and its total length.\<close>

datatype 'm record_step = TornRecord "nat option" | WholeRecord 'm nat

fun frames :: "(nat \<Rightarrow> 'm \<Rightarrow> bytes) \<Rightarrow> nat \<Rightarrow> 'm list \<Rightarrow> bytes" where
  "frames enc q [] = []"
| "frames enc q (m # ms) = enc q m @ frames enc (q + 1) ms"

fun replay :: "(nat \<Rightarrow> 's \<Rightarrow> 'm \<Rightarrow> 's result) \<Rightarrow> nat \<Rightarrow> 's \<Rightarrow> 'm list \<Rightarrow> 's result" where
  "replay f q s [] = Inr s"
| "replay f q s (m # ms) = rbind (f q s m) (\<lambda>s'. replay f (q + 1) s' ms)"

lemma frames_append: "frames enc q (xs @ ys) = frames enc q xs @ frames enc (q + length xs) ys"
  by (induction xs arbitrary: q) simp_all


subsection \<open>The interface of a codec and its scanner\<close>

locale record_scan =
  fixes enc :: "nat \<Rightarrow> 'm \<Rightarrow> bytes"
    and wf :: "'m \<Rightarrow> bool"
    and torn :: "nat \<Rightarrow> bytes \<Rightarrow> bool"
    and step :: "bytes \<Rightarrow> nat \<Rightarrow> nat \<Rightarrow> 'm record_step result"
    and apply_record :: "nat \<Rightarrow> 's \<Rightarrow> 'm \<Rightarrow> 's result"
    and loop :: "bytes \<Rightarrow> nat \<Rightarrow> nat \<Rightarrow> nat \<Rightarrow> 's \<Rightarrow> 's scan_result result"
  assumes enc_ne: "enc q m \<noteq> []"
    and step_whole: "wf m \<Longrightarrow> q \<le> u64_max \<Longrightarrow> length (a @ enc q m @ b) \<le> u64_max \<Longrightarrow>
      step (a @ enc q m @ b) (length a) q = Inr (WholeRecord m (length (enc q m)))"
    and step_torn: "wf m \<Longrightarrow> q \<le> u64_max \<Longrightarrow> 0 < n \<Longrightarrow> n < length (enc q m) \<Longrightarrow>
      length a + length (enc q m) \<le> u64_max \<Longrightarrow>
      \<exists>req. step (a @ take n (enc q m)) (length a) q = Inr (TornRecord req)"
    and torn_ne: "torn q rest \<Longrightarrow> rest \<noteq> []"
    and torn_sound: "off < length file \<Longrightarrow> q \<le> u64_max \<Longrightarrow> step file off q = Inr (TornRecord req) \<Longrightarrow>
      torn q (drop off file)"
    and torn_complete: "torn q rest \<Longrightarrow>
      length (a @ rest) + (32 + MAX_KEY_BYTES + MAX_VALUE_BYTES) \<le> u64_max \<Longrightarrow>
      \<exists>req. step (a @ rest) (length a) q = Inr (TornRecord req)"
    and step_sound: "off < length file \<Longrightarrow> step file off q = Inr (WholeRecord m n) \<Longrightarrow>
      wf m \<and> q \<le> u64_max \<and> n = length (enc q m) \<and> off + n \<le> length file \<and>
      seg off (off + n) file = enc q m"
    and loop_unfold: "loop file off q c s =
      (if off < length file then
         rbind (step file off q) (\<lambda>st.
           case st of
             TornRecord req \<Rightarrow>
               Inr \<lparr>sc_file_bytes = length file, sc_valid_bytes = off, sc_record_count = c,
                    sc_next_sequence = q,
                    sc_recoverable_tail = Some \<lparr>tail_record_offset = off,
                      tail_available_bytes = length file - off, tail_required_bytes = req\<rparr>,
                    sc_values = s\<rparr>
           | WholeRecord m n \<Rightarrow>
               rbind (apply_record q s m) (\<lambda>s'.
               rbind (ok_or (checked_add64 q 1) (Corruption (off + n))) (\<lambda>q'.
               rbind (ok_or (checked_add64 c 1) (Corruption (off + n))) (\<lambda>c'.
               loop file (off + n) q' c' s'))))
       else Inr \<lparr>sc_file_bytes = length file, sc_valid_bytes = off, sc_record_count = c,
                 sc_next_sequence = q, sc_recoverable_tail = None, sc_values = s\<rparr>)"
begin

lemma loop_replay:
  assumes "\<forall>m \<in> set ms. wf m" "q + length ms \<le> u64_max" "c + length ms \<le> u64_max"
    and "length (a @ frames enc q ms @ b) \<le> u64_max"
    and "replay apply_record q s ms = Inr s'"
  shows "loop (a @ frames enc q ms @ b) (length a) q c s =
    loop (a @ frames enc q ms @ b) (length (a @ frames enc q ms)) (q + length ms) (c + length ms) s'"
  using assms
proof (induction ms arbitrary: a q c s)
  case Nil
  then show ?case by simp
next
  case (Cons m ms)
  let ?file = "a @ frames enc q (m # ms) @ b"
  obtain s1 where s1: "apply_record q s m = Inr s1" "replay apply_record (q + 1) s1 ms = Inr s'"
    using Cons.prems(5) by (auto simp: rbind_eq_Inr)
  have "step ?file (length a) q = Inr (WholeRecord m (length (enc q m)))"
    using step_whole [of m q a "frames enc (q + 1) ms @ b"] Cons.prems by simp
  moreover have "length a < length ?file"
    using enc_ne [of q m] by simp
  ultimately have "loop ?file (length a) q c s =
      loop ?file (length (a @ enc q m)) (q + 1) (c + 1) s1"
    using Cons.prems s1 by (subst loop_unfold) (simp add: checked_add64_def)
  also have "\<dots> = loop ?file (length (a @ frames enc q (m # ms))) (q + length (m # ms))
      (c + length (m # ms)) s'"
    using Cons.IH [of "q + 1" "c + 1" "a @ enc q m" s1] Cons.prems s1 by simp
  finally show ?case .
qed

lemma loop_complete:
  assumes "\<forall>m \<in> set ms. wf m" "q + length ms \<le> u64_max" "c + length ms \<le> u64_max"
    and "length (a @ frames enc q ms) \<le> u64_max"
    and "replay apply_record q s ms = Inr s'"
  shows "loop (a @ frames enc q ms) (length a) q c s =
    Inr \<lparr>sc_file_bytes = length (a @ frames enc q ms), sc_valid_bytes = length (a @ frames enc q ms),
         sc_record_count = c + length ms, sc_next_sequence = q + length ms,
         sc_recoverable_tail = None, sc_values = s'\<rparr>"
  using loop_replay [of ms q c a "[]"] assms by (simp, subst loop_unfold) simp

lemma loop_torn:
  assumes "\<forall>m \<in> set ms. wf m" "q + length ms \<le> u64_max" "c + length ms \<le> u64_max"
    and "wf m" "0 < n" "n < length (enc (q + length ms) m)"
    and "length (a @ frames enc q (ms @ [m])) \<le> u64_max"
    and "replay apply_record q s ms = Inr s'"
  shows "\<exists>req. loop (a @ frames enc q ms @ take n (enc (q + length ms) m)) (length a) q c s =
    Inr \<lparr>sc_file_bytes = length (a @ frames enc q ms) + n,
         sc_valid_bytes = length (a @ frames enc q ms),
         sc_record_count = c + length ms, sc_next_sequence = q + length ms,
         sc_recoverable_tail = Some \<lparr>tail_record_offset = length (a @ frames enc q ms),
           tail_available_bytes = n, tail_required_bytes = req\<rparr>,
         sc_values = s'\<rparr>"
proof -
  let ?cut = "take n (enc (q + length ms) m)"
  have len: "length ?cut = n" using assms(6) by simp
  obtain req where "step ((a @ frames enc q ms) @ ?cut) (length (a @ frames enc q ms)) (q + length ms) =
      Inr (TornRecord req)"
    using step_torn [of m "q + length ms" n "a @ frames enc q ms"] assms
    by (auto simp: frames_append)
  moreover have "loop (a @ frames enc q ms @ ?cut) (length a) q c s =
      loop (a @ frames enc q ms @ ?cut) (length (a @ frames enc q ms)) (q + length ms) (c + length ms) s'"
    using loop_replay [of ms q c a ?cut s s'] assms len by (simp add: frames_append)
  ultimately show ?thesis
    using len assms(5) by (subst (asm) (2) loop_unfold) (auto simp: min_def)
qed

text \<open>Any incomplete record after whole ones ends the scan, and is reported as the tail.\<close>

lemma loop_cut:
  assumes "\<forall>m \<in> set ms. wf m" "q + length ms \<le> u64_max" "c + length ms \<le> u64_max"
    and "torn (q + length ms) rest"
    and "length (a @ frames enc q ms @ rest) + (32 + MAX_KEY_BYTES + MAX_VALUE_BYTES) \<le> u64_max"
    and "replay apply_record q s ms = Inr s'"
  shows "\<exists>req. loop (a @ frames enc q ms @ rest) (length a) q c s =
    Inr \<lparr>sc_file_bytes = length (a @ frames enc q ms @ rest),
         sc_valid_bytes = length (a @ frames enc q ms),
         sc_record_count = c + length ms, sc_next_sequence = q + length ms,
         sc_recoverable_tail = Some \<lparr>tail_record_offset = length (a @ frames enc q ms),
           tail_available_bytes = length rest, tail_required_bytes = req\<rparr>,
         sc_values = s'\<rparr>"
proof -
  have ne: "rest \<noteq> []" by (rule torn_ne [OF assms(4)])
  obtain req where "step ((a @ frames enc q ms) @ rest) (length (a @ frames enc q ms)) (q + length ms) =
      Inr (TornRecord req)"
    using torn_complete [OF assms(4), of "a @ frames enc q ms"] assms(5) by auto
  moreover have "loop (a @ frames enc q ms @ rest) (length a) q c s =
      loop (a @ frames enc q ms @ rest) (length (a @ frames enc q ms)) (q + length ms) (c + length ms) s'"
    using loop_replay [of ms q c a rest s s'] assms by simp
  ultimately show ?thesis
    using ne by (subst (asm) (2) loop_unfold) auto
qed

lemma loop_sound:
  assumes "loop file off q c s = Inr r" "off \<le> length file" "q \<le> u64_max"
  shows "\<exists>ms rest. drop off file = frames enc q ms @ rest \<and> (\<forall>m \<in> set ms. wf m) \<and>
    replay apply_record q s ms = Inr (sc_values r) \<and>
    sc_file_bytes r = length file \<and>
    sc_valid_bytes r = off + length (frames enc q ms) \<and>
    sc_record_count r = c + length ms \<and> sc_next_sequence r = q + length ms \<and>
    (ms \<noteq> [] \<longrightarrow> q + length ms \<le> u64_max \<and> c + length ms \<le> u64_max) \<and>
    (sc_recoverable_tail r = None \<longleftrightarrow> rest = []) \<and>
    (\<forall>t. sc_recoverable_tail r = Some t \<longrightarrow>
       tail_record_offset t = sc_valid_bytes r \<and> tail_available_bytes t = length rest) \<and>
    (rest \<noteq> [] \<longrightarrow> torn (q + length ms) rest)"
  using assms
proof (induction "length file - off" arbitrary: off q c s rule: less_induct)
  case less
  show ?case
  proof (cases "off < length file")
    case False
    then have "drop off file = []" by simp
    with less.prems False loop_unfold [of "file" off q c s] show ?thesis
      by (intro exI [of _ "[]"]) auto
  next
    case True
    then obtain st where st: "step file off q = Inr st"
      using less.prems(1) loop_unfold [of "file" off q c s] by (auto simp: rbind_eq_Inr)
    show ?thesis
    proof (cases st)
      case (TornRecord req)
      then have "torn q (drop off file)"
        using torn_sound [OF True less.prems(3)] st by simp
      with TornRecord True st less.prems(1) loop_unfold [of "file" off q c s] show ?thesis
        by (intro exI [of _ "[]"] exI [of _ "drop off file"]) auto
    next
      case (WholeRecord m n)
      note sound = step_sound [OF True, of q m n]
      have n: "wf m" "n = length (enc q m)" "off + n \<le> length file" "seg off (off + n) file = enc q m"
        using sound st WholeRecord by auto
      obtain s1 where s1: "apply_record q s m = Inr s1" "q + 1 \<le> u64_max" "c + 1 \<le> u64_max"
        and next_loop: "loop file (off + n) (q + 1) (c + 1) s1 = Inr r"
        using less.prems(1) True st WholeRecord loop_unfold [of "file" off q c s]
        by (auto simp: result_iff)
      have "length file - (off + n) < length file - off"
        using n True enc_ne [of q m] by (cases "enc q m") auto
      from less.hyps [OF this next_loop n(3) s1(2)] obtain ms rest where
        ih: "drop (off + n) file = frames enc (q + 1) ms @ rest" "\<forall>m \<in> set ms. wf m"
          "replay apply_record (q + 1) s1 ms = Inr (sc_values r)" "sc_file_bytes r = length file"
          "sc_valid_bytes r = off + n + length (frames enc (q + 1) ms)"
          "sc_record_count r = c + 1 + length ms" "sc_next_sequence r = q + 1 + length ms"
          "ms \<noteq> [] \<longrightarrow> q + 1 + length ms \<le> u64_max \<and> c + 1 + length ms \<le> u64_max"
          "sc_recoverable_tail r = None \<longleftrightarrow> rest = []"
          "\<forall>t. sc_recoverable_tail r = Some t \<longrightarrow>
             tail_record_offset t = sc_valid_bytes r \<and> tail_available_bytes t = length rest"
          "rest \<noteq> [] \<longrightarrow> torn (q + 1 + length ms) rest"
        by (elim exE conjE) (rule that)
      have "drop off file = enc q m @ drop (off + n) file"
        using n(2,4) by (simp add: seg_def) (metis append_take_drop_id drop_drop add.commute)
      with ih n s1 show ?thesis
        by (intro exI [of _ "m # ms"] exI [of _ rest]) (cases ms; simp)
    qed
  qed
qed

text \<open>Cutting the file at the valid prefix a scan reports leaves a file that scans without a
  tail to the same state.\<close>

lemma loop_repaired:
  assumes "loop file off q c s = Inr r" "off \<le> length file" "length file \<le> u64_max"
    and "q \<le> u64_max" "c \<le> u64_max"
  shows "loop (take (sc_valid_bytes r) file) off q c s =
    Inr (r\<lparr>sc_file_bytes := sc_valid_bytes r, sc_recoverable_tail := None\<rparr>)"
proof -
  obtain ms rest where ms: "drop off file = frames enc q ms @ rest" "\<forall>m \<in> set ms. wf m"
    "replay apply_record q s ms = Inr (sc_values r)" "sc_file_bytes r = length file"
    "sc_valid_bytes r = off + length (frames enc q ms)"
    "sc_record_count r = c + length ms" "sc_next_sequence r = q + length ms"
    "ms \<noteq> [] \<longrightarrow> q + length ms \<le> u64_max \<and> c + length ms \<le> u64_max"
    using loop_sound [OF assms(1,2,4)] by blast
  let ?a = "take off file"
  have split_file: "file = ?a @ frames enc q ms @ rest"
    using ms(1) by (metis append_take_drop_id)
  have a: "length ?a = off" using assms(2) by simp
  have cut: "take (sc_valid_bytes r) file = ?a @ frames enc q ms"
    using a by (subst split_file) (simp add: ms(5))
  have "length (?a @ frames enc q ms) \<le> u64_max"
    using assms(3) by (subst (asm) split_file) simp
  moreover have "q + length ms \<le> u64_max" "c + length ms \<le> u64_max"
    using ms(8) assms(4,5) by (cases ms; simp)+
  ultimately have "loop (?a @ frames enc q ms) off q c s =
      Inr \<lparr>sc_file_bytes = sc_valid_bytes r, sc_valid_bytes = sc_valid_bytes r,
        sc_record_count = sc_record_count r, sc_next_sequence = sc_next_sequence r,
        sc_recoverable_tail = None, sc_values = sc_values r\<rparr>"
    using loop_complete [of ms q c ?a s "sc_values r"] ms a by simp
  then show ?thesis
    unfolding cut by (cases r) simp
qed

end

end
