(* ===== verification/RecordFrame.thy ===== *)
theory RecordFrame
  imports KvCore
begin

text \<open>
  The 32-byte record header that the append log and the LSM write-ahead log write before each
  key and value: magic, version, kind, flags, sequence, key length, value length, a checksum of
  those 24 bytes, and a checksum of the 28 bytes before it with the payload.  The lemmas read
  every field back out of an encoded record and, conversely, rebuild the encoding from bytes
  whose fields and checksums agree; each codec's laws follow from them.
\<close>

datatype mutation_kind = MPut | MDelete

record record_metadata =
  md_kind :: mutation_kind
  md_sequence :: nat
  md_key_len :: nat
  md_value_len :: nat
  md_total_len :: nat
  md_expected_record_crc :: nat

subsection \<open>The header fields\<close>

definition frame24 :: "bytes \<Rightarrow> byte \<Rightarrow> byte \<Rightarrow> nat \<Rightarrow> nat \<Rightarrow> nat \<Rightarrow> bytes" where
  "frame24 magic ver kind q kl vl =
     magic @ [ver, kind] @ le_bytes 2 0 @ le_bytes 8 q @ le_bytes 4 kl @ le_bytes 4 vl"

definition record_bytes ::
    "(bytes \<Rightarrow> 32 word) \<Rightarrow> bytes \<Rightarrow> byte \<Rightarrow> byte \<Rightarrow> nat \<Rightarrow> bytes \<Rightarrow> bytes \<Rightarrow> bytes" where
  "record_bytes crc magic ver kind q key val =
     (let h24 = frame24 magic ver kind q (length key) (length val);
          h28 = h24 @ crc_field (crc h24)
      in h28 @ crc_field (crc (h28 @ key @ val)) @ key @ val)"

lemma length_frame24 [simp]: "length magic = 4 \<Longrightarrow> length (frame24 magic ver kind q kl vl) = 24"
  by (simp add: frame24_def)

lemma length_record_bytes [simp]:
  "length magic = 4 \<Longrightarrow>
     length (record_bytes crc magic ver kind q key val) = 32 + length key + length val"
  by (simp add: record_bytes_def Let_def)

lemma frame24_fields:
  assumes "length magic = 4"
  shows "take 4 (frame24 magic ver kind q kl vl @ r) = magic"
    and "(frame24 magic ver kind q kl vl @ r) ! 4 = ver"
    and "(frame24 magic ver kind q kl vl @ r) ! 5 = kind"
    and "seg 6 8 (frame24 magic ver kind q kl vl @ r) = le_bytes 2 0"
    and "seg 8 16 (frame24 magic ver kind q kl vl @ r) = le_bytes 8 q"
    and "seg 16 20 (frame24 magic ver kind q kl vl @ r) = le_bytes 4 kl"
    and "seg 20 24 (frame24 magic ver kind q kl vl @ r) = le_bytes 4 vl"
    and "take 24 (frame24 magic ver kind q kl vl @ r) = frame24 magic ver kind q kl vl"
  using assms
  by (simp_all add: frame24_def layout nth_append del: le_bytes.simps)

lemma frame24_intro:
  assumes "length h = 24" "length magic = 4"
    and "take 4 h = magic" "h ! 4 = ver" "h ! 5 = kind" "read_u16 (seg 6 8 h) = 0"
    and "read_u64 (seg 8 16 h) = q" "read_u32 (seg 16 20 h) = kl" "read_u32 (seg 20 24 h) = vl"
  shows "h = frame24 magic ver kind q kl vl"
proof -
  have two: "seg 4 6 h = [ver, kind]"
    using assms(1,4,5) by (intro nth_equalityI) (auto simp: seg_def numeral_2_eq_2 less_Suc_eq)
  have "h = take 4 h @ seg 4 6 h @ seg 6 8 h @ seg 8 16 h @ seg 16 20 h @ seg 20 24 h"
    using assms(1) by (simp add: seg_join seg_whole flip: seg_0)
  moreover have "seg 6 8 h = le_bytes 2 0" "seg 8 16 h = le_bytes 8 q"
    "seg 16 20 h = le_bytes 4 kl" "seg 20 24 h = le_bytes 4 vl"
    using assms by (auto simp: read_le_bytes length_seg del: le_bytes.simps
      intro: iffD1 [OF read_le_bytes(1), THEN conjunct2])
  ultimately show ?thesis
    using assms(3) two by (simp add: frame24_def)
qed


subsection \<open>Whole and cut records\<close>

lemma record_bytes_fields:
  fixes magic ver kind q key val crc
  defines "h24 \<equiv> frame24 magic ver kind q (length key) (length val)"
    and "h28 \<equiv> frame24 magic ver kind q (length key) (length val) @
      crc_field (crc (frame24 magic ver kind q (length key) (length val)))"
  assumes "length magic = 4"
  shows "record_bytes crc magic ver kind q key val = h28 @ crc_field (crc (h28 @ key @ val)) @ key @ val"
    and "take 24 (record_bytes crc magic ver kind q key val) = h24"
    and "seg 24 28 (record_bytes crc magic ver kind q key val) = crc_field (crc h24)"
    and "take 28 (record_bytes crc magic ver kind q key val) = h28"
    and "seg 28 32 (record_bytes crc magic ver kind q key val) = crc_field (crc (h28 @ key @ val))"
    and "drop 32 (record_bytes crc magic ver kind q key val) = key @ val"
    and "length h24 = 24" "length h28 = 28"
  using assms(3) by (simp_all add: record_bytes_def h24_def h28_def Let_def layout)

text \<open>Reading a field below offset 24 of any cut of a record reads the frame's field.\<close>

lemma take_record_frame:
  assumes "length magic = 4" "n \<le> 24"
  shows "take n (record_bytes crc magic ver kind q key val) =
    take n (frame24 magic ver kind q (length key) (length val))"
  using assms by (simp add: record_bytes_def Let_def)

lemma record_frame_prefix:
  assumes "length magic = 4"
  obtains r where "record_bytes crc magic ver kind q key val =
    frame24 magic ver kind q (length key) (length val) @ r"
  by (simp add: record_bytes_def Let_def)

lemma record_bytes_intro:
  assumes "length x = 32 + kl + vl" "length magic = 4"
    and frame: "take 24 x = frame24 magic ver kind q kl vl"
    and crc1: "seg 24 28 x = crc_field (crc (take 24 x))"
    and crc2: "seg 28 32 x = crc_field (crc (take 28 x @ drop 32 x))"
  shows "x = record_bytes crc magic ver kind q (take kl (drop 32 x)) (drop kl (drop 32 x))"
proof -
  have t28: "take 28 x = take 24 x @ seg 24 28 x"
    by (simp add: seg_join flip: seg_0)
  have "take 32 x = take 28 x @ seg 28 32 x"
    by (simp add: seg_join flip: seg_0)
  then have "x = take 28 x @ seg 28 32 x @ drop 32 x"
    by (metis append_take_drop_id append.assoc)
  note split = this
  define key val where "key = take kl (drop 32 x)" and "val = drop kl (drop 32 x)"
  then have p: "drop 32 x = key @ val" by (simp only: append_take_drop_id)
  have "length key = kl" "length val = vl"
    using assms(1) by (simp_all add: key_def val_def)
  with split p have "x = record_bytes crc magic ver kind q key val"
    using frame crc1 crc2 t28 by (simp add: record_bytes_def Let_def)
  then show ?thesis by (simp only: key_def val_def)
qed


subsection \<open>An incomplete last record\<close>

text \<open>What a write that stopped inside a record leaves behind: a nonempty piece in which every
  field that is there whole, and every byte of the fields with a known value, belongs to a
  header for the expected sequence, and which ends before the length that header declares.  A
  length field counts from its last byte on, the header checksum as well; a value length needs
  the kind it is for.\<close>

definition torn_frame ::
    "(bytes \<Rightarrow> 32 word) \<Rightarrow> bytes \<Rightarrow> (mutation_kind \<Rightarrow> byte) \<Rightarrow> nat \<Rightarrow> bytes \<Rightarrow> bool" where
  "torn_frame crc magic kenc q rest \<longleftrightarrow> rest \<noteq> [] \<and> q \<le> u64_max \<and>
     (\<exists>kind kl vl. kl < 4294967296 \<and> vl < 4294967296 \<and>
        take 24 rest = take (length rest) (frame24 magic 1 (kenc kind) q kl vl) \<and>
        (20 \<le> length rest \<longrightarrow> kl \<le> MAX_KEY_BYTES) \<and>
        (24 \<le> length rest \<longrightarrow> vl \<le> MAX_VALUE_BYTES \<and> (kind = MDelete \<longrightarrow> vl = 0)) \<and>
        (28 \<le> length rest \<longrightarrow>
           seg 24 28 rest = crc_field (crc (frame24 magic 1 (kenc kind) q kl vl))) \<and>
        length rest < 32 + kl + vl)"

lemma torn_frame_ne: "torn_frame crc magic kenc q rest \<Longrightarrow> rest \<noteq> []"
  by (simp add: torn_frame_def)

text \<open>Every proper nonempty prefix of an encoded record is an incomplete record.\<close>

lemma torn_frame_take:
  assumes "length magic = 4" "0 < n" "n < 32 + length key + length val" "q \<le> u64_max"
    and "length key \<le> MAX_KEY_BYTES" "length val \<le> MAX_VALUE_BYTES" "kind = MDelete \<longrightarrow> val = []"
  shows "torn_frame crc magic kenc q (take n (record_bytes crc magic 1 (kenc kind) q key val))"
proof -
  let ?F = "frame24 magic 1 (kenc kind) q (length key) (length val)"
  let ?R = "record_bytes crc magic 1 (kenc kind) q key val"
  have len: "length (take n ?R) = n" using assms(1,3) by simp
  have F: "take 24 ?R = ?F" "seg 24 28 ?R = crc_field (crc ?F)"
    using record_bytes_fields [OF assms(1)] by simp_all
  have "take 24 (take n ?R) = take n ?F"
    unfolding F(1) [symmetric] by (simp add: min.commute)
  moreover have "28 \<le> n \<longrightarrow> seg 24 28 (take n ?R) = crc_field (crc ?F)"
    using F(2) by (simp add: seg_take min_def)
  moreover have "take n ?R \<noteq> []" using len assms(2) by (metis list.size(3) less_irrefl)
  ultimately show ?thesis
    unfolding torn_frame_def len using assms(3-7)
    by (intro conjI exI [of _ kind] exI [of _ "length key"] exI [of _ "length val"])
       (simp_all add: MAX_KEY_BYTES_def MAX_VALUE_BYTES_def)
qed

end
