(* ===== verification/RecordCodec.thy ===== *)
theory RecordCodec
  imports RecordScan RecordFrame
begin

text \<open>
  The locale \<open>record_codec\<close>: the parser of the 32-byte record frame, stated as the unfoldings of
  its functions.  The append log and the write-ahead log each have their own copy of this code,
  with their own magic, format name and checksum error offset; the locale proves once, for both,
  that a whole record reads back, that every proper prefix of one reads as torn, and that
  whatever reads as a record is the canonical encoding of it.
\<close>

definition record_wf :: "mutation_kind \<times> bytes \<times> bytes \<Rightarrow> bool" where
  "record_wf m = (case m of (kind, key, val) \<Rightarrow>
     length key \<le> MAX_KEY_BYTES \<and> length val \<le> MAX_VALUE_BYTES \<and> (kind = MDelete \<longrightarrow> val = []))"

lemma record_wf_bounds:
  "record_wf (kind, key, val) \<Longrightarrow>
     length key < 4294967296 \<and> length val < 4294967296 \<and> 32 + length key + length val \<le> u64_max"
  by (simp add: record_wf_def MAX_KEY_BYTES_def MAX_VALUE_BYTES_def u64_max_def)

locale record_codec =
  fixes crc :: "bytes \<Rightarrow> 32 word"
    and magic :: bytes
    and fmt :: db_format
    and crc_pos :: nat
    and kenc :: "mutation_kind \<Rightarrow> byte"
    and kdec :: "byte \<Rightarrow> nat \<Rightarrow> mutation_kind result"
    and enc :: "nat \<Rightarrow> mutation_kind \<times> bytes \<times> bytes \<Rightarrow> bytes"
    and lengths :: "mutation_kind \<Rightarrow> nat \<Rightarrow> nat \<Rightarrow> nat \<Rightarrow> unit result"
    and avail :: "bytes \<Rightarrow> nat \<Rightarrow> bytes \<Rightarrow> nat \<Rightarrow> unit result"
    and parse :: "bytes \<Rightarrow> nat \<Rightarrow> nat \<Rightarrow> record_metadata result"
    and partial_hdr :: "bytes \<Rightarrow> nat \<Rightarrow> nat \<Rightarrow> unit result"
    and step :: "bytes \<Rightarrow> nat \<Rightarrow> nat \<Rightarrow> (mutation_kind \<times> bytes \<times> bytes) record_step result"
  assumes magic_len: "length magic = 4"
    and kdec_Inr: "kdec b off = Inr kind \<longleftrightarrow> b = kenc kind"
    and enc_eq: "enc q (kind, key, val) = record_bytes crc magic 1 (kenc kind) q key val"
    and lengths_Inr: "lengths kind kl vl off = Inr u \<longleftrightarrow>
      kl \<le> MAX_KEY_BYTES \<and> vl \<le> MAX_VALUE_BYTES \<and> (kind = MDelete \<longrightarrow> vl = 0)"
    and avail_unfold: "avail bs field_offset expected record_offset =
         (if length bs \<le> field_offset then Inr ()
          else let available = min (length bs - field_offset) (length expected) in
            if seg field_offset (field_offset + available) bs \<noteq> take available expected
            then Inl (Corruption (record_offset + field_offset))
            else Inr ())"
    and parse_unfold: "parse header offset expected_sequence =
         (if take 4 header \<noteq> magic then Inl (Corruption offset)
          else if read_u32 (seg 24 28 header) \<noteq> unat (crc (take 24 header))
          then Inl (Corruption (offset + 24))
          else if header ! 4 \<noteq> 1
          then Inl (UnsupportedVersion fmt (unat (header ! 4)) (unat (1 :: byte)))
          else rbind (kdec (header ! 5) offset) (\<lambda>kind.
            if read_u16 (seg 6 8 header) \<noteq> 0 then Inl (Corruption (offset + 6))
            else let q = read_u64 (seg 8 16 header) in
              if q \<noteq> expected_sequence then Inl (Corruption (offset + 8))
              else let key_len = read_u32 (seg 16 20 header);
                       value_len = read_u32 (seg 20 24 header)
                in rbind (lengths kind key_len value_len offset) (\<lambda>_.
                   rbind (ok_or (checked_add64 key_len value_len) (Corruption offset)) (\<lambda>payload_len.
                   rbind (ok_or (checked_add64 32 payload_len) (Corruption offset))
                     (\<lambda>total_len.
                   Inr \<lparr>md_kind = kind, md_sequence = q, md_key_len = key_len,
                        md_value_len = value_len, md_total_len = total_len,
                        md_expected_record_crc = read_u32 (seg 28 32 header)\<rparr>)))))"
    and partial_unfold: "partial_hdr bs offset expected_sequence =
         (let magic_bytes = min (length bs) (length magic) in
          rbind (ensure (take magic_bytes bs = take magic_bytes magic) (Corruption offset)) (\<lambda>_.
          rbind (ensure (\<not> (length bs \<ge> 5 \<and> bs ! 4 \<noteq> 1)) (Corruption (offset + 4))) (\<lambda>_.
          rbind (if length bs \<ge> 6 then rmap (\<lambda>_. ()) (kdec (bs ! 5) offset) else Inr ()) (\<lambda>_.
          rbind (avail bs 6 (le_bytes 2 0) offset) (\<lambda>_.
          rbind (avail bs 8 (le_bytes 8 expected_sequence) offset) (\<lambda>_.
          rbind (ensure (\<not> (length bs \<ge> 20 \<and> read_u32 (seg 16 20 bs) > MAX_KEY_BYTES))
                   (Corruption (offset + 16))) (\<lambda>_.
          rbind (if length bs \<ge> 24
                 then rbind (kdec (bs ! 5) offset) (\<lambda>kind.
                   lengths kind (read_u32 (seg 16 20 bs)) (read_u32 (seg 20 24 bs))
                     offset)
                 else Inr ()) (\<lambda>_.
          ensure (\<not> (length bs \<ge> 28 \<and> read_u32 (seg 24 28 bs) \<noteq> unat (crc (take 24 bs))))
            (Corruption (offset + 24))))))))))"
    and step_unfold: "step f offset expected_sequence =
         (let remaining = length f - offset in
          if remaining < 32
          then rbind (partial_hdr (seg offset (length f) f) offset expected_sequence)
                 (\<lambda>_. Inr (TornRecord None))
          else let header = seg offset (offset + 32) f in
            rbind (parse header offset expected_sequence) (\<lambda>metadata.
            rbind (ok_or (checked_add64 offset (md_total_len metadata)) (Corruption offset)) (\<lambda>record_end.
              if record_end > length f then Inr (TornRecord (Some (md_total_len metadata)))
              else rbind (ok_or (checked_add64 (md_key_len metadata) (md_value_len metadata))
                           (Corruption offset)) (\<lambda>payload_len.
                let payload = seg (offset + 32)
                                (offset + 32 + payload_len) f
                in if unat (crc (take 28 header @ payload)) \<noteq> md_expected_record_crc metadata
                   then Inl (Corruption (offset + crc_pos))
                   else Inr (WholeRecord
                          (md_kind metadata, take (md_key_len metadata) payload,
                           drop (md_key_len metadata) payload)
                          (md_total_len metadata))))))"
begin

declare magic_len [simp]

lemma kdec_kenc [simp]: "kdec (kenc kind) off = Inr kind"
  by (simp add: kdec_Inr)

lemma kenc_inj [simp]: "kenc a = kenc b \<longleftrightarrow> a = b"
  by (metis kdec_Inr sum.inject(2))

text \<open>The header of an encoded record parses to its fields.\<close>

lemma parse_encoded:
  assumes "record_wf (kind, key, val)" "q \<le> u64_max"
  shows "parse (take 32 (enc q (kind, key, val) @ r)) off q =
    Inr \<lparr>md_kind = kind, md_sequence = q, md_key_len = length key, md_value_len = length val,
         md_total_len = 32 + length key + length val,
         md_expected_record_crc = unat (crc (take 28 (enc q (kind, key, val)) @
           key @ val))\<rparr>"
proof -
  let ?h24 = "frame24 magic 1 (kenc kind) q (length key) (length val)"
  let ?h28 = "?h24 @ crc_field (crc ?h24)"
  have h: "take 32 (enc q (kind, key, val) @ r) =
      ?h24 @ crc_field (crc ?h24) @ crc_field (crc (?h28 @ key @ val))"
    by (simp add: enc_eq record_bytes_def Let_def)
  have t: "take 28 (enc q (kind, key, val)) = ?h28"
    by (simp add: enc_eq record_bytes_def Let_def)
  have s: "seg 24 28 (?h24 @ crc_field (crc ?h24) @ c) = crc_field (crc ?h24)"
    "seg 28 32 (?h24 @ crc_field (crc ?h24) @ crc_field w) = crc_field w" for c w
    by (simp_all add: layout)
  have "lengths kind (length key) (length val) off = Inr ()"
    using assms(1) by (auto simp: record_wf_def lengths_Inr)
  then show ?thesis
    using assms record_wf_bounds [OF assms(1)]
    unfolding h t parse_unfold frame24_fields [OF magic_len] s
    by (simp add: Let_def checked_add64_def del: le_bytes.simps)
qed

lemma length_enc [simp]:
  "length (enc q (kind, key, val)) = 32 + length key + length val"
  by (simp add: enc_eq)

lemma enc_payload: "drop 32 (enc q (kind, key, val)) = key @ val"
  by (simp add: enc_eq record_bytes_fields)

lemma scan_whole:
  assumes "record_wf m" "q \<le> u64_max" "length (a @ enc q m @ b) \<le> u64_max"
  shows "step (a @ enc q m @ b) (length a) q =
    Inr (WholeRecord m (length (enc q m)))"
proof -
  obtain kind key val where m: "m = (kind, key, val)" by (cases m)
  let ?R = "enc q m"
  have parse: "parse (take 32 (?R @ b)) (length a) q =
    Inr \<lparr>md_kind = kind, md_sequence = q, md_key_len = length key, md_value_len = length val,
         md_total_len = 32 + length key + length val,
         md_expected_record_crc = unat (crc (take 28 ?R @ key @ val))\<rparr>"
    using parse_encoded assms(1,2) by (simp add: m)
  have header: "seg (length a) (length a + 32) (a @ ?R @ b) = take 32 (?R @ b)"
    by (rule seg_after0)
  have t28: "take 28 (take 32 (?R @ b)) = take 28 ?R"
    by (simp add: m)
  have "drop 32 (?R @ b) = key @ val @ b"
    using enc_payload [of q kind key val] by (simp add: m)
  then have payload: "seg (length a + 32) (length a + 32 + (length key + length val)) (a @ ?R @ b) =
      key @ val"
    using seg_after [of a 32 "32 + (length key + length val)" "?R @ b"]
    by (simp add: seg_def add.assoc)
  have kv: "take (length key) (key @ val) = key" by simp
  show ?thesis
    using assms record_wf_bounds [of kind key val] parse header t28 payload kv
    by (simp add: step_unfold Let_def checked_add64_def m
        add.assoc del: take_append take_take)
qed

lemma available_prefix:
  assumes "n \<le> length R" "seg i (i + length e) R = e"
  shows "avail (take n R) i e off = Inr ()"
proof (cases "n \<le> i")
  case True
  then show ?thesis by (simp add: avail_unfold min.coboundedI2)
next
  case False
  let ?a = "min (n - i) (length e)"
  have "seg i (i + ?a) (take n R) = seg i (i + ?a) R"
  proof -
    have "min (i + ?a) n = i + ?a" using False by arith
    then show ?thesis by (simp only: seg_take)
  qed
  also have "\<dots> = take ?a (seg i (i + length e) R)"
    by (simp add: take_seg min_def)
  finally show ?thesis
    using assms False by (simp add: avail_unfold Let_def min_absorb2)
qed


text \<open>Every proper prefix of an encoded record scans as torn.\<close>

lemma partial_ok:
  assumes "record_wf (kind, key, val)" "q \<le> u64_max" "n < 32"
  shows "partial_hdr (take n (enc q (kind, key, val))) off q = Inr ()"
proof -
  let ?R = "enc q (kind, key, val)"
  let ?h24 = "frame24 magic 1 (kenc kind) q (length key) (length val)"
  obtain r where R: "?R = ?h24 @ r"
    by (metis enc_eq record_frame_prefix magic_len)
  note fields = frame24_fields [OF magic_len, of 1 "kenc kind" q
      "length key" "length val" r, folded R]
  have crc: "seg 24 28 ?R = crc_field (crc (take 24 ?R))"
    using record_bytes_fields [OF magic_len] by (simp add: enc_eq)
  have len: "n < length ?R" using assms(3) by simp
  define p where "p = take n ?R"
  have lp: "length p = n" using len by (simp add: p_def)
  have c1: "take (min n 4) p = take (min n 4) magic"
    unfolding p_def fields(1) [symmetric] by (simp add: min.commute)
  have nth: "5 \<le> n \<Longrightarrow> p ! 4 = 1" "6 \<le> n \<Longrightarrow> p ! 5 = kenc kind"
    using fields(2,3) by (simp_all add: p_def)
  have kl: "20 \<le> n \<Longrightarrow> read_u32 (seg 16 20 p) = length key"
    using fields(6) record_wf_bounds [OF assms(1)] by (simp add: p_def seg_take min_def del: le_bytes.simps)
  have vl: "24 \<le> n \<Longrightarrow> read_u32 (seg 20 24 p) = length val"
    using fields(7) record_wf_bounds [OF assms(1)] by (simp add: p_def seg_take min_def del: le_bytes.simps)
  have c8: "28 \<le> n \<Longrightarrow> read_u32 (seg 24 28 p) = unat (crc (take 24 p))"
    using crc by (simp add: p_def seg_take min_def)
  have c4: "avail p 6 (le_bytes 2 0) off = Inr ()"
    unfolding p_def using fields(4) len by (intro available_prefix) (simp_all del: le_bytes.simps)
  have c5: "avail p 8 (le_bytes 8 q) off = Inr ()"
    unfolding p_def using fields(5) len by (intro available_prefix) (simp_all del: le_bytes.simps)
  have c7: "lengths kind (length key) (length val) off = Inr ()"
    "\<not> MAX_KEY_BYTES < length key"
    using assms(1) by (auto simp: record_wf_def lengths_Inr)
  show ?thesis
    unfolding p_def [symmetric] partial_unfold Let_def lp magic_len c1 c4 c5
    by (auto simp: ensure_def nth kl vl c7 c8)
qed

lemma scan_torn:
  assumes "record_wf m" "q \<le> u64_max" "0 < n" "n < length (enc q m)"
    and "length a + length (enc q m) \<le> u64_max"
  shows "step (a @ take n (enc q m)) (length a) q =
    Inr (TornRecord (if n < 32 then None else Some (length (enc q m))))"
proof -
  obtain kind key val where m: "m = (kind, key, val)" by (cases m)
  let ?R = "enc q m"
  have seg_all: "seg (length a) (length a + n) (a @ take n ?R) = take n ?R"
    by (simp add: seg_after0)
  show ?thesis
  proof (cases "n < 32")
    case True
    then have "partial_hdr (take n ?R) (length a) q = Inr ()"
      using partial_ok assms(1,2) by (simp add: m)
    then show ?thesis
      using True assms(4) seg_all
      by (simp add: step_unfold Let_def min_absorb2 m)
  next
    case False
    have "seg (length a) (length a + 32) (a @ take n ?R) = take 32 ?R"
      using False by (simp add: seg_after0 min_absorb1)
    moreover have "parse (take 32 ?R) (length a) q =
      Inr \<lparr>md_kind = kind, md_sequence = q, md_key_len = length key, md_value_len = length val,
           md_total_len = 32 + length key + length val,
           md_expected_record_crc = unat (crc (take 28 ?R @ key @ val))\<rparr>"
      using parse_encoded [of kind key val q "[]" "length a"] assms(1,2) by (simp add: m)
    ultimately show ?thesis
      using False assms(4,5)
      by (simp add: step_unfold Let_def min_absorb2 m
          checked_add64_def add.assoc)
  qed
qed

text \<open>Whatever scans as a record is the canonical encoding of it.\<close>

lemma parse_sound:
  assumes "parse h off q = Inr md" "length h = 32"
  shows "q \<le> u64_max \<and> md_sequence md = q \<and>
    take 24 h = frame24 magic 1 (kenc (md_kind md)) q
      (md_key_len md) (md_value_len md) \<and>
    seg 24 28 h = crc_field (crc (take 24 h)) \<and>
    md_key_len md \<le> MAX_KEY_BYTES \<and> md_value_len md \<le> MAX_VALUE_BYTES \<and>
    (md_kind md = MDelete \<longrightarrow> md_value_len md = 0) \<and>
    md_total_len md = 32 + md_key_len md + md_value_len md \<and>
    md_expected_record_crc md = read_u32 (seg 28 32 h)"
proof -
  let ?kl = "read_u32 (seg 16 20 h)" and ?vl = "read_u32 (seg 20 24 h)"
  have f: "take 4 h = magic" "read_u32 (seg 24 28 h) = unat (crc (take 24 h))"
    "h ! 4 = 1" "h ! 5 = kenc (md_kind md)"
    "read_u16 (seg 6 8 h) = 0" "read_u64 (seg 8 16 h) = q"
    and v: "?kl \<le> MAX_KEY_BYTES \<and> ?vl \<le> MAX_VALUE_BYTES \<and> (md_kind md = MDelete \<longrightarrow> ?vl = 0)"
    and md: "md_sequence md = q" "md_key_len md = ?kl" "md_value_len md = ?vl"
      "md_total_len md = 32 + ?kl + ?vl" "md_expected_record_crc md = read_u32 (seg 28 32 h)"
    using assms(1)
    by (auto simp: parse_unfold Let_def result_iff kdec_Inr
        lengths_Inr split: if_splits)
  have "take 24 h = frame24 magic 1 (kenc (md_kind md)) q ?kl ?vl"
    using f assms(2) by (intro frame24_intro) (simp_all add: seg_take)
  moreover have "seg 24 28 h = crc_field (crc (take 24 h))"
    using f(2) assms(2) by (simp add: read_u32_eq_crc length_seg)
  moreover have "q \<le> u64_max"
    using f(6) read_le_bytes(3) [of "seg 8 16 h" q] assms(2) by (simp add: length_seg)
  ultimately show ?thesis using v md by simp
qed

lemma scan_sound:
  assumes "step f off q = Inr (WholeRecord m n)"
  shows "record_wf m \<and> q \<le> u64_max \<and> n = length (enc q m) \<and> off + n \<le> length f \<and>
    seg off (off + n) f = enc q m"
proof -
  let ?h = "seg off (off + 32) f"
  obtain md where md: "parse ?h off q = Inr md"
    and n: "n = md_total_len md" and fits: "off + n \<le> length f" and h: "off + 32 \<le> length f"
    and crc: "unat (crc (take 28 ?h @ seg (off + 32) (off + 32 + (md_key_len md + md_value_len md)) f)) =
      md_expected_record_crc md"
    and m: "m = (md_kind md,
      take (md_key_len md) (seg (off + 32) (off + 32 + (md_key_len md + md_value_len md)) f),
      drop (md_key_len md) (seg (off + 32) (off + 32 + (md_key_len md + md_value_len md)) f))"
    using assms
    by (auto simp: step_unfold Let_def result_iff not_less
        split: if_splits)
  have lh: "length ?h = 32" using h by (simp add: length_seg)
  note hdr = parse_sound [OF md lh]
  define x where "x = seg off (off + n) f"
  have lx: "length x = 32 + md_key_len md + md_value_len md"
    using fits hdr by (simp add: x_def length_seg n)
  have n32: "n = 32 + (md_key_len md + md_value_len md)" using hdr n by simp
  have hx: "?h = take 32 x" by (simp add: x_def take_seg n32)
  have px: "seg (off + 32) (off + 32 + (md_key_len md + md_value_len md)) f = drop 32 x"
    by (simp add: x_def drop_seg n32 add.assoc)
  have "x = record_bytes crc magic 1 (kenc (md_kind md)) q
      (take (md_key_len md) (drop 32 x)) (drop (md_key_len md) (drop 32 x))"
  proof (rule record_bytes_intro [OF lx magic_len])
    show "take 24 x = frame24 magic 1 (kenc (md_kind md)) q
        (md_key_len md) (md_value_len md)" "seg 24 28 x = crc_field (crc (take 24 x))"
      using hdr by (simp_all add: hx seg_take)
    have "read_u32 (seg 28 32 x) = unat (crc (take 28 x @ drop 32 x))"
      using crc hdr by (simp add: hx px seg_take)
    then show "seg 28 32 x = crc_field (crc (take 28 x @ drop 32 x))"
      using lx by (subst (asm) read_u32_eq_crc) (simp_all add: length_seg)
  qed
  then have x: "x = enc q m"
    by (simp add: m px enc_eq)
  moreover have "record_wf m"
    using hdr lx by (auto simp: m px record_wf_def)
  ultimately show ?thesis
    using hdr fits lx n32 by (simp add: x_def)
qed


text \<open>What scans as torn is an incomplete record for the expected sequence: never a whole one,
  and never bytes that contradict a header.\<close>

lemma avail_Inr:
  "avail bs i e off = Inr u \<longleftrightarrow> seg i (i + length e) bs = take (length bs - i) e"
proof (cases "length bs \<le> i")
  case True
  then show ?thesis by (simp add: avail_unfold seg_def)
next
  case False
  let ?a = "min (length bs - i) (length e)"
  have "seg i (i + ?a) bs = seg i (i + length e) bs"
    using False by (simp add: seg_def min_def)
  moreover have "take ?a e = take (length bs - i) e" by (simp add: min_def)
  ultimately show ?thesis
    using False by (simp add: avail_unfold Let_def)
qed

lemma partial_sound:
  assumes "partial_hdr bs off q = Inr ()" "bs \<noteq> []" "length bs < 32" "q \<le> u64_max"
  shows "torn_frame crc magic kenc q bs"
proof -
  define n where "n = length bs"
  have p: "take 4 bs = take n magic" "5 \<le> n \<longrightarrow> bs ! 4 = 1"
    "6 \<le> n \<longrightarrow> (\<exists>kind. bs ! 5 = kenc kind)"
    "seg 6 8 bs = take (n - 6) (le_bytes 2 0)" "seg 8 16 bs = take (n - 8) (le_bytes 8 q)"
    "20 \<le> n \<longrightarrow> read_u32 (seg 16 20 bs) \<le> MAX_KEY_BYTES"
    "24 \<le> n \<longrightarrow> (\<forall>kind. bs ! 5 = kenc kind \<longrightarrow> read_u32 (seg 20 24 bs) \<le> MAX_VALUE_BYTES \<and>
        (kind = MDelete \<longrightarrow> read_u32 (seg 20 24 bs) = 0))"
    "28 \<le> n \<longrightarrow> read_u32 (seg 24 28 bs) = unat (crc (take 24 bs))"
    using assms(1)
    by (auto simp: partial_unfold Let_def result_iff avail_Inr n_def min_def kdec_Inr lengths_Inr
        not_less not_le simp del: le_bytes.simps split: if_splits)
  obtain kind where kind: "6 \<le> n \<longrightarrow> bs ! 5 = kenc kind" using p(3) by blast
  define F0 where "F0 = frame24 magic 1 (kenc kind) q 0 0"
  have F0: "length F0 = 24" "take 16 F0 = magic @ [1, kenc kind] @ le_bytes 2 0 @ le_bytes 8 q"
    by (simp_all add: F0_def frame24_def del: le_bytes.simps)
  have mid: "seg 4 6 bs = take (n - 4) [1, kenc kind]"
  proof -
    consider "n \<le> 4" | "n = 5" | "6 \<le> n" by linarith
    then show ?thesis
    proof cases
      case 1
      then show ?thesis by (simp add: seg_def n_def)
    next
      case 2
      then show ?thesis
        using p(2) by (intro nth_equalityI) (auto simp: seg_def n_def)
    next
      case 3
      then show ?thesis
        using p(2) kind
        by (intro nth_equalityI) (auto simp: seg_def n_def numeral_2_eq_2 less_Suc_eq)
    qed
  qed
  have front: "take 16 bs = take n (take 16 F0)"
  proof -
    have "take 16 bs = take 4 bs @ seg 4 6 bs @ seg 6 8 bs @ seg 8 16 bs"
      by (simp add: seg_join flip: seg_0)
    also have "\<dots> = take n (magic @ [1, kenc kind] @ le_bytes 2 0 @ le_bytes 8 q)"
      unfolding p(1,4,5) mid
      by (simp only: take_append) (simp del: le_bytes.simps append_Cons add: eval_nat_numeral)
    finally show ?thesis unfolding F0(2) .
  qed
  define P where "P = take 24 (bs @ drop n F0)"
  have P: "length P = 24" using F0(1) by (simp add: P_def n_def)
  have P16: "take 16 P = take 16 F0"
  proof (cases "n \<le> 16")
    case True
    then have "take 16 P = take n (take 16 F0) @ take (16 - n) (drop n F0)"
      unfolding front [symmetric] by (simp add: P_def n_def)
    also have "\<dots> = take 16 F0"
      using True by (simp add: min_absorb1 flip: take_add)
    finally show ?thesis .
  next
    case False
    then show ?thesis using front F0(1) by (simp add: P_def n_def)
  qed
  have cut: "take n P = take 24 bs"
    using F0(1) by (cases "n \<le> 24") (auto simp: P_def n_def min_def)
  have f16: "take 4 P = take 4 (take 16 P)" "P ! 4 = take 16 P ! 4" "P ! 5 = take 16 P ! 5"
    "seg 6 8 P = seg 6 8 (take 16 P)" "seg 8 16 P = seg 8 16 (take 16 P)"
    by (simp_all add: seg_take)
  let ?kl = "read_u32 (seg 16 20 P)" and ?vl = "read_u32 (seg 20 24 P)"
  have frame: "P = frame24 magic 1 (kenc kind) q ?kl ?vl"
    using f16 assms(4) unfolding P16 F0(2)
    by (intro frame24_intro [OF P magic_len])
       (simp_all add: layout nth_append read_le_bytes del: le_bytes.simps)
  have small: "?kl < 4294967296" "?vl < 4294967296"
    using P by (simp_all add: read_le_bytes(2) [THEN iffD1, OF _ refl, THEN conjunct1] length_seg)
  have kl: "20 \<le> n \<Longrightarrow> seg 16 20 P = seg 16 20 bs"
    and vl: "24 \<le> n \<Longrightarrow> seg 20 24 P = seg 20 24 bs" "24 \<le> n \<Longrightarrow> P = take 24 bs"
    using F0(1) by (simp_all add: P_def n_def seg_take seg_append)
  have "seg 24 28 bs = crc_field (crc P)" if "28 \<le> n"
    using that p(8) vl(2) by (simp add: read_u32_eq_crc length_seg n_def)
  then show ?thesis
    unfolding torn_frame_def n_def [symmetric]
    using frame small cut p(6,7) kind kl vl(1) assms(2,3,4)
    by (intro conjI exI [of _ kind] exI [of _ ?kl] exI [of _ ?vl]) (auto simp: n_def)
qed

lemma step_torn_sound:
  assumes "step f off q = Inr (TornRecord req)" "off < length f" "q \<le> u64_max"
  shows "torn_frame crc magic kenc q (drop off f)"
proof (cases "length f - off < 32")
  case True
  have "seg off (length f) f = drop off f" by (simp add: seg_def)
  with True assms show ?thesis
    by (intro partial_sound [of _ off]) (auto simp: step_unfold Let_def result_iff)
next
  case False
  let ?h = "seg off (off + 32) f"
  have h: "?h = take 32 (drop off f)" "length ?h = 32"
    using False by (simp_all add: seg_def length_seg)
  have st: "rbind (parse ?h off q) (\<lambda>metadata.
      rbind (ok_or (checked_add64 off (md_total_len metadata)) (Corruption off)) (\<lambda>record_end.
        if record_end > length f then Inr (TornRecord (Some (md_total_len metadata)))
        else rbind (ok_or (checked_add64 (md_key_len metadata) (md_value_len metadata)) (Corruption off))
          (\<lambda>payload_len. let payload = seg (off + 32) (off + 32 + payload_len) f
            in if unat (crc (take 28 ?h @ payload)) \<noteq> md_expected_record_crc metadata
               then Inl (Corruption (off + crc_pos))
               else Inr (WholeRecord (md_kind metadata, take (md_key_len metadata) payload,
                  drop (md_key_len metadata) payload) (md_total_len metadata))))) =
      Inr (TornRecord req)"
    using assms(1) False by (simp only: step_unfold Let_def if_False)
  then obtain md e where md: "parse ?h off q = Inr md"
    and e: "ok_or (checked_add64 off (md_total_len md)) (Corruption off) = Inr e"
    and "(if e > length f then Inr (TornRecord (Some (md_total_len md)))
        else rbind (ok_or (checked_add64 (md_key_len md) (md_value_len md)) (Corruption off))
          (\<lambda>payload_len. let payload = seg (off + 32) (off + 32 + payload_len) f
            in if unat (crc (take 28 ?h @ payload)) \<noteq> md_expected_record_crc md
               then Inl (Corruption (off + crc_pos))
               else Inr (WholeRecord (md_kind md, take (md_key_len md) payload,
                  drop (md_key_len md) payload) (md_total_len md)))) =
      Inr (TornRecord req)"
    by (simp only: rbind_eq_Inr) blast
  then have "length f < e"
    by (auto simp: rbind_eq_Inr Let_def split: if_splits)
  moreover have "e = off + md_total_len md" using e by (simp add: result_iff)
  ultimately have short: "length f < off + md_total_len md" by simp
  note hdr = parse_sound [OF md h(2)]
  have "take 24 (drop off f) = take 24 ?h" "seg 24 28 (drop off f) = seg 24 28 ?h"
    by (simp_all add: h seg_take)
  then show ?thesis
    using hdr short assms(2,3) False h(2) unfolding torn_frame_def
    by (intro conjI exI [of _ "md_kind md"] exI [of _ "md_key_len md"] exI [of _ "md_value_len md"])
       (simp_all add: MAX_KEY_BYTES_def MAX_VALUE_BYTES_def)
qed

text \<open>Conversely, every incomplete record for the expected sequence scans as torn.\<close>

lemma partial_complete:
  assumes "torn_frame crc magic kenc q bs" "length bs < 32"
  shows "partial_hdr bs off q = Inr ()"
proof -
  define n where "n = length bs"
  obtain kind kl vl where b: "kl < 4294967296" "vl < 4294967296"
    and fr: "take 24 bs = take n (frame24 magic 1 (kenc kind) q kl vl)"
    and kl: "20 \<le> n \<longrightarrow> kl \<le> MAX_KEY_BYTES"
    and vl: "24 \<le> n \<longrightarrow> vl \<le> MAX_VALUE_BYTES \<and> (kind = MDelete \<longrightarrow> vl = 0)"
    and ck: "28 \<le> n \<longrightarrow> seg 24 28 bs = crc_field (crc (frame24 magic 1 (kenc kind) q kl vl))"
    using assms(1) by (auto simp: torn_frame_def n_def)
  define R where "R = frame24 magic 1 (kenc kind) q kl vl @ drop 24 bs"
  note fields = frame24_fields [OF magic_len, of 1 "kenc kind" q kl vl "drop 24 bs", folded R_def]
  have bs: "bs = take n R"
  proof (cases "n \<le> 24")
    case True
    then show ?thesis using fr by (simp add: R_def n_def)
  next
    case False
    then have "take 24 bs = frame24 magic 1 (kenc kind) q kl vl"
      using fr by simp
    then have "R = bs" by (metis R_def append_take_drop_id)
    then show ?thesis by (simp add: n_def)
  qed
  have len: "n \<le> length R" by (simp add: R_def n_def)
  have c1: "take (min n 4) bs = take (min n 4) magic"
    unfolding bs fields(1) [symmetric] by (simp add: min.commute)
  have nth: "5 \<le> n \<Longrightarrow> bs ! 4 = 1" "6 \<le> n \<Longrightarrow> bs ! 5 = kenc kind"
    using fields(2,3) by (subst bs, simp)+
  have seg_bs: "j \<le> n \<Longrightarrow> seg i j bs = seg i j R" for i j
    by (subst bs) (simp add: seg_take min_absorb1)
  have lens: "20 \<le> n \<Longrightarrow> read_u32 (seg 16 20 bs) = kl" "24 \<le> n \<Longrightarrow> read_u32 (seg 20 24 bs) = vl"
    using fields(6,7) b by (simp_all add: seg_bs read_le_bytes del: le_bytes.simps)
  have t24: "24 \<le> n \<Longrightarrow> take 24 bs = frame24 magic 1 (kenc kind) q kl vl"
    using fr by simp
  have c8: "28 \<le> n \<Longrightarrow> read_u32 (seg 24 28 bs) = unat (crc (take 24 bs))"
    using ck t24 by (simp add: n_def)
  have av: "avail bs 6 (le_bytes 2 0) off = Inr ()" "avail bs 8 (le_bytes 8 q) off = Inr ()"
    using len fields(4,5) by (subst bs, intro available_prefix; simp del: le_bytes.simps)+
  have lg: "24 \<le> n \<Longrightarrow> lengths kind kl vl off = Inr ()"
    using kl vl by (simp add: lengths_Inr)
  show ?thesis
    unfolding partial_unfold Let_def n_def [symmetric] magic_len c1 av
    using kl by (auto simp: ensure_def nth lens c8 lg not_less)
qed

lemma step_torn_complete:
  assumes "torn_frame crc magic kenc q rest"
    and "length (a @ rest) + (32 + MAX_KEY_BYTES + MAX_VALUE_BYTES) \<le> u64_max"
  shows "\<exists>req. step (a @ rest) (length a) q = Inr (TornRecord req)"
proof (cases "length rest < 32")
  case True
  have "seg (length a) (length a + length rest) (a @ rest) = rest"
    by (simp add: seg_after0)
  then show ?thesis
    using True partial_complete [OF assms(1) True] by (simp add: step_unfold Let_def)
next
  case False
  let ?c = "seg 28 32 rest"
  obtain kind kl vl where q: "q \<le> u64_max" and b: "kl \<le> MAX_KEY_BYTES" "vl \<le> MAX_VALUE_BYTES"
      "kind = MDelete \<longrightarrow> vl = 0"
    and fr: "take 24 rest = frame24 magic 1 (kenc kind) q kl vl"
      "seg 24 28 rest = crc_field (crc (frame24 magic 1 (kenc kind) q kl vl))"
    and short: "length rest < 32 + kl + vl"
    using assms(1) False by (auto simp: torn_frame_def)
  let ?F = "frame24 magic 1 (kenc kind) q kl vl"
  have h: "take 32 rest = ?F @ crc_field (crc ?F) @ ?c"
  proof -
    have "take 32 rest = take 24 rest @ seg 24 28 rest @ ?c"
      by (simp add: seg_join flip: seg_0)
    then show ?thesis by (simp only: fr)
  qed
  have s: "seg 24 28 (?F @ crc_field (crc ?F) @ ?c) = crc_field (crc ?F)"
    by (simp add: layout)
  have lg: "lengths kind kl vl (length a) = Inr ()" using b by (simp add: lengths_Inr)
  have small: "kl < 4294967296" "vl < 4294967296" "32 + (kl + vl) \<le> u64_max"
    using b by (simp_all add: MAX_KEY_BYTES_def MAX_VALUE_BYTES_def u64_max_def)
  obtain md where md: "parse (take 32 rest) (length a) q = Inr md" "md_total_len md = 32 + (kl + vl)"
    using q small lg unfolding h parse_unfold frame24_fields [OF magic_len] s
    by (simp add: Let_def checked_add64_def read_le_bytes del: le_bytes.simps)
  have "seg (length a) (length a + 32) (a @ rest) = take 32 rest"
    by (rule seg_after0)
  then show ?thesis
    using False md assms(2) b short
    by (simp add: step_unfold Let_def checked_add64_def)
qed

text \<open>The proper prefixes of encoded records are incomplete records.\<close>

lemma torn_enc:
  assumes "record_wf m" "0 < n" "n < length (enc q m)" "q \<le> u64_max"
  shows "torn_frame crc magic kenc q (take n (enc q m))"
  using assms
  by (cases m) (auto simp: enc_eq record_wf_def intro!: torn_frame_take)

end

end
