(* ===== verification/LogFormat.thy ===== *)
theory LogFormat
  imports Decimal RecordCodec
begin

text \<open>
  The append-log file format (\<open>crates/db-storage-log/src/lib.rs\<close>): the generation file-name
  guard, the file header, the record codec and the replaying scan.  \<open>crc\<close> is the CRC-32 of
  the \<open>crc32fast\<close> crate, a parameter: no lemma needs more of it than that it is a function of
  the bytes.  A file is its bytes; reads are slices of them.
\<close>

subsection \<open>Constants\<close>

definition LOG_FILE_MAGIC :: bytes where "LOG_FILE_MAGIC = ascii ''DBLABKV'' @ [0]"
definition LOG_FILE_VERSION :: nat where "LOG_FILE_VERSION = 1"
definition LOG_FILE_HEADER_LEN :: nat where "LOG_FILE_HEADER_LEN = 16"
definition LOG_RECORD_MAGIC :: bytes where "LOG_RECORD_MAGIC = ascii ''KVLG''"
definition LOG_RECORD_VERSION :: byte where "LOG_RECORD_VERSION = 1"
definition LOG_RECORD_HEADER_LEN :: nat where "LOG_RECORD_HEADER_LEN = 32"
definition GENERATION_PREFIX :: bytes where "GENERATION_PREFIX = ascii ''generation-''"
definition GENERATION_SUFFIX :: bytes where "GENERATION_SUFFIX = ascii ''.log''"
definition GENERATION_ID_WIDTH :: nat where "GENERATION_ID_WIDTH = 20"

lemma length_log_magic [simp]: "length LOG_RECORD_MAGIC = 4" "length LOG_FILE_MAGIC = 8"
  by (simp_all add: LOG_RECORD_MAGIC_def LOG_FILE_MAGIC_def)


subsection \<open>Generation-owned file names\<close>

text \<open>\<open>None\<close> stands for a path without a file name, or one that is not UTF-8.\<close>

definition is_canonical_generation_path :: "bytes option \<Rightarrow> bool" where
  "is_canonical_generation_path file_name =
     (case file_name of
        None \<Rightarrow> False
      | Some name \<Rightarrow>
          (case Option.bind (strip_prefix GENERATION_PREFIX name) (strip_suffix GENERATION_SUFFIX) of
             None \<Rightarrow> False
           | Some digits \<Rightarrow>
               (if length digits \<noteq> GENERATION_ID_WIDTH \<or> \<not> list_all is_ascii_digit digits then False
               else case parse_digits digits of
                      None \<Rightarrow> False
                    | Some n \<Rightarrow> n \<noteq> 0 \<and> format_dec 20 n = digits)))"

definition reject_standalone_generation_path :: "bytes option \<Rightarrow> unit result" where
  "reject_standalone_generation_path p =
     (if is_canonical_generation_path p then Inl InvalidInput else Inr ())"

definition require_managed_generation_path :: "bytes option \<Rightarrow> unit result" where
  "require_managed_generation_path p =
     (if \<not> is_canonical_generation_path p then Inl InvalidInput else Inr ())"


subsection \<open>The file header\<close>

definition encode_log_header :: "(bytes \<Rightarrow> 32 word) \<Rightarrow> bytes" where
  "encode_log_header crc =
     (let h = LOG_FILE_MAGIC @ le_bytes 2 LOG_FILE_VERSION @ le_bytes 2 LOG_FILE_HEADER_LEN
      in h @ crc_field (crc h))"

definition validate_log_header :: "(bytes \<Rightarrow> 32 word) \<Rightarrow> bytes \<Rightarrow> unit result" where
  "validate_log_header crc header =
     (if take 8 header \<noteq> LOG_FILE_MAGIC then Inl (Corruption 0)
      else if read_u32 (seg 12 16 header) \<noteq> unat (crc (take 12 header)) then Inl (Corruption 12)
      else let version = read_u16 (seg 8 10 header) in
        if version \<noteq> LOG_FILE_VERSION
        then Inl (UnsupportedVersion FmtLogFile version LOG_FILE_VERSION)
        else if read_u16 (seg 10 12 header) \<noteq> LOG_FILE_HEADER_LEN then Inl (Corruption 10)
        else Inr ())"


subsection \<open>Records\<close>

fun log_kind_encoded :: "mutation_kind \<Rightarrow> byte" where
  "log_kind_encoded MPut = 1"
| "log_kind_encoded MDelete = 2"

definition log_kind_decode :: "byte \<Rightarrow> nat \<Rightarrow> mutation_kind result" where
  "log_kind_decode encoded offset =
     (if encoded = 1 then Inr MPut
      else if encoded = 2 then Inr MDelete
      else Inl (Corruption (offset + 5)))"

definition log_record_bytes ::
    "(bytes \<Rightarrow> 32 word) \<Rightarrow> nat \<Rightarrow> mutation_kind \<times> bytes \<times> bytes \<Rightarrow> bytes" where
  "log_record_bytes crc q m =
     (case m of (kind, key, val) \<Rightarrow>
       (let h24 = LOG_RECORD_MAGIC @ [LOG_RECORD_VERSION, log_kind_encoded kind] @ le_bytes 2 0 @
              le_bytes 8 q @ le_bytes 4 (length key) @ le_bytes 4 (length val);
            h28 = h24 @ crc_field (crc h24);
            header = h28 @ crc_field (crc (h28 @ key @ val))
        in header @ key @ val))"

definition encode_log_record ::
    "(bytes \<Rightarrow> 32 word) \<Rightarrow> mutation_kind \<Rightarrow> nat \<Rightarrow> bytes \<Rightarrow> bytes \<Rightarrow> bytes result" where
  "encode_log_record crc kind q key val =
     rbind (validate_key_value key val) (\<lambda>_.
     rbind (ensure (\<not> (kind = MDelete \<and> val \<noteq> [])) InvalidInput) (\<lambda>_.
     rbind (ok_or (try_u32 (length key)) InvalidInput) (\<lambda>_.
     rbind (ok_or (try_u32 (length val)) InvalidInput) (\<lambda>_.
     rbind (ok_or (checked_add64 (length key) (length val)) InvalidInput) (\<lambda>payload_len.
     rbind (ok_or (checked_add64 LOG_RECORD_HEADER_LEN payload_len) InvalidInput) (\<lambda>_.
     Inr (log_record_bytes crc q (kind, key, val))))))))"

definition log_validate_record_lengths ::
    "mutation_kind \<Rightarrow> nat \<Rightarrow> nat \<Rightarrow> nat \<Rightarrow> unit result" where
  "log_validate_record_lengths kind key_len value_len offset =
     (if key_len > MAX_KEY_BYTES then Inl (Corruption (offset + 16))
      else if value_len > MAX_VALUE_BYTES then Inl (Corruption (offset + 20))
      else if kind = MDelete \<and> value_len \<noteq> 0 then Inl (Corruption (offset + 20))
      else rbind (ok_or (checked_add64 key_len value_len) (Corruption offset)) (\<lambda>_. Inr ()))"

definition log_parse_record_header ::
    "(bytes \<Rightarrow> 32 word) \<Rightarrow> bytes \<Rightarrow> nat \<Rightarrow> nat \<Rightarrow> record_metadata result" where
  "log_parse_record_header crc header offset expected_sequence =
     (if take 4 header \<noteq> LOG_RECORD_MAGIC then Inl (Corruption offset)
      else if read_u32 (seg 24 28 header) \<noteq> unat (crc (take 24 header))
      then Inl (Corruption (offset + 24))
      else if header ! 4 \<noteq> LOG_RECORD_VERSION
      then Inl (UnsupportedVersion FmtLogRecord (unat (header ! 4)) (unat LOG_RECORD_VERSION))
      else rbind (log_kind_decode (header ! 5) offset) (\<lambda>kind.
        if read_u16 (seg 6 8 header) \<noteq> 0 then Inl (Corruption (offset + 6))
        else let q = read_u64 (seg 8 16 header) in
          if q \<noteq> expected_sequence then Inl (Corruption (offset + 8))
          else let key_len = read_u32 (seg 16 20 header);
                   value_len = read_u32 (seg 20 24 header)
            in rbind (log_validate_record_lengths kind key_len value_len offset) (\<lambda>_.
               rbind (ok_or (checked_add64 key_len value_len) (Corruption offset)) (\<lambda>payload_len.
               rbind (ok_or (checked_add64 LOG_RECORD_HEADER_LEN payload_len) (Corruption offset))
                 (\<lambda>total_len.
               Inr \<lparr>md_kind = kind, md_sequence = q, md_key_len = key_len,
                    md_value_len = value_len, md_total_len = total_len,
                    md_expected_record_crc = read_u32 (seg 28 32 header)\<rparr>)))))"

definition log_validate_available_prefix ::
    "bytes \<Rightarrow> nat \<Rightarrow> bytes \<Rightarrow> nat \<Rightarrow> unit result" where
  "log_validate_available_prefix bs field_offset expected record_offset =
     (if length bs \<le> field_offset then Inr ()
      else let available = min (length bs - field_offset) (length expected) in
        if seg field_offset (field_offset + available) bs \<noteq> take available expected
        then Inl (Corruption (record_offset + field_offset))
        else Inr ())"

definition log_validate_partial_header ::
    "(bytes \<Rightarrow> 32 word) \<Rightarrow> bytes \<Rightarrow> nat \<Rightarrow> nat \<Rightarrow> unit result" where
  "log_validate_partial_header crc bs offset expected_sequence =
     (let magic_bytes = min (length bs) (length LOG_RECORD_MAGIC) in
      rbind (ensure (take magic_bytes bs = take magic_bytes LOG_RECORD_MAGIC) (Corruption offset)) (\<lambda>_.
      rbind (ensure (\<not> (length bs \<ge> 5 \<and> bs ! 4 \<noteq> LOG_RECORD_VERSION)) (Corruption (offset + 4))) (\<lambda>_.
      rbind (if length bs \<ge> 6 then rmap (\<lambda>_. ()) (log_kind_decode (bs ! 5) offset) else Inr ()) (\<lambda>_.
      rbind (log_validate_available_prefix bs 6 (le_bytes 2 0) offset) (\<lambda>_.
      rbind (log_validate_available_prefix bs 8 (le_bytes 8 expected_sequence) offset) (\<lambda>_.
      rbind (ensure (\<not> (length bs \<ge> 20 \<and> read_u32 (seg 16 20 bs) > MAX_KEY_BYTES))
               (Corruption (offset + 16))) (\<lambda>_.
      rbind (if length bs \<ge> 24
             then rbind (log_kind_decode (bs ! 5) offset) (\<lambda>kind.
               log_validate_record_lengths kind (read_u32 (seg 16 20 bs)) (read_u32 (seg 20 24 bs))
                 offset)
             else Inr ()) (\<lambda>_.
      ensure (\<not> (length bs \<ge> 28 \<and> read_u32 (seg 24 28 bs) \<noteq> unat (crc (take 24 bs))))
        (Corruption (offset + 24))))))))))"


subsection \<open>The scan\<close>

definition log_scan_record ::
    "(bytes \<Rightarrow> 32 word) \<Rightarrow> bytes \<Rightarrow> nat \<Rightarrow> nat \<Rightarrow> (mutation_kind \<times> bytes \<times> bytes) record_step result" where
  "log_scan_record crc f offset expected_sequence =
     (let remaining = length f - offset in
      if remaining < LOG_RECORD_HEADER_LEN
      then rbind (log_validate_partial_header crc (seg offset (length f) f) offset expected_sequence)
             (\<lambda>_. Inr (TornRecord None))
      else let header = seg offset (offset + LOG_RECORD_HEADER_LEN) f in
        rbind (log_parse_record_header crc header offset expected_sequence) (\<lambda>metadata.
        rbind (ok_or (checked_add64 offset (md_total_len metadata)) (Corruption offset)) (\<lambda>record_end.
          if record_end > length f then Inr (TornRecord (Some (md_total_len metadata)))
          else rbind (ok_or (checked_add64 (md_key_len metadata) (md_value_len metadata))
                       (Corruption offset)) (\<lambda>payload_len.
            let payload = seg (offset + LOG_RECORD_HEADER_LEN)
                            (offset + LOG_RECORD_HEADER_LEN + payload_len) f
            in if unat (crc (take 28 header @ payload)) \<noteq> md_expected_record_crc metadata
               then Inl (Corruption offset)
               else Inr (WholeRecord
                      (md_kind metadata, take (md_key_len metadata) payload,
                       drop (md_key_len metadata) payload)
                      (md_total_len metadata))))))"

definition log_apply :: "(bytes, bytes) ordmap \<Rightarrow> mutation_kind \<times> bytes \<times> bytes \<Rightarrow>
    (bytes, bytes) ordmap result" where
  "log_apply values m =
     (case m of (kind, key, val) \<Rightarrow>
        Inr (case kind of MPut \<Rightarrow> om_insert key val values | MDelete \<Rightarrow> om_remove key values))"


lemma log_scan_record_pos: "log_scan_record crc f off q = Inr (WholeRecord m n) \<Longrightarrow> 0 < n"
  by (auto simp: log_scan_record_def log_parse_record_header_def Let_def result_iff
      LOG_RECORD_HEADER_LEN_def split: if_splits)

function log_scan_loop ::
    "(bytes \<Rightarrow> 32 word) \<Rightarrow> bytes \<Rightarrow> nat \<Rightarrow> nat \<Rightarrow> nat \<Rightarrow> (bytes, bytes) ordmap \<Rightarrow>
       (bytes, bytes) ordmap scan_result result" where
  "log_scan_loop crc f offset expected_sequence record_count values =
     (if offset < length f then
        rbind (log_scan_record crc f offset expected_sequence) (\<lambda>st.
          case st of
            TornRecord req \<Rightarrow>
              Inr \<lparr>sc_file_bytes = length f, sc_valid_bytes = offset,
                   sc_record_count = record_count, sc_next_sequence = expected_sequence,
                   sc_recoverable_tail = Some \<lparr>tail_record_offset = offset,
                     tail_available_bytes = length f - offset, tail_required_bytes = req\<rparr>,
                   sc_values = values\<rparr>
          | WholeRecord m total_len \<Rightarrow>
              rbind (log_apply values m) (\<lambda>values'.
              rbind (ok_or (checked_add64 expected_sequence 1) (Corruption (offset + total_len)))
                (\<lambda>next_sequence.
              rbind (ok_or (checked_add64 record_count 1) (Corruption (offset + total_len)))
                (\<lambda>count'.
              log_scan_loop crc f (offset + total_len) next_sequence count' values'))))
      else Inr \<lparr>sc_file_bytes = length f, sc_valid_bytes = offset,
                sc_record_count = record_count, sc_next_sequence = expected_sequence,
                sc_recoverable_tail = None, sc_values = values\<rparr>)"
  by pat_completeness auto
termination
  by (relation "measure (\<lambda>(_, f, offset, _). length f - offset)")
     (auto dest: log_scan_record_pos)

declare log_scan_loop.simps [simp del]

definition log_scan_file ::
    "(bytes \<Rightarrow> 32 word) \<Rightarrow> bytes \<Rightarrow> (bytes, bytes) ordmap scan_result result" where
  "log_scan_file crc f =
     (if length f < LOG_FILE_HEADER_LEN then Inl (Corruption 0)
      else rbind (validate_log_header crc (take LOG_FILE_HEADER_LEN f)) (\<lambda>_.
        log_scan_loop crc f LOG_FILE_HEADER_LEN 1 0 om_empty))"


subsection \<open>The codec and its scanner\<close>

lemma log_record_bytes_eq:
  "log_record_bytes crc q (kind, key, val) =
     record_bytes crc LOG_RECORD_MAGIC 1 (log_kind_encoded kind) q key val"
  by (simp add: log_record_bytes_def record_bytes_def frame24_def Let_def LOG_RECORD_VERSION_def)

lemma encode_log_record_Inr [result_iff]:
  "encode_log_record crc kind q key val = Inr bs \<longleftrightarrow>
     record_wf (kind, key, val) \<and> bs = log_record_bytes crc q (kind, key, val)"
  by (auto simp: encode_log_record_def record_wf_def result_iff MAX_KEY_BYTES_def
      MAX_VALUE_BYTES_def u64_max_def LOG_RECORD_HEADER_LEN_def)

lemma log_kind_decode_Inr: "log_kind_decode b off = Inr kind \<longleftrightarrow> b = log_kind_encoded kind"
  by (cases kind) (auto simp: log_kind_decode_def)

lemma log_lengths_Inr:
  "log_validate_record_lengths kind kl vl off = Inr u \<longleftrightarrow>
     kl \<le> MAX_KEY_BYTES \<and> vl \<le> MAX_VALUE_BYTES \<and> (kind = MDelete \<longrightarrow> vl = 0)"
  by (auto simp: log_validate_record_lengths_def result_iff MAX_KEY_BYTES_def MAX_VALUE_BYTES_def
      u64_max_def)

interpretation log_codec: record_codec crc LOG_RECORD_MAGIC FmtLogRecord 0 log_kind_encoded
    log_kind_decode "log_record_bytes crc" log_validate_record_lengths
    log_validate_available_prefix "log_parse_record_header crc" "log_validate_partial_header crc"
    "log_scan_record crc" for crc
proof
  show "length LOG_RECORD_MAGIC = 4" by simp
  show "log_kind_decode b off = Inr kind \<longleftrightarrow> b = log_kind_encoded kind" for b off kind
    by (rule log_kind_decode_Inr)
  show "log_record_bytes crc q (kind, key, val) =
      record_bytes crc LOG_RECORD_MAGIC 1 (log_kind_encoded kind) q key val" for crc q kind key val
    by (rule log_record_bytes_eq)
  show "log_validate_record_lengths kind kl vl off = Inr u \<longleftrightarrow>
      kl \<le> MAX_KEY_BYTES \<and> vl \<le> MAX_VALUE_BYTES \<and> (kind = MDelete \<longrightarrow> vl = 0)" for kind kl vl off u
    by (rule log_lengths_Inr)
qed (simp_all only: log_validate_available_prefix_def log_parse_record_header_def
    log_validate_partial_header_def log_scan_record_def LOG_RECORD_VERSION_def
    LOG_RECORD_HEADER_LEN_def add_0_right)

lemma length_log_record [simp]:
  "length (log_record_bytes crc q (kind, key, val)) = 32 + length key + length val"
  by (simp add: log_record_bytes_eq)

abbreviation log_torn :: "(bytes \<Rightarrow> 32 word) \<Rightarrow> nat \<Rightarrow> bytes \<Rightarrow> bool" where
  "log_torn crc \<equiv> torn_frame crc LOG_RECORD_MAGIC log_kind_encoded"

interpretation log: record_scan "log_record_bytes crc" record_wf "log_torn crc" "log_scan_record crc"
    "\<lambda>_. log_apply" "log_scan_loop crc" for crc
proof
  show "log_record_bytes crc q m \<noteq> []" for q m
    by (cases m) (metis length_log_record add_is_0 list.size(3) zero_neq_numeral)
  show "\<exists>req. log_scan_record crc (a @ take n (log_record_bytes crc q m)) (length a) q =
      Inr (TornRecord req)"
    if "record_wf m" "q \<le> u64_max" "0 < n" "n < length (log_record_bytes crc q m)"
      "length a + length (log_record_bytes crc q m) \<le> u64_max" for m q n a
    using log_codec.scan_torn [OF that] by blast
qed (rule log_codec.scan_whole log_codec.scan_sound log_codec.step_torn_sound
    log_codec.step_torn_complete torn_frame_ne log_scan_loop.simps; assumption?)+


subsection \<open>Whole files\<close>

definition log_image :: "(bytes \<Rightarrow> 32 word) \<Rightarrow> (mutation_kind \<times> bytes \<times> bytes) list \<Rightarrow> bytes" where
  "log_image crc ms = encode_log_header crc @ frames (log_record_bytes crc) 1 ms"

fun log_replay :: "(bytes, bytes) ordmap \<Rightarrow> (mutation_kind \<times> bytes \<times> bytes) list \<Rightarrow>
    (bytes, bytes) ordmap" where
  "log_replay values [] = values"
| "log_replay values ((MPut, key, val) # ms) = log_replay (om_insert key val values) ms"
| "log_replay values ((MDelete, key, val) # ms) = log_replay (om_remove key values) ms"

lemma replay_log_apply: "replay (\<lambda>_. log_apply) q values ms = Inr (log_replay values ms)"
  by (induction "values" ms arbitrary: q rule: log_replay.induct) (simp_all add: log_apply_def)

lemma log_replay_snoc:
  "log_replay values (ms @ [(kind, key, val)]) =
     (case kind of MPut \<Rightarrow> om_insert key val (log_replay values ms)
      | MDelete \<Rightarrow> om_remove key (log_replay values ms))"
  by (induction "values" ms rule: log_replay.induct) (simp_all split: mutation_kind.split)

lemma length_encode_log_header [simp]: "length (encode_log_header crc) = 16"
  by (simp add: encode_log_header_def Let_def)

lemma validate_log_header_Inr:
  assumes "length h = 16"
  shows "validate_log_header crc h = Inr u \<longleftrightarrow> h = encode_log_header crc"
proof -
  have split: "h = take 8 h @ seg 8 10 h @ seg 10 12 h @ seg 12 16 h" "take 12 h = take 8 h @ seg 8 10 h @ seg 10 12 h"
    using assms by (simp_all add: seg_join seg_whole flip: seg_0)
  have "validate_log_header crc h = Inr u \<longleftrightarrow>
      take 8 h = LOG_FILE_MAGIC \<and> seg 8 10 h = le_bytes 2 LOG_FILE_VERSION \<and>
      seg 10 12 h = le_bytes 2 LOG_FILE_HEADER_LEN \<and> seg 12 16 h = crc_field (crc (take 12 h))"
  proof -
    have "read_u32 (seg 12 16 h) = unat (crc (take 12 h)) \<longleftrightarrow> seg 12 16 h = crc_field (crc (take 12 h))"
      using assms by (simp add: read_u32_eq_crc length_seg)
    then show ?thesis
      using assms
      by (auto simp: validate_log_header_def Let_def read_le_bytes(1) length_seg
          LOG_FILE_VERSION_def LOG_FILE_HEADER_LEN_def simp del: le_bytes.simps)
  qed
  also have "\<dots> \<longleftrightarrow> h = encode_log_header crc"
  proof
    assume r: "take 8 h = LOG_FILE_MAGIC \<and> seg 8 10 h = le_bytes 2 LOG_FILE_VERSION \<and>
      seg 10 12 h = le_bytes 2 LOG_FILE_HEADER_LEN \<and> seg 12 16 h = crc_field (crc (take 12 h))"
    then show "h = encode_log_header crc"
      using split by (simp add: encode_log_header_def Let_def del: le_bytes.simps)
  next
    assume "h = encode_log_header crc"
    then show "take 8 h = LOG_FILE_MAGIC \<and> seg 8 10 h = le_bytes 2 LOG_FILE_VERSION \<and>
      seg 10 12 h = le_bytes 2 LOG_FILE_HEADER_LEN \<and> seg 12 16 h = crc_field (crc (take 12 h))"
      by (simp add: encode_log_header_def Let_def layout del: le_bytes.simps)
  qed
  finally show ?thesis .
qed

lemma validate_encode_log_header [simp]: "validate_log_header crc (encode_log_header crc) = Inr ()"
  by (simp add: validate_log_header_Inr)

lemma log_scan_image:
  assumes "\<forall>m \<in> set ms. record_wf m" "length ms < u64_max" "length (log_image crc ms) \<le> u64_max"
  shows "log_scan_file crc (log_image crc ms) =
    Inr \<lparr>sc_file_bytes = length (log_image crc ms), sc_valid_bytes = length (log_image crc ms),
         sc_record_count = length ms, sc_next_sequence = 1 + length ms,
         sc_recoverable_tail = None, sc_values = log_replay om_empty ms\<rparr>"
  using log.loop_complete [of ms 1 0 "encode_log_header crc" crc om_empty] assms
  by (simp add: log_scan_file_def LOG_FILE_HEADER_LEN_def validate_log_header_Inr replay_log_apply
      log_image_def)

lemma log_scan_torn_image:
  assumes "\<forall>m \<in> set ms. record_wf m" "record_wf m" "length ms < u64_max"
    and "length (log_image crc (ms @ [m])) \<le> u64_max"
    and "0 < n" "n < length (log_record_bytes crc (1 + length ms) m)"
  shows "\<exists>req. log_scan_file crc (log_image crc ms @ take n (log_record_bytes crc (1 + length ms) m)) =
    Inr \<lparr>sc_file_bytes = length (log_image crc ms) + n,
         sc_valid_bytes = length (log_image crc ms),
         sc_record_count = length ms, sc_next_sequence = 1 + length ms,
         sc_recoverable_tail = Some \<lparr>tail_record_offset = length (log_image crc ms),
           tail_available_bytes = n, tail_required_bytes = req\<rparr>,
         sc_values = log_replay om_empty ms\<rparr>"
  using log.loop_torn [of ms 1 0 m n crc "encode_log_header crc" om_empty] assms
  by (simp add: log_scan_file_def LOG_FILE_HEADER_LEN_def validate_log_header_Inr replay_log_apply
      log_image_def)

lemma log_scan_cut_image:
  assumes "\<forall>m \<in> set ms. record_wf m" "length ms < u64_max" "log_torn crc (1 + length ms) rest"
    and "length (log_image crc ms @ rest) + (32 + MAX_KEY_BYTES + MAX_VALUE_BYTES) \<le> u64_max"
  shows "\<exists>req. log_scan_file crc (log_image crc ms @ rest) =
    Inr \<lparr>sc_file_bytes = length (log_image crc ms @ rest),
         sc_valid_bytes = length (log_image crc ms),
         sc_record_count = length ms, sc_next_sequence = 1 + length ms,
         sc_recoverable_tail = Some \<lparr>tail_record_offset = length (log_image crc ms),
           tail_available_bytes = length rest, tail_required_bytes = req\<rparr>,
         sc_values = log_replay om_empty ms\<rparr>"
  using log.loop_cut [of ms 1 0 crc rest "encode_log_header crc" om_empty] assms
  by (simp add: log_scan_file_def LOG_FILE_HEADER_LEN_def validate_log_header_Inr replay_log_apply
      log_image_def)

lemma log_scan_file_sound:
  assumes "log_scan_file crc f = Inr r"
  shows "\<exists>ms rest. f = log_image crc ms @ rest \<and> (\<forall>m \<in> set ms. record_wf m) \<and>
    sc_values r = log_replay om_empty ms \<and> sc_file_bytes r = length f \<and>
    sc_valid_bytes r = length (log_image crc ms) \<and>
    sc_record_count r = length ms \<and> sc_next_sequence r = 1 + length ms \<and>
    (ms \<noteq> [] \<longrightarrow> length ms < u64_max) \<and>
    (sc_recoverable_tail r = None \<longleftrightarrow> rest = []) \<and>
    (\<forall>t. sc_recoverable_tail r = Some t \<longrightarrow>
       tail_record_offset t = sc_valid_bytes r \<and> tail_available_bytes t = length rest) \<and>
    (rest \<noteq> [] \<longrightarrow> log_torn crc (1 + length ms) rest)"
proof -
  have len: "16 \<le> length f" and hdr: "take 16 f = encode_log_header crc"
    and lp: "log_scan_loop crc f 16 1 0 om_empty = Inr r"
    using assms by (auto simp: log_scan_file_def LOG_FILE_HEADER_LEN_def result_iff
        validate_log_header_Inr split: if_splits)
  have one: "(1 :: nat) \<le> u64_max" by (simp add: u64_max_def)
  from log.loop_sound [OF lp len one] obtain ms rest where ms:
    "drop 16 f = frames (log_record_bytes crc) 1 ms @ rest" "\<forall>m \<in> set ms. record_wf m"
    "replay (\<lambda>_. log_apply) 1 om_empty ms = Inr (sc_values r)" "sc_file_bytes r = length f"
    "sc_valid_bytes r = 16 + length (frames (log_record_bytes crc) 1 ms)"
    "sc_record_count r = 0 + length ms" "sc_next_sequence r = 1 + length ms"
    "ms \<noteq> [] \<longrightarrow> 1 + length ms \<le> u64_max \<and> 0 + length ms \<le> u64_max"
    "sc_recoverable_tail r = None \<longleftrightarrow> rest = []"
    "\<forall>t. sc_recoverable_tail r = Some t \<longrightarrow>
       tail_record_offset t = sc_valid_bytes r \<and> tail_available_bytes t = length rest"
    "rest \<noteq> [] \<longrightarrow> log_torn crc (1 + length ms) rest"
    by (elim exE conjE) (rule that)
  have "f = log_image crc ms @ rest"
    using ms(1) hdr append_take_drop_id [of 16 f] by (simp add: log_image_def)
  with ms show ?thesis
    by (intro exI [of _ ms] exI [of _ rest]) (simp add: replay_log_apply log_image_def Suc_le_eq)
qed


subsection \<open>Properties\<close>

definition generation_file_name :: "nat \<Rightarrow> bytes" where
  "generation_file_name n = GENERATION_PREFIX @ format_dec 20 n @ GENERATION_SUFFIX"

text \<open>The generation-path guard accepts exactly the file names
  \<open>generation-{id:020}.log\<close> of the nonzero 64-bit ids.\<close>

lemma is_canonical_generation_path_iff:
  "is_canonical_generation_path p \<longleftrightarrow>
     (\<exists>n. 0 < n \<and> n \<le> u64_max \<and> p = Some (generation_file_name n))"
proof
  assume "is_canonical_generation_path p"
  then obtain name digits n where p: "p = Some name"
    and digits: "name = GENERATION_PREFIX @ digits @ GENERATION_SUFFIX"
    and n: "parse_digits digits = Some n" "n \<noteq> 0" "format_dec 20 n = digits"
    by (auto simp: is_canonical_generation_path_def strip_prefix_eq_Some strip_suffix_eq_Some
        Option.bind_eq_Some_conv split: option.splits if_splits)
  then have "n \<le> u64_max"
    by (auto simp: parse_digits_def result_iff split: if_splits)
  with n p digits show "\<exists>n. 0 < n \<and> n \<le> u64_max \<and> p = Some (generation_file_name n)"
    by (auto simp: generation_file_name_def)
next
  assume "\<exists>n. 0 < n \<and> n \<le> u64_max \<and> p = Some (generation_file_name n)"
  then obtain n where n: "0 < n" "n \<le> u64_max" and p: "p = Some (generation_file_name n)"
    by auto
  have "length (format_dec 20 n) = 20"
    using n by (intro length_format_dec) (simp_all add: u64_max_def)
  moreover have "list_all is_ascii_digit (format_dec 20 n)"
    using digits_format [of 20 n] by (simp add: list_all_iff)
  moreover have "strip_suffix GENERATION_SUFFIX (format_dec 20 n @ GENERATION_SUFFIX) =
      Some (format_dec 20 n)"
    by (simp add: strip_suffix_eq_Some)
  moreover have "strip_prefix GENERATION_PREFIX (generation_file_name n) =
      Some (format_dec 20 n @ GENERATION_SUFFIX)"
    by (simp add: strip_prefix_eq_Some generation_file_name_def)
  ultimately show "is_canonical_generation_path p"
    using n by (simp add: is_canonical_generation_path_def p GENERATION_ID_WIDTH_def
        parse_digits_def try_u64_def dec_val_format)
qed

end
