(* ===== verification/LogEngine.thy ===== *)
theory LogEngine
  imports LogFormat KvEngine
begin

text \<open>
  The append-log engine (\<open>LogEngine\<close> in \<open>crates/db-storage-log/src/lib.rs\<close>).  Its state keeps
  the struct's fields and \<open>le_disk\<close>, the bytes of the backing file.  What the environment decides
  is an argument: \<open>fault\<close> says whether an append's write and sync succeed, and if not how many
  of its bytes reached the file; \<open>reopen_env\<close> holds what the file system answers during
  \<open>reopen\<close>.  A \<open>Hasher\<close> is the bytes fed to it, \<open>finalize\<close> applies \<open>crc\<close>.  A crash drops the
  engine and keeps \<open>le_disk\<close>.
\<close>

subsection \<open>State\<close>

datatype path_ownership = OwnStandalone | OwnGenerationManaged

record log_engine =
  le_path :: "bytes option"
  le_path_ownership :: path_ownership
  le_file_open :: bool
  le_values :: kv_state
  le_next_sequence :: nat
  le_record_count :: nat
  le_acknowledged_valid_bytes :: nat
  le_acknowledged_prefix_hasher :: bytes
  le_recovered_tail :: "truncated_tail option"
  le_poisoned :: bool
  le_disk :: bytes

type_synonym io_fault = "(nat \<times> io_kind) option"

record reopen_env =
  rv_symlink :: "bool result"
  rv_open :: "unit result"
  rv_same_identity :: "bool result"

definition quiet_env :: reopen_env where
  "quiet_env = \<lparr>rv_symlink = Inr False, rv_open = Inr (), rv_same_identity = Inr True\<rparr>"

definition hash_file_prefix :: "bytes \<Rightarrow> nat \<Rightarrow> bytes result" where
  "hash_file_prefix f prefix_bytes =
     (if prefix_bytes \<le> length f then Inr (take prefix_bytes f) else Inl (Io UnexpectedEof))"


subsection \<open>Opening\<close>

definition log_from_file ::
    "(bytes \<Rightarrow> 32 word) \<Rightarrow> bytes option \<Rightarrow> path_ownership \<Rightarrow> bytes \<Rightarrow> bool \<Rightarrow>
       log_engine result \<times> bytes" where
  "log_from_file crc path ownership f created =
     (let f0 = (if created then encode_log_header crc else f) in
      case log_scan_file crc f0 of
        Inl e \<Rightarrow> (Inl e, f0)
      | Inr scan \<Rightarrow>
          (let f1 = (if sc_recoverable_tail scan \<noteq> None then take (sc_valid_bytes scan) f0 else f0) in
           case hash_file_prefix f1 (sc_valid_bytes scan) of
             Inl e \<Rightarrow> (Inl e, f1)
           | Inr hasher \<Rightarrow>
               (Inr \<lparr>le_path = path, le_path_ownership = ownership, le_file_open = True,
                     le_values = sc_values scan, le_next_sequence = sc_next_sequence scan,
                     le_record_count = sc_record_count scan,
                     le_acknowledged_valid_bytes = sc_valid_bytes scan,
                     le_acknowledged_prefix_hasher = hasher,
                     le_recovered_tail = sc_recoverable_tail scan, le_poisoned = False,
                     le_disk = f1\<rparr>, f1)))"

text \<open>The file at the path is \<open>None\<close> when the path does not exist.\<close>

definition log_create_new_file :: "bytes option \<Rightarrow> unit result" where
  "log_create_new_file existing =
     (case existing of None \<Rightarrow> Inr () | Some _ \<Rightarrow> Inl (Io AlreadyExists))"

definition log_open_or_create :: "bytes option \<Rightarrow> bool \<Rightarrow> (bytes \<times> bool) result" where
  "log_open_or_create existing is_symlink =
     (case existing of
        None \<Rightarrow> Inr ([], True)
      | Some f \<Rightarrow> if is_symlink then Inl InvalidInput else Inr (f, False))"

definition log_open_with_ownership ::
    "(bytes \<Rightarrow> 32 word) \<Rightarrow> bytes option \<Rightarrow> path_ownership \<Rightarrow> bytes option \<Rightarrow> bool \<Rightarrow>
       log_engine result \<times> bytes option" where
  "log_open_with_ownership crc path ownership existing is_symlink =
     (case log_open_or_create existing is_symlink of
        Inl e \<Rightarrow> (Inl e, existing)
      | Inr (f, created) \<Rightarrow>
          (case log_from_file crc path ownership f created of (r, f') \<Rightarrow> (r, Some f')))"

definition log_open ::
    "(bytes \<Rightarrow> 32 word) \<Rightarrow> bytes option \<Rightarrow> bytes option \<Rightarrow> bool \<Rightarrow>
       log_engine result \<times> bytes option" where
  "log_open crc path existing is_symlink =
     (case reject_standalone_generation_path path of
        Inl e \<Rightarrow> (Inl e, existing)
      | Inr _ \<Rightarrow> log_open_with_ownership crc path OwnStandalone existing is_symlink)"

definition log_open_managed_generation ::
    "(bytes \<Rightarrow> 32 word) \<Rightarrow> bytes option \<Rightarrow> bytes option \<Rightarrow> bool \<Rightarrow>
       log_engine result \<times> bytes option" where
  "log_open_managed_generation crc path existing is_symlink =
     (case require_managed_generation_path path of
        Inl e \<Rightarrow> (Inl e, existing)
      | Inr _ \<Rightarrow> log_open_with_ownership crc path OwnGenerationManaged existing is_symlink)"

definition log_create_new_with_ownership ::
    "(bytes \<Rightarrow> 32 word) \<Rightarrow> bytes option \<Rightarrow> path_ownership \<Rightarrow> bytes option \<Rightarrow>
       log_engine result \<times> bytes option" where
  "log_create_new_with_ownership crc path ownership existing =
     (case log_create_new_file existing of
        Inl e \<Rightarrow> (Inl e, existing)
      | Inr _ \<Rightarrow>
          (case log_from_file crc path ownership [] True of (r, f') \<Rightarrow> (r, Some f')))"

definition log_create_new ::
    "(bytes \<Rightarrow> 32 word) \<Rightarrow> bytes option \<Rightarrow> bytes option \<Rightarrow> log_engine result \<times> bytes option" where
  "log_create_new crc path existing =
     (case reject_standalone_generation_path path of
        Inl e \<Rightarrow> (Inl e, existing)
      | Inr _ \<Rightarrow> log_create_new_with_ownership crc path OwnStandalone existing)"

definition log_create_new_managed_generation ::
    "(bytes \<Rightarrow> 32 word) \<Rightarrow> bytes option \<Rightarrow> bytes option \<Rightarrow> log_engine result \<times> bytes option" where
  "log_create_new_managed_generation crc path existing =
     (case require_managed_generation_path path of
        Inl e \<Rightarrow> (Inl e, existing)
      | Inr _ \<Rightarrow> log_create_new_with_ownership crc path OwnGenerationManaged existing)"


subsection \<open>Read-only reports\<close>

record verification_report =
  vr_file_format_version :: nat
  vr_file_bytes :: nat
  vr_valid_bytes :: nat
  vr_record_count :: nat
  vr_live_keys :: nat
  vr_next_sequence :: nat
  vr_recoverable_tail :: "truncated_tail option"

record inspection_entry =
  ie_key :: bytes
  ie_value_bytes :: nat
  ie_value :: "bytes option"

record inspection_report =
  ir_verification :: verification_report
  ir_entries :: "inspection_entry list"

definition log_verification :: "(bytes, bytes) ordmap scan_result \<Rightarrow> verification_report" where
  "log_verification scan =
     \<lparr>vr_file_format_version = LOG_FILE_VERSION, vr_file_bytes = sc_file_bytes scan,
      vr_valid_bytes = sc_valid_bytes scan, vr_record_count = sc_record_count scan,
      vr_live_keys = om_size (sc_values scan), vr_next_sequence = sc_next_sequence scan,
      vr_recoverable_tail = sc_recoverable_tail scan\<rparr>"

definition log_verify :: "(bytes \<Rightarrow> 32 word) \<Rightarrow> bytes \<Rightarrow> verification_report result" where
  "log_verify crc f = rmap log_verification (log_scan_file crc f)"

definition log_inspect ::
    "(bytes \<Rightarrow> 32 word) \<Rightarrow> bytes \<Rightarrow> bool \<Rightarrow> inspection_report result" where
  "log_inspect crc f include_values =
     rbind (log_scan_file crc f) (\<lambda>scan.
       Inr \<lparr>ir_verification = log_verification scan,
            ir_entries = map (\<lambda>(key, val).
                \<lparr>ie_key = key, ie_value_bytes = length val,
                 ie_value = (if include_values then Some val else None)\<rparr>)
              (entries (sc_values scan))\<rparr>)"


subsection \<open>Appending\<close>

definition log_ensure_usable :: "log_engine \<Rightarrow> unit result" where
  "log_ensure_usable e = (if le_poisoned e \<or> \<not> le_file_open e then Inl Poisoned else Inr ())"

definition log_append ::
    "(bytes \<Rightarrow> 32 word) \<Rightarrow> io_fault \<Rightarrow> mutation_kind \<Rightarrow> bytes \<Rightarrow> bytes \<Rightarrow> log_engine \<Rightarrow>
       unit result \<times> log_engine" where
  "log_append crc fault kind key val e =
     (case rbind (log_ensure_usable e) (\<lambda>_.
           rbind (ok_or (checked_add64 (le_next_sequence e) 1) (Corruption 0)) (\<lambda>following_sequence.
           rbind (ok_or (checked_add64 (le_record_count e) 1) (Corruption 0)) (\<lambda>following_count.
           rbind (encode_log_record crc kind (le_next_sequence e) key val) (\<lambda>record.
           rbind (ok_or (checked_add64 (le_acknowledged_valid_bytes e) (length record))
                    (Corruption 0)) (\<lambda>following_bytes.
           Inr (following_sequence, following_count, record, following_bytes)))))) of
        Inl err \<Rightarrow> (Inl err, e)
      | Inr (following_sequence, following_count, record, following_bytes) \<Rightarrow>
          (let observed_eof = length (le_disk e);
               (append_result, disk') =
                 (if observed_eof \<noteq> le_acknowledged_valid_bytes e
                  then (Inl (Corruption observed_eof), le_disk e)
                  else case hash_file_prefix (le_disk e) (le_acknowledged_valid_bytes e) of
                    Inl err \<Rightarrow> (Inl err, le_disk e)
                  | Inr hasher \<Rightarrow>
                      if crc hasher \<noteq> crc (le_acknowledged_prefix_hasher e)
                      then (Inl (Corruption 0), le_disk e)
                      else case fault of
                        Some (n, k) \<Rightarrow> (Inl (Io k), le_disk e @ take n record)
                      | None \<Rightarrow> (Inr (), le_disk e @ record))
           in case append_result of
                Inl err \<Rightarrow> (Inl err, e\<lparr>le_poisoned := True, le_disk := disk'\<rparr>)
              | Inr _ \<Rightarrow>
                  (Inr (), e\<lparr>le_disk := disk',
                             le_acknowledged_prefix_hasher := le_acknowledged_prefix_hasher e @ record,
                             le_acknowledged_valid_bytes := following_bytes,
                             le_next_sequence := following_sequence,
                             le_record_count := following_count\<rparr>)))"


subsection \<open>The trait methods\<close>

definition log_capabilities :: "log_engine \<Rightarrow> engine_capabilities" where
  "log_capabilities e =
     \<lparr>ec_logical_model = KeyValue, ec_storage_architecture = AppendLog,
      ec_concurrency = CallerSerialized, ec_persistence = Persistent,
      ec_crash_recovery = TruncatedFinalAppend, ec_distribution = Standalone,
      ec_ordered_range_scan = False, ec_max_key_bytes = MAX_KEY_BYTES,
      ec_max_value_bytes = MAX_VALUE_BYTES\<rparr>"

definition log_put ::
    "(bytes \<Rightarrow> 32 word) \<Rightarrow> io_fault \<Rightarrow> log_engine \<Rightarrow> bytes \<Rightarrow> bytes \<Rightarrow>
       bytes option result \<times> log_engine" where
  "log_put crc fault e key val =
     (case validate_key_value key val of
        Inl err \<Rightarrow> (Inl err, e)
      | Inr _ \<Rightarrow>
          (let previous = om_lookup (le_values e) key in
           case log_append crc fault MPut key val e of
             (Inl err, e') \<Rightarrow> (Inl err, e')
           | (Inr _, e') \<Rightarrow> (Inr previous, e'\<lparr>le_values := om_insert key val (le_values e')\<rparr>)))"

definition log_get :: "log_engine \<Rightarrow> bytes \<Rightarrow> bytes option result \<times> log_engine" where
  "log_get e key =
     (rbind (validate_key key) (\<lambda>_.
      rbind (log_ensure_usable e) (\<lambda>_. Inr (om_lookup (le_values e) key))), e)"

definition log_delete ::
    "(bytes \<Rightarrow> 32 word) \<Rightarrow> io_fault \<Rightarrow> log_engine \<Rightarrow> bytes \<Rightarrow> bytes option result \<times> log_engine" where
  "log_delete crc fault e key =
     (case validate_key key of
        Inl err \<Rightarrow> (Inl err, e)
      | Inr _ \<Rightarrow>
          (let previous = om_lookup (le_values e) key in
           case log_append crc fault MDelete key [] e of
             (Inl err, e') \<Rightarrow> (Inl err, e')
           | (Inr _, e') \<Rightarrow> (Inr previous, e'\<lparr>le_values := om_remove key (le_values e')\<rparr>)))"

definition log_reopen ::
    "(bytes \<Rightarrow> 32 word) \<Rightarrow> reopen_env \<Rightarrow> log_engine \<Rightarrow> unit result \<times> log_engine" where
  "log_reopen crc env e =
     (let poisoned = e\<lparr>le_poisoned := True\<rparr>;
          taken = e\<lparr>le_file_open := False, le_poisoned := True\<rparr> in
      case (case le_path_ownership e of
              OwnStandalone \<Rightarrow> reject_standalone_generation_path (le_path e)
            | OwnGenerationManaged \<Rightarrow> require_managed_generation_path (le_path e)) of
        Inl err \<Rightarrow> (Inl err, taken)
      | Inr _ \<Rightarrow>
      (case rbind (rv_symlink env) (\<lambda>link. ensure (\<not> link) InvalidInput) of
        Inl err \<Rightarrow> (Inl err, poisoned)
      | Inr _ \<Rightarrow>
      (case rv_open env of
        Inl err \<Rightarrow> (Inl err, poisoned)
      | Inr _ \<Rightarrow>
      (case (if le_file_open e then rv_same_identity env else Inr True) of
        Inl err \<Rightarrow> (Inl err, taken)
      | Inr False \<Rightarrow> (Inl InvalidInput, poisoned)
      | Inr True \<Rightarrow>
      (case log_scan_file crc (le_disk e) of
        Inl err \<Rightarrow> (Inl err, poisoned)
      | Inr observed \<Rightarrow>
          if sc_record_count observed < le_record_count e then (Inl (Corruption 0), poisoned)
          else if sc_valid_bytes observed < le_acknowledged_valid_bytes e
          then (Inl (Corruption (sc_valid_bytes observed)), poisoned)
          else case hash_file_prefix (le_disk e) (le_acknowledged_valid_bytes e) of
            Inl err \<Rightarrow> (Inl err, poisoned)
          | Inr hasher \<Rightarrow>
              if crc hasher \<noteq> crc (le_acknowledged_prefix_hasher e)
              then (Inl (Corruption 0), poisoned)
              else case log_from_file crc (le_path e) (le_path_ownership e) (le_disk e) False of
                (Inr reopened, _) \<Rightarrow> (Inr (), reopened)
              | (Inl err, f') \<Rightarrow> (Inl err, poisoned\<lparr>le_disk := f'\<rparr>))))))"

definition log_ops :: "(bytes \<Rightarrow> 32 word) \<Rightarrow> log_engine kv_ops" where
  "log_ops crc =
     \<lparr>op_capabilities = log_capabilities, op_put = log_put crc None, op_get = log_get,
      op_delete = log_delete crc None, op_range_scan = default_range_scan,
      op_reopen = log_reopen crc quiet_env\<rparr>"


subsection \<open>The invariant\<close>

text \<open>\<open>log_holds crc e ms\<close>: the file is exactly the header and the records \<open>ms\<close>, and every
  field of the engine agrees with it.\<close>

definition log_holds ::
    "(bytes \<Rightarrow> 32 word) \<Rightarrow> log_engine \<Rightarrow> (mutation_kind \<times> bytes \<times> bytes) list \<Rightarrow> bool" where
  "log_holds crc e ms \<longleftrightarrow>
     (\<forall>m \<in> set ms. record_wf m) \<and> le_disk e = log_image crc ms \<and>
     le_acknowledged_valid_bytes e = length (le_disk e) \<and>
     le_acknowledged_prefix_hasher e = le_disk e \<and>
     le_values e = log_replay om_empty ms \<and>
     le_next_sequence e = 1 + length ms \<and> le_record_count e = length ms \<and>
     length (le_disk e) \<le> u64_max \<and> length ms < u64_max"

definition log_path_ok :: "log_engine \<Rightarrow> bool" where
  "log_path_ok e \<longleftrightarrow>
     is_canonical_generation_path (le_path e) = (le_path_ownership e = OwnGenerationManaged)"

definition log_invar :: "(bytes \<Rightarrow> 32 word) \<Rightarrow> log_engine \<Rightarrow> bool" where
  "log_invar crc e \<longleftrightarrow>
     le_file_open e \<and> \<not> le_poisoned e \<and> log_path_ok e \<and> (\<exists>ms. log_holds crc e ms)"

text \<open>Every record fits in 32 + 4096 + 1048576 bytes.\<close>

definition log_room :: "nat \<Rightarrow> log_engine \<Rightarrow> bool" where
  "log_room n e \<longleftrightarrow>
     le_next_sequence e + n \<le> u64_max \<and> length (le_disk e) + n * 1052704 \<le> u64_max"

lemma log_record_length_bound: "record_wf m \<Longrightarrow> length (log_record_bytes crc q m) \<le> 1052704"
  by (cases m) (simp add: record_wf_def MAX_KEY_BYTES_def MAX_VALUE_BYTES_def)

lemma log_image_snoc:
  "log_image crc (ms @ [m]) = log_image crc ms @ log_record_bytes crc (1 + length ms) m"
  by (simp add: log_image_def frames_append)

lemma log_append_ok:
  assumes "log_invar crc e" "log_holds crc e ms" "log_room (Suc n) e" "record_wf (kind, key, val)"
  shows "log_append crc None kind key val e =
    (Inr (), e\<lparr>le_disk := log_image crc (ms @ [(kind, key, val)]),
               le_acknowledged_prefix_hasher := log_image crc (ms @ [(kind, key, val)]),
               le_acknowledged_valid_bytes := length (log_image crc (ms @ [(kind, key, val)])),
               le_next_sequence := 2 + length ms, le_record_count := 1 + length ms\<rparr>)"
proof -
  let ?rec = "log_record_bytes crc (1 + length ms) (kind, key, val)"
  have enc: "encode_log_record crc kind (1 + length ms) key val = Inr ?rec"
    using assms(4) by (simp add: result_iff)
  have "log_image crc (ms @ [(kind, key, val)]) = log_image crc ms @ ?rec"
    by (rule log_image_snoc)
  moreover have "length (log_image crc ms) + length ?rec \<le> u64_max" "2 + length ms \<le> u64_max"
    using assms log_record_length_bound [OF assms(4), of crc "1 + length ms"]
    by (auto simp: log_room_def log_holds_def)
  ultimately show ?thesis
    using assms enc
    by (simp add: log_append_def log_invar_def log_holds_def log_ensure_usable_def
        checked_add64_def hash_file_prefix_def)
qed

lemma log_mutation_ok:
  assumes "log_invar crc e" "log_holds crc e ms" "log_room (Suc n) e" "record_wf (kind, key, val)"
    and "vs = log_replay om_empty (ms @ [(kind, key, val)])"
    and "e' = snd (log_append crc None kind key val e)\<lparr>le_values := vs\<rparr>"
  shows "log_invar crc e' \<and> log_holds crc e' (ms @ [(kind, key, val)]) \<and> log_room n e'"
proof -
  have holds: "log_holds crc e' (ms @ [(kind, key, val)])"
    using assms log_append_ok [OF assms(1-4)]
      log_record_length_bound [OF assms(4), of crc "1 + length ms"]
    by (simp add: log_holds_def log_image_snoc log_room_def)
  moreover have "log_room n e'"
    using assms log_append_ok [OF assms(1-4)]
      log_record_length_bound [OF assms(4), of crc "1 + length ms"]
    by (simp add: log_holds_def log_image_snoc log_room_def)
  moreover have "log_invar crc e'"
    using assms log_append_ok [OF assms(1-4)] holds
    by (auto simp: log_invar_def log_path_ok_def)
  ultimately show ?thesis by blast
qed

text \<open>Opening a complete file, or one whose last record is cut, restores the state it holds.\<close>

lemma log_from_image:
  assumes "\<forall>m \<in> set ms. record_wf m" "length ms < u64_max" "length (log_image crc ms) \<le> u64_max"
  shows "\<exists>e. log_from_file crc path own (log_image crc ms) False = (Inr e, log_image crc ms) \<and>
    le_path e = path \<and> le_path_ownership e = own \<and> le_file_open e \<and> \<not> le_poisoned e \<and>
    le_recovered_tail e = None \<and> log_holds crc e ms"
  using log_scan_image [OF assms] assms
  by (simp add: log_from_file_def hash_file_prefix_def log_holds_def Let_def)

lemma log_from_torn_image:
  assumes "\<forall>m \<in> set ms. record_wf m" "record_wf m" "length ms < u64_max"
    and "length (log_image crc (ms @ [m])) \<le> u64_max"
    and "0 < n" "n < length (log_record_bytes crc (1 + length ms) m)"
  shows "\<exists>e. log_from_file crc path own
      (log_image crc ms @ take n (log_record_bytes crc (1 + length ms) m)) False =
      (Inr e, log_image crc ms) \<and>
    le_path e = path \<and> le_path_ownership e = own \<and> le_file_open e \<and> \<not> le_poisoned e \<and>
    le_recovered_tail e \<noteq> None \<and> log_holds crc e ms"
  using log_scan_torn_image [OF assms] assms
  by (auto simp: log_from_file_def hash_file_prefix_def log_holds_def Let_def log_image_snoc)

lemma log_reopen_quiet:
  assumes "log_invar crc e" "log_holds crc e ms"
  shows "\<exists>e'. log_reopen crc quiet_env e = (Inr (), e') \<and> log_invar crc e' \<and> log_holds crc e' ms"
proof -
  have path: "(case le_path_ownership e of
              OwnStandalone \<Rightarrow> reject_standalone_generation_path (le_path e)
            | OwnGenerationManaged \<Rightarrow> require_managed_generation_path (le_path e)) = Inr ()"
    using assms(1)
    by (auto simp: log_invar_def log_path_ok_def reject_standalone_generation_path_def
        require_managed_generation_path_def split: path_ownership.split)
  have ms: "\<forall>m \<in> set ms. record_wf m" "length ms < u64_max" "length (log_image crc ms) \<le> u64_max"
    and disk: "le_disk e = log_image crc ms"
    using assms(2) by (auto simp: log_holds_def)
  obtain e' where e': "log_from_file crc (le_path e) (le_path_ownership e) (log_image crc ms) False =
      (Inr e', log_image crc ms)" "le_path e' = le_path e"
    "le_path_ownership e' = le_path_ownership e" "le_file_open e'" "\<not> le_poisoned e'"
    "log_holds crc e' ms"
    using log_from_image [OF ms] by blast
  then have "log_invar crc e'"
    using assms(1) by (auto simp: log_invar_def log_path_ok_def)
  with e' path assms log_scan_image [OF ms] show ?thesis
    by (simp add: log_reopen_def quiet_env_def Let_def disk hash_file_prefix_def log_holds_def)
qed


subsection \<open>The engine keeps the common contract\<close>

lemma log_put_ok:
  assumes "log_invar crc e" "log_room (Suc n) e" "validate_key_value k v = Inr ()"
  shows "\<exists>e'. log_put crc None e k v = (Inr (om_lookup (le_values e) k), e') \<and> log_invar crc e' \<and>
    log_room n e' \<and> le_values e' = om_insert k v (le_values e)"
proof -
  obtain ms where ms: "log_holds crc e ms" using assms(1) by (auto simp: log_invar_def)
  have wf: "record_wf (MPut, k, v)" using assms(3) by (simp add: record_wf_def result_iff)
  have vs: "om_insert k v (le_values e) = log_replay om_empty (ms @ [(MPut, k, v)])"
    using ms by (simp add: log_replay_snoc log_holds_def)
  show ?thesis
    using log_append_ok [OF assms(1) ms assms(2) wf] log_mutation_ok [OF assms(1) ms assms(2) wf vs refl]
      assms(3) by (simp add: log_put_def Let_def)
qed

lemma log_delete_ok:
  assumes "log_invar crc e" "log_room (Suc n) e" "validate_key k = Inr ()"
  shows "\<exists>e'. log_delete crc None e k = (Inr (om_lookup (le_values e) k), e') \<and> log_invar crc e' \<and>
    log_room n e' \<and> le_values e' = om_remove k (le_values e)"
proof -
  obtain ms where ms: "log_holds crc e ms" using assms(1) by (auto simp: log_invar_def)
  have wf: "record_wf (MDelete, k, [])" using assms(3) by (simp add: record_wf_def result_iff)
  have vs: "om_remove k (le_values e) = log_replay om_empty (ms @ [(MDelete, k, [])])"
    using ms by (simp add: log_replay_snoc log_holds_def)
  show ?thesis
    using log_append_ok [OF assms(1) ms assms(2) wf] log_mutation_ok [OF assms(1) ms assms(2) wf vs refl]
      assms(3) by (simp add: log_delete_def Let_def)
qed

lemma log_room_less: "log_room (Suc n) e \<Longrightarrow> log_room n e"
  by (auto simp: log_room_def)

interpretation log_kv: kv_engine "log_ops crc" "log_invar crc" log_room le_values "\<lambda>_ _. True" for crc
proof
  fix s :: log_engine and n :: nat and k v :: bytes and err :: db_error
  show "common_contract (op_capabilities (log_ops crc) s)"
    by (simp add: log_ops_def log_capabilities_def common_contract_def)
  assume inv: "log_invar crc s" and room: "log_room (Suc n) s"
  show "\<exists>s'. op_put (log_ops crc) s k v = (Inr (om_lookup (le_values s) k), s') \<and> log_invar crc s' \<and>
      log_room n s' \<and> le_values s' = om_insert k v (le_values s)"
    if "validate_key_value k v = Inr ()"
    using log_put_ok [OF inv room that] by (simp add: log_ops_def)
  show "\<exists>s'. op_delete (log_ops crc) s k = (Inr (om_lookup (le_values s) k), s') \<and> log_invar crc s' \<and>
      log_room n s' \<and> le_values s' = om_remove k (le_values s)"
    if "validate_key k = Inr ()"
    using log_delete_ok [OF inv room that] by (simp add: log_ops_def)
  show "\<exists>s'. op_get (log_ops crc) s k = (Inr (om_lookup (le_values s) k), s') \<and> log_invar crc s' \<and>
      log_room n s' \<and> le_values s' = le_values s"
    if "validate_key k = Inr ()"
    using inv log_room_less [OF room] that
    by (simp add: log_ops_def log_get_def log_ensure_usable_def log_invar_def)
  obtain ms where ms: "log_holds crc s ms" using inv by (auto simp: log_invar_def)
  show "\<exists>s'. op_reopen (log_ops crc) s = (Inr (), s') \<and> log_invar crc s' \<and> log_room n s' \<and>
      le_values s' = le_values s"
    using log_reopen_quiet [OF inv ms] ms log_room_less [OF room]
    by (auto simp: log_ops_def log_holds_def log_room_def)
qed (simp_all add: log_ops_def log_put_def log_get_def log_delete_def)


subsection \<open>Fresh engines\<close>

definition fresh_log :: "(bytes \<Rightarrow> 32 word) \<Rightarrow> bytes option \<Rightarrow> path_ownership \<Rightarrow> log_engine" where
  "fresh_log crc path own =
     \<lparr>le_path = path, le_path_ownership = own, le_file_open = True, le_values = om_empty,
      le_next_sequence = 1, le_record_count = 0, le_acknowledged_valid_bytes = 16,
      le_acknowledged_prefix_hasher = encode_log_header crc, le_recovered_tail = None,
      le_poisoned = False, le_disk = encode_log_header crc\<rparr>"

lemma log_image_Nil: "log_image crc [] = encode_log_header crc"
  by (simp add: log_image_def)

lemma log_from_created:
  "log_from_file crc path own f True = (Inr (fresh_log crc path own), encode_log_header crc)"
  using log_scan_image [of "[]" crc]
  by (simp add: log_from_file_def fresh_log_def hash_file_prefix_def log_image_Nil u64_max_def Let_def)

lemma log_holds_fresh: "log_holds crc (fresh_log crc path own) []"
  by (simp add: log_holds_def fresh_log_def log_image_Nil u64_max_def)

lemma log_invar_fresh:
  "is_canonical_generation_path path = (own = OwnGenerationManaged) \<Longrightarrow>
     log_invar crc (fresh_log crc path own)"
  using log_holds_fresh [of crc path own]
  by (auto simp: log_invar_def log_path_ok_def) (simp_all add: fresh_log_def)

lemma log_create_new_fresh:
  "\<not> is_canonical_generation_path path \<Longrightarrow>
     log_create_new crc path None =
       (Inr (fresh_log crc path OwnStandalone), Some (encode_log_header crc))"
  by (simp add: log_create_new_def log_create_new_with_ownership_def log_create_new_file_def
      reject_standalone_generation_path_def log_from_created)

lemma log_room_fresh: "n \<le> MAX_WORKLOAD_STEPS \<Longrightarrow> log_room n (fresh_log crc path own)"
  by (simp add: log_room_def fresh_log_def MAX_WORKLOAD_STEPS_def u64_max_def)

lemma not_canonical_None [simp]: "\<not> is_canonical_generation_path None"
  by (simp add: is_canonical_generation_path_def)


subsection \<open>Appends that fail\<close>

lemma log_put_path:
  assumes "log_invar crc e" "log_room (Suc n) e" "validate_key_value k v = Inr ()"
  shows "le_path (snd (log_put crc None e k v)) = le_path e"
    and "le_path_ownership (snd (log_put crc None e k v)) = le_path_ownership e"
proof -
  obtain ms where ms: "log_holds crc e ms" using assms(1) by (auto simp: log_invar_def)
  have wf: "record_wf (MPut, k, v)" using assms(3) by (simp add: record_wf_def result_iff)
  show "le_path (snd (log_put crc None e k v)) = le_path e"
    "le_path_ownership (snd (log_put crc None e k v)) = le_path_ownership e"
    using log_append_ok [OF assms(1) ms assms(2) wf] assms(3) by (simp_all add: log_put_def Let_def)
qed

lemma log_put_faulted:
  assumes "log_invar crc e" "log_room 1 e" "validate_key_value k v = Inr ()"
  shows "\<exists>d e2. log_put crc (Some (n, err)) e k v = (Inl (Io err), e\<lparr>le_poisoned := True, le_disk := d\<rparr>) \<and>
    log_from_file crc (le_path e) (le_path_ownership e) d False = (Inr e2, le_disk e2) \<and>
    log_invar crc e2 \<and> le_path e2 = le_path e \<and> le_path_ownership e2 = le_path_ownership e \<and>
    le_values e2 = (if 32 + length k + length v \<le> n then om_insert k v (le_values e) else le_values e)"
proof -
  obtain ms where ms: "log_holds crc e ms" using assms(1) by (auto simp: log_invar_def)
  let ?m = "(MPut, k, v)"
  let ?rec = "log_record_bytes crc (1 + length ms) ?m"
  have wf: "record_wf ?m" using assms(3) by (simp add: record_wf_def result_iff)
  have enc: "encode_log_record crc MPut (1 + length ms) k v = Inr ?rec"
    using wf by (simp add: result_iff)
  have fits: "length (log_image crc ms) + length ?rec \<le> u64_max" "2 + length ms \<le> u64_max"
    using assms(2) ms log_record_length_bound [OF wf, of crc "1 + length ms"]
    by (auto simp: log_room_def log_holds_def)
  define d where "d = log_image crc ms @ take n ?rec"
  have put: "log_put crc (Some (n, err)) e k v = (Inl (Io err), e\<lparr>le_poisoned := True, le_disk := d\<rparr>)"
    using assms(1,3) ms enc fits
    by (simp add: log_put_def log_append_def log_invar_def log_holds_def log_ensure_usable_def
        checked_add64_def hash_file_prefix_def d_def Let_def)
  have image: "log_image crc (ms @ [?m]) = log_image crc ms @ ?rec"
    by (rule log_image_snoc)
  have reopened: "log_invar crc e2" if "log_holds crc e2 ms2" "le_path e2 = le_path e"
      "le_path_ownership e2 = le_path_ownership e" "le_file_open e2" "\<not> le_poisoned e2" for e2 ms2
    using that assms(1) by (auto simp: log_invar_def log_path_ok_def)
  have wfs: "\<forall>m \<in> set ms. record_wf m" "length ms < u64_max" "length (log_image crc ms) \<le> u64_max"
    and vals: "le_values e = log_replay om_empty ms"
    using ms by (auto simp: log_holds_def)
  have "\<exists>e2. log_from_file crc (le_path e) (le_path_ownership e) d False = (Inr e2, le_disk e2) \<and>
       log_invar crc e2 \<and> le_path e2 = le_path e \<and> le_path_ownership e2 = le_path_ownership e \<and>
       le_values e2 = (if 32 + length k + length v \<le> n then om_insert k v (le_values e) else le_values e)"
  proof -
    consider (none) "n = 0" | (torn) "0 < n" "n < length ?rec" | (whole) "length ?rec \<le> n"
      by linarith
    then show ?thesis
    proof cases
      case none
      then show ?thesis
        using log_from_image [OF wfs, of "le_path e" "le_path_ownership e"] reopened vals
        by (auto simp: d_def log_holds_def)
    next
      case torn
      then show ?thesis
        using log_from_torn_image [OF wfs(1) wf wfs(2), of crc n "le_path e" "le_path_ownership e"]
          reopened vals fits(1)
        by (auto simp: d_def log_holds_def image)
    next
      case whole
      have wfs': "\<forall>m \<in> set (ms @ [?m]). record_wf m" using wfs(1) wf by simp
      obtain e2 where e2: "log_from_file crc (le_path e) (le_path_ownership e)
          (log_image crc (ms @ [?m])) False = (Inr e2, log_image crc (ms @ [?m]))"
        "le_path e2 = le_path e" "le_path_ownership e2 = le_path_ownership e" "le_file_open e2"
        "\<not> le_poisoned e2" "log_holds crc e2 (ms @ [?m])"
        using log_from_image [OF wfs', of crc "le_path e" "le_path_ownership e"] fits
        by (auto simp: image)
      moreover have "le_values e2 = om_insert k v (le_values e)" "le_disk e2 = log_image crc (ms @ [?m])"
        using e2(6) vals by (simp_all add: log_holds_def log_replay_snoc)
      ultimately show ?thesis
        using whole reopened [OF e2(6,2-5)] by (simp add: d_def image)
    qed
  qed
  with put show ?thesis by blast
qed


subsection \<open>Properties\<close>

text \<open>C17 (log_crash): an append whose write or sync fails after any number of its bytes reached
  the file reports that I/O error and poisons the engine, which from then on refuses every read
  and write and leaves the file alone.  Opening the file again succeeds, re-establishes the
  invariant, and finds either exactly the state before the put or, when the whole record reached
  the file, exactly the state after it.\<close>

theorem log_put_crash_atomic:
  assumes "log_invar crc e" "log_room 1 e" "validate_key_value k v = Inr ()"
  shows "\<exists>e'. log_put crc (Some (n, err)) e k v = (Inl (Io err), e') \<and>
    (\<forall>k'. log_get e' k' = (rbind (validate_key k') (\<lambda>_. Inl Poisoned), e')) \<and>
    (\<forall>fault k' v'. validate_key_value k' v' = Inr () \<longrightarrow>
       log_put crc fault e' k' v' = (Inl Poisoned, e')) \<and>
    (\<exists>e2 f2. log_from_file crc (le_path e) (le_path_ownership e) (le_disk e') False = (Inr e2, f2) \<and>
       log_invar crc e2 \<and>
       le_values e2 = (if 32 + length k + length v \<le> n then om_insert k v (le_values e) else le_values e))"
proof -
  obtain d e2 where put: "log_put crc (Some (n, err)) e k v = (Inl (Io err), e\<lparr>le_poisoned := True, le_disk := d\<rparr>)"
    and e2: "log_from_file crc (le_path e) (le_path_ownership e) d False = (Inr e2, le_disk e2)" "log_invar crc e2"
      "le_values e2 = (if 32 + length k + length v \<le> n then om_insert k v (le_values e) else le_values e)"
    using log_put_faulted [OF assms, of n err] by blast
  define e' where "e' = e\<lparr>le_poisoned := True, le_disk := d\<rparr>"
  have "log_get e' k' = (rbind (validate_key k') (\<lambda>_. Inl Poisoned), e')" for k'
    by (simp add: log_get_def log_ensure_usable_def e'_def)
  moreover have "log_put crc fault e' k' v' = (Inl Poisoned, e')"
    if "validate_key_value k' v' = Inr ()" for fault k' v'
    using that by (simp add: log_put_def log_append_def log_ensure_usable_def e'_def)
  moreover have "\<exists>e2 f2. log_from_file crc (le_path e) (le_path_ownership e) (le_disk e') False = (Inr e2, f2) \<and>
       log_invar crc e2 \<and>
       le_values e2 = (if 32 + length k + length v \<le> n then om_insert k v (le_values e) else le_values e)"
    using e2 by (simp add: e'_def)
  ultimately show ?thesis using put unfolding e'_def [symmetric] by blast
qed

lemma log_put_crash_atomic_witness:
  "\<exists>e2 f2. log_from_file (\<lambda>_. 0) None OwnStandalone
      (le_disk (snd (log_put (\<lambda>_. 0) (Some (20, OtherIo)) (fresh_log (\<lambda>_. 0) None OwnStandalone) [1] [2])))
      False = (Inr e2, f2) \<and> log_invar (\<lambda>_. 0) e2 \<and> le_values e2 = om_empty"
proof -
  have "log_invar (\<lambda>_. 0) (fresh_log (\<lambda>_. 0) None OwnStandalone)"
    by (simp add: log_invar_fresh)
  moreover have "log_room 1 (fresh_log (\<lambda>_. 0) None OwnStandalone)"
    by (simp add: log_room_fresh MAX_WORKLOAD_STEPS_def)
  moreover have "validate_key_value [1] [2] = Inr ()"
    by (simp add: result_iff MAX_KEY_BYTES_def MAX_VALUE_BYTES_def)
  ultimately show ?thesis
    using log_put_crash_atomic [of "\<lambda>_. 0" "fresh_log (\<lambda>_. 0) None OwnStandalone" "[1]" "[2]" 20 OtherIo]
    by (auto simp: fresh_log_def)
qed

text \<open>What the bytes of a log file may be: the canonical header, whole canonical records
  numbered from one, and then nothing or an incomplete record for the next sequence number.\<close>

definition log_segment ::
    "(bytes \<Rightarrow> 32 word) \<Rightarrow> (mutation_kind \<times> bytes \<times> bytes) list \<Rightarrow> bytes \<Rightarrow> bytes \<Rightarrow> bool" where
  "log_segment crc ms rest f \<longleftrightarrow>
     f = log_image crc ms @ rest \<and> (\<forall>m \<in> set ms. record_wf m) \<and> length ms < u64_max \<and>
     (rest = [] \<or> log_torn crc (1 + length ms) rest)"

lemma log_from_segment:
  assumes "log_segment crc ms rest f" "length f + (32 + MAX_KEY_BYTES + MAX_VALUE_BYTES) \<le> u64_max"
  shows "\<exists>e. log_from_file crc path own f False = (Inr e, log_image crc ms)"
proof -
  have f: "f = log_image crc ms @ rest" and wf: "\<forall>m \<in> set ms. record_wf m" and n: "length ms < u64_max"
    and rest: "rest = [] \<or> log_torn crc (1 + length ms) rest"
    using assms(1) by (simp_all add: log_segment_def)
  show ?thesis
  proof (cases "rest = []")
    case True
    then show ?thesis
      using log_from_image [OF wf n, of crc path own] assms(2) by (auto simp: f)
  next
    case False
    then show ?thesis
      using log_scan_cut_image [OF wf n, of crc rest] rest assms(2)
      by (auto simp: f log_from_file_def Let_def hash_file_prefix_def)
  qed
qed

lemma log_from_file_is_segment:
  assumes "log_from_file crc path own f False = (Inr e, f')" "length f \<le> u64_max"
    and "is_canonical_generation_path path = (own = OwnGenerationManaged)"
  shows "\<exists>ms rest. log_segment crc ms rest f \<and> f' = log_image crc ms \<and> log_holds crc e ms \<and>
    log_invar crc e \<and>
    (case le_recovered_tail e of None \<Rightarrow> rest = []
     | Some t \<Rightarrow> rest \<noteq> [] \<and> tail_record_offset t = length f' \<and> tail_available_bytes t = length rest) \<and>
    log_from_file crc path own f' False = (Inr (e\<lparr>le_recovered_tail := None\<rparr>), f')"
proof -
  obtain r where Inr: "log_scan_file crc f = Inr r"
    using assms(1) by (cases "log_scan_file crc f") (auto simp: log_from_file_def Let_def)
  obtain ms rest where f: "f = log_image crc ms @ rest" and wf: "\<forall>m \<in> set ms. record_wf m"
    and r: "sc_values r = log_replay om_empty ms" "sc_valid_bytes r = length (log_image crc ms)"
      "sc_record_count r = length ms" "sc_next_sequence r = 1 + length ms"
      "ms \<noteq> [] \<longrightarrow> length ms < u64_max" "sc_recoverable_tail r = None \<longleftrightarrow> rest = []"
      "\<forall>t. sc_recoverable_tail r = Some t \<longrightarrow>
         tail_record_offset t = sc_valid_bytes r \<and> tail_available_bytes t = length rest"
      "rest \<noteq> [] \<longrightarrow> log_torn crc (1 + length ms) rest"
    using log_scan_file_sound [OF Inr] by (elim exE conjE) (rule that)
  have n: "length ms < u64_max" using r(5) by (cases ms) (simp_all add: u64_max_def)
  have len: "length (log_image crc ms) \<le> u64_max" using assms(2) f by simp
  let ?e = "\<lparr>le_path = path, le_path_ownership = own, le_file_open = True,
      le_values = log_replay om_empty ms, le_next_sequence = 1 + length ms,
      le_record_count = length ms, le_acknowledged_valid_bytes = length (log_image crc ms),
      le_acknowledged_prefix_hasher = log_image crc ms, le_recovered_tail = sc_recoverable_tail r,
      le_poisoned = False, le_disk = log_image crc ms\<rparr>"
  have "log_from_file crc path own f False = (Inr ?e, log_image crc ms)"
    using Inr r f by (cases rest) (simp_all add: log_from_file_def hash_file_prefix_def Let_def)
  then have e: "e = ?e" "f' = log_image crc ms" using assms(1) by simp_all
  have again: "log_from_file crc path own (log_image crc ms) False =
      (Inr (?e\<lparr>le_recovered_tail := None\<rparr>), log_image crc ms)"
    using log_scan_image [OF wf n len] by (simp add: log_from_file_def hash_file_prefix_def Let_def)
  have holds: "log_holds crc ?e ms"
    using wf n len by (simp add: log_holds_def)
  then have invar: "log_invar crc ?e"
    using assms(3) by (auto simp: log_invar_def log_path_ok_def)
  have seg: "log_segment crc ms rest f"
    using f wf n r(8) by (auto simp: log_segment_def)
  have tail: "case sc_recoverable_tail r of None \<Rightarrow> rest = []
     | Some t \<Rightarrow> rest \<noteq> [] \<and> tail_record_offset t = length (log_image crc ms) \<and>
         tail_available_bytes t = length rest"
    using r(2,6,7) by (auto split: option.split)
  show ?thesis
    unfolding e using seg holds invar tail again by (intro exI [of _ ms] exI [of _ rest]) simp
qed

lemma log_from_file_error: "log_from_file crc path own f False = (Inl err, f') \<Longrightarrow> f' = f"
  by (auto simp: log_from_file_def Let_def hash_file_prefix_def split: sum.splits if_splits)

text \<open>C30 (log_open): opening an existing file succeeds exactly when its bytes are the canonical
  header, whole canonical records numbered from one, and then nothing or an incomplete record for
  the next sequence number: bytes that agree with a record header as far as they go and end before
  the length it declares.  So a record that is there whole is never cut, whatever its checksum.
  A failed open leaves the file untouched; a successful one leaves the header and the whole
  records, yields an engine that holds exactly those records and reports exactly the cut bytes as
  its tail, and opening the repaired file again gives the same engine and repairs nothing more.
  (The file is at least one maximal record shorter than \<open>2 ^ 64\<close> bytes.)\<close>

theorem log_from_file_exact:
  assumes "length f + (32 + MAX_KEY_BYTES + MAX_VALUE_BYTES) \<le> u64_max"
    and "is_canonical_generation_path path = (own = OwnGenerationManaged)"
  shows "((\<exists>e f'. log_from_file crc path own f False = (Inr e, f')) \<longleftrightarrow>
      (\<exists>ms rest. log_segment crc ms rest f)) \<and>
    (case log_from_file crc path own f False of
      (Inl err, f') \<Rightarrow> f' = f
    | (Inr e, f') \<Rightarrow> \<exists>ms rest. log_segment crc ms rest f \<and> f' = log_image crc ms \<and>
        log_holds crc e ms \<and> log_invar crc e \<and>
        (case le_recovered_tail e of None \<Rightarrow> rest = []
         | Some t \<Rightarrow> rest \<noteq> [] \<and> tail_record_offset t = length f' \<and> tail_available_bytes t = length rest) \<and>
        log_from_file crc path own f' False = (Inr (e\<lparr>le_recovered_tail := None\<rparr>), f'))"
proof -
  have le: "length f \<le> u64_max" using assms(1) by simp
  note sound = log_from_file_is_segment [OF _ le assms(2), of crc]
  have "(\<exists>e f'. log_from_file crc path own f False = (Inr e, f')) \<longleftrightarrow> (\<exists>ms rest. log_segment crc ms rest f)"
    using sound log_from_segment [OF _ assms(1), of crc _ _ path own] by blast
  then show ?thesis
    using sound log_from_file_error [of crc path own f]
    by (cases "log_from_file crc path own f False") (auto split: sum.split)
qed

lemma log_from_file_exact_witness:
  "\<exists>e. log_from_file (\<lambda>_. 0) None OwnStandalone (encode_log_header (\<lambda>_. 0) @ ascii ''KV'') False =
      (Inr e, encode_log_header (\<lambda>_. 0)) \<and> log_invar (\<lambda>_. 0) e"
proof -
  let ?f = "encode_log_header (\<lambda>_. 0) @ ascii ''KV''"
  have small: "length ?f + (32 + MAX_KEY_BYTES + MAX_VALUE_BYTES) \<le> u64_max"
    by (simp add: MAX_KEY_BYTES_def MAX_VALUE_BYTES_def u64_max_def ascii_def)
  have "ascii ''KV'' = take 2 (log_record_bytes (\<lambda>_. 0) 1 (MPut, [], []))"
    by (simp add: log_record_bytes_def Let_def LOG_RECORD_MAGIC_def ascii_def)
  then have "log_torn (\<lambda>_. 0) 1 (ascii ''KV'')"
    using log_codec.torn_enc [of "(MPut, [], [])" 2 "\<lambda>_. 0" 1]
    by (simp add: record_wf_def u64_max_def)
  then have seg: "log_segment (\<lambda>_. 0) [] (ascii ''KV'') ?f"
    by (simp add: log_segment_def log_image_def u64_max_def)
  have own: "is_canonical_generation_path None = (OwnStandalone = OwnGenerationManaged)" by simp
  obtain e where e: "log_from_file (\<lambda>_. 0) None OwnStandalone ?f False = (Inr e, encode_log_header (\<lambda>_. 0))"
    using log_from_segment [OF seg small, of None OwnStandalone] by (auto simp: log_image_def)
  then show ?thesis
    using log_from_file_exact [OF small own, of "\<lambda>_. 0"] by auto
qed


text \<open>When the backing file no longer has the acknowledged length, or its
  fingerprint differs from the acknowledged one, a put reports corruption, writes nothing to
  the file, and poisons the engine.\<close>

theorem log_put_detects_tampering:
  assumes "log_invar crc e" "log_room 1 e" "validate_key_value k v = Inr ()"
    and "length d \<noteq> length (le_disk e) \<or> crc d \<noteq> crc (le_disk e)"
  shows "log_put crc fault (e\<lparr>le_disk := d\<rparr>) k v =
    (Inl (Corruption (if length d \<noteq> length (le_disk e) then length d else 0)),
     e\<lparr>le_disk := d, le_poisoned := True\<rparr>)"
proof -
  obtain ms where ms: "log_holds crc e ms" using assms(1) by (auto simp: log_invar_def)
  let ?rec = "log_record_bytes crc (1 + length ms) (MPut, k, v)"
  have wf: "record_wf (MPut, k, v)" using assms(3) by (simp add: record_wf_def result_iff)
  then have "encode_log_record crc MPut (1 + length ms) k v = Inr ?rec"
    by (simp add: result_iff)
  moreover have "length (log_image crc ms) + length ?rec \<le> u64_max" "2 + length ms \<le> u64_max"
    using assms(2) ms log_record_length_bound [OF wf, of crc "1 + length ms"]
    by (auto simp: log_room_def log_holds_def)
  ultimately show ?thesis
    using assms(1,3,4) ms
    by (simp add: log_put_def log_append_def log_invar_def log_holds_def log_ensure_usable_def
        checked_add64_def hash_file_prefix_def Let_def)
qed

lemma log_put_detects_tampering_witness:
  "log_put (\<lambda>_. 0) None (fresh_log (\<lambda>_. 0) None OwnStandalone\<lparr>le_disk := []\<rparr>) [1] [2] =
    (Inl (Corruption 0), fresh_log (\<lambda>_. 0) None OwnStandalone\<lparr>le_disk := [], le_poisoned := True\<rparr>)"
proof -
  have "log_invar (\<lambda>_. 0) (fresh_log (\<lambda>_. 0) None OwnStandalone)"
    by (simp add: log_invar_fresh)
  moreover have "log_room 1 (fresh_log (\<lambda>_. 0) None OwnStandalone)"
    by (simp add: log_room_fresh MAX_WORKLOAD_STEPS_def)
  moreover have "validate_key_value [1] [2] = Inr ()"
    by (simp add: result_iff MAX_KEY_BYTES_def MAX_VALUE_BYTES_def)
  moreover have "length [] \<noteq> length (le_disk (fresh_log (\<lambda>_. 0) None OwnStandalone))"
    by (simp add: fresh_log_def)
  ultimately show ?thesis
    using log_put_detects_tampering [of "\<lambda>_. 0" "fresh_log (\<lambda>_. 0) None OwnStandalone" "[1]" "[2]" "[]"]
    by simp
qed

text \<open>Whatever the file system answers, a failed reopen leaves a poisoned
  engine with its index unchanged, and a successful one yields an unpoisoned engine that has at
  least the acknowledged records and bytes, whose file still carries the acknowledged fingerprint
  on the acknowledged prefix, and whose index is the replay of that file.\<close>

theorem log_reopen_never_regresses:
  "case log_reopen crc env e of
      (Inl err, e') \<Rightarrow> le_poisoned e' \<and> le_values e' = le_values e \<and>
        le_record_count e' = le_record_count e
    | (Inr u, e') \<Rightarrow> \<not> le_poisoned e' \<and> le_file_open e' \<and>
        le_record_count e \<le> le_record_count e' \<and>
        le_acknowledged_valid_bytes e \<le> le_acknowledged_valid_bytes e' \<and>
        crc (take (le_acknowledged_valid_bytes e) (le_disk e')) = crc (le_acknowledged_prefix_hasher e) \<and>
        (\<exists>ms. le_disk e' = log_image crc ms \<and> le_values e' = log_replay om_empty ms)"
proof (cases "log_reopen crc env e")
  case (Pair r e')
  show ?thesis
  proof (cases r)
    case (Inl err)
    with Pair show ?thesis
      by (auto simp: log_reopen_def Let_def split: sum.splits if_splits prod.splits bool.splits)
  next
    case (Inr u)
    obtain scan f' where scan: "log_scan_file crc (le_disk e) = Inr scan"
        "le_record_count e \<le> sc_record_count scan"
        "le_acknowledged_valid_bytes e \<le> sc_valid_bytes scan"
        "crc (take (le_acknowledged_valid_bytes e) (le_disk e)) = crc (le_acknowledged_prefix_hasher e)"
      and from_file: "log_from_file crc (le_path e) (le_path_ownership e) (le_disk e) False = (Inr e', f')"
      using Pair Inr
      by (auto simp: log_reopen_def Let_def hash_file_prefix_def not_less
          split: sum.splits if_splits prod.splits bool.splits)
    obtain ms rest where f: "le_disk e = log_image crc ms @ rest"
      and r: "sc_values scan = log_replay om_empty ms" "sc_valid_bytes scan = length (log_image crc ms)"
        "sc_recoverable_tail scan = None \<longleftrightarrow> rest = []"
      using log_scan_file_sound [OF scan(1)] by (elim exE conjE) (rule that)
    have "le_disk e' = log_image crc ms \<and> le_values e' = log_replay om_empty ms \<and>
        le_record_count e' = sc_record_count scan \<and> \<not> le_poisoned e' \<and> le_file_open e' \<and>
        le_acknowledged_valid_bytes e' = sc_valid_bytes scan"
      using from_file scan(1) f r
      by (auto simp: log_from_file_def Let_def hash_file_prefix_def split: if_splits)
    moreover have "take (le_acknowledged_valid_bytes e) (log_image crc ms) =
        take (le_acknowledged_valid_bytes e) (le_disk e)"
      using scan(3) r(2) f by simp
    ultimately show ?thesis
      using Pair Inr scan by auto
  qed
qed

end
