(* ===== verification/Harness.thy ===== *)
theory Harness
  imports WorkloadGen Shrink MemoryEngine LogEngine
begin

text \<open>
  The differential harness on the repository's engines: the oracle against each persistent
  engine.  Every theorem rests on \<open>kv_engine_pair\<close>, interpreted here on the engines' own models.
\<close>

interpretation mem_log: kv_engine_pair memory_ops "\<lambda>_. True" "\<lambda>_ _. True" mem_values "\<lambda>_ _. True"
    "log_ops crc" "log_invar crc" log_room le_values "\<lambda>_ _. True" for crc
  by unfold_locales

text \<open>On a newly created append log, the differential harness accepts every valid
  workload against the in-memory oracle: all steps are checked, no mismatch and no engine error
  is reported, and both engines end in the state of the abstract ordered map.\<close>

theorem memory_log_differential:
  assumes "workload_validate w = Inr ()" "\<not> is_canonical_generation_path path"
  shows "\<exists>e f l r. log_create_new crc path None = (Inr e, f) \<and>
    compare_workload memory_ops (log_ops crc) memory_new e w =
      (Inr \<lparr>steps_checked = length (wl_steps w)\<rparr>, l, r) \<and>
    mem_values l = snd (spec_steps om_empty (wl_steps w)) \<and> le_values r = mem_values l"
proof -
  let ?e = "fresh_log crc path OwnStandalone"
  have "length (wl_steps w) \<le> MAX_WORKLOAD_STEPS"
    using assms(1) by (simp add: result_iff)
  then have "log_room (length (wl_steps w)) ?e"
    by (rule log_room_fresh)
  moreover have "log_invar crc ?e"
    using assms(2) by (simp add: log_invar_fresh)
  moreover have "mem_values memory_new = le_values ?e" "mem_values memory_new = om_empty"
    by (simp_all add: memory_new_def fresh_log_def)
  ultimately show ?thesis
    using mem_log.compare_workload_agrees [where l = memory_new and r = ?e and w = w and crc = crc] assms(1)
      log_create_new_fresh [OF assms(2), of crc] by auto
qed

lemma memory_log_differential_witness:
  "\<exists>e f l r. log_create_new (\<lambda>_. 0) None None = (Inr e, f) \<and>
    compare_workload memory_ops (log_ops (\<lambda>_. 0)) memory_new e
        \<lparr>wl_format_version = 1, wl_seed = None, wl_steps = [Put [1] [2], Reopen, Get [1]]\<rparr> =
      (Inr \<lparr>steps_checked = 3\<rparr>, l, r) \<and>
    le_values r = om_insert [1] [2] om_empty"
proof -
  let ?w = "\<lparr>wl_format_version = 1, wl_seed = None, wl_steps = [Put [1] [2], Reopen, Get [1]]\<rparr>"
  have "workload_validate ?w = Inr ()"
    by (simp add: result_iff WORKLOAD_FORMAT_VERSION_def MAX_WORKLOAD_STEPS_def MAX_KEY_BYTES_def
        MAX_VALUE_BYTES_def)
  then show ?thesis
    using memory_log_differential [of ?w None "\<lambda>_. 0"] by fastforce
qed

end
