(* ===== verification/Bloom.thy ===== *)
theory Bloom
  imports KvCore
begin

text \<open>
  The Bloom filter section of an SSTable (\<open>crates/db-storage-lsm/src/bloom.rs\<close>): the FNV double
  hash on 64-bit words, the bit array, and the checksummed section codec.  The lemmas show that a
  filter never denies a key it was built from, that decoding inverts encoding, and that a section
  decodes only when it is the canonical encoding of the filter it yields.
\<close>

definition BLOOM_BITS_PER_KEY :: nat where "BLOOM_BITS_PER_KEY = 10"
definition BLOOM_HASH_PROBES :: nat where "BLOOM_HASH_PROBES = 7"
definition BLOOM_HEADER_LEN :: nat where "BLOOM_HEADER_LEN = 40"
definition BLOOM_TRAILER_LEN :: nat where "BLOOM_TRAILER_LEN = 4"
definition BLOOM_MAGIC :: bytes where "BLOOM_MAGIC = ascii ''DBLSMBLM''"
definition BLOOM_VERSION :: nat where "BLOOM_VERSION = 1"
definition BLOOM_HASH_ALGORITHM :: byte where "BLOOM_HASH_ALGORITHM = 1"
definition BLOOM_MIN_BITS :: nat where "BLOOM_MIN_BITS = 64"
definition FNV_PRIME :: "64 word" where "FNV_PRIME = 0x00000100000001b3"
definition HASH_SEED_ONE :: "64 word" where "HASH_SEED_ONE = 0x9e3779b97f4a7c15"
definition HASH_SEED_TWO :: "64 word" where "HASH_SEED_TWO = 0xd1b54a32d192ed03"

record bloom_filter =
  bf_bit_count :: nat
  bf_key_count :: nat
  bf_bits :: bytes

subsection \<open>Hashing\<close>

definition hash64 :: "bytes \<Rightarrow> 64 word \<Rightarrow> 64 word" where
  "hash64 bs seed =
     (let h0 = foldl (\<lambda>h b. (h XOR ucast b) * FNV_PRIME) (0xcbf29ce484222325 XOR seed) bs;
          h1 = (h0 XOR drop_bit 33 h0) * 0xff51afd7ed558ccd;
          h2 = (h1 XOR drop_bit 33 h1) * 0xc4ceb9fe1a85ec53
      in h2 XOR drop_bit 33 h2)"

definition probe_positions :: "bytes \<Rightarrow> nat \<Rightarrow> nat list" where
  "probe_positions key bit_count =
     (let first = hash64 key HASH_SEED_ONE;
          second = hash64 key HASH_SEED_TWO OR 1
      in map (\<lambda>probe. unat (first + word_of_nat probe * second) mod bit_count)
           [0..<BLOOM_HASH_PROBES])"

definition canonical_bit_count :: "nat \<Rightarrow> nat result" where
  "canonical_bit_count key_count =
     (if key_count = 0 then Inl (Corruption 0)
      else rbind (ok_or (checked_mul64 key_count BLOOM_BITS_PER_KEY) (Corruption 0)) (\<lambda>product.
        let requested = max product BLOOM_MIN_BITS in
        rbind (ok_or (checked_add64 requested 7) (Corruption 0)) (\<lambda>bits. Inr (bits div 8 * 8))))"


subsection \<open>Building and asking\<close>

definition bloom_set_bit :: "nat \<Rightarrow> bytes \<Rightarrow> bytes" where
  "bloom_set_bit p bits = bits[p div 8 := bits ! (p div 8) OR push_bit (p mod 8) 1]"

definition bloom_insert :: "bloom_filter \<Rightarrow> bytes \<Rightarrow> bloom_filter" where
  "bloom_insert f key =
     f\<lparr>bf_bits := fold bloom_set_bit (probe_positions key (bf_bit_count f)) (bf_bits f)\<rparr>"

definition bloom_may_contain :: "bloom_filter \<Rightarrow> bytes \<Rightarrow> bool" where
  "bloom_may_contain f key =
     list_all (\<lambda>p. bf_bits f ! (p div 8) AND push_bit (p mod 8) 1 \<noteq> 0)
       (probe_positions key (bf_bit_count f))"

definition bloom_build :: "bytes list \<Rightarrow> nat \<Rightarrow> bloom_filter result" where
  "bloom_build keys key_count0 =
     rbind (ok_or (try_u64 key_count0) (Corruption 0)) (\<lambda>key_count.
     if key_count = 0 then Inl (Corruption 0)
     else rbind (canonical_bit_count key_count) (\<lambda>bit_count.
       let filter0 = \<lparr>bf_bit_count = bit_count, bf_key_count = key_count,
                      bf_bits = replicate (bit_count div 8) 0\<rparr> in
       rbind (rfold (\<lambda>(flt, observed) key.
                rbind (ok_or (checked_add64 observed 1) (Corruption 0)) (\<lambda>observed'.
                Inr (bloom_insert flt key, observed'))) (filter0, 0) keys) (\<lambda>(flt, observed).
       if observed \<noteq> key_count then Inl (Corruption 0) else Inr flt)))"


subsection \<open>The section codec\<close>

definition bloom_encode :: "(bytes \<Rightarrow> 32 word) \<Rightarrow> bloom_filter \<Rightarrow> bytes result" where
  "bloom_encode crc f =
     rbind (ok_or (try_u32 (length (bf_bits f))) (Corruption 0)) (\<lambda>payload_len.
     rbind (ok_or (Option.bind (checked_add64 BLOOM_HEADER_LEN (length (bf_bits f)))
                     (\<lambda>len. checked_add64 len BLOOM_TRAILER_LEN)) (Corruption 0)) (\<lambda>_.
     let h36 = BLOOM_MAGIC @ le_bytes 2 BLOOM_VERSION @ le_bytes 2 BLOOM_HEADER_LEN @
           [BLOOM_HASH_ALGORITHM, word_of_nat BLOOM_HASH_PROBES] @ [0, 0] @
           le_bytes 8 (bf_bit_count f) @ le_bytes 8 (bf_key_count f) @ le_bytes 4 payload_len;
         encoded = h36 @ crc_field (crc h36) @ bf_bits f
     in Inr (encoded @ crc_field (crc encoded))))"

definition bloom_decode ::
    "(bytes \<Rightarrow> 32 word) \<Rightarrow> bytes \<Rightarrow> nat \<Rightarrow> nat \<Rightarrow> bloom_filter result" where
  "bloom_decode crc bs offset expected_key_count =
     (if length bs < BLOOM_HEADER_LEN + BLOOM_TRAILER_LEN then Inl (Corruption offset)
      else if seg 0 8 bs \<noteq> BLOOM_MAGIC then Inl (Corruption offset)
      else if read_u16 (seg 8 10 bs) \<noteq> BLOOM_VERSION
      then Inl (UnsupportedVersion FmtBloom (read_u16 (seg 8 10 bs)) BLOOM_VERSION)
      else if read_u16 (seg 10 12 bs) \<noteq> BLOOM_HEADER_LEN then Inl (Corruption (offset + 10))
      else if bs ! 12 \<noteq> BLOOM_HASH_ALGORITHM then Inl (Corruption (offset + 12))
      else if bs ! 13 \<noteq> word_of_nat BLOOM_HASH_PROBES then Inl (Corruption (offset + 13))
      else if read_u16 (seg 14 16 bs) \<noteq> 0 then Inl (Corruption (offset + 14))
      else let bit_count = read_u64 (seg 16 24 bs);
               key_count = read_u64 (seg 24 32 bs);
               payload_len = read_u32 (seg 32 36 bs) in
        if unat (crc (take 36 bs)) \<noteq> read_u32 (seg 36 40 bs) then Inl (Corruption (offset + 36))
        else if key_count \<noteq> expected_key_count then Inl (Corruption (offset + 24))
        else rbind (canonical_bit_count key_count) (\<lambda>canonical_bits.
          if bit_count \<noteq> canonical_bits \<or> bit_count mod 8 \<noteq> 0 then Inl (Corruption (offset + 16))
          else if payload_len \<noteq> bit_count div 8 then Inl (Corruption (offset + 32))
          else let payload_end = BLOOM_HEADER_LEN + payload_len;
                   expected_len = payload_end + BLOOM_TRAILER_LEN in
            if length bs \<noteq> expected_len then Inl (Corruption offset)
            else if unat (crc (take payload_end bs)) \<noteq> read_u32 (seg payload_end expected_len bs)
            then rbind (ok_or (checked_add64 offset payload_end) (Corruption offset))
                   (\<lambda>checksum_offset. Inl (Corruption checksum_offset))
            else Inr \<lparr>bf_bit_count = bit_count, bf_key_count = key_count,
                      bf_bits = seg BLOOM_HEADER_LEN payload_end bs\<rparr>))"


subsection \<open>Well-formed filters\<close>

definition bloom_wf :: "bloom_filter \<Rightarrow> bool" where
  "bloom_wf f \<longleftrightarrow> canonical_bit_count (bf_key_count f) = Inr (bf_bit_count f) \<and>
     length (bf_bits f) = bf_bit_count f div 8"

lemma canonical_bit_count_Inr:
  "canonical_bit_count n = Inr b \<longleftrightarrow>
     n \<noteq> 0 \<and> max (n * 10) 64 + 7 \<le> u64_max \<and> b = (max (n * 10) 64 + 7) div 8 * 8"
proof -
  have "n * 10 \<le> max (n * 10) 64" by simp
  then show ?thesis
    by (auto simp: canonical_bit_count_def Let_def result_iff BLOOM_BITS_PER_KEY_def
        BLOOM_MIN_BITS_def simp del: max.bounded_iff max_less_iff_conj)
qed

lemma canonical_bit_count_pos:
  "canonical_bit_count n = Inr b \<Longrightarrow> 64 \<le> b \<and> b mod 8 = 0 \<and> b \<le> u64_max"
proof -
  assume "canonical_bit_count n = Inr b"
  then have b: "b = (max (n * 10) 64 + 7) div 8 * 8" "max (n * 10) 64 + 7 \<le> u64_max"
    by (simp_all add: canonical_bit_count_Inr del: max.bounded_iff)
  have "64 div 8 \<le> (max (n * 10) 64 + 7) div 8" by (intro div_le_mono) simp
  then have "64 \<le> b" using b(1) by simp
  moreover have "b \<le> max (n * 10) 64 + 7" using b(1) by (simp only: div_times_less_eq_dividend)
  ultimately show ?thesis using b by (simp del: max.bounded_iff)
qed

lemma probe_positions_bound:
  "0 < n \<Longrightarrow> p \<in> set (probe_positions key n) \<Longrightarrow> p < n"
  by (auto simp: probe_positions_def Let_def)

lemma length_bloom_set_bit [simp]: "length (bloom_set_bit p bits) = length bits"
  by (simp add: bloom_set_bit_def)

lemma length_fold_set_bit [simp]: "length (fold bloom_set_bit ps bits) = length bits"
  by (induction ps arbitrary: bits) simp_all

lemma test_bit_mask: "(w AND 2 ^ i = 0) = (\<not> bit (w :: byte) i)"
  by (rule and_exp_eq_0_iff_not_bit)

lemma bit_mask: "bit (2 ^ i :: byte) j \<longleftrightarrow> j = i \<and> i < 8"
  by (auto simp: bit_simps)

text \<open>Setting bits never clears one, and sets the one asked for.\<close>

lemma bloom_set_bit_keeps:
  "bit (bits ! k) j \<Longrightarrow> k < length bits \<Longrightarrow> bit (bloom_set_bit p bits ! k) j"
  by (cases "k = p div 8") (auto simp: bloom_set_bit_def bit_or_iff)

lemma fold_set_bit_keeps:
  "bit (bits ! k) j \<Longrightarrow> k < length bits \<Longrightarrow> bit (fold bloom_set_bit ps bits ! k) j"
  by (induction ps arbitrary: bits) (simp_all add: bloom_set_bit_keeps)

lemma fold_set_bit_sets:
  "p \<in> set ps \<Longrightarrow> p div 8 < length bits \<Longrightarrow> bit (fold bloom_set_bit ps bits ! (p div 8)) (p mod 8)"
proof (induction ps arbitrary: bits)
  case Nil
  then show ?case by simp
next
  case (Cons q ps)
  have "bit (bloom_set_bit p bits ! (p div 8)) (p mod 8)"
    using Cons.prems(2) by (simp add: bloom_set_bit_def bit_or_iff bit_mask)
  then show ?case
    using Cons fold_set_bit_keeps [of "bloom_set_bit p bits" "p div 8" "p mod 8" ps] by auto
qed

lemma bloom_insert_simps [simp]:
  "bf_bit_count (bloom_insert f key) = bf_bit_count f"
  "bf_key_count (bloom_insert f key) = bf_key_count f"
  "length (bf_bits (bloom_insert f key)) = length (bf_bits f)"
  by (simp_all add: bloom_insert_def)

lemma bloom_wf_insert [simp]: "bloom_wf (bloom_insert f key) = bloom_wf f"
  by (simp add: bloom_wf_def)

lemma bloom_wf_probe:
  assumes "bloom_wf f" "p \<in> set (probe_positions key (bf_bit_count f))"
  shows "p div 8 < length (bf_bits f)"
proof -
  have c: "64 \<le> bf_bit_count f" "bf_bit_count f mod 8 = 0"
    using canonical_bit_count_pos assms(1) by (auto simp: bloom_wf_def)
  then have "p < bf_bit_count f"
    using probe_positions_bound [OF _ assms(2)] by simp
  then show ?thesis
    using c(2) assms(1) by (auto simp: bloom_wf_def)
qed

lemma may_contain_inserted: "bloom_wf f \<Longrightarrow> bloom_may_contain (bloom_insert f key) key"
  by (auto simp: bloom_may_contain_def list_all_iff bloom_insert_def test_bit_mask
      intro!: fold_set_bit_sets bloom_wf_probe)

lemma may_contain_kept:
  assumes "bloom_wf f" "bloom_may_contain f key"
  shows "bloom_may_contain (bloom_insert f key') key"
proof -
  have "bit (fold bloom_set_bit (probe_positions key' (bf_bit_count f)) (bf_bits f) ! (p div 8)) (p mod 8)"
    if "p \<in> set (probe_positions key (bf_bit_count f))" for p
    using that assms bloom_wf_probe [OF assms(1) that]
    by (intro fold_set_bit_keeps) (auto simp: bloom_may_contain_def list_all_iff test_bit_mask)
  then show ?thesis
    by (simp add: bloom_may_contain_def list_all_iff bloom_insert_def test_bit_mask)
qed

lemma bloom_fold_inserts:
  assumes "bloom_wf f" "n + length keys \<le> u64_max"
  shows "\<exists>f'. rfold (\<lambda>(flt, observed) key.
      rbind (ok_or (checked_add64 observed 1) (Corruption 0)) (\<lambda>observed'.
      Inr (bloom_insert flt key, observed'))) (f, n) keys = Inr (f', n + length keys) \<and>
    bloom_wf f' \<and> bf_bit_count f' = bf_bit_count f \<and> bf_key_count f' = bf_key_count f \<and>
    (\<forall>key. bloom_may_contain f key \<or> key \<in> set keys \<longrightarrow> bloom_may_contain f' key)"
  using assms
proof (induction keys arbitrary: f n)
  case Nil
  then show ?case by simp
next
  case (Cons k keys)
  let ?f = "bloom_insert f k"
  have keep: "bloom_may_contain f key \<or> key = k \<Longrightarrow> bloom_may_contain ?f key" for key
    using may_contain_inserted [OF Cons.prems(1)] may_contain_kept [OF Cons.prems(1)] by blast
  show ?case
    using Cons.IH [of ?f "n + 1"] Cons.prems keep by (auto simp: checked_add64_def)
qed


lemma bloom_build_ok:
  assumes "keys \<noteq> []" "10 * length keys + 71 \<le> u64_max"
  shows "\<exists>f. bloom_build keys (length keys) = Inr f \<and> bloom_wf f \<and> bf_key_count f = length keys \<and>
    (\<forall>key \<in> set keys. bloom_may_contain f key)"
proof -
  obtain bc where bc: "canonical_bit_count (length keys) = Inr bc"
    using assms by (simp add: canonical_bit_count_Inr)
  let ?f0 = "\<lparr>bf_bit_count = bc, bf_key_count = length keys, bf_bits = replicate (bc div 8) 0\<rparr>"
  have wf: "bloom_wf ?f0" using bc by (simp add: bloom_wf_def)
  have n: "0 + length keys \<le> u64_max" using assms(2) by simp
  show ?thesis
    using bloom_fold_inserts [OF wf n] bc n assms(1) by (auto simp: bloom_build_def try_u64_def Let_def)
qed


subsection \<open>The section bytes\<close>

definition bloom_h36 :: "nat \<Rightarrow> nat \<Rightarrow> nat \<Rightarrow> bytes" where
  "bloom_h36 bit_count key_count payload_len =
     BLOOM_MAGIC @ le_bytes 2 BLOOM_VERSION @ le_bytes 2 BLOOM_HEADER_LEN @
     [BLOOM_HASH_ALGORITHM, word_of_nat BLOOM_HASH_PROBES] @ [0, 0] @
     le_bytes 8 bit_count @ le_bytes 8 key_count @ le_bytes 4 payload_len"

definition bloom_section :: "(bytes \<Rightarrow> 32 word) \<Rightarrow> bloom_filter \<Rightarrow> bytes" where
  "bloom_section crc f =
     (let h36 = bloom_h36 (bf_bit_count f) (bf_key_count f) (length (bf_bits f));
          body = h36 @ crc_field (crc h36) @ bf_bits f
      in body @ crc_field (crc body))"

lemma length_BLOOM_MAGIC [simp]: "length BLOOM_MAGIC = 8"
  by (simp add: BLOOM_MAGIC_def)

lemma length_bloom_h36 [simp]: "length (bloom_h36 bc kc pl) = 36"
  by (simp add: bloom_h36_def)

lemma bloom_encode_eq:
  "length (bf_bits f) \<le> 4294967295 \<Longrightarrow> bloom_encode crc f = Inr (bloom_section crc f)"
  by (simp add: bloom_encode_def bloom_section_def bloom_h36_def Let_def try_u32_def
      checked_add64_def BLOOM_HEADER_LEN_def BLOOM_TRAILER_LEN_def u64_max_def)

lemma zero_field: "[0, 0] = le_bytes 2 0"
  by (simp add: numeral_2_eq_2)

lemma bloom_h36_fields:
  "seg 0 8 (bloom_h36 bc kc pl @ r) = BLOOM_MAGIC"
  "seg 8 10 (bloom_h36 bc kc pl @ r) = le_bytes 2 BLOOM_VERSION"
  "seg 10 12 (bloom_h36 bc kc pl @ r) = le_bytes 2 BLOOM_HEADER_LEN"
  "(bloom_h36 bc kc pl @ r) ! 12 = BLOOM_HASH_ALGORITHM"
  "(bloom_h36 bc kc pl @ r) ! 13 = word_of_nat BLOOM_HASH_PROBES"
  "seg 14 16 (bloom_h36 bc kc pl @ r) = le_bytes 2 0"
  "seg 16 24 (bloom_h36 bc kc pl @ r) = le_bytes 8 bc"
  "seg 24 32 (bloom_h36 bc kc pl @ r) = le_bytes 8 kc"
  "seg 32 36 (bloom_h36 bc kc pl @ r) = le_bytes 4 pl"
  "take 36 (bloom_h36 bc kc pl @ r) = bloom_h36 bc kc pl"
  by (simp_all add: bloom_h36_def layout nth_append zero_field del: le_bytes.simps)

lemma bloom_h36_intro:
  assumes "36 \<le> length b" "seg 0 8 b = BLOOM_MAGIC" "read_u16 (seg 8 10 b) = BLOOM_VERSION"
    "read_u16 (seg 10 12 b) = BLOOM_HEADER_LEN" "b ! 12 = BLOOM_HASH_ALGORITHM"
    "b ! 13 = word_of_nat BLOOM_HASH_PROBES" "read_u16 (seg 14 16 b) = 0"
    "read_u64 (seg 16 24 b) = bc" "read_u64 (seg 24 32 b) = kc" "read_u32 (seg 32 36 b) = pl"
  shows "take 36 b = bloom_h36 bc kc pl"
proof -
  have two: "seg 12 14 b = [BLOOM_HASH_ALGORITHM, word_of_nat BLOOM_HASH_PROBES]"
    using assms(1,5,6) by (intro nth_equalityI) (auto simp: seg_def numeral_2_eq_2 less_Suc_eq)
  have "take 36 b = seg 0 8 b @ seg 8 10 b @ seg 10 12 b @ seg 12 14 b @ seg 14 16 b @
      seg 16 24 b @ seg 24 32 b @ seg 32 36 b"
    by (simp add: seg_join flip: seg_0)
  moreover have "seg 8 10 b = le_bytes 2 BLOOM_VERSION" "seg 10 12 b = le_bytes 2 BLOOM_HEADER_LEN"
    "seg 14 16 b = le_bytes 2 0"
    using assms(1,3,4,7) by (auto simp: read_le_bytes(1) length_seg simp del: le_bytes.simps)
  moreover have "seg 16 24 b = le_bytes 8 bc" "seg 24 32 b = le_bytes 8 kc"
    using assms(1,8,9) by (auto simp: read_le_bytes(3) length_seg simp del: le_bytes.simps)
  moreover have "seg 32 36 b = le_bytes 4 pl"
    using assms(1,10) by (auto simp: read_le_bytes(2) length_seg simp del: le_bytes.simps)
  ultimately show ?thesis
    using two assms(2) by (simp add: bloom_h36_def zero_field del: le_bytes.simps)
qed

lemma bloom_decode_section:
  assumes "bloom_wf f" "length (bf_bits f) \<le> 4294967295"
  shows "bloom_decode crc (bloom_section crc f) off (bf_key_count f) = Inr f"
proof -
  let ?h = "bloom_h36 (bf_bit_count f) (bf_key_count f) (length (bf_bits f))"
  let ?body = "?h @ crc_field (crc ?h) @ bf_bits f"
  have s: "bloom_section crc f = ?h @ (crc_field (crc ?h) @ bf_bits f @ crc_field (crc ?body))"
    by (simp add: bloom_section_def Let_def)
  let ?n = "length (bf_bits f)"
  have tail: "seg 36 40 (bloom_section crc f) = crc_field (crc ?h)"
    "seg 40 (40 + ?n) (bloom_section crc f) = bf_bits f"
    "take (40 + ?n) (bloom_section crc f) = ?body"
    "seg (40 + ?n) (40 + ?n + 4) (bloom_section crc f) = crc_field (crc ?body)"
    by (simp_all add: s layout)
  have canon: "canonical_bit_count (bf_key_count f) = Inr (bf_bit_count f)"
    and n: "?n = bf_bit_count f div 8"
    using assms(1) by (simp_all add: bloom_wf_def)
  note b = canonical_bit_count_pos [OF canon]
  have kc: "bf_key_count f \<le> u64_max"
    using canon by (auto simp: canonical_bit_count_Inr u64_max_def)
  have len: "length (bloom_section crc f) = 44 + ?n"
    by (simp add: s)
  have fields: "seg 0 8 (bloom_section crc f) = BLOOM_MAGIC"
    "read_u16 (seg 8 10 (bloom_section crc f)) = BLOOM_VERSION"
    "read_u16 (seg 10 12 (bloom_section crc f)) = BLOOM_HEADER_LEN"
    "bloom_section crc f ! 12 = BLOOM_HASH_ALGORITHM"
    "bloom_section crc f ! 13 = word_of_nat BLOOM_HASH_PROBES"
    "read_u16 (seg 14 16 (bloom_section crc f)) = 0"
    "read_u64 (seg 16 24 (bloom_section crc f)) = bf_bit_count f"
    "read_u64 (seg 24 32 (bloom_section crc f)) = bf_key_count f"
    "read_u32 (seg 32 36 (bloom_section crc f)) = ?n"
    "take 36 (bloom_section crc f) = ?h"
    unfolding s bloom_h36_fields using assms(2) b kc
    by (simp_all add: BLOOM_VERSION_def BLOOM_HEADER_LEN_def del: le_bytes.simps)
  show ?thesis
    unfolding bloom_decode_def fields len Let_def
    using tail canon b n by (simp add: BLOOM_HEADER_LEN_def BLOOM_TRAILER_LEN_def)
qed

lemma bloom_decode_sound:
  assumes "bloom_decode crc bs off n = Inr f"
  shows "bloom_wf f \<and> bf_key_count f = n \<and> length (bf_bits f) \<le> 4294967295 \<and> bs = bloom_section crc f"
proof -
  let ?bc = "read_u64 (seg 16 24 bs)" and ?kc = "read_u64 (seg 24 32 bs)"
    and ?pl = "read_u32 (seg 32 36 bs)"
  have c: "canonical_bit_count n = Inr ?bc" "?kc = n" "?bc mod 8 = 0" "?pl = ?bc div 8"
    and len: "length bs = 44 + ?pl" "44 \<le> length bs"
    and crcs: "read_u32 (seg 36 40 bs) = unat (crc (take 36 bs))"
      "read_u32 (seg (40 + ?pl) (44 + ?pl) bs) = unat (crc (take (40 + ?pl) bs))"
    and f: "f = \<lparr>bf_bit_count = ?bc, bf_key_count = n, bf_bits = seg 40 (40 + ?pl) bs\<rparr>"
    and h: "seg 0 8 bs = BLOOM_MAGIC" "read_u16 (seg 8 10 bs) = BLOOM_VERSION"
      "read_u16 (seg 10 12 bs) = BLOOM_HEADER_LEN" "bs ! 12 = BLOOM_HASH_ALGORITHM"
      "bs ! 13 = word_of_nat BLOOM_HASH_PROBES" "read_u16 (seg 14 16 bs) = 0"
    using assms
    by (auto simp: bloom_decode_def Let_def result_iff rbind_eq_Inr BLOOM_HEADER_LEN_def BLOOM_TRAILER_LEN_def
        add.commute split: if_splits)
  have h36: "take 36 bs = bloom_h36 ?bc n ?pl"
    using bloom_h36_intro [OF _ h] len(2) c(2) by simp
  have crc1: "seg 36 40 bs = crc_field (crc (take 36 bs))"
    using crcs(1) len by (simp add: read_u32_eq_crc length_seg)
  have crc2: "seg (40 + ?pl) (44 + ?pl) bs = crc_field (crc (take (40 + ?pl) bs))"
    using crcs(2) len by (simp add: read_u32_eq_crc length_seg)
  have bits: "length (bf_bits f) = ?pl" using f len by (simp add: length_seg)
  have t40: "take (40 + ?pl) bs = take 36 bs @ seg 36 40 bs @ seg 40 (40 + ?pl) bs"
    by (simp add: seg_join flip: seg_0)
  have "bs = take (40 + ?pl) bs @ seg (40 + ?pl) (44 + ?pl) bs"
    using len by (simp add: seg_join seg_whole flip: seg_0)
  then have "bs = bloom_section crc f"
    using h36 crc1 crc2 t40 bits f by (simp add: bloom_section_def Let_def)
  moreover have "?pl \<le> 4294967295"
    using le_val_less [of "take 4 (seg 32 36 bs)"] len by (simp add: read_u32_def length_seg)
  ultimately show ?thesis
    using c bits f by (simp add: bloom_wf_def)
qed


subsection \<open>Properties\<close>

text \<open>Building from \<open>n > 0\<close> keys whose bit count fits 64 bits succeeds with the
  canonical size, the filter may contain every key it was built from, and its encoded section
  decodes to the same filter, so no lookup that consults a stored filter misses a stored key.\<close>

theorem bloom_no_false_negatives:
  assumes "keys \<noteq> []" "10 * length keys + 71 \<le> u64_max"
  shows "\<exists>f. bloom_build keys (length keys) = Inr f \<and>
    canonical_bit_count (length keys) = Inr (bf_bit_count f) \<and>
    (\<forall>key \<in> set keys. bloom_may_contain f key) \<and>
    (length (bf_bits f) \<le> 4294967295 \<longrightarrow>
       (\<exists>bs. bloom_encode crc f = Inr bs \<and> bloom_decode crc bs off (length keys) = Inr f))"
proof -
  obtain f where f: "bloom_build keys (length keys) = Inr f" "bloom_wf f" "bf_key_count f = length keys"
    "\<forall>key \<in> set keys. bloom_may_contain f key"
    using bloom_build_ok [OF assms] by blast
  have "\<exists>bs. bloom_encode crc f = Inr bs \<and> bloom_decode crc bs off (length keys) = Inr f"
    if "length (bf_bits f) \<le> 4294967295"
    using bloom_encode_eq [OF that] bloom_decode_section [OF f(2) that] f(3) by simp
  then show ?thesis using f by (auto simp: bloom_wf_def)
qed

lemma bloom_no_false_negatives_witness:
  "\<exists>f. bloom_build [[1], [2, 3]] 2 = Inr f \<and> bloom_may_contain f [2, 3]"
  using bloom_no_false_negatives [of "[[1], [2, 3]]" "\<lambda>_. 0" 0]
  by (auto simp: u64_max_def numeral_2_eq_2)

text \<open>A section decodes only to a well-formed filter of the expected key count
  whose encoding is exactly the section, so no two byte strings decode to the same filter.\<close>

theorem bloom_decode_canonical:
  assumes "bloom_decode crc bs off n = Inr f"
  shows "bf_key_count f = n \<and> canonical_bit_count n = Inr (bf_bit_count f) \<and>
    length (bf_bits f) = bf_bit_count f div 8 \<and> bloom_encode crc f = Inr bs"
  using bloom_decode_sound [OF assms] bloom_encode_eq by (auto simp: bloom_wf_def)

lemma bloom_decode_canonical_witness:
  "\<exists>f bs. bloom_decode (\<lambda>_. 0) bs 0 1 = Inr f \<and> bloom_encode (\<lambda>_. 0) f = Inr bs"
proof -
  let ?f = "\<lparr>bf_bit_count = 64, bf_key_count = 1, bf_bits = replicate 8 0\<rparr>"
  have "bloom_decode (\<lambda>_. 0) (bloom_section (\<lambda>_. 0) ?f) 0 (bf_key_count ?f) = Inr ?f"
    by (rule bloom_decode_section) (simp_all add: bloom_wf_def canonical_bit_count_Inr u64_max_def)
  then have d: "bloom_decode (\<lambda>_. 0) (bloom_section (\<lambda>_. 0) ?f) 0 1 = Inr ?f" by simp
  show ?thesis using d bloom_decode_canonical [OF d] by blast
qed

end
