(* ===== verification/MemTable.thy ===== *)
theory MemTable
  imports KvCore
begin

text \<open>
  The MemTables of the LSM engine (\<open>crates/db-storage-lsm/src/memtable.rs\<close>): one mutable table
  with byte accounting, a queue of frozen tables, freezing at the byte limit, the newest-first
  lookup and the merged view.  Sequences come from the write-ahead log; \<open>mts_inv lo hi s\<close> says
  that they lie above \<open>lo\<close>, do not pass \<open>hi\<close>, and increase from older to newer tables, under which
  the lookup agrees with the merged view and freezing is invisible.
\<close>

definition ENTRY_OVERHEAD_BYTES :: nat where "ENTRY_OVERHEAD_BYTES = 24"

record versioned_entry =
  ve_sequence :: nat
  ve_value :: "bytes option"

type_synonym entry_map = "(bytes, versioned_entry) ordmap"

record memtable =
  mt_entries :: entry_map
  mt_approximate_bytes :: nat
  mt_last_sequence :: "nat option"

definition memtable_default :: memtable where
  "memtable_default =
     \<lparr>mt_entries = om_empty, mt_approximate_bytes = 0, mt_last_sequence = None\<rparr>"

definition resident_bytes :: "bytes \<Rightarrow> bytes option \<Rightarrow> nat result" where
  "resident_bytes key val =
     ok_or (Option.bind (checked_add64 ENTRY_OVERHEAD_BYTES (length key))
              (\<lambda>bs. checked_add64 bs (case val of None \<Rightarrow> 0 | Some v \<Rightarrow> length v)))
       (Corruption 0)"

definition memtable_apply :: "memtable \<Rightarrow> nat \<Rightarrow> bytes \<Rightarrow> bytes option \<Rightarrow> memtable result" where
  "memtable_apply t q key val =
     (if (case mt_last_sequence t of None \<Rightarrow> False | Some lq \<Rightarrow> q \<le> lq) then Inl (Corruption 0)
      else rbind (resident_bytes key val) (\<lambda>new_bytes.
        rbind (case om_lookup (mt_entries t) key of
                 None \<Rightarrow> Inr 0
               | Some e \<Rightarrow> resident_bytes key (ve_value e)) (\<lambda>old_bytes.
        rbind (ok_or (checked_sub64 (mt_approximate_bytes t) old_bytes) (Corruption 0)) (\<lambda>without_old.
        rbind (ok_or (checked_add64 without_old new_bytes) (Corruption 0)) (\<lambda>approximate.
        Inr \<lparr>mt_entries = om_insert key \<lparr>ve_sequence = q, ve_value = val\<rparr> (mt_entries t),
             mt_approximate_bytes = approximate, mt_last_sequence = Some q\<rparr>)))))"

definition memtable_get :: "memtable \<Rightarrow> bytes \<Rightarrow> versioned_entry option" where
  "memtable_get t key = om_lookup (mt_entries t) key"

definition memtable_is_empty :: "memtable \<Rightarrow> bool" where
  "memtable_is_empty t = (om_size (mt_entries t) = 0)"


subsection \<open>The set of tables\<close>

record memtable_set =
  ms_mutable :: memtable
  ms_immutable :: "memtable list"
  ms_mutable_bytes_limit :: nat

definition mts_new :: "nat \<Rightarrow> memtable_set result" where
  "mts_new mutable_bytes_limit =
     (if mutable_bytes_limit = 0 then Inl InvalidInput
      else Inr \<lparr>ms_mutable = memtable_default, ms_immutable = [],
                ms_mutable_bytes_limit = mutable_bytes_limit\<rparr>)"

definition mts_apply ::
    "memtable_set \<Rightarrow> nat \<Rightarrow> bytes \<Rightarrow> bytes option \<Rightarrow> memtable_set result" where
  "mts_apply s q key val =
     rbind (memtable_apply (ms_mutable s) q key val) (\<lambda>table.
       if mt_approximate_bytes table \<ge> ms_mutable_bytes_limit s
       then if memtable_is_empty table then Inl (Corruption 0)
            else Inr (s\<lparr>ms_mutable := memtable_default, ms_immutable := ms_immutable s @ [table]\<rparr>)
       else Inr (s\<lparr>ms_mutable := table\<rparr>))"

fun find_map :: "('a \<Rightarrow> 'b option) \<Rightarrow> 'a list \<Rightarrow> 'b option" where
  "find_map f [] = None"
| "find_map f (x # xs) = (case f x of None \<Rightarrow> find_map f xs | Some y \<Rightarrow> Some y)"

definition mts_get :: "memtable_set \<Rightarrow> bytes \<Rightarrow> versioned_entry option" where
  "mts_get s key =
     (case memtable_get (ms_mutable s) key of
        Some e \<Rightarrow> Some e
      | None \<Rightarrow> find_map (\<lambda>table. memtable_get table key) (rev (ms_immutable s)))"

definition overlay_entry :: "bytes \<times> versioned_entry \<Rightarrow> entry_map \<Rightarrow> entry_map" where
  "overlay_entry kv visible =
     (case kv of (key, e) \<Rightarrow>
        (case om_lookup visible key of
           None \<Rightarrow> om_insert key e visible
         | Some current \<Rightarrow>
             if ve_sequence e > ve_sequence current then om_insert key e visible else visible))"

definition mts_visible_state :: "memtable_set \<Rightarrow> entry_map" where
  "mts_visible_state s =
     fold (\<lambda>table visible. fold overlay_entry (entries (mt_entries table)) visible)
       (ms_immutable s @ [ms_mutable s]) om_empty"

definition mts_oldest_immutable_snapshot :: "memtable_set \<Rightarrow> (entry_map \<times> nat) option result" where
  "mts_oldest_immutable_snapshot s =
     (case ms_immutable s of
        [] \<Rightarrow> Inr None
      | table # _ \<Rightarrow>
          rbind (ok_or (mt_last_sequence table) (Corruption 0)) (\<lambda>durable_sequence.
          Inr (Some (mt_entries table, durable_sequence))))"

definition mts_retire_oldest_immutable :: "memtable_set \<Rightarrow> memtable_set result" where
  "mts_retire_oldest_immutable s =
     (if ms_immutable s = [] then Inl (Corruption 0)
      else Inr (s\<lparr>ms_immutable := tl (ms_immutable s)\<rparr>))"

definition mts_mutable_entries :: "memtable_set \<Rightarrow> nat" where
  "mts_mutable_entries s = om_size (mt_entries (ms_mutable s))"

definition mts_immutable_count :: "memtable_set \<Rightarrow> nat" where
  "mts_immutable_count s = length (ms_immutable s)"

definition mts_immutable_entries :: "memtable_set \<Rightarrow> nat" where
  "mts_immutable_entries s = sum_list (map (\<lambda>t. om_size (mt_entries t)) (ms_immutable s))"


subsection \<open>One table\<close>

text \<open>The bytes a table accounts for are those of its entries.\<close>

definition entry_bytes :: "bytes \<Rightarrow> bytes option \<Rightarrow> nat" where
  "entry_bytes key val = 24 + length key + (case val of None \<Rightarrow> 0 | Some v \<Rightarrow> length v)"

definition table_bytes :: "entry_map \<Rightarrow> nat" where
  "table_bytes m = (\<Sum>(k, e) \<leftarrow> entries m. entry_bytes k (ve_value e))"

lemma resident_bytes_Inr:
  "resident_bytes k v = Inr n \<longleftrightarrow> n = entry_bytes k v \<and> entry_bytes k v \<le> u64_max"
  by (auto simp: resident_bytes_def result_iff Option.bind_eq_Some_conv entry_bytes_def
      ENTRY_OVERHEAD_BYTES_def split: option.splits)

lemma sum_al_insert:
  fixes g :: "'k::linorder \<times> 'v \<Rightarrow> nat"
  assumes "al_ord xs"
  shows "sum_list (map g (al_insert k v xs)) +
      (case map_of xs k of None \<Rightarrow> 0 | Some w \<Rightarrow> g (k, w)) = sum_list (map g xs) + g (k, v)"
  using assms
proof (induction k v xs rule: al_insert.induct)
  case (1 k v)
  show ?case by simp
next
  case (2 k v a b xs)
  have none: "k < a \<Longrightarrow> map_of xs k = None"
    using "2.prems" by (force simp: map_of_eq_None_iff)
  show ?case
    using 2 none by (auto split: option.splits)
qed

lemma table_bytes_insert:
  "table_bytes (om_insert k e m) +
     (case om_lookup m k of None \<Rightarrow> 0 | Some old \<Rightarrow> entry_bytes k (ve_value old)) =
   table_bytes m + entry_bytes k (ve_value e)"
  using sum_al_insert [OF entries_ord, of "\<lambda>(k, e). entry_bytes k (ve_value e)" k e m]
  by (simp add: table_bytes_def entries_insert om_lookup_entries split: option.splits)

text \<open>\<open>table_inv lo hi t\<close>: the table's sequences lie strictly above \<open>lo\<close> and up to its last
  one, which does not pass \<open>hi\<close>; the bytes are exact.\<close>

definition table_inv :: "nat \<Rightarrow> nat \<Rightarrow> memtable \<Rightarrow> bool" where
  "table_inv lo hi t \<longleftrightarrow>
     mt_approximate_bytes t = table_bytes (mt_entries t) \<and>
     (case mt_last_sequence t of
        None \<Rightarrow> mt_entries t = om_empty
      | Some lq \<Rightarrow> lo < lq \<and> lq \<le> hi \<and> mt_entries t \<noteq> om_empty \<and>
          (\<forall>k e. om_lookup (mt_entries t) k = Some e \<longrightarrow> lo < ve_sequence e \<and> ve_sequence e \<le> lq))"

definition last_of :: "nat \<Rightarrow> memtable \<Rightarrow> nat" where
  "last_of lo t = (case mt_last_sequence t of None \<Rightarrow> lo | Some lq \<Rightarrow> lq)"

lemma table_inv_default: "table_inv lo hi memtable_default"
  by (simp add: table_inv_def memtable_default_def table_bytes_def)

lemma table_inv_mono: "table_inv lo hi t \<Longrightarrow> hi \<le> hi' \<Longrightarrow> table_inv lo hi' t"
  by (auto simp: table_inv_def split: option.splits)

lemma table_inv_last: "table_inv lo hi t \<Longrightarrow> lo \<le> hi \<Longrightarrow> lo \<le> last_of lo t \<and> last_of lo t \<le> hi"
  by (auto simp: table_inv_def last_of_def split: option.splits)

lemma table_inv_bounds:
  "table_inv lo hi t \<Longrightarrow> om_lookup (mt_entries t) k = Some e \<Longrightarrow>
     lo < ve_sequence e \<and> ve_sequence e \<le> last_of lo t"
  by (auto simp: table_inv_def last_of_def split: option.splits)

lemma memtable_apply_ok:
  assumes "table_inv lo hi t" "hi < q" "lo \<le> hi"
    and "mt_approximate_bytes t + entry_bytes k v \<le> u64_max"
  shows "\<exists>t'. memtable_apply t q k v = Inr t' \<and> table_inv lo q t' \<and>
    mt_entries t' = om_insert k \<lparr>ve_sequence = q, ve_value = v\<rparr> (mt_entries t) \<and>
    mt_last_sequence t' = Some q \<and> mt_approximate_bytes t' \<le> mt_approximate_bytes t + entry_bytes k v"
proof -
  let ?m = "om_insert k \<lparr>ve_sequence = q, ve_value = v\<rparr> (mt_entries t)"
  let ?old = "case om_lookup (mt_entries t) k of None \<Rightarrow> 0 | Some e \<Rightarrow> entry_bytes k (ve_value e)"
  have bytes: "table_bytes ?m + ?old = mt_approximate_bytes t + entry_bytes k v"
    using table_bytes_insert [of k "\<lparr>ve_sequence = q, ve_value = v\<rparr>" "mt_entries t"] assms(1)
    by (simp add: table_inv_def)
  have old_le: "?old \<le> mt_approximate_bytes t"
  proof (cases "om_lookup (mt_entries t) k")
    case (Some e)
    then have "(k, e) \<in> set (entries (mt_entries t))" by (simp add: set_entries)
    then have "entry_bytes k (ve_value e) \<le> table_bytes (mt_entries t)"
      unfolding table_bytes_def by (intro member_le_sum_list) (force, simp)
    with Some assms(1) show ?thesis by (simp add: table_inv_def)
  qed simp
  have order: "\<not> (case mt_last_sequence t of None \<Rightarrow> False | Some lq \<Rightarrow> q \<le> lq)"
    using assms(1,2) by (auto simp: table_inv_def split: option.splits)
  have res: "resident_bytes k v = Inr (entry_bytes k v)"
    "(case om_lookup (mt_entries t) k of None \<Rightarrow> Inr 0 | Some e \<Rightarrow> resident_bytes k (ve_value e)) = Inr ?old"
    using assms(4) old_le by (auto simp: resident_bytes_Inr split: option.splits)
  let ?t = "\<lparr>mt_entries = ?m, mt_approximate_bytes = mt_approximate_bytes t - ?old + entry_bytes k v,
      mt_last_sequence = Some q\<rparr>"
  have "memtable_apply t q k v = Inr ?t"
    using order res old_le assms(4)
    by (simp add: memtable_apply_def checked_sub64_def checked_add64_def)
  moreover have "?m \<noteq> om_empty"
    by (metis fun_upd_same om_lookup_empty om_lookup_insert option.distinct(1))
  then have "table_inv lo q ?t"
    using bytes old_le assms(1-3)
    by (auto simp: table_inv_def split: option.splits if_splits) (meson leD le_trans nat_le_linear order_less_imp_le)+
  ultimately show ?thesis by auto
qed


subsection \<open>Overlaying newer versions\<close>

lemma overlay_entry_newer:
  "(\<forall>c. om_lookup m k = Some c \<longrightarrow> ve_sequence c < ve_sequence e) \<Longrightarrow>
     overlay_entry (k, e) m = om_insert k e m"
  by (simp add: overlay_entry_def split: option.split)

lemma fold_overlay_newer:
  assumes "al_ord xs" "\<forall>(k, e) \<in> set xs. \<forall>c. om_lookup m k = Some c \<longrightarrow> ve_sequence c < ve_sequence e"
  shows "om_lookup (fold overlay_entry xs m) k =
    (case map_of xs k of Some e \<Rightarrow> Some e | None \<Rightarrow> om_lookup m k)"
  using assms
proof (induction xs arbitrary: m)
  case Nil
  show ?case by simp
next
  case (Cons x xs)
  obtain k1 e1 where x: "x = (k1, e1)" by (cases x)
  have step: "overlay_entry x m = om_insert k1 e1 m"
    using Cons.prems(2) x by (auto intro: overlay_entry_newer)
  have distinct: "\<forall>(k, e) \<in> set xs. k \<noteq> k1"
    using Cons.prems(1) x by auto
  then have none: "map_of xs k1 = None"
    by (auto simp: map_of_eq_None_iff)
  have newer: "\<forall>(k, e) \<in> set xs. \<forall>c. om_lookup (om_insert k1 e1 m) k = Some c \<longrightarrow>
      ve_sequence c < ve_sequence e"
    using Cons.prems(2) distinct by fastforce
  have "om_lookup (fold overlay_entry xs (om_insert k1 e1 m)) k =
      (case map_of xs k of Some e \<Rightarrow> Some e | None \<Rightarrow> om_lookup (om_insert k1 e1 m) k)"
    using Cons.prems(1) x by (intro Cons.IH [OF _ newer]) simp
  then show ?case using none step by (auto simp: x split: option.splits)
qed

lemma find_map_append: "find_map f (xs @ ys) = (case find_map f xs of None \<Rightarrow> find_map f ys | Some y \<Rightarrow> Some y)"
  by (induction xs) (auto split: option.splits)

text \<open>Tables listed from oldest to newest.\<close>

fun chain_inv :: "nat \<Rightarrow> nat \<Rightarrow> memtable list \<Rightarrow> bool" where
  "chain_inv lo hi [] \<longleftrightarrow> lo \<le> hi"
| "chain_inv lo hi (t # ts) \<longleftrightarrow> lo \<le> hi \<and> table_inv lo hi t \<and> chain_inv (last_of lo t) hi ts"

definition seqs_upto :: "nat \<Rightarrow> entry_map \<Rightarrow> bool" where
  "seqs_upto q m \<longleftrightarrow> (\<forall>k e. om_lookup m k = Some e \<longrightarrow> ve_sequence e \<le> q)"

lemma overlay_table:
  assumes "table_inv lo hi t" "lo \<le> hi" "seqs_upto lo m"
  shows "om_lookup (fold overlay_entry (entries (mt_entries t)) m) k =
      (case memtable_get t k of Some e \<Rightarrow> Some e | None \<Rightarrow> om_lookup m k) \<and>
    seqs_upto (last_of lo t) (fold overlay_entry (entries (mt_entries t)) m)"
proof -
  have look: "om_lookup (fold overlay_entry (entries (mt_entries t)) m) k =
      (case om_lookup (mt_entries t) k of Some e \<Rightarrow> Some e | None \<Rightarrow> om_lookup m k)" for k
    using assms table_inv_bounds [OF assms(1)]
    by (subst fold_overlay_newer) (fastforce simp: set_entries seqs_upto_def om_lookup_entries)+
  moreover have "seqs_upto (last_of lo t) (fold overlay_entry (entries (mt_entries t)) m)"
    using assms(3) table_inv_bounds [OF assms(1)] table_inv_last [OF assms(1,2)] look
    by (fastforce simp: seqs_upto_def split: option.splits)
  ultimately show ?thesis by (simp add: memtable_get_def)
qed

lemma overlay_chain:
  assumes "chain_inv lo hi ts" "seqs_upto lo m"
  shows "om_lookup (fold (\<lambda>table. fold overlay_entry (entries (mt_entries table))) ts m) k =
    (case find_map (\<lambda>t. memtable_get t k) (rev ts) of Some e \<Rightarrow> Some e | None \<Rightarrow> om_lookup m k)"
  using assms
proof (induction ts arbitrary: lo m)
  case Nil
  show ?case by simp
next
  case (Cons t ts)
  have o: "om_lookup (fold overlay_entry (entries (mt_entries t)) m) k =
      (case memtable_get t k of Some e \<Rightarrow> Some e | None \<Rightarrow> om_lookup m k)"
    "seqs_upto (last_of lo t) (fold overlay_entry (entries (mt_entries t)) m)"
    using overlay_table [of lo hi t m] Cons.prems by auto
  show ?case
    using Cons.IH [OF _ o(2)] Cons.prems o(1) by (simp add: find_map_append split: option.splits)
qed

lemma chain_inv_snoc_mono:
  "chain_inv lo hi (ts @ [t]) \<Longrightarrow> hi \<le> hi' \<Longrightarrow> (\<And>lo'. table_inv lo' hi t \<Longrightarrow> lo' \<le> hi \<Longrightarrow> table_inv lo' hi' t') \<Longrightarrow>
     (\<And>lo'. lo' \<le> hi' \<Longrightarrow> last_of lo' t' \<le> hi') \<Longrightarrow> chain_inv lo hi' (ts @ [t'])"
  by (induction ts arbitrary: lo) (auto intro: table_inv_mono)

lemma chain_inv_last: "chain_inv lo hi (ts @ [t]) \<Longrightarrow> \<exists>lo0. table_inv lo0 hi t \<and> lo0 \<le> hi"
  by (induction ts arbitrary: lo) auto

lemma chain_inv_append_default:
  "chain_inv lo hi ts \<Longrightarrow> chain_inv lo hi (ts @ [memtable_default])"
  by (induction ts arbitrary: lo) (auto simp: table_inv_default, simp_all add: last_of_def memtable_default_def)


subsection \<open>The set\<close>

definition mts_inv :: "nat \<Rightarrow> nat \<Rightarrow> memtable_set \<Rightarrow> bool" where
  "mts_inv lo hi s \<longleftrightarrow>
     chain_inv lo hi (ms_immutable s @ [ms_mutable s]) \<and>
     (\<forall>t \<in> set (ms_immutable s). mt_last_sequence t \<noteq> None) \<and>
     mt_approximate_bytes (ms_mutable s) < ms_mutable_bytes_limit s"

lemma mts_inv_new: "0 < limit \<Longrightarrow> lo \<le> hi \<Longrightarrow> \<exists>s. mts_new limit = Inr s \<and> mts_inv lo hi s"
  by (simp add: mts_new_def mts_inv_def table_inv_default)
     (simp add: memtable_default_def last_of_def)

lemma mts_get_eq: "mts_get s k = find_map (\<lambda>t. memtable_get t k) (rev (ms_immutable s @ [ms_mutable s]))"
  by (simp add: mts_get_def)

lemma mts_visible_state_get:
  assumes "mts_inv lo hi s"
  shows "om_lookup (mts_visible_state s) k = mts_get s k"
proof -
  have c: "chain_inv lo hi (ms_immutable s @ [ms_mutable s])"
    using assms by (simp add: mts_inv_def)
  have "seqs_upto lo om_empty" by (simp add: seqs_upto_def)
  from overlay_chain [OF c this, of k] show ?thesis
    unfolding mts_visible_state_def mts_get_eq by (simp split: option.split)
qed

lemma mts_apply_ok:
  assumes "mts_inv lo hi s" "hi < q" "ms_mutable_bytes_limit s + entry_bytes k v \<le> u64_max"
  shows "\<exists>s'. mts_apply s q k v = Inr s' \<and> mts_inv lo q s' \<and>
    ms_mutable_bytes_limit s' = ms_mutable_bytes_limit s \<and>
    (\<forall>k'. mts_get s' k' = (if k' = k then Some \<lparr>ve_sequence = q, ve_value = v\<rparr> else mts_get s k'))"
proof -
  let ?e = "\<lparr>ve_sequence = q, ve_value = v\<rparr>"
  have chain: "chain_inv lo hi (ms_immutable s @ [ms_mutable s])"
    and frozen: "\<forall>t \<in> set (ms_immutable s). mt_last_sequence t \<noteq> None"
    and small: "mt_approximate_bytes (ms_mutable s) < ms_mutable_bytes_limit s"
    and limit: "0 < ms_mutable_bytes_limit s"
    using assms(1) by (auto simp: mts_inv_def)
  have fits: "mt_approximate_bytes (ms_mutable s) + entry_bytes k v \<le> u64_max"
    using small assms(3) by simp
  obtain lo0 where "table_inv lo0 hi (ms_mutable s)" "lo0 \<le> hi"
    using chain_inv_last [OF chain] by blast
  from memtable_apply_ok [OF this(1) assms(2) this(2) fits] obtain t where
    t: "memtable_apply (ms_mutable s) q k v = Inr t"
      "mt_entries t = om_insert k ?e (mt_entries (ms_mutable s))" "mt_last_sequence t = Some q"
    by blast
  have chain': "chain_inv lo q (ms_immutable s @ [t])"
  proof (rule chain_inv_snoc_mono [OF chain])
    show "table_inv lo' q t" if "table_inv lo' hi (ms_mutable s)" "lo' \<le> hi" for lo'
      using memtable_apply_ok [OF that(1) assms(2) that(2) fits] t(1) by auto
  qed (use assms(2) t(3) in \<open>simp_all add: last_of_def\<close>)
  have gets: "find_map (\<lambda>t. memtable_get t k') (rev (ms_immutable s @ [t])) =
      (if k' = k then Some ?e else mts_get s k')" for k'
    by (simp add: mts_get_def memtable_get_def [of t] memtable_get_def [of "ms_mutable s"] t(2))
  have nonempty: "\<not> memtable_is_empty t"
    by (simp add: memtable_is_empty_def om_size_def t(2))
       (metis fun_upd_same om_lookup_empty om_lookup_insert option.distinct(1))
  show ?thesis
  proof (cases "mt_approximate_bytes t \<ge> ms_mutable_bytes_limit s")
    case True
    let ?s = "s\<lparr>ms_mutable := memtable_default, ms_immutable := ms_immutable s @ [t]\<rparr>"
    have "mts_apply s q k v = Inr ?s"
      using t(1) True nonempty by (simp add: mts_apply_def)
    moreover have "mts_inv lo q ?s"
      using chain_inv_append_default [OF chain'] frozen t(3) limit
      by (simp add: mts_inv_def) (simp add: memtable_default_def)
    moreover have "mts_get ?s k' = find_map (\<lambda>t. memtable_get t k') (rev (ms_immutable s @ [t]))" for k'
      by (simp add: mts_get_def memtable_get_def [of memtable_default])
         (simp add: memtable_default_def)
    ultimately show ?thesis using gets by auto
  next
    case False
    let ?s = "s\<lparr>ms_mutable := t\<rparr>"
    have "mts_apply s q k v = Inr ?s"
      using t(1) False by (simp add: mts_apply_def)
    moreover have "mts_inv lo q ?s"
      using chain' frozen False by (simp add: mts_inv_def)
    moreover have "mts_get ?s k' = find_map (\<lambda>t. memtable_get t k') (rev (ms_immutable s @ [t]))" for k'
      by (simp add: mts_get_def cong: option.case_cong)
    ultimately show ?thesis using gets by auto
  qed
qed


text \<open>Retiring the oldest frozen table hides exactly the entries no newer table overrides.\<close>

lemma mts_retire_ok:
  assumes "mts_inv lo hi s" "ms_immutable s = t # ts"
  shows "\<exists>s'. mts_retire_oldest_immutable s = Inr s' \<and> mts_inv (last_of lo t) hi s' \<and>
    ms_mutable_bytes_limit s' = ms_mutable_bytes_limit s \<and>
    mts_oldest_immutable_snapshot s = Inr (Some (mt_entries t, last_of lo t)) \<and>
    lo < last_of lo t \<and>
    (\<forall>k. mts_get s k = (case mts_get s' k of None \<Rightarrow> om_lookup (mt_entries t) k | Some e \<Rightarrow> Some e)) \<and>
    (\<forall>k e. om_lookup (mt_entries t) k = Some e \<longrightarrow> lo < ve_sequence e \<and> ve_sequence e \<le> last_of lo t)"
proof -
  let ?s = "s\<lparr>ms_immutable := ts\<rparr>"
  obtain lq where lq: "mt_last_sequence t = Some lq" and inv: "table_inv lo hi t"
    using assms by (auto simp: mts_inv_def)
  have "mts_get s k = (case mts_get ?s k of None \<Rightarrow> om_lookup (mt_entries t) k | Some e \<Rightarrow> Some e)" for k
    by (simp add: mts_get_def assms(2) find_map_append memtable_get_def [of t] split: option.split)
  moreover have "mts_inv (last_of lo t) hi ?s"
    using assms by (simp add: mts_inv_def)
  moreover have "lo < last_of lo t"
    using inv lq by (auto simp: table_inv_def last_of_def split: option.splits)
  ultimately show ?thesis
    using assms(2) lq table_inv_bounds [OF inv]
    by (simp add: mts_retire_oldest_immutable_def mts_oldest_immutable_snapshot_def last_of_def)
qed


subsection \<open>Properties\<close>

text \<open>Applying the next sequence succeeds while the byte counter has room, keeps
  the tables in order and the mutable table under its limit; afterwards the lookup and the merged
  view agree on every key, show the new version for its key and the old one for every other, whether
  or not the table was frozen.\<close>

theorem memtable_set_apply_correct:
  assumes "mts_inv lo hi s" "hi < q" "ms_mutable_bytes_limit s + entry_bytes k v \<le> u64_max"
  shows "\<exists>s'. mts_apply s q k v = Inr s' \<and> mts_inv lo q s' \<and>
    (\<forall>k'. om_lookup (mts_visible_state s') k' = mts_get s' k' \<and>
       mts_get s' k' = (if k' = k then Some \<lparr>ve_sequence = q, ve_value = v\<rparr> else mts_get s k'))"
  using mts_apply_ok [OF assms] mts_visible_state_get by blast

lemma memtable_set_apply_correct_witness:
  "\<exists>s0 s1 s2. mts_new 30 = Inr s0 \<and> mts_apply s0 1 [1] (Some [2]) = Inr s1 \<and>
    mts_apply s1 2 [1, 2, 3, 4, 5, 6] None = Inr s2 \<and>
    mts_get s2 [1] = Some \<lparr>ve_sequence = 1, ve_value = Some [2]\<rparr>"
proof -
  obtain s0 where s0: "mts_new 30 = Inr s0" "mts_inv 0 0 s0" "ms_mutable_bytes_limit s0 = 30"
    using mts_inv_new [of 30 0 0] by (auto simp: mts_new_def)
  obtain s1 where s1: "mts_apply s0 1 [1] (Some [2]) = Inr s1" "mts_inv 0 1 s1"
      "mts_get s1 [1] = Some \<lparr>ve_sequence = 1, ve_value = Some [2]\<rparr>"
    using memtable_set_apply_correct [OF s0(2), of 1 "[1]" "Some [2]"] s0(3)
    by (auto simp: entry_bytes_def u64_max_def)
  have "ms_mutable_bytes_limit s1 = 30"
    using s1(1) s0(3) by (auto simp: mts_apply_def result_iff split: if_splits)
  then obtain s2 where "mts_apply s1 2 [1, 2, 3, 4, 5, 6] None = Inr s2"
      "mts_get s2 [1] = Some \<lparr>ve_sequence = 1, ve_value = Some [2]\<rparr>"
    using memtable_set_apply_correct [OF s1(2), of 2 "[1, 2, 3, 4, 5, 6]" None] s1(3)
    by (auto simp: entry_bytes_def u64_max_def)
  with s0 s1 show ?thesis by blast
qed

end
