(* ===== verification/Disk.thy ===== *)
theory Disk
  imports OrdMap KvCore
begin

text \<open>
  The directory an engine works in, as the Rust code sees it through \<open>std::fs\<close>: a map from file
  names to bytes, together with what the operating system will do.  Each durable write consumes one
  entry of \<open>dk_faults\<close>: no fault, a failure before anything is written, or a failure after a
  number of bytes reached the file (all of them when only the final \<open>sync\<close> failed); writes past the
  end of the list succeed.  \<open>dk_stuck\<close> names the files whose removal fails, which the code ignores.
\<close>

type_synonym dir = "(bytes, bytes) ordmap"

datatype write_fault = BeforeWrite io_kind | TornWrite nat io_kind

record disk =
  dk_files :: dir
  dk_faults :: "write_fault option list"
  dk_stuck :: "bytes list"

definition disk_next_fault :: "disk \<Rightarrow> write_fault option \<times> disk" where
  "disk_next_fault d =
     (case dk_faults d of [] \<Rightarrow> (None, d) | f # fs \<Rightarrow> (f, d\<lparr>dk_faults := fs\<rparr>))"

definition disk_set :: "bytes \<Rightarrow> bytes \<Rightarrow> disk \<Rightarrow> disk" where
  "disk_set name bs d = d\<lparr>dk_files := om_insert name bs (dk_files d)\<rparr>"

definition disk_read :: "disk \<Rightarrow> bytes \<Rightarrow> bytes option" where
  "disk_read d name = om_lookup (dk_files d) name"

text \<open>\<open>create_new(true)\<close>, \<open>write_all\<close> and \<open>sync_all\<close> of a whole file.\<close>

definition disk_create_new :: "bytes \<Rightarrow> bytes \<Rightarrow> disk \<Rightarrow> unit result \<times> disk" where
  "disk_create_new name bs d =
     (if disk_read d name \<noteq> None then (Inl (Io AlreadyExists), d)
      else case disk_next_fault d of
        (Some (BeforeWrite k), d') \<Rightarrow> (Inl (Io k), d')
      | (Some (TornWrite n k), d') \<Rightarrow> (Inl (Io k), disk_set name (take n bs) d')
      | (None, d') \<Rightarrow> (Inr (), disk_set name bs d'))"

text \<open>\<open>open\<close> of an existing file for writing, \<open>seek\<close>, \<open>write_all\<close> and \<open>sync_data\<close>.\<close>

definition write_at :: "nat \<Rightarrow> bytes \<Rightarrow> bytes \<Rightarrow> bytes" where
  "write_at off bs f =
     (if bs = [] then f
      else take off f @ replicate (off - length f) 0 @ bs @ drop (off + length bs) f)"

definition disk_write_at :: "bytes \<Rightarrow> nat \<Rightarrow> bytes \<Rightarrow> disk \<Rightarrow> unit result \<times> disk" where
  "disk_write_at name off bs d =
     (case disk_read d name of
        None \<Rightarrow> (Inl (Io NotFound), d)
      | Some f \<Rightarrow>
          (case disk_next_fault d of
             (Some (BeforeWrite k), d') \<Rightarrow> (Inl (Io k), d')
           | (Some (TornWrite n k), d') \<Rightarrow> (Inl (Io k), disk_set name (write_at off (take n bs) f) d')
           | (None, d') \<Rightarrow> (Inr (), disk_set name (write_at off bs f) d')))"

text \<open>Best-effort removal of every file a predicate selects.\<close>

definition disk_remove :: "(bytes \<Rightarrow> bool) \<Rightarrow> disk \<Rightarrow> disk" where
  "disk_remove P d =
     d\<lparr>dk_files := om_filter (\<lambda>name _. \<not> P name \<or> name \<in> set (dk_stuck d)) (dk_files d)\<rparr>"

lemma disk_read_set [simp]:
  "disk_read (disk_set name bs d) n = (if n = name then Some bs else disk_read d n)"
  by (simp add: disk_read_def disk_set_def)

lemma disk_set_sel [simp]:
  "dk_faults (disk_set name bs d) = dk_faults d" "dk_stuck (disk_set name bs d) = dk_stuck d"
  by (simp_all add: disk_set_def)

lemma disk_next_fault_quiet [simp]: "dk_faults d = [] \<Longrightarrow> disk_next_fault d = (None, d)"
  by (simp add: disk_next_fault_def)

lemma disk_read_next_fault: "disk_next_fault d = (f, d') \<Longrightarrow> disk_read d' = disk_read d \<and> dk_stuck d' = dk_stuck d"
  by (auto simp: disk_next_fault_def disk_read_def fun_eq_iff split: list.splits)

lemma disk_create_quiet:
  "dk_faults d = [] \<Longrightarrow> disk_read d name = None \<Longrightarrow> disk_create_new name bs d = (Inr (), disk_set name bs d)"
  by (simp add: disk_create_new_def)

lemma disk_write_at_quiet:
  "dk_faults d = [] \<Longrightarrow> disk_read d name = Some f \<Longrightarrow>
     disk_write_at name off bs d = (Inr (), disk_set name (write_at off bs f) d)"
  by (simp add: disk_write_at_def)

lemma disk_read_remove:
  "disk_read (disk_remove P d) n = (if P n \<and> n \<notin> set (dk_stuck d) then None else disk_read d n)"
  by (simp add: disk_read_def disk_remove_def om_lookup_filter split: option.split)

lemma disk_remove_sel [simp]:
  "dk_faults (disk_remove P d) = dk_faults d" "dk_stuck (disk_remove P d) = dk_stuck d"
  by (simp_all add: disk_remove_def)

text \<open>A new file is all that a creation can change, and a torn one holds a prefix.\<close>

lemma disk_create_cases:
  assumes "disk_create_new name bs d = (r, d')"
  obtains (fail) "disk_read d' = disk_read d" "\<not> is_ok r"
  | (torn) n where "disk_read d name = None" "disk_read d' = (disk_read d)(name \<mapsto> take n bs)" "\<not> is_ok r"
  | (whole) "disk_read d name = None" "disk_read d' = (disk_read d)(name \<mapsto> bs)" "r = Inr ()"
proof -
  obtain f d1 where f: "disk_next_fault d = (f, d1)" by force
  have same: "disk_read d1 = disk_read d" using disk_read_next_fault [OF f] by simp
  have upd: "disk_read (disk_set name x d1) = (disk_read d)(name \<mapsto> x)" for x
    using same by (simp add: fun_eq_iff)
  show thesis
    using assms same f fail torn whole upd
    unfolding disk_create_new_def
    by (auto split: if_splits option.splits write_fault.splits)
qed

end
