(* ===== verification/SsTable.thy ===== *)
theory SsTable
  imports Bloom MemTable RecordFrame Decimal Disk
begin

text \<open>
  Immutable sorted tables (\<open>crates/db-storage-lsm/src/sstable.rs\<close>): the header, footer, data
  record and index record codecs, table creation, the validating open, point lookup and range
  overlay.  A table file is its bytes; a directory is a map from file names to bytes.  The Rust
  \<open>Vec::binary_search_by\<close> on the strictly sorted index is the search for the matching entry.
\<close>

subsection \<open>Constants and data\<close>

definition SSTABLE_HEADER_LEN :: nat where "SSTABLE_HEADER_LEN = 64"
definition SSTABLE_FOOTER_LEN :: nat where "SSTABLE_FOOTER_LEN = 64"
definition SST_RECORD_HEADER_LEN :: nat where "SST_RECORD_HEADER_LEN = 28"
definition SST_INDEX_PREFIX_LEN :: nat where "SST_INDEX_PREFIX_LEN = 24"
definition SSTABLE_MAGIC :: bytes where "SSTABLE_MAGIC = ascii ''DBLSMSST''"
definition SSTABLE_FOOTER_MAGIC :: bytes where "SSTABLE_FOOTER_MAGIC = ascii ''DBLSMEND''"
definition SST_RECORD_MAGIC :: bytes where "SST_RECORD_MAGIC = ascii ''SSTR''"
definition SST_LEGACY_VERSION :: nat where "SST_LEGACY_VERSION = 1"
definition SST_FORMAT_VERSION :: nat where "SST_FORMAT_VERSION = 2"
definition SST_RECORD_VERSION :: byte where "SST_RECORD_VERSION = 1"
definition SST_INDEX_VERSION :: byte where "SST_INDEX_VERSION = 1"

record sstable_descriptor =
  sd_table_id :: nat
  sd_level :: nat
  sd_file_bytes :: nat
  sd_entry_count :: nat
  sd_durable_sequence :: nat
  sd_smallest_key :: bytes
  sd_largest_key :: bytes

datatype entry_kind = EPut | EDelete

fun entry_kind_encoded :: "entry_kind \<Rightarrow> byte" where
  "entry_kind_encoded EPut = 1"
| "entry_kind_encoded EDelete = 2"

definition entry_kind_decode :: "byte \<Rightarrow> nat \<Rightarrow> entry_kind result" where
  "entry_kind_decode encoded offset =
     (if encoded = 1 then Inr EPut
      else if encoded = 2 then Inr EDelete
      else Inl (Corruption offset))"

definition entry_kind_of :: "versioned_entry \<Rightarrow> entry_kind" where
  "entry_kind_of e = (if ve_value e \<noteq> None then EPut else EDelete)"

record index_entry =
  ix_key :: bytes
  ix_sequence :: nat
  ix_kind :: entry_kind
  ix_record_offset :: nat

record sstable =
  st_descriptor :: sstable_descriptor
  st_bytes :: bytes
  st_index :: "index_entry list"
  st_bloom :: "bloom_filter option"

record sst_header =
  sh_format_version :: nat
  sh_table_id :: nat
  sh_entry_count :: nat
  sh_data_offset :: nat
  sh_index_offset :: nat
  sh_footer_offset :: nat

record sst_footer =
  sf_format_version :: nat
  sf_table_id :: nat
  sf_entry_count :: nat
  sf_index_offset :: nat
  sf_footer_offset :: nat
  sf_durable_sequence :: nat
  sf_whole_crc :: nat

definition sst_file_name :: "nat \<Rightarrow> bytes" where
  "sst_file_name table_id = ascii ''sst-'' @ format_dec 16 table_id @ ascii ''.sst''"

lemma length_sst_magic [simp]:
  "length SSTABLE_MAGIC = 8" "length SSTABLE_FOOTER_MAGIC = 8" "length SST_RECORD_MAGIC = 4"
  by (simp_all add: SSTABLE_MAGIC_def SSTABLE_FOOTER_MAGIC_def SST_RECORD_MAGIC_def)


subsection \<open>Header and footer\<close>

definition sst_encode_header ::
    "(bytes \<Rightarrow> 32 word) \<Rightarrow> nat \<Rightarrow> nat \<Rightarrow> nat \<Rightarrow> nat \<Rightarrow> nat \<Rightarrow> nat \<Rightarrow> bytes" where
  "sst_encode_header crc format_version table_id entry_count data_offset index_offset footer_offset =
     (let h = SSTABLE_MAGIC @ le_bytes 2 format_version @ le_bytes 2 SSTABLE_HEADER_LEN @ replicate 4 0 @
            le_bytes 8 table_id @ le_bytes 8 entry_count @ le_bytes 8 data_offset @
            le_bytes 8 index_offset @ le_bytes 8 footer_offset @ replicate 4 0
      in h @ crc_field (crc h))"

definition sst_parse_header :: "(bytes \<Rightarrow> 32 word) \<Rightarrow> bytes \<Rightarrow> sst_header result" where
  "sst_parse_header crc bs =
     (if length bs \<noteq> SSTABLE_HEADER_LEN then Inl (Corruption 0)
      else if seg 0 8 bs \<noteq> SSTABLE_MAGIC then Inl (Corruption 0)
      else let version = read_u16 (seg 8 10 bs) in
        if version \<noteq> SST_LEGACY_VERSION \<and> version \<noteq> SST_FORMAT_VERSION
        then Inl (UnsupportedVersion FmtSstable version SST_FORMAT_VERSION)
        else if read_u16 (seg 10 12 bs) \<noteq> SSTABLE_HEADER_LEN then Inl (Corruption 10)
        else if seg 12 16 bs \<noteq> replicate 4 0 \<or> seg 56 60 bs \<noteq> replicate 4 0 then Inl (Corruption 12)
        else if unat (crc (take 60 bs)) \<noteq> read_u32 (seg 60 64 bs) then Inl (Corruption 60)
        else Inr \<lparr>sh_format_version = version, sh_table_id = read_u64 (seg 16 24 bs),
                  sh_entry_count = read_u64 (seg 24 32 bs), sh_data_offset = read_u64 (seg 32 40 bs),
                  sh_index_offset = read_u64 (seg 40 48 bs),
                  sh_footer_offset = read_u64 (seg 48 56 bs)\<rparr>)"

definition sst_encode_footer ::
    "(bytes \<Rightarrow> 32 word) \<Rightarrow> nat \<Rightarrow> nat \<Rightarrow> nat \<Rightarrow> nat \<Rightarrow> nat \<Rightarrow> nat \<Rightarrow> 32 word \<Rightarrow> bytes" where
  "sst_encode_footer crc format_version table_id entry_count index_offset footer_offset
       durable_sequence whole_crc =
     (let f = SSTABLE_FOOTER_MAGIC @ le_bytes 2 format_version @ le_bytes 2 SSTABLE_FOOTER_LEN @
            replicate 4 0 @ le_bytes 8 table_id @ le_bytes 8 entry_count @ le_bytes 8 index_offset @
            le_bytes 8 footer_offset @ le_bytes 8 durable_sequence @ crc_field whole_crc
      in f @ crc_field (crc f))"

definition sst_parse_footer :: "(bytes \<Rightarrow> 32 word) \<Rightarrow> bytes \<Rightarrow> nat \<Rightarrow> sst_footer result" where
  "sst_parse_footer crc bs offset =
     (if length bs \<noteq> SSTABLE_FOOTER_LEN \<or> seg 0 8 bs \<noteq> SSTABLE_FOOTER_MAGIC then Inl (Corruption offset)
      else let version = read_u16 (seg 8 10 bs) in
        if version \<noteq> SST_LEGACY_VERSION \<and> version \<noteq> SST_FORMAT_VERSION
        then Inl (UnsupportedVersion FmtSstable version SST_FORMAT_VERSION)
        else if read_u16 (seg 10 12 bs) \<noteq> SSTABLE_FOOTER_LEN \<or> seg 12 16 bs \<noteq> replicate 4 0
        then Inl (Corruption (offset + 10))
        else if unat (crc (take 60 bs)) \<noteq> read_u32 (seg 60 64 bs) then Inl (Corruption (offset + 60))
        else Inr \<lparr>sf_format_version = version, sf_table_id = read_u64 (seg 16 24 bs),
                  sf_entry_count = read_u64 (seg 24 32 bs), sf_index_offset = read_u64 (seg 32 40 bs),
                  sf_footer_offset = read_u64 (seg 40 48 bs),
                  sf_durable_sequence = read_u64 (seg 48 56 bs),
                  sf_whole_crc = read_u32 (seg 56 60 bs)\<rparr>)"


subsection \<open>Data and index records\<close>

definition sst_checked_add :: "nat \<Rightarrow> nat \<Rightarrow> nat \<Rightarrow> nat result" where
  "sst_checked_add base add offset = ok_or (checked_add64 base add) (Corruption offset)"

definition sst_validate_entry_bounds :: "bytes \<Rightarrow> bytes option \<Rightarrow> unit result" where
  "sst_validate_entry_bounds key val =
     (if length key > MAX_KEY_BYTES then Inl InvalidInput
      else if (case val of None \<Rightarrow> False | Some v \<Rightarrow> length v > MAX_VALUE_BYTES) then Inl InvalidInput
      else Inr ())"

definition sst_encode_record :: "(bytes \<Rightarrow> 32 word) \<Rightarrow> bytes \<Rightarrow> versioned_entry \<Rightarrow> bytes result" where
  "sst_encode_record crc key e =
     (let val = (case ve_value e of None \<Rightarrow> [] | Some v \<Rightarrow> v) in
      rbind (ok_or (try_u32 (length key)) (Corruption 0)) (\<lambda>key_len.
      rbind (ok_or (try_u32 (length val)) (Corruption 0)) (\<lambda>value_len.
      rbind (ok_or (Option.bind (Option.bind (checked_add64 SST_RECORD_HEADER_LEN (length key))
               (\<lambda>s. checked_add64 s (length val))) (\<lambda>s. checked_add64 s 4)) (Corruption 0)) (\<lambda>_.
      let h24 = SST_RECORD_MAGIC @ [SST_RECORD_VERSION, entry_kind_encoded (entry_kind_of e)] @
                le_bytes 2 0 @ le_bytes 8 (ve_sequence e) @ le_bytes 4 key_len @ le_bytes 4 value_len;
          body = h24 @ crc_field (crc h24) @ key @ val
      in Inr (body @ crc_field (crc body))))))"

definition sst_decode_record ::
    "(bytes \<Rightarrow> 32 word) \<Rightarrow> bytes \<Rightarrow> nat \<Rightarrow> nat \<Rightarrow> (bytes \<times> versioned_entry \<times> nat) result" where
  "sst_decode_record crc bs offset limit =
     rbind (sst_checked_add offset SST_RECORD_HEADER_LEN offset) (\<lambda>header_end.
     if header_end > limit \<or> header_end > length bs then Inl (Corruption offset)
     else let header = seg offset header_end bs in
       if take 4 header \<noteq> SST_RECORD_MAGIC \<or> header ! 4 \<noteq> SST_RECORD_VERSION \<or>
          seg 6 8 header \<noteq> replicate 2 0 then Inl (Corruption offset)
       else if unat (crc (take 24 header)) \<noteq> read_u32 (seg 24 28 header)
       then Inl (Corruption (offset + 24))
       else rbind (entry_kind_decode (header ! 5) (offset + 5)) (\<lambda>kind.
         let key_len = read_u32 (seg 16 20 header);
             value_len = read_u32 (seg 20 24 header)
         in if key_len > MAX_KEY_BYTES \<or> value_len > MAX_VALUE_BYTES then Inl (Corruption offset)
            else if kind = EDelete \<and> value_len \<noteq> 0 then Inl (Corruption (offset + 20))
            else rbind (sst_checked_add header_end key_len offset) (\<lambda>key_end.
              rbind (sst_checked_add key_end value_len offset) (\<lambda>payload_end.
              rbind (sst_checked_add payload_end 4 offset) (\<lambda>record_end.
              if record_end > limit \<or> record_end > length bs then Inl (Corruption offset)
              else if unat (crc (seg offset payload_end bs)) \<noteq> read_u32 (seg payload_end record_end bs)
              then Inl (Corruption payload_end)
              else Inr (seg header_end key_end bs,
                        \<lparr>ve_sequence = read_u64 (seg 8 16 header),
                         ve_value = (case kind of EPut \<Rightarrow> Some (seg key_end payload_end bs)
                                     | EDelete \<Rightarrow> None)\<rparr>,
                        record_end))))))"

definition sst_encode_index_entry ::
    "(bytes \<Rightarrow> 32 word) \<Rightarrow> bytes \<Rightarrow> versioned_entry \<Rightarrow> nat \<Rightarrow> bytes result" where
  "sst_encode_index_entry crc key e record_offset =
     rbind (ok_or (try_u32 (length key)) (Corruption 0)) (\<lambda>key_len.
     rbind (ok_or (Option.bind (checked_add64 SST_INDEX_PREFIX_LEN (length key))
              (\<lambda>s. checked_add64 s 4)) (Corruption 0)) (\<lambda>_.
     let body = le_bytes 4 key_len @ [entry_kind_encoded (entry_kind_of e), SST_INDEX_VERSION] @
               le_bytes 2 0 @ le_bytes 8 (ve_sequence e) @ le_bytes 8 record_offset @ key
     in Inr (body @ crc_field (crc body))))"

definition sst_decode_index_entry ::
    "(bytes \<Rightarrow> 32 word) \<Rightarrow> bytes \<Rightarrow> nat \<Rightarrow> nat \<Rightarrow> (index_entry \<times> nat) result" where
  "sst_decode_index_entry crc bs offset limit =
     rbind (sst_checked_add offset SST_INDEX_PREFIX_LEN offset) (\<lambda>prefix_end.
     if prefix_end > limit \<or> prefix_end > length bs then Inl (Corruption offset)
     else let prefix = seg offset prefix_end bs;
              key_len = read_u32 (seg 0 4 prefix) in
       if key_len > MAX_KEY_BYTES \<or> prefix ! 5 \<noteq> SST_INDEX_VERSION \<or> seg 6 8 prefix \<noteq> replicate 2 0
       then Inl (Corruption offset)
       else rbind (entry_kind_decode (prefix ! 4) (offset + 4)) (\<lambda>kind.
         rbind (sst_checked_add prefix_end key_len offset) (\<lambda>key_end.
         rbind (sst_checked_add key_end 4 offset) (\<lambda>entry_end.
         if entry_end > limit \<or> entry_end > length bs then Inl (Corruption offset)
         else if unat (crc (seg offset key_end bs)) \<noteq> read_u32 (seg key_end entry_end bs)
         then Inl (Corruption key_end)
         else Inr (\<lparr>ix_key = seg prefix_end key_end bs, ix_sequence = read_u64 (seg 8 16 prefix),
                    ix_kind = kind, ix_record_offset = read_u64 (seg 16 24 prefix)\<rparr>,
                   entry_end)))))"

lemma sst_decode_record_next:
  "sst_decode_record crc bs off limit = Inr (k, e, next) \<Longrightarrow> off < next \<and> next \<le> limit"
  by (auto simp: sst_decode_record_def sst_checked_add_def Let_def result_iff SST_RECORD_HEADER_LEN_def
      split: if_splits)

lemma sst_decode_index_next:
  "sst_decode_index_entry crc bs off limit = Inr (e, next) \<Longrightarrow> off < next \<and> next \<le> limit"
  by (auto simp: sst_decode_index_entry_def sst_checked_add_def Let_def result_iff
      SST_INDEX_PREFIX_LEN_def split: if_splits)


subsection \<open>Opening\<close>

text \<open>The two loops of \<open>open\<close>; \<open>prev\<close> is the last key read.\<close>

function sst_read_records ::
    "(bytes \<Rightarrow> 32 word) \<Rightarrow> bytes \<Rightarrow> nat \<Rightarrow> nat \<Rightarrow> bytes option \<Rightarrow>
       ((bytes \<times> versioned_entry \<times> nat) list \<times> nat) result" where
  "sst_read_records crc bs offset index_start prev =
     (if offset < index_start then
        rbind (sst_decode_record crc bs offset index_start) (\<lambda>(key, e, next).
          if (case prev of None \<Rightarrow> False | Some p \<Rightarrow> p \<ge> key) then Inl (Corruption offset)
          else rbind (sst_read_records crc bs next index_start (Some key)) (\<lambda>(rest, final).
            Inr ((key, e, offset) # rest, final)))
      else Inr ([], offset))"
  by pat_completeness auto
termination
  by (relation "measure (\<lambda>(_, _, offset, index_start, _). index_start - offset)")
     (auto dest: sst_decode_record_next)

declare sst_read_records.simps [simp del]

function sst_read_index ::
    "(bytes \<Rightarrow> 32 word) \<Rightarrow> bytes \<Rightarrow> nat \<Rightarrow> nat \<Rightarrow> bytes option \<Rightarrow> (index_entry list \<times> nat) result" where
  "sst_read_index crc bs offset footer_start prev =
     (if offset < footer_start then
        rbind (sst_decode_index_entry crc bs offset footer_start) (\<lambda>(e, next).
          if (case prev of None \<Rightarrow> False | Some p \<Rightarrow> p \<ge> ix_key e) then Inl (Corruption offset)
          else rbind (sst_read_index crc bs next footer_start (Some (ix_key e))) (\<lambda>(rest, final).
            Inr (e # rest, final)))
      else Inr ([], offset))"
  by pat_completeness auto
termination
  by (relation "measure (\<lambda>(_, _, offset, footer_start, _). footer_start - offset)")
     (auto dest: sst_decode_index_next)

declare sst_read_index.simps [simp del]

definition sst_check_pair :: "(bytes \<times> versioned_entry \<times> nat) \<times> index_entry \<Rightarrow> unit result" where
  "sst_check_pair p =
     (case p of ((key, e, record_offset), ix) \<Rightarrow>
        if key \<noteq> ix_key ix \<or> ve_sequence e \<noteq> ix_sequence ix \<or> record_offset \<noteq> ix_record_offset ix \<or>
           entry_kind_of e \<noteq> ix_kind ix
        then Inl (Corruption (ix_record_offset ix)) else Inr ())"

definition sst_open :: "(bytes \<Rightarrow> 32 word) \<Rightarrow> bytes option \<Rightarrow> sstable_descriptor \<Rightarrow> sstable result" where
  "sst_open crc existing d =
     rbind (ok_or existing (Io NotFound)) (\<lambda>bs.
     rbind (ensure (length bs = sd_file_bytes d) (Corruption 0)) (\<lambda>_.
     rbind (ensure (\<not> length bs < SSTABLE_HEADER_LEN + SSTABLE_FOOTER_LEN) (Corruption 0)) (\<lambda>_.
     rbind (sst_parse_header crc (take SSTABLE_HEADER_LEN bs)) (\<lambda>h.
     rbind (ensure (sh_table_id h = sd_table_id d \<and> sh_entry_count h = sd_entry_count d) (Corruption 0)) (\<lambda>_.
     let footer_start = sh_footer_offset h in
     rbind (ok_or (checked_add64 footer_start SSTABLE_FOOTER_LEN) (Corruption footer_start)) (\<lambda>footer_end.
     rbind (ensure (footer_end = length bs) (Corruption footer_start)) (\<lambda>_.
     rbind (sst_parse_footer crc (seg footer_start footer_end bs) footer_start) (\<lambda>f.
     rbind (ensure (sf_format_version f = sh_format_version h \<and> sf_table_id f = sh_table_id h \<and>
              sf_entry_count f = sh_entry_count h \<and> sf_index_offset f = sh_index_offset h \<and>
              sf_footer_offset f = sh_footer_offset h \<and>
              sf_durable_sequence f = sd_durable_sequence d) (Corruption footer_start)) (\<lambda>_.
     rbind (ensure (unat (crc (take footer_start bs)) = sf_whole_crc f) (Corruption (footer_start + 56))) (\<lambda>_.
     let data_start = sh_data_offset h; index_start = sh_index_offset h in
     rbind (ensure (\<not> (index_start > footer_start \<or> index_start < data_start)) (Corruption 0)) (\<lambda>_.
     rbind (if sh_format_version h = SST_LEGACY_VERSION
            then if data_start \<noteq> SSTABLE_HEADER_LEN then Inl (Corruption 32) else Inr None
            else if data_start \<le> SSTABLE_HEADER_LEN then Inl (Corruption 32)
            else rmap Some (bloom_decode crc (seg SSTABLE_HEADER_LEN data_start bs) SSTABLE_HEADER_LEN
                              (sh_entry_count h))) (\<lambda>bloom.
     rbind (sst_read_records crc bs data_start index_start None) (\<lambda>(records, off1).
     rbind (ensure (off1 = index_start \<and> length records = sh_entry_count h) (Corruption index_start)) (\<lambda>_.
     rbind (sst_read_index crc bs index_start footer_start None) (\<lambda>(index, off2).
     rbind (ensure (off2 = footer_start \<and> length index = sh_entry_count h) (Corruption footer_start)) (\<lambda>_.
     rbind (rfold (\<lambda>_ p. sst_check_pair p) () (zip records index)) (\<lambda>_.
     rbind (ensure (index \<noteq> []) (Corruption 0)) (\<lambda>_.
     rbind (ensure (ix_key (hd index) = sd_smallest_key d \<and> ix_key (last index) = sd_largest_key d)
              (Corruption 0)) (\<lambda>_.
     rbind (ensure (\<not> fold max (map ix_sequence index) 0 > sd_durable_sequence d) (Corruption 0)) (\<lambda>_.
     rbind (ensure (case bloom of None \<Rightarrow> True
                    | Some flt \<Rightarrow> list_all (\<lambda>e. bloom_may_contain flt (ix_key e)) index)
              (Corruption SSTABLE_HEADER_LEN)) (\<lambda>_.
     Inr \<lparr>st_descriptor = d, st_bytes = bs, st_index = index, st_bloom = bloom\<rparr>)))))))))))))))))))))"


subsection \<open>Reading\<close>

definition sst_get :: "(bytes \<Rightarrow> 32 word) \<Rightarrow> sstable \<Rightarrow> bytes \<Rightarrow> versioned_entry option result" where
  "sst_get crc t key =
     (if key < sd_smallest_key (st_descriptor t) \<or> key > sd_largest_key (st_descriptor t) \<or>
         (case st_bloom t of None \<Rightarrow> False | Some flt \<Rightarrow> \<not> bloom_may_contain flt key)
      then Inr None
      else case List.find (\<lambda>e. ix_key e = key) (st_index t) of
        None \<Rightarrow> Inr None
      | Some e \<Rightarrow>
          rbind (sst_decode_record crc (st_bytes t) (ix_record_offset e) (length (st_bytes t)))
            (\<lambda>(_, decoded, _). Inr (Some decoded)))"

fun sst_overlay_entries ::
    "(bytes \<Rightarrow> 32 word) \<Rightarrow> bytes \<Rightarrow> bytes \<Rightarrow> bytes option \<Rightarrow> index_entry list \<Rightarrow> entry_map \<Rightarrow> nat \<Rightarrow>
       (nat \<times> entry_map) result" where
  "sst_overlay_entries crc bs start stop [] visible decoded_records = Inr (decoded_records, visible)"
| "sst_overlay_entries crc bs start stop (e # es) visible decoded_records =
     (if ix_key e < start then sst_overlay_entries crc bs start stop es visible decoded_records
      else if (case stop of None \<Rightarrow> False | Some s \<Rightarrow> ix_key e \<ge> s) then Inr (decoded_records, visible)
      else rbind (sst_decode_record crc bs (ix_record_offset e) (length bs)) (\<lambda>(key, decoded, _).
        sst_overlay_entries crc bs start stop es (overlay_entry (key, decoded) visible)
          (saturating_add64 decoded_records 1)))"

definition sst_overlay_range ::
    "(bytes \<Rightarrow> 32 word) \<Rightarrow> sstable \<Rightarrow> bytes \<Rightarrow> bytes option \<Rightarrow> entry_map \<Rightarrow> (nat \<times> entry_map) result" where
  "sst_overlay_range crc t start stop visible =
     sst_overlay_entries crc (st_bytes t) start stop (st_index t) visible 0"


subsection \<open>Creating\<close>

fun sst_encode_records ::
    "(bytes \<Rightarrow> 32 word) \<Rightarrow> (bytes \<times> versioned_entry) list \<Rightarrow> nat \<Rightarrow> (bytes \<times> nat list) result" where
  "sst_encode_records crc [] offset = Inr ([], [])"
| "sst_encode_records crc ((key, e) # es) offset =
     rbind (sst_validate_entry_bounds key (ve_value e)) (\<lambda>_.
     rbind (ok_or (try_u64 offset) (Corruption 0)) (\<lambda>record_offset.
     rbind (sst_encode_record crc key e) (\<lambda>bs.
     rbind (sst_encode_records crc es (offset + length bs)) (\<lambda>(rest, offsets).
     Inr (bs @ rest, record_offset # offsets)))))"

fun sst_encode_index ::
    "(bytes \<Rightarrow> 32 word) \<Rightarrow> ((bytes \<times> versioned_entry) \<times> nat) list \<Rightarrow> bytes result" where
  "sst_encode_index crc [] = Inr []"
| "sst_encode_index crc (((key, e), record_offset) # es) =
     rbind (sst_encode_index_entry crc key e record_offset) (\<lambda>bs.
     rbind (sst_encode_index crc es) (\<lambda>rest. Inr (bs @ rest)))"

definition sst_build ::
    "(bytes \<Rightarrow> 32 word) \<Rightarrow> nat \<Rightarrow> nat \<Rightarrow> nat \<Rightarrow> entry_map \<Rightarrow> nat \<Rightarrow> (bytes \<times> sstable_descriptor) result" where
  "sst_build crc table_id level durable_sequence m format_version =
     (if m = om_empty then Inl (Corruption 0)
      else if format_version \<noteq> SST_LEGACY_VERSION \<and> format_version \<noteq> SST_FORMAT_VERSION
      then Inl (Corruption 0)
      else rbind (ok_or (try_u64 (om_size m)) (Corruption 0)) (\<lambda>entry_count.
        rbind (if format_version = SST_FORMAT_VERSION
               then rbind (bloom_build (om_keys m) (om_size m)) (bloom_encode crc)
               else Inr []) (\<lambda>bloom.
        rbind (ok_or (try_u64 (SSTABLE_HEADER_LEN + length bloom)) (Corruption 0)) (\<lambda>data_offset.
        rbind (sst_encode_records crc (entries m) data_offset) (\<lambda>(data, record_offsets).
        rbind (ok_or (try_u64 (data_offset + length data)) (Corruption 0)) (\<lambda>index_offset.
        rbind (sst_encode_index crc (zip (entries m) record_offsets)) (\<lambda>index.
        rbind (ok_or (try_u64 (index_offset + length index)) (Corruption 0)) (\<lambda>footer_offset.
        rbind (ok_or (checked_add64 footer_offset SSTABLE_FOOTER_LEN) (Corruption 0)) (\<lambda>file_bytes.
        let header = sst_encode_header crc format_version table_id entry_count data_offset
                       index_offset footer_offset;
            prefix = header @ bloom @ data @ index;
            footer = sst_encode_footer crc format_version table_id entry_count index_offset
                       footer_offset durable_sequence (crc prefix)
        in Inr (prefix @ footer,
                \<lparr>sd_table_id = table_id, sd_level = level, sd_file_bytes = file_bytes,
                 sd_entry_count = entry_count, sd_durable_sequence = durable_sequence,
                 sd_smallest_key = hd (om_keys m), sd_largest_key = last (om_keys m)\<rparr>))))))))))"

definition sst_create_new_with_format ::
    "(bytes \<Rightarrow> 32 word) \<Rightarrow> disk \<Rightarrow> nat \<Rightarrow> nat \<Rightarrow> nat \<Rightarrow> entry_map \<Rightarrow> nat \<Rightarrow> sstable result \<times> disk" where
  "sst_create_new_with_format crc d table_id level durable_sequence m format_version =
     (case sst_build crc table_id level durable_sequence m format_version of
        Inl e \<Rightarrow> (Inl e, d)
      | Inr (bs, descriptor) \<Rightarrow>
          (let name = sst_file_name table_id in
           case disk_create_new name bs d of
             (Inl e, d') \<Rightarrow> (Inl e, d')
           | (Inr _, d') \<Rightarrow> (sst_open crc (disk_read d' name) descriptor, d')))"

definition sst_create_new ::
    "(bytes \<Rightarrow> 32 word) \<Rightarrow> disk \<Rightarrow> nat \<Rightarrow> nat \<Rightarrow> entry_map \<Rightarrow> sstable result \<times> disk" where
  "sst_create_new crc d table_id durable_sequence m =
     sst_create_new_with_format crc d table_id 0 durable_sequence m SST_FORMAT_VERSION"

definition sst_create_new_at_level ::
    "(bytes \<Rightarrow> 32 word) \<Rightarrow> disk \<Rightarrow> nat \<Rightarrow> nat \<Rightarrow> nat \<Rightarrow> entry_map \<Rightarrow> sstable result \<times> disk" where
  "sst_create_new_at_level crc d table_id level durable_sequence m =
     sst_create_new_with_format crc d table_id level durable_sequence m SST_FORMAT_VERSION"


subsection \<open>Record round trips\<close>

definition entry_wf :: "bytes \<Rightarrow> versioned_entry \<Rightarrow> bool" where
  "entry_wf key e \<longleftrightarrow> length key \<le> MAX_KEY_BYTES \<and>
     (\<forall>v. ve_value e = Some v \<longrightarrow> length v \<le> MAX_VALUE_BYTES) \<and> ve_sequence e \<le> u64_max"

definition value_bytes :: "versioned_entry \<Rightarrow> bytes" where
  "value_bytes e = (case ve_value e of None \<Rightarrow> [] | Some v \<Rightarrow> v)"

definition sst_record_bytes :: "(bytes \<Rightarrow> 32 word) \<Rightarrow> bytes \<Rightarrow> versioned_entry \<Rightarrow> bytes" where
  "sst_record_bytes crc key e =
     (let h24 = frame24 SST_RECORD_MAGIC 1 (entry_kind_encoded (entry_kind_of e)) (ve_sequence e)
                  (length key) (length (value_bytes e));
          body = h24 @ crc_field (crc h24) @ key @ value_bytes e
      in body @ crc_field (crc body))"

lemma length_sst_record_bytes [simp]:
  "length (sst_record_bytes crc key e) = 32 + length key + length (value_bytes e)"
  by (simp add: sst_record_bytes_def Let_def)

lemma entry_wf_bounds:
  assumes "entry_wf key e"
  shows "length key \<le> 4096" "length (value_bytes e) \<le> 1048576"
    "length key < 4294967296" "length (value_bytes e) < 4294967296"
proof -
  show "length key \<le> 4096" "length (value_bytes e) \<le> 1048576"
    using assms by (auto simp: entry_wf_def value_bytes_def MAX_KEY_BYTES_def MAX_VALUE_BYTES_def
        split: option.splits)
  then show "length key < 4294967296" "length (value_bytes e) < 4294967296" by linarith+
qed

lemma sst_encode_record_eq:
  "entry_wf key e \<Longrightarrow> sst_encode_record crc key e = Inr (sst_record_bytes crc key e)"
  using entry_wf_bounds [of key e]
  by (simp add: sst_encode_record_def sst_record_bytes_def frame24_def Let_def try_u32_def
      checked_add64_def SST_RECORD_HEADER_LEN_def SST_RECORD_VERSION_def u64_max_def value_bytes_def)

lemma entry_kind_roundtrip [simp]: "entry_kind_decode (entry_kind_encoded k) off = Inr k"
  by (cases k) (simp_all add: entry_kind_decode_def)

lemma zero_bytes2: "replicate 2 0 = le_bytes 2 0"
  by (simp add: numeral_2_eq_2)

text \<open>Decoding at the start of an encoded record reads it back, whatever follows.\<close>

lemma sst_decode_encoded:
  assumes wf: "entry_wf key e" and bs: "bs = a @ sst_record_bytes crc key e @ b"
    and lim: "length a + length (sst_record_bytes crc key e) \<le> limit" "limit \<le> length bs" "length bs \<le> u64_max"
  shows "sst_decode_record crc bs (length a) limit =
    Inr (key, e, length a + length (sst_record_bytes crc key e))"
proof -
  let ?n = "length a" and ?kl = "length key" and ?vl = "length (value_bytes e)"
  let ?h24 = "frame24 SST_RECORD_MAGIC 1 (entry_kind_encoded (entry_kind_of e)) (ve_sequence e) ?kl ?vl"
  let ?body = "?h24 @ crc_field (crc ?h24) @ key @ value_bytes e"
  have rec: "sst_record_bytes crc key e = ?h24 @ crc_field (crc ?h24) @ key @ value_bytes e @ crc_field (crc ?body)"
    by (simp add: sst_record_bytes_def Let_def)
  have parts: "seg ?n (?n + 28) bs = ?h24 @ crc_field (crc ?h24)"
    "seg (?n + 28) (?n + 28 + ?kl) bs = key"
    "seg (?n + 28 + ?kl) (?n + 28 + ?kl + ?vl) bs = value_bytes e"
    "seg ?n (?n + 28 + ?kl + ?vl) bs = ?body"
    "seg (?n + 28 + ?kl + ?vl) (?n + 28 + ?kl + ?vl + 4) bs = crc_field (crc ?body)"
    unfolding bs rec by (simp_all add: seg_after [of a, unfolded add.assoc] seg_after0 layout add.assoc)
  note fields = frame24_fields [OF length_sst_magic(3)]
  have magic4: "take 4 ?h24 = SST_RECORD_MAGIC"
    using frame24_fields(1) [OF length_sst_magic(3), of 1 _ _ _ _ "[]"] by simp
  define p1 p2 p3 p4 where "p1 = ?n + 28" and "p2 = p1 + ?kl" and "p3 = p2 + ?vl" and "p4 = p3 + 4"
  note p = p1_def p2_def p3_def p4_def
  have bounds: "p1 \<le> limit" "p2 \<le> limit" "p3 \<le> limit" "p4 \<le> limit" using lim(1) by (simp_all add: p)
  have adds: "sst_checked_add ?n 28 ?n = Inr p1" "sst_checked_add p1 ?kl ?n = Inr p2"
    "sst_checked_add p2 ?vl ?n = Inr p3" "sst_checked_add p3 4 ?n = Inr p4"
    using bounds lim(2,3) by (simp_all add: sst_checked_add_def checked_add64_def p)
  note parts' = parts [folded p1_def, folded p2_def, folded p3_def, folded p4_def]
  have val: "ve_value e = (case entry_kind_of e of EPut \<Rightarrow> Some (value_bytes e) | EDelete \<Rightarrow> None)"
    "entry_kind_of e = EDelete \<Longrightarrow> ?vl = 0"
    by (auto simp: entry_kind_of_def value_bytes_def split: option.splits if_splits)
  have crc24: "seg 24 28 (?h24 @ crc_field (crc ?h24)) = crc_field (crc ?h24)"
    by (simp add: layout)
  note wfb = entry_wf_bounds [OF wf]
  have q: "read_u64 (le_bytes 8 (ve_sequence e)) = ve_sequence e"
    using wf by (simp add: entry_wf_def del: le_bytes.simps)
  have decode: "sst_decode_record crc bs ?n limit = Inr (key,
      \<lparr>ve_sequence = ve_sequence e, ve_value = (case entry_kind_of e of EPut \<Rightarrow> Some (value_bytes e) | EDelete \<Rightarrow> None)\<rparr>,
      p4)"
    unfolding sst_decode_record_def SST_RECORD_HEADER_LEN_def adds rbind_simps parts' Let_def fields
      crc24 zero_bytes2 SST_RECORD_VERSION_def
    using bounds lim(2) wfb val(2) q
    by (simp add: parts' adds magic4 MAX_KEY_BYTES_def MAX_VALUE_BYTES_def del: le_bytes.simps
        split: entry_kind.split)
  have "p4 = ?n + length (sst_record_bytes crc key e)" by (simp add: p)
  moreover have "\<lparr>ve_sequence = ve_sequence e, ve_value = (case entry_kind_of e of EPut \<Rightarrow> Some (value_bytes e) | EDelete \<Rightarrow> None)\<rparr> = e"
    by (simp add: val(1) [symmetric])
  ultimately show ?thesis using decode by simp
qed


text \<open>A larger limit inside the file does not change a successful decode.\<close>

lemma sst_decode_record_limit:
  "sst_decode_record crc bs off limit = Inr x \<Longrightarrow> limit \<le> limit' \<Longrightarrow>
     sst_decode_record crc bs off limit' = Inr x"
  unfolding sst_decode_record_def Let_def
  by (erule rbind_mono, split if_splits, simp, simp split: if_splits, erule rbind_mono,
      auto split: if_splits elim!: rbind_mono)

definition sst_index_bytes :: "(bytes \<Rightarrow> 32 word) \<Rightarrow> bytes \<Rightarrow> versioned_entry \<Rightarrow> nat \<Rightarrow> bytes" where
  "sst_index_bytes crc key e off =
     (let body = le_bytes 4 (length key) @ [entry_kind_encoded (entry_kind_of e), 1] @
               le_bytes 2 0 @ le_bytes 8 (ve_sequence e) @ le_bytes 8 off @ key
      in body @ crc_field (crc body))"

lemma length_sst_index_bytes [simp]: "length (sst_index_bytes crc key e off) = 28 + length key"
  by (simp add: sst_index_bytes_def Let_def)

lemma sst_encode_index_eq:
  "entry_wf key e \<Longrightarrow> sst_encode_index_entry crc key e off = Inr (sst_index_bytes crc key e off)"
  using entry_wf_bounds [of key e]
  by (simp add: sst_encode_index_entry_def sst_index_bytes_def Let_def try_u32_def
      checked_add64_def SST_INDEX_PREFIX_LEN_def SST_INDEX_VERSION_def u64_max_def)

lemma sst_decode_index_encoded:
  assumes wf: "entry_wf key e" "off \<le> u64_max" and bs: "bs = a @ sst_index_bytes crc key e off @ b"
    and lim: "length a + length (sst_index_bytes crc key e off) \<le> limit" "limit \<le> length bs"
      "length bs \<le> u64_max"
  shows "sst_decode_index_entry crc bs (length a) limit =
    Inr (\<lparr>ix_key = key, ix_sequence = ve_sequence e, ix_kind = entry_kind_of e, ix_record_offset = off\<rparr>,
         length a + length (sst_index_bytes crc key e off))"
proof -
  let ?n = "length a" and ?kl = "length key"
  define pre where "pre = le_bytes 4 ?kl @ [entry_kind_encoded (entry_kind_of e), 1] @ le_bytes 2 0 @
    le_bytes 8 (ve_sequence e) @ le_bytes 8 off"
  have lpre: "length pre = 24" by (simp add: pre_def)
  have rec: "sst_index_bytes crc key e off = pre @ key @ crc_field (crc (pre @ key))"
    by (simp add: sst_index_bytes_def Let_def pre_def)
  define p1 p2 p3 where "p1 = ?n + 24" and "p2 = p1 + ?kl" and "p3 = p2 + 4"
  note p = p1_def p2_def p3_def
  have parts: "seg ?n p1 bs = pre" "seg p1 p2 bs = key" "seg ?n p2 bs = pre @ key"
    "seg p2 p3 bs = crc_field (crc (pre @ key))"
    unfolding bs rec p
    by (simp_all add: seg_after [of a, unfolded add.assoc] seg_after0 layout add.assoc lpre)
    have fields: "seg 0 4 pre = le_bytes 4 ?kl" "pre ! 4 = entry_kind_encoded (entry_kind_of e)"
    "pre ! 5 = 1" "seg 6 8 pre = le_bytes 2 0" "seg 8 16 pre = le_bytes 8 (ve_sequence e)"
    "seg 16 24 pre = le_bytes 8 off"
    by (simp_all add: pre_def layout nth_append del: le_bytes.simps)
  have bounds: "p1 \<le> limit" "p2 \<le> limit" "p3 \<le> limit" using lim(1) by (simp_all add: p)
  have adds: "sst_checked_add ?n 24 ?n = Inr p1" "sst_checked_add p1 ?kl ?n = Inr p2"
    "sst_checked_add p2 4 ?n = Inr p3"
    using bounds lim(2,3) by (simp_all add: sst_checked_add_def checked_add64_def p)
  have vals: "read_u64 (le_bytes 8 (ve_sequence e)) = ve_sequence e" "read_u64 (le_bytes 8 off) = off"
    using wf by (simp_all add: entry_wf_def del: le_bytes.simps)
  have "sst_decode_index_entry crc bs ?n limit =
    Inr (\<lparr>ix_key = key, ix_sequence = ve_sequence e, ix_kind = entry_kind_of e, ix_record_offset = off\<rparr>, p3)"
    unfolding sst_decode_index_entry_def SST_INDEX_PREFIX_LEN_def adds rbind_simps parts Let_def fields
      zero_bytes2 SST_INDEX_VERSION_def
    using bounds lim(2) entry_wf_bounds [OF wf(1)] vals
    by (simp add: parts adds MAX_KEY_BYTES_def del: le_bytes.simps)
  moreover have "p3 = ?n + length (sst_index_bytes crc key e off)" by (simp add: p)
  ultimately show ?thesis by simp
qed


subsection \<open>The data and index sections\<close>

fun sst_data :: "(bytes \<Rightarrow> 32 word) \<Rightarrow> (bytes \<times> versioned_entry) list \<Rightarrow> bytes" where
  "sst_data crc [] = []"
| "sst_data crc ((k, e) # xs) = sst_record_bytes crc k e @ sst_data crc xs"

fun sst_rows :: "(bytes \<Rightarrow> 32 word) \<Rightarrow> nat \<Rightarrow> (bytes \<times> versioned_entry) list \<Rightarrow>
    (bytes \<times> versioned_entry \<times> nat) list" where
  "sst_rows crc off [] = []"
| "sst_rows crc off ((k, e) # xs) =
     (k, e, off) # sst_rows crc (off + length (sst_record_bytes crc k e)) xs"

fun sst_index_data :: "(bytes \<Rightarrow> 32 word) \<Rightarrow> (bytes \<times> versioned_entry \<times> nat) list \<Rightarrow> bytes" where
  "sst_index_data crc [] = []"
| "sst_index_data crc ((k, e, off) # rows) = sst_index_bytes crc k e off @ sst_index_data crc rows"

definition index_of_row :: "bytes \<times> versioned_entry \<times> nat \<Rightarrow> index_entry" where
  "index_of_row r = (case r of (k, e, off) \<Rightarrow>
     \<lparr>ix_key = k, ix_sequence = ve_sequence e, ix_kind = entry_kind_of e, ix_record_offset = off\<rparr>)"

lemma length_sst_rows [simp]: "length (sst_rows crc off xs) = length xs"
  by (induction crc off xs rule: sst_rows.induct) simp_all

lemma map_key_sst_rows: "map (\<lambda>(k, e, off). (k, e)) (sst_rows crc off xs) = xs"
  by (induction crc off xs rule: sst_rows.induct) simp_all

lemma sst_rows_offset: "(k, e, o') \<in> set (sst_rows crc off xs) \<Longrightarrow> off \<le> o' \<and> o' \<le> off + length (sst_data crc xs)"
  by (induction crc off xs rule: sst_rows.induct) (fastforce simp del: length_sst_record_bytes)+

lemma sst_encode_records_eq:
  assumes "\<forall>(k, e) \<in> set xs. entry_wf k e" "off + length (sst_data crc xs) \<le> u64_max"
  shows "sst_encode_records crc xs off =
    Inr (sst_data crc xs, map (\<lambda>(k, e, off). off) (sst_rows crc off xs))"
  using assms
proof (induction xs arbitrary: off)
  case Nil
  show ?case by simp
next
  case (Cons x xs)
  obtain k e where x: "x = (k, e)" by force
  have wf: "entry_wf k e" using Cons.prems(1) x by simp
  then have "sst_validate_entry_bounds k (ve_value e) = Inr ()"
    by (auto simp: sst_validate_entry_bounds_def entry_wf_def split: option.splits)
  then show ?case
    using Cons.IH [of "off + length (sst_record_bytes crc k e)"] Cons.prems wf x
    by (simp add: sst_encode_record_eq try_u64_def)
qed

lemma sst_encode_index_rows:
  assumes "\<forall>(k, e, off) \<in> set rows. entry_wf k e"
  shows "sst_encode_index crc (map (\<lambda>(k, e, off). ((k, e), off)) rows) = Inr (sst_index_data crc rows)"
  using assms
  by (induction crc rows rule: sst_index_data.induct) (auto simp: sst_encode_index_eq)

lemma sst_read_data:
  assumes "\<forall>(k, e) \<in> set xs. entry_wf k e" "al_ord xs" "length bs \<le> u64_max"
    and "bs = a @ sst_data crc xs @ b" "\<forall>p. prev = Some p \<longrightarrow> (\<forall>(k, e) \<in> set xs. p < k)"
  shows "sst_read_records crc bs (length a) (length a + length (sst_data crc xs)) prev =
    Inr (sst_rows crc (length a) xs, length a + length (sst_data crc xs))"
  using assms
proof (induction xs arbitrary: a prev)
  case Nil
  then show ?case by (simp add: sst_read_records.simps)
next
  case (Cons x xs)
  obtain k e where x: "x = (k, e)" by force
  let ?rec = "sst_record_bytes crc k e"
  let ?limit = "length a + length (sst_data crc (x # xs))"
  have ne: "length a < ?limit" by (simp add: x)
  have decode: "sst_decode_record crc bs (length a) ?limit = Inr (k, e, length a + length ?rec)"
    using Cons.prems x
    by (intro sst_decode_encoded [where b = "sst_data crc xs @ b"]) (simp_all del: length_sst_record_bytes)
  have prev: "\<not> (case prev of None \<Rightarrow> False | Some p \<Rightarrow> p \<ge> k)"
    using Cons.prems(5) x by (auto split: option.splits)
  have "sst_read_records crc bs (length (a @ ?rec)) (length (a @ ?rec) + length (sst_data crc xs)) (Some k) =
    Inr (sst_rows crc (length (a @ ?rec)) xs, length (a @ ?rec) + length (sst_data crc xs))"
    using Cons.prems x by (intro Cons.IH) (auto simp del: length_sst_record_bytes)
  then have rest: "sst_read_records crc bs (length a + length ?rec) ?limit (Some k) =
    Inr (sst_rows crc (length a + length ?rec) xs, ?limit)"
    by (simp add: x add.assoc del: length_sst_record_bytes)
  show ?case
    by (subst sst_read_records.simps) (simp only: ne if_True decode rbind_simps prod.case prev if_False rest,
      simp add: x)
qed

lemma sst_read_index_data:
  assumes "\<forall>(k, e, off) \<in> set rows. entry_wf k e \<and> off \<le> u64_max"
    and "sorted_wrt (<) (map fst rows)" "length bs \<le> u64_max"
    and "bs = a @ sst_index_data crc rows @ b" "\<forall>p. prev = Some p \<longrightarrow> (\<forall>r \<in> set rows. p < fst r)"
  shows "sst_read_index crc bs (length a) (length a + length (sst_index_data crc rows)) prev =
    Inr (map index_of_row rows, length a + length (sst_index_data crc rows))"
  using assms
proof (induction rows arbitrary: a prev)
  case Nil
  then show ?case by (simp add: sst_read_index.simps)
next
  case (Cons r rows)
  obtain k e off where r: "r = (k, e, off)" by (cases r)
  let ?rec = "sst_index_bytes crc k e off"
  let ?limit = "length a + length (sst_index_data crc (r # rows))"
  have ne: "length a < ?limit" by (simp add: r)
  have decode: "sst_decode_index_entry crc bs (length a) ?limit = Inr (index_of_row r, length a + length ?rec)"
    unfolding r index_of_row_def prod.case using Cons.prems r
    by (intro sst_decode_index_encoded [where b = "sst_index_data crc rows @ b"])
       (simp_all del: length_sst_index_bytes)
  have key: "ix_key (index_of_row r) = k" by (simp add: r index_of_row_def)
  have prev: "\<not> (case prev of None \<Rightarrow> False | Some p \<Rightarrow> p \<ge> k)"
    using Cons.prems(5) r by (auto split: option.splits)
  have "sst_read_index crc bs (length (a @ ?rec)) (length (a @ ?rec) + length (sst_index_data crc rows)) (Some k) =
    Inr (map index_of_row rows, length (a @ ?rec) + length (sst_index_data crc rows))"
    using Cons.prems r by (intro Cons.IH) (auto simp del: length_sst_index_bytes)
  then have rest: "sst_read_index crc bs (length a + length ?rec) ?limit (Some k) =
    Inr (map index_of_row rows, ?limit)"
    by (simp add: r add.assoc del: length_sst_index_bytes)
  show ?case
    by (subst sst_read_index.simps) (simp only: ne if_True decode rbind_simps prod.case key prev if_False rest
      list.map)
qed



end
