(* ===== verification/Manifest.thy ===== *)
theory Manifest
  imports SsTable
begin

text \<open>
  Version sets and their publication (\<open>crates/db-storage-lsm/src/manifest.rs\<close>): immutable manifest
  snapshots in five format versions, and the \<open>CURRENT\<close> file of two mirrored, checksummed slots, of
  which each publication rewrites the one its generation selects.
\<close>

subsection \<open>Constants and data\<close>

definition CURRENT_FILE_NAME :: bytes where "CURRENT_FILE_NAME = ascii ''CURRENT''"
definition CURRENT_SLOT_BYTES :: nat where "CURRENT_SLOT_BYTES = 4096"
definition CURRENT_FILE_BYTES :: nat where "CURRENT_FILE_BYTES = CURRENT_SLOT_BYTES * 2"
definition CURRENT_MAGIC :: bytes where "CURRENT_MAGIC = ascii ''DBLSMCUR''"
definition CURRENT_FORMAT_VERSION :: nat where "CURRENT_FORMAT_VERSION = 1"
definition MANIFEST_MAGIC :: bytes where "MANIFEST_MAGIC = ascii ''DBLSMMAN''"
definition MANIFEST_FORMAT_VERSION_V1 :: nat where "MANIFEST_FORMAT_VERSION_V1 = 1"
definition MANIFEST_FORMAT_VERSION_V2 :: nat where "MANIFEST_FORMAT_VERSION_V2 = 2"
definition MANIFEST_FORMAT_VERSION_V3 :: nat where "MANIFEST_FORMAT_VERSION_V3 = 3"
definition MANIFEST_FORMAT_VERSION_V4 :: nat where "MANIFEST_FORMAT_VERSION_V4 = 4"
definition MANIFEST_FORMAT_VERSION :: nat where "MANIFEST_FORMAT_VERSION = 5"
definition MANIFEST_HEADER_LEN_V1 :: nat where "MANIFEST_HEADER_LEN_V1 = 64"
definition MANIFEST_HEADER_LEN_V4 :: nat where "MANIFEST_HEADER_LEN_V4 = 80"
definition MANIFEST_HEADER_LEN :: nat where "MANIFEST_HEADER_LEN = 88"
definition LEGACY_DESCRIPTOR_PREFIX_LEN :: nat where "LEGACY_DESCRIPTOR_PREFIX_LEN = 40"
definition DESCRIPTOR_PREFIX_LEN :: nat where "DESCRIPTOR_PREFIX_LEN = 48"

record version_set =
  vs_current_generation :: nat
  vs_manifest_id :: nat
  vs_durable_sequence :: nat
  vs_tombstone_gc_sequence :: nat
  vs_table_id_high_watermark :: nat
  vs_wal_id :: nat
  vs_wal_first_sequence :: nat
  vs_tables :: "sstable_descriptor list"

record manifest_state =
  mn_durable_sequence :: nat
  mn_tombstone_gc_sequence :: nat
  mn_wal_id :: nat
  mn_wal_first_sequence :: nat
  mn_tables :: "sstable_descriptor list"

record current_slot =
  cs_generation :: nat
  cs_manifest_id :: nat

definition manifest_file_name :: "nat \<Rightarrow> bytes" where
  "manifest_file_name manifest_id = ascii ''MANIFEST-'' @ format_dec 16 manifest_id"

lemma length_manifest_magic [simp]: "length CURRENT_MAGIC = 8" "length MANIFEST_MAGIC = 8"
  by (simp_all add: CURRENT_MAGIC_def MANIFEST_MAGIC_def)


subsection \<open>The CURRENT slots\<close>

definition encode_current_slot :: "(bytes \<Rightarrow> 32 word) \<Rightarrow> nat \<Rightarrow> nat \<Rightarrow> nat \<Rightarrow> bytes" where
  "encode_current_slot crc slot_id generation manifest_id =
     (let b = CURRENT_MAGIC @ le_bytes 2 CURRENT_FORMAT_VERSION @ le_bytes 2 slot_id @ replicate 4 0 @
            le_bytes 8 generation @ le_bytes 8 manifest_id @ replicate (CURRENT_SLOT_BYTES - 36) 0
      in b @ crc_field (crc b))"

definition parse_current_slot :: "(bytes \<Rightarrow> 32 word) \<Rightarrow> bytes \<Rightarrow> nat \<Rightarrow> current_slot result" where
  "parse_current_slot crc bs physical_slot =
     (let base = physical_slot * CURRENT_SLOT_BYTES in
      if length bs \<noteq> CURRENT_SLOT_BYTES \<or> seg 0 8 bs \<noteq> CURRENT_MAGIC then Inl (Corruption base)
      else if read_u16 (seg 8 10 bs) \<noteq> CURRENT_FORMAT_VERSION
      then Inl (UnsupportedVersion FmtCurrent (read_u16 (seg 8 10 bs)) CURRENT_FORMAT_VERSION)
      else if read_u16 (seg 10 12 bs) \<noteq> physical_slot then Inl (Corruption (base + 10))
      else if seg 12 16 bs \<noteq> replicate 4 0 \<or> \<not> list_all (\<lambda>b. b = 0) (seg 32 (CURRENT_SLOT_BYTES - 4) bs)
      then Inl (Corruption (base + 12))
      else if unat (crc (take (CURRENT_SLOT_BYTES - 4) bs)) \<noteq>
              read_u32 (seg (CURRENT_SLOT_BYTES - 4) CURRENT_SLOT_BYTES bs)
      then Inl (Corruption (base + CURRENT_SLOT_BYTES - 4))
      else if read_u64 (seg 24 32 bs) = 0 then Inl (Corruption (base + 24))
      else Inr \<lparr>cs_generation = read_u64 (seg 16 24 bs), cs_manifest_id = read_u64 (seg 24 32 bs)\<rparr>)"

definition read_current :: "(bytes \<Rightarrow> 32 word) \<Rightarrow> bytes option \<Rightarrow> current_slot result" where
  "read_current crc existing =
     rbind (ok_or existing (Io NotFound)) (\<lambda>bs.
       if length bs \<noteq> CURRENT_FILE_BYTES then Inl (Corruption 0)
       else case (ok (parse_current_slot crc (take CURRENT_SLOT_BYTES bs) 0),
                  ok (parse_current_slot crc (drop CURRENT_SLOT_BYTES bs) 1)) of
         (None, None) \<Rightarrow> Inl (Corruption 0)
       | (Some slot, None) \<Rightarrow> Inr slot
       | (None, Some slot) \<Rightarrow> Inr slot
       | (Some left, Some right) \<Rightarrow>
           if cs_generation left = cs_generation right
           then if cs_manifest_id left \<noteq> cs_manifest_id right then Inl (Corruption 0) else Inr left
           else (case (if cs_generation left < cs_generation right then (left, right) else (right, left)) of
             (older, newer) \<Rightarrow>
               if cs_generation newer - cs_generation older \<noteq> 1 then Inl (Corruption 0) else Inr newer))"

definition write_current_slot :: "(bytes \<Rightarrow> 32 word) \<Rightarrow> nat \<Rightarrow> nat \<Rightarrow> disk \<Rightarrow> unit result \<times> disk" where
  "write_current_slot crc generation manifest_id d =
     (let slot_id = generation mod 2 in
      disk_write_at CURRENT_FILE_NAME (slot_id * CURRENT_SLOT_BYTES)
        (encode_current_slot crc slot_id generation manifest_id) d)"


subsection \<open>Table descriptors\<close>

definition encode_descriptor :: "(bytes \<Rightarrow> 32 word) \<Rightarrow> sstable_descriptor \<Rightarrow> bytes result" where
  "encode_descriptor crc t =
     (if sd_level t > 1 then Inl (Corruption 0)
      else if length (sd_smallest_key t) > MAX_KEY_BYTES \<or> length (sd_largest_key t) > MAX_KEY_BYTES
      then Inl (Corruption 0)
      else rbind (ok_or (try_u32 (length (sd_smallest_key t))) (Corruption 0)) (\<lambda>smallest_len.
        rbind (ok_or (try_u32 (length (sd_largest_key t))) (Corruption 0)) (\<lambda>largest_len.
        rbind (ok_or (Option.bind (Option.bind (checked_add64 DESCRIPTOR_PREFIX_LEN (length (sd_smallest_key t)))
                 (\<lambda>len. checked_add64 len (length (sd_largest_key t)))) (\<lambda>len. checked_add64 len 4))
               (Corruption 0)) (\<lambda>_.
        let b = le_bytes 8 (sd_table_id t) @ le_bytes 8 (sd_file_bytes t) @ le_bytes 8 (sd_entry_count t) @
              le_bytes 8 (sd_durable_sequence t) @ le_bytes 4 (sd_level t) @ le_bytes 4 0 @
              le_bytes 4 smallest_len @ le_bytes 4 largest_len @ sd_smallest_key t @ sd_largest_key t
        in Inr (b @ crc_field (crc b))))))"

definition decode_descriptor ::
    "(bytes \<Rightarrow> 32 word) \<Rightarrow> bytes \<Rightarrow> nat \<Rightarrow> nat \<Rightarrow> nat \<Rightarrow> (sstable_descriptor \<times> nat) result" where
  "decode_descriptor crc bs offset limit manifest_format_version =
     (let legacy = manifest_format_version \<le> MANIFEST_FORMAT_VERSION_V2;
          prefix_len = (if legacy then LEGACY_DESCRIPTOR_PREFIX_LEN else DESCRIPTOR_PREFIX_LEN) in
      rbind (ok_or (checked_add64 offset prefix_len) (Corruption offset)) (\<lambda>prefix_end.
      if prefix_end > limit then Inl (Corruption offset)
      else let prefix = seg offset prefix_end bs in
        rbind (if legacy then Inr (0, 32, 36)
               else if read_u32 (seg 36 40 prefix) \<noteq> 0 then Inl (Corruption (offset + 36))
               else Inr (read_u32 (seg 32 36 prefix), 40, 44)) (\<lambda>(level, smallest_off, largest_off).
        let smallest_len = read_u32 (seg smallest_off (smallest_off + 4) prefix);
            largest_len = read_u32 (seg largest_off (largest_off + 4) prefix) in
        if level > 1 then Inl (Corruption (offset + 32))
        else if smallest_len > MAX_KEY_BYTES \<or> largest_len > MAX_KEY_BYTES
        then Inl (Corruption (offset + smallest_off))
        else rbind (ok_or (checked_add64 prefix_end smallest_len) (Corruption offset)) (\<lambda>smallest_end.
          rbind (ok_or (checked_add64 smallest_end largest_len) (Corruption offset)) (\<lambda>largest_end.
          rbind (ok_or (checked_add64 largest_end 4) (Corruption offset)) (\<lambda>descriptor_end.
          if descriptor_end > limit then Inl (Corruption offset)
          else if unat (crc (seg offset largest_end bs)) \<noteq> read_u32 (seg largest_end descriptor_end bs)
          then Inl (Corruption largest_end)
          else let t = \<lparr>sd_table_id = read_u64 (seg 0 8 prefix), sd_level = level,
                        sd_file_bytes = read_u64 (seg 8 16 prefix),
                        sd_entry_count = read_u64 (seg 16 24 prefix),
                        sd_durable_sequence = read_u64 (seg 24 32 prefix),
                        sd_smallest_key = seg prefix_end smallest_end bs,
                        sd_largest_key = seg smallest_end largest_end bs\<rparr> in
            if sd_table_id t = 0 \<or> sd_file_bytes t = 0 \<or> sd_entry_count t = 0 \<or>
               sd_durable_sequence t = 0 \<or> sd_smallest_key t > sd_largest_key t
            then Inl (Corruption offset)
            else Inr (t, descriptor_end)))))))"

fun decode_descriptors ::
    "(bytes \<Rightarrow> 32 word) \<Rightarrow> bytes \<Rightarrow> nat \<Rightarrow> nat \<Rightarrow> nat \<Rightarrow> nat \<Rightarrow> (sstable_descriptor list \<times> nat) result" where
  "decode_descriptors crc bs limit version 0 offset = Inr ([], offset)"
| "decode_descriptors crc bs limit version (Suc n) offset =
     rbind (decode_descriptor crc bs offset limit version) (\<lambda>(t, next).
     rbind (decode_descriptors crc bs limit version n next) (\<lambda>(ts, final). Inr (t # ts, final)))"


subsection \<open>Validation\<close>

fun validate_tables :: "nat \<Rightarrow> nat \<Rightarrow> nat \<Rightarrow> sstable_descriptor list \<Rightarrow> nat result" where
  \<comment> \<open>the loop over the tables; returns the last table id\<close>
  "validate_tables previous_table_id previous_durable level1_tables [] = Inr previous_table_id"
| "validate_tables previous_table_id previous_durable level1_tables (t # ts) =
     (if sd_level t > 1 then Inl (Corruption 0)
      else rbind (if sd_level t = 1
                  then rbind (ok_or (checked_add64 level1_tables 1) (Corruption 0)) (\<lambda>n.
                         if n > 1 then Inl (Corruption 0) else Inr n)
                  else Inr level1_tables) (\<lambda>level1.
        if sd_table_id t \<le> previous_table_id then Inl (Corruption 0)
        else if sd_durable_sequence t \<le> previous_durable then Inl (Corruption 0)
        else validate_tables (sd_table_id t) (sd_durable_sequence t) level1 ts))"

definition validate_version_set ::
    "nat \<Rightarrow> nat \<Rightarrow> nat \<Rightarrow> nat \<Rightarrow> nat \<Rightarrow> sstable_descriptor list \<Rightarrow> unit result" where
  "validate_version_set durable_sequence tombstone_gc_sequence table_id_high_watermark wal_id
       wal_first_sequence tables =
     (if tombstone_gc_sequence > durable_sequence then Inl (Corruption 64)
      else if durable_sequence > 0 \<and> table_id_high_watermark = 0 then Inl (Corruption 72)
      else if wal_id = 0 \<or> wal_first_sequence = 0 then Inl (Corruption 0)
      else if wal_first_sequence > saturating_add64 durable_sequence 1 then Inl (Corruption 0)
      else rbind (validate_tables 0 0 0 tables) (\<lambda>previous_table_id.
        if previous_table_id > table_id_high_watermark then Inl (Corruption 72)
        else let expected = (if tables = [] then 0 else sd_durable_sequence (last tables)) in
          if tables = []
          then if durable_sequence \<noteq> tombstone_gc_sequence then Inl (Corruption 24) else Inr ()
          else if durable_sequence \<noteq> expected then Inl (Corruption 0) else Inr ()))"

definition validate_version :: "version_set \<Rightarrow> unit result" where
  "validate_version v =
     validate_version_set (vs_durable_sequence v) (vs_tombstone_gc_sequence v)
       (vs_table_id_high_watermark v) (vs_wal_id v) (vs_wal_first_sequence v) (vs_tables v)"


subsection \<open>Writing and reading manifests\<close>

definition encode_manifest :: "(bytes \<Rightarrow> 32 word) \<Rightarrow> version_set \<Rightarrow> bytes result" where
  "encode_manifest crc v =
     rbind (validate_version v) (\<lambda>_.
     rbind (rmapM (encode_descriptor crc) (vs_tables v)) (\<lambda>descriptors.
     let body = concat descriptors in
     rbind (ok_or (try_u64 (length body)) (Corruption 0)) (\<lambda>body_len.
     rbind (ok_or (try_u64 (length (vs_tables v))) (Corruption 0)) (\<lambda>table_count.
     let h = MANIFEST_MAGIC @ le_bytes 2 MANIFEST_FORMAT_VERSION @ le_bytes 2 MANIFEST_HEADER_LEN @
           replicate 4 0 @ le_bytes 8 (vs_manifest_id v) @ le_bytes 8 (vs_durable_sequence v) @
           le_bytes 8 table_count @ le_bytes 8 body_len @ le_bytes 8 (vs_wal_id v) @
           le_bytes 8 (vs_wal_first_sequence v) @ le_bytes 8 (vs_tombstone_gc_sequence v) @
           le_bytes 8 (vs_table_id_high_watermark v) @ replicate 4 0;
         bs = h @ crc_field (crc h) @ body
     in Inr (bs @ crc_field (crc bs))))))"

definition write_manifest_new :: "(bytes \<Rightarrow> 32 word) \<Rightarrow> version_set \<Rightarrow> disk \<Rightarrow> unit result \<times> disk" where
  "write_manifest_new crc v d =
     (case encode_manifest crc v of
        Inl e \<Rightarrow> (Inl e, d)
      | Inr bs \<Rightarrow> disk_create_new (manifest_file_name (vs_manifest_id v)) bs d)"

text \<open>The version-dependent header: its length, WAL id, first sequence, tombstone GC sequence and
  table id high watermark.\<close>

definition parse_manifest_header ::
    "(bytes \<Rightarrow> 32 word) \<Rightarrow> bytes \<Rightarrow> nat \<Rightarrow> (nat \<times> nat \<times> nat \<times> nat \<times> nat option) result" where
  "parse_manifest_header crc bs format_version =
     (if format_version = MANIFEST_FORMAT_VERSION_V1 then
        (if read_u16 (seg 10 12 bs) \<noteq> MANIFEST_HEADER_LEN_V1 \<or> seg 12 16 bs \<noteq> replicate 4 0 \<or>
            \<not> list_all (\<lambda>b. b = 0) (seg 48 60 bs) then Inl (Corruption 10)
         else if unat (crc (take 60 bs)) \<noteq> read_u32 (seg 60 64 bs) then Inl (Corruption 60)
         else Inr (MANIFEST_HEADER_LEN_V1, 1, 1, 0, None))
      else if format_version = MANIFEST_FORMAT_VERSION_V2 \<or> format_version = MANIFEST_FORMAT_VERSION_V3 then
        (if length bs < MANIFEST_HEADER_LEN_V4 + 4 \<or> read_u16 (seg 10 12 bs) \<noteq> MANIFEST_HEADER_LEN_V4 \<or>
            seg 12 16 bs \<noteq> replicate 4 0 \<or> \<not> list_all (\<lambda>b. b = 0) (seg 64 76 bs) then Inl (Corruption 10)
         else if unat (crc (take 76 bs)) \<noteq> read_u32 (seg 76 80 bs) then Inl (Corruption 76)
         else Inr (MANIFEST_HEADER_LEN_V4, read_u64 (seg 48 56 bs), read_u64 (seg 56 64 bs), 0, None))
      else if format_version = MANIFEST_FORMAT_VERSION_V4 then
        (if length bs < MANIFEST_HEADER_LEN_V4 + 4 \<or> read_u16 (seg 10 12 bs) \<noteq> MANIFEST_HEADER_LEN_V4 \<or>
            seg 12 16 bs \<noteq> replicate 4 0 \<or> \<not> list_all (\<lambda>b. b = 0) (seg 72 76 bs) then Inl (Corruption 10)
         else if unat (crc (take 76 bs)) \<noteq> read_u32 (seg 76 80 bs) then Inl (Corruption 76)
         else Inr (MANIFEST_HEADER_LEN_V4, read_u64 (seg 48 56 bs), read_u64 (seg 56 64 bs),
                   read_u64 (seg 64 72 bs), None))
      else if format_version = MANIFEST_FORMAT_VERSION then
        (if length bs < MANIFEST_HEADER_LEN + 4 \<or> read_u16 (seg 10 12 bs) \<noteq> MANIFEST_HEADER_LEN \<or>
            seg 12 16 bs \<noteq> replicate 4 0 \<or> \<not> list_all (\<lambda>b. b = 0) (seg 80 84 bs) then Inl (Corruption 10)
         else if unat (crc (take 84 bs)) \<noteq> read_u32 (seg 84 88 bs) then Inl (Corruption 84)
         else Inr (MANIFEST_HEADER_LEN, read_u64 (seg 48 56 bs), read_u64 (seg 56 64 bs),
                   read_u64 (seg 64 72 bs), Some (read_u64 (seg 72 80 bs))))
      else Inl (UnsupportedVersion FmtManifest format_version MANIFEST_FORMAT_VERSION))"

definition read_manifest :: "(bytes \<Rightarrow> 32 word) \<Rightarrow> bytes option \<Rightarrow> nat \<Rightarrow> version_set result" where
  "read_manifest crc existing manifest_id =
     rbind (ok_or existing (Io NotFound)) (\<lambda>bs.
     rbind (ensure (\<not> length bs < MANIFEST_HEADER_LEN_V1 + 4) (Corruption 0)) (\<lambda>_.
     rbind (ensure (seg 0 8 bs = MANIFEST_MAGIC) (Corruption 0)) (\<lambda>_.
     let format_version = read_u16 (seg 8 10 bs) in
     rbind (parse_manifest_header crc bs format_version)
       (\<lambda>(header_len, wid, wal_first, tombstone_gc, encoded_watermark).
     rbind (ensure (read_u64 (seg 16 24 bs) = manifest_id) (Corruption 16)) (\<lambda>_.
     let durable_sequence = read_u64 (seg 24 32 bs);
         table_count = read_u64 (seg 32 40 bs);
         body_len = read_u64 (seg 40 48 bs) in
     rbind (ok_or (Option.bind (checked_add64 header_len body_len) (\<lambda>len. checked_add64 len 4))
              (Corruption 40)) (\<lambda>expected_len.
     rbind (ensure (expected_len = length bs) (Corruption 40)) (\<lambda>_.
     let crc_offset = length bs - 4 in
     rbind (ensure (unat (crc (take crc_offset bs)) = read_u32 (drop crc_offset bs)) (Corruption crc_offset)) (\<lambda>_.
     rbind (decode_descriptors crc bs crc_offset format_version table_count header_len) (\<lambda>(tables, offset).
     rbind (ensure (offset = crc_offset) (Corruption offset)) (\<lambda>_.
     let active = fold max (map sd_table_id tables) 0;
         watermark = (case encoded_watermark of
             Some w \<Rightarrow> w
           | None \<Rightarrow> if tables = [] \<and> durable_sequence > 0 then max durable_sequence active else active) in
     rbind (validate_version_set durable_sequence tombstone_gc watermark wid wal_first tables) (\<lambda>_.
     Inr \<lparr>vs_current_generation = 0, vs_manifest_id = manifest_id, vs_durable_sequence = durable_sequence,
          vs_tombstone_gc_sequence = tombstone_gc, vs_table_id_high_watermark = watermark,
          vs_wal_id = wid, vs_wal_first_sequence = wal_first, vs_tables = tables\<rparr>)))))))))))"


subsection \<open>Creating, loading and installing\<close>

definition manifest_create_initial ::
    "(bytes \<Rightarrow> 32 word) \<Rightarrow> nat \<Rightarrow> nat \<Rightarrow> disk \<Rightarrow> version_set result \<times> disk" where
  "manifest_create_initial crc wid wal_first d =
     (let v = \<lparr>vs_current_generation = 0, vs_manifest_id = 1, vs_durable_sequence = 0,
               vs_tombstone_gc_sequence = 0, vs_table_id_high_watermark = 0, vs_wal_id = wid,
               vs_wal_first_sequence = wal_first, vs_tables = []\<rparr> in
      case write_manifest_new crc v d of
        (Inl e, d1) \<Rightarrow> (Inl e, d1)
      | (Inr _, d1) \<Rightarrow>
          (case disk_create_new CURRENT_FILE_NAME
                  (encode_current_slot crc 0 (vs_current_generation v) (vs_manifest_id v) @
                   encode_current_slot crc 1 (vs_current_generation v) (vs_manifest_id v)) d1 of
             (Inl e, d2) \<Rightarrow> (Inl e, d2)
           | (Inr _, d2) \<Rightarrow> (Inr v, d2)))"

definition manifest_load :: "(bytes \<Rightarrow> 32 word) \<Rightarrow> disk \<Rightarrow> version_set result" where
  "manifest_load crc d =
     rbind (read_current crc (disk_read d CURRENT_FILE_NAME)) (\<lambda>current.
     rbind (read_manifest crc (disk_read d (manifest_file_name (cs_manifest_id current)))
              (cs_manifest_id current)) (\<lambda>v.
     Inr (v\<lparr>vs_current_generation := cs_generation current\<rparr>)))"

definition prepare_install ::
    "(bytes \<Rightarrow> 32 word) \<Rightarrow> version_set \<Rightarrow> nat \<Rightarrow> manifest_state \<Rightarrow> disk \<Rightarrow> version_set result \<times> disk" where
  "prepare_install crc current new_manifest_id st d =
     (if mn_durable_sequence st < vs_durable_sequence current then (Inl (Corruption 24), d)
      else if mn_tombstone_gc_sequence st < vs_tombstone_gc_sequence current then (Inl (Corruption 64), d)
      else case ok_or (checked_add64 (vs_current_generation current) 1) (Corruption 0) of
        Inl e \<Rightarrow> (Inl e, d)
      | Inr generation \<Rightarrow>
          (let watermark = fold (\<lambda>t high. max high (sd_table_id t)) (mn_tables st)
                 (vs_table_id_high_watermark current) in
           case validate_version_set (mn_durable_sequence st) (mn_tombstone_gc_sequence st) watermark
                  (mn_wal_id st) (mn_wal_first_sequence st) (mn_tables st) of
             Inl e \<Rightarrow> (Inl e, d)
           | Inr _ \<Rightarrow>
               (let v = \<lparr>vs_current_generation = generation, vs_manifest_id = new_manifest_id,
                         vs_durable_sequence = mn_durable_sequence st,
                         vs_tombstone_gc_sequence = mn_tombstone_gc_sequence st,
                         vs_table_id_high_watermark = watermark, vs_wal_id = mn_wal_id st,
                         vs_wal_first_sequence = mn_wal_first_sequence st, vs_tables = mn_tables st\<rparr> in
                case write_manifest_new crc v d of
                  (Inl e, d1) \<Rightarrow> (Inl e, d1)
                | (Inr _, d1) \<Rightarrow> (Inr v, d1))))"

definition publish_prepared :: "(bytes \<Rightarrow> 32 word) \<Rightarrow> version_set \<Rightarrow> disk \<Rightarrow> unit result \<times> disk" where
  "publish_prepared crc v d = write_current_slot crc (vs_current_generation v) (vs_manifest_id v) d"

definition manifest_install ::
    "(bytes \<Rightarrow> 32 word) \<Rightarrow> version_set \<Rightarrow> nat \<Rightarrow> manifest_state \<Rightarrow> disk \<Rightarrow> version_set result \<times> disk" where
  "manifest_install crc current new_manifest_id st d =
     (case prepare_install crc current new_manifest_id st d of
        (Inl e, d1) \<Rightarrow> (Inl e, d1)
      | (Inr v, d1) \<Rightarrow>
          (case publish_prepared crc v d1 of
             (Inl e, d2) \<Rightarrow> (Inl e, d2)
           | (Inr _, d2) \<Rightarrow> (Inr v, d2)))"

definition mirror_current ::
    "(bytes \<Rightarrow> 32 word) \<Rightarrow> version_set \<Rightarrow> disk \<Rightarrow> version_set result \<times> disk" where
  "mirror_current crc current d =
     (case ok_or (checked_add64 (vs_current_generation current) 1) (Corruption 0) of
        Inl e \<Rightarrow> (Inl e, d)
      | Inr generation \<Rightarrow>
          (case write_current_slot crc generation (vs_manifest_id current) d of
             (Inl e, d1) \<Rightarrow> (Inl e, d1)
           | (Inr _, d1) \<Rightarrow> (Inr (current\<lparr>vs_current_generation := generation\<rparr>), d1)))"

end
