(* ===== verification/Wal.thy ===== *)
theory Wal
  imports Decimal RecordCodec
begin

text \<open>
  The LSM write-ahead log (\<open>crates/db-storage-lsm/src/wal.rs\<close>): the segment header, the record
  codec, the scan that hands every mutation to the caller, creating, opening and repairing a
  segment, and the guarded append.  The caller's closure is \<open>apply_mutation\<close> on a state \<open>'s\<close>;
  \<open>wal_env\<close> holds what the file system answers during an append: the two checks that the path
  still names the open file, and how far the write and sync got.
\<close>

subsection \<open>Constants and data\<close>

definition INITIAL_WAL_ID :: nat where "INITIAL_WAL_ID = 1"
definition INITIAL_FIRST_SEQUENCE :: nat where "INITIAL_FIRST_SEQUENCE = 1"
definition WAL_HEADER_LEN :: nat where "WAL_HEADER_LEN = 40"
definition WAL_MAGIC :: bytes where "WAL_MAGIC = ascii ''DBLSMWAL''"
definition WAL_FORMAT_VERSION :: nat where "WAL_FORMAT_VERSION = 1"
definition WAL_RECORD_HEADER_LEN :: nat where "WAL_RECORD_HEADER_LEN = 32"
definition WAL_RECORD_MAGIC :: bytes where "WAL_RECORD_MAGIC = ascii ''LSMR''"
definition WAL_RECORD_VERSION :: byte where "WAL_RECORD_VERSION = 1"

definition wal_file_name :: "nat \<Rightarrow> bytes" where
  "wal_file_name wal_id = ascii ''wal-'' @ format_dec 16 wal_id @ ascii ''.log''"

record wal_verification =
  wv_format_version :: nat
  wv_wal_id :: nat
  wv_first_sequence :: nat
  wv_file_bytes :: nat
  wv_valid_bytes :: nat
  wv_record_count :: nat
  wv_next_sequence :: nat
  wv_recoverable_tail :: "truncated_tail option"

record mutation =
  mu_sequence :: nat
  mu_key :: bytes
  mu_value :: "bytes option"

record wal =
  wal_disk :: bytes
  wal_id :: nat
  wal_first_sequence :: nat
  wal_next_sequence :: nat
  wal_record_count :: nat
  wal_acknowledged_valid_bytes :: nat
  wal_acknowledged_prefix_hasher :: bytes
  wal_open_examined_bytes :: nat
  wal_recovered_tail :: "truncated_tail option"

record wal_env =
  we_path_before :: "unit result"
  we_fault :: "(nat \<times> io_kind) option"
  we_path_after :: "unit result"

definition quiet_wal :: wal_env where
  "quiet_wal = \<lparr>we_path_before = Inr (), we_fault = None, we_path_after = Inr ()\<rparr>"

lemma length_wal_magic [simp]: "length WAL_MAGIC = 8" "length WAL_RECORD_MAGIC = 4"
  by (simp_all add: WAL_MAGIC_def WAL_RECORD_MAGIC_def)


subsection \<open>The segment header\<close>

definition encode_wal_header :: "(bytes \<Rightarrow> 32 word) \<Rightarrow> nat \<Rightarrow> nat \<Rightarrow> bytes" where
  "encode_wal_header crc wid first_sequence =
     (let h = WAL_MAGIC @ le_bytes 2 WAL_FORMAT_VERSION @ le_bytes 2 WAL_HEADER_LEN @ le_bytes 4 0 @
            le_bytes 8 wid @ le_bytes 8 first_sequence @ le_bytes 4 0
      in h @ crc_field (crc h))"

definition validate_wal_header :: "(bytes \<Rightarrow> 32 word) \<Rightarrow> bytes \<Rightarrow> nat \<Rightarrow> nat \<Rightarrow> unit result" where
  "validate_wal_header crc header expected_wal_id expected_first_sequence =
     (if take 8 header \<noteq> WAL_MAGIC then Inl (Corruption 0)
      else if read_u32 (seg 36 40 header) \<noteq> unat (crc (take 36 header)) then Inl (Corruption 36)
      else if read_u16 (seg 8 10 header) \<noteq> WAL_FORMAT_VERSION
      then Inl (UnsupportedVersion FmtWal (read_u16 (seg 8 10 header)) WAL_FORMAT_VERSION)
      else if read_u16 (seg 10 12 header) \<noteq> WAL_HEADER_LEN then Inl (Corruption 10)
      else if read_u32 (seg 12 16 header) \<noteq> 0 then Inl (Corruption 12)
      else let wid = read_u64 (seg 16 24 header) in
        if wid \<noteq> expected_wal_id then Inl (Corruption 16)
        else let first_sequence = read_u64 (seg 24 32 header) in
          if first_sequence \<noteq> expected_first_sequence then Inl (Corruption 24)
          else if wid = 0 \<or> first_sequence = 0 then Inl (Corruption 16)
          else if read_u32 (seg 32 36 header) \<noteq> 0 then Inl (Corruption 32)
          else Inr ())"


subsection \<open>Records\<close>

fun wal_kind_encoded :: "mutation_kind \<Rightarrow> byte" where
  "wal_kind_encoded MPut = 1"
| "wal_kind_encoded MDelete = 2"

definition wal_kind_decode :: "byte \<Rightarrow> nat \<Rightarrow> mutation_kind result" where
  "wal_kind_decode encoded record_offset =
     (if encoded = 1 then Inr MPut
      else if encoded = 2 then Inr MDelete
      else Inl (Corruption (record_offset + 5)))"

definition wal_record_bytes ::
    "(bytes \<Rightarrow> 32 word) \<Rightarrow> nat \<Rightarrow> mutation_kind \<times> bytes \<times> bytes \<Rightarrow> bytes" where
  "wal_record_bytes crc q m =
     (case m of (kind, key, val) \<Rightarrow>
       (let h24 = WAL_RECORD_MAGIC @ [WAL_RECORD_VERSION, wal_kind_encoded kind] @ le_bytes 2 0 @
              le_bytes 8 q @ le_bytes 4 (length key) @ le_bytes 4 (length val);
            h28 = h24 @ crc_field (crc h24);
            header = h28 @ crc_field (crc (h28 @ key @ val))
        in header @ key @ val))"

definition encode_wal_record ::
    "(bytes \<Rightarrow> 32 word) \<Rightarrow> mutation_kind \<Rightarrow> nat \<Rightarrow> bytes \<Rightarrow> bytes \<Rightarrow> bytes result" where
  "encode_wal_record crc kind q key val =
     rbind (validate_key_value key val) (\<lambda>_.
     rbind (ensure (\<not> (kind = MDelete \<and> val \<noteq> [])) InvalidInput) (\<lambda>_.
     rbind (ok_or (try_u32 (length key)) InvalidInput) (\<lambda>_.
     rbind (ok_or (try_u32 (length val)) InvalidInput) (\<lambda>_.
     rbind (ok_or (checked_add64 (length key) (length val)) InvalidInput) (\<lambda>payload_len.
     rbind (ok_or (checked_add64 WAL_RECORD_HEADER_LEN payload_len) InvalidInput) (\<lambda>_.
     Inr (wal_record_bytes crc q (kind, key, val))))))))"

definition wal_validate_record_lengths ::
    "mutation_kind \<Rightarrow> nat \<Rightarrow> nat \<Rightarrow> nat \<Rightarrow> unit result" where
  "wal_validate_record_lengths kind key_len value_len offset =
     (if key_len > MAX_KEY_BYTES then Inl (Corruption (offset + 16))
      else if value_len > MAX_VALUE_BYTES then Inl (Corruption (offset + 20))
      else if kind = MDelete \<and> value_len \<noteq> 0 then Inl (Corruption (offset + 20))
      else rbind (ok_or (checked_add64 key_len value_len) (Corruption offset)) (\<lambda>_. Inr ()))"

definition wal_parse_record_header ::
    "(bytes \<Rightarrow> 32 word) \<Rightarrow> bytes \<Rightarrow> nat \<Rightarrow> nat \<Rightarrow> record_metadata result" where
  "wal_parse_record_header crc header offset expected_sequence =
     (if take 4 header \<noteq> WAL_RECORD_MAGIC then Inl (Corruption offset)
      else if read_u32 (seg 24 28 header) \<noteq> unat (crc (take 24 header))
      then Inl (Corruption (offset + 24))
      else if header ! 4 \<noteq> WAL_RECORD_VERSION
      then Inl (UnsupportedVersion FmtWalRecord (unat (header ! 4)) (unat WAL_RECORD_VERSION))
      else rbind (wal_kind_decode (header ! 5) offset) (\<lambda>kind.
        if read_u16 (seg 6 8 header) \<noteq> 0 then Inl (Corruption (offset + 6))
        else let q = read_u64 (seg 8 16 header) in
          if q \<noteq> expected_sequence then Inl (Corruption (offset + 8))
          else let key_len = read_u32 (seg 16 20 header);
                   value_len = read_u32 (seg 20 24 header)
            in rbind (wal_validate_record_lengths kind key_len value_len offset) (\<lambda>_.
               rbind (ok_or (checked_add64 key_len value_len) (Corruption offset)) (\<lambda>payload_len.
               rbind (ok_or (checked_add64 WAL_RECORD_HEADER_LEN payload_len) (Corruption offset))
                 (\<lambda>total_len.
               Inr \<lparr>md_kind = kind, md_sequence = q, md_key_len = key_len,
                    md_value_len = value_len, md_total_len = total_len,
                    md_expected_record_crc = read_u32 (seg 28 32 header)\<rparr>)))))"

definition wal_validate_available_prefix ::
    "bytes \<Rightarrow> nat \<Rightarrow> bytes \<Rightarrow> nat \<Rightarrow> unit result" where
  "wal_validate_available_prefix bs field_offset expected record_offset =
     (if length bs \<le> field_offset then Inr ()
      else let available = min (length bs - field_offset) (length expected) in
        if seg field_offset (field_offset + available) bs \<noteq> take available expected
        then Inl (Corruption (record_offset + field_offset))
        else Inr ())"

definition wal_validate_partial_header ::
    "(bytes \<Rightarrow> 32 word) \<Rightarrow> bytes \<Rightarrow> nat \<Rightarrow> nat \<Rightarrow> unit result" where
  "wal_validate_partial_header crc bs offset expected_sequence =
     (let magic_bytes = min (length bs) (length WAL_RECORD_MAGIC) in
      rbind (ensure (take magic_bytes bs = take magic_bytes WAL_RECORD_MAGIC) (Corruption offset)) (\<lambda>_.
      rbind (ensure (\<not> (length bs \<ge> 5 \<and> bs ! 4 \<noteq> WAL_RECORD_VERSION)) (Corruption (offset + 4))) (\<lambda>_.
      rbind (if length bs \<ge> 6 then rmap (\<lambda>_. ()) (wal_kind_decode (bs ! 5) offset) else Inr ()) (\<lambda>_.
      rbind (wal_validate_available_prefix bs 6 (le_bytes 2 0) offset) (\<lambda>_.
      rbind (wal_validate_available_prefix bs 8 (le_bytes 8 expected_sequence) offset) (\<lambda>_.
      rbind (ensure (\<not> (length bs \<ge> 20 \<and> read_u32 (seg 16 20 bs) > MAX_KEY_BYTES))
               (Corruption (offset + 16))) (\<lambda>_.
      rbind (if length bs \<ge> 24
             then rbind (wal_kind_decode (bs ! 5) offset) (\<lambda>kind.
               wal_validate_record_lengths kind (read_u32 (seg 16 20 bs)) (read_u32 (seg 20 24 bs))
                 offset)
             else Inr ()) (\<lambda>_.
      ensure (\<not> (length bs \<ge> 28 \<and> read_u32 (seg 24 28 bs) \<noteq> unat (crc (take 24 bs))))
        (Corruption (offset + 24))))))))))"


subsection \<open>The scan\<close>

definition wal_scan_record ::
    "(bytes \<Rightarrow> 32 word) \<Rightarrow> bytes \<Rightarrow> nat \<Rightarrow> nat \<Rightarrow> (mutation_kind \<times> bytes \<times> bytes) record_step result" where
  "wal_scan_record crc f offset expected_sequence =
     (let remaining = length f - offset in
      if remaining < WAL_RECORD_HEADER_LEN
      then rbind (wal_validate_partial_header crc (seg offset (length f) f) offset expected_sequence)
             (\<lambda>_. Inr (TornRecord None))
      else let header = seg offset (offset + WAL_RECORD_HEADER_LEN) f in
        rbind (wal_parse_record_header crc header offset expected_sequence) (\<lambda>metadata.
        rbind (ok_or (checked_add64 offset (md_total_len metadata)) (Corruption offset)) (\<lambda>record_end.
          if record_end > length f then Inr (TornRecord (Some (md_total_len metadata)))
          else rbind (ok_or (checked_add64 (md_key_len metadata) (md_value_len metadata))
                       (Corruption offset)) (\<lambda>payload_len.
            let payload = seg (offset + WAL_RECORD_HEADER_LEN)
                            (offset + WAL_RECORD_HEADER_LEN + payload_len) f
            in if unat (crc (take 28 header @ payload)) \<noteq> md_expected_record_crc metadata
               then Inl (Corruption (offset + 28))
               else Inr (WholeRecord
                      (md_kind metadata, take (md_key_len metadata) payload,
                       drop (md_key_len metadata) payload)
                      (md_total_len metadata))))))"

definition wal_mutation :: "nat \<Rightarrow> mutation_kind \<times> bytes \<times> bytes \<Rightarrow> mutation" where
  "wal_mutation q m =
     (case m of (kind, key, val) \<Rightarrow>
        \<lparr>mu_sequence = q, mu_key = key,
         mu_value = (case kind of MPut \<Rightarrow> Some val | MDelete \<Rightarrow> None)\<rparr>)"

lemma wal_scan_record_pos: "wal_scan_record crc f off q = Inr (WholeRecord m n) \<Longrightarrow> 0 < n"
  by (auto simp: wal_scan_record_def wal_parse_record_header_def Let_def result_iff
      WAL_RECORD_HEADER_LEN_def split: if_splits)

function wal_scan_loop ::
    "(bytes \<Rightarrow> 32 word) \<Rightarrow> ('s \<Rightarrow> mutation \<Rightarrow> 's result) \<Rightarrow> bytes \<Rightarrow> nat \<Rightarrow> nat \<Rightarrow> nat \<Rightarrow> 's \<Rightarrow>
       's scan_result result" where
  "wal_scan_loop crc apply_mutation f offset expected_sequence record_count s =
     (if offset < length f then
        rbind (wal_scan_record crc f offset expected_sequence) (\<lambda>st.
          case st of
            TornRecord req \<Rightarrow>
              Inr \<lparr>sc_file_bytes = length f, sc_valid_bytes = offset,
                   sc_record_count = record_count, sc_next_sequence = expected_sequence,
                   sc_recoverable_tail = Some \<lparr>tail_record_offset = offset,
                     tail_available_bytes = length f - offset, tail_required_bytes = req\<rparr>,
                   sc_values = s\<rparr>
          | WholeRecord m total_len \<Rightarrow>
              rbind (apply_mutation s (wal_mutation expected_sequence m)) (\<lambda>s'.
              rbind (ok_or (checked_add64 expected_sequence 1) (Corruption (offset + total_len)))
                (\<lambda>next_sequence.
              rbind (ok_or (checked_add64 record_count 1) (Corruption (offset + total_len)))
                (\<lambda>count'.
              wal_scan_loop crc apply_mutation f (offset + total_len) next_sequence count' s'))))
      else Inr \<lparr>sc_file_bytes = length f, sc_valid_bytes = offset,
                sc_record_count = record_count, sc_next_sequence = expected_sequence,
                sc_recoverable_tail = None, sc_values = s\<rparr>)"
  by pat_completeness auto
termination
  by (relation "measure (\<lambda>(_, _, f, offset, _). length f - offset)")
     (auto dest: wal_scan_record_pos)

declare wal_scan_loop.simps [simp del]

definition wal_scan_file ::
    "(bytes \<Rightarrow> 32 word) \<Rightarrow> ('s \<Rightarrow> mutation \<Rightarrow> 's result) \<Rightarrow> bytes \<Rightarrow> nat \<Rightarrow> nat \<Rightarrow> 's \<Rightarrow>
       's scan_result result" where
  "wal_scan_file crc apply_mutation f expected_wal_id expected_first_sequence s =
     (if length f < WAL_HEADER_LEN then Inl (Corruption 0)
      else rbind (validate_wal_header crc (take WAL_HEADER_LEN f) expected_wal_id expected_first_sequence)
        (\<lambda>_. wal_scan_loop crc apply_mutation f WAL_HEADER_LEN expected_first_sequence 0 s))"

definition wal_hash_file_prefix :: "bytes \<Rightarrow> nat \<Rightarrow> bytes result" where
  "wal_hash_file_prefix f prefix_bytes =
     (if prefix_bytes \<le> length f then Inr (take prefix_bytes f) else Inl (Io UnexpectedEof))"


subsection \<open>Creating, opening, verifying, appending\<close>

text \<open>\<open>existing\<close> is the file at the path, if there is one.\<close>

definition wal_create_new ::
    "(bytes \<Rightarrow> 32 word) \<Rightarrow> bytes option \<Rightarrow> nat \<Rightarrow> nat \<Rightarrow> wal result" where
  "wal_create_new crc existing wid first_sequence =
     (if wid = 0 \<or> first_sequence = 0 then Inl (Corruption 0)
      else case existing of
        Some _ \<Rightarrow> Inl (Io AlreadyExists)
      | None \<Rightarrow>
          (let f = encode_wal_header crc wid first_sequence in
           rbind (wal_hash_file_prefix f WAL_HEADER_LEN) (\<lambda>hasher.
           Inr \<lparr>wal_disk = f, wal_id = wid, wal_first_sequence = first_sequence,
                wal_next_sequence = first_sequence, wal_record_count = 0,
                wal_acknowledged_valid_bytes = WAL_HEADER_LEN,
                wal_acknowledged_prefix_hasher = hasher,
                wal_open_examined_bytes = WAL_HEADER_LEN, wal_recovered_tail = None\<rparr>)))"

definition wal_open ::
    "(bytes \<Rightarrow> 32 word) \<Rightarrow> ('s \<Rightarrow> mutation \<Rightarrow> 's result) \<Rightarrow> bytes option \<Rightarrow> nat \<Rightarrow> nat \<Rightarrow> 's \<Rightarrow>
       (wal \<times> 's) result" where
  "wal_open crc apply_mutation existing expected_wal_id expected_first_sequence s =
     rbind (ok_or existing (Io NotFound)) (\<lambda>f.
     rbind (wal_scan_file crc apply_mutation f expected_wal_id expected_first_sequence s) (\<lambda>scan.
       let f1 = (if sc_recoverable_tail scan \<noteq> None then take (sc_valid_bytes scan) f else f) in
       rbind (wal_hash_file_prefix f1 (sc_valid_bytes scan)) (\<lambda>hasher.
       Inr (\<lparr>wal_disk = f1, wal_id = expected_wal_id, wal_first_sequence = expected_first_sequence,
             wal_next_sequence = sc_next_sequence scan, wal_record_count = sc_record_count scan,
             wal_acknowledged_valid_bytes = sc_valid_bytes scan,
             wal_acknowledged_prefix_hasher = hasher,
             wal_open_examined_bytes = sc_file_bytes scan,
             wal_recovered_tail = sc_recoverable_tail scan\<rparr>, sc_values scan))))"

definition wal_verify ::
    "(bytes \<Rightarrow> 32 word) \<Rightarrow> ('s \<Rightarrow> mutation \<Rightarrow> 's result) \<Rightarrow> bytes option \<Rightarrow> nat \<Rightarrow> nat \<Rightarrow> 's \<Rightarrow>
       (wal_verification \<times> 's) result" where
  "wal_verify crc apply_mutation existing expected_wal_id expected_first_sequence s =
     rbind (ok_or existing (Io NotFound)) (\<lambda>f.
     rbind (wal_scan_file crc apply_mutation f expected_wal_id expected_first_sequence s) (\<lambda>scan.
     Inr (\<lparr>wv_format_version = WAL_FORMAT_VERSION, wv_wal_id = expected_wal_id,
           wv_first_sequence = expected_first_sequence, wv_file_bytes = sc_file_bytes scan,
           wv_valid_bytes = sc_valid_bytes scan, wv_record_count = sc_record_count scan,
           wv_next_sequence = sc_next_sequence scan,
           wv_recoverable_tail = sc_recoverable_tail scan\<rparr>, sc_values scan)))"

definition wal_append ::
    "(bytes \<Rightarrow> 32 word) \<Rightarrow> wal_env \<Rightarrow> mutation_kind \<Rightarrow> bytes \<Rightarrow> bytes \<Rightarrow> wal \<Rightarrow> nat result \<times> wal" where
  "wal_append crc env kind key val w =
     (case rbind (ok_or (checked_add64 (wal_next_sequence w) 1) (Corruption 0)) (\<lambda>next_sequence.
           rbind (ok_or (checked_add64 (wal_record_count w) 1) (Corruption 0)) (\<lambda>next_count.
           rbind (encode_wal_record crc kind (wal_next_sequence w) key val) (\<lambda>encoded.
           rbind (ok_or (checked_add64 (wal_acknowledged_valid_bytes w) (length encoded))
                    (Corruption 0)) (\<lambda>next_bytes.
           rbind (we_path_before env) (\<lambda>_.
           rbind (ensure (length (wal_disk w) = wal_acknowledged_valid_bytes w)
                    (Corruption (length (wal_disk w)))) (\<lambda>_.
           rbind (wal_hash_file_prefix (wal_disk w) (wal_acknowledged_valid_bytes w)) (\<lambda>hasher.
           rbind (ensure (crc hasher = crc (wal_acknowledged_prefix_hasher w)) (Corruption 0)) (\<lambda>_.
           Inr (next_sequence, next_count, encoded, next_bytes))))))))) of
        Inl err \<Rightarrow> (Inl err, w)
      | Inr (next_sequence, next_count, encoded, next_bytes) \<Rightarrow>
          (case we_fault env of
             Some (n, k) \<Rightarrow> (Inl (Io k), w\<lparr>wal_disk := wal_disk w @ take n encoded\<rparr>)
           | None \<Rightarrow>
               (let w1 = w\<lparr>wal_disk := wal_disk w @ encoded\<rparr> in
                case we_path_after env of
                  Inl err \<Rightarrow> (Inl err, w1)
                | Inr _ \<Rightarrow>
                    (Inr (wal_next_sequence w),
                     w1\<lparr>wal_acknowledged_prefix_hasher := wal_acknowledged_prefix_hasher w @ encoded,
                        wal_next_sequence := next_sequence, wal_record_count := next_count,
                        wal_acknowledged_valid_bytes := next_bytes\<rparr>))))"


subsection \<open>The codec and its scanner\<close>

lemma wal_record_bytes_eq:
  "wal_record_bytes crc q (kind, key, val) =
     record_bytes crc WAL_RECORD_MAGIC 1 (wal_kind_encoded kind) q key val"
  by (simp add: wal_record_bytes_def record_bytes_def frame24_def Let_def WAL_RECORD_VERSION_def)

lemma length_wal_record [simp]:
  "length (wal_record_bytes crc q (kind, key, val)) = 32 + length key + length val"
  by (simp add: wal_record_bytes_eq)

lemma encode_wal_record_Inr [result_iff]:
  "encode_wal_record crc kind q key val = Inr bs \<longleftrightarrow>
     record_wf (kind, key, val) \<and> bs = wal_record_bytes crc q (kind, key, val)"
  by (auto simp: encode_wal_record_def record_wf_def result_iff MAX_KEY_BYTES_def
      MAX_VALUE_BYTES_def u64_max_def WAL_RECORD_HEADER_LEN_def)

interpretation wal_codec: record_codec crc WAL_RECORD_MAGIC FmtWalRecord 28 wal_kind_encoded
    wal_kind_decode "wal_record_bytes crc" wal_validate_record_lengths
    wal_validate_available_prefix "wal_parse_record_header crc" "wal_validate_partial_header crc"
    "wal_scan_record crc" for crc
proof
  show "length WAL_RECORD_MAGIC = 4" by simp
  show "wal_kind_decode b off = Inr kind \<longleftrightarrow> b = wal_kind_encoded kind" for b off kind
    by (cases kind) (auto simp: wal_kind_decode_def)
  show "wal_record_bytes crc q (kind, key, val) =
      record_bytes crc WAL_RECORD_MAGIC 1 (wal_kind_encoded kind) q key val" for crc q kind key val
    by (rule wal_record_bytes_eq)
  show "wal_validate_record_lengths kind kl vl off = Inr u \<longleftrightarrow>
      kl \<le> MAX_KEY_BYTES \<and> vl \<le> MAX_VALUE_BYTES \<and> (kind = MDelete \<longrightarrow> vl = 0)" for kind kl vl off u
    by (auto simp: wal_validate_record_lengths_def result_iff MAX_KEY_BYTES_def MAX_VALUE_BYTES_def
        u64_max_def)
qed (simp_all only: wal_validate_available_prefix_def wal_parse_record_header_def
    wal_validate_partial_header_def wal_scan_record_def WAL_RECORD_VERSION_def
    WAL_RECORD_HEADER_LEN_def)

abbreviation wal_torn :: "(bytes \<Rightarrow> 32 word) \<Rightarrow> nat \<Rightarrow> bytes \<Rightarrow> bool" where
  "wal_torn crc \<equiv> torn_frame crc WAL_RECORD_MAGIC wal_kind_encoded"

interpretation wal: record_scan "wal_record_bytes crc" record_wf "wal_torn crc" "wal_scan_record crc"
    "\<lambda>q s m. apply_mutation s (wal_mutation q m)" "wal_scan_loop crc apply_mutation"
  for crc and apply_mutation :: "'s \<Rightarrow> mutation \<Rightarrow> 's result"
proof
  show "wal_record_bytes crc q m \<noteq> []" for q m
    by (cases m) (metis length_wal_record add_is_0 list.size(3) zero_neq_numeral)
  show "\<exists>req. wal_scan_record crc (a @ take n (wal_record_bytes crc q m)) (length a) q =
      Inr (TornRecord req)"
    if "record_wf m" "q \<le> u64_max" "0 < n" "n < length (wal_record_bytes crc q m)"
      "length a + length (wal_record_bytes crc q m) \<le> u64_max" for m q n a
    using wal_codec.scan_torn [OF that] by blast
qed (rule wal_codec.scan_whole wal_codec.scan_sound wal_codec.step_torn_sound
    wal_codec.step_torn_complete torn_frame_ne wal_scan_loop.simps; assumption?)+


subsection \<open>Whole segments\<close>

definition wal_image ::
    "(bytes \<Rightarrow> 32 word) \<Rightarrow> nat \<Rightarrow> nat \<Rightarrow> (mutation_kind \<times> bytes \<times> bytes) list \<Rightarrow> bytes" where
  "wal_image crc wid q ms = encode_wal_header crc wid q @ frames (wal_record_bytes crc) q ms"

definition wal_replay ::
    "('s \<Rightarrow> mutation \<Rightarrow> 's result) \<Rightarrow> nat \<Rightarrow> 's \<Rightarrow> (mutation_kind \<times> bytes \<times> bytes) list \<Rightarrow> 's result" where
  "wal_replay apply_mutation q s ms = replay (\<lambda>q s m. apply_mutation s (wal_mutation q m)) q s ms"

lemma length_encode_wal_header [simp]: "length (encode_wal_header crc wid q) = 40"
  by (simp add: encode_wal_header_def Let_def)

lemma wal_image_snoc:
  "wal_image crc wid q (ms @ [m]) = wal_image crc wid q ms @ wal_record_bytes crc (q + length ms) m"
  by (simp add: wal_image_def frames_append)

lemma encode_wal_header_fields:
  fixes crc wid q
  defines "h \<equiv> WAL_MAGIC @ le_bytes 2 WAL_FORMAT_VERSION @ le_bytes 2 WAL_HEADER_LEN @ le_bytes 4 0 @
    le_bytes 8 wid @ le_bytes 8 q @ le_bytes 4 0"
  shows "take 8 (encode_wal_header crc wid q) = WAL_MAGIC"
    and "seg 8 10 (encode_wal_header crc wid q) = le_bytes 2 WAL_FORMAT_VERSION"
    and "seg 10 12 (encode_wal_header crc wid q) = le_bytes 2 WAL_HEADER_LEN"
    and "seg 12 16 (encode_wal_header crc wid q) = le_bytes 4 0"
    and "seg 16 24 (encode_wal_header crc wid q) = le_bytes 8 wid"
    and "seg 24 32 (encode_wal_header crc wid q) = le_bytes 8 q"
    and "seg 32 36 (encode_wal_header crc wid q) = le_bytes 4 0"
    and "seg 36 40 (encode_wal_header crc wid q) = crc_field (crc h)"
    and "take 36 (encode_wal_header crc wid q) = h"
  by (simp_all add: encode_wal_header_def h_def Let_def layout del: le_bytes.simps)

lemma validate_encode_wal_header:
  "0 < wid \<Longrightarrow> wid \<le> u64_max \<Longrightarrow> 0 < q \<Longrightarrow> q \<le> u64_max \<Longrightarrow>
     validate_wal_header crc (encode_wal_header crc wid q) wid q = Inr ()"
  unfolding validate_wal_header_def encode_wal_header_fields Let_def
  by (simp add: WAL_FORMAT_VERSION_def WAL_HEADER_LEN_def del: le_bytes.simps)

lemma validate_wal_header_sound:
  assumes "validate_wal_header crc h wid q = Inr u" "length h = 40"
  shows "h = encode_wal_header crc wid q \<and> 0 < wid \<and> wid \<le> u64_max \<and> 0 < q \<and> q \<le> u64_max"
proof -
  have f: "take 8 h = WAL_MAGIC" "read_u32 (seg 36 40 h) = unat (crc (take 36 h))"
    "read_u16 (seg 8 10 h) = WAL_FORMAT_VERSION" "read_u16 (seg 10 12 h) = WAL_HEADER_LEN"
    "read_u32 (seg 12 16 h) = 0" "read_u64 (seg 16 24 h) = wid" "read_u64 (seg 24 32 h) = q"
    "read_u32 (seg 32 36 h) = 0" "0 < wid" "0 < q"
    using assms(1) by (auto simp: validate_wal_header_def Let_def split: if_splits)
  have b: "seg 8 10 h = le_bytes 2 WAL_FORMAT_VERSION" "seg 10 12 h = le_bytes 2 WAL_HEADER_LEN"
    using f(3,4) assms(2) by (auto simp: read_le_bytes(1) length_seg simp del: le_bytes.simps)
  have c: "seg 12 16 h = le_bytes 4 0" "seg 32 36 h = le_bytes 4 0"
    using f(5,8) assms(2) by (auto simp: read_le_bytes(2) length_seg simp del: le_bytes.simps)
  have d: "wid \<le> u64_max \<and> seg 16 24 h = le_bytes 8 wid" "q \<le> u64_max \<and> seg 24 32 h = le_bytes 8 q"
    using f(6,7) assms(2) by (auto simp: read_le_bytes(3) length_seg simp del: le_bytes.simps)
  have e: "seg 36 40 h = crc_field (crc (take 36 h))"
    using f(2) assms(2) by (simp add: read_u32_eq_crc length_seg)
  have t36: "take 36 h = take 8 h @ seg 8 10 h @ seg 10 12 h @ seg 12 16 h @ seg 16 24 h @ seg 24 32 h @ seg 32 36 h"
    by (simp add: seg_join flip: seg_0)
  have "h = take 36 h @ seg 36 40 h"
    using assms(2) by (simp add: seg_join seg_whole flip: seg_0)
  then have "h = encode_wal_header crc wid q"
    using t36 f(1) b c d e by (simp add: encode_wal_header_def Let_def del: le_bytes.simps)
  then show ?thesis using d f by simp
qed

lemma wal_scan_image:
  assumes "0 < wid" "wid \<le> u64_max" "0 < q" "q + length ms \<le> u64_max"
    and "\<forall>m \<in> set ms. record_wf m" "length (wal_image crc wid q ms) \<le> u64_max"
    and "wal_replay apply_mutation q s ms = Inr s'"
  shows "wal_scan_file crc apply_mutation (wal_image crc wid q ms) wid q s =
    Inr \<lparr>sc_file_bytes = length (wal_image crc wid q ms), sc_valid_bytes = length (wal_image crc wid q ms),
         sc_record_count = length ms, sc_next_sequence = q + length ms,
         sc_recoverable_tail = None, sc_values = s'\<rparr>"
  using wal.loop_complete [of ms q 0 "encode_wal_header crc wid q" crc apply_mutation s s'] assms
  by (simp add: wal_scan_file_def WAL_HEADER_LEN_def validate_encode_wal_header wal_image_def
      wal_replay_def)

lemma wal_scan_torn_image:
  assumes "0 < wid" "wid \<le> u64_max" "0 < q" "q + length ms \<le> u64_max"
    and "\<forall>m \<in> set ms. record_wf m" "record_wf m" "length (wal_image crc wid q (ms @ [m])) \<le> u64_max"
    and "0 < n" "n < length (wal_record_bytes crc (q + length ms) m)"
    and "wal_replay apply_mutation q s ms = Inr s'"
  shows "\<exists>req. wal_scan_file crc apply_mutation
      (wal_image crc wid q ms @ take n (wal_record_bytes crc (q + length ms) m)) wid q s =
    Inr \<lparr>sc_file_bytes = length (wal_image crc wid q ms) + n,
         sc_valid_bytes = length (wal_image crc wid q ms),
         sc_record_count = length ms, sc_next_sequence = q + length ms,
         sc_recoverable_tail = Some \<lparr>tail_record_offset = length (wal_image crc wid q ms),
           tail_available_bytes = n, tail_required_bytes = req\<rparr>,
         sc_values = s'\<rparr>"
  using wal.loop_torn [of ms q 0 m n crc "encode_wal_header crc wid q" apply_mutation s s'] assms
  by (simp add: wal_scan_file_def WAL_HEADER_LEN_def validate_encode_wal_header wal_image_def
      wal_replay_def)

lemma wal_scan_cut_image:
  assumes "0 < wid" "wid \<le> u64_max" "0 < q" "q + length ms \<le> u64_max"
    and "\<forall>m \<in> set ms. record_wf m" "wal_torn crc (q + length ms) rest"
    and "length (wal_image crc wid q ms @ rest) + (32 + MAX_KEY_BYTES + MAX_VALUE_BYTES) \<le> u64_max"
    and "wal_replay apply_mutation q s ms = Inr s'"
  shows "\<exists>req. wal_scan_file crc apply_mutation (wal_image crc wid q ms @ rest) wid q s =
    Inr \<lparr>sc_file_bytes = length (wal_image crc wid q ms @ rest),
         sc_valid_bytes = length (wal_image crc wid q ms),
         sc_record_count = length ms, sc_next_sequence = q + length ms,
         sc_recoverable_tail = Some \<lparr>tail_record_offset = length (wal_image crc wid q ms),
           tail_available_bytes = length rest, tail_required_bytes = req\<rparr>,
         sc_values = s'\<rparr>"
  using wal.loop_cut [of ms q 0 crc rest "encode_wal_header crc wid q" apply_mutation s s'] assms
  by (simp add: wal_scan_file_def WAL_HEADER_LEN_def validate_encode_wal_header wal_image_def
      wal_replay_def)

lemma wal_scan_file_sound:
  assumes "wal_scan_file crc apply_mutation f wid q s = Inr r"
  shows "\<exists>ms rest. f = wal_image crc wid q ms @ rest \<and> (\<forall>m \<in> set ms. record_wf m) \<and>
    wal_replay apply_mutation q s ms = Inr (sc_values r) \<and>
    0 < wid \<and> wid \<le> u64_max \<and> 0 < q \<and> q + length ms \<le> u64_max \<and>
    sc_file_bytes r = length f \<and> sc_valid_bytes r = length (wal_image crc wid q ms) \<and>
    sc_record_count r = length ms \<and> sc_next_sequence r = q + length ms \<and>
    (sc_recoverable_tail r = None \<longleftrightarrow> rest = []) \<and>
    (rest \<noteq> [] \<longrightarrow> wal_torn crc (q + length ms) rest) \<and>
    (\<forall>t. sc_recoverable_tail r = Some t \<longrightarrow>
       tail_record_offset t = sc_valid_bytes r \<and> tail_available_bytes t = length rest)"
proof -
  have len: "40 \<le> length f" and hdr: "validate_wal_header crc (take 40 f) wid q = Inr ()"
    and lp: "wal_scan_loop crc apply_mutation f 40 q 0 s = Inr r"
    using assms by (auto simp: wal_scan_file_def WAL_HEADER_LEN_def result_iff split: if_splits)
  have h: "take 40 f = encode_wal_header crc wid q" "0 < wid" "wid \<le> u64_max" "0 < q" "q \<le> u64_max"
    using validate_wal_header_sound [OF hdr] len by auto
  from wal.loop_sound [OF lp len h(5)] obtain ms rest where ms:
    "drop 40 f = frames (wal_record_bytes crc) q ms @ rest" "\<forall>m \<in> set ms. record_wf m"
    "replay (\<lambda>q s m. apply_mutation s (wal_mutation q m)) q s ms = Inr (sc_values r)"
    "sc_file_bytes r = length f"
    "sc_valid_bytes r = 40 + length (frames (wal_record_bytes crc) q ms)"
    "sc_record_count r = 0 + length ms" "sc_next_sequence r = q + length ms"
    "ms \<noteq> [] \<longrightarrow> q + length ms \<le> u64_max \<and> 0 + length ms \<le> u64_max"
    "sc_recoverable_tail r = None \<longleftrightarrow> rest = []"
    "\<forall>t. sc_recoverable_tail r = Some t \<longrightarrow>
       tail_record_offset t = sc_valid_bytes r \<and> tail_available_bytes t = length rest"
    "rest \<noteq> [] \<longrightarrow> wal_torn crc (q + length ms) rest"
    by (elim exE conjE) (rule that)
  have "f = wal_image crc wid q ms @ rest"
    using ms(1) h(1) append_take_drop_id [of 40 f] by (simp add: wal_image_def)
  moreover have "q + length ms \<le> u64_max" using ms(8) h(5) by (cases ms) auto
  ultimately show ?thesis
    using ms h by (intro exI [of _ ms] exI [of _ rest]) (simp add: wal_image_def wal_replay_def)
qed


subsection \<open>The open segment\<close>

definition wal_holds ::
    "(bytes \<Rightarrow> 32 word) \<Rightarrow> wal \<Rightarrow> (mutation_kind \<times> bytes \<times> bytes) list \<Rightarrow> bool" where
  "wal_holds crc w ms \<longleftrightarrow>
     (\<forall>m \<in> set ms. record_wf m) \<and> 0 < wal_id w \<and> wal_id w \<le> u64_max \<and> 0 < wal_first_sequence w \<and>
     wal_disk w = wal_image crc (wal_id w) (wal_first_sequence w) ms \<and>
     wal_acknowledged_valid_bytes w = length (wal_disk w) \<and>
     wal_acknowledged_prefix_hasher w = wal_disk w \<and>
     wal_next_sequence w = wal_first_sequence w + length ms \<and> wal_record_count w = length ms \<and>
     length (wal_disk w) \<le> u64_max \<and> wal_first_sequence w + length ms \<le> u64_max"

lemma wal_create_new_ok:
  assumes "0 < wid" "wid \<le> u64_max" "0 < q" "q \<le> u64_max"
  shows "\<exists>w. wal_create_new crc None wid q = Inr w \<and> wal_holds crc w [] \<and> wal_id w = wid \<and>
    wal_first_sequence w = q \<and> wal_recovered_tail w = None"
  using assms
  by (simp add: wal_create_new_def Let_def wal_hash_file_prefix_def WAL_HEADER_LEN_def wal_holds_def
      wal_image_def u64_max_def)

lemma wal_record_length_bound: "record_wf m \<Longrightarrow> length (wal_record_bytes crc q m) \<le> 1052704"
  by (cases m) (simp add: record_wf_def MAX_KEY_BYTES_def MAX_VALUE_BYTES_def)

lemma wal_append_ok:
  assumes "wal_holds crc w ms" "record_wf (kind, key, val)"
    and "wal_next_sequence w < u64_max" "length (wal_disk w) + 1052704 \<le> u64_max"
  shows "\<exists>w'. wal_append crc quiet_wal kind key val w = (Inr (wal_next_sequence w), w') \<and>
    wal_holds crc w' (ms @ [(kind, key, val)]) \<and> wal_id w' = wal_id w \<and>
    wal_first_sequence w' = wal_first_sequence w \<and>
    wal_next_sequence w' = wal_next_sequence w + 1 \<and>
    length (wal_disk w') \<le> length (wal_disk w) + 1052704"
proof -
  let ?rec = "wal_record_bytes crc (wal_next_sequence w) (kind, key, val)"
  have enc: "encode_wal_record crc kind (wal_next_sequence w) key val = Inr ?rec"
    using assms(2) by (simp add: result_iff)
  have len: "length ?rec \<le> 1052704" by (rule wal_record_length_bound [OF assms(2)])
  have cnt: "length ms + 1 \<le> u64_max"
    using assms(1,3) by (auto simp: wal_holds_def)
  show ?thesis
    using assms enc len cnt
    by (simp add: wal_append_def quiet_wal_def wal_holds_def checked_add64_def
        wal_hash_file_prefix_def Let_def wal_image_snoc)
qed

lemma wal_open_image:
  assumes "0 < wid" "wid \<le> u64_max" "0 < q" "q + length ms \<le> u64_max"
    and "\<forall>m \<in> set ms. record_wf m" "length (wal_image crc wid q ms) \<le> u64_max"
    and "wal_replay apply_mutation q s ms = Inr s'"
  shows "\<exists>w. wal_open crc apply_mutation (Some (wal_image crc wid q ms)) wid q s = Inr (w, s') \<and>
    wal_holds crc w ms \<and> wal_id w = wid \<and> wal_first_sequence w = q \<and> wal_recovered_tail w = None"
  using wal_scan_image [OF assms] assms
  by (simp add: wal_open_def Let_def wal_hash_file_prefix_def wal_holds_def)

lemma wal_open_torn_image:
  assumes "0 < wid" "wid \<le> u64_max" "0 < q" "q + length ms \<le> u64_max"
    and "\<forall>m \<in> set ms. record_wf m" "record_wf m" "length (wal_image crc wid q (ms @ [m])) \<le> u64_max"
    and "0 < n" "n < length (wal_record_bytes crc (q + length ms) m)"
    and "wal_replay apply_mutation q s ms = Inr s'"
  shows "\<exists>w. wal_open crc apply_mutation
      (Some (wal_image crc wid q ms @ take n (wal_record_bytes crc (q + length ms) m))) wid q s = Inr (w, s') \<and>
    wal_holds crc w ms \<and> wal_id w = wid \<and> wal_first_sequence w = q \<and> wal_recovered_tail w \<noteq> None"
  using wal_scan_torn_image [OF assms] assms
  by (auto simp: wal_open_def Let_def wal_hash_file_prefix_def wal_holds_def wal_image_snoc)


subsection \<open>Properties\<close>

text \<open>What the bytes of a segment may be: the canonical header for the expected id and first
  sequence, whole canonical records whose sequence numbers do not overflow, and then nothing or an
  incomplete record for the next sequence number.\<close>

definition wal_segment ::
    "(bytes \<Rightarrow> 32 word) \<Rightarrow> nat \<Rightarrow> nat \<Rightarrow> (mutation_kind \<times> bytes \<times> bytes) list \<Rightarrow> bytes \<Rightarrow> bytes \<Rightarrow> bool" where
  "wal_segment crc wid q ms rest f \<longleftrightarrow>
     f = wal_image crc wid q ms @ rest \<and> (\<forall>m \<in> set ms. record_wf m) \<and>
     0 < wid \<and> wid \<le> u64_max \<and> 0 < q \<and> q + length ms \<le> u64_max \<and>
     (rest = [] \<or> wal_torn crc (q + length ms) rest)"

lemma wal_open_segment:
  assumes "wal_segment crc wid q ms rest f" "wal_replay apply_mutation q s ms = Inr s'"
    and "length f + (32 + MAX_KEY_BYTES + MAX_VALUE_BYTES) \<le> u64_max"
  shows "\<exists>w. wal_open crc apply_mutation (Some f) wid q s = Inr (w, s')"
proof -
  have f: "f = wal_image crc wid q ms @ rest" and wf: "\<forall>m \<in> set ms. record_wf m"
    and b: "0 < wid" "wid \<le> u64_max" "0 < q" "q + length ms \<le> u64_max"
    and rest: "rest = [] \<or> wal_torn crc (q + length ms) rest"
    using assms(1) by (simp_all add: wal_segment_def)
  show ?thesis
  proof (cases "rest = []")
    case True
    then show ?thesis
      using wal_open_image [OF b wf _ assms(2), of crc] assms(3) by (auto simp: f)
  next
    case False
    then show ?thesis
      using wal_scan_cut_image [OF b wf _ _ assms(2), of crc rest] rest assms(3)
      by (auto simp: f wal_open_def Let_def wal_hash_file_prefix_def)
  qed
qed

lemma wal_open_is_segment:
  assumes "wal_open crc apply_mutation (Some f) wid q s = Inr (w, s')" "length f \<le> u64_max"
  shows "\<exists>ms rest. wal_segment crc wid q ms rest f \<and> wal_replay apply_mutation q s ms = Inr s' \<and>
    wal_disk w = wal_image crc wid q ms \<and> wal_holds crc w ms \<and> wal_next_sequence w = q + length ms \<and>
    (case wal_recovered_tail w of None \<Rightarrow> rest = []
     | Some t \<Rightarrow> rest \<noteq> [] \<and> tail_record_offset t = length (wal_disk w) \<and> tail_available_bytes t = length rest)"
proof -
  obtain r where r: "wal_scan_file crc apply_mutation f wid q s = Inr r"
    using assms(1) by (auto simp: wal_open_def result_iff)
  obtain ms rest where ms: "f = wal_image crc wid q ms @ rest" "\<forall>m \<in> set ms. record_wf m"
    "wal_replay apply_mutation q s ms = Inr (sc_values r)"
    "0 < wid" "wid \<le> u64_max" "0 < q" "q + length ms \<le> u64_max"
    "sc_file_bytes r = length f" "sc_valid_bytes r = length (wal_image crc wid q ms)"
    "sc_record_count r = length ms" "sc_next_sequence r = q + length ms"
    "sc_recoverable_tail r = None \<longleftrightarrow> rest = []"
    "rest \<noteq> [] \<longrightarrow> wal_torn crc (q + length ms) rest"
    "\<forall>t. sc_recoverable_tail r = Some t \<longrightarrow>
       tail_record_offset t = sc_valid_bytes r \<and> tail_available_bytes t = length rest"
    using wal_scan_file_sound [OF r] by (elim exE conjE) (rule that)
  have "wal_disk w = wal_image crc wid q ms \<and> s' = sc_values r \<and> wal_holds crc w ms \<and>
      wal_recovered_tail w = sc_recoverable_tail r \<and> wal_next_sequence w = q + length ms"
    using assms r ms
    by (auto simp: wal_open_def Let_def wal_hash_file_prefix_def wal_holds_def split: if_splits)
  moreover have "wal_segment crc wid q ms rest f"
    using ms by (auto simp: wal_segment_def)
  ultimately show ?thesis
    using ms(3,9,12,14) by (intro exI [of _ ms] exI [of _ rest]) (auto split: option.split)
qed

text \<open>C29 (wal_open): opening a segment succeeds exactly when the file is the canonical header for
  the expected id and first sequence, followed by whole canonical records that the caller takes in
  order and then nothing or an incomplete record for the next sequence number: bytes that agree
  with a record header as far as they go and end before the length it declares.  So a record that
  is there whole is never cut, whatever its checksum.  The caller has then received exactly those
  records, the repaired file holds exactly them, the reported tail is the cut one, and the next
  append continues their sequence.  (The file is at least one maximal record shorter than
  \<open>2 ^ 64\<close> bytes.)\<close>

theorem wal_open_exact:
  assumes "length f + (32 + MAX_KEY_BYTES + MAX_VALUE_BYTES) \<le> u64_max"
  shows "((\<exists>w. wal_open crc apply_mutation (Some f) wid q s = Inr (w, s')) \<longleftrightarrow>
      (\<exists>ms rest. wal_segment crc wid q ms rest f \<and> wal_replay apply_mutation q s ms = Inr s')) \<and>
    (\<forall>w. wal_open crc apply_mutation (Some f) wid q s = Inr (w, s') \<longrightarrow>
      (\<exists>ms rest. wal_segment crc wid q ms rest f \<and> wal_replay apply_mutation q s ms = Inr s' \<and>
        wal_disk w = wal_image crc wid q ms \<and> wal_holds crc w ms \<and> wal_next_sequence w = q + length ms \<and>
        (case wal_recovered_tail w of None \<Rightarrow> rest = []
         | Some t \<Rightarrow> rest \<noteq> [] \<and> tail_record_offset t = length (wal_disk w) \<and>
             tail_available_bytes t = length rest)))"
proof -
  have le: "length f \<le> u64_max" using assms by simp
  note sound = wal_open_is_segment [OF _ le, of crc apply_mutation wid q s _ s']
  have "(\<exists>w. wal_open crc apply_mutation (Some f) wid q s = Inr (w, s')) \<longleftrightarrow>
      (\<exists>ms rest. wal_segment crc wid q ms rest f \<and> wal_replay apply_mutation q s ms = Inr s')"
    using sound wal_open_segment [OF _ _ assms, of crc wid q _ _ apply_mutation s s'] by blast
  then show ?thesis using sound by (intro conjI allI impI)
qed

lemma wal_open_exact_witness:
  "\<exists>w. wal_open (\<lambda>_. 0) (\<lambda>n m. Inr (n + 1))
      (Some (wal_image (\<lambda>_. 0) 3 7 [(MPut, [1], [2])] @ ascii ''LS'')) 3 7 (0 :: nat) = Inr (w, 1) \<and>
    wal_next_sequence w = 8"
proof -
  let ?ms = "[(MPut, [1], [2])]" and ?rest = "ascii ''LS''"
  let ?f = "wal_image (\<lambda>_. 0) 3 7 ?ms @ ?rest"
  have len: "length (wal_image (\<lambda>_. 0) 3 7 ?ms) = 74" "length ?rest = 2"
    by (simp_all add: wal_image_def ascii_def)
  have small: "length ?f + (32 + MAX_KEY_BYTES + MAX_VALUE_BYTES) \<le> u64_max"
    using len by (simp add: MAX_KEY_BYTES_def MAX_VALUE_BYTES_def u64_max_def)
  have "?rest = take 2 (wal_record_bytes (\<lambda>_. 0) 8 (MPut, [], []))"
    by (simp add: wal_record_bytes_def Let_def WAL_RECORD_MAGIC_def ascii_def)
  then have "wal_torn (\<lambda>_. 0) 8 ?rest"
    using wal_codec.torn_enc [of "(MPut, [], [])" 2 "\<lambda>_. 0" 8]
    by (simp add: record_wf_def u64_max_def)
  then have seg: "wal_segment (\<lambda>_. 0) 3 7 ?ms ?rest ?f"
    by (simp add: wal_segment_def record_wf_def MAX_KEY_BYTES_def MAX_VALUE_BYTES_def u64_max_def)
  have rep: "wal_replay (\<lambda>n m. Inr (n + 1)) 7 0 ?ms = Inr (1 :: nat)"
    by (simp add: wal_replay_def)
  note exact = wal_open_exact [OF small, of "\<lambda>_. 0" "\<lambda>n m. Inr (n + 1)" 3 7 0 1]
  obtain w where w: "wal_open (\<lambda>_. 0) (\<lambda>n m. Inr (n + 1)) (Some ?f) 3 7 (0 :: nat) = Inr (w, 1)"
    using exact seg rep by blast
  then obtain ms where ms: "wal_replay (\<lambda>n m. Inr (n + 1)) 7 0 ms = Inr (1 :: nat)"
    "wal_next_sequence w = 7 + length ms"
    using exact by blast
  have "wal_replay (\<lambda>n m. Inr (n + 1)) q k ms = Inr (k + length ms :: nat)" for q k ms
    unfolding wal_replay_def by (induction ms arbitrary: q k) simp_all
  then have "length ms = 1" using ms(1) by simp
  then show ?thesis using w ms(2) by auto
qed

end
