(* ===== verification/LsmEngine.thy ===== *)
theory LsmEngine
  imports Manifest Wal KvEngine
begin

text \<open>
  The LSM engine (\<open>crates/db-storage-lsm/src/lib.rs\<close>): opening a directory, the write path (WAL
  append, MemTable, flush of frozen tables, full-set compaction of four level-0 tables, WAL
  rotation, best-effort removal of obsolete files), point reads, range scans and reopening.

  The state holds the directory as a \<open>disk\<close>; the active WAL handle and the directory entry of its
  segment are one file, which every append reads and writes.  Wall-clock timing samples and the
  hooks of the crate's own fault tests are left out; the faults of \<open>Disk\<close> hit the same four writes.
\<close>

definition MUTABLE_MEMTABLE_BYTES_LIMIT :: nat where "MUTABLE_MEMTABLE_BYTES_LIMIT = 65536"
definition LEVEL0_COMPACTION_TRIGGER :: nat where "LEVEL0_COMPACTION_TRIGGER = 4"

record lsm_instrumentation =
  li_point_reads :: nat
  li_point_sstable_consults :: nat
  li_range_scans :: nat
  li_range_result_records :: nat
  li_range_sstable_records_decoded :: nat
  li_logical_mutations :: nat
  li_logical_mutation_bytes :: nat
  li_wal_record_bytes_written :: nat
  li_flushes :: nat
  li_flush_sstable_bytes_written :: nat
  li_compactions :: nat
  li_compaction_input_sstable_bytes :: nat
  li_compaction_output_sstable_bytes_written :: nat

definition lsm_instrumentation_default :: lsm_instrumentation where
  "lsm_instrumentation_default =
     \<lparr>li_point_reads = 0, li_point_sstable_consults = 0, li_range_scans = 0, li_range_result_records = 0,
      li_range_sstable_records_decoded = 0, li_logical_mutations = 0, li_logical_mutation_bytes = 0,
      li_wal_record_bytes_written = 0, li_flushes = 0, li_flush_sstable_bytes_written = 0,
      li_compactions = 0, li_compaction_input_sstable_bytes = 0,
      li_compaction_output_sstable_bytes_written = 0\<rparr>"

record lsm_engine =
  le_disk :: disk
  le_wal :: "wal option"
  le_memtables :: memtable_set
  le_tables :: "sstable list"
  le_version :: version_set
  le_next_table_id :: nat
  le_next_manifest_id :: nat
  le_next_wal_id :: nat
  le_instrumentation :: lsm_instrumentation
  le_poisoned :: bool

definition lsm_checked_next_id :: "nat \<Rightarrow> nat result" where
  "lsm_checked_next_id max_id = ok_or (checked_add64 max_id 1) (Corruption 0)"

definition lsm_ensure_usable :: "lsm_engine \<Rightarrow> unit result" where
  "lsm_ensure_usable e = (if le_poisoned e \<or> le_wal e = None then Inl Poisoned else Inr ())"


subsection \<open>The directory layout\<close>

definition parse_numbered_name :: "bytes \<Rightarrow> bytes \<Rightarrow> bytes \<Rightarrow> nat option" where
  "parse_numbered_name name prefix suffix =
     Option.bind (strip_prefix prefix name) (\<lambda>rest.
     Option.bind (strip_suffix suffix rest) (\<lambda>digits.
     if length digits \<noteq> 16 \<or> \<not> list_all is_ascii_digit digits then None
     else Option.bind (parse_digits digits) (\<lambda>val. if val \<noteq> 0 then Some val else None)))"

definition parse_wal_name :: "bytes \<Rightarrow> nat option" where
  "parse_wal_name name = parse_numbered_name name (ascii ''wal-'') (ascii ''.log'')"

definition parse_manifest_name :: "bytes \<Rightarrow> nat option" where
  "parse_manifest_name name = parse_numbered_name name (ascii ''MANIFEST-'') []"

definition parse_sst_name :: "bytes \<Rightarrow> nat option" where
  "parse_sst_name name = parse_numbered_name name (ascii ''sst-'') (ascii ''.sst'')"

record layout =
  ly_wal_ids :: "nat list"
  ly_max_wal_id :: nat
  ly_max_table_id :: nat
  ly_max_manifest_id :: nat
  ly_found_current :: bool

definition layout_entry :: "layout \<Rightarrow> bytes \<Rightarrow> layout result" where
  "layout_entry l name =
     (if name = CURRENT_FILE_NAME then
        if ly_found_current l then Inl (Corruption 0) else Inr (l\<lparr>ly_found_current := True\<rparr>)
      else case parse_wal_name name of
        Some i \<Rightarrow> Inr (l\<lparr>ly_wal_ids := List.insert i (ly_wal_ids l), ly_max_wal_id := max (ly_max_wal_id l) i\<rparr>)
      | None \<Rightarrow>
          (case parse_manifest_name name of
             Some i \<Rightarrow> Inr (l\<lparr>ly_max_manifest_id := max (ly_max_manifest_id l) i\<rparr>)
           | None \<Rightarrow>
               (case parse_sst_name name of
                  Some i \<Rightarrow> Inr (l\<lparr>ly_max_table_id := max (ly_max_table_id l) i\<rparr>)
                | None \<Rightarrow> Inl (Corruption 0))))"

definition validate_layout :: "disk \<Rightarrow> (layout \<times> bool) result" where
  \<comment> \<open>the flag is \<open>has_version_set\<close>\<close>
  "validate_layout d =
     rbind (rfold layout_entry \<lparr>ly_wal_ids = [], ly_max_wal_id = 0, ly_max_table_id = 0,
              ly_max_manifest_id = 0, ly_found_current = False\<rparr> (om_keys (dk_files d))) (\<lambda>l.
     if ly_wal_ids l = [] then Inl (Corruption 0)
     else case (ly_found_current l, ly_max_manifest_id l \<noteq> 0) of
       (True, True) \<Rightarrow> Inr (l, True)
     | (False, False) \<Rightarrow>
         if ly_max_table_id l = 0 \<and> length (ly_wal_ids l) = 1 \<and> INITIAL_WAL_ID \<in> set (ly_wal_ids l)
         then Inr (l, False) else Inl (Corruption 0)
     | (False, True) \<Rightarrow> Inl (Corruption 0)
     | (True, False) \<Rightarrow> Inl (Corruption 0))"


subsection \<open>The active WAL segment in the directory\<close>

definition lsm_wal_create :: "(bytes \<Rightarrow> 32 word) \<Rightarrow> nat \<Rightarrow> nat \<Rightarrow> disk \<Rightarrow> wal result \<times> disk" where
  "lsm_wal_create crc wid first_sequence d =
     (case wal_create_new crc (disk_read d (wal_file_name wid)) wid first_sequence of
        Inl e \<Rightarrow> (Inl e, d)
      | Inr w \<Rightarrow>
          (case disk_create_new (wal_file_name wid) (wal_disk w) d of
             (Inl e, d') \<Rightarrow> (Inl e, d')
           | (Inr _, d') \<Rightarrow> (Inr w, d')))"

definition lsm_wal_open ::
    "(bytes \<Rightarrow> 32 word) \<Rightarrow> ('s \<Rightarrow> mutation \<Rightarrow> 's result) \<Rightarrow> nat \<Rightarrow> nat \<Rightarrow> 's \<Rightarrow> disk \<Rightarrow> (wal \<times> 's) result \<times> disk" where
  "lsm_wal_open crc apply_mutation wid first_sequence s d =
     (case wal_open crc apply_mutation (disk_read d (wal_file_name wid)) wid first_sequence s of
        Inl e \<Rightarrow> (Inl e, d)
      | Inr (w, s') \<Rightarrow>
          if wal_recovered_tail w = None then (Inr (w, s'), d)
          else (case disk_next_fault d of
            (Some (BeforeWrite k), d') \<Rightarrow> (Inl (Io k), d')
          | (Some (TornWrite _ k), d') \<Rightarrow> (Inl (Io k), disk_set (wal_file_name wid) (wal_disk w) d')
          | (None, d') \<Rightarrow> (Inr (w, s'), disk_set (wal_file_name wid) (wal_disk w) d')))"

definition lsm_wal_append ::
    "(bytes \<Rightarrow> 32 word) \<Rightarrow> mutation_kind \<Rightarrow> bytes \<Rightarrow> bytes \<Rightarrow> wal \<Rightarrow> disk \<Rightarrow> nat result \<times> wal \<times> disk" where
  "lsm_wal_append crc kind key val w d =
     (let name = wal_file_name (wal_id w) in
      case disk_read d name of
        None \<Rightarrow>
          (case wal_append crc \<lparr>we_path_before = Inl (Corruption 0), we_fault = None, we_path_after = Inr ()\<rparr>
                  kind key val w of (r, w') \<Rightarrow> (r, w', d))
      | Some f \<Rightarrow>
          (case disk_next_fault d of
             (fault, d1) \<Rightarrow>
               (let env = \<lparr>we_path_before = Inr (),
                     we_fault = (case fault of None \<Rightarrow> None | Some (BeforeWrite k) \<Rightarrow> Some (0, k)
                                 | Some (TornWrite n k) \<Rightarrow> Some (n, k)),
                     we_path_after = Inr ()\<rparr> in
                case wal_append crc env kind key val (w\<lparr>wal_disk := f\<rparr>) of
                  (r, w') \<Rightarrow> (r, w', disk_set name (wal_disk w') d1))))"


subsection \<open>Opening\<close>

definition lsm_replay_apply :: "nat \<Rightarrow> memtable_set \<Rightarrow> mutation \<Rightarrow> memtable_set result" where
  "lsm_replay_apply durable_sequence s m =
     (if mu_sequence m > durable_sequence then mts_apply s (mu_sequence m) (mu_key m) (mu_value m) else Inr s)"

definition lsm_initialize_new :: "(bytes \<Rightarrow> 32 word) \<Rightarrow> disk \<Rightarrow> lsm_engine result \<times> disk" where
  "lsm_initialize_new crc d =
     (case lsm_wal_create crc INITIAL_WAL_ID INITIAL_FIRST_SEQUENCE d of
        (Inl e, d1) \<Rightarrow> (Inl e, d1)
      | (Inr w, d1) \<Rightarrow>
          (case manifest_create_initial crc INITIAL_WAL_ID INITIAL_FIRST_SEQUENCE d1 of
             (Inl e, d2) \<Rightarrow> (Inl e, d2)
           | (Inr v, d2) \<Rightarrow>
               (rmap (\<lambda>ms. \<lparr>le_disk = d2, le_wal = Some w, le_memtables = ms, le_tables = [], le_version = v,
                      le_next_table_id = 1, le_next_manifest_id = 2, le_next_wal_id = 2,
                      le_instrumentation = lsm_instrumentation_default, le_poisoned = False\<rparr>)
                  (mts_new MUTABLE_MEMTABLE_BYTES_LIMIT), d2)))"

text \<open>\<open>create_new\<close> makes the directory; \<open>stuck\<close> and \<open>faults\<close> are what the system will do in it.\<close>

definition lsm_create_new :: "(bytes \<Rightarrow> 32 word) \<Rightarrow> disk \<Rightarrow> lsm_engine result \<times> disk" where
  "lsm_create_new crc d = lsm_initialize_new crc (d\<lparr>dk_files := om_empty\<rparr>)"

definition lsm_legacy_version :: version_set where
  "lsm_legacy_version =
     \<lparr>vs_current_generation = 0, vs_manifest_id = 0, vs_durable_sequence = 0, vs_tombstone_gc_sequence = 0,
      vs_table_id_high_watermark = 0, vs_wal_id = INITIAL_WAL_ID,
      vs_wal_first_sequence = INITIAL_FIRST_SEQUENCE, vs_tables = []\<rparr>"

definition lsm_open_existing :: "(bytes \<Rightarrow> 32 word) \<Rightarrow> disk \<Rightarrow> lsm_engine result \<times> disk" where
  "lsm_open_existing crc d =
     (case rbind (validate_layout d) (\<lambda>(l, has_version_set).
           rbind (if has_version_set then manifest_load crc d else Inr lsm_legacy_version) (\<lambda>v0.
           let v = v0\<lparr>vs_table_id_high_watermark := max (vs_table_id_high_watermark v0) (ly_max_table_id l)\<rparr> in
           rbind (rmapM (\<lambda>t. sst_open crc (disk_read d (sst_file_name (sd_table_id t))) t) (vs_tables v)) (\<lambda>tables.
           if vs_wal_id v \<notin> set (ly_wal_ids l) then Inl (Corruption 0)
           else rbind (mts_new MUTABLE_MEMTABLE_BYTES_LIMIT) (\<lambda>ms. Inr (l, v, tables, ms))))) of
        Inl e \<Rightarrow> (Inl e, d)
      | Inr (l, v, tables, ms) \<Rightarrow>
          (case lsm_wal_open crc (lsm_replay_apply (vs_durable_sequence v)) (vs_wal_id v) (vs_wal_first_sequence v) ms d of
             (Inl e, d1) \<Rightarrow> (Inl e, d1)
           | (Inr (w, ms'), d1) \<Rightarrow>
               (rbind (ensure (\<not> vs_durable_sequence v \<ge> wal_next_sequence w) (Corruption 0)) (\<lambda>_.
                rbind (lsm_checked_next_id (vs_table_id_high_watermark v)) (\<lambda>next_table_id.
                rbind (lsm_checked_next_id (ly_max_manifest_id l)) (\<lambda>next_manifest_id.
                rbind (lsm_checked_next_id (ly_max_wal_id l)) (\<lambda>next_wal_id.
                Inr \<lparr>le_disk = d1, le_wal = Some w, le_memtables = ms', le_tables = tables, le_version = v,
                     le_next_table_id = next_table_id, le_next_manifest_id = next_manifest_id,
                     le_next_wal_id = next_wal_id, le_instrumentation = lsm_instrumentation_default,
                     le_poisoned = False\<rparr>)))), d1)))"


subsection \<open>Counts and verification\<close>

record lsm_stats =
  lt_wal_records :: nat
  lt_active_wal_id :: nat
  lt_active_wal_first_sequence :: nat
  lt_mutable_entries :: nat
  lt_immutable_memtables :: nat
  lt_immutable_entries :: nat
  lt_sstables :: nat
  lt_level0_sstables :: nat
  lt_level1_sstables :: nat
  lt_sstable_entries :: nat
  lt_durable_sequence :: nat
  lt_tombstone_gc_sequence :: nat

definition lsm_level_count :: "nat \<Rightarrow> sstable_descriptor list \<Rightarrow> nat" where
  "lsm_level_count level ts = length (filter (\<lambda>t. sd_level t = level) ts)"

definition lsm_total_entries :: "sstable_descriptor list \<Rightarrow> nat result" where
  "lsm_total_entries ts =
     rfold (\<lambda>total t. ok_or (checked_add64 total (sd_entry_count t)) (Corruption 0)) 0 ts"

definition lsm_engine_stats :: "lsm_engine \<Rightarrow> lsm_stats result" where
  "lsm_engine_stats e =
     rbind (lsm_ensure_usable e) (\<lambda>_.
     rbind (ok_or (le_wal e) Poisoned) (\<lambda>w.
     rbind (lsm_total_entries (vs_tables (le_version e))) (\<lambda>sstable_entries.
     Inr \<lparr>lt_wal_records = wal_record_count w, lt_active_wal_id = wal_id w,
          lt_active_wal_first_sequence = wal_first_sequence w,
          lt_mutable_entries = mts_mutable_entries (le_memtables e),
          lt_immutable_memtables = mts_immutable_count (le_memtables e),
          lt_immutable_entries = mts_immutable_entries (le_memtables e),
          lt_sstables = length (le_tables e),
          lt_level0_sstables = lsm_level_count 0 (vs_tables (le_version e)),
          lt_level1_sstables = lsm_level_count 1 (vs_tables (le_version e)),
          lt_sstable_entries = sstable_entries,
          lt_durable_sequence = vs_durable_sequence (le_version e),
          lt_tombstone_gc_sequence = vs_tombstone_gc_sequence (le_version e)\<rparr>)))"

definition lsm_verify :: "(bytes \<Rightarrow> 32 word) \<Rightarrow> disk \<Rightarrow> (wal_verification \<times> lsm_stats) result" where
  "lsm_verify crc d =
     rbind (validate_layout d) (\<lambda>(l, has_version_set).
     rbind (if has_version_set then manifest_load crc d else Inr lsm_legacy_version) (\<lambda>v.
     rbind (rfold (\<lambda>total t.
              rbind (sst_open crc (disk_read d (sst_file_name (sd_table_id t))) t) (\<lambda>_.
              ok_or (checked_add64 total (sd_entry_count t)) (Corruption 0))) 0 (vs_tables v)) (\<lambda>sstable_entries.
     if vs_wal_id v \<notin> set (ly_wal_ids l) then Inl (Corruption 0)
     else rbind (mts_new MUTABLE_MEMTABLE_BYTES_LIMIT) (\<lambda>ms.
     rbind (wal_verify crc (lsm_replay_apply (vs_durable_sequence v)) (disk_read d (wal_file_name (vs_wal_id v)))
              (vs_wal_id v) (vs_wal_first_sequence v) ms) (\<lambda>(wv, ms').
     if vs_durable_sequence v \<ge> wv_next_sequence wv then Inl (Corruption 0)
     else Inr (wv, \<lparr>lt_wal_records = wv_record_count wv, lt_active_wal_id = wv_wal_id wv,
          lt_active_wal_first_sequence = wv_first_sequence wv,
          lt_mutable_entries = mts_mutable_entries ms', lt_immutable_memtables = mts_immutable_count ms',
          lt_immutable_entries = mts_immutable_entries ms', lt_sstables = length (vs_tables v),
          lt_level0_sstables = lsm_level_count 0 (vs_tables v),
          lt_level1_sstables = lsm_level_count 1 (vs_tables v),
          lt_sstable_entries = sstable_entries, lt_durable_sequence = vs_durable_sequence v,
          lt_tombstone_gc_sequence = vs_tombstone_gc_sequence v\<rparr>))))))"


subsection \<open>Lookups\<close>

fun lsm_search ::
    "(bytes \<Rightarrow> 32 word) \<Rightarrow> sstable list \<Rightarrow> bytes \<Rightarrow> nat \<Rightarrow> (versioned_entry option \<times> nat) result" where
  "lsm_search crc [] key consulted = Inr (None, consulted)"
| "lsm_search crc (t # ts) key consulted =
     (let consulted' = saturating_add64 consulted 1 in
      rbind (sst_get crc t key) (\<lambda>r.
        case r of Some entry \<Rightarrow> Inr (Some entry, consulted') | None \<Rightarrow> lsm_search crc ts key consulted'))"

definition lsm_current_entry_with_consults ::
    "(bytes \<Rightarrow> 32 word) \<Rightarrow> lsm_engine \<Rightarrow> bytes \<Rightarrow> (versioned_entry option \<times> nat) result" where
  "lsm_current_entry_with_consults crc e key =
     (case mts_get (le_memtables e) key of
        Some entry \<Rightarrow> Inr (Some entry, 0)
      | None \<Rightarrow> lsm_search crc (rev (le_tables e)) key 0)"

definition lsm_current_entry :: "(bytes \<Rightarrow> 32 word) \<Rightarrow> lsm_engine \<Rightarrow> bytes \<Rightarrow> versioned_entry option result" where
  "lsm_current_entry crc e key = rmap fst (lsm_current_entry_with_consults crc e key)"

definition lsm_current_value :: "(bytes \<Rightarrow> 32 word) \<Rightarrow> lsm_engine \<Rightarrow> bytes \<Rightarrow> bytes option result" where
  "lsm_current_value crc e key = rmap (\<lambda>entry. Option.bind entry ve_value) (lsm_current_entry crc e key)"


subsection \<open>Removing obsolete files\<close>

definition lsm_reclaim_obsolete_sstables :: "nat option \<Rightarrow> disk \<Rightarrow> disk" where
  "lsm_reclaim_obsolete_sstables active d =
     disk_remove (\<lambda>name. case parse_sst_name name of None \<Rightarrow> False | Some i \<Rightarrow> Some i \<noteq> active) d"

definition lsm_reclaim_obsolete_manifests :: "nat \<Rightarrow> disk \<Rightarrow> disk" where
  "lsm_reclaim_obsolete_manifests active d =
     disk_remove (\<lambda>name. case parse_manifest_name name of None \<Rightarrow> False | Some i \<Rightarrow> i \<noteq> active) d"

definition lsm_reclaim_obsolete_wals :: "nat \<Rightarrow> disk \<Rightarrow> disk" where
  "lsm_reclaim_obsolete_wals active d =
     disk_remove (\<lambda>name. case parse_wal_name name of None \<Rightarrow> False | Some i \<Rightarrow> i \<noteq> active) d"


subsection \<open>Compaction\<close>

definition lsm_sum_bytes :: "sstable_descriptor list \<Rightarrow> nat" where
  "lsm_sum_bytes ts = foldl (\<lambda>total t. saturating_add64 total (sd_file_bytes t)) 0 ts"

definition lsm_overlay_tables ::
    "(bytes \<Rightarrow> 32 word) \<Rightarrow> sstable list \<Rightarrow> bytes \<Rightarrow> bytes option \<Rightarrow> (nat \<times> entry_map) result" where
  "lsm_overlay_tables crc ts start stop =
     rfold (\<lambda>(n, visible) t. rmap (\<lambda>(k, visible'). (saturating_add64 n k, visible'))
              (sst_overlay_range crc t start stop visible)) (0, om_empty) ts"

definition lsm_create_compacted ::
    "(bytes \<Rightarrow> 32 word) \<Rightarrow> lsm_engine \<Rightarrow> entry_map \<Rightarrow> (sstable option \<times> nat) result \<times> lsm_engine" where
  \<comment> \<open>the replacement level-1 run, if anything survived, and the next table id\<close>
  "lsm_create_compacted crc e merged =
     (if merged = om_empty then (Inr (None, le_next_table_id e), e)
      else case lsm_checked_next_id (le_next_table_id e) of
        Inl err \<Rightarrow> (Inl err, e)
      | Inr next_table_id \<Rightarrow>
          (case sst_create_new_at_level crc (le_disk e) (le_next_table_id e) 1
                  (vs_durable_sequence (le_version e)) merged of
             (Inl err, d) \<Rightarrow> (Inl err, e\<lparr>le_disk := d\<rparr>)
           | (Inr t, d) \<Rightarrow>
               (Inr (Some t, next_table_id),
                e\<lparr>le_disk := d, le_instrumentation := (le_instrumentation e)
                    \<lparr>li_compaction_output_sstable_bytes_written :=
                       saturating_add64 (li_compaction_output_sstable_bytes_written (le_instrumentation e))
                         (sd_file_bytes (st_descriptor t))\<rparr>\<rparr>)))"

definition lsm_publish_compacted ::
    "(bytes \<Rightarrow> 32 word) \<Rightarrow> lsm_engine \<Rightarrow> sstable option \<Rightarrow> nat \<Rightarrow> nat \<Rightarrow> unit result \<times> lsm_engine" where
  "lsm_publish_compacted crc e table next_table_id next_manifest_id =
     (let v = le_version e;
          tables = (case table of None \<Rightarrow> [] | Some t \<Rightarrow> [t]);
          st = \<lparr>mn_durable_sequence = vs_durable_sequence v, mn_tombstone_gc_sequence = vs_durable_sequence v,
                mn_wal_id = vs_wal_id v, mn_wal_first_sequence = vs_wal_first_sequence v,
                mn_tables = map st_descriptor tables\<rparr> in
      case prepare_install crc v (le_next_manifest_id e) st (le_disk e) of
        (Inl err, d1) \<Rightarrow> (Inl err, e\<lparr>le_disk := d1\<rparr>)
      | (Inr compacted, d1) \<Rightarrow>
          (case publish_prepared crc compacted d1 of
             (Inl err, d2) \<Rightarrow> (Inl err, e\<lparr>le_disk := d2\<rparr>)
           | (Inr _, d2) \<Rightarrow>
               (case mirror_current crc compacted d2 of
                  (Inl err, d3) \<Rightarrow> (Inl err, e\<lparr>le_disk := d3\<rparr>)
                | (Inr mirrored, d3) \<Rightarrow>
                    (let d4 = lsm_reclaim_obsolete_sstables
                           (map_option (\<lambda>t. sd_table_id (st_descriptor t)) table) d3;
                         d5 = lsm_reclaim_obsolete_manifests (vs_manifest_id mirrored) d4
                     in (Inr (), e\<lparr>le_disk := d5, le_tables := tables, le_version := mirrored,
                           le_next_table_id := next_table_id, le_next_manifest_id := next_manifest_id\<rparr>)))))"

definition lsm_compact_level0_after_trigger ::
    "(bytes \<Rightarrow> 32 word) \<Rightarrow> lsm_engine \<Rightarrow> unit result \<times> lsm_engine" where
  "lsm_compact_level0_after_trigger crc e =
     (case rbind (lsm_overlay_tables crc (le_tables e) [] None) (\<lambda>(_, merged).
           rbind (ensure (merged \<noteq> om_empty) (Corruption 0)) (\<lambda>_.
           rbind (lsm_checked_next_id (le_next_manifest_id e)) (\<lambda>next_manifest_id.
           rbind (ensure (\<not> list_ex (\<lambda>(_, entry). ve_sequence entry > vs_durable_sequence (le_version e)) (entries merged))
                    (Corruption 0)) (\<lambda>_.
           Inr (om_filter (\<lambda>_ entry. ve_value entry \<noteq> None) merged, next_manifest_id))))) of
        Inl err \<Rightarrow> (Inl err, e)
      | Inr (merged, next_manifest_id) \<Rightarrow>
          (case lsm_create_compacted crc e merged of
             (Inl err, e1) \<Rightarrow> (Inl err, e1)
           | (Inr (table, next_table_id), e1) \<Rightarrow>
               lsm_publish_compacted crc e1 table next_table_id next_manifest_id))"

definition lsm_maybe_compact_level0 :: "(bytes \<Rightarrow> 32 word) \<Rightarrow> lsm_engine \<Rightarrow> unit result \<times> lsm_engine" where
  "lsm_maybe_compact_level0 crc e =
     (if lsm_level_count 0 (vs_tables (le_version e)) < LEVEL0_COMPACTION_TRIGGER then (Inr (), e)
      else lsm_compact_level0_after_trigger crc
        (e\<lparr>le_instrumentation := (le_instrumentation e)
             \<lparr>li_compactions := saturating_add64 (li_compactions (le_instrumentation e)) 1,
              li_compaction_input_sstable_bytes :=
                saturating_add64 (li_compaction_input_sstable_bytes (le_instrumentation e))
                  (lsm_sum_bytes (vs_tables (le_version e)))\<rparr>\<rparr>))"


subsection \<open>WAL rotation\<close>

definition lsm_rotate_wal :: "(bytes \<Rightarrow> 32 word) \<Rightarrow> lsm_engine \<Rightarrow> nat \<Rightarrow> unit result \<times> lsm_engine" where
  "lsm_rotate_wal crc e first_sequence =
     (case rbind (lsm_checked_next_id (le_next_wal_id e)) (\<lambda>following_wal_id.
           rbind (lsm_checked_next_id (le_next_manifest_id e)) (\<lambda>following_manifest_id.
           Inr (following_wal_id, following_manifest_id))) of
        Inl err \<Rightarrow> (Inl err, e)
      | Inr (following_wal_id, following_manifest_id) \<Rightarrow>
          (case lsm_wal_create crc (le_next_wal_id e) first_sequence (le_disk e) of
             (Inl err, d1) \<Rightarrow> (Inl err, e\<lparr>le_disk := d1\<rparr>)
           | (Inr new_wal, d1) \<Rightarrow>
               (let v = le_version e;
                    st = \<lparr>mn_durable_sequence = vs_durable_sequence v,
                          mn_tombstone_gc_sequence = vs_tombstone_gc_sequence v,
                          mn_wal_id = le_next_wal_id e, mn_wal_first_sequence = first_sequence,
                          mn_tables = vs_tables v\<rparr> in
                case manifest_install crc v (le_next_manifest_id e) st d1 of
                  (Inl err, d2) \<Rightarrow> (Inl err, e\<lparr>le_disk := d2\<rparr>)
                | (Inr rotated, d2) \<Rightarrow>
                    (case mirror_current crc rotated d2 of
                       (Inl err, d3) \<Rightarrow> (Inl err, e\<lparr>le_disk := d3\<rparr>)
                     | (Inr mirrored, d3) \<Rightarrow>
                         (let d4 = lsm_reclaim_obsolete_wals (le_next_wal_id e) d3;
                              d5 = lsm_reclaim_obsolete_manifests (vs_manifest_id mirrored) d4
                          in (Inr (), e\<lparr>le_disk := d5, le_wal := Some new_wal, le_version := mirrored,
                                le_next_wal_id := following_wal_id,
                                le_next_manifest_id := following_manifest_id\<rparr>))))))"

definition lsm_maybe_rotate_wal :: "(bytes \<Rightarrow> 32 word) \<Rightarrow> lsm_engine \<Rightarrow> unit result \<times> lsm_engine" where
  "lsm_maybe_rotate_wal crc e =
     (case checked_add64 (vs_durable_sequence (le_version e)) 1 of
        None \<Rightarrow> (Inr (), e)
      | Some first_sequence \<Rightarrow>
          (case le_wal e of
             None \<Rightarrow> (Inl Poisoned, e)
           | Some w \<Rightarrow>
               if wal_record_count w = 0 \<or> wal_next_sequence w \<noteq> first_sequence \<or>
                  wal_first_sequence w = first_sequence then (Inr (), e)
               else lsm_rotate_wal crc e first_sequence))"


subsection \<open>Flushing\<close>

definition lsm_ensure_version_set :: "(bytes \<Rightarrow> 32 word) \<Rightarrow> lsm_engine \<Rightarrow> unit result \<times> lsm_engine" where
  "lsm_ensure_version_set crc e =
     (if vs_manifest_id (le_version e) = 0 then
        (case le_wal e of
           None \<Rightarrow> (Inl Poisoned, e)
         | Some w \<Rightarrow>
             (case manifest_create_initial crc (wal_id w) (wal_first_sequence w) (le_disk e) of
                (Inl err, d) \<Rightarrow> (Inl err, e\<lparr>le_disk := d\<rparr>)
              | (Inr v, d) \<Rightarrow> (Inr (), e\<lparr>le_disk := d, le_version := v, le_next_manifest_id := 2\<rparr>)))
      else (Inr (), e))"

definition lsm_flush_table ::
    "(bytes \<Rightarrow> 32 word) \<Rightarrow> entry_map \<Rightarrow> nat \<Rightarrow> lsm_engine \<Rightarrow> unit result \<times> lsm_engine" where
  "lsm_flush_table crc m durable_sequence e =
     (case rbind (ok_or (checked_add64 (le_next_table_id e) 1) (Corruption 0)) (\<lambda>next_table_id.
           rbind (ok_or (checked_add64 (le_next_manifest_id e) 1) (Corruption 0)) (\<lambda>next_manifest_id.
           Inr (next_table_id, next_manifest_id))) of
        Inl err \<Rightarrow> (Inl err, e)
      | Inr (next_table_id, next_manifest_id) \<Rightarrow>
          (case sst_create_new crc (le_disk e) (le_next_table_id e) durable_sequence m of
             (Inl err, d1) \<Rightarrow> (Inl err, e\<lparr>le_disk := d1\<rparr>)
           | (Inr t, d1) \<Rightarrow>
               (let li = le_instrumentation e;
                    e1 = e\<lparr>le_disk := d1, le_instrumentation := li\<lparr>li_flushes := saturating_add64 (li_flushes li) 1,
                           li_flush_sstable_bytes_written := saturating_add64 (li_flush_sstable_bytes_written li)
                             (sd_file_bytes (st_descriptor t))\<rparr>\<rparr>;
                    v = le_version e;
                    st = \<lparr>mn_durable_sequence = durable_sequence,
                          mn_tombstone_gc_sequence = vs_tombstone_gc_sequence v, mn_wal_id = vs_wal_id v,
                          mn_wal_first_sequence = vs_wal_first_sequence v,
                          mn_tables = vs_tables v @ [st_descriptor t]\<rparr> in
                case manifest_install crc v (le_next_manifest_id e) st d1 of
                  (Inl err, d2) \<Rightarrow> (Inl err, e1\<lparr>le_disk := d2\<rparr>)
                | (Inr next_version, d2) \<Rightarrow>
                    (let e2 = e1\<lparr>le_disk := d2, le_tables := le_tables e @ [t], le_version := next_version,
                               le_next_table_id := next_table_id, le_next_manifest_id := next_manifest_id\<rparr> in
                     case mts_retire_oldest_immutable (le_memtables e) of
                       Inl err \<Rightarrow> (Inl err, e2)
                     | Inr ms \<Rightarrow> (Inr (), e2\<lparr>le_memtables := ms\<rparr>)))))"

definition lsm_flush_oldest ::
    "(bytes \<Rightarrow> 32 word) \<Rightarrow> entry_map \<Rightarrow> nat \<Rightarrow> lsm_engine \<Rightarrow> unit result \<times> lsm_engine" where
  "lsm_flush_oldest crc m durable_sequence e =
     (case lsm_ensure_version_set crc e of
        (Inl err, e1) \<Rightarrow> (Inl err, e1)
      | (Inr _, e1) \<Rightarrow> lsm_flush_table crc m durable_sequence e1)"

lemma lsm_flush_oldest_retires:
  assumes "lsm_flush_oldest crc m q e = (Inr (), e')"
  shows "ms_immutable (le_memtables e) \<noteq> [] \<and> ms_immutable (le_memtables e') = tl (ms_immutable (le_memtables e))"
proof -
  obtain e1 where e1: "lsm_ensure_version_set crc e = (Inr (), e1)" "lsm_flush_table crc m q e1 = (Inr (), e')"
    using assms by (auto simp: lsm_flush_oldest_def split: prod.splits sum.splits)
  have "le_memtables e1 = le_memtables e"
    using e1(1) by (auto simp: lsm_ensure_version_set_def split: if_splits option.splits prod.splits sum.splits)
  moreover have "ms_immutable (le_memtables e1) \<noteq> [] \<and> ms_immutable (le_memtables e') = tl (ms_immutable (le_memtables e1))"
    using e1(2) by (auto simp: lsm_flush_table_def mts_retire_oldest_immutable_def Let_def
        split: if_splits prod.splits sum.splits)
  ultimately show ?thesis by simp
qed

text \<open>The \<open>while let\<close> loop of \<open>flush_frozen_memtables\<close>: every iteration retires one table.\<close>

function lsm_flush_loop :: "(bytes \<Rightarrow> 32 word) \<Rightarrow> lsm_engine \<Rightarrow> unit result \<times> lsm_engine" where
  "lsm_flush_loop crc e =
     (case mts_oldest_immutable_snapshot (le_memtables e) of
        Inl err \<Rightarrow> (Inl err, e)
      | Inr None \<Rightarrow> (Inr (), e)
      | Inr (Some (m, durable_sequence)) \<Rightarrow>
          (case lsm_flush_oldest crc m durable_sequence e of
             (Inl err, e1) \<Rightarrow> (Inl err, e1)
           | (Inr _, e1) \<Rightarrow> lsm_flush_loop crc e1))"
  by pat_completeness auto
termination
  by (relation "measure (\<lambda>(_, e). length (ms_immutable (le_memtables e)))")
     (auto dest!: sym [where t = "lsm_flush_oldest _ _ _ _"] lsm_flush_oldest_retires)

declare lsm_flush_loop.simps [simp del]

definition lsm_flush_frozen_memtables :: "(bytes \<Rightarrow> 32 word) \<Rightarrow> lsm_engine \<Rightarrow> unit result \<times> lsm_engine" where
  "lsm_flush_frozen_memtables crc e =
     (case lsm_flush_loop crc e of
        (Inl err, e1) \<Rightarrow> (Inl err, e1)
      | (Inr _, e1) \<Rightarrow>
          (case lsm_maybe_compact_level0 crc e1 of
             (Inl err, e2) \<Rightarrow> (Inl err, e2)
           | (Inr _, e2) \<Rightarrow> lsm_maybe_rotate_wal crc e2))"


subsection \<open>Mutations\<close>

definition lsm_persist_and_apply ::
    "(bytes \<Rightarrow> 32 word) \<Rightarrow> lsm_engine \<Rightarrow> mutation_kind \<Rightarrow> bytes \<Rightarrow> bytes option \<Rightarrow> unit result \<times> lsm_engine" where
  "lsm_persist_and_apply crc e kind key val =
     (case lsm_ensure_usable e of
        Inl err \<Rightarrow> (Inl err, e)
      | Inr _ \<Rightarrow>
     (case le_wal e of
        None \<Rightarrow> (Inl Poisoned, e)
      | Some w \<Rightarrow>
     (case lsm_wal_append crc kind key (case val of None \<Rightarrow> [] | Some x \<Rightarrow> x) w (le_disk e) of
        (Inl err, w', d') \<Rightarrow> (Inl err, e\<lparr>le_disk := d', le_wal := Some w', le_poisoned := True\<rparr>)
      | (Inr q, w', d') \<Rightarrow>
          (let li = le_instrumentation e;
               val_len = (case val of None \<Rightarrow> 0 | Some x \<Rightarrow> length x);
               encoded = saturating_add64 (saturating_add64 WAL_RECORD_HEADER_LEN (length key)) val_len;
               e1 = e\<lparr>le_disk := d', le_wal := Some w', le_instrumentation :=
                      li\<lparr>li_wal_record_bytes_written := saturating_add64 (li_wal_record_bytes_written li) encoded\<rparr>\<rparr> in
           case mts_apply (le_memtables e1) q key val of
             Inl err \<Rightarrow> (Inl err, e1\<lparr>le_poisoned := True\<rparr>)
           | Inr ms \<Rightarrow>
               (case lsm_flush_frozen_memtables crc (e1\<lparr>le_memtables := ms\<rparr>) of
                  (Inl err, e2) \<Rightarrow> (Inl err, e2\<lparr>le_poisoned := True\<rparr>)
                | (Inr _, e2) \<Rightarrow>
                    (let li2 = le_instrumentation e2 in
                     (Inr (), e2\<lparr>le_instrumentation :=
                        li2\<lparr>li_logical_mutations := saturating_add64 (li_logical_mutations li2) 1,
                            li_logical_mutation_bytes := saturating_add64 (li_logical_mutation_bytes li2)
                              (saturating_add64 (length key) val_len)\<rparr>\<rparr>)))))))"


subsection \<open>The engine operations\<close>

definition lsm_capabilities :: "lsm_engine \<Rightarrow> engine_capabilities" where
  "lsm_capabilities e =
     \<lparr>ec_logical_model = KeyValue, ec_storage_architecture = LsmTree, ec_concurrency = CallerSerialized,
      ec_persistence = Persistent, ec_crash_recovery = WriteAheadLogReplay, ec_distribution = Standalone,
      ec_ordered_range_scan = True, ec_max_key_bytes = MAX_KEY_BYTES, ec_max_value_bytes = MAX_VALUE_BYTES\<rparr>"

definition lsm_put :: "(bytes \<Rightarrow> 32 word) \<Rightarrow> lsm_engine \<Rightarrow> bytes \<Rightarrow> bytes \<Rightarrow> bytes option result \<times> lsm_engine" where
  "lsm_put crc e key val =
     (case rbind (validate_key_value key val) (\<lambda>_. rbind (lsm_ensure_usable e) (\<lambda>_. lsm_current_value crc e key)) of
        Inl err \<Rightarrow> (Inl err, e)
      | Inr previous \<Rightarrow>
          (case lsm_persist_and_apply crc e MPut key (Some val) of
             (Inl err, e') \<Rightarrow> (Inl err, e')
           | (Inr _, e') \<Rightarrow> (Inr previous, e')))"

definition lsm_get :: "(bytes \<Rightarrow> 32 word) \<Rightarrow> lsm_engine \<Rightarrow> bytes \<Rightarrow> bytes option result \<times> lsm_engine" where
  "lsm_get crc e key =
     (case rbind (validate_key key) (\<lambda>_. rbind (lsm_ensure_usable e) (\<lambda>_. lsm_current_entry_with_consults crc e key)) of
        Inl err \<Rightarrow> (Inl err, e)
      | Inr (entry, consulted) \<Rightarrow>
          (let li = le_instrumentation e in
           (Inr (Option.bind entry ve_value),
            e\<lparr>le_instrumentation := li\<lparr>li_point_reads := saturating_add64 (li_point_reads li) 1,
               li_point_sstable_consults := saturating_add64 (li_point_sstable_consults li) consulted\<rparr>\<rparr>)))"

definition lsm_delete :: "(bytes \<Rightarrow> 32 word) \<Rightarrow> lsm_engine \<Rightarrow> bytes \<Rightarrow> bytes option result \<times> lsm_engine" where
  "lsm_delete crc e key =
     (case rbind (validate_key key) (\<lambda>_. rbind (lsm_ensure_usable e) (\<lambda>_. lsm_current_value crc e key)) of
        Inl err \<Rightarrow> (Inl err, e)
      | Inr previous \<Rightarrow>
          (case lsm_persist_and_apply crc e MDelete key None of
             (Inl err, e') \<Rightarrow> (Inl err, e')
           | (Inr _, e') \<Rightarrow> (Inr previous, e')))"

definition live_entries :: "entry_map \<Rightarrow> (bytes \<times> bytes) list" where
  "live_entries m = List.map_filter (\<lambda>(key, entry). map_option (\<lambda>val. (key, val)) (ve_value entry)) (entries m)"

definition lsm_range_scan ::
    "(bytes \<Rightarrow> 32 word) \<Rightarrow> lsm_engine \<Rightarrow> bytes \<Rightarrow> bytes option \<Rightarrow> nat \<Rightarrow>
       (bytes \<times> bytes) list result \<times> lsm_engine" where
  "lsm_range_scan crc e start stop limit =
     (case rbind (validate_range_scan start stop) (\<lambda>_. lsm_ensure_usable e) of
        Inl err \<Rightarrow> (Inl err, e)
      | Inr _ \<Rightarrow>
          (let li = le_instrumentation e;
               e1 = e\<lparr>le_instrumentation := li\<lparr>li_range_scans := saturating_add64 (li_range_scans li) 1\<rparr>\<rparr> in
           if limit = 0 \<or> stop = Some start then (Inr [], e1)
           else case lsm_overlay_tables crc (le_tables e) start stop of
             Inl err \<Rightarrow> (Inl err, e1)
           | Inr (decoded_records, visible0) \<Rightarrow>
               (let visible = fold overlay_entry (om_range start stop (mts_visible_state (le_memtables e))) visible0;
                    result = take limit (live_entries visible);
                    li1 = le_instrumentation e1 in
                (Inr result, e1\<lparr>le_instrumentation :=
                   li1\<lparr>li_range_sstable_records_decoded :=
                         saturating_add64 (li_range_sstable_records_decoded li1) decoded_records,
                       li_range_result_records :=
                         saturating_add64 (li_range_result_records li1) (length result)\<rparr>\<rparr>))))"

definition lsm_reopen :: "(bytes \<Rightarrow> 32 word) \<Rightarrow> lsm_engine \<Rightarrow> unit result \<times> lsm_engine" where
  "lsm_reopen crc e =
     (case lsm_open_existing crc (le_disk e) of
        (Inl err, d) \<Rightarrow> (Inl err, e\<lparr>le_disk := d, le_wal := None, le_poisoned := True\<rparr>)
      | (Inr e', d) \<Rightarrow> (Inr (), e'\<lparr>le_instrumentation := le_instrumentation e\<rparr>))"

definition lsm_ops :: "(bytes \<Rightarrow> 32 word) \<Rightarrow> lsm_engine kv_ops" where
  "lsm_ops crc =
     \<lparr>op_capabilities = lsm_capabilities, op_put = lsm_put crc, op_get = lsm_get crc,
      op_delete = lsm_delete crc, op_range_scan = lsm_range_scan crc, op_reopen = lsm_reopen crc\<rparr>"

end
