(* ===== verification/SsTableSpec.thy ===== *)
theory SsTableSpec
  imports SsTable
begin

text \<open>
  What an SSTable file holds: the image of an ordered map, the round trip of building and
  opening it, what a successful \<open>open\<close> of arbitrary bytes guarantees, and point lookup and
  range overlay against the map.
\<close>

subsection \<open>Header and footer round trips\<close>

lemma length_sst_encode_header [simp]: "length (sst_encode_header crc v t n d i f) = 64"
  by (simp add: sst_encode_header_def Let_def)

lemma length_sst_encode_footer [simp]: "length (sst_encode_footer crc v t n i f q w) = 64"
  by (simp add: sst_encode_footer_def Let_def)

lemma le_bytes_zero: "le_bytes k 0 = replicate k 0"
  by (induction k) simp_all

lemmas zero_bytes4 = le_bytes_zero [of 4, symmetric]

lemma sst_parse_encode_header:
  assumes "v = 1 \<or> v = 2" "t \<le> u64_max" "n \<le> u64_max" "d \<le> u64_max" "i \<le> u64_max" "f \<le> u64_max"
  shows "sst_parse_header crc (sst_encode_header crc v t n d i f) =
    Inr \<lparr>sh_format_version = v, sh_table_id = t, sh_entry_count = n, sh_data_offset = d,
         sh_index_offset = i, sh_footer_offset = f\<rparr>"
proof -
  define h where "h = SSTABLE_MAGIC @ le_bytes 2 v @ le_bytes 2 SSTABLE_HEADER_LEN @ le_bytes 4 0 @
    le_bytes 8 t @ le_bytes 8 n @ le_bytes 8 d @ le_bytes 8 i @ le_bytes 8 f @ le_bytes 4 0"
  have x: "sst_encode_header crc v t n d i f = h @ crc_field (crc h)"
    by (simp add: sst_encode_header_def Let_def h_def zero_bytes4 del: le_bytes.simps)
  have l: "length h = 60" by (simp add: h_def)
  have fields: "seg 0 8 (h @ r) = SSTABLE_MAGIC" "seg 8 10 (h @ r) = le_bytes 2 v"
    "seg 10 12 (h @ r) = le_bytes 2 SSTABLE_HEADER_LEN" "seg 12 16 (h @ r) = le_bytes 4 0"
    "seg 16 24 (h @ r) = le_bytes 8 t" "seg 24 32 (h @ r) = le_bytes 8 n"
    "seg 32 40 (h @ r) = le_bytes 8 d" "seg 40 48 (h @ r) = le_bytes 8 i"
    "seg 48 56 (h @ r) = le_bytes 8 f" "seg 56 60 (h @ r) = le_bytes 4 0" for r
    by (simp_all add: h_def layout del: le_bytes.simps)
  have tail: "take 60 (h @ crc_field (crc h)) = h" "seg 60 64 (h @ crc_field (crc h)) = crc_field (crc h)"
    by (simp_all add: l layout)
  show ?thesis
    unfolding x sst_parse_header_def fields tail Let_def zero_bytes4 using assms
    by (auto simp: l SSTABLE_HEADER_LEN_def SST_LEGACY_VERSION_def SST_FORMAT_VERSION_def simp del: le_bytes.simps)
qed

lemma sst_parse_encode_footer:
  assumes "v = 1 \<or> v = 2" "t \<le> u64_max" "n \<le> u64_max" "i \<le> u64_max" "f \<le> u64_max" "q \<le> u64_max"
  shows "sst_parse_footer crc (sst_encode_footer crc v t n i f q w) off =
    Inr \<lparr>sf_format_version = v, sf_table_id = t, sf_entry_count = n, sf_index_offset = i,
         sf_footer_offset = f, sf_durable_sequence = q, sf_whole_crc = unat w\<rparr>"
proof -
  define h where "h = SSTABLE_FOOTER_MAGIC @ le_bytes 2 v @ le_bytes 2 SSTABLE_FOOTER_LEN @ le_bytes 4 0 @
    le_bytes 8 t @ le_bytes 8 n @ le_bytes 8 i @ le_bytes 8 f @ le_bytes 8 q @ crc_field w"
  have x: "sst_encode_footer crc v t n i f q w = h @ crc_field (crc h)"
    by (simp add: sst_encode_footer_def Let_def h_def zero_bytes4 del: le_bytes.simps)
  have l: "length h = 60" by (simp add: h_def)
  have fields: "seg 0 8 (h @ r) = SSTABLE_FOOTER_MAGIC" "seg 8 10 (h @ r) = le_bytes 2 v"
    "seg 10 12 (h @ r) = le_bytes 2 SSTABLE_FOOTER_LEN" "seg 12 16 (h @ r) = le_bytes 4 0"
    "seg 16 24 (h @ r) = le_bytes 8 t" "seg 24 32 (h @ r) = le_bytes 8 n"
    "seg 32 40 (h @ r) = le_bytes 8 i" "seg 40 48 (h @ r) = le_bytes 8 f"
    "seg 48 56 (h @ r) = le_bytes 8 q" "seg 56 60 (h @ r) = crc_field w" for r
    by (simp_all add: h_def layout del: le_bytes.simps)
  have tail: "take 60 (h @ crc_field (crc h)) = h" "seg 60 64 (h @ crc_field (crc h)) = crc_field (crc h)"
    by (simp_all add: l layout)
  show ?thesis
    unfolding x sst_parse_footer_def fields tail Let_def zero_bytes4 using assms
    by (auto simp: l SSTABLE_FOOTER_LEN_def SST_LEGACY_VERSION_def SST_FORMAT_VERSION_def simp del: le_bytes.simps)
qed


subsection \<open>Tables that denote a map\<close>

definition row_entry :: "bytes \<times> versioned_entry \<times> nat \<Rightarrow> bytes \<times> versioned_entry" where
  "row_entry r = (case r of (k, e, off) \<Rightarrow> (k, e))"

definition row_decodes :: "(bytes \<Rightarrow> 32 word) \<Rightarrow> bytes \<Rightarrow> bytes \<times> versioned_entry \<times> nat \<Rightarrow> bool" where
  "row_decodes crc bs r = (case r of (k, e, off) \<Rightarrow>
     (\<exists>next. sst_decode_record crc bs off (length bs) = Inr (k, e, next)))"

definition sst_denotes :: "(bytes \<Rightarrow> 32 word) \<Rightarrow> sstable \<Rightarrow> entry_map \<Rightarrow> bool" where
  "sst_denotes crc t m \<longleftrightarrow>
     (\<exists>rows. map row_entry rows = entries m \<and> st_index t = map index_of_row rows \<and>
        (\<forall>r \<in> set rows. row_decodes crc (st_bytes t) r)) \<and>
     m \<noteq> om_empty \<and>
     sd_smallest_key (st_descriptor t) = hd (om_keys m) \<and>
     sd_largest_key (st_descriptor t) = last (om_keys m) \<and>
     sd_entry_count (st_descriptor t) = om_size m \<and>
     (\<forall>flt. st_bloom t = Some flt \<longrightarrow> (\<forall>k \<in> set (om_keys m). bloom_may_contain flt k)) \<and>
     seqs_upto (sd_durable_sequence (st_descriptor t)) m"

lemma row_entry_simp [simp]: "row_entry (k, e, off) = (k, e)"
  by (simp add: row_entry_def)

lemma ix_key_row [simp]: "ix_key (index_of_row r) = fst (row_entry r)"
  by (simp add: index_of_row_def row_entry_def split: prod.split)

lemma sst_read_records_sound:
  assumes "sst_read_records crc bs off lim prev = Inr (rows, fin)" "lim \<le> length bs"
  shows "al_ord (map row_entry rows) \<and> (\<forall>r \<in> set rows. row_decodes crc bs r) \<and>
    (\<forall>p. prev = Some p \<longrightarrow> (\<forall>r \<in> set rows. p < fst (row_entry r)))"
  using assms
proof (induction crc bs off lim prev arbitrary: rows fin rule: sst_read_records.induct)
  case (1 crc bs off lim prev)
  show ?case
  proof (cases "off < lim")
    case False
    then show ?thesis using "1.prems" by (simp add: sst_read_records.simps)
  next
    case True
    then obtain key e nxt rest where d: "sst_decode_record crc bs off lim = Inr (key, e, nxt)"
      and p: "\<not> (case prev of None \<Rightarrow> False | Some p \<Rightarrow> p \<ge> key)"
      and r: "sst_read_records crc bs nxt lim (Some key) = Inr (rest, fin)"
      and rows: "rows = (key, e, off) # rest"
      using "1.prems"(1)
      by (subst (asm) sst_read_records.simps) (auto simp: result_iff split: if_splits)
    have IH: "al_ord (map row_entry rest)" "\<forall>r \<in> set rest. row_decodes crc bs r"
      "\<forall>r \<in> set rest. key < fst (row_entry r)"
      using "1.IH" [OF True d refl refl p r "1.prems"(2)] by auto
    have "row_decodes crc bs (key, e, off)"
      using sst_decode_record_limit [OF d "1.prems"(2)] by (auto simp: row_decodes_def)
    moreover have "\<forall>q. prev = Some q \<longrightarrow> q < key" using p by auto
    ultimately show ?thesis
      using IH by (auto simp: rows intro: less_trans)
  qed
qed

lemma sst_check_pairs:
  assumes "rfold (\<lambda>_ p. sst_check_pair p) () (zip rows index) = Inr ()" "length rows = length index"
  shows "index = map index_of_row rows"
  using assms(2,1)
proof (induction rows index rule: list_induct2)
  case Nil
  show ?case by simp
next
  case (Cons r rows ix index)
  then show ?case
    by (auto simp: sst_check_pair_def index_of_row_def result_iff split: prod.splits if_splits)
qed

lemma map_row_entry: "\<exists>m. entries m = map row_entry rows" if "al_ord (map row_entry rows)"
  using that OrdMap_inverse by blast

lemma fold_max_bound: "fold max xs a \<le> (b :: nat) \<longleftrightarrow> a \<le> b \<and> (\<forall>x \<in> set xs. x \<le> b)"
  by (induction xs arbitrary: a) auto

lemma index_sequences: "map ix_sequence (map index_of_row rows) = map (ve_sequence \<circ> snd) (map row_entry rows)"
  by (simp add: index_of_row_def row_entry_def split_beta)

lemma index_keys: "map ix_key (map index_of_row rows) = map fst (map row_entry rows)"
  by simp

lemma rows_denote:
  assumes rows: "al_ord (map row_entry rows)" "\<forall>r \<in> set rows. row_decodes crc (st_bytes t) r"
    and t: "st_index t = map index_of_row rows" "rows \<noteq> []" "length rows = sd_entry_count (st_descriptor t)"
    and d: "ix_key (hd (st_index t)) = sd_smallest_key (st_descriptor t)"
      "ix_key (last (st_index t)) = sd_largest_key (st_descriptor t)"
      "fold max (map ix_sequence (st_index t)) 0 \<le> sd_durable_sequence (st_descriptor t)"
    and b: "case st_bloom t of None \<Rightarrow> True | Some flt \<Rightarrow> list_all (\<lambda>e. bloom_may_contain flt (ix_key e)) (st_index t)"
    and m: "entries m = map row_entry rows"
  shows "sst_denotes crc t m"
proof -
  have keys: "om_keys m = map ix_key (st_index t)"
    by (simp add: om_keys_def m t(1))
  have ne: "m \<noteq> om_empty" using m t(2) by (metis entries_empty map_is_Nil_conv)
  have "seqs_upto (sd_durable_sequence (st_descriptor t)) m"
    unfolding seqs_upto_def
  proof (intro allI impI)
    fix k e
    assume "om_lookup m k = Some e"
    then have "ve_sequence e \<in> set (map (ve_sequence \<circ> snd) (map row_entry rows))"
      unfolding m [symmetric] by (force simp: set_entries [symmetric])
    then show "ve_sequence e \<le> sd_durable_sequence (st_descriptor t)"
      using d(3) unfolding t(1) index_sequences fold_max_bound by blast
  qed
  moreover have "hd (om_keys m) = sd_smallest_key (st_descriptor t)" "last (om_keys m) = sd_largest_key (st_descriptor t)"
    using d(1,2) t(1,2) keys by (simp_all add: hd_map last_map)
  moreover have "\<forall>flt. st_bloom t = Some flt \<longrightarrow> (\<forall>k \<in> set (om_keys m). bloom_may_contain flt k)"
    using b keys by (auto simp: list_all_iff)
  moreover have "om_size m = length rows" by (simp add: om_size_def m)
  ultimately show ?thesis
    unfolding sst_denotes_def using rows(2) t m ne by auto
qed

lemma sst_open_denotes:
  assumes "sst_open crc existing d = Inr t"
  shows "existing = Some (st_bytes t) \<and> st_descriptor t = d \<and> (\<exists>m. sst_denotes crc t m)"
proof -
  from assms obtain bs h xl xn bloom u where bs: "existing = Some bs"
    and h: "sst_parse_header crc (take SSTABLE_HEADER_LEN bs) = Inr h"
    and l: "sh_footer_offset h + SSTABLE_FOOTER_LEN = length bs"
      "\<not> (sh_footer_offset h < sh_index_offset h \<or> sh_index_offset h < sh_data_offset h)"
    and r: "sst_read_records crc bs (sh_data_offset h) (sh_index_offset h) None = Inr xl"
    and n: "length (fst xl) = sh_entry_count h" "sh_entry_count h = sd_entry_count d"
    and ri: "sst_read_index crc bs (sh_index_offset h) (sh_footer_offset h) None = Inr xn"
    and n': "length (fst xn) = sh_entry_count h"
    and z: "rfold (\<lambda>_ p. sst_check_pair p) () (zip (fst xl) (fst xn)) = Inr u"
    and ne: "fst xn \<noteq> []"
    and k: "ix_key (hd (fst xn)) = sd_smallest_key d" "ix_key (last (fst xn)) = sd_largest_key d"
      "fold max (map ix_sequence (fst xn)) 0 \<le> sd_durable_sequence d"
      "case bloom of None \<Rightarrow> True | Some flt \<Rightarrow> list_all (\<lambda>e. bloom_may_contain flt (ix_key e)) (fst xn)"
    and t: "Inr \<lparr>st_descriptor = d, st_bytes = bs, st_index = fst xn, st_bloom = bloom\<rparr> = (Inr t :: sstable result)"
    unfolding sst_open_def Let_def result_iff checked_add64_eq_Some not_less split_beta
    by (elim exE conjE) (rule that, assumption, assumption, simp only:, assumption+)
  obtain rows fin where xl: "xl = (rows, fin)" by force
  define index where "index = fst xn"
  have lim: "sh_index_offset h \<le> length bs" using l by linarith
  have rows: "al_ord (map row_entry rows)" "\<forall>r \<in> set rows. row_decodes crc bs r"
    using sst_read_records_sound [OF r [unfolded xl] lim] by auto
  have ix: "index = map index_of_row rows" using sst_check_pairs z n n' by (auto simp: index_def xl)
  obtain m where m: "entries m = map row_entry rows" using map_row_entry [OF rows(1)] by blast
  have "sst_denotes crc t m"
    using t rows ix ne n n' k m unfolding index_def [symmetric]
    by (intro rows_denote [where rows = rows]) (auto simp: xl split: option.splits)
  then show ?thesis using bs t by auto
qed


subsection \<open>Reading a table that denotes a map\<close>

lemma find_index_row:
  "List.find (\<lambda>e. ix_key e = key) (map index_of_row rows) =
    map_option index_of_row (List.find (\<lambda>r. fst (row_entry r) = key) rows)"
  by (induction rows) simp_all

lemma find_row_entry:
  "map_option row_entry (List.find (\<lambda>r. fst (row_entry r) = key) rows) =
    map_option (\<lambda>e. (key, e)) (map_of (map row_entry rows) key)"
proof (induction rows)
  case Nil
  show ?case by simp
next
  case (Cons r rows)
  then show ?case by (cases r) auto
qed

lemma sorted_hd_last:
  assumes "k \<in> set (om_keys m)"
  shows "hd (om_keys m) \<le> k \<and> k \<le> last (om_keys m)"
proof -
  have "sorted (om_keys m)"
    using entries_ord [of m] by (simp add: om_keys_def al_ord_def strict_sorted_iff)
  then show ?thesis using assms
    by (metis hd_conv_nth in_set_conv_nth last_conv_nth length_greater_0_conv length_pos_if_in_set
        sorted_nth_mono diff_less less_Suc_eq_le less_one Suc_pred' le0 less_numeral_extra(1))
qed

lemma sst_get_denoted:
  assumes "sst_denotes crc t m"
  shows "sst_get crc t key = Inr (om_lookup m key)"
proof -
  from assms obtain rows where rows: "map row_entry rows = entries m" "st_index t = map index_of_row rows"
    "\<forall>r \<in> set rows. row_decodes crc (st_bytes t) r" by (auto simp: sst_denotes_def)
  let ?skip = "key < sd_smallest_key (st_descriptor t) \<or> key > sd_largest_key (st_descriptor t) \<or>
    (case st_bloom t of None \<Rightarrow> False | Some flt \<Rightarrow> \<not> bloom_may_contain flt key)"
  have skip: "om_lookup m key = None" if "?skip"
  proof (rule ccontr)
    assume "om_lookup m key \<noteq> None"
    then have "key \<in> set (om_keys m)" by (auto simp: set_om_keys)
    then show False using that sorted_hd_last [of key m] assms
      by (auto simp: sst_denotes_def split: option.splits)
  qed
  show ?thesis
  proof (cases "List.find (\<lambda>r. fst (row_entry r) = key) rows")
    case None
    then have "om_lookup m key = None"
      using find_row_entry [of key rows] rows(1) by (simp add: om_lookup_entries)
    then show ?thesis by (simp add: sst_get_def rows(2) find_index_row None)
  next
    case (Some r)
    then have "r \<in> set rows" "fst (row_entry r) = key" by (auto simp: find_Some_iff)
    moreover obtain k e off where r': "r = (k, e, off)" by (cases r)
    ultimately have r: "r = (key, e, off)" and "r \<in> set rows" by simp_all
    then obtain nxt where d: "sst_decode_record crc (st_bytes t) off (length (st_bytes t)) = Inr (key, e, nxt)"
      using rows(3) by (auto simp: row_decodes_def)
    have look: "om_lookup m key = Some e"
      using find_row_entry [of key rows] rows(1) Some r
      by (cases "map_of (entries m) key") (simp_all add: om_lookup_entries)
    show ?thesis
      using skip look d by (auto simp: sst_get_def rows(2) find_index_row Some r index_of_row_def)
  qed
qed

lemma sst_overlay_rows:
  assumes "\<forall>r \<in> set rows. row_decodes crc bs r" "al_ord (map row_entry rows)" "n + length rows \<le> u64_max"
    and "hits = filter (\<lambda>(k, _). start \<le> k \<and> (case stop of None \<Rightarrow> True | Some h \<Rightarrow> k < h)) (map row_entry rows)"
  shows "sst_overlay_entries crc bs start stop (map index_of_row rows) v n =
    Inr (n + length hits, fold overlay_entry hits v)"
  using assms
proof (induction rows arbitrary: v n hits)
  case Nil
  then show ?case by simp
next
  case (Cons r rows)
  obtain k e off where r: "r = (k, e, off)" by (cases r)
  obtain nxt where d: "sst_decode_record crc bs off (length bs) = Inr (k, e, nxt)"
    using Cons.prems(1) by (auto simp: r row_decodes_def)
  have key: "ix_key (index_of_row r) = k" "ix_record_offset (index_of_row r) = off"
    by (simp_all add: r index_of_row_def)
  note key' = key [unfolded r]
  have past: "filter (\<lambda>(k, _). start \<le> k \<and> (case stop of None \<Rightarrow> True | Some h \<Rightarrow> k < h)) (map row_entry rows) = []"
    if "stop = Some s" "s \<le> k" for s
    using Cons.prems(2) that by (fastforce simp: r filter_empty_conv)
  show ?case
    using Cons.IH [OF _ _ _ refl, of n v] Cons.IH [OF _ _ _ refl, of "n + 1" "overlay_entry (k, e) v"] Cons.prems past
    by (auto simp: key key' d saturating_add64_def r not_less split: option.splits)
qed

lemma sst_overlay_denoted:
  assumes "sst_denotes crc t m" "om_size m \<le> u64_max"
  shows "sst_overlay_range crc t start stop v =
    Inr (length (om_range start stop m), fold overlay_entry (om_range start stop m) v)"
proof -
  from assms obtain rows where rows: "map row_entry rows = entries m" "st_index t = map index_of_row rows"
    "\<forall>r \<in> set rows. row_decodes crc (st_bytes t) r" by (auto simp: sst_denotes_def)
  have n: "length rows \<le> u64_max"
    using assms(2) rows(1) by (metis length_map om_size_def)
  show ?thesis
    using sst_overlay_rows [OF rows(3) _ _ refl, of 0 start stop v] n rows(1)
    by (simp add: sst_overlay_range_def rows(2) om_range_def)
qed


subsection \<open>Building and opening\<close>

lemma row_entries [simp]: "map row_entry (sst_rows crc off xs) = xs"
  by (induction crc off xs rule: sst_rows.induct) simp_all

lemma sst_rows_keys [simp]: "map fst (sst_rows crc off xs) = map fst xs"
  by (induction crc off xs rule: sst_rows.induct) simp_all

lemma zip_row_offsets:
  "zip xs (map (\<lambda>(k, e, off). off) (sst_rows crc off xs)) =
    map (\<lambda>(k, e, off). ((k, e), off)) (sst_rows crc off xs)"
  by (induction crc off xs rule: sst_rows.induct) simp_all

lemma sst_rows_members:
  "(k, e, o') \<in> set (sst_rows crc off xs) \<Longrightarrow> (k, e) \<in> set xs \<and> off \<le> o' \<and> o' \<le> off + length (sst_data crc xs)"
  using sst_rows_offset [of k e o' crc off xs] row_entries [of crc off xs]
  by (metis image_eqI list.set_map row_entry_simp)

lemma sst_check_pairs_rows:
  "rfold (\<lambda>_ p. sst_check_pair p) () (zip rows (map index_of_row rows)) = Inr ()"
  by (induction rows) (auto simp: sst_check_pair_def index_of_row_def)

lemma length_sst_data_bound:
  assumes "\<forall>(k, e) \<in> set xs. entry_wf k e"
  shows "length (sst_data crc xs) \<le> 1052704 * length xs"
  using assms
proof (induction crc xs rule: sst_data.induct)
  case (1 crc)
  show ?case by simp
next
  case (2 crc k e xs)
  have "length (sst_record_bytes crc k e) \<le> 1052704"
    using 2(2) entry_wf_bounds(1,2) [of k e] by simp
  then show ?case using 2 by simp
qed

lemma length_sst_index_bound:
  assumes "\<forall>(k, e, off) \<in> set rows. entry_wf k e"
  shows "length (sst_index_data crc rows) \<le> 4124 * length rows"
  using assms
proof (induction crc rows rule: sst_index_data.induct)
  case (1 crc)
  show ?case by simp
next
  case (2 crc k e off rows)
  have "length (sst_index_bytes crc k e off) \<le> 4124"
    using 2(2) entry_wf_bounds(1) [of k e] by simp
  then show ?case using 2 by simp
qed

text \<open>What a map must satisfy to be written: bounded entries and sequences, and a size that keeps
  every extent of the file and the Bloom payload inside their machine fields.\<close>

definition sst_writable :: "nat \<Rightarrow> entry_map \<Rightarrow> bool" where
  "sst_writable durable m \<longleftrightarrow> m \<noteq> om_empty \<and> om_size m \<le> 2147483648 \<and>
     (\<forall>(k, e) \<in> set (entries m). entry_wf k e) \<and> seqs_upto durable m \<and> durable \<le> u64_max"

definition sst_bloom_section :: "(bytes \<Rightarrow> 32 word) \<Rightarrow> nat \<Rightarrow> entry_map \<Rightarrow> bytes result" where
  "sst_bloom_section crc version m =
     (if version = SST_FORMAT_VERSION then rbind (bloom_build (om_keys m) (om_size m)) (bloom_encode crc) else Inr [])"

definition sst_bloom_opened ::
    "(bytes \<Rightarrow> 32 word) \<Rightarrow> nat \<Rightarrow> nat \<Rightarrow> nat \<Rightarrow> bytes \<Rightarrow> bloom_filter option result" where
  "sst_bloom_opened crc version count data_start sect =
     (if version = SST_LEGACY_VERSION
      then if data_start \<noteq> SSTABLE_HEADER_LEN then Inl (Corruption 32) else Inr None
      else if data_start \<le> SSTABLE_HEADER_LEN then Inl (Corruption 32)
      else rmap Some (bloom_decode crc sect SSTABLE_HEADER_LEN count))"

lemma sst_bloom_roundtrip:
  assumes "m \<noteq> om_empty" "om_size m \<le> 2147483648" "version = 1 \<or> version = 2"
  shows "\<exists>sect flt. sst_bloom_section crc version m = Inr sect \<and> length sect \<le> 4294967339 \<and>
    sst_bloom_opened crc version (om_size m) (64 + length sect) sect = Inr flt \<and>
    (\<forall>f. flt = Some f \<longrightarrow> (\<forall>k \<in> set (om_keys m). bloom_may_contain f k)) \<and> (version = 1 \<longleftrightarrow> flt = None)"
proof (cases "version = 1")
  case True
  then show ?thesis
    by (simp add: sst_bloom_section_def sst_bloom_opened_def SST_FORMAT_VERSION_def SST_LEGACY_VERSION_def
        SSTABLE_HEADER_LEN_def)
next
  case False
  have keys: "om_keys m \<noteq> []" "length (om_keys m) = om_size m"
    using assms(1) by (simp_all add: om_keys_def om_size_def)
  then obtain f where f: "bloom_build (om_keys m) (om_size m) = Inr f" "bloom_wf f"
    "bf_key_count f = om_size m" "\<forall>key \<in> set (om_keys m). bloom_may_contain f key"
    using bloom_build_ok [of "om_keys m"] assms(2) by (auto simp: u64_max_def)
  have "bf_bit_count f = (max (om_size m * 10) 64 + 7) div 8 * 8"
    using f(2,3) by (simp add: bloom_wf_def canonical_bit_count_Inr)
  then have "length (bf_bits f) = (max (om_size m * 10) 64 + 7) div 8"
    using f(2) by (simp add: bloom_wf_def)
  also have "\<dots> \<le> (21474836480 + 7) div 8"
    using assms(2) by (intro div_le_mono add_right_mono) simp
  finally have len: "length (bf_bits f) \<le> 4294967295" by simp
  have sect: "length (bloom_section crc f) = 44 + length (bf_bits f)"
    by (simp add: bloom_section_def Let_def)
  then have "bloom_section crc f \<noteq> []" by auto
  with sect show ?thesis
    using False assms(3) f len bloom_encode_eq [OF len] bloom_decode_section [OF f(2) len]
    by (simp add: sst_bloom_section_def sst_bloom_opened_def SST_FORMAT_VERSION_def SST_LEGACY_VERSION_def
        SSTABLE_HEADER_LEN_def)
qed

text \<open>The file a writable map is built into.\<close>

definition sst_prefix ::
    "(bytes \<Rightarrow> 32 word) \<Rightarrow> nat \<Rightarrow> nat \<Rightarrow> bytes \<Rightarrow> entry_map \<Rightarrow> bytes" where
  "sst_prefix crc version table_id sect m =
     (let doff = 64 + length sect;
          rows = sst_rows crc doff (entries m);
          ioff = doff + length (sst_data crc (entries m));
          foff = ioff + length (sst_index_data crc rows)
      in sst_encode_header crc version table_id (om_size m) doff ioff foff @ sect @
         sst_data crc (entries m) @ sst_index_data crc rows)"

definition sst_image ::
    "(bytes \<Rightarrow> 32 word) \<Rightarrow> nat \<Rightarrow> nat \<Rightarrow> nat \<Rightarrow> bytes \<Rightarrow> entry_map \<Rightarrow> bytes" where
  "sst_image crc version table_id durable sect m =
     (let p = sst_prefix crc version table_id sect m;
          ioff = 64 + length sect + length (sst_data crc (entries m))
      in p @ sst_encode_footer crc version table_id (om_size m) ioff (length p) durable (crc p))"

definition sst_described :: "nat \<Rightarrow> nat \<Rightarrow> nat \<Rightarrow> nat \<Rightarrow> entry_map \<Rightarrow> sstable_descriptor" where
  "sst_described table_id level file_bytes durable m =
     \<lparr>sd_table_id = table_id, sd_level = level, sd_file_bytes = file_bytes,
      sd_entry_count = om_size m, sd_durable_sequence = durable,
      sd_smallest_key = hd (om_keys m), sd_largest_key = last (om_keys m)\<rparr>"

lemma sst_sizes:
  assumes "sst_writable durable m" "length sect \<le> 4294967339"
  shows "length (sst_image crc version table_id d sect m) \<le> 2269551937520768"
    and "length (sst_prefix crc version table_id sect m) =
      64 + length sect + length (sst_data crc (entries m)) +
      length (sst_index_data crc (sst_rows crc (64 + length sect) (entries m)))"
    and "length (sst_image crc version table_id d sect m) =
      length (sst_prefix crc version table_id sect m) + 64"
proof -
  let ?rows = "sst_rows crc (64 + length sect) (entries m)"
  have wf: "\<forall>(k, e) \<in> set (entries m). entry_wf k e" using assms(1) by (simp add: sst_writable_def)
  have n: "length (entries m) \<le> 2147483648" using assms(1) by (simp add: sst_writable_def om_size_def)
  have d: "length (sst_data crc (entries m)) \<le> 1052704 * 2147483648"
    using length_sst_data_bound [OF wf, of crc] n by linarith
  have "\<forall>(k, e, off) \<in> set ?rows. entry_wf k e" using wf by (auto dest: sst_rows_members)
  from length_sst_index_bound [OF this, of crc]
  have i: "length (sst_index_data crc ?rows) \<le> 4124 * 2147483648"
    using n by simp
  show p: "length (sst_prefix crc version table_id sect m) =
      64 + length sect + length (sst_data crc (entries m)) + length (sst_index_data crc ?rows)"
    by (simp add: sst_prefix_def Let_def)
  show l: "length (sst_image crc version table_id d sect m) =
      length (sst_prefix crc version table_id sect m) + 64"
    by (simp add: sst_image_def Let_def)
  show "length (sst_image crc version table_id d sect m) \<le> 2269551937520768"
    unfolding l p using d i assms(2) by simp
qed

lemma sst_build_image:
  assumes w: "sst_writable durable m" and v: "version = 1 \<or> version = 2"
    and b: "sst_bloom_section crc version m = Inr sect" "length sect \<le> 4294967339"
  shows "sst_build crc table_id level durable m version =
    Inr (sst_image crc version table_id durable sect m,
         sst_described table_id level (length (sst_image crc version table_id durable sect m)) durable m)"
proof -
  let ?rows = "sst_rows crc (64 + length sect) (entries m)"
  let ?total = "length (sst_image crc version table_id durable sect m)"
  note sizes = sst_sizes [OF w b(2)]
  have big: "?total \<le> u64_max"
    using sizes(1) [of crc version table_id durable] by (simp add: u64_max_def)
  have wf: "\<forall>(k, e) \<in> set (entries m). entry_wf k e" and ne: "m \<noteq> om_empty"
    and n: "om_size m \<le> u64_max"
    using w by (simp_all add: sst_writable_def u64_max_def)
  have lens: "64 + length sect + length (sst_data crc (entries m)) +
      length (sst_index_data crc ?rows) + 64 = ?total"
    by (simp add: sizes(2,3))
  have rows_wf: "\<forall>(k, e, off) \<in> set ?rows. entry_wf k e" using wf by (auto dest: sst_rows_members)
  have fits: "64 + length sect + length (sst_data crc (entries m)) \<le> u64_max"
    "64 + length sect \<le> u64_max"
    "64 + length sect + length (sst_data crc (entries m)) + length (sst_index_data crc ?rows) \<le> u64_max"
    "64 + length sect + length (sst_data crc (entries m)) + length (sst_index_data crc ?rows) + 64 \<le> u64_max"
    using big lens by linarith+
  have bl: "(if version = SST_FORMAT_VERSION
      then rbind (bloom_build (om_keys m) (om_size m)) (bloom_encode crc) else Inr []) = Inr sect"
    using b(1) by (simp add: sst_bloom_section_def)
  have ver: "\<not> (version \<noteq> SST_LEGACY_VERSION \<and> version \<noteq> SST_FORMAT_VERSION)"
    using v by (auto simp: SST_FORMAT_VERSION_def SST_LEGACY_VERSION_def)
  have data: "sst_encode_records crc (entries m) (64 + length sect) =
      Inr (sst_data crc (entries m), map (\<lambda>(k, e, off). off) ?rows)"
    using sst_encode_records_eq [OF wf fits(1)] .
  have index: "sst_encode_index crc (zip (entries m) (map (\<lambda>(k, e, off). off) ?rows)) =
      Inr (sst_index_data crc ?rows)"
    using sst_encode_index_rows [OF rows_wf] by (simp add: zip_row_offsets)
  show ?thesis
    unfolding sst_build_def using ne n fits
    by (simp only: if_False ver bl rbind_simps try_u64_def SSTABLE_HEADER_LEN_def SSTABLE_FOOTER_LEN_def
      if_True ok_or_simps data prod.case index checked_add64_def)
     (simp add: Let_def sst_image_def sst_prefix_def sst_described_def add.assoc)
qed

lemma sst_image_slices:
  fixes sect :: bytes and crc :: "bytes \<Rightarrow> 32 word" and version table_id durable :: nat and m :: entry_map
  defines "doff \<equiv> 64 + length sect"
  defines "rows \<equiv> sst_rows crc doff (entries m)"
  defines "ioff \<equiv> doff + length (sst_data crc (entries m))"
  defines "foff \<equiv> ioff + length (sst_index_data crc rows)"
  defines "hdr \<equiv> sst_encode_header crc version table_id (om_size m) doff ioff foff"
  defines "ftr \<equiv> sst_encode_footer crc version table_id (om_size m) ioff foff durable
    (crc (sst_prefix crc version table_id sect m))"
  defines "bs \<equiv> sst_image crc version table_id durable sect m"
  shows "bs = hdr @ sect @ sst_data crc (entries m) @ sst_index_data crc rows @ ftr"
    and "length bs = foff + 64"
    and "take 64 bs = hdr" and "seg foff (foff + 64) bs = ftr"
    and "take foff bs = sst_prefix crc version table_id sect m"
    and "seg 64 doff bs = sect"
proof -
  have pre: "sst_prefix crc version table_id sect m =
      hdr @ sect @ sst_data crc (entries m) @ sst_index_data crc rows"
    by (simp add: sst_prefix_def Let_def hdr_def rows_def ioff_def foff_def doff_def)
  have lpre: "length (sst_prefix crc version table_id sect m) = foff"
    by (simp add: pre hdr_def foff_def ioff_def doff_def)
  have bs: "bs = sst_prefix crc version table_id sect m @ ftr"
    by (simp add: bs_def sst_image_def Let_def ftr_def lpre) (simp add: ioff_def doff_def)
  show "bs = hdr @ sect @ sst_data crc (entries m) @ sst_index_data crc rows @ ftr"
    by (simp add: bs pre)
  have lf: "length ftr = 64" by (simp add: ftr_def)
  show "length bs = foff + 64" by (simp add: bs lpre lf)
  show "take 64 bs = hdr" by (simp add: bs pre hdr_def)
  show "seg foff (foff + 64) bs = ftr"
    using seg_after0 [of "sst_prefix crc version table_id sect m" 64 "ftr"] lpre lf by (simp add: bs)
  show "take foff bs = sst_prefix crc version table_id sect m"
    using lpre by (simp add: bs)
  have "seg (length hdr) (length hdr + length sect) (hdr @ sect @ r) = sect" for r
    by (simp add: seg_after0)
  then show "seg 64 doff bs = sect"
    by (simp add: bs pre) (simp add: hdr_def doff_def)
qed

lemma sst_open_image:
  fixes level :: nat
  assumes w: "sst_writable durable m" and v: "version = 1 \<or> version = 2"
    and tid: "table_id \<le> u64_max"
    and b: "length sect \<le> 4294967339"
      "sst_bloom_opened crc version (om_size m) (64 + length sect) sect = Inr flt"
      "\<forall>f. flt = Some f \<longrightarrow> (\<forall>k \<in> set (om_keys m). bloom_may_contain f k)"
  defines "bs \<equiv> sst_image crc version table_id durable sect m"
  defines "d \<equiv> sst_described table_id level (length bs) durable m"
  shows "\<exists>t. sst_open crc (Some bs) d = Inr t \<and> st_descriptor t = d \<and> st_bytes t = bs \<and> sst_denotes crc t m"
proof -
  define doff where "doff = 64 + length sect"
  define rows where "rows = sst_rows crc doff (entries m)"
  define ioff where "ioff = doff + length (sst_data crc (entries m))"
  define foff where "foff = ioff + length (sst_index_data crc rows)"
  define hdr where "hdr = sst_encode_header crc version table_id (om_size m) doff ioff foff"
  define ftr where "ftr = sst_encode_footer crc version table_id (om_size m) ioff foff durable
    (crc (sst_prefix crc version table_id sect m))"
  note sl = sst_image_slices [where sect = sect and crc = crc and version = version and table_id = table_id
      and durable = durable and m = m, folded doff_def,
      folded rows_def, folded ioff_def, folded foff_def, folded hdr_def ftr_def bs_def]
  have l7: "length (hdr @ sect) = doff" and l8: "length (hdr @ sect @ sst_data crc (entries m)) = ioff"
    by (simp_all add: hdr_def doff_def ioff_def)
  have big: "length bs \<le> u64_max"
    using sst_sizes(1) [OF w b(1), of crc version table_id durable] by (simp add: bs_def u64_max_def)
  have wf: "\<forall>(k, e) \<in> set (entries m). entry_wf k e" and ne: "m \<noteq> om_empty" and n: "om_size m \<le> u64_max"
    and dur: "durable \<le> u64_max" "seqs_upto durable m"
    using w by (simp_all add: sst_writable_def u64_max_def)
  have fo: "foff \<le> u64_max" "ioff \<le> u64_max" "doff \<le> u64_max" "foff + 64 \<le> u64_max"
    "doff \<le> ioff" "ioff \<le> foff"
    using big by (simp_all add: sl(2) foff_def ioff_def)
  have header: "sst_parse_header crc hdr = Inr \<lparr>sh_format_version = version, sh_table_id = table_id,
      sh_entry_count = om_size m, sh_data_offset = doff, sh_index_offset = ioff, sh_footer_offset = foff\<rparr>"
    unfolding hdr_def by (rule sst_parse_encode_header) (use v tid n fo in auto)
  have footer: "sst_parse_footer crc ftr foff = Inr \<lparr>sf_format_version = version, sf_table_id = table_id,
      sf_entry_count = om_size m, sf_index_offset = ioff, sf_footer_offset = foff,
      sf_durable_sequence = durable, sf_whole_crc = unat (crc (sst_prefix crc version table_id sect m))\<rparr>"
    unfolding ftr_def by (rule sst_parse_encode_footer) (use v tid n fo dur in auto)
  have data: "sst_read_records crc bs doff ioff None = Inr (rows, ioff)"
    using sst_read_data [OF wf entries_ord big, of "hdr @ sect" crc "sst_index_data crc rows @ ftr" None]
    unfolding l7 ioff_def [symmetric] rows_def [symmetric] by (simp add: sl(1))
  have rows_wf: "\<forall>(k, e, off) \<in> set rows. entry_wf k e \<and> off \<le> u64_max"
    using wf fo(2) by (auto simp: rows_def ioff_def dest!: sst_rows_members)
  have keys: "sorted_wrt (<) (map fst rows)"
    using entries_ord [of m] by (simp add: rows_def al_ord_def)
  have index: "sst_read_index crc bs ioff foff None = Inr (map index_of_row rows, foff)"
    using sst_read_index_data [OF rows_wf keys big, of "hdr @ sect @ sst_data crc (entries m)" crc ftr None]
    unfolding l8 foff_def [symmetric] by (simp add: sl(1))
  have lr: "length rows = om_size m" by (simp add: rows_def om_size_def)
  have ren: "map row_entry rows = entries m" by (simp add: rows_def)
  have rne: "rows \<noteq> []" using ren ne by (metis entries_eq_Nil map_is_Nil_conv)
  have keys_eq: "map ix_key (map index_of_row rows) = om_keys m"
    unfolding index_keys ren by (simp add: om_keys_def)
  have ends: "ix_key (hd (map index_of_row rows)) = hd (om_keys m)"
    "ix_key (last (map index_of_row rows)) = last (om_keys m)"
    unfolding keys_eq [symmetric] using rne by (simp_all add: hd_map last_map)
  have seqs: "fold max (map ix_sequence (map index_of_row rows)) 0 \<le> durable"
    unfolding index_sequences ren fold_max_bound using dur(2)
    by (auto simp: seqs_upto_def set_entries)
  have blm: "case flt of None \<Rightarrow> True
      | Some f \<Rightarrow> list_all (\<lambda>e. bloom_may_contain f (ix_key e)) (map index_of_row rows)"
    using b(3) unfolding keys_eq [symmetric] by (auto simp: list_all_iff split: option.splits)
  have opened: "(if version = SST_LEGACY_VERSION
      then if doff \<noteq> 64 then Inl (Corruption 32) else Inr None
      else if doff \<le> 64 then Inl (Corruption 32)
      else rmap Some (bloom_decode crc sect 64 (om_size m))) = Inr flt"
    using b(2) unfolding sst_bloom_opened_def SSTABLE_HEADER_LEN_def doff_def .
  have desc: "sd_file_bytes d = foff + 64" "sd_table_id d = table_id" "sd_entry_count d = om_size m"
    "sd_durable_sequence d = durable" "sd_smallest_key d = hd (om_keys m)" "sd_largest_key d = last (om_keys m)"
    by (simp_all add: d_def sst_described_def sl(2))
  have small: "\<not> foff + 64 < 64 + 64" "\<not> (ioff > foff \<or> ioff < doff)" "checked_add64 foff 64 = Some (foff + 64)"
    using fo by (simp_all add: foff_def ioff_def doff_def checked_add64_def)
  have fits: "\<not> fold max (map ix_sequence (map index_of_row rows)) 0 > durable"
    using seqs by simp
  let ?t = "\<lparr>st_descriptor = d, st_bytes = bs, st_index = map index_of_row rows, st_bloom = flt\<rparr>"
  have "sst_open crc (Some bs) d = Inr ?t"
    unfolding sst_open_def ok_or_simps rbind_simps SSTABLE_HEADER_LEN_def SSTABLE_FOOTER_LEN_def
      doff_def [symmetric] rows_def [symmetric] sl(3) header Let_def sst_header.simps sl(2) small
      sl(4) footer sst_footer.simps sl(5) sl(6) opened data index prod.case desc
    using small(1,2) fits blm ends rne lr by (simp add: sst_check_pairs_rows del: list.map map_map)
  moreover have "ioff \<le> length bs" using fo by (simp add: sl(2))
  from sst_read_records_sound [OF data this]
  have "sst_denotes crc ?t m"
    using ends blm seqs rne lr ren desc
    by (intro rows_denote [where rows = rows]) (auto simp: desc split: option.splits)
  ultimately show ?thesis by fastforce
qed

lemma sst_create_ok:
  fixes level :: nat
  assumes w: "sst_writable durable m" and v: "version = 1 \<or> version = 2" and tid: "table_id \<le> u64_max"
    and new: "disk_read d (sst_file_name table_id) = None" "dk_faults d = []"
  shows "\<exists>t. sst_create_new_with_format crc d table_id level durable m version =
      (Inr t, disk_set (sst_file_name table_id) (st_bytes t) d) \<and> sst_denotes crc t m \<and>
    st_descriptor t = sst_described table_id level (length (st_bytes t)) durable m \<and>
    sst_open crc (Some (st_bytes t)) (st_descriptor t) = Inr t \<and>
    0 < length (st_bytes t) \<and> length (st_bytes t) \<le> u64_max"
proof -
  obtain sect flt where b: "sst_bloom_section crc version m = Inr sect" "length sect \<le> 4294967339"
    "sst_bloom_opened crc version (om_size m) (64 + length sect) sect = Inr flt"
    "\<forall>f. flt = Some f \<longrightarrow> (\<forall>k \<in> set (om_keys m). bloom_may_contain f k)"
    using sst_bloom_roundtrip [of m version crc] w v unfolding sst_writable_def by metis
  let ?bs = "sst_image crc version table_id durable sect m"
  let ?d = "sst_described table_id level (length ?bs) durable m"
  have "\<exists>t. sst_open crc (Some ?bs) ?d = Inr t \<and> st_descriptor t = ?d \<and> st_bytes t = ?bs \<and> sst_denotes crc t m"
    by (rule sst_open_image [OF w v tid b(2-4)])
  moreover have "0 < length ?bs" "length ?bs \<le> u64_max"
    using sst_sizes(1,3) [OF w b(2), where crc = crc and version = version and table_id = table_id and d = durable] by (simp_all add: u64_max_def)
  ultimately show ?thesis
    using new
    by (auto simp: sst_create_new_with_format_def Let_def disk_create_quiet sst_build_image [OF w v b(1,2)])
qed


subsection \<open>Properties\<close>

text \<open>C37 (sst_create): writing a bounded, nonempty map as a table in either file format succeeds
  when the file name is free; point lookup then returns exactly the map's entry for every key,
  range overlay merges exactly the map's entries in the range, and the file's bytes reopen under
  the returned descriptor to the same table.\<close>

theorem sst_create_round_trip:
  assumes "sst_writable durable m" "version = SST_LEGACY_VERSION \<or> version = SST_FORMAT_VERSION"
    and "table_id \<le> u64_max" "disk_read d (sst_file_name table_id) = None" "dk_faults d = []"
  shows "\<exists>t. sst_create_new_with_format crc d table_id level durable m version =
      (Inr t, disk_set (sst_file_name table_id) (st_bytes t) d) \<and>
    (\<forall>key. sst_get crc t key = Inr (om_lookup m key)) \<and>
    (\<forall>start stop v. sst_overlay_range crc t start stop v =
       Inr (length (om_range start stop m), fold overlay_entry (om_range start stop m) v)) \<and>
    sst_open crc (Some (st_bytes t)) (st_descriptor t) = Inr t"
proof -
  have v: "version = 1 \<or> version = 2"
    using assms(2) by (simp add: SST_LEGACY_VERSION_def SST_FORMAT_VERSION_def)
  have "om_size m \<le> u64_max" using assms(1) by (simp add: sst_writable_def u64_max_def)
  moreover obtain t where t: "sst_create_new_with_format crc d table_id level durable m version =
      (Inr t, disk_set (sst_file_name table_id) (st_bytes t) d)" "sst_denotes crc t m"
      "sst_open crc (Some (st_bytes t)) (st_descriptor t) = Inr t"
    using sst_create_ok [OF assms(1) v assms(3,4,5)] by blast
  ultimately show ?thesis
    using sst_get_denoted [OF t(2)] sst_overlay_denoted [OF t(2)] by blast
qed

definition empty_disk :: disk where
  "empty_disk = \<lparr>dk_files = om_empty, dk_faults = [], dk_stuck = []\<rparr>"

lemma one_entry_writable:
  "sst_writable 5 (om_insert [1] \<lparr>ve_sequence = 5, ve_value = Some [2]\<rparr> om_empty)" (is "sst_writable 5 ?m")
proof -
  have "om_lookup ?m [1] \<noteq> None" by simp
  then have ne: "?m \<noteq> om_empty" by (metis om_lookup_empty)
  then show ?thesis
    by (auto simp: sst_writable_def om_size_def entries_insert entry_wf_def seqs_upto_def
        u64_max_def MAX_KEY_BYTES_def MAX_VALUE_BYTES_def)
qed

lemma sst_create_round_trip_witness:
  "\<exists>t d. sst_create_new_with_format (\<lambda>_. 0) empty_disk 1 0 5
       (om_insert [1] \<lparr>ve_sequence = 5, ve_value = Some [2]\<rparr> om_empty) 2 = (Inr t, d) \<and>
     sst_get (\<lambda>_. 0) t [1] = Inr (Some \<lparr>ve_sequence = 5, ve_value = Some [2]\<rparr>)"
  using sst_create_round_trip [OF one_entry_writable, where version = 2 and table_id = 1 and d = empty_disk
      and crc = "\<lambda>_. 0" and level = 0]
  by (auto simp: SST_FORMAT_VERSION_def u64_max_def empty_disk_def disk_read_def)

text \<open>C31 (sst_open): whatever bytes a table file holds, if \<open>open\<close> accepts it then there is one
  ordered map, inside the manifest's key bounds, entry count and durable sequence, that every
  point lookup and every range overlay of the opened table reads; neither ever fails.\<close>

theorem sst_open_sound:
  assumes "sst_open crc existing d = Inr t" "sd_entry_count d \<le> u64_max"
  shows "\<exists>m. m \<noteq> om_empty \<and> om_size m = sd_entry_count d \<and>
    hd (om_keys m) = sd_smallest_key d \<and> last (om_keys m) = sd_largest_key d \<and>
    (\<forall>k e. om_lookup m k = Some e \<longrightarrow> ve_sequence e \<le> sd_durable_sequence d) \<and>
    (\<forall>key. sst_get crc t key = Inr (om_lookup m key)) \<and>
    (\<forall>start stop v. sst_overlay_range crc t start stop v =
       Inr (length (om_range start stop m), fold overlay_entry (om_range start stop m) v))"
proof -
  obtain m where d: "st_descriptor t = d" and m: "sst_denotes crc t m"
    using sst_open_denotes [OF assms(1)] by blast
  have n: "om_size m \<le> u64_max" using m d assms(2) by (simp add: sst_denotes_def)
  show ?thesis
    using m d sst_get_denoted [OF m] sst_overlay_denoted [OF m n]
    by (intro exI [of _ m]) (auto simp: sst_denotes_def seqs_upto_def)
qed

lemma sst_open_sound_witness:
  "\<exists>bs d t. sst_open (\<lambda>_. 0) (Some bs) d = Inr t \<and> (\<exists>r. sst_get (\<lambda>_. 0) t [7] = Inr r)"
proof -
  let ?m = "om_insert [1] \<lparr>ve_sequence = 5, ve_value = Some [2]\<rparr> om_empty"
  have n: "disk_read empty_disk (sst_file_name 1) = None" "dk_faults empty_disk = []" and one: "1 \<le> u64_max"
    by (simp_all add: u64_max_def empty_disk_def disk_read_def)
  obtain t where o: "sst_open (\<lambda>_. 0) (Some (st_bytes t)) (st_descriptor t) = Inr t"
      and d: "st_descriptor t = sst_described 1 0 (length (st_bytes t)) 5 ?m"
    using sst_create_ok [OF one_entry_writable _ one n, of 2 "\<lambda>_. 0" 0] by auto
  have "sd_entry_count (st_descriptor t) \<le> u64_max"
    using one_entry_writable unfolding d by (simp add: sst_described_def sst_writable_def u64_max_def)
  from sst_open_sound [OF o this] o show ?thesis by blast
qed

text \<open>Whatever the operating system does, creating a table touches no other file
  of the directory and never overwrites an existing one; when it succeeds the table's file is new,
  and after a reported failure that file is missing or holds a prefix of the table.\<close>

theorem sst_create_frame:
  assumes "sst_create_new_with_format crc d table_id level durable m version = (r, d')"
  shows "(\<forall>name. name \<noteq> sst_file_name table_id \<or> disk_read d name \<noteq> None \<longrightarrow> disk_read d' name = disk_read d name) \<and>
    (case r of
       Inr t \<Rightarrow> disk_read d (sst_file_name table_id) = None \<and> disk_read d' (sst_file_name table_id) = Some (st_bytes t)
     | Inl _ \<Rightarrow> disk_read d' (sst_file_name table_id) = disk_read d (sst_file_name table_id) \<or>
         (\<exists>bs desc n. sst_build crc table_id level durable m version = Inr (bs, desc) \<and>
            disk_read d' (sst_file_name table_id) = Some (take n bs)))"
proof (cases "sst_build crc table_id level durable m version")
  case (Inl e)
  then show ?thesis using assms by (auto simp: sst_create_new_with_format_def)
next
  case (Inr p)
  obtain bs desc where p: "p = (bs, desc)" by force
  obtain r1 d1 where c: "disk_create_new (sst_file_name table_id) bs d = (r1, d1)" by force
  have out: "d' = d1" "r = (case r1 of Inl e \<Rightarrow> Inl e | Inr _ \<Rightarrow> sst_open crc (disk_read d1 (sst_file_name table_id)) desc)"
    using assms Inr p c by (auto simp: sst_create_new_with_format_def Let_def split: sum.splits)
  from c show ?thesis
  proof (cases rule: disk_create_cases)
    case fail
    then show ?thesis using out by (auto simp: is_ok_def split: sum.splits)
  next
    case (torn n)
    then show ?thesis using out Inr p by (auto simp: is_ok_def split: sum.splits)
  next
    case whole
    have "disk_read d1 (sst_file_name table_id) = Some (take (length bs) bs)" using whole by simp
    then show ?thesis
      using out Inr p whole sst_open_denotes [of crc "Some bs" desc]
      by (auto split: sum.splits intro: exI [of _ "length bs"])
  qed
qed

lemma sst_create_frame_witness:
  "\<exists>r d'. sst_create_new_with_format (\<lambda>_. 0) (disk_set [1] [2] empty_disk) 1 0 5 om_empty 2 = (r, d') \<and>
     disk_read d' [1] = Some [2]"
proof -
  have ne: "[1] \<noteq> sst_file_name 1" by (simp add: sst_file_name_def ascii_def)
  obtain r d' where c: "sst_create_new_with_format (\<lambda>_. 0) (disk_set [1] [2] empty_disk) 1 0 5 om_empty 2 = (r, d')"
    by force
  show ?thesis using sst_create_frame [OF c] ne c by auto
qed

end
