(* ===== verification/ManifestSpec.thy ===== *)
theory ManifestSpec
  imports Manifest SsTableSpec
begin

text \<open>
  Round trips of the \<open>CURRENT\<close> slots, table descriptors and manifests; what a \<open>CURRENT\<close> file of two
  mirrored slots publishes, and that rewriting the slot of the next generation publishes it
  whole, while a torn rewrite that the checksum rejects leaves the previous one published.
\<close>

subsection \<open>CURRENT slots\<close>

lemma length_encode_current_slot [simp]: "length (encode_current_slot crc i g m) = 4096"
  by (simp add: encode_current_slot_def Let_def CURRENT_SLOT_BYTES_def)

lemma encode_current_slot_ne [simp]: "encode_current_slot crc i g m \<noteq> []"
  by (simp add: encode_current_slot_def Let_def)

lemma current_slot_fields:
  fixes i g m :: nat
  defines "b \<equiv> CURRENT_MAGIC @ le_bytes 2 CURRENT_FORMAT_VERSION @ le_bytes 2 i @ le_bytes 4 0 @
    le_bytes 8 g @ le_bytes 8 m @ replicate 4060 0"
  shows "encode_current_slot crc i g m = b @ crc_field (crc b)" and "length b = 4092"
    and "seg 0 8 (b @ r) = CURRENT_MAGIC" "seg 8 10 (b @ r) = le_bytes 2 CURRENT_FORMAT_VERSION"
    "seg 10 12 (b @ r) = le_bytes 2 i" "seg 12 16 (b @ r) = le_bytes 4 0"
    "seg 16 24 (b @ r) = le_bytes 8 g" "seg 24 32 (b @ r) = le_bytes 8 m"
    "seg 32 4092 (b @ r) = replicate 4060 0"
  by (simp_all add: b_def encode_current_slot_def Let_def CURRENT_SLOT_BYTES_def zero_bytes4 layout
      del: le_bytes.simps)

lemma parse_encode_current_slot:
  assumes "i < 65536" "g \<le> u64_max" "m \<le> u64_max" "0 < m"
  shows "parse_current_slot crc (encode_current_slot crc i g m) i = Inr \<lparr>cs_generation = g, cs_manifest_id = m\<rparr>"
proof -
  define b where "b = CURRENT_MAGIC @ le_bytes 2 CURRENT_FORMAT_VERSION @ le_bytes 2 i @ le_bytes 4 0 @
    le_bytes 8 g @ le_bytes 8 m @ replicate 4060 0"
  note f = current_slot_fields(1) [of crc i g m, folded b_def] current_slot_fields(2-) [of i g m, folded b_def]
  have tail: "take 4092 (b @ r) = b" "seg 4092 4096 (b @ crc_field w) = crc_field w" for r w
    using f(2) by (simp_all add: layout)
  have zeros: "list_all (\<lambda>x. x = 0) (seg 32 4092 (b @ crc_field (crc b)))"
    unfolding f(9) by (simp add: list_all_iff)
  have len: "length (b @ crc_field (crc b)) = 4096" using f(2) by simp
  show ?thesis
    unfolding f(1) parse_current_slot_def CURRENT_SLOT_BYTES_def
    using zeros assms by (simp add: f(2-8) tail len zero_bytes4 CURRENT_FORMAT_VERSION_def Let_def
        del: le_bytes.simps length_append)
qed

text \<open>Whatever parses as a slot is the canonical encoding of its generation and manifest id.\<close>

lemma parse_current_slot_sound:
  assumes "parse_current_slot crc bs i = Inr c"
  shows "bs = encode_current_slot crc i (cs_generation c) (cs_manifest_id c)"
proof -
  let ?g = "read_u64 (seg 16 24 bs)" and ?m = "read_u64 (seg 24 32 bs)"
  have p: "length bs = 4096" "seg 0 8 bs = CURRENT_MAGIC" "read_u16 (seg 8 10 bs) = CURRENT_FORMAT_VERSION"
    "read_u16 (seg 10 12 bs) = i" "seg 12 16 bs = replicate 4 0" "list_all (\<lambda>b. b = 0) (seg 32 4092 bs)"
    "unat (crc (take 4092 bs)) = read_u32 (seg 4092 4096 bs)" "cs_generation c = ?g" "cs_manifest_id c = ?m"
    using assms by (auto simp: parse_current_slot_def CURRENT_SLOT_BYTES_def Let_def split: if_splits)
  have f: "seg 8 10 bs = le_bytes 2 CURRENT_FORMAT_VERSION" "seg 10 12 bs = le_bytes 2 i"
    "seg 16 24 bs = le_bytes 8 ?g" "seg 24 32 bs = le_bytes 8 ?m"
  proof -
    have l: "length (seg 8 10 bs) = 2" "length (seg 10 12 bs) = 2" "length (seg 16 24 bs) = 8"
      "length (seg 24 32 bs) = 8"
      using p(1) by (simp_all add: length_seg)
    show "seg 8 10 bs = le_bytes 2 CURRENT_FORMAT_VERSION" "seg 10 12 bs = le_bytes 2 i"
      using read_le_bytes(1) [OF l(1), THEN iffD1, OF p(3)] read_le_bytes(1) [OF l(2), THEN iffD1, OF p(4)]
      by blast+
    show "seg 16 24 bs = le_bytes 8 ?g" "seg 24 32 bs = le_bytes 8 ?m"
      using read_le_bytes(3) [OF l(3), THEN iffD1, OF refl] read_le_bytes(3) [OF l(4), THEN iffD1, OF refl]
      by blast+
  qed
  have z: "seg 32 4092 bs = replicate 4060 0"
  proof (rule replicate_eqI)
    show "length (seg 32 4092 bs) = 4060" using p(1) by (simp add: length_seg)
    show "y = 0" if "y \<in> set (seg 32 4092 bs)" for y using p(6) that by (simp add: list_all_iff)
  qed
  have t: "take 4092 bs = seg 0 8 bs @ seg 8 10 bs @ seg 10 12 bs @ seg 12 16 bs @ seg 16 24 bs @
      seg 24 32 bs @ seg 32 4092 bs"
    by (simp add: seg_join flip: seg_0)
  also have "\<dots> = CURRENT_MAGIC @ le_bytes 2 CURRENT_FORMAT_VERSION @ le_bytes 2 i @ le_bytes 4 0 @
      le_bytes 8 ?g @ le_bytes 8 ?m @ replicate 4060 0"
    by (simp only: p(2,5) f(1,2) z zero_bytes4) (simp only: f(3,4) [symmetric])
  finally have body: "take 4092 bs = CURRENT_MAGIC @ le_bytes 2 CURRENT_FORMAT_VERSION @ le_bytes 2 i @
      le_bytes 4 0 @ le_bytes 8 ?g @ le_bytes 8 ?m @ replicate 4060 0" .
  have "read_u32 (seg 4092 4096 bs) = unat (crc (take 4092 bs))" using p(7) by simp
  moreover have "length (seg 4092 4096 bs) = 4" using p(1) by (simp add: length_seg)
  ultimately have "seg 4092 4096 bs = crc_field (crc (take 4092 bs))"
    by (simp only: read_u32_eq_crc)
  moreover have "bs = take 4092 bs @ seg 4092 4096 bs"
    using p(1) by (simp add: seg_join seg_whole flip: seg_0)
  ultimately show ?thesis
    unfolding p(8,9) current_slot_fields(1) body [symmetric] by (simp only:)
qed

definition slot_may :: "(bytes \<Rightarrow> 32 word) \<Rightarrow> bytes \<Rightarrow> nat \<Rightarrow> nat \<Rightarrow> nat \<Rightarrow> bool" where
  \<comment> \<open>the slot that does not hold the newest generation\<close>
  "slot_may crc s i g m \<longleftrightarrow> length s = 4096 \<and>
     (case parse_current_slot crc s i of
        Inl _ \<Rightarrow> True
      | Inr c \<Rightarrow> (cs_generation c = g \<and> cs_manifest_id c = m) \<or> cs_generation c + 1 = g)"

definition current_holds :: "(bytes \<Rightarrow> 32 word) \<Rightarrow> bytes \<Rightarrow> nat \<Rightarrow> nat \<Rightarrow> bool" where
  "current_holds crc bs g m \<longleftrightarrow> 0 < m \<and> m \<le> u64_max \<and> g \<le> u64_max \<and>
     (if g mod 2 = 0
      then \<exists>s. bs = encode_current_slot crc 0 g m @ s \<and> slot_may crc s 1 g m
      else \<exists>s. bs = s @ encode_current_slot crc 1 g m \<and> slot_may crc s 0 g m)"

lemma parse_current_slot_zero_or_one:
  "0 < m \<Longrightarrow> m \<le> u64_max \<Longrightarrow> g \<le> u64_max \<Longrightarrow>
     parse_current_slot crc (encode_current_slot crc 0 g m) 0 = Inr \<lparr>cs_generation = g, cs_manifest_id = m\<rparr>"
  "0 < m \<Longrightarrow> m \<le> u64_max \<Longrightarrow> g \<le> u64_max \<Longrightarrow>
     parse_current_slot crc (encode_current_slot crc 1 g m) 1 = Inr \<lparr>cs_generation = g, cs_manifest_id = m\<rparr>"
  by (simp_all add: parse_encode_current_slot)

lemma read_current_holds:
  assumes "current_holds crc bs g m"
  shows "read_current crc (Some bs) = Inr \<lparr>cs_generation = g, cs_manifest_id = m\<rparr>"
proof (cases "g mod 2 = 0")
  case True
  then obtain s where s: "bs = encode_current_slot crc 0 g m @ s" "slot_may crc s 1 g m" "0 < m" "m \<le> u64_max" "g \<le> u64_max"
    using assms by (auto simp: current_holds_def)
  have len: "length s = 4096" using s(2) by (simp add: slot_may_def)
  show ?thesis
    using s len parse_current_slot_zero_or_one(1) [OF s(3,4,5), of crc]
    by (cases "parse_current_slot crc s 1")
       (auto simp: read_current_def CURRENT_FILE_BYTES_def CURRENT_SLOT_BYTES_def slot_may_def)
next
  case False
  then obtain s where s: "bs = s @ encode_current_slot crc 1 g m" "slot_may crc s 0 g m" "0 < m" "m \<le> u64_max" "g \<le> u64_max"
    using assms by (auto simp: current_holds_def)
  have len: "length s = 4096" using s(2) by (simp add: slot_may_def)
  show ?thesis
    using s len parse_current_slot_zero_or_one(2) [OF s(3,4,5), of crc]
    by (cases "parse_current_slot crc s 0")
       (auto simp: read_current_def CURRENT_FILE_BYTES_def CURRENT_SLOT_BYTES_def slot_may_def)
qed

lemma current_holds_initial:
  "0 < m \<Longrightarrow> m \<le> u64_max \<Longrightarrow> current_holds crc (encode_current_slot crc 0 0 m @ encode_current_slot crc 1 0 m) 0 m"
  using parse_current_slot_zero_or_one(2) [of m 0 crc] by (simp add: current_holds_def slot_may_def)

text \<open>The slot of the next generation, fully or partly rewritten.\<close>

definition next_slot_write :: "(bytes \<Rightarrow> 32 word) \<Rightarrow> nat \<Rightarrow> bytes \<Rightarrow> nat \<Rightarrow> nat \<Rightarrow> bytes" where
  "next_slot_write crc n bs g m =
     write_at (g mod 2 * CURRENT_SLOT_BYTES) (take n (encode_current_slot crc (g mod 2) g m)) bs"

lemma next_slot_write_eq:
  "length s = 4096 \<Longrightarrow> length s' = 4096 \<Longrightarrow>
     next_slot_write crc n (s @ s') g m =
       (if g mod 2 = 0 then (take n (encode_current_slot crc 0 g m) @ drop n s) @ s'
        else s @ (take n (encode_current_slot crc 1 g m) @ drop n s'))"
proof -
  assume len: "length s = 4096" "length s' = 4096"
  have "g mod 2 = 0 \<or> g mod 2 = 1" by auto
  moreover have "drop (min n 4096) s = drop n s" "drop (min n 4096) s' = drop n s'"
    using len by (simp_all add: min_def)
  ultimately show ?thesis using len
    by (auto simp: next_slot_write_def write_at_def CURRENT_SLOT_BYTES_def min.commute)
qed

lemma current_holds_slots:
  "current_holds crc bs g m \<Longrightarrow> \<exists>s s'. bs = s @ s' \<and> length s = 4096 \<and> length s' = 4096"
proof -
  assume "current_holds crc bs g m"
  then have "length bs = 8192" by (auto simp: current_holds_def slot_may_def split: if_splits)
  then show ?thesis by (intro exI [of _ "take 4096 bs"] exI [of _ "drop 4096 bs"]) simp
qed

lemma current_holds_publish:
  assumes h: "current_holds crc bs g m" and m': "0 < m'" "m' \<le> u64_max" "g + 1 \<le> u64_max"
  shows "current_holds crc (next_slot_write crc 4096 bs (g + 1) m') (g + 1) m'"
proof (cases "g mod 2 = 0")
  case True
  then obtain s where s: "bs = encode_current_slot crc 0 g m @ s" "length s = 4096" "0 < m" "m \<le> u64_max" "g \<le> u64_max"
    using h by (auto simp: current_holds_def slot_may_def)
  have odd: "(g + 1) mod 2 = 1" using True by (simp add: mod_Suc)
  show ?thesis
    using s m' odd parse_current_slot_zero_or_one(1) [OF s(3,4,5), of crc]
    by (simp add: next_slot_write_eq current_holds_def slot_may_def)
next
  case False
  then obtain s where s: "bs = s @ encode_current_slot crc 1 g m" "length s = 4096" "0 < m" "m \<le> u64_max" "g \<le> u64_max"
    using h by (auto simp: current_holds_def slot_may_def)
  have even: "(g + 1) mod 2 = 0" using False by (simp add: mod_Suc)
  show ?thesis
    using s m' even parse_current_slot_zero_or_one(2) [OF s(3,4,5), of crc]
    by (simp add: next_slot_write_eq current_holds_def slot_may_def)
qed

definition other_slot :: "bytes \<Rightarrow> nat \<Rightarrow> bytes" where
  "other_slot bs g = (if g mod 2 = 0 then take 4096 bs else drop 4096 bs)"

text \<open>The one outcome of a torn slot write that the format cannot detect: the first \<open>n\<close> bytes of
  the new slot over the rest of the old one, different from both, are themselves a whole slot, with
  the right checksum, of some other generation or manifest id.  As everything behind byte 32 is
  fixed by the fields before it, this needs the write to stop inside the fields.\<close>

definition slot_collision :: "(bytes \<Rightarrow> 32 word) \<Rightarrow> nat \<Rightarrow> bytes \<Rightarrow> nat \<Rightarrow> nat \<Rightarrow> bool" where
  "slot_collision crc n old g m \<longleftrightarrow>
     (let new = encode_current_slot crc (g mod 2) g m; torn = take n new @ drop n old in
      torn \<noteq> old \<and> torn \<noteq> new \<and> n < 32 \<and>
      (\<exists>g' m'. (g', m') \<noteq> (g, m) \<and> torn = encode_current_slot crc (g mod 2) g' m'))"

lemma slot_torn_cases:
  fixes crc :: "bytes \<Rightarrow> 32 word" and g m n :: nat and old :: bytes
  assumes "g \<le> u64_max" "m \<le> u64_max" "length old = 4096"
  defines "new \<equiv> encode_current_slot crc (g mod 2) g m"
  shows "take n new @ drop n old = old \<or> take n new @ drop n old = new \<or>
    \<not> is_ok (parse_current_slot crc (take n new @ drop n old) (g mod 2)) \<or> slot_collision crc n old g m"
proof -
  let ?t = "take n new @ drop n old"
  have "slot_collision crc n old g m"
    if "?t \<noteq> old" "?t \<noteq> new" and ok: "is_ok (parse_current_slot crc ?t (g mod 2))"
  proof -
    obtain c where "parse_current_slot crc ?t (g mod 2) = Inr c" using ok by (auto simp: is_ok_def split: sum.splits)
    then have t: "?t = encode_current_slot crc (g mod 2) (cs_generation c) (cs_manifest_id c)"
      and c: "cs_generation c = read_u64 (seg 16 24 ?t)" "cs_manifest_id c = read_u64 (seg 24 32 ?t)"
      by (rule parse_current_slot_sound)
         (use \<open>parse_current_slot crc ?t (g mod 2) = Inr c\<close> in
           \<open>auto simp: parse_current_slot_def CURRENT_SLOT_BYTES_def Let_def split: if_splits\<close>)
    have "n < 32"
    proof (rule ccontr)
      assume "\<not> n < 32"
      then have "seg 16 24 ?t = seg 16 24 new" "seg 24 32 ?t = seg 24 32 new"
        by (simp_all add: new_def seg_append seg_take min_def)
      moreover have "seg 16 24 new = le_bytes 8 g" "seg 24 32 new = le_bytes 8 m"
        by (simp_all only: new_def current_slot_fields)
      ultimately have "cs_generation c = g" "cs_manifest_id c = m"
        using c assms(1,2) by (simp_all add: read_le_bytes del: le_bytes.simps)
      then show False using t that(2) by (simp add: new_def)
    qed
    moreover have "(cs_generation c, cs_manifest_id c) \<noteq> (g, m)"
      using t that(2) by (auto simp: new_def)
    ultimately show ?thesis
      using that t unfolding slot_collision_def Let_def new_def by blast
  qed
  then show ?thesis by blast
qed

lemma current_holds_torn:
  assumes h: "current_holds crc bs g m" and m': "0 < m'" "m' \<le> u64_max" "g + 1 \<le> u64_max"
    and torn: "\<not> slot_collision crc n (other_slot bs (g + 1)) (g + 1) m'"
  shows "current_holds crc (next_slot_write crc n bs (g + 1) m') g m \<or>
    current_holds crc (next_slot_write crc n bs (g + 1) m') (g + 1) m'"
proof (cases "g mod 2 = 0")
  case True
  then obtain s where s: "bs = encode_current_slot crc 0 g m @ s" "slot_may crc s 1 g m" "0 < m" "m \<le> u64_max" "g \<le> u64_max"
    using h by (auto simp: current_holds_def)
  have odd: "(g + 1) mod 2 = 1" using True by (simp add: mod_Suc)
  have len: "length s = 4096" using s(2) by (simp add: slot_may_def)
  let ?t = "take n (encode_current_slot crc 1 (g + 1) m') @ drop n s"
  have w: "next_slot_write crc n bs (g + 1) m' = encode_current_slot crc 0 g m @ ?t"
    using s(1) len odd by (simp add: next_slot_write_eq)
  have "other_slot bs (g + 1) = s" using odd s(1) by (simp add: other_slot_def)
  then consider "?t = s" | "?t = encode_current_slot crc 1 (g + 1) m'" | "\<not> is_ok (parse_current_slot crc ?t 1)"
    using slot_torn_cases [OF m'(3,2) len, of n crc] torn odd by auto
  then show ?thesis
  proof cases
    case 1
    then show ?thesis using h w s(1) by simp
  next
    case 2
    then show ?thesis
      using current_holds_publish [OF h m'] w s(1) len odd by (simp add: next_slot_write_eq)
  next
    case 3
    then have "slot_may crc ?t 1 g m" using len by (auto simp: slot_may_def is_ok_def split: sum.splits)
    then show ?thesis using w True s by (auto simp: current_holds_def)
  qed
next
  case False
  then obtain s where s: "bs = s @ encode_current_slot crc 1 g m" "slot_may crc s 0 g m" "0 < m" "m \<le> u64_max" "g \<le> u64_max"
    using h by (auto simp: current_holds_def)
  have even: "(g + 1) mod 2 = 0" using False by (simp add: mod_Suc)
  have len: "length s = 4096" using s(2) by (simp add: slot_may_def)
  let ?t = "take n (encode_current_slot crc 0 (g + 1) m') @ drop n s"
  have w: "next_slot_write crc n bs (g + 1) m' = ?t @ encode_current_slot crc 1 g m"
    using s(1) len even by (simp add: next_slot_write_eq)
  have "other_slot bs (g + 1) = s" using even s(1) len by (simp add: other_slot_def)
  then consider "?t = s" | "?t = encode_current_slot crc 0 (g + 1) m'" | "\<not> is_ok (parse_current_slot crc ?t 0)"
    using slot_torn_cases [OF m'(3,2) len, of n crc] torn even by auto
  then show ?thesis
  proof cases
    case 1
    then show ?thesis using h w s(1) by simp
  next
    case 2
    then show ?thesis
      using current_holds_publish [OF h m'] w s(1) len even by (simp add: next_slot_write_eq)
  next
    case 3
    then have "slot_may crc ?t 0 g m" using len by (auto simp: slot_may_def is_ok_def split: sum.splits)
    then show ?thesis using w False s by (auto simp: current_holds_def)
  qed
qed


subsection \<open>Descriptors\<close>

definition desc_wf :: "sstable_descriptor \<Rightarrow> bool" where
  "desc_wf t \<longleftrightarrow> sd_level t \<le> 1 \<and> 0 < sd_table_id t \<and> sd_table_id t \<le> u64_max \<and>
     0 < sd_file_bytes t \<and> sd_file_bytes t \<le> u64_max \<and> 0 < sd_entry_count t \<and> sd_entry_count t \<le> u64_max \<and>
     0 < sd_durable_sequence t \<and> sd_durable_sequence t \<le> u64_max \<and>
     length (sd_smallest_key t) \<le> 4096 \<and> length (sd_largest_key t) \<le> 4096 \<and>
     sd_smallest_key t \<le> sd_largest_key t"

definition desc_bytes :: "(bytes \<Rightarrow> 32 word) \<Rightarrow> sstable_descriptor \<Rightarrow> bytes" where
  "desc_bytes crc t =
     (let b = (le_bytes 8 (sd_table_id t) @ le_bytes 8 (sd_file_bytes t) @ le_bytes 8 (sd_entry_count t) @
            le_bytes 8 (sd_durable_sequence t) @ le_bytes 4 (sd_level t) @ le_bytes 4 0 @
            le_bytes 4 (length (sd_smallest_key t)) @ le_bytes 4 (length (sd_largest_key t))) @
            sd_smallest_key t @ sd_largest_key t
      in b @ crc_field (crc b))"

lemma length_desc_bytes [simp]:
  "length (desc_bytes crc t) = 52 + length (sd_smallest_key t) + length (sd_largest_key t)"
  by (simp add: desc_bytes_def Let_def)

lemma encode_descriptor_eq: "desc_wf t \<Longrightarrow> encode_descriptor crc t = Inr (desc_bytes crc t)"
  by (simp add: encode_descriptor_def desc_bytes_def desc_wf_def MAX_KEY_BYTES_def try_u32_def
      checked_add64_def DESCRIPTOR_PREFIX_LEN_def u64_max_def Let_def)

lemma decode_desc_bytes:
  assumes wf: "desc_wf t" and bs: "bs = a @ desc_bytes crc t @ b"
    and lim: "length a + length (desc_bytes crc t) \<le> limit" "limit \<le> length bs" "length bs \<le> u64_max"
  shows "decode_descriptor crc bs (length a) limit MANIFEST_FORMAT_VERSION =
    Inr (t, length a + length (desc_bytes crc t))"
proof -
  let ?n = "length a" and ?sl = "length (sd_smallest_key t)" and ?ll = "length (sd_largest_key t)"
  define pre where "pre = le_bytes 8 (sd_table_id t) @ le_bytes 8 (sd_file_bytes t) @ le_bytes 8 (sd_entry_count t) @
            le_bytes 8 (sd_durable_sequence t) @ le_bytes 4 (sd_level t) @ le_bytes 4 0 @
            le_bytes 4 ?sl @ le_bytes 4 ?ll"
  have lpre: "length pre = 48" by (simp add: pre_def)
  let ?body = "pre @ sd_smallest_key t @ sd_largest_key t"
  have rec: "desc_bytes crc t = pre @ sd_smallest_key t @ sd_largest_key t @ crc_field (crc ?body)"
    by (simp add: desc_bytes_def Let_def pre_def)
  define p1 p2 p3 p4 where "p1 = ?n + 48" and "p2 = p1 + ?sl" and "p3 = p2 + ?ll" and "p4 = p3 + 4"
  note p = p1_def p2_def p3_def p4_def
  have parts: "seg ?n p1 bs = pre" "seg p1 p2 bs = sd_smallest_key t" "seg p2 p3 bs = sd_largest_key t"
    "seg ?n p3 bs = ?body" "seg p3 p4 bs = crc_field (crc ?body)"
    unfolding bs rec p
    by (simp_all add: seg_after [of a, unfolded add.assoc] seg_after0 layout add.assoc lpre)
  have fields: "seg 0 8 pre = le_bytes 8 (sd_table_id t)" "seg 8 16 pre = le_bytes 8 (sd_file_bytes t)"
    "seg 16 24 pre = le_bytes 8 (sd_entry_count t)" "seg 24 32 pre = le_bytes 8 (sd_durable_sequence t)"
    "seg 32 36 pre = le_bytes 4 (sd_level t)" "seg 36 40 pre = le_bytes 4 0"
    "seg 40 44 pre = le_bytes 4 ?sl" "seg 44 48 pre = le_bytes 4 ?ll"
    by (simp_all add: pre_def layout del: le_bytes.simps)
  have bounds: "p1 \<le> limit" "p4 \<le> limit" using lim(1) by (simp_all add: p)
  have adds: "checked_add64 ?n 48 = Some p1" "checked_add64 p1 ?sl = Some p2"
    "checked_add64 p2 ?ll = Some p3" "checked_add64 p3 4 = Some p4"
    using bounds(2) lim(2,3) by (simp_all add: checked_add64_def p)
  have lens: "?sl \<le> 4096" "?ll \<le> 4096" "?sl < 4294967296" "?ll < 4294967296"
    using wf by (simp_all add: desc_wf_def)
  have vals: "read_u64 (le_bytes 8 (sd_table_id t)) = sd_table_id t"
    "read_u64 (le_bytes 8 (sd_file_bytes t)) = sd_file_bytes t"
    "read_u64 (le_bytes 8 (sd_entry_count t)) = sd_entry_count t"
    "read_u64 (le_bytes 8 (sd_durable_sequence t)) = sd_durable_sequence t"
    "read_u32 (le_bytes 4 (sd_level t)) = sd_level t" "read_u32 (le_bytes 4 ?sl) = ?sl"
    "read_u32 (le_bytes 4 ?ll) = ?ll" "read_u32 (le_bytes 4 0) = 0"
    using wf lens by (simp_all add: desc_wf_def del: le_bytes.simps)
  have ok: "sd_level t \<le> 1" "sd_table_id t \<noteq> 0" "sd_file_bytes t \<noteq> 0" "sd_entry_count t \<noteq> 0"
    "sd_durable_sequence t \<noteq> 0" "\<not> sd_smallest_key t > sd_largest_key t"
    using wf by (simp_all add: desc_wf_def not_less)
  have legacy: "\<not> MANIFEST_FORMAT_VERSION \<le> MANIFEST_FORMAT_VERSION_V2"
    by (simp add: MANIFEST_FORMAT_VERSION_def MANIFEST_FORMAT_VERSION_V2_def)
  have "decode_descriptor crc bs ?n limit MANIFEST_FORMAT_VERSION = Inr (t, p4)"
    unfolding decode_descriptor_def Let_def
    using bounds ok lens legacy
    by (simp add: DESCRIPTOR_PREFIX_LEN_def adds parts fields vals MAX_KEY_BYTES_def del: le_bytes.simps)
  moreover have "p4 = ?n + length (desc_bytes crc t)" by (simp add: p)
  ultimately show ?thesis by simp
qed

lemma decode_descriptors_bytes:
  assumes "\<forall>t \<in> set ts. desc_wf t" "length bs \<le> u64_max" "limit = length a + length (concat (map (desc_bytes crc) ts))"
    and "bs = a @ concat (map (desc_bytes crc) ts) @ b"
  shows "decode_descriptors crc bs limit MANIFEST_FORMAT_VERSION (length ts) (length a) = Inr (ts, limit)"
  using assms
proof (induction ts arbitrary: a)
  case Nil
  then show ?case by simp
next
  case (Cons t ts)
  let ?rec = "desc_bytes crc t"
  have d: "decode_descriptor crc bs (length a) limit MANIFEST_FORMAT_VERSION = Inr (t, length a + length ?rec)"
    using Cons.prems
    by (intro decode_desc_bytes [where b = "concat (map (desc_bytes crc) ts) @ b"]) (simp_all del: length_desc_bytes)
  have "decode_descriptors crc bs limit MANIFEST_FORMAT_VERSION (length ts) (length (a @ ?rec)) = Inr (ts, limit)"
    using Cons.prems by (intro Cons.IH) (simp_all del: length_desc_bytes)
  then have rest: "decode_descriptors crc bs limit MANIFEST_FORMAT_VERSION (length ts) (length a + length ?rec) = Inr (ts, limit)"
    by (simp del: length_desc_bytes)
  show ?case using d rest by (simp del: length_desc_bytes)
qed


subsection \<open>Manifests\<close>

definition version_wf :: "version_set \<Rightarrow> bool" where
  "version_wf v \<longleftrightarrow> validate_version v = Inr () \<and> (\<forall>t \<in> set (vs_tables v). desc_wf t) \<and>
     length (vs_tables v) \<le> 2147483648 \<and> vs_manifest_id v \<le> u64_max \<and> vs_durable_sequence v \<le> u64_max \<and>
     vs_tombstone_gc_sequence v \<le> u64_max \<and> vs_table_id_high_watermark v \<le> u64_max \<and>
     vs_wal_id v \<le> u64_max \<and> vs_wal_first_sequence v \<le> u64_max"

definition manifest_h84 :: "version_set \<Rightarrow> nat \<Rightarrow> bytes" where
  "manifest_h84 v body_len =
     MANIFEST_MAGIC @ le_bytes 2 MANIFEST_FORMAT_VERSION @ le_bytes 2 MANIFEST_HEADER_LEN @ le_bytes 4 0 @
     le_bytes 8 (vs_manifest_id v) @ le_bytes 8 (vs_durable_sequence v) @ le_bytes 8 (length (vs_tables v)) @
     le_bytes 8 body_len @ le_bytes 8 (vs_wal_id v) @ le_bytes 8 (vs_wal_first_sequence v) @
     le_bytes 8 (vs_tombstone_gc_sequence v) @ le_bytes 8 (vs_table_id_high_watermark v) @ le_bytes 4 0"

definition manifest_body :: "(bytes \<Rightarrow> 32 word) \<Rightarrow> version_set \<Rightarrow> bytes" where
  "manifest_body crc v = concat (map (desc_bytes crc) (vs_tables v))"

definition manifest_image :: "(bytes \<Rightarrow> 32 word) \<Rightarrow> version_set \<Rightarrow> bytes" where
  "manifest_image crc v =
     (let h = manifest_h84 v (length (manifest_body crc v));
          bs = h @ crc_field (crc h) @ manifest_body crc v
      in bs @ crc_field (crc bs))"

lemma length_manifest_h84 [simp]: "length (manifest_h84 v n) = 84"
  by (simp add: manifest_h84_def)

lemma length_manifest_image: "length (manifest_image crc v) = 92 + length (manifest_body crc v)"
  by (simp add: manifest_image_def Let_def)

lemma manifest_body_bound:
  assumes "version_wf v"
  shows "length (manifest_body crc v) \<le> 17708874310761169551"
proof -
  have "length (concat (map (desc_bytes crc) ts)) \<le> 8244 * length ts" if "\<forall>t \<in> set ts. desc_wf t" for ts
    using that by (induction ts) (auto simp: desc_wf_def)
  from this [of "vs_tables v"] show ?thesis
    using assms by (simp add: version_wf_def manifest_body_def)
qed

lemma encode_manifest_eq:
  assumes "version_wf v"
  shows "encode_manifest crc v = Inr (manifest_image crc v)"
proof -
  have ds: "rmapM (encode_descriptor crc) (vs_tables v) = Inr (map (desc_bytes crc) (vs_tables v))"
    using assms by (intro rmapM_total) (simp add: encode_descriptor_eq version_wf_def)
  have len: "length (manifest_body crc v) \<le> u64_max" "length (vs_tables v) \<le> u64_max"
    using manifest_body_bound [OF assms, of crc] assms by (simp_all add: u64_max_def version_wf_def)
  have val: "validate_version v = Inr ()" using assms by (simp add: version_wf_def)
  show ?thesis
    unfolding encode_manifest_def val ds rbind_simps Let_def manifest_body_def [symmetric]
    using len by (simp add: try_u64_def manifest_image_def manifest_h84_def Let_def zero_bytes4 del: le_bytes.simps)
qed

lemma manifest_h84_fields:
  "seg 0 8 (manifest_h84 v n @ r) = MANIFEST_MAGIC" "seg 8 10 (manifest_h84 v n @ r) = le_bytes 2 MANIFEST_FORMAT_VERSION"
  "seg 10 12 (manifest_h84 v n @ r) = le_bytes 2 MANIFEST_HEADER_LEN" "seg 12 16 (manifest_h84 v n @ r) = le_bytes 4 0"
  "seg 16 24 (manifest_h84 v n @ r) = le_bytes 8 (vs_manifest_id v)"
  "seg 24 32 (manifest_h84 v n @ r) = le_bytes 8 (vs_durable_sequence v)"
  "seg 32 40 (manifest_h84 v n @ r) = le_bytes 8 (length (vs_tables v))" "seg 40 48 (manifest_h84 v n @ r) = le_bytes 8 n"
  "seg 48 56 (manifest_h84 v n @ r) = le_bytes 8 (vs_wal_id v)"
  "seg 56 64 (manifest_h84 v n @ r) = le_bytes 8 (vs_wal_first_sequence v)"
  "seg 64 72 (manifest_h84 v n @ r) = le_bytes 8 (vs_tombstone_gc_sequence v)"
  "seg 72 80 (manifest_h84 v n @ r) = le_bytes 8 (vs_table_id_high_watermark v)" "seg 80 84 (manifest_h84 v n @ r) = le_bytes 4 0"
  "take 84 (manifest_h84 v n @ r) = manifest_h84 v n"
  by (simp_all add: manifest_h84_def layout del: le_bytes.simps)

lemma read_manifest_image:
  assumes wf: "version_wf v"
  shows "read_manifest crc (Some (manifest_image crc v)) (vs_manifest_id v) = Inr (v\<lparr>vs_current_generation := 0\<rparr>)"
proof -
  define body where "body = manifest_body crc v"
  define h where "h = manifest_h84 v (length body)"
  define pre where "pre = h @ crc_field (crc h) @ body"
  define bs where "bs = manifest_image crc v"
  have bs: "bs = pre @ crc_field (crc pre)"
    by (simp add: bs_def manifest_image_def Let_def pre_def h_def body_def)
  have bs1: "bs = h @ (crc_field (crc h) @ body @ crc_field (crc pre))" by (simp add: bs pre_def)
  have lh: "length h = 84" by (simp add: h_def)
  have lpre: "length pre = 88 + length body" by (simp add: pre_def lh)
  have lbody: "length body \<le> 17708874310761169551"
    using manifest_body_bound [OF wf] by (simp add: body_def)
  have lbs: "length bs = 92 + length body" by (simp add: bs lpre)
  have big: "length bs \<le> u64_max" using lbody by (simp add: lbs u64_max_def)
  have f: "seg 0 8 bs = MANIFEST_MAGIC" "seg 8 10 bs = le_bytes 2 MANIFEST_FORMAT_VERSION"
    "seg 10 12 bs = le_bytes 2 MANIFEST_HEADER_LEN" "seg 12 16 bs = le_bytes 4 0"
    "seg 16 24 bs = le_bytes 8 (vs_manifest_id v)" "seg 24 32 bs = le_bytes 8 (vs_durable_sequence v)"
    "seg 32 40 bs = le_bytes 8 (length (vs_tables v))" "seg 40 48 bs = le_bytes 8 (length body)"
    "seg 48 56 bs = le_bytes 8 (vs_wal_id v)" "seg 56 64 bs = le_bytes 8 (vs_wal_first_sequence v)"
    "seg 64 72 bs = le_bytes 8 (vs_tombstone_gc_sequence v)"
    "seg 72 80 bs = le_bytes 8 (vs_table_id_high_watermark v)" "seg 80 84 bs = le_bytes 4 0" "take 84 bs = h"
    unfolding bs1 unfolding h_def by (rule manifest_h84_fields)+
  have tail: "seg 84 88 bs = crc_field (crc h)" "take (88 + length body) bs = pre"
    "drop (88 + length body) bs = crc_field (crc pre)"
    using lpre lh by (simp_all add: bs pre_def layout)
  have vals: "read_u16 (seg 8 10 bs) = MANIFEST_FORMAT_VERSION" "read_u16 (seg 10 12 bs) = MANIFEST_HEADER_LEN"
    "read_u64 (seg 16 24 bs) = vs_manifest_id v" "read_u64 (seg 24 32 bs) = vs_durable_sequence v"
    "read_u64 (seg 32 40 bs) = length (vs_tables v)" "read_u64 (seg 40 48 bs) = length body"
    "read_u64 (seg 48 56 bs) = vs_wal_id v" "read_u64 (seg 56 64 bs) = vs_wal_first_sequence v"
    "read_u64 (seg 64 72 bs) = vs_tombstone_gc_sequence v" "read_u64 (seg 72 80 bs) = vs_table_id_high_watermark v"
    "list_all (\<lambda>b. b = 0) (seg 80 84 bs)"
    unfolding f using wf lbody
    by (simp_all add: version_wf_def MANIFEST_FORMAT_VERSION_def MANIFEST_HEADER_LEN_def u64_max_def
        le_bytes_zero list_all_iff del: le_bytes.simps)
  have header: "parse_manifest_header crc bs MANIFEST_FORMAT_VERSION =
      Inr (88, vs_wal_id v, vs_wal_first_sequence v, vs_tombstone_gc_sequence v, Some (vs_table_id_high_watermark v))"
    unfolding parse_manifest_header_def vals f(4,14) tail zero_bytes4
    using vals(11) lbs by (simp add: MANIFEST_FORMAT_VERSION_V1_def MANIFEST_FORMAT_VERSION_V2_def
      MANIFEST_FORMAT_VERSION_V3_def MANIFEST_FORMAT_VERSION_V4_def MANIFEST_FORMAT_VERSION_def MANIFEST_HEADER_LEN_def)
  have descs: "decode_descriptors crc bs (88 + length body) MANIFEST_FORMAT_VERSION (length (vs_tables v)) 88 =
      Inr (vs_tables v, 88 + length body)"
    using decode_descriptors_bytes [of "vs_tables v" bs "88 + length body" "h @ crc_field (crc h)" crc
        "crc_field (crc pre)"] wf big lh
    by (simp add: version_wf_def bs pre_def body_def manifest_body_def)
  have adds: "checked_add64 88 (length body) = Some (88 + length body)"
    "checked_add64 (88 + length body) 4 = Some (length bs)" "length bs - 4 = 88 + length body"
    using big lbs by (simp_all add: checked_add64_def)
  have val: "validate_version_set (vs_durable_sequence v) (vs_tombstone_gc_sequence v)
      (vs_table_id_high_watermark v) (vs_wal_id v) (vs_wal_first_sequence v) (vs_tables v) = Inr ()"
    using wf by (simp add: version_wf_def validate_version_def)
  have "read_manifest crc (Some bs) (vs_manifest_id v) = Inr (v\<lparr>vs_current_generation := 0\<rparr>)"
    unfolding read_manifest_def ok_or_simps rbind_simps f(1) vals Let_def header prod.case
    by (simp add: lbs MANIFEST_HEADER_LEN_V1_def)
       (simp add: adds(1,2) [unfolded lbs] tail descs val)
  then show ?thesis by (simp add: bs_def)
qed


subsection \<open>Valid version sets\<close>

definition level1_count :: "sstable_descriptor list \<Rightarrow> nat" where
  "level1_count ts = length (filter (\<lambda>t. sd_level t = 1) ts)"

lemma validate_tables_iff:
  assumes "n \<le> 1"
  shows "validate_tables pid pd n ts = Inr x \<longleftrightarrow>
    (\<forall>t \<in> set ts. sd_level t \<le> 1) \<and> n + level1_count ts \<le> 1 \<and>
    sorted_wrt (<) (pid # map sd_table_id ts) \<and> sorted_wrt (<) (pd # map sd_durable_sequence ts) \<and>
    x = last (pid # map sd_table_id ts)"
  using assms
proof (induction pid pd n ts rule: validate_tables.induct)
  case (1 pid pd n)
  then show ?case by (auto simp: level1_count_def)
next
  case (2 pid pd n t ts)
  have step: "sorted_wrt (<) (a # b # xs) \<longleftrightarrow> a < b \<and> sorted_wrt (<) (b # xs)" for a b :: nat and xs
    by (auto intro: less_trans)
  have "sd_level t > 1 \<or> sd_level t = 1 \<and> n = 1 \<or> sd_level t = 1 \<and> n = 0 \<or> sd_level t = 0"
    using "2.prems" by arith
  then consider "sd_level t > 1" | "sd_level t = 1" "n = 1" | "sd_level t = 1" "n = 0" | "sd_level t = 0" by (elim disjE conjE) simp_all
  then show ?case
  proof cases
    case 1
    then show ?thesis by auto
  next
    case 2
    then show ?thesis by (simp add: checked_add64_def u64_max_def level1_count_def)
  next
    case 3
    have c: "rbind (ok_or (checked_add64 0 1) (Corruption 0)) (\<lambda>n. if n > 1 then Inl (Corruption 0) else Inr n) = Inr 1"
      by (simp add: checked_add64_def u64_max_def)
    show ?thesis
    proof (cases "pid < sd_table_id t \<and> pd < sd_durable_sequence t")
      case True
      then show ?thesis
        using "2.IH" [of 1] 3 c unfolding list.map step by (simp add: level1_count_def not_le)
    next
      case False
      then show ?thesis using 3 c unfolding list.map step by (auto simp: not_less)
    qed
  next
    case 4
    show ?thesis
    proof (cases "pid < sd_table_id t \<and> pd < sd_durable_sequence t")
      case True
      then show ?thesis
        using "2.IH" [of n] "2.prems" 4 unfolding list.map step by (simp add: level1_count_def not_le)
    next
      case False
      then show ?thesis using 4 unfolding list.map step by (auto simp: not_less)
    qed
  qed
qed

definition tables_ok :: "sstable_descriptor list \<Rightarrow> bool" where
  "tables_ok ts \<longleftrightarrow> (\<forall>t \<in> set ts. sd_level t \<le> 1) \<and> level1_count ts \<le> 1 \<and>
     sorted_wrt (<) (0 # map sd_table_id ts) \<and> sorted_wrt (<) (0 # map sd_durable_sequence ts)"

lemma validate_version_set_iff:
  "validate_version_set dur gc high wid fs ts = Inr () \<longleftrightarrow>
     gc \<le> dur \<and> (0 < dur \<longrightarrow> high \<noteq> 0) \<and> wid \<noteq> 0 \<and> fs \<noteq> 0 \<and> fs \<le> saturating_add64 dur 1 \<and>
     tables_ok ts \<and> last (0 # map sd_table_id ts) \<le> high \<and>
     (if ts = [] then dur = gc else dur = sd_durable_sequence (last ts))"
proof -
  have iff: "validate_tables 0 0 0 ts = Inr x \<longleftrightarrow> tables_ok ts \<and> x = last (0 # map sd_table_id ts)" for x
    using validate_tables_iff [of 0 0 0 ts x] by (auto simp: tables_ok_def)
  show ?thesis
  proof (cases "validate_tables 0 0 0 ts")
    case (Inl e)
    then have "\<not> tables_ok ts" using iff [of "last (0 # map sd_table_id ts)"] by simp
    then show ?thesis using Inl unfolding validate_version_set_def by (auto split: if_splits)
  next
    case (Inr x)
    then have "tables_ok ts" "last (0 # map sd_table_id ts) = x" using iff by auto
    then show ?thesis
      unfolding validate_version_set_def Inr rbind_simps Let_def
      by (simp add: not_le not_less del: last.simps)
  qed
qed


subsection \<open>Published version sets\<close>

definition published :: "(bytes \<Rightarrow> 32 word) \<Rightarrow> disk \<Rightarrow> version_set \<Rightarrow> bool" where
  "published crc d v \<longleftrightarrow> version_wf v \<and>
     (\<exists>bs. disk_read d CURRENT_FILE_NAME = Some bs \<and>
        current_holds crc bs (vs_current_generation v) (vs_manifest_id v)) \<and>
     disk_read d (manifest_file_name (vs_manifest_id v)) = Some (manifest_image crc v)"

definition next_version :: "version_set \<Rightarrow> nat \<Rightarrow> manifest_state \<Rightarrow> version_set" where
  "next_version v nid st =
     \<lparr>vs_current_generation = vs_current_generation v + 1, vs_manifest_id = nid,
      vs_durable_sequence = mn_durable_sequence st, vs_tombstone_gc_sequence = mn_tombstone_gc_sequence st,
      vs_table_id_high_watermark = fold (\<lambda>t high. max high (sd_table_id t)) (mn_tables st) (vs_table_id_high_watermark v),
      vs_wal_id = mn_wal_id st, vs_wal_first_sequence = mn_wal_first_sequence st, vs_tables = mn_tables st\<rparr>"

lemma manifest_file_names [simp]:
  "CURRENT_FILE_NAME \<noteq> manifest_file_name n" "manifest_file_name n \<noteq> CURRENT_FILE_NAME"
  "manifest_file_name m = manifest_file_name n \<longleftrightarrow> m = n"
  by (auto simp: CURRENT_FILE_NAME_def manifest_file_name_def ascii_def format_dec_inject)

lemma manifest_image_generation [simp]: "manifest_image crc (v\<lparr>vs_current_generation := g\<rparr>) = manifest_image crc v"
  by (simp add: manifest_image_def manifest_h84_def manifest_body_def)

lemma version_wf_generation [simp]: "version_wf (v\<lparr>vs_current_generation := g\<rparr>) = version_wf v"
  by (simp add: version_wf_def validate_version_def)

lemma load_published:
  assumes "published crc d v"
  shows "manifest_load crc d = Inr v"
proof -
  obtain bs where bs: "disk_read d CURRENT_FILE_NAME = Some bs"
    "current_holds crc bs (vs_current_generation v) (vs_manifest_id v)"
    and m: "disk_read d (manifest_file_name (vs_manifest_id v)) = Some (manifest_image crc v)" "version_wf v"
    using assms by (auto simp: published_def)
  show ?thesis
    by (simp add: manifest_load_def bs(1) read_current_holds [OF bs(2)] m(1) read_manifest_image [OF m(2)])
qed

lemma published_frame:
  assumes "published crc d v" "disk_read d' CURRENT_FILE_NAME = disk_read d CURRENT_FILE_NAME"
    "disk_read d' (manifest_file_name (vs_manifest_id v)) = disk_read d (manifest_file_name (vs_manifest_id v))"
  shows "published crc d' v"
  using assms by (simp add: published_def)

lemma write_current_slot_eq:
  "disk_read d CURRENT_FILE_NAME = Some bs \<Longrightarrow>
     write_current_slot crc g m d =
       (case disk_next_fault d of
          (Some (BeforeWrite k), d') \<Rightarrow> (Inl (Io k), d')
        | (Some (TornWrite n k), d') \<Rightarrow> (Inl (Io k), disk_set CURRENT_FILE_NAME (next_slot_write crc n bs g m) d')
        | (None, d') \<Rightarrow> (Inr (), disk_set CURRENT_FILE_NAME (next_slot_write crc 4096 bs g m) d'))"
  by (simp add: write_current_slot_def disk_write_at_def next_slot_write_def Let_def
      split: prod.split option.split write_fault.split)

text \<open>Without faults, the next slot publishes; every other file stays.\<close>

lemma write_current_slot_ok:
  assumes "dk_faults d = []" "disk_read d CURRENT_FILE_NAME = Some bs" "current_holds crc bs g m"
    and "0 < m'" "m' \<le> u64_max" "g + 1 \<le> u64_max"
  shows "\<exists>bs'. write_current_slot crc (g + 1) m' d = (Inr (), disk_set CURRENT_FILE_NAME bs' d) \<and>
    current_holds crc bs' (g + 1) m'"
  using assms(1) current_holds_publish [OF assms(3-6)] by (auto simp: write_current_slot_eq [OF assms(2)])

lemma fold_max_ge: "(w :: nat) \<le> fold (\<lambda>t high. max high (f t)) ts w"
  by (induction ts arbitrary: w) (auto intro: order.trans [OF max.cobounded1])

lemma prepare_install_eq:
  assumes "mn_durable_sequence st \<ge> vs_durable_sequence v" "mn_tombstone_gc_sequence st \<ge> vs_tombstone_gc_sequence v"
    and "vs_current_generation v + 1 \<le> u64_max" "version_wf (next_version v nid st)"
  shows "prepare_install crc v nid st d =
    (case disk_create_new (manifest_file_name nid) (manifest_image crc (next_version v nid st)) d of
       (Inl e, d1) \<Rightarrow> (Inl e, d1) | (Inr _, d1) \<Rightarrow> (Inr (next_version v nid st), d1))"
proof -
  have val: "validate_version_set (mn_durable_sequence st) (mn_tombstone_gc_sequence st)
      (fold (\<lambda>t high. max high (sd_table_id t)) (mn_tables st) (vs_table_id_high_watermark v))
      (mn_wal_id st) (mn_wal_first_sequence st) (mn_tables st) = Inr ()"
    using assms(4) by (simp add: version_wf_def validate_version_def next_version_def)
  have nid: "vs_manifest_id (next_version v nid st) = nid" by (simp add: next_version_def)
  have add: "checked_add64 (vs_current_generation v) 1 = Some (vs_current_generation v + 1)"
    using assms(3) by (simp add: checked_add64_def)
  show ?thesis
    unfolding prepare_install_def add ok_or_simps sum.case Let_def val next_version_def [symmetric]
      write_manifest_new_def encode_manifest_eq [OF assms(4)] nid
    using assms(1,2) by simp
qed

lemma manifest_install_ok:
  assumes quiet: "dk_faults d = []" and pub: "published crc d (v\<lparr>vs_table_id_high_watermark := high\<rparr>)"
    and new: "disk_read d (manifest_file_name nid) = None" "0 < nid" "nid \<le> u64_max"
    and st: "mn_durable_sequence st \<ge> vs_durable_sequence v" "mn_tombstone_gc_sequence st \<ge> vs_tombstone_gc_sequence v"
      "vs_current_generation v + 1 \<le> u64_max" "version_wf (next_version v nid st)"
  shows "\<exists>d'. manifest_install crc v nid st d = (Inr (next_version v nid st), d') \<and>
    published crc d' (next_version v nid st) \<and> dk_faults d' = [] \<and> dk_stuck d' = dk_stuck d \<and>
    (\<forall>name. name \<noteq> CURRENT_FILE_NAME \<longrightarrow> name \<noteq> manifest_file_name nid \<longrightarrow> disk_read d' name = disk_read d name)"
proof -
  let ?v = "next_version v nid st" and ?d1 = "disk_set (manifest_file_name nid) (manifest_image crc (next_version v nid st)) d"
  have prep: "prepare_install crc v nid st d = (Inr ?v, ?d1)"
    using quiet new(1) by (simp add: prepare_install_eq [OF st] disk_create_quiet)
  obtain bs where bs: "disk_read ?d1 CURRENT_FILE_NAME = Some bs"
    "current_holds crc bs (vs_current_generation v) (vs_manifest_id v)"
    using pub by (auto simp: published_def)
  have id: "vs_manifest_id ?v = nid" "vs_current_generation ?v = vs_current_generation v + 1"
    by (simp_all add: next_version_def)
  obtain bs' where w: "write_current_slot crc (vs_current_generation v + 1) nid ?d1 = (Inr (), disk_set CURRENT_FILE_NAME bs' ?d1)"
    "current_holds crc bs' (vs_current_generation v + 1) nid"
    using write_current_slot_ok [OF _ bs new(2,3) st(3)] quiet by auto
  show ?thesis
    using w st(4) quiet by (simp add: manifest_install_def prep publish_prepared_def id published_def)
qed

lemma mirror_current_ok:
  assumes quiet: "dk_faults d = []" and pub: "published crc d v" and g: "vs_current_generation v + 1 \<le> u64_max"
  defines "v' \<equiv> v\<lparr>vs_current_generation := vs_current_generation v + 1\<rparr>"
  shows "\<exists>bs. mirror_current crc v d = (Inr v', disk_set CURRENT_FILE_NAME bs d) \<and>
    published crc (disk_set CURRENT_FILE_NAME bs d) v'"
proof -
  obtain bs where bs: "disk_read d CURRENT_FILE_NAME = Some bs"
    "current_holds crc bs (vs_current_generation v) (vs_manifest_id v)"
    and m: "disk_read d (manifest_file_name (vs_manifest_id v)) = Some (manifest_image crc v)" "version_wf v"
    using pub by (auto simp: published_def)
  then have id: "0 < vs_manifest_id v" "vs_manifest_id v \<le> u64_max" by (auto simp: current_holds_def)
  obtain bs' where w: "write_current_slot crc (vs_current_generation v + 1) (vs_manifest_id v) d =
      (Inr (), disk_set CURRENT_FILE_NAME bs' d)" "current_holds crc bs' (vs_current_generation v + 1) (vs_manifest_id v)"
    using write_current_slot_ok [OF quiet bs id g] by auto
  show ?thesis
    using w g m by (auto simp: mirror_current_def checked_add64_def v'_def published_def)
qed

lemma create_initial_ok:
  assumes "dk_faults d = []" "disk_read d (manifest_file_name 1) = None" "disk_read d CURRENT_FILE_NAME = None"
    and "0 < wid" "wid \<le> u64_max"
  shows "\<exists>v d'. manifest_create_initial crc wid 1 d = (Inr v, d') \<and> published crc d' v \<and> vs_manifest_id v = 1 \<and>
    vs_durable_sequence v = 0 \<and> vs_wal_id v = wid \<and> vs_wal_first_sequence v = 1 \<and> vs_tables v = [] \<and>
    vs_table_id_high_watermark v = 0 \<and> vs_current_generation v = 0 \<and> vs_tombstone_gc_sequence v = 0 \<and>
    dk_faults d' = [] \<and> dk_stuck d' = dk_stuck d \<and>
    (\<forall>name. name \<noteq> CURRENT_FILE_NAME \<longrightarrow> name \<noteq> manifest_file_name 1 \<longrightarrow> disk_read d' name = disk_read d name)"
proof -
  let ?v = "\<lparr>vs_current_generation = 0, vs_manifest_id = 1, vs_durable_sequence = 0,
     vs_tombstone_gc_sequence = 0, vs_table_id_high_watermark = 0, vs_wal_id = wid,
     vs_wal_first_sequence = 1, vs_tables = []\<rparr>"
  have wf: "version_wf ?v"
    using assms(4,5) by (simp add: version_wf_def validate_version_def validate_version_set_iff
        tables_ok_def level1_count_def saturating_add64_def u64_max_def)
  show ?thesis
    using assms(1-3) wf current_holds_initial [of 1 crc]
    by (simp add: manifest_create_initial_def Let_def write_manifest_new_def encode_manifest_eq disk_create_quiet
        published_def u64_max_def)
qed

lemma prepare_install_Inr:
  assumes "prepare_install crc v nid st d = (Inr v', d')"
  shows "v' = next_version v nid st \<and> mn_durable_sequence st \<ge> vs_durable_sequence v \<and>
    mn_tombstone_gc_sequence st \<ge> vs_tombstone_gc_sequence v \<and> vs_current_generation v + 1 \<le> u64_max \<and>
    validate_version v' = Inr ()"
  using assms by (auto simp: prepare_install_def Let_def next_version_def validate_version_def result_iff
      checked_add64_def ok_or_def split: if_splits sum.splits prod.splits option.splits)

text \<open>Whatever a failing write does, the published version stays or is replaced whole.\<close>

lemma prepare_install_keeps:
  assumes pub: "published crc d v" and wf: "version_wf (next_version v nid st)"
    and run: "prepare_install crc v nid st d = (r, d')"
  shows "published crc d' v \<and> disk_read d' CURRENT_FILE_NAME = disk_read d CURRENT_FILE_NAME \<and>
    (\<forall>v'. r = Inr v' \<longrightarrow> disk_read d' (manifest_file_name nid) = Some (manifest_image crc (next_version v nid st)))"
proof (cases "mn_durable_sequence st \<ge> vs_durable_sequence v \<and> mn_tombstone_gc_sequence st \<ge> vs_tombstone_gc_sequence v \<and>
    vs_current_generation v + 1 \<le> u64_max")
  case False
  then have "\<not> is_ok r \<and> d' = d"
    using run by (auto simp: prepare_install_def Let_def checked_add64_def split: if_splits sum.splits prod.splits)
  then show ?thesis using pub by (auto simp: is_ok_def)
next
  case True
  obtain r1 d1 where c: "disk_create_new (manifest_file_name nid) (manifest_image crc (next_version v nid st)) d = (r1, d1)"
    by force
  have out: "d' = d1" "r = (case r1 of Inl e \<Rightarrow> Inl e | Inr _ \<Rightarrow> Inr (next_version v nid st))"
    using run True c by (auto simp: prepare_install_eq [OF _ _ _ wf] split: sum.splits)
  have mine: "disk_read d (manifest_file_name (vs_manifest_id v)) \<noteq> None" using pub by (auto simp: published_def)
  from c show ?thesis
  proof (cases rule: disk_create_cases)
    case fail
    then show ?thesis using out published_frame [OF pub] by (auto simp: is_ok_def split: sum.splits)
  next
    case (torn n)
    then have "nid \<noteq> vs_manifest_id v" using mine by auto
    then show ?thesis using out torn published_frame [OF pub] by (auto simp: is_ok_def split: sum.splits)
  next
    case whole
    then have "nid \<noteq> vs_manifest_id v" using mine by auto
    then show ?thesis using out whole published_frame [OF pub] by auto
  qed
qed

lemma write_current_slot_atomic:
  assumes pub: "published crc d v" and next': "version_wf v'" "0 < vs_manifest_id v'"
      "vs_current_generation v' = vs_current_generation v + 1" "vs_current_generation v' \<le> u64_max"
      "disk_read d (manifest_file_name (vs_manifest_id v')) = Some (manifest_image crc v')"
    and bs: "disk_read d CURRENT_FILE_NAME = Some bs"
    and run: "write_current_slot crc (vs_current_generation v') (vs_manifest_id v') d = (r, d')"
  shows "(published crc d' v \<or> published crc d' v' \<or>
      (\<exists>n. disk_read d' CURRENT_FILE_NAME =
          Some (next_slot_write crc n bs (vs_current_generation v') (vs_manifest_id v')) \<and>
        slot_collision crc n (other_slot bs (vs_current_generation v')) (vs_current_generation v') (vs_manifest_id v'))) \<and>
    (is_ok r \<longrightarrow> published crc d' v') \<and>
    (\<forall>name. name \<noteq> CURRENT_FILE_NAME \<longrightarrow> disk_read d' name = disk_read d name)"
proof -
  let ?g = "vs_current_generation v'" and ?m = "vs_manifest_id v'"
  have h: "current_holds crc bs (vs_current_generation v) (vs_manifest_id v)" using pub bs by (auto simp: published_def)
  have id: "?m \<le> u64_max" using next'(1) by (simp add: version_wf_def)
  obtain f d1 where f: "disk_next_fault d = (f, d1)" by force
  note same = disk_read_next_fault [OF f]
  have cases: "published crc (disk_set CURRENT_FILE_NAME (next_slot_write crc n bs ?g ?m) d1) v \<or>
      published crc (disk_set CURRENT_FILE_NAME (next_slot_write crc n bs ?g ?m) d1) v' \<or>
      slot_collision crc n (other_slot bs ?g) ?g ?m" for n
    using current_holds_torn [OF h next'(2) id, of n] next' pub same by (auto simp: published_def)
  have pub': "published crc (disk_set CURRENT_FILE_NAME (next_slot_write crc 4096 bs ?g ?m) d1) v'"
    using current_holds_publish [OF h next'(2) id] next' same by (auto simp: published_def)
  have keep: "published crc d1 v" using published_frame [OF pub] same by simp
  show ?thesis
  proof (cases f)
    case None
    then show ?thesis using run f pub' same by (auto simp: write_current_slot_eq [OF bs])
  next
    case (Some wf)
    show ?thesis
    proof (cases wf)
      case (BeforeWrite k)
      then show ?thesis using run f Some keep same by (auto simp: write_current_slot_eq [OF bs])
    next
      case (TornWrite n k)
      then have "d' = disk_set CURRENT_FILE_NAME (next_slot_write crc n bs ?g ?m) d1" "r = Inl (Io k)"
        using run f Some by (simp_all add: write_current_slot_eq [OF bs])
      then show ?thesis using cases [of n] same by auto
    qed
  qed
qed


subsection \<open>Properties\<close>

text \<open>Every well-formed version set encodes to a manifest that reads back, under its
  own id, as the same version set with a zero generation.\<close>

theorem manifest_round_trip:
  assumes "version_wf v"
  shows "\<exists>bs. encode_manifest crc v = Inr bs \<and>
    read_manifest crc (Some bs) (vs_manifest_id v) = Inr (v\<lparr>vs_current_generation := 0\<rparr>)"
  using encode_manifest_eq [OF assms] read_manifest_image [OF assms] by blast

definition sample_version :: "nat \<Rightarrow> version_set" where
  "sample_version n =
     \<lparr>vs_current_generation = n, vs_manifest_id = n + 1, vs_durable_sequence = 9, vs_tombstone_gc_sequence = 0,
      vs_table_id_high_watermark = 4, vs_wal_id = 1, vs_wal_first_sequence = 1,
      vs_tables = [\<lparr>sd_table_id = 4, sd_level = 0, sd_file_bytes = 200, sd_entry_count = 2,
        sd_durable_sequence = 9, sd_smallest_key = [1], sd_largest_key = [2]\<rparr>]\<rparr>"

lemma sample_version_wf: "n < 100 \<Longrightarrow> version_wf (sample_version n)"
  by (simp add: sample_version_def version_wf_def validate_version_def validate_version_set_iff tables_ok_def
      level1_count_def desc_wf_def saturating_add64_def u64_max_def)

lemma manifest_round_trip_witness:
  "\<exists>bs. read_manifest (\<lambda>_. 0) (Some bs) 1 = Inr (sample_version 0)"
  using manifest_round_trip [OF sample_version_wf [of 0], of "\<lambda>_. 0"] by (auto simp: sample_version_def)

text \<open>C28 (manifest_atomic): installing a version set is atomic under any failure of its writes.
  Whatever prefix of the new manifest or of the rewritten \<open>CURRENT\<close> slot reached the disk, loading
  the directory afterwards gives exactly the old or exactly the new version set, except when the
  slot write stopped after \<open>n < 32\<close> bytes and those bytes over the old slot happen to be a whole slot
  of another generation or manifest id that carries its own right checksum.  (Nothing is assumed of
  the checksum, so this case is stated; both manifests and the slot of the old generation are
  then still on the disk.)  When the installation reports success, loading gives the new one.\<close>

theorem manifest_install_atomic:
  assumes pub: "published crc d v" and wf: "version_wf (next_version v nid st)" and nid: "0 < nid"
    and bs: "disk_read d CURRENT_FILE_NAME = Some bs"
    and run: "manifest_install crc v nid st d = (r, d')"
  shows "(manifest_load crc d' \<in> {Inr v, Inr (next_version v nid st)} \<or>
      (\<exists>n. slot_collision crc n (other_slot bs (vs_current_generation v + 1)) (vs_current_generation v + 1) nid \<and>
        disk_read d' CURRENT_FILE_NAME = Some (next_slot_write crc n bs (vs_current_generation v + 1) nid) \<and>
        disk_read d' (manifest_file_name (vs_manifest_id v)) = Some (manifest_image crc v) \<and>
        disk_read d' (manifest_file_name nid) = Some (manifest_image crc (next_version v nid st)))) \<and>
    (\<forall>v'. r = Inr v' \<longrightarrow> v' = next_version v nid st \<and> manifest_load crc d' = Inr v')"
proof (cases "prepare_install crc v nid st d")
  case (Pair r1 d1)
  note keeps = prepare_install_keeps [OF pub wf Pair]
  show ?thesis
  proof (cases r1)
    case (Inl e)
    then show ?thesis using run Pair keeps load_published [of crc d1 v] by (auto simp: manifest_install_def)
  next
    case (Inr v1)
    note good = prepare_install_Inr [OF Pair [unfolded Inr]]
    let ?v = "next_version v nid st"
    have id: "vs_manifest_id ?v = nid" "vs_current_generation ?v = vs_current_generation v + 1"
      by (simp_all add: next_version_def)
    obtain r2 d2 where w: "write_current_slot crc (vs_current_generation ?v) (vs_manifest_id ?v) d1 = (r2, d2)" by force
    have out: "d' = d2" "r = (case r2 of Inl e \<Rightarrow> Inl e | Inr _ \<Rightarrow> Inr ?v)"
      using run Pair Inr good w by (auto simp: manifest_install_def publish_prepared_def split: sum.splits)
    have pub1: "published crc d1 v" and bs1: "disk_read d1 CURRENT_FILE_NAME = Some bs"
      and img: "disk_read d1 (manifest_file_name nid) = Some (manifest_image crc ?v)"
      using keeps Inr bs by auto
    have "(published crc d2 v \<or> published crc d2 ?v \<or>
        (\<exists>n. disk_read d2 CURRENT_FILE_NAME = Some (next_slot_write crc n bs (vs_current_generation v + 1) nid) \<and>
          slot_collision crc n (other_slot bs (vs_current_generation v + 1)) (vs_current_generation v + 1) nid)) \<and>
        (is_ok r2 \<longrightarrow> published crc d2 ?v) \<and>
        (\<forall>name. name \<noteq> CURRENT_FILE_NAME \<longrightarrow> disk_read d2 name = disk_read d1 name)"
      using write_current_slot_atomic [OF pub1 wf _ _ _ _ bs1 w] good img nid id by simp
    moreover have "disk_read d1 (manifest_file_name (vs_manifest_id v)) = Some (manifest_image crc v)"
      using pub1 by (simp add: published_def)
    ultimately show ?thesis using out load_published [of crc d2] img by (auto split: sum.splits)
  qed
qed

text \<open>A checksum for the witness: the sum of the bytes.\<close>

definition sum_crc :: "bytes \<Rightarrow> 32 word" where
  "sum_crc bs = word_of_nat (sum_list (map unat bs))"

lemma take_drop_same:
  "take n u = take n w \<Longrightarrow> take n u @ drop n w = w" "drop n u = drop n w \<Longrightarrow> take n u @ drop n w = u"
  by (metis append_take_drop_id)+

lemma torn_two_bytes:
  fixes a a' b b' c c' :: byte and p q r t :: bytes
  defines "u \<equiv> p @ [a] @ q @ [b] @ r @ [c] @ t" and "w \<equiv> p @ [a'] @ q @ [b'] @ r @ [c'] @ t"
  shows "take n u @ drop n w \<in> {w, u, p @ [a] @ q @ [b'] @ r @ [c'] @ t, p @ [a] @ q @ [b] @ r @ [c'] @ t}"
proof -
  let ?i = "length p" and ?j = "Suc (length p + length q)"
  let ?k = "Suc (?j + length r)"
  consider "n \<le> ?i" | "?i < n" "n \<le> ?j" | "?j < n" "n \<le> ?k" | "?k < n" by linarith
  then show ?thesis
  proof cases
    case 1
    then show ?thesis by (simp add: u_def w_def)
  next
    case 2
    then obtain k where "n = Suc ?i + k" "k \<le> length q" by (auto simp: le_iff_add less_iff_Suc_add)
    then show ?thesis by (simp add: u_def w_def)
  next
    case 3
    then obtain k where "n = Suc ?j + k" "k \<le> length r" by (auto simp: le_iff_add less_iff_Suc_add)
    then show ?thesis by (simp add: u_def w_def)
  next
    case 4
    then have "drop n u = drop n w" by (simp add: u_def w_def drop_Cons')
    then show ?thesis by (simp add: take_drop_same)
  qed
qed

lemma le_bytes_small: "n < 256 \<Longrightarrow> le_bytes (Suc k) n = word_of_nat n # replicate k 0"
  by (simp add: le_bytes_zero)

lemma sample_slot:
  assumes "m = 1 \<and> g = 0 \<and> c = 0x5F \<or> m = 2 \<and> g = 1 \<and> c = 0x61"
  shows "encode_current_slot sum_crc 1 g m =
    (CURRENT_MAGIC @ [1, 0, 1, 0, 0, 0, 0, 0]) @ [of_nat g] @ replicate 7 0 @ [of_nat m] @ replicate 4067 0 @ [c] @ [2, 0, 0]"
proof -
  have eight: "n < 256 \<Longrightarrow> le_bytes 8 n = of_nat n # replicate 7 0" "n < 256 \<Longrightarrow> le_bytes 2 n = [of_nat n, 0]" for n
    using le_bytes_small [of n 7] le_bytes_small [of n 1] by (simp_all add: numeral_2_eq_2)
  have z4: "replicate 4 0 = [0, 0, 0, 0 :: byte]" by (simp add: numeral_eq_Suc)
  have z: "replicate 7 0 @ replicate 4060 0 = replicate 4067 (0 :: byte)"
    using replicate_add [of 7 4060 "0 :: byte"] by simp
  have n: "CURRENT_SLOT_BYTES - 36 = 4060" "CURRENT_FORMAT_VERSION = 1" "g < 256" "m < 256"
    using assms by (auto simp: CURRENT_SLOT_BYTES_def CURRENT_FORMAT_VERSION_def)
  let ?b = "(CURRENT_MAGIC @ [1, 0, 1, 0, 0, 0, 0, 0]) @ [of_nat g] @ replicate 7 0 @ [of_nat m] @ replicate 4067 0"
  have body: "CURRENT_MAGIC @ le_bytes 2 CURRENT_FORMAT_VERSION @ le_bytes 2 1 @ replicate 4 0 @
      le_bytes 8 g @ le_bytes 8 m @ replicate (CURRENT_SLOT_BYTES - 36) 0 = ?b"
    unfolding n eight(1) [OF n(3)] eight(1) [OF n(4)] z4 z [symmetric] using eight(2) [of 1] by simp
  have "sum_list (map unat ?b) = (if m = 1 then 607 else 609)"
    using assms by (auto simp: CURRENT_MAGIC_def ascii_def sum_list_replicate)
  then have "sum_crc ?b = (if m = 1 then 607 else 609)" by (simp add: sum_crc_def del: sum_list.append map_append)
  moreover have "crc_field 607 = [0x5F, 2, 0, 0]" "crc_field 609 = [0x61, 2, 0, 0]" by code_simp+
  ultimately have "crc_field (sum_crc ?b) = [c, 2, 0, 0]" using assms by auto
  then show ?thesis
    unfolding encode_current_slot_def Let_def body by simp
qed

lemma slot_checksum:
  "unat (crc (take 4092 (encode_current_slot crc i g m))) =
     read_u32 (seg 4092 4096 (encode_current_slot crc i g m))"
proof -
  let ?b = "CURRENT_MAGIC @ le_bytes 2 CURRENT_FORMAT_VERSION @ le_bytes 2 i @ le_bytes 4 0 @
    le_bytes 8 g @ le_bytes 8 m @ replicate 4060 0"
  have "take 4092 (?b @ r) = ?b" "seg 4092 4096 (?b @ crc_field w) = crc_field w" for r w
    using current_slot_fields(2) [of i g m] by (simp_all only: take_append seg_append) (simp_all add: seg_def)
  then show ?thesis unfolding current_slot_fields(1) by (simp only: read_crc_field)
qed

lemma sample_torn: "\<not> slot_collision sum_crc n (encode_current_slot sum_crc 1 0 1) 1 2"
proof -
  let ?p = "CURRENT_MAGIC @ [1, 0, 1, 0, 0, 0, 0, 0]" and ?q = "replicate 7 (0 :: byte)"
    and ?r = "replicate 4067 (0 :: byte)" and ?t = "[2, 0, 0] :: bytes"
  have old: "encode_current_slot sum_crc 1 0 1 = ?p @ [0] @ ?q @ [1] @ ?r @ [0x5F] @ ?t"
    using sample_slot [of 1 0 "0x5F"] by simp
  have new: "encode_current_slot sum_crc 1 1 2 = ?p @ [1] @ ?q @ [2] @ ?r @ [0x61] @ ?t"
    using sample_slot [of 2 1 "0x61"] by simp
  have rd: "read_u32 [0x5F, 2, 0, 0] = 607" by code_simp
  have bad: "unat (sum_crc (take 4092 s)) \<noteq> read_u32 (seg 4092 4096 s)"
    if s_eq: "s = ?p @ [1] @ ?q @ [b] @ ?r @ [0x5F] @ ?t" and b: "b = 1 \<or> b = 2" for b s
  proof -
    let ?s = "?p @ [1] @ ?q @ [b] @ ?r @ [0x5F] @ ?t" and ?h = "?p @ [1] @ ?q @ [b] @ ?r"
    have l: "length ?h = 4092" by simp
    have s: "?s = ?h @ [0x5F, 2, 0, 0]" by simp
    have "take 4092 ?s = ?h" "seg 4092 4096 ?s = [0x5F, 2, 0, 0]"
      unfolding s using l by (simp_all only: take_append seg_append) (simp_all add: seg_def)
    moreover have "unat (sum_crc ?h) = 607 + unat b"
      using b by (auto simp: sum_crc_def CURRENT_MAGIC_def ascii_def sum_list_replicate)
    ultimately show ?thesis using rd b unfolding s_eq by auto
  qed
  have one: "1 mod 2 = (1 :: nat)" by simp
  show ?thesis
  proof
    assume c: "slot_collision sum_crc n (encode_current_slot sum_crc 1 0 1) 1 2"
    let ?s = "take n (encode_current_slot sum_crc 1 1 2) @ drop n (encode_current_slot sum_crc 1 0 1)"
    have c': "?s \<noteq> encode_current_slot sum_crc 1 0 1" "?s \<noteq> encode_current_slot sum_crc 1 1 2"
      using c unfolding slot_collision_def Let_def one by blast+
    obtain g m where t: "?s = encode_current_slot sum_crc 1 g m"
      using c unfolding slot_collision_def Let_def one by blast
    have "unat (sum_crc (take 4092 ?s)) = read_u32 (seg 4092 4096 ?s)"
      unfolding t by (rule slot_checksum)
    moreover have "?s = ?p @ [1] @ ?q @ [1] @ ?r @ [0x5F] @ ?t \<or> ?s = ?p @ [1] @ ?q @ [2] @ ?r @ [0x5F] @ ?t"
      using c' torn_two_bytes [of n ?p 1 ?q 2 ?r "0x61" ?t 0 1 "0x5F"] unfolding old new by blast
    ultimately show False using bad [of ?s 1] bad [of ?s 2] by blast
  qed
qed

lemma sample_initial:
  "\<exists>v d bs. manifest_create_initial sum_crc 1 1 empty_disk = (Inr v, d) \<and> published sum_crc d v \<and>
     disk_read d CURRENT_FILE_NAME = Some bs \<and> other_slot bs 1 = encode_current_slot sum_crc 1 0 1 \<and>
     vs_current_generation v = 0 \<and> vs_durable_sequence v = 0 \<and> vs_table_id_high_watermark v = 0"
proof -
  have e: "dk_faults empty_disk = []" "disk_read empty_disk name = None" for name
    by (simp_all add: empty_disk_def disk_read_def)
  obtain v d where vd: "manifest_create_initial sum_crc 1 1 empty_disk = (Inr v, d)" "published sum_crc d v"
    "vs_current_generation v = 0" "vs_durable_sequence v = 0" "vs_table_id_high_watermark v = 0"
    using create_initial_ok [of empty_disk 1 sum_crc] e by (auto simp: u64_max_def)
  have "disk_read d CURRENT_FILE_NAME = Some (encode_current_slot sum_crc 0 0 1 @ encode_current_slot sum_crc 1 0 1)"
    using vd(1) e by (auto simp: manifest_create_initial_def Let_def write_manifest_new_def disk_create_quiet
        split: sum.splits)
  then show ?thesis using vd by (auto simp: other_slot_def)
qed

lemma manifest_install_atomic_witness:
  "\<exists>v d st r d'. disk_next_fault (snd (disk_next_fault d)) = (Some (TornWrite 20 OtherIo), d\<lparr>dk_faults := []\<rparr>) \<and>
     manifest_install sum_crc v 2 st d = (r, d') \<and>
     manifest_load sum_crc d' \<in> {Inr v, Inr (next_version v 2 st)}"
proof -
  obtain v d bs where v: "published sum_crc d v" "disk_read d CURRENT_FILE_NAME = Some bs"
    "other_slot bs 1 = encode_current_slot sum_crc 1 0 1"
    "vs_current_generation v = 0" "vs_table_id_high_watermark v = 0"
    using sample_initial by blast
  let ?d = "d\<lparr>dk_faults := [None, Some (TornWrite 20 OtherIo)]\<rparr>"
  let ?st = "\<lparr>mn_durable_sequence = 9, mn_tombstone_gc_sequence = 0, mn_wal_id = 1, mn_wal_first_sequence = 1,
    mn_tables = vs_tables (sample_version 0)\<rparr>"
  have same: "disk_read ?d = disk_read d" by (simp add: disk_read_def fun_eq_iff)
  have pub: "published sum_crc ?d v" using v(1) same by (simp add: published_def)
  have wf: "version_wf (next_version v 2 ?st)"
    by (simp add: next_version_def sample_version_def v version_wf_def validate_version_def validate_version_set_iff
        tables_ok_def level1_count_def desc_wf_def saturating_add64_def u64_max_def)
  have no_collision: "\<not> slot_collision sum_crc n (other_slot bs (vs_current_generation v + 1))
      (vs_current_generation v + 1) 2" for n
    unfolding v(4) add_0 v(3) by (rule sample_torn)
  obtain r d' where run: "manifest_install sum_crc v 2 ?st ?d = (r, d')" by force
  have cur: "disk_read ?d CURRENT_FILE_NAME = Some bs" using v(2) same by simp
  have "disk_next_fault (snd (disk_next_fault ?d)) = (Some (TornWrite 20 OtherIo), ?d\<lparr>dk_faults := []\<rparr>)"
    by (simp add: disk_next_fault_def)
  then show ?thesis using manifest_install_atomic [OF pub wf _ cur run] no_collision run by fastforce
qed

text \<open>An installation that reports success never moves the durable
  sequence, the tombstone collection point or the table id watermark backward, advances the
  generation by one, and keeps the table order the recovery relies on: strictly increasing ids and
  durable sequences, and at most one level-one run.\<close>

theorem manifest_install_monotone:
  assumes "manifest_install crc v nid st d = (Inr v', d')"
  shows "vs_durable_sequence v \<le> vs_durable_sequence v' \<and>
    vs_tombstone_gc_sequence v \<le> vs_tombstone_gc_sequence v' \<and>
    vs_table_id_high_watermark v \<le> vs_table_id_high_watermark v' \<and>
    vs_current_generation v' = vs_current_generation v + 1 \<and> vs_manifest_id v' = nid \<and>
    vs_tombstone_gc_sequence v' \<le> vs_durable_sequence v' \<and>
    sorted_wrt (<) (map sd_table_id (vs_tables v')) \<and> sorted_wrt (<) (map sd_durable_sequence (vs_tables v')) \<and>
    length (filter (\<lambda>t. sd_level t = 1) (vs_tables v')) \<le> 1"
proof -
  obtain d1 where p: "prepare_install crc v nid st d = (Inr v', d1)"
    using assms by (auto simp: manifest_install_def split: prod.splits sum.splits)
  note v' = prepare_install_Inr [OF p]
  then have "validate_version_set (vs_durable_sequence v') (vs_tombstone_gc_sequence v')
      (vs_table_id_high_watermark v') (vs_wal_id v') (vs_wal_first_sequence v') (vs_tables v') = Inr ()"
    unfolding validate_version_def by blast
  then have "tables_ok (vs_tables v')" "vs_tombstone_gc_sequence v' \<le> vs_durable_sequence v'"
    by (simp_all add: validate_version_set_iff)
  then show ?thesis
    using v' fold_max_ge [of "vs_table_id_high_watermark v" sd_table_id "mn_tables st"]
    by (simp add: tables_ok_def level1_count_def next_version_def)
qed

lemma manifest_install_monotone_witness:
  "\<exists>v st d v' d'. manifest_install sum_crc v 2 st d = (Inr v', d') \<and> vs_durable_sequence v' = 9 \<and>
     vs_table_id_high_watermark v \<le> vs_table_id_high_watermark v'"
proof -
  obtain v d where v: "manifest_create_initial sum_crc 1 1 empty_disk = (Inr v, d)" "published sum_crc d v"
    "vs_current_generation v = 0" "vs_durable_sequence v = 0" "vs_table_id_high_watermark v = 0"
    using sample_initial by blast
  let ?st = "\<lparr>mn_durable_sequence = 9, mn_tombstone_gc_sequence = 9, mn_wal_id = 1, mn_wal_first_sequence = 1,
    mn_tables = vs_tables (sample_version 0)\<rparr>"
  have wf: "version_wf (next_version v 2 ?st)"
    by (simp add: next_version_def sample_version_def v version_wf_def validate_version_def validate_version_set_iff
        tables_ok_def level1_count_def desc_wf_def saturating_add64_def u64_max_def)
  have e: "dk_faults empty_disk = []" "disk_read empty_disk name = None" for name
    by (simp_all add: empty_disk_def disk_read_def)
  obtain v1 d1 where c: "manifest_create_initial sum_crc 1 1 empty_disk = (Inr v1, d1)" "dk_faults d1 = []"
    "vs_tombstone_gc_sequence v1 = 0"
    "\<forall>name. name \<noteq> CURRENT_FILE_NAME \<longrightarrow> name \<noteq> manifest_file_name 1 \<longrightarrow> disk_read d1 name = None"
    using create_initial_ok [of empty_disk 1 sum_crc] e by (auto simp: u64_max_def)
  then have q: "dk_faults d = []" "disk_read d (manifest_file_name 2) = None" "vs_tombstone_gc_sequence v = 0"
    using v(1) by auto
  have pub: "published sum_crc d (v\<lparr>vs_table_id_high_watermark := 0\<rparr>)"
    using v(2,5) by (metis (full_types) version_set.surjective version_set.update_convs(5))
  obtain d' where i: "manifest_install sum_crc v 2 ?st d = (Inr (next_version v 2 ?st), d')"
    using manifest_install_ok [OF q(1) pub q(2) _ _ _ _ _ wf] v q by (auto simp: u64_max_def)
  have "vs_durable_sequence (next_version v 2 ?st) = 9" by (simp add: next_version_def)
  with i manifest_install_monotone [OF i] show ?thesis by blast
qed

end
