(* ===== verification/LsmLayout.thy ===== *)
theory LsmLayout
  imports LsmEngine ManifestSpec
begin

text \<open>
  The names of an LSM directory.  Numbered names parse back to the id they were made from and to
  no other, the four families of names are disjoint, and a directory of such names passes
  \<open>validate_layout\<close>, which returns the largest id of each family.
\<close>

definition max_file_id :: nat where "max_file_id = 10000000000000000"

lemma parse_numbered_name_iff:
  "parse_numbered_name name p s = Some i \<longleftrightarrow>
     0 < i \<and> i < max_file_id \<and> name = p @ format_dec 16 i @ s"
proof
  assume "parse_numbered_name name p s = Some i"
  then obtain ds where ds: "name = p @ ds @ s" "length ds = 16" "\<forall>b \<in> set ds. is_ascii_digit b"
    "parse_digits ds = Some i" "i \<noteq> 0"
    by (auto simp: parse_numbered_name_def Option.bind_eq_Some_conv strip_prefix_eq_Some strip_suffix_eq_Some
        list_all_iff split: if_splits)
  have v: "dec_val ds = i" using ds(4) by (auto simp: parse_digits_def result_iff split: if_splits)
  have f: "ds = format_dec 16 i" using numbered_name_digits [of 16 ds i] ds v by simp
  have "i < max_file_id"
  proof (rule ccontr)
    assume "\<not> i < max_file_id"
    then have "16 < length (format_dec 16 i)"
      by (intro length_format_dec_wide) (simp_all add: max_file_id_def)
    then show False using ds(2) f by simp
  qed
  then show "0 < i \<and> i < max_file_id \<and> name = p @ format_dec 16 i @ s" using ds(1,5) f by simp
next
  assume i: "0 < i \<and> i < max_file_id \<and> name = p @ format_dec 16 i @ s"
  then have "length (format_dec 16 i) = 16" by (intro length_format_dec) (simp_all add: max_file_id_def)
  moreover have "parse_digits (format_dec 16 i) = Some i"
    using i by (simp add: parse_digits_def dec_val_format try_u64_def u64_max_def max_file_id_def)
  moreover have "strip_prefix p name = Some (format_dec 16 i @ s)" using i by (simp add: strip_prefix_eq_Some)
  moreover have "strip_suffix s (format_dec 16 i @ s) = Some (format_dec 16 i)" by (simp add: strip_suffix_eq_Some)
  ultimately show "parse_numbered_name name p s = Some i"
    using i digits_format [of 16 i] by (simp add: parse_numbered_name_def list_all_iff)
qed

lemma parse_names_iff:
  "parse_wal_name name = Some i \<longleftrightarrow> 0 < i \<and> i < max_file_id \<and> name = wal_file_name i"
  "parse_manifest_name name = Some i \<longleftrightarrow> 0 < i \<and> i < max_file_id \<and> name = manifest_file_name i"
  "parse_sst_name name = Some i \<longleftrightarrow> 0 < i \<and> i < max_file_id \<and> name = sst_file_name i"
  by (auto simp: parse_wal_name_def parse_manifest_name_def parse_sst_name_def parse_numbered_name_iff
      wal_file_name_def manifest_file_name_def sst_file_name_def)

lemma file_names_distinct [simp]:
  "wal_file_name i \<noteq> manifest_file_name j" "manifest_file_name j \<noteq> wal_file_name i"
  "wal_file_name i \<noteq> sst_file_name j" "sst_file_name j \<noteq> wal_file_name i"
  "manifest_file_name i \<noteq> sst_file_name j" "sst_file_name j \<noteq> manifest_file_name i"
  "wal_file_name i \<noteq> CURRENT_FILE_NAME" "CURRENT_FILE_NAME \<noteq> wal_file_name i"
  "sst_file_name i \<noteq> CURRENT_FILE_NAME" "CURRENT_FILE_NAME \<noteq> sst_file_name i"
  "wal_file_name i = wal_file_name i' \<longleftrightarrow> i = i'" "sst_file_name i = sst_file_name i' \<longleftrightarrow> i = i'"
  by (auto simp: wal_file_name_def manifest_file_name_def sst_file_name_def CURRENT_FILE_NAME_def ascii_def
      format_dec_inject)

lemma parse_other_names [simp]:
  "parse_wal_name CURRENT_FILE_NAME = None" "parse_manifest_name CURRENT_FILE_NAME = None"
  "parse_sst_name CURRENT_FILE_NAME = None"
  "parse_wal_name (manifest_file_name i) = None" "parse_wal_name (sst_file_name i) = None"
  "parse_manifest_name (wal_file_name i) = None" "parse_manifest_name (sst_file_name i) = None"
  "parse_sst_name (wal_file_name i) = None" "parse_sst_name (manifest_file_name i) = None"
  by (simp_all add: option.distinct(1) flip: not_Some_eq) (auto simp: parse_names_iff)

lemma parse_own_name [simp]:
  "parse_wal_name (wal_file_name i) = (if 0 < i \<and> i < max_file_id then Some i else None)"
  "parse_manifest_name (manifest_file_name i) = (if 0 < i \<and> i < max_file_id then Some i else None)"
  "parse_sst_name (sst_file_name i) = (if 0 < i \<and> i < max_file_id then Some i else None)"
  by (auto simp: parse_names_iff) (auto simp: parse_names_iff simp flip: not_Some_eq)


subsection \<open>Well-named directories\<close>

definition lsm_name :: "nat \<Rightarrow> nat \<Rightarrow> nat \<Rightarrow> bytes \<Rightarrow> bool" where
  "lsm_name nt nm nw name \<longleftrightarrow> name = CURRENT_FILE_NAME \<or>
     (\<exists>i. 0 < i \<and> i < nw \<and> name = wal_file_name i) \<or>
     (\<exists>i. 0 < i \<and> i < nm \<and> name = manifest_file_name i) \<or>
     (\<exists>i. 0 < i \<and> i < nt \<and> name = sst_file_name i)"

definition lsm_names :: "disk \<Rightarrow> nat \<Rightarrow> nat \<Rightarrow> nat \<Rightarrow> bool" where
  "lsm_names d nt nm nw \<longleftrightarrow>
     (\<forall>name. disk_read d name \<noteq> None \<longrightarrow> lsm_name nt nm nw name) \<and>
     0 < nt \<and> nt \<le> max_file_id \<and> 0 < nm \<and> nm \<le> max_file_id \<and> 0 < nw \<and> nw \<le> max_file_id"

lemma lsm_names_fresh:
  assumes "lsm_names d nt nm nw"
  shows "disk_read d (sst_file_name nt) = None" "disk_read d (manifest_file_name nm) = None"
    "disk_read d (wal_file_name nw) = None"
  using assms by (auto simp: lsm_names_def lsm_name_def)

lemma lsm_name_mono: "lsm_name nt nm nw name \<Longrightarrow> nt \<le> nt' \<Longrightarrow> nm \<le> nm' \<Longrightarrow> nw \<le> nw' \<Longrightarrow> lsm_name nt' nm' nw' name"
  by (auto simp: lsm_name_def intro: less_le_trans)

text \<open>The layout read from a well-named directory.\<close>

definition layout_of :: "layout \<Rightarrow> bytes list \<Rightarrow> bool" where
  "layout_of l names \<longleftrightarrow>
     (ly_found_current l \<longleftrightarrow> CURRENT_FILE_NAME \<in> set names) \<and>
     (\<forall>i. i \<in> set (ly_wal_ids l) \<longleftrightarrow> 0 < i \<and> i < max_file_id \<and> wal_file_name i \<in> set names) \<and>
     (\<forall>i. 0 < i \<and> i < max_file_id \<and> wal_file_name i \<in> set names \<longrightarrow> i \<le> ly_max_wal_id l) \<and>
     (\<forall>i. 0 < i \<and> i < max_file_id \<and> manifest_file_name i \<in> set names \<longrightarrow> i \<le> ly_max_manifest_id l) \<and>
     (\<forall>i. 0 < i \<and> i < max_file_id \<and> sst_file_name i \<in> set names \<longrightarrow> i \<le> ly_max_table_id l)"

lemma layout_entry_ok:
  assumes name: "lsm_name nt nm nw name" "name \<notin> set seen" and max: "nt \<le> max_file_id" "nm \<le> max_file_id" "nw \<le> max_file_id"
    and l: "layout_of l seen" "ly_max_wal_id l < nw" "ly_max_manifest_id l < nm" "ly_max_table_id l < nt"
  shows "\<exists>l'. layout_entry l name = Inr l' \<and> layout_of l' (seen @ [name]) \<and>
    ly_max_wal_id l' < nw \<and> ly_max_manifest_id l' < nm \<and> ly_max_table_id l' < nt"
  using name(1) unfolding lsm_name_def
proof (elim disjE exE conjE)
  assume "name = CURRENT_FILE_NAME"
  then show ?thesis using l name(2) by (auto simp: layout_entry_def layout_of_def)
next
  fix i assume i: "0 < i" "i < nw" "name = wal_file_name i"
  then show ?thesis using l max by (auto simp: layout_entry_def layout_of_def le_max_iff_disj)
next
  fix i assume i: "0 < i" "i < nm" "name = manifest_file_name i"
  then show ?thesis using l max by (auto simp: layout_entry_def layout_of_def le_max_iff_disj)
next
  fix i assume i: "0 < i" "i < nt" "name = sst_file_name i"
  then show ?thesis using l max by (auto simp: layout_entry_def layout_of_def le_max_iff_disj)
qed

lemma layout_entries:
  assumes "distinct names" "\<forall>name \<in> set names. lsm_name nt nm nw name"
    and "nt \<le> max_file_id" "nm \<le> max_file_id" "nw \<le> max_file_id"
    and "layout_of l seen" "set seen \<inter> set names = {}"
    and "ly_max_wal_id l < nw" "ly_max_manifest_id l < nm" "ly_max_table_id l < nt"
  shows "\<exists>l'. rfold layout_entry l names = Inr l' \<and> layout_of l' (seen @ names) \<and>
    ly_max_wal_id l' < nw \<and> ly_max_manifest_id l' < nm \<and> ly_max_table_id l' < nt"
  using assms
proof (induction names arbitrary: l seen)
  case Nil
  then show ?case by simp
next
  case (Cons name names)
  obtain l1 where l1: "layout_entry l name = Inr l1" "layout_of l1 (seen @ [name])"
    "ly_max_wal_id l1 < nw" "ly_max_manifest_id l1 < nm" "ly_max_table_id l1 < nt"
    using layout_entry_ok [of nt nm nw name seen l] Cons.prems by auto
  have "\<exists>l'. rfold layout_entry l1 names = Inr l' \<and> layout_of l' ((seen @ [name]) @ names) \<and>
    ly_max_wal_id l' < nw \<and> ly_max_manifest_id l' < nm \<and> ly_max_table_id l' < nt"
    using Cons.prems l1(2-) by (intro Cons.IH) auto
  then show ?case using l1(1) by simp
qed

lemma disk_names: "disk_read d name \<noteq> None \<longleftrightarrow> name \<in> set (om_keys (dk_files d))"
  by (auto simp: disk_read_def set_om_keys)

lemma validate_layout_ok:
  assumes names: "lsm_names d nt nm nw" and cur: "disk_read d CURRENT_FILE_NAME \<noteq> None"
    and m: "disk_read d (manifest_file_name mi) \<noteq> None" and w: "disk_read d (wal_file_name wi) \<noteq> None"
  shows "\<exists>l. validate_layout d = Inr (l, True) \<and> wi \<in> set (ly_wal_ids l) \<and>
    ly_max_wal_id l < nw \<and> ly_max_manifest_id l < nm \<and> ly_max_table_id l < nt \<and>
    lsm_names d (ly_max_table_id l + 1) (ly_max_manifest_id l + 1) (ly_max_wal_id l + 1)"
proof -
  let ?l0 = "\<lparr>ly_wal_ids = [], ly_max_wal_id = 0, ly_max_table_id = 0, ly_max_manifest_id = 0, ly_found_current = False\<rparr>"
  let ?names = "om_keys (dk_files d)"
  have all: "\<forall>name \<in> set ?names. lsm_name nt nm nw name"
    using names unfolding lsm_names_def disk_names by blast
  have "\<exists>l. rfold layout_entry ?l0 ?names = Inr l \<and> layout_of l ([] @ ?names) \<and>
      ly_max_wal_id l < nw \<and> ly_max_manifest_id l < nm \<and> ly_max_table_id l < nt"
    using names by (intro layout_entries distinct_om_keys all) (simp_all add: layout_of_def lsm_names_def)
  then obtain l where l: "rfold layout_entry ?l0 ?names = Inr l" "layout_of l ?names"
    "ly_max_wal_id l < nw" "ly_max_manifest_id l < nm" "ly_max_table_id l < nt" by auto
  have "lsm_name nt nm nw (wal_file_name wi)" "lsm_name nt nm nw (manifest_file_name mi)"
    using names m w by (auto simp: lsm_names_def)
  then have wi: "0 < wi" "wi < max_file_id" and mi: "0 < mi" "mi < max_file_id"
    using names by (auto simp: lsm_name_def lsm_names_def)
  have wid: "wi \<in> set (ly_wal_ids l)" and cf: "ly_found_current l" and mm: "mi \<le> ly_max_manifest_id l"
    using l(2) wi mi m [unfolded disk_names] w [unfolded disk_names] cur [unfolded disk_names]
    by (simp_all add: layout_of_def)
  have "validate_layout d = Inr (l, True)"
    using wid cf mm mi(1) by (auto simp: validate_layout_def l(1))
  moreover have "lsm_name (ly_max_table_id l + 1) (ly_max_manifest_id l + 1) (ly_max_wal_id l + 1) name"
    if n: "disk_read d name \<noteq> None" for name
  proof -
    have "lsm_name nt nm nw name" "name \<in> set ?names"
      using n n [unfolded disk_names] names by (auto simp: lsm_names_def)
    then show ?thesis
      using l(2) names unfolding lsm_name_def layout_of_def lsm_names_def
      by (metis less_Suc_eq_le Suc_eq_plus1 less_le_trans)
  qed
  ultimately show ?thesis
    using wid l(3-5) names by (auto simp: lsm_names_def)
qed


subsection \<open>Names under changes\<close>

lemma lsm_names_mono:
  assumes "lsm_names d nt nm nw" "\<forall>name. disk_read d' name \<noteq> None \<longrightarrow> disk_read d name \<noteq> None \<or> lsm_name nt' nm' nw' name"
    and "nt \<le> nt'" "nm \<le> nm'" "nw \<le> nw'" "nt' \<le> max_file_id" "nm' \<le> max_file_id" "nw' \<le> max_file_id"
  shows "lsm_names d' nt' nm' nw'"
  using assms lsm_name_mono [OF _ assms(3-5)] by (auto simp: lsm_names_def)

lemma lsm_name_intros:
  "lsm_name nt nm nw CURRENT_FILE_NAME"
  "0 < i \<Longrightarrow> i < nw \<Longrightarrow> lsm_name nt nm nw (wal_file_name i)"
  "0 < i \<Longrightarrow> i < nm \<Longrightarrow> lsm_name nt nm nw (manifest_file_name i)"
  "0 < i \<Longrightarrow> i < nt \<Longrightarrow> lsm_name nt nm nw (sst_file_name i)"
  by (auto simp: lsm_name_def)

text \<open>What the reclamations keep.\<close>

lemma reclaim_reads:
  "disk_read (lsm_reclaim_obsolete_sstables act d) name \<in> {None, disk_read d name}"
  "disk_read (lsm_reclaim_obsolete_manifests m d) name \<in> {None, disk_read d name}"
  "disk_read (lsm_reclaim_obsolete_wals w d) name \<in> {None, disk_read d name}"
  by (auto simp: lsm_reclaim_obsolete_sstables_def lsm_reclaim_obsolete_manifests_def
      lsm_reclaim_obsolete_wals_def disk_read_remove)

lemma reclaim_keeps [simp]:
  "disk_read (lsm_reclaim_obsolete_sstables act d) CURRENT_FILE_NAME = disk_read d CURRENT_FILE_NAME"
  "disk_read (lsm_reclaim_obsolete_sstables act d) (wal_file_name i) = disk_read d (wal_file_name i)"
  "disk_read (lsm_reclaim_obsolete_sstables act d) (manifest_file_name i) = disk_read d (manifest_file_name i)"
  "disk_read (lsm_reclaim_obsolete_sstables (Some i) d) (sst_file_name i) = disk_read d (sst_file_name i)"
  "disk_read (lsm_reclaim_obsolete_manifests m d) CURRENT_FILE_NAME = disk_read d CURRENT_FILE_NAME"
  "disk_read (lsm_reclaim_obsolete_manifests m d) (wal_file_name i) = disk_read d (wal_file_name i)"
  "disk_read (lsm_reclaim_obsolete_manifests m d) (sst_file_name i) = disk_read d (sst_file_name i)"
  "disk_read (lsm_reclaim_obsolete_manifests m d) (manifest_file_name m) = disk_read d (manifest_file_name m)"
  "disk_read (lsm_reclaim_obsolete_wals w d) CURRENT_FILE_NAME = disk_read d CURRENT_FILE_NAME"
  "disk_read (lsm_reclaim_obsolete_wals w d) (manifest_file_name i) = disk_read d (manifest_file_name i)"
  "disk_read (lsm_reclaim_obsolete_wals w d) (sst_file_name i) = disk_read d (sst_file_name i)"
  "disk_read (lsm_reclaim_obsolete_wals w d) (wal_file_name w) = disk_read d (wal_file_name w)"
  by (auto simp: lsm_reclaim_obsolete_sstables_def lsm_reclaim_obsolete_manifests_def
      lsm_reclaim_obsolete_wals_def disk_read_remove split: if_splits)

lemma reclaim_faults [simp]:
  "dk_faults (lsm_reclaim_obsolete_sstables act d) = dk_faults d"
  "dk_faults (lsm_reclaim_obsolete_manifests m d) = dk_faults d"
  "dk_faults (lsm_reclaim_obsolete_wals w d) = dk_faults d"
  by (simp_all add: lsm_reclaim_obsolete_sstables_def lsm_reclaim_obsolete_manifests_def
      lsm_reclaim_obsolete_wals_def)

end
