(* ===== verification/LsmView.thy ===== *)
theory LsmView
  imports LsmLayout
begin

text \<open>
  Reading a stack of sorted tables and MemTables.  Each table denotes a map; the maps carry
  sequence numbers that increase from older to newer tables, so the newest-first lookup and the
  merging overlay, over the whole key space or a range, read the same view.
\<close>

subsection \<open>Maps ordered by sequence\<close>

fun seq_chain :: "nat \<Rightarrow> (nat \<times> entry_map) list \<Rightarrow> bool" where
  "seq_chain lo [] = True"
| "seq_chain lo ((hi, m) # xs) \<longleftrightarrow> lo \<le> hi \<and>
     (\<forall>k e. om_lookup m k = Some e \<longrightarrow> lo < ve_sequence e \<and> ve_sequence e \<le> hi) \<and> seq_chain hi xs"

definition chain_top :: "nat \<Rightarrow> (nat \<times> entry_map) list \<Rightarrow> nat" where
  "chain_top lo xs = last (lo # map fst xs)"

definition chain_find :: "(nat \<times> entry_map) list \<Rightarrow> bytes \<Rightarrow> versioned_entry option" where
  "chain_find xs k = find_map (\<lambda>(hi, m). om_lookup m k) (rev xs)"

definition overlay_chain :: "(nat \<times> entry_map) list \<Rightarrow> entry_map \<Rightarrow> entry_map" where
  "overlay_chain xs v = fold (\<lambda>(hi, m). fold overlay_entry (entries m)) xs v"

lemma chain_top_simps [simp]: "chain_top lo [] = lo" "chain_top lo ((hi, m) # xs) = chain_top hi xs"
  by (simp_all add: chain_top_def)

lemma chain_top_append: "chain_top lo (xs @ ys) = chain_top (chain_top lo xs) ys"
  by (induction lo xs rule: seq_chain.induct) simp_all

lemma seq_chain_append: "seq_chain lo (xs @ ys) \<longleftrightarrow> seq_chain lo xs \<and> seq_chain (chain_top lo xs) ys"
  by (induction lo xs rule: seq_chain.induct) auto

lemma seq_chain_top: "seq_chain lo xs \<Longrightarrow> lo \<le> chain_top lo xs"
  by (induction lo xs rule: seq_chain.induct) auto

lemma chain_find_simps:
  "chain_find [] k = None"
  "chain_find (xs @ [(hi, m)]) k = (case om_lookup m k of None \<Rightarrow> chain_find xs k | Some e \<Rightarrow> Some e)"
  by (simp_all add: chain_find_def split: option.split)

lemma chain_find_Cons:
  "chain_find ((hi, m) # xs) k = (case chain_find xs k of None \<Rightarrow> om_lookup m k | Some e \<Rightarrow> Some e)"
  by (simp add: chain_find_def find_map_append split: option.split)

lemma overlay_map_step:
  assumes "\<forall>k e. om_lookup m k = Some e \<longrightarrow> lo < ve_sequence e \<and> ve_sequence e \<le> hi" "lo \<le> hi" "seqs_upto lo v"
  shows "om_lookup (fold overlay_entry (entries m) v) k =
      (case om_lookup m k of Some e \<Rightarrow> Some e | None \<Rightarrow> om_lookup v k) \<and>
    seqs_upto hi (fold overlay_entry (entries m) v)"
proof -
  have look: "om_lookup (fold overlay_entry (entries m) v) k =
      (case om_lookup m k of Some e \<Rightarrow> Some e | None \<Rightarrow> om_lookup v k)" for k
    using assms by (subst fold_overlay_newer) (fastforce simp: set_entries seqs_upto_def om_lookup_entries)+
  moreover have "seqs_upto hi (fold overlay_entry (entries m) v)"
    using assms look by (fastforce simp: seqs_upto_def split: option.splits)
  ultimately show ?thesis by simp
qed

lemma overlay_chain_lookup:
  assumes "seq_chain lo xs" "seqs_upto lo v"
  shows "om_lookup (overlay_chain xs v) k = (case chain_find xs k of Some e \<Rightarrow> Some e | None \<Rightarrow> om_lookup v k) \<and>
    seqs_upto (chain_top lo xs) (overlay_chain xs v)"
  using assms
proof (induction lo xs arbitrary: v rule: seq_chain.induct)
  case (1 lo)
  then show ?case by (simp add: overlay_chain_def chain_find_simps)
next
  case (2 lo hi m xs)
  let ?v = "fold overlay_entry (entries m) v"
  have step: "om_lookup ?v k = (case om_lookup m k of Some e \<Rightarrow> Some e | None \<Rightarrow> om_lookup v k)" "seqs_upto hi ?v"
    using overlay_map_step [of m lo hi v k] "2.prems" by auto
  have "om_lookup (overlay_chain xs ?v) k = (case chain_find xs k of Some e \<Rightarrow> Some e | None \<Rightarrow> om_lookup ?v k) \<and>
    seqs_upto (chain_top hi xs) (overlay_chain xs ?v)"
    using "2.IH" [of ?v] "2.prems" step(2) by simp
  then show ?case
    using step(1) by (simp add: overlay_chain_def chain_find_Cons split: option.splits)
qed

lemma overlay_chain_empty:
  assumes "seq_chain lo xs"
  shows "om_lookup (overlay_chain xs om_empty) k = chain_find xs k"
proof -
  have "seqs_upto lo om_empty" by (simp add: seqs_upto_def)
  from overlay_chain_lookup [OF assms this, of k] show ?thesis by (simp split: option.splits)
qed

lemma chain_find_bound:
  assumes "seq_chain lo xs" "chain_find xs k = Some e"
  shows "lo < ve_sequence e \<and> ve_sequence e \<le> chain_top lo xs"
  using assms
proof (induction lo xs rule: seq_chain.induct)
  case (1 lo)
  then show ?case by (simp add: chain_find_simps)
next
  case (2 lo hi m xs)
  have top: "hi \<le> chain_top hi xs" using seq_chain_top "2.prems"(1) by simp
  show ?case
  proof (cases "chain_find xs k")
    case None
    then have "lo < ve_sequence e \<and> ve_sequence e \<le> hi" using "2.prems" by (auto simp: chain_find_Cons)
    then show ?thesis using top by simp
  next
    case (Some e')
    then have "chain_find xs k = Some e" using "2.prems"(2) by (simp add: chain_find_Cons)
    then have "hi < ve_sequence e \<and> ve_sequence e \<le> chain_top hi xs" using "2.IH" "2.prems"(1) by simp
    moreover have "lo \<le> hi" using "2.prems"(1) by simp
    ultimately show ?thesis by simp
  qed
qed

lemma om_size_filter_le: "om_size (om_filter P m) \<le> om_size m"
  by (simp add: om_size_def entries_filter)

lemma om_size_overlay_entry: "om_size (overlay_entry x v) \<le> Suc (om_size v)"
  by (auto simp: overlay_entry_def om_size_insert_le split: prod.splits option.splits intro: le_SucI)

lemma om_size_fold_overlay: "om_size (fold overlay_entry xs v) \<le> length xs + om_size v"
proof (induction xs arbitrary: v)
  case Nil
  show ?case by simp
next
  case (Cons x xs)
  have "om_size (fold overlay_entry xs (overlay_entry x v)) \<le> length xs + om_size (overlay_entry x v)"
    by (rule Cons)
  then show ?case using om_size_overlay_entry [of x v] by simp
qed

lemma om_size_overlay_chain: "om_size (overlay_chain xs v) \<le> sum_list (map (\<lambda>(hi, m). om_size m) xs) + om_size v"
proof (induction xs arbitrary: v)
  case Nil
  show ?case by (simp add: overlay_chain_def)
next
  case (Cons x xs)
  obtain hi m where x: "x = (hi, m)" by force
  show ?case
    using Cons [of "fold overlay_entry (entries m) v"] om_size_fold_overlay [of "entries m" v]
    by (simp add: x overlay_chain_def om_size_def)
qed


subsection \<open>Ranges\<close>

definition in_range :: "bytes \<Rightarrow> bytes option \<Rightarrow> bytes \<Rightarrow> bool" where
  "in_range start stop k \<longleftrightarrow> start \<le> k \<and> (case stop of None \<Rightarrow> True | Some h \<Rightarrow> k < h)"

definition chain_range :: "bytes \<Rightarrow> bytes option \<Rightarrow> (nat \<times> entry_map) list \<Rightarrow> (nat \<times> entry_map) list" where
  "chain_range start stop xs = map (\<lambda>(hi, m). (hi, om_filter (\<lambda>k _. in_range start stop k) m)) xs"

lemma om_range_in_range: "om_range start stop m = entries (om_filter (\<lambda>k _. in_range start stop k) m)"
  by (simp add: om_range_filter in_range_def)

lemma in_range_all [simp]: "in_range [] None k"
  by (cases k) (simp_all add: in_range_def)

lemma om_range_all [simp]: "om_range [] None (m :: (bytes, 'v) ordmap) = entries m"
  by (simp add: om_range_in_range entries_filter)

lemma seq_chain_range: "seq_chain lo xs \<Longrightarrow> seq_chain lo (chain_range start stop xs)"
  by (induction lo xs rule: seq_chain.induct)
     (auto simp: chain_range_def om_lookup_filter split: option.splits if_splits)

lemma chain_find_range:
  "chain_find (chain_range start stop xs) k = (if in_range start stop k then chain_find xs k else None)"
proof (induction xs)
  case Nil
  show ?case by (simp add: chain_range_def chain_find_simps)
next
  case (Cons x xs)
  obtain hi m where x: "x = (hi, m)" by force
  show ?case
    using Cons by (simp add: x chain_range_def chain_find_Cons om_lookup_filter split: option.splits)
qed


subsection \<open>Stacks of tables\<close>

definition table_durable :: "sstable \<Rightarrow> nat" where
  "table_durable t = sd_durable_sequence (st_descriptor t)"

definition table_chain :: "sstable list \<Rightarrow> entry_map list \<Rightarrow> (nat \<times> entry_map) list" where
  "table_chain ts ms = zip (map table_durable ts) ms"

lemma overlay_tables_denoted:
  assumes "list_all2 (sst_denotes crc) ts ms" "\<forall>m \<in> set ms. om_size m \<le> u64_max"
  shows "\<exists>n'. rfold (\<lambda>(n, visible) t. rmap (\<lambda>(k, visible'). (saturating_add64 n k, visible'))
            (sst_overlay_range crc t start stop visible)) (n, v) ts =
    Inr (n', overlay_chain (chain_range start stop (table_chain ts ms)) v)"
  using assms
proof (induction ts ms arbitrary: n v rule: list_all2_induct)
  case Nil
  show ?case by (simp add: table_chain_def chain_range_def overlay_chain_def)
next
  case (Cons t ts m ms)
  have "sst_overlay_range crc t start stop v =
      Inr (length (om_range start stop m), fold overlay_entry (om_range start stop m) v)"
    using sst_overlay_denoted Cons by simp
  then show ?case
    using Cons.IH Cons.prems by (auto simp: table_chain_def chain_range_def overlay_chain_def om_range_in_range)
qed

lemma lsm_overlay_denoted:
  assumes "list_all2 (sst_denotes crc) ts ms" "\<forall>m \<in> set ms. om_size m \<le> u64_max"
  shows "\<exists>n. lsm_overlay_tables crc ts start stop =
    Inr (n, overlay_chain (chain_range start stop (table_chain ts ms)) om_empty)"
  using overlay_tables_denoted [OF assms] by (simp add: lsm_overlay_tables_def)

lemma chain_range_all [simp]: "chain_range [] None xs = xs"
  by (induction xs) (auto simp: chain_range_def ordmap_eq_iff fun_eq_iff om_lookup_filter split: option.splits)

lemma lsm_search_denoted:
  assumes "list_all2 (sst_denotes crc) ts ms"
  shows "\<exists>n'. lsm_search crc ts key n = Inr (find_map (\<lambda>m. om_lookup m key) ms, n')"
  using assms
proof (induction ts ms arbitrary: n rule: list_all2_induct)
  case Nil
  show ?case by simp
next
  case (Cons t ts m ms)
  then show ?case
    by (auto simp: Let_def sst_get_denoted split: option.split)
qed

lemma chain_find_table_chain:
  assumes "length ts = length ms"
  shows "chain_find (table_chain ts ms) k = find_map (\<lambda>m. om_lookup m k) (rev ms)"
  using assms
proof (induction ts ms rule: rev_induct2)
  case 1
  show ?case by (simp add: table_chain_def chain_find_simps)
next
  case (4 t ts m ms)
  then show ?case by (simp add: table_chain_def chain_find_simps split: option.split)
qed simp_all

lemma lsm_search_chain:
  assumes "list_all2 (sst_denotes crc) ts ms"
  shows "\<exists>n. lsm_search crc (rev ts) key 0 = Inr (chain_find (table_chain ts ms) key, n)"
  using lsm_search_denoted [of crc "rev ts" "rev ms" key 0] assms list_all2_lengthD [OF assms]
  by (simp add: list_all2_rev chain_find_table_chain)

end
