(* ===== verification/LsmReplay.thy ===== *)
theory LsmReplay
  imports LsmView
begin

text \<open>
  Replaying a WAL segment into MemTables.  Replay above the durable sequence always succeeds and
  rebuilds exactly the MemTables the engine had; flushing the oldest frozen table and raising the
  durable sequence to its last sequence drops that table from what replay rebuilds and nothing else.
\<close>

definition lsm_fresh :: memtable_set where
  "lsm_fresh = \<lparr>ms_mutable = memtable_default, ms_immutable = [], ms_mutable_bytes_limit = 65536\<rparr>"

definition lsm_replayed ::
    "nat \<Rightarrow> nat \<Rightarrow> (mutation_kind \<times> bytes \<times> bytes) list \<Rightarrow> memtable_set \<Rightarrow> bool" where
  "lsm_replayed dur q ms s \<longleftrightarrow> wal_replay (lsm_replay_apply dur) q lsm_fresh ms = Inr s"

definition mts_wf :: "memtable_set \<Rightarrow> bool" where
  "mts_wf s \<longleftrightarrow> ms_mutable_bytes_limit s = 65536 \<and>
     (\<forall>t \<in> set (ms_immutable s @ [ms_mutable s]). \<forall>k e. om_lookup (mt_entries t) k = Some e \<longrightarrow> entry_wf k e)"

definition mts_count :: "memtable_set \<Rightarrow> nat" where
  "mts_count s = sum_list (map (\<lambda>t. om_size (mt_entries t)) (ms_immutable s @ [ms_mutable s]))"

lemma mts_new_fresh: "mts_new MUTABLE_MEMTABLE_BYTES_LIMIT = Inr lsm_fresh"
  by (simp add: mts_new_def lsm_fresh_def MUTABLE_MEMTABLE_BYTES_LIMIT_def)

lemma om_size_empty [simp]: "om_size om_empty = 0"
  by (simp add: om_size_def)

lemma lsm_fresh_ok: "lo \<le> hi \<Longrightarrow> mts_inv lo hi lsm_fresh \<and> mts_wf lsm_fresh \<and> mts_count lsm_fresh = 0"
  using mts_inv_new [of 65536 lo hi]
  by (auto simp: mts_new_def lsm_fresh_def mts_wf_def mts_count_def) (simp_all add: memtable_default_def)

lemma replay_append: "replay f q s (xs @ ys) = rbind (replay f q s xs) (\<lambda>s'. replay f (q + length xs) s' ys)"
proof (induction xs arbitrary: q s)
  case Nil
  show ?case by simp
next
  case (Cons x xs)
  then show ?case by (cases "f q s x") simp_all
qed

lemma lsm_replayed_Nil [simp]: "lsm_replayed dur q [] s \<longleftrightarrow> s = lsm_fresh"
  by (auto simp: lsm_replayed_def wal_replay_def)

lemma lsm_replayed_snoc:
  "lsm_replayed dur q (ms @ [m]) s \<longleftrightarrow>
     (\<exists>s0. lsm_replayed dur q ms s0 \<and>
        lsm_replay_apply dur s0 (wal_mutation (q + length ms) m) = Inr s)"
  by (auto simp: lsm_replayed_def wal_replay_def replay_append rbind_eq_Inr)

lemma lsm_replay_apply_eq:
  "lsm_replay_apply dur s (wal_mutation q (kind, key, val)) =
     (if q > dur then mts_apply s q key (case kind of MPut \<Rightarrow> Some val | MDelete \<Rightarrow> None) else Inr s)"
  by (simp add: lsm_replay_apply_def wal_mutation_def)


subsection \<open>One mutation\<close>

lemma mts_apply_cases:
  assumes "mts_apply s q k v = Inr s'"
  obtains t where "memtable_apply (ms_mutable s) q k v = Inr t" "mt_last_sequence t = Some q"
    "mt_entries t = om_insert k \<lparr>ve_sequence = q, ve_value = v\<rparr> (mt_entries (ms_mutable s))"
    "s' = s\<lparr>ms_mutable := t\<rparr> \<or> s' = s\<lparr>ms_mutable := memtable_default, ms_immutable := ms_immutable s @ [t]\<rparr>"
proof -
  obtain t where t: "memtable_apply (ms_mutable s) q k v = Inr t"
    "s' = s\<lparr>ms_mutable := t\<rparr> \<or> s' = s\<lparr>ms_mutable := memtable_default, ms_immutable := ms_immutable s @ [t]\<rparr>"
    using assms by (auto simp: mts_apply_def result_iff split: if_splits)
  moreover have "mt_last_sequence t = Some q"
    "mt_entries t = om_insert k \<lparr>ve_sequence = q, ve_value = v\<rparr> (mt_entries (ms_mutable s))"
    using t(1) by (auto simp: memtable_apply_def result_iff split: if_splits)
  ultimately show thesis using that by blast
qed

lemma mts_apply_wf:
  assumes "mts_apply s q k v = Inr s'" "mts_wf s" "entry_wf k \<lparr>ve_sequence = q, ve_value = v\<rparr>"
  shows "mts_wf s' \<and> mts_count s' \<le> mts_count s + 1 \<and> length (ms_immutable s') \<le> length (ms_immutable s) + 1"
proof -
  obtain t where t: "mt_entries t = om_insert k \<lparr>ve_sequence = q, ve_value = v\<rparr> (mt_entries (ms_mutable s))"
    and s': "s' = s\<lparr>ms_mutable := t\<rparr> \<or> s' = s\<lparr>ms_mutable := memtable_default, ms_immutable := ms_immutable s @ [t]\<rparr>"
    using mts_apply_cases [OF assms(1)] by metis
  have size: "om_size (mt_entries t) \<le> Suc (om_size (mt_entries (ms_mutable s)))"
    using om_size_insert_le t by simp
  have e: "om_lookup (mt_entries memtable_default) = Map.empty" "om_size (mt_entries memtable_default) = 0"
    by (simp_all add: memtable_default_def)
  have wf: "\<forall>k e. om_lookup (mt_entries t) k = Some e \<longrightarrow> entry_wf k e"
    using assms(2,3) t by (auto simp: mts_wf_def)
  show ?thesis
    using s' assms(2) wf size e by (auto simp: mts_wf_def mts_count_def)
qed

lemma entry_wf_record:
  "record_wf (kind, key, val) \<Longrightarrow> q \<le> u64_max \<Longrightarrow>
     entry_wf key \<lparr>ve_sequence = q, ve_value = (case kind of MPut \<Rightarrow> Some val | MDelete \<Rightarrow> None)\<rparr>"
  by (cases kind) (simp_all add: record_wf_def entry_wf_def)

lemma entry_bytes_wf: "entry_wf k e \<Longrightarrow> 65536 + entry_bytes k (ve_value e) \<le> u64_max"
  by (auto simp: entry_wf_def entry_bytes_def MAX_KEY_BYTES_def MAX_VALUE_BYTES_def u64_max_def split: option.splits)

lemma mts_apply_record:
  assumes "mts_inv lo hi s" "mts_wf s" "hi < q" "q \<le> u64_max" "record_wf (kind, key, val)"
  shows "\<exists>s'. mts_apply s q key (case kind of MPut \<Rightarrow> Some val | MDelete \<Rightarrow> None) = Inr s' \<and>
    mts_inv lo q s' \<and> mts_wf s' \<and> mts_count s' \<le> mts_count s + 1 \<and>
    length (ms_immutable s') \<le> length (ms_immutable s) + 1 \<and>
    (\<forall>k. mts_get s' k = (if k = key then
       Some \<lparr>ve_sequence = q, ve_value = (case kind of MPut \<Rightarrow> Some val | MDelete \<Rightarrow> None)\<rparr> else mts_get s k))"
proof -
  let ?v = "case kind of MPut \<Rightarrow> Some val | MDelete \<Rightarrow> None"
  have wf: "entry_wf key \<lparr>ve_sequence = q, ve_value = ?v\<rparr>" using entry_wf_record assms(4,5) by blast
  have room: "ms_mutable_bytes_limit s + entry_bytes key ?v \<le> u64_max"
    using entry_bytes_wf [OF wf] assms(2) by (simp add: mts_wf_def)
  obtain s' where s': "mts_apply s q key ?v = Inr s'" "mts_inv lo q s'"
    "\<forall>k'. mts_get s' k' = (if k' = key then Some \<lparr>ve_sequence = q, ve_value = ?v\<rparr> else mts_get s k')"
    using mts_apply_ok [OF assms(1,3) room] by blast
  show ?thesis
    using s' mts_apply_wf [OF s'(1) assms(2) wf] by (intro exI [of _ s']) blast
qed


subsection \<open>A whole segment\<close>

lemma mts_inv_mono: "mts_inv lo hi s \<Longrightarrow> hi \<le> hi' \<Longrightarrow> mts_inv lo hi' s"
proof -
  have "chain_inv lo hi ts \<Longrightarrow> hi \<le> hi' \<Longrightarrow> chain_inv lo hi' ts" for ts
    by (induction ts arbitrary: lo) (auto intro: table_inv_mono)
  then show "mts_inv lo hi s \<Longrightarrow> hi \<le> hi' \<Longrightarrow> mts_inv lo hi' s" by (simp add: mts_inv_def)
qed

lemma lsm_replay_ok:
  assumes "\<forall>m \<in> set ms. record_wf m" "0 < q" "q + length ms \<le> u64_max"
  shows "\<exists>s. lsm_replayed dur q ms s \<and> mts_inv dur (max dur (q + length ms - 1)) s \<and> mts_wf s \<and>
    mts_count s \<le> length ms"
  using assms
proof (induction ms rule: rev_induct)
  case Nil
  then show ?case using lsm_fresh_ok [of dur "max dur (q - 1)"] by simp
next
  case (snoc m ms)
  obtain s where s: "lsm_replayed dur q ms s" "mts_inv dur (max dur (q + length ms - 1)) s" "mts_wf s"
    "mts_count s \<le> length ms"
    using snoc by auto
  obtain kind key val where m: "m = (kind, key, val)" by (cases m)
  let ?p = "q + length ms"
  show ?case
  proof (cases "?p > dur")
    case True
    have hi: "max dur (?p - 1) < ?p" using True snoc.prems(2) by simp
    have wf: "record_wf (kind, key, val)" using snoc.prems(1) m by simp
    have p: "?p \<le> u64_max" using snoc.prems(3) by simp
    have "max dur (q + length (ms @ [m]) - 1) = ?p" using True by simp
    then show ?thesis
      using mts_apply_record [OF s(2,3) hi p wf] s(1,4) True
      unfolding lsm_replayed_snoc m lsm_replay_apply_eq by fastforce
  next
    case False
    then have "lsm_replayed dur q (ms @ [m]) s"
      using s(1) unfolding lsm_replayed_snoc m lsm_replay_apply_eq by auto
    moreover have "mts_inv dur (max dur (q + length (ms @ [m]) - 1)) s"
      by (rule mts_inv_mono [OF s(2)]) auto
    ultimately show ?thesis using s(3,4) by auto
  qed
qed

lemma lsm_replayed_unique: "lsm_replayed dur q ms s \<Longrightarrow> lsm_replayed dur q ms s' \<Longrightarrow> s = s'"
  by (simp add: lsm_replayed_def)

lemma lsm_replayed_inv:
  assumes "lsm_replayed dur q ms s" "\<forall>m \<in> set ms. record_wf m" "0 < q" "q + length ms \<le> u64_max"
  shows "mts_inv dur (max dur (q + length ms - 1)) s" "mts_wf s" "mts_count s \<le> length ms"
  using lsm_replay_ok [OF assms(2-4), of dur] lsm_replayed_unique [OF assms(1)] by auto

lemma lsm_replay_skip:
  assumes "q + length ms \<le> dur + 1"
  shows "lsm_replayed dur q ms lsm_fresh"
  using assms
proof (induction ms rule: rev_induct)
  case Nil
  show ?case by simp
next
  case (snoc m ms)
  obtain kind key val where m: "m = (kind, key, val)" by (cases m)
  show ?case using snoc unfolding lsm_replayed_snoc m lsm_replay_apply_eq by auto
qed

lemma mts_inv_last_of:
  assumes "mts_inv lo hi s" "ms_immutable s = t # ts"
  shows "lo < last_of lo t \<and> last_of lo t \<le> hi \<and> mt_last_sequence t \<noteq> None \<and> mt_entries t \<noteq> om_empty"
  using assms table_inv_last [of lo hi t]
  by (auto simp: mts_inv_def table_inv_def last_of_def split: option.splits)

lemma lsm_replay_flush:
  assumes "lsm_replayed dur q ms s" "\<forall>m \<in> set ms. record_wf m" "0 < q" "q + length ms \<le> u64_max"
    and "ms_immutable s = t # ts"
  shows "lsm_replayed (last_of dur t) q ms (s\<lparr>ms_immutable := ts\<rparr>)"
  using assms
proof (induction ms arbitrary: s ts rule: rev_induct)
  case Nil
  then show ?case by (simp add: lsm_fresh_def)
next
  case (snoc m ms)
  obtain kind key val where m: "m = (kind, key, val)" by (cases m)
  let ?p = "q + length ms" and ?v = "case kind of MPut \<Rightarrow> Some val | MDelete \<Rightarrow> None"
  obtain s0 where s0: "lsm_replayed dur q ms s0" "lsm_replay_apply dur s0 (wal_mutation ?p m) = Inr s"
    using snoc.prems(1) by (auto simp: lsm_replayed_snoc)
  have inv: "mts_inv dur (max dur (?p - 1)) s0" "mts_wf s0"
    using lsm_replayed_inv [OF s0(1)] snoc.prems(2-4) by auto
  have inv': "mts_inv dur (max dur ?p) s" "mts_wf s"
    using lsm_replayed_inv [OF snoc.prems(1)] snoc.prems(2-4) by auto
  note top = mts_inv_last_of [OF inv'(1) snoc.prems(5)]
  show ?case
  proof (cases "?p > dur")
    case False
    then have "s = s0" using s0(2) by (simp add: m lsm_replay_apply_eq)
    then have "lsm_replayed (last_of dur t) q ms (s\<lparr>ms_immutable := ts\<rparr>)"
      using snoc.IH [OF s0(1)] snoc.prems by simp
    moreover have "\<not> ?p > last_of dur t" using False top by simp
    ultimately show ?thesis unfolding lsm_replayed_snoc m lsm_replay_apply_eq by auto
  next
    case True
    then have ap: "mts_apply s0 ?p key ?v = Inr s" using s0(2) by (simp add: m lsm_replay_apply_eq)
    obtain t' where t': "memtable_apply (ms_mutable s0) ?p key ?v = Inr t'" "mt_last_sequence t' = Some ?p"
      "s = s0\<lparr>ms_mutable := t'\<rparr> \<or> s = s0\<lparr>ms_mutable := memtable_default, ms_immutable := ms_immutable s0 @ [t']\<rparr>"
      using mts_apply_cases [OF ap] by metis
    show ?thesis
    proof (cases "ms_immutable s0")
      case Nil
      then have s: "t = t'" "ts = []" "s = s0\<lparr>ms_mutable := memtable_default, ms_immutable := [t']\<rparr>"
        using t'(3) snoc.prems(5) by auto
      have "s\<lparr>ms_immutable := ts\<rparr> = lsm_fresh"
        using s inv(2) by (simp add: lsm_fresh_def mts_wf_def)
      moreover have "last_of dur t = ?p" using s(1) t'(2) by (simp add: last_of_def)
      ultimately show ?thesis using lsm_replay_skip [of q "ms @ [m]" ?p] by simp
    next
      case (Cons t0 ts0)
      then have t0: "t = t0" using t'(3) snoc.prems(5) by auto
      have "lsm_replayed (last_of dur t) q ms (s0\<lparr>ms_immutable := ts0\<rparr>)"
        using snoc.IH [OF s0(1) _ _ _ Cons [folded t0]] snoc.prems by simp
      moreover have "?p > last_of dur t"
        using mts_inv_last_of [OF inv(1) Cons] True snoc.prems(3) t0 by auto
      moreover have "mts_apply (s0\<lparr>ms_immutable := ts0\<rparr>) ?p key ?v = Inr (s\<lparr>ms_immutable := ts\<rparr>)"
        using ap t' snoc.prems(5) Cons by (auto simp: mts_apply_def split: if_splits)
      ultimately show ?thesis unfolding lsm_replayed_snoc m lsm_replay_apply_eq by auto
    qed
  qed
qed

end
