(* ===== verification/LsmVersions.thy ===== *)
theory LsmVersions
  imports LsmReplay
begin

text \<open>
  The version sets the engine installs, from a valid one: with a flushed table appended, with the
  compacted run alone or no table at all, and with a new WAL segment.
\<close>

lemma fold_max_le: "fold (\<lambda>t high. max high (f t)) ts w \<le> (b :: nat) \<longleftrightarrow> w \<le> b \<and> (\<forall>t \<in> set ts. f t \<le> b)"
  by (induction ts arbitrary: w) auto

lemma fold_max_member: "t \<in> set ts \<Longrightarrow> (f t :: nat) \<le> fold (\<lambda>t high. max high (f t)) ts w"
  using fold_max_le [of f ts w "fold (\<lambda>t high. max high (f t)) ts w"] by blast

lemma sorted_last_ge:
  assumes "sorted_wrt (<) (0 # map f ts)" "x \<in> set ts"
  shows "(f x :: nat) \<le> last (0 # map f ts)"
  using assms
proof (induction ts rule: rev_induct)
  case Nil
  then show ?case by simp
next
  case (snoc t ts)
  then show ?case by (auto simp: sorted_wrt_append intro: less_imp_le)
qed

lemma version_wf_iff:
  "version_wf v \<longleftrightarrow> vs_tombstone_gc_sequence v \<le> vs_durable_sequence v \<and>
     (0 < vs_durable_sequence v \<longrightarrow> vs_table_id_high_watermark v \<noteq> 0) \<and> vs_wal_id v \<noteq> 0 \<and>
     vs_wal_first_sequence v \<noteq> 0 \<and> vs_wal_first_sequence v \<le> saturating_add64 (vs_durable_sequence v) 1 \<and>
     tables_ok (vs_tables v) \<and> last (0 # map sd_table_id (vs_tables v)) \<le> vs_table_id_high_watermark v \<and>
     (if vs_tables v = [] then vs_durable_sequence v = vs_tombstone_gc_sequence v
      else vs_durable_sequence v = sd_durable_sequence (last (vs_tables v))) \<and>
     (\<forall>t \<in> set (vs_tables v). desc_wf t) \<and>
     length (vs_tables v) \<le> 2147483648 \<and> vs_manifest_id v \<le> u64_max \<and> vs_durable_sequence v \<le> u64_max \<and>
     vs_tombstone_gc_sequence v \<le> u64_max \<and> vs_table_id_high_watermark v \<le> u64_max \<and>
     vs_wal_id v \<le> u64_max \<and> vs_wal_first_sequence v \<le> u64_max"
  by (simp add: version_wf_def validate_version_def validate_version_set_iff del: last.simps)

lemma version_wf_flush:
  assumes v: "version_wf v" and t: "desc_wf t" "sd_level t = 0" "vs_table_id_high_watermark v < sd_table_id t"
      "vs_durable_sequence v < sd_durable_sequence t"
    and n: "nm \<le> u64_max" "length (vs_tables v) < 2147483648"
  shows "version_wf (next_version v nm \<lparr>mn_durable_sequence = sd_durable_sequence t,
      mn_tombstone_gc_sequence = vs_tombstone_gc_sequence v, mn_wal_id = vs_wal_id v,
      mn_wal_first_sequence = vs_wal_first_sequence v, mn_tables = vs_tables v @ [t]\<rparr>)"
proof -
  let ?ts = "vs_tables v" and ?high = "fold (\<lambda>t high. max high (sd_table_id t)) (vs_tables v @ [t]) (vs_table_id_high_watermark v)"
  have ok: "tables_ok ?ts" and last_id: "last (0 # map sd_table_id ?ts) \<le> vs_table_id_high_watermark v"
    and dur: "if ?ts = [] then True else vs_durable_sequence v = sd_durable_sequence (last ?ts)"
    using v by (auto simp: version_wf_iff simp del: last.simps)
  have ids: "\<forall>x \<in> set ?ts. sd_table_id x < sd_table_id t"
    using ok last_id t(3) sorted_last_ge [of sd_table_id ?ts] by (fastforce simp: tables_ok_def simp del: last.simps)
  have durs: "\<forall>x \<in> set ?ts. sd_durable_sequence x < sd_durable_sequence t"
  proof
    fix x assume x: "x \<in> set ?ts"
    then have "sd_durable_sequence x \<le> last (0 # map sd_durable_sequence ?ts)"
      using ok by (intro sorted_last_ge) (simp_all add: tables_ok_def)
    moreover have "last (0 # map sd_durable_sequence ?ts) = vs_durable_sequence v"
      using dur x by (cases "?ts = []") (simp_all add: last_map)
    ultimately show "sd_durable_sequence x < sd_durable_sequence t" using t(4) by simp
  qed
  have tok: "tables_ok (?ts @ [t])"
    using ok ids durs t(1,2) by (auto simp: tables_ok_def level1_count_def sorted_wrt_append desc_wf_def)
  have high: "sd_table_id t \<le> ?high" "?high \<le> u64_max"
    using t(1,3) ids v by (auto simp: fold_max_le desc_wf_def version_wf_iff intro: less_imp_le order.trans)
  have wf': "vs_tombstone_gc_sequence v \<le> sd_durable_sequence t"
    "vs_wal_first_sequence v \<le> saturating_add64 (sd_durable_sequence t) 1"
    using v t(4) by (auto simp: version_wf_iff saturating_add64_def)
  have sid: "sd_table_id t \<noteq> 0" "sd_durable_sequence t \<le> u64_max" using t(1) by (simp_all add: desc_wf_def)
  show ?thesis
    using v tok high t(1) n wf' sid unfolding version_wf_iff next_version_def
    by (simp del: fold_append)
qed

lemma version_wf_compact:
  assumes v: "version_wf v" and ts: "ts = [] \<or> ts = [t] \<and> desc_wf t \<and> sd_level t = 1 \<and>
      sd_durable_sequence t = vs_durable_sequence v"
    and n: "nm \<le> u64_max"
  shows "version_wf (next_version v nm \<lparr>mn_durable_sequence = vs_durable_sequence v,
      mn_tombstone_gc_sequence = vs_durable_sequence v, mn_wal_id = vs_wal_id v,
      mn_wal_first_sequence = vs_wal_first_sequence v, mn_tables = ts\<rparr>)"
  using assms unfolding version_wf_iff next_version_def
  by (auto simp: tables_ok_def level1_count_def desc_wf_def max_def)

lemma version_wf_rotate:
  assumes v: "version_wf v" and n: "nm \<le> u64_max" "0 < nw" "nw \<le> u64_max" "vs_durable_sequence v + 1 \<le> u64_max"
  shows "version_wf (next_version v nm \<lparr>mn_durable_sequence = vs_durable_sequence v,
      mn_tombstone_gc_sequence = vs_tombstone_gc_sequence v, mn_wal_id = nw,
      mn_wal_first_sequence = vs_durable_sequence v + 1, mn_tables = vs_tables v\<rparr>)"
proof -
  let ?high = "fold (\<lambda>t high. max high (sd_table_id t)) (vs_tables v) (vs_table_id_high_watermark v)"
  have "vs_table_id_high_watermark v \<le> ?high" by (rule fold_max_ge)
  moreover have "?high \<le> u64_max"
    using v by (auto simp: fold_max_le version_wf_iff desc_wf_def)
  moreover have "saturating_add64 (vs_durable_sequence v) 1 = vs_durable_sequence v + 1"
    using n(4) by (simp add: saturating_add64_def)
  ultimately show ?thesis
    using v n unfolding version_wf_iff next_version_def by (auto simp del: last.simps)
qed

lemma version_wf_watermark:
  assumes "version_wf v" "vs_table_id_high_watermark v \<le> h" "h \<le> u64_max"
  shows "version_wf (v\<lparr>vs_table_id_high_watermark := h\<rparr>)"
  using assms unfolding version_wf_iff by (auto simp del: last.simps)

lemma desc_wf_described:
  assumes "sst_writable dur m" "level \<le> 1" "0 < tid" "tid \<le> u64_max" "0 < n" "n \<le> u64_max" "0 < dur"
  shows "desc_wf (sst_described tid level n dur m)"
proof -
  have ne: "om_keys m \<noteq> []" using assms(1) by (simp add: sst_writable_def om_keys_def)
  have bound: "length k \<le> 4096" if "k \<in> set (om_keys m)" for k
    using that assms(1) by (auto simp: sst_writable_def om_keys_def entry_wf_def MAX_KEY_BYTES_def)
  have "hd (om_keys m) \<le> last (om_keys m)" using sorted_hd_last [of "hd (om_keys m)" m] ne by simp
  moreover have "0 < om_size m" using assms(1) by (simp add: sst_writable_def om_size_def)
  moreover have "om_size m \<le> u64_max" "dur \<le> u64_max" using assms(1) by (simp_all add: sst_writable_def u64_max_def)
  ultimately show ?thesis
    using assms(2-7) bound ne by (simp add: desc_wf_def sst_described_def)
qed

end
