(* ===== verification/LsmState.thy ===== *)
theory LsmState
  imports LsmVersions
begin

text \<open>
  The invariant of a running LSM engine and its abstraction to the ordered map of live values.
  Both are stated over what the parts promise: the published version set, the tables' maps, the
  records of the active segment and the MemTables that replaying them rebuilds.
\<close>

definition lsm_view :: "(bytes \<Rightarrow> 32 word) \<Rightarrow> lsm_engine \<Rightarrow> entry_map" where
  "lsm_view crc e =
     (case lsm_overlay_tables crc (le_tables e) [] None of
        Inl _ \<Rightarrow> om_empty
      | Inr (_, visible) \<Rightarrow> fold overlay_entry (entries (mts_visible_state (le_memtables e))) visible)"

definition lsm_abs :: "(bytes \<Rightarrow> 32 word) \<Rightarrow> lsm_engine \<Rightarrow> kv_state" where
  "lsm_abs crc e = om_map_filter (\<lambda>_. ve_value) (lsm_view crc e)"

definition tables_hold :: "(bytes \<Rightarrow> 32 word) \<Rightarrow> disk \<Rightarrow> sstable list \<Rightarrow> entry_map list \<Rightarrow> bool" where
  "tables_hold crc d ts maps \<longleftrightarrow>
     list_all2 (sst_denotes crc) ts maps \<and> seq_chain 0 (table_chain ts maps) \<and>
     (\<forall>m \<in> set maps. \<forall>k e. om_lookup m k = Some e \<longrightarrow> entry_wf k e) \<and>
     (\<forall>t \<in> set ts. sst_open crc (disk_read d (sst_file_name (sd_table_id (st_descriptor t)))) (st_descriptor t) = Inr t)"

definition wal_on_disk ::
    "(bytes \<Rightarrow> 32 word) \<Rightarrow> disk \<Rightarrow> version_set \<Rightarrow> wal \<Rightarrow> (mutation_kind \<times> bytes \<times> bytes) list \<Rightarrow> bool" where
  "wal_on_disk crc d v w ms \<longleftrightarrow>
     wal_holds crc w ms \<and> disk_read d (wal_file_name (wal_id w)) = Some (wal_disk w) \<and>
     wal_id w = vs_wal_id v \<and> wal_first_sequence w = vs_wal_first_sequence v \<and>
     vs_durable_sequence v < wal_next_sequence w"

text \<open>The manifest on disk may carry a lower id watermark than the running engine, which has also
  counted orphaned tables it found when it opened the directory.\<close>

definition version_on_disk :: "(bytes \<Rightarrow> 32 word) \<Rightarrow> disk \<Rightarrow> version_set \<Rightarrow> bool" where
  "version_on_disk crc d v \<longleftrightarrow> version_wf v \<and>
     (\<exists>high \<le> vs_table_id_high_watermark v. published crc d (v\<lparr>vs_table_id_high_watermark := high\<rparr>))"

definition lsm_holds ::
    "(bytes \<Rightarrow> 32 word) \<Rightarrow> lsm_engine \<Rightarrow> wal \<Rightarrow> (mutation_kind \<times> bytes \<times> bytes) list \<Rightarrow> entry_map list \<Rightarrow> bool" where
  "lsm_holds crc e w ms maps \<longleftrightarrow>
     le_wal e = Some w \<and> \<not> le_poisoned e \<and> dk_faults (le_disk e) = [] \<and>
     version_on_disk crc (le_disk e) (le_version e) \<and>
     vs_table_id_high_watermark (le_version e) < le_next_table_id e \<and>
     map st_descriptor (le_tables e) = vs_tables (le_version e) \<and>
     tables_hold crc (le_disk e) (le_tables e) maps \<and>
     wal_on_disk crc (le_disk e) (le_version e) w ms \<and>
     lsm_replayed (vs_durable_sequence (le_version e)) (wal_first_sequence w) ms (le_memtables e) \<and>
     lsm_names (le_disk e) (le_next_table_id e) (le_next_manifest_id e) (le_next_wal_id e)"

definition lsm_invar :: "(bytes \<Rightarrow> 32 word) \<Rightarrow> lsm_engine \<Rightarrow> bool" where
  "lsm_invar crc e \<longleftrightarrow> (\<exists>w ms maps. lsm_holds crc e w ms maps)"

definition lsm_lookup :: "lsm_engine \<Rightarrow> entry_map list \<Rightarrow> bytes \<Rightarrow> versioned_entry option" where
  "lsm_lookup e maps k =
     (case mts_get (le_memtables e) k of
        Some entry \<Rightarrow> Some entry | None \<Rightarrow> chain_find (table_chain (le_tables e) maps) k)"

text \<open>The counters an operation spends: table, manifest and WAL ids, generations, table entries,
  sequence numbers and bytes of the active segment.\<close>

definition lsm_entries :: "lsm_engine \<Rightarrow> nat" where
  "lsm_entries e = sum_list (map sd_entry_count (vs_tables (le_version e))) + mts_count (le_memtables e)"

definition lsm_room :: "nat \<Rightarrow> lsm_engine \<Rightarrow> bool" where
  "lsm_room n e \<longleftrightarrow>
     (let frozen = length (ms_immutable (le_memtables e)) in
      le_next_table_id e + frozen + 2 * n \<le> max_file_id \<and>
      le_next_manifest_id e + frozen + 3 * n \<le> max_file_id \<and>
      le_next_wal_id e + n \<le> max_file_id \<and>
      vs_current_generation (le_version e) + frozen + 5 * n \<le> u64_max \<and>
      lsm_entries e + n \<le> 2147483648 \<and>
      (case le_wal e of None \<Rightarrow> False
       | Some w \<Rightarrow> wal_next_sequence w + n \<le> u64_max \<and> length (wal_disk w) + 1052704 * n \<le> u64_max))"


subsection \<open>Facts of a running engine\<close>

lemma lsm_holdsD:
  assumes "lsm_holds crc e w ms maps"
  shows "le_wal e = Some w" "\<not> le_poisoned e" "dk_faults (le_disk e) = []"
    "version_on_disk crc (le_disk e) (le_version e)"
    "vs_table_id_high_watermark (le_version e) < le_next_table_id e"
    "map st_descriptor (le_tables e) = vs_tables (le_version e)"
    "tables_hold crc (le_disk e) (le_tables e) maps"
    "wal_on_disk crc (le_disk e) (le_version e) w ms"
    "lsm_replayed (vs_durable_sequence (le_version e)) (wal_first_sequence w) ms (le_memtables e)"
    "lsm_names (le_disk e) (le_next_table_id e) (le_next_manifest_id e) (le_next_wal_id e)"
  using assms unfolding lsm_holds_def by blast+

lemma wal_on_diskD:
  assumes "wal_on_disk crc d v w ms"
  shows "wal_holds crc w ms" "disk_read d (wal_file_name (wal_id w)) = Some (wal_disk w)"
    "wal_id w = vs_wal_id v" "wal_first_sequence w = vs_wal_first_sequence v"
    "vs_durable_sequence v < wal_next_sequence w"
  using assms unfolding wal_on_disk_def by blast+

lemma lsm_holds_wal:
  assumes "lsm_holds crc e w ms maps"
  shows "\<forall>m \<in> set ms. record_wf m" "0 < wal_first_sequence w" "wal_first_sequence w + length ms \<le> u64_max"
    "wal_next_sequence w = wal_first_sequence w + length ms"
  using assms by (simp_all add: lsm_holds_def wal_on_disk_def wal_holds_def)

lemma lsm_holds_memtables:
  assumes "lsm_holds crc e w ms maps"
  shows "mts_inv (vs_durable_sequence (le_version e)) (wal_next_sequence w - 1) (le_memtables e)"
    "mts_wf (le_memtables e)" "vs_durable_sequence (le_version e) < wal_next_sequence w"
proof -
  have r: "lsm_replayed (vs_durable_sequence (le_version e)) (wal_first_sequence w) ms (le_memtables e)"
    and dur: "vs_durable_sequence (le_version e) < wal_next_sequence w"
    using assms unfolding lsm_holds_def wal_on_disk_def by blast+
  note inv = lsm_replayed_inv [OF r lsm_holds_wal(1-3) [OF assms]]
  have "max (vs_durable_sequence (le_version e)) (wal_first_sequence w + length ms - 1) = wal_next_sequence w - 1"
    using dur lsm_holds_wal(4) [OF assms] by simp
  then show "mts_inv (vs_durable_sequence (le_version e)) (wal_next_sequence w - 1) (le_memtables e)"
    "mts_wf (le_memtables e)" "vs_durable_sequence (le_version e) < wal_next_sequence w"
    using inv dur by simp_all
qed

lemma tables_hold_sizes:
  assumes "tables_hold crc d ts maps"
  shows "length ts = length maps" "sum_list (map (sd_entry_count \<circ> st_descriptor) ts) = sum_list (map om_size maps)"
    "\<forall>m \<in> set maps. om_size m \<le> sum_list (map (sd_entry_count \<circ> st_descriptor) ts)"
    "length ts \<le> sum_list (map (sd_entry_count \<circ> st_descriptor) ts)"
proof -
  have all: "list_all2 (sst_denotes crc) ts maps" using assms by (simp add: tables_hold_def)
  then show len: "length ts = length maps" by (rule list_all2_lengthD)
  show sum: "sum_list (map (sd_entry_count \<circ> st_descriptor) ts) = sum_list (map om_size maps)"
    using all by (induction ts maps rule: list_all2_induct) (simp_all add: sst_denotes_def)
  show "\<forall>m \<in> set maps. om_size m \<le> sum_list (map (sd_entry_count \<circ> st_descriptor) ts)"
    unfolding sum by (auto intro: member_le_sum_list)
  have "0 < om_size m" if "sst_denotes crc t m" for t m
    using that by (simp add: sst_denotes_def om_size_def entries_eq_Nil)
  with all show "length ts \<le> sum_list (map (sd_entry_count \<circ> st_descriptor) ts)"
    unfolding sum by (induction ts maps rule: list_all2_induct) (auto simp: Suc_le_eq add_strict_increasing)
qed

lemma lsm_tables_entries:
  assumes "map st_descriptor ts = vs_tables v"
  shows "sum_list (map (sd_entry_count \<circ> st_descriptor) ts) = sum_list (map sd_entry_count (vs_tables v))"
  using arg_cong [OF assms, of "\<lambda>xs. sum_list (map sd_entry_count xs)"] by simp

lemma table_chain_top:
  assumes "map st_descriptor ts = vs_tables v" "version_wf v" "length ts = length maps"
  shows "chain_top 0 (table_chain ts maps) \<le> vs_durable_sequence v"
proof (cases "ts = []")
  case True
  then show ?thesis by (simp add: table_chain_def)
next
  case False
  then have "vs_tables v \<noteq> []" using assms(1) by auto
  then have "vs_durable_sequence v = sd_durable_sequence (last (vs_tables v))"
    using assms(2) by (simp add: version_wf_iff)
  moreover have "last (vs_tables v) = st_descriptor (last ts)"
    using False by (simp add: last_map flip: assms(1))
  ultimately show ?thesis
    using False assms(3) by (simp add: chain_top_def table_chain_def last_map table_durable_def)
qed


subsection \<open>What the engine reads\<close>

lemma lsm_holds_tables:
  assumes "lsm_holds crc e w ms maps"
  shows "list_all2 (sst_denotes crc) (le_tables e) maps" "seq_chain 0 (table_chain (le_tables e) maps)"
    "\<forall>m \<in> set maps. \<forall>k e. om_lookup m k = Some e \<longrightarrow> entry_wf k e" "length (le_tables e) = length maps"
    "chain_top 0 (table_chain (le_tables e) maps) \<le> vs_durable_sequence (le_version e)"
    "sum_list (map om_size maps) = sum_list (map sd_entry_count (vs_tables (le_version e)))"
    "length maps \<le> sum_list (map sd_entry_count (vs_tables (le_version e)))"
proof -
  have t: "tables_hold crc (le_disk e) (le_tables e) maps" "map st_descriptor (le_tables e) = vs_tables (le_version e)"
    "version_wf (le_version e)"
    using assms by (simp_all add: lsm_holds_def version_on_disk_def)
  note sizes = tables_hold_sizes [OF t(1)] and count = lsm_tables_entries [OF t(2)]
  show "list_all2 (sst_denotes crc) (le_tables e) maps" "seq_chain 0 (table_chain (le_tables e) maps)"
    "\<forall>m \<in> set maps. \<forall>k e. om_lookup m k = Some e \<longrightarrow> entry_wf k e"
    using t(1) by (simp_all add: tables_hold_def)
  show "length (le_tables e) = length maps" using sizes by simp
  then show "chain_top 0 (table_chain (le_tables e) maps) \<le> vs_durable_sequence (le_version e)"
    using table_chain_top t(2,3) by blast
  show "sum_list (map om_size maps) = sum_list (map sd_entry_count (vs_tables (le_version e)))"
    "length maps \<le> sum_list (map sd_entry_count (vs_tables (le_version e)))"
    using sizes(1,2,4) count by simp_all
qed

lemma lsm_holds_small:
  assumes "lsm_holds crc e w ms maps" "lsm_entries e \<le> 2147483648"
  shows "\<forall>m \<in> set maps. om_size m \<le> 2147483648" "length maps \<le> 2147483648" "mts_count (le_memtables e) \<le> 2147483648"
proof -
  have "om_size m \<le> sum_list (map om_size maps)" if "m \<in> set maps" for m
    using that by (intro member_le_sum_list) auto
  then show "\<forall>m \<in> set maps. om_size m \<le> 2147483648"
    using lsm_holds_tables(6) [OF assms(1)] assms(2) by (fastforce simp: lsm_entries_def)
  show "length maps \<le> 2147483648" "mts_count (le_memtables e) \<le> 2147483648"
    using lsm_holds_tables(7) [OF assms(1)] assms(2) by (simp_all add: lsm_entries_def)
qed

lemma lsm_read_ok:
  assumes "lsm_holds crc e w ms maps"
  shows "\<exists>n. lsm_current_entry_with_consults crc e k = Inr (lsm_lookup e maps k, n)"
proof -
  obtain n where "lsm_search crc (rev (le_tables e)) k 0 = Inr (chain_find (table_chain (le_tables e) maps) k, n)"
    using lsm_search_chain [OF lsm_holds_tables(1) [OF assms]] by blast
  then show ?thesis
    by (simp add: lsm_current_entry_with_consults_def lsm_lookup_def split: option.split)
qed

lemma mts_get_bounds:
  assumes "mts_inv lo hi s" "mts_get s k = Some x"
  shows "lo < ve_sequence x \<and> ve_sequence x \<le> hi"
proof -
  have b: "chain_inv lo hi ts \<Longrightarrow> find_map (\<lambda>t. memtable_get t k) (rev ts) = Some x \<Longrightarrow>
      lo < ve_sequence x \<and> ve_sequence x \<le> hi" for ts
  proof (induction ts arbitrary: lo)
    case Nil
    then show ?case by simp
  next
    case (Cons t ts)
    have t: "table_inv lo hi t" "lo \<le> hi" "chain_inv (last_of lo t) hi ts" using Cons.prems(1) by simp_all
    then have "lo \<le> last_of lo t \<and> last_of lo t \<le> hi" by (intro table_inv_last)
    then show ?case
      using Cons.IH [OF t(3)] Cons.prems(2) table_inv_bounds [OF t(1)]
      by (fastforce simp: find_map_append memtable_get_def split: option.splits)
  qed
  show ?thesis using b [of "ms_immutable s @ [ms_mutable s]"] assms unfolding mts_inv_def mts_get_eq by blast
qed

text \<open>Merging over a range reads what lookups read.\<close>

lemma lsm_range_view:
  assumes h: "lsm_holds crc e w ms maps" and n: "\<forall>m \<in> set maps. om_size m \<le> u64_max"
  shows "\<exists>n v. lsm_overlay_tables crc (le_tables e) start stop = Inr (n, v) \<and>
    (\<forall>k. om_lookup (fold overlay_entry (om_range start stop (mts_visible_state (le_memtables e))) v) k =
       (if in_range start stop k then lsm_lookup e maps k else None))"
proof -
  let ?chain = "chain_range start stop (table_chain (le_tables e) maps)"
    and ?m = "om_filter (\<lambda>k _. in_range start stop k) (mts_visible_state (le_memtables e))"
    and ?dur = "vs_durable_sequence (le_version e)"
  obtain n where n: "lsm_overlay_tables crc (le_tables e) start stop = Inr (n, overlay_chain ?chain om_empty)"
    using lsm_overlay_denoted [OF lsm_holds_tables(1) [OF h] n] by blast
  have sc: "seq_chain 0 ?chain" using lsm_holds_tables(2) [OF h] by (rule seq_chain_range)
  have look: "om_lookup (overlay_chain ?chain om_empty) k =
      (if in_range start stop k then chain_find (table_chain (le_tables e) maps) k else None)" for k
    using overlay_chain_empty [OF sc] by (simp add: chain_find_range)
  have low: "seqs_upto ?dur (overlay_chain ?chain om_empty)"
    using chain_find_bound [OF lsm_holds_tables(2) [OF h]] lsm_holds_tables(5) [OF h] look
    by (fastforce simp: seqs_upto_def split: if_splits)
  note inv = lsm_holds_memtables(1) [OF h]
  have high: "\<forall>k x. om_lookup ?m k = Some x \<longrightarrow> ?dur < ve_sequence x \<and> ve_sequence x \<le> wal_next_sequence w - 1"
    using mts_get_bounds [OF inv] mts_visible_state_get [OF inv]
    by (auto simp: om_lookup_filter split: option.splits if_splits)
  have "om_lookup (fold overlay_entry (entries ?m) (overlay_chain ?chain om_empty)) k =
      (if in_range start stop k then lsm_lookup e maps k else None)" for k
  proof -
    have "?dur \<le> wal_next_sequence w - 1" using lsm_holds_memtables(3) [OF h] by simp
    from overlay_map_step [OF high this low, of k]
    show ?thesis
      using look mts_visible_state_get [OF inv] by (auto simp: om_lookup_filter lsm_lookup_def split: option.splits)
  qed
  then show ?thesis using n by (auto simp: om_range_in_range)
qed

lemma lsm_abs_lookup:
  assumes "lsm_holds crc e w ms maps" "lsm_entries e \<le> 2147483648"
  shows "om_lookup (lsm_abs crc e) k = Option.bind (lsm_lookup e maps k) ve_value"
proof -
  have "\<forall>m \<in> set maps. om_size m \<le> u64_max"
    using lsm_holds_small(1) [OF assms] by (auto simp: u64_max_def)
  from lsm_range_view [OF assms(1) this, of "[]" None] show ?thesis
    by (auto simp: lsm_abs_def lsm_view_def om_lookup_map_filter)
qed

end
