(* ===== verification/LsmPhases.thy ===== *)
theory LsmPhases
  imports LsmState
begin

text \<open>
  The maintenance phases that may follow a mutation: flushing frozen MemTables, compacting level
  zero and rotating the WAL.  Each keeps the invariant and every visible value, and spends a
  bounded number of ids and generations.
\<close>

definition lsm_progress ::
    "lsm_engine \<Rightarrow> entry_map list \<Rightarrow> lsm_engine \<Rightarrow> entry_map list \<Rightarrow> nat \<Rightarrow> nat \<Rightarrow> nat \<Rightarrow> nat \<Rightarrow> bool" where
  "lsm_progress e maps e' maps' tables manifests wals generations \<longleftrightarrow>
     le_next_table_id e' \<le> le_next_table_id e + tables \<and>
     le_next_manifest_id e' \<le> le_next_manifest_id e + manifests \<and>
     le_next_wal_id e' \<le> le_next_wal_id e + wals \<and>
     vs_current_generation (le_version e') \<le> vs_current_generation (le_version e) + generations \<and>
     lsm_entries e' \<le> lsm_entries e \<and>
     (\<forall>w. le_wal e = Some w \<longrightarrow> (\<exists>w'. le_wal e' = Some w' \<and>
        wal_next_sequence w' = wal_next_sequence w \<and> length (wal_disk w') \<le> length (wal_disk w))) \<and>
     (\<forall>k. Option.bind (lsm_lookup e' maps' k) ve_value = Option.bind (lsm_lookup e maps k) ve_value)"

lemma lsm_lookup_cong:
  "le_memtables e' = le_memtables e \<Longrightarrow> le_tables e' = le_tables e \<Longrightarrow> lsm_lookup e' maps k = lsm_lookup e maps k"
  by (simp add: lsm_lookup_def split: option.split)

lemma lsm_progress_refl: "lsm_progress e maps e maps a b c g"
  by (simp add: lsm_progress_def)

lemma lsm_progress_trans:
  "lsm_progress e maps e1 maps1 a b c g \<Longrightarrow> lsm_progress e1 maps1 e2 maps2 a' b' c' g' \<Longrightarrow>
     lsm_progress e maps e2 maps2 (a + a') (b + b') (c + c') (g + g')"
  unfolding lsm_progress_def by (fastforce intro: order.trans)

lemma tables_hold_frame:
  assumes "tables_hold crc d ts maps"
    and "\<forall>t \<in> set ts. disk_read d' (sst_file_name (sd_table_id (st_descriptor t))) =
           disk_read d (sst_file_name (sd_table_id (st_descriptor t)))"
  shows "tables_hold crc d' ts maps"
  using assms by (simp add: tables_hold_def)

lemma wal_on_disk_frame:
  assumes "wal_on_disk crc d v w ms" "disk_read d' (wal_file_name (wal_id w)) = disk_read d (wal_file_name (wal_id w))"
    "vs_wal_id v' = vs_wal_id v" "vs_wal_first_sequence v' = vs_wal_first_sequence v"
    "vs_durable_sequence v' < wal_next_sequence w"
  shows "wal_on_disk crc d' v' w ms"
  using wal_on_diskD [OF assms(1)] assms(2-5) unfolding wal_on_disk_def by metis

lemma tables_hold_snoc:
  assumes old: "tables_hold crc d ts maps" "chain_top 0 (table_chain ts maps) \<le> lo"
    and new: "sst_denotes crc t m" "\<forall>k e. om_lookup m k = Some e \<longrightarrow> entry_wf k e"
      "sst_open crc (disk_read d (sst_file_name (sd_table_id (st_descriptor t)))) (st_descriptor t) = Inr t"
    and seqs: "\<forall>k e. om_lookup m k = Some e \<longrightarrow> lo < ve_sequence e \<and> ve_sequence e \<le> table_durable t"
      "lo \<le> table_durable t"
  shows "tables_hold crc d (ts @ [t]) (maps @ [m])"
proof -
  have len: "length ts = length maps" using tables_hold_sizes(1) [OF old(1)] .
  have "table_chain (ts @ [t]) (maps @ [m]) = table_chain ts maps @ [(table_durable t, m)]"
    using len by (simp add: table_chain_def)
  moreover have "seq_chain (chain_top 0 (table_chain ts maps)) [(table_durable t, m)]"
    using old(2) seqs by (auto intro: le_less_trans)
  ultimately have "seq_chain 0 (table_chain (ts @ [t]) (maps @ [m]))"
    using old(1) by (simp add: seq_chain_append tables_hold_def)
  then show ?thesis using old(1) new by (auto simp: tables_hold_def list_all2_appendI)
qed

lemma lsm_name_ids:
  assumes "lsm_names d nt nm nw"
  shows "disk_read d (manifest_file_name i) \<noteq> None \<Longrightarrow> 0 < i \<and> i < nm"
    "disk_read d (wal_file_name i) \<noteq> None \<Longrightarrow> 0 < i \<and> i < nw"
    "disk_read d (sst_file_name i) \<noteq> None \<Longrightarrow> 0 < i \<and> i < nt"
  using assms unfolding lsm_names_def lsm_name_def by fastforce+

lemma version_wf_table_ids:
  assumes "version_wf v" "t \<in> set (vs_tables v)"
  shows "sd_table_id t \<le> vs_table_id_high_watermark v"
proof -
  have "sd_table_id t \<le> last (0 # map sd_table_id (vs_tables v))"
    using assms by (intro sorted_last_ge) (simp_all add: version_wf_iff tables_ok_def)
  then show ?thesis using assms(1) unfolding version_wf_iff by linarith
qed

lemma version_on_disk_facts:
  assumes "version_on_disk crc d v"
  shows "version_wf v" "disk_read d (manifest_file_name (vs_manifest_id v)) \<noteq> None"
    "disk_read d CURRENT_FILE_NAME \<noteq> None"
  using assms by (auto simp: version_on_disk_def published_def)

lemma version_on_disk_frame:
  assumes "version_on_disk crc d v" "disk_read d' CURRENT_FILE_NAME = disk_read d CURRENT_FILE_NAME"
    "disk_read d' (manifest_file_name (vs_manifest_id v)) = disk_read d (manifest_file_name (vs_manifest_id v))"
  shows "version_on_disk crc d' v"
  using assms published_frame [of crc d _ d'] by (fastforce simp: version_on_disk_def)

lemma version_on_disk_published: "published crc d v \<Longrightarrow> version_on_disk crc d v"
  by (auto simp: version_on_disk_def published_def intro!: exI [of _ "vs_table_id_high_watermark v"])

text \<open>The directory after a phase: the next table, manifest and segment may be new.\<close>

lemma lsm_names_after:
  assumes names: "lsm_names d nt nm nw"
    and old: "\<And>name. name \<noteq> CURRENT_FILE_NAME \<Longrightarrow> name \<noteq> manifest_file_name nm \<Longrightarrow> name \<noteq> sst_file_name nt \<Longrightarrow>
        name \<noteq> wal_file_name nw \<Longrightarrow> disk_read d' name \<in> {None, disk_read d name}"
    and le: "nt \<le> nt'" "nm < nm'" "nw \<le> nw'" "nt' \<le> max_file_id" "nm' \<le> max_file_id" "nw' \<le> max_file_id"
    and same: "nt' = nt \<Longrightarrow> disk_read d' (sst_file_name nt) = None" "nw' = nw \<Longrightarrow> disk_read d' (wal_file_name nw) = None"
  shows "lsm_names d' nt' nm' nw'"
proof (rule lsm_names_mono [OF names])
  have pos: "0 < nt" "0 < nm" "0 < nw" using names by (simp_all add: lsm_names_def)
  show "\<forall>name. disk_read d' name \<noteq> None \<longrightarrow> disk_read d name \<noteq> None \<or> lsm_name nt' nm' nw' name"
  proof (intro allI impI)
    fix name assume n: "disk_read d' name \<noteq> None"
    consider "name = CURRENT_FILE_NAME" | "name = manifest_file_name nm" | "name = sst_file_name nt"
      | "name = wal_file_name nw" | "disk_read d' name \<in> {None, disk_read d name}"
      using old by blast
    then show "disk_read d name \<noteq> None \<or> lsm_name nt' nm' nw' name"
    proof cases
      case 3
      then have "nt < nt'" using n same(1) le(1) by (cases "nt' = nt") auto
      then show ?thesis using 3 pos by (simp add: lsm_name_intros)
    next
      case 4
      then have "nw < nw'" using n same(2) le(3) by (cases "nw' = nw") auto
      then show ?thesis using 4 pos by (simp add: lsm_name_intros)
    qed (use n pos le in \<open>auto simp: lsm_name_intros\<close>)
  qed
qed (use le in simp_all)

lemma lsm_holds_ids:
  assumes "lsm_holds crc e w ms maps"
  shows "0 < vs_manifest_id (le_version e)" "vs_manifest_id (le_version e) < le_next_manifest_id e"
    "wal_id w < le_next_wal_id e"
    "\<forall>t \<in> set (le_tables e). sd_table_id (st_descriptor t) < le_next_table_id e"
proof -
  have n: "lsm_names (le_disk e) (le_next_table_id e) (le_next_manifest_id e) (le_next_wal_id e)"
    and v: "version_on_disk crc (le_disk e) (le_version e)"
    and w: "disk_read (le_disk e) (wal_file_name (wal_id w)) \<noteq> None"
    and ts: "map st_descriptor (le_tables e) = vs_tables (le_version e)"
      "vs_table_id_high_watermark (le_version e) < le_next_table_id e"
    using lsm_holdsD [OF assms] wal_on_diskD(2) by fastforce+
  show "0 < vs_manifest_id (le_version e)" "vs_manifest_id (le_version e) < le_next_manifest_id e"
    using lsm_name_ids(1) [OF n version_on_disk_facts(2) [OF v]] by simp_all
  show "wal_id w < le_next_wal_id e" using lsm_name_ids(2) [OF n w] by simp
  show "\<forall>t \<in> set (le_tables e). sd_table_id (st_descriptor t) < le_next_table_id e"
  proof
    fix t assume "t \<in> set (le_tables e)"
    then have "st_descriptor t \<in> set (vs_tables (le_version e))" by (simp flip: ts(1))
    then show "sd_table_id (st_descriptor t) < le_next_table_id e"
      using version_wf_table_ids [OF version_on_disk_facts(1) [OF v]] ts(2) by fastforce
  qed
qed


subsection \<open>Flushing one frozen table\<close>

lemma flush_writable:
  assumes h: "lsm_holds crc e w ms maps" and imm: "ms_immutable (le_memtables e) = t # ts"
    and room: "lsm_entries e \<le> 2147483648"
  defines "dur \<equiv> last_of (vs_durable_sequence (le_version e)) t"
  shows "sst_writable dur (mt_entries t)" "vs_durable_sequence (le_version e) < dur" "dur < wal_next_sequence w"
    "\<forall>k x. om_lookup (mt_entries t) k = Some x \<longrightarrow>
       entry_wf k x \<and> vs_durable_sequence (le_version e) < ve_sequence x \<and> ve_sequence x \<le> dur"
    "mts_count (le_memtables e) = om_size (mt_entries t) + mts_count (le_memtables e\<lparr>ms_immutable := ts\<rparr>)"
proof -
  note inv = lsm_holds_memtables(1,2) [OF h]
  note top = mts_inv_last_of [OF inv(1) imm]
  show d: "vs_durable_sequence (le_version e) < dur" "dur < wal_next_sequence w"
    using top lsm_holds_memtables(3) [OF h] by (auto simp: dur_def)
  have wf: "\<forall>k x. om_lookup (mt_entries t) k = Some x \<longrightarrow> entry_wf k x"
    using inv(2) imm by (simp add: mts_wf_def)
  show bounds: "\<forall>k x. om_lookup (mt_entries t) k = Some x \<longrightarrow>
       entry_wf k x \<and> vs_durable_sequence (le_version e) < ve_sequence x \<and> ve_sequence x \<le> dur"
    using mts_retire_ok [OF inv(1) imm] wf by (auto simp: dur_def)
  show count: "mts_count (le_memtables e) = om_size (mt_entries t) + mts_count (le_memtables e\<lparr>ms_immutable := ts\<rparr>)"
    by (simp add: mts_count_def imm)
  have "wal_next_sequence w \<le> u64_max" using lsm_holds_wal [OF h] by simp
  then show "sst_writable dur (mt_entries t)"
    using top bounds d(2) count room
    by (auto simp: sst_writable_def seqs_upto_def lsm_entries_def set_entries)
qed

lemma lsm_flush_oldest_ok:
  assumes h: "lsm_holds crc e w ms maps" and imm: "ms_immutable (le_memtables e) = t # ts"
    and room: "le_next_table_id e + 1 \<le> max_file_id" "le_next_manifest_id e + 1 \<le> max_file_id"
      "vs_current_generation (le_version e) + 1 \<le> u64_max" "lsm_entries e \<le> 2147483648"
  shows "\<exists>e'. lsm_flush_oldest crc (mt_entries t) (last_of (vs_durable_sequence (le_version e)) t) e = (Inr (), e') \<and>
    lsm_holds crc e' w ms (maps @ [mt_entries t]) \<and>
    lsm_progress e maps e' (maps @ [mt_entries t]) 1 1 0 1 \<and>
    le_memtables e' = le_memtables e\<lparr>ms_immutable := ts\<rparr>"
proof -
  let ?v = "le_version e" and ?d = "le_disk e" and ?m = "mt_entries t" and ?nt = "le_next_table_id e"
    and ?nm = "le_next_manifest_id e"
  let ?dur = "last_of (vs_durable_sequence ?v) t"
  note w = flush_writable [OF h imm room(4)]
  note hd = lsm_holdsD [OF h]
  note fresh = lsm_names_fresh [OF hd(10)]
  have small: "?nt + 1 \<le> u64_max" "?nm + 1 \<le> u64_max"
    using room by (simp_all add: max_file_id_def u64_max_def)
  obtain tb where tb: "sst_create_new crc ?d ?nt ?dur ?m = (Inr tb, disk_set (sst_file_name ?nt) (st_bytes tb) ?d)"
    "sst_denotes crc tb ?m" "st_descriptor tb = sst_described ?nt 0 (length (st_bytes tb)) ?dur ?m"
    "sst_open crc (Some (st_bytes tb)) (st_descriptor tb) = Inr tb" "0 < length (st_bytes tb)" "length (st_bytes tb) \<le> u64_max"
    using sst_create_ok [OF w(1) _ _ fresh(1) hd(3), where version = 2 and level = 0 and crc = crc] small
    by (auto simp: sst_create_new_def SST_FORMAT_VERSION_def)
  let ?d1 = "disk_set (sst_file_name ?nt) (st_bytes tb) ?d"
  let ?st = "\<lparr>mn_durable_sequence = ?dur, mn_tombstone_gc_sequence = vs_tombstone_gc_sequence ?v, mn_wal_id = vs_wal_id ?v,
     mn_wal_first_sequence = vs_wal_first_sequence ?v, mn_tables = vs_tables ?v @ [st_descriptor tb]\<rparr>"
  have wf: "version_wf ?v" using version_on_disk_facts(1) [OF hd(4)] .
  have tbwf: "desc_wf (st_descriptor tb)"
    unfolding tb(3) using desc_wf_described [OF w(1), of 0 ?nt "length (st_bytes tb)"] tb(5,6) w(2) small hd(5) by simp
  have tbf: "sd_level (st_descriptor tb) = 0" "sd_table_id (st_descriptor tb) = ?nt"
    "sd_durable_sequence (st_descriptor tb) = ?dur" "sd_entry_count (st_descriptor tb) = om_size ?m"
    by (simp_all add: tb(3) sst_described_def)
  have n: "length (vs_tables ?v) < 2147483648"
  proof -
    have "0 < om_size ?m" using w(1) by (simp add: sst_writable_def om_size_def entries_eq_Nil)
    moreover have "length (vs_tables ?v) = length maps"
      using lsm_holds_tables(4) [OF h] by (simp flip: hd(6))
    ultimately show ?thesis
      using lsm_holds_tables(7) [OF h] w(5) room(4) by (simp add: lsm_entries_def)
  qed
  have wf': "version_wf (next_version ?v ?nm ?st)"
    using version_wf_flush [OF wf tbwf, of ?nm] tbf hd(5) w(2) n small by simp
  obtain high where pub: "published crc ?d (?v\<lparr>vs_table_id_high_watermark := high\<rparr>)"
    using hd(4) by (auto simp: version_on_disk_def)
  have pub1: "published crc ?d1 (?v\<lparr>vs_table_id_high_watermark := high\<rparr>)"
    using published_frame [OF pub, of ?d1] by simp
  have hs: "dk_faults ?d1 = []" "disk_read ?d1 (manifest_file_name ?nm) = None" "0 < ?nm"
    using hd(3) fresh(2) lsm_holds_ids(2) [OF h] by simp_all
  obtain d2 where d2: "manifest_install crc ?v ?nm ?st ?d1 = (Inr (next_version ?v ?nm ?st), d2)"
    "published crc d2 (next_version ?v ?nm ?st)" "dk_faults d2 = []"
    "\<forall>name. name \<noteq> CURRENT_FILE_NAME \<longrightarrow> name \<noteq> manifest_file_name ?nm \<longrightarrow> disk_read d2 name = disk_read ?d1 name"
    using manifest_install_ok [OF hs(1) pub1 hs(2,3) _ _ _ room(3) wf'] small w(2)
    by (elim meta_impE; (elim exE conjE)?) (simp | rule that; assumption)+
  let ?e = "e\<lparr>le_disk := d2, le_instrumentation := le_instrumentation e
       \<lparr>li_flushes := saturating_add64 (li_flushes (le_instrumentation e)) 1,
        li_flush_sstable_bytes_written := saturating_add64 (li_flush_sstable_bytes_written (le_instrumentation e))
          (sd_file_bytes (st_descriptor tb))\<rparr>,
     le_tables := le_tables e @ [tb], le_version := next_version ?v ?nm ?st,
     le_next_table_id := ?nt + 1, le_next_manifest_id := ?nm + 1,
     le_memtables := le_memtables e\<lparr>ms_immutable := ts\<rparr>\<rparr>"
  have run: "lsm_flush_oldest crc ?m ?dur e = (Inr (), ?e)"
    using small lsm_holds_ids(1) [OF h] imm tb(1) d2(1)
    by (simp add: lsm_flush_oldest_def lsm_ensure_version_set_def lsm_flush_table_def checked_add64_def Let_def
        mts_retire_oldest_immutable_def)
  have reads: "disk_read d2 (sst_file_name i) = (if i = ?nt then Some (st_bytes tb) else disk_read ?d (sst_file_name i))"
    "disk_read d2 (wal_file_name i) = disk_read ?d (wal_file_name i)" for i
    using d2(4) by simp_all
  have old: "tables_hold crc d2 (le_tables e) maps"
    using tables_hold_frame [OF hd(7), of d2] lsm_holds_ids(4) [OF h] reads(1) by fastforce
  have tables: "tables_hold crc d2 (le_tables e @ [tb]) (maps @ [?m])"
    by (rule tables_hold_snoc [OF old lsm_holds_tables(5) [OF h] tb(2)])
       (use w(2,4) tbf tb(4) reads(1) in \<open>auto simp: table_durable_def\<close>)
  have wal: "wal_on_disk crc d2 (next_version ?v ?nm ?st) w ms"
    using wal_on_disk_frame [OF hd(8)] w(3) reads(2) by (simp add: next_version_def)
  have replayed: "lsm_replayed ?dur (wal_first_sequence w) ms (le_memtables e\<lparr>ms_immutable := ts\<rparr>)"
    by (rule lsm_replay_flush [OF hd(9) lsm_holds_wal(1-3) [OF h] imm])
  have high: "vs_table_id_high_watermark (next_version ?v ?nm ?st) < ?nt + 1"
  proof -
    have "\<forall>t \<in> set (vs_tables ?v @ [st_descriptor tb]). sd_table_id t \<le> ?nt"
      using version_wf_table_ids [OF wf] hd(5) tbf(2) by fastforce
    then show ?thesis using hd(5) by (simp add: next_version_def less_Suc_eq_le fold_max_le del: fold_append)
  qed
  have names: "lsm_names d2 (?nt + 1) (?nm + 1) (le_next_wal_id e)"
    by (rule lsm_names_after [OF hd(10)])
       (use d2(4) room hd(10) fresh reads in \<open>simp_all add: lsm_names_def\<close>)
  have "lsm_holds crc ?e w ms (maps @ [?m])"
    using hd(1,2,3,6) d2(2,3) tables wal replayed high names
    by (simp add: lsm_holds_def version_on_disk_published) (simp add: next_version_def)
  moreover have "lsm_progress e maps ?e (maps @ [?m]) 1 1 0 1"
  proof -
    have "table_chain (le_tables e @ [tb]) (maps @ [?m]) = table_chain (le_tables e) maps @ [(table_durable tb, ?m)]"
      using lsm_holds_tables(4) [OF h] by (simp add: table_chain_def)
    moreover have "mts_get (le_memtables e) k = (case mts_get (le_memtables e\<lparr>ms_immutable := ts\<rparr>) k of
        None \<Rightarrow> om_lookup ?m k | Some x \<Rightarrow> Some x)" for k
      using mts_retire_ok [OF lsm_holds_memtables(1) [OF h] imm] imm
      by (auto simp: mts_retire_oldest_immutable_def)
    ultimately have "lsm_lookup ?e (maps @ [?m]) k = lsm_lookup e maps k" for k
      by (simp add: lsm_lookup_def chain_find_simps split: option.split)
    then show ?thesis
      using w(5) tbf(4) by (simp add: lsm_progress_def next_version_def lsm_entries_def)
  qed
  ultimately show ?thesis using run by (intro exI [of _ ?e]) simp
qed


subsection \<open>The flush loop\<close>

lemma lsm_flush_loop_ok:
  assumes "lsm_holds crc e w ms maps" "length (ms_immutable (le_memtables e)) = n"
    and "le_next_table_id e + n \<le> max_file_id" "le_next_manifest_id e + n \<le> max_file_id"
      "vs_current_generation (le_version e) + n \<le> u64_max" "lsm_entries e \<le> 2147483648"
  shows "\<exists>e' maps'. lsm_flush_loop crc e = (Inr (), e') \<and> lsm_holds crc e' w ms maps' \<and>
    lsm_progress e maps e' maps' n n 0 n \<and> ms_immutable (le_memtables e') = []"
  using assms
proof (induction n arbitrary: e maps)
  case 0
  then show ?case
    by (intro exI [of _ e] exI [of _ maps])
       (simp add: lsm_flush_loop.simps mts_oldest_immutable_snapshot_def lsm_progress_refl)
next
  case (Suc n)
  then obtain t ts where imm: "ms_immutable (le_memtables e) = t # ts" "length ts = n"
    by (auto simp: length_Suc_conv)
  obtain e1 where e1: "lsm_flush_oldest crc (mt_entries t) (last_of (vs_durable_sequence (le_version e)) t) e = (Inr (), e1)"
    "lsm_holds crc e1 w ms (maps @ [mt_entries t])" "lsm_progress e maps e1 (maps @ [mt_entries t]) 1 1 0 1"
    "le_memtables e1 = le_memtables e\<lparr>ms_immutable := ts\<rparr>"
    using lsm_flush_oldest_ok [OF Suc.prems(1) imm(1)] Suc.prems(3-6) by auto
  obtain e2 maps2 where e2: "lsm_flush_loop crc e1 = (Inr (), e2)" "lsm_holds crc e2 w ms maps2"
    "lsm_progress e1 (maps @ [mt_entries t]) e2 maps2 n n 0 n" "ms_immutable (le_memtables e2) = []"
    using Suc.IH [OF e1(2)] e1(3,4) imm(2) Suc.prems(3-6) by (fastforce simp: lsm_progress_def)
  have "mts_oldest_immutable_snapshot (le_memtables e) =
      Inr (Some (mt_entries t, last_of (vs_durable_sequence (le_version e)) t))"
    using mts_retire_ok [OF lsm_holds_memtables(1) [OF Suc.prems(1)] imm(1)] by blast
  then have "lsm_flush_loop crc e = (Inr (), e2)"
    using e1(1) e2(1) by (subst lsm_flush_loop.simps) simp
  moreover have "lsm_progress e maps e2 maps2 (Suc n) (Suc n) 0 (Suc n)"
    using lsm_progress_trans [OF e1(3) e2(3)] by simp
  ultimately show ?case using e2 by blast
qed


subsection \<open>Compaction\<close>

lemma find_map_Some_member: "find_map f xs = Some y \<Longrightarrow> \<exists>x \<in> set xs. f x = Some y"
  by (induction xs) (auto split: option.splits)

lemma lsm_merged:
  assumes h: "lsm_holds crc e w ms maps" and n: "lsm_entries e \<le> 2147483648" and ne: "maps \<noteq> []"
  shows "\<exists>n merged. lsm_overlay_tables crc (le_tables e) [] None = Inr (n, merged) \<and> merged \<noteq> om_empty \<and>
    om_size merged \<le> sum_list (map sd_entry_count (vs_tables (le_version e))) \<and>
    (\<forall>k. om_lookup merged k = chain_find (table_chain (le_tables e) maps) k) \<and>
    (\<forall>k x. om_lookup merged k = Some x \<longrightarrow> entry_wf k x \<and> 0 < ve_sequence x \<and>
       ve_sequence x \<le> vs_durable_sequence (le_version e))"
proof -
  let ?chain = "table_chain (le_tables e) maps"
  let ?merged = "overlay_chain ?chain om_empty"
  note t = lsm_holds_tables [OF h]
  have small: "\<forall>m \<in> set maps. om_size m \<le> u64_max"
    using lsm_holds_small(1) [OF h n] by (auto simp: u64_max_def)
  obtain n' where n': "lsm_overlay_tables crc (le_tables e) [] None = Inr (n', ?merged)"
    using lsm_overlay_denoted [OF t(1) small, of "[]" None] by auto
  have look: "om_lookup ?merged k = chain_find ?chain k" for k
    by (rule overlay_chain_empty [OF t(2)])
  have member: "\<exists>m \<in> set maps. om_lookup m k = Some x" if "chain_find ?chain k = Some x" for k x
    using that unfolding chain_find_table_chain [OF t(4)]
    by (metis find_map_Some_member set_rev)
  have "om_size ?merged \<le> sum_list (map om_size maps)"
  proof -
    have "map (\<lambda>(hi, m). om_size m) ?chain = map om_size (map snd ?chain)" by (simp add: case_prod_unfold)
    also have "map snd ?chain = maps" using t(4) by (simp add: table_chain_def)
    finally show ?thesis using om_size_overlay_chain [of ?chain om_empty] by simp
  qed
  then have size: "om_size ?merged \<le> sum_list (map sd_entry_count (vs_tables (le_version e)))" using t(6) by simp
  have "?merged \<noteq> om_empty"
  proof -
    have "hd maps \<noteq> om_empty" using t(1) ne by (cases maps) (auto simp: list_all2_Cons2 sst_denotes_def)
    then obtain k x where "om_lookup (hd maps) k = Some x" by (auto simp: ordmap_eq_iff fun_eq_iff)
    then have "chain_find ?chain k \<noteq> None"
      unfolding chain_find_table_chain [OF t(4)] using ne by (cases maps) (auto simp: find_map_append split: option.splits)
    then show ?thesis using look [of k] by auto
  qed
  then show ?thesis
    using n' size look member t(3,5) chain_find_bound [OF t(2)]
    by (intro exI [of _ n'] exI [of _ ?merged]) (metis (no_types, lifting) le_trans)
qed

lemma manifest_install_split:
  assumes "manifest_install crc v nid st d = (Inr v', d2)"
  shows "\<exists>d1. prepare_install crc v nid st d = (Inr v', d1) \<and> publish_prepared crc v' d1 = (Inr (), d2)"
  using assms by (auto simp: manifest_install_def split: prod.splits sum.splits)

text \<open>Installing a version and mirroring it, as compaction and rotation do.\<close>

lemma install_and_mirror:
  assumes quiet: "dk_faults d = []" and v: "version_on_disk crc d v"
    and new: "disk_read d (manifest_file_name nid) = None" "0 < nid" "nid \<le> u64_max"
    and st: "mn_durable_sequence st \<ge> vs_durable_sequence v" "mn_tombstone_gc_sequence st \<ge> vs_tombstone_gc_sequence v"
      "vs_current_generation v + 2 \<le> u64_max" "version_wf (next_version v nid st)"
  defines "v1 \<equiv> next_version v nid st"
  defines "v2 \<equiv> v1\<lparr>vs_current_generation := vs_current_generation v + 2\<rparr>"
  shows "\<exists>d1 d2 d3. prepare_install crc v nid st d = (Inr v1, d1) \<and> publish_prepared crc v1 d1 = (Inr (), d2) \<and>
    manifest_install crc v nid st d = (Inr v1, d2) \<and>
    mirror_current crc v1 d2 = (Inr v2, d3) \<and> published crc d3 v2 \<and> dk_faults d3 = [] \<and>
    (\<forall>name. name \<noteq> CURRENT_FILE_NAME \<longrightarrow> name \<noteq> manifest_file_name nid \<longrightarrow> disk_read d3 name = disk_read d name)"
proof -
  obtain high where pub: "published crc d (v\<lparr>vs_table_id_high_watermark := high\<rparr>)"
    using v by (auto simp: version_on_disk_def)
  have g: "vs_current_generation v + 1 \<le> u64_max" using st(3) by simp
  obtain d2 where d2: "manifest_install crc v nid st d = (Inr v1, d2)" "published crc d2 v1" "dk_faults d2 = []"
    "\<forall>name. name \<noteq> CURRENT_FILE_NAME \<longrightarrow> name \<noteq> manifest_file_name nid \<longrightarrow> disk_read d2 name = disk_read d name"
    using manifest_install_ok [OF quiet pub new st(1,2) g st(4)] unfolding v1_def by blast
  obtain d1 where d1: "prepare_install crc v nid st d = (Inr v1, d1)" "publish_prepared crc v1 d1 = (Inr (), d2)"
    using manifest_install_split [OF d2(1)] by blast
  have g1: "vs_current_generation v1 = vs_current_generation v + 1" by (simp add: v1_def next_version_def)
  then obtain bs where bs: "mirror_current crc v1 d2 = (Inr v2, disk_set CURRENT_FILE_NAME bs d2)"
    "published crc (disk_set CURRENT_FILE_NAME bs d2) v2"
    using mirror_current_ok [OF d2(3,2)] st(3) by (auto simp: v2_def)
  show ?thesis
    using d1 d2 bs by (intro exI [of _ d1] exI [of _ d2] exI [of _ "disk_set CURRENT_FILE_NAME bs d2"]) simp
qed

text \<open>The state after the compacted tables are in force, whatever obsolete files remain.\<close>

lemma lsm_publish_compacted_ok:
  assumes h: "lsm_holds crc e w ms maps" and d: "dk_faults (le_disk e1) = []"
      "\<forall>name. name \<noteq> sst_file_name (le_next_table_id e) \<longrightarrow> disk_read (le_disk e1) name = disk_read (le_disk e) name"
    and e1: "le_version e1 = le_version e" "le_next_manifest_id e1 = le_next_manifest_id e" "le_wal e1 = le_wal e"
      "le_memtables e1 = le_memtables e" "le_next_wal_id e1 = le_next_wal_id e" "\<not> le_poisoned e1"
    and ts: "ts = (case table of None \<Rightarrow> [] | Some t \<Rightarrow> [t])" "tables_hold crc (le_disk e1) ts maps'"
      "\<And>t. table = Some t \<Longrightarrow> desc_wf (st_descriptor t) \<and> sd_level (st_descriptor t) = 1 \<and>
         sd_durable_sequence (st_descriptor t) = vs_durable_sequence (le_version e) \<and>
         sd_table_id (st_descriptor t) = le_next_table_id e \<and> nt' = le_next_table_id e + 1"
      "table = None \<Longrightarrow> nt' = le_next_table_id e \<and> disk_read (le_disk e1) (sst_file_name nt') = None"
    and room: "nt' \<le> max_file_id" "le_next_manifest_id e + 1 \<le> max_file_id" "vs_current_generation (le_version e) + 2 \<le> u64_max"
  shows "\<exists>e'. lsm_publish_compacted crc e1 table nt' (le_next_manifest_id e + 1) = (Inr (), e') \<and>
    lsm_holds crc e' w ms maps' \<and> le_memtables e' = le_memtables e \<and> le_tables e' = ts \<and> le_next_table_id e' = nt' \<and>
    le_next_manifest_id e' = le_next_manifest_id e + 1 \<and> le_next_wal_id e' = le_next_wal_id e \<and>
    vs_current_generation (le_version e') = vs_current_generation (le_version e) + 2 \<and>
    vs_tables (le_version e') = map st_descriptor ts \<and>
    vs_tombstone_gc_sequence (le_version e') = vs_durable_sequence (le_version e)"
proof -
  let ?v = "le_version e" and ?d = "le_disk e1" and ?nm = "le_next_manifest_id e" and ?nt = "le_next_table_id e"
  let ?st = "\<lparr>mn_durable_sequence = vs_durable_sequence ?v, mn_tombstone_gc_sequence = vs_durable_sequence ?v,
     mn_wal_id = vs_wal_id ?v, mn_wal_first_sequence = vs_wal_first_sequence ?v, mn_tables = map st_descriptor ts\<rparr>"
  note hd = lsm_holdsD [OF h] and ids = lsm_holds_ids [OF h]
  note fresh = lsm_names_fresh [OF hd(10)] and wf = version_on_disk_facts(1) [OF hd(4)]
  have small: "?nm \<le> u64_max" using room(2) by (simp add: max_file_id_def u64_max_def)
  have v: "version_on_disk crc ?d ?v" using version_on_disk_frame [OF hd(4)] d(2) by simp
  have mts: "map st_descriptor ts = [] \<or> (\<exists>t. map st_descriptor ts = [st_descriptor t] \<and> table = Some t)"
    using ts(1) by (cases table) simp_all
  have wf': "version_wf (next_version ?v ?nm ?st)"
    by (rule version_wf_compact [OF wf _ small, where t = "st_descriptor (the table)"]) (use mts ts(3) in auto)
  let ?v1 = "next_version ?v ?nm ?st"
  let ?v2 = "?v1\<lparr>vs_current_generation := vs_current_generation ?v + 2\<rparr>"
  have new: "disk_read ?d (manifest_file_name ?nm) = None" "0 < ?nm" using fresh(2) d(2) ids by simp_all
  have st: "vs_durable_sequence ?v \<le> mn_durable_sequence ?st" "vs_tombstone_gc_sequence ?v \<le> mn_tombstone_gc_sequence ?st"
    using wf by (simp_all add: version_wf_iff)
  obtain d1 d2 d3 where run: "prepare_install crc ?v ?nm ?st ?d = (Inr ?v1, d1)" "publish_prepared crc ?v1 d1 = (Inr (), d2)"
      "mirror_current crc ?v1 d2 = (Inr ?v2, d3)"
    and d3: "published crc d3 ?v2" "dk_faults d3 = []"
      "\<forall>name. name \<noteq> CURRENT_FILE_NAME \<longrightarrow> name \<noteq> manifest_file_name ?nm \<longrightarrow> disk_read d3 name = disk_read ?d name"
    using install_and_mirror [OF d(1) v new small st room(3) wf'] by blast
  let ?act = "map_option (\<lambda>t. sd_table_id (st_descriptor t)) table"
  let ?d5 = "lsm_reclaim_obsolete_manifests ?nm (lsm_reclaim_obsolete_sstables ?act d3)"
  have id2: "vs_manifest_id ?v2 = ?nm" by (simp add: next_version_def)
  let ?e = "e1\<lparr>le_disk := ?d5, le_tables := ts, le_version := ?v2, le_next_table_id := nt',
     le_next_manifest_id := ?nm + 1\<rparr>"
  have result: "lsm_publish_compacted crc e1 table nt' (?nm + 1) = (Inr (), ?e)"
    unfolding lsm_publish_compacted_def Let_def e1 using run id2 by (simp flip: ts(1))
  have pub: "published crc ?d5 ?v2" using published_frame [OF d3(1), of ?d5] id2 by simp
  have keep: "disk_read ?d5 name \<in> {None, disk_read d3 name}" for name
    using reclaim_reads(1) [of ?act d3 name] reclaim_reads(2) [of ?nm "lsm_reclaim_obsolete_sstables ?act d3" name] by auto
  have tables: "tables_hold crc ?d5 ts maps'"
    by (rule tables_hold_frame [OF ts(2)]) (use ts(1) d3(3) in \<open>auto split: option.splits\<close>)
  have wal: "wal_on_disk crc ?d5 ?v2 w ms"
    using wal_on_disk_frame [OF hd(8)] wal_on_diskD(5) [OF hd(8)] d3(3) d(2) by (simp add: next_version_def)
  have old_high: "vs_table_id_high_watermark ?v < nt'" and nt: "?nt \<le> nt'"
    using hd(5) ts(3,4) by (cases table; fastforce)+
  have high: "vs_table_id_high_watermark ?v2 < nt'"
    using old_high ts(1,3) by (cases table) (simp_all add: next_version_def)
  have gone: "disk_read ?d5 (sst_file_name ?nt) = None" if "nt' = ?nt"
    using that ts(3,4) keep [of "sst_file_name ?nt"] d3(3) by (cases table) auto
  have names: "lsm_names ?d5 nt' (?nm + 1) (le_next_wal_id e)"
  proof (rule lsm_names_after [OF hd(10)])
    fix name assume "name \<noteq> CURRENT_FILE_NAME" "name \<noteq> manifest_file_name ?nm" "name \<noteq> sst_file_name ?nt"
      "name \<noteq> wal_file_name (le_next_wal_id e)"
    then show "disk_read ?d5 name \<in> {None, disk_read (le_disk e) name}"
      using keep [of name] d3(3) d(2) by simp
  next
    show "disk_read ?d5 (wal_file_name (le_next_wal_id e)) = None" using fresh(3) d3(3) d(2) by simp
  qed (use gone nt room hd(10) in \<open>simp_all add: lsm_names_def\<close>)
  have "lsm_holds crc ?e w ms maps'"
    using hd(1,9) e1 pub d3(2) tables wal high names
    by (simp add: lsm_holds_def version_on_disk_published) (simp add: next_version_def)
  then show ?thesis
    using result e1 by (intro exI [of _ ?e]) (simp add: next_version_def)
qed

lemma lsm_instrumentation_lookup [simp]:
  "lsm_lookup (e\<lparr>le_instrumentation := li\<rparr>) maps k = lsm_lookup e maps k"
  "lsm_entries (e\<lparr>le_instrumentation := li\<rparr>) = lsm_entries e"
  by (simp_all add: lsm_lookup_def lsm_entries_def split: option.split)

lemma lsm_instrumentation_irrelevant [simp]:
  "lsm_holds crc (e\<lparr>le_instrumentation := li\<rparr>) w ms maps = lsm_holds crc e w ms maps"
  "lsm_progress (e\<lparr>le_instrumentation := li\<rparr>) maps e' maps' a b c g = lsm_progress e maps e' maps' a b c g"
  "lsm_progress e maps (e'\<lparr>le_instrumentation := li\<rparr>) maps' a b c g = lsm_progress e maps e' maps' a b c g"
  by (simp_all add: lsm_holds_def lsm_progress_def)

text \<open>The level-one run that replaces the tables: written when a live value survives.\<close>

lemma lsm_create_compacted_ok:
  assumes h: "lsm_holds crc e w ms maps" and room: "le_next_table_id e + 1 \<le> max_file_id"
    and m: "om_size m \<le> 2147483648" "\<forall>k x. om_lookup m k = Some x \<longrightarrow> entry_wf k x \<and> 0 < ve_sequence x \<and>
      ve_sequence x \<le> vs_durable_sequence (le_version e)"
  defines "nt \<equiv> le_next_table_id e"
  shows "\<exists>table nt' e1 li maps'. lsm_create_compacted crc e m = (Inr (table, nt'), e1) \<and>
    e1 = e\<lparr>le_disk := le_disk e1, le_instrumentation := li\<rparr> \<and> dk_faults (le_disk e1) = [] \<and>
    (\<forall>name. name \<noteq> sst_file_name nt \<longrightarrow> disk_read (le_disk e1) name = disk_read (le_disk e) name) \<and>
    tables_hold crc (le_disk e1) (case table of None \<Rightarrow> [] | Some t \<Rightarrow> [t]) maps' \<and>
    (\<forall>k. chain_find (table_chain (case table of None \<Rightarrow> [] | Some t \<Rightarrow> [t]) maps') k = om_lookup m k) \<and>
    (\<forall>t. table = Some t \<longrightarrow> desc_wf (st_descriptor t) \<and> sd_level (st_descriptor t) = 1 \<and>
       sd_durable_sequence (st_descriptor t) = vs_durable_sequence (le_version e) \<and>
       sd_entry_count (st_descriptor t) = om_size m \<and>
       sd_table_id (st_descriptor t) = nt \<and> nt' = nt + 1) \<and>
    (table = None \<longrightarrow> nt' = nt \<and> disk_read (le_disk e1) (sst_file_name nt') = None)"
proof (cases "m = om_empty")
  case True
  note fresh = lsm_names_fresh(1) [OF lsm_holdsD(10) [OF h]]
  have "e = e\<lparr>le_disk := le_disk e, le_instrumentation := le_instrumentation e\<rparr>" by simp
  moreover have "tables_hold crc (le_disk e) [] []" by (simp add: tables_hold_def table_chain_def)
  ultimately show ?thesis
    using True fresh lsm_holdsD(3) [OF h]
    by (intro exI [of _ None] exI [of _ nt] exI [of _ e] exI [of _ "le_instrumentation e"] exI [of _ "[]"])
       (simp add: lsm_create_compacted_def nt_def table_chain_def chain_find_simps)
next
  case False
  note hd = lsm_holdsD [OF h]
  note fresh = lsm_names_fresh [OF hd(10)] and wf = version_on_disk_facts(1) [OF hd(4)]
  let ?dur = "vs_durable_sequence (le_version e)"
  have dur: "?dur \<le> u64_max" using wf by (simp add: version_wf_iff)
  have small: "nt + 1 \<le> u64_max" using room by (simp add: nt_def max_file_id_def u64_max_def)
  have w: "sst_writable ?dur m"
    using False m dur by (auto simp: sst_writable_def seqs_upto_def set_entries)
  obtain k x where kx: "om_lookup m k = Some x" using False by (auto simp: ordmap_eq_iff fun_eq_iff)
  then have dur0: "0 < ?dur" using m(2) by fastforce
  obtain tb where tb: "sst_create_new_at_level crc (le_disk e) nt 1 ?dur m =
        (Inr tb, disk_set (sst_file_name nt) (st_bytes tb) (le_disk e))"
    "sst_denotes crc tb m" "st_descriptor tb = sst_described nt 1 (length (st_bytes tb)) ?dur m"
    "sst_open crc (Some (st_bytes tb)) (st_descriptor tb) = Inr tb" "0 < length (st_bytes tb)" "length (st_bytes tb) \<le> u64_max"
    using sst_create_ok [OF w _ _ fresh(1) hd(3), where version = 2 and level = 1 and crc = crc] small
    by (auto simp: sst_create_new_at_level_def SST_FORMAT_VERSION_def nt_def)
  have tbf: "sd_level (st_descriptor tb) = 1" "sd_table_id (st_descriptor tb) = nt"
    "sd_durable_sequence (st_descriptor tb) = ?dur" "sd_entry_count (st_descriptor tb) = om_size m"
    by (simp_all add: tb(3) sst_described_def)
  have tbwf: "desc_wf (st_descriptor tb)"
    unfolding tb(3) using desc_wf_described [OF w, of 1 nt "length (st_bytes tb)"] tb(5,6) small hd(5) dur0
    by (simp add: nt_def)
  let ?d1 = "disk_set (sst_file_name nt) (st_bytes tb) (le_disk e)"
  let ?li = "(le_instrumentation e)\<lparr>li_compaction_output_sstable_bytes_written :=
       saturating_add64 (li_compaction_output_sstable_bytes_written (le_instrumentation e)) (sd_file_bytes (st_descriptor tb))\<rparr>"
  let ?e1 = "e\<lparr>le_disk := ?d1, le_instrumentation := ?li\<rparr>"
  have run: "lsm_create_compacted crc e m = (Inr (Some tb, nt + 1), ?e1)"
    using False small tb(1) by (simp add: lsm_create_compacted_def lsm_checked_next_id_def checked_add64_def nt_def)
  have "tables_hold crc ?d1 ([] @ [tb]) ([] @ [m])"
    by (rule tables_hold_snoc [where lo = 0])
       (use tb(2,4) m(2) tbf in \<open>simp_all add: tables_hold_def table_chain_def table_durable_def\<close>)
  moreover have "chain_find (table_chain [tb] [m]) k = om_lookup m k" for k
    using chain_find_simps(2) [of "[]" "table_durable tb" m k] by (simp add: table_chain_def chain_find_simps split: option.split)
  ultimately show ?thesis
    using run hd(3) tbf tbwf
    by (intro exI [of _ "Some tb"] exI [of _ "nt + 1"] exI [of _ ?e1] exI [of _ ?li] exI [of _ "[m]"]) simp
qed

lemma lsm_compact_ok:
  assumes h: "lsm_holds crc e w ms maps" and ne: "le_tables e \<noteq> []"
    and room: "le_next_table_id e + 1 \<le> max_file_id" "le_next_manifest_id e + 1 \<le> max_file_id"
      "vs_current_generation (le_version e) + 2 \<le> u64_max" "lsm_entries e \<le> 2147483648"
  shows "\<exists>e' maps'. lsm_compact_level0_after_trigger crc e = (Inr (), e') \<and> lsm_holds crc e' w ms maps' \<and>
    lsm_progress e maps e' maps' 1 1 0 2 \<and> le_memtables e' = le_memtables e \<and> length (le_tables e') \<le> 1 \<and>
    vs_tombstone_gc_sequence (le_version e') = vs_durable_sequence (le_version e) \<and>
    (\<forall>t \<in> set (le_tables e'). sd_level (st_descriptor t) = 1) \<and>
    (\<forall>k x. chain_find (table_chain (le_tables e') maps') k = Some x \<longrightarrow> ve_value x \<noteq> None)"
proof -
  let ?v = "le_version e" and ?nm = "le_next_manifest_id e" and ?nt = "le_next_table_id e"
  note hd = lsm_holdsD [OF h] and t = lsm_holds_tables [OF h]
  have "maps \<noteq> []" using ne t(4) by auto
  then obtain n merged where mg: "lsm_overlay_tables crc (le_tables e) [] None = Inr (n, merged)" "merged \<noteq> om_empty"
    "om_size merged \<le> sum_list (map sd_entry_count (vs_tables ?v))"
    "\<forall>k. om_lookup merged k = chain_find (table_chain (le_tables e) maps) k"
    "\<forall>k x. om_lookup merged k = Some x \<longrightarrow> entry_wf k x \<and> 0 < ve_sequence x \<and> ve_sequence x \<le> vs_durable_sequence ?v"
    using lsm_merged [OF h room(4)] by blast
  let ?m = "om_filter (\<lambda>_ x. ve_value x \<noteq> None) merged"
  have small: "?nm + 1 \<le> u64_max" using room(2) by (simp add: max_file_id_def u64_max_def)
  have no_late: "\<not> list_ex (\<lambda>(_, x). ve_sequence x > vs_durable_sequence ?v) (entries merged)"
    using mg(5) by (force simp: list_ex_iff set_entries)
  have first: "rbind (lsm_overlay_tables crc (le_tables e) [] None) (\<lambda>(_, merged).
       rbind (ensure (merged \<noteq> om_empty) (Corruption 0)) (\<lambda>_.
       rbind (lsm_checked_next_id (le_next_manifest_id e)) (\<lambda>next_manifest_id.
       rbind (ensure (\<not> list_ex (\<lambda>(_, entry). ve_sequence entry > vs_durable_sequence ?v) (entries merged)) (Corruption 0)) (\<lambda>_.
       Inr (om_filter (\<lambda>_ entry. ve_value entry \<noteq> None) merged, next_manifest_id))))) = Inr (?m, ?nm + 1)"
    using mg(1,2) no_late small by (simp add: lsm_checked_next_id_def checked_add64_def ensure_def)
  have size: "om_size ?m \<le> sum_list (map sd_entry_count (vs_tables ?v))"
    using om_size_filter_le [of _ merged] mg(3) order.trans by blast
  have m: "om_size ?m \<le> 2147483648" "\<forall>k x. om_lookup ?m k = Some x \<longrightarrow> entry_wf k x \<and> 0 < ve_sequence x \<and>
      ve_sequence x \<le> vs_durable_sequence ?v"
    using size room(4) mg(5) by (auto simp: lsm_entries_def om_lookup_filter split: option.splits if_splits)
  obtain table nt' e1 li maps' where c: "lsm_create_compacted crc e ?m = (Inr (table, nt'), e1)"
    "e1 = e\<lparr>le_disk := le_disk e1, le_instrumentation := li\<rparr>" "dk_faults (le_disk e1) = []"
    "\<forall>name. name \<noteq> sst_file_name ?nt \<longrightarrow> disk_read (le_disk e1) name = disk_read (le_disk e) name"
    "tables_hold crc (le_disk e1) (case table of None \<Rightarrow> [] | Some t \<Rightarrow> [t]) maps'"
    "\<forall>k. chain_find (table_chain (case table of None \<Rightarrow> [] | Some t \<Rightarrow> [t]) maps') k = om_lookup ?m k"
    "\<forall>t. table = Some t \<longrightarrow> desc_wf (st_descriptor t) \<and> sd_level (st_descriptor t) = 1 \<and>
       sd_durable_sequence (st_descriptor t) = vs_durable_sequence ?v \<and>
       sd_entry_count (st_descriptor t) = om_size ?m \<and>
       sd_table_id (st_descriptor t) = ?nt \<and> nt' = ?nt + 1"
    "table = None \<longrightarrow> nt' = ?nt \<and> disk_read (le_disk e1) (sst_file_name nt') = None"
    using lsm_create_compacted_ok [OF h room(1) m] by (elim exE conjE) (rule that; assumption)
  let ?ts = "case table of None \<Rightarrow> [] | Some t \<Rightarrow> [t]"
  have e1: "le_version e1 = ?v" "le_next_manifest_id e1 = ?nm" "le_wal e1 = le_wal e" "le_memtables e1 = le_memtables e"
    "le_next_wal_id e1 = le_next_wal_id e" "\<not> le_poisoned e1"
    by (subst c(2), simp add: hd(2))+
  have nt': "nt' \<le> ?nt + 1" "nt' \<le> max_file_id" using c(7,8) room(1) by (cases table; simp)+
  obtain e' where e': "lsm_publish_compacted crc e1 table nt' (?nm + 1) = (Inr (), e')" "lsm_holds crc e' w ms maps'"
    "le_memtables e' = le_memtables e" "le_tables e' = ?ts" "le_next_table_id e' = nt'" "le_next_manifest_id e' = ?nm + 1"
    "le_next_wal_id e' = le_next_wal_id e" "vs_current_generation (le_version e') = vs_current_generation ?v + 2"
    "vs_tables (le_version e') = map st_descriptor ?ts"
    "vs_tombstone_gc_sequence (le_version e') = vs_durable_sequence ?v"
    using lsm_publish_compacted_ok [OF h c(3,4) e1 refl c(5) _ _ nt'(2) room(2,3)] c(7,8) by blast
  have "lsm_compact_level0_after_trigger crc e = (Inr (), e')"
    unfolding lsm_compact_level0_after_trigger_def first using c(1) e'(1) by simp
  moreover have "lsm_progress e maps e' maps' 1 1 0 2"
  proof -
    have "Option.bind (lsm_lookup e' maps' k) ve_value = Option.bind (lsm_lookup e maps k) ve_value" for k
      using c(6) mg(4) e'(3,4) by (auto simp: lsm_lookup_def om_lookup_filter split: option.splits)
    moreover have "sum_list (map sd_entry_count (vs_tables (le_version e'))) \<le> sum_list (map sd_entry_count (vs_tables ?v))"
      using size c(7) by (cases table) (simp_all add: e'(9))
    ultimately show ?thesis
      using e' nt'(1) lsm_holdsD(1) [OF e'(2)] hd(1) by (simp add: lsm_progress_def lsm_entries_def)
  qed
  moreover have "length (le_tables e') \<le> 1 \<and> (\<forall>t \<in> set (le_tables e'). sd_level (st_descriptor t) = 1)"
    using c(7) by (cases table) (simp_all add: e'(4))
  moreover have "\<forall>k x. chain_find (table_chain (le_tables e') maps') k = Some x \<longrightarrow> ve_value x \<noteq> None"
    using c(6) by (auto simp: e'(4) om_lookup_filter split: option.splits if_splits)
  ultimately show ?thesis using e'(2,3,10) by blast
qed

lemma lsm_maybe_compact_ok:
  assumes "lsm_holds crc e w ms maps" "le_next_table_id e + 1 \<le> max_file_id" "le_next_manifest_id e + 1 \<le> max_file_id"
    "vs_current_generation (le_version e) + 2 \<le> u64_max" "lsm_entries e \<le> 2147483648"
  shows "\<exists>e' maps'. lsm_maybe_compact_level0 crc e = (Inr (), e') \<and> lsm_holds crc e' w ms maps' \<and>
    lsm_progress e maps e' maps' 1 1 0 2 \<and> le_memtables e' = le_memtables e"
proof (cases "lsm_level_count 0 (vs_tables (le_version e)) < LEVEL0_COMPACTION_TRIGGER")
  case True
  then show ?thesis
    using assms(1) lsm_progress_refl by (auto simp: lsm_maybe_compact_level0_def)
next
  case False
  let ?e = "e\<lparr>le_instrumentation := (le_instrumentation e)
     \<lparr>li_compactions := saturating_add64 (li_compactions (le_instrumentation e)) 1,
      li_compaction_input_sstable_bytes := saturating_add64 (li_compaction_input_sstable_bytes (le_instrumentation e))
        (lsm_sum_bytes (vs_tables (le_version e)))\<rparr>\<rparr>"
  have "le_tables e \<noteq> []"
    using False lsm_holdsD(6) [OF assms(1)]
    by (auto simp: lsm_level_count_def LEVEL0_COMPACTION_TRIGGER_def)
  then show ?thesis
    using lsm_compact_ok [of crc ?e w ms maps] assms False by (auto simp: lsm_maybe_compact_level0_def)
qed


subsection \<open>Rotating the WAL\<close>

lemma lsm_drained:
  assumes h: "lsm_holds crc e w ms maps" and nx: "wal_next_sequence w = vs_durable_sequence (le_version e) + 1"
  shows "le_memtables e = lsm_fresh"
proof -
  have "lsm_replayed (vs_durable_sequence (le_version e)) (wal_first_sequence w) ms lsm_fresh"
    using lsm_holds_wal(4) [OF h] nx by (intro lsm_replay_skip) simp
  then show ?thesis using lsm_replayed_unique lsm_holdsD(9) [OF h] by blast
qed

lemma wal_holds_length:
  assumes "wal_holds crc w ms"
  shows "40 \<le> length (wal_disk w)" "ms = [] \<Longrightarrow> length (wal_disk w) = 40"
  using assms by (simp_all add: wal_holds_def wal_image_def)

lemma lsm_rotate_ok:
  assumes h: "lsm_holds crc e w ms maps" and nx: "wal_next_sequence w = vs_durable_sequence (le_version e) + 1"
    and room: "le_next_manifest_id e + 1 \<le> max_file_id" "le_next_wal_id e + 1 \<le> max_file_id"
      "vs_current_generation (le_version e) + 2 \<le> u64_max"
  shows "\<exists>e' w'. lsm_rotate_wal crc e (vs_durable_sequence (le_version e) + 1) = (Inr (), e') \<and>
    lsm_holds crc e' w' [] maps \<and> lsm_progress e maps e' maps 0 1 1 2 \<and> le_memtables e' = le_memtables e"
proof -
  let ?v = "le_version e" and ?d = "le_disk e" and ?nm = "le_next_manifest_id e" and ?nw = "le_next_wal_id e"
  let ?q = "vs_durable_sequence ?v + 1"
  let ?st = "\<lparr>mn_durable_sequence = vs_durable_sequence ?v, mn_tombstone_gc_sequence = vs_tombstone_gc_sequence ?v,
     mn_wal_id = ?nw, mn_wal_first_sequence = ?q, mn_tables = vs_tables ?v\<rparr>"
  note hd = lsm_holdsD [OF h] and ids = lsm_holds_ids [OF h]
  note fresh = lsm_names_fresh [OF hd(10)] and wf = version_on_disk_facts(1) [OF hd(4)]
  have small: "?nm + 1 \<le> u64_max" "?nw + 1 \<le> u64_max"
    using room(1,2) by (simp_all add: max_file_id_def u64_max_def)
  have pos: "0 < ?nw" "0 < ?nm" using hd(10) by (simp_all add: lsm_names_def)
  have q: "?q \<le> u64_max" using nx lsm_holds_wal(3,4) [OF h] by simp
  obtain w' where w': "wal_create_new crc None ?nw ?q = Inr w'" "wal_holds crc w' []" "wal_id w' = ?nw" "wal_first_sequence w' = ?q"
    using wal_create_new_ok [of ?nw ?q crc] pos small q by auto
  let ?d1 = "disk_set (wal_file_name ?nw) (wal_disk w') ?d"
  have create: "lsm_wal_create crc ?nw ?q ?d = (Inr w', ?d1)"
    using fresh(3) w'(1) hd(3) by (simp add: lsm_wal_create_def disk_create_quiet)
  have v1: "version_on_disk crc ?d1 ?v" using version_on_disk_frame [OF hd(4), of ?d1] by simp
  have hs: "dk_faults ?d1 = []" "disk_read ?d1 (manifest_file_name ?nm) = None" "?nm \<le> u64_max"
    using hd(3) fresh(2) small by simp_all
  have wf': "version_wf (next_version ?v ?nm ?st)"
    using version_wf_rotate [OF wf, of ?nm ?nw] pos small q by simp
  have st: "vs_durable_sequence ?v \<le> mn_durable_sequence ?st" "vs_tombstone_gc_sequence ?v \<le> mn_tombstone_gc_sequence ?st"
    by simp_all
  let ?v1 = "next_version ?v ?nm ?st"
  let ?v2 = "?v1\<lparr>vs_current_generation := vs_current_generation ?v + 2\<rparr>"
  obtain d2 d3 where run: "manifest_install crc ?v ?nm ?st ?d1 = (Inr ?v1, d2)" "mirror_current crc ?v1 d2 = (Inr ?v2, d3)"
    and d3: "published crc d3 ?v2" "dk_faults d3 = []"
      "\<forall>name. name \<noteq> CURRENT_FILE_NAME \<longrightarrow> name \<noteq> manifest_file_name ?nm \<longrightarrow> disk_read d3 name = disk_read ?d1 name"
    using install_and_mirror [OF hs(1) v1 hs(2) pos(2) hs(3) st room(3) wf'] by blast
  let ?d5 = "lsm_reclaim_obsolete_manifests ?nm (lsm_reclaim_obsolete_wals ?nw d3)"
  have id2: "vs_manifest_id ?v2 = ?nm" by (simp add: next_version_def)
  let ?e = "e\<lparr>le_disk := ?d5, le_wal := Some w', le_version := ?v2, le_next_wal_id := ?nw + 1, le_next_manifest_id := ?nm + 1\<rparr>"
  have result: "lsm_rotate_wal crc e ?q = (Inr (), ?e)"
    using create run id2 small by (simp add: lsm_rotate_wal_def lsm_checked_next_id_def checked_add64_def Let_def)
  have pub: "published crc ?d5 ?v2" using published_frame [OF d3(1), of ?d5] id2 by simp
  have keep: "disk_read ?d5 name \<in> {None, disk_read d3 name}" for name
    using reclaim_reads(3) [of ?nw d3 name] reclaim_reads(2) [of ?nm "lsm_reclaim_obsolete_wals ?nw d3" name] by auto
  have ssts: "disk_read ?d5 (sst_file_name i) = disk_read ?d (sst_file_name i)" for i using d3(3) by simp
  have tables: "tables_hold crc ?d5 (le_tables e) maps"
    using tables_hold_frame [OF hd(7)] ssts by blast
  have "disk_read ?d5 (wal_file_name ?nw) = Some (wal_disk w')" using d3(3) by simp
  moreover have "wal_next_sequence w' = ?q" using w' by (simp add: wal_holds_def)
  ultimately have wal: "wal_on_disk crc ?d5 ?v2 w' []"
    using w' by (simp add: wal_on_disk_def next_version_def)
  have names: "lsm_names ?d5 (le_next_table_id e) (?nm + 1) (?nw + 1)"
  proof (rule lsm_names_after [OF hd(10)])
    fix name assume "name \<noteq> CURRENT_FILE_NAME" "name \<noteq> manifest_file_name ?nm" "name \<noteq> sst_file_name (le_next_table_id e)"
      "name \<noteq> wal_file_name ?nw"
    then show "disk_read ?d5 name \<in> {None, disk_read ?d name}" using keep [of name] d3(3) by simp
  next
    show "disk_read ?d5 (sst_file_name (le_next_table_id e)) = None" using ssts fresh(1) by simp
  qed (use room hd(10) in \<open>simp_all add: lsm_names_def\<close>)
  have high: "vs_table_id_high_watermark ?v2 < le_next_table_id e"
  proof -
    have "vs_table_id_high_watermark ?v2 \<le> vs_table_id_high_watermark ?v"
      using version_wf_table_ids [OF wf] by (simp add: next_version_def fold_max_le)
    then show ?thesis using hd(5) by simp
  qed
  have "lsm_holds crc ?e w' [] maps"
    using hd(2,6) pub d3(2) tables wal high names lsm_drained [OF h nx]
    by (simp add: lsm_holds_def version_on_disk_published) (simp add: next_version_def)
  moreover have look: "lsm_lookup ?e maps k = lsm_lookup e maps k" for k
    by (rule lsm_lookup_cong) simp_all
  have "lsm_progress e maps ?e maps 0 1 1 2"
    unfolding lsm_progress_def look using hd(1) nx w'(2-4) wal_holds_length [OF w'(2)] wal_holds_length(1) [OF wal_on_diskD(1) [OF hd(8)]]
    by (simp add: lsm_entries_def next_version_def wal_holds_def)
  ultimately show ?thesis using result by (intro exI [of _ ?e] exI [of _ w']) simp
qed

lemma lsm_maybe_rotate_ok:
  assumes h: "lsm_holds crc e w ms maps"
    and room: "le_next_manifest_id e + 1 \<le> max_file_id" "le_next_wal_id e + 1 \<le> max_file_id"
      "vs_current_generation (le_version e) + 2 \<le> u64_max"
  shows "\<exists>e' w' ms'. lsm_maybe_rotate_wal crc e = (Inr (), e') \<and>
    lsm_holds crc e' w' ms' maps \<and> lsm_progress e maps e' maps 0 1 1 2 \<and> le_memtables e' = le_memtables e"
proof -
  let ?q = "vs_durable_sequence (le_version e) + 1"
  have q: "checked_add64 (vs_durable_sequence (le_version e)) 1 = Some ?q"
    using lsm_holds_memtables(3) [OF h] lsm_holds_wal(3,4) [OF h] by (simp add: checked_add64_def)
  show ?thesis
  proof (cases "wal_record_count w = 0 \<or> wal_next_sequence w \<noteq> ?q \<or> wal_first_sequence w = ?q")
    case True
    then have "lsm_maybe_rotate_wal crc e = (Inr (), e)"
      using q lsm_holdsD(1) [OF h] by (simp add: lsm_maybe_rotate_wal_def)
    then show ?thesis using h lsm_progress_refl by blast
  next
    case False
    then have "lsm_maybe_rotate_wal crc e = lsm_rotate_wal crc e ?q"
      using q lsm_holdsD(1) [OF h] by (simp add: lsm_maybe_rotate_wal_def)
    then show ?thesis using lsm_rotate_ok [OF h _ room] False by fastforce
  qed
qed


subsection \<open>The whole of \<open>flush_frozen_memtables\<close>\<close>

lemma lsm_flush_frozen_ok:
  assumes h: "lsm_holds crc e w ms maps" and n: "length (ms_immutable (le_memtables e)) = n"
    and room: "le_next_table_id e + n + 1 \<le> max_file_id" "le_next_manifest_id e + n + 2 \<le> max_file_id"
      "le_next_wal_id e + 1 \<le> max_file_id" "vs_current_generation (le_version e) + n + 4 \<le> u64_max"
      "lsm_entries e \<le> 2147483648"
  shows "\<exists>e' w' ms' maps'. lsm_flush_frozen_memtables crc e = (Inr (), e') \<and> lsm_holds crc e' w' ms' maps' \<and>
    lsm_progress e maps e' maps' (n + 1) (n + 2) 1 (n + 4) \<and> ms_immutable (le_memtables e') = []"
proof -
  obtain e1 maps1 where e1: "lsm_flush_loop crc e = (Inr (), e1)" "lsm_holds crc e1 w ms maps1"
    "lsm_progress e maps e1 maps1 n n 0 n" "ms_immutable (le_memtables e1) = []"
    using lsm_flush_loop_ok [OF h n] room by auto
  have b1: "le_next_table_id e1 \<le> le_next_table_id e + n" "le_next_manifest_id e1 \<le> le_next_manifest_id e + n"
    "le_next_wal_id e1 \<le> le_next_wal_id e" "vs_current_generation (le_version e1) \<le> vs_current_generation (le_version e) + n"
    "lsm_entries e1 \<le> lsm_entries e"
    using e1(3) by (simp_all add: lsm_progress_def)
  obtain e2 maps2 where e2: "lsm_maybe_compact_level0 crc e1 = (Inr (), e2)" "lsm_holds crc e2 w ms maps2"
    "lsm_progress e1 maps1 e2 maps2 1 1 0 2" "le_memtables e2 = le_memtables e1"
    using lsm_maybe_compact_ok [OF e1(2)] b1 room by auto
  have b2: "le_next_manifest_id e2 \<le> le_next_manifest_id e1 + 1"
    "le_next_wal_id e2 \<le> le_next_wal_id e1" "vs_current_generation (le_version e2) \<le> vs_current_generation (le_version e1) + 2"
    using e2(3) by (simp_all add: lsm_progress_def)
  obtain e3 w3 ms3 where e3: "lsm_maybe_rotate_wal crc e2 = (Inr (), e3)" "lsm_holds crc e3 w3 ms3 maps2"
    "lsm_progress e2 maps2 e3 maps2 0 1 1 2" "le_memtables e3 = le_memtables e2"
    using lsm_maybe_rotate_ok [OF e2(2)] b1 b2 room by auto
  have "lsm_flush_frozen_memtables crc e = (Inr (), e3)"
    using e1(1) e2(1) e3(1) by (simp add: lsm_flush_frozen_memtables_def)
  moreover have "lsm_progress e maps e3 maps2 (n + 1) (n + 2) 1 (n + 4)"
    using lsm_progress_trans [OF lsm_progress_trans [OF e1(3) e2(3)] e3(3)] by (simp add: numeral_eq_Suc)
  ultimately show ?thesis using e3(2,4) e2(4) e1(4) by auto
qed

end
