(* ===== verification/LsmCorrect.thy ===== *)
theory LsmCorrect
  imports LsmPhases
begin

text \<open>
  The LSM engine implements the ordered map: mutations, reads, scans and reopening on a running
  engine.  A mutation is durable in the WAL before it is visible, and reopening reads the same map
  back from the directory alone.
\<close>

lemma lsm_wal_append_ok:
  assumes h: "lsm_holds crc e w ms maps" and r: "record_wf (kind, key, val)"
    and room: "wal_next_sequence w + 1 \<le> u64_max" "length (wal_disk w) + 1052704 \<le> u64_max"
  shows "\<exists>w'. lsm_wal_append crc kind key val w (le_disk e) =
      (Inr (wal_next_sequence w), w', disk_set (wal_file_name (wal_id w)) (wal_disk w') (le_disk e)) \<and>
    wal_holds crc w' (ms @ [(kind, key, val)]) \<and> wal_id w' = wal_id w \<and>
    wal_first_sequence w' = wal_first_sequence w \<and> wal_next_sequence w' = wal_next_sequence w + 1 \<and>
    length (wal_disk w') \<le> length (wal_disk w) + 1052704"
proof -
  note hd = lsm_holdsD [OF h] and wd = wal_on_diskD [OF lsm_holdsD(8) [OF h]]
  obtain w' where w': "wal_append crc quiet_wal kind key val w = (Inr (wal_next_sequence w), w')"
    "wal_holds crc w' (ms @ [(kind, key, val)])" "wal_id w' = wal_id w" "wal_first_sequence w' = wal_first_sequence w"
    "wal_next_sequence w' = wal_next_sequence w + 1" "length (wal_disk w') \<le> length (wal_disk w) + 1052704"
    using wal_append_ok [OF wd(1) r] room by auto
  have "disk_next_fault (le_disk e) = (None, le_disk e)" using hd(3) by (simp add: disk_next_fault_def)
  then have "lsm_wal_append crc kind key val w (le_disk e) =
      (Inr (wal_next_sequence w), w', disk_set (wal_file_name (wal_id w)) (wal_disk w') (le_disk e))"
    using wd(2) w'(1) by (simp add: lsm_wal_append_def Let_def flip: quiet_wal_def)
  then show ?thesis using w' by blast
qed

text \<open>The engine right after the WAL append and the MemTable update.\<close>

lemma lsm_applied_ok:
  assumes h: "lsm_holds crc e w ms maps" and r: "record_wf (kind, key, val)"
    and w': "wal_holds crc w' (ms @ [(kind, key, val)])" "wal_id w' = wal_id w" "wal_first_sequence w' = wal_first_sequence w"
      "wal_next_sequence w' = wal_next_sequence w + 1"
    and room: "wal_next_sequence w + 1 \<le> u64_max"
  defines "v \<equiv> (case kind of MPut \<Rightarrow> Some val | MDelete \<Rightarrow> None)"
  defines "d \<equiv> disk_set (wal_file_name (wal_id w)) (wal_disk w') (le_disk e)"
  shows "\<exists>s. mts_apply (le_memtables e) (wal_next_sequence w) key v = Inr s \<and>
    lsm_holds crc (e\<lparr>le_disk := d, le_wal := Some w', le_memtables := s\<rparr>) w' (ms @ [(kind, key, val)]) maps \<and>
    mts_count s \<le> mts_count (le_memtables e) + 1 \<and>
    length (ms_immutable s) \<le> length (ms_immutable (le_memtables e)) + 1 \<and>
    (\<forall>k. mts_get s k = (if k = key then Some \<lparr>ve_sequence = wal_next_sequence w, ve_value = v\<rparr>
       else mts_get (le_memtables e) k))"
proof -
  let ?q = "wal_next_sequence w" and ?v = "le_version e"
  note hd = lsm_holdsD [OF h] and wd = wal_on_diskD [OF lsm_holdsD(8) [OF h]]
  note inv = lsm_holds_memtables [OF h]
  have q: "?q - 1 < ?q" "?q \<le> u64_max" using inv(3) room by simp_all
  obtain s where s: "mts_apply (le_memtables e) ?q key v = Inr s" "mts_count s \<le> mts_count (le_memtables e) + 1"
    "length (ms_immutable s) \<le> length (ms_immutable (le_memtables e)) + 1"
    "\<forall>k. mts_get s k = (if k = key then Some \<lparr>ve_sequence = ?q, ve_value = v\<rparr> else mts_get (le_memtables e) k)"
    using mts_apply_record [OF inv(1,2) q r] unfolding v_def by blast
  have replayed: "lsm_replayed (vs_durable_sequence ?v) (wal_first_sequence w') (ms @ [(kind, key, val)]) s"
    using hd(9) s(1) inv(3) lsm_holds_wal(4) [OF h] w'(3)
    by (auto simp: lsm_replayed_snoc lsm_replay_apply_eq v_def)
  have v: "version_on_disk crc d ?v" using version_on_disk_frame [OF hd(4), of d] by (simp add: d_def)
  have t: "tables_hold crc d (le_tables e) maps" by (rule tables_hold_frame [OF hd(7)]) (simp add: d_def)
  have wal: "wal_on_disk crc d ?v w' (ms @ [(kind, key, val)])"
    using w' wd(3,4,5) by (simp add: wal_on_disk_def d_def)
  have names: "lsm_names d (le_next_table_id e) (le_next_manifest_id e) (le_next_wal_id e)"
  proof (rule lsm_names_mono [OF hd(10)])
    show "\<forall>name. disk_read d name \<noteq> None \<longrightarrow> disk_read (le_disk e) name \<noteq> None \<or>
        lsm_name (le_next_table_id e) (le_next_manifest_id e) (le_next_wal_id e) name"
      using wd(2) by (auto simp: d_def split: if_splits)
  qed (use hd(10) in \<open>simp_all add: lsm_names_def\<close>)
  have "lsm_holds crc (e\<lparr>le_disk := d, le_wal := Some w', le_memtables := s\<rparr>) w' (ms @ [(kind, key, val)]) maps"
    using hd(2,3,5,6) v t wal names replayed by (simp add: lsm_holds_def) (simp add: d_def)
  then show ?thesis using s by blast
qed

definition mutated :: "bytes \<Rightarrow> bytes option \<Rightarrow> kv_state \<Rightarrow> kv_state" where
  "mutated key v m = (case v of Some x \<Rightarrow> om_insert key x m | None \<Rightarrow> om_remove key m)"

lemma lsm_persist_ok:
  assumes h: "lsm_holds crc e w ms maps" and room: "lsm_room (Suc n) e"
    and r: "record_wf (kind, key, case v of None \<Rightarrow> [] | Some x \<Rightarrow> x)" "kind = (case v of Some _ \<Rightarrow> MPut | None \<Rightarrow> MDelete)"
  shows "\<exists>e'. lsm_persist_and_apply crc e kind key v = (Inr (), e') \<and> lsm_invar crc e' \<and> lsm_room n e' \<and>
    lsm_abs crc e' = mutated key v (lsm_abs crc e)"
proof -
  note hd = lsm_holdsD [OF h]
  let ?x = "case v of None \<Rightarrow> [] | Some x \<Rightarrow> x" and ?q = "wal_next_sequence w"
    and ?frozen = "length (ms_immutable (le_memtables e))"
  have room': "le_next_table_id e + ?frozen + 2 * Suc n \<le> max_file_id" "le_next_manifest_id e + ?frozen + 3 * Suc n \<le> max_file_id"
    "le_next_wal_id e + Suc n \<le> max_file_id" "vs_current_generation (le_version e) + ?frozen + 5 * Suc n \<le> u64_max"
    "lsm_entries e + Suc n \<le> 2147483648" "?q + Suc n \<le> u64_max" "length (wal_disk w) + 1052704 * Suc n \<le> u64_max"
    using room hd(1) by (simp_all add: lsm_room_def Let_def)
  obtain w' where w': "lsm_wal_append crc kind key ?x w (le_disk e) =
        (Inr ?q, w', disk_set (wal_file_name (wal_id w)) (wal_disk w') (le_disk e))"
    "wal_holds crc w' (ms @ [(kind, key, ?x)])" "wal_id w' = wal_id w" "wal_first_sequence w' = wal_first_sequence w"
    "wal_next_sequence w' = ?q + 1" "length (wal_disk w') \<le> length (wal_disk w) + 1052704"
    using lsm_wal_append_ok [OF h r(1)] room'(6,7) by auto
  have v: "(case kind of MPut \<Rightarrow> Some ?x | MDelete \<Rightarrow> None) = v" using r(2) by (cases v) simp_all
  let ?d = "disk_set (wal_file_name (wal_id w)) (wal_disk w') (le_disk e)"
  have q1: "?q + 1 \<le> u64_max" using room'(6) by simp
  obtain s where s: "mts_apply (le_memtables e) ?q key v = Inr s"
    "lsm_holds crc (e\<lparr>le_disk := ?d, le_wal := Some w', le_memtables := s\<rparr>) w' (ms @ [(kind, key, ?x)]) maps"
    "mts_count s \<le> mts_count (le_memtables e) + 1" "length (ms_immutable s) \<le> ?frozen + 1"
    "\<forall>k. mts_get s k = (if k = key then Some \<lparr>ve_sequence = ?q, ve_value = v\<rparr> else mts_get (le_memtables e) k)"
    using lsm_applied_ok [OF h r(1) w'(2-5) q1] unfolding v by blast
  let ?li = "(le_instrumentation e)\<lparr>li_wal_record_bytes_written := saturating_add64 (li_wal_record_bytes_written (le_instrumentation e))
      (saturating_add64 (saturating_add64 WAL_RECORD_HEADER_LEN (length key)) (case v of None \<Rightarrow> 0 | Some x \<Rightarrow> length x))\<rparr>"
  let ?e0 = "e\<lparr>le_disk := ?d, le_wal := Some w', le_memtables := s\<rparr>"
  let ?e1 = "e\<lparr>le_disk := ?d, le_wal := Some w', le_instrumentation := ?li, le_memtables := s\<rparr>"
  have eq: "?e1 = ?e0\<lparr>le_instrumentation := ?li\<rparr>" by simp
  have h1: "lsm_holds crc ?e1 w' (ms @ [(kind, key, ?x)]) maps" unfolding eq using s(2) by simp
  have entries: "lsm_entries ?e1 \<le> lsm_entries e + 1" using s(3) by (simp add: lsm_entries_def)
  obtain e2 w2 ms2 maps2 where e2: "lsm_flush_frozen_memtables crc ?e1 = (Inr (), e2)" "lsm_holds crc e2 w2 ms2 maps2"
    "lsm_progress ?e1 maps e2 maps2 (length (ms_immutable s) + 1) (length (ms_immutable s) + 2) 1 (length (ms_immutable s) + 4)"
    "ms_immutable (le_memtables e2) = []"
    using lsm_flush_frozen_ok [OF h1 refl] room' s(4) entries by auto
  let ?e' = "e2\<lparr>le_instrumentation := (le_instrumentation e2)
      \<lparr>li_logical_mutations := saturating_add64 (li_logical_mutations (le_instrumentation e2)) 1,
       li_logical_mutation_bytes := saturating_add64 (li_logical_mutation_bytes (le_instrumentation e2))
         (saturating_add64 (length key) (case v of None \<Rightarrow> 0 | Some x \<Rightarrow> length x))\<rparr>\<rparr>"
  have run: "lsm_persist_and_apply crc e kind key v = (Inr (), ?e')"
    using hd(1,2) w'(1) s(1) e2(1) by (simp add: lsm_persist_and_apply_def lsm_ensure_usable_def Let_def)
  have h': "lsm_holds crc ?e' w2 ms2 maps2" using e2(2) by simp
  note p = e2(3) [unfolded lsm_progress_def]
  have entries': "lsm_entries ?e' \<le> lsm_entries e + 1" using p entries by simp
  have "lsm_room n ?e'"
    using p e2(4) s(4) room' w'(5,6) entries' lsm_holdsD(1) [OF e2(2)] by (simp add: lsm_room_def Let_def)
  moreover have "om_lookup (lsm_abs crc ?e') k = om_lookup (mutated key v (lsm_abs crc e)) k" for k
  proof -
    have "om_lookup (lsm_abs crc ?e') k = Option.bind (lsm_lookup ?e1 maps k) ve_value"
      using lsm_abs_lookup [OF h'] p entries' room'(5) by simp
    also have "\<dots> = (if k = key then v else Option.bind (lsm_lookup e maps k) ve_value)"
      using s(5) by (auto simp: lsm_lookup_def split: option.split)
    also have "\<dots> = om_lookup (mutated key v (lsm_abs crc e)) k"
      using lsm_abs_lookup [OF h] room'(5) by (simp add: mutated_def split: option.split)
    finally show ?thesis .
  qed
  then have "lsm_abs crc ?e' = mutated key v (lsm_abs crc e)" unfolding ordmap_eq_iff fun_eq_iff by blast
  moreover have "lsm_invar crc ?e'" unfolding lsm_invar_def using h' by blast
  ultimately show ?thesis using run by blast
qed


subsection \<open>The operations\<close>

lemma lsm_usable: "lsm_holds crc e w ms maps \<Longrightarrow> lsm_ensure_usable e = Inr ()"
  using lsm_holdsD(1,2) by (fastforce simp: lsm_ensure_usable_def)

lemma lsm_room_entries: "lsm_room n e \<Longrightarrow> lsm_entries e \<le> 2147483648"
  by (simp add: lsm_room_def Let_def)

lemma lsm_current_value_ok:
  assumes "lsm_holds crc e w ms maps" "lsm_entries e \<le> 2147483648"
  shows "lsm_current_value crc e k = Inr (om_lookup (lsm_abs crc e) k)"
  using lsm_read_ok [OF assms(1), of k] lsm_abs_lookup [OF assms]
  by (auto simp: lsm_current_value_def lsm_current_entry_def)

lemma lsm_put_ok:
  assumes "lsm_invar crc e" "lsm_room (Suc n) e" "validate_key_value k v = Inr ()"
  shows "\<exists>e'. lsm_put crc e k v = (Inr (om_lookup (lsm_abs crc e) k), e') \<and> lsm_invar crc e' \<and> lsm_room n e' \<and>
    lsm_abs crc e' = om_insert k v (lsm_abs crc e)"
proof -
  obtain w ms maps where h: "lsm_holds crc e w ms maps" using assms(1) by (auto simp: lsm_invar_def)
  have r: "record_wf (MPut, k, v)" using assms(3) by (auto simp: record_wf_def result_iff)
  obtain e' where "lsm_persist_and_apply crc e MPut k (Some v) = (Inr (), e')" "lsm_invar crc e'" "lsm_room n e'"
    "lsm_abs crc e' = om_insert k v (lsm_abs crc e)"
    using lsm_persist_ok [OF h assms(2), of MPut k "Some v"] r by (auto simp: mutated_def)
  then show ?thesis
    using lsm_current_value_ok [OF h lsm_room_entries [OF assms(2)]] lsm_usable [OF h] assms(3)
    by (simp add: lsm_put_def)
qed

lemma lsm_delete_ok:
  assumes "lsm_invar crc e" "lsm_room (Suc n) e" "validate_key k = Inr ()"
  shows "\<exists>e'. lsm_delete crc e k = (Inr (om_lookup (lsm_abs crc e) k), e') \<and> lsm_invar crc e' \<and> lsm_room n e' \<and>
    lsm_abs crc e' = om_remove k (lsm_abs crc e)"
proof -
  obtain w ms maps where h: "lsm_holds crc e w ms maps" using assms(1) by (auto simp: lsm_invar_def)
  have r: "record_wf (MDelete, k, [])" using assms(3) by (auto simp: record_wf_def result_iff)
  obtain e' where "lsm_persist_and_apply crc e MDelete k None = (Inr (), e')" "lsm_invar crc e'" "lsm_room n e'"
    "lsm_abs crc e' = om_remove k (lsm_abs crc e)"
    using lsm_persist_ok [OF h assms(2), of MDelete k None] r by (auto simp: mutated_def)
  then show ?thesis
    using lsm_current_value_ok [OF h lsm_room_entries [OF assms(2)]] lsm_usable [OF h] assms(3)
    by (simp add: lsm_delete_def)
qed

text \<open>Reads change only the counters.\<close>

lemma lsm_abs_cong: "le_tables e' = le_tables e \<Longrightarrow> le_memtables e' = le_memtables e \<Longrightarrow> lsm_abs crc e' = lsm_abs crc e"
  by (simp add: lsm_abs_def lsm_view_def split: sum.split)

lemma lsm_counters [simp]:
  "lsm_invar crc (e\<lparr>le_instrumentation := li\<rparr>) = lsm_invar crc e"
  "lsm_room n (e\<lparr>le_instrumentation := li\<rparr>) = lsm_room n e"
  "lsm_abs crc (e\<lparr>le_instrumentation := li\<rparr>) = lsm_abs crc e"
  by (simp_all add: lsm_invar_def lsm_room_def Let_def lsm_abs_cong [of "e\<lparr>le_instrumentation := li\<rparr>" e])

lemma lsm_room_Suc: "lsm_room (Suc n) e \<Longrightarrow> lsm_room n e"
  by (auto simp: lsm_room_def Let_def split: option.splits)

lemma lsm_get_ok:
  assumes "lsm_invar crc e" "lsm_room (Suc n) e" "validate_key k = Inr ()"
  shows "\<exists>e'. lsm_get crc e k = (Inr (om_lookup (lsm_abs crc e) k), e') \<and> lsm_invar crc e' \<and> lsm_room n e' \<and>
    lsm_abs crc e' = lsm_abs crc e"
proof -
  obtain w ms maps where h: "lsm_holds crc e w ms maps" using assms(1) by (auto simp: lsm_invar_def)
  obtain c where "lsm_current_entry_with_consults crc e k = Inr (lsm_lookup e maps k, c)"
    using lsm_read_ok [OF h] by blast
  then show ?thesis
    using lsm_abs_lookup [OF h lsm_room_entries [OF assms(2)], of k] lsm_usable [OF h] assms lsm_room_Suc [OF assms(2)]
    by (simp add: lsm_get_def Let_def)
qed

lemma live_entries_filter: "live_entries m = entries (om_map_filter (\<lambda>_. ve_value) m)"
  by (simp add: live_entries_def entries_map_filter)

lemma lsm_range_ok:
  assumes "lsm_invar crc e" "lsm_room (Suc n) e" "validate_range_scan start stop = Inr ()"
  shows "\<exists>e'. lsm_range_scan crc e start stop limit = (Inr (spec_range (lsm_abs crc e) start stop limit), e') \<and>
    lsm_invar crc e' \<and> lsm_room n e' \<and> lsm_abs crc e' = lsm_abs crc e"
proof (cases "limit = 0 \<or> stop = Some start")
  case True
  obtain w ms maps where h: "lsm_holds crc e w ms maps" using assms(1) by (auto simp: lsm_invar_def)
  have "spec_range (lsm_abs crc e) start stop limit = []"
    using True by (auto simp: spec_range_def om_range_def filter_empty_conv)
  then show ?thesis
    using True assms lsm_usable [OF h] lsm_room_Suc by (simp add: lsm_range_scan_def Let_def)
next
  case False
  obtain w ms maps where h: "lsm_holds crc e w ms maps" using assms(1) by (auto simp: lsm_invar_def)
  note small = lsm_room_entries [OF assms(2)]
  have "\<forall>m \<in> set maps. om_size m \<le> u64_max"
    using lsm_holds_small(1) [OF h small] by (auto simp: u64_max_def)
  from lsm_range_view [OF h this, of start stop] obtain c v where v: "lsm_overlay_tables crc (le_tables e) start stop = Inr (c, v)"
    "\<forall>k. om_lookup (fold overlay_entry (om_range start stop (mts_visible_state (le_memtables e))) v) k =
       (if in_range start stop k then lsm_lookup e maps k else None)"
    by blast
  let ?visible = "fold overlay_entry (om_range start stop (mts_visible_state (le_memtables e))) v"
  have "om_map_filter (\<lambda>_. ve_value) ?visible = om_filter (\<lambda>k _. in_range start stop k) (lsm_abs crc e)"
    unfolding ordmap_eq_iff fun_eq_iff om_lookup_map_filter om_lookup_filter lsm_abs_lookup [OF h small]
    using v(2) by (simp split: option.split)
  then have "take limit (live_entries ?visible) = spec_range (lsm_abs crc e) start stop limit"
    by (simp add: live_entries_filter spec_range_def om_range_in_range)
  then show ?thesis
    using False v(1) assms lsm_usable [OF h] lsm_room_Suc by (simp add: lsm_range_scan_def Let_def)
qed


subsection \<open>Reopening\<close>

lemma rmapM_images: "(\<And>x. x \<in> set xs \<Longrightarrow> f (g x) = Inr x) \<Longrightarrow> rmapM f (map g xs) = Inr xs"
  by (induction xs) simp_all

lemma lsm_wal_reopen:
  assumes "wal_on_disk crc d v w ms" "lsm_replayed (vs_durable_sequence v) (wal_first_sequence w) ms s"
  shows "\<exists>w'. lsm_wal_open crc (lsm_replay_apply (vs_durable_sequence v)) (vs_wal_id v) (vs_wal_first_sequence v) lsm_fresh d =
      (Inr (w', s), d) \<and> wal_on_disk crc d v w' ms \<and> wal_disk w' = wal_disk w \<and>
    wal_next_sequence w' = wal_next_sequence w \<and> wal_first_sequence w' = wal_first_sequence w"
proof -
  note wd = wal_on_diskD [OF assms(1)]
  have h: "\<forall>m \<in> set ms. record_wf m" "0 < wal_id w" "wal_id w \<le> u64_max" "0 < wal_first_sequence w"
    "wal_disk w = wal_image crc (wal_id w) (wal_first_sequence w) ms" "length (wal_disk w) \<le> u64_max"
    "wal_first_sequence w + length ms \<le> u64_max" "wal_next_sequence w = wal_first_sequence w + length ms"
    using wd(1) unfolding wal_holds_def by blast+
  have r: "wal_replay (lsm_replay_apply (vs_durable_sequence v)) (wal_first_sequence w) lsm_fresh ms = Inr s"
    using assms(2) by (simp add: lsm_replayed_def)
  obtain w' where w': "wal_open crc (lsm_replay_apply (vs_durable_sequence v)) (Some (wal_disk w)) (wal_id w)
      (wal_first_sequence w) lsm_fresh = Inr (w', s)" "wal_holds crc w' ms" "wal_id w' = wal_id w"
    "wal_first_sequence w' = wal_first_sequence w" "wal_recovered_tail w' = None"
    using wal_open_image [OF h(2-4,7,1) _ r, of crc] h(5,6) by auto
  have same: "wal_disk w' = wal_disk w" "wal_next_sequence w' = wal_next_sequence w"
    using w'(2-4) h(5,8) by (simp_all add: wal_holds_def)
  have "lsm_wal_open crc (lsm_replay_apply (vs_durable_sequence v)) (vs_wal_id v) (vs_wal_first_sequence v) lsm_fresh d =
      (Inr (w', s), d)"
    using wd(2) w'(1,5) by (simp add: lsm_wal_open_def flip: wd(3,4))
  moreover have "wal_on_disk crc d v w' ms"
    unfolding wal_on_disk_def using w'(2-4) same wd by simp
  ultimately show ?thesis using same w'(4) by blast
qed

lemma lsm_reopen_holds:
  assumes h: "lsm_holds crc e w ms maps"
  shows "\<exists>e' w'. lsm_open_existing crc (le_disk e) = (Inr e', le_disk e) \<and> lsm_holds crc e' w' ms maps \<and>
    le_tables e' = le_tables e \<and> le_memtables e' = le_memtables e \<and> le_next_table_id e' \<le> le_next_table_id e \<and>
    le_next_manifest_id e' \<le> le_next_manifest_id e \<and> le_next_wal_id e' \<le> le_next_wal_id e \<and>
    vs_current_generation (le_version e') = vs_current_generation (le_version e) \<and>
    vs_tables (le_version e') = vs_tables (le_version e) \<and>
    wal_next_sequence w' = wal_next_sequence w \<and> wal_disk w' = wal_disk w"
proof -
  let ?d = "le_disk e" and ?v = "le_version e"
  note hd = lsm_holdsD [OF h] and vd = version_on_disk_facts [OF lsm_holdsD(4) [OF h]]
    and wd = wal_on_diskD [OF lsm_holdsD(8) [OF h]]
  have "disk_read ?d (wal_file_name (wal_id w)) \<noteq> None" using wd(2) by simp
  from validate_layout_ok [OF hd(10) vd(3,2) this] obtain l where l: "validate_layout ?d = Inr (l, True)"
    "wal_id w \<in> set (ly_wal_ids l)" "ly_max_wal_id l < le_next_wal_id e" "ly_max_manifest_id l < le_next_manifest_id e"
    "ly_max_table_id l < le_next_table_id e"
    "lsm_names ?d (ly_max_table_id l + 1) (ly_max_manifest_id l + 1) (ly_max_wal_id l + 1)"
    by blast
  obtain high where pub: "published crc ?d (?v\<lparr>vs_table_id_high_watermark := high\<rparr>)"
    "high \<le> vs_table_id_high_watermark ?v"
    using hd(4) by (auto simp: version_on_disk_def)
  let ?high = "max high (ly_max_table_id l)"
  let ?v' = "?v\<lparr>vs_table_id_high_watermark := ?high\<rparr>"
  have bounds: "?high + 1 \<le> le_next_table_id e" "?high + 1 \<le> u64_max" "ly_max_manifest_id l + 1 \<le> u64_max"
    "ly_max_wal_id l + 1 \<le> u64_max"
    using l(3-5) hd(5,10) pub(2) by (auto simp: lsm_names_def max_file_id_def u64_max_def)
  have tables: "rmapM (\<lambda>t. sst_open crc (disk_read ?d (sst_file_name (sd_table_id t))) t) (vs_tables ?v) = Inr (le_tables e)"
    using hd(7) unfolding hd(6) [symmetric] by (intro rmapM_images) (simp add: tables_hold_def)
  have wal: "wal_on_disk crc ?d ?v' w ms"
    using wal_on_disk_frame [OF hd(8)] wd(5) by simp
  have "lsm_replayed (vs_durable_sequence ?v') (wal_first_sequence w) ms (le_memtables e)" using hd(9) by simp
  from lsm_wal_reopen [OF wal this] obtain w' where w': "lsm_wal_open crc (lsm_replay_apply (vs_durable_sequence ?v'))
      (vs_wal_id ?v') (vs_wal_first_sequence ?v') lsm_fresh ?d = (Inr (w', le_memtables e), ?d)"
    "wal_on_disk crc ?d ?v' w' ms" "wal_disk w' = wal_disk w" "wal_next_sequence w' = wal_next_sequence w"
    "wal_first_sequence w' = wal_first_sequence w"
    by blast
  let ?e = "\<lparr>le_disk = ?d, le_wal = Some w', le_memtables = le_memtables e, le_tables = le_tables e, le_version = ?v',
     le_next_table_id = ?high + 1, le_next_manifest_id = ly_max_manifest_id l + 1, le_next_wal_id = ly_max_wal_id l + 1,
     le_instrumentation = lsm_instrumentation_default, le_poisoned = False\<rparr>"
  have run: "lsm_open_existing crc ?d = (Inr ?e, ?d)"
    using l(1,2) load_published [OF pub(1)] tables w'(1,4) bounds wd(3,5)
    by (simp add: lsm_open_existing_def mts_new_fresh lsm_checked_next_id_def checked_add64_def ensure_def Let_def)
  have v': "version_on_disk crc ?d ?v'"
  proof -
    have "version_wf (?v\<lparr>vs_table_id_high_watermark := high\<rparr>)" using pub(1) by (simp add: published_def)
    from version_wf_watermark [OF this, of ?high] have "version_wf ?v'"
      using bounds(2) by (simp del: max.bounded_iff)
    then show ?thesis unfolding version_on_disk_def using pub(1) by (intro conjI exI [of _ high]) simp_all
  qed
  have names: "lsm_names ?d (?high + 1) (ly_max_manifest_id l + 1) (ly_max_wal_id l + 1)"
    by (rule lsm_names_mono [OF l(6)]) (use bounds(1) l(6) hd(10) in \<open>auto simp: lsm_names_def\<close>)
  have "lsm_holds crc ?e w' ms maps"
    using hd(3,6,7,9) v' w'(2,5) names by (simp add: lsm_holds_def)
  then show ?thesis
    using run w'(3,4) bounds(1) l(3,4) by (intro exI [of _ ?e] exI [of _ w']) simp
qed

lemma lsm_reopen_ok:
  assumes "lsm_invar crc e" "lsm_room (Suc n) e"
  shows "\<exists>e'. lsm_reopen crc e = (Inr (), e') \<and> lsm_invar crc e' \<and> lsm_room n e' \<and> lsm_abs crc e' = lsm_abs crc e"
proof -
  obtain w ms maps where h: "lsm_holds crc e w ms maps" using assms(1) by (auto simp: lsm_invar_def)
  obtain e' w' where e': "lsm_open_existing crc (le_disk e) = (Inr e', le_disk e)" "lsm_holds crc e' w' ms maps"
    "le_tables e' = le_tables e" "le_memtables e' = le_memtables e" "le_next_table_id e' \<le> le_next_table_id e"
    "le_next_manifest_id e' \<le> le_next_manifest_id e" "le_next_wal_id e' \<le> le_next_wal_id e"
    "vs_current_generation (le_version e') = vs_current_generation (le_version e)"
    "vs_tables (le_version e') = vs_tables (le_version e)"
    "wal_next_sequence w' = wal_next_sequence w" "wal_disk w' = wal_disk w"
    using lsm_reopen_holds [OF h] by blast
  have "lsm_room n e'"
    using lsm_room_Suc [OF assms(2)] e' lsm_holdsD(1) [OF h] lsm_holdsD(1) [OF e'(2)]
    by (simp add: lsm_room_def Let_def lsm_entries_def)
  moreover have "lsm_abs crc e' = lsm_abs crc e" by (rule lsm_abs_cong [OF e'(3,4)])
  moreover have "lsm_invar crc e'" unfolding lsm_invar_def using e'(2) by blast
  ultimately show ?thesis using e'(1) by (auto simp: lsm_reopen_def)
qed


subsection \<open>A new directory\<close>

lemma lsm_create_new_ok:
  assumes quiet: "dk_faults d = []" and n: "n \<le> 2147483648"
  shows "\<exists>e. lsm_create_new crc d = (Inr e, le_disk e) \<and> lsm_invar crc e \<and> lsm_room n e \<and> lsm_abs crc e = om_empty \<and>
    le_memtables e = lsm_fresh"
proof -
  let ?d = "d\<lparr>dk_files := om_empty\<rparr>"
  have empty: "disk_read ?d name = None" for name by (simp add: disk_read_def)
  have q: "dk_faults ?d = []" using quiet by simp
  obtain w where w: "wal_create_new crc None 1 1 = Inr w" "wal_holds crc w []" "wal_id w = 1" "wal_first_sequence w = 1"
    using wal_create_new_ok [of 1 1 crc] by (auto simp: u64_max_def)
  let ?d1 = "disk_set (wal_file_name 1) (wal_disk w) ?d"
  have create: "lsm_wal_create crc 1 1 ?d = (Inr w, ?d1)"
    using empty q w(1) by (simp add: lsm_wal_create_def disk_create_quiet)
  obtain v d2 where v: "manifest_create_initial crc 1 1 ?d1 = (Inr v, d2)" "published crc d2 v" "vs_manifest_id v = 1"
    "vs_durable_sequence v = 0" "vs_wal_id v = 1" "vs_wal_first_sequence v = 1" "vs_tables v = []"
    "vs_table_id_high_watermark v = 0" "vs_current_generation v = 0" "dk_faults d2 = []"
    "\<forall>name. name \<noteq> CURRENT_FILE_NAME \<longrightarrow> name \<noteq> manifest_file_name 1 \<longrightarrow> disk_read d2 name = disk_read ?d1 name"
    using create_initial_ok [of ?d1 1 crc] empty q by (auto simp: u64_max_def)
  let ?e = "\<lparr>le_disk = d2, le_wal = Some w, le_memtables = lsm_fresh, le_tables = [], le_version = v,
     le_next_table_id = 1, le_next_manifest_id = 2, le_next_wal_id = 2,
     le_instrumentation = lsm_instrumentation_default, le_poisoned = False\<rparr>"
  have run: "lsm_create_new crc d = (Inr ?e, d2)"
    using create v(1) by (simp add: lsm_create_new_def lsm_initialize_new_def mts_new_fresh
        INITIAL_WAL_ID_def INITIAL_FIRST_SEQUENCE_def)
  have nx: "wal_next_sequence w = 1" using w(2,4) by (simp add: wal_holds_def)
  have wal: "wal_on_disk crc d2 v w []"
    using w v nx by (simp add: wal_on_disk_def)
  have "lsm_name 1 2 2 name" if "disk_read d2 name \<noteq> None" for name
    using that v(11) empty by (cases "name = CURRENT_FILE_NAME \<or> name = manifest_file_name 1 \<or> name = wal_file_name 1")
      (auto simp: lsm_name_intros)
  then have names: "lsm_names d2 1 2 2" by (simp add: lsm_names_def max_file_id_def)
  have h: "lsm_holds crc ?e w [] []"
    using v wal names by (simp add: lsm_holds_def version_on_disk_published tables_hold_def table_chain_def)
  have "lsm_room n ?e"
    using n v(7,9) nx wal_holds_length(2) [OF w(2)] lsm_fresh_ok [of 0 0]
    by (simp add: lsm_room_def lsm_entries_def Let_def max_file_id_def u64_max_def lsm_fresh_def)
  moreover have "lsm_abs crc ?e = om_empty"
  proof -
    have "lsm_entries ?e \<le> 2147483648" using v(7) lsm_fresh_ok [of 0 0] by (simp add: lsm_entries_def)
    moreover have "lsm_lookup ?e [] k = None" for k
      by (simp add: lsm_lookup_def chain_find_simps table_chain_def mts_get_def lsm_fresh_def memtable_default_def memtable_get_def)
    ultimately have "om_lookup (lsm_abs crc ?e) k = om_lookup om_empty k" for k
      unfolding lsm_abs_lookup [OF h \<open>lsm_entries ?e \<le> 2147483648\<close>] by (simp only: bind.bind_lzero om_lookup_empty)
    then show ?thesis unfolding ordmap_eq_iff fun_eq_iff by blast
  qed
  moreover have "lsm_invar crc ?e" unfolding lsm_invar_def using h by blast
  ultimately show ?thesis using run by (intro exI [of _ ?e]) simp
qed

interpretation lsm_kv: kv_ordered "lsm_ops crc" "lsm_invar crc" lsm_room "lsm_abs crc" "\<lambda>_ _. True" for crc
proof
  show "common_contract (op_capabilities (lsm_ops crc) s)" for crc s
    by (simp add: lsm_ops_def lsm_capabilities_def common_contract_def)
  show "ec_ordered_range_scan (op_capabilities (lsm_ops crc) s)" for crc s
    by (simp add: lsm_ops_def lsm_capabilities_def)
qed (simp_all add: lsm_ops_def lsm_put_ok lsm_get_ok lsm_delete_ok lsm_reopen_ok lsm_range_ok,
     simp_all add: lsm_put_def lsm_get_def lsm_delete_def lsm_range_scan_def)

end
