(* ===== verification/LsmProps.thy ===== *)
theory LsmProps
  imports LsmCorrect MemoryEngine
begin

text \<open>
  The properties of the LSM engine: refinement of the ordered map, scans, reopening, read-only
  verification, compaction, poisoning, and agreement with the in-memory oracle.
\<close>

text \<open>C1 (lsm_refines): on a running engine with room in its counters every valid step (put, get,
  delete or reopen) succeeds, returns exactly what the ordered map of live values returns, and
  leaves a running engine whose content is that map's next state, whichever flushes, compactions
  and WAL rotations the step caused.\<close>

theorem lsm_step_refines:
  assumes "lsm_invar crc e" "lsm_room (Suc n) e" "validate_step st = Inr ()"
  shows "\<exists>e'. execute_step (lsm_ops crc) e st = (Inr (fst (spec_step (lsm_abs crc e) st)), e') \<and>
    lsm_invar crc e' \<and> lsm_room n e' \<and> lsm_abs crc e' = snd (spec_step (lsm_abs crc e) st)"
  using lsm_kv.step_refines [OF assms] by simp

definition fresh_disk :: disk where
  "fresh_disk = \<lparr>dk_files = om_empty, dk_faults = [], dk_stuck = []\<rparr>"

lemma fresh_lsm: "\<exists>e. lsm_create_new crc fresh_disk = (Inr e, le_disk e) \<and> lsm_invar crc e \<and> lsm_room 1000 e \<and>
    lsm_abs crc e = om_empty \<and> le_memtables e = lsm_fresh"
  by (rule lsm_create_new_ok) (simp_all add: fresh_disk_def)

lemma small_key_value: "validate_step (Put [1] [2]) = Inr ()" "validate_step (Get [1]) = Inr ()"
  by (simp_all add: validate_key_value_def validate_key_def MAX_KEY_BYTES_def MAX_VALUE_BYTES_def)

lemma lsm_step_refines_witness:
  "\<exists>e e1 e2. lsm_create_new (\<lambda>_. 0) fresh_disk = (Inr e, le_disk e) \<and>
     execute_step (lsm_ops (\<lambda>_. 0)) e (Put [1] [2]) = (Inr (OPut None), e1) \<and>
     execute_step (lsm_ops (\<lambda>_. 0)) e1 (Get [1]) = (Inr (OGet (Some [2])), e2)"
proof -
  obtain e where e: "lsm_create_new (\<lambda>_. 0) fresh_disk = (Inr e, le_disk e)" "lsm_invar (\<lambda>_. 0) e" "lsm_room 1000 e"
    "lsm_abs (\<lambda>_. 0) e = om_empty"
    using fresh_lsm by blast
  have r: "lsm_room (Suc 999) e" using e(3) by simp
  obtain e1 where e1: "execute_step (lsm_ops (\<lambda>_. 0)) e (Put [1] [2]) = (Inr (OPut None), e1)" "lsm_invar (\<lambda>_. 0) e1"
    "lsm_room 999 e1" "lsm_abs (\<lambda>_. 0) e1 = om_insert [1] [2] om_empty"
    using lsm_step_refines [OF e(2) r small_key_value(1)] e(4) by auto
  have r1: "lsm_room (Suc 998) e1" using e1(3) by simp
  obtain e2 where "execute_step (lsm_ops (\<lambda>_. 0)) e1 (Get [1]) = (Inr (OGet (Some [2])), e2)"
    using lsm_step_refines [OF e1(2) r1 small_key_value(2)] e1(4) by auto
  then show ?thesis using e(1) e1(1) by blast
qed

text \<open>C23 (lsm_scan): a valid range scan of a running engine returns the first \<open>limit\<close> live entries
  of the range in strictly increasing key order, merged over the MemTables and every table, and
  changes no content.\<close>

theorem lsm_range_scan_correct:
  assumes "lsm_invar crc e" "lsm_room (Suc n) e" "validate_range_scan start stop = Inr ()"
  shows "\<exists>e' rows. lsm_range_scan crc e start stop limit = (Inr rows, e') \<and> lsm_abs crc e' = lsm_abs crc e \<and>
    rows = take limit (om_range start stop (lsm_abs crc e)) \<and> sorted_wrt (<) (map fst rows) \<and>
    (\<forall>(k, v) \<in> set rows. om_lookup (lsm_abs crc e) k = Some v \<and> start \<le> k \<and> (\<forall>h. stop = Some h \<longrightarrow> k < h))"
proof -
  obtain e' where e': "lsm_range_scan crc e start stop limit = (Inr (spec_range (lsm_abs crc e) start stop limit), e')"
    "lsm_abs crc e' = lsm_abs crc e"
    using lsm_range_ok [OF assms] by blast
  then have "op_range_scan (lsm_ops crc) e start stop limit = (Inr (spec_range (lsm_abs crc e) start stop limit), e')"
    by (simp add: lsm_ops_def)
  from lsm_kv.scan_sound [OF assms this] show ?thesis using e' by (auto simp: spec_range_def)
qed

lemma lsm_range_scan_correct_witness:
  "\<exists>e e'. lsm_create_new (\<lambda>_. 0) fresh_disk = (Inr e, le_disk e) \<and>
     lsm_range_scan (\<lambda>_. 0) e [] None 5 = (Inr [], e')"
proof -
  obtain e where e: "lsm_create_new (\<lambda>_. 0) fresh_disk = (Inr e, le_disk e)" "lsm_invar (\<lambda>_. 0) e" "lsm_room 1000 e"
    "lsm_abs (\<lambda>_. 0) e = om_empty"
    using fresh_lsm by blast
  have r: "lsm_room (Suc 999) e" using e(3) by simp
  have v: "validate_range_scan [] None = Inr ()" by (simp add: validate_range_scan_def validate_key_def MAX_KEY_BYTES_def)
  show ?thesis using lsm_range_scan_correct [OF e(2) r v, of 5] e(1,4) by (auto simp: om_range_def)
qed

text \<open>C22 (lsm_reopen): everything acknowledged is durable: opening the directory of a running engine
  again, from its files alone, changes no file and finds exactly the engine's tables, MemTables
  and content.\<close>

theorem lsm_reopen_restores:
  assumes "lsm_invar crc e"
  shows "\<exists>e'. lsm_open_existing crc (le_disk e) = (Inr e', le_disk e) \<and> lsm_invar crc e' \<and>
    le_tables e' = le_tables e \<and> le_memtables e' = le_memtables e \<and> lsm_abs crc e' = lsm_abs crc e"
proof -
  obtain w ms maps where h: "lsm_holds crc e w ms maps" using assms by (auto simp: lsm_invar_def)
  obtain e' w' where e': "lsm_open_existing crc (le_disk e) = (Inr e', le_disk e)" "lsm_holds crc e' w' ms maps"
    "le_tables e' = le_tables e" "le_memtables e' = le_memtables e"
    using lsm_reopen_holds [OF h] by blast
  have "lsm_invar crc e'" unfolding lsm_invar_def using e'(2) by blast
  then show ?thesis using e' lsm_abs_cong [OF e'(3,4)] by blast
qed

lemma lsm_reopen_restores_witness:
  "\<exists>e e'. lsm_create_new (\<lambda>_. 0) fresh_disk = (Inr e, le_disk e) \<and>
     lsm_open_existing (\<lambda>_. 0) (le_disk e) = (Inr e', le_disk e) \<and> lsm_abs (\<lambda>_. 0) e' = om_empty"
proof -
  obtain e where e: "lsm_create_new (\<lambda>_. 0) fresh_disk = (Inr e, le_disk e)" "lsm_invar (\<lambda>_. 0) e"
    "lsm_abs (\<lambda>_. 0) e = om_empty"
    using fresh_lsm by blast
  show ?thesis using lsm_reopen_restores [OF e(2)] e(1,3) by auto
qed

text \<open>C21 (lsm_compact): compaction of a running engine that has tables succeeds, keeps every live
  value, and leaves at most one table, of level one, which holds no tombstone; afterwards the
  collection point is the durable sequence.\<close>

theorem lsm_compaction_correct:
  assumes "lsm_invar crc e" "lsm_room (Suc n) e" "le_tables e \<noteq> []"
  shows "\<exists>e'. lsm_compact_level0_after_trigger crc e = (Inr (), e') \<and> lsm_invar crc e' \<and> lsm_abs crc e' = lsm_abs crc e \<and>
    length (le_tables e') \<le> 1 \<and> vs_tombstone_gc_sequence (le_version e') = vs_durable_sequence (le_version e) \<and>
    (\<forall>t \<in> set (le_tables e'). sd_level (st_descriptor t) = 1 \<and>
       (\<forall>key x. sst_get crc t key = Inr (Some x) \<longrightarrow> ve_value x \<noteq> None))"
proof -
  obtain w ms maps where h: "lsm_holds crc e w ms maps" using assms(1) by (auto simp: lsm_invar_def)
  have small: "lsm_entries e \<le> 2147483648" by (rule lsm_room_entries [OF assms(2)])
  have room: "le_next_table_id e + 1 \<le> max_file_id" "le_next_manifest_id e + 1 \<le> max_file_id"
    "vs_current_generation (le_version e) + 2 \<le> u64_max"
    using assms(2) by (simp_all add: lsm_room_def Let_def)
  obtain e' maps' where e': "lsm_compact_level0_after_trigger crc e = (Inr (), e')" "lsm_holds crc e' w ms maps'"
    "lsm_progress e maps e' maps' 1 1 0 2" "length (le_tables e') \<le> 1"
    "vs_tombstone_gc_sequence (le_version e') = vs_durable_sequence (le_version e)"
    "\<forall>t \<in> set (le_tables e'). sd_level (st_descriptor t) = 1"
    "\<forall>k x. chain_find (table_chain (le_tables e') maps') k = Some x \<longrightarrow> ve_value x \<noteq> None"
    using lsm_compact_ok [OF h assms(3) room small] by blast
  have "lsm_entries e' \<le> 2147483648" using e'(3) small by (simp add: lsm_progress_def)
  then have "om_lookup (lsm_abs crc e') k = om_lookup (lsm_abs crc e) k" for k
    using lsm_abs_lookup [OF h small] lsm_abs_lookup [OF e'(2)] e'(3) by (simp add: lsm_progress_def)
  then have abs: "lsm_abs crc e' = lsm_abs crc e" unfolding ordmap_eq_iff fun_eq_iff by blast
  have clean: "ve_value x \<noteq> None" if t: "t \<in> set (le_tables e')" and x: "sst_get crc t key = Inr (Some x)" for t key x
  proof -
    have one: "le_tables e' = [t]" using t e'(4) by (cases "le_tables e'") auto
    then obtain m where m: "maps' = [m]" "sst_denotes crc t m"
      using lsm_holds_tables(1) [OF e'(2)] by (auto simp: list_all2_Cons1)
    then have "om_lookup m key = Some x" using sst_get_denoted [OF m(2), of key] x by simp
    then have "chain_find (table_chain (le_tables e') maps') key = Some x"
      by (simp add: one m(1) table_chain_def chain_find_def)
    then show ?thesis using e'(7) by blast
  qed
  have "lsm_invar crc e'" unfolding lsm_invar_def using e'(2) by blast
  then show ?thesis using e'(1) abs e'(4,5,6) clean by auto
qed

text \<open>One large value freezes the MemTable, whose flush gives a table to compact.\<close>

lemma lsm_one_table:
  "\<exists>e n. lsm_invar (\<lambda>_. 0) e \<and> lsm_room (Suc n) e \<and> le_tables e \<noteq> []"
proof -
  let ?crc = "\<lambda>_. 0" and ?big = "replicate 65536 0"
  obtain e where e: "lsm_invar ?crc e" "lsm_room 1000 e" "le_memtables e = lsm_fresh" using fresh_lsm by blast
  obtain w ms maps where h: "lsm_holds ?crc e w ms maps" using e(1) by (auto simp: lsm_invar_def)
  have r: "record_wf (MPut, [1], ?big)" by (simp add: record_wf_def MAX_KEY_BYTES_def MAX_VALUE_BYTES_def)
  have wr: "wal_next_sequence w + 1000 \<le> u64_max" "length (wal_disk w) + 1052704 * 1000 \<le> u64_max"
    using e(2) lsm_holdsD(1) [OF h] by (simp_all add: lsm_room_def Let_def)
  obtain w' where w': "wal_holds ?crc w' (ms @ [(MPut, [1], ?big)])" "wal_id w' = wal_id w"
    "wal_first_sequence w' = wal_first_sequence w" "wal_next_sequence w' = wal_next_sequence w + 1"
    "length (wal_disk w') \<le> length (wal_disk w) + 1052704"
    using lsm_wal_append_ok [OF h r] wr by auto
  let ?d = "disk_set (wal_file_name (wal_id w)) (wal_disk w') (le_disk e)"
  have q: "wal_next_sequence w + 1 \<le> u64_max" using wr by simp
  from lsm_applied_ok [OF h r w'(1-4) q] obtain s where
    s: "mts_apply lsm_fresh (wal_next_sequence w) [1] (Some ?big) = Inr s"
    "lsm_holds ?crc (e\<lparr>le_disk := ?d, le_wal := Some w', le_memtables := s\<rparr>) w' (ms @ [(MPut, [1], ?big)]) maps"
    "mts_count s \<le> mts_count (le_memtables e) + 1"
    using e(3) by auto
  let ?e = "e\<lparr>le_disk := ?d, le_wal := Some w', le_memtables := s\<rparr>"
  obtain t where imm: "ms_immutable s = [t]"
    using s(1) by (auto simp: mts_apply_def lsm_fresh_def memtable_default_def memtable_apply_def memtable_is_empty_def
        resident_bytes_def ENTRY_OVERHEAD_BYTES_def result_iff checked_add64_def ok_or_def split: if_splits option.splits)
  have entries: "lsm_entries ?e \<le> lsm_entries e + 1" using s(3) by (simp add: lsm_entries_def)
  have room: "le_next_table_id ?e + 1 \<le> max_file_id" "le_next_manifest_id ?e + 1 \<le> max_file_id"
    "vs_current_generation (le_version ?e) + 1 \<le> u64_max" "lsm_entries ?e \<le> 2147483648"
    using e(2) entries by (simp_all add: lsm_room_def Let_def)
  have imm': "ms_immutable (le_memtables ?e) = [t]" using imm by simp
  obtain e2 where e2: "lsm_holds ?crc e2 w' (ms @ [(MPut, [1], ?big)]) (maps @ [mt_entries t])"
    "lsm_progress ?e maps e2 (maps @ [mt_entries t]) 1 1 0 1" "ms_immutable (le_memtables e2) = []"
    using lsm_flush_oldest_ok [OF s(2) imm' room] by auto
  have "le_tables e2 \<noteq> []" using lsm_holds_tables(4) [OF e2(1)] by auto
  moreover have "lsm_room (Suc 0) e2"
    using e(2,3) e2(2,3) entries wr w'(4,5) lsm_holdsD(1) [OF e2(1)]
    by (simp add: lsm_room_def Let_def lsm_progress_def lsm_fresh_def)
  moreover have "lsm_invar ?crc e2" unfolding lsm_invar_def using e2(1) by blast
  ultimately show ?thesis by blast
qed

lemma lsm_compaction_correct_witness:
  "\<exists>e e'. le_tables e \<noteq> [] \<and> lsm_compact_level0_after_trigger (\<lambda>_. 0) e = (Inr (), e') \<and>
     lsm_abs (\<lambda>_. 0) e' = lsm_abs (\<lambda>_. 0) e \<and> length (le_tables e') \<le> 1"
proof -
  obtain e n where e: "lsm_invar (\<lambda>_. 0) e" "lsm_room (Suc n) e" "le_tables e \<noteq> []" using lsm_one_table by blast
  show ?thesis using lsm_compaction_correct [OF e] e(3) by blast
qed

text \<open>C25 (lsm_poison): whatever the files and the operating system do, a mutation that fails either
  changed nothing or leaves the engine poisoned, and a poisoned engine refuses every read, scan and
  mutation without touching its state until it is reopened.\<close>

theorem lsm_failed_mutation_poisons:
  "(lsm_put crc e k v = (Inl err, e') \<or> lsm_delete crc e k = (Inl err, e') \<longrightarrow> e' = e \<or> le_poisoned e') \<and>
   (le_poisoned e \<longrightarrow> \<not> is_ok (fst (lsm_put crc e k v)) \<and> snd (lsm_put crc e k v) = e \<and>
      \<not> is_ok (fst (lsm_delete crc e k)) \<and> snd (lsm_delete crc e k) = e \<and>
      \<not> is_ok (fst (lsm_get crc e k)) \<and> snd (lsm_get crc e k) = e \<and>
      \<not> is_ok (fst (lsm_range_scan crc e lo hi n)) \<and> snd (lsm_range_scan crc e lo hi n) = e)"
proof -
  have persist: "lsm_persist_and_apply crc e kind k x = (Inl err, e') \<Longrightarrow> e' = e \<or> le_poisoned e'" for kind x
    by (auto simp: lsm_persist_and_apply_def Let_def split: sum.splits option.splits prod.splits)
  have refuse: "lsm_ensure_usable e = Inl Poisoned" if "le_poisoned e" using that by (simp add: lsm_ensure_usable_def)
  have "lsm_put crc e k v = (Inl err, e') \<Longrightarrow> e' = e \<or> le_poisoned e'"
    by (auto simp: lsm_put_def split: sum.splits prod.splits dest!: persist)
  moreover have "lsm_delete crc e k = (Inl err, e') \<Longrightarrow> e' = e \<or> le_poisoned e'"
    by (auto simp: lsm_delete_def split: sum.splits prod.splits dest!: persist)
  moreover have "\<not> is_ok (fst (lsm_put crc e k v)) \<and> snd (lsm_put crc e k v) = e \<and>
      \<not> is_ok (fst (lsm_delete crc e k)) \<and> snd (lsm_delete crc e k) = e \<and>
      \<not> is_ok (fst (lsm_get crc e k)) \<and> snd (lsm_get crc e k) = e \<and>
      \<not> is_ok (fst (lsm_range_scan crc e lo hi n)) \<and> snd (lsm_range_scan crc e lo hi n) = e" if "le_poisoned e"
    using refuse [OF that]
    by (auto simp: lsm_put_def lsm_delete_def lsm_get_def lsm_range_scan_def is_ok_def rbind_def split: sum.splits)
  ultimately show ?thesis by blast
qed

lemma lsm_failed_mutation_poisons_witness:
  "\<exists>e. le_poisoned e \<and> lsm_put (\<lambda>_. 0) e [1] [2] = (Inl Poisoned, e) \<and> \<not> is_ok (fst (lsm_get (\<lambda>_. 0) e [1]))"
proof -
  let ?e = "\<lparr>le_disk = fresh_disk, le_wal = None, le_memtables = lsm_fresh, le_tables = [], le_version = lsm_legacy_version,
     le_next_table_id = 1, le_next_manifest_id = 1, le_next_wal_id = 1, le_instrumentation = lsm_instrumentation_default,
     le_poisoned = True\<rparr>"
  have "lsm_put (\<lambda>_. 0) ?e [1] [2] = (Inl Poisoned, ?e)"
    by (simp add: lsm_put_def lsm_ensure_usable_def validate_key_value_def validate_key_def MAX_KEY_BYTES_def MAX_VALUE_BYTES_def)
  moreover have "\<not> is_ok (fst (lsm_get (\<lambda>_. 0) ?e [1]))"
    using lsm_failed_mutation_poisons [of "\<lambda>_. 0" ?e "[1]" "[2]" Poisoned ?e "[]" None 0] by simp
  ultimately show ?thesis by (intro exI [of _ ?e]) simp
qed


subsection \<open>Verification agrees with opening\<close>

lemma layout_entry_bounds:
  assumes "layout_entry l name = Inr l'" "ly_max_wal_id l < max_file_id" "ly_max_manifest_id l < max_file_id"
    "ly_max_table_id l < max_file_id"
  shows "ly_max_wal_id l' < max_file_id \<and> ly_max_manifest_id l' < max_file_id \<and> ly_max_table_id l' < max_file_id"
  using assms by (auto simp: layout_entry_def parse_names_iff split: if_splits option.splits)

lemma validate_layout_bounds:
  assumes "validate_layout d = Inr (l, b)"
  shows "ly_max_wal_id l < max_file_id \<and> ly_max_manifest_id l < max_file_id \<and> ly_max_table_id l < max_file_id"
proof -
  have "rfold layout_entry l0 names = Inr l1 \<Longrightarrow> ly_max_wal_id l0 < max_file_id \<Longrightarrow> ly_max_manifest_id l0 < max_file_id \<Longrightarrow>
      ly_max_table_id l0 < max_file_id \<Longrightarrow>
      ly_max_wal_id l1 < max_file_id \<and> ly_max_manifest_id l1 < max_file_id \<and> ly_max_table_id l1 < max_file_id" for l0 l1 names
    by (induction names arbitrary: l0) (auto simp: rbind_eq_Inr dest!: layout_entry_bounds)
  then show ?thesis
    using assms by (fastforce simp: validate_layout_def result_iff max_file_id_def split: if_splits prod.splits bool.splits)
qed

lemma verify_tables_open:
  assumes "rfold (\<lambda>total t. rbind (sst_open crc (f t) t) (\<lambda>_. ok_or (checked_add64 total (sd_entry_count t)) (Corruption 0))) n ts = Inr m"
  shows "\<exists>tables. rmapM (\<lambda>t. sst_open crc (f t) t) ts = Inr tables \<and>
    rfold (\<lambda>total t. ok_or (checked_add64 total (sd_entry_count t)) (Corruption 0)) n ts = Inr m"
  using assms by (induction ts arbitrary: n) (auto simp: rbind_eq_Inr)

lemma wal_verify_opens:
  assumes "wal_verify crc f existing wid q s = Inr (wv, s')"
  shows "\<exists>bs w. existing = Some bs \<and> wal_open crc f existing wid q s = Inr (w, s') \<and>
    wv_wal_id wv = wid \<and> wal_id w = wid \<and> wal_first_sequence w = wv_first_sequence wv \<and>
    wal_next_sequence w = wv_next_sequence wv \<and> wal_record_count w = wv_record_count wv \<and>
    wal_disk w = take (wv_valid_bytes wv) bs \<and> (wal_recovered_tail w = None \<longrightarrow> take (wv_valid_bytes wv) bs = bs)"
proof -
  obtain bs scan where scan: "existing = Some bs" "wal_scan_file crc f bs wid q s = Inr scan" "s' = sc_values scan"
    "wv_wal_id wv = wid" "wv_first_sequence wv = q" "wv_next_sequence wv = sc_next_sequence scan"
    "wv_record_count wv = sc_record_count scan" "wv_valid_bytes wv = sc_valid_bytes scan"
    using assms by (auto simp: wal_verify_def rbind_eq_Inr ok_or_eq_Inr)
  have "sc_valid_bytes scan \<le> length bs \<and> (sc_recoverable_tail scan = None \<longrightarrow> take (sc_valid_bytes scan) bs = bs)"
    using wal_scan_file_sound [OF scan(2)] by fastforce
  then show ?thesis
    using scan by (auto simp: wal_open_def wal_hash_file_prefix_def Let_def)
qed

text \<open>The parts of an accepting verification.\<close>

lemma lsm_verify_parts:
  assumes "lsm_verify crc d = Inr (wv, st)"
  obtains l b v n ms where "validate_layout d = Inr (l, b)"
    "(if b then manifest_load crc d else Inr lsm_legacy_version) = Inr v"
    "rfold (\<lambda>total t. rbind (sst_open crc (disk_read d (sst_file_name (sd_table_id t))) t) (\<lambda>_.
       ok_or (checked_add64 total (sd_entry_count t)) (Corruption 0))) 0 (vs_tables v) = Inr n"
    "vs_wal_id v \<in> set (ly_wal_ids l)"
    "wal_verify crc (lsm_replay_apply (vs_durable_sequence v)) (disk_read d (wal_file_name (vs_wal_id v)))
       (vs_wal_id v) (vs_wal_first_sequence v) lsm_fresh = Inr (wv, ms)"
    "vs_durable_sequence v < wv_next_sequence wv"
    "st = \<lparr>lt_wal_records = wv_record_count wv, lt_active_wal_id = wv_wal_id wv,
       lt_active_wal_first_sequence = wv_first_sequence wv,
       lt_mutable_entries = mts_mutable_entries ms, lt_immutable_memtables = mts_immutable_count ms,
       lt_immutable_entries = mts_immutable_entries ms, lt_sstables = length (vs_tables v),
       lt_level0_sstables = lsm_level_count 0 (vs_tables v), lt_level1_sstables = lsm_level_count 1 (vs_tables v),
       lt_sstable_entries = n, lt_durable_sequence = vs_durable_sequence v,
       lt_tombstone_gc_sequence = vs_tombstone_gc_sequence v\<rparr>"
proof -
  obtain l b where layout: "validate_layout d = Inr (l, b)"
    using assms by (cases "validate_layout d") (auto simp: lsm_verify_def)
  obtain v where v: "(if b then manifest_load crc d else Inr lsm_legacy_version) = Inr v"
    using assms layout
    by (cases "if b then manifest_load crc d else Inr lsm_legacy_version") (simp_all add: lsm_verify_def)
  note load = layout v
  have rest: "rbind (rfold (\<lambda>total t. rbind (sst_open crc (disk_read d (sst_file_name (sd_table_id t))) t) (\<lambda>_.
       ok_or (checked_add64 total (sd_entry_count t)) (Corruption 0))) 0 (vs_tables v)) (\<lambda>n.
     if vs_wal_id v \<notin> set (ly_wal_ids l) then Inl (Corruption 0)
     else rbind (mts_new MUTABLE_MEMTABLE_BYTES_LIMIT) (\<lambda>ms. rbind (wal_verify crc (lsm_replay_apply (vs_durable_sequence v)) (disk_read d (wal_file_name (vs_wal_id v)))
       (vs_wal_id v) (vs_wal_first_sequence v) ms) (\<lambda>(wv, ms').
     if vs_durable_sequence v \<ge> wv_next_sequence wv then Inl (Corruption 0)
     else Inr (wv, \<lparr>lt_wal_records = wv_record_count wv, lt_active_wal_id = wv_wal_id wv,
          lt_active_wal_first_sequence = wv_first_sequence wv,
          lt_mutable_entries = mts_mutable_entries ms', lt_immutable_memtables = mts_immutable_count ms',
          lt_immutable_entries = mts_immutable_entries ms', lt_sstables = length (vs_tables v),
          lt_level0_sstables = lsm_level_count 0 (vs_tables v), lt_level1_sstables = lsm_level_count 1 (vs_tables v),
          lt_sstable_entries = n, lt_durable_sequence = vs_durable_sequence v,
          lt_tombstone_gc_sequence = vs_tombstone_gc_sequence v\<rparr>)))) = Inr (wv, st)"
    using assms load by (simp add: lsm_verify_def)
  obtain n ms where parts: "rfold (\<lambda>total t. rbind (sst_open crc (disk_read d (sst_file_name (sd_table_id t))) t) (\<lambda>_.
       ok_or (checked_add64 total (sd_entry_count t)) (Corruption 0))) 0 (vs_tables v) = Inr n"
    "vs_wal_id v \<in> set (ly_wal_ids l)"
    "wal_verify crc (lsm_replay_apply (vs_durable_sequence v)) (disk_read d (wal_file_name (vs_wal_id v)))
       (vs_wal_id v) (vs_wal_first_sequence v) lsm_fresh = Inr (wv, ms)"
    "vs_durable_sequence v < wv_next_sequence wv"
    "st = \<lparr>lt_wal_records = wv_record_count wv, lt_active_wal_id = wv_wal_id wv,
       lt_active_wal_first_sequence = wv_first_sequence wv,
       lt_mutable_entries = mts_mutable_entries ms, lt_immutable_memtables = mts_immutable_count ms,
       lt_immutable_entries = mts_immutable_entries ms, lt_sstables = length (vs_tables v),
       lt_level0_sstables = lsm_level_count 0 (vs_tables v), lt_level1_sstables = lsm_level_count 1 (vs_tables v),
       lt_sstable_entries = n, lt_durable_sequence = vs_durable_sequence v,
       lt_tombstone_gc_sequence = vs_tombstone_gc_sequence v\<rparr>"
    using rest by (auto simp: rbind_eq_Inr mts_new_fresh not_le split: if_splits)
  show thesis by (rule that [OF load parts])
qed

text \<open>C26 (lsm_verify): when the read-only verification accepts a directory, opening it succeeds with
  exactly the reported statistics (as long as the manifest leaves a table id), and changes nothing but the
  active segment, from which it cuts the incomplete tail that verification reported.\<close>

theorem lsm_verify_opens:
  assumes "lsm_verify crc d = Inr (wv, st)" "dk_faults d = []"
    and "\<forall>v. manifest_load crc d = Inr v \<longrightarrow> vs_table_id_high_watermark v < u64_max"
  shows "\<exists>e d'. lsm_open_existing crc d = (Inr e, d') \<and> lsm_engine_stats e = Inr st \<and>
    (\<forall>name. name \<noteq> wal_file_name (wv_wal_id wv) \<longrightarrow> disk_read d' name = disk_read d name) \<and>
    disk_read d' (wal_file_name (wv_wal_id wv)) =
      map_option (take (wv_valid_bytes wv)) (disk_read d (wal_file_name (wv_wal_id wv)))"
proof -
  obtain l b v n ms where load: "validate_layout d = Inr (l, b)"
      "(if b then manifest_load crc d else Inr lsm_legacy_version) = Inr v"
    and step: "rfold (\<lambda>total t. rbind (sst_open crc (disk_read d (sst_file_name (sd_table_id t))) t) (\<lambda>_.
       ok_or (checked_add64 total (sd_entry_count t)) (Corruption 0))) 0 (vs_tables v) = Inr n"
    "vs_wal_id v \<in> set (ly_wal_ids l)"
    "wal_verify crc (lsm_replay_apply (vs_durable_sequence v)) (disk_read d (wal_file_name (vs_wal_id v)))
       (vs_wal_id v) (vs_wal_first_sequence v) lsm_fresh = Inr (wv, ms)"
    "vs_durable_sequence v < wv_next_sequence wv"
    "st = \<lparr>lt_wal_records = wv_record_count wv, lt_active_wal_id = wv_wal_id wv,
       lt_active_wal_first_sequence = wv_first_sequence wv,
       lt_mutable_entries = mts_mutable_entries ms, lt_immutable_memtables = mts_immutable_count ms,
       lt_immutable_entries = mts_immutable_entries ms, lt_sstables = length (vs_tables v),
       lt_level0_sstables = lsm_level_count 0 (vs_tables v), lt_level1_sstables = lsm_level_count 1 (vs_tables v),
       lt_sstable_entries = n, lt_durable_sequence = vs_durable_sequence v,
       lt_tombstone_gc_sequence = vs_tombstone_gc_sequence v\<rparr>"
    by (rule lsm_verify_parts [OF assms(1)])
  obtain tables where tables: "rmapM (\<lambda>t. sst_open crc (disk_read d (sst_file_name (sd_table_id t))) t) (vs_tables v) = Inr tables"
    "rfold (\<lambda>total t. ok_or (checked_add64 total (sd_entry_count t)) (Corruption 0)) 0 (vs_tables v) = Inr n"
    using verify_tables_open [OF step(1)] by blast
  obtain bs w where w: "disk_read d (wal_file_name (vs_wal_id v)) = Some bs"
    "wal_open crc (lsm_replay_apply (vs_durable_sequence v)) (Some bs) (vs_wal_id v) (vs_wal_first_sequence v) lsm_fresh = Inr (w, ms)"
    "wv_wal_id wv = vs_wal_id v" "wal_id w = vs_wal_id v" "wal_first_sequence w = wv_first_sequence wv"
    "wal_next_sequence w = wv_next_sequence wv" "wal_record_count w = wv_record_count wv"
    "wal_disk w = take (wv_valid_bytes wv) bs" "wal_recovered_tail w = None \<longrightarrow> take (wv_valid_bytes wv) bs = bs"
    using wal_verify_opens [OF step(3)] by auto
  define d' where "d' = (if wal_recovered_tail w = None then d else disk_set (wal_file_name (vs_wal_id v)) (wal_disk w) d)"
  have wal: "lsm_wal_open crc (lsm_replay_apply (vs_durable_sequence v)) (vs_wal_id v) (vs_wal_first_sequence v) lsm_fresh d = (Inr (w, ms), d')"
    using w(1,2) assms(2) by (simp add: lsm_wal_open_def d'_def)
  have ids: "vs_table_id_high_watermark v < u64_max" "ly_max_table_id l < u64_max" "ly_max_manifest_id l < u64_max" "ly_max_wal_id l < u64_max"
    using assms(3) load validate_layout_bounds [OF load(1)]
    by (auto simp: max_file_id_def u64_max_def lsm_legacy_version_def split: if_splits)
  have high: "max (vs_table_id_high_watermark v) (ly_max_table_id l) + 1 \<le> u64_max" using ids(1,2) by simp
  have len: "length tables = length (vs_tables v)" using tables(1) by (simp add: rmapM_eq_Inr)
  obtain e where e: "lsm_open_existing crc d = (Inr e, d')" "lsm_engine_stats e = Inr st"
    using load step(2,4,5) tables len wal w(3-7) ids high
    by (simp add: lsm_open_existing_def mts_new_fresh lsm_checked_next_id_def checked_add64_def Let_def not_le
        lsm_engine_stats_def lsm_ensure_usable_def lsm_total_entries_def split: if_splits)
  show ?thesis
    using e w(1,3,8,9) by (intro exI [of _ e] exI [of _ d']) (auto simp: d'_def)
qed

definition wal_only_disk :: disk where
  "wal_only_disk = disk_set (wal_file_name 1) (wal_image (\<lambda>_. 0) 1 1 []) fresh_disk"

lemma wal_only_disk_verifies: "\<exists>wv st. lsm_verify (\<lambda>_. 0) wal_only_disk = Inr (wv, st)"
proof -
  let ?im = "wal_image (\<lambda>_. 0) 1 1 []"
  have keys: "om_keys (dk_files wal_only_disk) = [wal_file_name 1]"
    by (simp add: wal_only_disk_def disk_set_def fresh_disk_def om_keys_def entries_insert)
  have layout: "validate_layout wal_only_disk = Inr (\<lparr>ly_wal_ids = [1], ly_max_wal_id = 1, ly_max_table_id = 0,
      ly_max_manifest_id = 0, ly_found_current = False\<rparr>, False)"
    by (simp add: validate_layout_def keys layout_entry_def max_file_id_def INITIAL_WAL_ID_def)
  have len: "length ?im = 40" by (simp add: wal_image_def encode_wal_header_def Let_def WAL_MAGIC_def ascii_def)
  have "wal_scan_file (\<lambda>_. 0) (lsm_replay_apply 0) ?im 1 1 lsm_fresh =
      Inr \<lparr>sc_file_bytes = length ?im, sc_valid_bytes = length ?im, sc_record_count = 0,
           sc_next_sequence = 1, sc_recoverable_tail = None, sc_values = lsm_fresh\<rparr>"
    using wal_scan_image [of 1 1 "[]" "\<lambda>_. 0" "lsm_replay_apply 0" lsm_fresh lsm_fresh] len
    by (simp add: u64_max_def wal_replay_def)
  moreover have "disk_read wal_only_disk (wal_file_name (Suc 0)) = Some ?im" by (simp add: wal_only_disk_def)
  ultimately show ?thesis
    by (simp add: lsm_verify_def layout lsm_legacy_version_def INITIAL_WAL_ID_def INITIAL_FIRST_SEQUENCE_def
        mts_new_fresh wal_verify_def Let_def)
qed

lemma lsm_verify_opens_witness:
  "\<exists>wv st. lsm_verify (\<lambda>_. 0) wal_only_disk = Inr (wv, st) \<and>
     (\<exists>e d'. lsm_open_existing (\<lambda>_. 0) wal_only_disk = (Inr e, d') \<and> lsm_engine_stats e = Inr st)"
proof -
  obtain wv st where v: "lsm_verify (\<lambda>_. 0) wal_only_disk = Inr (wv, st)" using wal_only_disk_verifies by blast
  have quiet: "dk_faults wal_only_disk = []" by (simp add: wal_only_disk_def fresh_disk_def disk_set_def)
  have "disk_read wal_only_disk CURRENT_FILE_NAME = None"
    by (simp add: wal_only_disk_def fresh_disk_def disk_read_def disk_set_def)
  then have "\<forall>v. manifest_load (\<lambda>_. 0) wal_only_disk = Inr v \<longrightarrow> vs_table_id_high_watermark v < u64_max"
    by (simp add: manifest_load_def read_current_def)
  from lsm_verify_opens [OF v quiet this] show ?thesis using v by blast
qed

end
