(* ===== verification/LsmHarness.thy ===== *)
theory LsmHarness
  imports LsmProps MemoryEngine
begin

text \<open>
  The differential harness on the LSM engine: \<open>kv_engine_pair\<close> on the models of the in-memory oracle
  and of the LSM engine.
\<close>

interpretation mem_lsm: kv_engine_pair memory_ops "\<lambda>_. True" "\<lambda>_ _. True" mem_values "\<lambda>_ _. True"
    "lsm_ops crc" "lsm_invar crc" lsm_room "lsm_abs crc" "\<lambda>_ _. True" for crc
  by unfold_locales

text \<open>On a newly created LSM database whose writes do not fail, the
  differential harness accepts every valid workload against the in-memory oracle, through all the
  log rotations, flushes, compactions and reopenings it causes, and both engines end in the state
  of the abstract ordered map.\<close>

theorem memory_lsm_differential:
  assumes "workload_validate w = Inr ()" "dk_faults d = []"
  shows "\<exists>e l r. lsm_create_new crc d = (Inr e, le_disk e) \<and>
    compare_workload memory_ops (lsm_ops crc) memory_new e w =
      (Inr \<lparr>steps_checked = length (wl_steps w)\<rparr>, l, r) \<and>
    mem_values l = snd (spec_steps om_empty (wl_steps w)) \<and> lsm_abs crc r = mem_values l"
proof -
  have "length (wl_steps w) \<le> 2147483648"
    using assms(1) by (simp add: result_iff MAX_WORKLOAD_STEPS_def)
  then obtain e where "lsm_create_new crc d = (Inr e, le_disk e)" "lsm_invar crc e" "lsm_room (length (wl_steps w)) e"
    "lsm_abs crc e = om_empty"
    using lsm_create_new_ok [OF assms(2)] by blast
  moreover have "mem_values memory_new = om_empty" by (simp add: memory_new_def)
  ultimately show ?thesis
    using mem_lsm.compare_workload_agrees [where l = memory_new and r = e and w = w and crc = crc] assms(1) by auto
qed

lemma memory_lsm_differential_witness:
  "\<exists>e l r. lsm_create_new (\<lambda>_. 0) fresh_disk = (Inr e, le_disk e) \<and>
    compare_workload memory_ops (lsm_ops (\<lambda>_. 0)) memory_new e
        \<lparr>wl_format_version = 1, wl_seed = None, wl_steps = [Put [1] [2], Reopen, Get [1]]\<rparr> =
      (Inr \<lparr>steps_checked = 3\<rparr>, l, r) \<and>
    lsm_abs (\<lambda>_. 0) r = om_insert [1] [2] om_empty"
proof -
  let ?w = "\<lparr>wl_format_version = 1, wl_seed = None, wl_steps = [Put [1] [2], Reopen, Get [1]]\<rparr>"
  have "workload_validate ?w = Inr ()"
    by (simp add: result_iff WORKLOAD_FORMAT_VERSION_def MAX_WORKLOAD_STEPS_def MAX_KEY_BYTES_def
        MAX_VALUE_BYTES_def)
  moreover have "dk_faults fresh_disk = []" by (simp add: fresh_disk_def)
  ultimately show ?thesis
    using memory_lsm_differential [of ?w fresh_disk "\<lambda>_. 0"] by fastforce
qed

end
