(* ===== verification/BtreePage.thy ===== *)
theory BtreePage
  imports KvCore Disk
begin

text \<open>
  The pages of the copy-on-write B+ tree (\<open>crates/db-storage-btree/src/lib.rs\<close>): errors, page
  kinds, the 4 KiB slotted data page with its checksum, and the mirrored superblock.  A page or
  superblock image is a list of \<open>PAGE_SIZE\<close> bytes; a method of \<open>Page\<close> that may fail returns its
  result with the page after the call.  \<open>crc\<close> is \<open>crc32fast::hash\<close>.
\<close>

definition PAGE_SIZE :: nat where "PAGE_SIZE = 4096"
definition SUPERBLOCK_COUNT :: nat where "SUPERBLOCK_COUNT = 2"
definition BT_FORMAT_VERSION :: nat where "BT_FORMAT_VERSION = 1"
definition SUPERBLOCK_MAGIC :: bytes where "SUPERBLOCK_MAGIC = ascii ''DBBPTRE'' @ [0]"
definition PAGE_MAGIC :: bytes where "PAGE_MAGIC = ascii ''BTPG''"
definition CHECKSUM_OFFSET :: nat where "CHECKSUM_OFFSET = PAGE_SIZE - 4"
definition DATA_HEADER_LEN :: nat where "DATA_HEADER_LEN = 40"
definition SLOT_LEN :: nat where "SLOT_LEN = 4"
definition ROOT_NONE :: nat where "ROOT_NONE = 0"

lemmas page_consts = PAGE_SIZE_def SUPERBLOCK_COUNT_def BT_FORMAT_VERSION_def CHECKSUM_OFFSET_def
  DATA_HEADER_LEN_def SLOT_LEN_def ROOT_NONE_def

datatype btree_error =
  BtInvalidInput
| BtIo io_kind
| BtCorruption nat
| BtUnsupportedVersion nat nat
| BtPoisoned

type_synonym 'a bt_result = "btree_error + 'a"

datatype page_kind = PkLeaf | PkInternal | PkOverflow

fun page_kind_encoded :: "page_kind \<Rightarrow> byte" where
  "page_kind_encoded PkLeaf = 1"
| "page_kind_encoded PkInternal = 2"
| "page_kind_encoded PkOverflow = 3"

definition page_kind_decode :: "byte \<Rightarrow> nat \<Rightarrow> page_kind bt_result" where
  "page_kind_decode encoded offset =
     (if encoded = 1 then Inr PkLeaf else if encoded = 2 then Inr PkInternal
      else if encoded = 3 then Inr PkOverflow else Inl (BtCorruption offset))"


subsection \<open>Checksums and extents\<close>

definition refresh_checksum :: "(bytes \<Rightarrow> 32 word) \<Rightarrow> bytes \<Rightarrow> bytes" where
  "refresh_checksum crc bs = take CHECKSUM_OFFSET bs @ crc_field (crc (take CHECKSUM_OFFSET bs))"

definition validate_checksum :: "(bytes \<Rightarrow> 32 word) \<Rightarrow> bytes \<Rightarrow> nat \<Rightarrow> unit bt_result" where
  "validate_checksum crc bs base =
     ensure (read_u32 (drop CHECKSUM_OFFSET bs) = unat (crc (take CHECKSUM_OFFSET bs)))
       (BtCorruption (base + CHECKSUM_OFFSET))"

definition committed_file_bytes :: "nat \<Rightarrow> nat bt_result" where
  "committed_file_bytes page_count = ok_or (checked_mul64 page_count PAGE_SIZE) (BtCorruption 24)"

definition page_offset :: "nat \<Rightarrow> nat bt_result" where
  "page_offset page_id = ok_or (checked_mul64 page_id PAGE_SIZE) (BtCorruption 0)"


subsection \<open>Validation of a data page\<close>

definition page_range :: "bytes \<Rightarrow> nat \<Rightarrow> nat \<Rightarrow> nat \<Rightarrow> (nat \<times> nat) bt_result" where
  \<comment> \<open>the extent of the cell that slot \<open>index\<close> names\<close>
  "page_range bs base upper index =
     (let slot = DATA_HEADER_LEN + index * SLOT_LEN;
          start = read_u16 (seg slot (slot + 2) bs);
          len = read_u16 (seg (slot + 2) (slot + 4) bs) in
      if len = 0 then Inl (BtCorruption (base + (slot + 2)))
      else if start < upper \<or> start + len > CHECKSUM_OFFSET then Inl (BtCorruption (base + slot))
      else Inr (start, start + len))"

fun check_packed :: "nat \<Rightarrow> nat \<Rightarrow> (nat \<times> nat) list \<Rightarrow> nat bt_result" where
  "check_packed base expected [] = Inr expected"
| "check_packed base expected ((start, stop) # ranges) =
     (if start \<noteq> expected then Inl (BtCorruption (base + min start CHECKSUM_OFFSET))
      else check_packed base stop ranges)"

definition validate_page_bytes :: "(bytes \<Rightarrow> 32 word) \<Rightarrow> bytes \<Rightarrow> nat \<Rightarrow> page_kind bt_result" where
  "validate_page_bytes crc bs expected_page_id =
     rbind (page_offset expected_page_id) (\<lambda>base.
     rbind (validate_checksum crc bs base) (\<lambda>_.
     rbind (ensure (take 4 bs = PAGE_MAGIC) (BtCorruption base)) (\<lambda>_.
     rbind (ensure (bs ! 4 = word_of_nat BT_FORMAT_VERSION)
              (BtUnsupportedVersion (unat (bs ! 4)) BT_FORMAT_VERSION)) (\<lambda>_.
     rbind (page_kind_decode (bs ! 5) (base + 5)) (\<lambda>kind.
     rbind (ensure (read_u16 (seg 6 8 bs) = 0) (BtCorruption (base + 6))) (\<lambda>_.
     rbind (ensure (read_u64 (seg 8 16 bs) = expected_page_id) (BtCorruption (base + 8))) (\<lambda>_.
     rbind (ensure (read_u64 (seg 16 24 bs) = 0) (BtCorruption (base + 16))) (\<lambda>_.
     let lower = read_u16 (seg 24 26 bs);
         upper = read_u16 (seg 26 28 bs);
         cell_count = read_u16 (seg 28 30 bs) in
     rbind (ensure (read_u16 (seg 30 32 bs) = 0) (BtCorruption (base + 30))) (\<lambda>_.
     rbind (ensure (lower = DATA_HEADER_LEN + cell_count * SLOT_LEN) (BtCorruption (base + 24))) (\<lambda>_.
     rbind (ensure (\<not> (lower > upper \<or> upper > CHECKSUM_OFFSET)) (BtCorruption (base + 24))) (\<lambda>_.
     rbind (ensure (list_all (\<lambda>b. b = 0) (seg lower upper bs)) (BtCorruption (base + lower))) (\<lambda>_.
     let sibling = read_u64 (seg 32 40 bs) in
     rbind (ensure (\<not> (kind = PkInternal \<and> sibling \<noteq> ROOT_NONE)) (BtCorruption (base + 32))) (\<lambda>_.
     rbind (ensure (\<not> (sibling \<noteq> ROOT_NONE \<and> sibling < SUPERBLOCK_COUNT)) (BtCorruption (base + 32))) (\<lambda>_.
     rbind (ensure (sibling \<noteq> expected_page_id) (BtCorruption (base + 32))) (\<lambda>_.
     rbind (rmapM (page_range bs base upper) [0..<cell_count]) (\<lambda>ranges.
     rbind (check_packed base upper (sort_key fst ranges)) (\<lambda>expected_start.
     rbind (ensure (expected_start = CHECKSUM_OFFSET)
              (BtCorruption (base + min expected_start CHECKSUM_OFFSET))) (\<lambda>_.
     Inr kind))))))))))))))))))"


subsection \<open>Pages\<close>

record page =
  pg_bytes :: bytes
  pg_id :: nat
  pg_kind :: page_kind

definition page_new :: "(bytes \<Rightarrow> 32 word) \<Rightarrow> nat \<Rightarrow> page_kind \<Rightarrow> page bt_result" where
  "page_new crc page_id kind =
     (if page_id < SUPERBLOCK_COUNT then Inl BtInvalidInput
      else Inr \<lparr>pg_bytes = refresh_checksum crc
                  (PAGE_MAGIC @ [word_of_nat BT_FORMAT_VERSION, page_kind_encoded kind] @ le_bytes 2 0 @
                   le_bytes 8 page_id @ le_bytes 8 0 @ le_bytes 2 DATA_HEADER_LEN @
                   le_bytes 2 CHECKSUM_OFFSET @ le_bytes 2 0 @ le_bytes 2 0 @ le_bytes 8 0 @
                   replicate (PAGE_SIZE - DATA_HEADER_LEN) 0),
                pg_id = page_id, pg_kind = kind\<rparr>)"

definition page_decode :: "(bytes \<Rightarrow> 32 word) \<Rightarrow> bytes \<Rightarrow> nat \<Rightarrow> page bt_result" where
  "page_decode crc bs expected_page_id =
     rbind (validate_page_bytes crc bs expected_page_id) (\<lambda>kind.
     Inr \<lparr>pg_bytes = bs, pg_id = expected_page_id, pg_kind = kind\<rparr>)"

definition page_cell_count :: "page \<Rightarrow> nat" where
  "page_cell_count p = read_u16 (seg 28 30 (pg_bytes p))"

definition page_free_bytes :: "page \<Rightarrow> nat" where
  "page_free_bytes p = read_u16 (seg 26 28 (pg_bytes p)) - read_u16 (seg 24 26 (pg_bytes p))"

definition page_link :: "page \<Rightarrow> nat option" where
  "page_link p = (let link = read_u64 (seg 32 40 (pg_bytes p)) in if link = ROOT_NONE then None else Some link)"

definition page_right_sibling :: "page \<Rightarrow> nat option" where
  "page_right_sibling p = (if pg_kind p = PkLeaf then page_link p else None)"

definition page_overflow_next :: "page \<Rightarrow> nat option" where
  "page_overflow_next p = (if pg_kind p = PkOverflow then page_link p else None)"

definition page_validate :: "(bytes \<Rightarrow> 32 word) \<Rightarrow> page \<Rightarrow> unit bt_result" where
  "page_validate crc p =
     rbind (validate_page_bytes crc (pg_bytes p) (pg_id p)) (\<lambda>decoded_kind.
     if decoded_kind \<noteq> pg_kind p then rbind (page_offset (pg_id p)) (\<lambda>base. Inl (BtCorruption base))
     else Inr ())"

definition page_set_link :: "(bytes \<Rightarrow> 32 word) \<Rightarrow> page_kind \<Rightarrow> page \<Rightarrow> nat option \<Rightarrow> unit bt_result \<times> page" where
  \<comment> \<open>\<open>set_right_sibling\<close> for leaves, \<open>set_overflow_next\<close> for overflow pages\<close>
  "page_set_link crc kind p link =
     (case page_validate crc p of
        Inl e \<Rightarrow> (Inl e, p)
      | Inr _ \<Rightarrow>
          (let encoded = (case link of None \<Rightarrow> ROOT_NONE | Some l \<Rightarrow> l) in
           if pg_kind p \<noteq> kind then (Inl BtInvalidInput, p)
           else if encoded \<noteq> ROOT_NONE \<and> encoded < SUPERBLOCK_COUNT then (Inl BtInvalidInput, p)
           else if encoded = pg_id p then (Inl BtInvalidInput, p)
           else (Inr (), p\<lparr>pg_bytes := refresh_checksum crc (write_at 32 (le_bytes 8 encoded) (pg_bytes p))\<rparr>)))"

definition page_set_right_sibling :: "(bytes \<Rightarrow> 32 word) \<Rightarrow> page \<Rightarrow> nat option \<Rightarrow> unit bt_result \<times> page" where
  "page_set_right_sibling crc = page_set_link crc PkLeaf"

definition page_set_overflow_next :: "(bytes \<Rightarrow> 32 word) \<Rightarrow> page \<Rightarrow> nat option \<Rightarrow> unit bt_result \<times> page" where
  "page_set_overflow_next crc = page_set_link crc PkOverflow"

definition page_insert_cell :: "(bytes \<Rightarrow> 32 word) \<Rightarrow> page \<Rightarrow> bytes \<Rightarrow> nat bt_result \<times> page" where
  "page_insert_cell crc p cell =
     (case rbind (page_validate crc p) (\<lambda>_.
           rbind (ensure (cell \<noteq> []) BtInvalidInput) (\<lambda>_.
           rbind (ok_or (try_u16 (length cell)) BtInvalidInput) (\<lambda>cell_len.
           rbind (ensure (\<not> SLOT_LEN + length cell > page_free_bytes p) BtInvalidInput) (\<lambda>_.
           rbind (ok_or (try_u16 (page_cell_count p + 1)) BtInvalidInput) (\<lambda>next_count.
           let lower = read_u16 (seg 24 26 (pg_bytes p));
               upper = read_u16 (seg 26 28 (pg_bytes p)) in
           rbind (ok_or (checked_sub64 upper (length cell)) BtInvalidInput) (\<lambda>new_upper.
           Inr (cell_len, next_count, lower, new_upper))))))) of
        Inl e \<Rightarrow> (Inl e, p)
      | Inr (cell_len, next_count, lower, new_upper) \<Rightarrow>
          (let new_lower = lower + SLOT_LEN;
               b1 = write_at new_upper cell (pg_bytes p);
               b2 = write_at lower (le_bytes 2 new_upper) b1;
               b3 = write_at (lower + 2) (le_bytes 2 cell_len) b2;
               b4 = write_at 24 (le_bytes 2 new_lower) b3;
               b5 = write_at 26 (le_bytes 2 new_upper) b4;
               b6 = write_at 28 (le_bytes 2 next_count) b5;
               p' = p\<lparr>pg_bytes := refresh_checksum crc b6\<rparr> in
           (rbind (page_validate crc p') (\<lambda>_. Inr (page_cell_count p)), p')))"

definition page_cell :: "(bytes \<Rightarrow> 32 word) \<Rightarrow> page \<Rightarrow> nat \<Rightarrow> bytes bt_result" where
  "page_cell crc p index =
     rbind (page_validate crc p) (\<lambda>_.
     if index \<ge> page_cell_count p then Inl BtInvalidInput
     else let slot = DATA_HEADER_LEN + index * SLOT_LEN;
              offset = read_u16 (seg slot (slot + 2) (pg_bytes p));
              len = read_u16 (seg (slot + 2) (slot + 4) (pg_bytes p)) in
       Inr (seg offset (offset + len) (pg_bytes p)))"


subsection \<open>Superblocks\<close>

record superblock =
  sb_slot :: nat
  sb_generation :: nat
  sb_page_count :: nat
  sb_root_page_id :: nat

definition superblock_initial :: "nat \<Rightarrow> superblock" where
  "superblock_initial slot =
     \<lparr>sb_slot = slot, sb_generation = 0, sb_page_count = SUPERBLOCK_COUNT, sb_root_page_id = ROOT_NONE\<rparr>"

definition superblock_encode :: "(bytes \<Rightarrow> 32 word) \<Rightarrow> superblock \<Rightarrow> bytes" where
  "superblock_encode crc sb =
     refresh_checksum crc
       (SUPERBLOCK_MAGIC @ le_bytes 2 BT_FORMAT_VERSION @ le_bytes 2 PAGE_SIZE @
        [word_of_nat (sb_slot sb), 0, 0, 0] @ le_bytes 8 (sb_generation sb) @
        le_bytes 8 (sb_page_count sb) @ le_bytes 8 (sb_root_page_id sb) @ le_bytes 4 0 @
        replicate (PAGE_SIZE - 44) 0)"

definition superblock_decode :: "(bytes \<Rightarrow> 32 word) \<Rightarrow> bytes \<Rightarrow> nat \<Rightarrow> superblock bt_result" where
  "superblock_decode crc bs expected_slot =
     (let base = expected_slot * PAGE_SIZE in
     rbind (validate_checksum crc bs base) (\<lambda>_.
     rbind (ensure (take 8 bs = SUPERBLOCK_MAGIC) (BtCorruption base)) (\<lambda>_.
     rbind (ensure (read_u16 (seg 8 10 bs) = BT_FORMAT_VERSION)
              (BtUnsupportedVersion (read_u16 (seg 8 10 bs)) BT_FORMAT_VERSION)) (\<lambda>_.
     rbind (ensure (read_u16 (seg 10 12 bs) = PAGE_SIZE) (BtCorruption (base + 10))) (\<lambda>_.
     rbind (ensure (bs ! 12 = word_of_nat expected_slot) (BtCorruption (base + 12))) (\<lambda>_.
     rbind (ensure (list_all (\<lambda>b. b = 0) (seg 13 16 bs)) (BtCorruption (base + 13))) (\<lambda>_.
     rbind (ensure (read_u32 (seg 40 44 bs) = 0) (BtCorruption (base + 40))) (\<lambda>_.
     rbind (ensure (list_all (\<lambda>b. b = 0) (seg 44 CHECKSUM_OFFSET bs)) (BtCorruption (base + 44))) (\<lambda>_.
     let generation = read_u64 (seg 16 24 bs);
         page_count = read_u64 (seg 24 32 bs);
         root_page_id = read_u64 (seg 32 40 bs) in
     if page_count < SUPERBLOCK_COUNT then Inl (BtCorruption (base + 24))
     else if root_page_id \<noteq> ROOT_NONE \<and> (root_page_id < SUPERBLOCK_COUNT \<or> root_page_id \<ge> page_count)
     then Inl (BtCorruption (base + 32))
     else Inr \<lparr>sb_slot = expected_slot, sb_generation = generation, sb_page_count = page_count,
               sb_root_page_id = root_page_id\<rparr>)))))))))"

definition choose_superblock :: "superblock bt_result \<Rightarrow> superblock bt_result \<Rightarrow> superblock bt_result" where
  "choose_superblock first second =
     (case (first, second) of
        (Inr a, Inr b) \<Rightarrow>
          (let generation_gap = (if sb_generation a \<le> sb_generation b then sb_generation b - sb_generation a
                                 else sb_generation a - sb_generation b) in
           if generation_gap > 1 then Inl (BtCorruption 0)
           else if sb_generation a = sb_generation b \<and>
             (sb_page_count a \<noteq> sb_page_count b \<or> sb_root_page_id a \<noteq> sb_root_page_id b)
           then Inl (BtCorruption 0)
           else if sb_generation b > sb_generation a then Inr b else Inr a)
      | (Inr valid, Inl _) \<Rightarrow> Inr valid
      | (Inl _, Inr valid) \<Rightarrow> Inr valid
      | (Inl _, Inl _) \<Rightarrow> Inl (BtCorruption 0))"

definition alternate_slot :: "nat \<Rightarrow> nat" where
  "alternate_slot slot = (if slot = 0 then 1 else 0)"

end
