(* ===== verification/BtreePageSpec.thy ===== *)
theory BtreePageSpec
  imports BtreePage "HOL-Library.Multiset"
begin

text \<open>
  What the pages hold.  \<open>page_image\<close> is the image of a page with given kind, id, link and cells;
  the operations of \<open>Page\<close> act on it as on the list of its cells.  An arbitrary accepted page is
  read through \<open>page_cells\<close>.
\<close>

subsection \<open>Writing inside a page\<close>

lemma length_write_at: "length (write_at off bs f) = (if bs = [] then length f else max (length f) (off + length bs))"
  by (auto simp: write_at_def)

lemma write_at_mid: "length b' = length b \<Longrightarrow> length a = n \<Longrightarrow> write_at n b' (a @ b @ c) = a @ b' @ c"
  by (auto simp: write_at_def)


subsection \<open>Page images\<close>

fun ranges_of :: "nat \<Rightarrow> bytes list \<Rightarrow> (nat \<times> nat) list" where
  "ranges_of upper [] = []"
| "ranges_of upper (c # cs) = (upper - length c, upper) # ranges_of (upper - length c) cs"

definition cells_bytes :: "bytes list \<Rightarrow> nat" where
  "cells_bytes cells = sum_list (map length cells)"

definition slots_of :: "bytes list \<Rightarrow> bytes" where
  "slots_of cells = concat (map (\<lambda>(s, e). le_bytes 2 s @ le_bytes 2 (e - s)) (ranges_of 4092 cells))"

definition page_header :: "page_kind \<Rightarrow> nat \<Rightarrow> nat option \<Rightarrow> bytes list \<Rightarrow> bytes" where
  "page_header kind pid link cells =
     PAGE_MAGIC @ [1, page_kind_encoded kind] @ le_bytes 2 0 @ le_bytes 8 pid @ le_bytes 8 0 @
     le_bytes 2 (40 + 4 * length cells) @ le_bytes 2 (4092 - cells_bytes cells) @
     le_bytes 2 (length cells) @ le_bytes 2 0 @ le_bytes 8 (case link of None \<Rightarrow> 0 | Some l \<Rightarrow> l)"

definition page_body :: "page_kind \<Rightarrow> nat \<Rightarrow> nat option \<Rightarrow> bytes list \<Rightarrow> bytes" where
  "page_body kind pid link cells =
     page_header kind pid link cells @ slots_of cells @
     replicate (4052 - 4 * length cells - cells_bytes cells) 0 @ concat (rev cells)"

definition page_image :: "(bytes \<Rightarrow> 32 word) \<Rightarrow> page_kind \<Rightarrow> nat \<Rightarrow> nat option \<Rightarrow> bytes list \<Rightarrow> bytes" where
  "page_image crc kind pid link cells =
     page_body kind pid link cells @ crc_field (crc (page_body kind pid link cells))"

definition page_of :: "(bytes \<Rightarrow> 32 word) \<Rightarrow> page_kind \<Rightarrow> nat \<Rightarrow> nat option \<Rightarrow> bytes list \<Rightarrow> page" where
  "page_of crc kind pid link cells =
     \<lparr>pg_bytes = page_image crc kind pid link cells, pg_id = pid, pg_kind = kind\<rparr>"

definition cells_room :: "bytes list \<Rightarrow> bool" where
  "cells_room cells \<longleftrightarrow> [] \<notin> set cells \<and> 4 * length cells + cells_bytes cells \<le> 4052"

definition page_args :: "page_kind \<Rightarrow> nat \<Rightarrow> nat option \<Rightarrow> bool" where
  "page_args kind pid link \<longleftrightarrow> 2 \<le> pid \<and> pid * 4096 \<le> u64_max \<and>
     (case link of None \<Rightarrow> True | Some l \<Rightarrow> kind \<noteq> PkInternal \<and> 2 \<le> l \<and> l \<le> u64_max \<and> l \<noteq> pid)"

lemma cells_bytes_simps [simp]:
  "cells_bytes [] = 0" "cells_bytes (c # cs) = length c + cells_bytes cs"
  "cells_bytes (cs @ ds) = cells_bytes cs + cells_bytes ds"
  by (simp_all add: cells_bytes_def)

lemma cells_bytes_rev [simp]: "cells_bytes (rev cells) = cells_bytes cells"
  by (simp add: cells_bytes_def rev_map [symmetric])

lemma length_concat_cells [simp, layout]: "length (concat cells) = cells_bytes cells"
  by (simp add: cells_bytes_def length_concat)

lemma length_ranges_of [simp]: "length (ranges_of u cells) = length cells"
  by (induction cells arbitrary: u) simp_all

lemma length_slots_of [simp, layout]: "length (slots_of cells) = 4 * length cells"
proof -
  have "length (concat (map (\<lambda>(s, e). le_bytes 2 s @ le_bytes 2 (e - s)) rs)) = 4 * length rs" for rs :: "(nat \<times> nat) list"
    by (induction rs) auto
  then show ?thesis by (simp add: slots_of_def)
qed

lemma length_page_header [simp, layout]: "length (page_header kind pid link cells) = 40"
  by (simp add: page_header_def PAGE_MAGIC_def)

lemma length_page_body: "cells_room cells \<Longrightarrow> length (page_body kind pid link cells) = 4092"
  by (simp add: page_body_def cells_room_def)

lemma length_page_image: "cells_room cells \<Longrightarrow> length (page_image crc kind pid link cells) = 4096"
  by (simp add: page_image_def length_page_body)

lemma nth_ranges_of:
  "i < length cells \<Longrightarrow> ranges_of u cells ! i = (u - cells_bytes (take (Suc i) cells), u - cells_bytes (take i cells))"
proof (induction cells arbitrary: u i)
  case Nil
  then show ?case by simp
next
  case (Cons c cells)
  then show ?case by (cases i) simp_all
qed

lemma ranges_of_snoc: "ranges_of u (cells @ [c]) = ranges_of u cells @ [(u - cells_bytes cells - length c, u - cells_bytes cells)]"
  by (induction cells arbitrary: u) simp_all

lemma slots_of_snoc:
  assumes "cells_bytes cells + length c \<le> 4092"
  shows "slots_of (cells @ [c]) = slots_of cells @ le_bytes 2 (4092 - cells_bytes cells - length c) @ le_bytes 2 (length c)"
  using assms by (simp add: slots_of_def ranges_of_snoc del: le_bytes.simps)

lemma seg_slots:
  assumes "i < length rs"
  shows "seg (4 * i) (4 * i + 2) (concat (map (\<lambda>(s, e). le_bytes 2 s @ le_bytes 2 (e - s)) rs)) = le_bytes 2 (fst (rs ! i)) \<and>
    seg (4 * i + 2) (4 * i + 4) (concat (map (\<lambda>(s, e). le_bytes 2 s @ le_bytes 2 (e - s)) rs)) = le_bytes 2 (snd (rs ! i) - fst (rs ! i))"
  using assms
proof (induction rs arbitrary: i)
  case Nil
  then show ?case by simp
next
  case (Cons r rs)
  obtain s e where r: "r = (s, e)" by force
  show ?case
  proof (cases i)
    case 0
    then show ?thesis by (simp add: r seg_append seg_0 length_seg del: le_bytes.simps)
  next
    case (Suc j)
    then show ?thesis using Cons by (simp add: r seg_append add.commute del: le_bytes.simps)
  qed
qed


text \<open>The slot array read back.\<close>

lemma seg_body:
  assumes "cells_room cells" "j \<le> 4092"
  shows "seg i j (page_image crc kind pid link cells) = seg i j (page_body kind pid link cells)"
  using assms by (simp add: page_image_def seg_append length_page_body)

lemma header_fields:
  "cells_room cells \<Longrightarrow> i \<le> 40 \<Longrightarrow> j \<le> 40 \<Longrightarrow>
     seg i j (page_image crc kind pid link cells) = seg i j (page_header kind pid link cells)"
  by (simp add: seg_body) (simp add: page_body_def seg_append)

lemma page_slot_bytes:
  assumes "cells_room cells" "i < length cells"
  shows "seg (40 + i * 4) (40 + i * 4 + 2) (page_image crc kind pid link cells) =
      le_bytes 2 (4092 - cells_bytes (take (Suc i) cells))"
    and "seg (40 + i * 4 + 2) (40 + i * 4 + 4) (page_image crc kind pid link cells) = le_bytes 2 (length (cells ! i))"
proof -
  have r: "ranges_of 4092 cells ! i = (4092 - cells_bytes (take (Suc i) cells), 4092 - cells_bytes (take i cells))"
    using assms(2) by (rule nth_ranges_of)
  have total: "cells_bytes (take (Suc i) cells) + cells_bytes (drop (Suc i) cells) = cells_bytes cells"
    by (metis append_take_drop_id cells_bytes_simps(3))
  have step: "cells_bytes (take (Suc i) cells) = cells_bytes (take i cells) + length (cells ! i)"
    using assms(2) by (simp add: take_Suc_conv_app_nth)
  have room: "40 + i * 4 + 4 \<le> 4092" using assms by (simp add: cells_room_def)
  have part: "seg (40 + a) (40 + b) (page_image crc kind pid link cells) = seg a b (slots_of cells)"
    if "b \<le> 4 * length cells" for a b
    using that assms(1) seg_after [of "page_header kind pid link cells" a b]
    by (simp add: seg_body cells_room_def) (simp add: page_body_def seg_append)
  have "seg (4 * i) (4 * i + 2) (slots_of cells) = le_bytes 2 (fst (ranges_of 4092 cells ! i))"
    "seg (4 * i + 2) (4 * i + 4) (slots_of cells) = le_bytes 2 (snd (ranges_of 4092 cells ! i) - fst (ranges_of 4092 cells ! i))"
    unfolding slots_of_def using seg_slots [of i "ranges_of 4092 cells"] assms(2) by auto
  moreover have "4092 - cells_bytes (take i cells) - (4092 - cells_bytes (take (Suc i) cells)) = length (cells ! i)"
    using step total assms(1) by (simp add: cells_room_def)
  ultimately show
    "seg (40 + i * 4) (40 + i * 4 + 2) (page_image crc kind pid link cells) = le_bytes 2 (4092 - cells_bytes (take (Suc i) cells))"
    "seg (40 + i * 4 + 2) (40 + i * 4 + 4) (page_image crc kind pid link cells) = le_bytes 2 (length (cells ! i))"
    using part [of "4 * i + 2" "4 * i"] part [of "4 * i + 4" "4 * i + 2"] assms(2) r
    by (simp_all add: mult.commute add.assoc del: le_bytes.simps)
qed

lemma cell_at:
  assumes "cells_room cells" "i < length cells"
  shows "seg (4092 - cells_bytes (take (Suc i) cells)) (4092 - cells_bytes (take (Suc i) cells) + length (cells ! i))
    (page_image crc kind pid link cells) = cells ! i"
proof -
  let ?rest = "drop (Suc i) cells" and ?pre = "take i cells"
  have split: "cells = ?pre @ cells ! i # ?rest" using assms(2) by (simp add: id_take_nth_drop)
  then have rev: "concat (rev cells) = concat (rev ?rest) @ cells ! i @ concat (rev ?pre)"
    by (metis append.assoc concat.simps(2) concat_append rev.simps(2) rev_append concat.simps(1) append_Nil2)
  have sizes: "cells_bytes cells = cells_bytes ?pre + length (cells ! i) + cells_bytes ?rest"
    "cells_bytes (take (Suc i) cells) = cells_bytes ?pre + length (cells ! i)"
    using arg_cong [OF split, of cells_bytes] assms(2) by (simp_all add: take_Suc_conv_app_nth)
  let ?front = "page_header kind pid link cells @ slots_of cells @
    replicate (4052 - 4 * length cells - cells_bytes cells) 0 @ concat (rev ?rest)"
  have image: "page_image crc kind pid link cells = ?front @ cells ! i @ concat (rev ?pre) @ crc_field (crc (page_body kind pid link cells))"
    by (simp add: page_image_def page_body_def rev)
  have len: "length ?front = 4092 - cells_bytes (take (Suc i) cells)"
    using assms(1) sizes by (simp add: cells_room_def)
  show ?thesis
    unfolding image using seg_after0 [of ?front "length (cells ! i)"] len by simp
qed


text \<open>The header read back.\<close>

lemma image_fields:
  fixes crc
  assumes "cells_room cells" "page_args kind pid link"
  defines "bs \<equiv> page_image crc kind pid link cells"
  shows "take 4 bs = PAGE_MAGIC" "bs ! 4 = 1" "bs ! 5 = page_kind_encoded kind" "read_u16 (seg 6 8 bs) = 0"
    "read_u64 (seg 8 16 bs) = pid" "read_u64 (seg 16 24 bs) = 0" "read_u16 (seg 24 26 bs) = 40 + 4 * length cells"
    "read_u16 (seg 26 28 bs) = 4092 - cells_bytes cells" "read_u16 (seg 28 30 bs) = length cells"
    "read_u16 (seg 30 32 bs) = 0" "read_u64 (seg 32 40 bs) = (case link of None \<Rightarrow> 0 | Some l \<Rightarrow> l)"
    "take 4092 bs = page_body kind pid link cells" "drop 4092 bs = crc_field (crc (page_body kind pid link cells))"
proof -
  let ?h = "page_header kind pid link cells"
  have len: "length ?h = 40" by simp
  have nth: "bs ! i = ?h ! i" if "i < 40" for i
    using that len by (simp add: bs_def page_image_def page_body_def nth_append)
  have pid: "pid \<le> u64_max" using assms(2) by (simp add: page_args_def u64_max_def)
  have link: "(case link of None \<Rightarrow> 0 | Some l \<Rightarrow> l) \<le> u64_max" using assms(2) by (auto simp: page_args_def split: option.splits)
  have small: "40 + 4 * length cells < 65536" "4092 - cells_bytes cells < 65536" "length cells < 65536"
    using assms(1) by (auto simp: cells_room_def)
  show "take 4 bs = PAGE_MAGIC"
    by (simp add: bs_def page_image_def page_body_def page_header_def PAGE_MAGIC_def)
  show "bs ! 4 = 1" "bs ! 5 = page_kind_encoded kind"
    by (simp_all add: nth page_header_def nth_append PAGE_MAGIC_def)
  note f = bs_def header_fields [OF assms(1)] page_header_def layout PAGE_MAGIC_def
  show "read_u16 (seg 6 8 bs) = 0" "read_u64 (seg 8 16 bs) = pid" "read_u64 (seg 16 24 bs) = 0"
    "read_u16 (seg 24 26 bs) = 40 + 4 * length cells"
    "read_u16 (seg 26 28 bs) = 4092 - cells_bytes cells" "read_u16 (seg 28 30 bs) = length cells"
    "read_u16 (seg 30 32 bs) = 0" "read_u64 (seg 32 40 bs) = (case link of None \<Rightarrow> 0 | Some l \<Rightarrow> l)"
    using pid small link by (simp_all add: f u64_max_def del: le_bytes.simps)
  show "take 4092 bs = page_body kind pid link cells" "drop 4092 bs = crc_field (crc (page_body kind pid link cells))"
    using assms(1) by (simp_all add: bs_def page_image_def length_page_body)
qed

lemma image_free_space:
  assumes "cells_room cells"
  shows "seg (40 + 4 * length cells) (4092 - cells_bytes cells) (page_image crc kind pid link cells) =
    replicate (4052 - 4 * length cells - cells_bytes cells) 0"
proof -
  let ?front = "page_header kind pid link cells @ slots_of cells"
  have "page_body kind pid link cells = ?front @ replicate (4052 - 4 * length cells - cells_bytes cells) 0 @ concat (rev cells)"
    by (simp add: page_body_def)
  moreover have "length ?front = 40 + 4 * length cells" by simp
  ultimately show ?thesis
    using assms seg_after0 [of ?front "4052 - 4 * length cells - cells_bytes cells"]
    by (simp add: seg_body cells_room_def)
qed

subsection \<open>Images validate\<close>

lemma insort_last: "\<forall>y \<in> set ys. f y < f x \<Longrightarrow> insort_key f x ys = ys @ [x]"
  by (induction ys) auto

lemma ranges_of_sorted:
  assumes "[] \<notin> set cells" "cells_bytes cells \<le> u"
  shows "sort_key fst (ranges_of u cells) = rev (ranges_of u cells) \<and>
    (\<forall>r \<in> set (ranges_of u cells). fst r < u)"
  using assms
proof (induction cells arbitrary: u)
  case Nil
  then show ?case by simp
next
  case (Cons c cells)
  have IH: "sort_key fst (ranges_of (u - length c) cells) = rev (ranges_of (u - length c) cells)"
    "\<forall>r \<in> set (ranges_of (u - length c) cells). fst r < u - length c"
    using Cons by auto
  have pos: "0 < length c" "length c \<le> u" using Cons.prems by auto
  have "\<forall>r \<in> set (rev (ranges_of (u - length c) cells)). fst r < fst (u - length c, u)" using IH(2) by simp
  moreover have "u - length c < u" using pos by linarith
  ultimately show ?case using IH insort_last [of "rev (ranges_of (u - length c) cells)" fst "(u - length c, u)"] by auto
qed

lemma check_packed_ranges:
  assumes "cells_bytes cells \<le> u"
  shows "check_packed base (u - cells_bytes cells) (rev (ranges_of u cells) @ rest) = check_packed base u rest"
  using assms
proof (induction cells arbitrary: u rest)
  case Nil
  then show ?case by simp
next
  case (Cons c cells)
  have "u - (length c + cells_bytes cells) = (u - length c) - cells_bytes cells" by simp
  then show ?case using Cons.IH [of "u - length c" "(u - length c, u) # rest"] Cons.prems by simp
qed

lemma decode_encoded_kind [simp]: "page_kind_decode (page_kind_encoded k) off = Inr k"
  by (cases k) (simp_all add: page_kind_decode_def)

lemma page_range_image:
  assumes "cells_room cells" "i < length cells"
  shows "page_range (page_image crc kind pid link cells) base (4092 - cells_bytes cells) i = Inr (ranges_of 4092 cells ! i)"
proof -
  have total: "cells_bytes (take (Suc i) cells) + cells_bytes (drop (Suc i) cells) = cells_bytes cells"
    by (metis append_take_drop_id cells_bytes_simps(3))
  have step: "cells_bytes (take (Suc i) cells) = cells_bytes (take i cells) + length (cells ! i)"
    using assms(2) by (simp add: take_Suc_conv_app_nth)
  have ne: "length (cells ! i) \<noteq> 0" using assms by (metis cells_room_def length_0_conv nth_mem)
  have c: "cells_bytes cells \<le> 4052" using assms(1) by (simp add: cells_room_def)
  let ?s = "4092 - cells_bytes (take (Suc i) cells)"
  have bounds: "\<not> ?s < 4092 - cells_bytes cells" "\<not> ?s + length (cells ! i) > 4092"
    "?s + length (cells ! i) = 4092 - cells_bytes (take i cells)" "?s < 65536" "length (cells ! i) < 65536"
    using total step c by linarith+
  then show ?thesis
    using page_slot_bytes [OF assms, of crc kind pid link] ne
    by (simp add: page_range_def page_consts nth_ranges_of [OF assms(2)] Let_def del: le_bytes.simps)
qed

theorem validate_page_image:
  assumes "cells_room cells" "page_args kind pid link"
  shows "validate_page_bytes crc (page_image crc kind pid link cells) pid = Inr kind"
proof -
  have pid: "pid * PAGE_SIZE \<le> u64_max" "2 \<le> pid" using assms(2) by (simp_all add: page_args_def PAGE_SIZE_def)
  have link: "kind = PkInternal \<longrightarrow> link = None" "\<forall>l. link = Some l \<longrightarrow> 2 \<le> l \<and> l \<noteq> pid"
    using assms(2) by (auto simp: page_args_def split: option.splits)
  have ranges: "rmapM (page_range (page_image crc kind pid link cells) base (4092 - cells_bytes cells)) [0..<length cells] =
      Inr (ranges_of 4092 cells)" for base
    using page_range_image [OF assms(1)] by (simp add: rmapM_eq_Inr)
  have sorted: "sort_key fst (ranges_of 4092 cells) = rev (ranges_of 4092 cells)"
    using ranges_of_sorted [of cells 4092] assms(1) by (simp add: cells_room_def)
  have packed: "check_packed base (4092 - cells_bytes cells) (rev (ranges_of 4092 cells)) = Inr 4092" for base
    using check_packed_ranges [of cells 4092 base "[]"] assms(1) by (simp add: cells_room_def)
  have room: "\<not> 4092 - cells_bytes cells < 40 + 4 * length cells" "\<not> 4092 < 4092 - cells_bytes cells"
    using assms(1) unfolding cells_room_def by linarith+
  have zero: "list_all (\<lambda>b. b = 0) (seg (40 + 4 * length cells) (4092 - cells_bytes cells) (page_image crc kind pid link cells))"
    by (simp add: image_free_space [OF assms(1)] list_all_iff)
  have offset: "page_offset pid = Inr (pid * PAGE_SIZE)" using pid by (simp add: page_offset_def checked_mul64_def)
  show ?thesis
    using image_fields [OF assms, of crc] link pid room zero ranges sorted packed
    by (simp add: validate_page_bytes_def offset validate_checksum_def CHECKSUM_OFFSET_def PAGE_SIZE_def
        DATA_HEADER_LEN_def SLOT_LEN_def ROOT_NONE_def SUPERBLOCK_COUNT_def BT_FORMAT_VERSION_def Let_def
        mult.commute [of _ "4 :: nat"] split: option.splits)
qed



subsection \<open>The operations of a page on its cells\<close>

lemma page_of_sel [simp]:
  "pg_id (page_of crc kind pid link cells) = pid" "pg_kind (page_of crc kind pid link cells) = kind"
  "pg_bytes (page_of crc kind pid link cells) = page_image crc kind pid link cells"
  by (simp_all add: page_of_def)

lemma page_validate_of:
  "cells_room cells \<Longrightarrow> page_args kind pid link \<Longrightarrow> page_validate crc (page_of crc kind pid link cells) = Inr ()"
  by (simp add: page_validate_def validate_page_image)

lemma page_decode_of:
  "cells_room cells \<Longrightarrow> page_args kind pid link \<Longrightarrow>
     page_decode crc (page_image crc kind pid link cells) pid = Inr (page_of crc kind pid link cells)"
  by (simp add: page_decode_def validate_page_image page_of_def)

lemma page_sel_of:
  assumes "cells_room cells" "page_args kind pid link"
  shows "page_cell_count (page_of crc kind pid link cells) = length cells"
    "page_free_bytes (page_of crc kind pid link cells) = 4052 - 4 * length cells - cells_bytes cells"
    "page_link (page_of crc kind pid link cells) = link"
proof -
  show "page_cell_count (page_of crc kind pid link cells) = length cells"
    "page_free_bytes (page_of crc kind pid link cells) = 4052 - 4 * length cells - cells_bytes cells"
    using image_fields [OF assms, of crc] by (simp_all add: page_cell_count_def page_free_bytes_def)
  show "page_link (page_of crc kind pid link cells) = link"
    using image_fields(11) [OF assms, of crc] assms(2)
    by (auto simp: page_link_def Let_def ROOT_NONE_def page_args_def split: option.splits)
qed

lemma refresh_image:
  "length body = 4092 \<Longrightarrow> refresh_checksum crc (body @ old) = body @ crc_field (crc body)"
  by (simp add: refresh_checksum_def CHECKSUM_OFFSET_def PAGE_SIZE_def)

theorem page_new_image:
  assumes "2 \<le> pid"
  shows "page_new crc pid kind = Inr (page_of crc kind pid None [])"
proof -
  have "PAGE_MAGIC @ [word_of_nat BT_FORMAT_VERSION, page_kind_encoded kind] @ le_bytes 2 0 @ le_bytes 8 pid @
      le_bytes 8 0 @ le_bytes 2 DATA_HEADER_LEN @ le_bytes 2 CHECKSUM_OFFSET @ le_bytes 2 0 @ le_bytes 2 0 @
      le_bytes 8 0 @ replicate (PAGE_SIZE - DATA_HEADER_LEN) 0 =
    page_body kind pid None [] @ replicate 4 0"
    by (simp add: page_body_def page_header_def page_consts slots_of_def replicate_add [symmetric]
        del: le_bytes.simps  replicate_Suc)
  then show ?thesis
    using assms
    by (simp add: page_new_def page_of_def page_image_def SUPERBLOCK_COUNT_def refresh_image length_page_body cells_room_def
        del: le_bytes.simps)
qed

theorem page_insert_cell_image:
  assumes room: "cells_room (cells @ [cell])" and args: "page_args kind pid link"
  shows "page_insert_cell crc (page_of crc kind pid link cells) cell =
    (Inr (length cells), page_of crc kind pid link (cells @ [cell]))"
proof -
  let ?n = "length cells" and ?u = "4092 - cells_bytes cells" and ?c = "length cell"
  let ?z = "4052 - 4 * ?n - cells_bytes cells"
  have r0: "cells_room cells" using room by (auto simp: cells_room_def)
  have size: "4 * ?n + cells_bytes cells + 4 + ?c \<le> 4052" "cell \<noteq> []" using room by (auto simp: cells_room_def)
  note fields = image_fields [OF r0 args, of crc]
  define h24 where "h24 = PAGE_MAGIC @ [1, page_kind_encoded kind] @ le_bytes 2 0 @ le_bytes 8 pid @ le_bytes 8 0"
  define tail where "tail = le_bytes 2 0 @ le_bytes 8 (case link of None \<Rightarrow> 0 | Some l \<Rightarrow> l)"
  have h: "page_header kind pid link cs =
      h24 @ le_bytes 2 (40 + 4 * length cs) @ le_bytes 2 (4092 - cells_bytes cs) @ le_bytes 2 (length cs) @ tail" for cs
    by (simp add: page_header_def h24_def tail_def)
  have len24: "length h24 = 24" "length tail = 10" by (simp_all add: h24_def tail_def PAGE_MAGIC_def)
  define crcf where "crcf = crc_field (crc (page_body kind pid link cells))"
  have z: "replicate ?z (0 :: byte) = replicate 2 0 @ replicate 2 0 @ replicate (?z - 4 - ?c) 0 @ replicate ?c 0"
    using size(1) by (simp add: replicate_add [symmetric] del:  replicate_Suc)
  let ?S = "slots_of cells" and ?P = "concat (rev cells) @ crcf" and ?Z = "replicate (?z - 4 - ?c) (0 :: byte)"
  have image: "page_image crc kind pid link cells =
      page_header kind pid link cells @ ?S @ replicate 2 0 @ replicate 2 0 @ ?Z @ replicate ?c 0 @ ?P"
    unfolding page_image_def page_body_def z crcf_def by simp
  have b1: "write_at (?u - ?c) cell (page_image crc kind pid link cells) =
      page_header kind pid link cells @ ?S @ replicate 2 0 @ replicate 2 0 @ ?Z @ cell @ ?P"
    unfolding image
    using write_at_mid [of cell "replicate ?c 0" "page_header kind pid link cells @ ?S @ replicate 2 0 @ replicate 2 0 @ ?Z" "?u - ?c" ?P] size
    by simp
  have b2: "write_at (40 + 4 * ?n) (le_bytes 2 (?u - ?c))
        (page_header kind pid link cells @ ?S @ replicate 2 0 @ replicate 2 0 @ ?Z @ cell @ ?P) =
      page_header kind pid link cells @ ?S @ le_bytes 2 (?u - ?c) @ replicate 2 0 @ ?Z @ cell @ ?P"
    using write_at_mid [of "le_bytes 2 (?u - ?c)" "replicate 2 0" "page_header kind pid link cells @ ?S"] by simp
  have b3: "write_at (42 + 4 * ?n) (le_bytes 2 ?c)
        (page_header kind pid link cells @ ?S @ le_bytes 2 (?u - ?c) @ replicate 2 0 @ ?Z @ cell @ ?P) =
      page_header kind pid link cells @ ?S @ le_bytes 2 (?u - ?c) @ le_bytes 2 ?c @ ?Z @ cell @ ?P"
    using write_at_mid [of "le_bytes 2 ?c" "replicate 2 0" "page_header kind pid link cells @ ?S @ le_bytes 2 (?u - ?c)"]
    by (simp del: le_bytes.simps)
  let ?R = "?S @ le_bytes 2 (?u - ?c) @ le_bytes 2 ?c @ ?Z @ cell @ ?P"
  have b4: "write_at 24 (le_bytes 2 (44 + 4 * ?n)) (page_header kind pid link cells @ ?R) =
      h24 @ le_bytes 2 (44 + 4 * ?n) @ le_bytes 2 ?u @ le_bytes 2 ?n @ tail @ ?R"
    unfolding h append_assoc using len24 by (intro write_at_mid) simp_all
  have b5: "write_at 26 (le_bytes 2 (?u - ?c)) (h24 @ le_bytes 2 (44 + 4 * ?n) @ le_bytes 2 ?u @ le_bytes 2 ?n @ tail @ ?R) =
      h24 @ le_bytes 2 (44 + 4 * ?n) @ le_bytes 2 (?u - ?c) @ le_bytes 2 ?n @ tail @ ?R"
    using write_at_mid [of "le_bytes 2 (?u - ?c)" "le_bytes 2 ?u" "h24 @ le_bytes 2 (44 + 4 * ?n)" 26] len24
    by (simp del: le_bytes.simps)
  have b6: "write_at 28 (le_bytes 2 (?n + 1)) (h24 @ le_bytes 2 (44 + 4 * ?n) @ le_bytes 2 (?u - ?c) @ le_bytes 2 ?n @ tail @ ?R) =
      h24 @ le_bytes 2 (44 + 4 * ?n) @ le_bytes 2 (?u - ?c) @ le_bytes 2 (?n + 1) @ tail @ ?R"
    using write_at_mid [of "le_bytes 2 (?n + 1)" "le_bytes 2 ?n" "h24 @ le_bytes 2 (44 + 4 * ?n) @ le_bytes 2 (?u - ?c)" 28] len24
    by (simp del: le_bytes.simps)
  have "4052 - 4 * Suc ?n - (cells_bytes cells + ?c) = ?z - 4 - ?c" by simp
  then have body: "page_body kind pid link (cells @ [cell]) @ crcf =
      h24 @ le_bytes 2 (44 + 4 * ?n) @ le_bytes 2 (?u - ?c) @ le_bytes 2 (?n + 1) @ tail @ ?R"
    using size by (simp add: page_body_def h slots_of_snoc diff_diff_left del: le_bytes.simps)
  have l40: "DATA_HEADER_LEN + ?n * 4 = 40 + 4 * ?n" by (simp add: DATA_HEADER_LEN_def)
  have guards: "\<not> 4 + ?c > 4052 - 4 * ?n - cells_bytes cells" "?c \<le> 65535" "?n + 1 \<le> 65535" "?c \<le> ?u"
    using size by linarith+
  have new: "refresh_checksum crc (page_body kind pid link (cells @ [cell]) @ crcf) = page_image crc kind pid link (cells @ [cell])"
    by (simp add: refresh_image length_page_body room page_image_def)
  let ?p = "page_of crc kind pid link cells"
  have pre: "rbind (page_validate crc ?p) (\<lambda>_. rbind (ensure (cell \<noteq> []) BtInvalidInput) (\<lambda>_.
           rbind (ok_or (try_u16 ?c) BtInvalidInput) (\<lambda>cell_len.
           rbind (ensure (\<not> SLOT_LEN + ?c > page_free_bytes ?p) BtInvalidInput) (\<lambda>_.
           rbind (ok_or (try_u16 (page_cell_count ?p + 1)) BtInvalidInput) (\<lambda>next_count.
           let lower = read_u16 (seg 24 26 (pg_bytes ?p));
               upper = read_u16 (seg 26 28 (pg_bytes ?p)) in
           rbind (ok_or (checked_sub64 upper ?c) BtInvalidInput) (\<lambda>new_upper.
           Inr (cell_len, next_count, lower, new_upper))))))) = Inr (?c, ?n + 1, 40 + 4 * ?n, ?u - ?c)"
    using guards size(2) fields(7,8)
    by (simp add: page_validate_of r0 args page_sel_of try_u16_def checked_sub64_def SLOT_LEN_def)
  have bytes: "write_at 28 (le_bytes 2 (?n + 1)) (write_at 26 (le_bytes 2 (?u - ?c)) (write_at 24 (le_bytes 2 (40 + 4 * ?n + SLOT_LEN))
      (write_at (40 + 4 * ?n + 2) (le_bytes 2 ?c) (write_at (40 + 4 * ?n) (le_bytes 2 (?u - ?c))
        (write_at (?u - ?c) cell (page_image crc kind pid link cells)))))) = page_body kind pid link (cells @ [cell]) @ crcf"
    using b1 b2 b3 b4 b5 b6 body by (simp add: SLOT_LEN_def add.commute del: le_bytes.simps)
  have p': "?p\<lparr>pg_bytes := page_image crc kind pid link (cells @ [cell])\<rparr> = page_of crc kind pid link (cells @ [cell])"
    by (simp add: page_of_def)
  show ?thesis
    unfolding page_insert_cell_def pre
    by (simp only: sum.case prod.case Let_def page_of_sel bytes new p')
       (simp add: page_validate_of room args page_sel_of r0)
qed

theorem page_set_link_image:
  assumes room: "cells_room cells" and args: "page_args kind pid old" "page_args kind pid link"
  shows "page_set_link crc kind (page_of crc kind pid old cells) link = (Inr (), page_of crc kind pid link cells)"
proof -
  define h32 where "h32 = PAGE_MAGIC @ [1, page_kind_encoded kind] @ le_bytes 2 0 @ le_bytes 8 pid @ le_bytes 8 0 @
    le_bytes 2 (40 + 4 * length cells) @ le_bytes 2 (4092 - cells_bytes cells) @ le_bytes 2 (length cells) @ le_bytes 2 0"
  let ?f = "\<lambda>l. le_bytes 8 (case l of None \<Rightarrow> 0 | Some l \<Rightarrow> l)"
  define rest where "rest = slots_of cells @ replicate (4052 - 4 * length cells - cells_bytes cells) 0 @ concat (rev cells)"
  have body: "page_body kind pid l cells = h32 @ ?f l @ rest" for l
    by (simp add: page_body_def page_header_def h32_def rest_def)
  have len: "length h32 = 32" by (simp add: h32_def PAGE_MAGIC_def)
  have "write_at 32 (?f link) (page_image crc kind pid old cells) =
      page_body kind pid link cells @ crc_field (crc (page_body kind pid old cells))"
    unfolding page_image_def body append_assoc using len by (intro write_at_mid) simp_all
  then have w: "refresh_checksum crc (write_at 32 (?f link) (page_image crc kind pid old cells)) = page_image crc kind pid link cells"
    by (simp add: refresh_image length_page_body room page_image_def)
  let ?l = "case link of None \<Rightarrow> 0 | Some l \<Rightarrow> l"
  have ok: "\<not> (?l \<noteq> 0 \<and> ?l < SUPERBLOCK_COUNT)" "?l \<noteq> pid"
    using args(2) by (auto simp: page_args_def SUPERBLOCK_COUNT_def split: option.splits)
  have root: "(case link of None \<Rightarrow> ROOT_NONE | Some l \<Rightarrow> l) = ?l" by (simp add: ROOT_NONE_def split: option.split)
  have p': "(page_of crc kind pid old cells)\<lparr>pg_bytes := page_image crc kind pid link cells\<rparr> = page_of crc kind pid link cells"
    by (simp add: page_of_def)
  show ?thesis
    using ok w p' root by (simp add: page_set_link_def page_validate_of room args Let_def ROOT_NONE_def)
qed



subsection \<open>Arbitrary accepted pages\<close>

text \<open>The cells of a page, by its slots.\<close>

definition page_cells :: "page \<Rightarrow> bytes list" where
  "page_cells p =
     map (\<lambda>i. let slot = DATA_HEADER_LEN + i * SLOT_LEN;
                  offset = read_u16 (seg slot (slot + 2) (pg_bytes p));
                  len = read_u16 (seg (slot + 2) (slot + 4) (pg_bytes p)) in
              seg offset (offset + len) (pg_bytes p)) [0..<page_cell_count p]"

lemma length_page_cells [simp]: "length (page_cells p) = page_cell_count p"
  by (simp add: page_cells_def)

lemma page_cell_nth:
  "page_validate crc p = Inr () \<Longrightarrow> i < page_cell_count p \<Longrightarrow> page_cell crc p i = Inr (page_cells p ! i)"
  by (simp add: page_cell_def page_cells_def Let_def)

lemma page_cells_of:
  assumes "cells_room cells" "page_args kind pid link"
  shows "page_cells (page_of crc kind pid link cells) = cells"
proof (rule nth_equalityI)
  show "length (page_cells (page_of crc kind pid link cells)) = length cells"
    by (simp add: page_sel_of [OF assms])
  fix i assume "i < length (page_cells (page_of crc kind pid link cells))"
  then have i: "i < length cells" by (simp add: page_sel_of [OF assms])
  have step: "cells_bytes (take (Suc i) cells) = cells_bytes (take i cells) + length (cells ! i)"
    using i by (simp add: take_Suc_conv_app_nth)
  have total: "cells_bytes (take (Suc i) cells) + cells_bytes (drop (Suc i) cells) = cells_bytes cells"
    by (metis append_take_drop_id cells_bytes_simps(3))
  have small: "4092 - cells_bytes (take (Suc i) cells) < 65536" "length (cells ! i) < 65536"
    using step total assms(1) unfolding cells_room_def by linarith+
  show "page_cells (page_of crc kind pid link cells) ! i = cells ! i"
    using i page_slot_bytes [OF assms(1) i, of crc kind pid link] cell_at [OF assms(1) i, of crc kind pid link] small
    by (simp add: page_cells_def page_sel_of [OF assms] DATA_HEADER_LEN_def SLOT_LEN_def Let_def del: le_bytes.simps)
qed

lemma page_decode_valid:
  assumes "page_decode crc bs pid = Inr p"
  shows "page_validate crc p = Inr ()" "pg_id p = pid" "pg_bytes p = bs"
  using assms by (auto simp: page_decode_def page_validate_def rbind_eq_Inr)

text \<open>Cells of an accepted page are nonempty, lie in the payload and fit the page.\<close>

lemma check_packed_sound:
  assumes "check_packed base u rs = Inr v" "\<forall>(s, e) \<in> set rs. s < e"
  shows "u \<le> v \<and> sum_list (map (\<lambda>(s, e). e - s) rs) = v - u"
  using assms
proof (induction rs arbitrary: u)
  case Nil
  then show ?case by simp
next
  case (Cons r rs)
  obtain s e where r: "r = (s, e)" by force
  then show ?case using Cons by (fastforce split: if_splits)
qed

theorem page_valid_cells:
  assumes "page_validate crc p = Inr ()" "length (pg_bytes p) = 4096" "2 \<le> pg_id p"
  shows "cells_room (page_cells p) \<and> page_args (pg_kind p) (pg_id p) (page_link p)"
proof -
  let ?bs = "pg_bytes p" and ?n = "page_cell_count p"
  obtain base ranges where v: "page_offset (pg_id p) = Inr base"
    "read_u16 (seg 24 26 ?bs) = 40 + 4 * ?n" "read_u16 (seg 24 26 ?bs) \<le> read_u16 (seg 26 28 ?bs)"
    "read_u16 (seg 26 28 ?bs) \<le> 4092"
    "pg_kind p = PkInternal \<longrightarrow> read_u64 (seg 32 40 ?bs) = 0"
    "read_u64 (seg 32 40 ?bs) = 0 \<or> 2 \<le> read_u64 (seg 32 40 ?bs)" "read_u64 (seg 32 40 ?bs) \<noteq> pg_id p"
    "rmapM (page_range ?bs base (read_u16 (seg 26 28 ?bs))) [0..<?n] = Inr ranges"
    "check_packed base (read_u16 (seg 26 28 ?bs)) (sort_key fst ranges) = Inr 4092"
    using assms(1)
    by (auto simp: page_validate_def validate_page_bytes_def rbind_eq_Inr ensure_eq_Inr page_consts Let_def
        page_cell_count_def not_le mult.commute split: if_splits)
  have pid: "pg_id p * 4096 \<le> u64_max" using v(1) by (simp add: page_offset_def result_iff PAGE_SIZE_def)
  have range: "i < ?n \<Longrightarrow> page_range ?bs base (read_u16 (seg 26 28 ?bs)) i = Inr (ranges ! i)" for i
    using v(8) by (simp add: rmapM_eq_Inr)
  have lr: "length ranges = ?n" using v(8) by (simp add: rmapM_eq_Inr)
  have cell: "fst (ranges ! i) < snd (ranges ! i) \<and> snd (ranges ! i) \<le> 4092 \<and>
      page_cells p ! i = seg (fst (ranges ! i)) (snd (ranges ! i)) ?bs" if "i < ?n" for i
    using range [OF that] that
    by (cases "ranges ! i") (auto simp: page_range_def page_cells_def page_consts Let_def split: if_splits)
  have lens: "map length (page_cells p) = map (\<lambda>(s, e). e - s) ranges"
  proof (rule nth_equalityI)
    fix i assume "i < length (map length (page_cells p))"
    then have i: "i < ?n" by simp
    then show "map length (page_cells p) ! i = map (\<lambda>(s, e). e - s) ranges ! i"
      using cell [OF i] lr assms(2) by (cases "ranges ! i") (auto simp: length_seg min_def)
  qed (simp add: lr)
  have pos: "\<forall>(s, e) \<in> set ranges. s < e"
    using cell lr by (auto simp: set_conv_nth) (metis fst_conv snd_conv)
  have "cells_bytes (page_cells p) = sum_list (map (\<lambda>(s, e). e - s) (sort_key fst ranges))"
    unfolding cells_bytes_def lens by (metis mset_map mset_sort sum_mset_sum_list)
  then have total: "cells_bytes (page_cells p) = 4092 - read_u16 (seg 26 28 ?bs)"
    using check_packed_sound [OF v(9)] pos by simp
  have "[] \<notin> set (page_cells p)"
    using lens pos lr by (metis (no_types, lifting) cell length_page_cells in_set_conv_nth length_0_conv length_map nth_map split_beta diff_is_0_eq not_less)
  then have "cells_room (page_cells p)" using total v(2-4) by (simp add: cells_room_def)
  moreover have "page_args (pg_kind p) (pg_id p) (page_link p)"
    using assms(3) pid v(5-7) le_val_less [of "take 8 (seg 32 40 ?bs)"]
    by (auto simp: page_args_def page_link_def Let_def ROOT_NONE_def read_u64_def length_seg assms(2) u64_max_def)
  ultimately show ?thesis by blast
qed

end
