(* ===== verification/StateResult.thy ===== *)
theory StateResult
  imports DbPrelude
begin

text \<open>
  Methods with \<open>&mut self\<close> that may return early: a state in, a result and the state after it out.
  \<open>sbind\<close> is the question-mark operator between two such calls; the state reached by the first
  is kept when it fails.
\<close>

type_synonym ('s, 'e, 'a) act = "'s \<Rightarrow> ('e + 'a) \<times> 's"

definition sbind :: "('s, 'e, 'a) act \<Rightarrow> ('a \<Rightarrow> ('s, 'e, 'b) act) \<Rightarrow> ('s, 'e, 'b) act" where
  "sbind m f s = (case m s of (Inl e, s') \<Rightarrow> (Inl e, s') | (Inr x, s') \<Rightarrow> f x s')"

definition sret :: "'a \<Rightarrow> ('s, 'e, 'a) act" where
  "sret x s = (Inr x, s)"

definition sfail :: "'e \<Rightarrow> ('s, 'e, 'a) act" where
  "sfail e s = (Inl e, s)"

text \<open>A computation that does not touch the state, and one that reads it.\<close>

definition slift :: "'e + 'a \<Rightarrow> ('s, 'e, 'a) act" where
  "slift r s = (r, s)"

definition sread :: "('s \<Rightarrow> 'a) \<Rightarrow> ('s, 'e, 'a) act" where
  "sread f s = (Inr (f s), s)"

definition smodify :: "('s \<Rightarrow> 's) \<Rightarrow> ('s, 'e, unit) act" where
  "smodify f s = (Inr (), f s)"

text \<open>Loops over a list.\<close>

fun smapM :: "('a \<Rightarrow> ('s, 'e, 'b) act) \<Rightarrow> 'a list \<Rightarrow> ('s, 'e, 'b list) act" where
  "smapM f [] = sret []"
| "smapM f (x # xs) = sbind (f x) (\<lambda>y. sbind (smapM f xs) (\<lambda>ys. sret (y # ys)))"

fun sfold :: "('b \<Rightarrow> 'a \<Rightarrow> ('s, 'e, 'b) act) \<Rightarrow> 'b \<Rightarrow> 'a list \<Rightarrow> ('s, 'e, 'b) act" where
  "sfold f acc [] = sret acc"
| "sfold f acc (x # xs) = sbind (f acc x) (\<lambda>acc'. sfold f acc' xs)"

lemma sbind_simps [simp]:
  "sbind (sret x) f s = f x s" "sbind (sfail e) f s = (Inl e, s)" "sbind (slift (Inr x)) f s = f x s"
  "sbind (slift (Inl e)) f s = (Inl e, s)" "sbind (sread g) f s = f (g s) s" "sbind (smodify h) k s = k () (h s)"
  by (simp_all add: sbind_def sret_def sfail_def slift_def sread_def smodify_def)

lemma act_simps:
  "sret x s = (Inr x, s)" "sfail e s = (Inl e, s)" "slift r s = (r, s)" "sread g s = (Inr (g s), s)"
  "smodify h s = (Inr (), h s)"
  by (simp_all add: sret_def sfail_def slift_def sread_def smodify_def)

lemma sbind_run:
  "m s = (Inr x, s') \<Longrightarrow> sbind m f s = f x s'" "m s = (Inl e, s') \<Longrightarrow> sbind m f s = (Inl e, s')"
  by (simp_all add: sbind_def)

lemma sbind_eq_Inr: "sbind m f s = (Inr y, s'') \<longleftrightarrow> (\<exists>x s'. m s = (Inr x, s') \<and> f x s' = (Inr y, s''))"
  by (auto simp: sbind_def split: prod.split sum.split)

lemma sbind_assoc: "sbind (sbind m f) g = sbind m (\<lambda>x. sbind (f x) g)"
  by (simp add: sbind_def fun_eq_iff split: prod.split sum.split)

lemma sbind_pure: "sbind (sret x) f = f x" "sbind (slift (Inr x)) f = f x"
  by (simp_all add: fun_eq_iff)

lemma sbind_cases:
  assumes "sbind m f s = (r, s'')"
  obtains (fail) e where "m s = (Inl e, s'')" "r = Inl e"
  | (run) x s' where "m s = (Inr x, s')" "f x s' = (r, s'')"
  using assms by (auto simp: sbind_def split: prod.splits sum.splits)

subsection \<open>What every run keeps\<close>

text \<open>\<open>keeps R m\<close>: whatever \<open>m\<close> returns, the states before and after it are related.\<close>

definition keeps :: "('s \<Rightarrow> 's \<Rightarrow> bool) \<Rightarrow> ('s, 'e, 'a) act \<Rightarrow> bool" where
  "keeps R m \<longleftrightarrow> (\<forall>s. R s (snd (m s)))"

lemma keepsD: "keeps R m \<Longrightarrow> m s = (r, s') \<Longrightarrow> R s s'"
  by (metis keeps_def snd_conv)

lemma keepsI: "(\<And>s r s'. m s = (r, s') \<Longrightarrow> R s s') \<Longrightarrow> keeps R m"
  unfolding keeps_def by (metis prod.collapse)

lemma keeps_bind:
  assumes "transp R" "keeps R m" "\<And>x. keeps R (f x)"
  shows "keeps R (sbind m f)"
proof (rule keepsI)
  fix s r s' assume "sbind m f s = (r, s')"
  then show "R s s'"
    by (cases rule: sbind_cases) (use assms in \<open>auto dest: keepsD elim: transpE\<close>)
qed

lemma keeps_pure:
  assumes "reflp R"
  shows "keeps R (sret x)" "keeps R (sfail e)" "keeps R (slift y)" "keeps R (sread g)"
  using assms by (auto simp: keeps_def reflp_def act_simps)

lemma keeps_if: "keeps R m \<Longrightarrow> keeps R n \<Longrightarrow> keeps R (if b then m else n)"
  by simp

lemma keeps_mapM:
  assumes "reflp R" "transp R" "\<And>x. x \<in> set xs \<Longrightarrow> keeps R (f x)"
  shows "keeps R (smapM f xs)"
  using assms(3) by (induction xs) (auto intro!: keeps_bind keeps_pure assms(1,2))

lemma keeps_fold:
  assumes "reflp R" "transp R" "\<And>acc x. x \<in> set xs \<Longrightarrow> keeps R (f acc x)"
  shows "keeps R (sfold f acc xs)"
  using assms(3) by (induction xs arbitrary: acc) (auto intro!: keeps_bind keeps_pure assms(1,2))

end
