(* ===== verification/BtreePager.thy ===== *)
theory BtreePager
  imports BtreePageSpec StateResult
begin

text \<open>
  The pager (\<open>crates/db-storage-btree/src/lib.rs\<close>): the page file with two mirrored superblocks, the
  bounded cache of validated pages, allocation, recycling and root publication.  \<open>pr_file\<close> is the
  content of the file, \<open>pr_faults\<close> what the system will do with the next durable writes, one entry
  per write.  The tree extends the record \<open>pager\<close>, as \<open>BPlusTree\<close> owns its pager, so the methods
  are stated for every extension.
\<close>

subsection \<open>The page cache\<close>

record page_cache =
  pc_capacity :: nat
  pc_pages :: "(nat, page) ordmap"
  pc_order :: "nat list"

definition cache_new :: "nat \<Rightarrow> page_cache" where
  "cache_new capacity = \<lparr>pc_capacity = capacity, pc_pages = om_empty, pc_order = []\<rparr>"

definition cache_touch :: "nat \<Rightarrow> page_cache \<Rightarrow> page_cache" where
  "cache_touch page_id c = c\<lparr>pc_order := remove1 page_id (pc_order c) @ [page_id]\<rparr>"

definition cache_get :: "nat \<Rightarrow> page_cache \<Rightarrow> page option \<times> page_cache" where
  "cache_get page_id c =
     (case om_lookup (pc_pages c) page_id of
        None \<Rightarrow> (None, c)
      | Some p \<Rightarrow> (Some p, cache_touch page_id c))"

definition cache_insert :: "page \<Rightarrow> page_cache \<Rightarrow> page_cache" where
  "cache_insert p c =
     (let page_id = pg_id p;
          c1 = c\<lparr>pc_pages := om_insert page_id p (pc_pages c)\<rparr> in
      if om_lookup (pc_pages c) page_id \<noteq> None then cache_touch page_id c1
      else let c2 = (if om_size (pc_pages c1) > pc_capacity c1
                     then case pc_order c1 of
                            [] \<Rightarrow> c1
                          | evicted # order \<Rightarrow> c1\<lparr>pc_pages := om_remove evicted (pc_pages c1), pc_order := order\<rparr>
                     else c1) in
           c2\<lparr>pc_order := pc_order c2 @ [page_id]\<rparr>)"

definition validate_cache_capacity :: "nat \<Rightarrow> unit bt_result" where
  "validate_cache_capacity capacity = ensure (capacity \<noteq> 0) BtInvalidInput"


subsection \<open>The pager\<close>

record pager =
  pr_file :: bytes
  pr_faults :: "write_fault option list"
  pr_active :: superblock
  pr_cache :: page_cache
  pr_recovered_allocation :: "(nat \<times> nat) option"
  pr_read_page_calls :: nat
  pr_data_page_bytes_written :: nat
  pr_poisoned :: bool

datatype durable_write_kind =
  AppendPage page_kind | RecycledPage page_kind | AllocationSuperblock | RootSuperblock

definition pager_start :: "bytes \<Rightarrow> write_fault option list \<Rightarrow> superblock \<Rightarrow> nat \<Rightarrow> (nat \<times> nat) option \<Rightarrow> pager" where
  "pager_start f faults active capacity recovered =
     \<lparr>pr_file = f, pr_faults = faults, pr_active = active, pr_cache = cache_new capacity,
      pr_recovered_allocation = recovered, pr_read_page_calls = 0, pr_data_page_bytes_written = 0,
      pr_poisoned = False\<rparr>"

text \<open>\<open>Pager::create_new\<close>: \<open>existing\<close> is the file at the path; the two superblocks and their sync
  are one durable write.  The second component is the file afterwards.\<close>

definition pager_create_new ::
    "(bytes \<Rightarrow> 32 word) \<Rightarrow> bytes option \<Rightarrow> nat \<Rightarrow> write_fault option list \<Rightarrow> pager bt_result \<times> bytes option" where
  "pager_create_new crc existing capacity faults =
     (case validate_cache_capacity capacity of
        Inl e \<Rightarrow> (Inl e, existing)
      | Inr _ \<Rightarrow>
          (if existing \<noteq> None then (Inl (BtIo AlreadyExists), existing)
           else let first = superblock_initial 0; second = superblock_initial 1;
                    f = superblock_encode crc first @ superblock_encode crc second in
             (case faults of
                [] \<Rightarrow> (Inr (pager_start f [] first capacity None), Some f)
              | None # rest \<Rightarrow> (Inr (pager_start f rest first capacity None), Some f)
              | Some (BeforeWrite k) # _ \<Rightarrow> (Inl (BtIo k), Some [])
              | Some (TornWrite n k) # _ \<Rightarrow> (Inl (BtIo k), Some (take n f)))))"

definition file_read :: "nat \<Rightarrow> bytes \<Rightarrow> bytes bt_result" where
  \<comment> \<open>\<open>seek\<close> and \<open>read_exact\<close> of one page\<close>
  "file_read offset f =
     (if offset + PAGE_SIZE \<le> length f then Inr (seg offset (offset + PAGE_SIZE) f) else Inl (BtIo UnexpectedEof))"

definition read_superblock :: "(bytes \<Rightarrow> 32 word) \<Rightarrow> bytes \<Rightarrow> nat \<Rightarrow> superblock bt_result" where
  "read_superblock crc f slot = rbind (file_read (slot * PAGE_SIZE) f) (\<lambda>bs. superblock_decode crc bs slot)"

definition pager_open ::
    "(bytes \<Rightarrow> 32 word) \<Rightarrow> bytes option \<Rightarrow> nat \<Rightarrow> write_fault option list \<Rightarrow> pager bt_result \<times> bytes option" where
  "pager_open crc existing capacity faults =
     (case rbind (validate_cache_capacity capacity) (\<lambda>_.
           rbind (ok_or existing (BtIo NotFound)) (\<lambda>f.
           rbind (ensure (\<not> length f < SUPERBLOCK_COUNT * PAGE_SIZE) (BtCorruption 0)) (\<lambda>_.
           rbind (choose_superblock (read_superblock crc f 0) (read_superblock crc f 1)) (\<lambda>active.
           rbind (committed_file_bytes (sb_page_count active)) (\<lambda>committed.
           if length f < committed then Inl (BtCorruption (length f))
           else if length f > committed then
             (if length f - committed > PAGE_SIZE then Inl (BtCorruption committed)
              else Inr (take committed f, active, Some (sb_page_count active, length f - committed)))
           else Inr (f, active, None)))))) of
        Inl e \<Rightarrow> (Inl e, existing)
      | Inr (f, active, recovered) \<Rightarrow> (Inr (pager_start f faults active capacity recovered), Some f))"

definition pager_data_page_count :: "'a pager_scheme \<Rightarrow> nat" where
  "pager_data_page_count s = sb_page_count (pr_active s) - SUPERBLOCK_COUNT"

definition pager_root_page_id :: "'a pager_scheme \<Rightarrow> nat option" where
  "pager_root_page_id s =
     (if sb_root_page_id (pr_active s) = ROOT_NONE then None else Some (sb_root_page_id (pr_active s)))"

definition pager_ensure_usable :: "('a pager_scheme, btree_error, unit) act" where
  "pager_ensure_usable s = (ensure (\<not> pr_poisoned s) BtPoisoned, s)"

definition validate_committed_page_id :: "nat \<Rightarrow> ('a pager_scheme, btree_error, unit) act" where
  "validate_committed_page_id page_id s =
     (ensure (\<not> (page_id < SUPERBLOCK_COUNT \<or> page_id \<ge> sb_page_count (pr_active s))) BtInvalidInput, s)"

definition pager_prepare_new_page :: "(bytes \<Rightarrow> 32 word) \<Rightarrow> page_kind \<Rightarrow> ('a pager_scheme, btree_error, page) act" where
  "pager_prepare_new_page crc kind =
     sbind pager_ensure_usable (\<lambda>_. sbind (sread (\<lambda>s. sb_page_count (pr_active s))) (\<lambda>page_id.
     slift (page_new crc page_id kind)))"

definition write_durable_bytes :: "nat \<Rightarrow> bytes \<Rightarrow> durable_write_kind \<Rightarrow> ('a pager_scheme, btree_error, unit) act" where
  "write_durable_bytes offset bs kind s =
     (let s1 = s\<lparr>pr_faults := drop 1 (pr_faults s)\<rparr> in
      case (case pr_faults s of [] \<Rightarrow> None | fault # _ \<Rightarrow> fault) of
        Some (BeforeWrite k) \<Rightarrow> (Inl (BtIo k), s1)
      | Some (TornWrite n k) \<Rightarrow> (Inl (BtIo k), s1\<lparr>pr_file := write_at offset (take n bs) (pr_file s1)\<rparr>)
      | None \<Rightarrow>
          (let s2 = s1\<lparr>pr_file := write_at offset bs (pr_file s1)\<rparr> in
           (Inr (), case kind of
              AppendPage _ \<Rightarrow> s2\<lparr>pr_data_page_bytes_written := saturating_add64 (pr_data_page_bytes_written s2) (length bs)\<rparr>
            | RecycledPage _ \<Rightarrow> s2\<lparr>pr_data_page_bytes_written := saturating_add64 (pr_data_page_bytes_written s2) (length bs)\<rparr>
            | AllocationSuperblock \<Rightarrow> s2
            | RootSuperblock \<Rightarrow> s2)))"

definition write_superblock_durable ::
    "(bytes \<Rightarrow> 32 word) \<Rightarrow> superblock \<Rightarrow> durable_write_kind \<Rightarrow> ('a pager_scheme, btree_error, unit) act" where
  "write_superblock_durable crc sb kind = write_durable_bytes (sb_slot sb * PAGE_SIZE) (superblock_encode crc sb) kind"

text \<open>\<open>if let Err(error) = \<dots> { self.poisoned = true; return Err(error) }\<close>.\<close>

definition poison_on_error :: "('a pager_scheme, btree_error, 'b) act \<Rightarrow> ('a pager_scheme, btree_error, 'b) act" where
  "poison_on_error m s = (case m s of (Inl e, s') \<Rightarrow> (Inl e, s'\<lparr>pr_poisoned := True\<rparr>) | (Inr x, s') \<Rightarrow> (Inr x, s'))"

definition pager_commit_new_page :: "(bytes \<Rightarrow> 32 word) \<Rightarrow> page \<Rightarrow> ('a pager_scheme, btree_error, nat) act" where
  "pager_commit_new_page crc p =
     sbind pager_ensure_usable (\<lambda>_.
     sbind (slift (page_validate crc p)) (\<lambda>_.
     sbind (sread pr_active) (\<lambda>active.
     sbind (slift (ensure (pg_id p = sb_page_count active) BtInvalidInput)) (\<lambda>_.
     sbind (slift (ok_or (checked_add64 (sb_generation active) 1) (BtCorruption 0))) (\<lambda>next_generation.
     sbind (slift (ok_or (checked_add64 (sb_page_count active) 1) (BtCorruption 0))) (\<lambda>next_page_count.
     let next_superblock = \<lparr>sb_slot = alternate_slot (sb_slot active), sb_generation = next_generation,
           sb_page_count = next_page_count, sb_root_page_id = sb_root_page_id active\<rparr> in
     sbind (slift (committed_file_bytes (sb_page_count active))) (\<lambda>expected_bytes.
     sbind (sread (\<lambda>s. length (pr_file s))) (\<lambda>physical_bytes.
     sbind (slift (ensure (physical_bytes = expected_bytes) (BtCorruption (min physical_bytes expected_bytes)))) (\<lambda>_.
     sbind (poison_on_error (write_durable_bytes expected_bytes (pg_bytes p) (AppendPage (pg_kind p)))) (\<lambda>_.
     sbind (poison_on_error (write_superblock_durable crc next_superblock AllocationSuperblock)) (\<lambda>_.
     sbind (smodify (\<lambda>s. s\<lparr>pr_active := next_superblock, pr_cache := cache_insert p (pr_cache s)\<rparr>)) (\<lambda>_.
     sret (pg_id p)))))))))))))"

definition pager_commit_recycled_page :: "(bytes \<Rightarrow> 32 word) \<Rightarrow> page \<Rightarrow> ('a pager_scheme, btree_error, nat) act" where
  "pager_commit_recycled_page crc p =
     sbind pager_ensure_usable (\<lambda>_.
     sbind (slift (page_validate crc p)) (\<lambda>_.
     sbind (validate_committed_page_id (pg_id p)) (\<lambda>_.
     sbind (slift (page_offset (pg_id p))) (\<lambda>offset.
     sbind (poison_on_error (write_durable_bytes offset (pg_bytes p) (RecycledPage (pg_kind p)))) (\<lambda>_.
     sbind (smodify (\<lambda>s. s\<lparr>pr_cache := cache_insert p (pr_cache s)\<rparr>)) (\<lambda>_.
     sret (pg_id p)))))))"

definition pager_read_page :: "(bytes \<Rightarrow> 32 word) \<Rightarrow> nat \<Rightarrow> ('a pager_scheme, btree_error, page) act" where
  "pager_read_page crc page_id =
     sbind pager_ensure_usable (\<lambda>_.
     sbind (validate_committed_page_id page_id) (\<lambda>_.
     sbind (smodify (\<lambda>s. s\<lparr>pr_read_page_calls := saturating_add64 (pr_read_page_calls s) 1\<rparr>)) (\<lambda>_.
     sbind (\<lambda>s. let (hit, c) = cache_get page_id (pr_cache s) in (Inr hit, s\<lparr>pr_cache := c\<rparr>)) (\<lambda>hit.
     case hit of
       Some p \<Rightarrow> sret p
     | None \<Rightarrow>
         sbind (slift (page_offset page_id)) (\<lambda>offset.
         sbind (sread pr_file) (\<lambda>f.
         sbind (slift (file_read offset f)) (\<lambda>bs.
         sbind (slift (page_decode crc bs page_id)) (\<lambda>p.
         sbind (sread (\<lambda>s. sb_page_count (pr_active s))) (\<lambda>page_count.
         sbind (slift (case page_link p of
                         None \<Rightarrow> Inr ()
                       | Some link \<Rightarrow> ensure (\<not> link \<ge> page_count) (BtCorruption (offset + 32)))) (\<lambda>_.
         sbind (smodify (\<lambda>s. s\<lparr>pr_cache := cache_insert p (pr_cache s)\<rparr>)) (\<lambda>_.
         sret p)))))))))))"

definition pager_set_root :: "(bytes \<Rightarrow> 32 word) \<Rightarrow> nat option \<Rightarrow> ('a pager_scheme, btree_error, unit) act" where
  "pager_set_root crc root_page_id =
     sbind pager_ensure_usable (\<lambda>_.
     sbind (case root_page_id of
              Some page_id \<Rightarrow>
                sbind (validate_committed_page_id page_id) (\<lambda>_.
                sbind (pager_read_page crc page_id) (\<lambda>_.
                sret page_id))
            | None \<Rightarrow> sret ROOT_NONE) (\<lambda>encoded.
     sbind (sread pr_active) (\<lambda>active.
     if encoded = sb_root_page_id active then sret ()
     else
       sbind (slift (ok_or (checked_add64 (sb_generation active) 1) (BtCorruption 0))) (\<lambda>generation.
       let next_superblock = \<lparr>sb_slot = alternate_slot (sb_slot active), sb_generation = generation,
             sb_page_count = sb_page_count active, sb_root_page_id = encoded\<rparr> in
       sbind (poison_on_error (write_superblock_durable crc next_superblock RootSuperblock)) (\<lambda>_.
       smodify (\<lambda>s. s\<lparr>pr_active := next_superblock\<rparr>))))))"

end
