(* ===== verification/BtreeNode.thy ===== *)
theory BtreeNode
  imports BtreePager
begin

text \<open>
  The nodes of the B+ tree (\<open>crates/db-storage-btree/src/tree.rs\<close>): stored keys and values, the cell
  codecs of leaf and internal pages, the order checks, child routing, and the choice of a split.
  Lengths and ids are natural numbers; the flag bits of the length fields are set and tested as the
  code does.
\<close>

definition MAX_TREE_KEY_BYTES :: nat where "MAX_TREE_KEY_BYTES = 4 * 1024"
definition MAX_TREE_VALUE_BYTES :: nat where "MAX_TREE_VALUE_BYTES = 1024 * 1024"
definition LEAF_CELL_HEADER_LEN :: nat where "LEAF_CELL_HEADER_LEN = 6"
definition KEY_OVERFLOW_FLAG :: nat where "KEY_OVERFLOW_FLAG = 2 ^ 15"
definition KEY_LENGTH_MASK :: nat where "KEY_LENGTH_MASK = KEY_OVERFLOW_FLAG - 1"
definition KEY_OVERFLOW_REF_LEN :: nat where "KEY_OVERFLOW_REF_LEN = 8"
definition VALUE_OVERFLOW_FLAG :: nat where "VALUE_OVERFLOW_FLAG = 2 ^ 31"
definition VALUE_LENGTH_MASK :: nat where "VALUE_LENGTH_MASK = VALUE_OVERFLOW_FLAG - 1"
definition OVERFLOW_VALUE_REF_LEN :: nat where "OVERFLOW_VALUE_REF_LEN = 8"
definition INTERNAL_CELL_HEADER_LEN :: nat where "INTERNAL_CELL_HEADER_LEN = 10"
definition MAX_TREE_HEIGHT :: nat where "MAX_TREE_HEIGHT = 64"
definition PAGE_BODY_CAPACITY :: nat where "PAGE_BODY_CAPACITY = CHECKSUM_OFFSET - DATA_HEADER_LEN"
definition MAX_INLINE_KEY_BYTES :: nat where
  "MAX_INLINE_KEY_BYTES = PAGE_BODY_CAPACITY - SLOT_LEN - LEAF_CELL_HEADER_LEN - OVERFLOW_VALUE_REF_LEN"
definition OVERFLOW_CELL_CAPACITY :: nat where "OVERFLOW_CELL_CAPACITY = PAGE_BODY_CAPACITY - SLOT_LEN"

lemmas node_consts = MAX_TREE_KEY_BYTES_def MAX_TREE_VALUE_BYTES_def LEAF_CELL_HEADER_LEN_def
  KEY_OVERFLOW_FLAG_def KEY_LENGTH_MASK_def KEY_OVERFLOW_REF_LEN_def VALUE_OVERFLOW_FLAG_def
  VALUE_LENGTH_MASK_def OVERFLOW_VALUE_REF_LEN_def INTERNAL_CELL_HEADER_LEN_def MAX_TREE_HEIGHT_def
  PAGE_BODY_CAPACITY_def MAX_INLINE_KEY_BYTES_def OVERFLOW_CELL_CAPACITY_def page_consts

datatype stored_key =
  SkInline bytes
| SkOverflow bytes nat \<comment> \<open>the key and its first overflow page\<close>

datatype stored_value =
  SvInline bytes
| SvOverflow nat nat \<comment> \<open>the length and the first overflow page\<close>

record leaf_entry =
  lf_key :: stored_key
  lf_value :: stored_value

record child_ref =
  cr_min_key :: bytes
  cr_page_id :: nat

record subtree_bounds =
  sub_min_key :: bytes
  sub_max_key :: bytes
  sub_height :: nat

fun stored_key_bytes :: "stored_key \<Rightarrow> bytes" where
  "stored_key_bytes (SkInline bs) = bs"
| "stored_key_bytes (SkOverflow bs _) = bs"

fun stored_key_payload_len :: "stored_key \<Rightarrow> nat" where
  "stored_key_payload_len (SkInline bs) = length bs"
| "stored_key_payload_len (SkOverflow _ _) = KEY_OVERFLOW_REF_LEN"

definition stored_key_field :: "stored_key \<Rightarrow> nat bt_result" where
  "stored_key_field k =
     rbind (ok_or (try_u16 (length (stored_key_bytes k))) BtInvalidInput) (\<lambda>len.
     if len > KEY_LENGTH_MASK then Inl BtInvalidInput
     else Inr (case k of SkInline _ \<Rightarrow> len | SkOverflow _ _ \<Rightarrow> KEY_OVERFLOW_FLAG OR len))"

definition bt_validate_key :: "bytes \<Rightarrow> unit bt_result" where
  "bt_validate_key key = ensure (\<not> length key > MAX_TREE_KEY_BYTES) BtInvalidInput"

definition bt_validate_key_value :: "bytes \<Rightarrow> bytes \<Rightarrow> unit bt_result" where
  "bt_validate_key_value key val =
     rbind (bt_validate_key key) (\<lambda>_.
     rbind (ensure (\<not> length val > MAX_TREE_VALUE_BYTES) BtInvalidInput) (\<lambda>_.
     rbind (ok_or (try_u32 (length val)) BtInvalidInput) (\<lambda>value_len.
     ensure (\<not> value_len > VALUE_LENGTH_MASK) BtInvalidInput)))"


subsection \<open>Cells\<close>

definition encode_leaf_cell :: "leaf_entry \<Rightarrow> bytes bt_result" where
  "encode_leaf_cell entry =
     rbind (bt_validate_key (stored_key_bytes (lf_key entry))) (\<lambda>_.
     rbind (stored_key_field (lf_key entry)) (\<lambda>key_field.
     rbind (case lf_value entry of
              SvInline val \<Rightarrow>
                if length val > MAX_TREE_VALUE_BYTES then Inl BtInvalidInput
                else ok_or (try_u32 (length val)) BtInvalidInput
            | SvOverflow len first_page_id \<Rightarrow>
                if len = 0 \<or> len > MAX_TREE_VALUE_BYTES then Inl BtInvalidInput
                else if first_page_id < SUPERBLOCK_COUNT then Inl BtInvalidInput
                else Inr (VALUE_OVERFLOW_FLAG OR len)) (\<lambda>value_field.
     Inr (le_bytes 2 key_field @ le_bytes 4 value_field @
          (case lf_key entry of SkInline key \<Rightarrow> key | SkOverflow _ first_page_id \<Rightarrow> le_bytes 8 first_page_id) @
          (case lf_value entry of SvInline val \<Rightarrow> val | SvOverflow _ first_page_id \<Rightarrow> le_bytes 8 first_page_id)))))"

definition encode_internal_cell :: "child_ref \<Rightarrow> bytes bt_result" where
  "encode_internal_cell child =
     rbind (bt_validate_key (cr_min_key child)) (\<lambda>_.
     if cr_page_id child < SUPERBLOCK_COUNT then Inl BtInvalidInput
     else rbind (ok_or (try_u16 (length (cr_min_key child))) BtInvalidInput) (\<lambda>len.
       let overflow = length (cr_min_key child) > MAX_INLINE_KEY_BYTES;
           field = (if overflow then KEY_OVERFLOW_FLAG OR len else len) in
       Inr (le_bytes 2 field @ le_bytes 8 (cr_page_id child) @
            (if overflow then le_bytes 8 0 else cr_min_key child))))"

definition encode_internal_cell_stored :: "stored_key \<Rightarrow> nat \<Rightarrow> bytes bt_result" where
  "encode_internal_cell_stored key page_id =
     rbind (bt_validate_key (stored_key_bytes key)) (\<lambda>_.
     if page_id < SUPERBLOCK_COUNT then Inl BtInvalidInput
     else rbind (stored_key_field key) (\<lambda>field.
       Inr (le_bytes 2 field @ le_bytes 8 page_id @
            (case key of SkInline bs \<Rightarrow> bs | SkOverflow _ first_page_id \<Rightarrow> le_bytes 8 first_page_id))))"


subsection \<open>Order, routing and splitting\<close>

fun strictly_increasing :: "bytes list \<Rightarrow> bool" where
  "strictly_increasing (a # b # rest) \<longleftrightarrow> a < b \<and> strictly_increasing (b # rest)"
| "strictly_increasing _ \<longleftrightarrow> True"

definition validate_leaf_order :: "leaf_entry list \<Rightarrow> unit bt_result" where
  "validate_leaf_order es =
     ensure (strictly_increasing (map (\<lambda>e. stored_key_bytes (lf_key e)) es)) (BtCorruption 0)"

definition validate_child_refs :: "child_ref list \<Rightarrow> unit bt_result" where
  "validate_child_refs children =
     (if children = [] then Inl BtInvalidInput
      else rbind (rmapM (\<lambda>child. rbind (bt_validate_key (cr_min_key child)) (\<lambda>_.
                    ensure (\<not> cr_page_id child < SUPERBLOCK_COUNT) BtInvalidInput)) children) (\<lambda>_.
           ensure (strictly_increasing (map cr_min_key children)) (BtCorruption 0)))"

text \<open>\<open>binary_search_by\<close> on a strictly increasing slice: \<open>Inr\<close> the index found, \<open>Inl\<close> the index at
  which to insert.\<close>

definition search_keys :: "bytes list \<Rightarrow> bytes \<Rightarrow> nat + nat" where
  "search_keys keys key =
     (let i = length (takeWhile (\<lambda>k. k < key) keys) in
      if i < length keys \<and> keys ! i = key then Inr i else Inl i)"

definition route_child :: "child_ref list \<Rightarrow> bytes \<Rightarrow> nat bt_result" where
  "route_child children key =
     rbind (validate_child_refs children) (\<lambda>_.
     case search_keys (map cr_min_key children) key of
       Inr index \<Rightarrow> Inr index
     | Inl index \<Rightarrow> Inr (if index = 0 then 0 else index - 1))"

fun checked_cells_total :: "nat \<Rightarrow> bytes list \<Rightarrow> nat option" where
  \<comment> \<open>the sum of \<open>SLOT_LEN + len\<close> over the cells, unless it overflows\<close>
  "checked_cells_total used [] = Some used"
| "checked_cells_total used (cell # cells) =
     Option.bind (checked_add64 used SLOT_LEN) (\<lambda>u. Option.bind (checked_add64 u (length cell)) (\<lambda>u'.
     checked_cells_total u' cells))"

definition cells_fit :: "bytes list \<Rightarrow> bool" where
  "cells_fit cells = (case checked_cells_total 0 cells of None \<Rightarrow> False | Some used \<Rightarrow> used \<le> PAGE_BODY_CAPACITY)"

fun split_scan :: "(nat \<Rightarrow> bool) \<Rightarrow> nat \<Rightarrow> nat \<Rightarrow> nat \<Rightarrow> (nat \<times> nat) option \<Rightarrow> nat list \<Rightarrow> (nat \<times> nat) option option" where
  \<comment> \<open>the loop over the split points; \<open>best\<close> is the best split and its imbalance\<close>
  "split_scan allowed tot split left best [] = Some best"
| "split_scan allowed tot split left best (sz # sizes) =
     Option.bind (checked_add64 left sz) (\<lambda>left.
     if \<not> allowed split then split_scan allowed tot (split + 1) left best sizes
     else Option.bind (checked_sub64 tot left) (\<lambda>right.
       let imbalance = (if left \<le> right then right - left else left - right) in
       split_scan allowed tot (split + 1) left
         (if left \<le> PAGE_BODY_CAPACITY \<and> right \<le> PAGE_BODY_CAPACITY \<and>
             (case best of None \<Rightarrow> True | Some (_, current) \<Rightarrow> imbalance < current)
          then Some (split, imbalance) else best) sizes))"

definition choose_split :: "bytes list \<Rightarrow> nat option" where
  "choose_split cells =
     (if length cells < 2 then None
      else Option.bind (checked_cells_total 0 cells) (\<lambda>tot.
           Option.bind (split_scan (\<lambda>_. True) tot 1 0 None (map (\<lambda>c. SLOT_LEN + length c) (butlast cells)))
             (map_option fst)))"

definition choose_internal_rebalance_split :: "bytes list \<Rightarrow> nat option" where
  "choose_internal_rebalance_split cells =
     (if length cells < 4 then None
      else Option.bind (checked_cells_total 0 cells) (\<lambda>tot.
           Option.bind (split_scan (\<lambda>split. \<not> (split < 2 \<or> length cells - split < 2)) tot 1 0 None
                          (map (\<lambda>c. SLOT_LEN + length c) (butlast cells)))
             (map_option fst)))"

end
