(* ===== verification/BtreeTree.thy ===== *)
theory BtreeTree
  imports BtreeNode KvEngine
begin

text \<open>
  The copy-on-write B+ tree (\<open>tree.rs\<close> and \<open>tree/\<close>): overflow chains (\<open>overflow.rs\<close>), page reuse
  (\<open>reuse.rs\<close>), lookups, insertion with splits, deletion with rebalancing (\<open>delete.rs\<close>), ordered
  scans (\<open>scan.rs\<close>), validation of the reachable tree and the \<open>KvEngine\<close> adapter (\<open>common.rs\<close>).
  A recursion on \<open>depth\<close> that the code stops at \<open>MAX_TREE_HEIGHT\<close> is a recursion on the levels
  left.  A set of page ids passed as \<open>Option<&mut BTreeSet>\<close> is passed and returned.
\<close>

record btree_instrumentation =
  bi_point_reads :: nat
  bi_point_page_accesses :: nat
  bi_range_scans :: nat
  bi_range_result_records :: nat
  bi_range_page_accesses :: nat
  bi_logical_mutations :: nat
  bi_logical_mutation_bytes :: nat
  bi_data_page_bytes_written :: nat

definition btree_instrumentation_default :: btree_instrumentation where
  "btree_instrumentation_default =
     \<lparr>bi_point_reads = 0, bi_point_page_accesses = 0, bi_range_scans = 0, bi_range_result_records = 0,
      bi_range_page_accesses = 0, bi_logical_mutations = 0, bi_logical_mutation_bytes = 0,
      bi_data_page_bytes_written = 0\<rparr>"

record btree = pager +
  bt_reusable_pages :: "nat list"
  bt_cache_capacity :: nat
  bt_instrumentation :: btree_instrumentation

type_synonym 'a tree_act = "(btree, btree_error, 'a) act"

text \<open>A fallible method of a local \<open>Page\<close>, which an error drops.\<close>

definition page_step :: "'a bt_result \<times> page \<Rightarrow> page bt_result" where
  "page_step r = rmap (\<lambda>_. snd r) (fst r)"

definition insert_cells :: "(bytes \<Rightarrow> 32 word) \<Rightarrow> bytes list \<Rightarrow> page \<Rightarrow> page bt_result" where
  "insert_cells crc cells p = rfold (\<lambda>p cell. page_step (page_insert_cell crc p cell)) p cells"


subsection \<open>Page reuse (reuse.rs)\<close>

definition prepare_tree_page :: "(bytes \<Rightarrow> 32 word) \<Rightarrow> page_kind \<Rightarrow> (page \<times> bool) tree_act" where
  "prepare_tree_page crc kind s =
     (case bt_reusable_pages s of
        page_id # rest \<Rightarrow>
          sbind (slift (page_new crc page_id kind)) (\<lambda>p. sret (p, True)) (s\<lparr>bt_reusable_pages := rest\<rparr>)
      | [] \<Rightarrow> sbind (pager_prepare_new_page crc kind) (\<lambda>p. sret (p, False)) s)"

definition commit_tree_page :: "(bytes \<Rightarrow> 32 word) \<Rightarrow> page \<Rightarrow> bool \<Rightarrow> nat tree_act" where
  "commit_tree_page crc p recycled =
     (if \<not> recycled then pager_commit_new_page crc p else pager_commit_recycled_page crc p)"


subsection \<open>Overflow chains (overflow.rs)\<close>

function rchunks :: "nat \<Rightarrow> 'a list \<Rightarrow> 'a list list" where
  "rchunks n xs = (if xs = [] \<or> n = 0 then [] else drop (length xs - n) xs # rchunks n (take (length xs - n) xs))"
  by pat_completeness auto
termination by (relation "measure (\<lambda>(n, xs). length xs)") auto

definition commit_overflow_blob :: "(bytes \<Rightarrow> 32 word) \<Rightarrow> bytes \<Rightarrow> nat tree_act" where
  "commit_overflow_blob crc val =
     (if val = [] then sfail BtInvalidInput
      else sbind (sfold (\<lambda>link chunk.
             sbind (prepare_tree_page crc PkOverflow) (\<lambda>(p, recycled).
             sbind (slift (page_step (page_insert_cell crc p chunk))) (\<lambda>p1.
             sbind (slift (page_step (page_set_overflow_next crc p1 link))) (\<lambda>p2.
             sbind (commit_tree_page crc p2 recycled) (\<lambda>page_id.
             sret (Some page_id)))))) None (rchunks OVERFLOW_CELL_CAPACITY val)) (\<lambda>link.
           slift (ok_or link (BtCorruption 0))))"

primrec overflow_loop ::
    "(bytes \<Rightarrow> 32 word) \<Rightarrow> nat \<Rightarrow> nat \<Rightarrow> nat \<Rightarrow> nat option \<Rightarrow> nat set \<Rightarrow> nat set option \<Rightarrow> bytes \<Rightarrow>
       (nat option \<times> nat set option \<times> bytes) tree_act" where
  "overflow_loop crc first_chunk_len 0 index current local_seen global_seen output = sret (current, global_seen, output)"
| "overflow_loop crc first_chunk_len (Suc todo) index current local_seen global_seen output =
     sbind (slift (ok_or current (BtCorruption 0))) (\<lambda>page_id.
     sbind (slift (ensure (page_id \<notin> local_seen) (BtCorruption 0))) (\<lambda>_.
     sbind (slift (case global_seen of None \<Rightarrow> Inr () | Some seen \<Rightarrow> ensure (page_id \<notin> seen) (BtCorruption 0))) (\<lambda>_.
     sbind (pager_read_page crc page_id) (\<lambda>p.
     sbind (slift (ensure (pg_kind p = PkOverflow) (BtCorruption 0))) (\<lambda>_.
     sbind (slift (ensure (page_cell_count p = 1) (BtCorruption 0))) (\<lambda>_.
     sbind (slift (page_cell crc p 0)) (\<lambda>chunk.
     sbind (slift (ensure (length chunk = (if index = 0 then first_chunk_len else OVERFLOW_CELL_CAPACITY)) (BtCorruption 0))) (\<lambda>_.
     overflow_loop crc first_chunk_len todo (index + 1) (page_overflow_next p) (insert page_id local_seen)
       (map_option (insert page_id) global_seen) (output @ chunk)))))))))"

definition read_overflow_blob ::
    "(bytes \<Rightarrow> 32 word) \<Rightarrow> nat \<Rightarrow> nat \<Rightarrow> nat set option \<Rightarrow> nat \<Rightarrow> (bytes \<times> nat set option) tree_act" where
  "read_overflow_blob crc first_page_id expected_len global_seen max_len =
     (if expected_len = 0 \<or> expected_len > max_len then sfail (BtCorruption 0)
      else let page_count = (expected_len + (OVERFLOW_CELL_CAPACITY - 1)) div OVERFLOW_CELL_CAPACITY in
        sbind (slift (ok_or (checked_sub64 expected_len ((page_count - 1) * OVERFLOW_CELL_CAPACITY)) (BtCorruption 0))) (\<lambda>first_chunk_len.
        sbind (overflow_loop crc first_chunk_len page_count 0 (Some first_page_id) {} global_seen []) (\<lambda>(current, seen, output).
        sbind (slift (ensure (current = None) (BtCorruption 0))) (\<lambda>_.
        sbind (slift (ensure (length output = expected_len) (BtCorruption 0))) (\<lambda>_.
        sret (output, seen))))))"

definition store_key :: "(bytes \<Rightarrow> 32 word) \<Rightarrow> bytes \<Rightarrow> stored_key tree_act" where
  "store_key crc key =
     sbind (slift (bt_validate_key key)) (\<lambda>_.
     if length key \<le> MAX_INLINE_KEY_BYTES then sret (SkInline key)
     else sbind (commit_overflow_blob crc key) (\<lambda>first_page_id. sret (SkOverflow key first_page_id)))"

definition load_key_blob :: "(bytes \<Rightarrow> 32 word) \<Rightarrow> nat \<Rightarrow> nat \<Rightarrow> nat set option \<Rightarrow> (stored_key \<times> nat set option) tree_act" where
  "load_key_blob crc first_page_id encoded_len seen =
     sbind (read_overflow_blob crc first_page_id encoded_len seen MAX_TREE_KEY_BYTES) (\<lambda>(bs, seen').
     sret (SkOverflow bs first_page_id, seen'))"

definition store_value :: "(bytes \<Rightarrow> 32 word) \<Rightarrow> stored_key \<Rightarrow> bytes \<Rightarrow> stored_value tree_act" where
  "store_value crc key val =
     (if length val > MAX_TREE_VALUE_BYTES then sfail BtInvalidInput
      else sbind (slift (ok_or (Option.bind (checked_add64 (SLOT_LEN + LEAF_CELL_HEADER_LEN) (stored_key_payload_len key))
                            (\<lambda>n. checked_add64 n (length val))) BtInvalidInput)) (\<lambda>inline_occupied.
           if inline_occupied \<le> PAGE_BODY_CAPACITY then sret (SvInline val)
           else sbind (commit_overflow_blob crc val) (\<lambda>first_page_id.
                sbind (slift (ok_or (try_u32 (length val)) BtInvalidInput)) (\<lambda>len.
                sret (SvOverflow len first_page_id)))))"

definition load_value :: "(bytes \<Rightarrow> 32 word) \<Rightarrow> stored_value \<Rightarrow> bytes tree_act" where
  "load_value crc v =
     (case v of
        SvInline bs \<Rightarrow> sret bs
      | SvOverflow len first_page_id \<Rightarrow>
          sbind (read_overflow_blob crc first_page_id len None MAX_TREE_VALUE_BYTES) (\<lambda>(bs, _). sret bs))"

definition validate_value_reachability :: "(bytes \<Rightarrow> 32 word) \<Rightarrow> stored_value \<Rightarrow> nat set \<Rightarrow> nat set tree_act" where
  "validate_value_reachability crc v seen =
     (case v of
        SvInline _ \<Rightarrow> sret seen
      | SvOverflow len first_page_id \<Rightarrow>
          sbind (read_overflow_blob crc first_page_id len (Some seen) MAX_TREE_VALUE_BYTES) (\<lambda>(_, seen').
          slift (ok_or seen' (BtCorruption 0))))"


subsection \<open>Decoding nodes\<close>

definition decode_leaf_cell ::
    "(bytes \<Rightarrow> 32 word) \<Rightarrow> bytes \<Rightarrow> nat set option \<Rightarrow> (leaf_entry \<times> nat set option) tree_act" where
  "decode_leaf_cell crc cell seen =
     (if length cell < LEAF_CELL_HEADER_LEN then sfail (BtCorruption 0)
      else
        let key_field = read_u16 cell;
            key_overflow = (key_field AND KEY_OVERFLOW_FLAG \<noteq> 0);
            key_len = key_field AND KEY_LENGTH_MASK in
        if key_len > MAX_TREE_KEY_BYTES \<or> key_overflow \<and> key_len = 0 then sfail (BtCorruption 0)
        else
          let key_payload_len = (if key_overflow then KEY_OVERFLOW_REF_LEN else key_len);
              value_field = read_u32 (drop 2 cell);
              value_overflow = (value_field AND VALUE_OVERFLOW_FLAG \<noteq> 0);
              value_len = value_field AND VALUE_LENGTH_MASK in
          if value_len > MAX_TREE_VALUE_BYTES \<or> value_overflow \<and> value_len = 0 then sfail (BtCorruption 0)
          else
            let value_payload_len = (if value_overflow then OVERFLOW_VALUE_REF_LEN else value_len);
                key_end = LEAF_CELL_HEADER_LEN + key_payload_len in
            if key_end + value_payload_len \<noteq> length cell then sfail (BtCorruption 0)
            else
              sbind (if key_overflow
                     then load_key_blob crc (read_u64 (seg LEAF_CELL_HEADER_LEN key_end cell)) key_len seen
                     else sret (SkInline (seg LEAF_CELL_HEADER_LEN key_end cell), seen)) (\<lambda>(key, seen').
              sbind (if value_overflow
                     then let first_page_id = read_u64 (seg key_end (key_end + OVERFLOW_VALUE_REF_LEN) cell) in
                          if first_page_id < SUPERBLOCK_COUNT then sfail (BtCorruption 0)
                          else sret (SvOverflow value_len first_page_id)
                     else sret (SvInline (drop key_end cell))) (\<lambda>val.
              sret (\<lparr>lf_key = key, lf_value = val\<rparr>, seen'))))"

definition decode_cells ::
    "(bytes \<Rightarrow> 32 word) \<Rightarrow> (bytes \<Rightarrow> nat set option \<Rightarrow> ('a \<times> nat set option) tree_act) \<Rightarrow> page \<Rightarrow>
       nat set option \<Rightarrow> ('a list \<times> nat set option) tree_act" where
  \<comment> \<open>the loop over \<open>0..page.cell_count()\<close>\<close>
  "decode_cells crc decode_cell p seen =
     sfold (\<lambda>(xs, seen) index.
       sbind (slift (page_cell crc p index)) (\<lambda>cell.
       sbind (decode_cell cell seen) (\<lambda>(x, seen').
       sret (xs @ [x], seen')))) ([], seen) [0..<page_cell_count p]"

definition decode_leaf :: "(bytes \<Rightarrow> 32 word) \<Rightarrow> page \<Rightarrow> nat set option \<Rightarrow> (leaf_entry list \<times> nat set option) tree_act" where
  "decode_leaf crc p seen =
     (if pg_kind p \<noteq> PkLeaf then sfail (BtCorruption 0)
      else sbind (decode_cells crc (decode_leaf_cell crc) p seen) (\<lambda>(es, seen').
           sbind (slift (validate_leaf_order es)) (\<lambda>_.
           sret (es, seen'))))"

definition decode_internal_cell ::
    "(bytes \<Rightarrow> 32 word) \<Rightarrow> bytes \<Rightarrow> nat set option \<Rightarrow> (child_ref \<times> nat set option) tree_act" where
  "decode_internal_cell crc cell seen =
     (if length cell < INTERNAL_CELL_HEADER_LEN then sfail (BtCorruption 0)
      else
        let key_field = read_u16 cell;
            key_overflow = (key_field AND KEY_OVERFLOW_FLAG \<noteq> 0);
            key_len = key_field AND KEY_LENGTH_MASK in
        if key_len > MAX_TREE_KEY_BYTES \<or> key_overflow \<and> key_len = 0 then sfail (BtCorruption 0)
        else
          let key_payload_len = (if key_overflow then KEY_OVERFLOW_REF_LEN else key_len) in
          if INTERNAL_CELL_HEADER_LEN + key_payload_len \<noteq> length cell then sfail (BtCorruption 0)
          else
            let page_id = read_u64 (drop 2 cell) in
            if page_id < SUPERBLOCK_COUNT then sfail (BtCorruption 0)
            else if key_overflow
            then sbind (load_key_blob crc (read_u64 (drop INTERNAL_CELL_HEADER_LEN cell)) key_len seen) (\<lambda>(key, seen').
                 sret (\<lparr>cr_min_key = stored_key_bytes key, cr_page_id = page_id\<rparr>, seen'))
            else sret (\<lparr>cr_min_key = drop INTERNAL_CELL_HEADER_LEN cell, cr_page_id = page_id\<rparr>, seen))"

definition decode_internal :: "(bytes \<Rightarrow> 32 word) \<Rightarrow> page \<Rightarrow> nat set option \<Rightarrow> (child_ref list \<times> nat set option) tree_act" where
  "decode_internal crc p seen =
     (if pg_kind p \<noteq> PkInternal then sfail (BtCorruption 0)
      else sbind (decode_cells crc (decode_internal_cell crc) p seen) (\<lambda>(cs, seen').
           sbind (slift (validate_child_refs cs)) (\<lambda>_.
           sret (cs, seen'))))"


subsection \<open>Validation of the reachable tree\<close>

fun same_heights :: "subtree_bounds list \<Rightarrow> bool" where
  "same_heights (b # bs) \<longleftrightarrow> list_all (\<lambda>c. sub_height c = sub_height b) bs"
| "same_heights [] \<longleftrightarrow> True"

fun disjoint_ranges :: "subtree_bounds list \<Rightarrow> bool" where
  "disjoint_ranges (a # b # rest) \<longleftrightarrow> sub_max_key a < sub_min_key b \<and> disjoint_ranges (b # rest)"
| "disjoint_ranges _ \<longleftrightarrow> True"

text \<open>The first argument is \<open>MAX_TREE_HEIGHT - depth\<close>.\<close>

primrec validate_subtree :: "(bytes \<Rightarrow> 32 word) \<Rightarrow> nat \<Rightarrow> nat \<Rightarrow> nat set \<Rightarrow> (subtree_bounds \<times> nat set) tree_act" where
  "validate_subtree crc 0 page_id seen = sfail (BtCorruption 0)"
| "validate_subtree crc (Suc levels) page_id seen =
     sbind (slift (ensure (page_id \<notin> seen) (BtCorruption 0))) (\<lambda>_.
     sbind (pager_read_page crc page_id) (\<lambda>p.
     case pg_kind p of
       PkLeaf \<Rightarrow>
         sbind (slift (ensure (page_right_sibling p = None) (BtCorruption 0))) (\<lambda>_.
         sbind (decode_leaf crc p (Some (insert page_id seen))) (\<lambda>(es, seen1).
         sbind (slift (ok_or seen1 (BtCorruption 0))) (\<lambda>seen1.
         sbind (sfold (\<lambda>seen e. validate_value_reachability crc (lf_value e) seen) seen1 es) (\<lambda>seen2.
         if es = [] then sfail (BtCorruption 0)
         else sret (\<lparr>sub_min_key = stored_key_bytes (lf_key (hd es)), sub_max_key = stored_key_bytes (lf_key (last es)),
                      sub_height = 1\<rparr>, seen2)))))
     | PkInternal \<Rightarrow>
         sbind (decode_internal crc p (Some (insert page_id seen))) (\<lambda>(cs, seen1).
         sbind (slift (ok_or seen1 (BtCorruption 0))) (\<lambda>seen1.
         if length cs < 2 then sfail (BtCorruption 0)
         else
           sbind (sfold (\<lambda>(bs, seen) c.
                    sbind (validate_subtree crc levels (cr_page_id c) seen) (\<lambda>(b, seen').
                    sbind (slift (ensure (sub_min_key b = cr_min_key c) (BtCorruption 0))) (\<lambda>_.
                    sret (bs @ [b], seen')))) ([], seen1) cs) (\<lambda>(bs, seen2).
           sbind (slift (ensure (same_heights bs) (BtCorruption 0))) (\<lambda>_.
           sbind (slift (ensure (disjoint_ranges bs) (BtCorruption 0))) (\<lambda>_.
           sret (\<lparr>sub_min_key = sub_min_key (hd bs), sub_max_key = sub_max_key (last bs),
                   sub_height = sub_height (hd bs) + 1\<rparr>, seen2))))))
     | PkOverflow \<Rightarrow> sfail (BtCorruption 0)))"

definition validate_reachable_tree :: "(bytes \<Rightarrow> 32 word) \<Rightarrow> unit tree_act" where
  "validate_reachable_tree crc =
     sbind (sread pager_root_page_id) (\<lambda>root.
     case root of
       None \<Rightarrow> sret ()
     | Some r \<Rightarrow> sbind (validate_subtree crc MAX_TREE_HEIGHT r {}) (\<lambda>_. sret ()))"

definition refresh_reusable_pages :: "(bytes \<Rightarrow> 32 word) \<Rightarrow> unit tree_act" where
  "refresh_reusable_pages crc =
     sbind (sread pager_root_page_id) (\<lambda>root.
     sbind (case root of
              None \<Rightarrow> sret {}
            | Some r \<Rightarrow> sbind (validate_subtree crc MAX_TREE_HEIGHT r {}) (\<lambda>(_, seen). sret seen)) (\<lambda>reachable.
     sbind (sread (\<lambda>s. checked_add64 SUPERBLOCK_COUNT (pager_data_page_count s))) (\<lambda>stop.
     sbind (slift (ok_or stop (BtCorruption 0))) (\<lambda>stop.
     smodify (\<lambda>s. s\<lparr>bt_reusable_pages := filter (\<lambda>page_id. page_id \<notin> reachable) [SUPERBLOCK_COUNT..<stop]\<rparr>)))))"

definition tree_height :: "(bytes \<Rightarrow> 32 word) \<Rightarrow> nat tree_act" where
  "tree_height crc =
     sbind (sread pager_root_page_id) (\<lambda>root.
     case root of
       None \<Rightarrow> sret 0
     | Some r \<Rightarrow> sbind (validate_subtree crc MAX_TREE_HEIGHT r {}) (\<lambda>(b, _). sret (sub_height b)))"


subsection \<open>Creating and opening\<close>

definition btree_start :: "pager \<Rightarrow> nat \<Rightarrow> btree" where
  "btree_start p capacity = pager.extend p
     (btree.fields [] capacity btree_instrumentation_default)"

definition btree_create_new ::
    "(bytes \<Rightarrow> 32 word) \<Rightarrow> bytes option \<Rightarrow> nat \<Rightarrow> write_fault option list \<Rightarrow> btree bt_result \<times> bytes option" where
  "btree_create_new crc existing capacity faults =
     (case pager_create_new crc existing capacity faults of
        (Inl e, f) \<Rightarrow> (Inl e, f)
      | (Inr p, f) \<Rightarrow> (Inr (btree_start p capacity), f))"

definition btree_open ::
    "(bytes \<Rightarrow> 32 word) \<Rightarrow> bytes option \<Rightarrow> nat \<Rightarrow> write_fault option list \<Rightarrow> btree bt_result \<times> bytes option" where
  "btree_open crc existing capacity faults =
     (case pager_open crc existing capacity faults of
        (Inl e, f) \<Rightarrow> (Inl e, f)
      | (Inr p, f) \<Rightarrow>
          (case sbind (validate_reachable_tree crc) (\<lambda>_. refresh_reusable_pages crc) (btree_start p capacity) of
             (Inl e, _) \<Rightarrow> (Inl e, f)
           | (Inr _, t) \<Rightarrow> (Inr t, f)))"

end
