(* ===== verification/BtreeEngine.thy ===== *)
theory BtreeEngine
  imports BtreeTree
begin

text \<open>
  The operations of the B+ tree: \<open>get\<close>, \<open>put\<close>, \<open>delete\<close> and \<open>range_scan\<close> with the copy-on-write
  rewriting they do, and the adapter to the \<open>KvEngine\<close> trait.
\<close>

subsection \<open>Committing nodes\<close>

definition commit_leaf_with_cells :: "(bytes \<Rightarrow> 32 word) \<Rightarrow> leaf_entry list \<Rightarrow> bytes list \<Rightarrow> child_ref tree_act" where
  "commit_leaf_with_cells crc es cells =
     (case es of
        [] \<Rightarrow> sfail BtInvalidInput
      | first # _ \<Rightarrow>
          sbind (prepare_tree_page crc PkLeaf) (\<lambda>(p, recycled).
          sbind (slift (insert_cells crc cells p)) (\<lambda>p'.
          sbind (commit_tree_page crc p' recycled) (\<lambda>page_id.
          sret \<lparr>cr_min_key = stored_key_bytes (lf_key first), cr_page_id = page_id\<rparr>))))"

definition commit_leaf :: "(bytes \<Rightarrow> 32 word) \<Rightarrow> leaf_entry list \<Rightarrow> child_ref tree_act" where
  "commit_leaf crc es =
     sbind (slift (rmapM encode_leaf_cell es)) (\<lambda>cells.
     if \<not> cells_fit cells then sfail BtInvalidInput
     else commit_leaf_with_cells crc es cells)"

definition commit_leaf_level :: "(bytes \<Rightarrow> 32 word) \<Rightarrow> leaf_entry list \<Rightarrow> child_ref list tree_act" where
  "commit_leaf_level crc es =
     (if es = [] then sfail (BtCorruption 0)
      else sbind (slift (rmapM encode_leaf_cell es)) (\<lambda>cells.
           if cells_fit cells then sbind (commit_leaf_with_cells crc es cells) (\<lambda>c. sret [c])
           else sbind (slift (ok_or (choose_split cells) BtInvalidInput)) (\<lambda>split.
                sbind (commit_leaf crc (take split es)) (\<lambda>left.
                sbind (commit_leaf crc (drop split es)) (\<lambda>right.
                sret [left, right])))))"

definition commit_internal_with_cells :: "(bytes \<Rightarrow> 32 word) \<Rightarrow> child_ref list \<Rightarrow> bytes list \<Rightarrow> child_ref tree_act" where
  "commit_internal_with_cells crc children preview_cells =
     (case children of
        [] \<Rightarrow> sfail BtInvalidInput
      | first # _ \<Rightarrow>
          if length preview_cells \<noteq> length children \<or> \<not> cells_fit preview_cells then sfail (BtCorruption 0)
          else
            sbind (smapM (\<lambda>child.
                     sbind (store_key crc (cr_min_key child)) (\<lambda>key.
                     slift (encode_internal_cell_stored key (cr_page_id child)))) children) (\<lambda>cells.
            if list_ex (\<lambda>(actual, preview). length actual \<noteq> length preview) (zip cells preview_cells) \<or>
               \<not> cells_fit cells
            then sfail (BtCorruption 0)
            else
              sbind (prepare_tree_page crc PkInternal) (\<lambda>(p, recycled).
              sbind (slift (insert_cells crc cells p)) (\<lambda>p'.
              sbind (commit_tree_page crc p' recycled) (\<lambda>page_id.
              sret \<lparr>cr_min_key = cr_min_key first, cr_page_id = page_id\<rparr>)))))"

definition commit_internal :: "(bytes \<Rightarrow> 32 word) \<Rightarrow> child_ref list \<Rightarrow> child_ref tree_act" where
  "commit_internal crc children =
     sbind (slift (validate_child_refs children)) (\<lambda>_.
     sbind (slift (rmapM encode_internal_cell children)) (\<lambda>cells.
     if \<not> cells_fit cells then sfail BtInvalidInput
     else commit_internal_with_cells crc children cells))"

definition commit_internal_level :: "(bytes \<Rightarrow> 32 word) \<Rightarrow> child_ref list \<Rightarrow> child_ref list tree_act" where
  "commit_internal_level crc children =
     sbind (slift (validate_child_refs children)) (\<lambda>_.
     sbind (slift (rmapM encode_internal_cell children)) (\<lambda>cells.
     if cells_fit cells then sbind (commit_internal_with_cells crc children cells) (\<lambda>c. sret [c])
     else sbind (slift (ok_or (choose_split cells) BtInvalidInput)) (\<lambda>split.
          sbind (commit_internal crc (take split children)) (\<lambda>left.
          sbind (commit_internal crc (drop split children)) (\<lambda>right.
          sret [left, right])))))"


subsection \<open>Lookup\<close>

text \<open>The loop \<open>for _ in 0..MAX_TREE_HEIGHT\<close>.\<close>

primrec get_loop :: "(bytes \<Rightarrow> 32 word) \<Rightarrow> bytes \<Rightarrow> nat \<Rightarrow> nat \<Rightarrow> bytes option tree_act" where
  "get_loop crc key 0 page_id = sfail (BtCorruption 0)"
| "get_loop crc key (Suc levels) page_id =
     sbind (pager_read_page crc page_id) (\<lambda>p.
     case pg_kind p of
       PkLeaf \<Rightarrow>
         sbind (decode_leaf crc p None) (\<lambda>(es, _).
         case search_keys (map (\<lambda>e. stored_key_bytes (lf_key e)) es) key of
           Inr index \<Rightarrow> sbind (load_value crc (lf_value (es ! index))) (\<lambda>v. sret (Some v))
         | Inl _ \<Rightarrow> sret None)
     | PkInternal \<Rightarrow>
         sbind (decode_internal crc p None) (\<lambda>(cs, _).
         sbind (slift (route_child cs key)) (\<lambda>index.
         get_loop crc key levels (cr_page_id (cs ! index))))
     | PkOverflow \<Rightarrow> sfail (BtCorruption 0))"

definition get_uninstrumented :: "(bytes \<Rightarrow> 32 word) \<Rightarrow> bytes \<Rightarrow> bytes option tree_act" where
  "get_uninstrumented crc key =
     sbind (slift (bt_validate_key key)) (\<lambda>_.
     sbind (sread pager_root_page_id) (\<lambda>root.
     case root of None \<Rightarrow> sret None | Some r \<Rightarrow> get_loop crc key MAX_TREE_HEIGHT r))"

definition btree_get :: "(bytes \<Rightarrow> 32 word) \<Rightarrow> bytes \<Rightarrow> bytes option tree_act" where
  "btree_get crc key s =
     (let before = pr_read_page_calls s in
      case get_uninstrumented crc key s of
        (Inl e, s') \<Rightarrow> (Inl e, s')
      | (Inr v, s') \<Rightarrow>
          (let bi = bt_instrumentation s' in
           (Inr v, s'\<lparr>bt_instrumentation := bi
              \<lparr>bi_point_reads := saturating_add64 (bi_point_reads bi) 1,
               bi_point_page_accesses := saturating_add64 (bi_point_page_accesses bi) (pr_read_page_calls s' - before)\<rparr>\<rparr>)))"

definition record_mutation :: "nat \<Rightarrow> nat \<Rightarrow> unit tree_act" where
  "record_mutation logical_bytes data_write_before =
     smodify (\<lambda>s. let bi = bt_instrumentation s in s\<lparr>bt_instrumentation := bi
       \<lparr>bi_logical_mutations := saturating_add64 (bi_logical_mutations bi) 1,
        bi_logical_mutation_bytes := saturating_add64 (bi_logical_mutation_bytes bi) logical_bytes,
        bi_data_page_bytes_written := saturating_add64 (bi_data_page_bytes_written bi)
          (pr_data_page_bytes_written s - data_write_before)\<rparr>\<rparr>)"


subsection \<open>Insertion\<close>

primrec rewrite_insert :: "(bytes \<Rightarrow> 32 word) \<Rightarrow> stored_key \<Rightarrow> stored_value \<Rightarrow> nat \<Rightarrow> nat \<Rightarrow> child_ref list tree_act" where
  "rewrite_insert crc key val 0 page_id = sfail (BtCorruption 0)"
| "rewrite_insert crc key val (Suc levels) page_id =
     sbind (pager_read_page crc page_id) (\<lambda>p.
     case pg_kind p of
       PkLeaf \<Rightarrow>
         sbind (decode_leaf crc p None) (\<lambda>(es, _).
         let entry = \<lparr>lf_key = key, lf_value = val\<rparr> in
         commit_leaf_level crc
           (case search_keys (map (\<lambda>e. stored_key_bytes (lf_key e)) es) (stored_key_bytes key) of
              Inr index \<Rightarrow> es[index := entry]
            | Inl index \<Rightarrow> take index es @ [entry] @ drop index es))
     | PkInternal \<Rightarrow>
         sbind (decode_internal crc p None) (\<lambda>(cs, _).
         sbind (slift (route_child cs (stored_key_bytes key))) (\<lambda>child_index.
         sbind (rewrite_insert crc key val levels (cr_page_id (cs ! child_index))) (\<lambda>replacements.
         commit_internal_level crc (take child_index cs @ replacements @ drop (child_index + 1) cs))))
     | PkOverflow \<Rightarrow> sfail (BtCorruption 0))"

definition btree_put :: "(bytes \<Rightarrow> 32 word) \<Rightarrow> bytes \<Rightarrow> bytes \<Rightarrow> bytes option tree_act" where
  "btree_put crc key val =
     sbind (slift (bt_validate_key_value key val)) (\<lambda>_.
     sbind (sread pr_data_page_bytes_written) (\<lambda>data_write_before.
     sbind (get_uninstrumented crc key) (\<lambda>previous.
     sbind (refresh_reusable_pages crc) (\<lambda>_.
     sbind (store_key crc key) (\<lambda>stored_key.
     sbind (store_value crc stored_key val) (\<lambda>stored_value.
     sbind (sread pager_root_page_id) (\<lambda>root.
     sbind (case root of
              Some r \<Rightarrow> rewrite_insert crc stored_key stored_value MAX_TREE_HEIGHT r
            | None \<Rightarrow> sbind (commit_leaf crc [\<lparr>lf_key = stored_key, lf_value = stored_value\<rparr>]) (\<lambda>c. sret [c])) (\<lambda>replacements.
     sbind (case replacements of
              [only] \<Rightarrow> sret (cr_page_id only)
            | [_, _] \<Rightarrow> sbind (commit_internal crc replacements) (\<lambda>c. sret (cr_page_id c))
            | _ \<Rightarrow> sfail (BtCorruption 0)) (\<lambda>new_root.
     sbind (pager_set_root crc (Some new_root)) (\<lambda>_.
     sbind (record_mutation (saturating_add64 (length key) (length val)) data_write_before) (\<lambda>_.
     sret previous)))))))))))"


subsection \<open>Deletion (delete.rs)\<close>

definition MIN_PAGE_FILL :: nat where "MIN_PAGE_FILL = PAGE_BODY_CAPACITY div 2"

definition page_is_underfull :: "(bytes \<Rightarrow> 32 word) \<Rightarrow> page \<Rightarrow> bool bt_result" where
  "page_is_underfull crc p =
     (if pg_kind p = PkOverflow then Inl (BtCorruption 0)
      else if pg_kind p = PkInternal \<and> page_cell_count p < 2 then Inr True
      else rbind (rfold (\<lambda>used index.
             rbind (page_cell crc p index) (\<lambda>cell.
             ok_or (Option.bind (checked_add64 used SLOT_LEN) (\<lambda>v. checked_add64 v (length cell))) (BtCorruption 0)))
             0 [0..<page_cell_count p]) (\<lambda>used.
           Inr (used < MIN_PAGE_FILL)))"

definition rebalance_leaf_pair :: "(bytes \<Rightarrow> 32 word) \<Rightarrow> page \<Rightarrow> page \<Rightarrow> child_ref list tree_act" where
  "rebalance_leaf_pair crc left right =
     sbind (decode_leaf crc left None) (\<lambda>(les, _).
     sbind (decode_leaf crc right None) (\<lambda>(res, _).
     let es = les @ res in
     sbind (slift (ensure (strictly_increasing (map (\<lambda>e. stored_key_bytes (lf_key e)) es)) (BtCorruption 0))) (\<lambda>_.
     sbind (slift (rmapM encode_leaf_cell es)) (\<lambda>cells.
     if cells_fit cells then sbind (commit_leaf crc es) (\<lambda>c. sret [c])
     else sbind (slift (ok_or (choose_split cells) BtInvalidInput)) (\<lambda>split.
          sbind (commit_leaf crc (take split es)) (\<lambda>l.
          sbind (commit_leaf crc (drop split es)) (\<lambda>r.
          sret [l, r])))))))"

definition rebalance_internal_pair :: "(bytes \<Rightarrow> 32 word) \<Rightarrow> page \<Rightarrow> page \<Rightarrow> child_ref list tree_act" where
  "rebalance_internal_pair crc left right =
     sbind (decode_internal crc left None) (\<lambda>(lcs, _).
     sbind (decode_internal crc right None) (\<lambda>(rcs, _).
     let cs = lcs @ rcs in
     sbind (slift (validate_child_refs cs)) (\<lambda>_.
     sbind (slift (rmapM encode_internal_cell cs)) (\<lambda>cells.
     if cells_fit cells then sbind (commit_internal crc cs) (\<lambda>c. sret [c])
     else sbind (slift (ok_or (choose_internal_rebalance_split cells) BtInvalidInput)) (\<lambda>split.
          sbind (commit_internal crc (take split cs)) (\<lambda>l.
          sbind (commit_internal crc (drop split cs)) (\<lambda>r.
          sret [l, r])))))))"

definition rebalance_after_delete :: "(bytes \<Rightarrow> 32 word) \<Rightarrow> child_ref list \<Rightarrow> nat \<Rightarrow> child_ref list tree_act" where
  \<comment> \<open>returns the children, which the code updates in place\<close>
  "rebalance_after_delete crc children affected =
     (if length children < 2 then sret children
      else
        sbind (slift (validate_child_refs children)) (\<lambda>_.
        let affected = min affected (length children - 1) in
        sbind (pager_read_page crc (cr_page_id (children ! affected))) (\<lambda>affected_page.
        sbind (slift (page_is_underfull crc affected_page)) (\<lambda>underfull.
        if \<not> underfull then sret children
        else
          let (left_index, right_index) = (if affected > 0 then (affected - 1, affected) else (0, 1)) in
          sbind (pager_read_page crc (cr_page_id (children ! left_index))) (\<lambda>left_page.
          sbind (pager_read_page crc (cr_page_id (children ! right_index))) (\<lambda>right_page.
          sbind (slift (ensure (pg_kind left_page = pg_kind right_page) (BtCorruption 0))) (\<lambda>_.
          sbind (case pg_kind left_page of
                   PkLeaf \<Rightarrow> rebalance_leaf_pair crc left_page right_page
                 | PkInternal \<Rightarrow> rebalance_internal_pair crc left_page right_page
                 | PkOverflow \<Rightarrow> sfail (BtCorruption 0)) (\<lambda>replacements.
          let children' = take left_index children @ replacements @ drop (right_index + 1) children in
          sbind (slift (validate_child_refs children')) (\<lambda>_.
          sret children')))))))))"

primrec rewrite_delete :: "(bytes \<Rightarrow> 32 word) \<Rightarrow> bytes \<Rightarrow> nat \<Rightarrow> nat \<Rightarrow> child_ref option tree_act" where
  "rewrite_delete crc key 0 page_id = sfail (BtCorruption 0)"
| "rewrite_delete crc key (Suc levels) page_id =
     sbind (pager_read_page crc page_id) (\<lambda>p.
     case pg_kind p of
       PkLeaf \<Rightarrow>
         sbind (decode_leaf crc p None) (\<lambda>(es, _).
         case search_keys (map (\<lambda>e. stored_key_bytes (lf_key e)) es) key of
           Inl _ \<Rightarrow> sfail (BtCorruption 0)
         | Inr index \<Rightarrow>
             let es' = take index es @ drop (index + 1) es in
             if es' = [] then sret None
             else sbind (commit_leaf crc es') (\<lambda>c. sret (Some c)))
     | PkInternal \<Rightarrow>
         sbind (decode_internal crc p None) (\<lambda>(cs, _).
         sbind (slift (route_child cs key)) (\<lambda>child_index.
         sbind (rewrite_delete crc key levels (cr_page_id (cs ! child_index))) (\<lambda>replacement.
         let cs' = (case replacement of
                      Some c \<Rightarrow> cs[child_index := c]
                    | None \<Rightarrow> take child_index cs @ drop (child_index + 1) cs) in
         if cs' = [] then sret None
         else
           sbind (rebalance_after_delete crc cs' (min child_index (length cs' - 1))) (\<lambda>cs''.
           if cs'' = [] then sret None
           else sbind (commit_internal crc cs'') (\<lambda>c. sret (Some c))))))
     | PkOverflow \<Rightarrow> sfail (BtCorruption 0))"

text \<open>The loop that contracts one-child roots.  The code's loop is unbounded; the tree it walks has
  at most \<open>MAX_TREE_HEIGHT\<close> levels, and running out of levels is an error here.\<close>

primrec contract_root :: "(bytes \<Rightarrow> 32 word) \<Rightarrow> nat \<Rightarrow> child_ref \<Rightarrow> child_ref tree_act" where
  "contract_root crc 0 root_ref = sfail (BtCorruption 0)"
| "contract_root crc (Suc levels) root_ref =
     sbind (pager_read_page crc (cr_page_id root_ref)) (\<lambda>p.
     if pg_kind p \<noteq> PkInternal then sret root_ref
     else sbind (decode_internal crc p None) (\<lambda>(cs, _).
          if length cs \<noteq> 1 then sret root_ref
          else contract_root crc levels (cs ! 0)))"

definition btree_delete :: "(bytes \<Rightarrow> 32 word) \<Rightarrow> bytes \<Rightarrow> bytes option tree_act" where
  "btree_delete crc key =
     sbind (slift (bt_validate_key key)) (\<lambda>_.
     sbind (sread pr_data_page_bytes_written) (\<lambda>data_write_before.
     sbind (get_uninstrumented crc key) (\<lambda>previous.
     case previous of
       None \<Rightarrow> sbind (record_mutation (length key) data_write_before) (\<lambda>_. sret None)
     | Some previous_value \<Rightarrow>
         sbind (refresh_reusable_pages crc) (\<lambda>_.
         sbind (sread pager_root_page_id) (\<lambda>root.
         sbind (slift (ok_or root (BtCorruption 0))) (\<lambda>root.
         sbind (rewrite_delete crc key MAX_TREE_HEIGHT root) (\<lambda>replacement.
         sbind (case replacement of
                  None \<Rightarrow> sret None
                | Some root_ref \<Rightarrow> sbind (contract_root crc MAX_TREE_HEIGHT root_ref) (\<lambda>c. sret (Some (cr_page_id c)))) (\<lambda>new_root.
         sbind (pager_set_root crc new_root) (\<lambda>_.
         sbind (record_mutation (length key) data_write_before) (\<lambda>_.
         sret (Some previous_value))))))))))) "


subsection \<open>Ordered scans (scan.rs)\<close>

fun scan_entries ::
    "(bytes \<Rightarrow> 32 word) \<Rightarrow> bytes \<Rightarrow> bytes option \<Rightarrow> nat \<Rightarrow> leaf_entry list \<Rightarrow> (bytes \<times> bytes) list \<Rightarrow>
       (bool \<times> (bytes \<times> bytes) list) tree_act" where
  "scan_entries crc start stop limit [] rows = sret (False, rows)"
| "scan_entries crc start stop limit (e # es) rows =
     (let key = stored_key_bytes (lf_key e) in
      if key < start then scan_entries crc start stop limit es rows
      else if (case stop of None \<Rightarrow> False | Some h \<Rightarrow> key \<ge> h) then sret (True, rows)
      else sbind (load_value crc (lf_value e)) (\<lambda>v.
           let rows' = rows @ [(key, v)] in
           if length rows' \<ge> limit then sret (True, rows')
           else scan_entries crc start stop limit es rows'))"

fun scan_children ::
    "(nat \<Rightarrow> (bytes \<times> bytes) list \<Rightarrow> (bool \<times> (bytes \<times> bytes) list) tree_act) \<Rightarrow> bytes \<Rightarrow> bytes option \<Rightarrow>
       child_ref list \<Rightarrow> (bytes \<times> bytes) list \<Rightarrow> (bool \<times> (bytes \<times> bytes) list) tree_act" where
  "scan_children scan start stop [] rows = sret (False, rows)"
| "scan_children scan start stop (c # cs) rows =
     (if (case cs of [] \<Rightarrow> False | following # _ \<Rightarrow> cr_min_key following \<le> start)
      then scan_children scan start stop cs rows
      else if (case stop of None \<Rightarrow> False | Some h \<Rightarrow> cr_min_key c \<ge> h) then sret (True, rows)
      else sbind (scan (cr_page_id c) rows) (\<lambda>(finished, rows').
           if finished then sret (True, rows') else scan_children scan start stop cs rows'))"

primrec scan_subtree ::
    "(bytes \<Rightarrow> 32 word) \<Rightarrow> bytes \<Rightarrow> bytes option \<Rightarrow> nat \<Rightarrow> nat \<Rightarrow> nat \<Rightarrow> (bytes \<times> bytes) list \<Rightarrow>
       (bool \<times> (bytes \<times> bytes) list) tree_act" where
  "scan_subtree crc start stop limit 0 page_id rows = sfail (BtCorruption 0)"
| "scan_subtree crc start stop limit (Suc levels) page_id rows =
     sbind (pager_read_page crc page_id) (\<lambda>p.
     case pg_kind p of
       PkLeaf \<Rightarrow> sbind (decode_leaf crc p None) (\<lambda>(es, _). scan_entries crc start stop limit es rows)
     | PkInternal \<Rightarrow>
         sbind (decode_internal crc p None) (\<lambda>(cs, _).
         scan_children (scan_subtree crc start stop limit levels) start stop cs rows)
     | PkOverflow \<Rightarrow> sfail (BtCorruption 0))"

definition range_scan_uninstrumented ::
    "(bytes \<Rightarrow> 32 word) \<Rightarrow> bytes \<Rightarrow> bytes option \<Rightarrow> nat \<Rightarrow> (bytes \<times> bytes) list tree_act" where
  "range_scan_uninstrumented crc start stop limit =
     sbind (slift (bt_validate_key start)) (\<lambda>_.
     sbind (slift (case stop of None \<Rightarrow> Inr () | Some h \<Rightarrow>
              rbind (bt_validate_key h) (\<lambda>_. ensure (\<not> h < start) BtInvalidInput))) (\<lambda>_.
     if limit = 0 \<or> stop = Some start then sret []
     else sbind (sread pager_root_page_id) (\<lambda>root.
          case root of
            None \<Rightarrow> sret []
          | Some r \<Rightarrow> sbind (scan_subtree crc start stop limit MAX_TREE_HEIGHT r []) (\<lambda>(_, rows). sret rows))))"

definition btree_range_scan :: "(bytes \<Rightarrow> 32 word) \<Rightarrow> bytes \<Rightarrow> bytes option \<Rightarrow> nat \<Rightarrow> (bytes \<times> bytes) list tree_act" where
  "btree_range_scan crc start stop limit s =
     (let before = pr_read_page_calls s in
      case range_scan_uninstrumented crc start stop limit s of
        (Inl e, s') \<Rightarrow> (Inl e, s')
      | (Inr rows, s') \<Rightarrow>
          (let bi = bt_instrumentation s' in
           (Inr rows, s'\<lparr>bt_instrumentation := bi
              \<lparr>bi_range_scans := saturating_add64 (bi_range_scans bi) 1,
               bi_range_page_accesses := saturating_add64 (bi_range_page_accesses bi) (pr_read_page_calls s' - before),
               bi_range_result_records := saturating_add64 (bi_range_result_records bi) (length rows)\<rparr>\<rparr>)))"


subsection \<open>The engine trait (common.rs)\<close>

fun common_error :: "btree_error \<Rightarrow> db_error" where
  "common_error BtInvalidInput = InvalidInput"
| "common_error (BtIo k) = Io k"
| "common_error (BtCorruption offset) = Corruption offset"
| "common_error (BtUnsupportedVersion found supported) = UnsupportedVersion FmtBtree found supported"
| "common_error BtPoisoned = Poisoned"

definition map_common :: "'a bt_result \<times> btree \<Rightarrow> 'a result \<times> btree" where
  "map_common r = (case fst r of Inl e \<Rightarrow> Inl (common_error e) | Inr x \<Rightarrow> Inr x, snd r)"

definition btree_capabilities :: "btree \<Rightarrow> engine_capabilities" where
  "btree_capabilities s =
     \<lparr>ec_logical_model = KeyValue, ec_storage_architecture = BPlusTree, ec_concurrency = CallerSerialized,
      ec_persistence = Persistent, ec_crash_recovery = MirroredCopyOnWritePages, ec_distribution = Standalone,
      ec_ordered_range_scan = True, ec_max_key_bytes = MAX_TREE_KEY_BYTES, ec_max_value_bytes = MAX_TREE_VALUE_BYTES\<rparr>"

text \<open>\<open>reopen\<close> reads the file at the path; a failed open leaves the handle poisoned.\<close>

definition btree_reopen :: "(bytes \<Rightarrow> 32 word) \<Rightarrow> btree \<Rightarrow> unit result \<times> btree" where
  "btree_reopen crc s =
     (case btree_open crc (Some (pr_file s)) (bt_cache_capacity s) (pr_faults s) of
        (Inl e, f) \<Rightarrow> (Inl (common_error e), s\<lparr>pr_file := (case f of None \<Rightarrow> pr_file s | Some g \<Rightarrow> g), pr_poisoned := True\<rparr>)
      | (Inr t, _) \<Rightarrow> (Inr (), t\<lparr>bt_instrumentation := bt_instrumentation s\<rparr>))"

definition btree_ops :: "(bytes \<Rightarrow> 32 word) \<Rightarrow> btree kv_ops" where
  "btree_ops crc =
     \<lparr>op_capabilities = btree_capabilities,
      op_put = (\<lambda>s k v. map_common (btree_put crc k v s)),
      op_get = (\<lambda>s k. map_common (btree_get crc k s)),
      op_delete = (\<lambda>s k. map_common (btree_delete crc k s)),
      op_range_scan = (\<lambda>s lo hi n. map_common (btree_range_scan crc lo hi n s)),
      op_reopen = btree_reopen crc\<rparr>"

end
