(* ===== verification/BtreePagerSpec.thy ===== *)
theory BtreePagerSpec
  imports BtreePager
begin

text \<open>
  What the pager promises.  \<open>pager_inv\<close>: the file is the committed extent, the superblock in force
  is the one opening would choose, and every cached page is the page of the file.  \<open>pager_page\<close> is
  the page an id stands for; reads return it whatever the cache holds, a commit changes it at one
  id, and no torn write before the root publication changes which tree the file holds.
\<close>

subsection \<open>Superblocks\<close>

definition sb_wf :: "superblock \<Rightarrow> bool" where
  "sb_wf sb \<longleftrightarrow> sb_slot sb < 2 \<and> sb_generation sb \<le> u64_max \<and> 2 \<le> sb_page_count sb \<and>
     sb_page_count sb \<le> u64_max \<and>
     (sb_root_page_id sb = 0 \<or> 2 \<le> sb_root_page_id sb \<and> sb_root_page_id sb < sb_page_count sb)"

definition sb_body :: "superblock \<Rightarrow> bytes" where
  "sb_body sb = SUPERBLOCK_MAGIC @ le_bytes 2 1 @ le_bytes 2 4096 @ [word_of_nat (sb_slot sb)] @ [0, 0, 0] @
     le_bytes 8 (sb_generation sb) @ le_bytes 8 (sb_page_count sb) @ le_bytes 8 (sb_root_page_id sb) @
     le_bytes 4 0 @ replicate 4048 0"

lemma length_sb_body [simp]: "length (sb_body sb) = 4092"
  by (simp add: sb_body_def SUPERBLOCK_MAGIC_def)

lemma superblock_encode_body: "superblock_encode crc sb = sb_body sb @ crc_field (crc (sb_body sb))"
proof -
  have "SUPERBLOCK_MAGIC @ le_bytes 2 BT_FORMAT_VERSION @ le_bytes 2 PAGE_SIZE @ [word_of_nat (sb_slot sb), 0, 0, 0] @
      le_bytes 8 (sb_generation sb) @ le_bytes 8 (sb_page_count sb) @ le_bytes 8 (sb_root_page_id sb) @ le_bytes 4 0 @
      replicate (PAGE_SIZE - 44) 0 = sb_body sb @ replicate 4 0"
    by (simp add: sb_body_def page_consts replicate_add [symmetric] del: le_bytes.simps replicate_Suc)
  then show ?thesis
    by (simp add: superblock_encode_def refresh_image del: le_bytes.simps)
qed

lemma length_superblock_encode [simp]: "length (superblock_encode crc sb) = 4096"
  by (simp add: superblock_encode_body)

lemma sb_fields:
  fixes crc sb
  defines "bs \<equiv> superblock_encode crc sb"
  shows "take 8 bs = SUPERBLOCK_MAGIC" "seg 8 10 bs = le_bytes 2 1" "seg 10 12 bs = le_bytes 2 4096"
    "bs ! 12 = word_of_nat (sb_slot sb)" "seg 13 16 bs = [0, 0, 0]"
    "seg 16 24 bs = le_bytes 8 (sb_generation sb)" "seg 24 32 bs = le_bytes 8 (sb_page_count sb)"
    "seg 32 40 bs = le_bytes 8 (sb_root_page_id sb)" "seg 40 44 bs = le_bytes 4 0"
    "seg 44 4092 bs = replicate 4048 0" "take 4092 bs = sb_body sb" "drop 4092 bs = crc_field (crc (sb_body sb))"
proof -
  have bs: "bs = sb_body sb @ crc_field (crc (sb_body sb))" by (simp add: bs_def superblock_encode_body)
  show "take 4092 bs = sb_body sb" "drop 4092 bs = crc_field (crc (sb_body sb))" by (simp_all add: bs)
  have part: "j \<le> 4092 \<Longrightarrow> seg i j bs = seg i j (sb_body sb)" for i j by (simp add: bs seg_append)
  have l: "length SUPERBLOCK_MAGIC = 8" by (simp add: SUPERBLOCK_MAGIC_def)
  show "seg 8 10 bs = le_bytes 2 1" "seg 10 12 bs = le_bytes 2 4096" "seg 13 16 bs = [0, 0, 0]"
    "seg 16 24 bs = le_bytes 8 (sb_generation sb)" "seg 24 32 bs = le_bytes 8 (sb_page_count sb)"
    "seg 32 40 bs = le_bytes 8 (sb_root_page_id sb)" "seg 40 44 bs = le_bytes 4 0" "seg 44 4092 bs = replicate 4048 0"
    using l by (simp_all add: part, simp_all add: sb_body_def layout del: le_bytes.simps replicate_Suc)
  show "take 8 bs = SUPERBLOCK_MAGIC" "bs ! 12 = word_of_nat (sb_slot sb)"
    using l by (simp_all add: bs sb_body_def nth_append del: le_bytes.simps)
qed

theorem superblock_round_trip:
  assumes "sb_wf sb"
  shows "superblock_decode crc (superblock_encode crc sb) (sb_slot sb) = Inr sb"
proof -
  have "sb_root_page_id sb \<le> u64_max" using assms by (auto simp: sb_wf_def)
  then show ?thesis
    using assms sb_fields [of crc sb]
    by (auto simp: superblock_decode_def validate_checksum_def page_consts sb_wf_def Let_def list_all_iff
      simp del: le_bytes.simps)
qed

theorem superblock_decode_sound:
  assumes "superblock_decode crc bs slot = Inr sb" "length bs = 4096" "slot < 2"
  shows "sb_wf sb \<and> sb_slot sb = slot \<and> bs = superblock_encode crc sb"
proof -
  have d: "read_u32 (drop 4092 bs) = unat (crc (take 4092 bs))" "take 8 bs = SUPERBLOCK_MAGIC"
    "read_u16 (seg 8 10 bs) = 1" "read_u16 (seg 10 12 bs) = 4096" "bs ! 12 = word_of_nat slot"
    "list_all (\<lambda>b. b = 0) (seg 13 16 bs)" "read_u32 (seg 40 44 bs) = 0" "list_all (\<lambda>b. b = 0) (seg 44 4092 bs)"
    "2 \<le> read_u64 (seg 24 32 bs)"
    "sb = \<lparr>sb_slot = slot, sb_generation = read_u64 (seg 16 24 bs), sb_page_count = read_u64 (seg 24 32 bs),
       sb_root_page_id = read_u64 (seg 32 40 bs)\<rparr>"
    "read_u64 (seg 32 40 bs) = 0 \<or> 2 \<le> read_u64 (seg 32 40 bs) \<and> read_u64 (seg 32 40 bs) < read_u64 (seg 24 32 bs)"
    using assms(1)
    by (auto simp: superblock_decode_def validate_checksum_def page_consts rbind_eq_Inr ensure_eq_Inr Let_def not_less
        not_le split: if_splits)
  have u64: "read_u64 (seg i (i + 8) bs) \<le> u64_max \<and> seg i (i + 8) bs = le_bytes 8 (read_u64 (seg i (i + 8) bs))"
    if "i + 8 \<le> 4096" for i
    using read_le_bytes(3) [of "seg i (i + 8) bs" "read_u64 (seg i (i + 8) bs)"] assms(2) that by (simp add: length_seg)
  have zeros: "list_all (\<lambda>b. b = (0 :: byte)) xs \<Longrightarrow> xs = replicate (length xs) 0" for xs
    by (induction xs) auto
  have s1: "seg 8 10 bs = le_bytes 2 1" "seg 10 12 bs = le_bytes 2 4096"
    using d(3,4) assms(2) by (auto simp: read_le_bytes(1) length_seg simp del: le_bytes.simps)
  have s2: "seg 40 44 bs = le_bytes 4 0"
    using d(7) assms(2) by (auto simp: read_le_bytes(2) length_seg simp del: le_bytes.simps)
  have s3: "seg 13 16 bs = [0, 0, 0]"
    using zeros [OF d(6)] assms(2) by (simp add: length_seg numeral_3_eq_3)
  have s4: "seg 44 4092 bs = replicate 4048 0" using zeros [OF d(8)] assms(2) by (simp add: length_seg)
  have s5: "seg 12 13 bs = [word_of_nat slot]"
    using d(5) assms(2) by (simp add: seg_def take_Suc_conv_app_nth hd_drop_conv_nth take_Suc)
  have "take 4092 bs = take 8 bs @ seg 8 10 bs @ seg 10 12 bs @ seg 12 13 bs @ seg 13 16 bs @ seg 16 24 bs @
      seg 24 32 bs @ seg 32 40 bs @ seg 40 44 bs @ seg 44 4092 bs"
    by (simp add: seg_join flip: seg_0)
  then have body: "take 4092 bs = sb_body sb"
    using d(2,10) s1 s2 s3 s4 s5 u64 [of 16] u64 [of 24] u64 [of 32] by (simp add: sb_body_def del: le_bytes.simps)
  have "drop 4092 bs = crc_field (crc (take 4092 bs))"
    using d(1) assms(2) by (simp add: read_u32_eq_crc)
  then have "bs = superblock_encode crc sb"
    using body append_take_drop_id [of 4092 bs] by (simp add: superblock_encode_body)
  moreover have "sb_wf sb" using d(9,10,11) assms(3) u64 [of 16] u64 [of 24] by (simp add: sb_wf_def)
  ultimately show ?thesis using d(10) by simp
qed



subsection \<open>Pages of a file\<close>

definition page_at :: "bytes \<Rightarrow> nat \<Rightarrow> bytes" where
  "page_at f pid = seg (pid * 4096) (pid * 4096 + 4096) f"

lemma length_page_at: "length f = n * 4096 \<Longrightarrow> pid < n \<Longrightarrow> length (page_at f pid) = 4096"
proof -
  assume "length f = n * 4096" "pid < n"
  then have "pid * 4096 + 4096 \<le> length f" using mult_le_mono1 [of "Suc pid" n 4096] by simp
  then show ?thesis by (simp add: page_at_def length_seg)
qed

lemma write_at_inside: "off \<le> length f \<Longrightarrow> write_at off bs f = take off f @ bs @ drop (off + length bs) f"
  by (simp add: write_at_def)

lemma page_at_write_other:
  assumes "pid * 4096 \<le> length f" "length bs \<le> 4096" "q \<noteq> pid"
  shows "page_at (write_at (pid * 4096) bs f) q = page_at f q"
proof (cases "q < pid")
  case True
  then have le: "q * 4096 + 4096 \<le> pid * 4096" using mult_le_mono1 [of "Suc q" pid 4096] by simp
  then have "drop (q * 4096) (write_at (pid * 4096) bs f) =
      take (pid * 4096 - q * 4096) (drop (q * 4096) f) @ bs @ drop (pid * 4096 + length bs) f"
    using assms(1) by (simp add: write_at_inside drop_take)
  moreover have "4096 \<le> length (take (pid * 4096 - q * 4096) (drop (q * 4096) f))" "4096 \<le> pid * 4096 - q * 4096"
    using le assms(1) by simp_all
  ultimately show ?thesis by (simp add: page_at_def seg_def min_absorb1)
next
  case False
  then have le: "pid * 4096 + 4096 \<le> q * 4096" using assms(3) mult_le_mono1 [of "Suc pid" q 4096] by simp
  have "drop (q * 4096) (write_at (pid * 4096) bs f) = drop (q * 4096) f"
    using le assms(1,2) by (simp add: write_at_inside)
  then show ?thesis by (simp add: page_at_def seg_def)
qed

lemma page_at_write_same:
  assumes "pid * 4096 \<le> length f" "length bs = 4096"
  shows "page_at (write_at (pid * 4096) bs f) pid = bs"
  using assms by (simp add: page_at_def seg_def write_at_inside)

lemma length_write_page:
  "pid * 4096 \<le> length f \<Longrightarrow> length bs \<le> 4096 \<Longrightarrow> pid < n \<Longrightarrow> length f = n * 4096 \<Longrightarrow>
     length (write_at (pid * 4096) bs f) = n * 4096"
  using mult_le_mono1 [of "Suc pid" n 4096] by (auto simp: length_write_at)

lemma file_read_page: "length f = n * 4096 \<Longrightarrow> pid < n \<Longrightarrow> file_read (pid * 4096) f = Inr (page_at f pid)"
proof -
  assume "length f = n * 4096" "pid < n"
  then have "pid * 4096 + 4096 \<le> length f" using mult_le_mono1 [of "Suc pid" n 4096] by simp
  then show ?thesis by (simp add: file_read_def PAGE_SIZE_def page_at_def)
qed


subsection \<open>The pages an id stands for, and the invariant\<close>

definition pager_page :: "(bytes \<Rightarrow> 32 word) \<Rightarrow> 'a pager_scheme \<Rightarrow> nat \<Rightarrow> page option" where
  "pager_page crc s pid =
     (if pid < 2 \<or> sb_page_count (pr_active s) \<le> pid then None
      else case page_decode crc (page_at (pr_file s) pid) pid of
        Inl _ \<Rightarrow> None
      | Inr p \<Rightarrow> (case page_link p of
                    None \<Rightarrow> Some p
                  | Some l \<Rightarrow> if sb_page_count (pr_active s) \<le> l then None else Some p))"

definition pager_file_ok :: "(bytes \<Rightarrow> 32 word) \<Rightarrow> superblock \<Rightarrow> bytes \<Rightarrow> bool" where
  "pager_file_ok crc active f \<longleftrightarrow>
     sb_wf active \<and> length f = sb_page_count active * 4096 \<and> length f \<le> u64_max \<and>
     page_at f (sb_slot active) = superblock_encode crc active \<and>
     choose_superblock (superblock_decode crc (page_at f 0) 0) (superblock_decode crc (page_at f 1) 1) = Inr active"

definition pager_inv :: "(bytes \<Rightarrow> 32 word) \<Rightarrow> 'a pager_scheme \<Rightarrow> bool" where
  "pager_inv crc s \<longleftrightarrow> pager_file_ok crc (pr_active s) (pr_file s) \<and>
     (\<forall>pid p. om_lookup (pc_pages (pr_cache s)) pid = Some p \<longrightarrow> pager_page crc s pid = Some p)"

text \<open>Reads change the cache and a counter only.\<close>

definition same_store :: "'a pager_scheme \<Rightarrow> 'a pager_scheme \<Rightarrow> bool" where
  "same_store s s' \<longleftrightarrow> (\<exists>n c. s' = s\<lparr>pr_read_page_calls := n, pr_cache := c\<rparr>)"

lemma same_store_refl [simp]: "same_store s s"
  unfolding same_store_def by (rule exI [of _ "pr_read_page_calls s"], rule exI [of _ "pr_cache s"]) simp

lemma same_store_trans: "same_store s t \<Longrightarrow> same_store t u \<Longrightarrow> same_store s u"
  by (auto simp: same_store_def) (intro exI, rule refl)

lemma same_store_sel:
  assumes "same_store s s'"
  shows "pr_file s' = pr_file s" "pr_active s' = pr_active s" "pr_faults s' = pr_faults s"
    "pr_poisoned s' = pr_poisoned s" "pr_data_page_bytes_written s' = pr_data_page_bytes_written s"
    "pager.more s' = pager.more s" "pager_page crc s' = pager_page crc s"
  using assms by (auto simp: same_store_def pager_page_def fun_eq_iff cong: option.case_cong sum.case_cong)

lemma pager_page_Some:
  assumes "pager_page crc s pid = Some p"
  shows "2 \<le> pid" "pid < sb_page_count (pr_active s)" "page_decode crc (page_at (pr_file s) pid) pid = Inr p"
    "\<And>l. page_link p = Some l \<Longrightarrow> l < sb_page_count (pr_active s)" "page_validate crc p = Inr ()" "pg_id p = pid"
  using assms page_decode_valid [of crc "page_at (pr_file s) pid" pid]
  by (auto simp: pager_page_def not_le split: if_splits sum.splits option.splits)

lemma cache_insert_lookup:
  "om_lookup (pc_pages (cache_insert p c)) q = Some r \<Longrightarrow>
     (if q = pg_id p then r = p else om_lookup (pc_pages c) q = Some r)"
  by (auto simp: cache_insert_def cache_touch_def Let_def split: if_splits list.splits)

lemma pager_read_hit_or_miss:
  assumes inv: "pager_inv crc s" and usable: "\<not> pr_poisoned s"
  obtains s' where "same_store s s'" "pager_inv crc s'"
    "pager_read_page crc pid s = (case pager_page crc s pid of Some p \<Rightarrow> (Inr p, s') | None \<Rightarrow> (fst (pager_read_page crc pid s), s'))"
    "pager_page crc s pid = None \<longrightarrow> \<not> is_ok (fst (pager_read_page crc pid s))"
proof -
  let ?pc = "sb_page_count (pr_active s)"
  have fl: "sb_wf (pr_active s)" "length (pr_file s) = ?pc * 4096" "length (pr_file s) \<le> u64_max"
    using inv by (simp_all add: pager_inv_def pager_file_ok_def)
  show thesis
  proof (cases "pid < 2 \<or> ?pc \<le> pid")
    case True
    then have "pager_page crc s pid = None" "pager_read_page crc pid s = (Inl BtInvalidInput, s)"
      using usable by (auto simp: pager_page_def pager_read_page_def pager_ensure_usable_def sbind_def act_simps
          validate_committed_page_id_def SUPERBLOCK_COUNT_def)
    then show thesis using inv by (intro that [of s]) auto
  next
    case False
    let ?s1 = "s\<lparr>pr_read_page_calls := saturating_add64 (pr_read_page_calls s) 1\<rparr>"
    let ?s2 = "?s1\<lparr>pr_cache := snd (cache_get pid (pr_cache s))\<rparr>"
    have same2: "same_store s ?s2" unfolding same_store_def by (intro exI) simp
    have page2: "pager_page crc ?s2 = pager_page crc s" by (rule same_store_sel(7) [OF same2])
    have inv2: "pager_inv crc ?s2"
      using inv page2 by (auto simp: pager_inv_def cache_get_def cache_touch_def split: option.splits)
    have off: "page_offset pid = Inr (pid * 4096)"
      using False fl mult_le_mono1 [of pid ?pc 4096] by (auto simp: page_offset_def checked_mul64_def PAGE_SIZE_def)
    have rd: "file_read (pid * 4096) (pr_file s) = Inr (page_at (pr_file s) pid)"
      using False fl(2) by (intro file_read_page) auto
    show thesis
    proof (cases "om_lookup (pc_pages (pr_cache s)) pid")
      case (Some p)
      then have "pager_page crc s pid = Some p" using inv by (simp add: pager_inv_def)
      moreover have "pager_read_page crc pid s = (Inr p, ?s2)"
        using Some usable False
        by (simp add: pager_read_page_def pager_ensure_usable_def sbind_def act_simps validate_committed_page_id_def
            SUPERBLOCK_COUNT_def cache_get_def)
      ultimately show thesis using same2 inv2 by (intro that [of ?s2]) auto
    next
      case None
      have run: "pager_read_page crc pid s =
          (case rbind (page_decode crc (page_at (pr_file s) pid) pid) (\<lambda>p.
             rbind (case page_link p of None \<Rightarrow> Inr () | Some link \<Rightarrow> ensure (\<not> link \<ge> ?pc) (BtCorruption (pid * 4096 + 32))) (\<lambda>_. Inr p)) of
             Inl e \<Rightarrow> (Inl e, ?s2) | Inr p \<Rightarrow> (Inr p, ?s2\<lparr>pr_cache := cache_insert p (pr_cache ?s2)\<rparr>))"
        using None usable False
        by (simp add: pager_read_page_def pager_ensure_usable_def sbind_def act_simps validate_committed_page_id_def
            SUPERBLOCK_COUNT_def cache_get_def off rd split: sum.split option.split)
      show thesis
      proof (cases "pager_page crc s pid")
        case None
        then have "\<exists>e. pager_read_page crc pid s = (Inl e, ?s2)"
          using False run by (auto simp: pager_page_def split: sum.splits option.splits if_splits)
        then show thesis using None same2 inv2 by (intro that [of ?s2]) auto
      next
        case (Some p)
        let ?s3 = "?s2\<lparr>pr_cache := cache_insert p (pr_cache ?s2)\<rparr>"
        have same3: "same_store s ?s3" unfolding same_store_def by (intro exI) simp
        have page3: "pager_page crc ?s3 = pager_page crc s" by (rule same_store_sel(7) [OF same3])
        have "pager_read_page crc pid s = (Inr p, ?s3)"
          using False Some run by (auto simp: pager_page_def split: sum.splits option.splits if_splits)
        moreover have "pager_inv crc ?s3"
          using inv inv2 page2 page3 Some pager_page_Some(6) [OF Some]
          by (auto simp: pager_inv_def dest!: cache_insert_lookup split: if_splits)
        ultimately show thesis using Some same3 by (intro that [of ?s3]) auto
      qed
    qed
  qed
qed



subsection \<open>Publishing a superblock\<close>

text \<open>The superblock that follows \<open>active\<close>, in the other slot.\<close>

definition sb_next :: "superblock \<Rightarrow> nat \<Rightarrow> nat \<Rightarrow> superblock" where
  "sb_next active page_count root =
     \<lparr>sb_slot = alternate_slot (sb_slot active), sb_generation = sb_generation active + 1,
      sb_page_count = page_count, sb_root_page_id = root\<rparr>"

lemma sb_next_sel [simp]:
  "sb_slot (sb_next a n r) = alternate_slot (sb_slot a)" "sb_generation (sb_next a n r) = sb_generation a + 1"
  "sb_page_count (sb_next a n r) = n" "sb_root_page_id (sb_next a n r) = r"
  by (simp_all add: sb_next_def)

lemma choose_newer:
  assumes "sb_wf active" "sb_wf new" "sb_generation new = sb_generation active + 1"
    and "sb_slot new = alternate_slot (sb_slot active)"
    and "page_at f (sb_slot active) = superblock_encode crc active" "page_at f (sb_slot new) = superblock_encode crc new"
  shows "choose_superblock (superblock_decode crc (page_at f 0) 0) (superblock_decode crc (page_at f 1) 1) = Inr new"
proof -
  have "sb_slot active = 0 \<and> sb_slot new = 1 \<or> sb_slot active = 1 \<and> sb_slot new = 0"
    using assms(1,4) by (auto simp: sb_wf_def alternate_slot_def)
  then show ?thesis
  proof
    assume s: "sb_slot active = 0 \<and> sb_slot new = 1"
    then show ?thesis
      using assms(3,5,6) superblock_round_trip [OF assms(1), of crc] superblock_round_trip [OF assms(2), of crc]
      by (simp add: choose_superblock_def)
  next
    assume s: "sb_slot active = 1 \<and> sb_slot new = 0"
    then show ?thesis
      using assms(3,5,6) superblock_round_trip [OF assms(1), of crc] superblock_round_trip [OF assms(2), of crc]
      by (simp add: choose_superblock_def)
  qed
qed

lemma publish_file_ok:
  assumes ok: "pager_file_ok crc active f" and new: "sb_wf (sb_next active n r)"
    and g: "length g = n * 4096" "length g \<le> u64_max" "page_at g (sb_slot active) = page_at f (sb_slot active)"
  shows "pager_file_ok crc (sb_next active n r)
    (write_at (alternate_slot (sb_slot active) * 4096) (superblock_encode crc (sb_next active n r)) g)"
proof -
  let ?alt = "alternate_slot (sb_slot active)" and ?new = "sb_next active n r"
  let ?g = "write_at (?alt * 4096) (superblock_encode crc ?new) g"
  have n: "2 \<le> n" using new by (simp add: sb_wf_def)
  have alt: "?alt < 2" "sb_slot active \<noteq> ?alt" by (auto simp: alternate_slot_def)
  have room: "?alt * 4096 \<le> length g" using n alt(1) g(1) by (simp add: mult_le_mono1)
  have len: "length ?g = n * 4096" using room g(1) n alt(1) by (intro length_write_page) simp_all
  have a: "page_at ?g (sb_slot active) = superblock_encode crc active"
    using page_at_write_other [OF room _ alt(2), of "superblock_encode crc ?new"] g(3) ok by (simp add: pager_file_ok_def)
  have b: "page_at ?g ?alt = superblock_encode crc ?new" using room by (intro page_at_write_same) simp_all
  have "choose_superblock (superblock_decode crc (page_at ?g 0) 0) (superblock_decode crc (page_at ?g 1) 1) = Inr ?new"
    using ok new a b by (intro choose_newer [of active]) (simp_all add: pager_file_ok_def)
  then show ?thesis using new len g(1,2) b by (simp add: pager_file_ok_def)
qed


subsection \<open>Commits without faults\<close>

text \<open>A page that the file may hold once \<open>n\<close> pages are committed.\<close>

definition page_committable :: "nat \<Rightarrow> page_kind \<Rightarrow> nat \<Rightarrow> nat option \<Rightarrow> bytes list \<Rightarrow> bool" where
  "page_committable n kind pid link cells \<longleftrightarrow>
     cells_room cells \<and> page_args kind pid link \<and> (case link of None \<Rightarrow> True | Some l \<Rightarrow> l < n)"

lemma pager_page_image:
  assumes "page_committable n kind pid link cells" "pid < n" "sb_page_count (pr_active s) = n"
    "page_at (pr_file s) pid = page_image crc kind pid link cells"
  shows "pager_page crc s pid = Some (page_of crc kind pid link cells)"
  using assms page_sel_of(3) [of cells kind pid link crc]
  by (auto simp: pager_page_def page_committable_def page_decode_of page_args_def split: option.splits)

lemma write_durable_quiet:
  "pr_faults s = [] \<Longrightarrow> write_durable_bytes off bs kind s =
     (Inr (), s\<lparr>pr_file := write_at off bs (pr_file s), pr_data_page_bytes_written :=
        (case kind of AppendPage _ \<Rightarrow> saturating_add64 (pr_data_page_bytes_written s) (length bs)
         | RecycledPage _ \<Rightarrow> saturating_add64 (pr_data_page_bytes_written s) (length bs)
         | AllocationSuperblock \<Rightarrow> pr_data_page_bytes_written s
         | RootSuperblock \<Rightarrow> pr_data_page_bytes_written s)\<rparr>)"
  by (simp add: write_durable_bytes_def Let_def split: durable_write_kind.split)

text \<open>What a successful commit at \<open>pid\<close> leaves.\<close>

definition committed :: "(bytes \<Rightarrow> 32 word) \<Rightarrow> 'a pager_scheme \<Rightarrow> page \<Rightarrow> 'a pager_scheme \<Rightarrow> bool" where
  "committed crc s p s' \<longleftrightarrow>
     pager_inv crc s' \<and> \<not> pr_poisoned s' \<and> pr_faults s' = [] \<and> pager.more s' = pager.more s \<and>
     sb_root_page_id (pr_active s') = sb_root_page_id (pr_active s) \<and>
     pager_page crc s' (pg_id p) = Some p \<and>
     (\<forall>q r. q \<noteq> pg_id p \<longrightarrow> pager_page crc s q = Some r \<longrightarrow> pager_page crc s' q = Some r)"

lemma coherent_after:
  assumes "\<forall>pid r. om_lookup (pc_pages c) pid = Some r \<longrightarrow> pager_page crc s pid = Some r"
    and "pager_page crc s' (pg_id p) = Some p"
    and "\<forall>q r. q \<noteq> pg_id p \<longrightarrow> pager_page crc s q = Some r \<longrightarrow> pager_page crc s' q = Some r"
    and "om_lookup (pc_pages (cache_insert p c)) q = Some r"
  shows "pager_page crc s' q = Some r"
  using cache_insert_lookup [OF assms(4)] assms(1-3) by (auto split: if_splits)

theorem pager_commit_new_page_ok:
  assumes inv: "pager_inv crc s" "\<not> pr_poisoned s" "pr_faults s = []"
    and page: "page_committable (sb_page_count (pr_active s)) kind (sb_page_count (pr_active s)) link cells"
    and room: "(sb_page_count (pr_active s) + 1) * 4096 \<le> u64_max" "sb_generation (pr_active s) + 1 \<le> u64_max"
  defines "p \<equiv> page_of crc kind (sb_page_count (pr_active s)) link cells"
  shows "\<exists>s'. pager_commit_new_page crc p s = (Inr (pg_id p), s') \<and> committed crc s p s' \<and>
    sb_page_count (pr_active s') = sb_page_count (pr_active s) + 1 \<and>
    sb_generation (pr_active s') = sb_generation (pr_active s) + 1"
proof -
  let ?a = "pr_active s" and ?n = "sb_page_count (pr_active s)"
  let ?new = "sb_next ?a (?n + 1) (sb_root_page_id ?a)"
  have ok: "pager_file_ok crc ?a (pr_file s)" using inv(1) by (simp add: pager_inv_def)
  then have len: "length (pr_file s) = ?n * 4096" and wf: "sb_wf ?a" by (simp_all add: pager_file_ok_def)
  have pid: "pg_id p = ?n" and bytes: "length (pg_bytes p) = 4096"
    using page by (simp_all add: p_def length_page_image page_committable_def)
  have wf': "sb_wf ?new" using wf room by (auto simp: sb_wf_def alternate_slot_def)
  let ?f1 = "write_at (?n * 4096) (pg_bytes p) (pr_file s)"
  let ?f2 = "write_at (alternate_slot (sb_slot ?a) * 4096) (superblock_encode crc ?new) ?f1"
  have len1: "length ?f1 = (?n + 1) * 4096" using len bytes by (auto simp: length_write_at)
  have other1: "q \<noteq> ?n \<Longrightarrow> page_at ?f1 q = page_at (pr_file s) q" for q
    using len bytes by (intro page_at_write_other) simp_all
  have n2: "2 \<le> ?n" using wf by (simp add: sb_wf_def)
  have slot: "sb_slot ?a < 2" using wf by (simp add: sb_wf_def)
  have ok2: "pager_file_ok crc ?new ?f2"
    using ok wf' len1 room(1) other1 n2 slot by (intro publish_file_ok [where f = "pr_file s"]) auto
  have alt: "alternate_slot (sb_slot ?a) * 4096 \<le> length ?f1" "alternate_slot (sb_slot ?a) < 2"
    using len1 n2 by (auto simp: alternate_slot_def)
  have other2: "2 \<le> q \<Longrightarrow> page_at ?f2 q = page_at ?f1 q" for q
    using alt by (intro page_at_write_other) simp_all
  have same: "page_at ?f2 ?n = page_image crc kind ?n link cells"
    using other2 [OF n2] page_at_write_same [of ?n "pr_file s" "pg_bytes p"] len bytes by (simp add: p_def)
  define t where "t = s\<lparr>pr_file := ?f2, pr_data_page_bytes_written := saturating_add64 (pr_data_page_bytes_written s) 4096,
    pr_active := ?new, pr_cache := cache_insert p (pr_cache s)\<rparr>"
  have mine: "pager_page crc t (pg_id p) = Some p"
    unfolding p_def page_of_sel
    by (rule pager_page_image [where n = "?n + 1"])
       (use page same in \<open>auto simp: t_def page_committable_def split: option.splits\<close>)
  have others: "q \<noteq> pg_id p \<Longrightarrow> pager_page crc s q = Some r \<Longrightarrow> pager_page crc t q = Some r" for q r
    using other1 [of q] other2 [of q] pid
    by (fastforce simp: pager_page_def t_def split: if_splits sum.splits option.splits)
  have coh: "\<forall>pid r. om_lookup (pc_pages (pr_cache t)) pid = Some r \<longrightarrow> pager_page crc t pid = Some r"
    using coherent_after [OF _ mine] others inv(1) by (simp add: pager_inv_def t_def) blast
  have run: "pager_commit_new_page crc p s = (Inr (pg_id p), t)"
    using inv(2,3) page pid room len bytes
    by (simp add: pager_commit_new_page_def pager_ensure_usable_def sbind_def act_simps p_def page_committable_def
        page_validate_of checked_add64_def committed_file_bytes_def checked_mul64_def PAGE_SIZE_def Let_def
        poison_on_error_def write_superblock_durable_def write_durable_quiet t_def sb_next_def)
  have "committed crc s p t"
    using ok2 coh inv(2,3) mine others by (auto simp: committed_def pager_inv_def t_def)
  then show ?thesis using run by (intro exI [of _ t]) (simp add: t_def)
qed


theorem pager_commit_recycled_page_ok:
  assumes inv: "pager_inv crc s" "\<not> pr_poisoned s" "pr_faults s = []"
    and page: "page_committable (sb_page_count (pr_active s)) kind pid link cells" "pid < sb_page_count (pr_active s)"
  defines "p \<equiv> page_of crc kind pid link cells"
  shows "\<exists>s'. pager_commit_recycled_page crc p s = (Inr (pg_id p), s') \<and> committed crc s p s' \<and>
    pr_active s' = pr_active s"
proof -
  let ?a = "pr_active s" and ?n = "sb_page_count (pr_active s)"
  have ok: "pager_file_ok crc ?a (pr_file s)" using inv(1) by (simp add: pager_inv_def)
  then have len: "length (pr_file s) = ?n * 4096" "length (pr_file s) \<le> u64_max" and wf: "sb_wf ?a"
    by (simp_all add: pager_file_ok_def)
  have pid: "pg_id p = pid" "2 \<le> pid" and bytes: "length (pg_bytes p) = 4096"
    using page by (simp_all add: p_def length_page_image page_committable_def page_args_def)
  have room: "pid * 4096 \<le> length (pr_file s)" using len page(2) by simp
  let ?f = "write_at (pid * 4096) (pg_bytes p) (pr_file s)"
  have len': "length ?f = ?n * 4096" using len bytes page(2) room by (intro length_write_page) simp_all
  have other: "q \<noteq> pid \<Longrightarrow> page_at ?f q = page_at (pr_file s) q" for q
    using room bytes by (intro page_at_write_other) simp_all
  have same: "page_at ?f pid = page_image crc kind pid link cells"
    using page_at_write_same [OF room bytes] by (simp add: p_def)
  have slot: "sb_slot ?a < 2" using wf by (simp add: sb_wf_def)
  have ok': "pager_file_ok crc ?a ?f"
    using ok len len' other pid(2) slot by (simp add: pager_file_ok_def)
  define t where "t = s\<lparr>pr_file := ?f, pr_data_page_bytes_written := saturating_add64 (pr_data_page_bytes_written s) 4096,
    pr_cache := cache_insert p (pr_cache s)\<rparr>"
  have mine: "pager_page crc t (pg_id p) = Some p"
    unfolding p_def page_of_sel
    by (rule pager_page_image [where n = ?n]) (use page same in \<open>auto simp: t_def\<close>)
  have others: "q \<noteq> pg_id p \<Longrightarrow> pager_page crc s q = Some r \<Longrightarrow> pager_page crc t q = Some r" for q r
    using other [of q] pid
    by (fastforce simp: pager_page_def t_def split: if_splits sum.splits option.splits)
  have coh: "\<forall>pid r. om_lookup (pc_pages (pr_cache t)) pid = Some r \<longrightarrow> pager_page crc t pid = Some r"
    using coherent_after [OF _ mine] others inv(1) by (simp add: pager_inv_def t_def) blast
  have off: "pid * 4096 \<le> u64_max" using room len by simp
  have run: "pager_commit_recycled_page crc p s = (Inr (pg_id p), t)"
    using inv(2,3) page pid bytes off
    by (simp add: pager_commit_recycled_page_def pager_ensure_usable_def sbind_def act_simps p_def page_committable_def
        page_validate_of page_offset_def checked_mul64_def PAGE_SIZE_def validate_committed_page_id_def
        SUPERBLOCK_COUNT_def poison_on_error_def write_durable_quiet t_def length_page_image)
  have "committed crc s p t"
    using ok' coh inv(2,3) mine others by (auto simp: committed_def pager_inv_def t_def)
  then show ?thesis using run by (intro exI [of _ t]) (simp add: t_def)
qed

definition root_encoded :: "nat option \<Rightarrow> nat" where
  "root_encoded r = (case r of None \<Rightarrow> ROOT_NONE | Some q \<Rightarrow> q)"

theorem pager_set_root_ok:
  assumes inv: "pager_inv crc s" "\<not> pr_poisoned s" "pr_faults s = []"
    and root: "\<And>q. r = Some q \<Longrightarrow> pager_page crc s q \<noteq> None"
    and room: "sb_generation (pr_active s) + 1 \<le> u64_max"
  shows "\<exists>s'. pager_set_root crc r s = (Inr (), s') \<and> pager_inv crc s' \<and> \<not> pr_poisoned s' \<and> pr_faults s' = [] \<and>
    pager.more s' = pager.more s \<and> pager_page crc s' = pager_page crc s \<and> pager_root_page_id s' = r \<and>
    sb_page_count (pr_active s') = sb_page_count (pr_active s) \<and>
    sb_generation (pr_active s') \<le> sb_generation (pr_active s) + 1 \<and>
    pr_data_page_bytes_written s' = pr_data_page_bytes_written s"
proof -
  have "\<exists>t. (case r of Some page_id \<Rightarrow> sbind (validate_committed_page_id page_id) (\<lambda>_. sbind (pager_read_page crc page_id) (\<lambda>_. sret page_id))
      | None \<Rightarrow> sret ROOT_NONE) s = (Inr (root_encoded r), t) \<and> same_store s t \<and> pager_inv crc t"
  proof (cases r)
    case None
    then show ?thesis using inv by (auto simp: root_encoded_def act_simps)
  next
    case (Some q)
    then obtain p where p: "pager_page crc s q = Some p" using root by auto
    obtain t where "same_store s t" "pager_inv crc t" "pager_read_page crc q s = (Inr p, t)"
      using pager_read_hit_or_miss [OF inv(1,2), of q] p by auto
    then show ?thesis
      using Some pager_page_Some(1,2) [OF p]
      by (auto simp: sbind_def act_simps validate_committed_page_id_def SUPERBLOCK_COUNT_def root_encoded_def)
  qed
  then obtain t where t: "(case r of Some page_id \<Rightarrow> sbind (validate_committed_page_id page_id) (\<lambda>_. sbind (pager_read_page crc page_id) (\<lambda>_. sret page_id))
      | None \<Rightarrow> sret ROOT_NONE) s = (Inr (root_encoded r), t)" "same_store s t" "pager_inv crc t" by blast
  note sel = same_store_sel [OF t(2)]
  have start: "pager_ensure_usable s = (Inr (), s)" using inv(2) by (simp add: pager_ensure_usable_def)
  have run1: "sbind pager_ensure_usable f s = f () s" for f :: "unit \<Rightarrow> ('a pager_scheme, btree_error, unit) act"
    using start by (rule sbind_run)
  have run2: "sbind (case r of Some page_id \<Rightarrow> sbind (validate_committed_page_id page_id) (\<lambda>_. sbind (pager_read_page crc page_id) (\<lambda>_. sret page_id))
      | None \<Rightarrow> sret ROOT_NONE) f s = f (root_encoded r) t" for f :: "nat \<Rightarrow> ('a pager_scheme, btree_error, unit) act"
    using t(1) by (rule sbind_run)
  have ok: "pager_file_ok crc (pr_active s) (pr_file s)" using inv(1) by (simp add: pager_inv_def)
  have enc: "root_encoded r = 0 \<longleftrightarrow> r = None" "\<And>q. r = Some q \<Longrightarrow> 2 \<le> q \<and> q < sb_page_count (pr_active s)"
    using root pager_page_Some(1,2) [of crc s] by (fastforce simp: root_encoded_def ROOT_NONE_def split: option.splits)+
  have rid: "root_encoded r = sb_root_page_id a \<Longrightarrow> pr_active u = a \<Longrightarrow> pager_root_page_id u = r" for a u
    using enc(1) by (auto simp: pager_root_page_id_def root_encoded_def ROOT_NONE_def split: option.splits)
  show ?thesis
  proof (cases "root_encoded r = sb_root_page_id (pr_active s)")
    case True
    then have "pager_set_root crc r s = (Inr (), t)"
      unfolding pager_set_root_def by (simp add: run1 run2 sel act_simps)
    then show ?thesis using True t inv sel rid [of "pr_active s" t] by (intro exI [of _ t]) simp
  next
    case False
    let ?a = "pr_active s"
    let ?new = "sb_next ?a (sb_page_count ?a) (root_encoded r)"
    let ?f = "write_at (alternate_slot (sb_slot ?a) * 4096) (superblock_encode crc ?new) (pr_file s)"
    have wf: "sb_wf ?a" and len: "length (pr_file s) = sb_page_count ?a * 4096" "length (pr_file s) \<le> u64_max"
      using ok by (simp_all add: pager_file_ok_def)
    have wf': "sb_wf ?new"
      using wf room enc by (auto simp: sb_wf_def alternate_slot_def root_encoded_def ROOT_NONE_def split: option.splits)
    have ok': "pager_file_ok crc ?new ?f" using len by (intro publish_file_ok [OF ok wf']) simp_all
    have n2: "2 \<le> sb_page_count ?a" using wf by (simp add: sb_wf_def)
    have "alternate_slot (sb_slot ?a) * 4096 \<le> length (pr_file s)" "alternate_slot (sb_slot ?a) < 2"
      using len n2 by (auto simp: alternate_slot_def)
    then have other: "2 \<le> q \<Longrightarrow> page_at ?f q = page_at (pr_file s) q" for q
      by (intro page_at_write_other) simp_all
    define u where "u = t\<lparr>pr_file := ?f, pr_active := ?new\<rparr>"
    have pages: "pager_page crc u = pager_page crc s"
      using other by (auto simp: pager_page_def u_def fun_eq_iff cong: option.case_cong sum.case_cong)
    have "pager_set_root crc r s = (Inr (), u)"
      unfolding pager_set_root_def
      using False sel inv(3) room
      by (simp add: run1 run2) (simp add: sbind_def act_simps checked_add64_def Let_def
          poison_on_error_def write_superblock_durable_def write_durable_quiet PAGE_SIZE_def u_def sb_next_def)
    moreover have "pager_inv crc u"
      using ok' t(3) pages sel by (simp add: pager_inv_def) (simp add: u_def)
    moreover have "pager_root_page_id u = r" by (rule rid [of ?new]) (simp_all add: u_def)
    ultimately show ?thesis
      using inv sel pages by (intro exI [of _ u]) (simp add: u_def)
  qed
qed

end
