(* ===== verification/BtreeCells.thy ===== *)
theory BtreeCells
  imports BtreeEngine BtreePagerSpec
begin

text \<open>
  The pure functions of the tree layer: flag bits of the length fields, search in a sorted node,
  what fits a page, and where a node is split.
\<close>

subsection \<open>Flag bits\<close>

lemma flag_or:
  assumes "a < 2 ^ k"
  shows "2 ^ k OR a = 2 ^ k + (a :: nat)"
proof -
  have "\<not> bit a k" using assms by (simp add: bit_iff_odd)
  then have "2 ^ k AND a = 0" by (simp add: and_exp_eq_0_iff_not_bit and.commute)
  then show ?thesis by (simp add: disjunctive_add_eq_or)
qed

lemma flag_fields:
  "(a :: nat) AND (2 ^ k - 1) = a mod 2 ^ k" "a < 2 ^ Suc k \<Longrightarrow> a AND 2 ^ k = 0 \<longleftrightarrow> a < 2 ^ k"
proof -
  show "a AND (2 ^ k - 1) = a mod 2 ^ k"
    by (metis mask_eq_exp_minus_1 take_bit_eq_mask take_bit_eq_mod)
  assume a: "a < 2 ^ Suc k"
  have "a div 2 ^ k < 2" using a by (simp add: less_mult_imp_div_less)
  then have "odd (a div 2 ^ k) \<longleftrightarrow> a div 2 ^ k \<noteq> 0" by (cases "a div 2 ^ k") auto
  also have "\<dots> \<longleftrightarrow> \<not> a < 2 ^ k" by (simp add: div_eq_0_iff)
  finally show "a AND 2 ^ k = 0 \<longleftrightarrow> a < 2 ^ k"
    by (simp add: and_exp_eq_0_iff_not_bit bit_iff_odd)
qed

lemma key_field_bits:
  "a < 32768 \<Longrightarrow> KEY_OVERFLOW_FLAG OR a = 32768 + a" "a AND KEY_LENGTH_MASK = a mod 32768"
  "a < 65536 \<Longrightarrow> a AND KEY_OVERFLOW_FLAG = 0 \<longleftrightarrow> a < 32768"
  using flag_or [of a 15] flag_fields [of a 15] by (simp_all add: KEY_OVERFLOW_FLAG_def KEY_LENGTH_MASK_def)

lemma value_field_bits:
  "a < 2147483648 \<Longrightarrow> VALUE_OVERFLOW_FLAG OR a = 2147483648 + a" "a AND VALUE_LENGTH_MASK = a mod 2147483648"
  "a < 4294967296 \<Longrightarrow> a AND VALUE_OVERFLOW_FLAG = 0 \<longleftrightarrow> a < 2147483648"
  using flag_or [of a 31] flag_fields [of a 31] by (simp_all add: VALUE_OVERFLOW_FLAG_def VALUE_LENGTH_MASK_def)


subsection \<open>Order and search\<close>

lemma strictly_increasing_iff: "strictly_increasing xs \<longleftrightarrow> sorted_wrt (<) xs"
proof (induction xs rule: strictly_increasing.induct)
  case (1 a b rest)
  then show ?case by (auto intro: less_trans)
qed simp_all

lemma dropWhile_above:
  assumes "sorted_wrt (<) keys" "key \<notin> set (take 1 (dropWhile (\<lambda>k. k < key) keys))"
  shows "\<forall>k \<in> set (dropWhile (\<lambda>k. k < key) keys). key < (k :: bytes)"
proof (cases "dropWhile (\<lambda>k. k < key) keys")
  case (Cons a rest)
  have "\<not> a < key" using hd_dropWhile [of "\<lambda>k. k < key" keys] Cons by simp
  moreover have "a \<noteq> key" using assms(2) Cons by simp
  ultimately have "key < a" by simp
  moreover have "sorted_wrt (<) (a # rest)"
    using sorted_wrt_drop [OF assms(1)] Cons by (metis dropWhile_eq_drop)
  ultimately show ?thesis using Cons by auto
next
  case Nil
  show ?thesis unfolding Nil by simp
qed

lemma search_keys_cases:
  assumes "sorted_wrt (<) keys"
  shows "case search_keys keys key of
      Inr i \<Rightarrow> i < length keys \<and> keys ! i = key
    | Inl i \<Rightarrow> i \<le> length keys \<and> key \<notin> set keys \<and> (\<forall>k \<in> set (take i keys). k < key) \<and> (\<forall>k \<in> set (drop i keys). key < k)"
proof -
  let ?P = "\<lambda>k. k < key"
  define i where "i = length (takeWhile ?P keys)"
  have take: "take i keys = takeWhile ?P keys" and drop: "drop i keys = dropWhile ?P keys"
    unfolding i_def by (rule takeWhile_eq_take [symmetric], rule dropWhile_eq_drop [symmetric])
  have run: "search_keys keys key = (if i < length keys \<and> keys ! i = key then Inr i else Inl i)"
    by (simp add: search_keys_def i_def Let_def)
  show ?thesis
  proof (cases "i < length keys \<and> keys ! i = key")
    case True
    then show ?thesis using run by simp
  next
    case False
    have "key \<notin> set (take 1 (drop i keys))"
    proof (cases "i < length keys")
      case True
      then have "drop i keys = keys ! i # drop (Suc i) keys" by (simp add: Cons_nth_drop_Suc)
      then show ?thesis using False True by simp
    qed simp
    then have above: "\<forall>k \<in> set (drop i keys). key < k" unfolding drop by (rule dropWhile_above [OF assms])
    have below: "\<forall>k \<in> set (take i keys). k < key" unfolding take using set_takeWhileD [of _ ?P keys] by blast
    have "set (take i keys @ drop i keys) = set (take i keys) \<union> set (drop i keys)" by (rule set_append)
    then have "set keys = set (take i keys) \<union> set (drop i keys)" by (simp only: append_take_drop_id)
    then have "key \<notin> set keys" using above below by blast
    moreover have "i \<le> length keys" unfolding i_def by (rule length_takeWhile_le)
    moreover have "search_keys keys key = Inl i" using run False by simp
    ultimately show ?thesis using above below by simp
  qed
qed

lemma search_keys_found:
  assumes "sorted_wrt (<) keys" "i < length keys" "keys ! i = key"
  shows "search_keys keys key = Inr i"
proof (cases "search_keys keys key")
  case (Inl j)
  then show ?thesis using search_keys_cases [OF assms(1), of key] assms(2,3) nth_mem by fastforce
next
  case (Inr j)
  then have "j < length keys" "keys ! j = keys ! i" using search_keys_cases [OF assms(1), of key] assms(3) by auto
  moreover have "distinct keys" using assms(1) by (simp add: strict_sorted_iff)
  ultimately show ?thesis using Inr assms(2) by (simp add: nth_eq_iff_index_eq)
qed


subsection \<open>What fits\<close>

definition cells_total :: "bytes list \<Rightarrow> nat" where
  "cells_total cells = 4 * length cells + cells_bytes cells"

lemma cells_total_simps [simp]:
  "cells_total [] = 0" "cells_total (c # cs) = 4 + length c + cells_total cs"
  "cells_total (xs @ ys) = cells_total xs + cells_total ys"
  by (simp_all add: cells_total_def)

lemma checked_cells_total: "used \<le> u64_max \<Longrightarrow> checked_cells_total used cells =
    (if used + cells_total cells \<le> u64_max then Some (used + cells_total cells) else None)"
proof (induction cells arbitrary: used)
  case Nil
  then show ?case by simp
next
  case (Cons c cells)
  then show ?case by (auto simp: checked_add64_def SLOT_LEN_def add.assoc)
qed

lemma cells_fit_iff: "cells_fit cells \<longleftrightarrow> cells_total cells \<le> 4052"
  by (auto simp: cells_fit_def checked_cells_total node_consts u64_max_def)

lemma cells_room_fit: "cells_room cells \<longleftrightarrow> [] \<notin> set cells \<and> cells_fit cells"
  by (auto simp: cells_room_def cells_fit_iff cells_total_def)

lemma cells_total_take_drop: "cells_total (take i cells) + cells_total (drop i cells) = cells_total cells"
  by (metis append_take_drop_id cells_total_simps(3))

lemma cells_total_take_Suc:
  "i < length cells \<Longrightarrow> cells_total (take (Suc i) cells) = cells_total (take i cells) + (4 + length (cells ! i))"
  by (simp add: take_Suc_conv_app_nth)


subsection \<open>Splits\<close>

definition split_feasible :: "(nat \<Rightarrow> bool) \<Rightarrow> bytes list \<Rightarrow> nat \<Rightarrow> bool" where
  "split_feasible allowed cells j \<longleftrightarrow> allowed j \<and> cells_total (take j cells) \<le> 4052 \<and> cells_total (drop j cells) \<le> 4052"

definition split_imbalance :: "bytes list \<Rightarrow> nat \<Rightarrow> nat" where
  "split_imbalance cells j =
     (if cells_total (take j cells) \<le> cells_total (drop j cells)
      then cells_total (drop j cells) - cells_total (take j cells)
      else cells_total (take j cells) - cells_total (drop j cells))"

definition best_split :: "(nat \<Rightarrow> bool) \<Rightarrow> bytes list \<Rightarrow> nat \<Rightarrow> (nat \<times> nat) option \<Rightarrow> bool" where
  "best_split allowed cells n best \<longleftrightarrow>
     (case best of
        None \<Rightarrow> \<forall>j. 1 \<le> j \<and> j < n \<longrightarrow> \<not> split_feasible allowed cells j
      | Some (k, i) \<Rightarrow> 1 \<le> k \<and> k < n \<and> split_feasible allowed cells k \<and> i = split_imbalance cells k \<and>
          (\<forall>j. 1 \<le> j \<and> j < n \<and> split_feasible allowed cells j \<longrightarrow> i \<le> split_imbalance cells j))"

lemma best_split_step:
  assumes "best_split allowed cells n best" "1 \<le> n"
  shows "best_split allowed cells (Suc n)
    (if split_feasible allowed cells n \<and> (case best of None \<Rightarrow> True | Some (_, current) \<Rightarrow> split_imbalance cells n < current)
     then Some (n, split_imbalance cells n) else best)"
proof (cases best)
  case None
  then show ?thesis using assms by (auto simp: best_split_def less_Suc_eq)
next
  case (Some b)
  obtain k i where b: "b = (k, i)" by force
  show ?thesis
  proof (cases "split_feasible allowed cells n \<and> split_imbalance cells n < i")
    case True
    then show ?thesis using assms Some b by (auto simp: best_split_def less_Suc_eq intro: order_less_imp_le order_less_le_trans)
  next
    case False
    then show ?thesis using assms Some b by (auto simp: best_split_def less_Suc_eq)
  qed
qed

lemma split_scan_best:
  assumes "best_split allowed cells n best" "1 \<le> n" "n + length sizes = length cells" "cells_total cells \<le> u64_max"
    and "sizes = map (\<lambda>c. SLOT_LEN + length c) (take (length sizes) (drop (n - 1) cells))"
    and "left = cells_total (take (n - 1) cells)"
  shows "\<exists>best'. split_scan allowed (cells_total cells) n left best sizes = Some best' \<and> best_split allowed cells (length cells) best'"
  using assms
proof (induction sizes arbitrary: n left best)
  case Nil
  then show ?case by simp
next
  case (Cons sz sizes)
  have n: "n - 1 < length cells" using Cons.prems(2,3) by simp
  have drop_n: "drop (n - Suc 0) cells = cells ! (n - 1) # drop n cells"
    using Cons_nth_drop_Suc [OF n] Cons.prems(2) by simp
  have hd: "sz = 4 + length (cells ! (n - 1))"
    and tl: "sizes = map (\<lambda>c. SLOT_LEN + length c) (take (length sizes) (drop (Suc n - 1) cells))"
    using Cons.prems(2,5) drop_n by (auto simp: SLOT_LEN_def)
  have left: "left + sz = cells_total (take n cells)"
    using cells_total_take_Suc [OF n] Cons.prems(2,6) hd by simp
  have parts: "cells_total (take n cells) + cells_total (drop n cells) = cells_total cells" by (rule cells_total_take_drop)
  let ?best = "if split_feasible allowed cells n \<and> (case best of None \<Rightarrow> True | Some (_, current) \<Rightarrow> split_imbalance cells n < current)
     then Some (n, split_imbalance cells n) else best"
  have step: "split_scan allowed (cells_total cells) n left best (sz # sizes) =
      split_scan allowed (cells_total cells) (Suc n) (cells_total (take n cells)) ?best sizes"
    using left Cons.prems(4) unfolding parts [symmetric]
    by (auto simp: checked_add64_def checked_sub64_def split_feasible_def split_imbalance_def node_consts Let_def
        split: option.splits)
  have "best_split allowed cells (Suc n) ?best" using best_split_step [OF Cons.prems(1,2)] .
  then show ?case
    unfolding step using Cons.prems(2,3,4) tl by (intro Cons.IH) auto
qed

lemma scan_all:
  assumes "1 \<le> length cells" "cells_total cells \<le> u64_max"
  shows "\<exists>best. split_scan allowed (cells_total cells) 1 0 None (map (\<lambda>c. SLOT_LEN + length c) (butlast cells)) = Some best \<and>
    best_split allowed cells (length cells) best"
  using assms by (intro split_scan_best) (auto simp: best_split_def butlast_conv_take)

text \<open>\<open>choose_split\<close> finds the most balanced split into two pages whenever there is one.\<close>

theorem choose_split_spec:
  assumes "2 \<le> length cells" "cells_total cells \<le> u64_max"
  shows "(\<exists>k. choose_split cells = Some k \<and> 1 \<le> k \<and> k < length cells \<and> split_feasible (\<lambda>_. True) cells k \<and>
      (\<forall>j. 1 \<le> j \<and> j < length cells \<and> split_feasible (\<lambda>_. True) cells j \<longrightarrow> split_imbalance cells k \<le> split_imbalance cells j)) \<or>
    choose_split cells = None \<and> (\<forall>j. 1 \<le> j \<and> j < length cells \<longrightarrow> \<not> split_feasible (\<lambda>_. True) cells j)"
proof -
  have c: "1 \<le> length cells" using assms(1) by simp
  have run: "checked_cells_total 0 cells = Some (cells_total cells)" using assms(2) by (simp add: checked_cells_total)
  obtain best where "split_scan (\<lambda>_. True) (cells_total cells) 1 0 None (map (\<lambda>c. SLOT_LEN + length c) (butlast cells)) = Some best"
    "best_split (\<lambda>_. True) cells (length cells) best"
    using scan_all [OF c assms(2)] by blast
  then show ?thesis using assms(1) run by (cases best) (auto simp: choose_split_def best_split_def)
qed

theorem choose_internal_rebalance_split_spec:
  defines "allowed n \<equiv> (\<lambda>j. \<not> (j < 2 \<or> n - j < (2 :: nat)))"
  assumes "4 \<le> length cells" "cells_total cells \<le> u64_max"
  shows "(\<exists>k. choose_internal_rebalance_split cells = Some k \<and> split_feasible (allowed (length cells)) cells k) \<or>
    choose_internal_rebalance_split cells = None \<and>
    (\<forall>j. 1 \<le> j \<and> j < length cells \<longrightarrow> \<not> split_feasible (allowed (length cells)) cells j)"
proof -
  have c: "1 \<le> length cells" using assms(2) by simp
  have run: "checked_cells_total 0 cells = Some (cells_total cells)" using assms(3) by (simp add: checked_cells_total)
  obtain best where "split_scan (allowed (length cells)) (cells_total cells) 1 0 None (map (\<lambda>c. SLOT_LEN + length c) (butlast cells)) = Some best"
    "best_split (allowed (length cells)) cells (length cells) best"
    using scan_all [OF c assms(3)] by blast
  then show ?thesis
    using assms(2) run by (cases best) (auto simp: choose_internal_rebalance_split_def best_split_def allowed_def)
qed


subsection \<open>Balanced splits of small cells\<close>

lemma balanced_split:
  assumes small: "\<forall>c \<in> set cells. 4 + length c \<le> M" and large: "M < cells_total cells"
  shows "\<exists>j. 1 \<le> j \<and> j < length cells \<and> split_imbalance cells j \<le> M"
proof -
  let ?L = "\<lambda>j. cells_total (take j cells)" and ?T = "cells_total cells"
  have split: "?L j + cells_total (drop j cells) = ?T" for j by (rule cells_total_take_drop)
  define j where "j = (LEAST j. ?T \<le> 2 * ?L j)"
  have ex: "?T \<le> 2 * ?L (length cells)" by simp
  then have half: "?T \<le> 2 * ?L j" unfolding j_def by (rule LeastI)
  have le: "j \<le> length cells" unfolding j_def by (rule Least_le) (rule ex)
  have "j \<noteq> 0" using half large by (cases "j = 0") auto
  then obtain i where i: "j = Suc i" by (cases j) auto
  have "\<not> ?T \<le> 2 * ?L i" using not_less_Least [of i "\<lambda>j. ?T \<le> 2 * ?L j"] i by (simp add: j_def)
  moreover have step: "?L j = ?L i + (4 + length (cells ! i))" using i le by (simp add: cells_total_take_Suc)
  moreover have "4 + length (cells ! i) \<le> M" using small i le by simp
  ultimately have near: "2 * ?L j - ?T \<le> M \<or> ?T - 2 * ?L i \<le> M" using half by linarith
  show ?thesis
  proof (cases "j < length cells \<and> 2 * ?L j - ?T \<le> M")
    case True
    then show ?thesis using half split [of j] i by (intro exI [of _ j]) (auto simp: split_imbalance_def)
  next
    case False
    have "?T - 2 * ?L i \<le> M"
    proof (cases "j < length cells")
      case True
      then show ?thesis using False near by simp
    next
      case False
      then have "?L j = ?T" using le by simp
      then show ?thesis using step \<open>4 + length (cells ! i) \<le> M\<close> large by linarith
    qed
    moreover have "i \<noteq> 0"
    proof
      assume "i = 0"
      then have "?L i = 0" by simp
      then show False using \<open>?T - 2 * ?L i \<le> M\<close> large by simp
    qed
    ultimately show ?thesis
      using \<open>\<not> ?T \<le> 2 * ?L i\<close> split [of i] i le by (intro exI [of _ i]) (auto simp: split_imbalance_def)
  qed
qed

lemma imbalance_bounds:
  assumes "split_imbalance cells j \<le> M"
  shows "2 * cells_total (take j cells) \<le> cells_total cells + M" "2 * cells_total (drop j cells) \<le> cells_total cells + M"
  using assms cells_total_take_drop [of j cells] by (auto simp: split_imbalance_def split: if_splits)

lemma choose_split_balanced:
  assumes small: "\<forall>c \<in> set cells. 4 + length c \<le> M" "M \<le> 2026"
    and large: "4052 < cells_total cells" "cells_total cells + M \<le> 8104"
  shows "\<exists>k. choose_split cells = Some k \<and> 1 \<le> k \<and> k < length cells \<and>
    cells_total (take k cells) \<le> 4052 \<and> cells_total (drop k cells) \<le> 4052 \<and> split_imbalance cells k \<le> M"
proof -
  obtain j where j: "1 \<le> j" "j < length cells" "split_imbalance cells j \<le> M"
    using balanced_split [OF small(1)] small(2) large(1) by auto
  have f: "split_feasible (\<lambda>_. True) cells j"
    using imbalance_bounds [OF j(3)] large(2) by (simp add: split_feasible_def)
  have two: "2 \<le> length cells" "cells_total cells \<le> u64_max" using j large(2) by (auto simp: u64_max_def)
  obtain k where k: "choose_split cells = Some k" "1 \<le> k" "k < length cells" "split_feasible (\<lambda>_. True) cells k"
    "split_imbalance cells k \<le> split_imbalance cells j"
    using choose_split_spec [OF two] j(1,2) f by blast
  have "split_imbalance cells k \<le> M" using k(5) j(3) by (rule le_trans)
  then show ?thesis using k(1-4) unfolding split_feasible_def by blast
qed

lemma two_on_each_side:
  assumes small: "\<forall>c \<in> set cells. 4 + length c \<le> M" "M \<le> 1350" and large: "4052 < cells_total cells"
    and k: "k \<le> length cells" "split_imbalance cells k \<le> M"
  shows "2 \<le> k \<and> 2 \<le> length cells - k"
proof -
  have "cells_total (take k cells) + cells_total (drop k cells) = cells_total cells" by (rule cells_total_take_drop)
  then have L: "1350 < cells_total (take k cells)" "1350 < cells_total (drop k cells)"
    using imbalance_bounds [OF k(2)] small(2) large by linarith+
  have one: "cells_total cs \<le> M" if "length cs < 2" "set cs \<subseteq> set cells" for cs
    using that small(1) by (cases cs) auto
  have "\<not> length (take k cells) < 2" using one [of "take k cells"] L(1) small(2) by (auto dest: in_set_takeD)
  moreover have "\<not> length (drop k cells) < 2" using one [of "drop k cells"] L(2) small(2) by (auto dest: in_set_dropD)
  ultimately show ?thesis using k(1) by simp
qed

lemma choose_internal_rebalance_split_balanced:
  assumes small: "\<forall>c \<in> set cells. 4 + length c \<le> M" "M \<le> 1350"
    and large: "4052 < cells_total cells" "cells_total cells + M \<le> 8104"
  shows "\<exists>k. choose_internal_rebalance_split cells = Some k \<and> 2 \<le> k \<and> 2 \<le> length cells - k \<and> k < length cells \<and>
    cells_total (take k cells) \<le> 4052 \<and> cells_total (drop k cells) \<le> 4052"
proof -
  obtain j where j: "1 \<le> j" "j < length cells" "split_imbalance cells j \<le> M"
    using balanced_split [OF small(1)] small(2) large(1) by auto
  have two: "2 \<le> j \<and> 2 \<le> length cells - j" using two_on_each_side [OF small large(1) _ j(3)] j(2) by simp
  have four: "4 \<le> length cells" "cells_total cells \<le> u64_max" using two large(2) by (auto simp: u64_max_def)
  let ?ok = "\<lambda>j. \<not> (j < 2 \<or> length cells - j < 2)"
  have "split_feasible ?ok cells j" using imbalance_bounds [OF j(3)] large(2) two by (auto simp: split_feasible_def)
  then obtain k where k: "choose_internal_rebalance_split cells = Some k" "split_feasible ?ok cells k"
    using choose_internal_rebalance_split_spec [OF four] j(1,2) by blast
  have "2 \<le> k" "2 \<le> length cells - k" using k(2) by (auto simp: split_feasible_def)
  moreover from this have "k < length cells" by linarith
  ultimately show ?thesis using k unfolding split_feasible_def by blast
qed

end
