(* ===== verification/BtreeRead.thy ===== *)
theory BtreeRead
  imports BtreeCells
begin

text \<open>
  Reading the tree.  Reads change only the cache and a counter, so what they return is a function
  of the committed pages: \<open>yields crc s m r\<close> says that from every state with the pages of \<open>s\<close> the
  call \<open>m\<close> returns \<open>r\<close> and leaves such a state.
\<close>

definition live :: "(bytes \<Rightarrow> 32 word) \<Rightarrow> btree \<Rightarrow> bool" where
  "live crc s \<longleftrightarrow> pager_inv crc s \<and> \<not> pr_poisoned s \<and> bt_cache_capacity s \<noteq> 0"

definition yields :: "(bytes \<Rightarrow> 32 word) \<Rightarrow> btree \<Rightarrow> 'a tree_act \<Rightarrow> 'a \<Rightarrow> bool" where
  "yields crc s m r \<longleftrightarrow>
     (\<forall>s1. same_store s s1 \<and> live crc s1 \<longrightarrow> (\<exists>s2. m s1 = (Inr r, s2) \<and> same_store s1 s2 \<and> live crc s2))"

lemma same_store_capacity: "same_store s s' \<Longrightarrow> bt_cache_capacity s' = bt_cache_capacity s"
  by (auto simp: same_store_def)

lemma yields_run:
  assumes "yields crc s m r" "live crc s"
  obtains s' where "m s = (Inr r, s')" "same_store s s'" "live crc s'"
  using assms unfolding yields_def by (meson same_store_refl)

lemma yields_pure: "yields crc s (sret x) x" "yields crc s (slift (Inr x)) x"
  by (auto simp: yields_def act_simps intro: same_store_refl)

lemma yields_sread: "(\<And>s1. same_store s s1 \<Longrightarrow> f s1 = r) \<Longrightarrow> yields crc s (sread f) r"
  by (auto simp: yields_def act_simps intro: same_store_refl)

lemma yields_bind: "yields crc s m x \<Longrightarrow> yields crc s (f x) y \<Longrightarrow> yields crc s (sbind m f) y"
  unfolding yields_def by (metis same_store_trans sbind_run(1))

lemma yields_ret: "x = y \<Longrightarrow> yields crc s (sret x) y"
  by (simp add: yields_pure)

lemma yields_pure_bind [simp]:
  "yields crc s (sbind (slift (Inr x)) f) y \<longleftrightarrow> yields crc s (f x) y"
  "yields crc s (sbind (sret x) f) y \<longleftrightarrow> yields crc s (f x) y"
  by (simp_all add: yields_def)

lemma yields_same_store:
  assumes "yields crc s m r" "same_store s s1"
  shows "yields crc s1 m r"
  using assms unfolding yields_def by (metis same_store_trans)

lemma yields_read: "pager_page crc s pid = Some p \<Longrightarrow> yields crc s (pager_read_page crc pid) p"
proof -
  assume p: "pager_page crc s pid = Some p"
  {
    fix s1 assume s1: "same_store s s1" "live crc s1"
    have inv: "pager_inv crc s1" "\<not> pr_poisoned s1" "bt_cache_capacity s1 \<noteq> 0" using s1(2) by (simp_all add: live_def)
    have p1: "pager_page crc s1 pid = Some p" using p same_store_sel(7) [OF s1(1)] by simp
    obtain s2 where "same_store s1 s2" "pager_inv crc s2" "pager_read_page crc pid s1 = (Inr p, s2)"
      using pager_read_hit_or_miss [OF inv(1,2), of pid] p1 by auto
    then have "\<exists>s2. pager_read_page crc pid s1 = (Inr p, s2) \<and> same_store s1 s2 \<and> live crc s2"
      using inv(2,3) same_store_sel(4) [of s1 s2] same_store_capacity [of s1 s2] by (auto simp: live_def)
  }
  then show ?thesis unfolding yields_def by blast
qed

lemma yields_read_bind:
  "pager_page crc s pid = Some p \<Longrightarrow> yields crc s (f p) y \<Longrightarrow> yields crc s (sbind (pager_read_page crc pid) f) y"
  by (rule yields_bind [OF yields_read])

lemma yields_sread_bind:
  "(\<And>s1. same_store s s1 \<Longrightarrow> g s1 = g s) \<Longrightarrow> yields crc s (f (g s)) y \<Longrightarrow> yields crc s (sbind (sread g) f) y"
  by (rule yields_bind [OF yields_sread])

lemma yields_fold:
  assumes "\<And>i. i < length xs \<Longrightarrow> yields crc s (f (acc i) (xs ! i)) (acc (Suc i))"
  shows "yields crc s (sfold f (acc 0) xs) (acc (length xs))"
  using assms
proof (induction xs arbitrary: acc)
  case Nil
  show ?case unfolding sfold.simps list.size by (rule yields_pure)
next
  case (Cons x xs)
  have "yields crc s (sfold f (acc (Suc 0)) xs) (acc (Suc (length xs)))"
    using Cons.IH [of "\<lambda>i. acc (Suc i)"] Cons.prems [of "Suc _"] by simp
  then show ?case using Cons.prems [of 0] by (auto intro: yields_bind)
qed


subsection \<open>Views\<close>

type_synonym pview = "page_kind \<times> nat option \<times> bytes list"

definition view :: "(bytes \<Rightarrow> 32 word) \<Rightarrow> btree \<Rightarrow> nat \<Rightarrow> pview option" where
  "view crc s pid = map_option (\<lambda>p. (pg_kind p, page_link p, page_cells p)) (pager_page crc s pid)"

lemma view_Some:
  assumes "view crc s pid = Some (k, l, cells)"
  obtains p where "pager_page crc s pid = Some p" "pg_kind p = k" "page_link p = l" "page_cells p = cells"
    "page_validate crc p = Inr ()" "pg_id p = pid" "page_cell_count p = length cells"
  using assms pager_page_Some(5,6) [of crc s pid] length_page_cells by (fastforce simp: view_def)

lemma view_same_store: "same_store s s' \<Longrightarrow> view crc s' = view crc s"
  by (simp add: view_def fun_eq_iff same_store_sel(7))

lemma view_id:
  assumes "view crc s pid = Some x" "live crc s"
  shows "2 \<le> pid \<and> pid < sb_page_count (pr_active s) \<and> pid \<le> u64_max"
proof -
  obtain p where "pager_page crc s pid = Some p" using assms(1) by (auto simp: view_def)
  then show ?thesis
    using pager_page_Some(1,2) assms(2) by (fastforce simp: live_def pager_inv_def pager_file_ok_def sb_wf_def)
qed

lemma view_room:
  assumes "view crc s pid = Some (k, l, cells)" "live crc s"
  shows "cells_room cells"
proof -
  obtain p where p: "pager_page crc s pid = Some p" "page_cells p = cells" using assms(1) by (rule view_Some)
  have "length (pr_file s) = sb_page_count (pr_active s) * 4096"
    using assms(2) by (simp add: live_def pager_inv_def pager_file_ok_def)
  then have "length (page_at (pr_file s) pid) = 4096"
    using length_page_at pager_page_Some(2) [OF p(1)] by blast
  then have "length (pg_bytes p) = 4096" using page_decode_valid(3) [OF pager_page_Some(3) [OF p(1)]] by simp
  then show ?thesis
    using page_valid_cells [of crc p] pager_page_Some [OF p(1)] p(2) by simp
qed


subsection \<open>Chunks of a blob\<close>

definition blob_chunks :: "bytes \<Rightarrow> bytes list" where
  "blob_chunks bs = rev (rchunks 4048 bs)"

declare rchunks.simps [simp del]

lemma blob_chunks_rec:
  "blob_chunks bs = (if bs = [] then [] else blob_chunks (take (length bs - 4048) bs) @ [drop (length bs - 4048) bs])"
  unfolding blob_chunks_def by (subst rchunks.simps) simp

lemma blob_chunks_Nil [simp]: "blob_chunks [] = []"
  by (simp add: blob_chunks_rec)

lemma blob_chunks_spec:
  "concat (blob_chunks bs) = bs \<and> length (blob_chunks bs) = (length bs + 4047) div 4048 \<and>
   (\<forall>i < length (blob_chunks bs). length (blob_chunks bs ! i) =
      (if i = 0 then length bs - (length (blob_chunks bs) - 1) * 4048 else 4048))"
proof (induction "length bs" arbitrary: bs rule: less_induct)
  case less
  show ?case
  proof (cases "length bs \<le> 4048")
    case True
    show ?thesis
    proof (cases "bs = []")
      case False
      then have "(length bs + 4047) div 4048 = 1" using True by (intro div_nat_eqI) (auto simp: Suc_le_eq)
      then show ?thesis using True False by (simp add: blob_chunks_rec [of bs])
    qed simp
  next
    case False
    let ?t = "take (length bs - 4048) bs"
    have t: "length ?t = length bs - 4048" using False by simp
    have lt: "length ?t < length bs" using False by simp
    note IH = less [OF lt]
    have rec: "blob_chunks bs = blob_chunks ?t @ [drop (length bs - 4048) bs]"
      using False by (subst blob_chunks_rec) auto
    have k: "(length bs + 4047) div 4048 = Suc ((length ?t + 4047) div 4048)"
      using False by (simp add: t)
    have pos: "0 < length (blob_chunks ?t)" using IH False t by (simp add: div_greater_zero_iff)
    have "length (blob_chunks bs ! i) = (if i = 0 then length bs - (length (blob_chunks bs) - 1) * 4048 else 4048)"
      if i: "i < length (blob_chunks bs)" for i
    proof (cases "i < length (blob_chunks ?t)")
      case True
      then show ?thesis using IH rec t pos False by (auto simp: nth_append diff_mult_distrib)
    next
      case False
      then have "i = length (blob_chunks ?t)" using i rec by simp
      then show ?thesis using rec pos lt \<open>\<not> length bs \<le> 4048\<close> by (simp add: nth_append)
    qed
    then show ?thesis using IH rec k by (simp add: append_take_drop_id)
  qed
qed

lemma blob_chunks_length: "length (blob_chunks bs) = (length bs + 4047) div 4048"
  and blob_chunks_concat: "concat (blob_chunks bs) = bs"
  using blob_chunks_spec [of bs] by simp_all

lemma blob_chunk_sizes:
  "i < length (blob_chunks bs) \<Longrightarrow> length (blob_chunks bs ! i) =
     (if i = 0 then length bs - (length (blob_chunks bs) - 1) * 4048 else 4048)"
  using blob_chunks_spec [of bs] by simp

lemma blob_chunks_fit:
  assumes "c \<in> set (blob_chunks bs)"
  shows "c \<noteq> [] \<and> length c \<le> 4048"
proof -
  obtain i where i: "i < length (blob_chunks bs)" "c = blob_chunks bs ! i" using assms by (auto simp: in_set_conv_nth)
  let ?k = "length (blob_chunks bs)"
  have len: "?k = (length bs + 4047) div 4048" by (rule blob_chunks_length)
  have "(?k - 1) * 4048 < length bs" "length bs \<le> ?k * 4048"
    using i(1) len by (auto simp: less_eq_div_iff_mult_less_eq)
  then show ?thesis using blob_chunk_sizes [OF i(1)] i by (cases "i = 0") (auto simp: algebra_simps)
qed

end
