(* ===== verification/BtreeShape.thy ===== *)
theory BtreeShape
  imports BtreeRead
begin

text \<open>
  The tree that the committed pages represent.  A \<open>gtree\<close> names the page of each node and lists its
  entries or children with the overflow pages of their keys and values; \<open>tree_at\<close> says that the pages
  hold it, \<open>gkvs\<close> is its content.  The lemmas evaluate the decoders on the pages of such a tree.
\<close>

record blob =
  bl_bytes :: bytes
  bl_pages :: "nat list"

datatype gtree =
  GLeaf nat "(blob \<times> blob) list"
| GNode nat "(blob \<times> gtree) list"

fun groot :: "gtree \<Rightarrow> nat" where
  "groot (GLeaf i _) = i"
| "groot (GNode i _) = i"

fun gkvs :: "gtree \<Rightarrow> (bytes \<times> bytes) list" where
  "gkvs (GLeaf _ es) = map (\<lambda>e. (bl_bytes (fst e), bl_bytes (snd e))) es"
| "gkvs (GNode _ cs) = concat (map (\<lambda>c. gkvs (snd c)) cs)"

fun gpages :: "gtree \<Rightarrow> nat list" where
  "gpages (GLeaf i es) = i # concat (map (\<lambda>e. bl_pages (fst e) @ bl_pages (snd e)) es)"
| "gpages (GNode i cs) = i # concat (map (\<lambda>c. bl_pages (fst c) @ gpages (snd c)) cs)"


subsection \<open>Blobs\<close>

definition hd_opt :: "'a list \<Rightarrow> 'a option" where
  "hd_opt xs = (case xs of [] \<Rightarrow> None | x # _ \<Rightarrow> Some x)"

lemma hd_opt_simps [simp]: "hd_opt [] = None" "hd_opt (x # xs) = Some x"
  by (simp_all add: hd_opt_def)

fun chain_at :: "(nat \<Rightarrow> pview option) \<Rightarrow> nat list \<Rightarrow> bytes list \<Rightarrow> bool" where
  "chain_at v [] cs \<longleftrightarrow> cs = []"
| "chain_at v (p # ps) cs \<longleftrightarrow> (\<exists>c cs'. cs = c # cs' \<and> v p = Some (PkOverflow, hd_opt ps, [c]) \<and> chain_at v ps cs')"

definition blob_at :: "(nat \<Rightarrow> pview option) \<Rightarrow> nat \<Rightarrow> blob \<Rightarrow> bool" where
  "blob_at v max_len b \<longleftrightarrow> length (bl_bytes b) \<le> max_len \<and>
     (bl_pages b \<noteq> [] \<longrightarrow> bl_bytes b \<noteq> [] \<and> distinct (bl_pages b) \<and> chain_at v (bl_pages b) (blob_chunks (bl_bytes b)))"

lemma chain_at_cong: "(\<And>p. p \<in> set ps \<Longrightarrow> v' p = v p) \<Longrightarrow> chain_at v ps cs \<Longrightarrow> chain_at v' ps cs"
  by (induction v ps cs rule: chain_at.induct) auto

lemma blob_at_cong: "blob_at v m b \<Longrightarrow> (\<And>p. p \<in> set (bl_pages b) \<Longrightarrow> v' p = v p) \<Longrightarrow> blob_at v' m b"
  by (auto simp: blob_at_def intro: chain_at_cong)

lemma chain_at_ids: "chain_at v ps cs \<Longrightarrow> p \<in> set ps \<Longrightarrow> v p \<noteq> None"
  by (induction v ps cs rule: chain_at.induct) auto

lemma chain_at_length: "chain_at v ps cs \<Longrightarrow> length cs = length ps"
  by (induction v ps cs rule: chain_at.induct) auto

text \<open>A set of ids passed along, as the validation does.\<close>

definition add_seen :: "nat set \<Rightarrow> nat set option \<Rightarrow> nat set option" where
  "add_seen P seen = map_option ((\<union>) P) seen"

definition apart :: "nat list \<Rightarrow> nat set option \<Rightarrow> bool" where
  "apart ps seen \<longleftrightarrow> (case seen of None \<Rightarrow> True | Some S \<Rightarrow> distinct ps \<and> set ps \<inter> S = {})"

lemma add_seen_simps [simp]: "add_seen {} seen = seen" "add_seen P (add_seen Q seen) = add_seen (P \<union> Q) seen"
  "add_seen P None = None" "add_seen P (Some S) = Some (P \<union> S)"
  by (cases seen; simp add: add_seen_def Un_assoc)+

lemma apart_append: "apart (ps @ qs) seen \<longleftrightarrow> apart ps seen \<and> apart qs (add_seen (set ps) seen)"
  by (cases seen) (auto simp: apart_def)

lemma apart_Nil [simp]: "apart [] seen"
  by (simp add: apart_def split: option.split)

lemma OVERFLOW_CELL_CAPACITY_eq: "OVERFLOW_CELL_CAPACITY = 4048"
  by (simp add: node_consts)

lemma overflow_loop_chain:
  assumes "chain_at (view crc s) ps cs" "distinct ps" "set ps \<inter> seen0 = {}" "apart ps seen"
    and "\<forall>i < length cs. length (cs ! i) = (if index + i = 0 then first_len else 4048)"
  shows "yields crc s (overflow_loop crc first_len (length ps) index (hd_opt ps) seen0 seen out)
    (None, add_seen (set ps) seen, out @ concat cs)"
  using assms
proof (induction ps arbitrary: cs index seen0 seen out)
  case Nil
  then show ?case by (auto intro: yields_pure)
next
  case (Cons p ps)
  obtain c cs' where c: "cs = c # cs'" "view crc s p = Some (PkOverflow, hd_opt ps, [c])" "chain_at (view crc s) ps cs'"
    using Cons.prems(1) by auto
  obtain q where q: "pager_page crc s p = Some q" "pg_kind q = PkOverflow" "page_link q = hd_opt ps" "page_cells q = [c]"
    "page_validate crc q = Inr ()" "page_cell_count q = length [c]"
    using view_Some [OF c(2)] by metis
  have cell: "page_cell crc q 0 = Inr c" using page_cell_nth [OF q(5), of 0] q(4,6) by simp
  have size: "length c = (if index = 0 then first_len else 4048)" using Cons.prems(5) c(1) by (auto dest: spec [of _ 0])
  have new: "(case seen of None \<Rightarrow> Inr () | Some S \<Rightarrow> ensure (p \<notin> S) (BtCorruption 0)) = Inr ()"
    using Cons.prems(4) by (simp add: apart_def split: option.splits)
  have next_page: "page_overflow_next q = hd_opt ps" using q(2,3) by (simp add: page_overflow_next_def)
  have apart: "apart ps (map_option (insert p) seen)" using Cons.prems(4) by (auto simp: apart_def split: option.splits)
  have "yields crc s (overflow_loop crc first_len (length ps) (index + 1) (hd_opt ps) (insert p seen0) (map_option (insert p) seen) (out @ c))
      (None, add_seen (set ps) (map_option (insert p) seen), (out @ c) @ concat cs')"
  proof (rule Cons.IH)
    show "\<forall>i < length cs'. length (cs' ! i) = (if index + 1 + i = 0 then first_len else 4048)"
      using Cons.prems(5) c(1) by (auto dest: spec [of _ "Suc _"])
  qed (use Cons.prems c apart in auto)
  then have "yields crc s (overflow_loop crc first_len (length ps) (index + 1) (page_overflow_next q) (insert p seen0) (map_option (insert p) seen) (out @ c))
      (None, add_seen (set (p # ps)) seen, out @ concat cs)"
    using c(1) next_page by (cases seen) simp_all
  then show ?case
    using Cons.prems(3) new cell size q(2,6)
    by (simp add: OVERFLOW_CELL_CAPACITY_eq split del: if_split) (rule yields_read_bind [OF q(1)], simp add: OVERFLOW_CELL_CAPACITY_eq split del: if_split cong: if_cong)
qed

lemma read_overflow_blob_at:
  assumes "blob_at (view crc s) m b" "bl_pages b \<noteq> []" "apart (bl_pages b) seen"
  shows "yields crc s (read_overflow_blob crc (hd (bl_pages b)) (length (bl_bytes b)) seen m)
    (bl_bytes b, add_seen (set (bl_pages b)) seen)"
proof -
  let ?cs = "blob_chunks (bl_bytes b)" and ?len = "length (bl_bytes b)"
  have b: "?len \<le> m" "bl_bytes b \<noteq> []" "distinct (bl_pages b)" "chain_at (view crc s) (bl_pages b) ?cs"
    using assms(1,2) by (simp_all add: blob_at_def)
  have n: "(?len + 4047) div 4048 = length (bl_pages b)"
    using chain_at_length [OF b(4)] blob_chunks_length by simp
  let ?first = "?len - (length (bl_pages b) - 1) * 4048"
  have first: "checked_sub64 ?len ((length (bl_pages b) - 1) * 4048) = Some ?first"
    using n assms(2) b(2) by (auto simp: checked_sub64_def less_eq_div_iff_mult_less_eq)
  have sizes: "\<forall>i < length ?cs. length (?cs ! i) = (if 0 + i = 0 then ?first else 4048)"
    using blob_chunk_sizes [of _ "bl_bytes b"] chain_at_length [OF b(4)] by simp
  have hd: "Some (hd (bl_pages b)) = hd_opt (bl_pages b)" using assms(2) by (cases "bl_pages b") auto
  have "yields crc s (overflow_loop crc ?first (length (bl_pages b)) 0 (Some (hd (bl_pages b))) {} seen [])
      (None, add_seen (set (bl_pages b)) seen, [] @ concat ?cs)"
    unfolding hd using b assms(3) sizes by (intro overflow_loop_chain) auto
  then have run: "yields crc s (overflow_loop crc ?first (length (bl_pages b)) 0 (Some (hd (bl_pages b))) {} seen [])
      (None, add_seen (set (bl_pages b)) seen, bl_bytes b)"
    by (simp add: blob_chunks_concat)
  show ?thesis
    using b(1,2) n first
    by (simp add: read_overflow_blob_def OVERFLOW_CELL_CAPACITY_eq Let_def)
       (rule yields_bind [OF run [simplified]], simp add: yields_pure)
qed



subsection \<open>Cells\<close>

definition stored_key_of :: "blob \<Rightarrow> stored_key" where
  "stored_key_of b = (if bl_pages b = [] then SkInline (bl_bytes b) else SkOverflow (bl_bytes b) (hd (bl_pages b)))"

definition stored_value_of :: "blob \<Rightarrow> stored_value" where
  "stored_value_of b = (if bl_pages b = [] then SvInline (bl_bytes b) else SvOverflow (length (bl_bytes b)) (hd (bl_pages b)))"

definition entry_of :: "blob \<times> blob \<Rightarrow> leaf_entry" where
  "entry_of e = \<lparr>lf_key = stored_key_of (fst e), lf_value = stored_value_of (snd e)\<rparr>"

definition key_field_of :: "blob \<Rightarrow> nat" where
  "key_field_of b = (if bl_pages b = [] then 0 else 32768) + length (bl_bytes b)"

definition value_field_of :: "blob \<Rightarrow> nat" where
  "value_field_of b = (if bl_pages b = [] then 0 else 2147483648) + length (bl_bytes b)"

definition payload_of :: "blob \<Rightarrow> bytes" where
  "payload_of b = (if bl_pages b = [] then bl_bytes b else le_bytes 8 (hd (bl_pages b)))"

definition leaf_cell :: "blob \<times> blob \<Rightarrow> bytes" where
  "leaf_cell e = le_bytes 2 (key_field_of (fst e)) @ le_bytes 4 (value_field_of (snd e)) @ payload_of (fst e) @ payload_of (snd e)"

definition child_cell :: "blob \<Rightarrow> nat \<Rightarrow> bytes" where
  "child_cell b child = le_bytes 2 (key_field_of b) @ le_bytes 8 child @ payload_of b"

lemma stored_key_bytes_of [simp]: "stored_key_bytes (stored_key_of b) = bl_bytes b"
  by (simp add: stored_key_of_def)

lemma entry_of_sel [simp]: "lf_key (entry_of e) = stored_key_of (fst e)" "lf_value (entry_of e) = stored_value_of (snd e)"
  by (simp_all add: entry_of_def)

text \<open>The id in an overflow reference.\<close>

definition ids_ok :: "blob \<Rightarrow> bool" where
  "ids_ok b \<longleftrightarrow> (\<forall>p \<in> set (bl_pages b). 2 \<le> p \<and> p \<le> u64_max)"

lemma blob_ids_ok: "blob_at (view crc s) m b \<Longrightarrow> live crc s \<Longrightarrow> ids_ok b"
  using chain_at_ids view_id unfolding ids_ok_def blob_at_def
  by (metis empty_iff empty_set not_Some_eq)

lemma encode_leaf_cell_of:
  assumes "length (bl_bytes (fst e)) \<le> 4096" "length (bl_bytes (snd e)) \<le> 1048576" "ids_ok (snd e)"
    "bl_pages (snd e) \<noteq> [] \<longrightarrow> bl_bytes (snd e) \<noteq> []"
  shows "encode_leaf_cell (entry_of e) = Inr (leaf_cell e)"
proof -
  obtain k v where e: "e = (k, v)" by force
  have "hd (bl_pages v) \<in> set (bl_pages v)" if "bl_pages v \<noteq> []" using that by simp
  then have "bl_pages v \<noteq> [] \<longrightarrow> 2 \<le> hd (bl_pages v)" using assms(3) by (auto simp: ids_ok_def e)
  then show ?thesis
    using assms key_field_bits(1) [of "length (bl_bytes k)"] value_field_bits(1) [of "length (bl_bytes v)"]
    by (cases "bl_pages k = []"; cases "bl_pages v = []")
       (simp_all add: e encode_leaf_cell_def entry_of_def stored_key_of_def stored_value_of_def bt_validate_key_def
        stored_key_field_def try_u16_def try_u32_def leaf_cell_def key_field_of_def value_field_of_def payload_of_def
        node_consts del: le_bytes.simps)
qed

lemma encode_internal_cell_stored_of:
  assumes "length (bl_bytes b) \<le> 4096" "2 \<le> child"
  shows "encode_internal_cell_stored (stored_key_of b) child = Inr (child_cell b child)"
  using assms key_field_bits(1) [of "length (bl_bytes b)"]
  by (cases "bl_pages b = []")
     (simp_all add: encode_internal_cell_stored_def stored_key_of_def bt_validate_key_def stored_key_field_def
      try_u16_def child_cell_def key_field_of_def payload_of_def node_consts del: le_bytes.simps)

lemma decode_key_field:
  assumes "length (bl_bytes b) \<le> 4096"
  shows "key_field_of b AND KEY_LENGTH_MASK = length (bl_bytes b)"
    "key_field_of b AND KEY_OVERFLOW_FLAG \<noteq> 0 \<longleftrightarrow> bl_pages b \<noteq> []" "key_field_of b < 65536"
  using assms key_field_bits(2,3) [of "key_field_of b"] by (auto simp: key_field_of_def)

lemma decode_value_field:
  assumes "length (bl_bytes b) \<le> 1048576"
  shows "value_field_of b AND VALUE_LENGTH_MASK = length (bl_bytes b)"
    "value_field_of b AND VALUE_OVERFLOW_FLAG \<noteq> 0 \<longleftrightarrow> bl_pages b \<noteq> []" "value_field_of b < 4294967296"
  using assms value_field_bits(2,3) [of "value_field_of b"] by (auto simp: value_field_of_def)

lemma length_payload: "length (payload_of b) = (if bl_pages b = [] then length (bl_bytes b) else 8)"
  by (simp add: payload_of_def)

lemma hd_id: "ids_ok b \<Longrightarrow> bl_pages b \<noteq> [] \<Longrightarrow> 2 \<le> hd (bl_pages b) \<and> hd (bl_pages b) \<le> u64_max"
  by (simp add: ids_ok_def)

text \<open>The decoders read the cells of a tree back.\<close>

lemma load_key_blob_of:
  assumes "blob_at (view crc s) 4096 b" "bl_pages b \<noteq> []" "apart (bl_pages b) seen"
  shows "yields crc s (load_key_blob crc (hd (bl_pages b)) (length (bl_bytes b)) seen)
    (stored_key_of b, add_seen (set (bl_pages b)) seen)"
  unfolding load_key_blob_def
  by (rule yields_bind [OF read_overflow_blob_at [of crc s MAX_TREE_KEY_BYTES b seen]])
     (use assms in \<open>simp_all add: node_consts stored_key_of_def yields_pure\<close>)

lemma decode_leaf_cell_of:
  assumes blobs: "blob_at (view crc s) 4096 (fst e)" "blob_at (view crc s) 1048576 (snd e)"
    and ids: "ids_ok (fst e)" "ids_ok (snd e)" and seen: "apart (bl_pages (fst e)) seen"
  shows "yields crc s (decode_leaf_cell crc (leaf_cell e) seen) (entry_of e, add_seen (set (bl_pages (fst e))) seen)"
proof -
  obtain k v where e: "e = (k, v)" by force
  let ?c = "leaf_cell e"
  have lens: "length (bl_bytes k) \<le> 4096" "length (bl_bytes v) \<le> 1048576" using blobs by (simp_all add: e blob_at_def)
  have ne: "bl_pages k \<noteq> [] \<longrightarrow> bl_bytes k \<noteq> []" "bl_pages v \<noteq> [] \<longrightarrow> bl_bytes v \<noteq> []"
    using blobs by (simp_all add: e blob_at_def)
  note kf = decode_key_field [OF lens(1)] and vf = decode_value_field [OF lens(2)]
  have len: "length ?c = 6 + length (payload_of k) + length (payload_of v)" by (simp add: leaf_cell_def e)
  have f1: "read_u16 ?c = key_field_of k"
    using kf(3) by (simp add: leaf_cell_def e read_u16_def le_val_le_bytes del: le_bytes.simps)
  have f2: "read_u32 (drop 2 ?c) = value_field_of v"
    using vf(3) by (simp add: leaf_cell_def e read_u32_def le_val_le_bytes del: le_bytes.simps)
  have p1: "seg 6 (6 + length (payload_of k)) ?c = payload_of k"
    by (simp add: leaf_cell_def e seg_def del: le_bytes.simps)
  have p2: "drop (6 + length (payload_of k)) ?c = payload_of v"
    by (simp add: leaf_cell_def e del: le_bytes.simps)
  then have p3: "seg (6 + length (payload_of k)) (6 + length (payload_of k) + 8) ?c = take 8 (payload_of v)"
    by (simp add: seg_def)
  have ref: "bl_pages b \<noteq> [] \<Longrightarrow> ids_ok b \<Longrightarrow> read_u64 (take 8 (payload_of b)) = hd (bl_pages b)" for b
    using hd_id [of b] by (simp add: payload_of_def del: le_bytes.simps)
  define val where "val = (if bl_pages v \<noteq> []
      then let first_page_id = read_u64 (seg (6 + length (payload_of k)) (6 + length (payload_of k) + 8) ?c) in
           if first_page_id < SUPERBLOCK_COUNT then sfail (BtCorruption 0)
           else sret (SvOverflow (length (bl_bytes v)) first_page_id)
      else sret (SvInline (drop (6 + length (payload_of k)) ?c)) :: stored_value tree_act)"
  have val: "val = sret (stored_value_of v)"
    using ids(2) hd_id [of v] ref [of v] p2 p3
    by (auto simp: val_def stored_value_of_def payload_of_def e SUPERBLOCK_COUNT_def Let_def)
  have key: "yields crc s (if bl_pages k \<noteq> [] then load_key_blob crc (read_u64 (payload_of k)) (length (bl_bytes k)) seen
      else sret (SkInline (payload_of k), seen)) (stored_key_of k, add_seen (set (bl_pages k)) seen)"
  proof (cases "bl_pages k = []")
    case True
    then show ?thesis by (simp add: payload_of_def stored_key_of_def yields_pure)
  next
    case False
    then have "read_u64 (payload_of k) = hd (bl_pages k)" using ref [of k] ids(1) length_payload [of k] by (simp add: e)
    then show ?thesis using load_key_blob_of [of crc s k seen] blobs(1) seen False by (simp add: e)
  qed
  have plen: "length (payload_of k) = (if bl_pages k \<noteq> [] then KEY_OVERFLOW_REF_LEN else length (bl_bytes k))"
    "length (payload_of v) = (if bl_pages v \<noteq> [] then OVERFLOW_VALUE_REF_LEN else length (bl_bytes v))"
    by (simp_all add: length_payload node_consts)
  have run: "decode_leaf_cell crc ?c seen =
      sbind (if bl_pages k \<noteq> [] then load_key_blob crc (read_u64 (payload_of k)) (length (bl_bytes k)) seen
        else sret (SkInline (payload_of k), seen)) (\<lambda>(key, seen').
      sbind val (\<lambda>w. sret (\<lparr>lf_key = key, lf_value = w\<rparr>, seen')))"
    unfolding decode_leaf_cell_def Let_def f1 f2 kf(1) vf(1) kf(2) vf(2) plen(1) [symmetric] plen(2) [symmetric]
    using len lens ne p1
    by (simp add: LEAF_CELL_HEADER_LEN_def MAX_TREE_KEY_BYTES_def MAX_TREE_VALUE_BYTES_def OVERFLOW_VALUE_REF_LEN_def
        val_def Let_def)
  show ?thesis
    unfolding run val by (rule yields_bind [OF key]) (simp add: e entry_of_def yields_pure)
qed

end
