(* ===== verification/BtreeLookup.thy ===== *)
theory BtreeLookup
  imports BtreeShape
begin

text \<open>
  Reading a tree that the pages hold: nodes decode to their entries and children, the reachability
  validation accepts the tree and finds exactly its pages, and lookups and scans return its content.
\<close>

subsection \<open>Nodes\<close>

lemma decode_internal_cell_of:
  assumes "blob_at (view crc s) 4096 b" "ids_ok b" "2 \<le> child" "child \<le> u64_max" "apart (bl_pages b) seen"
  shows "yields crc s (decode_internal_cell crc (child_cell b child) seen)
    (\<lparr>cr_min_key = bl_bytes b, cr_page_id = child\<rparr>, add_seen (set (bl_pages b)) seen)"
proof -
  let ?c = "child_cell b child"
  have len: "length (bl_bytes b) \<le> 4096" and ne: "bl_pages b \<noteq> [] \<longrightarrow> bl_bytes b \<noteq> []"
    using assms(1) by (simp_all add: blob_at_def)
  note kf = decode_key_field [OF len]
  have lc: "length ?c = 10 + length (payload_of b)" by (simp add: child_cell_def)
  have f1: "read_u16 ?c = key_field_of b"
    using kf(3) by (simp add: child_cell_def read_u16_def le_val_le_bytes del: le_bytes.simps)
  have f2: "read_u64 (drop 2 ?c) = child"
    using assms(4) by (simp add: child_cell_def read_u64_def le_val_le_bytes u64_max_def del: le_bytes.simps)
  have f3: "drop 10 ?c = payload_of b" by (simp add: child_cell_def del: le_bytes.simps)
  have plen: "length (payload_of b) = (if bl_pages b \<noteq> [] then KEY_OVERFLOW_REF_LEN else length (bl_bytes b))"
    by (simp add: length_payload node_consts)
  have run: "decode_internal_cell crc ?c seen =
      (if bl_pages b \<noteq> [] then sbind (load_key_blob crc (read_u64 (payload_of b)) (length (bl_bytes b)) seen) (\<lambda>(key, seen').
         sret (\<lparr>cr_min_key = stored_key_bytes key, cr_page_id = child\<rparr>, seen'))
       else sret (\<lparr>cr_min_key = payload_of b, cr_page_id = child\<rparr>, seen))"
    unfolding decode_internal_cell_def Let_def f1 f2 kf(1) kf(2) plen(1) [symmetric]
    using lc len ne f3 assms(3)
    by (simp add: INTERNAL_CELL_HEADER_LEN_def MAX_TREE_KEY_BYTES_def SUPERBLOCK_COUNT_def)
  show ?thesis
  proof (cases "bl_pages b = []")
    case True
    then show ?thesis unfolding run by (simp add: payload_of_def yields_pure)
  next
    case False
    then have "read_u64 (payload_of b) = hd (bl_pages b)" using hd_id [OF assms(2)] by (simp add: payload_of_def del: le_bytes.simps)
    then have "yields crc s (load_key_blob crc (read_u64 (payload_of b)) (length (bl_bytes b)) seen) (stored_key_of b, add_seen (set (bl_pages b)) seen)"
      using load_key_blob_of [OF assms(1) False assms(5)] by simp
    then show ?thesis unfolding run using False by (simp add: yields_pure yields_bind)
  qed
qed

lemma decode_cells_of:
  assumes p: "page_validate crc p = Inr ()" "page_cells p = map cell xs"
    and run: "\<And>x seen. x \<in> set xs \<Longrightarrow> apart (pl x) seen \<Longrightarrow> yields crc s (dc (cell x) seen) (f x, add_seen (set (pl x)) seen)"
    and seen: "apart (concat (map pl xs)) seen"
  shows "yields crc s (decode_cells crc dc p seen) (map f xs, add_seen (set (concat (map pl xs))) seen)"
proof -
  have n: "page_cell_count p = length xs" using p(2) by (metis length_map length_page_cells)
  define acc where "acc = (\<lambda>i. (map f (take i xs), add_seen (set (concat (map pl (take i xs)))) seen))"
  let ?step = "\<lambda>(xs, seen) index. sbind (slift (page_cell crc p index)) (\<lambda>cell.
       sbind (dc cell seen) (\<lambda>(x, seen'). sret (xs @ [x], seen')))"
  have "yields crc s (sfold ?step (acc 0) [0..<length xs]) (acc (length [0..<length xs]))"
  proof (rule yields_fold)
    fix i assume "i < length [0..<length xs]"
    then have i: "i < length xs" by simp
    have cell: "page_cell crc p i = Inr (cell (xs ! i))" using page_cell_nth [OF p(1)] i n p(2) by simp
    have "concat (map pl xs) = concat (map pl (take i xs)) @ pl (xs ! i) @ concat (map pl (drop (Suc i) xs))"
      using id_take_nth_drop [OF i] by (metis concat.simps(2) concat_append list.simps(9) map_append)
    then have "apart (pl (xs ! i)) (add_seen (set (concat (map pl (take i xs)))) seen)"
      using seen by (simp add: apart_append)
    then have "yields crc s (dc (cell (xs ! i)) (snd (acc i))) (f (xs ! i), add_seen (set (pl (xs ! i))) (snd (acc i)))"
      using i by (intro run) (simp_all add: acc_def)
    then have "yields crc s (sbind (dc (cell (xs ! i)) (snd (acc i))) (\<lambda>(x, seen'). sret (fst (acc i) @ [x], seen'))) (acc (Suc i))"
      by (rule yields_bind) (use i in \<open>simp add: acc_def take_Suc_conv_app_nth yields_ret Un_commute\<close>)
    then show "yields crc s (?step (acc i) ([0..<length xs] ! i)) (acc (Suc i))"
      using cell i by (simp add: split_beta)
  qed
  then show ?thesis by (simp add: decode_cells_def n acc_def)
qed

lemma yields_sort_check: "strictly_increasing ks \<Longrightarrow> yields crc s (f ()) y \<Longrightarrow>
    yields crc s (sbind (slift (ensure (strictly_increasing ks) e)) f) y"
  by simp

definition leaf_ok :: "(nat \<Rightarrow> pview option) \<Rightarrow> (blob \<times> blob) list \<Rightarrow> bool" where
  "leaf_ok v es \<longleftrightarrow> es \<noteq> [] \<and> (\<forall>e \<in> set es. blob_at v 4096 (fst e) \<and> blob_at v 1048576 (snd e)) \<and>
     sorted_wrt (<) (map (\<lambda>e. bl_bytes (fst e)) es)"

lemma decode_leaf_of:
  assumes p: "page_validate crc p = Inr ()" "page_cells p = map leaf_cell es" "pg_kind p = PkLeaf"
    and es: "leaf_ok (view crc s) es" and s: "live crc s"
    and seen: "apart (concat (map (\<lambda>e. bl_pages (fst e)) es)) seen"
  shows "yields crc s (decode_leaf crc p seen) (map entry_of es, add_seen (set (concat (map (\<lambda>e. bl_pages (fst e)) es))) seen)"
proof -
  have run: "yields crc s (decode_cells crc (decode_leaf_cell crc) p seen)
      (map entry_of es, add_seen (set (concat (map (\<lambda>e. bl_pages (fst e)) es))) seen)"
    using es s seen by (intro decode_cells_of [OF p(1,2)] decode_leaf_cell_of) (auto simp: leaf_ok_def intro: blob_ids_ok)
  have "validate_leaf_order (map entry_of es) = Inr ()"
    using es by (simp add: validate_leaf_order_def strictly_increasing_iff comp_def leaf_ok_def)
  then show ?thesis
    using p(3) by (simp add: decode_leaf_def) (rule yields_bind [OF run [simplified]], simp add: yields_pure)
qed

definition child_of :: "blob \<times> gtree \<Rightarrow> child_ref" where
  "child_of c = \<lparr>cr_min_key = bl_bytes (fst c), cr_page_id = groot (snd c)\<rparr>"

lemma child_of_sel [simp]: "cr_min_key (child_of c) = bl_bytes (fst c)" "cr_page_id (child_of c) = groot (snd c)"
  by (simp_all add: child_of_def)

definition node_cell :: "blob \<times> gtree \<Rightarrow> bytes" where
  "node_cell c = child_cell (fst c) (groot (snd c))"

definition node_ok :: "(nat \<Rightarrow> pview option) \<Rightarrow> (blob \<times> gtree) list \<Rightarrow> bool" where
  "node_ok v cs \<longleftrightarrow> cs \<noteq> [] \<and> (\<forall>c \<in> set cs. blob_at v 4096 (fst c) \<and> 2 \<le> groot (snd c) \<and> groot (snd c) \<le> u64_max) \<and>
     sorted_wrt (<) (map (\<lambda>c. bl_bytes (fst c)) cs)"

lemma validate_child_refs_of:
  assumes "cs \<noteq> []" "\<forall>c \<in> set cs. length (cr_min_key c) \<le> 4096 \<and> 2 \<le> cr_page_id c" "sorted_wrt (<) (map cr_min_key cs)"
  shows "validate_child_refs cs = Inr ()"
proof -
  have "rmapM (\<lambda>child. rbind (bt_validate_key (cr_min_key child)) (\<lambda>_. ensure (\<not> cr_page_id child < SUPERBLOCK_COUNT) BtInvalidInput)) cs =
      Inr (map (\<lambda>_. ()) cs)"
    using assms(2) by (intro rmapM_total) (auto simp: bt_validate_key_def node_consts)
  then show ?thesis using assms(1,3) by (simp add: validate_child_refs_def strictly_increasing_iff)
qed

lemma node_ok_refs: "node_ok v cs \<Longrightarrow> validate_child_refs (map child_of cs) = Inr ()"
  by (intro validate_child_refs_of) (auto simp: node_ok_def blob_at_def comp_def)

lemma decode_internal_of:
  assumes p: "page_validate crc p = Inr ()" "page_cells p = map node_cell cs" "pg_kind p = PkInternal"
    and cs: "node_ok (view crc s) cs" and s: "live crc s"
    and seen: "apart (concat (map (\<lambda>c. bl_pages (fst c)) cs)) seen"
  shows "yields crc s (decode_internal crc p seen) (map child_of cs, add_seen (set (concat (map (\<lambda>c. bl_pages (fst c)) cs))) seen)"
proof -
  have run: "yields crc s (decode_cells crc (decode_internal_cell crc) p seen)
      (map child_of cs, add_seen (set (concat (map (\<lambda>c. bl_pages (fst c)) cs))) seen)"
  proof (rule decode_cells_of [OF p(1,2) _ seen])
    fix c seen assume "c \<in> set cs" "apart (bl_pages (fst c)) seen"
    then show "yields crc s (decode_internal_cell crc (node_cell c) seen) (child_of c, add_seen (set (bl_pages (fst c))) seen)"
      using cs s unfolding node_cell_def child_of_def
      by (intro decode_internal_cell_of) (auto simp: node_ok_def intro: blob_ids_ok)
  qed
  show ?thesis
    using p(3) node_ok_refs [OF cs]
    by (simp add: decode_internal_def) (rule yields_bind [OF run [simplified]], simp add: yields_pure)
qed


subsection \<open>Trees\<close>

fun tree_at :: "(nat \<Rightarrow> pview option) \<Rightarrow> nat \<Rightarrow> gtree \<Rightarrow> bool" where
  "tree_at v h (GLeaf i es) \<longleftrightarrow> h = 1 \<and> v i = Some (PkLeaf, None, map leaf_cell es) \<and> leaf_ok v es"
| "tree_at v h (GNode i cs) \<longleftrightarrow> 1 < h \<and> v i = Some (PkInternal, None, map node_cell cs) \<and> node_ok v cs \<and>
     (\<forall>c \<in> set cs. tree_at v (h - 1) (snd c) \<and> bl_bytes (fst c) = fst (hd (gkvs (snd c))))"

fun bushy :: "gtree \<Rightarrow> bool" where
  "bushy (GLeaf i es) \<longleftrightarrow> True"
| "bushy (GNode i cs) \<longleftrightarrow> 2 \<le> length cs \<and> (\<forall>c \<in> set cs. bushy (snd c))"

definition g_ord :: "gtree \<Rightarrow> bool" where
  "g_ord t \<longleftrightarrow> sorted_wrt (<) (map fst (gkvs t))"

lemma groot_in_gpages [simp]: "groot t \<in> set (gpages t)"
  by (cases t) simp_all

lemma tree_at_cong:
  assumes "tree_at v h t" "\<forall>p \<in> set (gpages t). v' p = v p"
  shows "tree_at v' h t"
  using assms
proof (induction v h t rule: tree_at.induct)
  case (1 v h i es)
  have same: "v' p = v p" if "e \<in> set es" "p \<in> set (bl_pages (fst e)) \<or> p \<in> set (bl_pages (snd e))" for e p
    by (rule bspec [OF 1(2)]) (use that in auto)
  have "blob_at v' 4096 (fst e) \<and> blob_at v' 1048576 (snd e)" if e: "e \<in> set es" for e
    using 1(1) e blob_at_cong [of v 4096 "fst e" v'] blob_at_cong [of v 1048576 "snd e" v'] same [OF e]
    by (simp add: leaf_ok_def)
  then show ?case using 1 by (simp add: leaf_ok_def)
next
  case (2 v h i cs)
  have same: "v' p = v p" if "c \<in> set cs" "p \<in> set (bl_pages (fst c)) \<or> p \<in> set (gpages (snd c))" for c p
    by (rule bspec [OF 2(3)]) (use that in auto)
  have "blob_at v' 4096 (fst c)" if c: "c \<in> set cs" for c
    using 2(2) c blob_at_cong [of v 4096 "fst c" v'] same [OF c] by (simp add: node_ok_def)
  moreover have "tree_at v' (h - 1) (snd c)" if c: "c \<in> set cs" for c
    using 2(1) [OF c] 2(2) c same [OF c] by simp
  ultimately show ?case using 2(2,3) by (simp add: node_ok_def)
qed

lemma blob_at_ids: "blob_at v m b \<Longrightarrow> p \<in> set (bl_pages b) \<Longrightarrow> v p \<noteq> None"
  using chain_at_ids [of v "bl_pages b"] by (cases "bl_pages b = []") (auto simp: blob_at_def)

lemma tree_at_ids: "tree_at v h t \<Longrightarrow> p \<in> set (gpages t) \<Longrightarrow> v p \<noteq> None"
proof (induction v h t rule: tree_at.induct)
  case (1 v h i es)
  then have es: "\<forall>e \<in> set es. blob_at v 4096 (fst e) \<and> blob_at v 1048576 (snd e)" "v i \<noteq> None" by (simp_all add: leaf_ok_def)
  from 1(2) consider "p = i" | e where "e \<in> set es" "p \<in> set (bl_pages (fst e))" | e where "e \<in> set es" "p \<in> set (bl_pages (snd e))"
    by auto
  then show ?case
    by cases (use es blob_at_ids in \<open>blast+\<close>)
next
  case (2 v h i cs)
  then have cs: "\<forall>c \<in> set cs. blob_at v 4096 (fst c) \<and> tree_at v (h - 1) (snd c)" "v i \<noteq> None" by (simp_all add: node_ok_def)
  from 2(3) consider "p = i" | c where "c \<in> set cs" "p \<in> set (bl_pages (fst c))" | c where "c \<in> set cs" "p \<in> set (gpages (snd c))"
    by auto
  then show ?case
    by cases (use cs blob_at_ids 2(1) in \<open>blast+\<close>)
qed

lemma tree_at_ne: "tree_at v h t \<Longrightarrow> gkvs t \<noteq> []"
proof (induction v h t rule: tree_at.induct)
  case (1 v h i es)
  then show ?case by (simp add: leaf_ok_def)
next
  case (2 v h i cs)
  then show ?case by (cases cs) (simp_all add: node_ok_def)
qed

lemma tree_at_pos: "tree_at v h t \<Longrightarrow> 0 < h"
  by (cases t) auto

lemma g_ord_child:
  assumes "g_ord (GNode i cs)" "c \<in> set cs"
  shows "g_ord (snd c)"
proof -
  obtain xs ys where "cs = xs @ c # ys" using assms(2) by (meson split_list)
  then show ?thesis using assms(1) by (simp add: g_ord_def sorted_wrt_append)
qed

lemma g_ord_sep:
  assumes "g_ord (GNode i cs)" "j < k" "k < length cs" "x \<in> set (gkvs (snd (cs ! j)))" "y \<in> set (gkvs (snd (cs ! k)))"
  shows "fst x < fst y"
proof -
  let ?f = "\<lambda>c. gkvs (snd c)"
  obtain xs ys where cs: "cs = xs @ cs ! k # ys" "length xs = k"
    using id_take_nth_drop [OF assms(3)] assms(3) by (metis length_take min.absorb4)
  have "cs ! j = xs ! j" using assms(2) cs by (metis nth_append)
  then have "cs ! j \<in> set xs" using assms(2) cs(2) by simp
  moreover have "gkvs (GNode i cs) = concat (map ?f xs) @ ?f (cs ! k) @ concat (map ?f ys)"
    using arg_cong [OF cs(1), of "\<lambda>z. concat (map ?f z)"] by simp
  ultimately show ?thesis
    using assms(1,4,5) by (auto simp: g_ord_def sorted_wrt_append)
qed


subsection \<open>Validation\<close>

lemma mset_concat_append:
  "mset (concat (map (\<lambda>x. f x @ g x) xs)) = mset (concat (map f xs) @ concat (map g xs))"
  by (induction xs) simp_all

lemma distinct_concat_append:
  "distinct (concat (map (\<lambda>x. f x @ g x) xs)) \<longleftrightarrow> distinct (concat (map f xs) @ concat (map g xs))"
  by (rule mset_eq_imp_distinct_iff [OF mset_concat_append])

lemma set_concat_append: "set (concat (map (\<lambda>x. f x @ g x) xs)) = set (concat (map f xs)) \<union> set (concat (map g xs))"
  using arg_cong [OF mset_concat_append, of set_mset f g xs] by (simp only: set_mset_mset set_append)

lemma concat_take_nth:
  "i < length xs \<Longrightarrow> concat (map f xs) = concat (map f (take i xs)) @ f (xs ! i) @ concat (map f (drop (Suc i) xs))"
  by (metis concat.simps(2) concat_append id_take_nth_drop list.simps(9) map_append)

lemma validate_value_of:
  assumes "blob_at (view crc s) 1048576 b" "apart (bl_pages b) (Some S)"
  shows "yields crc s (validate_value_reachability crc (stored_value_of b) S) (set (bl_pages b) \<union> S)"
proof (cases "bl_pages b = []")
  case True
  then show ?thesis by (simp add: validate_value_reachability_def stored_value_of_def yields_pure)
next
  case False
  have "yields crc s (read_overflow_blob crc (hd (bl_pages b)) (length (bl_bytes b)) (Some S) MAX_TREE_VALUE_BYTES)
      (bl_bytes b, add_seen (set (bl_pages b)) (Some S))"
    using assms False unfolding MAX_TREE_VALUE_BYTES_def by (intro read_overflow_blob_at) simp_all
  then show ?thesis
    using False by (simp add: validate_value_reachability_def stored_value_of_def)
      (erule yields_bind, simp add: yields_pure)
qed

lemma validate_values_of:
  assumes es: "\<forall>e \<in> set es. blob_at (view crc s) 1048576 (snd e)"
    and dist: "distinct (concat (map (\<lambda>e. bl_pages (snd e)) es))" "set (concat (map (\<lambda>e. bl_pages (snd e)) es)) \<inter> S = {}"
  shows "yields crc s (sfold (\<lambda>seen e. validate_value_reachability crc (lf_value e) seen) S (map entry_of es))
    (set (concat (map (\<lambda>e. bl_pages (snd e)) es)) \<union> S)"
proof -
  let ?f = "\<lambda>e. bl_pages (snd e)"
  define acc where "acc = (\<lambda>i. set (concat (map ?f (take i es))) \<union> S)"
  have "yields crc s (sfold (\<lambda>seen e. validate_value_reachability crc (lf_value e) seen) (acc 0) (map entry_of es))
      (acc (length (map entry_of es)))"
  proof (rule yields_fold)
    fix i assume "i < length (map entry_of es)"
    then have i: "i < length es" by simp
    have "apart (?f (es ! i)) (Some (acc i))"
      using dist concat_take_nth [OF i, of ?f] by (auto simp: apart_def acc_def)
    then have "yields crc s (validate_value_reachability crc (stored_value_of (snd (es ! i))) (acc i)) (set (?f (es ! i)) \<union> acc i)"
      using es i by (intro validate_value_of) simp_all
    then show "yields crc s (validate_value_reachability crc (lf_value (map entry_of es ! i)) (acc i)) (acc (Suc i))"
      using i by (simp add: acc_def take_Suc_conv_app_nth Un_ac)
  qed
  then show ?thesis by (simp add: acc_def)
qed

lemma same_heights_iff: "same_heights bs \<longleftrightarrow> (\<forall>b \<in> set bs. sub_height b = sub_height (hd bs))"
  by (cases bs) (simp_all add: list_all_iff)

lemma disjoint_ranges_sorted:
  assumes "sorted_wrt (\<lambda>a b. sub_max_key a < sub_min_key b) bs"
  shows "disjoint_ranges bs"
  using assms by (induction bs rule: disjoint_ranges.induct) simp_all

definition bounds_of :: "nat \<Rightarrow> gtree \<Rightarrow> subtree_bounds" where
  "bounds_of h t = \<lparr>sub_min_key = fst (hd (gkvs t)), sub_max_key = fst (last (gkvs t)), sub_height = h\<rparr>"

lemma bounds_of_sel [simp]:
  "sub_min_key (bounds_of h t) = fst (hd (gkvs t))" "sub_max_key (bounds_of h t) = fst (last (gkvs t))"
  "sub_height (bounds_of h t) = h"
  by (simp_all add: bounds_of_def)

lemma g_ord_ranges:
  assumes ord: "g_ord (GNode i cs)" and ne: "\<forall>c \<in> set cs. gkvs (snd c) \<noteq> []"
  shows "disjoint_ranges (map (\<lambda>c. bounds_of h (snd c)) cs)"
proof -
  have "fst (last (gkvs (snd (cs ! j)))) < fst (hd (gkvs (snd (cs ! k))))" if "j < k" "k < length cs" for j k
    using g_ord_sep [OF ord that] ne that by simp
  then show ?thesis by (intro disjoint_ranges_sorted) (simp add: sorted_wrt_iff_nth_less)
qed

lemma bounds_of_node:
  assumes "cs \<noteq> []" "\<forall>c \<in> set cs. gkvs (snd c) \<noteq> []"
  shows "hd (gkvs (GNode i cs)) = hd (gkvs (snd (hd cs)))" "last (gkvs (GNode i cs)) = last (gkvs (snd (last cs)))"
proof -
  show "hd (gkvs (GNode i cs)) = hd (gkvs (snd (hd cs)))" using assms by (cases cs) simp_all
  obtain ds c where "cs = ds @ [c]" using assms(1) by (metis append_butlast_last_id)
  then show "last (gkvs (GNode i cs)) = last (gkvs (snd (last cs)))" using assms(2) by simp
qed

end
