(* ===== verification/BtreeQuery.thy ===== *)
theory BtreeQuery
  imports BtreeLookup BtreeEngine
begin

text \<open>
  The three walks over a committed tree: the reachability validation, the point lookup and the
  ordered scan.  Each returns what the content of the tree says.
\<close>

subsection \<open>Reachability validation\<close>

lemma validate_subtree_of:
  assumes "tree_at (view crc s) h t" "bushy t" "g_ord t" "distinct (gpages t)" "set (gpages t) \<inter> S = {}"
    and "h \<le> n" "live crc s"
  shows "yields crc s (validate_subtree crc n (groot t) S) (bounds_of h t, set (gpages t) \<union> S)"
  using assms
proof (induction n arbitrary: h t S)
  case 0
  then show ?case using tree_at_pos by fastforce
next
  case (Suc n)
  show ?case
  proof (cases t)
    case (GLeaf i es)
    let ?kp = "concat (map (\<lambda>e. bl_pages (fst e)) es)" and ?vp = "concat (map (\<lambda>e. bl_pages (snd e)) es)"
    have h: "h = 1" and v: "view crc s i = Some (PkLeaf, None, map leaf_cell es)" and ok: "leaf_ok (view crc s) es"
      using Suc.prems(1) GLeaf by simp_all
    obtain p where p: "pager_page crc s i = Some p" "pg_kind p = PkLeaf" "page_link p = None"
      "page_cells p = map leaf_cell es" "page_validate crc p = Inr ()"
      using view_Some [OF v] by metis
    have dist: "distinct (?kp @ ?vp)" "i \<notin> set ?kp" "i \<notin> set ?vp"
      "i \<notin> S" "set ?kp \<inter> S = {}" "set ?vp \<inter> S = {}"
      using Suc.prems(4,5) GLeaf set_concat_append [of "\<lambda>e. bl_pages (fst e)" "\<lambda>e. bl_pages (snd e)" es]
      by (auto simp: distinct_concat_append simp del: set_concat)
    define S1 S2 where "S1 = set ?kp \<union> insert i S" and "S2 = set ?vp \<union> S1"
    have dec: "yields crc s (decode_leaf crc p (Some (insert i S))) (map entry_of es, Some S1)"
      using decode_leaf_of [OF p(5,4,2) ok Suc.prems(7), of "Some (insert i S)"] dist
      by (auto simp: apart_def S1_def simp del: set_concat)
    have vals: "yields crc s (sfold (\<lambda>seen e. validate_value_reachability crc (lf_value e) seen) S1 (map entry_of es)) S2"
      unfolding S2_def using ok dist by (intro validate_values_of) (auto simp: leaf_ok_def S1_def simp del: set_concat)
    have es: "es \<noteq> []" using ok by (simp add: leaf_ok_def)
    have all: "set (gpages t) \<union> S = S2"
      using GLeaf set_concat_append [of "\<lambda>e. bl_pages (fst e)" "\<lambda>e. bl_pages (snd e)" es]
      by (auto simp: S1_def S2_def simp del: set_concat)
    have right: "page_right_sibling p = None" using p(2,3) by (simp add: page_right_sibling_def)
    show ?thesis
      unfolding all using GLeaf dist(4) es h
      by (simp, intro yields_read_bind [OF p(1)], simp add: p(2) right, intro yields_bind [OF dec],
          simp, intro yields_bind [OF vals], simp add: bounds_of_def hd_map last_map yields_pure)
  next
    case (GNode i cs)
    let ?kp = "concat (map (\<lambda>c. bl_pages (fst c)) cs)" and ?f = "\<lambda>c. gpages (snd c)"
    have v: "view crc s i = Some (PkInternal, None, map node_cell cs)" and ok: "node_ok (view crc s) cs"
      and kids: "\<And>c. c \<in> set cs \<Longrightarrow> tree_at (view crc s) (h - 1) (snd c) \<and> bl_bytes (fst c) = fst (hd (gkvs (snd c)))"
      and h: "1 < h"
      using Suc.prems(1) GNode by simp_all
    obtain p where p: "pager_page crc s i = Some p" "pg_kind p = PkInternal"
      "page_cells p = map node_cell cs" "page_validate crc p = Inr ()"
      using view_Some [OF v] by metis
    have two: "2 \<le> length cs" using Suc.prems(2) GNode by simp
    have dist: "distinct (?kp @ concat (map ?f cs))" "i \<notin> set ?kp" "i \<notin> set (concat (map ?f cs))"
      "i \<notin> S" "set ?kp \<inter> S = {}" "set (concat (map ?f cs)) \<inter> S = {}"
      using Suc.prems(4,5) GNode set_concat_append [of "\<lambda>c. bl_pages (fst c)" ?f cs]
      by (auto simp: distinct_concat_append simp del: set_concat)
    define S1 S2 where "S1 = set ?kp \<union> insert i S" and "S2 = set (concat (map ?f cs)) \<union> S1"
    have dec: "yields crc s (decode_internal crc p (Some (insert i S))) (map child_of cs, Some S1)"
      using decode_internal_of [OF p(4,3,2) ok Suc.prems(7), of "Some (insert i S)"] dist
      by (auto simp: apart_def S1_def simp del: set_concat)
    have S1: "set (concat (map ?f cs)) \<inter> S1 = {}" using dist by (auto simp: S1_def simp del: set_concat)
    define acc where "acc = (\<lambda>j. (map (\<lambda>c. bounds_of (h - 1) (snd c)) (take j cs), set (concat (map ?f (take j cs))) \<union> S1))"
    let ?step = "\<lambda>(bs, seen) c. sbind (validate_subtree crc n (cr_page_id c) seen) (\<lambda>(b, seen').
                    sbind (slift (ensure (sub_min_key b = cr_min_key c) (BtCorruption 0))) (\<lambda>_.
                    sret (bs @ [b], seen')))"
    have "yields crc s (sfold ?step (acc 0) (map child_of cs)) (acc (length (map child_of cs)))"
    proof (rule yields_fold)
      fix j assume "j < length (map child_of cs)"
      then have j: "j < length cs" by simp
      then have mem: "cs ! j \<in> set cs" by simp
      have apart: "distinct (?f (cs ! j))" "set (?f (cs ! j)) \<inter> snd (acc j) = {}"
        using dist(1) S1 concat_take_nth [OF j, of ?f] by (auto simp: acc_def simp del: set_concat)
      have "yields crc s (validate_subtree crc n (groot (snd (cs ! j))) (snd (acc j)))
          (bounds_of (h - 1) (snd (cs ! j)), set (?f (cs ! j)) \<union> snd (acc j))"
      proof (rule Suc.IH)
        show "bushy (snd (cs ! j))" using Suc.prems(2) mem GNode by simp
        show "g_ord (snd (cs ! j))" using g_ord_child mem Suc.prems(3) GNode by blast
      qed (use kids mem apart Suc.prems(6,7) in auto)
      then show "yields crc s (?step (acc j) (map child_of cs ! j)) (acc (Suc j))"
        using j kids [OF mem]
        by (simp add: split_beta del: set_concat)
           (erule yields_bind, simp add: acc_def take_Suc_conv_app_nth yields_ret Un_ac del: set_concat)
    qed
    then have fold: "yields crc s (sfold ?step ([], S1) (map child_of cs))
        (map (\<lambda>c. bounds_of (h - 1) (snd c)) cs, S2)"
      by (simp add: acc_def S2_def)
    have ne: "\<forall>c \<in> set cs. gkvs (snd c) \<noteq> []" using kids tree_at_ne by blast
    have cs: "cs \<noteq> []" using two by auto
    have all: "set (gpages t) \<union> S = S2"
      using GNode set_concat_append [of "\<lambda>c. bl_pages (fst c)" ?f cs] by (auto simp: S1_def S2_def simp del: set_concat)
    have ranges: "disjoint_ranges (map (\<lambda>c. bounds_of (h - 1) (snd c)) cs)"
      using g_ord_ranges [OF _ ne] Suc.prems(3) GNode by blast
    have heights: "same_heights (map (\<lambda>c. bounds_of (h - 1) (snd c)) cs)"
      using cs by (simp add: same_heights_iff hd_map)
    have last: "\<lparr>sub_min_key = fst (hd (gkvs (snd (hd cs)))), sub_max_key = fst (last (gkvs (snd (last cs)))), sub_height = h - 1 + 1\<rparr> = bounds_of h t"
      using bounds_of_node [OF cs ne, of i] h GNode by (simp add: bounds_of_def)
    show ?thesis
      unfolding all using GNode dist(4) two ranges heights cs last
      by (simp, intro yields_read_bind [OF p(1)], simp add: p(2), intro yields_bind [OF dec],
          simp, intro yields_bind [OF fold], simp add: hd_map last_map yields_pure)
  qed
qed


subsection \<open>Point lookup\<close>

lemma load_value_of:
  assumes "blob_at (view crc s) 1048576 b"
  shows "yields crc s (load_value crc (stored_value_of b)) (bl_bytes b)"
proof (cases "bl_pages b = []")
  case True
  then show ?thesis by (simp add: load_value_def stored_value_of_def yields_pure)
next
  case False
  have "yields crc s (read_overflow_blob crc (hd (bl_pages b)) (length (bl_bytes b)) None MAX_TREE_VALUE_BYTES)
      (bl_bytes b, add_seen (set (bl_pages b)) None)"
    using assms False unfolding MAX_TREE_VALUE_BYTES_def by (intro read_overflow_blob_at) (simp_all add: apart_def)
  then show ?thesis
    using False by (simp add: load_value_def stored_value_of_def) (erule yields_bind, simp add: yields_pure)
qed

lemma route_child_of:
  assumes "node_ok v cs"
  obtains j where "route_child (map child_of cs) key = Inr j" "j < length cs"
    "j \<noteq> 0 \<Longrightarrow> bl_bytes (fst (cs ! j)) \<le> key" "\<And>k. j < k \<Longrightarrow> k < length cs \<Longrightarrow> key < bl_bytes (fst (cs ! k))"
proof -
  let ?ks = "map (\<lambda>c. bl_bytes (fst c)) cs"
  have ks: "map cr_min_key (map child_of cs) = ?ks" by simp
  have ord: "sorted_wrt (<) ?ks" and ne: "cs \<noteq> []" using assms by (simp_all add: node_ok_def)
  show ?thesis
  proof (cases "search_keys ?ks key")
    case (Inr i)
    then have i: "i < length cs" "bl_bytes (fst (cs ! i)) = key" using search_keys_cases [OF ord, of key] by auto
    have "key < bl_bytes (fst (cs ! k))" if "i < k" "k < length cs" for k
      using ord that i by (auto simp: sorted_wrt_iff_nth_less)
    then show ?thesis using Inr i node_ok_refs [OF assms] that [of i] by (simp add: route_child_def comp_def)
  next
    case (Inl i)
    then have i: "i \<le> length cs" "\<forall>k \<in> set (take i ?ks). k < key" "\<forall>k \<in> set (drop i ?ks). key < k"
      using search_keys_cases [OF ord, of key] by auto
    let ?j = "if i = 0 then 0 else i - 1"
    have "key < bl_bytes (fst (cs ! k))" if "?j < k" "k < length cs" for k
    proof -
      have "drop i ?ks ! (k - i) = ?ks ! k" "k - i < length (drop i ?ks)" using that by (auto split: if_splits)
      then show ?thesis using i(3) that(2) by (metis nth_map nth_mem)
    qed
    moreover have "bl_bytes (fst (cs ! ?j)) \<le> key" if "?j \<noteq> 0"
    proof -
      have "take i ?ks ! ?j = ?ks ! ?j" "?j < length (take i ?ks)" "?j < length cs" using that i(1) by (auto split: if_splits)
      then show ?thesis using i(2) by (metis less_imp_le nth_map nth_mem)
    qed
    moreover have "?j < length cs" using i(1) ne by (cases cs) auto
    ultimately show ?thesis using Inl node_ok_refs [OF assms] that [of ?j] by (simp add: route_child_def comp_def)
  qed
qed

text \<open>Separators are the minimum keys, so the child routed to has every key on its side.\<close>

definition seps_ok :: "(blob \<times> gtree) list \<Rightarrow> bool" where
  "seps_ok cs \<longleftrightarrow> (\<forall>c \<in> set cs. gkvs (snd c) \<noteq> [] \<and> bl_bytes (fst c) = fst (hd (gkvs (snd c))))"

lemma tree_at_seps: "tree_at v h (GNode i cs) \<Longrightarrow> seps_ok cs"
  using tree_at_ne by (auto simp: seps_ok_def)

lemma g_ord_min:
  assumes "g_ord t" "x \<in> set (gkvs t)"
  shows "fst (hd (gkvs t)) \<le> fst x"
  using assms by (cases "gkvs t") (auto simp: g_ord_def less_imp_le)

lemma route_bounds:
  assumes ord: "g_ord (GNode i cs)" and seps: "seps_ok cs" and j: "j < length cs"
    and lo: "j \<noteq> 0 \<Longrightarrow> bl_bytes (fst (cs ! j)) \<le> key"
    and hi: "\<And>k. j < k \<Longrightarrow> k < length cs \<Longrightarrow> key < bl_bytes (fst (cs ! k))"
  shows "\<forall>x \<in> set (concat (map (\<lambda>c. gkvs (snd c)) (take j cs))). fst x < key"
    "\<forall>x \<in> set (concat (map (\<lambda>c. gkvs (snd c)) (drop (Suc j) cs))). key < fst x"
proof -
  have sep: "bl_bytes (fst (cs ! k)) = fst (hd (gkvs (snd (cs ! k))))" "gkvs (snd (cs ! k)) \<noteq> []" if "k < length cs" for k
    using seps that by (simp_all add: seps_ok_def)
  have "fst x < key" if "k < j" "x \<in> set (gkvs (snd (cs ! k)))" for k x
    using g_ord_sep [OF ord that(1) j that(2), of "hd (gkvs (snd (cs ! j)))"] sep [OF j] lo that(1) by simp
  then have "fst x < key" if c: "c \<in> set (take j cs)" and x: "x \<in> set (gkvs (snd c))" for c x
  proof -
    obtain k where "k < j" "c = cs ! k" using c j by (auto simp: in_set_conv_nth)
    then show ?thesis using \<open>\<And>k x. k < j \<Longrightarrow> x \<in> set (gkvs (snd (cs ! k))) \<Longrightarrow> fst x < key\<close> x by blast
  qed
  then show "\<forall>x \<in> set (concat (map (\<lambda>c. gkvs (snd c)) (take j cs))). fst x < key"
    by (simp only: set_concat set_map UN_iff image_iff) blast
  have "key < fst x" if k: "j < k" "k < length cs" and x: "x \<in> set (gkvs (snd (cs ! k)))" for k x
  proof -
    have "g_ord (snd (cs ! k))" using g_ord_child [OF ord] k(2) by simp
    then show ?thesis using hi [OF k] sep(1) [OF k(2)] g_ord_min [OF _ x] by simp
  qed
  then have "key < fst x" if c: "c \<in> set (drop (Suc j) cs)" and x: "x \<in> set (gkvs (snd c))" for c x
  proof -
    obtain k where "k < length cs - Suc j" "c = cs ! (Suc j + k)" using c by (auto simp: in_set_conv_nth)
    then show ?thesis
      using \<open>\<And>k x. j < k \<Longrightarrow> k < length cs \<Longrightarrow> x \<in> set (gkvs (snd (cs ! k))) \<Longrightarrow> key < fst x\<close> [of "Suc j + k"] x by simp
  qed
  then show "\<forall>x \<in> set (concat (map (\<lambda>c. gkvs (snd c)) (drop (Suc j) cs))). key < fst x"
    by (simp only: set_concat set_map UN_iff image_iff) blast
qed

lemma map_of_mid:
  assumes "\<forall>x \<in> set xs. fst x \<noteq> k" "\<forall>x \<in> set zs. fst x \<noteq> k"
  shows "map_of (xs @ ys @ zs) k = map_of ys k"
proof -
  have "map_of xs k = None" "map_of zs k = None" using assms by (auto simp: map_of_eq_None_iff)
  then show ?thesis by (simp add: map_add_def split: option.split)
qed

lemma get_loop_of:
  assumes "tree_at (view crc s) h t" "g_ord t" "h \<le> n" "live crc s"
  shows "yields crc s (get_loop crc key n (groot t)) (map_of (gkvs t) key)"
  using assms
proof (induction n arbitrary: h t)
  case 0
  then show ?case using tree_at_pos by fastforce
next
  case (Suc n)
  show ?case
  proof (cases t)
    case (GLeaf i es)
    have v: "view crc s i = Some (PkLeaf, None, map leaf_cell es)" and ok: "leaf_ok (view crc s) es"
      using Suc.prems(1) GLeaf by simp_all
    obtain p where p: "pager_page crc s i = Some p" "pg_kind p = PkLeaf"
      "page_cells p = map leaf_cell es" "page_validate crc p = Inr ()"
      using view_Some [OF v] by metis
    have dec: "yields crc s (decode_leaf crc p None) (map entry_of es, add_seen (set (concat (map (\<lambda>e. bl_pages (fst e)) es))) None)"
      by (rule decode_leaf_of [OF p(4,3,2) ok Suc.prems(4)]) (simp add: apart_def)
    let ?ks = "map (\<lambda>e. bl_bytes (fst e)) es"
    have ord: "sorted_wrt (<) ?ks" using ok by (simp add: leaf_ok_def)
    have "yields crc s (case search_keys ?ks key of
           Inr index \<Rightarrow> sbind (load_value crc (lf_value (map entry_of es ! index))) (\<lambda>v. sret (Some v))
         | Inl _ \<Rightarrow> sret None) (map_of (gkvs t) key)"
    proof (cases "search_keys ?ks key")
      case (Inr j)
      then have j: "j < length es" "bl_bytes (fst (es ! j)) = key" using search_keys_cases [OF ord, of key] by auto
      have "distinct (map fst (gkvs t))" using Suc.prems(2) by (simp add: g_ord_def strict_sorted_iff)
      then have "map_of (gkvs t) key = Some (bl_bytes (snd (es ! j)))"
        using j GLeaf nth_mem [OF j(1)] by (intro map_of_is_SomeI) (auto simp: image_iff)
      moreover have "blob_at (view crc s) 1048576 (snd (es ! j))" using ok j(1) by (simp add: leaf_ok_def)
      ultimately show ?thesis
        using Inr j(1) by simp (rule yields_bind [OF load_value_of], auto simp: yields_pure)
    next
      case (Inl j)
      then have "key \<notin> set ?ks" using search_keys_cases [OF ord, of key] by auto
      then have "map_of (gkvs t) key = None" using GLeaf by (simp add: map_of_eq_None_iff image_image)
      then show ?thesis using Inl by (simp add: yields_pure)
    qed
    then show ?thesis
      unfolding GLeaf using GLeaf
      by (simp, intro yields_read_bind [OF p(1)], simp add: p(2), intro yields_bind [OF dec], simp add: comp_def)
  next
    case (GNode i cs)
    have v: "view crc s i = Some (PkInternal, None, map node_cell cs)" and ok: "node_ok (view crc s) cs"
      using Suc.prems(1) GNode by simp_all
    obtain p where p: "pager_page crc s i = Some p" "pg_kind p = PkInternal"
      "page_cells p = map node_cell cs" "page_validate crc p = Inr ()"
      using view_Some [OF v] by metis
    have dec: "yields crc s (decode_internal crc p None) (map child_of cs, add_seen (set (concat (map (\<lambda>c. bl_pages (fst c)) cs))) None)"
      by (rule decode_internal_of [OF p(4,3,2) ok Suc.prems(4)]) (simp add: apart_def)
    obtain j where j: "route_child (map child_of cs) key = Inr j" "j < length cs"
      "j \<noteq> 0 \<Longrightarrow> bl_bytes (fst (cs ! j)) \<le> key" "\<And>k. j < k \<Longrightarrow> k < length cs \<Longrightarrow> key < bl_bytes (fst (cs ! k))"
      by (rule route_child_of [OF ok]) blast
    have ord: "g_ord (GNode i cs)" and seps: "seps_ok cs" using Suc.prems(1,2) GNode tree_at_seps by blast+
    note sides = route_bounds [OF ord seps j(2-4)]
    have "map_of (gkvs t) key = map_of (gkvs (snd (cs ! j))) key"
      unfolding GNode gkvs.simps concat_take_nth [OF j(2), of "\<lambda>c. gkvs (snd c)"]
      by (rule map_of_mid) (use sides in fastforce)+
    moreover have "yields crc s (get_loop crc key n (groot (snd (cs ! j)))) (map_of (gkvs (snd (cs ! j))) key)"
      using Suc.prems GNode j(2) g_ord_child [OF ord] by (intro Suc.IH [of "h - 1"]) auto
    ultimately have "yields crc s (get_loop crc key n (groot (snd (cs ! j)))) (map_of (gkvs t) key)" by simp
    then show ?thesis
      unfolding GNode using GNode j(1,2)
      by (simp, intro yields_read_bind [OF p(1)], simp add: p(2), intro yields_bind [OF dec], simp)
  qed
qed


subsection \<open>Ordered scans\<close>

definition in_range :: "bytes \<Rightarrow> bytes option \<Rightarrow> bytes \<times> bytes \<Rightarrow> bool" where
  "in_range lo hi x \<longleftrightarrow> lo \<le> fst x \<and> (case hi of None \<Rightarrow> True | Some h \<Rightarrow> fst x < h)"

text \<open>What a scan of a part with content \<open>kvs\<close> adds to \<open>rows\<close>, and what its flag says.\<close>

definition scan_rows :: "bytes \<Rightarrow> bytes option \<Rightarrow> nat \<Rightarrow> (bytes \<times> bytes) list \<Rightarrow> (bytes \<times> bytes) list \<Rightarrow> (bytes \<times> bytes) list" where
  "scan_rows lo hi limit rows kvs = take limit (rows @ filter (in_range lo hi) kvs)"

definition scan_ends :: "bytes option \<Rightarrow> nat \<Rightarrow> (bytes \<times> bytes) list \<Rightarrow> (bytes \<times> bytes) list \<Rightarrow> bool \<Rightarrow> bool" where
  "scan_ends hi limit rows kvs finished \<longleftrightarrow>
     (if finished then limit \<le> length rows \<or> (\<exists>h. hi = Some h \<and> (\<exists>x \<in> set kvs. h \<le> fst x)) else length rows < limit)"

lemma scan_none_left:
  assumes "al_ord (xs @ ys)" "h \<le> fst x" "x \<in> set xs"
  shows "filter (in_range lo (Some h)) ys = []"
  using assms by (force simp: al_ord_append in_range_def filter_empty_conv)

lemma scan_stop_above:
  assumes "h \<le> fst (hd kvs)" "al_ord kvs" "kvs \<noteq> []"
  shows "filter (in_range lo (Some h)) kvs = []"
proof -
  obtain a b rest where k: "kvs = (a, b) # rest" using assms(3) by (cases kvs) auto
  have "h \<le> fst x" if "x \<in> set kvs" for x using assms(1,2) that k by (force simp: al_ord_def less_imp_le intro: order_trans)
  then show ?thesis by (auto simp: in_range_def filter_empty_conv not_less)
qed

lemma scan_entries_of:
  assumes "\<forall>e \<in> set es. blob_at (view crc s) 1048576 (snd e)" "al_ord (gkvs (GLeaf i es))" "length rows < limit"
  shows "\<exists>fin. yields crc s (scan_entries crc lo hi limit (map entry_of es) rows)
      (fin, scan_rows lo hi limit rows (gkvs (GLeaf i es))) \<and>
    scan_ends hi limit (scan_rows lo hi limit rows (gkvs (GLeaf i es))) (gkvs (GLeaf i es)) fin"
  using assms
proof (induction es arbitrary: rows)
  case Nil
  then show ?case by (auto simp: scan_rows_def scan_ends_def intro: yields_pure)
next
  case (Cons e es)
  let ?k = "bl_bytes (fst e)" and ?v = "bl_bytes (snd e)" and ?kvs = "gkvs (GLeaf i es)" and ?all = "gkvs (GLeaf i (e # es))"
  have all: "?all = (?k, ?v) # ?kvs" by simp
  have ord: "al_ord ?kvs" using Cons.prems(2) by simp
  consider "?k < lo" | h where "\<not> ?k < lo" "hi = Some h" "h \<le> ?k" | "in_range lo hi (?k, ?v)"
    by (cases "?k < lo"; cases hi) (auto simp: in_range_def not_less, meson not_less)
  then show ?case
  proof cases
    case 1
    have "scan_rows lo hi limit rows ?all = scan_rows lo hi limit rows ?kvs" using 1 by (auto simp: scan_rows_def in_range_def)
    moreover obtain fin where "yields crc s (scan_entries crc lo hi limit (map entry_of es) rows) (fin, scan_rows lo hi limit rows ?kvs)"
      "scan_ends hi limit (scan_rows lo hi limit rows ?kvs) ?kvs fin"
      using Cons.IH [of rows] Cons.prems ord by auto
    ultimately show ?thesis using 1 by (auto simp: scan_ends_def split: if_splits)
  next
    case 2
    have "filter (in_range lo hi) ?all = []" using scan_stop_above [of h ?all] 2 Cons.prems(2) by simp
    then have "scan_rows lo hi limit rows ?all = rows" using Cons.prems(3) by (simp add: scan_rows_def)
    then show ?thesis using 2 by (intro exI [of _ True]) (auto simp: scan_ends_def yields_pure)
  next
    case 3
    then have run: "scan_entries crc lo hi limit (map entry_of (e # es)) rows =
        sbind (load_value crc (stored_value_of (snd e))) (\<lambda>v.
           let rows' = rows @ [(?k, v)] in
           if length rows' \<ge> limit then sret (True, rows') else scan_entries crc lo hi limit (map entry_of es) rows')"
      by (auto simp: in_range_def not_less [symmetric] split: option.splits)
    have load: "yields crc s (load_value crc (stored_value_of (snd e))) ?v"
      using Cons.prems(1) by (intro load_value_of) simp
    show ?thesis
    proof (cases "limit \<le> Suc (length rows)")
      case True
      then have "limit - length rows = 1" using Cons.prems(3) by simp
      then have "scan_rows lo hi limit rows ?all = rows @ [(?k, ?v)]" using 3 Cons.prems(3) by (simp add: scan_rows_def)
      then show ?thesis
        unfolding run using True
        by (intro exI [of _ True] conjI yields_bind [OF load]) (simp_all add: yields_pure scan_ends_def)
    next
      case False
      have rows: "scan_rows lo hi limit rows ?all = scan_rows lo hi limit (rows @ [(?k, ?v)]) ?kvs"
        using 3 by (simp add: scan_rows_def)
      obtain fin where "yields crc s (scan_entries crc lo hi limit (map entry_of es) (rows @ [(?k, ?v)]))
          (fin, scan_rows lo hi limit (rows @ [(?k, ?v)]) ?kvs)"
        "scan_ends hi limit (scan_rows lo hi limit (rows @ [(?k, ?v)]) ?kvs) ?kvs fin"
        using Cons.IH [of "rows @ [(?k, ?v)]"] Cons.prems ord False by auto
      then show ?thesis
        unfolding run rows using False
        by (intro exI [of _ fin] conjI yields_bind [OF load]) (auto simp: scan_ends_def split: if_splits)
    qed
  qed
qed


lemma g_ord_al_ord: "g_ord t \<longleftrightarrow> al_ord (gkvs t)"
  by (simp add: g_ord_def al_ord_def)

lemma seps_ok_Cons [simp]:
  "seps_ok (c # cs) \<longleftrightarrow> gkvs (snd c) \<noteq> [] \<and> bl_bytes (fst c) = fst (hd (gkvs (snd c))) \<and> seps_ok cs"
  by (auto simp: seps_ok_def)

lemma scan_below:
  assumes "al_ord (xs @ ys)" "ys \<noteq> []" "fst (hd ys) \<le> lo"
  shows "filter (in_range lo hi) xs = []"
proof -
  have "fst x < fst (hd ys)" if "x \<in> set xs" for x
    using assms(1) that hd_in_set [OF assms(2)] by (cases x; cases "hd ys") (fastforce simp: al_ord_append)
  then have "\<not> lo \<le> fst x" if "x \<in> set xs" for x using assms(3) that by fastforce
  then show ?thesis by (simp add: in_range_def filter_empty_conv)
qed

lemma scan_children_of:
  assumes scan: "\<And>c rows. c \<in> set cs \<Longrightarrow> length rows < limit \<Longrightarrow>
      \<exists>fin. yields crc s (scan (groot (snd c)) rows) (fin, scan_rows lo hi limit rows (gkvs (snd c))) \<and>
        scan_ends hi limit (scan_rows lo hi limit rows (gkvs (snd c))) (gkvs (snd c)) fin"
    and "al_ord (concat (map (\<lambda>c. gkvs (snd c)) cs))" "seps_ok cs" "length rows < limit"
  shows "\<exists>fin. yields crc s (scan_children scan lo hi (map child_of cs) rows)
      (fin, scan_rows lo hi limit rows (concat (map (\<lambda>c. gkvs (snd c)) cs))) \<and>
    scan_ends hi limit (scan_rows lo hi limit rows (concat (map (\<lambda>c. gkvs (snd c)) cs))) (concat (map (\<lambda>c. gkvs (snd c)) cs)) fin"
  using assms
proof (induction cs arbitrary: rows)
  case Nil
  then show ?case by (auto simp: scan_rows_def scan_ends_def intro: yields_pure)
next
  case (Cons c cs)
  let ?f = "\<lambda>c. gkvs (snd c)"
  let ?rest = "concat (map ?f cs)"
  have ord: "al_ord (?f c @ ?rest)" using Cons.prems(2) by simp
  have parts: "al_ord (?f c)" "al_ord ?rest" "seps_ok cs" "?f c \<noteq> []" "bl_bytes (fst c) = fst (hd (?f c))"
    using ord Cons.prems(3) by (simp_all add: al_ord_append)
  have IH: "\<exists>fin. yields crc s (scan_children scan lo hi (map child_of cs) rows') (fin, scan_rows lo hi limit rows' ?rest) \<and>
      scan_ends hi limit (scan_rows lo hi limit rows' ?rest) ?rest fin" if "length rows' < limit" for rows'
    by (rule Cons.IH) (use Cons.prems(1) parts that in auto)
  define skip stop where "skip = (case map child_of cs of [] \<Rightarrow> False | following # _ \<Rightarrow> cr_min_key following \<le> lo)"
    and "stop = (case hi of None \<Rightarrow> False | Some h \<Rightarrow> cr_min_key (child_of c) \<ge> h)"
  have step: "scan_children scan lo hi (map child_of (c # cs)) rows =
      (if skip then scan_children scan lo hi (map child_of cs) rows
       else if stop then sret (True, rows)
       else sbind (scan (groot (snd c)) rows) (\<lambda>(finished, rows').
           if finished then sret (True, rows') else scan_children scan lo hi (map child_of cs) rows'))"
    by (simp add: skip_def stop_def)
  consider (below) skip | (above) "\<not> skip" stop | (go) "\<not> skip" "\<not> stop" by blast
  then show ?case
  proof cases
    case below
    then have "?rest \<noteq> []" "fst (hd ?rest) \<le> lo" using parts(3) by (cases cs; simp add: skip_def)+
    then have "scan_rows lo hi limit rows (?f c @ ?rest) = scan_rows lo hi limit rows ?rest"
      using scan_below [OF ord] by (simp add: scan_rows_def)
    moreover obtain fin where "yields crc s (scan_children scan lo hi (map child_of cs) rows) (fin, scan_rows lo hi limit rows ?rest)"
      "scan_ends hi limit (scan_rows lo hi limit rows ?rest) ?rest fin"
      using IH [of rows] Cons.prems(4) by auto
    ultimately show ?thesis
      unfolding step using below by (intro exI [of _ fin]) (auto simp: scan_ends_def split: if_splits)
  next
    case above
    then obtain h where h: "hi = Some h" "h \<le> bl_bytes (fst c)" by (auto simp: stop_def split: option.splits)
    have "filter (in_range lo hi) (?f c @ ?rest) = []"
      using scan_stop_above [of h "?f c @ ?rest" lo] ord parts h by simp
    then have "scan_rows lo hi limit rows (?f c @ ?rest) = rows" using Cons.prems(4) by (simp add: scan_rows_def)
    moreover have "hd (?f c) \<in> set (?f c)" "h \<le> fst (hd (?f c))" using parts h by simp_all
    ultimately show ?thesis
      unfolding step using above h(1) by (intro exI [of _ True]) (auto simp: scan_ends_def yields_pure)
  next
    case go
    obtain fin where fin: "yields crc s (scan (groot (snd c)) rows) (fin, scan_rows lo hi limit rows (?f c))"
      "scan_ends hi limit (scan_rows lo hi limit rows (?f c)) (?f c) fin"
      using Cons.prems(1) [of c rows] Cons.prems(4) by auto
    show ?thesis
    proof (cases fin)
      case True
      have "scan_rows lo hi limit rows (?f c @ ?rest) = scan_rows lo hi limit rows (?f c)"
      proof (cases "limit \<le> length (scan_rows lo hi limit rows (?f c))")
        case True
        then show ?thesis by (simp add: scan_rows_def)
      next
        case False
        then obtain h x where "hi = Some h" "x \<in> set (?f c)" "h \<le> fst x" using fin(2) \<open>fin\<close> by (auto simp: scan_ends_def)
        then have "filter (in_range lo hi) ?rest = []" using scan_none_left [OF ord] by blast
        then show ?thesis by (simp add: scan_rows_def)
      qed
      then show ?thesis
        unfolding step using True fin go
        by (simp, intro exI [of _ True] conjI yields_bind [OF fin(1)]) (auto simp: yields_pure scan_ends_def)
    next
      case False
      then have len: "length (scan_rows lo hi limit rows (?f c)) < limit" using fin(2) by (simp add: scan_ends_def)
      then have rows: "scan_rows lo hi limit rows (?f c @ ?rest) = scan_rows lo hi limit (scan_rows lo hi limit rows (?f c)) ?rest"
        by (simp add: scan_rows_def min_def split: if_splits)
      obtain fin' where fin': "yields crc s (scan_children scan lo hi (map child_of cs) (scan_rows lo hi limit rows (?f c)))
          (fin', scan_rows lo hi limit (scan_rows lo hi limit rows (?f c)) ?rest)"
        "scan_ends hi limit (scan_rows lo hi limit (scan_rows lo hi limit rows (?f c)) ?rest) ?rest fin'"
        using IH [OF len] by auto
      show ?thesis
        unfolding step using False fin' rows go
        by (simp, intro exI [of _ fin'] conjI yields_bind [OF fin(1)]) (auto simp: scan_ends_def split: if_splits)
    qed
  qed
qed

lemma scan_subtree_of:
  assumes "tree_at (view crc s) h t" "g_ord t" "h \<le> n" "live crc s" "length rows < limit"
  shows "\<exists>fin. yields crc s (scan_subtree crc lo hi limit n (groot t) rows) (fin, scan_rows lo hi limit rows (gkvs t)) \<and>
    scan_ends hi limit (scan_rows lo hi limit rows (gkvs t)) (gkvs t) fin"
  using assms
proof (induction n arbitrary: h t rows)
  case 0
  then show ?case using tree_at_pos by fastforce
next
  case (Suc n)
  show ?case
  proof (cases t)
    case (GLeaf i es)
    have v: "view crc s i = Some (PkLeaf, None, map leaf_cell es)" and ok: "leaf_ok (view crc s) es"
      using Suc.prems(1) GLeaf by simp_all
    obtain p where p: "pager_page crc s i = Some p" "pg_kind p = PkLeaf"
      "page_cells p = map leaf_cell es" "page_validate crc p = Inr ()"
      using view_Some [OF v] by metis
    have dec: "yields crc s (decode_leaf crc p None) (map entry_of es, add_seen (set (concat (map (\<lambda>e. bl_pages (fst e)) es))) None)"
      by (rule decode_leaf_of [OF p(4,3,2) ok Suc.prems(4)]) (simp add: apart_def)
    have "al_ord (gkvs (GLeaf i es))" "\<forall>e \<in> set es. blob_at (view crc s) 1048576 (snd e)"
      using Suc.prems(2) GLeaf ok by (simp_all add: g_ord_al_ord leaf_ok_def)
    then obtain fin where fin: "yields crc s (scan_entries crc lo hi limit (map entry_of es) rows) (fin, scan_rows lo hi limit rows (gkvs t))"
      "scan_ends hi limit (scan_rows lo hi limit rows (gkvs t)) (gkvs t) fin"
      using scan_entries_of [of es crc s i rows limit lo hi] Suc.prems(5) GLeaf by auto
    have "yields crc s (scan_subtree crc lo hi limit (Suc n) (groot t) rows) (fin, scan_rows lo hi limit rows (gkvs t))"
      unfolding scan_subtree.simps
      by (rule yields_read_bind, use GLeaf p(1) in simp, simp add: p(2), rule yields_bind [OF dec], use fin in simp)
    then show ?thesis using fin(2) by blast
  next
    case (GNode i cs)
    have v: "view crc s i = Some (PkInternal, None, map node_cell cs)" and ok: "node_ok (view crc s) cs"
      using Suc.prems(1) GNode by simp_all
    obtain p where p: "pager_page crc s i = Some p" "pg_kind p = PkInternal"
      "page_cells p = map node_cell cs" "page_validate crc p = Inr ()"
      using view_Some [OF v] by metis
    have dec: "yields crc s (decode_internal crc p None) (map child_of cs, add_seen (set (concat (map (\<lambda>c. bl_pages (fst c)) cs))) None)"
      by (rule decode_internal_of [OF p(4,3,2) ok Suc.prems(4)]) (simp add: apart_def)
    have ord: "g_ord (GNode i cs)" and seps: "seps_ok cs" using Suc.prems(1,2) GNode tree_at_seps by blast+
    have kids: "\<exists>fin. yields crc s (scan_subtree crc lo hi limit n (groot (snd c)) rows) (fin, scan_rows lo hi limit rows (gkvs (snd c))) \<and>
        scan_ends hi limit (scan_rows lo hi limit rows (gkvs (snd c))) (gkvs (snd c)) fin"
      if "c \<in> set cs" "length rows < limit" for c rows
      using Suc.prems GNode that g_ord_child [OF ord that(1)] by (intro Suc.IH [of "h - 1"]) auto
    obtain fin where fin: "yields crc s (scan_children (scan_subtree crc lo hi limit n) lo hi (map child_of cs) rows)
        (fin, scan_rows lo hi limit rows (gkvs t))" "scan_ends hi limit (scan_rows lo hi limit rows (gkvs t)) (gkvs t) fin"
      using scan_children_of [OF kids, of cs rows] Suc.prems(5) seps ord GNode by (auto simp: g_ord_al_ord)
    have "yields crc s (scan_subtree crc lo hi limit (Suc n) (groot t) rows) (fin, scan_rows lo hi limit rows (gkvs t))"
      unfolding scan_subtree.simps
      by (rule yields_read_bind, use GNode p(1) in simp, simp add: p(2), rule yields_bind [OF dec], use fin in simp)
    then show ?thesis using fin(2) by blast
  qed
qed

end
