(* ===== verification/BtreeCow.thy ===== *)
theory BtreeCow
  imports BtreeQuery
begin

text \<open>
  Copy-on-write.  A mutation writes only pages that the committed tree does not use: recycled ids
  and ids past the committed page count.  \<open>writes crc n s m Q\<close> says that when no write fails and
  the counters have room for \<open>n\<close> further pages, \<open>m\<close> returns a result, writes only a set \<open>P\<close> of
  such pages, keeps every other page and the root, and makes \<open>Q\<close> true.
\<close>

definition avail :: "btree \<Rightarrow> nat set" where
  "avail s = set (bt_reusable_pages s) \<union> {q. sb_page_count (pr_active s) \<le> q}"

definition ready :: "(bytes \<Rightarrow> 32 word) \<Rightarrow> nat \<Rightarrow> btree \<Rightarrow> bool" where
  "ready crc n s \<longleftrightarrow> live crc s \<and> pr_faults s = [] \<and> distinct (bt_reusable_pages s) \<and>
     (\<forall>q \<in> set (bt_reusable_pages s). 2 \<le> q \<and> q < sb_page_count (pr_active s)) \<and>
     (sb_page_count (pr_active s) + n) * 4096 \<le> u64_max \<and> sb_generation (pr_active s) + n \<le> u64_max"

definition grows :: "(bytes \<Rightarrow> 32 word) \<Rightarrow> nat set \<Rightarrow> btree \<Rightarrow> btree \<Rightarrow> bool" where
  "grows crc P s s' \<longleftrightarrow> P \<subseteq> avail s \<and> avail s' \<subseteq> avail s - P \<and>
     pager_root_page_id s' = pager_root_page_id s \<and>
     (\<forall>q x. q \<notin> avail s \<longrightarrow> view crc s q = Some x \<longrightarrow> view crc s' q = Some x)"

definition writes ::
    "(bytes \<Rightarrow> 32 word) \<Rightarrow> nat \<Rightarrow> btree \<Rightarrow> 'a tree_act \<Rightarrow> ('a \<Rightarrow> nat set \<Rightarrow> btree \<Rightarrow> bool) \<Rightarrow> bool" where
  "writes crc n s m Q \<longleftrightarrow> (\<forall>k. ready crc (n + k) s \<longrightarrow>
     (\<exists>r P s'. m s = (Inr r, s') \<and> ready crc k s' \<and> grows crc P s s' \<and> Q r P s'))"

lemma grows_refl: "grows crc {} s s"
  by (simp add: grows_def)

lemma grows_trans:
  assumes "grows crc P s s'" "grows crc Q s' s''"
  shows "grows crc (P \<union> Q) s s''"
proof -
  have sub: "P \<subseteq> avail s" "avail s' \<subseteq> avail s - P" "Q \<subseteq> avail s'" "avail s'' \<subseteq> avail s' - Q"
    and root: "pager_root_page_id s'' = pager_root_page_id s"
    using assms by (simp_all add: grows_def)
  have "view crc s'' q = Some x" if "q \<notin> avail s" "view crc s q = Some x" for q x
  proof -
    have "view crc s' q = Some x" using assms(1) that unfolding grows_def by blast
    moreover have "q \<notin> avail s'" using sub(2) that(1) by blast
    ultimately show ?thesis using assms(2) unfolding grows_def by blast
  qed
  moreover have "P \<union> Q \<subseteq> avail s" "avail s'' \<subseteq> avail s - (P \<union> Q)" using sub by auto
  ultimately show ?thesis using root by (simp add: grows_def)
qed

lemma grows_disjoint: "grows crc P s s' \<Longrightarrow> grows crc Q s' s'' \<Longrightarrow> P \<inter> Q = {}"
  unfolding grows_def by blast

lemma ready_mono: "ready crc n s \<Longrightarrow> k \<le> n \<Longrightarrow> ready crc k s"
  by (auto simp: ready_def add_mult_distrib)

lemma ready_live: "ready crc n s \<Longrightarrow> live crc s"
  by (simp add: ready_def)

lemma writes_mono:
  assumes "writes crc n s m Q" "n \<le> n'" "\<And>r P s'. grows crc P s s' \<Longrightarrow> live crc s' \<Longrightarrow> Q r P s' \<Longrightarrow> Q' r P s'"
  shows "writes crc n' s m Q'"
  unfolding writes_def
proof (intro allI impI)
  fix k assume "ready crc (n' + k) s"
  then have "ready crc (n + (n' - n + k)) s" using assms(2) by simp
  then obtain r P s' where "m s = (Inr r, s')" "ready crc (n' - n + k) s'" "grows crc P s s'" "Q r P s'"
    using assms(1) unfolding writes_def by blast
  then show "\<exists>r P s'. m s = (Inr r, s') \<and> ready crc k s' \<and> grows crc P s s' \<and> Q' r P s'"
    using assms(3) ready_mono [of crc "n' - n + k" s' k] ready_live by fastforce
qed

lemma writes_bind:
  assumes m: "writes crc n s m Q"
    and f: "\<And>r P s'. grows crc P s s' \<Longrightarrow> live crc s' \<Longrightarrow> Q r P s' \<Longrightarrow>
      writes crc k s' (f r) (\<lambda>r' P' s''. P \<inter> P' = {} \<longrightarrow> grows crc P' s' s'' \<longrightarrow> R r' (P \<union> P') s'')"
  shows "writes crc (n + k) s (sbind m f) R"
  unfolding writes_def
proof (intro allI impI)
  fix j assume "ready crc (n + k + j) s"
  then obtain r P s' where 1: "m s = (Inr r, s')" "ready crc (k + j) s'" "grows crc P s s'" "Q r P s'"
    using m unfolding writes_def by (metis add.assoc)
  then obtain r' P' s'' where 2: "f r s' = (Inr r', s'')" "ready crc j s''" "grows crc P' s' s''"
    "P \<inter> P' = {} \<longrightarrow> grows crc P' s' s'' \<longrightarrow> R r' (P \<union> P') s''"
    using f [OF 1(3) ready_live [OF 1(2)] 1(4)] unfolding writes_def by blast
  then show "\<exists>r P s'. sbind m f s = (Inr r, s') \<and> ready crc j s' \<and> grows crc P s s' \<and> R r P s'"
    using 1 grows_disjoint [OF 1(3) 2(3)] grows_trans [OF 1(3) 2(3)] by (auto simp: sbind_run)
qed

lemma writes_pure: "Q x {} s \<Longrightarrow> writes crc n s (sret x) Q" "Q x {} s \<Longrightarrow> writes crc n s (slift (Inr x)) Q"
  using grows_refl ready_mono [of crc _ s] by (fastforce simp: writes_def act_simps)+

lemma writes_pure_bind [simp]:
  "writes crc n s (sbind (slift (Inr x)) f) Q \<longleftrightarrow> writes crc n s (f x) Q"
  "writes crc n s (sbind (sret x) f) Q \<longleftrightarrow> writes crc n s (f x) Q"
  "writes crc n s (sbind (sread g) f) Q \<longleftrightarrow> writes crc n s (f (g s)) Q"
  by (simp_all add: writes_def)

lemma same_store_btree:
  "same_store s s' \<Longrightarrow> bt_reusable_pages s' = bt_reusable_pages s \<and> bt_instrumentation s' = bt_instrumentation s \<and>
     bt_cache_capacity s' = bt_cache_capacity s"
  by (auto simp: same_store_def)

lemma same_store_ready: "same_store s s' \<Longrightarrow> live crc s' \<Longrightarrow> ready crc n s \<Longrightarrow> ready crc n s'"
  using same_store_sel(2,3) [of s s'] same_store_btree [of s s'] by (simp add: ready_def)

lemma same_store_grows: "same_store s s' \<Longrightarrow> grows crc {} s s'"
  using same_store_sel(2) [of s s'] same_store_btree [of s s'] view_same_store [of s s' crc]
  by (simp add: grows_def avail_def pager_root_page_id_def)

lemma writes_read:
  assumes "yields crc s m x" "\<And>s'. same_store s s' \<Longrightarrow> live crc s' \<Longrightarrow> writes crc n s' (f x) Q"
  shows "writes crc n s (sbind m f) Q"
  unfolding writes_def
proof (intro allI impI)
  fix k assume r: "ready crc (n + k) s"
  obtain s' where s': "m s = (Inr x, s')" "same_store s s'" "live crc s'"
    using yields_run [OF assms(1) ready_live [OF r]] by blast
  obtain y P s'' where "f x s' = (Inr y, s'')" "ready crc k s''" "grows crc P s' s''" "Q y P s''"
    using assms(2) [OF s'(2,3)] same_store_ready [OF s'(2,3) r] unfolding writes_def by blast
  then show "\<exists>r P s'. sbind m f s = (Inr r, s') \<and> ready crc k s' \<and> grows crc P s s' \<and> Q r P s'"
    using s'(1) grows_trans [OF same_store_grows [OF s'(2)]] by (fastforce simp: sbind_run)
qed


subsection \<open>Writing one page\<close>

lemma insert_cells_image:
  assumes "page_args kind pid link" "cells_room (cells @ extra)"
  shows "insert_cells crc extra (page_of crc kind pid link cells) = Inr (page_of crc kind pid link (cells @ extra))"
  using assms(2)
proof (induction extra arbitrary: cells)
  case Nil
  then show ?case by (simp add: insert_cells_def)
next
  case (Cons c extra)
  have "cells_room (cells @ [c])" using Cons.prems by (auto simp: cells_room_def)
  then have "page_step (page_insert_cell crc (page_of crc kind pid link cells) c) = Inr (page_of crc kind pid link (cells @ [c]))"
    using page_insert_cell_image [OF _ assms(1)] by (simp add: page_step_def)
  then show ?case using Cons.IH [of "cells @ [c]"] Cons.prems by (simp add: insert_cells_def)
qed

definition store_page :: "(bytes \<Rightarrow> 32 word) \<Rightarrow> page_kind \<Rightarrow> (page \<Rightarrow> page bt_result) \<Rightarrow> nat tree_act" where
  "store_page crc kind fill =
     sbind (prepare_tree_page crc kind) (\<lambda>(p, recycled). sbind (slift (fill p)) (\<lambda>p'. commit_tree_page crc p' recycled))"

lemma committed_view:
  assumes "committed crc s (page_of crc kind pid link cells) s'" "cells_room cells" "page_args kind pid link"
  shows "view crc s' pid = Some (kind, link, cells)" "q \<noteq> pid \<Longrightarrow> view crc s q = Some x \<Longrightarrow> view crc s' q = Some x"
proof -
  show "view crc s' pid = Some (kind, link, cells)"
    using assms page_sel_of(3) [OF assms(2,3)] page_cells_of [OF assms(2,3)] by (simp add: committed_def view_def)
  show "q \<noteq> pid \<Longrightarrow> view crc s q = Some x \<Longrightarrow> view crc s' q = Some x"
    using assms(1) by (auto simp: committed_def view_def)
qed

lemma same_extension:
  "pager.more s' = pager.more (s :: btree) \<Longrightarrow> bt_reusable_pages s' = bt_reusable_pages s \<and> bt_cache_capacity s' = bt_cache_capacity s"
  by (cases s; cases s') simp

lemma committed_sel:
  assumes "committed crc s p (s' :: btree)" "live crc s"
  shows "live crc s'" "pr_faults s' = []" "pager_root_page_id s' = pager_root_page_id s"
    "bt_reusable_pages s' = bt_reusable_pages s"
  using assms same_extension [of s' s] by (simp_all add: committed_def live_def pager_root_page_id_def)

lemma writes_store_page:
  assumes fill: "\<And>pid. 2 \<le> pid \<Longrightarrow> pid * 4096 \<le> u64_max \<Longrightarrow> (\<And>l. link = Some l \<Longrightarrow> l \<noteq> pid) \<Longrightarrow>
      fill (page_of crc kind pid None []) = Inr (page_of crc kind pid link cells)"
    and cells: "cells_room cells"
    and link: "\<And>l. link = Some l \<Longrightarrow> kind \<noteq> PkInternal \<and> view crc s l \<noteq> None \<and> l \<notin> avail s"
  shows "writes crc 1 s (store_page crc kind fill) (\<lambda>pid P s'. P = {pid} \<and> view crc s' pid = Some (kind, link, cells))"
  unfolding writes_def
proof (intro allI impI)
  fix k assume r: "ready crc (1 + k) s"
  let ?a = "pr_active s" and ?n = "sb_page_count (pr_active s)"
  have live: "live crc s" and inv: "pager_inv crc s" "\<not> pr_poisoned s" "pr_faults s = []" using r by (simp_all add: ready_def live_def)
  have n2: "2 \<le> ?n" using inv(1) by (simp add: pager_inv_def pager_file_ok_def sb_wf_def)
  have room: "(?n + 1) * 4096 \<le> u64_max" "sb_generation ?a + 1 \<le> u64_max" using r by (auto simp: ready_def add_mult_distrib)
  have lnk: "link = Some l \<Longrightarrow> 2 \<le> l \<and> l < ?n \<and> l \<le> u64_max \<and> l \<notin> avail s" for l
    using link [of l] view_id [OF _ live, of l] by auto
  have args: "page_committable ?n kind pid link cells \<and> page_args kind pid link \<and>
      fill (page_of crc kind pid None []) = Inr (page_of crc kind pid link cells)"
    if "2 \<le> pid" "pid \<le> ?n" "pid \<in> avail s" for pid
    using that room lnk link cells fill [of pid]
    by (fastforce simp: page_committable_def page_args_def split: option.splits)
  show "\<exists>pid P s'. store_page crc kind fill s = (Inr pid, s') \<and> ready crc k s' \<and> grows crc P s s' \<and> P = {pid} \<and>
      view crc s' pid = Some (kind, link, cells)"
  proof (cases "bt_reusable_pages s")
    case Nil
    let ?p = "page_of crc kind ?n link cells"
    have pid: "?n \<in> avail s" by (simp add: avail_def)
    note a = args [OF n2 order_refl pid]
    obtain s' where s': "pager_commit_new_page crc ?p s = (Inr ?n, s')" "committed crc s ?p s'"
      "sb_page_count (pr_active s') = ?n + 1" "sb_generation (pr_active s') = sb_generation ?a + 1"
      using pager_commit_new_page_ok [OF inv _ room, of kind link cells] a by auto
    have "store_page crc kind fill s = (Inr ?n, s')"
      using Nil inv(2) s'(1) a
      by (simp add: store_page_def prepare_tree_page_def pager_prepare_new_page_def pager_ensure_usable_def sbind_def act_simps
          page_new_image [OF n2] commit_tree_page_def)
    moreover have "ready crc k s'"
      using r s'(3,4) committed_sel [OF s'(2) live] Nil by (auto simp: ready_def)
    moreover have "grows crc {?n} s s'"
      using s'(3) committed_sel(3,4) [OF s'(2) live] committed_view(2) [OF s'(2) cells] a Nil
      by (auto simp: grows_def avail_def)
    ultimately show ?thesis using committed_view(1) [OF s'(2) cells] a by blast
  next
    case (Cons pid rest)
    let ?p = "page_of crc kind pid link cells" and ?t = "s\<lparr>bt_reusable_pages := rest\<rparr>"
    have pid: "2 \<le> pid" "pid < ?n" "pid \<in> avail s" using r Cons by (auto simp: ready_def avail_def)
    note a = args [OF pid(1) less_imp_le [OF pid(2)] pid(3)]
    have page: "pager_page crc ?t = pager_page crc s" by (simp add: pager_page_def fun_eq_iff cong: option.case_cong sum.case_cong)
    have inv': "pager_inv crc ?t" "\<not> pr_poisoned ?t" "pr_faults ?t = []" using inv page by (simp_all add: pager_inv_def)
    have live': "live crc ?t" using inv'(1,2) live by (simp add: live_def)
    obtain s' where s': "pager_commit_recycled_page crc ?p ?t = (Inr pid, s')" "committed crc ?t ?p s'" "pr_active s' = ?a"
      using pager_commit_recycled_page_ok [OF inv', of kind pid link cells] a pid(2) by auto
    have "store_page crc kind fill s = (Inr pid, s')"
      using Cons s'(1) a
      by (simp add: store_page_def prepare_tree_page_def sbind_def act_simps page_new_image [OF pid(1)] commit_tree_page_def)
    moreover have "ready crc k s'"
      using r s'(3) committed_sel [OF s'(2) live'] Cons by (auto simp: ready_def)
    moreover have "grows crc {pid} s s'"
    proof -
      have "pid \<notin> set rest" using r Cons by (simp add: ready_def)
      moreover have "view crc ?t = view crc s" using page by (simp add: view_def fun_eq_iff)
      moreover have "pager_root_page_id s' = pager_root_page_id s" by (simp add: pager_root_page_id_def s'(3))
      ultimately show ?thesis
        using s'(3) committed_sel(4) [OF s'(2) live'] committed_view(2) [OF s'(2) cells] a Cons pid
        by (auto simp: grows_def avail_def)
    qed
    ultimately show ?thesis using committed_view(1) [OF s'(2) cells] a by blast
  qed
qed


subsection \<open>What is written stays readable\<close>

lemma grows_view:
  "grows crc P s s' \<Longrightarrow> q \<notin> avail s \<Longrightarrow> view crc s q \<noteq> None \<Longrightarrow> view crc s' q = view crc s q"
  unfolding grows_def by (metis not_Some_eq)

lemma grows_fresh: "grows crc P s s' \<Longrightarrow> A \<inter> avail s = {} \<Longrightarrow> A \<inter> avail s' = {}"
  unfolding grows_def by blast

lemma grows_new: "grows crc P s s' \<Longrightarrow> P \<inter> avail s' = {}"
  unfolding grows_def by blast

lemma grows_used: "grows crc P s s' \<Longrightarrow> A \<inter> avail s = {} \<Longrightarrow> A \<inter> P = {}"
  unfolding grows_def by blast

lemma chain_at_grows:
  assumes "grows crc P s s'" "chain_at (view crc s) ps cs" "set ps \<inter> avail s = {}"
  shows "chain_at (view crc s') ps cs"
  by (rule chain_at_cong [OF _ assms(2)]) (use assms grows_view chain_at_ids in blast)

lemma blob_at_grows:
  assumes "grows crc P s s'" "blob_at (view crc s) m b" "set (bl_pages b) \<inter> avail s = {}"
  shows "blob_at (view crc s') m b"
  by (rule blob_at_cong [OF assms(2)]) (use assms grows_view blob_at_ids in blast)

lemma tree_at_grows:
  assumes "grows crc P s s'" "tree_at (view crc s) h t" "set (gpages t) \<inter> avail s = {}"
  shows "tree_at (view crc s') h t"
  by (rule tree_at_cong [OF assms(2)]) (use assms grows_view tree_at_ids in blast)

lemma slift_bind: "sbind (slift m) (\<lambda>x. sbind (slift (f x)) g) = sbind (slift (rbind m f)) g"
  by (cases m) (simp_all add: fun_eq_iff)

definition fill_overflow :: "(bytes \<Rightarrow> 32 word) \<Rightarrow> bytes \<Rightarrow> nat option \<Rightarrow> page \<Rightarrow> page bt_result" where
  "fill_overflow crc chunk link p =
     rbind (page_step (page_insert_cell crc p chunk)) (\<lambda>p1. page_step (page_set_overflow_next crc p1 link))"

lemma commit_overflow_step:
  "sbind (prepare_tree_page crc PkOverflow) (\<lambda>(p, recycled).
     sbind (slift (page_step (page_insert_cell crc p chunk))) (\<lambda>p1.
     sbind (slift (page_step (page_set_overflow_next crc p1 link))) (\<lambda>p2.
     sbind (commit_tree_page crc p2 recycled) (\<lambda>page_id. sret (Some page_id))))) =
   sbind (store_page crc PkOverflow (fill_overflow crc chunk link)) (\<lambda>page_id. sret (Some page_id))"
  by (simp add: store_page_def fill_overflow_def sbind_assoc slift_bind split_def)

lemma fill_overflow_image:
  assumes "chunk \<noteq> []" "length chunk \<le> 4048" "page_args PkOverflow pid None" "page_args PkOverflow pid link"
  shows "fill_overflow crc chunk link (page_of crc PkOverflow pid None []) = Inr (page_of crc PkOverflow pid link [chunk])"
proof -
  have "cells_room [chunk]" using assms(1,2) by (simp add: cells_room_def)
  then show ?thesis
    using page_insert_cell_image [of "[]" chunk PkOverflow pid None crc] page_set_link_image [of "[chunk]" PkOverflow pid None link crc] assms
    by (simp add: fill_overflow_def page_step_def page_set_overflow_next_def)
qed

lemma writes_chunks:
  assumes "\<forall>c \<in> set cs. c \<noteq> [] \<and> length c \<le> 4048" "chain_at (view crc s) ps ds" "set ps \<inter> avail s = {}" "distinct ps"
    and "live crc s"
  shows "writes crc (length cs) s (sfold (\<lambda>link chunk.
       sbind (store_page crc PkOverflow (fill_overflow crc chunk link)) (\<lambda>page_id. sret (Some page_id))) (hd_opt ps) cs)
     (\<lambda>link P s'. \<exists>qs. link = hd_opt (qs @ ps) \<and> P = set qs \<and> distinct qs \<and> chain_at (view crc s') (qs @ ps) (rev cs @ ds))"
  using assms
proof (induction cs arbitrary: s ps ds)
  case Nil
  then show ?case by (auto intro!: writes_pure exI [of _ "[]"])
next
  case (Cons c cs)
  have link: "kind \<noteq> PkInternal \<and> view crc s l \<noteq> None \<and> l \<notin> avail s" if "hd_opt ps = Some l" "kind = PkOverflow" for l kind
    using that Cons.prems(2,3) by (cases ps) auto
  have fits: "c \<noteq> []" "length c \<le> 4048" using Cons.prems(1) by simp_all
  have "writes crc 1 s (store_page crc PkOverflow (fill_overflow crc c (hd_opt ps)))
      (\<lambda>pid P s'. P = {pid} \<and> view crc s' pid = Some (PkOverflow, hd_opt ps, [c]))"
  proof (rule writes_store_page)
    fix pid assume pid: "2 \<le> pid" "pid * 4096 \<le> u64_max" "\<And>l. hd_opt ps = Some l \<Longrightarrow> l \<noteq> pid"
    have "2 \<le> l \<and> l \<le> u64_max" if "hd_opt ps = Some l" for l
      using link [OF that refl] view_id [OF _ Cons.prems(5), of l] by auto
    then show "fill_overflow crc c (hd_opt ps) (page_of crc PkOverflow pid None []) = Inr (page_of crc PkOverflow pid (hd_opt ps) [c])"
      using pid fits by (intro fill_overflow_image) (auto simp: page_args_def split: option.split)
  next
    show "cells_room [c]" using fits by (simp add: cells_room_def)
  qed (use link in auto)
  then have "writes crc (1 + length cs) s (sbind (store_page crc PkOverflow (fill_overflow crc c (hd_opt ps)))
      (\<lambda>pid. sfold (\<lambda>link chunk.
       sbind (store_page crc PkOverflow (fill_overflow crc chunk link)) (\<lambda>page_id. sret (Some page_id))) (hd_opt (pid # ps)) cs))
     (\<lambda>link P s'. \<exists>qs. link = hd_opt (qs @ ps) \<and> P = set qs \<and> distinct qs \<and> chain_at (view crc s') (qs @ ps) (rev (c # cs) @ ds))"
  proof (rule writes_bind)
    fix pid P s' assume g: "grows crc P s s'" "live crc s'" and new: "P = {pid} \<and> view crc s' pid = Some (PkOverflow, hd_opt ps, [c])"
    have P: "pid \<in> avail s" "pid \<notin> avail s'" using g(1) new by (auto simp: grows_def)
    have "writes crc (length cs) s' (sfold (\<lambda>link chunk.
         sbind (store_page crc PkOverflow (fill_overflow crc chunk link)) (\<lambda>page_id. sret (Some page_id))) (hd_opt (pid # ps)) cs)
       (\<lambda>link P s'. \<exists>qs. link = hd_opt (qs @ pid # ps) \<and> P = set qs \<and> distinct qs \<and>
          chain_at (view crc s') (qs @ pid # ps) (rev cs @ c # ds))"
    proof (rule Cons.IH)
      show "chain_at (view crc s') (pid # ps) (c # ds)"
        using chain_at_grows [OF g(1) Cons.prems(2,3)] new by simp
      show "set (pid # ps) \<inter> avail s' = {}" using grows_fresh [OF g(1) Cons.prems(3)] P(2) by simp
      show "distinct (pid # ps)" using Cons.prems(3,4) P(1) by auto
    qed (use Cons.prems(1) g(2) in auto)
    then show "writes crc (length cs) s' (sfold (\<lambda>link chunk.
         sbind (store_page crc PkOverflow (fill_overflow crc chunk link)) (\<lambda>page_id. sret (Some page_id))) (hd_opt (pid # ps)) cs)
       (\<lambda>link P' s''. P \<inter> P' = {} \<longrightarrow> grows crc P' s' s'' \<longrightarrow>
         (\<exists>qs. link = hd_opt (qs @ ps) \<and> P \<union> P' = set qs \<and> distinct qs \<and> chain_at (view crc s'') (qs @ ps) (rev (c # cs) @ ds)))"
      by (rule writes_mono) (use new in \<open>force intro: exI [of _ "_ @ [pid]"]\<close>)+
  qed
  then show ?case by (simp add: sbind_assoc sbind_pure)
qed


lemma writes_blob:
  assumes "val \<noteq> []" "live crc s"
  shows "writes crc ((length val + 4047) div 4048) s (commit_overflow_blob crc val)
    (\<lambda>pid P s'. \<exists>ps. ps \<noteq> [] \<and> hd ps = pid \<and> P = set ps \<and> distinct ps \<and> chain_at (view crc s') ps (blob_chunks val))"
proof -
  let ?n = "(length val + 4047) div 4048"
  have chunks: "rchunks 4048 val = rev (blob_chunks val)" by (simp add: blob_chunks_def)
  have len: "length (rev (blob_chunks val)) = ?n" by (simp add: blob_chunks_length)
  have pos: "blob_chunks val \<noteq> []" using assms(1) by (subst blob_chunks_rec) simp
  have "\<forall>c \<in> set (rev (blob_chunks val)). c \<noteq> [] \<and> length c \<le> 4048" using blob_chunks_fit by auto
  then have run: "writes crc ?n s (sfold (\<lambda>link chunk.
       sbind (store_page crc PkOverflow (fill_overflow crc chunk link)) (\<lambda>page_id. sret (Some page_id))) None (rchunks 4048 val))
     (\<lambda>link P s'. \<exists>qs. link = hd_opt qs \<and> P = set qs \<and> distinct qs \<and> chain_at (view crc s') qs (blob_chunks val))"
    using writes_chunks [of "rev (blob_chunks val)" crc s "[]" "[]"] assms(2) by (simp add: chunks blob_chunks_length)
  have "writes crc (?n + 0) s (sbind (sfold (\<lambda>link chunk.
       sbind (store_page crc PkOverflow (fill_overflow crc chunk link)) (\<lambda>page_id. sret (Some page_id))) None (rchunks 4048 val))
       (\<lambda>link. slift (ok_or link (BtCorruption 0))))
    (\<lambda>pid P s'. \<exists>ps. ps \<noteq> [] \<and> hd ps = pid \<and> P = set ps \<and> distinct ps \<and> chain_at (view crc s') ps (blob_chunks val))"
  proof (rule writes_bind [OF run])
    fix link P s' assume "\<exists>qs. link = hd_opt qs \<and> P = set qs \<and> distinct qs \<and> chain_at (view crc s') qs (blob_chunks val)"
    then obtain qs where qs: "link = hd_opt qs" "P = set qs" "distinct qs" "chain_at (view crc s') qs (blob_chunks val)" by blast
    then obtain q qs' where "qs = q # qs'" using pos by (cases qs) auto
    then show "writes crc 0 s' (slift (ok_or link (BtCorruption 0))) (\<lambda>pid P' s''. P \<inter> P' = {} \<longrightarrow> grows crc P' s' s'' \<longrightarrow>
        (\<exists>ps. ps \<noteq> [] \<and> hd ps = pid \<and> P \<union> P' = set ps \<and> distinct ps \<and> chain_at (view crc s'') ps (blob_chunks val)))"
      using qs by (auto intro!: writes_pure exI [of _ qs])
  qed
  then show ?thesis
    using assms(1) by (simp add: commit_overflow_blob_def commit_overflow_step OVERFLOW_CELL_CAPACITY_eq)
qed

lemma chunk_count: "n \<le> k * 4048 \<Longrightarrow> (n + 4047) div 4048 \<le> (k :: nat)"
  by (simp add: div_le_mono less_Suc_eq_le [symmetric] div_less_iff_less_mult)

definition key_canon :: "blob \<Rightarrow> bool" where
  "key_canon b \<longleftrightarrow> (bl_pages b = [] \<longleftrightarrow> length (bl_bytes b) \<le> 4034)"

lemma writes_store_key:
  assumes "length key \<le> 4096" "live crc s"
  shows "writes crc 2 s (store_key crc key)
    (\<lambda>sk P s'. \<exists>b. sk = stored_key_of b \<and> bl_bytes b = key \<and> P = set (bl_pages b) \<and> blob_at (view crc s') 4096 b \<and> key_canon b)"
proof (cases "length key \<le> 4034")
  case True
  then show ?thesis
    using assms(1)
    by (auto simp: store_key_def bt_validate_key_def node_consts stored_key_of_def key_canon_def blob_at_def
        intro!: writes_pure exI [of _ "\<lparr>bl_bytes = key, bl_pages = []\<rparr>"])
next
  case False
  then have ne: "key \<noteq> []" by auto
  have "writes crc (2 + 0) s (sbind (commit_overflow_blob crc key) (\<lambda>first_page_id. sret (SkOverflow key first_page_id)))
    (\<lambda>sk P s'. \<exists>b. sk = stored_key_of b \<and> bl_bytes b = key \<and> P = set (bl_pages b) \<and> blob_at (view crc s') 4096 b \<and> key_canon b)"
  proof (rule writes_bind)
    show "writes crc 2 s (commit_overflow_blob crc key)
      (\<lambda>pid P s'. \<exists>ps. ps \<noteq> [] \<and> hd ps = pid \<and> P = set ps \<and> distinct ps \<and> chain_at (view crc s') ps (blob_chunks key))"
      by (rule writes_mono [OF writes_blob [OF ne assms(2)]]) (use assms(1) in \<open>simp_all add: chunk_count\<close>)
  next
    fix pid P s' assume "\<exists>ps. ps \<noteq> [] \<and> hd ps = pid \<and> P = set ps \<and> distinct ps \<and> chain_at (view crc s') ps (blob_chunks key)"
    then obtain ps where "ps \<noteq> []" "hd ps = pid" "P = set ps" "distinct ps" "chain_at (view crc s') ps (blob_chunks key)" by blast
    then show "writes crc 0 s' (sret (SkOverflow key pid)) (\<lambda>sk P' s''. P \<inter> P' = {} \<longrightarrow> grows crc P' s' s'' \<longrightarrow>
        (\<exists>b. sk = stored_key_of b \<and> bl_bytes b = key \<and> P \<union> P' = set (bl_pages b) \<and> blob_at (view crc s'') 4096 b \<and> key_canon b))"
      using assms(1) False ne
      by (auto simp: stored_key_of_def key_canon_def blob_at_def intro!: writes_pure exI [of _ "\<lparr>bl_bytes = key, bl_pages = ps\<rparr>"])
  qed
  then show ?thesis
    using assms(1) False by (simp add: store_key_def bt_validate_key_def node_consts)
qed

lemma stored_key_payload_len_of: "stored_key_payload_len (stored_key_of b) = length (payload_of b)"
  by (simp add: stored_key_of_def payload_of_def node_consts)

lemma writes_store_value:
  assumes "length val \<le> 1048576" "live crc s" "length (payload_of kb) \<le> 4034"
  shows "writes crc 260 s (store_value crc (stored_key_of kb) val)
    (\<lambda>sv P s'. \<exists>b. sv = stored_value_of b \<and> bl_bytes b = val \<and> P = set (bl_pages b) \<and> blob_at (view crc s') 1048576 b \<and>
       (bl_pages b = [] \<longleftrightarrow> 10 + length (payload_of kb) + length val \<le> 4052))"
proof -
  have occ: "Option.bind (checked_add64 (SLOT_LEN + LEAF_CELL_HEADER_LEN) (stored_key_payload_len (stored_key_of kb)))
      (\<lambda>n. checked_add64 n (length val)) = Some (10 + length (payload_of kb) + length val)"
    using assms(1,3) by (simp add: checked_add64_def u64_max_def node_consts SLOT_LEN_def stored_key_payload_len_of)
  show ?thesis
  proof (cases "10 + length (payload_of kb) + length val \<le> 4052")
    case True
    then show ?thesis
      using assms(1) occ
      by (auto simp: store_value_def node_consts stored_value_of_def blob_at_def
          intro!: writes_pure exI [of _ "\<lparr>bl_bytes = val, bl_pages = []\<rparr>"])
  next
    case False
    then have ne: "val \<noteq> []" using assms(3) by auto
    have len: "try_u32 (length val) = Some (length val)" using assms(1) by (simp add: try_u32_def)
    have "writes crc (260 + 0) s (sbind (commit_overflow_blob crc val) (\<lambda>pid. sret (SvOverflow (length val) pid)))
      (\<lambda>sv P s'. \<exists>b. sv = stored_value_of b \<and> bl_bytes b = val \<and> P = set (bl_pages b) \<and> blob_at (view crc s') 1048576 b \<and>
         (bl_pages b = [] \<longleftrightarrow> 10 + length (payload_of kb) + length val \<le> 4052))"
    proof (rule writes_bind)
      show "writes crc 260 s (commit_overflow_blob crc val)
        (\<lambda>pid P s'. \<exists>ps. ps \<noteq> [] \<and> hd ps = pid \<and> P = set ps \<and> distinct ps \<and> chain_at (view crc s') ps (blob_chunks val))"
        by (rule writes_mono [OF writes_blob [OF ne assms(2)]]) (use assms(1) in \<open>simp_all add: chunk_count\<close>)
    next
      fix pid P s' assume "\<exists>ps. ps \<noteq> [] \<and> hd ps = pid \<and> P = set ps \<and> distinct ps \<and> chain_at (view crc s') ps (blob_chunks val)"
      then obtain ps where "ps \<noteq> []" "hd ps = pid" "P = set ps" "distinct ps" "chain_at (view crc s') ps (blob_chunks val)" by blast
      then show "writes crc 0 s' (sret (SvOverflow (length val) pid)) (\<lambda>sv P' s''. P \<inter> P' = {} \<longrightarrow> grows crc P' s' s'' \<longrightarrow>
          (\<exists>b. sv = stored_value_of b \<and> bl_bytes b = val \<and> P \<union> P' = set (bl_pages b) \<and> blob_at (view crc s'') 1048576 b \<and>
             (bl_pages b = [] \<longleftrightarrow> 10 + length (payload_of kb) + length val \<le> 4052)))"
        using assms(1) False ne
        by (auto simp: stored_value_of_def blob_at_def intro!: writes_pure exI [of _ "\<lparr>bl_bytes = val, bl_pages = ps\<rparr>"])
    qed
    then show ?thesis
      using assms(1) False len by (simp add: store_value_def occ) (simp add: node_consts sbind_pure)
  qed
qed

lemma payload_canon: "key_canon b \<Longrightarrow> length (payload_of b) \<le> 4034"
  by (simp add: key_canon_def payload_of_def)

end
