(* ===== verification/BtreeForest.thy ===== *)
theory BtreeForest
  imports BtreeCow
begin

text \<open>
  Rewriting one level of the tree.  A forest is a list of adjacent subtrees of one height in the
  pages of a state; committing a list of entries or of child references makes one or two new
  subtrees with the same content out of new pages and pages of the old ones.
\<close>

subsection \<open>Forests\<close>

definition entry_pages :: "blob \<times> blob \<Rightarrow> nat list" where
  "entry_pages e = bl_pages (fst e) @ bl_pages (snd e)"

definition kv_of :: "blob \<times> blob \<Rightarrow> bytes \<times> bytes" where
  "kv_of e = (bl_bytes (fst e), bl_bytes (snd e))"

lemma kv_of_sel [simp]: "fst (kv_of e) = bl_bytes (fst e)" "snd (kv_of e) = bl_bytes (snd e)"
  by (simp_all add: kv_of_def)

lemma gkvs_leaf: "gkvs (GLeaf i es) = map kv_of es"
  by (simp add: kv_of_def)

lemma gpages_leaf: "gpages (GLeaf i es) = i # concat (map entry_pages es)"
  by (simp add: entry_pages_def [abs_def])

declare gkvs.simps(1) [simp del] gpages.simps(1) [simp del]
declare gkvs_leaf [simp] gpages_leaf [simp]

text \<open>The bytes a key takes in a cell, and the form in which keys and values are stored.\<close>

definition key_size :: "bytes \<Rightarrow> nat" where
  "key_size k = (if length k \<le> 4034 then length k else 8)"

definition value_size :: "bytes \<Rightarrow> bytes \<Rightarrow> nat" where
  "value_size k v = (if 10 + key_size k + length v \<le> 4052 then length v else 8)"

definition entry_canon :: "blob \<times> blob \<Rightarrow> bool" where
  "entry_canon e \<longleftrightarrow> key_canon (fst e) \<and>
     (bl_pages (snd e) = [] \<longleftrightarrow> 10 + length (payload_of (fst e)) + length (bl_bytes (snd e)) \<le> 4052)"

fun canon :: "gtree \<Rightarrow> bool" where
  "canon (GLeaf i es) \<longleftrightarrow> (\<forall>e \<in> set es. entry_canon e)"
| "canon (GNode i cs) \<longleftrightarrow> (\<forall>c \<in> set cs. key_canon (fst c) \<and> canon (snd c))"

lemma payload_key_size: "key_canon b \<Longrightarrow> length (payload_of b) = key_size (bl_bytes b)"
  by (auto simp: key_canon_def payload_of_def key_size_def)

lemma payload_value_size:
  "entry_canon e \<Longrightarrow> length (payload_of (snd e)) = value_size (bl_bytes (fst e)) (bl_bytes (snd e))"
  using payload_key_size [of "fst e"] by (auto simp: entry_canon_def payload_of_def [of "snd e"] value_size_def)

definition ref_of :: "gtree \<Rightarrow> child_ref" where
  "ref_of t = \<lparr>cr_min_key = fst (hd (gkvs t)), cr_page_id = groot t\<rparr>"

lemma ref_of_sel [simp]: "cr_min_key (ref_of t) = fst (hd (gkvs t))" "cr_page_id (ref_of t) = groot t"
  by (simp_all add: ref_of_def)

definition forest :: "(nat \<Rightarrow> pview option) \<Rightarrow> nat \<Rightarrow> gtree list \<Rightarrow> bool" where
  "forest v h ts \<longleftrightarrow> (\<forall>t \<in> set ts. tree_at v h t \<and> canon t) \<and> sorted_wrt (<) (map fst (concat (map gkvs ts))) \<and>
     distinct (concat (map gpages ts))"

definition forest_pages :: "gtree list \<Rightarrow> nat set" where
  "forest_pages ts = set (concat (map gpages ts))"

lemma forest_pages_simps [simp]:
  "forest_pages [] = {}" "forest_pages (t # ts) = set (gpages t) \<union> forest_pages ts"
  "forest_pages (ts @ us) = forest_pages ts \<union> forest_pages us"
  by (auto simp: forest_pages_def)

lemma forest_pages_member: "t \<in> set ts \<Longrightarrow> set (gpages t) \<subseteq> forest_pages ts"
  by (auto simp: forest_pages_def)

lemma forest_append:
  "forest v h (ts @ us) \<longleftrightarrow> forest v h ts \<and> forest v h us \<and> forest_pages ts \<inter> forest_pages us = {} \<and>
     (\<forall>x \<in> set (concat (map gkvs ts)). \<forall>y \<in> set (concat (map gkvs us)). fst x < fst y)"
  by (auto simp: forest_def forest_pages_def sorted_wrt_append)

lemma forest_grows:
  assumes "grows crc P s s'" "forest (view crc s) h ts" "forest_pages ts \<inter> avail s = {}"
  shows "forest (view crc s') h ts"
  using assms(2,3) tree_at_grows [OF assms(1)] forest_pages_member [of _ ts] by (fastforce simp: forest_def)


subsection \<open>Leaves\<close>

lemma leaf_cell_size: "length (leaf_cell e) = 6 + length (payload_of (fst e)) + length (payload_of (snd e))"
  by (simp add: leaf_cell_def)

lemma leaf_cell_ne [simp]: "leaf_cell e \<noteq> []" "[] \<noteq> leaf_cell e"
  using leaf_cell_size [of e] by auto

lemma rmapM_map: "rmapM f (map g xs) = rmapM (\<lambda>x. f (g x)) xs"
  by (induction xs) simp_all

lemma encode_leaf_cells:
  assumes "leaf_ok (view crc s) es" "live crc s"
  shows "rmapM encode_leaf_cell (map entry_of es) = Inr (map leaf_cell es)"
proof -
  have "encode_leaf_cell (entry_of e) = Inr (leaf_cell e)" if "e \<in> set es" for e
    using assms that blob_ids_ok [of crc s 1048576 "snd e"]
    by (intro encode_leaf_cell_of) (auto simp: leaf_ok_def blob_at_def)
  then have "rmapM (\<lambda>e. encode_leaf_cell (entry_of e)) es = Inr (map leaf_cell es)" by (rule rmapM_total)
  then show ?thesis by (simp add: rmapM_map)
qed

lemma commit_leaf_store:
  "es \<noteq> [] \<Longrightarrow> commit_leaf_with_cells crc (map entry_of es) cells =
     sbind (store_page crc PkLeaf (insert_cells crc cells))
       (\<lambda>page_id. sret \<lparr>cr_min_key = bl_bytes (fst (hd es)), cr_page_id = page_id\<rparr>)"
  by (cases es) (simp_all add: commit_leaf_with_cells_def store_page_def sbind_assoc split_def)

definition entries_ok :: "(nat \<Rightarrow> pview option) \<Rightarrow> (blob \<times> blob) list \<Rightarrow> bool" where
  "entries_ok v es \<longleftrightarrow> leaf_ok v es \<and> (\<forall>e \<in> set es. entry_canon e) \<and> distinct (concat (map entry_pages es))"

lemma leaf_ok_grows:
  assumes "grows crc P s s'" "leaf_ok (view crc s) es" "set (concat (map entry_pages es)) \<inter> avail s = {}"
  shows "leaf_ok (view crc s') es"
proof -
  have "blob_at (view crc s') 4096 (fst e) \<and> blob_at (view crc s') 1048576 (snd e)" if e: "e \<in> set es" for e
    using assms(2,3) e
    by (intro conjI; intro blob_at_grows [OF assms(1)]) (fastforce simp: leaf_ok_def entry_pages_def)+
  then show ?thesis using assms(2) by (simp add: leaf_ok_def)
qed

lemma writes_leaf_cells:
  assumes es: "entries_ok (view crc s) es" and used: "set (concat (map entry_pages es)) \<inter> avail s = {}"
    and fit: "cells_total (map leaf_cell es) \<le> 4052" and live: "live crc s"
  shows "writes crc 1 s (commit_leaf_with_cells crc (map entry_of es) (map leaf_cell es))
    (\<lambda>c P s'. \<exists>i. c = ref_of (GLeaf i es) \<and> P = {i} \<and> forest (view crc s') 1 [GLeaf i es])"
proof -
  have ne: "es \<noteq> []" and ok: "leaf_ok (view crc s) es" using es by (simp_all add: entries_ok_def leaf_ok_def)
  have room: "cells_room (map leaf_cell es)"
    using fit by (auto simp: cells_room_fit cells_fit_iff)
  have "writes crc 1 s (store_page crc PkLeaf (insert_cells crc (map leaf_cell es)))
      (\<lambda>pid P s'. P = {pid} \<and> view crc s' pid = Some (PkLeaf, None, map leaf_cell es))"
    by (rule writes_store_page [OF _ room])
       (use insert_cells_image [of PkLeaf _ None "[]" "map leaf_cell es"] room in \<open>auto simp: page_args_def\<close>)
  then have "writes crc (1 + 0) s (sbind (store_page crc PkLeaf (insert_cells crc (map leaf_cell es)))
      (\<lambda>page_id. sret \<lparr>cr_min_key = bl_bytes (fst (hd es)), cr_page_id = page_id\<rparr>))
    (\<lambda>c P s'. \<exists>i. c = ref_of (GLeaf i es) \<and> P = {i} \<and> forest (view crc s') 1 [GLeaf i es])"
  proof (rule writes_bind)
    fix i P s' assume g: "grows crc P s s'" and i: "P = {i} \<and> view crc s' i = Some (PkLeaf, None, map leaf_cell es)"
    have "i \<in> avail s" using g i by (auto simp: grows_def)
    then have "i \<notin> set (concat (map entry_pages es))" using used by blast
    then have "forest (view crc s') 1 [GLeaf i es]"
      using es i leaf_ok_grows [OF g ok used] by (simp add: forest_def entries_ok_def leaf_ok_def comp_def)
    moreover have "\<lparr>cr_min_key = bl_bytes (fst (hd es)), cr_page_id = i\<rparr> = ref_of (GLeaf i es)"
      using ne by (simp add: ref_of_def hd_map)
    ultimately show "writes crc 0 s' (sret \<lparr>cr_min_key = bl_bytes (fst (hd es)), cr_page_id = i\<rparr>)
        (\<lambda>c P' s''. P \<inter> P' = {} \<longrightarrow> grows crc P' s' s'' \<longrightarrow>
          (\<exists>i. c = ref_of (GLeaf i es) \<and> P \<union> P' = {i} \<and> forest (view crc s'') 1 [GLeaf i es]))"
      using i by (auto intro!: writes_pure)
  qed
  then show ?thesis by (simp add: commit_leaf_store [OF ne])
qed

lemma writes_leaf:
  assumes "entries_ok (view crc s) es" "set (concat (map entry_pages es)) \<inter> avail s = {}"
    and "cells_total (map leaf_cell es) \<le> 4052" "live crc s"
  shows "writes crc 1 s (commit_leaf crc (map entry_of es))
    (\<lambda>c P s'. \<exists>i. c = ref_of (GLeaf i es) \<and> P = {i} \<and> forest (view crc s') 1 [GLeaf i es])"
  using writes_leaf_cells [OF assms] encode_leaf_cells [of crc s es] assms
  by (simp add: commit_leaf_def cells_fit_iff entries_ok_def)

text \<open>A split keeps every entry.\<close>

lemma entries_ok_append:
  "entries_ok v (es @ fs) \<Longrightarrow> es \<noteq> [] \<Longrightarrow> fs \<noteq> [] \<Longrightarrow> entries_ok v es \<and> entries_ok v fs"
  by (auto simp: entries_ok_def leaf_ok_def sorted_wrt_append)

lemma writes_leaf_pair:
  assumes es: "entries_ok (view crc s) (es @ fs)" "es \<noteq> []" "fs \<noteq> []"
    and used: "set (concat (map entry_pages (es @ fs))) \<inter> avail s = {}"
    and fit: "cells_total (map leaf_cell es) \<le> 4052" "cells_total (map leaf_cell fs) \<le> 4052" and live: "live crc s"
  shows "writes crc 2 s (sbind (commit_leaf crc (map entry_of es)) (\<lambda>l. sbind (commit_leaf crc (map entry_of fs)) (\<lambda>r. sret [l, r])))
    (\<lambda>cs P s'. \<exists>i j. cs = map ref_of [GLeaf i es, GLeaf j fs] \<and> P = {i, j} \<and> forest (view crc s') 1 [GLeaf i es, GLeaf j fs])"
proof -
  have parts: "entries_ok (view crc s) es" "entries_ok (view crc s) fs" using entries_ok_append [OF es] by simp_all
  have used': "set (concat (map entry_pages es)) \<inter> avail s = {}" "set (concat (map entry_pages fs)) \<inter> avail s = {}"
    using used by auto
  have "writes crc (1 + (1 + 0)) s (sbind (commit_leaf crc (map entry_of es)) (\<lambda>l. sbind (commit_leaf crc (map entry_of fs)) (\<lambda>r. sret [l, r])))
    (\<lambda>cs P s'. \<exists>i j. cs = map ref_of [GLeaf i es, GLeaf j fs] \<and> P = {i, j} \<and> forest (view crc s') 1 [GLeaf i es, GLeaf j fs])"
  proof (rule writes_bind [OF writes_leaf [OF parts(1) used'(1) fit(1) live]])
    fix l P s' assume g: "grows crc P s s'" "live crc s'"
      and "\<exists>i. l = ref_of (GLeaf i es) \<and> P = {i} \<and> forest (view crc s') 1 [GLeaf i es]"
    then obtain i where i: "l = ref_of (GLeaf i es)" "P = {i}" "forest (view crc s') 1 [GLeaf i es]" by blast
    have ok': "entries_ok (view crc s') fs"
      using parts(2) leaf_ok_grows [OF g(1) _ used'(2)] by (simp add: entries_ok_def)
    have used'': "set (concat (map entry_pages fs)) \<inter> avail s' = {}" by (rule grows_fresh [OF g(1) used'(2)])
    show "writes crc (1 + 0) s' (sbind (commit_leaf crc (map entry_of fs)) (\<lambda>r. sret [l, r]))
      (\<lambda>cs P' s''. P \<inter> P' = {} \<longrightarrow> grows crc P' s' s'' \<longrightarrow>
        (\<exists>i j. cs = map ref_of [GLeaf i es, GLeaf j fs] \<and> P \<union> P' = {i, j} \<and> forest (view crc s'') 1 [GLeaf i es, GLeaf j fs]))"
    proof (rule writes_bind [OF writes_leaf [OF ok' used'' fit(2) g(2)]])
      fix r P' s'' assume g': "grows crc P' s' s''"
        and "\<exists>j. r = ref_of (GLeaf j fs) \<and> P' = {j} \<and> forest (view crc s'') 1 [GLeaf j fs]"
      then obtain j where j: "r = ref_of (GLeaf j fs)" "P' = {j}" "forest (view crc s'') 1 [GLeaf j fs]" by blast
      have ia: "i \<in> avail s" "i \<notin> avail s'" "j \<in> avail s'" "j \<in> avail s" using g(1) g' i(2) j(2) by (auto simp: grows_def)
      have "forest_pages [GLeaf i es] \<inter> avail s' = {}" using ia grows_fresh [OF g(1) used'(1)] by auto
      then have left: "forest (view crc s'') 1 [GLeaf i es]" by (rule forest_grows [OF g' i(3)])
      have dist: "distinct (concat (map entry_pages es) @ concat (map entry_pages fs))"
        and ord: "sorted_wrt (<) (map (\<lambda>e. bl_bytes (fst e)) es @ map (\<lambda>e. bl_bytes (fst e)) fs)"
        using es(1) by (simp_all add: entries_ok_def leaf_ok_def)
      have "i \<noteq> j" "i \<notin> set (concat (map entry_pages fs))" "j \<notin> set (concat (map entry_pages es))"
        using ia used' by auto
      then have "forest (view crc s'') 1 ([GLeaf i es] @ [GLeaf j fs])"
        unfolding forest_append using left j(3) dist ord
        by (auto simp: sorted_wrt_append simp del: set_concat)
      then show "writes crc 0 s'' (sret [l, r]) (\<lambda>cs Q s'''. P' \<inter> Q = {} \<longrightarrow> grows crc Q s'' s''' \<longrightarrow>
          P \<inter> (P' \<union> Q) = {} \<longrightarrow> grows crc (P' \<union> Q) s' s''' \<longrightarrow>
          (\<exists>i j. cs = map ref_of [GLeaf i es, GLeaf j fs] \<and> P \<union> (P' \<union> Q) = {i, j} \<and> forest (view crc s''') 1 [GLeaf i es, GLeaf j fs]))"
        using i j by (auto intro!: writes_pure)
    qed
  qed
  then show ?thesis by (simp add: numeral_2_eq_2)
qed


text \<open>The subtrees that replace a node: the content, and pages that are new or were in \<open>old\<close>.\<close>

definition replaced ::
    "nat \<Rightarrow> (bytes \<times> bytes) list \<Rightarrow> nat set \<Rightarrow> (nat \<Rightarrow> pview option) \<Rightarrow> nat set \<Rightarrow> gtree list \<Rightarrow> bool" where
  "replaced h kvs old v P ts \<longleftrightarrow> forest v h ts \<and> concat (map gkvs ts) = kvs \<and> forest_pages ts \<subseteq> P \<union> old \<and>
     (\<forall>t \<in> set ts. bushy t)"

lemma writes_leaf_level:
  assumes es: "entries_ok (view crc s) es" and used: "set (concat (map entry_pages es)) \<inter> avail s = {}"
    and small: "\<forall>e \<in> set es. 4 + length (leaf_cell e) \<le> 2026" and total: "cells_total (map leaf_cell es) \<le> 4052 + 2026"
    and live: "live crc s"
  shows "writes crc 2 s (commit_leaf_level crc (map entry_of es))
    (\<lambda>cs P s'. \<exists>ts. cs = map ref_of ts \<and> length ts \<in> {1, 2} \<and>
       replaced 1 (map kv_of es) (set (concat (map entry_pages es))) (view crc s') P ts)"
proof -
  have ne: "es \<noteq> []" and enc: "rmapM encode_leaf_cell (map entry_of es) = Inr (map leaf_cell es)"
    using es encode_leaf_cells [of crc s es] live by (simp_all add: entries_ok_def leaf_ok_def)
  show ?thesis
  proof (cases "cells_fit (map leaf_cell es)")
    case True
    have "writes crc (1 + 0) s (sbind (commit_leaf_with_cells crc (map entry_of es) (map leaf_cell es)) (\<lambda>c. sret [c]))
      (\<lambda>cs P s'. \<exists>ts. cs = map ref_of ts \<and> length ts \<in> {1, 2} \<and>
         replaced 1 (map kv_of es) (set (concat (map entry_pages es))) (view crc s') P ts)"
    proof (rule writes_bind [OF writes_leaf_cells [OF es used]])
      fix c P s' assume "\<exists>i. c = ref_of (GLeaf i es) \<and> P = {i} \<and> forest (view crc s') 1 [GLeaf i es]"
      then obtain i where i: "c = ref_of (GLeaf i es)" "P = {i}" "forest (view crc s') 1 [GLeaf i es]" by blast
      have "replaced 1 (map kv_of es) (set (concat (map entry_pages es))) (view crc s') P [GLeaf i es]"
        using i by (auto simp: replaced_def)
      then show "writes crc 0 s' (sret [c]) (\<lambda>cs P' s''. P \<inter> P' = {} \<longrightarrow> grows crc P' s' s'' \<longrightarrow>
          (\<exists>ts. cs = map ref_of ts \<and> length ts \<in> {1, 2} \<and>
            replaced 1 (map kv_of es) (set (concat (map entry_pages es))) (view crc s'') (P \<union> P') ts))"
        using i(1) by (intro writes_pure impI exI [of _ "[GLeaf i es]"]) simp
    qed (use True live in \<open>simp_all add: cells_fit_iff\<close>)
    then show ?thesis
      using writes_mono [of crc 1 s _ _ 2] ne True enc by (simp add: commit_leaf_level_def)
  next
    case False
    obtain k where k: "choose_split (map leaf_cell es) = Some k" "1 \<le> k" "k < length es"
      "cells_total (map leaf_cell (take k es)) \<le> 4052" "cells_total (map leaf_cell (drop k es)) \<le> 4052"
      using choose_split_balanced [of "map leaf_cell es" 2026] small total False by (auto simp: cells_fit_iff take_map drop_map)
    let ?l = "take k es" and ?r = "drop k es"
    have parts: "?l \<noteq> []" "?r \<noteq> []" "?l @ ?r = es" using k by auto
    have all: "entries_ok (view crc s) (?l @ ?r)" "set (concat (map entry_pages (?l @ ?r))) \<inter> avail s = {}"
      using es used by (simp_all only: parts(3))
    have "writes crc 2 s (sbind (commit_leaf crc (map entry_of ?l)) (\<lambda>l. sbind (commit_leaf crc (map entry_of ?r)) (\<lambda>r. sret [l, r])))
      (\<lambda>cs P s'. \<exists>ts. cs = map ref_of ts \<and> length ts \<in> {1, 2} \<and>
         replaced 1 (map kv_of es) (set (concat (map entry_pages es))) (view crc s') P ts)"
    proof (rule writes_mono [OF writes_leaf_pair [OF all(1) parts(1,2) all(2) k(4,5) live] order_refl])
      fix cs P s' assume "\<exists>i j. cs = map ref_of [GLeaf i ?l, GLeaf j ?r] \<and> P = {i, j} \<and> forest (view crc s') 1 [GLeaf i ?l, GLeaf j ?r]"
      then obtain i j where ij: "cs = map ref_of [GLeaf i ?l, GLeaf j ?r]" "P = {i, j}" "forest (view crc s') 1 [GLeaf i ?l, GLeaf j ?r]"
        by blast
      have "concat (map gkvs [GLeaf i ?l, GLeaf j ?r]) = map kv_of (?l @ ?r)"
        "forest_pages [GLeaf i ?l, GLeaf j ?r] = {i, j} \<union> set (concat (map entry_pages (?l @ ?r)))"
        by (simp_all only: forest_pages_simps map_append concat_append set_append) auto
      then have "replaced 1 (map kv_of es) (set (concat (map entry_pages es))) (view crc s') P [GLeaf i ?l, GLeaf j ?r]"
        using ij(2,3) unfolding parts(3) by (simp add: replaced_def)
      then show "\<exists>ts. cs = map ref_of ts \<and> length ts \<in> {1, 2} \<and>
          replaced 1 (map kv_of es) (set (concat (map entry_pages es))) (view crc s') P ts"
        using ij(1) by (intro exI [of _ "[GLeaf i ?l, GLeaf j ?r]"]) simp
    qed
    then show ?thesis
      using ne False enc k(1) by (simp add: commit_leaf_level_def take_map drop_map)
  qed
qed

subsection \<open>Internal nodes\<close>

definition gmin :: "gtree \<Rightarrow> bytes" where
  "gmin t = fst (hd (gkvs t))"

definition ref_ok :: "gtree \<Rightarrow> bool" where
  "ref_ok t \<longleftrightarrow> length (gmin t) \<le> 4096 \<and> 2 \<le> groot t \<and> groot t \<le> u64_max"

lemma tree_at_min_key: "tree_at v h t \<Longrightarrow> length (gmin t) \<le> 4096"
proof (induction v h t rule: tree_at.induct)
  case (1 v h i es)
  then have "es \<noteq> []" "blob_at v 4096 (fst (hd es))" by (simp_all add: leaf_ok_def)
  then show ?case by (simp add: gmin_def hd_map blob_at_def)
next
  case (2 v h i cs)
  then have cs: "cs \<noteq> []" "\<forall>c \<in> set cs. gkvs (snd c) \<noteq> []" "length (gmin (snd (hd cs))) \<le> 4096"
    using tree_at_ne by (auto simp: node_ok_def)
  then show ?case using bounds_of_node(1) [OF cs(1,2), of i] by (simp add: gmin_def)
qed

lemma tree_at_ref_ok: "tree_at (view crc s) h t \<Longrightarrow> live crc s \<Longrightarrow> ref_ok t"
  using tree_at_min_key tree_at_ids [OF _ groot_in_gpages, of "view crc s" h t] view_id [of crc s "groot t"]
  by (auto simp: ref_ok_def)

lemma forest_refs_ok: "forest (view crc s) h ts \<Longrightarrow> live crc s \<Longrightarrow> \<forall>t \<in> set ts. ref_ok t"
  using tree_at_ref_ok by (auto simp: forest_def)

lemma ref_of_gmin: "cr_min_key (ref_of t) = gmin t"
  by (simp add: gmin_def)

definition node_blobs :: "(nat \<Rightarrow> pview option) \<Rightarrow> gtree list \<Rightarrow> blob list \<Rightarrow> bool" where
  "node_blobs v ts bs \<longleftrightarrow> map bl_bytes bs = map gmin ts \<and> distinct (concat (map bl_pages bs)) \<and>
     (\<forall>b \<in> set bs. blob_at v 4096 b \<and> key_canon b)"

lemma writes_node_keys:
  assumes "\<forall>t \<in> set ts. ref_ok t" "live crc s"
  shows "writes crc (2 * length ts) s (smapM (\<lambda>child.
       sbind (store_key crc (cr_min_key child)) (\<lambda>key. slift (encode_internal_cell_stored key (cr_page_id child)))) (map ref_of ts))
     (\<lambda>cells P s'. \<exists>bs. node_blobs (view crc s') ts bs \<and> cells = map node_cell (zip bs ts) \<and> P = set (concat (map bl_pages bs)))"
  using assms
proof (induction ts arbitrary: s)
  case Nil
  then show ?case by (auto simp: node_blobs_def intro!: writes_pure)
next
  case (Cons t ts)
  let ?step = "\<lambda>child. sbind (store_key crc (cr_min_key child)) (\<lambda>key. slift (encode_internal_cell_stored key (cr_page_id child)))"
  have t: "length (cr_min_key (ref_of t)) \<le> 4096" "2 \<le> groot t" using Cons.prems(1) by (simp_all add: ref_ok_def gmin_def)
  have "writes crc (2 + (2 * length ts + 0)) s
      (sbind (store_key crc (cr_min_key (ref_of t))) (\<lambda>key. sbind (slift (encode_internal_cell_stored key (groot t)))
         (\<lambda>cell. sbind (smapM ?step (map ref_of ts)) (\<lambda>cells. sret (cell # cells)))))
     (\<lambda>cells P s'. \<exists>bs. node_blobs (view crc s') (t # ts) bs \<and> cells = map node_cell (zip bs (t # ts)) \<and> P = set (concat (map bl_pages bs)))"
  proof (rule writes_bind [OF writes_store_key [OF t(1) Cons.prems(2)]])
    fix key P s' assume g: "grows crc P s s'" "live crc s'"
      and "\<exists>b. key = stored_key_of b \<and> bl_bytes b = cr_min_key (ref_of t) \<and> P = set (bl_pages b) \<and> blob_at (view crc s') 4096 b \<and> key_canon b"
    then obtain b where b: "key = stored_key_of b" "bl_bytes b = gmin t" "P = set (bl_pages b)" "blob_at (view crc s') 4096 b" "key_canon b"
      by (auto simp: gmin_def)
    have enc: "encode_internal_cell_stored key (groot t) = Inr (node_cell (b, t))"
      using encode_internal_cell_stored_of [of b "groot t"] b(1,2) t by (simp add: node_cell_def gmin_def)
    have dist: "distinct (bl_pages b)" using b(4) by (cases "bl_pages b = []") (simp_all add: blob_at_def)
    have "writes crc (2 * length ts + 0) s' (sbind (smapM ?step (map ref_of ts)) (\<lambda>cells. sret (node_cell (b, t) # cells)))
       (\<lambda>cells P' s''. P \<inter> P' = {} \<longrightarrow> grows crc P' s' s'' \<longrightarrow>
          (\<exists>bs. node_blobs (view crc s'') (t # ts) bs \<and> cells = map node_cell (zip bs (t # ts)) \<and> P \<union> P' = set (concat (map bl_pages bs))))"
    proof (rule writes_bind [OF Cons.IH])
      fix cells P' s'' assume g': "grows crc P' s' s''"
        and "\<exists>bs. node_blobs (view crc s'') ts bs \<and> cells = map node_cell (zip bs ts) \<and> P' = set (concat (map bl_pages bs))"
      then obtain bs where bs: "node_blobs (view crc s'') ts bs" "cells = map node_cell (zip bs ts)" "P' = set (concat (map bl_pages bs))" by blast
      have "P \<inter> avail s' = {}" by (rule grows_new [OF g(1)])
      then have "blob_at (view crc s'') 4096 b" using blob_at_grows [OF g' b(4)] b(3) by simp
      moreover have "P \<inter> P' = {}" by (rule grows_disjoint [OF g(1) g'])
      ultimately have "node_blobs (view crc s'') (t # ts) (b # bs)"
        using bs b dist by (simp add: node_blobs_def del: set_concat)
      then show "writes crc 0 s'' (sret (node_cell (b, t) # cells)) (\<lambda>cells Q s'''. P' \<inter> Q = {} \<longrightarrow> grows crc Q s'' s''' \<longrightarrow>
          P \<inter> (P' \<union> Q) = {} \<longrightarrow> grows crc (P' \<union> Q) s' s''' \<longrightarrow>
          (\<exists>bs. node_blobs (view crc s''') (t # ts) bs \<and> cells = map node_cell (zip bs (t # ts)) \<and> P \<union> (P' \<union> Q) = set (concat (map bl_pages bs))))"
        using bs(2,3) b(3) by (intro writes_pure impI exI [of _ "b # bs"]) simp
    qed (use Cons.prems(1) g(2) in auto)
    then show "writes crc (2 * length ts + 0) s' (sbind (slift (encode_internal_cell_stored key (groot t)))
         (\<lambda>cell. sbind (smapM ?step (map ref_of ts)) (\<lambda>cells. sret (cell # cells))))
       (\<lambda>cells P' s''. P \<inter> P' = {} \<longrightarrow> grows crc P' s' s'' \<longrightarrow>
          (\<exists>bs. node_blobs (view crc s'') (t # ts) bs \<and> cells = map node_cell (zip bs (t # ts)) \<and> P \<union> P' = set (concat (map bl_pages bs))))"
      by (simp only: enc sbind_pure)
  qed
  then show ?case by (simp add: sbind_assoc)
qed

text \<open>The cells that decide whether a node fits have the lengths of the cells that are written.\<close>

definition child_size :: "gtree \<Rightarrow> nat" where
  "child_size t = 14 + key_size (gmin t)"

lemma preview_cells:
  assumes "\<forall>t \<in> set ts. ref_ok t"
  obtains cells where "rmapM encode_internal_cell (map ref_of ts) = Inr cells" "map (\<lambda>c. 4 + length c) cells = map child_size ts"
proof -
  let ?cell = "\<lambda>t. let overflow = length (gmin t) > 4034 in
    le_bytes 2 (if overflow then KEY_OVERFLOW_FLAG OR length (gmin t) else length (gmin t)) @ le_bytes 8 (groot t) @
    (if overflow then le_bytes 8 0 else gmin t)"
  have "encode_internal_cell (ref_of t) = Inr (?cell t)" if "t \<in> set ts" for t
    using assms that
    by (auto simp: encode_internal_cell_def bt_validate_key_def ref_ok_def ref_of_gmin try_u16_def node_consts Let_def
        simp del: le_bytes.simps ref_of_sel(1))
  then have "rmapM (\<lambda>t. encode_internal_cell (ref_of t)) ts = Inr (map ?cell ts)" by (rule rmapM_total)
  moreover have "map (\<lambda>c. 4 + length c) (map ?cell ts) = map child_size ts"
    by (simp add: child_size_def key_size_def Let_def del: le_bytes.simps)
  ultimately show ?thesis using that by (simp add: rmapM_map)
qed

lemma cells_total_sizes: "cells_total cells = sum_list (map (\<lambda>c. 4 + length c) cells)"
  by (induction cells) simp_all

lemma node_cell_sizes:
  assumes "node_blobs v ts bs"
  shows "map (\<lambda>c. 4 + length c) (map node_cell (zip bs ts)) = map child_size ts" "length bs = length ts"
    "map snd (zip bs ts) = ts" "map fst (zip bs ts) = bs"
proof -
  show len: "length bs = length ts" using assms by (metis length_map node_blobs_def)
  show "map snd (zip bs ts) = ts" "map fst (zip bs ts) = bs" using len by simp_all
  have "bl_bytes (bs ! i) = gmin (ts ! i)" if "i < length ts" for i
    using assms that len by (metis node_blobs_def nth_map)
  moreover have "key_canon (bs ! i)" if "i < length ts" for i using assms that len by (simp add: node_blobs_def)
  ultimately show "map (\<lambda>c. 4 + length c) (map node_cell (zip bs ts)) = map child_size ts"
    using len
    by (intro nth_equalityI) (simp_all add: node_cell_def child_cell_def child_size_def payload_key_size)
qed

lemma forest_mins:
  assumes "forest v h ts"
  shows "sorted_wrt (<) (map gmin ts)" "\<forall>t \<in> set ts. gkvs t \<noteq> []"
proof -
  show ne: "\<forall>t \<in> set ts. gkvs t \<noteq> []" using assms tree_at_ne by (auto simp: forest_def)
  have "sorted_wrt (<) (map fst (concat (map gkvs ts)))" using assms by (simp add: forest_def)
  then show "sorted_wrt (<) (map gmin ts)"
    using ne by (induction ts) (auto simp: sorted_wrt_append gmin_def)
qed

lemma gkvs_node: "map snd cs = ts \<Longrightarrow> gkvs (GNode i cs) = concat (map gkvs ts)"
  by (auto simp: comp_def)

lemma ref_of_node:
  assumes "map snd cs = ts" "ts \<noteq> []" "gkvs (hd ts) \<noteq> []"
  shows "ref_of (GNode i cs) = \<lparr>cr_min_key = gmin (hd ts), cr_page_id = i\<rparr>"
  using assms(2,3) unfolding ref_of_def gkvs_node [OF assms(1)] by (cases ts) (simp_all add: gmin_def)

lemma tree_at_node:
  assumes v: "v i = Some (PkInternal, None, map node_cell (zip bs ts))" and bs: "node_blobs v ts bs"
    and ts: "forest v h ts" "ts \<noteq> []" "\<forall>t \<in> set ts. ref_ok t"
    and fresh: "i \<notin> set (concat (map bl_pages bs))" "i \<notin> forest_pages ts" "set (concat (map bl_pages bs)) \<inter> forest_pages ts = {}"
  shows "forest v (Suc h) [GNode i (zip bs ts)]"
proof -
  let ?cs = "zip bs ts"
  note sizes = node_cell_sizes [OF bs]
  have mem: "fst c \<in> set bs" "snd c \<in> set ts" "bl_bytes (fst c) = gmin (snd c)" if c: "c \<in> set ?cs" for c
  proof -
    obtain j where j: "j < length ts" "c = (bs ! j, ts ! j)" using c sizes(2) by (auto simp: set_zip)
    then show "fst c \<in> set bs" "snd c \<in> set ts" using sizes(2) by simp_all
    show "bl_bytes (fst c) = gmin (snd c)" using j bs sizes(2) by (metis fst_conv node_blobs_def nth_map snd_conv)
  qed
  have seps: "map (\<lambda>c. bl_bytes (fst c)) ?cs = map gmin ts"
  proof -
    have "map (\<lambda>c. bl_bytes (fst c)) ?cs = map bl_bytes (map fst ?cs)" by simp
    then show ?thesis using bs sizes(4) by (simp add: node_blobs_def)
  qed
  have h: "0 < h" using ts(1,2) tree_at_pos by (cases ts) (auto simp: forest_def)
  have "node_ok v ?cs"
    using mem ts(2,3) bs sizes(2) seps forest_mins(1) [OF ts(1)]
    by (auto simp: node_ok_def node_blobs_def ref_ok_def dest: mem)
  moreover have "\<forall>c \<in> set ?cs. tree_at v h (snd c) \<and> bl_bytes (fst c) = fst (hd (gkvs (snd c)))"
    using mem ts(1) by (auto simp: forest_def gmin_def)
  moreover have "\<forall>c \<in> set ?cs. key_canon (fst c) \<and> canon (snd c)"
    using mem ts(1) bs by (auto simp: forest_def node_blobs_def)
  moreover have "distinct (gpages (GNode i ?cs))"
  proof -
    have a: "concat (map (\<lambda>c. bl_pages (fst c)) ?cs) = concat (map bl_pages bs)"
      "concat (map (\<lambda>c. gpages (snd c)) ?cs) = concat (map gpages ts)"
      using sizes(3,4) by (metis (no_types, lifting) list.map_comp comp_apply map_eq_conv)+
    have s: "set (concat (map (\<lambda>c. bl_pages (fst c) @ gpages (snd c)) ?cs)) = set (concat (map bl_pages bs)) \<union> forest_pages ts"
      using set_concat_append [of "\<lambda>c. bl_pages (fst c)" "\<lambda>c. gpages (snd c)" ?cs] a by (simp add: forest_pages_def)
    have "distinct (concat (map bl_pages bs) @ concat (map gpages ts))"
      using bs ts(1) fresh(3) by (simp add: node_blobs_def forest_def forest_pages_def del: set_concat)
    then have "distinct (concat (map (\<lambda>c. bl_pages (fst c) @ gpages (snd c)) ?cs))"
      unfolding distinct_concat_append a .
    then show ?thesis using s fresh(1,2) by (simp del: set_concat)
  qed
  moreover have "sorted_wrt (<) (map fst (gkvs (GNode i ?cs)))"
    using ts(1) unfolding gkvs_node [OF sizes(3)] by (simp add: forest_def)
  ultimately show ?thesis
    unfolding forest_def using v h by (simp del: gpages.simps gkvs.simps)
qed

lemma node_pages: 
  assumes "length bs = length ts"
  shows "forest_pages [GNode i (zip bs ts)] = {i} \<union> set (concat (map bl_pages bs)) \<union> forest_pages ts"
proof -
  have z: "map snd (zip bs ts) = ts" "map fst (zip bs ts) = bs" using assms by simp_all
  have "concat (map (\<lambda>c. bl_pages (fst c)) (zip bs ts)) = concat (map bl_pages bs)"
    "concat (map (\<lambda>c. gpages (snd c)) (zip bs ts)) = concat (map gpages ts)"
    using z by (metis (no_types, lifting) list.map_comp comp_apply map_eq_conv)+
  then show ?thesis
    using set_concat_append [of "\<lambda>c. bl_pages (fst c)" "\<lambda>c. gpages (snd c)" "zip bs ts"]
    by (simp add: forest_pages_def del: set_concat)
qed

lemma list_ex_zip_lengths:
  "map (\<lambda>c. 4 + length c) xs = map (\<lambda>c. 4 + length c) ys \<Longrightarrow> \<not> list_ex (\<lambda>(a, b). length a \<noteq> length b) (zip xs ys)"
proof (induction xs arbitrary: ys)
  case (Cons x xs)
  then show ?case by (cases ys) auto
qed simp

lemma commit_internal_store:
  "ts \<noteq> [] \<Longrightarrow> length preview = length ts \<Longrightarrow> cells_fit preview \<Longrightarrow>
   commit_internal_with_cells crc (map ref_of ts) preview =
     sbind (smapM (\<lambda>child. sbind (store_key crc (cr_min_key child)) (\<lambda>key.
                     slift (encode_internal_cell_stored key (cr_page_id child)))) (map ref_of ts)) (\<lambda>cells.
       if list_ex (\<lambda>(actual, preview). length actual \<noteq> length preview) (zip cells preview) \<or> \<not> cells_fit cells
       then sfail (BtCorruption 0)
       else sbind (store_page crc PkInternal (insert_cells crc cells))
         (\<lambda>page_id. sret \<lparr>cr_min_key = gmin (hd ts), cr_page_id = page_id\<rparr>))"
  by (cases ts) (simp_all add: commit_internal_with_cells_def store_page_def sbind_assoc split_def gmin_def cong: if_cong)

lemma writes_node_cells:
  assumes ts: "forest (view crc s) h ts" "ts \<noteq> []" and used: "forest_pages ts \<inter> avail s = {}" and live: "live crc s"
    and preview: "map (\<lambda>c. 4 + length c) preview = map child_size ts" and fit: "sum_list (map child_size ts) \<le> 4052"
  shows "writes crc (2 * length ts + 1) s (commit_internal_with_cells crc (map ref_of ts) preview)
    (\<lambda>c P s'. \<exists>i cs. c = ref_of (GNode i cs) \<and> map snd cs = ts \<and> forest (view crc s') (Suc h) [GNode i cs] \<and>
       forest_pages [GNode i cs] \<subseteq> P \<union> forest_pages ts)"
proof -
  have refs: "\<forall>t \<in> set ts. ref_ok t" by (rule forest_refs_ok [OF ts(1) live])
  have len: "length preview = length ts" using preview by (metis length_map)
  have fits: "cells_fit preview" using preview fit by (simp add: cells_fit_iff cells_total_sizes)
  have "writes crc (2 * length ts + (1 + 0)) s (commit_internal_with_cells crc (map ref_of ts) preview)
    (\<lambda>c P s'. \<exists>i cs. c = ref_of (GNode i cs) \<and> map snd cs = ts \<and> forest (view crc s') (Suc h) [GNode i cs] \<and>
       forest_pages [GNode i cs] \<subseteq> P \<union> forest_pages ts)"
    unfolding commit_internal_store [OF ts(2) len fits]
  proof (rule writes_bind [OF writes_node_keys [OF refs live]])
    fix cells P s' assume g: "grows crc P s s'" "live crc s'"
      and "\<exists>bs. node_blobs (view crc s') ts bs \<and> cells = map node_cell (zip bs ts) \<and> P = set (concat (map bl_pages bs))"
    then obtain bs where bs: "node_blobs (view crc s') ts bs" "cells = map node_cell (zip bs ts)" "P = set (concat (map bl_pages bs))" by blast
    note sizes = node_cell_sizes [OF bs(1)]
    have same: "\<not> list_ex (\<lambda>(actual, preview). length actual \<noteq> length preview) (zip cells preview)"
      using sizes(1) preview bs(2) by (intro list_ex_zip_lengths) simp
    have room: "cells_fit cells" using sizes(1) fit bs(2) by (simp add: cells_fit_iff cells_total_sizes del: map_map)
    have "cells_room cells" using room bs(2) by (auto simp: cells_room_fit node_cell_def child_cell_def simp del: le_bytes.simps dest: arg_cong [of _ _ length])
    then have store: "writes crc 1 s' (store_page crc PkInternal (insert_cells crc cells))
        (\<lambda>pid P s''. P = {pid} \<and> view crc s'' pid = Some (PkInternal, None, cells))"
      by (intro writes_store_page) (use insert_cells_image [of PkInternal _ None "[]" cells] in \<open>auto simp: page_args_def\<close>)
    have "writes crc (1 + 0) s' (sbind (store_page crc PkInternal (insert_cells crc cells))
         (\<lambda>page_id. sret \<lparr>cr_min_key = gmin (hd ts), cr_page_id = page_id\<rparr>))
       (\<lambda>c P' s''. P \<inter> P' = {} \<longrightarrow> grows crc P' s' s'' \<longrightarrow>
          (\<exists>i cs. c = ref_of (GNode i cs) \<and> map snd cs = ts \<and> forest (view crc s'') (Suc h) [GNode i cs] \<and>
             forest_pages [GNode i cs] \<subseteq> (P \<union> P') \<union> forest_pages ts))"
    proof (rule writes_bind [OF store])
      fix i P' s'' assume g': "grows crc P' s' s''" and i: "P' = {i} \<and> view crc s'' i = Some (PkInternal, None, cells)"
      have used': "forest_pages ts \<inter> avail s' = {}" by (rule grows_fresh [OF g(1) used])
      have "P \<inter> avail s' = {}" by (rule grows_new [OF g(1)])
      then have "\<forall>b \<in> set bs. blob_at (view crc s'') 4096 b"
        using bs(1,3) blob_at_grows [OF g'] by (fastforce simp: node_blobs_def)
      then have blobs: "node_blobs (view crc s'') ts bs" using bs(1) by (simp add: node_blobs_def)
      have trees: "forest (view crc s'') h ts" by (rule forest_grows [OF g' forest_grows [OF g(1) ts(1) used] used'])
      have ia: "i \<in> avail s'" using g' i by (auto simp: grows_def)
      have "forest (view crc s'') (Suc h) [GNode i (zip bs ts)]"
      proof (rule tree_at_node [OF _ blobs trees ts(2) refs])
        show "view crc s'' i = Some (PkInternal, None, map node_cell (zip bs ts))" using i bs(2) by simp
        show "i \<notin> set (concat (map bl_pages bs))" using ia \<open>P \<inter> avail s' = {}\<close> bs(3) by blast
        show "i \<notin> forest_pages ts" using ia used' by blast
        show "set (concat (map bl_pages bs)) \<inter> forest_pages ts = {}" using grows_used [OF g(1) used] bs(3) by blast
      qed
      moreover have "forest_pages [GNode i (zip bs ts)] = {i} \<union> P \<union> forest_pages ts"
        using node_pages [OF sizes(2)] bs(3) by simp
      moreover have "\<lparr>cr_min_key = gmin (hd ts), cr_page_id = i\<rparr> = ref_of (GNode i (zip bs ts))"
        using ref_of_node [OF sizes(3) ts(2), of i] forest_mins(2) [OF ts(1)] ts(2) by simp
      ultimately show "writes crc 0 s'' (sret \<lparr>cr_min_key = gmin (hd ts), cr_page_id = i\<rparr>)
          (\<lambda>c Q s'''. P' \<inter> Q = {} \<longrightarrow> grows crc Q s'' s''' \<longrightarrow> P \<inter> (P' \<union> Q) = {} \<longrightarrow> grows crc (P' \<union> Q) s' s''' \<longrightarrow>
            (\<exists>i cs. c = ref_of (GNode i cs) \<and> map snd cs = ts \<and> forest (view crc s''') (Suc h) [GNode i cs] \<and>
               forest_pages [GNode i cs] \<subseteq> P \<union> (P' \<union> Q) \<union> forest_pages ts))"
        using i sizes(3) by (intro writes_pure impI exI [of _ i] exI [of _ "zip bs ts"]) auto
    qed
    then show "writes crc (1 + 0) s' (if list_ex (\<lambda>(actual, preview). length actual \<noteq> length preview) (zip cells preview) \<or> \<not> cells_fit cells
         then sfail (BtCorruption 0)
         else sbind (store_page crc PkInternal (insert_cells crc cells)) (\<lambda>page_id. sret \<lparr>cr_min_key = gmin (hd ts), cr_page_id = page_id\<rparr>))
       (\<lambda>c P' s''. P \<inter> P' = {} \<longrightarrow> grows crc P' s' s'' \<longrightarrow>
          (\<exists>i cs. c = ref_of (GNode i cs) \<and> map snd cs = ts \<and> forest (view crc s'') (Suc h) [GNode i cs] \<and>
             forest_pages [GNode i cs] \<subseteq> (P \<union> P') \<union> forest_pages ts))"
      using same room by simp
  qed
  then show ?thesis by simp
qed

lemma forest_refs_valid:
  assumes "forest (view crc s) h ts" "ts \<noteq> []" "live crc s"
  shows "validate_child_refs (map ref_of ts) = Inr ()"
  using forest_refs_ok [OF assms(1,3)] forest_mins(1) [OF assms(1)] assms(2)
  by (intro validate_child_refs_of) (auto simp: ref_ok_def gmin_def [abs_def] comp_def)

lemma few_children:
  assumes "sum_list (map child_size ts) \<le> 14 * n"
  shows "length ts \<le> n"
proof -
  have "14 * length ts \<le> sum_list (map child_size ts)" by (induction ts) (simp_all add: child_size_def)
  then show ?thesis using assms by linarith
qed

text \<open>\<open>raised ts t\<close>: the node \<open>t\<close> has the subtrees \<open>ts\<close> as its children.\<close>

definition raised :: "nat \<Rightarrow> (nat \<Rightarrow> pview option) \<Rightarrow> gtree list \<Rightarrow> nat set \<Rightarrow> gtree \<Rightarrow> bool" where
  "raised h v ts P t \<longleftrightarrow> (\<exists>i cs. t = GNode i cs \<and> map snd cs = ts) \<and> forest v (Suc h) [t] \<and> forest_pages [t] \<subseteq> P \<union> forest_pages ts"

lemma raised_content: "raised h v ts P t \<Longrightarrow> gkvs t = concat (map gkvs ts)"
  using gkvs_node by (auto simp: raised_def simp del: gkvs.simps)

lemma raised_bushy: "raised h v ts P t \<Longrightarrow> bushy t \<longleftrightarrow> 2 \<le> length ts \<and> (\<forall>t \<in> set ts. bushy t)"
  by (auto simp: raised_def)

lemma writes_internal:
  assumes ts: "forest (view crc s) h ts" "ts \<noteq> []" and used: "forest_pages ts \<inter> avail s = {}" and live: "live crc s"
    and fit: "sum_list (map child_size ts) \<le> 4052"
  shows "writes crc 600 s (commit_internal crc (map ref_of ts)) (\<lambda>c P s'. \<exists>t. c = ref_of t \<and> raised h (view crc s') ts P t)"
proof -
  obtain cells where cells: "rmapM encode_internal_cell (map ref_of ts) = Inr cells" "map (\<lambda>c. 4 + length c) cells = map child_size ts"
    by (rule preview_cells [OF forest_refs_ok [OF ts(1) live]])
  have fits: "cells_fit cells" using cells(2) fit by (simp add: cells_fit_iff cells_total_sizes)
  have "writes crc 600 s (commit_internal_with_cells crc (map ref_of ts) cells) (\<lambda>c P s'. \<exists>t. c = ref_of t \<and> raised h (view crc s') ts P t)"
  proof (rule writes_mono [OF writes_node_cells [OF ts used live cells(2) fit]])
    show "2 * length ts + 1 \<le> 600" using few_children [of ts 290] fit by simp
    fix c P s' assume "\<exists>i cs. c = ref_of (GNode i cs) \<and> map snd cs = ts \<and> forest (view crc s') (Suc h) [GNode i cs] \<and>
       forest_pages [GNode i cs] \<subseteq> P \<union> forest_pages ts"
    then obtain i cs where i: "c = ref_of (GNode i cs)" "map snd cs = ts" "forest (view crc s') (Suc h) [GNode i cs]"
      "forest_pages [GNode i cs] \<subseteq> P \<union> forest_pages ts" by blast
    then have "raised h (view crc s') ts P (GNode i cs)" unfolding raised_def by blast
    then show "\<exists>t. c = ref_of t \<and> raised h (view crc s') ts P t" using i(1) by blast
  qed
  then show ?thesis
    using cells(1) fits forest_refs_valid [OF ts live] by (simp add: commit_internal_def)
qed

lemma forest_take_drop:
  assumes "forest v h ts" "forest_pages ts \<inter> A = {}"
  shows "forest v h (take k ts)" "forest v h (drop k ts)" "forest_pages (take k ts) \<inter> A = {}" "forest_pages (drop k ts) \<inter> A = {}"
    "forest_pages ts = forest_pages (take k ts) \<union> forest_pages (drop k ts)"
proof -
  have "forest v h (take k ts @ drop k ts)" using assms(1) by simp
  then show "forest v h (take k ts)" "forest v h (drop k ts)" unfolding forest_append by simp_all
  have "forest_pages (take k ts @ drop k ts) = forest_pages (take k ts) \<union> forest_pages (drop k ts)" by (rule forest_pages_simps)
  then show "forest_pages ts = forest_pages (take k ts) \<union> forest_pages (drop k ts)" by simp
  then show "forest_pages (take k ts) \<inter> A = {}" "forest_pages (drop k ts) \<inter> A = {}" using assms(2) by blast+
qed

lemma writes_internal_pair:
  assumes all: "forest (view crc s) h (ts @ us)" "ts \<noteq> []" "us \<noteq> []"
    and used: "forest_pages (ts @ us) \<inter> avail s = {}" and live: "live crc s"
    and fit: "sum_list (map child_size ts) \<le> 4052" "sum_list (map child_size us) \<le> 4052"
  shows "writes crc 1200 s (sbind (commit_internal crc (map ref_of ts)) (\<lambda>l. sbind (commit_internal crc (map ref_of us)) (\<lambda>r. sret [l, r])))
    (\<lambda>cs P s'. \<exists>l r. cs = map ref_of [l, r] \<and> forest (view crc s') (Suc h) [l, r] \<and>
       gkvs l = concat (map gkvs ts) \<and> gkvs r = concat (map gkvs us) \<and> forest_pages [l, r] \<subseteq> P \<union> forest_pages (ts @ us) \<and>
       (bushy l \<longleftrightarrow> 2 \<le> length ts \<and> (\<forall>t \<in> set ts. bushy t)) \<and> (bushy r \<longleftrightarrow> 2 \<le> length us \<and> (\<forall>t \<in> set us. bushy t)))"
    (is "writes _ _ _ _ ?post")
proof -
  have parts: "forest (view crc s) h ts" "forest (view crc s) h us" "forest_pages ts \<inter> forest_pages us = {}"
    using all(1) by (simp_all add: forest_append)
  have used': "forest_pages ts \<inter> avail s = {}" "forest_pages us \<inter> avail s = {}" using used by auto
  have "writes crc (600 + (600 + 0)) s (sbind (commit_internal crc (map ref_of ts)) (\<lambda>l. sbind (commit_internal crc (map ref_of us)) (\<lambda>r. sret [l, r]))) ?post"
  proof (rule writes_bind [OF writes_internal [OF parts(1) all(2) used'(1) live fit(1)]])
    fix lc P s' assume g: "grows crc P s s'" "live crc s'" and "\<exists>t. lc = ref_of t \<and> raised h (view crc s') ts P t"
    then obtain l where l: "lc = ref_of l" "raised h (view crc s') ts P l" by blast
    have right: "forest (view crc s') h us" by (rule forest_grows [OF g(1) parts(2) used'(2)])
    have used'': "forest_pages us \<inter> avail s' = {}" by (rule grows_fresh [OF g(1) used'(2)])
    show "writes crc (600 + 0) s' (sbind (commit_internal crc (map ref_of us)) (\<lambda>r. sret [lc, r]))
      (\<lambda>cs P' s''. P \<inter> P' = {} \<longrightarrow> grows crc P' s' s'' \<longrightarrow> ?post cs (P \<union> P') s'')"
    proof (rule writes_bind [OF writes_internal [OF right all(3) used'' g(2) fit(2)]])
      fix rc P' s'' assume g': "grows crc P' s' s''" and "\<exists>t. rc = ref_of t \<and> raised h (view crc s'') us P' t"
      then obtain r where r: "rc = ref_of r" "raised h (view crc s'') us P' r" by blast
      have P: "P \<inter> avail s' = {}" "P' \<subseteq> avail s'" "P \<subseteq> avail s" "avail s' \<subseteq> avail s" using g(1) g' by (auto simp: grows_def)
      have lp: "forest_pages [l] \<subseteq> P \<union> forest_pages ts" and rp: "forest_pages [r] \<subseteq> P' \<union> forest_pages us"
        using l(2) r(2) by (simp_all add: raised_def)
      have "forest_pages [l] \<inter> avail s' = {}" using lp P(1) grows_fresh [OF g(1) used'(1)] by blast
      then have left: "forest (view crc s'') (Suc h) [l]" using forest_grows [OF g', of "Suc h" "[l]"] l(2) by (simp add: raised_def)
      have disj: "forest_pages [l] \<inter> forest_pages [r] = {}" using lp rp P parts(3) used' by blast
      have kvs: "gkvs l = concat (map gkvs ts)" "gkvs r = concat (map gkvs us)"
        using raised_content l(2) r(2) by blast+
      have "\<forall>x \<in> set (concat (map gkvs ts)). \<forall>y \<in> set (concat (map gkvs us)). fst x < fst y"
        using all(1) unfolding forest_append by blast
      then have "forest (view crc s'') (Suc h) ([l] @ [r])"
        unfolding forest_append using left r(2) disj kvs by (simp add: raised_def)
      moreover have "forest_pages [l, r] \<subseteq> P \<union> P' \<union> forest_pages (ts @ us)" using lp rp by auto
      ultimately have "?post [lc, rc] (P \<union> P') s''"
        using l r kvs raised_bushy by (intro exI [of _ l] exI [of _ r]) simp
      then show "writes crc 0 s'' (sret [lc, rc]) (\<lambda>cs Q s'''. P' \<inter> Q = {} \<longrightarrow> grows crc Q s'' s''' \<longrightarrow>
          P \<inter> (P' \<union> Q) = {} \<longrightarrow> grows crc (P' \<union> Q) s' s''' \<longrightarrow> ?post cs (P \<union> (P' \<union> Q)) s''')"
        by (intro writes_pure impI) simp
    qed
  qed
  then show ?thesis by simp
qed

text \<open>One node over the children, or two nodes over a split of them.\<close>

abbreviation over_children :: "nat \<Rightarrow> gtree list \<Rightarrow> (bytes \<Rightarrow> 32 word) \<Rightarrow> child_ref list \<Rightarrow> nat set \<Rightarrow> btree \<Rightarrow> bool" where
  "over_children h ts crc \<equiv> \<lambda>cs P s'. \<exists>us. cs = map ref_of us \<and> length us \<in> {1, 2} \<and>
     replaced (Suc h) (concat (map gkvs ts)) (forest_pages ts) (view crc s') P us"

lemma writes_internal_one:
  assumes ts: "forest (view crc s) h ts" "2 \<le> length ts" "\<forall>t \<in> set ts. bushy t" and used: "forest_pages ts \<inter> avail s = {}"
    and live: "live crc s" and fit: "sum_list (map child_size ts) \<le> 4052"
  shows "writes crc 600 s (sbind (commit_internal crc (map ref_of ts)) (\<lambda>c. sret [c])) (over_children h ts crc)"
proof -
  have ne: "ts \<noteq> []" using ts(2) by auto
  have "writes crc (600 + 0) s (sbind (commit_internal crc (map ref_of ts)) (\<lambda>c. sret [c])) (over_children h ts crc)"
  proof (rule writes_bind [OF writes_internal [OF ts(1) ne used live fit]])
    fix c P s' assume "\<exists>t. c = ref_of t \<and> raised h (view crc s') ts P t"
    then obtain t where t: "c = ref_of t" "raised h (view crc s') ts P t" by blast
    have "replaced (Suc h) (concat (map gkvs ts)) (forest_pages ts) (view crc s') P [t]"
      using t(2) raised_content [OF t(2)] raised_bushy [OF t(2)] ts(2,3) by (simp add: replaced_def raised_def)
    then show "writes crc 0 s' (sret [c]) (\<lambda>cs P' s''. P \<inter> P' = {} \<longrightarrow> grows crc P' s' s'' \<longrightarrow> over_children h ts crc cs (P \<union> P') s'')"
      using t(1) by (intro writes_pure impI exI [of _ "[t]"]) simp
  qed
  then show ?thesis by simp
qed

lemma writes_internal_two:
  assumes ts: "forest (view crc s) h ts" "\<forall>t \<in> set ts. bushy t" and used: "forest_pages ts \<inter> avail s = {}"
    and live: "live crc s" and two: "2 \<le> k" "2 \<le> length ts - k"
    and fit: "sum_list (map child_size (take k ts)) \<le> 4052" "sum_list (map child_size (drop k ts)) \<le> 4052"
  shows "writes crc 1200 s (sbind (commit_internal crc (map ref_of (take k ts))) (\<lambda>l.
    sbind (commit_internal crc (map ref_of (drop k ts))) (\<lambda>r. sret [l, r]))) (over_children h ts crc)"
proof -
  let ?l = "take k ts" and ?r = "drop k ts"
  have all: "forest (view crc s) h (?l @ ?r)" "forest_pages (?l @ ?r) \<inter> avail s = {}" using ts(1) used by (simp_all only: append_take_drop_id)
  have lens: "2 \<le> length ?l" "2 \<le> length ?r" "?l \<noteq> []" "?r \<noteq> []" using two by auto
  show ?thesis
  proof (rule writes_mono [OF writes_internal_pair [OF all(1) lens(3,4) all(2) live fit] order_refl])
    fix cs P s' assume "\<exists>l r. cs = map ref_of [l, r] \<and> forest (view crc s') (Suc h) [l, r] \<and>
       gkvs l = concat (map gkvs ?l) \<and> gkvs r = concat (map gkvs ?r) \<and> forest_pages [l, r] \<subseteq> P \<union> forest_pages (?l @ ?r) \<and>
       (bushy l \<longleftrightarrow> 2 \<le> length ?l \<and> (\<forall>t \<in> set ?l. bushy t)) \<and> (bushy r \<longleftrightarrow> 2 \<le> length ?r \<and> (\<forall>t \<in> set ?r. bushy t))"
    then obtain l r where lr: "cs = map ref_of [l, r]" "forest (view crc s') (Suc h) [l, r]"
       "gkvs l = concat (map gkvs ?l)" "gkvs r = concat (map gkvs ?r)" "forest_pages [l, r] \<subseteq> P \<union> forest_pages (?l @ ?r)"
       "bushy l \<longleftrightarrow> 2 \<le> length ?l \<and> (\<forall>t \<in> set ?l. bushy t)" "bushy r \<longleftrightarrow> 2 \<le> length ?r \<and> (\<forall>t \<in> set ?r. bushy t)"
      by blast
    have "concat (map gkvs [l, r]) = concat (map gkvs (?l @ ?r))" using lr(3,4) by (simp only: map_append concat_append list.map concat.simps append_Nil2)
    moreover have "bushy l" "bushy r" using lr(6,7) lens(1,2) ts(2) by (auto dest: in_set_takeD in_set_dropD)
    ultimately have "replaced (Suc h) (concat (map gkvs ts)) (forest_pages ts) (view crc s') P [l, r]"
      using lr(2,5) by (simp only: append_take_drop_id replaced_def) simp
    then show "over_children h ts crc cs P s'" using lr(1) by (intro exI [of _ "[l, r]"]) simp
  qed
qed

text \<open>Committing a list of children, for any choice of a split that is balanced enough.\<close>

definition balancing :: "(bytes list \<Rightarrow> nat option) \<Rightarrow> bool" where
  "balancing pick \<longleftrightarrow> (\<forall>cells. (\<forall>c \<in> set cells. 4 + length c \<le> 1350) \<and> 4052 < cells_total cells \<and> cells_total cells \<le> 6754 \<longrightarrow>
     (\<exists>k. pick cells = Some k \<and> 2 \<le> k \<and> 2 \<le> length cells - k \<and>
       cells_total (take k cells) \<le> 4052 \<and> cells_total (drop k cells) \<le> 4052))"

lemma balancing_choices: "balancing choose_split" "balancing choose_internal_rebalance_split"
proof -
  show "balancing choose_split"
    unfolding balancing_def
  proof (intro allI impI)
    fix cells :: "bytes list"
    assume a: "(\<forall>c \<in> set cells. 4 + length c \<le> 1350) \<and> 4052 < cells_total cells \<and> cells_total cells \<le> 6754"
    then have sm: "\<forall>c \<in> set cells. 4 + length c \<le> 1350" and big: "4052 < cells_total cells" "cells_total cells + 1350 \<le> 8104" by simp_all
    obtain k where k: "choose_split cells = Some k" "k < length cells" "cells_total (take k cells) \<le> 4052"
      "cells_total (drop k cells) \<le> 4052" "split_imbalance cells k \<le> 1350"
      using choose_split_balanced [OF sm _ big] by auto
    then show "\<exists>k. choose_split cells = Some k \<and> 2 \<le> k \<and> 2 \<le> length cells - k \<and>
       cells_total (take k cells) \<le> 4052 \<and> cells_total (drop k cells) \<le> 4052"
      using two_on_each_side [OF sm order_refl big(1) _ k(5)] by auto
  qed
  show "balancing choose_internal_rebalance_split"
    unfolding balancing_def using choose_internal_rebalance_split_balanced [OF _ order_refl] by fastforce
qed

definition commit_children :: "(bytes list \<Rightarrow> nat option) \<Rightarrow> (bytes \<Rightarrow> 32 word) \<Rightarrow> child_ref list \<Rightarrow> child_ref list tree_act" where
  "commit_children pick crc children =
     sbind (slift (validate_child_refs children)) (\<lambda>_.
     sbind (slift (rmapM encode_internal_cell children)) (\<lambda>cells.
     if cells_fit cells then sbind (commit_internal crc children) (\<lambda>c. sret [c])
     else sbind (slift (ok_or (pick cells) BtInvalidInput)) (\<lambda>split.
          sbind (commit_internal crc (take split children)) (\<lambda>left.
          sbind (commit_internal crc (drop split children)) (\<lambda>right.
          sret [left, right])))))"

lemma commit_internal_level_children: "commit_internal_level crc children = commit_children choose_split crc children"
proof -
  consider (a) e where "validate_child_refs children = Inl e" | (b) e where "validate_child_refs children = Inr ()" "rmapM encode_internal_cell children = Inl e"
    | (c) cells where "validate_child_refs children = Inr ()" "rmapM encode_internal_cell children = Inr cells"
    by (cases "validate_child_refs children"; cases "rmapM encode_internal_cell children") auto
  then show ?thesis
    by cases (simp_all add: commit_internal_level_def commit_children_def commit_internal_def fun_eq_iff sbind_pure)
qed

lemma writes_children:
  assumes ts: "forest (view crc s) h ts" "2 \<le> length ts" "\<forall>t \<in> set ts. bushy t" and used: "forest_pages ts \<inter> avail s = {}"
    and live: "live crc s" and small: "\<forall>t \<in> set ts. child_size t \<le> 1350" and total: "sum_list (map child_size ts) \<le> 6754"
    and pick: "balancing pick"
  shows "writes crc 1200 s (commit_children pick crc (map ref_of ts)) (over_children h ts crc)"
proof -
  have ne: "ts \<noteq> []" using ts(2) by auto
  obtain cells where cells: "rmapM encode_internal_cell (map ref_of ts) = Inr cells" "map (\<lambda>c. 4 + length c) cells = map child_size ts"
    by (rule preview_cells [OF forest_refs_ok [OF ts(1) live]])
  have tot: "cells_total (take k cells) = sum_list (map child_size (take k ts))"
    "cells_total (drop k cells) = sum_list (map child_size (drop k ts))" "cells_total cells = sum_list (map child_size ts)" for k
    using cells(2) by (simp_all add: cells_total_sizes flip: take_map drop_map)
  have len: "length cells = length ts" using cells(2) by (metis length_map)
  note valid = forest_refs_valid [OF ts(1) ne live]
  show ?thesis
  proof (cases "cells_fit cells")
    case True
    then have fit: "sum_list (map child_size ts) \<le> 4052" using tot(3) by (simp add: cells_fit_iff)
    show ?thesis
      using writes_mono [OF writes_internal_one [OF ts used live fit], of 1200] cells(1) True valid by (simp add: commit_children_def)
  next
    case False
    have sm: "\<forall>c \<in> set cells. 4 + length c \<le> 1350"
    proof
      fix c assume "c \<in> set cells"
      then have "4 + length c \<in> set (map child_size ts)" using cells(2) by (metis image_eqI list.set_map)
      then show "4 + length c \<le> 1350" using small by auto
    qed
    have "4052 < cells_total cells" "cells_total cells \<le> 6754" using False total tot(3) by (simp_all add: cells_fit_iff)
    then obtain k where k: "pick cells = Some k" "2 \<le> k" "2 \<le> length ts - k" "sum_list (map child_size (take k ts)) \<le> 4052"
      "sum_list (map child_size (drop k ts)) \<le> 4052"
      using pick sm tot len unfolding balancing_def by metis
    show ?thesis
      using writes_internal_two [OF ts(1,3) used live k(2-5)] cells(1) False valid k(1) by (simp add: commit_children_def take_map drop_map)
  qed
qed

lemma writes_internal_level:
  assumes "forest (view crc s) h ts" "2 \<le> length ts" "\<forall>t \<in> set ts. bushy t" "forest_pages ts \<inter> avail s = {}"
    and "live crc s" "\<forall>t \<in> set ts. child_size t \<le> 1350" "sum_list (map child_size ts) \<le> 6754"
  shows "writes crc 1200 s (commit_internal_level crc (map ref_of ts))
    (\<lambda>cs P s'. \<exists>us. cs = map ref_of us \<and> length us \<in> {1, 2} \<and>
       replaced (Suc h) (concat (map gkvs ts)) (forest_pages ts) (view crc s') P us)"
  unfolding commit_internal_level_children by (rule writes_children [OF assms balancing_choices(1)])

end
