(* ===== verification/BtreeInsert.thy ===== *)
theory BtreeInsert
  imports BtreeForest
begin

text \<open>
  Insertion.  \<open>rewrite_insert\<close> replaces a subtree by one or two subtrees of the same height whose
  content is the old one with the entry inserted; every leaf and node it writes fits its page when
  the stored entries are small enough for a page to hold two of them.
\<close>

subsection \<open>Small entries\<close>

definition small_kv :: "bytes \<times> bytes \<Rightarrow> bool" where
  "small_kv x \<longleftrightarrow> 10 + key_size (fst x) + value_size (fst x) (snd x) \<le> 2026 \<and> 14 + key_size (fst x) \<le> 1350"

lemma small_leaf_cell: "entry_canon e \<Longrightarrow> small_kv (kv_of e) \<Longrightarrow> 4 + length (leaf_cell e) \<le> 2026"
  using payload_key_size [of "fst e"] payload_value_size [of e]
  by (simp add: small_kv_def leaf_cell_size entry_canon_def)

lemma gmin_in_keys: "gkvs t \<noteq> [] \<Longrightarrow> \<exists>x \<in> set (gkvs t). gmin t = fst x"
  by (auto simp: gmin_def intro!: bexI [of _ "hd (gkvs t)"])

lemma small_child: "forest v h ts \<Longrightarrow> \<forall>x \<in> set (concat (map gkvs ts)). small_kv x \<Longrightarrow> t \<in> set ts \<Longrightarrow> child_size t \<le> 1350"
  using gmin_in_keys [of t] forest_mins(2) [of v h ts] by (fastforce simp: child_size_def small_kv_def)


subsection \<open>Splicing\<close>

lemma al_insert_mid:
  assumes "\<forall>x \<in> set A. fst x < k" "\<forall>x \<in> set C. k < fst x"
  shows "al_insert k v (A @ M @ C) = A @ al_insert k v M @ C"
proof -
  have "al_insert k v (A @ Z) = A @ al_insert k v Z" for Z
    using assms(1) by (induction A) (auto dest: less_asym)
  moreover have "al_insert k v C = (k, v) # C" using assms(2) by (cases C) auto
  then have "al_insert k v (M @ C) = al_insert k v M @ C"
    by (induction M) auto
  ultimately show ?thesis by simp
qed

lemma set_al_insert_keys: "x \<in> set (al_insert k v xs) \<Longrightarrow> fst x = k \<or> x \<in> set xs"
  using set_al_insert [of k v xs] by auto

lemma forest_splice:
  assumes g: "grows crc P s s'" and old: "forest (view crc s) h (A @ M @ C)" "forest_pages (A @ M @ C) \<inter> avail s = {}"
    and mid: "forest (view crc s') h N" "forest_pages N \<subseteq> P \<union> forest_pages M \<union> X"
    and X: "X \<inter> forest_pages A = {}" "X \<inter> forest_pages C = {}"
    and left: "\<forall>x \<in> set (concat (map gkvs A)). \<forall>y \<in> set (concat (map gkvs N)). fst x < fst y"
    and right: "\<forall>x \<in> set (concat (map gkvs N)). \<forall>y \<in> set (concat (map gkvs C)). fst x < fst y"
  shows "forest (view crc s') h (A @ N @ C)"
proof -
  have parts: "forest (view crc s) h A" "forest (view crc s) h C"
    "forest_pages A \<inter> forest_pages M = {}" "forest_pages A \<inter> forest_pages C = {}" "forest_pages M \<inter> forest_pages C = {}"
    "\<forall>x \<in> set (concat (map gkvs A)). \<forall>y \<in> set (concat (map gkvs C)). fst x < fst y"
    using old(1) by (auto simp: forest_append simp del: set_concat)
  have used: "forest_pages A \<inter> avail s = {}" "forest_pages C \<inter> avail s = {}" using old(2) by auto
  have "forest (view crc s') h A" "forest (view crc s') h C"
    using forest_grows [OF g] parts(1,2) used by blast+
  moreover have "forest_pages A \<inter> P = {}" "forest_pages C \<inter> P = {}" using grows_used [OF g] used by blast+
  ultimately show ?thesis
    unfolding forest_append using mid parts(3-6) X left right by (auto simp del: set_concat)
qed

lemma forest_children:
  assumes "forest v h [GNode i cs]"
  shows "forest v (h - 1) (map snd cs)" "map child_of cs = map ref_of (map snd cs)" "seps_ok cs" "g_ord (GNode i cs)"
    "forest_pages (map snd cs) \<subseteq> forest_pages [GNode i cs]" "v i = Some (PkInternal, None, map node_cell cs)" "node_ok v cs"
    "1 < h"
proof -
  have t: "tree_at v h (GNode i cs)" "canon (GNode i cs)" "distinct (gpages (GNode i cs))"
    using assms by (simp_all add: forest_def)
  show seps: "seps_ok cs" using tree_at_seps [OF t(1)] .
  show ord: "g_ord (GNode i cs)" using assms by (simp add: forest_def g_ord_def)
  show "v i = Some (PkInternal, None, map node_cell cs)" "node_ok v cs" "1 < h" using t(1) by simp_all
  show "map child_of cs = map ref_of (map snd cs)"
    using seps by (auto simp: child_of_def ref_of_def seps_ok_def)
  have "distinct (concat (map (\<lambda>c. bl_pages (fst c) @ gpages (snd c)) cs))" using t(3) by simp
  then have "distinct (concat (map (\<lambda>c. gpages (snd c)) cs))" unfolding distinct_concat_append by simp
  then show "forest v (h - 1) (map snd cs)"
    using t(1,2) ord by (auto simp: forest_def g_ord_def comp_def)
  show "forest_pages (map snd cs) \<subseteq> forest_pages [GNode i cs]"
    by (auto simp: forest_pages_def)
qed

lemma child_sizes_of:
  assumes "forest v h [GNode i cs]"
  shows "map (\<lambda>c. 4 + length (node_cell c)) cs = map child_size (map snd cs)"
proof -
  have "4 + length (node_cell c) = child_size (snd c)" if "c \<in> set cs" for c
  proof -
    have "key_canon (fst c)" "bl_bytes (fst c) = gmin (snd c)"
      using assms that forest_children(3) [OF assms] by (auto simp: forest_def seps_ok_def gmin_def)
    then show ?thesis by (simp add: node_cell_def child_cell_def child_size_def payload_key_size)
  qed
  then show ?thesis by simp
qed

lemma node_total:
  assumes "forest (view crc s) h [GNode i cs]" "live crc s"
  shows "sum_list (map child_size (map snd cs)) \<le> 4052"
proof -
  have "cells_room (map node_cell cs)" using forest_children(6) [OF assms(1)] view_room assms(2) by blast
  then show ?thesis
    using child_sizes_of [OF assms(1)] by (simp add: cells_room_fit cells_fit_iff cells_total_sizes comp_def)
qed

lemma leaf_total:
  assumes "forest (view crc s) h [GLeaf i es]" "live crc s"
  shows "cells_total (map leaf_cell es) \<le> 4052"
  using view_room [of crc s i PkLeaf None "map leaf_cell es"] assms by (auto simp: forest_def cells_room_fit cells_fit_iff)


subsection \<open>Inserting into a leaf\<close>

definition put_entry :: "blob \<times> blob \<Rightarrow> (blob \<times> blob) list \<Rightarrow> (blob \<times> blob) list" where
  "put_entry e es = (case search_keys (map (\<lambda>e. bl_bytes (fst e)) es) (bl_bytes (fst e)) of
     Inr index \<Rightarrow> es[index := e] | Inl index \<Rightarrow> take index es @ [e] @ drop index es)"

lemma put_entry_parts:
  assumes "sorted_wrt (<) (map (\<lambda>e. bl_bytes (fst e)) es)"
  obtains A B C where "es = A @ B @ C" "put_entry e es = A @ [e] @ C" "\<forall>x \<in> set A. bl_bytes (fst x) < bl_bytes (fst e)"
    "\<forall>x \<in> set C. bl_bytes (fst e) < bl_bytes (fst x)" "map kv_of (put_entry e es) = al_insert (bl_bytes (fst e)) (bl_bytes (snd e)) (map kv_of es)"
proof -
  let ?ks = "map (\<lambda>e. bl_bytes (fst e)) es" and ?k = "bl_bytes (fst e)"
  show ?thesis
  proof (cases "search_keys ?ks ?k")
    case (Inl i)
    then have i: "i \<le> length es" "\<forall>x \<in> set (take i es). bl_bytes (fst x) < ?k" "\<forall>x \<in> set (drop i es). ?k < bl_bytes (fst x)"
      using search_keys_cases [OF assms, of ?k] by (auto simp: take_map drop_map)
    have "al_insert ?k (bl_bytes (snd e)) (map kv_of (take i es) @ [] @ map kv_of (drop i es)) =
        map kv_of (take i es) @ al_insert ?k (bl_bytes (snd e)) [] @ map kv_of (drop i es)"
      by (rule al_insert_mid) (use i(2,3) in auto)
    moreover have "map kv_of (take i es) @ map kv_of (drop i es) = map kv_of es" by (simp flip: map_append)
    ultimately have "al_insert ?k (bl_bytes (snd e)) (map kv_of es) = map kv_of (take i es @ [e] @ drop i es)"
      by (simp add: kv_of_def [of e])
    then show ?thesis using that [of "take i es" "[]" "drop i es"] Inl i by (simp add: put_entry_def)
  next
    case (Inr i)
    then have i: "i < length es" "bl_bytes (fst (es ! i)) = ?k" using search_keys_cases [OF assms, of ?k] by auto
    have es: "es = take i es @ [es ! i] @ drop (Suc i) es" using id_take_nth_drop [OF i(1)] by simp
    have "sorted_wrt (<) (map (\<lambda>e. bl_bytes (fst e)) (take i es @ [es ! i] @ drop (Suc i) es))" using assms es by simp
    then have sides: "\<forall>x \<in> set (take i es). bl_bytes (fst x) < ?k" "\<forall>x \<in> set (drop (Suc i) es). ?k < bl_bytes (fst x)"
      using i(2) by (auto simp: sorted_wrt_append)
    have "al_insert ?k (bl_bytes (snd e)) (map kv_of (take i es) @ [kv_of (es ! i)] @ map kv_of (drop (Suc i) es)) =
        map kv_of (take i es) @ al_insert ?k (bl_bytes (snd e)) [kv_of (es ! i)] @ map kv_of (drop (Suc i) es)"
      by (rule al_insert_mid) (use sides in auto)
    then have "al_insert ?k (bl_bytes (snd e)) (map kv_of (take i es @ [es ! i] @ drop (Suc i) es)) = map kv_of (take i es @ [e] @ drop (Suc i) es)"
      using i(2) by (simp add: kv_of_def)
    then have "al_insert ?k (bl_bytes (snd e)) (map kv_of es) = map kv_of (take i es @ [e] @ drop (Suc i) es)"
      by (simp only: es [symmetric])
    moreover have "es[i := e] = take i es @ [e] @ drop (Suc i) es" using i(1) by (simp add: upd_conv_take_nth_drop)
    ultimately show ?thesis using that [OF es] sides Inr by (simp add: put_entry_def)
  qed
qed

lemma put_entry_ok:
  assumes es: "entries_ok v es" and e: "blob_at v 4096 (fst e)" "blob_at v 1048576 (snd e)" "entry_canon e" "distinct (entry_pages e)"
    "set (entry_pages e) \<inter> set (concat (map entry_pages es)) = {}"
  shows "entries_ok v (put_entry e es)"
    "map kv_of (put_entry e es) = al_insert (bl_bytes (fst e)) (bl_bytes (snd e)) (map kv_of es)"
    "set (concat (map entry_pages (put_entry e es))) \<subseteq> set (concat (map entry_pages es)) \<union> set (entry_pages e)"
    "cells_total (map leaf_cell (put_entry e es)) \<le> cells_total (map leaf_cell es) + (4 + length (leaf_cell e))"
    "set (put_entry e es) \<subseteq> insert e (set es)"
proof -
  have ord: "sorted_wrt (<) (map (\<lambda>e. bl_bytes (fst e)) es)" using es by (simp add: entries_ok_def leaf_ok_def)
  obtain A B C where p: "es = A @ B @ C" "put_entry e es = A @ [e] @ C" "\<forall>x \<in> set A. bl_bytes (fst x) < bl_bytes (fst e)"
    "\<forall>x \<in> set C. bl_bytes (fst e) < bl_bytes (fst x)"
    "map kv_of (put_entry e es) = al_insert (bl_bytes (fst e)) (bl_bytes (snd e)) (map kv_of es)"
    by (rule put_entry_parts [OF ord])
  show "map kv_of (put_entry e es) = al_insert (bl_bytes (fst e)) (bl_bytes (snd e)) (map kv_of es)" by (rule p(5))
  show "set (put_entry e es) \<subseteq> insert e (set es)" unfolding p(2) using p(1) by auto
  show "set (concat (map entry_pages (put_entry e es))) \<subseteq> set (concat (map entry_pages es)) \<union> set (entry_pages e)"
    unfolding p(2) using p(1) by auto
  show "cells_total (map leaf_cell (put_entry e es)) \<le> cells_total (map leaf_cell es) + (4 + length (leaf_cell e))"
    unfolding p(2) using p(1) by simp
  show "entries_ok v (put_entry e es)"
    unfolding p(2) using es e p(1,3,4)
    by (auto simp: entries_ok_def leaf_ok_def sorted_wrt_append simp del: set_concat)
qed
subsection \<open>Inserting into a subtree\<close>

definition new_entry :: "(bytes \<Rightarrow> 32 word) \<Rightarrow> btree \<Rightarrow> gtree \<Rightarrow> blob \<times> blob \<Rightarrow> bool" where
  "new_entry crc s t e \<longleftrightarrow> blob_at (view crc s) 4096 (fst e) \<and> blob_at (view crc s) 1048576 (snd e) \<and> entry_canon e \<and>
     small_kv (kv_of e) \<and> distinct (entry_pages e) \<and> set (entry_pages e) \<inter> avail s = {} \<and>
     set (entry_pages e) \<inter> forest_pages [t] = {}"

lemma new_entry_grows:
  assumes "new_entry crc s t e" "grows crc P s s'" "forest_pages [u] \<subseteq> forest_pages [t]"
  shows "new_entry crc s' u e"
proof -
  have sub: "set (bl_pages (fst e)) \<inter> avail s = {}" "set (bl_pages (snd e)) \<inter> avail s = {}"
    using assms(1) by (auto simp: new_entry_def entry_pages_def)
  have "blob_at (view crc s') 4096 (fst e)" "blob_at (view crc s') 1048576 (snd e)"
    using blob_at_grows [OF assms(2)] assms(1) sub by (simp_all add: new_entry_def)
  moreover have "set (entry_pages e) \<inter> avail s' = {}" using grows_fresh [OF assms(2)] assms(1) by (simp add: new_entry_def)
  moreover have "set (entry_pages e) \<inter> forest_pages [u] = {}" using assms(1,3) unfolding new_entry_def by blast
  ultimately show ?thesis using assms(1) by (simp add: new_entry_def)
qed

lemma forest_leaf_entries:
  assumes "forest v h [GLeaf i es]"
  shows "entries_ok v es" "h = 1" "v i = Some (PkLeaf, None, map leaf_cell es)"
  using assms by (simp_all add: forest_def entries_ok_def)

lemma inserted_fresh: "set (concat (map entry_pages es)) \<subseteq> forest_pages [GLeaf i es]"
  by (auto simp: forest_pages_def)

lemma writes_insert_leaf:
  assumes t: "forest (view crc s) h [GLeaf i es]" "forest_pages [GLeaf i es] \<inter> avail s = {}" "live crc s"
    and small: "\<forall>x \<in> set (gkvs (GLeaf i es)). small_kv x" and e: "new_entry crc s (GLeaf i es) e"
  shows "writes crc 2 s (commit_leaf_level crc (map entry_of (put_entry e es)))
    (\<lambda>cs P s'. \<exists>ts. cs = map ref_of ts \<and> length ts \<in> {1, 2} \<and>
       replaced h (al_insert (bl_bytes (fst e)) (bl_bytes (snd e)) (gkvs (GLeaf i es)))
         (forest_pages [GLeaf i es] \<union> set (entry_pages e)) (view crc s') P ts)"
proof -
  note leaf = forest_leaf_entries [OF t(1)]
  have fresh: "set (entry_pages e) \<inter> set (concat (map entry_pages es)) = {}"
    using e inserted_fresh [of es i] by (auto simp: new_entry_def simp del: set_concat forest_pages_simps)
  have e': "blob_at (view crc s) 4096 (fst e)" "blob_at (view crc s) 1048576 (snd e)" "entry_canon e" "distinct (entry_pages e)"
    using e by (simp_all add: new_entry_def)
  note put = put_entry_ok [OF leaf(1) e' fresh]
  have used: "set (concat (map entry_pages (put_entry e es))) \<inter> avail s = {}"
    using put(3) inserted_fresh [of es i] t(2) e unfolding new_entry_def by blast
  have sm: "4 + length (leaf_cell x) \<le> 2026" if "x \<in> set (put_entry e es)" for x
    using that put(5) small e leaf(1)
    by (intro small_leaf_cell) (auto simp: new_entry_def entries_ok_def)
  have tot: "cells_total (map leaf_cell (put_entry e es)) \<le> 4052 + 2026"
  proof -
    have "4 + length (leaf_cell e) \<le> 2026" using e by (intro small_leaf_cell) (simp_all add: new_entry_def)
    then show ?thesis using put(4) leaf_total [OF t(1,3)] by linarith
  qed
  show ?thesis
  proof (rule writes_mono [OF writes_leaf_level [OF put(1) used _ tot t(3)] order_refl])
    show "\<forall>x \<in> set (put_entry e es). 4 + length (leaf_cell x) \<le> 2026" using sm by blast
    fix cs P s'
    assume "\<exists>ts. cs = map ref_of ts \<and> length ts \<in> {1, 2} \<and>
       replaced 1 (map kv_of (put_entry e es)) (set (concat (map entry_pages (put_entry e es)))) (view crc s') P ts"
    then obtain ts where ts: "cs = map ref_of ts" "length ts \<in> {1, 2}"
      "replaced 1 (map kv_of (put_entry e es)) (set (concat (map entry_pages (put_entry e es)))) (view crc s') P ts" by blast
    have "forest_pages ts \<subseteq> P \<union> (forest_pages [GLeaf i es] \<union> set (entry_pages e))"
      using ts(3) put(3) inserted_fresh [of es i] unfolding replaced_def by blast
    then have "replaced h (al_insert (bl_bytes (fst e)) (bl_bytes (snd e)) (gkvs (GLeaf i es)))
         (forest_pages [GLeaf i es] \<union> set (entry_pages e)) (view crc s') P ts"
      using ts(3) put(2) leaf(2) by (simp add: replaced_def del: forest_pages_simps)
    then show "\<exists>ts. cs = map ref_of ts \<and> length ts \<in> {1, 2} \<and>
       replaced h (al_insert (bl_bytes (fst e)) (bl_bytes (snd e)) (gkvs (GLeaf i es)))
         (forest_pages [GLeaf i es] \<union> set (entry_pages e)) (view crc s') P ts"
      using ts(1,2) by blast
  qed
qed

text \<open>The children of a node, at the child the key is routed to.\<close>

lemma routed_children:
  assumes "forest v h [GNode i cs]"
  obtains A t C where "map snd cs = A @ [t] @ C" "route_child (map child_of cs) key = Inr (length A)" "length A < length cs"
    "groot t = cr_page_id (map child_of cs ! length A)"
    "take (length A) (map child_of cs) = map ref_of A" "drop (length A + 1) (map child_of cs) = map ref_of C"
    "\<forall>x \<in> set (concat (map gkvs A)). fst x < key" "\<forall>x \<in> set (concat (map gkvs C)). key < fst x"
proof -
  note f = forest_children [OF assms]
  obtain j where j: "route_child (map child_of cs) key = Inr j" "j < length cs"
    "j \<noteq> 0 \<Longrightarrow> bl_bytes (fst (cs ! j)) \<le> key" "\<And>k. j < k \<Longrightarrow> k < length cs \<Longrightarrow> key < bl_bytes (fst (cs ! k))"
    by (rule route_child_of [OF f(7)]) blast
  note sides = route_bounds [OF f(4,3) j(2-4)]
  let ?A = "map snd (take j cs)" and ?C = "map snd (drop (Suc j) cs)"
  have len: "length ?A = j" using j(2) by simp
  have split: "map snd cs = ?A @ [snd (cs ! j)] @ ?C"
    using id_take_nth_drop [OF j(2)] by (metis append_Cons append_Nil list.simps(9) map_append)
  have "take j (map child_of cs) = map ref_of ?A" "drop (j + 1) (map child_of cs) = map ref_of ?C"
    unfolding f(2) by (simp_all add: take_map drop_map)
  then show ?thesis
    using that [OF split] j sides len by (simp add: comp_def)
qed

text \<open>Reading the page of a node.\<close>

lemma writes_at_leaf:
  assumes t: "forest (view crc s) h [GLeaf i es]" "live crc s"
    and k: "\<And>s'. same_store s s' \<Longrightarrow> live crc s' \<Longrightarrow> writes crc n s' (leaf_k (map entry_of es, None)) Q"
  shows "writes crc n s (sbind (pager_read_page crc i) (\<lambda>p. case pg_kind p of
      PkLeaf \<Rightarrow> sbind (decode_leaf crc p None) leaf_k | PkInternal \<Rightarrow> node_k p | PkOverflow \<Rightarrow> other_k p)) Q"
proof -
  note leaf = forest_leaf_entries [OF t(1)]
  obtain p where p: "pager_page crc s i = Some p" "pg_kind p = PkLeaf"
    "page_cells p = map leaf_cell es" "page_validate crc p = Inr ()"
    using view_Some [OF leaf(3)] by metis
  have dec: "yields crc s (decode_leaf crc p None) (map entry_of es, add_seen (set (concat (map (\<lambda>e. bl_pages (fst e)) es))) None)"
    by (rule decode_leaf_of [OF p(4,3,2) _ t(2)]) (use leaf(1) in \<open>simp_all add: apart_def entries_ok_def\<close>)
  show ?thesis
  proof (rule writes_read [OF yields_read [OF p(1)]])
    fix s1 assume s1: "same_store s s1" "live crc s1"
    have "writes crc n s1 (sbind (decode_leaf crc p None) leaf_k) Q"
      by (rule writes_read [OF yields_same_store [OF dec s1(1)]])
         (use k same_store_trans [OF s1(1)] in simp)
    then show "writes crc n s1 (case pg_kind p of
        PkLeaf \<Rightarrow> sbind (decode_leaf crc p None) leaf_k | PkInternal \<Rightarrow> node_k p | PkOverflow \<Rightarrow> other_k p) Q"
      by (simp add: p(2))
  qed
qed

lemma writes_at_node:
  assumes t: "forest (view crc s) h [GNode i cs]" "live crc s"
    and k: "\<And>s'. same_store s s' \<Longrightarrow> live crc s' \<Longrightarrow> writes crc n s' (node_k (map child_of cs, None)) Q"
  shows "writes crc n s (sbind (pager_read_page crc i) (\<lambda>p. case pg_kind p of
      PkLeaf \<Rightarrow> leaf_k p | PkInternal \<Rightarrow> sbind (decode_internal crc p None) node_k | PkOverflow \<Rightarrow> other_k p)) Q"
proof -
  note node = forest_children [OF t(1)]
  obtain p where p: "pager_page crc s i = Some p" "pg_kind p = PkInternal"
    "page_cells p = map node_cell cs" "page_validate crc p = Inr ()"
    using view_Some [OF node(6)] by metis
  have dec: "yields crc s (decode_internal crc p None) (map child_of cs, add_seen (set (concat (map (\<lambda>c. bl_pages (fst c)) cs))) None)"
    by (rule decode_internal_of [OF p(4,3,2) node(7) t(2)]) (simp add: apart_def)
  show ?thesis
  proof (rule writes_read [OF yields_read [OF p(1)]])
    fix s1 assume s1: "same_store s s1" "live crc s1"
    have "writes crc n s1 (sbind (decode_internal crc p None) node_k) Q"
      by (rule writes_read [OF yields_same_store [OF dec s1(1)]])
         (use k same_store_trans [OF s1(1)] in simp)
    then show "writes crc n s1 (case pg_kind p of
        PkLeaf \<Rightarrow> leaf_k p | PkInternal \<Rightarrow> sbind (decode_internal crc p None) node_k | PkOverflow \<Rightarrow> other_k p) Q"
      by (simp add: p(2))
  qed
qed

text \<open>Replacing the child at which an insertion happened.\<close>

lemma splice_inserted:
  assumes t: "forest (view crc s) h [GNode i cs]" "forest_pages [GNode i cs] \<inter> avail s = {}" "bushy (GNode i cs)" "live crc s"
    and cs: "map snd cs = A @ [t] @ C" and sides: "\<forall>x \<in> set (concat (map gkvs A)). fst x < k" "\<forall>x \<in> set (concat (map gkvs C)). k < fst x"
    and g: "grows crc P s s'" and ts: "length ts \<in> {1, 2}" "replaced (h - 1) (al_insert k v (gkvs t)) (forest_pages [t] \<union> X) (view crc s') P ts"
    and X: "X \<inter> forest_pages [GNode i cs] = {}" and small: "\<forall>x \<in> set (gkvs (GNode i cs)). small_kv x" "small_kv (k, v)"
  shows "forest (view crc s') (h - 1) (A @ ts @ C)" "concat (map gkvs (A @ ts @ C)) = al_insert k v (gkvs (GNode i cs))"
    "forest_pages (A @ ts @ C) \<subseteq> P \<union> (forest_pages [GNode i cs] \<union> X)" "\<forall>t \<in> set (A @ ts @ C). bushy t" "2 \<le> length (A @ ts @ C)"
    "\<forall>t \<in> set (A @ ts @ C). child_size t \<le> 1350" "sum_list (map child_size (A @ ts @ C)) \<le> 6754"
proof -
  note f = forest_children [OF t(1), unfolded cs]
  have pages: "forest_pages A \<subseteq> forest_pages [GNode i cs]" "forest_pages C \<subseteq> forest_pages [GNode i cs]" "forest_pages [t] \<subseteq> forest_pages [GNode i cs]"
    using f(5) by auto
  have kvs: "gkvs (GNode i cs) = concat (map gkvs A) @ gkvs t @ concat (map gkvs C)" using gkvs_node [OF cs, of i] by (simp del: gkvs.simps)
  have content: "concat (map gkvs ts) = al_insert k v (gkvs t)" using ts(2) by (simp add: replaced_def)
  show whole: "concat (map gkvs (A @ ts @ C)) = al_insert k v (gkvs (GNode i cs))"
    unfolding kvs al_insert_mid [OF sides] using content by simp
  have mid: "fst x = k \<or> x \<in> set (gkvs t)" if "x \<in> set (concat (map gkvs ts))" for x
    using that set_al_insert_keys unfolding content by fast
  have ord: "\<forall>x \<in> set (concat (map gkvs A)). \<forall>y \<in> set (gkvs t). fst x < fst y" "\<forall>x \<in> set (gkvs t). \<forall>y \<in> set (concat (map gkvs C)). fst x < fst y"
    using f(1) unfolding forest_append by (auto simp del: set_concat)
  show all: "forest (view crc s') (h - 1) (A @ ts @ C)"
  proof (rule forest_splice [OF g f(1)])
    show "forest_pages (A @ [t] @ C) \<inter> avail s = {}" using f(5) t(2) by blast
    show "forest (view crc s') (h - 1) ts" "forest_pages ts \<subseteq> P \<union> forest_pages [t] \<union> X" using ts(2) by (auto simp: replaced_def)
    show "X \<inter> forest_pages A = {}" "X \<inter> forest_pages C = {}" using X pages by blast+
    show "\<forall>x \<in> set (concat (map gkvs A)). \<forall>y \<in> set (concat (map gkvs ts)). fst x < fst y"
      using mid ord(1) sides(1) by blast
    show "\<forall>x \<in> set (concat (map gkvs ts)). \<forall>y \<in> set (concat (map gkvs C)). fst x < fst y"
      using mid ord(2) sides(2) by blast
  qed
  have "forest_pages ts \<subseteq> P \<union> (forest_pages [t] \<union> X)" using ts(2) by (simp add: replaced_def)
  then show "forest_pages (A @ ts @ C) \<subseteq> P \<union> (forest_pages [GNode i cs] \<union> X)" using pages by auto
  have "\<forall>t \<in> set (A @ [t] @ C). bushy t" unfolding cs [symmetric] using t(3) by auto
  then show "\<forall>t \<in> set (A @ ts @ C). bushy t" using ts(2) by (auto simp: replaced_def)
  have "2 \<le> length (A @ [t] @ C)" using t(3) cs by (metis bushy.simps(2) length_map)
  then show "2 \<le> length (A @ ts @ C)" using ts(1) by auto
  have sm: "\<forall>x \<in> set (concat (map gkvs (A @ ts @ C))). small_kv x"
    unfolding whole using set_al_insert [of k v "gkvs (GNode i cs)"] small by blast
  show sizes: "\<forall>t \<in> set (A @ ts @ C). child_size t \<le> 1350" using small_child [OF all sm] by blast
  have "sum_list (map child_size (A @ [t] @ C)) \<le> 4052" using node_total [OF t(1,4)] unfolding cs .
  moreover have "sum_list (map child_size ts) \<le> 2700" using ts(1) sizes by (auto simp: length_Suc_conv numeral_2_eq_2)
  ultimately show "sum_list (map child_size (A @ ts @ C)) \<le> 6754" by simp
qed

lemma writes_rewrite_insert:
  assumes "forest (view crc s) h [t]" "bushy t" "forest_pages [t] \<inter> avail s = {}" "live crc s" "h \<le> n"
    and "\<forall>x \<in> set (gkvs t). small_kv x" "new_entry crc s t e"
  shows "writes crc (1200 * h) s (rewrite_insert crc (stored_key_of (fst e)) (stored_value_of (snd e)) n (groot t))
    (\<lambda>cs P s'. \<exists>ts. cs = map ref_of ts \<and> length ts \<in> {1, 2} \<and>
       replaced h (al_insert (bl_bytes (fst e)) (bl_bytes (snd e)) (gkvs t)) (forest_pages [t] \<union> set (entry_pages e)) (view crc s') P ts)"
  using assms
proof (induction n arbitrary: h t s)
  case 0
  then show ?case using tree_at_pos by (fastforce simp: forest_def)
next
  case (Suc n)
  let ?k = "bl_bytes (fst e)" and ?v = "bl_bytes (snd e)"
  show ?case
  proof (cases t)
    case (GLeaf i es)
    have body: "(case search_keys (map (\<lambda>e. stored_key_bytes (lf_key e)) (map entry_of es)) (stored_key_bytes (stored_key_of (fst e))) of
              Inr index \<Rightarrow> (map entry_of es)[index := entry_of e]
            | Inl index \<Rightarrow> take index (map entry_of es) @ [entry_of e] @ drop index (map entry_of es)) = map entry_of (put_entry e es)"
      by (simp add: put_entry_def comp_def take_map drop_map map_update split: sum.split)
    show ?thesis
      unfolding rewrite_insert.simps GLeaf groot.simps
    proof (rule writes_at_leaf [OF Suc.prems(1) [unfolded GLeaf] Suc.prems(4)])
      fix s' assume s': "same_store s s'" "live crc s'"
      have g: "grows crc {} s s'" by (rule same_store_grows [OF s'(1)])
      have "writes crc 2 s' (commit_leaf_level crc (map entry_of (put_entry e es)))
        (\<lambda>cs P s'. \<exists>ts. cs = map ref_of ts \<and> length ts \<in> {1, 2} \<and>
           replaced h (al_insert ?k ?v (gkvs (GLeaf i es))) (forest_pages [GLeaf i es] \<union> set (entry_pages e)) (view crc s') P ts)"
        using Suc.prems GLeaf s'(2) forest_grows [OF g] grows_fresh [OF g] new_entry_grows [OF _ g]
        by (intro writes_insert_leaf) blast+
      then show "writes crc (1200 * h) s' (case (map entry_of es, None) of (es, _) \<Rightarrow>
         let entry = \<lparr>lf_key = stored_key_of (fst e), lf_value = stored_value_of (snd e)\<rparr> in
         commit_leaf_level crc
           (case search_keys (map (\<lambda>e. stored_key_bytes (lf_key e)) es) (stored_key_bytes (stored_key_of (fst e))) of
              Inr index \<Rightarrow> es[index := entry]
            | Inl index \<Rightarrow> take index es @ [entry] @ drop index es))
        (\<lambda>cs P s'. \<exists>ts. cs = map ref_of ts \<and> length ts \<in> {1, 2} \<and>
           replaced h (al_insert ?k ?v (gkvs (GLeaf i es))) (forest_pages [GLeaf i es] \<union> set (entry_pages e)) (view crc s') P ts)"
        using body forest_leaf_entries(2) [OF Suc.prems(1) [unfolded GLeaf]]
        by (simp add: entry_of_def [symmetric] Let_def) (erule writes_mono, auto)
    qed
  next
    case (GNode i cs)
    note t = Suc.prems(1) [unfolded GNode]
    obtain A u C where cs: "map snd cs = A @ [u] @ C" "route_child (map child_of cs) ?k = Inr (length A)" "length A < length cs"
      "groot u = cr_page_id (map child_of cs ! length A)"
      "take (length A) (map child_of cs) = map ref_of A" "drop (length A + 1) (map child_of cs) = map ref_of C"
      "\<forall>x \<in> set (concat (map gkvs A)). fst x < ?k" "\<forall>x \<in> set (concat (map gkvs C)). ?k < fst x"
      by (rule routed_children [OF t])
    note f = forest_children [OF t, unfolded cs(1)]
    have h: "1200 * h = 1200 * (h - 1) + 1200" using f(8) by (cases h) simp_all
    show ?thesis
      unfolding rewrite_insert.simps GNode groot.simps
    proof (rule writes_at_node [OF t Suc.prems(4)])
      fix s' assume s': "same_store s s'" "live crc s'"
      have g: "grows crc {} s s'" by (rule same_store_grows [OF s'(1)])
      have t': "forest (view crc s') h [GNode i cs]" "forest_pages [GNode i cs] \<inter> avail s' = {}" "new_entry crc s' (GNode i cs) e"
        using Suc.prems(1,3,7) GNode forest_grows [OF g] grows_fresh [OF g] new_entry_grows [OF _ g] by blast+
      note f' = forest_children [OF t'(1), unfolded cs(1)]
      have pages: "forest_pages [u] \<subseteq> forest_pages [GNode i cs]" using f'(5) by auto
      have sub: "writes crc (1200 * (h - 1)) s' (rewrite_insert crc (stored_key_of (fst e)) (stored_value_of (snd e)) n (groot u))
        (\<lambda>cs P s'. \<exists>ts. cs = map ref_of ts \<and> length ts \<in> {1, 2} \<and>
           replaced (h - 1) (al_insert ?k ?v (gkvs u)) (forest_pages [u] \<union> set (entry_pages e)) (view crc s') P ts)"
      proof (rule Suc.IH)
        show "forest (view crc s') (h - 1) [u]" using f'(1) unfolding forest_append by blast
        have "u \<in> set (map snd cs)" using cs(1) by simp
        then show "bushy u" using Suc.prems(2) GNode by auto
        show "forest_pages [u] \<inter> avail s' = {}" using pages t'(2) by blast
        show "\<forall>x \<in> set (gkvs u). small_kv x" using Suc.prems(6) GNode gkvs_node [OF cs(1), of i] by (simp del: gkvs.simps)
        show "new_entry crc s' u e" by (rule new_entry_grows [OF t'(3) grows_refl pages])
      qed (use s'(2) Suc.prems(5) in auto)
      have "writes crc (1200 * (h - 1) + 1200) s' (sbind (rewrite_insert crc (stored_key_of (fst e)) (stored_value_of (snd e)) n (groot u)) (\<lambda>replacements.
             commit_internal_level crc (map ref_of A @ replacements @ map ref_of C)))
        (\<lambda>cs' P s'. \<exists>ts. cs' = map ref_of ts \<and> length ts \<in> {1, 2} \<and>
           replaced h (al_insert ?k ?v (gkvs (GNode i cs))) (forest_pages [GNode i cs] \<union> set (entry_pages e)) (view crc s') P ts)"
      proof (rule writes_bind [OF sub])
        fix rs P s2 assume g': "grows crc P s' s2" "live crc s2" and "\<exists>ts. rs = map ref_of ts \<and> length ts \<in> {1, 2} \<and>
           replaced (h - 1) (al_insert ?k ?v (gkvs u)) (forest_pages [u] \<union> set (entry_pages e)) (view crc s2) P ts"
        then obtain ts where ts: "rs = map ref_of ts" "length ts \<in> {1, 2}"
          "replaced (h - 1) (al_insert ?k ?v (gkvs u)) (forest_pages [u] \<union> set (entry_pages e)) (view crc s2) P ts" by blast
        have X: "set (entry_pages e) \<inter> forest_pages [GNode i cs] = {}" "set (entry_pages e) \<inter> avail s' = {}" "small_kv (?k, ?v)"
          using t'(3) by (simp_all add: new_entry_def kv_of_def)
        have bushy: "bushy (GNode i cs)" and small: "\<forall>x \<in> set (gkvs (GNode i cs)). small_kv x" using Suc.prems(2,6) GNode by simp_all
        note sp = splice_inserted [OF t'(1,2) bushy s'(2) cs(1,7,8) g'(1) ts(2,3) X(1) small X(3)]
        have used: "forest_pages (A @ ts @ C) \<inter> avail s2 = {}"
        proof -
          have "P \<inter> avail s2 = {}" by (rule grows_new [OF g'(1)])
          moreover have "(forest_pages [GNode i cs] \<union> set (entry_pages e)) \<inter> avail s2 = {}"
            using grows_fresh [OF g'(1), of "forest_pages [GNode i cs] \<union> set (entry_pages e)"] t'(2) X(2) by blast
          ultimately show ?thesis using sp(3) by blast
        qed
        have refs: "map ref_of A @ rs @ map ref_of C = map ref_of (A @ ts @ C)" by (simp add: ts(1))
        show "writes crc 1200 s2 (commit_internal_level crc (map ref_of A @ rs @ map ref_of C))
          (\<lambda>cs' P' s3. P \<inter> P' = {} \<longrightarrow> grows crc P' s2 s3 \<longrightarrow> (\<exists>ts. cs' = map ref_of ts \<and> length ts \<in> {1, 2} \<and>
             replaced h (al_insert ?k ?v (gkvs (GNode i cs))) (forest_pages [GNode i cs] \<union> set (entry_pages e)) (view crc s3) (P \<union> P') ts))"
          unfolding refs
        proof (rule writes_mono [OF writes_internal_level [OF sp(1,5,4) used g'(2) sp(6,7)] order_refl])
          fix cs' P' s3 assume "\<exists>us. cs' = map ref_of us \<and> length us \<in> {1, 2} \<and>
             replaced (Suc (h - 1)) (concat (map gkvs (A @ ts @ C))) (forest_pages (A @ ts @ C)) (view crc s3) P' us"
          then obtain us where us: "cs' = map ref_of us" "length us \<in> {1, 2}"
             "replaced (Suc (h - 1)) (concat (map gkvs (A @ ts @ C))) (forest_pages (A @ ts @ C)) (view crc s3) P' us" by blast
          have "forest_pages us \<subseteq> P \<union> P' \<union> (forest_pages [GNode i cs] \<union> set (entry_pages e))"
            using us(3) sp(3) unfolding replaced_def by blast
          moreover have "Suc (h - 1) = h" using f(8) by simp
          ultimately have "replaced h (al_insert ?k ?v (gkvs (GNode i cs))) (forest_pages [GNode i cs] \<union> set (entry_pages e)) (view crc s3) (P \<union> P') us"
            using us(3) unfolding replaced_def sp(2) by simp
          then show "P \<inter> P' = {} \<longrightarrow> grows crc P' s2 s3 \<longrightarrow> (\<exists>ts. cs' = map ref_of ts \<and> length ts \<in> {1, 2} \<and>
             replaced h (al_insert ?k ?v (gkvs (GNode i cs))) (forest_pages [GNode i cs] \<union> set (entry_pages e)) (view crc s3) (P \<union> P') ts)"
            using us(1,2) by blast
        qed
      qed
      then show "writes crc (1200 * h) s' (case (map child_of cs, None) of (cs, _) \<Rightarrow>
         sbind (slift (route_child cs (stored_key_bytes (stored_key_of (fst e))))) (\<lambda>child_index.
         sbind (rewrite_insert crc (stored_key_of (fst e)) (stored_value_of (snd e)) n (cr_page_id (cs ! child_index))) (\<lambda>replacements.
         commit_internal_level crc (take child_index cs @ replacements @ drop (child_index + 1) cs))))
        (\<lambda>cs' P s'. \<exists>ts. cs' = map ref_of ts \<and> length ts \<in> {1, 2} \<and>
           replaced h (al_insert ?k ?v (gkvs (GNode i cs))) (forest_pages [GNode i cs] \<union> set (entry_pages e)) (view crc s') P ts)"
        unfolding h prod.case stored_key_bytes_of cs(2) writes_pure_bind cs(4) [symmetric] cs(5,6) .
    qed
  qed
qed

end
