(* ===== verification/BtreePut.thy ===== *)
theory BtreePut
  imports BtreeInsert
begin

text \<open>
  The state of the tree and the operations \<open>get\<close>, \<open>range_scan\<close> and \<open>put\<close>.  \<open>holds crc g s\<close>: the
  committed root of \<open>s\<close> is the tree \<open>g\<close> (with its height), or there is none.
\<close>

subsection \<open>The committed tree\<close>

definition holds :: "(bytes \<Rightarrow> 32 word) \<Rightarrow> (nat \<times> gtree) option \<Rightarrow> btree \<Rightarrow> bool" where
  "holds crc g s \<longleftrightarrow> live crc s \<and> (case g of
       None \<Rightarrow> pager_root_page_id s = None
     | Some (h, t) \<Rightarrow> pager_root_page_id s = Some (groot t) \<and> forest (view crc s) h [t] \<and> bushy t)"

definition content :: "(nat \<times> gtree) option \<Rightarrow> (bytes \<times> bytes) list" where
  "content g = (case g of None \<Rightarrow> [] | Some (h, t) \<Rightarrow> gkvs t)"

definition used_pages :: "(nat \<times> gtree) option \<Rightarrow> nat set" where
  "used_pages g = (case g of None \<Rightarrow> {} | Some (h, t) \<Rightarrow> forest_pages [t])"

lemma holds_live: "holds crc g s \<Longrightarrow> live crc s"
  by (simp add: holds_def)

lemma content_ord: "holds crc g s \<Longrightarrow> al_ord (content g)"
  by (auto simp: holds_def content_def forest_def al_ord_def split: option.splits)

lemma forest_tree:
  assumes "forest v h [t]"
  shows "tree_at v h t" "g_ord t" "distinct (gpages t)" "canon t" "forest_pages [t] = set (gpages t)"
  using assms by (simp_all add: forest_def g_ord_def)

lemma power_children: "(\<forall>c \<in> set cs. k \<le> f c) \<Longrightarrow> length cs * k \<le> sum_list (map f cs)"
  by (induction cs) auto

lemma bushy_height: "tree_at v h t \<Longrightarrow> bushy t \<Longrightarrow> 2 ^ (h - 1) \<le> length (gpages t)"
proof (induction v h t rule: tree_at.induct)
  case (2 v h i cs)
  obtain m where h: "h = Suc (Suc m)" using 2(2) by (metis One_nat_def less_imp_Suc_add plus_1_eq_Suc tree_at.simps(2))
  have "\<forall>c \<in> set cs. 2 ^ m \<le> length (gpages (snd c))" using 2 h by auto
  then have "length cs * 2 ^ m \<le> sum_list (map (\<lambda>c. length (gpages (snd c))) cs)" by (rule power_children)
  moreover have "sum_list (map (\<lambda>c. length (gpages (snd c))) cs) \<le> length (gpages (GNode i cs)) "
    by (induction cs) auto
  moreover have "2 * 2 ^ m \<le> length cs * 2 ^ m" using 2(3) by (intro mult_le_mono1) simp
  moreover have "2 ^ (h - 1) = 2 * (2 :: nat) ^ m" using h by simp
  ultimately show ?case by linarith
qed simp

lemma forest_page_ids:
  assumes "forest (view crc s) h [t]" "live crc s" "p \<in> forest_pages [t]"
  shows "2 \<le> p \<and> p < sb_page_count (pr_active s)"
  using assms tree_at_ids [OF forest_tree(1) [OF assms(1)], of p] view_id [OF _ assms(2), of p] by auto

lemma tree_height_bound:
  assumes "forest (view crc s) h [t]" "bushy t" "live crc s"
  shows "h \<le> MAX_TREE_HEIGHT"
proof -
  note t = forest_tree [OF assms(1)]
  have "set (gpages t) \<subseteq> {..< sb_page_count (pr_active s)}"
    using forest_page_ids [OF assms(1,3)] t(5) by auto
  then have "card (set (gpages t)) \<le> sb_page_count (pr_active s)" using card_mono [OF finite_lessThan] by fastforce
  then have "2 ^ (h - 1) \<le> sb_page_count (pr_active s)"
    using bushy_height [OF t(1) assms(2)] distinct_card [OF t(3)] by linarith
  moreover have "sb_page_count (pr_active s) \<le> u64_max"
    using assms(3) by (simp add: live_def pager_inv_def pager_file_ok_def sb_wf_def)
  ultimately have "2 ^ (h - 1) < (2::nat) ^ 64" by (simp add: u64_max_def)
  then have "h - 1 < 64" by (rule power_less_imp_less_exp [rotated]) simp
  then show ?thesis by (simp add: MAX_TREE_HEIGHT_def)
qed


subsection \<open>Reads\<close>

lemma same_store_root: "same_store s s' \<Longrightarrow> pager_root_page_id s' = pager_root_page_id s"
  using same_store_sel(2) [of s s'] by (simp add: pager_root_page_id_def)

lemma holds_same_store: "holds crc g s \<Longrightarrow> same_store s s' \<Longrightarrow> live crc s' \<Longrightarrow> holds crc g s'"
  using view_same_store [of s s' crc] same_store_root [of s s'] by (auto simp: holds_def split: option.splits)

lemma get_uninstrumented_of:
  assumes "holds crc g s" "length key \<le> 4096"
  shows "yields crc s (get_uninstrumented crc key) (map_of (content g) key)"
proof -
  have "yields crc s (case pager_root_page_id s of None \<Rightarrow> sret None | Some r \<Rightarrow> get_loop crc key MAX_TREE_HEIGHT r) (map_of (content g) key)"
  proof (cases g)
    case None
    then show ?thesis using assms(1) by (simp add: holds_def content_def yields_pure)
  next
    case (Some ht)
    then obtain h t where g: "g = Some (h, t)" by (cases ht) auto
    then have t: "pager_root_page_id s = Some (groot t)" "forest (view crc s) h [t]" "bushy t" "live crc s"
      using assms(1) by (simp_all add: holds_def)
    show ?thesis
      using get_loop_of [OF forest_tree(1,2) [OF t(2)] tree_height_bound [OF t(2-4)] t(4)] t(1) g by (simp add: content_def)
  qed
  then show ?thesis
    using assms(2)
    by (simp add: get_uninstrumented_def bt_validate_key_def MAX_TREE_KEY_BYTES_def) (rule yields_sread_bind, rule same_store_root)
qed

lemma al_range_content: "filter (in_range lo hi) kvs = filter (\<lambda>(k, _). lo \<le> k \<and> (case hi of None \<Rightarrow> True | Some h \<Rightarrow> k < h)) kvs"
  by (rule filter_cong) (cases hi; auto simp: in_range_def)+

lemma range_scan_of:
  assumes "holds crc g s" "length lo \<le> 4096" "\<And>h. hi = Some h \<Longrightarrow> length h \<le> 4096 \<and> lo \<le> h"
  shows "yields crc s (range_scan_uninstrumented crc lo hi limit) (take limit (filter (in_range lo hi) (content g)))"
proof -
  have valid: "(case hi of None \<Rightarrow> Inr () | Some h \<Rightarrow> rbind (bt_validate_key h) (\<lambda>_. ensure (\<not> h < lo) BtInvalidInput)) = Inr ()"
    using assms(3) by (cases hi) (auto simp: bt_validate_key_def MAX_TREE_KEY_BYTES_def ensure_eq_Inr not_less)
  have start: "bt_validate_key lo = Inr ()" using assms(2) by (simp add: bt_validate_key_def MAX_TREE_KEY_BYTES_def)
  show ?thesis
  proof (cases "limit = 0 \<or> hi = Some lo")
    case True
    have "filter (in_range lo (Some lo)) xs = []" for xs by (auto simp: in_range_def filter_empty_conv)
    then show ?thesis
      using True by (auto simp: range_scan_uninstrumented_def start valid intro!: yields_ret)
  next
    case False
    have "yields crc s (case pager_root_page_id s of None \<Rightarrow> sret []
        | Some r \<Rightarrow> sbind (scan_subtree crc lo hi limit MAX_TREE_HEIGHT r []) (\<lambda>(_, rows). sret rows))
      (take limit (filter (in_range lo hi) (content g)))"
    proof (cases g)
      case None
      then show ?thesis using assms(1) by (simp add: holds_def content_def yields_pure)
    next
      case (Some ht)
      then obtain h t where g: "g = Some (h, t)" by (cases ht) auto
      then have t: "pager_root_page_id s = Some (groot t)" "forest (view crc s) h [t]" "bushy t" "live crc s"
        using assms(1) by (simp_all add: holds_def)
      obtain fin where "yields crc s (scan_subtree crc lo hi limit MAX_TREE_HEIGHT (groot t) []) (fin, scan_rows lo hi limit [] (gkvs t))"
        using scan_subtree_of [OF forest_tree(1,2) [OF t(2)] tree_height_bound [OF t(2-4)] t(4), of "[]" limit lo hi] False by auto
      then show ?thesis
        using t(1) g by (simp add: content_def scan_rows_def) (erule yields_bind, simp add: yields_pure)
    qed
    then show ?thesis
      using False by (simp add: range_scan_uninstrumented_def start valid) (rule yields_sread_bind, rule same_store_root)
  qed
qed
subsection \<open>Starting a mutation\<close>

text \<open>No fault is due, and the file and the generation counter have room for \<open>n\<close> more pages.\<close>

definition space :: "nat \<Rightarrow> btree \<Rightarrow> bool" where
  "space n s \<longleftrightarrow> pr_faults s = [] \<and> (sb_page_count (pr_active s) + n) * 4096 \<le> u64_max \<and> sb_generation (pr_active s) + n \<le> u64_max"

lemma ready_space: "ready crc n s \<Longrightarrow> space n s"
  by (simp add: ready_def space_def)

lemma live_reusable: "live crc (s\<lparr>bt_reusable_pages := l\<rparr>) = live crc s" "view crc (s\<lparr>bt_reusable_pages := l\<rparr>) = view crc s"
  "pager_root_page_id (s\<lparr>bt_reusable_pages := l\<rparr>) = pager_root_page_id s"
proof -
  show "pager_root_page_id (s\<lparr>bt_reusable_pages := l\<rparr>) = pager_root_page_id s" by (simp add: pager_root_page_id_def)
  have "pager_page crc (s\<lparr>bt_reusable_pages := l\<rparr>) = pager_page crc s"
    by (simp add: pager_page_def fun_eq_iff cong: option.case_cong sum.case_cong)
  then show "live crc (s\<lparr>bt_reusable_pages := l\<rparr>) = live crc s" "view crc (s\<lparr>bt_reusable_pages := l\<rparr>) = view crc s"
    by (simp_all add: live_def pager_inv_def view_def fun_eq_iff)
qed

lemma live_instrumentation: "live crc (s\<lparr>bt_instrumentation := l\<rparr>) = live crc s" "view crc (s\<lparr>bt_instrumentation := l\<rparr>) = view crc s"
  "pager_root_page_id (s\<lparr>bt_instrumentation := l\<rparr>) = pager_root_page_id s"
proof -
  show "pager_root_page_id (s\<lparr>bt_instrumentation := l\<rparr>) = pager_root_page_id s" by (simp add: pager_root_page_id_def)
  have "pager_page crc (s\<lparr>bt_instrumentation := l\<rparr>) = pager_page crc s"
    by (simp add: pager_page_def fun_eq_iff cong: option.case_cong sum.case_cong)
  then show "live crc (s\<lparr>bt_instrumentation := l\<rparr>) = live crc s" "view crc (s\<lparr>bt_instrumentation := l\<rparr>) = view crc s"
    by (simp_all add: live_def pager_inv_def view_def fun_eq_iff)
qed

lemma validate_root_of:
  assumes "holds crc g s"
  shows "yields crc s (case pager_root_page_id s of None \<Rightarrow> sret {}
     | Some r \<Rightarrow> sbind (validate_subtree crc MAX_TREE_HEIGHT r {}) (\<lambda>(_, seen). sret seen)) (used_pages g)"
proof (cases g)
  case None
  then show ?thesis using assms by (simp add: holds_def used_pages_def yields_pure)
next
  case (Some ht)
  then obtain h t where g: "g = Some (h, t)" by (cases ht) auto
  then have t: "pager_root_page_id s = Some (groot t)" "forest (view crc s) h [t]" "bushy t" "live crc s"
    using assms by (simp_all add: holds_def)
  note f = forest_tree [OF t(2)]
  have "yields crc s (validate_subtree crc MAX_TREE_HEIGHT (groot t) {}) (bounds_of h t, set (gpages t) \<union> {})"
    by (rule validate_subtree_of [OF f(1) t(3) f(2,3) _ tree_height_bound [OF t(2-4)] t(4)]) simp
  then show ?thesis
    using t(1) g by (simp add: used_pages_def) (erule yields_bind, simp add: yields_pure)
qed

lemma used_page_ids: "holds crc g s \<Longrightarrow> p \<in> used_pages g \<Longrightarrow> 2 \<le> p \<and> p < sb_page_count (pr_active s)"
  using forest_page_ids by (fastforce simp: holds_def used_pages_def split: option.splits)

lemma refresh_reusable_pages_ok:
  assumes g: "holds crc g s" and room: "space n s"
  obtains s' where "refresh_reusable_pages crc s = (Inr (), s')" "holds crc g s'" "ready crc n s'" "used_pages g \<inter> avail s' = {}"
    "bt_instrumentation s' = bt_instrumentation s"
proof -
  obtain s1 where s1: "(case pager_root_page_id s of None \<Rightarrow> sret {}
     | Some r \<Rightarrow> sbind (validate_subtree crc MAX_TREE_HEIGHT r {}) (\<lambda>(_, seen). sret seen)) s = (Inr (used_pages g), s1)"
    "same_store s s1" "live crc s1"
    using yields_run [OF validate_root_of [OF g] holds_live [OF g]] by blast
  let ?n = "sb_page_count (pr_active s)"
  have n2: "2 \<le> ?n" using holds_live [OF g] by (simp add: live_def pager_inv_def pager_file_ok_def sb_wf_def)
  have stop: "checked_add64 SUPERBLOCK_COUNT (pager_data_page_count s1) = Some ?n"
  proof -
    have "Suc (Suc (?n - 2)) = ?n" using n2 by simp
    moreover have "?n \<le> u64_max" using room by (simp add: space_def add_mult_distrib)
    ultimately show ?thesis
      using same_store_sel(2) [OF s1(2)] by (simp add: checked_add64_def pager_data_page_count_def SUPERBLOCK_COUNT_def)
  qed
  define l where "l = filter (\<lambda>p. p \<notin> used_pages g) [2..<?n]"
  define s2 where "s2 = s1\<lparr>bt_reusable_pages := l\<rparr>"
  have step: "sbind (case pager_root_page_id s of None \<Rightarrow> sret {}
     | Some r \<Rightarrow> sbind (validate_subtree crc MAX_TREE_HEIGHT r {}) (\<lambda>(_, seen). sret seen)) f s = f (used_pages g) s1"
    for f :: "nat set \<Rightarrow> unit tree_act"
    using s1(1) by (rule sbind_run(1))
  have run: "refresh_reusable_pages crc s = (Inr (), s2)"
    by (simp add: refresh_reusable_pages_def step stop act_simps s2_def l_def) (simp add: SUPERBLOCK_COUNT_def)
  have g1: "holds crc g s1" by (rule holds_same_store [OF g s1(2,3)])
  have g2: "holds crc g s2"
    using g1 live_reusable(1,2) [of crc l s1] live_reusable(3) [of l s1] by (auto simp: holds_def s2_def split: option.splits)
  have "ready crc n s2"
    using g2 room same_store_sel(2,3) [OF s1(2)] by (auto simp: ready_def space_def s2_def l_def holds_live)
  moreover have "used_pages g \<inter> avail s2 = {}"
    using used_page_ids [OF g] same_store_sel(2) [OF s1(2)] by (fastforce simp: avail_def s2_def l_def)
  moreover have "bt_instrumentation s2 = bt_instrumentation s" using same_store_btree [OF s1(2)] by (simp add: s2_def)
  ultimately show ?thesis using that [OF run g2] by blast
qed


subsection \<open>Insertion\<close>

text \<open>The part of \<open>put\<close> that builds the new tree.\<close>

definition put_tree :: "(bytes \<Rightarrow> 32 word) \<Rightarrow> bytes \<Rightarrow> bytes \<Rightarrow> nat tree_act" where
  "put_tree crc key val =
     sbind (store_key crc key) (\<lambda>stored_key.
     sbind (store_value crc stored_key val) (\<lambda>stored_value.
     sbind (sread pager_root_page_id) (\<lambda>root.
     sbind (case root of
              Some r \<Rightarrow> rewrite_insert crc stored_key stored_value MAX_TREE_HEIGHT r
            | None \<Rightarrow> sbind (commit_leaf crc [\<lparr>lf_key = stored_key, lf_value = stored_value\<rparr>]) (\<lambda>c. sret [c])) (\<lambda>replacements.
     case replacements of
       [only] \<Rightarrow> sret (cr_page_id only)
     | [_, _] \<Rightarrow> sbind (commit_internal crc replacements) (\<lambda>c. sret (cr_page_id c))
     | _ \<Rightarrow> sfail (BtCorruption 0)))))"

lemma btree_put_tree:
  "btree_put crc key val =
     sbind (slift (bt_validate_key_value key val)) (\<lambda>_.
     sbind (sread pr_data_page_bytes_written) (\<lambda>data_write_before.
     sbind (get_uninstrumented crc key) (\<lambda>previous.
     sbind (refresh_reusable_pages crc) (\<lambda>_.
     sbind (put_tree crc key val) (\<lambda>new_root.
     sbind (pager_set_root crc (Some new_root)) (\<lambda>_.
     sbind (record_mutation (saturating_add64 (length key) (length val)) data_write_before) (\<lambda>_.
     sret previous)))))))"
  by (simp add: btree_put_def put_tree_def sbind_assoc)

definition grown :: "(bytes \<Rightarrow> 32 word) \<Rightarrow> (bytes \<times> bytes) list \<Rightarrow> nat set \<Rightarrow> btree \<Rightarrow> nat \<Rightarrow> nat set \<Rightarrow> bool" where
  "grown crc kvs old s r P \<longleftrightarrow> (\<exists>h t. r = groot t \<and> forest (view crc s) h [t] \<and> bushy t \<and> gkvs t = kvs \<and> forest_pages [t] \<subseteq> P \<union> old)"

lemma writes_new_root:
  assumes ts: "length ts \<in> {1, 2}" "replaced h kvs old (view crc s) P ts" and used: "(P \<union> old) \<inter> avail s = {}" and live: "live crc s"
    and small: "\<forall>x \<in> set kvs. small_kv x"
  shows "writes crc 600 s (case map ref_of ts of
       [only] \<Rightarrow> sret (cr_page_id only)
     | [_, _] \<Rightarrow> sbind (commit_internal crc (map ref_of ts)) (\<lambda>c. sret (cr_page_id c))
     | _ \<Rightarrow> sfail (BtCorruption 0)) (\<lambda>r P' s'. grown crc kvs old s' r (P \<union> P'))"
proof -
  have f: "forest (view crc s) h ts" "concat (map gkvs ts) = kvs" "forest_pages ts \<subseteq> P \<union> old" "\<forall>t \<in> set ts. bushy t"
    using ts(2) by (simp_all add: replaced_def)
  consider (one) t where "ts = [t]" | (two) l r where "ts = [l, r]"
    using ts(1) by (auto simp: length_Suc_conv numeral_2_eq_2)
  then show ?thesis
  proof cases
    case one
    then have "grown crc kvs old s (groot t) (P \<union> {})" using f unfolding grown_def by auto
    then show ?thesis using one by (auto intro: writes_pure)
  next
    case two
    have fits: "sum_list (map child_size ts) \<le> 4052"
      using small_child [OF f(1), of l] small_child [OF f(1), of r] small two unfolding f(2) by simp
    have used': "forest_pages ts \<inter> avail s = {}" "ts \<noteq> []" using f(3) used two by auto
    have "writes crc (600 + 0) s (sbind (commit_internal crc (map ref_of ts)) (\<lambda>c. sret (cr_page_id c)))
        (\<lambda>r P' s'. grown crc kvs old s' r (P \<union> P'))"
    proof (rule writes_bind [OF writes_internal [OF f(1) used'(2,1) live fits]])
      fix c P' s' assume "\<exists>t. c = ref_of t \<and> raised h (view crc s') ts P' t"
      then obtain t where t: "c = ref_of t" "raised h (view crc s') ts P' t" by blast
      have "forest_pages [t] \<subseteq> P \<union> P' \<union> old" using t(2) f(3) unfolding raised_def by blast
      moreover have "bushy t" using raised_bushy [OF t(2)] f(4) two by simp
      ultimately have "grown crc kvs old s' (groot t) (P \<union> P')"
        using t(2) raised_content [OF t(2)] f(2) unfolding grown_def raised_def by blast
      then show "writes crc 0 s' (sret (cr_page_id c)) (\<lambda>r Q s''. P' \<inter> Q = {} \<longrightarrow> grows crc Q s' s'' \<longrightarrow> grown crc kvs old s'' r (P \<union> (P' \<union> Q)))"
        using t(1) by (intro writes_pure impI) simp
    qed
    then show ?thesis using two by simp
  qed
qed

definition fresh_entry :: "(bytes \<Rightarrow> 32 word) \<Rightarrow> btree \<Rightarrow> nat set \<Rightarrow> blob \<times> blob \<Rightarrow> bool" where
  "fresh_entry crc s old e \<longleftrightarrow> blob_at (view crc s) 4096 (fst e) \<and> blob_at (view crc s) 1048576 (snd e) \<and> entry_canon e \<and>
     small_kv (kv_of e) \<and> distinct (entry_pages e) \<and> set (entry_pages e) \<inter> avail s = {} \<and> set (entry_pages e) \<inter> old = {}"

lemma writes_put_entry:
  assumes g: "holds crc g s" "used_pages g \<inter> avail s = {}" "\<forall>x \<in> set (content g). small_kv x"
    and e: "fresh_entry crc s (used_pages g) e"
  shows "writes crc 76800 s (case pager_root_page_id s of
       Some r \<Rightarrow> rewrite_insert crc (stored_key_of (fst e)) (stored_value_of (snd e)) MAX_TREE_HEIGHT r
     | None \<Rightarrow> sbind (commit_leaf crc [\<lparr>lf_key = stored_key_of (fst e), lf_value = stored_value_of (snd e)\<rparr>]) (\<lambda>c. sret [c]))
    (\<lambda>cs P s'. \<exists>h ts. cs = map ref_of ts \<and> length ts \<in> {1, 2} \<and>
       replaced h (al_insert (bl_bytes (fst e)) (bl_bytes (snd e)) (content g)) (used_pages g \<union> set (entry_pages e)) (view crc s') P ts)"
proof (cases g)
  case None
  have root: "pager_root_page_id s = None" using g(1) None by (simp add: holds_def)
  have ok: "entries_ok (view crc s) [e]" using e by (simp add: entries_ok_def leaf_ok_def fresh_entry_def)
  have used: "set (concat (map entry_pages [e])) \<inter> avail s = {}" using e by (simp add: fresh_entry_def)
  have fit: "cells_total (map leaf_cell [e]) \<le> 4052" using small_leaf_cell [of e] e by (simp add: fresh_entry_def)
  have "writes crc (1 + 0) s (sbind (commit_leaf crc (map entry_of [e])) (\<lambda>c. sret [c]))
    (\<lambda>cs P s'. \<exists>h ts. cs = map ref_of ts \<and> length ts \<in> {1, 2} \<and>
       replaced h (al_insert (bl_bytes (fst e)) (bl_bytes (snd e)) (content g)) (used_pages g \<union> set (entry_pages e)) (view crc s') P ts)"
  proof (rule writes_bind [OF writes_leaf [OF ok used fit holds_live [OF g(1)]]])
    fix c P s' assume "\<exists>i. c = ref_of (GLeaf i [e]) \<and> P = {i} \<and> forest (view crc s') 1 [GLeaf i [e]]"
    then obtain i where i: "c = ref_of (GLeaf i [e])" "P = {i}" "forest (view crc s') 1 [GLeaf i [e]]" by blast
    have "replaced 1 (al_insert (bl_bytes (fst e)) (bl_bytes (snd e)) (content g)) (used_pages g \<union> set (entry_pages e)) (view crc s') P [GLeaf i [e]]"
      using i(2,3) None by (simp add: replaced_def content_def used_pages_def kv_of_def)
    then show "writes crc 0 s' (sret [c]) (\<lambda>cs P' s''. P \<inter> P' = {} \<longrightarrow> grows crc P' s' s'' \<longrightarrow> (\<exists>h ts. cs = map ref_of ts \<and> length ts \<in> {1, 2} \<and>
       replaced h (al_insert (bl_bytes (fst e)) (bl_bytes (snd e)) (content g)) (used_pages g \<union> set (entry_pages e)) (view crc s'') (P \<union> P') ts))"
      using i(1) by (intro writes_pure impI exI [of _ 1] exI [of _ "[GLeaf i [e]]"]) simp
  qed
  then show ?thesis using root by (simp add: entry_of_def [symmetric]) (erule writes_mono, auto)
next
  case (Some ht)
  then obtain h t where ht: "g = Some (h, t)" by (cases ht) auto
  then have t: "pager_root_page_id s = Some (groot t)" "forest (view crc s) h [t]" "bushy t" "live crc s" "forest_pages [t] \<inter> avail s = {}"
    "\<forall>x \<in> set (gkvs t). small_kv x"
    using g by (simp_all add: holds_def used_pages_def content_def)
  have e': "new_entry crc s t e" using e ht by (simp add: new_entry_def fresh_entry_def used_pages_def)
  note height = tree_height_bound [OF t(2-4)]
  have "writes crc 76800 s (rewrite_insert crc (stored_key_of (fst e)) (stored_value_of (snd e)) MAX_TREE_HEIGHT (groot t))
    (\<lambda>cs P s'. \<exists>h ts. cs = map ref_of ts \<and> length ts \<in> {1, 2} \<and>
       replaced h (al_insert (bl_bytes (fst e)) (bl_bytes (snd e)) (gkvs t)) (forest_pages [t] \<union> set (entry_pages e)) (view crc s') P ts)"
    by (rule writes_mono [OF writes_rewrite_insert [OF t(2,3,5,4) height t(6) e']]) (use height in \<open>simp_all add: MAX_TREE_HEIGHT_def\<close>, blast)
  then show ?thesis using t(1) ht by (simp add: content_def used_pages_def)
qed

lemma holds_grows:
  assumes "holds crc g s" "used_pages g \<inter> avail s = {}" "grows crc P s s'" "live crc s'"
  shows "holds crc g s'" "used_pages g \<inter> avail s' = {}"
proof -
  have "pager_root_page_id s' = pager_root_page_id s" using assms(3) by (simp add: grows_def)
  then show "holds crc g s'"
    using assms forest_grows [OF assms(3)] by (auto simp: holds_def used_pages_def split: option.splits)
  show "used_pages g \<inter> avail s' = {}" by (rule grows_fresh [OF assms(3,2)])
qed

lemma writes_put_tree:
  assumes g: "holds crc g s" "used_pages g \<inter> avail s = {}" "\<forall>x \<in> set (content g). small_kv x"
    and kv: "length key \<le> 4096" "length val \<le> 1048576" "small_kv (key, val)"
  shows "writes crc 77662 s (put_tree crc key val) (\<lambda>r P s'. grown crc (al_insert key val (content g)) (used_pages g) s' r P)"
proof -
  let ?kvs = "al_insert key val (content g)"
  have "writes crc (2 + (260 + (76800 + 600))) s (put_tree crc key val) (\<lambda>r P s'. grown crc ?kvs (used_pages g) s' r P)"
    unfolding put_tree_def
  proof (rule writes_bind [OF writes_store_key [OF kv(1) holds_live [OF g(1)]]])
    fix sk P s1 assume g1: "grows crc P s s1" "live crc s1"
      and "\<exists>b. sk = stored_key_of b \<and> bl_bytes b = key \<and> P = set (bl_pages b) \<and> blob_at (view crc s1) 4096 b \<and> key_canon b"
    then obtain kb where kb: "sk = stored_key_of kb" "bl_bytes kb = key" "P = set (bl_pages kb)" "blob_at (view crc s1) 4096 kb" "key_canon kb"
      by blast
    note h1 = holds_grows [OF g(1,2) g1]
    show "writes crc (260 + (76800 + 600)) s1 (sbind (store_value crc sk val) (\<lambda>stored_value.
       sbind (sread pager_root_page_id) (\<lambda>root.
       sbind (case root of
                Some r \<Rightarrow> rewrite_insert crc sk stored_value MAX_TREE_HEIGHT r
              | None \<Rightarrow> sbind (commit_leaf crc [\<lparr>lf_key = sk, lf_value = stored_value\<rparr>]) (\<lambda>c. sret [c])) (\<lambda>replacements.
       case replacements of
         [only] \<Rightarrow> sret (cr_page_id only)
       | [_, _] \<Rightarrow> sbind (commit_internal crc replacements) (\<lambda>c. sret (cr_page_id c))
       | _ \<Rightarrow> sfail (BtCorruption 0)))))
      (\<lambda>r P' s'. P \<inter> P' = {} \<longrightarrow> grows crc P' s1 s' \<longrightarrow> grown crc ?kvs (used_pages g) s' r (P \<union> P'))"
      unfolding kb(1)
    proof (rule writes_bind [OF writes_store_value [OF kv(2) g1(2) payload_canon [OF kb(5)]]])
      fix sv P2 s2 assume g2: "grows crc P2 s1 s2" "live crc s2"
        and "\<exists>b. sv = stored_value_of b \<and> bl_bytes b = val \<and> P2 = set (bl_pages b) \<and> blob_at (view crc s2) 1048576 b \<and>
          (bl_pages b = [] \<longleftrightarrow> 10 + length (payload_of kb) + length val \<le> 4052)"
      then obtain vb where vb: "sv = stored_value_of vb" "bl_bytes vb = val" "P2 = set (bl_pages vb)" "blob_at (view crc s2) 1048576 vb"
          "bl_pages vb = [] \<longleftrightarrow> 10 + length (payload_of kb) + length val \<le> 4052"
        by blast
      note h2 = holds_grows [OF h1 g2]
      have new: "P \<inter> avail s1 = {}" "P2 \<inter> avail s2 = {}" using grows_new g1(1) g2(1) by blast+
      have P: "P \<inter> P2 = {}" "P \<inter> avail s2 = {}" "used_pages g \<inter> P = {}" "used_pages g \<inter> P2 = {}"
        using grows_disjoint [OF g1(1) g2(1)] grows_fresh [OF g2(1) new(1)] grows_used [OF g1(1) g(2)] grows_used [OF g2(1) h1(2)] by blast+
      have kb': "blob_at (view crc s2) 4096 kb" using blob_at_grows [OF g2(1) kb(4)] new(1) kb(3) by simp
      have dist: "distinct (bl_pages kb)" "distinct (bl_pages vb)"
        using kb' vb(4) by (cases "bl_pages kb = []"; cases "bl_pages vb = []"; simp add: blob_at_def)+
      have e: "fresh_entry crc s2 (used_pages g) (kb, vb)"
        using kb' vb kb kv(3) dist P new(2)
        by (auto simp: fresh_entry_def entry_canon_def kv_of_def entry_pages_def)
      have build: "writes crc 76800 s2 (case pager_root_page_id s2 of
                Some r \<Rightarrow> rewrite_insert crc (stored_key_of kb) (stored_value_of vb) MAX_TREE_HEIGHT r
              | None \<Rightarrow> sbind (commit_leaf crc [\<lparr>lf_key = stored_key_of kb, lf_value = stored_value_of vb\<rparr>]) (\<lambda>c. sret [c]))
        (\<lambda>cs P3 s3. \<exists>h ts. cs = map ref_of ts \<and> length ts \<in> {1, 2} \<and>
          replaced h ?kvs (used_pages g \<union> (P \<union> P2)) (view crc s3) P3 ts)"
        using writes_put_entry [OF h2 g(3) e]
        unfolding fst_conv snd_conv kb(2) vb(2) kb(3) vb(3) entry_pages_def set_append .
      have "writes crc (76800 + 600) s2 (sbind (case pager_root_page_id s2 of
                Some r \<Rightarrow> rewrite_insert crc (stored_key_of kb) (stored_value_of vb) MAX_TREE_HEIGHT r
              | None \<Rightarrow> sbind (commit_leaf crc [\<lparr>lf_key = stored_key_of kb, lf_value = stored_value_of vb\<rparr>]) (\<lambda>c. sret [c])) (\<lambda>replacements.
         case replacements of
           [only] \<Rightarrow> sret (cr_page_id only)
         | [_, _] \<Rightarrow> sbind (commit_internal crc replacements) (\<lambda>c. sret (cr_page_id c))
         | _ \<Rightarrow> sfail (BtCorruption 0)))
        (\<lambda>r P3 s'. grown crc ?kvs (used_pages g \<union> (P \<union> P2)) s' r P3)"
      proof (rule writes_bind [OF build])
        fix cs P3 s3 assume g3: "grows crc P3 s2 s3" "live crc s3" and "\<exists>h ts. cs = map ref_of ts \<and> length ts \<in> {1, 2} \<and>
          replaced h ?kvs (used_pages g \<union> (P \<union> P2)) (view crc s3) P3 ts"
        then obtain h ts where ts: "cs = map ref_of ts" "length ts \<in> {1, 2}"
          "replaced h ?kvs (used_pages g \<union> (P \<union> P2)) (view crc s3) P3 ts" by blast
        have "(P3 \<union> (used_pages g \<union> (P \<union> P2))) \<inter> avail s3 = {}"
          using grows_new [OF g3(1)] grows_fresh [OF g3(1), of "used_pages g \<union> (P \<union> P2)"] h2(2) P(2) new(2) by blast
        moreover have "\<forall>x \<in> set ?kvs. small_kv x" using set_al_insert [of key val "content g"] g(3) kv(3) by blast
        ultimately have "writes crc 600 s3 (case map ref_of ts of
             [only] \<Rightarrow> sret (cr_page_id only)
           | [_, _] \<Rightarrow> sbind (commit_internal crc (map ref_of ts)) (\<lambda>c. sret (cr_page_id c))
           | _ \<Rightarrow> sfail (BtCorruption 0)) (\<lambda>r P' s'. grown crc ?kvs (used_pages g \<union> (P \<union> P2)) s' r (P3 \<union> P'))"
          using ts(2,3) g3(2) by (intro writes_new_root)
        then show "writes crc 600 s3 (case cs of
             [only] \<Rightarrow> sret (cr_page_id only)
           | [_, _] \<Rightarrow> sbind (commit_internal crc cs) (\<lambda>c. sret (cr_page_id c))
           | _ \<Rightarrow> sfail (BtCorruption 0)) (\<lambda>r P' s'. P3 \<inter> P' = {} \<longrightarrow> grows crc P' s3 s' \<longrightarrow> grown crc ?kvs (used_pages g \<union> (P \<union> P2)) s' r (P3 \<union> P'))"
          unfolding ts(1) by (rule writes_mono) simp_all
      qed
      then show "writes crc (76800 + 600) s2 (sbind (sread pager_root_page_id) (\<lambda>root.
       sbind (case root of
                Some r \<Rightarrow> rewrite_insert crc (stored_key_of kb) sv MAX_TREE_HEIGHT r
              | None \<Rightarrow> sbind (commit_leaf crc [\<lparr>lf_key = stored_key_of kb, lf_value = sv\<rparr>]) (\<lambda>c. sret [c])) (\<lambda>replacements.
       case replacements of
         [only] \<Rightarrow> sret (cr_page_id only)
       | [_, _] \<Rightarrow> sbind (commit_internal crc replacements) (\<lambda>c. sret (cr_page_id c))
       | _ \<Rightarrow> sfail (BtCorruption 0))))
      (\<lambda>r P3 s'. P2 \<inter> P3 = {} \<longrightarrow> grows crc P3 s2 s' \<longrightarrow> P \<inter> (P2 \<union> P3) = {} \<longrightarrow> grows crc (P2 \<union> P3) s1 s' \<longrightarrow>
         grown crc ?kvs (used_pages g) s' r (P \<union> (P2 \<union> P3)))"
        unfolding vb(1) writes_pure_bind by (rule writes_mono) (auto simp: grown_def)
    qed
  qed
  then show ?thesis by simp
qed

subsection \<open>Publishing the new root\<close>

lemma holds_instrumentation: "holds crc g (s\<lparr>bt_instrumentation := l\<rparr>) = holds crc g s"
  using live_instrumentation(1,2) [of crc l s] live_instrumentation(3) [of l s] by (simp add: holds_def split: option.splits)

lemma set_root_ok:
  assumes s: "live crc s" "space (n + 1) s"
    and g: "case g of None \<Rightarrow> True | Some (h, t) \<Rightarrow> forest (view crc s) h [t] \<and> bushy t"
  obtains s' where "pager_set_root crc (map_option (\<lambda>(h, t). groot t) g) s = (Inr (), s')" "holds crc g s'" "space n s'"
proof -
  let ?r = "map_option (\<lambda>(h, t). groot t) g"
  have pg: "pager_page crc s q \<noteq> None" if "?r = Some q" for q
  proof -
    obtain h t where "g = Some (h, t)" "q = groot t" using \<open>?r = Some q\<close> by auto
    then have "view crc s q \<noteq> None" using g tree_at_ids [of "view crc s" h t "groot t"] by (simp add: forest_def)
    then show ?thesis by (simp add: view_def)
  qed
  have room: "sb_generation (pr_active s) + 1 \<le> u64_max" "pr_faults s = []" using s(2) by (simp_all add: space_def)
  have inv: "pager_inv crc s" "\<not> pr_poisoned s" "bt_cache_capacity s \<noteq> 0" using s(1) by (simp_all add: live_def)
  obtain s' where s': "pager_set_root crc ?r s = (Inr (), s')" "pager_inv crc s'" "\<not> pr_poisoned s'" "pr_faults s' = []"
    "pager_page crc s' = pager_page crc s" "pager_root_page_id s' = ?r" "sb_page_count (pr_active s') = sb_page_count (pr_active s)"
    "sb_generation (pr_active s') \<le> sb_generation (pr_active s) + 1" "pager.more s' = pager.more s"
    using pager_set_root_ok [OF inv(1,2) room(2) pg room(1)] by blast
  have "view crc s' = view crc s" using s'(5) by (simp add: view_def fun_eq_iff)
  then have "holds crc g s'" using g s'(2,3,6) inv(3) same_extension [OF s'(9)] by (auto simp: holds_def live_def split: option.splits)
  moreover have "space n s'" using s(2) s'(4,7,8) by (simp add: space_def add_mult_distrib)
  ultimately show ?thesis using that [OF s'(1)] by blast
qed

lemma holds_space_mutation:
  assumes "record_mutation a b s = (r, s')" "holds crc g s" "space n s"
  shows "r = Inr ()" "holds crc g s'" "space n s'"
  using assms holds_instrumentation by (auto simp: record_mutation_def act_simps Let_def space_def)

lemma btree_put_ok:
  assumes g: "holds crc g s" "\<forall>x \<in> set (content g). small_kv x" and room: "space (77663 + n) s"
    and kv: "length key \<le> 4096" "length val \<le> 1048576" "small_kv (key, val)"
  obtains g' s' where "btree_put crc key val s = (Inr (map_of (content g) key), s')" "holds crc g' s'"
    "content g' = al_insert key val (content g)" "space n s'"
proof -
  have valid: "bt_validate_key_value key val = Inr ()"
    using kv by (simp add: bt_validate_key_value_def bt_validate_key_def node_consts try_u32_def)
  obtain s1 where s1: "get_uninstrumented crc key s = (Inr (map_of (content g) key), s1)" "same_store s s1" "live crc s1"
    using yields_run [OF get_uninstrumented_of [OF g(1) kv(1)] holds_live [OF g(1)]] by blast
  have g1: "holds crc g s1" "space (77662 + (n + 1)) s1"
    using holds_same_store [OF g(1) s1(2,3)] room same_store_sel(2,3) [OF s1(2)] by (simp_all add: space_def)
  obtain s2 where s2: "refresh_reusable_pages crc s1 = (Inr (), s2)" "holds crc g s2" "ready crc (77662 + (n + 1)) s2" "used_pages g \<inter> avail s2 = {}"
    using refresh_reusable_pages_ok [OF g1] by blast
  obtain r P s3 where s3: "put_tree crc key val s2 = (Inr r, s3)" "ready crc (n + 1) s3"
    "grown crc (al_insert key val (content g)) (used_pages g) s3 r P"
    using writes_put_tree [OF s2(2,4) g(2) kv] s2(3) unfolding writes_def by blast
  then obtain h t where t: "r = groot t" "forest (view crc s3) h [t]" "bushy t" "gkvs t = al_insert key val (content g)"
    unfolding grown_def by blast
  obtain s4 where s4: "pager_set_root crc (Some r) s3 = (Inr (), s4)" "holds crc (Some (h, t)) s4" "space n s4"
    using set_root_ok [OF ready_live [OF s3(2)] ready_space [OF s3(2)], of "Some (h, t)"] t by auto
  obtain x s5 where s5: "record_mutation (saturating_add64 (length key) (length val)) (pr_data_page_bytes_written s) s4 = (x, s5)" by force
  note m = holds_space_mutation [OF s5 s4(2,3)]
  have step1: "sbind (get_uninstrumented crc key) f s = f (map_of (content g) key) s1" for f :: "bytes option \<Rightarrow> bytes option tree_act"
    using s1(1) by (rule sbind_run(1))
  have step2: "sbind (refresh_reusable_pages crc) f s1 = f () s2" for f :: "unit \<Rightarrow> bytes option tree_act"
    using s2(1) by (rule sbind_run(1))
  have step3: "sbind (put_tree crc key val) f s2 = f r s3" for f :: "nat \<Rightarrow> bytes option tree_act"
    using s3(1) by (rule sbind_run(1))
  have step4: "sbind (pager_set_root crc (Some r)) f s3 = f () s4" for f :: "unit \<Rightarrow> bytes option tree_act"
    using s4(1) by (rule sbind_run(1))
  have step5: "sbind (record_mutation (saturating_add64 (length key) (length val)) (pr_data_page_bytes_written s)) f s4 = f () s5"
    for f :: "unit \<Rightarrow> bytes option tree_act"
    using s5 unfolding m(1) by (rule sbind_run(1))
  have "btree_put crc key val s = (Inr (map_of (content g) key), s5)"
    using valid by (simp add: btree_put_tree step1 step2 step3 step4 step5 act_simps)
  then show ?thesis using that [OF _ m(2) _ m(3)] t(4) by (simp add: content_def)
qed

end
