(* ===== verification/BtreeDelete.thy ===== *)
theory BtreeDelete
  imports BtreePut
begin

text \<open>
  Deletion.  \<open>rewrite_delete\<close> drops the entry, merges or rebalances an underfull child with a
  neighbour, and the root loses its level when one child is left.  Separators may change when a
  minimum goes away, so the keys of the tree are taken to have one stored size.
\<close>

subsection \<open>Underfull pages\<close>

lemma underfull_scan:
  assumes "page_validate crc p = Inr ()" "\<And>i. i \<in> set is \<Longrightarrow> i < page_cell_count p"
    and "used + sum_list (map (\<lambda>i. 4 + length (page_cells p ! i)) is) \<le> u64_max"
  shows "rfold (\<lambda>used index. rbind (page_cell crc p index) (\<lambda>cell.
       ok_or (Option.bind (checked_add64 used SLOT_LEN) (\<lambda>v. checked_add64 v (length cell))) (BtCorruption 0))) used is =
     Inr (used + sum_list (map (\<lambda>i. 4 + length (page_cells p ! i)) is))"
  using assms(2,3)
proof (induction "is" arbitrary: used)
  case Nil
  then show ?case by simp
next
  case (Cons i "is")
  let ?l = "length (page_cells p ! i)"
  have "page_cell crc p i = Inr (page_cells p ! i)" using Cons.prems(1) page_cell_nth [OF assms(1)] by simp
  moreover have "Option.bind (checked_add64 used SLOT_LEN) (\<lambda>v. checked_add64 v ?l) = Some (used + (4 + ?l))"
    using Cons.prems(2) by (simp add: checked_add64_def SLOT_LEN_def)
  moreover have "rfold (\<lambda>used index. rbind (page_cell crc p index) (\<lambda>cell.
       ok_or (Option.bind (checked_add64 used SLOT_LEN) (\<lambda>v. checked_add64 v (length cell))) (BtCorruption 0))) (used + (4 + ?l)) is =
     Inr (used + (4 + ?l) + sum_list (map (\<lambda>i. 4 + length (page_cells p ! i)) is))"
    using Cons.prems by (intro Cons.IH) (simp_all add: add.assoc)
  ultimately show ?case by (simp add: add.assoc)
qed

definition underfull :: "pview \<Rightarrow> bool" where
  "underfull x \<longleftrightarrow> (case x of (kind, _, cells) \<Rightarrow> kind = PkInternal \<and> length cells < 2 \<or> cells_total cells < 2026)"

lemma page_is_underfull_of:
  assumes "page_validate crc p = Inr ()" "pg_kind p \<noteq> PkOverflow" "cells_total (page_cells p) \<le> 4052"
  shows "page_is_underfull crc p = Inr (underfull (pg_kind p, l, page_cells p))"
proof -
  have "map (\<lambda>i. 4 + length (page_cells p ! i)) [0..<page_cell_count p] = map (\<lambda>c. 4 + length c) (page_cells p)"
    by (rule nth_equalityI) simp_all
  then have "sum_list (map (\<lambda>i. 4 + length (page_cells p ! i)) [0..<page_cell_count p]) = cells_total (page_cells p)"
    by (simp add: cells_total_sizes)
  then show ?thesis
    using assms underfull_scan [OF assms(1), of "[0..<page_cell_count p]" 0]
    by (auto simp: page_is_underfull_def underfull_def u64_max_def node_consts MIN_PAGE_FILL_def)
qed


text \<open>The page of a subtree's root.\<close>

fun g_kind :: "gtree \<Rightarrow> page_kind" where
  "g_kind (GLeaf i es) = PkLeaf"
| "g_kind (GNode i cs) = PkInternal"

fun g_cells :: "gtree \<Rightarrow> bytes list" where
  "g_cells (GLeaf i es) = map leaf_cell es"
| "g_cells (GNode i cs) = map node_cell cs"

text \<open>A subtree whose root may have a single child.\<close>

fun near :: "gtree \<Rightarrow> bool" where
  "near (GLeaf i es) \<longleftrightarrow> True"
| "near (GNode i cs) \<longleftrightarrow> (\<forall>c \<in> set cs. bushy (snd c))"

lemma bushy_near: "bushy t \<Longrightarrow> near t"
  by (cases t) auto

lemma near_full: "near t \<Longrightarrow> \<not> underfull (g_kind t, l, g_cells t) \<Longrightarrow> bushy t"
  by (cases t) (auto simp: underfull_def)

lemma forest_root_page:
  assumes "forest (view crc s) h [t]" "live crc s"
  obtains p where "pager_page crc s (groot t) = Some p" "pg_kind p = g_kind t" "page_cells p = g_cells t" "page_validate crc p = Inr ()"
    "cells_total (g_cells t) \<le> 4052" "page_is_underfull crc p = Inr (underfull (g_kind t, None, g_cells t))"
proof -
  have v: "view crc s (groot t) = Some (g_kind t, None, g_cells t)" using assms(1) by (cases t) (simp_all add: forest_def)
  have total: "cells_total (g_cells t) \<le> 4052" using view_room [OF v assms(2)] by (simp add: cells_room_fit cells_fit_iff)
  obtain p where p: "pager_page crc s (groot t) = Some p" "pg_kind p = g_kind t" "page_cells p = g_cells t" "page_validate crc p = Inr ()"
    using view_Some [OF v] by metis
  have "g_kind t \<noteq> PkOverflow" by (cases t) simp_all
  then show ?thesis using that [OF p total] page_is_underfull_of [OF p(4), of None] p(2,3) total by simp
qed

lemma same_level_kind: "forest v h [l, r] \<Longrightarrow> g_kind l = g_kind r"
  by (cases l; cases r) (auto simp: forest_def)


subsection \<open>Merging two neighbours\<close>

lemma forest_single: "forest v h (l # rs) \<Longrightarrow> forest v h [l]" "forest v h (l # rs) \<Longrightarrow> forest v h rs"
  using forest_append [of v h "[l]" rs] by simp_all

lemma forest_two_leaves:
  assumes "forest v h [GLeaf i es, GLeaf j fs]"
  shows "entries_ok v (es @ fs)" "h = 1"
  using assms by (auto simp: forest_def entries_ok_def leaf_ok_def sorted_wrt_append comp_def)

lemma forest_two_nodes:
  assumes "forest v h [GNode i cs, GNode j ds]"
  shows "forest v (h - 1) (map snd cs @ map snd ds)" "1 < h"
    "forest_pages (map snd cs @ map snd ds) \<subseteq> forest_pages [GNode i cs, GNode j ds]"
proof -
  have both: "forest v h [GNode i cs]" "forest v h [GNode j ds]" using forest_single [OF assms] by simp_all
  note f = forest_children [OF both(1)] and g = forest_children [OF both(2)]
  have sep: "forest_pages [GNode i cs] \<inter> forest_pages [GNode j ds] = {}"
    "\<forall>x \<in> set (gkvs (GNode i cs)). \<forall>y \<in> set (gkvs (GNode j ds)). fst x < fst y"
    using forest_append [of v h "[GNode i cs]" "[GNode j ds]"] assms by (simp_all del: gkvs.simps gpages.simps)
  have kvs: "gkvs (GNode i cs) = concat (map gkvs (map snd cs))" "gkvs (GNode j ds) = concat (map gkvs (map snd ds))"
    by (simp_all add: comp_def)
  have disjoint: "forest_pages (map snd cs) \<inter> forest_pages (map snd ds) = {}" using f(5) g(5) sep(1) by blast
  show "forest v (h - 1) (map snd cs @ map snd ds)"
    unfolding forest_append using f(1) g(1) sep(2) [unfolded kvs] disjoint by blast
  show "1 < h" using f by simp
  show "forest_pages (map snd cs @ map snd ds) \<subseteq> forest_pages [GNode i cs, GNode j ds]"
    using f(5) g(5) by auto
qed

lemma leaf_pair_level:
  "es \<noteq> [] \<Longrightarrow> sbind (slift (rmapM encode_leaf_cell es)) (\<lambda>cells.
     if cells_fit cells then sbind (commit_leaf crc es) (\<lambda>c. sret [c])
     else sbind (slift (ok_or (choose_split cells) BtInvalidInput)) (\<lambda>split.
          sbind (commit_leaf crc (take split es)) (\<lambda>l.
          sbind (commit_leaf crc (drop split es)) (\<lambda>r.
          sret [l, r])))) = commit_leaf_level crc es"
  by (cases "rmapM encode_leaf_cell es") (simp_all add: commit_leaf_level_def commit_leaf_def fun_eq_iff sbind_pure)


abbreviation merged :: "(bytes \<Rightarrow> 32 word) \<Rightarrow> nat \<Rightarrow> gtree list \<Rightarrow> child_ref list \<Rightarrow> nat set \<Rightarrow> btree \<Rightarrow> bool" where
  "merged crc h us \<equiv> \<lambda>cs P s'. \<exists>ts. cs = map ref_of ts \<and> length ts \<in> {1, 2} \<and>
     replaced h (concat (map gkvs us)) (forest_pages us) (view crc s') P ts"

lemma writes_merge_leaves:
  assumes t: "forest (view crc s) h [GLeaf i es, GLeaf j fs]" "forest_pages [GLeaf i es, GLeaf j fs] \<inter> avail s = {}" "live crc s"
    and pages: "pg_kind p = PkLeaf" "page_cells p = map leaf_cell es" "page_validate crc p = Inr ()"
      "pg_kind q = PkLeaf" "page_cells q = map leaf_cell fs" "page_validate crc q = Inr ()"
    and small: "\<forall>x \<in> set (concat (map gkvs [GLeaf i es, GLeaf j fs])). small_kv x"
    and total: "cells_total (map leaf_cell es) + cells_total (map leaf_cell fs) \<le> 6078"
  shows "writes crc 2 s (rebalance_leaf_pair crc p q) (merged crc h [GLeaf i es, GLeaf j fs])"
proof -
  have all: "entries_ok (view crc s) (es @ fs)" "h = 1" by (rule forest_two_leaves [OF t(1)])+
  have parts: "leaf_ok (view crc s) es" "leaf_ok (view crc s) fs"
    using forest_single [OF t(1)] forest_leaf_entries(1) by (auto simp: entries_ok_def)
  let ?pl = "\<lambda>es. set (concat (map (\<lambda>e. bl_pages (fst e)) es))"
  have dec: "yields crc s (decode_leaf crc p None) (map entry_of es, add_seen (?pl es) None)"
    "yields crc s (decode_leaf crc q None) (map entry_of fs, add_seen (?pl fs) None)"
    by (rule decode_leaf_of [OF pages(3,2,1) parts(1) t(3)] decode_leaf_of [OF pages(6,5,4) parts(2) t(3)], simp add: apart_def)+
  have used: "set (concat (map entry_pages (es @ fs))) \<subseteq> forest_pages [GLeaf i es, GLeaf j fs]" by (auto simp: forest_pages_def)
  have ord: "ensure (strictly_increasing (map (\<lambda>e. stored_key_bytes (lf_key e)) (map entry_of (es @ fs)))) (BtCorruption 0) = Inr ()"
    using all(1) by (simp add: entries_ok_def leaf_ok_def strictly_increasing_iff comp_def ensure_def)
  have ne: "map entry_of (es @ fs) \<noteq> []" using all(1) by (simp add: entries_ok_def leaf_ok_def)
  have sm: "\<forall>e \<in> set (es @ fs). 4 + length (leaf_cell e) \<le> 2026"
    using small all(1) by (intro ballI small_leaf_cell) (auto simp: entries_ok_def)
  have run: "writes crc 2 s' (commit_leaf_level crc (map entry_of (es @ fs))) (merged crc h [GLeaf i es, GLeaf j fs])"
    if s': "same_store s s'" "live crc s'" for s'
  proof -
    have g: "grows crc {} s s'" by (rule same_store_grows [OF s'(1)])
    have ok': "entries_ok (view crc s') (es @ fs)" using all(1) view_same_store [OF s'(1)] by simp
    have free: "set (concat (map entry_pages (es @ fs))) \<inter> avail s' = {}" using grows_fresh [OF g t(2)] used by blast
    show ?thesis
    proof (rule writes_mono [OF writes_leaf_level [OF ok' free sm _ s'(2)] order_refl])
      show "cells_total (map leaf_cell (es @ fs)) \<le> 4052 + 2026" using total by simp
      fix cs P s'' assume "\<exists>ts. cs = map ref_of ts \<and> length ts \<in> {1, 2} \<and>
        replaced 1 (map kv_of (es @ fs)) (set (concat (map entry_pages (es @ fs)))) (view crc s'') P ts"
      then obtain ts where ts: "cs = map ref_of ts" "length ts \<in> {1, 2}"
        "replaced 1 (map kv_of (es @ fs)) (set (concat (map entry_pages (es @ fs)))) (view crc s'') P ts" by blast
      have "forest_pages ts \<subseteq> P \<union> forest_pages [GLeaf i es, GLeaf j fs]" using ts(3) used unfolding replaced_def by blast
      then have "replaced h (concat (map gkvs [GLeaf i es, GLeaf j fs])) (forest_pages [GLeaf i es, GLeaf j fs]) (view crc s'') P ts"
        using ts(3) all(2) by (simp add: replaced_def del: forest_pages_simps)
      then show "merged crc h [GLeaf i es, GLeaf j fs] cs P s''" using ts(1,2) by blast
    qed
  qed
  show ?thesis
    unfolding rebalance_leaf_pair_def
  proof (rule writes_read [OF dec(1)], unfold prod.case, rule writes_read)
    fix s1 assume s1: "same_store s s1" "live crc s1"
    show "yields crc s1 (decode_leaf crc q None) (map entry_of fs, add_seen (?pl fs) None)" by (rule yields_same_store [OF dec(2) s1(1)])
    fix s2 assume s2: "same_store s1 s2" "live crc s2"
    show "writes crc 2 s2 (case (map entry_of fs, add_seen (?pl fs) None) of (res, _) \<Rightarrow>
        let es = map entry_of es @ res in
        sbind (slift (ensure (strictly_increasing (map (\<lambda>e. stored_key_bytes (lf_key e)) es)) (BtCorruption 0))) (\<lambda>_.
        sbind (slift (rmapM encode_leaf_cell es)) (\<lambda>cells.
        if cells_fit cells then sbind (commit_leaf crc es) (\<lambda>c. sret [c])
        else sbind (slift (ok_or (choose_split cells) BtInvalidInput)) (\<lambda>split.
             sbind (commit_leaf crc (take split es)) (\<lambda>l.
             sbind (commit_leaf crc (drop split es)) (\<lambda>r.
             sret [l, r])))))) (merged crc h [GLeaf i es, GLeaf j fs])"
      unfolding prod.case Let_def map_append [symmetric] ord writes_pure_bind leaf_pair_level [OF ne]
      by (rule run [OF same_store_trans [OF s1(1) s2(1)] s2(2)])
  qed
qed


lemma node_pair_children:
  "sbind (slift (validate_child_refs cs)) (\<lambda>_.
     sbind (slift (rmapM encode_internal_cell cs)) (\<lambda>cells.
     if cells_fit cells then sbind (commit_internal crc cs) (\<lambda>c. sret [c])
     else sbind (slift (ok_or (choose_internal_rebalance_split cells) BtInvalidInput)) (\<lambda>split.
          sbind (commit_internal crc (take split cs)) (\<lambda>l.
          sbind (commit_internal crc (drop split cs)) (\<lambda>r.
          sret [l, r]))))) = commit_children choose_internal_rebalance_split crc cs"
  by (simp add: commit_children_def)

lemma writes_merge_nodes:
  assumes t: "forest (view crc s) h [GNode i cs, GNode j ds]" "forest_pages [GNode i cs, GNode j ds] \<inter> avail s = {}" "live crc s"
    and pages: "pg_kind p = PkInternal" "page_cells p = map node_cell cs" "page_validate crc p = Inr ()"
      "pg_kind q = PkInternal" "page_cells q = map node_cell ds" "page_validate crc q = Inr ()"
    and near: "near (GNode i cs)" "near (GNode j ds)" "2 \<le> length cs + length ds"
    and small: "\<forall>x \<in> set (concat (map gkvs [GNode i cs, GNode j ds])). small_kv x"
    and total: "cells_total (map node_cell cs) + cells_total (map node_cell ds) \<le> 6078"
  shows "writes crc 1200 s (rebalance_internal_pair crc p q) (merged crc h [GNode i cs, GNode j ds])"
proof -
  let ?ts = "map snd cs @ map snd ds"
  have both: "forest (view crc s) h [GNode i cs]" "forest (view crc s) h [GNode j ds]" using forest_single [OF t(1)] by simp_all
  note all = forest_two_nodes [OF t(1)]
  note f = forest_children [OF both(1)] and g = forest_children [OF both(2)]
  let ?pl = "\<lambda>cs. set (concat (map (\<lambda>c. bl_pages (fst c)) cs))"
  have dec: "yields crc s (decode_internal crc p None) (map child_of cs, add_seen (?pl cs) None)"
    "yields crc s (decode_internal crc q None) (map child_of ds, add_seen (?pl ds) None)"
    by (rule decode_internal_of [OF pages(3,2,1) f(7) t(3)] decode_internal_of [OF pages(6,5,4) g(7) t(3)], simp add: apart_def)+
  have refs: "map child_of cs @ map child_of ds = map ref_of ?ts" using f(2) g(2) by simp
  have kvs: "concat (map gkvs ?ts) = concat (map gkvs [GNode i cs, GNode j ds])" by (simp add: comp_def)
  have sizes: "sum_list (map child_size ?ts) = cells_total (map node_cell cs) + cells_total (map node_cell ds)"
    unfolding map_append sum_list_append child_sizes_of [OF both(1), symmetric] child_sizes_of [OF both(2), symmetric]
    by (simp add: cells_total_sizes comp_def)
  have sm: "\<forall>t \<in> set ?ts. child_size t \<le> 1350" using small_child [OF all(1)] small unfolding kvs by blast
  have bushy: "\<forall>t \<in> set ?ts. bushy t" using near(1,2) by auto
  have run: "writes crc 1200 s' (commit_children choose_internal_rebalance_split crc (map ref_of ?ts)) (merged crc h [GNode i cs, GNode j ds])"
    if s': "same_store s s'" "live crc s'" for s'
  proof -
    have g: "grows crc {} s s'" by (rule same_store_grows [OF s'(1)])
    have free: "forest_pages ?ts \<inter> avail s = {}" using all(3) t(2) by blast
    have "forest (view crc s') (h - 1) ?ts" "forest_pages ?ts \<inter> avail s' = {}"
      using forest_grows [OF g all(1) free] grows_fresh [OF g free] by simp_all
    then have "writes crc 1200 s' (commit_children choose_internal_rebalance_split crc (map ref_of ?ts)) (over_children (h - 1) ?ts crc)"
      using near(3) bushy s'(2) sm sizes total by (intro writes_children balancing_choices(2)) simp_all
    then show ?thesis
    proof (rule writes_mono [OF _ order_refl])
      fix rs P s'' assume "over_children (h - 1) ?ts crc rs P s''"
      then obtain us where us: "rs = map ref_of us" "length us \<in> {1, 2}"
        "replaced (Suc (h - 1)) (concat (map gkvs ?ts)) (forest_pages ?ts) (view crc s'') P us" by blast
      have "forest_pages us \<subseteq> P \<union> forest_pages [GNode i cs, GNode j ds]" using us(3) all(3) unfolding replaced_def by blast
      moreover have "Suc (h - 1) = h" using all(2) by simp
      ultimately have "replaced h (concat (map gkvs [GNode i cs, GNode j ds])) (forest_pages [GNode i cs, GNode j ds]) (view crc s'') P us"
        using us(3) unfolding replaced_def kvs by simp
      then show "merged crc h [GNode i cs, GNode j ds] rs P s''" using us(1,2) by blast
    qed
  qed
  show ?thesis
    unfolding rebalance_internal_pair_def
  proof (rule writes_read [OF dec(1)], unfold prod.case, rule writes_read)
    fix s1 assume s1: "same_store s s1" "live crc s1"
    show "yields crc s1 (decode_internal crc q None) (map child_of ds, add_seen (?pl ds) None)" by (rule yields_same_store [OF dec(2) s1(1)])
    fix s2 assume s2: "same_store s1 s2" "live crc s2"
    show "writes crc 1200 s2 (case (map child_of ds, add_seen (?pl ds) None) of (rcs, _) \<Rightarrow>
        let cs = map child_of cs @ rcs in
        sbind (slift (validate_child_refs cs)) (\<lambda>_.
        sbind (slift (rmapM encode_internal_cell cs)) (\<lambda>cells.
        if cells_fit cells then sbind (commit_internal crc cs) (\<lambda>c. sret [c])
        else sbind (slift (ok_or (choose_internal_rebalance_split cells) BtInvalidInput)) (\<lambda>split.
             sbind (commit_internal crc (take split cs)) (\<lambda>l.
             sbind (commit_internal crc (drop split cs)) (\<lambda>r.
             sret [l, r])))))) (merged crc h [GNode i cs, GNode j ds])"
      unfolding prod.case Let_def refs node_pair_children by (rule run [OF same_store_trans [OF s1(1) s2(1)] s2(2)])
  qed
qed



subsection \<open>Rebalancing the children of a node\<close>

lemma writes_merge:
  assumes t: "forest (view crc s) h [l, r]" "forest_pages [l, r] \<inter> avail s = {}" "live crc s"
    and p: "pg_kind p = g_kind l" "page_cells p = g_cells l" "page_validate crc p = Inr ()"
    and q: "pg_kind q = g_kind r" "page_cells q = g_cells r" "page_validate crc q = Inr ()"
    and near: "near l" "near r" "bushy l \<or> bushy r" and small: "\<forall>x \<in> set (concat (map gkvs [l, r])). small_kv x"
    and under: "underfull (g_kind l, None, g_cells l) \<or> underfull (g_kind r, None, g_cells r)"
  shows "writes crc 1200 s (case pg_kind p of
      PkLeaf \<Rightarrow> rebalance_leaf_pair crc p q | PkInternal \<Rightarrow> rebalance_internal_pair crc p q | PkOverflow \<Rightarrow> sfail (BtCorruption 0))
    (merged crc h [l, r])"
proof -
  have both: "forest (view crc s) h [l]" "forest (view crc s) h [r]" using forest_single [OF t(1)] by simp_all
  have room: "cells_total (g_cells l) \<le> 4052" "cells_total (g_cells r) \<le> 4052"
    by (rule forest_root_page [OF both(1) t(3)], simp, rule forest_root_page [OF both(2) t(3)], simp)
  show ?thesis
  proof (cases l)
    case l: (GLeaf i es)
    obtain j fs where r: "r = GLeaf j fs" using same_level_kind [OF t(1)] l by (cases r) simp_all
    have "cells_total (map leaf_cell es) + cells_total (map leaf_cell fs) \<le> 6078"
      using under room unfolding underfull_def l r by auto
    then have "writes crc 2 s (rebalance_leaf_pair crc p q) (merged crc h [l, r])"
      unfolding l r using t p q small unfolding l r g_kind.simps g_cells.simps by (intro writes_merge_leaves) assumption+
    then have "writes crc 1200 s (rebalance_leaf_pair crc p q) (merged crc h [l, r])" by (rule writes_mono) simp_all
    then show ?thesis using p(1) l by simp
  next
    case l: (GNode i cs)
    obtain j ds where r: "r = GNode j ds" using same_level_kind [OF t(1)] l by (cases r) simp_all
    have one: "sum_list (map child_size (map snd cs)) \<le> 1350 * length cs" if "forest (view crc s) h [GNode i cs]"
        "\<forall>x \<in> set (gkvs (GNode i cs)). small_kv x" for i cs
    proof -
      have "concat (map gkvs (map snd cs)) = gkvs (GNode i cs)" by (simp add: comp_def)
      then have "\<forall>t \<in> set (map snd cs). child_size t \<le> 1350"
        using small_child [OF forest_children(1) [OF that(1)]] that(2) by simp
      then show ?thesis by (induction cs) auto
    qed
    have few: "cells_total (map node_cell cs) \<le> 2026" if "underfull (PkInternal, None, map node_cell cs)"
        "forest (view crc s) h [GNode i cs]" "\<forall>x \<in> set (gkvs (GNode i cs)). small_kv x" for i cs
      using that(1) one [OF that(2,3)] child_sizes_of [OF that(2)]
      by (cases cs) (auto simp: underfull_def cells_total_sizes comp_def)
    have sm: "\<forall>x \<in> set (gkvs (GNode i cs)). small_kv x" "\<forall>x \<in> set (gkvs (GNode j ds)). small_kv x"
      using small unfolding l r by (simp_all del: gkvs.simps)
    have total: "cells_total (map node_cell cs) + cells_total (map node_cell ds) \<le> 6078"
      using under room few [OF _ both(1) [unfolded l] sm(1)] few [OF _ both(2) [unfolded r] sm(2)] unfolding l r by auto
    have "2 \<le> length cs + length ds" using near(3) l r by auto
    then have "writes crc 1200 s (rebalance_internal_pair crc p q) (merged crc h [l, r])"
      unfolding l r using t p q near(1,2) small total unfolding l r g_kind.simps g_cells.simps
      by (intro writes_merge_nodes) assumption+
    then show ?thesis using p(1) l by simp
  qed
qed


text \<open>Replacing two adjacent children by what they merge to.\<close>

lemma replaced_splice:
  assumes g: "grows crc P s s'" and old: "forest (view crc s) h (L @ M @ R)" "forest_pages (L @ M @ R) \<inter> avail s = {}"
    and mid: "replaced h (concat (map gkvs M)) (forest_pages M) (view crc s') P ts" and bushy: "\<forall>t \<in> set (L @ R). bushy t"
  shows "replaced h (concat (map gkvs (L @ M @ R))) (forest_pages (L @ M @ R)) (view crc s') P (L @ ts @ R)"
proof -
  have ts: "forest (view crc s') h ts" "concat (map gkvs ts) = concat (map gkvs M)" "forest_pages ts \<subseteq> P \<union> forest_pages M" "\<forall>t \<in> set ts. bushy t"
    using mid by (simp_all add: replaced_def)
  have "\<forall>x \<in> set (concat (map gkvs L)). \<forall>y \<in> set (concat (map gkvs M)). fst x < fst y"
    "\<forall>x \<in> set (concat (map gkvs M)). \<forall>y \<in> set (concat (map gkvs R)). fst x < fst y"
    using old(1) unfolding forest_append by (auto simp del: set_concat)
  then have "forest (view crc s') h (L @ ts @ R)"
    using ts by (intro forest_splice [OF g old, of _ "{}"]) simp_all
  then show ?thesis using ts bushy by (auto simp: replaced_def)
qed

lemma writes_pair_step:
  assumes us: "us = L @ [l, r] @ R" and t: "forest (view crc s) h us" "forest_pages us \<inter> avail s = {}" "live crc s"
    and near: "near l" "near r" "bushy l \<or> bushy r" "\<forall>t \<in> set (L @ R). bushy t" and small: "\<forall>x \<in> set (concat (map gkvs us)). small_kv x"
    and under: "underfull (g_kind l, None, g_cells l) \<or> underfull (g_kind r, None, g_cells r)"
  shows "writes crc 1200 s
    (sbind (pager_read_page crc (cr_page_id (map ref_of us ! length L))) (\<lambda>left_page.
     sbind (pager_read_page crc (cr_page_id (map ref_of us ! Suc (length L)))) (\<lambda>right_page.
     sbind (slift (ensure (pg_kind left_page = pg_kind right_page) (BtCorruption 0))) (\<lambda>_.
     sbind (case pg_kind left_page of
              PkLeaf \<Rightarrow> rebalance_leaf_pair crc left_page right_page
            | PkInternal \<Rightarrow> rebalance_internal_pair crc left_page right_page
            | PkOverflow \<Rightarrow> sfail (BtCorruption 0)) (\<lambda>replacements.
     let children' = take (length L) (map ref_of us) @ replacements @ drop (Suc (length L) + 1) (map ref_of us) in
     sbind (slift (validate_child_refs children')) (\<lambda>_.
     sret children'))))))
    (\<lambda>cs P s'. \<exists>ws. cs = map ref_of ws \<and> ws \<noteq> [] \<and> length ws \<le> length us \<and>
       replaced h (concat (map gkvs us)) (forest_pages us) (view crc s') P ws)" (is "writes _ _ _ _ ?post")
proof -
  have ids: "cr_page_id (map ref_of us ! length L) = groot l" "cr_page_id (map ref_of us ! Suc (length L)) = groot r"
    "take (length L) (map ref_of us) = map ref_of L" "drop (Suc (length L) + 1) (map ref_of us) = map ref_of R"
    using us by (simp_all add: nth_append)
  have pair: "forest (view crc s) h [l, r]" using t(1) unfolding us forest_append by simp
  have pages: "forest_pages [l, r] \<inter> avail s = {}" using t(2) us by auto
  have small': "\<forall>x \<in> set (concat (map gkvs [l, r])). small_kv x" using small us by auto
  obtain p where p: "pager_page crc s (groot l) = Some p" "pg_kind p = g_kind l" "page_cells p = g_cells l" "page_validate crc p = Inr ()"
    by (rule forest_root_page [OF forest_single(1) [OF pair] t(3)])
  obtain q where q: "pager_page crc s (groot r) = Some q" "pg_kind q = g_kind r" "page_cells q = g_cells r" "page_validate crc q = Inr ()"
    by (rule forest_root_page [OF forest_single(1) [OF forest_single(2) [OF pair]] t(3)])
  have kinds: "ensure (pg_kind p = pg_kind q) (BtCorruption 0) = Inr ()"
    using p(2) q(2) same_level_kind [OF pair] by (simp add: ensure_def)
  show ?thesis
    unfolding ids
  proof (rule writes_read [OF yields_read [OF p(1)]], rule writes_read)
    fix s1 assume s1: "same_store s s1" "live crc s1"
    show "yields crc s1 (pager_read_page crc (groot r)) q" by (rule yields_same_store [OF yields_read [OF q(1)] s1(1)])
    fix s2 assume s2: "same_store s1 s2" "live crc s2"
    have s: "same_store s s2" by (rule same_store_trans [OF s1(1) s2(1)])
    have t': "forest (view crc s2) h us" "forest_pages us \<inter> avail s2 = {}" "forest (view crc s2) h [l, r]" "forest_pages [l, r] \<inter> avail s2 = {}"
      using forest_grows [OF same_store_grows [OF s]] grows_fresh [OF same_store_grows [OF s]] t(1,2) pair pages by blast+
    note run = writes_merge [OF t'(3,4) s2(2) p(2-4) q(2-4) near(1-3) small' under]
    have "writes crc (1200 + 0) s2 (sbind (case pg_kind p of
              PkLeaf \<Rightarrow> rebalance_leaf_pair crc p q | PkInternal \<Rightarrow> rebalance_internal_pair crc p q | PkOverflow \<Rightarrow> sfail (BtCorruption 0)) (\<lambda>replacements.
       let children' = map ref_of L @ replacements @ map ref_of R in
       sbind (slift (validate_child_refs children')) (\<lambda>_. sret children'))) ?post"
    proof (rule writes_bind [OF run])
      fix rs P s3 assume g: "grows crc P s2 s3" "live crc s3" and "merged crc h [l, r] rs P s3"
      then obtain ts where ts: "rs = map ref_of ts" "length ts \<in> {1, 2}"
        "replaced h (concat (map gkvs [l, r])) (forest_pages [l, r]) (view crc s3) P ts" by blast
      have rep: "replaced h (concat (map gkvs us)) (forest_pages us) (view crc s3) P (L @ ts @ R)"
        using t'(1,2) unfolding us by (intro replaced_splice [OF g(1) _ _ ts(3) near(4)])
      have refs: "map ref_of L @ rs @ map ref_of R = map ref_of (L @ ts @ R)" by (simp add: ts(1))
      have "L @ ts @ R \<noteq> []" "length (L @ ts @ R) \<le> length us" using ts(2) us by auto
      moreover have "validate_child_refs (map ref_of (L @ ts @ R)) = Inr ()"
        by (rule forest_refs_valid [of crc s3 h]) (use rep ts(2) g(2) in \<open>auto simp: replaced_def\<close>)
      ultimately show "writes crc 0 s3 (let children' = map ref_of L @ rs @ map ref_of R in
           sbind (slift (validate_child_refs children')) (\<lambda>_. sret children'))
         (\<lambda>cs P' s'. P \<inter> P' = {} \<longrightarrow> grows crc P' s3 s' \<longrightarrow> ?post cs (P \<union> P') s')"
        unfolding refs Let_def using rep by (simp only: writes_pure_bind) (intro writes_pure impI exI [of _ "L @ ts @ R"], simp)
    qed
    then show "writes crc 1200 s2 (sbind (slift (ensure (pg_kind p = pg_kind q) (BtCorruption 0))) (\<lambda>_.
       sbind (case pg_kind p of
              PkLeaf \<Rightarrow> rebalance_leaf_pair crc p q | PkInternal \<Rightarrow> rebalance_internal_pair crc p q | PkOverflow \<Rightarrow> sfail (BtCorruption 0)) (\<lambda>replacements.
       let children' = map ref_of L @ replacements @ map ref_of R in
       sbind (slift (validate_child_refs children')) (\<lambda>_. sret children')))) ?post"
      unfolding kinds writes_pure_bind by simp
  qed
qed

lemma writes_rebalance:
  assumes us: "us = A @ [x] @ C" "A \<noteq> [] \<or> C \<noteq> []" and t: "forest (view crc s) h us" "forest_pages us \<inter> avail s = {}" "live crc s"
    and near: "near x" "\<forall>t \<in> set (A @ C). bushy t" and small: "\<forall>x \<in> set (concat (map gkvs us)). small_kv x"
  shows "writes crc 1200 s (rebalance_after_delete crc (map ref_of us) (length A))
    (\<lambda>cs P s'. \<exists>ws. cs = map ref_of ws \<and> ws \<noteq> [] \<and> length ws \<le> length us \<and>
       replaced h (concat (map gkvs us)) (forest_pages us) (view crc s') P ws)" (is "writes _ _ _ _ ?post")
proof -
  have len: "\<not> length (map ref_of us) < 2" "min (length A) (length (map ref_of us) - 1) = length A" "us \<noteq> []"
    using us by (auto simp: Suc_le_eq)
  have valid: "validate_child_refs (map ref_of us) = Inr ()" by (rule forest_refs_valid [OF t(1) len(3) t(3)])
  have x: "cr_page_id (map ref_of us ! length A) = groot x" using us(1) by (simp add: nth_append)
  have fx: "forest (view crc s) h [x]" using t(1) unfolding us(1) forest_append by blast
  obtain p where p: "pager_page crc s (groot x) = Some p" "page_is_underfull crc p = Inr (underfull (g_kind x, None, g_cells x))"
    by (rule forest_root_page [OF fx t(3)])
  show ?thesis
    unfolding rebalance_after_delete_def if_not_P [OF len(1)] valid writes_pure_bind Let_def len(2) x
  proof (rule writes_read [OF yields_read [OF p(1)]])
    fix s1 assume s1: "same_store s s1" "live crc s1"
    have t': "forest (view crc s1) h us" "forest_pages us \<inter> avail s1 = {}"
      using forest_grows [OF same_store_grows [OF s1(1)]] grows_fresh [OF same_store_grows [OF s1(1)]] t(1,2) by blast+
    show "writes crc 1200 s1 (sbind (slift (page_is_underfull crc p)) (\<lambda>underfull.
        if \<not> underfull then sret (map ref_of us)
        else case if 0 < length A then (length A - 1, length A) else (0, 1) of (left_index, right_index) \<Rightarrow>
          sbind (pager_read_page crc (cr_page_id (map ref_of us ! left_index))) (\<lambda>left_page.
          sbind (pager_read_page crc (cr_page_id (map ref_of us ! right_index))) (\<lambda>right_page.
          sbind (slift (ensure (pg_kind left_page = pg_kind right_page) (BtCorruption 0))) (\<lambda>_.
          sbind (case pg_kind left_page of
                   PkLeaf \<Rightarrow> rebalance_leaf_pair crc left_page right_page
                 | PkInternal \<Rightarrow> rebalance_internal_pair crc left_page right_page
                 | PkOverflow \<Rightarrow> sfail (BtCorruption 0)) (\<lambda>replacements.
          sbind (slift (validate_child_refs (take left_index (map ref_of us) @ replacements @ drop (right_index + 1) (map ref_of us)))) (\<lambda>_.
          sret (take left_index (map ref_of us) @ replacements @ drop (right_index + 1) (map ref_of us)))))))) ) ?post"
    proof (cases "underfull (g_kind x, None, g_cells x)")
      case False
      then have "\<forall>t \<in> set us. bushy t" using near near_full [of x None] us(1) by auto
      then have "?post (map ref_of us) {} s1" using len(3) t'(1) by (intro exI [of _ us]) (simp add: replaced_def)
      then show ?thesis using False unfolding p(2) by (auto intro: writes_pure)
    next
      case True
      show ?thesis
      proof (cases "A = []")
        case True
        then obtain y R where C: "C = y # R" using us(2) by (cases C) auto
        have "us = [] @ [x, y] @ R" using us(1) True C by simp
        note step = writes_pair_step [OF this t' s1(2) near(1) bushy_near _ _ small]
        show ?thesis
          using step near(2) C True \<open>underfull (g_kind x, None, g_cells x)\<close> unfolding p(2) by (simp add: Let_def)
      next
        case False
        then obtain L y where A: "A = L @ [y]" by (metis append_butlast_last_id)
        have "us = L @ [y, x] @ C" using us(1) A by simp
        note step = writes_pair_step [OF this t' s1(2) bushy_near near(1) _ _ small]
        show ?thesis
          using step near(2) A True unfolding p(2) by (simp add: Let_def)
      qed
    qed
  qed
qed


lemma writes_rebalance_at:
  assumes i: "i < length us" and t: "forest (view crc s) h us" "forest_pages us \<inter> avail s = {}" "live crc s"
    and near: "near (us ! i)" "\<And>j. j < length us \<Longrightarrow> j \<noteq> i \<Longrightarrow> bushy (us ! j)" "length us = 1 \<Longrightarrow> bushy (us ! i)"
    and small: "\<forall>x \<in> set (concat (map gkvs us)). small_kv x"
  shows "writes crc 1200 s (rebalance_after_delete crc (map ref_of us) i)
    (\<lambda>cs P s'. \<exists>ws. cs = map ref_of ws \<and> ws \<noteq> [] \<and> length ws \<le> length us \<and>
       replaced h (concat (map gkvs us)) (forest_pages us) (view crc s') P ws)" (is "writes _ _ _ _ ?post")
proof (cases "length us = 1")
  case True
  then obtain x where us: "us = [x]" by (cases us) auto
  then have "?post (map ref_of us) {} s" using near(3) [OF True] t(1) i by (intro exI [of _ us]) (auto simp: replaced_def)
  then show ?thesis using True by (auto simp: rebalance_after_delete_def intro: writes_pure)
next
  case False
  have us: "us = take i us @ [us ! i] @ drop (Suc i) us" using id_take_nth_drop [OF i] by simp
  have "bushy x" if "x \<in> set (take i us @ drop (Suc i) us)" for x
    using that i near(2) by (fastforce simp: in_set_conv_nth nth_append)
  then have "writes crc 1200 s (rebalance_after_delete crc (map ref_of us) (length (take i us))) ?post"
    using False i by (intro writes_rebalance [OF us _ t near(1) _ small]) auto
  then show ?thesis using i by simp
qed


subsection \<open>Deleting from a subtree\<close>

definition even_keys :: "nat \<Rightarrow> (bytes \<times> bytes) list \<Rightarrow> bool" where
  "even_keys n kvs \<longleftrightarrow> (\<forall>x \<in> set kvs. key_size (fst x) = n)"

lemma even_child_sizes:
  assumes "forest v h ts" "even_keys n (concat (map gkvs ts))"
  shows "sum_list (map child_size ts) = (14 + n) * length ts"
proof -
  have "child_size t = 14 + n" if t: "t \<in> set ts" for t
  proof -
    have "gkvs t \<noteq> []" using forest_mins(2) [OF assms(1)] t by blast
    then obtain x where "x \<in> set (gkvs t)" "gmin t = fst x" using gmin_in_keys by blast
    then show ?thesis using assms(2) t by (auto simp: child_size_def even_keys_def)
  qed
  then show ?thesis by (induction ts) auto
qed

lemma al_remove_mid:
  assumes "\<forall>x \<in> set A. fst x < k" "\<forall>x \<in> set C. k < fst x"
  shows "al_remove k (A @ M @ C) = A @ al_remove (k :: bytes) M @ C"
proof -
  have "filter (\<lambda>(a, _). a \<noteq> k) A = A" "filter (\<lambda>(a, _). a \<noteq> k) C = C"
    using assms by (auto simp: filter_id_conv)
  then show ?thesis by (simp add: al_remove_def)
qed

definition deleted :: "nat \<Rightarrow> (bytes \<times> bytes) list \<Rightarrow> nat set \<Rightarrow> (nat \<Rightarrow> pview option) \<Rightarrow> nat set \<Rightarrow> child_ref option \<Rightarrow> bool" where
  "deleted h kvs old v P r \<longleftrightarrow> (case r of
       None \<Rightarrow> kvs = []
     | Some c \<Rightarrow> \<exists>t. c = ref_of t \<and> forest v h [t] \<and> gkvs t = kvs \<and> forest_pages [t] \<subseteq> P \<union> old \<and> near t)"

lemma writes_delete_leaf:
  assumes t: "forest (view crc s) h [GLeaf i es]" "forest_pages [GLeaf i es] \<inter> avail s = {}" "live crc s"
    and key: "key \<in> fst ` set (gkvs (GLeaf i es))"
  shows "writes crc 1 s (case search_keys (map (\<lambda>e. stored_key_bytes (lf_key e)) (map entry_of es)) key of
       Inl _ \<Rightarrow> sfail (BtCorruption 0)
     | Inr index \<Rightarrow>
         let es' = take index (map entry_of es) @ drop (index + 1) (map entry_of es) in
         if es' = [] then sret None
         else sbind (commit_leaf crc es') (\<lambda>c. sret (Some c)))
    (\<lambda>r P s'. deleted h (al_remove key (gkvs (GLeaf i es))) (forest_pages [GLeaf i es]) (view crc s') P r)"
proof -
  note leaf = forest_leaf_entries [OF t(1)]
  have ord: "sorted_wrt (<) (map (\<lambda>e. bl_bytes (fst e)) es)" using leaf(1) by (simp add: entries_ok_def leaf_ok_def)
  have ks: "map (\<lambda>e. stored_key_bytes (lf_key e)) (map entry_of es) = map (\<lambda>e. bl_bytes (fst e)) es" by (simp add: comp_def)
  have "key \<in> set (map (\<lambda>e. bl_bytes (fst e)) es)" using key by (auto simp: image_iff)
  then obtain j where j: "search_keys (map (\<lambda>e. bl_bytes (fst e)) es) key = Inr j" "j < length es" "bl_bytes (fst (es ! j)) = key"
    using search_keys_cases [OF ord, of key] in_set_conv_nth [of key] by (auto split: sum.splits)
  let ?A = "take j es" and ?C = "drop (Suc j) es"
  have es: "es = ?A @ [es ! j] @ ?C" using id_take_nth_drop [OF j(2)] by simp
  have "sorted_wrt (<) (map (\<lambda>e. bl_bytes (fst e)) (?A @ [es ! j] @ ?C))" using ord es by simp
  then have sides: "\<forall>x \<in> set (map kv_of ?A). fst x < key" "\<forall>x \<in> set (map kv_of ?C). key < fst x"
    using j(3) by (auto simp: sorted_wrt_append)
  have "gkvs (GLeaf i es) = map kv_of ?A @ map kv_of [es ! j] @ map kv_of ?C"
    by (simp only: gkvs_leaf map_append [symmetric] es [symmetric])
  then have "al_remove key (gkvs (GLeaf i es)) = map kv_of ?A @ al_remove key (map kv_of [es ! j]) @ map kv_of ?C"
    by (simp only: al_remove_mid [OF sides])
  then have kvs: "al_remove key (gkvs (GLeaf i es)) = map kv_of (?A @ ?C)"
    using j(3) by (simp add: al_remove_def kv_of_def)
  let ?es = "?A @ ?C"
  have refs: "take j (map entry_of es) @ drop (j + 1) (map entry_of es) = map entry_of ?es" by (simp add: take_map drop_map)
  show ?thesis
  proof (cases "?es = []")
    case True
    then have "deleted h (al_remove key (gkvs (GLeaf i es))) (forest_pages [GLeaf i es]) (view crc s) {} None"
      unfolding kvs deleted_def by simp
    then show ?thesis
      unfolding ks j(1) sum.case refs Let_def using True by (auto intro: writes_pure)
  next
    case False
    have sub: "set (concat (map entry_pages ?es)) \<subseteq> forest_pages [GLeaf i es]"
      using inserted_fresh [of es i] by (auto dest: in_set_takeD in_set_dropD simp del: set_concat) (auto dest: in_set_takeD in_set_dropD)
    have ok: "entries_ok (view crc s) ?es"
    proof -
      have "entries_ok (view crc s) (?A @ [es ! j] @ ?C)" using leaf(1) es by simp
      then show ?thesis using False by (auto simp: entries_ok_def leaf_ok_def sorted_wrt_append simp del: set_concat)
    qed
    have "cells_total (map leaf_cell (?A @ [es ! j] @ ?C)) \<le> 4052" using leaf_total [OF t(1,3)] es by simp
    then have fit: "cells_total (map leaf_cell ?es) \<le> 4052" by simp
    have free: "set (concat (map entry_pages ?es)) \<inter> avail s = {}" using sub t(2) by blast
    have "writes crc (1 + 0) s (sbind (commit_leaf crc (map entry_of ?es)) (\<lambda>c. sret (Some c)))
      (\<lambda>r P s'. deleted h (al_remove key (gkvs (GLeaf i es))) (forest_pages [GLeaf i es]) (view crc s') P r)"
    proof (rule writes_bind [OF writes_leaf [OF ok free fit t(3)]])
      fix c P s' assume "\<exists>k. c = ref_of (GLeaf k ?es) \<and> P = {k} \<and> forest (view crc s') 1 [GLeaf k ?es]"
      then obtain k where k: "c = ref_of (GLeaf k ?es)" "P = {k}" "forest (view crc s') 1 [GLeaf k ?es]" by blast
      have "forest_pages [GLeaf k ?es] \<subseteq> P \<union> forest_pages [GLeaf i es]" using sub k(2) by (auto simp del: set_concat)
      then have "deleted h (al_remove key (gkvs (GLeaf i es))) (forest_pages [GLeaf i es]) (view crc s') P (Some c)"
        unfolding deleted_def kvs using k leaf(2) by (auto intro!: exI [of _ "GLeaf k ?es"] simp del: forest_pages_simps gpages_leaf)
      then show "writes crc 0 s' (sret (Some c)) (\<lambda>r P' s''. P \<inter> P' = {} \<longrightarrow> grows crc P' s' s'' \<longrightarrow>
          deleted h (al_remove key (gkvs (GLeaf i es))) (forest_pages [GLeaf i es]) (view crc s'') (P \<union> P') r)"
        by (intro writes_pure impI) simp
    qed
    moreover have "map entry_of ?es \<noteq> []" using False by blast
    ultimately show ?thesis
      unfolding ks j(1) sum.case refs Let_def by (simp only: if_False add_0_right)
  qed
qed


text \<open>Putting the rewritten child back.\<close>

definition opt_tree :: "gtree list \<Rightarrow> child_ref option \<Rightarrow> bool" where
  "opt_tree N r \<longleftrightarrow> (case r of None \<Rightarrow> N = [] | Some c \<Rightarrow> \<exists>t. N = [t] \<and> c = ref_of t)"

lemma deleted_trees:
  assumes "deleted h kvs old v P r"
  obtains N where "opt_tree N r" "forest v h N" "concat (map gkvs N) = kvs" "forest_pages N \<subseteq> P \<union> old" "\<forall>t \<in> set N. near t" "length N \<le> 1"
proof (cases r)
  case None
  then show ?thesis using assms that [of "[]"] by (simp add: deleted_def opt_tree_def forest_def)
next
  case (Some c)
  then obtain t where "c = ref_of t" "forest v h [t]" "gkvs t = kvs" "forest_pages [t] \<subseteq> P \<union> old" "near t"
    using assms by (auto simp: deleted_def)
  then show ?thesis using Some that [of "[t]"] by (simp add: opt_tree_def)
qed

lemma al_remove_subset: "set (al_remove k xs) \<subseteq> set xs"
  by (auto simp: al_remove_def)

lemma splice_deleted:
  assumes t: "forest (view crc s) h [GNode i cs]" "forest_pages [GNode i cs] \<inter> avail s = {}" "bushy (GNode i cs)" "live crc s"
    and cs: "map snd cs = A @ [u] @ C" and sides: "\<forall>x \<in> set (concat (map gkvs A)). fst x < k" "\<forall>x \<in> set (concat (map gkvs C)). k < fst x"
    and g: "grows crc P s s'" and N: "forest (view crc s') (h - 1) N" "concat (map gkvs N) = al_remove k (gkvs u)"
      "forest_pages N \<subseteq> P \<union> forest_pages [u]" "length N \<le> 1"
  shows "forest (view crc s') (h - 1) (A @ N @ C)" "concat (map gkvs (A @ N @ C)) = al_remove k (gkvs (GNode i cs))"
    "forest_pages (A @ N @ C) \<subseteq> P \<union> forest_pages [GNode i cs]" "\<forall>t \<in> set (A @ C). bushy t" "1 \<le> length (A @ C)"
    "length (A @ N @ C) \<le> length cs"
proof -
  note f = forest_children [OF t(1), unfolded cs]
  have kvs: "gkvs (GNode i cs) = concat (map gkvs A) @ gkvs u @ concat (map gkvs C)" using gkvs_node [OF cs, of i] by (simp del: gkvs.simps)
  show "concat (map gkvs (A @ N @ C)) = al_remove k (gkvs (GNode i cs))"
    unfolding kvs al_remove_mid [OF sides] using N(2) by simp
  have mid: "set (concat (map gkvs N)) \<subseteq> set (gkvs u)" unfolding N(2) by (rule al_remove_subset)
  have ord: "\<forall>x \<in> set (concat (map gkvs A)). \<forall>y \<in> set (gkvs u). fst x < fst y" "\<forall>x \<in> set (gkvs u). \<forall>y \<in> set (concat (map gkvs C)). fst x < fst y"
    using f(1) unfolding forest_append by (auto simp del: set_concat)
  show "forest (view crc s') (h - 1) (A @ N @ C)"
  proof (rule forest_splice [OF g f(1) _ N(1), of "{}"])
    show "forest_pages (A @ [u] @ C) \<inter> avail s = {}" using f(5) t(2) by blast
  qed (use N(3) mid ord in \<open>auto simp del: set_concat\<close>)
  show "forest_pages (A @ N @ C) \<subseteq> P \<union> forest_pages [GNode i cs]" using N(3) f(5) by auto
  have "\<forall>t \<in> set (A @ [u] @ C). bushy t" unfolding cs [symmetric] using t(3) by auto
  then show "\<forall>t \<in> set (A @ C). bushy t" by auto
  have "length (A @ [u] @ C) = length cs" unfolding cs [symmetric] by simp
  then show "1 \<le> length (A @ C)" "length (A @ N @ C) \<le> length cs" using t(3) N(4) by auto
qed

lemma writes_delete_node:
  assumes t: "forest (view crc s) h [GNode i cs]" "forest_pages [GNode i cs] \<inter> avail s = {}" "bushy (GNode i cs)" "live crc s"
    and small: "\<forall>x \<in> set (gkvs (GNode i cs)). small_kv x" "even_keys m (gkvs (GNode i cs))"
    and cs: "map snd cs = A @ [u] @ C" "take (length A) (map child_of cs) = map ref_of A" "drop (length A + 1) (map child_of cs) = map ref_of C"
    and sides: "\<forall>x \<in> set (concat (map gkvs A)). fst x < k" "\<forall>x \<in> set (concat (map gkvs C)). k < fst x"
    and g: "grows crc P s s'" "live crc s'" and r: "deleted (h - 1) (al_remove k (gkvs u)) (forest_pages [u]) (view crc s') P r"
  shows "writes crc 1800 s' (let cs' = (case r of
                      Some c \<Rightarrow> (map child_of cs)[length A := c]
                    | None \<Rightarrow> take (length A) (map child_of cs) @ drop (length A + 1) (map child_of cs)) in
         if cs' = [] then sret None
         else
           sbind (rebalance_after_delete crc cs' (min (length A) (length cs' - 1))) (\<lambda>cs''.
           if cs'' = [] then sret None
           else sbind (commit_internal crc cs'') (\<lambda>c. sret (Some c))))
    (\<lambda>r P' s''. P \<inter> P' = {} \<longrightarrow> grows crc P' s' s'' \<longrightarrow>
       deleted h (al_remove k (gkvs (GNode i cs))) (forest_pages [GNode i cs]) (view crc s'') (P \<union> P') r)" (is "writes _ _ _ ?m ?post")
proof -
  obtain N where N: "opt_tree N r" "forest (view crc s') (h - 1) N" "concat (map gkvs N) = al_remove k (gkvs u)"
    "forest_pages N \<subseteq> P \<union> forest_pages [u]" "\<forall>t \<in> set N. near t" "length N \<le> 1"
    by (rule deleted_trees [OF r])
  note f = forest_children [OF t(1)]
  note sp = splice_deleted [OF t cs(1) sides g(1) N(2-4,6)]
  let ?us = "A @ N @ C" and ?j = "min (length A) (length (A @ N @ C) - 1)"
  have len: "length A < length cs" using arg_cong [OF cs(1), of length] by simp
  have cs': "(case r of Some c \<Rightarrow> (map child_of cs)[length A := c]
      | None \<Rightarrow> take (length A) (map child_of cs) @ drop (length A + 1) (map child_of cs)) = map ref_of ?us"
    using N(1) cs(2,3) len by (auto simp: opt_tree_def upd_conv_take_nth_drop split: option.splits)
  have ne: "map ref_of ?us \<noteq> []" "?us \<noteq> []" using sp(5) by auto
  have used: "forest_pages ?us \<inter> avail s' = {}"
    using sp(3) grows_new [OF g(1)] grows_fresh [OF g(1) t(2)] by blast
  have sub: "set (al_remove k (gkvs (GNode i cs))) \<subseteq> set (gkvs (GNode i cs))" by (rule al_remove_subset)
  have sm: "\<forall>x \<in> set (concat (map gkvs ?us)). small_kv x" "even_keys m (concat (map gkvs ?us))"
    unfolding sp(2) using small sub unfolding even_keys_def by blast+
  have at: "?us ! j \<in> set (A @ C)" if "j < length ?us" "j \<noteq> ?j \<or> N = []" for j
    using that N(6) by (cases N) (auto simp: nth_append min_def split: if_splits)
  have jl: "?j < length ?us" using ne(2) by (cases ?us) simp_all
  have near: "near (?us ! ?j)"
  proof (cases "N = []")
    case True
    then show ?thesis using at [OF jl] sp(4) bushy_near by blast
  next
    case False
    then obtain x where "N = [x]" using N(6) by (cases N) auto
    then show ?thesis using N(5) by (simp add: nth_append)
  qed
  have "writes crc 1200 s' (rebalance_after_delete crc (map ref_of ?us) ?j)
    (\<lambda>cs P s''. \<exists>ws. cs = map ref_of ws \<and> ws \<noteq> [] \<and> length ws \<le> length ?us \<and>
       replaced (h - 1) (concat (map gkvs ?us)) (forest_pages ?us) (view crc s'') P ws)"
  proof (rule writes_rebalance_at [OF _ sp(1) used g(2) near _ _ sm(1)])
    show "?j < length ?us" by (rule jl)
    show "bushy (?us ! j)" if "j < length ?us" "j \<noteq> ?j" for j using at [of j] that sp(4) by blast
    show "bushy (?us ! ?j)" if "length ?us = 1"
      using at [of ?j] that sp(4,5) by (cases N) auto
  qed
  then have "writes crc (1200 + 600) s' (sbind (rebalance_after_delete crc (map ref_of ?us) ?j) (\<lambda>cs''.
           if cs'' = [] then sret None else sbind (commit_internal crc cs'') (\<lambda>c. sret (Some c)))) ?post"
  proof (rule writes_bind)
    fix rs P1 s1 assume g1: "grows crc P1 s' s1" "live crc s1" and "\<exists>ws. rs = map ref_of ws \<and> ws \<noteq> [] \<and> length ws \<le> length ?us \<and>
       replaced (h - 1) (concat (map gkvs ?us)) (forest_pages ?us) (view crc s1) P1 ws"
    then obtain ws where ws: "rs = map ref_of ws" "ws \<noteq> []" "length ws \<le> length ?us"
      "replaced (h - 1) (concat (map gkvs ?us)) (forest_pages ?us) (view crc s1) P1 ws" by blast
    have w: "forest (view crc s1) (h - 1) ws" "concat (map gkvs ws) = concat (map gkvs ?us)" "forest_pages ws \<subseteq> P1 \<union> forest_pages ?us"
      "\<forall>t \<in> set ws. bushy t" using ws(4) by (simp_all add: replaced_def)
    have free: "forest_pages ws \<inter> avail s1 = {}" using w(3) grows_new [OF g1(1)] grows_fresh [OF g1(1) used] by blast
    have "sum_list (map child_size ws) \<le> 4052"
    proof -
      have "concat (map gkvs (map snd cs)) = gkvs (GNode i cs)" by (simp add: comp_def)
      then have "(14 + m) * length cs \<le> 4052" using node_total [OF t(1,4)] even_child_sizes [OF f(1), of m] small(2) by simp
      moreover have "sum_list (map child_size ws) = (14 + m) * length ws" using even_child_sizes [OF w(1), of m] w(2) sm(2) by simp
      moreover have "(14 + m) * length ws \<le> (14 + m) * length cs" using ws(3) sp(6) by (intro mult_le_mono2) linarith
      ultimately show ?thesis by linarith
    qed
    note run = writes_internal [OF w(1) ws(2) free g1(2) this]
    have "writes crc (600 + 0) s1 (sbind (commit_internal crc (map ref_of ws)) (\<lambda>c. sret (Some c)))
      (\<lambda>r P' s''. P1 \<inter> P' = {} \<longrightarrow> grows crc P' s1 s'' \<longrightarrow> ?post r (P1 \<union> P') s'')"
    proof (rule writes_bind [OF run])
      fix c P2 s2 assume "\<exists>t. c = ref_of t \<and> raised (h - 1) (view crc s2) ws P2 t"
      then obtain t where t: "c = ref_of t" "raised (h - 1) (view crc s2) ws P2 t" by blast
      have "gkvs t = al_remove k (gkvs (GNode i cs))" using raised_content [OF t(2)] w(2) sp(2) by simp
      moreover have "near t" using t(2) w(4) unfolding raised_def by auto
      moreover have "Suc (h - 1) = h" using f(8) by simp
      moreover have "forest_pages [t] \<subseteq> P \<union> (P1 \<union> P2) \<union> forest_pages [GNode i cs]"
        using t(2) w(3) sp(3) unfolding raised_def by blast
      ultimately have "deleted h (al_remove k (gkvs (GNode i cs))) (forest_pages [GNode i cs]) (view crc s2) (P \<union> (P1 \<union> P2)) (Some c)"
        using t unfolding deleted_def raised_def by auto
      then show "writes crc 0 s2 (sret (Some c)) (\<lambda>r P' s''. P2 \<inter> P' = {} \<longrightarrow> grows crc P' s2 s'' \<longrightarrow>
          P1 \<inter> (P2 \<union> P') = {} \<longrightarrow> grows crc (P2 \<union> P') s1 s'' \<longrightarrow> ?post r (P1 \<union> (P2 \<union> P')) s'')"
        by (intro writes_pure impI) simp
    qed
    then show "writes crc 600 s1 (if rs = [] then sret None else sbind (commit_internal crc rs) (\<lambda>c. sret (Some c)))
      (\<lambda>r P' s''. P1 \<inter> P' = {} \<longrightarrow> grows crc P' s1 s'' \<longrightarrow> ?post r (P1 \<union> P') s'')"
      using ws(1,2) by simp
  qed
  then show ?thesis unfolding cs' Let_def if_not_P [OF ne(1)] length_map by (rule writes_mono) simp_all
qed


lemma writes_rewrite_delete:
  assumes "forest (view crc s) h [t]" "bushy t" "forest_pages [t] \<inter> avail s = {}" "live crc s" "h \<le> n"
    and "\<forall>x \<in> set (gkvs t). small_kv x" "even_keys m (gkvs t)" "key \<in> fst ` set (gkvs t)"
  shows "writes crc (1800 * h) s (rewrite_delete crc key n (groot t))
    (\<lambda>r P s'. deleted h (al_remove key (gkvs t)) (forest_pages [t]) (view crc s') P r)"
  using assms
proof (induction n arbitrary: h t s)
  case 0
  then show ?case using tree_at_pos by (fastforce simp: forest_def)
next
  case (Suc n)
  show ?case
  proof (cases t)
    case (GLeaf i es)
    note t = Suc.prems(1) [unfolded GLeaf]
    have h: "1 \<le> 1800 * h" using forest_leaf_entries(2) [OF t] by simp
    show ?thesis
      unfolding rewrite_delete.simps GLeaf groot.simps
    proof (rule writes_at_leaf [OF t Suc.prems(4)])
      fix s' assume s': "same_store s s'" "live crc s'"
      have g: "grows crc {} s s'" by (rule same_store_grows [OF s'(1)])
      have t': "forest (view crc s') h [GLeaf i es]" "forest_pages [GLeaf i es] \<inter> avail s' = {}" "key \<in> fst ` set (gkvs (GLeaf i es))"
        using Suc.prems(1,3,8) GLeaf forest_grows [OF g] grows_fresh [OF g] by blast+
      show "writes crc (1800 * h) s' (case (map entry_of es, None) of (es, _) \<Rightarrow>
         case search_keys (map (\<lambda>e. stored_key_bytes (lf_key e)) es) key of
           Inl _ \<Rightarrow> sfail (BtCorruption 0)
         | Inr index \<Rightarrow>
             let es' = take index es @ drop (index + 1) es in
             if es' = [] then sret None
             else sbind (commit_leaf crc es') (\<lambda>c. sret (Some c)))
        (\<lambda>r P s'. deleted h (al_remove key (gkvs (GLeaf i es))) (forest_pages [GLeaf i es]) (view crc s') P r)"
        unfolding prod.case by (rule writes_mono [OF writes_delete_leaf [OF t'(1,2) s'(2) t'(3)] h])
    qed
  next
    case (GNode i cs)
    note t = Suc.prems(1) [unfolded GNode]
    obtain A u C where cs: "map snd cs = A @ [u] @ C" "route_child (map child_of cs) key = Inr (length A)" "length A < length cs"
      "groot u = cr_page_id (map child_of cs ! length A)"
      "take (length A) (map child_of cs) = map ref_of A" "drop (length A + 1) (map child_of cs) = map ref_of C"
      "\<forall>x \<in> set (concat (map gkvs A)). fst x < key" "\<forall>x \<in> set (concat (map gkvs C)). key < fst x"
      by (rule routed_children [OF t])
    note f = forest_children [OF t, unfolded cs(1)]
    have h: "1800 * h = 1800 * (h - 1) + 1800" using f(8) by (cases h) simp_all
    have kvs: "gkvs (GNode i cs) = concat (map gkvs A) @ gkvs u @ concat (map gkvs C)"
      using gkvs_node [OF cs(1), of i] by (simp del: gkvs.simps)
    have hyps: "\<forall>x \<in> set (gkvs (GNode i cs)). small_kv x" "even_keys m (gkvs (GNode i cs))" "key \<in> fst ` set (gkvs (GNode i cs))" "bushy (GNode i cs)"
      using Suc.prems(2,6-8) GNode by simp_all
    show ?thesis
      unfolding rewrite_delete.simps GNode groot.simps
    proof (rule writes_at_node [OF t Suc.prems(4)])
      fix s' assume s': "same_store s s'" "live crc s'"
      have g: "grows crc {} s s'" by (rule same_store_grows [OF s'(1)])
      have t': "forest (view crc s') h [GNode i cs]" "forest_pages [GNode i cs] \<inter> avail s' = {}"
        using Suc.prems(1,3) GNode forest_grows [OF g] grows_fresh [OF g] by blast+
      note f' = forest_children [OF t'(1), unfolded cs(1)]
      have sub: "writes crc (1800 * (h - 1)) s' (rewrite_delete crc key n (groot u))
        (\<lambda>r P s'. deleted (h - 1) (al_remove key (gkvs u)) (forest_pages [u]) (view crc s') P r)"
      proof (rule Suc.IH)
        show "forest (view crc s') (h - 1) [u]" using f'(1) unfolding forest_append by blast
        have "u \<in> set (map snd cs)" using cs(1) by simp
        then show "bushy u" using hyps(4) by auto
        have "forest_pages [u] \<subseteq> forest_pages [GNode i cs]" using f'(5) by auto
        then show "forest_pages [u] \<inter> avail s' = {}" using t'(2) by blast
        show "\<forall>x \<in> set (gkvs u). small_kv x" "even_keys m (gkvs u)" using hyps(1,2) unfolding kvs even_keys_def by simp_all
        show "key \<in> fst ` set (gkvs u)" using hyps(3) cs(7,8) unfolding kvs by auto
      qed (use s'(2) Suc.prems(5) in auto)
      show "writes crc (1800 * h) s' (case (map child_of cs, None) of (cs, _) \<Rightarrow>
         sbind (slift (route_child cs key)) (\<lambda>child_index.
         sbind (rewrite_delete crc key n (cr_page_id (cs ! child_index))) (\<lambda>replacement.
         let cs' = (case replacement of
                      Some c \<Rightarrow> cs[child_index := c]
                    | None \<Rightarrow> take child_index cs @ drop (child_index + 1) cs) in
         if cs' = [] then sret None
         else
           sbind (rebalance_after_delete crc cs' (min child_index (length cs' - 1))) (\<lambda>cs''.
           if cs'' = [] then sret None
           else sbind (commit_internal crc cs'') (\<lambda>c. sret (Some c))))))
        (\<lambda>r P s'. deleted h (al_remove key (gkvs (GNode i cs))) (forest_pages [GNode i cs]) (view crc s') P r)"
        unfolding h prod.case cs(2) writes_pure_bind cs(4) [symmetric]
        by (rule writes_bind [OF sub], rule writes_delete_node [OF t'(1,2) hyps(4) s'(2) hyps(1,2) cs(1,5-8)])
    qed
  qed
qed



subsection \<open>The root\<close>

lemma contract_bushy:
  assumes t: "forest (view crc s) h [t]" "bushy t" "live crc s" and n: "0 < n"
  shows "yields crc s (contract_root crc n (ref_of t)) (ref_of t)"
proof -
  obtain m where m: "n = Suc m" using n by (cases n) auto
  obtain p where p: "pager_page crc s (groot t) = Some p" "pg_kind p = g_kind t" "page_cells p = g_cells t" "page_validate crc p = Inr ()"
    by (rule forest_root_page [OF t(1,3)])
  have "yields crc s (if pg_kind p \<noteq> PkInternal then sret (ref_of t)
     else sbind (decode_internal crc p None) (\<lambda>(cs, _).
          if length cs \<noteq> 1 then sret (ref_of t) else contract_root crc m (cs ! 0))) (ref_of t)"
  proof (cases t)
    case (GLeaf i es)
    then show ?thesis using p(2) by (simp add: yields_pure)
  next
    case (GNode i cs)
    note f = forest_children [OF t(1) [unfolded GNode]]
    have dec: "yields crc s (decode_internal crc p None) (map child_of cs, add_seen (set (concat (map (\<lambda>c. bl_pages (fst c)) cs))) None)"
      by (rule decode_internal_of [OF p(4) _ _ f(7) t(3)]) (use p GNode in \<open>simp_all add: apart_def\<close>)
    have "length (map child_of cs) \<noteq> 1" using t(2) GNode by simp
    then show ?thesis using p(2) GNode by (simp add: yields_bind [OF dec] yields_pure)
  qed
  then show ?thesis unfolding m by (simp add: yields_read_bind [OF p(1)])
qed

lemma contract_root_of:
  assumes t: "forest (view crc s) h [t]" "near t" "live crc s" and n: "1 < n"
  obtains h' t' where "yields crc s (contract_root crc n (ref_of t)) (ref_of t')" "forest (view crc s) h' [t']" "bushy t'"
    "gkvs t' = gkvs t" "forest_pages [t'] \<subseteq> forest_pages [t]"
proof (cases "bushy t")
  case True
  then show ?thesis using that [OF contract_bushy [OF t(1) True t(3)] t(1) True] n by simp
next
  case False
  then obtain i cs where GNode: "t = GNode i cs" by (cases t) auto
  note f = forest_children [OF t(1) [unfolded GNode]]
  have "cs \<noteq> []" using f(7) by (simp add: node_ok_def)
  then obtain c where cs: "cs = [c]" using False t(2) GNode by (cases cs; cases "tl cs") auto
  let ?u = "snd c"
  have u: "forest (view crc s) (h - 1) [?u]" "bushy ?u" "child_of c = ref_of ?u" "gkvs ?u = gkvs t" "forest_pages [?u] \<subseteq> forest_pages [t]"
    using f(1,2,5) t(2) GNode cs by simp_all
  obtain m where m: "n = Suc m" "0 < m" using n by (cases n) auto
  obtain p where p: "pager_page crc s (groot t) = Some p" "pg_kind p = g_kind t" "page_cells p = g_cells t" "page_validate crc p = Inr ()"
    by (rule forest_root_page [OF t(1,3)])
  have dec: "yields crc s (decode_internal crc p None) (map child_of cs, add_seen (set (concat (map (\<lambda>c. bl_pages (fst c)) cs))) None)"
    by (rule decode_internal_of [OF p(4) _ _ f(7) t(3)]) (use p GNode in \<open>simp_all add: apart_def\<close>)
  have "yields crc s (contract_root crc n (ref_of t)) (ref_of ?u)"
    unfolding m(1) contract_root.simps ref_of_sel
    by (rule yields_read_bind [OF p(1)])
       (use contract_bushy [OF u(1,2) t(3) m(2)] p(2) GNode cs u(3) in \<open>simp add: yields_bind [OF dec]\<close>)
  then show ?thesis using that u by blast
qed


text \<open>The part of \<open>delete\<close> that builds the new tree.\<close>

definition delete_tree :: "(bytes \<Rightarrow> 32 word) \<Rightarrow> bytes \<Rightarrow> nat option tree_act" where
  "delete_tree crc key =
     sbind (sread pager_root_page_id) (\<lambda>root.
     sbind (slift (ok_or root (BtCorruption 0))) (\<lambda>root.
     sbind (rewrite_delete crc key MAX_TREE_HEIGHT root) (\<lambda>replacement.
     case replacement of
       None \<Rightarrow> sret None
     | Some root_ref \<Rightarrow> sbind (contract_root crc MAX_TREE_HEIGHT root_ref) (\<lambda>c. sret (Some (cr_page_id c))))))"

lemma btree_delete_tree:
  "btree_delete crc key =
     sbind (slift (bt_validate_key key)) (\<lambda>_.
     sbind (sread pr_data_page_bytes_written) (\<lambda>data_write_before.
     sbind (get_uninstrumented crc key) (\<lambda>previous.
     case previous of
       None \<Rightarrow> sbind (record_mutation (length key) data_write_before) (\<lambda>_. sret None)
     | Some previous_value \<Rightarrow>
         sbind (refresh_reusable_pages crc) (\<lambda>_.
         sbind (delete_tree crc key) (\<lambda>new_root.
         sbind (pager_set_root crc new_root) (\<lambda>_.
         sbind (record_mutation (length key) data_write_before) (\<lambda>_.
         sret (Some previous_value))))))))"
  unfolding btree_delete_def delete_tree_def sbind_assoc ..

definition shrunk :: "(bytes \<Rightarrow> 32 word) \<Rightarrow> (bytes \<times> bytes) list \<Rightarrow> btree \<Rightarrow> nat option \<Rightarrow> bool" where
  "shrunk crc kvs s r \<longleftrightarrow> (\<exists>g. r = map_option (\<lambda>(h, t). groot t) g \<and> content g = kvs \<and>
     (case g of None \<Rightarrow> True | Some (h, t) \<Rightarrow> forest (view crc s) h [t] \<and> bushy t))"

lemma writes_delete_tree:
  assumes g: "holds crc g s" "used_pages g \<inter> avail s = {}"
    and small: "\<forall>x \<in> set (content g). small_kv x" "even_keys m (content g)" and key: "key \<in> fst ` set (content g)"
  shows "writes crc 115200 s (delete_tree crc key) (\<lambda>r P s'. shrunk crc (al_remove key (content g)) s' r)"
proof -
  obtain h t where ht: "g = Some (h, t)" using key by (cases g) (auto simp: content_def)
  then have t: "pager_root_page_id s = Some (groot t)" "forest (view crc s) h [t]" "bushy t" "live crc s" "content g = gkvs t"
    "forest_pages [t] \<inter> avail s = {}"
    using g by (simp_all add: holds_def content_def used_pages_def)
  have hmax: "h \<le> MAX_TREE_HEIGHT" by (rule tree_height_bound [OF t(2-4)])
  have "writes crc (1800 * h + 0) s (sbind (rewrite_delete crc key MAX_TREE_HEIGHT (groot t)) (\<lambda>replacement. case replacement of
       None \<Rightarrow> sret None
     | Some root_ref \<Rightarrow> sbind (contract_root crc MAX_TREE_HEIGHT root_ref) (\<lambda>c. sret (Some (cr_page_id c)))))
    (\<lambda>r P s'. shrunk crc (al_remove key (content g)) s' r)"
  proof (rule writes_bind [OF writes_rewrite_delete [OF t(2,3,6,4) hmax small [unfolded t(5)] key [unfolded t(5)]]])
    fix r P s' assume g': "live crc s'" and r: "deleted h (al_remove key (gkvs t)) (forest_pages [t]) (view crc s') P r"
    show "writes crc 0 s' (case r of None \<Rightarrow> sret None
         | Some root_ref \<Rightarrow> sbind (contract_root crc MAX_TREE_HEIGHT root_ref) (\<lambda>c. sret (Some (cr_page_id c))))
       (\<lambda>r P' s''. P \<inter> P' = {} \<longrightarrow> grows crc P' s' s'' \<longrightarrow> shrunk crc (al_remove key (content g)) s'' r)"
    proof (cases r)
      case None
      then have "shrunk crc (al_remove key (content g)) s' None" using r t(5) by (simp add: deleted_def shrunk_def content_def)
      then show ?thesis using None by (auto intro: writes_pure)
    next
      case (Some c)
      then obtain u where u: "c = ref_of u" "forest (view crc s') h [u]" "gkvs u = al_remove key (gkvs t)" "near u"
        using r by (auto simp: deleted_def)
      obtain h' w where w: "yields crc s' (contract_root crc MAX_TREE_HEIGHT (ref_of u)) (ref_of w)" "forest (view crc s') h' [w]" "bushy w"
        "gkvs w = gkvs u"
        by (rule contract_root_of [OF u(2,4) g', of MAX_TREE_HEIGHT]) (simp add: MAX_TREE_HEIGHT_def)
      have "writes crc 0 s' (sbind (contract_root crc MAX_TREE_HEIGHT (ref_of u)) (\<lambda>c. sret (Some (cr_page_id c))))
        (\<lambda>r P' s''. P \<inter> P' = {} \<longrightarrow> grows crc P' s' s'' \<longrightarrow> shrunk crc (al_remove key (content g)) s'' r)"
      proof (rule writes_read [OF w(1)])
        fix s2 assume s2: "same_store s' s2" "live crc s2"
        have "shrunk crc (al_remove key (content g)) s2 (Some (groot w))"
          using w u(3) t(5) view_same_store [OF s2(1), of crc] unfolding shrunk_def
          by (intro exI [of _ "Some (h', w)"]) (simp add: content_def)
        then show "writes crc 0 s2 (sret (Some (cr_page_id (ref_of w))))
          (\<lambda>r P' s''. P \<inter> P' = {} \<longrightarrow> grows crc P' s' s'' \<longrightarrow> shrunk crc (al_remove key (content g)) s'' r)"
          by (auto intro: writes_pure)
      qed
      then show ?thesis using Some u(1) by simp
    qed
  qed
  then have "writes crc 115200 s (sbind (rewrite_delete crc key MAX_TREE_HEIGHT (groot t)) (\<lambda>replacement. case replacement of
       None \<Rightarrow> sret None
     | Some root_ref \<Rightarrow> sbind (contract_root crc MAX_TREE_HEIGHT root_ref) (\<lambda>c. sret (Some (cr_page_id c)))))
    (\<lambda>r P s'. shrunk crc (al_remove key (content g)) s' r)"
    by (rule writes_mono) (use hmax in \<open>simp_all add: MAX_TREE_HEIGHT_def\<close>)
  then show ?thesis by (simp add: delete_tree_def t(1) ok_or_def)
qed

lemma space_mono: "space m s \<Longrightarrow> n \<le> m \<Longrightarrow> space n s"
  by (auto simp: space_def add_mult_distrib)

lemma btree_delete_ok:
  assumes g: "holds crc g s" "\<forall>x \<in> set (content g). small_kv x" "even_keys m (content g)"
    and room: "space (115201 + n) s" and key: "length key \<le> 4096"
  obtains g' s' where "btree_delete crc key s = (Inr (map_of (content g) key), s')" "holds crc g' s'"
    "content g' = al_remove key (content g)" "space n s'"
proof -
  have valid: "bt_validate_key key = Inr ()" using key by (simp add: bt_validate_key_def node_consts)
  obtain s1 where s1: "get_uninstrumented crc key s = (Inr (map_of (content g) key), s1)" "same_store s s1" "live crc s1"
    using yields_run [OF get_uninstrumented_of [OF g(1) key] holds_live [OF g(1)]] by blast
  have step1: "sbind (get_uninstrumented crc key) f s = f (map_of (content g) key) s1" for f :: "bytes option \<Rightarrow> bytes option tree_act"
    using s1(1) by (rule sbind_run(1))
  have g1: "holds crc g s1" "space (115200 + (n + 1)) s1"
    using holds_same_store [OF g(1) s1(2,3)] room same_store_sel(2,3) [OF s1(2)] by (simp_all add: space_def)
  show ?thesis
  proof (cases "map_of (content g) key")
    case None
    obtain x s2 where s2: "record_mutation (length key) (pr_data_page_bytes_written s) s1 = (x, s2)" by force
    note m = holds_space_mutation [OF s2 g1(1) space_mono [OF g1(2), of n]]
    have step2: "sbind (record_mutation (length key) (pr_data_page_bytes_written s)) f s1 = f () s2" for f :: "unit \<Rightarrow> bytes option tree_act"
      using s2 m(1) by (intro sbind_run(1)) simp
    have "al_remove key (content g) = content g"
      using None by (force simp: al_remove_def filter_id_conv map_of_eq_None_iff)
    moreover have "btree_delete crc key s = (Inr (map_of (content g) key), s2)"
      using valid None by (simp add: btree_delete_tree step1 step2 act_simps)
    ultimately show ?thesis using that m(2,3) by simp
  next
    case (Some old)
    then have present: "key \<in> fst ` set (content g)" by (metis map_of_eq_None_iff option.distinct(1))
    obtain s2 where s2: "refresh_reusable_pages crc s1 = (Inr (), s2)" "holds crc g s2" "ready crc (115200 + (n + 1)) s2" "used_pages g \<inter> avail s2 = {}"
      using refresh_reusable_pages_ok [OF g1] by blast
    obtain r P s3 where s3: "delete_tree crc key s2 = (Inr r, s3)" "ready crc (n + 1) s3" "shrunk crc (al_remove key (content g)) s3 r"
      using writes_delete_tree [OF s2(2,4) g(2,3) present] s2(3) unfolding writes_def by blast
    obtain g' where g': "r = map_option (\<lambda>(h, t). groot t) g'" "content g' = al_remove key (content g)"
      "case g' of None \<Rightarrow> True | Some (h, t) \<Rightarrow> forest (view crc s3) h [t] \<and> bushy t"
      using s3(3) unfolding shrunk_def by blast
    obtain s4 where s4: "pager_set_root crc r s3 = (Inr (), s4)" "holds crc g' s4" "space n s4"
      using set_root_ok [OF ready_live [OF s3(2)] ready_space [OF s3(2)] g'(3)] g'(1) by blast
    obtain x s5 where s5: "record_mutation (length key) (pr_data_page_bytes_written s) s4 = (x, s5)" by force
    note m = holds_space_mutation [OF s5 s4(2,3)]
    have steps: "sbind (refresh_reusable_pages crc) f1 s1 = f1 () s2" "sbind (delete_tree crc key) f2 s2 = f2 r s3"
      "sbind (pager_set_root crc r) f1 s3 = f1 () s4" "sbind (record_mutation (length key) (pr_data_page_bytes_written s)) f1 s4 = f1 () s5"
      for f1 :: "unit \<Rightarrow> bytes option tree_act" and f2 :: "nat option \<Rightarrow> bytes option tree_act"
      using s2(1) s3(1) s4(1) s5 m(1) by (auto intro!: sbind_run(1))
    have "btree_delete crc key s = (Inr (map_of (content g) key), s5)"
      using valid Some by (simp add: btree_delete_tree step1 steps act_simps)
    then show ?thesis using that m(2,3) g'(2) by blast
  qed
qed

end
