(* ===== verification/BtreeKv.thy ===== *)
theory BtreeKv
  imports BtreeDelete MemoryEngine
begin

text \<open>
  The B+ tree as an engine: creating and reopening it, its abstraction to the ordered map, and the
  engine contract for pairs whose keys have one stored size and of which a page holds two.
\<close>

subsection \<open>The abstraction\<close>

text \<open>The map of the rows a full scan returns; a file has fewer entries than bytes.\<close>

definition btree_abs :: "(bytes \<Rightarrow> 32 word) \<Rightarrow> btree \<Rightarrow> kv_state" where
  "btree_abs crc s =
     (case fst (range_scan_uninstrumented crc [] None (length (pr_file s)) s) of
        Inl _ \<Rightarrow> om_empty
      | Inr rows \<Rightarrow> om_of_list rows)"

lemma tree_entries_bound:
  assumes "tree_at (view crc s) h t" "live crc s"
  shows "length (gkvs t) \<le> 4052 * length (gpages t)"
  using assms
proof (induction "view crc s" h t rule: tree_at.induct)
  case (1 h i es)
  have "cells_total (map leaf_cell es) \<le> 4052"
    using view_room [of crc s i PkLeaf None "map leaf_cell es"] 1 by (simp add: cells_room_fit cells_fit_iff)
  moreover have "length es \<le> cells_total (map leaf_cell es)" by (induction es) auto
  ultimately have "length es \<le> 4052" by linarith
  then show ?case by simp
next
  case (2 h i cs)
  have "\<forall>c \<in> set cs. length (gkvs (snd c)) \<le> 4052 * length (gpages (snd c))" using 2 by simp
  then have "length (concat (map (\<lambda>c. gkvs (snd c)) cs)) \<le> 4052 * length (concat (map (\<lambda>c. bl_pages (fst c) @ gpages (snd c)) cs))"
    by (induction cs) auto
  then show ?case by simp
qed

lemma content_bound:
  assumes "holds crc g s"
  shows "length (content g) \<le> length (pr_file s)"
proof (cases g)
  case None
  then show ?thesis by (simp add: content_def)
next
  case (Some ht)
  then obtain h t where g: "g = Some (h, t)" by (cases ht) auto
  then have t: "forest (view crc s) h [t]" "live crc s" using assms by (simp_all add: holds_def)
  note f = forest_tree [OF t(1)]
  have "set (gpages t) \<subseteq> {..< sb_page_count (pr_active s)}" using forest_page_ids [OF t] f(5) by auto
  then have "card (set (gpages t)) \<le> sb_page_count (pr_active s)"
    using card_mono [OF finite_lessThan, of "set (gpages t)" "sb_page_count (pr_active s)"] by simp
  then have "length (gpages t) \<le> sb_page_count (pr_active s)" by (simp only: distinct_card [OF f(3)])
  moreover have "length (pr_file s) = sb_page_count (pr_active s) * 4096"
    using t(2) by (simp add: live_def pager_inv_def pager_file_ok_def)
  moreover have "length (content g) \<le> 4052 * length (gpages t)"
    using tree_entries_bound [OF f(1) t(2)] g by (simp add: content_def del: gkvs.simps)
  ultimately show ?thesis by linarith
qed

lemma om_of_list_entries:
  assumes "al_ord xs"
  shows "entries (om_of_list xs) = xs"
proof -
  have "map_of (rev xs) = map_of xs"
    using al_ord_distinct [OF assms] by (simp add: map_of_inject_set rev_map [symmetric])
  then have "map_of (entries (om_of_list xs)) = map_of xs"
    unfolding om_lookup_entries [symmetric] om_of_list_def om_lookup_fold_insert by simp
  then show ?thesis by (intro al_ord_unique assms entries_ord)
qed

lemma btree_abs_content:
  assumes "holds crc g s"
  shows "entries (btree_abs crc s) = content g"
proof -
  have "filter (in_range [] None) (content g) = content g" by (rule filter_True) (simp add: in_range_def)
  then have "take (length (pr_file s)) (filter (in_range [] None) (content g)) = content g"
    using content_bound [OF assms] by (simp only: take_all)
  then have "yields crc s (range_scan_uninstrumented crc [] None (length (pr_file s))) (content g)"
    using range_scan_of [OF assms, of "[]" None "length (pr_file s)"] by (simp only: list.size option.distinct simp_thms le0)
  then obtain s' where "range_scan_uninstrumented crc [] None (length (pr_file s)) s = (Inr (content g), s')"
    by (rule yields_run [OF _ holds_live [OF assms]])
  then show ?thesis
    using om_of_list_entries [OF content_ord [OF assms]] by (simp add: btree_abs_def)
qed

lemma btree_abs_lookup: "holds crc g s \<Longrightarrow> om_lookup (btree_abs crc s) = map_of (content g)"
  by (simp add: om_lookup_entries btree_abs_content)

lemma entries_eqI: "entries m = entries m' \<Longrightarrow> m = m'"
  by (simp add: entries_inject)


subsection \<open>Reads as the engine performs them\<close>

lemma space_same_store: "same_store s s' \<Longrightarrow> space n s' = space n s"
  using same_store_sel(2,3) [of s s'] by (simp add: space_def)

lemma space_instrumentation: "space n (s\<lparr>bt_instrumentation := l\<rparr>) = space n s"
  by (simp add: space_def)

lemma btree_get_ok:
  assumes g: "holds crc g s" "space n s" and key: "length key \<le> 4096"
  obtains s' where "btree_get crc key s = (Inr (map_of (content g) key), s')" "holds crc g s'" "space n s'"
proof -
  obtain s1 where s1: "get_uninstrumented crc key s = (Inr (map_of (content g) key), s1)" "same_store s s1" "live crc s1"
    using yields_run [OF get_uninstrumented_of [OF g(1) key] holds_live [OF g(1)]] by blast
  show ?thesis
    by (rule that, simp add: btree_get_def s1(1) Let_def)
       (use holds_same_store [OF g(1) s1(2,3)] g(2) space_same_store [OF s1(2)] in
          \<open>simp_all add: holds_instrumentation space_instrumentation\<close>)
qed

lemma btree_scan_ok:
  assumes g: "holds crc g s" "space n s" and range: "length lo \<le> 4096" "\<And>h. hi = Some h \<Longrightarrow> length h \<le> 4096 \<and> lo \<le> h"
  obtains s' where "btree_range_scan crc lo hi limit s = (Inr (take limit (filter (in_range lo hi) (content g))), s')"
    "holds crc g s'" "space n s'"
proof -
  obtain s1 where s1: "range_scan_uninstrumented crc lo hi limit s = (Inr (take limit (filter (in_range lo hi) (content g))), s1)"
    "same_store s s1" "live crc s1"
    using yields_run [OF range_scan_of [OF g(1) range] holds_live [OF g(1)]] by blast
  show ?thesis
    by (rule that, simp add: btree_range_scan_def s1(1) Let_def)
       (use holds_same_store [OF g(1) s1(2,3)] g(2) space_same_store [OF s1(2)] in
          \<open>simp_all add: holds_instrumentation space_instrumentation\<close>)
qed


subsection \<open>Creating and opening\<close>

lemma pager_open_own:
  assumes "pager_file_ok crc active f" "capacity \<noteq> 0"
  shows "pager_open crc (Some f) capacity faults = (Inr (pager_start f faults active capacity None), Some f)"
proof -
  have f: "sb_wf active" "length f = sb_page_count active * 4096" "length f \<le> u64_max"
    "choose_superblock (superblock_decode crc (page_at f 0) 0) (superblock_decode crc (page_at f 1) 1) = Inr active"
    using assms(1) by (simp_all add: pager_file_ok_def)
  have n: "2 \<le> sb_page_count active" using f(1) by (simp add: sb_wf_def)
  have "read_superblock crc f 0 = superblock_decode crc (page_at f 0) 0" "read_superblock crc f 1 = superblock_decode crc (page_at f 1) 1"
    using file_read_page [OF f(2), of 0] file_read_page [OF f(2), of 1] n by (simp_all add: read_superblock_def PAGE_SIZE_def)
  then show ?thesis
    using f n assms(2)
    by (simp add: pager_open_def validate_cache_capacity_def ensure_def ok_or_def committed_file_bytes_def checked_mul64_def
        SUPERBLOCK_COUNT_def PAGE_SIZE_def)
qed

lemma start_view:
  fixes s :: btree
  assumes "pager_file_ok crc active f"
  shows "capacity \<noteq> 0 \<Longrightarrow> live crc (btree_start (pager_start f faults active capacity rec) capacity)"
    "pr_file s = f \<Longrightarrow> pr_active s = active \<Longrightarrow> view crc (btree_start (pager_start f faults active capacity rec) capacity) = view crc s"
proof -
  show "capacity \<noteq> 0 \<Longrightarrow> live crc (btree_start (pager_start f faults active capacity rec) capacity)"
    using assms by (simp add: live_def pager_inv_def btree_start_def pager_start_def cache_new_def pager.defs btree.defs)
  show "pr_file s = f \<Longrightarrow> pr_active s = active \<Longrightarrow> view crc (btree_start (pager_start f faults active capacity rec) capacity) = view crc s"
    by (simp add: view_def fun_eq_iff pager_page_def btree_start_def pager_start_def pager.defs btree.defs cong: option.case_cong sum.case_cong)
qed

lemma validate_reachable_of:
  assumes "holds crc g s"
  shows "yields crc s (validate_reachable_tree crc) ()"
proof -
  have "yields crc s (case pager_root_page_id s of None \<Rightarrow> sret ()
     | Some r \<Rightarrow> sbind (validate_subtree crc MAX_TREE_HEIGHT r {}) (\<lambda>_. sret ())) ()"
  proof (cases g)
    case None
    then show ?thesis using assms by (simp add: holds_def yields_pure)
  next
    case (Some ht)
    then obtain h t where g: "g = Some (h, t)" by (cases ht) auto
    then have t: "pager_root_page_id s = Some (groot t)" "forest (view crc s) h [t]" "bushy t" "live crc s"
      using assms by (simp_all add: holds_def)
    note f = forest_tree [OF t(2)]
    have "yields crc s (validate_subtree crc MAX_TREE_HEIGHT (groot t) {}) (bounds_of h t, set (gpages t) \<union> {})"
      by (rule validate_subtree_of [OF f(1) t(3) f(2,3) _ tree_height_bound [OF t(2-4)] t(4)]) simp
    then show ?thesis using t(1) by (simp add: yields_bind yields_pure)
  qed
  then show ?thesis
    unfolding validate_reachable_tree_def by - (rule yields_sread_bind, rule same_store_root)
qed

lemma btree_open_own:
  assumes g: "holds crc g s" "space n s"
  obtains t where "btree_open crc (Some (pr_file s)) (bt_cache_capacity s) (pr_faults s) = (Inr t, Some (pr_file s))"
    "holds crc g t" "space n t"
proof -
  have ok: "pager_file_ok crc (pr_active s) (pr_file s)" "bt_cache_capacity s \<noteq> 0"
    using holds_live [OF g(1)] by (simp_all add: live_def pager_inv_def)
  let ?t = "btree_start (pager_start (pr_file s) (pr_faults s) (pr_active s) (bt_cache_capacity s) None) (bt_cache_capacity s)"
  have "pager_root_page_id ?t = pager_root_page_id s"
    by (simp add: pager_root_page_id_def btree_start_def pager_start_def pager.defs btree.defs)
  then have t0: "holds crc g ?t"
    using g(1) start_view [OF ok(1)] ok(2) by (auto simp: holds_def split: option.splits)
  have r0: "space n ?t" using g(2) by (simp add: space_def btree_start_def pager_start_def pager.defs btree.defs)
  obtain t1 where t1: "validate_reachable_tree crc ?t = (Inr (), t1)" "same_store ?t t1" "live crc t1"
    using yields_run [OF validate_reachable_of [OF t0] holds_live [OF t0]] by blast
  have g1: "holds crc g t1" "space n t1"
    using holds_same_store [OF t0 t1(2,3)] space_same_store [OF t1(2)] r0 by simp_all
  obtain t2 where t2: "refresh_reusable_pages crc t1 = (Inr (), t2)" "holds crc g t2" "ready crc n t2"
    using refresh_reusable_pages_ok [OF g1] by blast
  have "sbind (validate_reachable_tree crc) (\<lambda>_. refresh_reusable_pages crc) ?t = (Inr (), t2)"
    using t1(1) t2(1) by (simp add: sbind_def)
  then have "btree_open crc (Some (pr_file s)) (bt_cache_capacity s) (pr_faults s) = (Inr t2, Some (pr_file s))"
    by (simp add: btree_open_def pager_open_own [OF ok])
  then show ?thesis using that t2(2) ready_space [OF t2(3)] by blast
qed


lemma initial_file_ok: "pager_file_ok crc (superblock_initial 0)
    (superblock_encode crc (superblock_initial 0) @ superblock_encode crc (superblock_initial 1))"
proof -
  let ?f = "superblock_encode crc (superblock_initial 0) @ superblock_encode crc (superblock_initial 1)"
  have wf: "sb_wf (superblock_initial 0)" "sb_wf (superblock_initial 1)"
    by (simp_all add: sb_wf_def superblock_initial_def u64_max_def SUPERBLOCK_COUNT_def ROOT_NONE_def)
  have pages: "page_at ?f 0 = superblock_encode crc (superblock_initial 0)" "page_at ?f 1 = superblock_encode crc (superblock_initial 1)"
    by (simp_all add: page_at_def seg_def)
  have "superblock_decode crc (page_at ?f 0) 0 = Inr (superblock_initial 0)" "superblock_decode crc (page_at ?f 1) 1 = Inr (superblock_initial 1)"
    using superblock_round_trip [OF wf(1), of crc] superblock_round_trip [OF wf(2), of crc] unfolding pages
    by (simp_all add: superblock_initial_def)
  then show ?thesis
    using wf(1) pages(1) unfolding pager_file_ok_def
    by (simp add: choose_superblock_def superblock_initial_def SUPERBLOCK_COUNT_def u64_max_def)
qed

lemma btree_create_ok:
  assumes "capacity \<noteq> 0"
  obtains s f where "btree_create_new crc None capacity [] = (Inr s, Some f)" "pr_file s = f" "holds crc None s"
    "\<And>n. (2 + n) * 4096 \<le> u64_max \<Longrightarrow> space n s" "bt_cache_capacity s = capacity"
proof -
  let ?f = "superblock_encode crc (superblock_initial 0) @ superblock_encode crc (superblock_initial 1)"
  let ?s = "btree_start (pager_start ?f [] (superblock_initial 0) capacity None) capacity"
  have "btree_create_new crc None capacity [] = (Inr ?s, Some ?f)"
    using assms by (simp add: btree_create_new_def pager_create_new_def validate_cache_capacity_def ensure_def Let_def)
  moreover have "holds crc None ?s"
    using start_view(1) [OF initial_file_ok assms] unfolding holds_def
    by (simp add: pager_root_page_id_def btree_start_def pager_start_def pager.defs btree.defs superblock_initial_def)
  ultimately show ?thesis
    using that [of ?s ?f] by (simp add: btree_start_def pager_start_def pager.defs btree.defs space_def superblock_initial_def SUPERBLOCK_COUNT_def)
qed


subsection \<open>The contract\<close>

definition btree_fits :: "nat \<Rightarrow> bytes \<Rightarrow> bytes \<Rightarrow> bool" where
  "btree_fits w k v \<longleftrightarrow> small_kv (k, v) \<and> key_size k = w"

definition btree_invar :: "(bytes \<Rightarrow> 32 word) \<Rightarrow> nat \<Rightarrow> btree \<Rightarrow> bool" where
  "btree_invar crc w s \<longleftrightarrow> (\<exists>g. holds crc g s \<and> (\<forall>(k, v) \<in> set (content g). btree_fits w k v))"

definition btree_room :: "nat \<Rightarrow> btree \<Rightarrow> bool" where
  "btree_room n s \<longleftrightarrow> space (115201 * n) s"

lemma btree_invar_content:
  "btree_invar crc w s \<Longrightarrow> \<exists>g. holds crc g s \<and> (\<forall>x \<in> set (content g). small_kv x) \<and> even_keys w (content g) \<and>
     entries (btree_abs crc s) = content g"
  using btree_abs_content by (fastforce simp: btree_invar_def btree_fits_def even_keys_def)

lemma btree_invarI:
  "holds crc g s \<Longrightarrow> \<forall>x \<in> set (content g). small_kv x \<Longrightarrow> even_keys w (content g) \<Longrightarrow> btree_invar crc w s"
  unfolding btree_invar_def btree_fits_def even_keys_def by (rule exI [of _ g]) auto

lemma room_step: "btree_room (Suc n) s \<Longrightarrow> space (77663 + 115201 * n) s" "btree_room (Suc n) s \<Longrightarrow> space (115201 + 115201 * n) s"
    "btree_room (Suc n) s \<Longrightarrow> space (115201 * n) s"
  unfolding btree_room_def by (rule space_mono, assumption, simp)+

lemma validate_keys:
  "validate_key k = Inr () \<longleftrightarrow> length k \<le> 4096" "validate_key k = Inl e \<longleftrightarrow> 4096 < length k \<and> e = InvalidInput"
  by (auto simp: validate_key_def MAX_KEY_BYTES_def)

lemma validate_pairs:
  "validate_key_value k v = Inr () \<longleftrightarrow> length k \<le> 4096 \<and> length v \<le> 1048576"
  "validate_key_value k v = Inl e \<longleftrightarrow> (4096 < length k \<or> 1048576 < length v) \<and> e = InvalidInput"
  by (auto simp: validate_key_value_def validate_key_def MAX_KEY_BYTES_def MAX_VALUE_BYTES_def)

lemma btree_put_kv:
  assumes "btree_invar crc w s" "btree_room (Suc n) s" "validate_key_value k v = Inr ()" "btree_fits w k v"
  shows "\<exists>s'. map_common (btree_put crc k v s) = (Inr (om_lookup (btree_abs crc s) k), s') \<and> btree_invar crc w s' \<and>
    btree_room n s' \<and> btree_abs crc s' = om_insert k v (btree_abs crc s)"
proof -
  obtain g where g: "holds crc g s" "\<forall>x \<in> set (content g). small_kv x" "even_keys w (content g)" "entries (btree_abs crc s) = content g"
    using btree_invar_content [OF assms(1)] by blast
  have kv: "length k \<le> 4096" "length v \<le> 1048576" "small_kv (k, v)" "key_size k = w"
    using assms(3,4) by (simp_all add: validate_pairs btree_fits_def)
  obtain g' s' where s': "btree_put crc k v s = (Inr (map_of (content g) k), s')" "holds crc g' s'"
    "content g' = al_insert k v (content g)" "space (115201 * n) s'"
    by (rule btree_put_ok [OF g(1,2) room_step(1) [OF assms(2)] kv(1-3)])
  have sub: "set (content g') \<subseteq> insert (k, v) (set (content g))" unfolding s'(3) by (rule set_al_insert)
  have "btree_invar crc w s'"
    using sub g(2,3) kv(3,4) by (intro btree_invarI [OF s'(2)]) (auto simp: even_keys_def)
  moreover have "btree_abs crc s' = om_insert k v (btree_abs crc s)"
    by (rule entries_eqI) (simp add: btree_abs_content [OF s'(2)] s'(3) g(4) entries_insert)
  ultimately show ?thesis
    using s'(1,4) g(4) by (simp add: map_common_def btree_room_def om_lookup_entries)
qed

lemma btree_delete_kv:
  assumes "btree_invar crc w s" "btree_room (Suc n) s" "validate_key k = Inr ()"
  shows "\<exists>s'. map_common (btree_delete crc k s) = (Inr (om_lookup (btree_abs crc s) k), s') \<and> btree_invar crc w s' \<and>
    btree_room n s' \<and> btree_abs crc s' = om_remove k (btree_abs crc s)"
proof -
  obtain g where g: "holds crc g s" "\<forall>x \<in> set (content g). small_kv x" "even_keys w (content g)" "entries (btree_abs crc s) = content g"
    using btree_invar_content [OF assms(1)] by blast
  obtain g' s' where s': "btree_delete crc k s = (Inr (map_of (content g) k), s')" "holds crc g' s'"
    "content g' = al_remove k (content g)" "space (115201 * n) s'"
    using btree_delete_ok [OF g(1-3) room_step(2) [OF assms(2)]] assms(3) validate_keys(1) by blast
  have sub: "set (content g') \<subseteq> set (content g)" unfolding s'(3) by (rule al_remove_subset)
  have "btree_invar crc w s'"
    using sub g(2,3) by (intro btree_invarI [OF s'(2)]) (auto simp: even_keys_def)
  moreover have "btree_abs crc s' = om_remove k (btree_abs crc s)"
    by (rule entries_eqI) (simp add: btree_abs_content [OF s'(2)] s'(3) g(4) om_remove_def entries_filter al_remove_def)
  ultimately show ?thesis
    using s'(1,4) g(4) by (simp add: map_common_def btree_room_def om_lookup_entries)
qed

text \<open>An operation that leaves the tree alone.\<close>

lemma btree_kept:
  assumes "btree_invar crc w s" "btree_room (Suc n) s" "\<And>g. holds crc g s \<Longrightarrow> space (115201 * n) s \<Longrightarrow> holds crc g s' \<and> space (115201 * n) s'"
  shows "btree_invar crc w s' \<and> btree_room n s' \<and> btree_abs crc s' = btree_abs crc s"
proof -
  obtain g where g: "holds crc g s" "\<forall>x \<in> set (content g). small_kv x" "even_keys w (content g)" "entries (btree_abs crc s) = content g"
    using btree_invar_content [OF assms(1)] by blast
  note s' = assms(3) [OF g(1) room_step(3) [OF assms(2)]]
  have "btree_abs crc s' = btree_abs crc s" using btree_abs_content [of crc g s'] s' g(4) by (intro entries_eqI) simp
  then show ?thesis using s' btree_invarI [OF _ g(2,3)] by (simp add: btree_room_def)
qed


lemma btree_get_kv:
  assumes "btree_invar crc w s" "btree_room (Suc n) s" "validate_key k = Inr ()"
  shows "\<exists>s'. map_common (btree_get crc k s) = (Inr (om_lookup (btree_abs crc s) k), s') \<and> btree_invar crc w s' \<and>
    btree_room n s' \<and> btree_abs crc s' = btree_abs crc s"
proof -
  obtain g where g: "holds crc g s" "entries (btree_abs crc s) = content g" using btree_invar_content [OF assms(1)] by blast
  have k: "length k \<le> 4096" using assms(3) by (simp add: validate_keys)
  obtain s' where s': "btree_get crc k s = (Inr (map_of (content g) k), s')"
    using btree_get_ok [OF g(1) room_step(3) [OF assms(2)] k] by blast
  have "holds crc g2 s' \<and> space (115201 * n) s'" if g2: "holds crc g2 s" "space (115201 * n) s" for g2
    using btree_get_ok [OF g2 k] s' by (metis prod.inject)
  then show ?thesis
    using btree_kept [OF assms(1,2), of s'] s' g(2) by (simp add: map_common_def om_lookup_entries)
qed

lemma btree_scan_kv:
  assumes "btree_invar crc w s" "btree_room (Suc n) s" "validate_range_scan lo hi = Inr ()"
  shows "\<exists>s'. map_common (btree_range_scan crc lo hi limit s) = (Inr (spec_range (btree_abs crc s) lo hi limit), s') \<and>
    btree_invar crc w s' \<and> btree_room n s' \<and> btree_abs crc s' = btree_abs crc s"
proof -
  obtain g where g: "holds crc g s" "entries (btree_abs crc s) = content g" using btree_invar_content [OF assms(1)] by blast
  have range: "length lo \<le> 4096" "\<And>h. hi = Some h \<Longrightarrow> length h \<le> 4096 \<and> lo \<le> h"
    using assms(3) by (auto simp: validate_range_scan_def validate_keys rbind_eq_Inr split: if_splits)
  obtain s' where s': "btree_range_scan crc lo hi limit s = (Inr (take limit (filter (in_range lo hi) (content g))), s')"
    by (rule btree_scan_ok [OF g(1) room_step(3) [OF assms(2)] range])
  have "holds crc g2 s' \<and> space (115201 * n) s'" if g2: "holds crc g2 s" "space (115201 * n) s" for g2
    using btree_scan_ok [OF g2 range, where limit = limit] s' by (metis prod.inject)
  moreover have "spec_range (btree_abs crc s) lo hi limit = take limit (filter (in_range lo hi) (content g))"
    by (simp add: spec_range_def om_range_def g(2) al_range_content)
  ultimately show ?thesis
    using btree_kept [OF assms(1,2), of s'] s' by (simp add: map_common_def)
qed

lemma btree_reopen_kv:
  assumes "btree_invar crc w s" "btree_room (Suc n) s"
  shows "\<exists>s'. btree_reopen crc s = (Inr (), s') \<and> btree_invar crc w s' \<and> btree_room n s' \<and> btree_abs crc s' = btree_abs crc s"
proof -
  obtain g where g: "holds crc g s" using btree_invar_content [OF assms(1)] by blast
  obtain t where t: "btree_open crc (Some (pr_file s)) (bt_cache_capacity s) (pr_faults s) = (Inr t, Some (pr_file s))"
    by (rule btree_open_own [OF g room_step(3) [OF assms(2)]])
  let ?s = "t\<lparr>bt_instrumentation := bt_instrumentation s\<rparr>"
  have "holds crc g2 ?s \<and> space (115201 * n) ?s" if g2: "holds crc g2 s" "space (115201 * n) s" for g2
    by (rule btree_open_own [OF g2]) (use t in \<open>simp add: holds_instrumentation space_instrumentation\<close>)
  then show ?thesis
    using btree_kept [OF assms, of ?s] t by (simp add: btree_reopen_def)
qed

text \<open>Invalid input is refused before the tree is touched.\<close>

lemma btree_invalid:
  "validate_key_value k v = Inl e \<Longrightarrow> map_common (btree_put crc k v s) = (Inl e, s)"
  "validate_key k = Inl e \<Longrightarrow> map_common (btree_get crc k s) = (Inl e, s)"
  "validate_key k = Inl e \<Longrightarrow> map_common (btree_delete crc k s) = (Inl e, s)"
  "validate_range_scan lo hi = Inl e \<Longrightarrow> map_common (btree_range_scan crc lo hi limit s) = (Inl e, s)"
proof -
  have key: "bt_validate_key k = (if length k \<le> 4096 then Inr () else Inl BtInvalidInput)" for k
    by (simp add: bt_validate_key_def ensure_def node_consts)
  show "validate_key_value k v = Inl e \<Longrightarrow> map_common (btree_put crc k v s) = (Inl e, s)"
    by (auto simp: validate_pairs btree_put_def bt_validate_key_value_def key map_common_def node_consts ensure_def)
  show "validate_key k = Inl e \<Longrightarrow> map_common (btree_get crc k s) = (Inl e, s)"
    by (auto simp: validate_keys btree_get_def get_uninstrumented_def key map_common_def Let_def)
  show "validate_key k = Inl e \<Longrightarrow> map_common (btree_delete crc k s) = (Inl e, s)"
    by (auto simp: validate_keys btree_delete_def key map_common_def)
  assume "validate_range_scan lo hi = Inl e"
  moreover have vk: "validate_key k = (if length k \<le> 4096 then Inr () else Inl InvalidInput)" for k
    by (simp add: validate_key_def MAX_KEY_BYTES_def)
  ultimately have "e = InvalidInput" and bad: "4096 < length lo \<or> length lo \<le> 4096 \<and> (\<exists>h. hi = Some h \<and> (4096 < length h \<or> h < lo))"
    by (cases hi; auto simp: validate_range_scan_def split: if_splits)+
  then show "map_common (btree_range_scan crc lo hi limit s) = (Inl e, s)"
    by (auto simp: key btree_range_scan_def range_scan_uninstrumented_def map_common_def ensure_def Let_def)
qed

interpretation btree_kv: kv_ordered "btree_ops crc" "btree_invar crc w" btree_room "btree_abs crc" "btree_fits w" for crc w
proof
  show "common_contract (op_capabilities (btree_ops crc) s)" for crc s
    by (simp add: btree_ops_def btree_capabilities_def common_contract_def MAX_TREE_KEY_BYTES_def MAX_TREE_VALUE_BYTES_def
        MAX_KEY_BYTES_def MAX_VALUE_BYTES_def)
  show "ec_ordered_range_scan (op_capabilities (btree_ops crc) s)" for crc s
    by (simp add: btree_ops_def btree_capabilities_def)
qed (simp_all add: btree_ops_def btree_put_kv btree_get_kv btree_delete_kv btree_scan_kv btree_reopen_kv btree_invalid)

end
