(* ===== verification/BtreeGap.thy ===== *)
theory BtreeGap
  imports BtreeKv
begin

text \<open>
  Puts that the tree refuses because of their neighbours.  A leaf that overflows is split in two
  only; when no point leaves both halves within a page, the put fails after nothing but reads of
  the tree (and pages for an overflow key or value that stay unreachable), so the committed tree
  is what it was.
\<close>

subsection \<open>Failing after reads\<close>

definition refuses :: "(bytes \<Rightarrow> 32 word) \<Rightarrow> btree \<Rightarrow> 'a tree_act \<Rightarrow> btree_error \<Rightarrow> bool" where
  "refuses crc s m e \<longleftrightarrow>
     (\<forall>s1. same_store s s1 \<and> live crc s1 \<longrightarrow> (\<exists>s2. m s1 = (Inl e, s2) \<and> same_store s1 s2 \<and> live crc s2))"

lemma refuses_run:
  assumes "refuses crc s m e" "live crc s"
  obtains s' where "m s = (Inl e, s')" "same_store s s'" "live crc s'"
  using assms unfolding refuses_def by (meson same_store_refl)

lemma refuses_bind: "yields crc s m x \<Longrightarrow> refuses crc s (f x) e \<Longrightarrow> refuses crc s (sbind m f) e"
  unfolding yields_def refuses_def by (metis same_store_trans sbind_run(1))

lemma refuses_stop: "refuses crc s m e \<Longrightarrow> refuses crc s (sbind m f) e"
  unfolding refuses_def by (metis sbind_run(2))

lemma refuses_here: "(\<And>s1. m s1 = (Inl e, s1)) \<Longrightarrow> refuses crc s m e"
  by (simp add: refuses_def)


subsection \<open>Leaves without a split\<close>

text \<open>The page bytes a pair takes in a leaf: slot, cell header, and the key and value or the references
  to their overflow pages.\<close>

definition pair_size :: "bytes \<times> bytes \<Rightarrow> nat" where
  "pair_size x = 10 + key_size (fst x) + value_size (fst x) (snd x)"

text \<open>Pairs of these sizes do not fit one page, nor two pages in order.\<close>

definition no_split :: "nat list \<Rightarrow> bool" where
  "no_split ns \<longleftrightarrow> 4052 < sum_list ns \<and>
     (\<forall>j. 0 < j \<and> j < length ns \<longrightarrow> 4052 < sum_list (take j ns) \<or> 4052 < sum_list (drop j ns))"

lemma pair_size_cell: "entry_canon e \<Longrightarrow> 4 + length (leaf_cell e) = pair_size (kv_of e)"
  using payload_key_size [of "fst e"] payload_value_size [of e]
  by (simp add: pair_size_def leaf_cell_size entry_canon_def)

lemma no_split_cells:
  assumes "no_split (map (\<lambda>c. 4 + length c) cells)" "cells_total cells \<le> u64_max"
  shows "\<not> cells_fit cells" "choose_split cells = None"
proof -
  have tot: "cells_total (take j cells) = sum_list (take j (map (\<lambda>c. 4 + length c) cells))"
    "cells_total (drop j cells) = sum_list (drop j (map (\<lambda>c. 4 + length c) cells))" for j
    by (simp_all add: cells_total_sizes take_map drop_map)
  show "\<not> cells_fit cells" using assms(1) by (simp add: cells_fit_iff cells_total_sizes no_split_def)
  show "choose_split cells = None"
  proof (cases "2 \<le> length cells")
    case True
    have "\<not> split_feasible (\<lambda>_. True) cells k" if "1 \<le> k" "k < length cells" for k
    proof -
      have "4052 < sum_list (take k (map (\<lambda>c. 4 + length c) cells)) \<or>
          4052 < sum_list (drop k (map (\<lambda>c. 4 + length c) cells))"
        using assms(1) that unfolding no_split_def by (metis One_nat_def Suc_le_eq length_map)
      then show ?thesis unfolding split_feasible_def tot by linarith
    qed
    then show ?thesis
      using choose_split_spec [OF True assms(2)] by blast
  next
    case False
    then show ?thesis by (simp add: choose_split_def)
  qed
qed

lemma leaf_level_refuses:
  assumes ok: "leaf_ok (view crc s) es" "\<forall>e \<in> set es. entry_canon e" and live: "live crc s"
    and gap: "no_split (map (\<lambda>e. pair_size (kv_of e)) es)" "sum_list (map (\<lambda>e. pair_size (kv_of e)) es) \<le> u64_max"
  shows "commit_leaf_level crc (map entry_of es) s1 = (Inl BtInvalidInput, s1)"
proof -
  have sizes: "map (\<lambda>c. 4 + length c) (map leaf_cell es) = map (\<lambda>e. pair_size (kv_of e)) es"
    using ok(2) pair_size_cell by simp
  have "cells_total (map leaf_cell es) \<le> u64_max"
    unfolding cells_total_sizes sizes by (rule gap(2))
  note split = no_split_cells [OF gap(1) [folded sizes] this]
  have "es \<noteq> []" using ok(1) by (simp add: leaf_ok_def)
  then show ?thesis
    using encode_leaf_cells [OF ok(1) live] split by (simp add: commit_leaf_level_def ok_or_def act_simps)
qed


subsection \<open>The leaf a key is routed to\<close>

inductive routed_leaf :: "bytes \<Rightarrow> gtree \<Rightarrow> (blob \<times> blob) list \<Rightarrow> bool" for key where
  here: "routed_leaf key (GLeaf i es) es"
| below: "route_child (map child_of cs) key = Inr j \<Longrightarrow> j < length cs \<Longrightarrow> routed_leaf key (snd (cs ! j)) es \<Longrightarrow>
    routed_leaf key (GNode i cs) es"

lemma at_leaf_refuses:
  assumes t: "forest (view crc s) h [GLeaf i es]" "live crc s" and k: "refuses crc s (leaf_k (map entry_of es, None)) e"
  shows "refuses crc s (sbind (pager_read_page crc i) (\<lambda>p. case pg_kind p of
      PkLeaf \<Rightarrow> sbind (decode_leaf crc p None) leaf_k | PkInternal \<Rightarrow> node_k p | PkOverflow \<Rightarrow> other_k p)) e"
proof -
  note leaf = forest_leaf_entries [OF t(1)]
  obtain p where p: "pager_page crc s i = Some p" "pg_kind p = PkLeaf"
    "page_cells p = map leaf_cell es" "page_validate crc p = Inr ()"
    using view_Some [OF leaf(3)] by metis
  have "yields crc s (decode_leaf crc p None) (map entry_of es, add_seen (set (concat (map (\<lambda>e. bl_pages (fst e)) es))) None)"
    by (rule decode_leaf_of [OF p(4,3,2) _ t(2)]) (use leaf(1) in \<open>simp_all add: apart_def entries_ok_def\<close>)
  then have "refuses crc s (sbind (decode_leaf crc p None) leaf_k) e"
    by (rule refuses_bind) (use k in simp)
  then show ?thesis by (intro refuses_bind [OF yields_read [OF p(1)]]) (simp add: p(2))
qed

lemma at_node_refuses:
  assumes t: "forest (view crc s) h [GNode i cs]" "live crc s" and k: "refuses crc s (node_k (map child_of cs, None)) e"
  shows "refuses crc s (sbind (pager_read_page crc i) (\<lambda>p. case pg_kind p of
      PkLeaf \<Rightarrow> leaf_k p | PkInternal \<Rightarrow> sbind (decode_internal crc p None) node_k | PkOverflow \<Rightarrow> other_k p)) e"
proof -
  note node = forest_children [OF t(1)]
  obtain p where p: "pager_page crc s i = Some p" "pg_kind p = PkInternal"
    "page_cells p = map node_cell cs" "page_validate crc p = Inr ()"
    using view_Some [OF node(6)] by metis
  have "yields crc s (decode_internal crc p None) (map child_of cs, add_seen (set (concat (map (\<lambda>c. bl_pages (fst c)) cs))) None)"
    by (rule decode_internal_of [OF p(4,3,2) node(7) t(2)]) (simp add: apart_def)
  then have "refuses crc s (sbind (decode_internal crc p None) node_k) e"
    by (rule refuses_bind) (use k in simp)
  then show ?thesis by (intro refuses_bind [OF yields_read [OF p(1)]]) (simp add: p(2))
qed


subsection \<open>Inserting\<close>

lemma pair_size_bound: "pair_size x \<le> 8086"
  by (auto simp: pair_size_def key_size_def value_size_def)

text \<open>Putting an entry into the leaf it is routed to, when the new leaf has no split.\<close>

lemma put_leaf_refuses:
  assumes t: "forest (view crc s) h [GLeaf i es]" "live crc s"
    and e: "blob_at (view crc s) 4096 (fst e)" "blob_at (view crc s) 1048576 (snd e)" "entry_canon e"
    and gap: "no_split (map pair_size (al_insert (bl_bytes (fst e)) (bl_bytes (snd e)) (map kv_of es)))"
  shows "commit_leaf_level crc (map entry_of (put_entry e es)) s1 = (Inl BtInvalidInput, s1)"
proof -
  note leaf = forest_leaf_entries [OF t(1)]
  have ord: "sorted_wrt (<) (map (\<lambda>e. bl_bytes (fst e)) es)" using leaf(1) by (simp add: entries_ok_def leaf_ok_def)
  obtain A B C where p: "es = A @ B @ C" "put_entry e es = A @ [e] @ C" "\<forall>x \<in> set A. bl_bytes (fst x) < bl_bytes (fst e)"
    "\<forall>x \<in> set C. bl_bytes (fst e) < bl_bytes (fst x)"
    "map kv_of (put_entry e es) = al_insert (bl_bytes (fst e)) (bl_bytes (snd e)) (map kv_of es)"
    by (rule put_entry_parts [OF ord])
  have ok: "leaf_ok (view crc s) (put_entry e es)" "\<forall>x \<in> set (put_entry e es). entry_canon x"
    using leaf(1) e unfolding p(2) entries_ok_def
    by (auto simp: p(1,3,4) leaf_ok_def sorted_wrt_append)
  have sizes: "map (\<lambda>e. pair_size (kv_of e)) (put_entry e es) =
      map pair_size (al_insert (bl_bytes (fst e)) (bl_bytes (snd e)) (map kv_of es))"
    unfolding p(5) [symmetric] by simp
  have "sum_list (map (\<lambda>e. pair_size (kv_of e)) es) \<le> 4052"
  proof -
    have "map (\<lambda>e. 4 + length (leaf_cell e)) es = map (\<lambda>e. pair_size (kv_of e)) es"
      using leaf(1) pair_size_cell by (simp add: entries_ok_def)
    moreover have "sum_list (map (\<lambda>e. 4 + length (leaf_cell e)) es) \<le> 4052"
      using leaf_total [OF t] by (simp add: cells_total_sizes comp_def)
    ultimately show ?thesis by (simp only:)
  qed
  then have "sum_list (map (\<lambda>e. pair_size (kv_of e)) (put_entry e es)) \<le> 4052 + 8086"
    unfolding p(2) using p(1) pair_size_bound [of "kv_of e"] by simp
  then have "sum_list (map (\<lambda>e. pair_size (kv_of e)) (put_entry e es)) \<le> u64_max" by (simp add: u64_max_def)
  then show ?thesis using leaf_level_refuses [OF ok t(2)] gap by (simp add: sizes)
qed

lemma rewrite_insert_refuses:
  assumes "routed_leaf (bl_bytes (fst e)) t es" "forest (view crc s) h [t]" "h \<le> n" "live crc s"
    and e: "blob_at (view crc s) 4096 (fst e)" "blob_at (view crc s) 1048576 (snd e)" "entry_canon e"
    and gap: "no_split (map pair_size (al_insert (bl_bytes (fst e)) (bl_bytes (snd e)) (map kv_of es)))"
  shows "refuses crc s (rewrite_insert crc (stored_key_of (fst e)) (stored_value_of (snd e)) n (groot t)) BtInvalidInput"
  using assms(1-4) gap
proof (induction arbitrary: h n rule: routed_leaf.induct)
  case (here i es)
  have "0 < h" using here.prems(1) forest_leaf_entries(2) by fastforce
  then obtain m where n: "n = Suc m" using here.prems(2) by (cases n) auto
  have body: "(case search_keys (map (\<lambda>e. stored_key_bytes (lf_key e)) (map entry_of es)) (stored_key_bytes (stored_key_of (fst e))) of
            Inr index \<Rightarrow> (map entry_of es)[index := entry_of e]
          | Inl index \<Rightarrow> take index (map entry_of es) @ [entry_of e] @ drop index (map entry_of es)) = map entry_of (put_entry e es)"
    by (simp add: put_entry_def comp_def take_map drop_map map_update split: sum.split)
  have stop: "commit_leaf_level crc (map entry_of (put_entry e es)) s1 = (Inl BtInvalidInput, s1)" for s1
    by (rule put_leaf_refuses [OF here.prems(1,3) e here.prems(4)])
  show ?case
    unfolding n rewrite_insert.simps groot.simps
    by (rule at_leaf_refuses [OF here.prems(1,3)])
       (use body stop in \<open>simp add: entry_of_def [symmetric] Let_def refuses_here\<close>)
next
  case (below cs j es i)
  note f = forest_children [OF below.prems(1)]
  obtain m where n: "n = Suc m" using below.prems(2) f(8) by (cases n) auto
  have split: "map snd cs = map snd (take j cs) @ [snd (cs ! j)] @ map snd (drop (Suc j) cs)"
    using id_take_nth_drop [OF below.hyps(2)] by (metis append_Cons append_Nil list.simps(9) map_append)
  have "forest (view crc s) (h - 1) [snd (cs ! j)]"
    using f(1) unfolding split forest_append by blast
  then have sub: "refuses crc s (rewrite_insert crc (stored_key_of (fst e)) (stored_value_of (snd e)) m (groot (snd (cs ! j))))
      BtInvalidInput"
    using below.IH [of "h - 1" m] below.prems n f(8) by simp
  show ?case
    unfolding n rewrite_insert.simps groot.simps
    by (rule at_node_refuses [OF below.prems(1,3)])
       (use below.hyps(1,2) sub in \<open>simp add: refuses_bind [OF yields_pure(2)] refuses_stop\<close>)
qed

lemma writes_result:
  assumes "writes crc n s m Q" "ready crc (n + k) s"
  obtains r P s' where "m s = (Inr r, s')" "ready crc k s'" "grows crc P s s'" "Q r P s'"
  using assms unfolding writes_def by blast

text \<open>A put of a valid pair whose routed leaf would have no split.\<close>

lemma put_tree_refuses:
  assumes g: "holds crc (Some (h, t)) s" "used_pages (Some (h, t)) \<inter> avail s = {}" "ready crc (2 + (260 + 0)) s"
    and leaf: "routed_leaf key t es" and kv: "length key \<le> 4096" "length val \<le> 1048576"
    and gap: "no_split (map pair_size (al_insert key val (map kv_of es)))"
  obtains s' where "put_tree crc key val s = (Inl BtInvalidInput, s')" "holds crc (Some (h, t)) s'"
proof -
  obtain sk P1 s1 where k: "store_key crc key s = (Inr sk, s1)" "ready crc (260 + 0) s1" "grows crc P1 s s1"
    "\<exists>b. sk = stored_key_of b \<and> bl_bytes b = key \<and> P1 = set (bl_pages b) \<and> blob_at (view crc s1) 4096 b \<and> key_canon b"
    by (rule writes_result [OF writes_store_key [OF kv(1) holds_live [OF g(1)]] g(3)])
  then obtain kb where kb: "sk = stored_key_of kb" "bl_bytes kb = key" "P1 = set (bl_pages kb)"
    "blob_at (view crc s1) 4096 kb" "key_canon kb"
    by blast
  note live1 = ready_live [OF k(2)]
  note h1 = holds_grows [OF g(1,2) k(3) live1]
  obtain sv P2 s2 where v: "store_value crc (stored_key_of kb) val s1 = (Inr sv, s2)" "ready crc 0 s2" "grows crc P2 s1 s2"
    "\<exists>b. sv = stored_value_of b \<and> bl_bytes b = val \<and> P2 = set (bl_pages b) \<and> blob_at (view crc s2) 1048576 b \<and>
       (bl_pages b = [] \<longleftrightarrow> 10 + length (payload_of kb) + length val \<le> 4052)"
    by (rule writes_result [OF writes_store_value [OF kv(2) live1 payload_canon [OF kb(5)]] k(2)])
  then obtain vb where vb: "sv = stored_value_of vb" "bl_bytes vb = val" "blob_at (view crc s2) 1048576 vb"
    "bl_pages vb = [] \<longleftrightarrow> 10 + length (payload_of kb) + length val \<le> 4052"
    by blast
  note live2 = ready_live [OF v(2)]
  have hold2: "holds crc (Some (h, t)) s2" by (rule holds_grows(1) [OF h1 v(3) live2])
  then have t: "pager_root_page_id s2 = Some (groot t)" "forest (view crc s2) h [t]" "bushy t"
    by (simp_all add: holds_def)
  have "P1 \<inter> avail s1 = {}" by (rule grows_new [OF k(3)])
  then have kb2: "blob_at (view crc s2) 4096 kb" using blob_at_grows [OF v(3) kb(4)] kb(3) by simp
  have canon: "entry_canon (kb, vb)" using kb(5) vb(2,4) by (simp add: entry_canon_def)
  have "refuses crc s2 (rewrite_insert crc (stored_key_of (fst (kb, vb))) (stored_value_of (snd (kb, vb))) MAX_TREE_HEIGHT (groot t))
      BtInvalidInput"
    by (rule rewrite_insert_refuses [OF _ t(2) tree_height_bound [OF t(2,3) live2] live2])
       (use leaf kb(2) kb2 vb(2,3) canon gap in simp_all)
  then obtain s3 where s3: "rewrite_insert crc (stored_key_of kb) (stored_value_of vb) MAX_TREE_HEIGHT (groot t) s2 =
      (Inl BtInvalidInput, s3)" "same_store s2 s3" "live crc s3"
    using refuses_run live2 by (metis fst_conv snd_conv)
  have "put_tree crc key val s = (Inl BtInvalidInput, s3)"
    using k(1) v(1) s3(1) t(1) unfolding put_tree_def kb(1) vb(1) by (simp add: sbind_run act_simps)
  then show thesis using that holds_same_store [OF hold2 s3(2,3)] by blast
qed

lemma btree_put_refuses:
  assumes g: "holds crc (Some (h, t)) s" and room: "space 262 s" and leaf: "routed_leaf key t es"
    and valid: "bt_validate_key_value key val = Inr ()"
    and gap: "no_split (map pair_size (al_insert key val (map kv_of es)))"
  shows "\<exists>s'. btree_put crc key val s = (Inl BtInvalidInput, s') \<and> holds crc (Some (h, t)) s'"
proof -
  have kv: "length key \<le> 4096" "length val \<le> 1048576"
    using valid by (auto simp: bt_validate_key_value_def bt_validate_key_def node_consts rbind_eq_Inr ensure_def split: if_splits)
  obtain s1 where s1: "get_uninstrumented crc key s = (Inr (map_of (content (Some (h, t))) key), s1)" "same_store s s1" "live crc s1"
    using yields_run [OF get_uninstrumented_of [OF g kv(1)] holds_live [OF g]] by blast
  have g1: "holds crc (Some (h, t)) s1" "space 262 s1"
    using holds_same_store [OF g s1(2,3)] room same_store_sel(2,3) [OF s1(2)] by (simp_all add: space_def)
  obtain s2 where s2: "refresh_reusable_pages crc s1 = (Inr (), s2)" "holds crc (Some (h, t)) s2" "ready crc 262 s2"
    "used_pages (Some (h, t)) \<inter> avail s2 = {}"
    using refresh_reusable_pages_ok [OF g1] by blast
  have "ready crc (2 + (260 + 0)) s2" using s2(3) by simp
  from put_tree_refuses [OF s2(2,4) this leaf kv gap]
  obtain s3 where s3: "put_tree crc key val s2 = (Inl BtInvalidInput, s3)" "holds crc (Some (h, t)) s3" .
  have "btree_put crc key val s = (Inl BtInvalidInput, s3)"
    using valid s1(1) s2(1) s3(1) by (simp add: btree_put_tree sbind_run act_simps)
  then show ?thesis using s3(2) by blast
qed

end
