(* ===== verification/BtreeProps.thy ===== *)
theory BtreeProps
  imports BtreeGap
begin

text \<open>
  The properties of the B+ tree engine: what its operations do to the ordered map they hold, and
  the differential harness against the in-memory oracle.
\<close>

interpretation mem_btree: kv_engine_pair memory_ops "\<lambda>_. True" "\<lambda>_ _. True" mem_values "\<lambda>_ _. True"
    "btree_ops crc" "btree_invar crc w" btree_room "btree_abs crc" "btree_fits w" for crc w
  by unfold_locales

lemma btree_fresh:
  assumes "capacity \<noteq> 0"
  obtains s f where "btree_create_new crc None capacity [] = (Inr s, Some f)" "pr_file s = f" "btree_invar crc w s"
    "btree_abs crc s = om_empty" "\<And>n. n \<le> 1000000000 \<Longrightarrow> btree_room n s"
proof -
  obtain s f where s: "btree_create_new crc None capacity [] = (Inr s, Some f)" "pr_file s = f" "holds crc None s"
    "\<And>n. (2 + n) * 4096 \<le> u64_max \<Longrightarrow> space n s"
    using btree_create_ok [OF assms, of crc] by blast
  have "btree_invar crc w s" by (rule btree_invarI [OF s(3)]) (simp_all add: content_def even_keys_def)
  moreover have "btree_abs crc s = om_empty" using btree_abs_content [OF s(3)] by (simp add: content_def)
  moreover have "btree_room n s" if "n \<le> 1000000000" for n
    using s(4) [of "115201 * n"] that by (simp add: btree_room_def u64_max_def)
  ultimately show ?thesis using that s(1,2) by blast
qed

text \<open>C19 (diff_btree): on a newly created B+ tree whose writes do not fail, the differential
  harness accepts every valid workload whose keys have one stored size and whose entries fit twice
  into a page, against the in-memory oracle, through all the splits, merges, page reuse and
  reopenings it causes, and both engines end in the state of the abstract ordered map.\<close>

theorem memory_btree_differential:
  assumes "workload_validate w = Inr ()" "capacity \<noteq> 0" "\<forall>st \<in> set (wl_steps w). step_fits (btree_fits n) st"
  shows "\<exists>s f l r. btree_create_new crc None capacity [] = (Inr s, Some f) \<and>
    compare_workload memory_ops (btree_ops crc) memory_new s w =
      (Inr \<lparr>steps_checked = length (wl_steps w)\<rparr>, l, r) \<and>
    mem_values l = snd (spec_steps om_empty (wl_steps w)) \<and> btree_abs crc r = mem_values l"
proof -
  obtain s f where s: "btree_create_new crc None capacity [] = (Inr s, Some f)" "btree_invar crc n s" "btree_abs crc s = om_empty"
    "\<And>k. k \<le> 1000000000 \<Longrightarrow> btree_room k s"
    using btree_fresh [OF assms(2), where crc = crc and w = n] by blast
  have "length (wl_steps w) \<le> 1000000000"
    using assms(1) by (simp add: result_iff MAX_WORKLOAD_STEPS_def)
  then have "btree_room (length (wl_steps w)) s" by (rule s(4))
  moreover have "mem_values memory_new = om_empty" by (simp add: memory_new_def)
  ultimately show ?thesis
    using mem_btree.compare_workload_agrees [where l = memory_new and r = s and w = w and crc = crc and wa = n] assms(1,3) s(1-3)
    by auto
qed


lemma btree_workload_example:
  "workload_validate \<lparr>wl_format_version = 1, wl_seed = None, wl_steps = [Put [1] [2], Put [3] [4], Reopen, Delete [1]]\<rparr> = Inr ()"
  "\<forall>st \<in> {Put [1] [2], Put [3] [4], Reopen, Delete [1]}. step_fits (btree_fits 1) st"
  by (simp_all add: result_iff WORKLOAD_FORMAT_VERSION_def MAX_WORKLOAD_STEPS_def MAX_KEY_BYTES_def MAX_VALUE_BYTES_def
      btree_fits_def small_kv_def key_size_def value_size_def)

lemma memory_btree_differential_witness:
  "\<exists>s f l r. btree_create_new (\<lambda>_. 0) None 4 [] = (Inr s, Some f) \<and>
    compare_workload memory_ops (btree_ops (\<lambda>_. 0)) memory_new s
        \<lparr>wl_format_version = 1, wl_seed = None, wl_steps = [Put [1] [2], Put [3] [4], Reopen, Delete [1]]\<rparr> =
      (Inr \<lparr>steps_checked = 4\<rparr>, l, r) \<and>
    btree_abs (\<lambda>_. 0) r = om_remove [1] (om_insert [3] [4] (om_insert [1] [2] om_empty))"
proof -
  have "(4::nat) \<noteq> 0" by simp
  then show ?thesis
    using memory_btree_differential [OF btree_workload_example(1), of 4 1 "\<lambda>_. 0"] btree_workload_example(2) by fastforce
qed

text \<open>C2 (btree_refines): on a running B+ tree with room in its file and counters every valid step
  (put of a fitting pair, get, delete or reopen) succeeds, returns exactly what the ordered map
  returns, and leaves a running tree whose full scan is that map's next state, whatever splits,
  merges, root changes and page reuse the step caused.\<close>

theorem btree_step_refines:
  assumes "btree_invar crc n s" "btree_room (Suc k) s" "validate_step st = Inr ()" "step_fits (btree_fits n) st"
  shows "\<exists>s'. execute_step (btree_ops crc) s st = (Inr (fst (spec_step (btree_abs crc s) st)), s') \<and>
    btree_invar crc n s' \<and> btree_room k s' \<and> btree_abs crc s' = snd (spec_step (btree_abs crc s) st)"
  using btree_kv.step_refines [OF assms] .

lemma btree_step_refines_witness:
  "\<exists>s s1 s2. fst (btree_create_new (\<lambda>_. 0) None 4 []) = Inr s \<and>
    execute_step (btree_ops (\<lambda>_. 0)) s (Put [1] [2]) = (Inr (OPut None), s1) \<and>
    execute_step (btree_ops (\<lambda>_. 0)) s1 (Delete [1]) = (Inr (ODelete (Some [2])), s2) \<and> btree_abs (\<lambda>_. 0) s2 = om_empty"
proof -
  have "(4::nat) \<noteq> 0" by simp
  then obtain s f where s: "btree_create_new (\<lambda>_. 0) None 4 [] = (Inr s, Some f)" "btree_invar (\<lambda>_. 0) 1 s" "btree_abs (\<lambda>_. 0) s = om_empty"
    "\<And>n. n \<le> 1000000000 \<Longrightarrow> btree_room n s"
    using btree_fresh [where crc = "\<lambda>_. 0" and w = 1 and capacity = 4] by blast
  have room: "btree_room (Suc 1) s" by (rule s(4)) simp
  have v: "validate_step (Put [1] [2]) = Inr ()" "validate_step (Delete [1]) = Inr ()"
    by (simp_all add: result_iff MAX_KEY_BYTES_def MAX_VALUE_BYTES_def)
  have f: "step_fits (btree_fits 1) (Put [1] [2])" "step_fits (btree_fits 1) (Delete [1])"
    using btree_workload_example(2) by simp_all
  obtain s1 where s1: "execute_step (btree_ops (\<lambda>_. 0)) s (Put [1] [2]) = (Inr (OPut None), s1)" "btree_invar (\<lambda>_. 0) 1 s1"
    "btree_room (Suc 0) s1" "btree_abs (\<lambda>_. 0) s1 = om_insert [1] [2] om_empty"
    using btree_step_refines [OF s(2) room v(1) f(1)] s(3) by auto
  obtain s2 where "execute_step (btree_ops (\<lambda>_. 0)) s1 (Delete [1]) = (Inr (ODelete (Some [2])), s2)"
    "btree_abs (\<lambda>_. 0) s2 = om_remove [1] (om_insert [1] [2] om_empty)"
    using btree_step_refines [OF s1(2,3) v(2) f(2)] s1(4) by auto
  moreover have "om_remove [1] (om_insert [1] [2] om_empty) = (om_empty :: kv_state)"
    by (simp add: ordmap_eq_iff fun_eq_iff)
  ultimately show ?thesis using s(1) s1(1) by auto
qed

text \<open>C24 (btree_scan): a valid range scan of a running B+ tree returns the first \<open>limit\<close> entries of
  the range in strictly increasing key order, across leaves, and changes no content.\<close>

theorem btree_range_scan_correct:
  assumes "btree_invar crc n s" "btree_room (Suc k) s" "validate_range_scan start stop = Inr ()"
  shows "\<exists>s' rows. btree_range_scan crc start stop limit s = (Inr rows, s') \<and> btree_abs crc s' = btree_abs crc s \<and>
    rows = take limit (om_range start stop (btree_abs crc s)) \<and> sorted_wrt (<) (map fst rows)"
proof -
  obtain s' where s': "map_common (btree_range_scan crc start stop limit s) = (Inr (spec_range (btree_abs crc s) start stop limit), s')"
    "btree_abs crc s' = btree_abs crc s"
    using btree_scan_kv [OF assms] by blast
  then have "op_range_scan (btree_ops crc) s start stop limit = (Inr (spec_range (btree_abs crc s) start stop limit), s')"
    by (simp add: btree_ops_def)
  from btree_kv.scan_sound [OF assms this] have "sorted_wrt (<) (map fst (spec_range (btree_abs crc s) start stop limit))" by blast
  moreover have "btree_range_scan crc start stop limit s = (Inr (spec_range (btree_abs crc s) start stop limit), s')"
    using s'(1) by (cases "btree_range_scan crc start stop limit s") (auto simp: map_common_def split: sum.splits)
  ultimately show ?thesis using s'(2) by (auto simp: spec_range_def)
qed

lemma btree_range_scan_correct_witness:
  "\<exists>s s'. fst (btree_create_new (\<lambda>_. 0) None 4 []) = Inr s \<and> btree_range_scan (\<lambda>_. 0) [] (Some [9]) 5 s = (Inr [], s')"
proof -
  have "(4::nat) \<noteq> 0" by simp
  then obtain s f where s: "btree_create_new (\<lambda>_. 0) None 4 [] = (Inr s, Some f)" "btree_invar (\<lambda>_. 0) 1 s" "btree_abs (\<lambda>_. 0) s = om_empty"
    "\<And>n. n \<le> 1000000000 \<Longrightarrow> btree_room n s"
    using btree_fresh [where crc = "\<lambda>_. 0" and w = 1 and capacity = 4] by blast
  have "validate_range_scan [] (Some [9]) = Inr ()" by (simp add: validate_range_scan_def validate_key_def MAX_KEY_BYTES_def)
  from btree_range_scan_correct [OF s(2) s(4) this, of 0 5] show ?thesis
    using s(1,3) by (auto simp: om_range_def)
qed



subsection \<open>Pages and superblocks\<close>

text \<open>C38 (page_bounds): a page that decodes, whatever its 4096 bytes, has only readable nonempty
  cells, whose bytes and slots together fit the page body, and a link that is neither a superblock
  nor the page itself.\<close>

theorem page_decode_bounded:
  assumes "page_decode crc bs pid = Inr p" "length bs = 4096" "2 \<le> pid"
  shows "\<exists>cells :: bytes list. length cells = page_cell_count p \<and> (\<forall>i < length cells. page_cell crc p i = Inr (cells ! i)) \<and>
    [] \<notin> set cells \<and> 4 * length cells + sum_list (map length cells) \<le> 4052 \<and>
    (\<forall>l. page_link p = Some l \<longrightarrow> pg_kind p \<noteq> PkInternal \<and> 2 \<le> l \<and> l \<noteq> pid)"
proof -
  have p: "page_validate crc p = Inr ()" "pg_id p = pid" "length (pg_bytes p) = 4096"
    using page_decode_valid [OF assms(1)] assms(2) by simp_all
  have "cells_room (page_cells p) \<and> page_args (pg_kind p) pid (page_link p)"
    using page_valid_cells [OF p(1,3)] p(2) assms(3) by simp
  then show ?thesis
    using page_cell_nth [OF p(1)]
    by (intro exI [of _ "page_cells p"]) (auto simp: cells_room_def cells_bytes_def page_args_def split: option.splits)
qed

lemma page_decode_bounded_witness:
  "\<exists>p (cells :: bytes list). page_decode (\<lambda>_. 0) (page_image (\<lambda>_. 0) PkLeaf 2 None [[1, 2]]) 2 = Inr p \<and> length cells = page_cell_count p \<and>
    4 * length cells + sum_list (map length cells) \<le> 4052"
proof -
  have room: "cells_room [[1, 2]]" "page_args PkLeaf 2 None" by (simp_all add: cells_room_def page_args_def u64_max_def)
  have "length (page_image (\<lambda>_. 0) PkLeaf 2 None [[1, 2]]) = 4096" by (rule length_page_image) (use room in simp_all)
  from page_decode_bounded [OF page_decode_of [OF room, of "\<lambda>_. 0"] this order_refl] obtain cells :: "bytes list"
    where "length cells = page_cell_count (page_of (\<lambda>_. 0) PkLeaf 2 None [[1, 2]])" "4 * length cells + sum_list (map length cells) \<le> 4052"
    by blast
  then show ?thesis using page_decode_of [OF room, of "\<lambda>_. 0"] by blast
qed

text \<open>Cells that fit, inserted one by one into a new page, are read back from
  the bytes of the page in order.\<close>

theorem page_cells_round_trip:
  assumes "cells_room cells" "2 \<le> pid" "pid * 4096 \<le> u64_max"
  shows "\<exists>p q. page_new crc pid kind = Inr p \<and> insert_cells crc cells p = Inr q \<and> page_decode crc (pg_bytes q) pid = Inr q \<and>
    pg_kind q = kind \<and> page_cell_count q = length cells \<and> (\<forall>i < length cells. page_cell crc q i = Inr (cells ! i))"
proof -
  let ?q = "page_of crc kind pid None cells"
  have args: "page_args kind pid None" using assms(2,3) by (simp add: page_args_def)
  have "insert_cells crc cells (page_of crc kind pid None []) = Inr ?q"
    using insert_cells_image [OF args, of "[]" cells crc] assms(1) by simp
  moreover have dec: "page_decode crc (pg_bytes ?q) pid = Inr ?q"
    using page_decode_of [OF assms(1) args, of crc] by (simp add: page_of_def)
  moreover have "page_cells ?q = cells" by (rule page_cells_of [OF assms(1) args])
  moreover have "page_validate crc ?q = Inr ()" using page_decode_valid(1) [OF dec] .
  ultimately show ?thesis
    using page_new_image [OF assms(2), of crc kind] page_cell_nth [of crc ?q] length_page_cells [of ?q]
    by (intro exI [of _ "page_of crc kind pid None []"] exI [of _ ?q]) (simp add: page_of_def)
qed

lemma page_cells_round_trip_witness:
  "\<exists>p q. page_new (\<lambda>_. 0) 7 PkInternal = Inr p \<and> insert_cells (\<lambda>_. 0) [[1], [2, 3]] p = Inr q \<and> page_cell (\<lambda>_. 0) q 1 = Inr [2, 3]"
  using page_cells_round_trip [of "[[1], [2, 3]]" 7 "\<lambda>_. 0" PkInternal] by (fastforce simp: cells_room_def u64_max_def)

text \<open>A superblock page is accepted for a slot exactly when it is the encoding of a
  well-formed superblock of that slot.\<close>

theorem superblock_decode_iff:
  assumes "length bs = 4096" "slot < 2"
  shows "superblock_decode crc bs slot = Inr sb \<longleftrightarrow> sb_wf sb \<and> sb_slot sb = slot \<and> bs = superblock_encode crc sb"
  using superblock_decode_sound [OF _ assms, of crc sb] superblock_round_trip [of sb crc] by auto

lemma superblock_decode_iff_witness:
  "superblock_decode (\<lambda>_. 0) (superblock_encode (\<lambda>_. 0) (superblock_initial 1)) 1 = Inr (superblock_initial 1)"
proof -
  have "sb_wf (superblock_initial 1) \<and> sb_slot (superblock_initial 1) = 1"
    by (simp add: sb_wf_def superblock_initial_def u64_max_def SUPERBLOCK_COUNT_def ROOT_NONE_def)
  then show ?thesis
    using superblock_decode_iff [of "superblock_encode (\<lambda>_. 0) (superblock_initial 1)" 1 "\<lambda>_. 0" "superblock_initial 1"] by simp
qed


subsection \<open>Splits\<close>

text \<open>C39 (split): \<open>choose_split\<close> picks, of the points that leave both halves within a page, one of
  least imbalance, and fails exactly when there is none.\<close>

theorem choose_split_optimal:
  assumes "2 \<le> length cells" "cells_total cells \<le> u64_max"
  shows "case choose_split cells of
      Some k \<Rightarrow> 1 \<le> k \<and> k < length cells \<and> cells_total (take k cells) \<le> 4052 \<and> cells_total (drop k cells) \<le> 4052 \<and>
        (\<forall>j. 1 \<le> j \<and> j < length cells \<and> cells_total (take j cells) \<le> 4052 \<and> cells_total (drop j cells) \<le> 4052 \<longrightarrow>
           split_imbalance cells k \<le> split_imbalance cells j)
    | None \<Rightarrow> \<forall>j. 1 \<le> j \<and> j < length cells \<longrightarrow> 4052 < cells_total (take j cells) \<or> 4052 < cells_total (drop j cells)"
  using choose_split_spec [OF assms] by (cases "choose_split cells") (auto simp: split_feasible_def not_less not_le)

lemma choose_split_optimal_witness:
  "case choose_split [[1], [2]] of Some k \<Rightarrow> k = 1 | None \<Rightarrow> False"
proof -
  have "2 \<le> length [[1], [2 :: byte]]" "cells_total [[1], [2]] \<le> u64_max" by (simp_all add: u64_max_def)
  from choose_split_optimal [OF this] show ?thesis
    by (cases "choose_split [[1], [2]]") (auto dest: spec [of _ 1])
qed

text \<open>C40 (split_gap): a put of a valid key and value can fail because of its neighbours.  Take any
  committed tree, the leaf the key is routed to, and the pairs of that leaf with the new pair put in
  its place.  If these overflow a page and no point cuts them into two that each fit a page, the put
  fails with invalid input; the committed tree stays, the handle stays usable, and every valid key
  reads as before.\<close>

theorem valid_put_rejected:
  assumes "holds crc (Some (h, t)) s" "space 262 s" "bt_validate_key_value key val = Inr ()"
    and "routed_leaf key t es" "no_split (map pair_size (al_insert key val (map kv_of es)))"
  shows "\<exists>s'. btree_put crc key val s = (Inl BtInvalidInput, s') \<and> holds crc (Some (h, t)) s' \<and>
    btree_abs crc s' = btree_abs crc s \<and>
    (\<forall>k. bt_validate_key k = Inr () \<longrightarrow> fst (btree_get crc k s') = Inr (map_of (content (Some (h, t))) k))"
proof -
  obtain s' where s': "btree_put crc key val s = (Inl BtInvalidInput, s')" "holds crc (Some (h, t)) s'"
    using btree_put_refuses [OF assms(1,2,4,3,5)] by blast
  have "btree_abs crc s' = btree_abs crc s"
    using btree_abs_content [OF s'(2)] btree_abs_content [OF assms(1)] by (intro entries_eqI) simp
  moreover have "fst (btree_get crc k s') = Inr (map_of (content (Some (h, t))) k)" if "bt_validate_key k = Inr ()" for k
  proof -
    have key: "length k \<le> 4096" using that by (simp add: bt_validate_key_def node_consts ensure_def split: if_splits)
    obtain s2 where "get_uninstrumented crc k s' = (Inr (map_of (content (Some (h, t))) k), s2)"
      by (rule yields_run [OF get_uninstrumented_of [OF s'(2) key] holds_live [OF s'(2)]])
    then show ?thesis by (simp add: btree_get_def Let_def)
  qed
  ultimately show ?thesis using s' by blast
qed

text \<open>A tree of one leaf with two values of about half a page.\<close>

lemma two_value_tree:
  obtains s i where "holds (\<lambda>_. 0) (Some (1, GLeaf i
      [(\<lparr>bl_bytes = [1], bl_pages = []\<rparr>, \<lparr>bl_bytes = replicate 1990 0, bl_pages = []\<rparr>),
       (\<lparr>bl_bytes = [3], bl_pages = []\<rparr>, \<lparr>bl_bytes = replicate 1990 0, bl_pages = []\<rparr>)])) s" "space 262 s"
proof -
  let ?c = "\<lambda>_ :: bytes. 0 :: 32 word"
  let ?es = "[(\<lparr>bl_bytes = [1], bl_pages = []\<rparr>, \<lparr>bl_bytes = replicate 1990 0, bl_pages = []\<rparr>),
       (\<lparr>bl_bytes = [3 :: byte], bl_pages = []\<rparr>, \<lparr>bl_bytes = replicate 1990 (0 :: byte), bl_pages = []\<rparr>)]"
  obtain s0 f where s0: "btree_create_new ?c None 8 [] = (Inr s0, Some f)" "holds ?c None s0"
    "\<And>n. (2 + n) * 4096 \<le> u64_max \<Longrightarrow> space n s0"
    using btree_create_ok [of 8 ?c] by (metis zero_neq_numeral)
  have "space (1 + (262 + 1)) s0" by (rule s0(3)) (simp add: u64_max_def)
  from refresh_reusable_pages_ok [OF s0(2) this]
  obtain s1 where s1: "holds ?c None s1" "ready ?c (1 + (262 + 1)) s1" by metis
  have ok: "entries_ok (view ?c s1) ?es"
    by (simp add: entries_ok_def leaf_ok_def blob_at_def entry_canon_def key_canon_def payload_of_def entry_pages_def)
  have used: "set (concat (map entry_pages ?es)) \<inter> avail s1 = {}" by (simp add: entry_pages_def)
  have fit: "cells_total (map leaf_cell ?es) \<le> 4052"
    by (simp add: cells_total_sizes leaf_cell_size payload_of_def)
  obtain c P s2 where s2: "ready ?c (262 + 1) s2"
    "\<exists>i. c = ref_of (GLeaf i ?es) \<and> P = {i} \<and> forest (view ?c s2) 1 [GLeaf i ?es]"
    by (rule writes_result [OF writes_leaf [OF ok used fit holds_live [OF s1(1)]] s1(2)])
  then obtain i where i: "forest (view ?c s2) 1 [GLeaf i ?es]" by blast
  have "case Some (1, GLeaf i ?es) of None \<Rightarrow> True | Some (h, t) \<Rightarrow> forest (view ?c s2) h [t] \<and> bushy t"
    using i by simp
  from set_root_ok [OF ready_live [OF s2(1)] ready_space [OF s2(1)] this]
  obtain s3 where "holds ?c (Some (1, GLeaf i ?es)) s3" "space 262 s3" by blast
  then show thesis by (rule that)
qed

lemma valid_put_rejected_witness:
  "\<exists>s s'. bt_validate_key_value [2] (replicate 4030 0) = Inr () \<and>
    btree_put (\<lambda>_. 0) [2] (replicate 4030 0) s = (Inl BtInvalidInput, s') \<and> btree_abs (\<lambda>_. 0) s' = btree_abs (\<lambda>_. 0) s \<and>
    fst (btree_get (\<lambda>_. 0) [1] s') = Inr (Some (replicate 1990 0)) \<and> fst (btree_get (\<lambda>_. 0) [2] s') = Inr None"
proof -
  let ?es = "[(\<lparr>bl_bytes = [1], bl_pages = []\<rparr>, \<lparr>bl_bytes = replicate 1990 0, bl_pages = []\<rparr>),
       (\<lparr>bl_bytes = [3 :: byte], bl_pages = []\<rparr>, \<lparr>bl_bytes = replicate 1990 (0 :: byte), bl_pages = []\<rparr>)]"
  obtain s i where s: "holds (\<lambda>_. 0) (Some (1, GLeaf i ?es)) s" "space 262 s" by (rule two_value_tree)
  have valid: "bt_validate_key_value [2] (replicate 4030 0) = Inr ()" "bt_validate_key [1] = Inr ()" "bt_validate_key [2] = Inr ()"
    by (simp_all add: bt_validate_key_value_def bt_validate_key_def ensure_def ok_or_def try_u32_def node_consts)
  have sizes: "map pair_size (al_insert [2] (replicate 4030 0) (map kv_of ?es)) = [2001, 4041, 2001]"
    by (simp add: kv_of_def pair_size_def key_size_def value_size_def)
  have gap: "no_split (map pair_size (al_insert [2] (replicate 4030 0) (map kv_of ?es)))"
    unfolding sizes no_split_def by (auto simp: less_Suc_eq numeral_3_eq_3)
  have content: "map_of (content (Some (1, GLeaf i ?es))) [1] = Some (replicate 1990 0)"
    "map_of (content (Some (1, GLeaf i ?es))) [2] = None"
    by (simp_all add: content_def)
  from valid_put_rejected [OF s valid(1) here gap] show ?thesis
    using valid content by metis
qed

end
