(* ===== verification/Relational.thy ===== *)
theory Relational
  imports LogEngine
begin

text \<open>
  The durable relational layer (\<open>crates/db-storage-log/src/relational.rs\<close>): typed tables, atomic
  transactions, their binary format, and the engine that commits each transaction as one value of
  the append log and replays them when it opens.  A Rust \<open>String\<close> is its UTF-8 bytes, an \<open>i64\<close> a
  64-bit word compared as signed.
\<close>

subsection \<open>Data\<close>

definition TX_KEY_PREFIX :: bytes where "TX_KEY_PREFIX = 0 # ascii ''db-lab-rel-v1/''"
definition REL_MAGIC :: bytes where "REL_MAGIC = ascii ''DBRELTX1''"
definition REL_VERSION :: nat where "REL_VERSION = 1"
definition REL_HEADER_LEN :: nat where "REL_HEADER_LEN = 24"
definition REL_TRAILER_LEN :: nat where "REL_TRAILER_LEN = 4"
definition MAX_OPS :: nat where "MAX_OPS = 1024"
definition MAX_COLUMNS :: nat where "MAX_COLUMNS = 64"
definition MAX_NAME_BYTES :: nat where "MAX_NAME_BYTES = 255"

definition OP_CREATE_TABLE :: byte where "OP_CREATE_TABLE = 1"
definition OP_UPSERT_ROW :: byte where "OP_UPSERT_ROW = 2"
definition OP_DELETE_ROW :: byte where "OP_DELETE_ROW = 3"
definition TYPE_I64 :: byte where "TYPE_I64 = 1"
definition TYPE_TEXT :: byte where "TYPE_TEXT = 2"

lemmas rel_consts = REL_VERSION_def REL_HEADER_LEN_def REL_TRAILER_LEN_def MAX_OPS_def MAX_COLUMNS_def MAX_NAME_BYTES_def
  OP_CREATE_TABLE_def OP_UPSERT_ROW_def OP_DELETE_ROW_def TYPE_I64_def TYPE_TEXT_def

datatype column_type = CtInt64 | CtText

record column =
  col_name :: bytes
  col_ty :: column_type

record schema =
  sm_columns :: "column list"
  sm_primary_key :: nat

datatype cell = CInt64 "64 word" | CText bytes

text \<open>The derived order: integers before texts, integers as signed, texts by their bytes.\<close>

instantiation cell :: linorder
begin

fun less_eq_cell :: "cell \<Rightarrow> cell \<Rightarrow> bool" where
  "less_eq_cell (CInt64 a) (CInt64 b) \<longleftrightarrow> sint a \<le> sint b"
| "less_eq_cell (CInt64 a) (CText b) \<longleftrightarrow> True"
| "less_eq_cell (CText a) (CInt64 b) \<longleftrightarrow> False"
| "less_eq_cell (CText a) (CText b) \<longleftrightarrow> a \<le> b"

definition less_cell :: "cell \<Rightarrow> cell \<Rightarrow> bool" where
  "less_cell a b \<longleftrightarrow> a \<le> b \<and> \<not> b \<le> (a :: cell)"

instance
proof
  fix x y z :: cell
  show "x < y \<longleftrightarrow> x \<le> y \<and> \<not> y \<le> x" by (rule less_cell_def)
  show "x \<le> x" by (cases x) auto
  show "x \<le> z" if "x \<le> y" "y \<le> z" using that by (cases x; cases y; cases z) auto
  show "x = y" if "x \<le> y" "y \<le> x" using that by (cases x; cases y) (auto dest!: signed_word_eqI)
  show "x \<le> y \<or> y \<le> x" by (cases x; cases y) auto
qed

end

datatype rel_op =
  CreateTable bytes schema
| UpsertRow bytes "cell list"
| DeleteRow bytes cell

record table_state =
  ts_schema :: schema
  ts_rows :: "(cell, cell list) ordmap"

type_synonym rel_tables = "(bytes, table_state) ordmap"


subsection \<open>Validation\<close>

definition ascii_alphanumeric :: "byte \<Rightarrow> bool" where
  "ascii_alphanumeric b \<longleftrightarrow> 0x30 \<le> b \<and> b \<le> 0x39 \<or> 0x41 \<le> b \<and> b \<le> 0x5a \<or> 0x61 \<le> b \<and> b \<le> 0x7a"

definition validate_name :: "bytes \<Rightarrow> unit result" where
  "validate_name name =
     (if name = [] \<or> length name > MAX_NAME_BYTES then Inl InvalidInput
      else ensure (list_all (\<lambda>b. ascii_alphanumeric b \<or> b = 0x5f) name) InvalidInput)"

definition validate_cell_type :: "cell \<Rightarrow> column_type \<Rightarrow> unit result" where
  "validate_cell_type c ty =
     (case (c, ty) of
        (CInt64 _, CtInt64) \<Rightarrow> Inr ()
      | (CText v, CtText) \<Rightarrow> ensure (\<not> length v > MAX_VALUE_BYTES) InvalidInput
      | _ \<Rightarrow> Inl InvalidInput)"

definition validate_schema :: "schema \<Rightarrow> unit result" where
  "validate_schema schema =
     (if sm_columns schema = [] \<or> length (sm_columns schema) > MAX_COLUMNS then Inl InvalidInput
      else if sm_primary_key schema \<ge> length (sm_columns schema) then Inl InvalidInput
      else rbind (rfold (\<lambda>seen column.
             rbind (validate_name (col_name column)) (\<lambda>_.
             if col_name column \<in> seen then Inl InvalidInput else Inr (insert (col_name column) seen)))
             {} (sm_columns schema)) (\<lambda>_. Inr ()))"

definition validate_row :: "schema \<Rightarrow> cell list \<Rightarrow> unit result" where
  "validate_row schema row =
     (if length row \<noteq> length (sm_columns schema) then Inl InvalidInput
      else rfold (\<lambda>_ (c, column). validate_cell_type c (col_ty column)) () (zip row (sm_columns schema)))"


subsection \<open>Applying operations\<close>

definition key_type :: "schema \<Rightarrow> column_type" where
  "key_type schema = col_ty (sm_columns schema ! sm_primary_key schema)"

fun apply_op :: "rel_tables \<Rightarrow> rel_op \<Rightarrow> rel_tables result" where
  "apply_op tables (CreateTable name schema) =
     rbind (validate_name name) (\<lambda>_.
     rbind (validate_schema schema) (\<lambda>_.
     if om_lookup tables name \<noteq> None then Inl InvalidInput
     else Inr (om_insert name \<lparr>ts_schema = schema, ts_rows = om_empty\<rparr> tables)))"
| "apply_op tables (UpsertRow table row) =
     (case om_lookup tables table of
        None \<Rightarrow> Inl InvalidInput
      | Some state \<Rightarrow>
          rbind (validate_row (ts_schema state) row) (\<lambda>_.
          Inr (om_insert table
            (state\<lparr>ts_rows := om_insert (row ! sm_primary_key (ts_schema state)) row (ts_rows state)\<rparr>) tables)))"
| "apply_op tables (DeleteRow table key) =
     (case om_lookup tables table of
        None \<Rightarrow> Inl InvalidInput
      | Some state \<Rightarrow>
          rbind (validate_cell_type key (key_type (ts_schema state))) (\<lambda>_.
          Inr (om_insert table (state\<lparr>ts_rows := om_remove key (ts_rows state)\<rparr>) tables)))"

definition apply_ops :: "rel_tables \<Rightarrow> rel_op list \<Rightarrow> rel_tables result" where
  "apply_ops tables ops = rfold apply_op tables ops"


subsection \<open>Encoding\<close>

definition put_u16 :: "nat \<Rightarrow> bytes result" where
  "put_u16 n = rmap (le_bytes 2) (ok_or (try_u16 n) InvalidInput)"

definition put_string :: "bytes \<Rightarrow> bytes result" where
  "put_string s = rbind (put_u16 (length s)) (\<lambda>len. Inr (len @ s))"

fun encode_cell :: "cell \<Rightarrow> bytes result" where
  "encode_cell (CInt64 v) = Inr (TYPE_I64 # le_bytes 8 (unat v))"
| "encode_cell (CText v) = rbind (put_string v) (\<lambda>s. Inr (TYPE_TEXT # s))"

fun type_byte :: "column_type \<Rightarrow> byte" where
  "type_byte CtInt64 = TYPE_I64"
| "type_byte CtText = TYPE_TEXT"

definition encode_column :: "column \<Rightarrow> bytes result" where
  "encode_column column = rbind (put_string (col_name column)) (\<lambda>s. Inr (s @ [type_byte (col_ty column)]))"

fun encode_op :: "rel_op \<Rightarrow> bytes result" where
  "encode_op (CreateTable name schema) =
     rbind (put_string name) (\<lambda>n.
     rbind (put_u16 (sm_primary_key schema)) (\<lambda>k.
     rbind (put_u16 (length (sm_columns schema))) (\<lambda>c.
     rbind (rmapM encode_column (sm_columns schema)) (\<lambda>cols.
     Inr (OP_CREATE_TABLE # n @ k @ c @ concat cols)))))"
| "encode_op (UpsertRow table row) =
     rbind (put_string table) (\<lambda>n.
     rbind (put_u16 (length row)) (\<lambda>c.
     rbind (rmapM encode_cell row) (\<lambda>cells.
     Inr (OP_UPSERT_ROW # n @ c @ concat cells))))"
| "encode_op (DeleteRow table key) =
     rbind (put_string table) (\<lambda>n.
     rbind (encode_cell key) (\<lambda>c.
     Inr (OP_DELETE_ROW # n @ c)))"

definition encode_transaction :: "(bytes \<Rightarrow> 32 word) \<Rightarrow> nat \<Rightarrow> rel_op list \<Rightarrow> bytes result" where
  "encode_transaction crc tx_id ops =
     rbind (ok_or (try_u32 (length ops)) InvalidInput) (\<lambda>count.
     let header = REL_MAGIC @ le_bytes 2 REL_VERSION @ le_bytes 2 0 @ le_bytes 8 tx_id @ le_bytes 4 count in
     rbind (rfold (\<lambda>out op.
              rbind (encode_op op) (\<lambda>bs.
              if length (out @ bs) + REL_TRAILER_LEN > MAX_VALUE_BYTES then Inl InvalidInput else
                Inr (out @ bs))) header ops) (\<lambda>out.
     Inr (out @ crc_field (crc out))))"



subsection \<open>Decoding\<close>

text \<open>Which byte strings \<open>String::from_utf8\<close> takes.\<close>

definition continuation_byte :: "byte \<Rightarrow> bool" where
  "continuation_byte b \<longleftrightarrow> 0x80 \<le> b \<and> b \<le> 0xbf"

fun utf8_valid :: "bytes \<Rightarrow> bool" where
  "utf8_valid [] \<longleftrightarrow> True"
| "utf8_valid (a # rest) \<longleftrightarrow>
     (if a \<le> 0x7f then utf8_valid rest
      else if 0xc2 \<le> a \<and> a \<le> 0xdf then
        (case rest of b # rest' \<Rightarrow> continuation_byte b \<and> utf8_valid rest' | _ \<Rightarrow> False)
      else if 0xe0 \<le> a \<and> a \<le> 0xef then
        (case rest of b # c # rest' \<Rightarrow> continuation_byte b \<and> (a = 0xe0 \<longrightarrow> 0xa0 \<le> b) \<and> (a = 0xed \<longrightarrow> b \<le> 0x9f) \<and>
           continuation_byte c \<and> utf8_valid rest' | _ \<Rightarrow> False)
      else if 0xf0 \<le> a \<and> a \<le> 0xf4 then
        (case rest of b # c # d # rest' \<Rightarrow> continuation_byte b \<and> (a = 0xf0 \<longrightarrow> 0x90 \<le> b) \<and> (a = 0xf4 \<longrightarrow> b \<le> 0x8f) \<and>
           continuation_byte c \<and> continuation_byte d \<and> utf8_valid rest' | _ \<Rightarrow> False)
      else False)"

text \<open>A reader takes a cursor and returns its value and the cursor after it.\<close>

type_synonym 'a reader = "nat \<Rightarrow> ('a \<times> nat) result"

definition rel_take :: "bytes \<Rightarrow> nat \<Rightarrow> nat \<Rightarrow> bytes reader" where
  "rel_take bs limit len cursor =
     rbind (ok_or (checked_add64 cursor len) (Corruption 0)) (\<lambda>stop.
     if stop > limit then Inl (Corruption 0) else Inr (seg cursor stop bs, stop))"

definition take_byte :: "bytes \<Rightarrow> nat \<Rightarrow> byte reader" where
  "take_byte bs limit cursor = rbind (rel_take bs limit 1 cursor) (\<lambda>(v, c). Inr (v ! 0, c))"

definition take_u16 :: "bytes \<Rightarrow> nat \<Rightarrow> nat reader" where
  "take_u16 bs limit cursor = rbind (rel_take bs limit 2 cursor) (\<lambda>(v, c). Inr (read_u16 v, c))"

definition take_string :: "bytes \<Rightarrow> nat \<Rightarrow> bytes reader" where
  "take_string bs limit cursor =
     rbind (take_u16 bs limit cursor) (\<lambda>(len, c).
     rbind (rel_take bs limit len c) (\<lambda>(v, c).
     if utf8_valid v then Inr (v, c) else Inl (Corruption 0)))"

definition decode_cell_tag :: "bytes \<Rightarrow> nat \<Rightarrow> byte \<Rightarrow> cell reader" where
  "decode_cell_tag bs limit tag cursor =
     (if tag = TYPE_I64 then rbind (rel_take bs limit 8 cursor) (\<lambda>(v, c). Inr (CInt64 (word_of_nat (read_u64 v)), c))
      else if tag = TYPE_TEXT then rbind (take_string bs limit cursor) (\<lambda>(v, c). Inr (CText v, c))
      else Inl (Corruption 0))"

definition decode_cell :: "bytes \<Rightarrow> nat \<Rightarrow> cell reader" where
  "decode_cell bs limit cursor = rbind (take_byte bs limit cursor) (\<lambda>(tag, c). decode_cell_tag bs limit tag c)"

definition decode_type :: "byte \<Rightarrow> column_type result" where
  "decode_type b = (if b = TYPE_I64 then Inr CtInt64 else if b = TYPE_TEXT then Inr CtText else Inl (Corruption 0))"

definition decode_column :: "bytes \<Rightarrow> nat \<Rightarrow> column reader" where
  "decode_column bs limit cursor =
     rbind (take_string bs limit cursor) (\<lambda>(name, c).
     rbind (take_byte bs limit c) (\<lambda>(tag, c).
     rbind (decode_type tag) (\<lambda>ty. Inr (\<lparr>col_name = name, col_ty = ty\<rparr>, c))))"

text \<open>The loops \<open>for _ in 0..count\<close> that push what they read.\<close>

primrec read_many :: "'a reader \<Rightarrow> nat \<Rightarrow> 'a list reader" where
  "read_many rd 0 cursor = Inr ([], cursor)"
| "read_many rd (Suc n) cursor =
     rbind (rd cursor) (\<lambda>(x, c). rbind (read_many rd n c) (\<lambda>(xs, c). Inr (x # xs, c)))"

definition decode_create :: "bytes \<Rightarrow> nat \<Rightarrow> rel_op reader" where
  "decode_create bs limit cursor =
     rbind (take_string bs limit cursor) (\<lambda>(name, c).
     rbind (take_u16 bs limit c) (\<lambda>(primary_key, c).
     rbind (take_u16 bs limit c) (\<lambda>(column_count, c).
     if column_count = 0 \<or> column_count > MAX_COLUMNS then Inl (Corruption 0)
     else rbind (read_many (decode_column bs limit) column_count c) (\<lambda>(columns, c).
          Inr (CreateTable name \<lparr>sm_columns = columns, sm_primary_key = primary_key\<rparr>, c)))))"

definition decode_upsert :: "bytes \<Rightarrow> nat \<Rightarrow> rel_op reader" where
  "decode_upsert bs limit cursor =
     rbind (take_string bs limit cursor) (\<lambda>(table, c).
     rbind (take_u16 bs limit c) (\<lambda>(cell_count, c).
     if cell_count = 0 \<or> cell_count > MAX_COLUMNS then Inl (Corruption 0)
     else rbind (read_many (decode_cell bs limit) cell_count c) (\<lambda>(row, c). Inr (UpsertRow table row, c))))"

definition decode_delete :: "bytes \<Rightarrow> nat \<Rightarrow> rel_op reader" where
  "decode_delete bs limit cursor =
     rbind (take_string bs limit cursor) (\<lambda>(table, c).
     rbind (decode_cell bs limit c) (\<lambda>(key, c). Inr (DeleteRow table key, c)))"

definition decode_op :: "bytes \<Rightarrow> nat \<Rightarrow> rel_op reader" where
  "decode_op bs limit cursor =
     rbind (take_byte bs limit cursor) (\<lambda>(kind, c).
     if kind = OP_CREATE_TABLE then decode_create bs limit c
     else if kind = OP_UPSERT_ROW then decode_upsert bs limit c
     else if kind = OP_DELETE_ROW then decode_delete bs limit c
     else Inl (Corruption 0))"

definition rel_field :: "nat \<Rightarrow> nat \<Rightarrow> bytes \<Rightarrow> nat result" where
  \<comment> \<open>\<open>read_u16\<close>, \<open>read_u32\<close>, \<open>read_u64\<close> at an offset\<close>
  "rel_field width offset bs =
     (if offset + width \<le> length bs then Inr (le_val (seg offset (offset + width) bs)) else Inl (Corruption 0))"

definition decode_transaction :: "(bytes \<Rightarrow> 32 word) \<Rightarrow> bytes \<Rightarrow> nat \<Rightarrow> rel_op list result" where
  "decode_transaction crc bs expected_tx_id =
     (if length bs < REL_HEADER_LEN + REL_TRAILER_LEN then Inl (Corruption 0)
      else if take 8 bs \<noteq> REL_MAGIC then Inl (Corruption 0)
      else rbind (rel_field 2 8 bs) (\<lambda>version.
      if version \<noteq> REL_VERSION then Inl (UnsupportedVersion FmtRelational version REL_VERSION)
      else rbind (rel_field 2 10 bs) (\<lambda>reserved.
      if reserved \<noteq> 0 then Inl (Corruption 0)
      else rbind (rel_field 8 12 bs) (\<lambda>tx_id.
      if tx_id \<noteq> expected_tx_id then Inl (Corruption 0)
      else rbind (rel_field 4 20 bs) (\<lambda>count.
      if count = 0 \<or> count > MAX_OPS then Inl (Corruption 0)
      else let trailer = length bs - REL_TRAILER_LEN in
      rbind (rel_field 4 trailer bs) (\<lambda>expected_crc.
      if expected_crc \<noteq> unat (crc (take trailer bs)) then Inl (Corruption 0)
      else rbind (read_many (decode_op bs trailer) count REL_HEADER_LEN) (\<lambda>(ops, cursor).
      if cursor \<noteq> trailer then Inl (Corruption 0) else Inr ops)))))))"


subsection \<open>Transaction keys\<close>

definition be_bytes :: "nat \<Rightarrow> nat \<Rightarrow> bytes" where
  "be_bytes k n = rev (le_bytes k n)"

definition tx_key :: "nat \<Rightarrow> bytes" where
  "tx_key tx_id = TX_KEY_PREFIX @ be_bytes 8 tx_id"

definition parse_tx_key :: "bytes \<Rightarrow> nat option result" where
  "parse_tx_key key =
     (if take (length TX_KEY_PREFIX) key \<noteq> TX_KEY_PREFIX then Inr None
      else let suffix = drop (length TX_KEY_PREFIX) key in
        if length suffix \<noteq> 8 then Inl (Corruption 0)
        else let tx_id = le_val (rev suffix) in
          if tx_id = 0 then Inl (Corruption 0) else Inr (Some tx_id))"


subsection \<open>The engine\<close>

record rel_engine =
  re_backing :: log_engine
  re_tables :: rel_tables
  re_next_tx_id :: nat

definition replay_entry :: "(bytes \<Rightarrow> 32 word) \<Rightarrow> rel_tables \<times> nat \<Rightarrow> inspection_entry \<Rightarrow> (rel_tables \<times> nat) result" where
  "replay_entry crc = (\<lambda>(tables, expected_tx_id) entry.
     rbind (parse_tx_key (ie_key entry)) (\<lambda>parsed.
     rbind (ok_or parsed (Corruption 0)) (\<lambda>tx_id.
     if tx_id \<noteq> expected_tx_id then Inl (Corruption 0)
     else rbind (ok_or (ie_value entry) (Corruption 0)) (\<lambda>bs.
          rbind (decode_transaction crc bs tx_id) (\<lambda>ops.
          rbind (apply_ops tables ops) (\<lambda>tables.
          rbind (ok_or (checked_add64 expected_tx_id 1) (Corruption 0)) (\<lambda>expected_tx_id.
          Inr (tables, expected_tx_id))))))))"

text \<open>\<open>existing\<close> is the file at the path; the second component is the file afterwards.\<close>

definition rel_open ::
    "(bytes \<Rightarrow> 32 word) \<Rightarrow> bytes option \<Rightarrow> bytes option \<Rightarrow> bool \<Rightarrow> rel_engine result \<times> bytes option" where
  "rel_open crc path existing is_symlink =
     (case log_open crc path existing is_symlink of
        (Inl e, f) \<Rightarrow> (Inl e, f)
      | (Inr backing, f) \<Rightarrow>
          (rbind (log_inspect crc (le_disk backing) True) (\<lambda>inspection.
           rbind (rfold (replay_entry crc) (om_empty, 1) (ir_entries inspection)) (\<lambda>(tables, next_tx_id).
           Inr \<lparr>re_backing = backing, re_tables = tables, re_next_tx_id = next_tx_id\<rparr>)), f))"

definition rel_commit :: "(bytes \<Rightarrow> 32 word) \<Rightarrow> io_fault \<Rightarrow> rel_engine \<Rightarrow> rel_op list \<Rightarrow> nat result \<times> rel_engine" where
  "rel_commit crc fault e ops =
     (if ops = [] then (Inl InvalidInput, e)
      else if length ops > MAX_OPS then (Inl InvalidInput, e)
      else case apply_ops (re_tables e) ops of
        Inl err \<Rightarrow> (Inl err, e)
      | Inr candidate \<Rightarrow>
          (let tx_id = re_next_tx_id e in
           case encode_transaction crc tx_id ops of
             Inl err \<Rightarrow> (Inl err, e)
           | Inr encoded \<Rightarrow>
               (case log_put crc fault (re_backing e) (tx_key tx_id) encoded of
                  (Inl err, b) \<Rightarrow> (Inl err, e\<lparr>re_backing := b\<rparr>)
                | (Inr _, b) \<Rightarrow>
                    (let e1 = e\<lparr>re_backing := b, re_tables := candidate\<rparr> in
                     case checked_add64 tx_id 1 of
                       None \<Rightarrow> (Inl InvalidInput, e1)
                     | Some n \<Rightarrow> (Inr tx_id, e1\<lparr>re_next_tx_id := n\<rparr>)))))"

definition rel_catalog :: "rel_engine \<Rightarrow> (bytes \<times> schema) list" where
  "rel_catalog e = map (\<lambda>(name, state). (name, ts_schema state)) (entries (re_tables e))"

definition rel_table :: "rel_engine \<Rightarrow> bytes \<Rightarrow> table_state result" where
  "rel_table e table = ok_or (om_lookup (re_tables e) table) InvalidInput"

definition rel_schema :: "rel_engine \<Rightarrow> bytes \<Rightarrow> schema result" where
  "rel_schema e table = rmap ts_schema (rel_table e table)"

definition rel_row :: "rel_engine \<Rightarrow> bytes \<Rightarrow> cell \<Rightarrow> cell list option result" where
  "rel_row e table key =
     rbind (rel_table e table) (\<lambda>state.
     rbind (validate_cell_type key (key_type (ts_schema state))) (\<lambda>_.
     Inr (om_lookup (ts_rows state) key)))"

definition rel_rows :: "rel_engine \<Rightarrow> bytes \<Rightarrow> (cell \<times> cell list) list result" where
  "rel_rows e table = rmap (\<lambda>state. entries (ts_rows state)) (rel_table e table)"

end
