(* ===== verification/RelationalSpec.thy ===== *)
theory RelationalSpec
  imports Relational
begin

text \<open>
  The relational layer is correct: what \<open>decode_transaction\<close> accepts is exactly what
  \<open>encode_transaction\<close> writes, tables stay well typed, a commit is all or nothing, and reopening
  the file, also after a commit whose write failed, finds the committed tables.
\<close>

subsection \<open>Readers invert writers\<close>

text \<open>\<open>present bs limit c xs\<close>: the bytes of \<open>bs\<close> at \<open>c\<close> below \<open>limit\<close> start with \<open>xs\<close>.\<close>

definition present :: "bytes \<Rightarrow> nat \<Rightarrow> nat \<Rightarrow> bytes \<Rightarrow> bool" where
  "present bs limit c xs \<longleftrightarrow> c + length xs \<le> limit \<and> take (length xs) (drop c bs) = xs"

lemma present_append:
  "present bs limit c (xs @ ys) \<longleftrightarrow> present bs limit c xs \<and> present bs limit (c + length xs) ys"
proof -
  have "take (length xs + length ys) (drop c bs) = take (length xs) (drop c bs) @ take (length ys) (drop (c + length xs) bs)"
    by (simp add: take_add add.commute)
  then show ?thesis
    by (auto simp: present_def dest: arg_cong [of _ _ "take (length xs)"])
qed

lemma present_Cons: \<comment> \<open>loops as a rewrite rule\<close>
  "present bs limit c (x # ys) \<longleftrightarrow> present bs limit c [x] \<and> present bs limit (c + 1) ys"
  using present_append [of bs limit c "[x]" ys] by simp

lemma rel_take_iff:
  assumes "limit \<le> length bs" "length bs \<le> u64_max"
  shows "rel_take bs limit n c = Inr (xs, c') \<longleftrightarrow> length xs = n \<and> present bs limit c xs \<and> c' = c + length xs"
  using assms by (auto simp: rel_take_def checked_add64_def present_def seg_def result_iff split: if_splits)

lemma take_byte_iff:
  assumes "limit \<le> length bs" "length bs \<le> u64_max"
  shows "take_byte bs limit c = Inr (x, c') \<longleftrightarrow> present bs limit c [x] \<and> c' = c + 1"
proof -
  have "take_byte bs limit c = Inr (x, c') \<longleftrightarrow>
      (\<exists>xs. length xs = 1 \<and> present bs limit c xs \<and> c' = c + length xs \<and> x = xs ! 0)"
    by (auto simp: take_byte_def rbind_eq_Inr rel_take_iff [OF assms])
  also have "\<dots> \<longleftrightarrow> (\<exists>y. present bs limit c [y] \<and> c' = c + 1 \<and> x = y)"
    by (metis One_nat_def length_Cons list.size(3) nth_Cons_0 length_0_conv length_Suc_conv)
  finally show ?thesis by blast
qed

lemma take_u16_iff:
  assumes "limit \<le> length bs" "length bs \<le> u64_max"
  shows "take_u16 bs limit c = Inr (n, c') \<longleftrightarrow> (\<exists>xs. put_u16 n = Inr xs \<and> present bs limit c xs \<and> c' = c + length xs)"
proof -
  have "take_u16 bs limit c = Inr (n, c') \<longleftrightarrow>
      (\<exists>xs. length xs = 2 \<and> present bs limit c xs \<and> c' = c + length xs \<and> read_u16 xs = n)"
    by (auto simp: take_u16_def rbind_eq_Inr rel_take_iff [OF assms])
  also have "\<dots> \<longleftrightarrow> (\<exists>xs. n < 65536 \<and> xs = le_bytes 2 n \<and> present bs limit c xs \<and> c' = c + length xs)"
    by (rule ex_cong1) (metis read_le_bytes(1) length_le_bytes)
  also have "\<dots> \<longleftrightarrow> (\<exists>xs. put_u16 n = Inr xs \<and> present bs limit c xs \<and> c' = c + length xs)"
    by (auto simp: put_u16_def rmap_eq_Inr ok_or_eq_Inr try_eq_Some simp del: le_bytes.simps)
  finally show ?thesis .
qed


lemma take_string_iff:
  assumes "limit \<le> length bs" "length bs \<le> u64_max"
  shows "take_string bs limit c = Inr (s, c') \<longleftrightarrow>
    (\<exists>xs. put_string s = Inr xs \<and> utf8_valid s \<and> present bs limit c xs \<and> c' = c + length xs)"
proof -
  have "take_string bs limit c = Inr (s, c') \<longleftrightarrow>
      (\<exists>n xs. put_u16 n = Inr xs \<and> present bs limit c xs \<and> length s = n \<and> utf8_valid s \<and>
         present bs limit (c + length xs) s \<and> c' = c + length xs + length s)"
    by (auto simp: take_string_def rbind_eq_Inr rel_take_iff [OF assms] take_u16_iff [OF assms] split: if_splits)
  also have "\<dots> \<longleftrightarrow>
      (\<exists>xs. put_string s = Inr xs \<and> utf8_valid s \<and> present bs limit c xs \<and> c' = c + length xs)"
    by (auto simp: put_string_def rbind_eq_Inr present_append)
  finally show ?thesis .
qed

text \<open>The interface of a reader with its writer: what the reader takes at \<open>c\<close> is what the writer
  gives, and only values \<open>good\<close> are read.  The reading loop keeps it.\<close>

locale rel_codec =
  fixes rd :: "bytes \<Rightarrow> nat \<Rightarrow> 'a reader" and enc :: "'a \<Rightarrow> bytes result" and good :: "'a \<Rightarrow> bool"
  assumes reads_iff: "limit \<le> length bs \<Longrightarrow> length bs \<le> u64_max \<Longrightarrow>
    rd bs limit c = Inr (x, c') \<longleftrightarrow>
      (\<exists>xs. enc x = Inr xs \<and> good x \<and> present bs limit c xs \<and> c' = c + length xs)"
begin

lemma read_many_iff:
  assumes "limit \<le> length bs" "length bs \<le> u64_max" "c \<le> limit"
  shows "read_many (rd bs limit) n c = Inr (ys, c') \<longleftrightarrow>
    length ys = n \<and> list_all good ys \<and>
    (\<exists>xss. rmapM enc ys = Inr xss \<and> present bs limit c (concat xss) \<and> c' = c + length (concat xss))"
  using assms(3)
proof (induction n arbitrary: c ys)
  case 0
  then show ?case by (auto simp: present_def)
next
  case (Suc n)
  show ?case
  proof (cases ys)
    case Nil
    then show ?thesis by (auto simp: rbind_eq_Inr)
  next
    case (Cons y ys')
    have "read_many (rd bs limit) (Suc n) c = Inr (y # ys', c') \<longleftrightarrow>
        (\<exists>c1. rd bs limit c = Inr (y, c1) \<and> read_many (rd bs limit) n c1 = Inr (ys', c'))"
      by (auto simp: rbind_eq_Inr)
    also have "\<dots> \<longleftrightarrow> (\<exists>xs. enc y = Inr xs \<and> good y \<and> present bs limit c xs \<and>
        read_many (rd bs limit) n (c + length xs) = Inr (ys', c'))"
      by (auto simp: reads_iff [OF assms(1,2)])
    also have "\<dots> \<longleftrightarrow> (\<exists>xs. enc y = Inr xs \<and> good y \<and> present bs limit c xs \<and>
        length ys' = n \<and> list_all good ys' \<and> (\<exists>xss. rmapM enc ys' = Inr xss \<and>
          present bs limit (c + length xs) (concat xss) \<and> c' = c + length xs + length (concat xss)))"
    proof -
      have "c + length xs \<le> limit" if "present bs limit c xs" for xs
        using that by (simp add: present_def)
      from Suc.IH [OF this] show ?thesis by (intro ex_cong1) blast
    qed
    finally show ?thesis
      unfolding Cons by (cases "enc y"; cases "rmapM enc ys'") (auto simp: present_append add.assoc)
  qed
qed

end

fun good_cell :: "cell \<Rightarrow> bool" where
  "good_cell (CInt64 v) \<longleftrightarrow> True"
| "good_cell (CText v) \<longleftrightarrow> utf8_valid v"

definition good_column :: "column \<Rightarrow> bool" where
  "good_column column \<longleftrightarrow> utf8_valid (col_name column)"

fun good_op :: "rel_op \<Rightarrow> bool" where
  "good_op (CreateTable name schema) \<longleftrightarrow> utf8_valid name \<and> list_all good_column (sm_columns schema) \<and>
     0 < length (sm_columns schema) \<and> length (sm_columns schema) \<le> MAX_COLUMNS"
| "good_op (UpsertRow table row) \<longleftrightarrow> utf8_valid table \<and> list_all good_cell row \<and> 0 < length row \<and> length row \<le> MAX_COLUMNS"
| "good_op (DeleteRow table key) \<longleftrightarrow> utf8_valid table \<and> good_cell key"

lemma tag_bytes: "TYPE_I64 \<noteq> TYPE_TEXT" "OP_CREATE_TABLE \<noteq> OP_UPSERT_ROW" "OP_CREATE_TABLE \<noteq> OP_DELETE_ROW"
  "OP_UPSERT_ROW \<noteq> OP_DELETE_ROW"
  by (simp_all add: rel_consts)

lemma read_i64_iff:
  "length xs = 8 \<Longrightarrow> word_of_nat (read_u64 xs) = (v :: 64 word) \<longleftrightarrow> xs = le_bytes 8 (unat v)"
proof -
  assume len: "length xs = 8"
  have "read_u64 xs \<le> u64_max" using read_le_bytes(3) [OF len] by blast
  then have "unat (word_of_nat (read_u64 xs) :: 64 word) = read_u64 xs"
    by (simp add: unat_of_nat u64_max_def)
  then have "word_of_nat (read_u64 xs) = v \<longleftrightarrow> read_u64 xs = unat v"
    by (metis unat_eq_nat_uint word_unat_eq_iff)
  moreover have "unat v \<le> u64_max"
    using unsigned_less [of v, where 'a = nat] by (simp add: u64_max_def)
  ultimately show ?thesis
    using read_le_bytes(3) [OF len] by auto
qed

lemma read_i64_ex:
  "(\<exists>xs. length xs = 8 \<and> P xs \<and> word_of_nat (read_u64 xs) = (v :: 64 word)) \<longleftrightarrow> P (le_bytes 8 (unat v))"
  (is "?l \<longleftrightarrow> ?r")
proof
  assume ?l
  then obtain xs where xs: "length xs = 8" "P xs" "word_of_nat (read_u64 xs) = v" by blast
  then show ?r using read_i64_iff [OF xs(1)] by simp
next
  assume r: ?r
  have len: "length (le_bytes 8 (unat v)) = 8" by (rule length_le_bytes)
  from len r read_i64_iff [OF len, of v] show ?l by blast
qed

lemma decode_i64_iff:
  assumes lim: "limit \<le> length bs" "length bs \<le> u64_max"
  shows "decode_cell bs limit c = Inr (CInt64 v, c') \<longleftrightarrow>
    present bs limit c (TYPE_I64 # le_bytes 8 (unat v)) \<and> c' = c + 9"
proof -
  have tag: "decode_cell_tag bs limit TYPE_I64 c1 = Inr (CInt64 v, c') \<longleftrightarrow>
      present bs limit c1 (le_bytes 8 (unat v)) \<and> c' = c1 + 8" for c1
  proof -
    have "decode_cell_tag bs limit TYPE_I64 c1 = Inr (CInt64 v, c') \<longleftrightarrow>
        (\<exists>xs. length xs = 8 \<and> (present bs limit c1 xs \<and> c' = c1 + length xs) \<and> word_of_nat (read_u64 xs) = v)"
      by (auto simp: decode_cell_tag_def rbind_eq_Inr rel_take_iff [OF lim])
    also have "\<dots> \<longleftrightarrow> present bs limit c1 (le_bytes 8 (unat v)) \<and> c' = c1 + length (le_bytes 8 (unat v))"
      by (rule read_i64_ex)
    finally show ?thesis by (simp only: length_le_bytes)
  qed
  have other: "b = TYPE_I64" if "decode_cell_tag bs limit b c1 = Inr (CInt64 v, c')" for b c1
    using that by (simp add: decode_cell_tag_def rbind_eq_Inr split: if_splits prod.splits)
  have "decode_cell bs limit c = Inr (CInt64 v, c') \<longleftrightarrow>
      (\<exists>b. present bs limit c [b] \<and> decode_cell_tag bs limit b (c + 1) = Inr (CInt64 v, c'))"
    by (auto simp: decode_cell_def rbind_eq_Inr take_byte_iff [OF lim])
  also have "\<dots> \<longleftrightarrow> present bs limit c [TYPE_I64] \<and> decode_cell_tag bs limit TYPE_I64 (c + 1) = Inr (CInt64 v, c')"
    by (metis other)
  also have "\<dots> \<longleftrightarrow> present bs limit c (TYPE_I64 # le_bytes 8 (unat v)) \<and> c' = c + 9"
    unfolding tag by (subst present_Cons [of bs limit c TYPE_I64 "le_bytes 8 (unat v)"]) auto
  finally show ?thesis .
qed

lemma decode_text_iff:
  assumes lim: "limit \<le> length bs" "length bs \<le> u64_max"
  shows "decode_cell bs limit c = Inr (CText v, c') \<longleftrightarrow>
    (\<exists>xs. put_string v = Inr xs \<and> utf8_valid v \<and> present bs limit c (TYPE_TEXT # xs) \<and> c' = c + 1 + length xs)"
proof -
  have tag: "decode_cell_tag bs limit TYPE_TEXT c1 = Inr (CText v, c') \<longleftrightarrow> take_string bs limit c1 = Inr (v, c')" for c1
    using tag_bytes(1) by (auto simp: decode_cell_tag_def rbind_eq_Inr)
  have other: "b = TYPE_TEXT" if "decode_cell_tag bs limit b c1 = Inr (CText v, c')" for b c1
    using that by (simp add: decode_cell_tag_def rbind_eq_Inr split: if_splits prod.splits)
  have "decode_cell bs limit c = Inr (CText v, c') \<longleftrightarrow>
      (\<exists>b. present bs limit c [b] \<and> decode_cell_tag bs limit b (c + 1) = Inr (CText v, c'))"
    by (auto simp: decode_cell_def rbind_eq_Inr take_byte_iff [OF lim])
  also have "\<dots> \<longleftrightarrow> present bs limit c [TYPE_TEXT] \<and> decode_cell_tag bs limit TYPE_TEXT (c + 1) = Inr (CText v, c')"
    by (metis other)
  also have "\<dots> \<longleftrightarrow> (\<exists>xs. put_string v = Inr xs \<and> utf8_valid v \<and> present bs limit c (TYPE_TEXT # xs) \<and>
        c' = c + 1 + length xs)"
  proof -
    have split: "present bs limit c (TYPE_TEXT # xs) \<longleftrightarrow> present bs limit c [TYPE_TEXT] \<and> present bs limit (c + 1) xs" for xs
      by (rule present_Cons)
    show ?thesis unfolding tag take_string_iff [OF lim] using split by metis
  qed
  finally show ?thesis .
qed

interpretation cell_codec: rel_codec decode_cell encode_cell good_cell
proof
  fix bs :: bytes and limit c :: nat and x :: cell and c' :: nat
  assume lim: "limit \<le> length bs" "length bs \<le> u64_max"
  show "decode_cell bs limit c = Inr (x, c') \<longleftrightarrow>
      (\<exists>xs. encode_cell x = Inr xs \<and> good_cell x \<and> present bs limit c xs \<and> c' = c + length xs)"
  proof (cases x)
    case (CInt64 v)
    have "length (TYPE_I64 # le_bytes 8 (unat v)) = 9"
      by (simp only: list.size length_le_bytes)
    then show ?thesis unfolding CInt64 decode_i64_iff [OF lim] by auto
  next
    case (CText v)
    show ?thesis
      unfolding CText decode_text_iff [OF lim] by (cases "put_string v") auto
  qed
qed

interpretation column_codec: rel_codec decode_column encode_column good_column
proof
  fix bs :: bytes and limit c :: nat and x :: column and c' :: nat
  assume lim: "limit \<le> length bs" "length bs \<le> u64_max"
  have ty: "decode_type b = Inr t \<longleftrightarrow> b = type_byte t" for b t
    by (cases t) (auto simp: decode_type_def tag_bytes)
  obtain n t where x: "x = \<lparr>col_name = n, col_ty = t\<rparr>" by (cases x)
  have "decode_column bs limit c = Inr (x, c') \<longleftrightarrow>
      (\<exists>c1. take_string bs limit c = Inr (n, c1) \<and> present bs limit c1 [type_byte t] \<and> c' = c1 + 1)"
      (is "_ \<longleftrightarrow> ?r")
  proof
    assume ?r
    then obtain c1 where "take_string bs limit c = Inr (n, c1)" "take_byte bs limit c1 = Inr (type_byte t, c')"
      by (auto simp: take_byte_iff [OF lim])
    moreover have "decode_type (type_byte t) = Inr t" by (simp add: ty)
    ultimately show "decode_column bs limit c = Inr (x, c')" by (simp add: decode_column_def x)
  qed (auto simp: decode_column_def rbind_eq_Inr take_byte_iff [OF lim] ty x)
  also have "\<dots> \<longleftrightarrow> (\<exists>xs. put_string n = Inr xs \<and> utf8_valid n \<and> present bs limit c (xs @ [type_byte t]) \<and>
      c' = c + length xs + 1)"
    unfolding take_string_iff [OF lim] present_append by auto
  also have "\<dots> \<longleftrightarrow> (\<exists>xs. encode_column x = Inr xs \<and> good_column x \<and> present bs limit c xs \<and> c' = c + length xs)"
    by (cases "put_string n") (auto simp: encode_column_def good_column_def x)
  finally show "decode_column bs limit c = Inr (x, c') \<longleftrightarrow>
      (\<exists>xs. encode_column x = Inr xs \<and> good_column x \<and> present bs limit c xs \<and> c' = c + length xs)" .
qed


lemma present_le: "present bs limit c xs \<Longrightarrow> c + length xs \<le> limit"
  by (simp add: present_def)

lemma put_u16_Inr: "put_u16 n = Inr xs \<longleftrightarrow> n \<le> 65535 \<and> xs = le_bytes 2 n"
  by (auto simp: put_u16_def rmap_eq_Inr ok_or_eq_Inr try_eq_Some simp del: le_bytes.simps)

lemma decode_create_iff:
  assumes lim: "limit \<le> length bs" "length bs \<le> u64_max"
  shows "decode_create bs limit c = Inr (op, c') \<longleftrightarrow>
    (\<exists>name schema n k l cols. op = CreateTable name schema \<and> good_op op \<and> put_string name = Inr n \<and>
       put_u16 (sm_primary_key schema) = Inr k \<and> put_u16 (length (sm_columns schema)) = Inr l \<and>
       rmapM encode_column (sm_columns schema) = Inr cols \<and> present bs limit c (n @ k @ l @ concat cols) \<and>
       c' = c + length (n @ k @ l @ concat cols))"
    (is "?l \<longleftrightarrow> ?r")
proof
  assume ?l
  then obtain name c1 pk c2 cnt c3 cols where d: "take_string bs limit c = Inr (name, c1)"
    "take_u16 bs limit c1 = Inr (pk, c2)" "take_u16 bs limit c2 = Inr (cnt, c3)" "cnt \<noteq> 0" "cnt \<le> MAX_COLUMNS"
    "read_many (decode_column bs limit) cnt c3 = Inr (cols, c')"
    "op = CreateTable name \<lparr>sm_columns = cols, sm_primary_key = pk\<rparr>"
    by (auto simp: decode_create_def rbind_eq_Inr split: if_splits)
  from d(1) obtain n where n: "put_string name = Inr n" "utf8_valid name" "present bs limit c n" "c1 = c + length n"
    by (auto simp: take_string_iff [OF lim])
  from d(2) obtain k where k: "put_u16 pk = Inr k" "present bs limit c1 k" "c2 = c1 + length k"
    by (auto simp: take_u16_iff [OF lim])
  from d(3) obtain l where l: "put_u16 cnt = Inr l" "present bs limit c2 l" "c3 = c2 + length l"
    by (auto simp: take_u16_iff [OF lim])
  have "c3 \<le> limit" using present_le [OF l(2)] l(3) by simp
  with d(6) n k l d(4,5) show ?r
    by (auto simp: column_codec.read_many_iff [OF lim] present_append add.assoc d(7))
next
  assume ?r
  then obtain name schema n k l cols where d: "op = CreateTable name schema" "good_op op" "put_string name = Inr n"
    "put_u16 (sm_primary_key schema) = Inr k" "put_u16 (length (sm_columns schema)) = Inr l"
    "rmapM encode_column (sm_columns schema) = Inr cols" "present bs limit c (n @ k @ l @ concat cols)"
    "c' = c + length (n @ k @ l @ concat cols)"
    by blast
  have "take_string bs limit c = Inr (name, c + length n)"
    using d by (auto simp: take_string_iff [OF lim] present_append)
  moreover have "take_u16 bs limit (c + length n) = Inr (sm_primary_key schema, c + length n + length k)"
    using d by (auto simp: take_u16_iff [OF lim] present_append)
  moreover have "take_u16 bs limit (c + length n + length k) =
      Inr (length (sm_columns schema), c + length n + length k + length l)"
    using d by (auto simp: take_u16_iff [OF lim] present_append)
  moreover have "read_many (decode_column bs limit) (length (sm_columns schema)) (c + length n + length k + length l) =
      Inr (sm_columns schema, c')"
    using d present_le [OF d(7)] by (auto simp: column_codec.read_many_iff [OF lim] present_append)
  ultimately show ?l
    using d(1,2) by (simp add: decode_create_def)
qed

lemma decode_upsert_iff:
  assumes lim: "limit \<le> length bs" "length bs \<le> u64_max"
  shows "decode_upsert bs limit c = Inr (op, c') \<longleftrightarrow>
    (\<exists>table row n l cells. op = UpsertRow table row \<and> good_op op \<and> put_string table = Inr n \<and>
       put_u16 (length row) = Inr l \<and> rmapM encode_cell row = Inr cells \<and>
       present bs limit c (n @ l @ concat cells) \<and> c' = c + length (n @ l @ concat cells))"
    (is "?l \<longleftrightarrow> ?r")
proof
  assume ?l
  then obtain table c1 cnt c2 row where d: "take_string bs limit c = Inr (table, c1)"
    "take_u16 bs limit c1 = Inr (cnt, c2)" "cnt \<noteq> 0" "cnt \<le> MAX_COLUMNS"
    "read_many (decode_cell bs limit) cnt c2 = Inr (row, c')" "op = UpsertRow table row"
    by (auto simp: decode_upsert_def rbind_eq_Inr split: if_splits)
  from d(1) obtain n where n: "put_string table = Inr n" "utf8_valid table" "present bs limit c n" "c1 = c + length n"
    by (auto simp: take_string_iff [OF lim])
  from d(2) obtain l where l: "put_u16 cnt = Inr l" "present bs limit c1 l" "c2 = c1 + length l"
    by (auto simp: take_u16_iff [OF lim])
  have "c2 \<le> limit" using present_le [OF l(2)] l(3) by simp
  with d n l show ?r
    by (auto simp: cell_codec.read_many_iff [OF lim] present_append add.assoc)
next
  assume ?r
  then obtain table row n l cells where d: "op = UpsertRow table row" "good_op op" "put_string table = Inr n"
    "put_u16 (length row) = Inr l" "rmapM encode_cell row = Inr cells"
    "present bs limit c (n @ l @ concat cells)" "c' = c + length (n @ l @ concat cells)"
    by blast
  have "take_string bs limit c = Inr (table, c + length n)"
    using d by (auto simp: take_string_iff [OF lim] present_append)
  moreover have "take_u16 bs limit (c + length n) = Inr (length row, c + length n + length l)"
    using d by (auto simp: take_u16_iff [OF lim] present_append)
  moreover have "read_many (decode_cell bs limit) (length row) (c + length n + length l) = Inr (row, c')"
    using d present_le [OF d(6)] by (auto simp: cell_codec.read_many_iff [OF lim] present_append)
  ultimately show ?l
    using d(1,2) by (simp add: decode_upsert_def)
qed

lemma decode_delete_iff:
  assumes lim: "limit \<le> length bs" "length bs \<le> u64_max"
  shows "decode_delete bs limit c = Inr (op, c') \<longleftrightarrow>
    (\<exists>table key n k. op = DeleteRow table key \<and> good_op op \<and> put_string table = Inr n \<and>
       encode_cell key = Inr k \<and> present bs limit c (n @ k) \<and> c' = c + length (n @ k))"
    (is "?l \<longleftrightarrow> ?r")
proof
  assume ?l
  then obtain table c1 key where "take_string bs limit c = Inr (table, c1)"
    "decode_cell bs limit c1 = Inr (key, c')" "op = DeleteRow table key"
    by (auto simp: decode_delete_def rbind_eq_Inr)
  then show ?r
    by (auto simp: take_string_iff [OF lim] cell_codec.reads_iff [OF lim] present_append)
next
  assume ?r
  then obtain table key n k where d: "op = DeleteRow table key" "good_op op" "put_string table = Inr n"
    "encode_cell key = Inr k" "present bs limit c (n @ k)" "c' = c + length (n @ k)"
    by blast
  have "take_string bs limit c = Inr (table, c + length n)"
    using d by (auto simp: take_string_iff [OF lim] present_append)
  moreover have "decode_cell bs limit (c + length n) = Inr (key, c')"
    using d by (auto simp: cell_codec.reads_iff [OF lim] present_append)
  ultimately show ?l using d(1) by (simp add: decode_delete_def)
qed

interpretation op_codec: rel_codec decode_op encode_op good_op
proof
  fix bs :: bytes and limit c :: nat and x :: rel_op and c' :: nat
  assume lim: "limit \<le> length bs" "length bs \<le> u64_max"
  let ?r = "\<exists>xs. encode_op x = Inr xs \<and> good_op x \<and> present bs limit c xs \<and> c' = c + length xs"
  note reads = decode_create_iff [OF lim] decode_upsert_iff [OF lim] decode_delete_iff [OF lim]
  show "decode_op bs limit c = Inr (x, c') \<longleftrightarrow> ?r"
  proof
    assume "decode_op bs limit c = Inr (x, c')"
    then obtain tag where tag: "present bs limit c [tag]"
      and d: "tag = OP_CREATE_TABLE \<and> decode_create bs limit (c + 1) = Inr (x, c') \<or>
        tag = OP_UPSERT_ROW \<and> decode_upsert bs limit (c + 1) = Inr (x, c') \<or>
        tag = OP_DELETE_ROW \<and> decode_delete bs limit (c + 1) = Inr (x, c')"
      by (auto simp: decode_op_def rbind_eq_Inr take_byte_iff [OF lim] split: if_splits)
    have tagged: "present bs limit c (tag # ys)" if "present bs limit (c + 1) ys" for ys
      using that tag present_append [of bs limit c "[tag]" ys] by simp
    from d show ?r
    proof (elim disjE conjE)
      assume t: "tag = OP_CREATE_TABLE" and "decode_create bs limit (c + 1) = Inr (x, c')"
      from this(2) [unfolded reads(1)] tagged [unfolded t] show ?r
        by (elim exE conjE) simp
    next
      assume t: "tag = OP_UPSERT_ROW" and "decode_upsert bs limit (c + 1) = Inr (x, c')"
      from this(2) [unfolded reads(2)] tagged [unfolded t] show ?r
        by (elim exE conjE) simp
    next
      assume t: "tag = OP_DELETE_ROW" and "decode_delete bs limit (c + 1) = Inr (x, c')"
      from this(2) [unfolded reads(3)] tagged [unfolded t] show ?r
        by (elim exE conjE) simp
    qed
  next
    assume ?r
    then obtain xs where xs: "encode_op x = Inr xs" "good_op x" "present bs limit c xs" "c' = c + length xs"
      by blast
    have byte: "take_byte bs limit c = Inr (b, c + 1) \<and> present bs limit (c + 1) ys" if "xs = b # ys" for b ys
      using that xs(3) present_append [of bs limit c "[b]" ys] by (simp add: take_byte_iff [OF lim])
    show "decode_op bs limit c = Inr (x, c')"
    proof (cases x)
      case (CreateTable name schema)
      then obtain n k l cols where e: "put_string name = Inr n" "put_u16 (sm_primary_key schema) = Inr k"
        "put_u16 (length (sm_columns schema)) = Inr l" "rmapM encode_column (sm_columns schema) = Inr cols"
        "xs = OP_CREATE_TABLE # n @ k @ l @ concat cols"
        using xs(1) by (auto simp: rbind_eq_Inr)
      then show ?thesis
        using byte [OF e(5)] xs(2,4) CreateTable reads(1) [of "c + 1" x c'] by (simp add: decode_op_def)
    next
      case (UpsertRow table row)
      then obtain n l cells where e: "put_string table = Inr n" "put_u16 (length row) = Inr l"
        "rmapM encode_cell row = Inr cells" "xs = OP_UPSERT_ROW # n @ l @ concat cells"
        using xs(1) by (auto simp: rbind_eq_Inr)
      then show ?thesis
        using byte [OF e(4)] xs(2,4) UpsertRow reads(2) [of "c + 1" x c'] tag_bytes by (simp add: decode_op_def)
    next
      case (DeleteRow table key)
      then obtain n k where e: "put_string table = Inr n" "encode_cell key = Inr k" "xs = OP_DELETE_ROW # n @ k"
        using xs(1) by (auto simp: rbind_eq_Inr)
      then show ?thesis
        using byte [OF e(3)] xs(2,4) DeleteRow reads(3) [of "c + 1" x c'] tag_bytes by (simp add: decode_op_def)
    qed
  qed
qed



subsection \<open>The transaction format\<close>

definition tx_header :: "nat \<Rightarrow> nat \<Rightarrow> bytes" where
  "tx_header tx_id count = REL_MAGIC @ le_bytes 2 REL_VERSION @ le_bytes 2 0 @ le_bytes 8 tx_id @ le_bytes 4 count"

lemma length_REL_MAGIC [simp]: "length REL_MAGIC = 8"
  by (simp add: REL_MAGIC_def)

lemma length_tx_header [simp]: "length (tx_header tx_id count) = 24"
  by (simp add: tx_header_def del: le_bytes.simps)

lemma encode_ops_iff:
  "rfold (\<lambda>out op. rbind (encode_op op) (\<lambda>bs.
      if length (out @ bs) + REL_TRAILER_LEN > MAX_VALUE_BYTES then Inl InvalidInput else Inr (out @ bs))) out ops = Inr out' \<longleftrightarrow>
   (\<exists>bss. rmapM encode_op ops = Inr bss \<and> out' = out @ concat bss \<and>
      (ops \<noteq> [] \<longrightarrow> length out' + REL_TRAILER_LEN \<le> MAX_VALUE_BYTES))"
proof (induction ops arbitrary: out)
  case Nil
  show ?case by auto
next
  case (Cons op ops)
  show ?case
  proof (cases "encode_op op")
    case (Inr bs)
    then show ?thesis
      using Cons.IH [of "out @ bs"]
      by (cases "rmapM encode_op ops"; cases "ops = []") (auto split: if_splits)
  qed simp
qed

lemma encode_transaction_iff:
  "encode_transaction crc tx_id ops = Inr bs \<longleftrightarrow>
     length ops \<le> 4294967295 \<and> (\<exists>bss. rmapM encode_op ops = Inr bss \<and>
       (let out = tx_header tx_id (length ops) @ concat bss in
        bs = out @ crc_field (crc out) \<and> (ops \<noteq> [] \<longrightarrow> length out + REL_TRAILER_LEN \<le> MAX_VALUE_BYTES)))"
  unfolding encode_transaction_def Let_def tx_header_def [symmetric] rbind_eq_Inr [where m = "ok_or _ _"]
    rbind_eq_Inr [where m = "rfold _ _ _"] ok_or_eq_Inr try_eq_Some encode_ops_iff
  by auto

lemma rel_field_iff:
  "rel_field w off bs = Inr n \<longleftrightarrow> off + w \<le> length bs \<and> n < 256 ^ w \<and> seg off (off + w) bs = le_bytes w n"
proof -
  have "le_val (seg off (off + w) bs) = n \<longleftrightarrow> n < 256 ^ w \<and> seg off (off + w) bs = le_bytes w n"
    if "off + w \<le> length bs"
  proof -
    have "length (seg off (off + w) bs) = w" using that by (simp add: length_seg)
    then show ?thesis
      using le_val_less [of "seg off (off + w) bs"] le_bytes_le_val [of "seg off (off + w) bs"] le_val_le_bytes [of w n] by auto
  qed
  then show ?thesis by (auto simp: rel_field_def)
qed

lemma tx_header_iff:
  assumes "24 \<le> length bs"
  shows "take 24 bs = tx_header tx_id count \<longleftrightarrow>
    take 8 bs = REL_MAGIC \<and> seg 8 10 bs = le_bytes 2 REL_VERSION \<and> seg 10 12 bs = le_bytes 2 0 \<and>
    seg 12 20 bs = le_bytes 8 tx_id \<and> seg 20 24 bs = le_bytes 4 count"
proof -
  have "take 24 bs = take 8 bs @ seg 8 10 bs @ seg 10 12 bs @ seg 12 20 bs @ seg 20 24 bs"
    by (simp add: seg_join seg_0 [symmetric])
  moreover have "length (take 8 bs) = 8" "length (seg 8 10 bs) = 2" "length (seg 10 12 bs) = 2" "length (seg 12 20 bs) = 8"
    using assms by (simp_all add: length_seg)
  ultimately show ?thesis
    by (simp add: tx_header_def append_eq_append_conv del: le_bytes.simps)
qed

text \<open>What the decoder accepts.\<close>

lemma decode_transaction_step:
  assumes "28 \<le> length bs" and t: "t = length bs - 4"
  shows "decode_transaction crc bs tx_id = Inr ops \<longleftrightarrow> tx_id \<le> u64_max \<and>
    (\<exists>count. count \<noteq> 0 \<and> count \<le> MAX_OPS \<and> take 24 bs = tx_header tx_id count \<and>
      seg t (t + 4) bs = crc_field (crc (take t bs)) \<and> read_many (decode_op bs t) count 24 = Inr (ops, t))"
proof -
  have lens: "24 \<le> length bs" "24 \<le> t" "t + 4 = length bs" "20 \<le> length bs" "12 \<le> length bs" "10 \<le> length bs"
    using assms by simp_all
  define w where "w = unat (crc (take t bs))"
  have w: "w < 256 ^ 4" using unat_word32_less [of "crc (take t bs)"] by (simp add: w_def)
  have crc: "seg t (t + 4) bs = crc_field (crc (take t bs)) \<longleftrightarrow> rel_field 4 t bs = Inr w"
    using lens w by (simp add: rel_field_iff crc_field_def w_def del: le_bytes.simps)
  have head: "take 24 bs = tx_header tx_id count \<and> tx_id \<le> u64_max \<and> count \<le> MAX_OPS \<longleftrightarrow>
      take 8 bs = REL_MAGIC \<and> rel_field 2 8 bs = Inr REL_VERSION \<and> rel_field 2 10 bs = Inr 0 \<and>
      rel_field 8 12 bs = Inr tx_id \<and> rel_field 4 20 bs = Inr count \<and> count \<le> MAX_OPS" for count
    using lens by (auto simp: rel_field_iff tx_header_iff [OF lens(1)] u64_max_def rel_consts simp del: le_bytes.simps)
  have "decode_transaction crc bs tx_id = Inr ops \<longleftrightarrow>
      (\<exists>count. count \<noteq> 0 \<and> (take 8 bs = REL_MAGIC \<and> rel_field 2 8 bs = Inr REL_VERSION \<and> rel_field 2 10 bs = Inr 0 \<and>
      rel_field 8 12 bs = Inr tx_id \<and> rel_field 4 20 bs = Inr count \<and> count \<le> MAX_OPS) \<and>
      rel_field 4 t bs = Inr w \<and> read_many (decode_op bs t) count 24 = Inr (ops, t))"
    using assms(1) lens
    by (auto simp: decode_transaction_def rbind_eq_Inr Let_def t w_def REL_HEADER_LEN_def REL_TRAILER_LEN_def split: if_splits)
  then show ?thesis unfolding head [symmetric] crc by blast
qed

lemma decode_transaction_iff:
  assumes "length bs \<le> u64_max"
  shows "decode_transaction crc bs tx_id = Inr ops \<longleftrightarrow>
    tx_id \<le> u64_max \<and> ops \<noteq> [] \<and> length ops \<le> MAX_OPS \<and> list_all good_op ops \<and>
    (\<exists>bss. rmapM encode_op ops = Inr bss \<and>
       (let out = tx_header tx_id (length ops) @ concat bss in bs = out @ crc_field (crc out)))"
    (is "?l \<longleftrightarrow> ?r")
proof (cases "28 \<le> length bs")
  case False
  then show ?thesis by (auto simp: decode_transaction_def rel_consts Let_def)
next
  case True
  define t where "t = length bs - 4"
  have t: "t \<le> length bs" "24 \<le> t" "t + 4 = length bs" using True by (simp_all add: t_def)
  have whole: "bs = take 24 bs @ seg 24 t bs @ seg t (t + 4) bs" and pre: "take t bs = take 24 bs @ seg 24 t bs"
    using t by (simp_all add: seg_join flip: seg_0) (simp add: seg_def)
  have shape: "take 24 bs = h \<and> seg t (t + 4) bs = crc_field (crc (take t bs)) \<and>
      (present bs t 24 xs \<and> t = 24 + length xs) \<longleftrightarrow> bs = (h @ xs) @ crc_field (crc (h @ xs))"
    if "length h = 24" for h xs
  proof
    assume l: "take 24 bs = h \<and> seg t (t + 4) bs = crc_field (crc (take t bs)) \<and>
      (present bs t 24 xs \<and> t = 24 + length xs)"
    then have "seg 24 t bs = xs" by (auto simp: present_def seg_def)
    with l pre have pre': "take t bs = h @ xs" by simp
    have "bs = take t bs @ seg t (t + 4) bs" using t by (simp add: seg_def)
    moreover have "seg t (t + 4) bs = crc_field (crc (h @ xs))" using l unfolding pre' by blast
    ultimately show "bs = (h @ xs) @ crc_field (crc (h @ xs))" using pre' by metis
  next
    assume r: "bs = (h @ xs) @ crc_field (crc (h @ xs))"
    then have "t = 24 + length xs" using that by (simp add: t_def)
    then show "take 24 bs = h \<and> seg t (t + 4) bs = crc_field (crc (take t bs)) \<and>
      (present bs t 24 xs \<and> t = 24 + length xs)"
      using that by (subst (1 2 3 4) r) (simp add: present_def seg_def)
  qed
  have "?l \<longleftrightarrow> tx_id \<le> u64_max \<and> (\<exists>count. count \<noteq> 0 \<and> count \<le> MAX_OPS \<and> take 24 bs = tx_header tx_id count \<and>
      seg t (t + 4) bs = crc_field (crc (take t bs)) \<and>
      (length ops = count \<and> list_all good_op ops \<and> (\<exists>bss. rmapM encode_op ops = Inr bss \<and>
         present bs t 24 (concat bss) \<and> t = 24 + length (concat bss))))"
    unfolding decode_transaction_step [OF True t_def] op_codec.read_many_iff [OF t(1) assms t(2)] ..
  also have "\<dots> \<longleftrightarrow> tx_id \<le> u64_max \<and> ops \<noteq> [] \<and> length ops \<le> MAX_OPS \<and> list_all good_op ops \<and>
      (\<exists>bss. rmapM encode_op ops = Inr bss \<and> (take 24 bs = tx_header tx_id (length ops) \<and>
         seg t (t + 4) bs = crc_field (crc (take t bs)) \<and> (present bs t 24 (concat bss) \<and> t = 24 + length (concat bss))))"
    by (cases ops) auto
  also have "\<dots> \<longleftrightarrow> ?r"
    unfolding shape [OF length_tx_header] Let_def ..
  finally show ?thesis .
qed


subsection \<open>Well-typed tables\<close>

definition table_ok :: "table_state \<Rightarrow> bool" where
  "table_ok state \<longleftrightarrow> validate_schema (ts_schema state) = Inr () \<and>
     (\<forall>(key, row) \<in> set (entries (ts_rows state)).
        validate_row (ts_schema state) row = Inr () \<and> row ! sm_primary_key (ts_schema state) = key)"

definition tables_ok :: "rel_tables \<Rightarrow> bool" where
  "tables_ok tables \<longleftrightarrow> (\<forall>(name, state) \<in> set (entries tables). validate_name name = Inr () \<and> table_ok state)"

lemma ball_entries: "(\<forall>(k, v) \<in> set (entries m). P k v) \<longleftrightarrow> (\<forall>k v. om_lookup m k = Some v \<longrightarrow> P k v)"
  by (auto simp: set_entries [symmetric])

lemma tables_ok_iff: "tables_ok tables \<longleftrightarrow>
    (\<forall>name state. om_lookup tables name = Some state \<longrightarrow> validate_name name = Inr () \<and> table_ok state)"
  by (auto simp: tables_ok_def set_entries split_beta Ball_def)

lemma table_ok_iff: "table_ok state \<longleftrightarrow> validate_schema (ts_schema state) = Inr () \<and>
     (\<forall>key row. om_lookup (ts_rows state) key = Some row \<longrightarrow>
        validate_row (ts_schema state) row = Inr () \<and> row ! sm_primary_key (ts_schema state) = key)"
  by (auto simp: table_ok_def set_entries split_beta Ball_def)

lemma tables_ok_empty [simp]: "tables_ok om_empty"
  by (simp add: tables_ok_def)

lemma apply_op_types:
  assumes "tables_ok tables" "apply_op tables op = Inr tables'"
  shows "tables_ok tables' \<and>
    (\<forall>name state. om_lookup tables name = Some state \<longrightarrow>
       (\<exists>state'. om_lookup tables' name = Some state' \<and> ts_schema state' = ts_schema state))"
proof (cases op)
  case (CreateTable name schema)
  then show ?thesis using assms by (auto simp: rbind_eq_Inr tables_ok_iff table_ok_iff split: if_splits)
next
  case (UpsertRow table row)
  then obtain state where "om_lookup tables table = Some state" using assms by (auto split: option.splits)
  then show ?thesis
    using assms UpsertRow by (auto simp: rbind_eq_Inr tables_ok_iff table_ok_iff split: if_splits)
next
  case (DeleteRow table key)
  then obtain state where "om_lookup tables table = Some state" using assms by (auto split: option.splits)
  then show ?thesis
    using assms DeleteRow by (auto simp: rbind_eq_Inr tables_ok_iff table_ok_iff split: if_splits)
qed

lemma apply_ops_types:
  "tables_ok tables \<Longrightarrow> apply_ops tables ops = Inr tables' \<Longrightarrow> tables_ok tables' \<and>
    (\<forall>name state. om_lookup tables name = Some state \<longrightarrow>
       (\<exists>state'. om_lookup tables' name = Some state' \<and> ts_schema state' = ts_schema state))"
proof (induction ops arbitrary: tables)
  case Nil
  then show ?case by (simp add: apply_ops_def)
next
  case (Cons op ops)
  then obtain mid where mid: "apply_op tables op = Inr mid" "apply_ops mid ops = Inr tables'"
    by (auto simp: apply_ops_def rbind_eq_Inr)
  from apply_op_types [OF Cons.prems(1) mid(1)] Cons.IH [OF _ mid(2)] show ?case by metis
qed

text \<open>Every rejection is \<open>InvalidInput\<close>.\<close>

lemma rbind_eq_Inl: "rbind m f = Inl e \<longleftrightarrow> m = Inl e \<or> (\<exists>x. m = Inr x \<and> f x = Inl e)"
  by (cases m) auto

lemma rfold_error: "(\<And>s x e. f s x = Inl e \<Longrightarrow> e = E) \<Longrightarrow> rfold f s xs = Inl e \<Longrightarrow> e = E"
  by (induction xs arbitrary: s) (auto simp: rbind_eq_Inl)

lemma validate_name_error: "validate_name name = Inl err \<Longrightarrow> err = InvalidInput"
  by (auto simp: validate_name_def ensure_def split: if_splits)

lemma validate_cell_error: "validate_cell_type c ty = Inl err \<Longrightarrow> err = InvalidInput"
  by (auto simp: validate_cell_type_def ensure_def split: if_splits cell.splits column_type.splits)

lemma validate_schema_error: "validate_schema schema = Inl err \<Longrightarrow> err = InvalidInput"
  unfolding validate_schema_def
  by (auto simp: rbind_eq_Inl dest: validate_name_error split: if_splits
      elim!: rfold_error [rotated])

lemma validate_row_error: "validate_row schema row = Inl err \<Longrightarrow> err = InvalidInput"
  unfolding validate_row_def
  by (auto dest: validate_cell_error split: if_splits elim!: rfold_error [rotated])

lemma apply_op_error: "apply_op tables op = Inl err \<Longrightarrow> err = InvalidInput"
  by (cases op)
    (auto simp: rbind_eq_Inl split: if_splits option.splits
      dest: validate_name_error validate_schema_error validate_row_error validate_cell_error)

lemma apply_ops_error: "apply_ops tables ops = Inl err \<Longrightarrow> err = InvalidInput"
  unfolding apply_ops_def by (rule rfold_error [OF apply_op_error])

lemma put_string_error: "put_string s = Inl err \<Longrightarrow> err = InvalidInput"
  by (auto simp: put_string_def put_u16_def rbind_eq_Inl rmap_def ok_or_def split: sum.splits option.splits)

lemma put_u16_error: "put_u16 n = Inl err \<Longrightarrow> err = InvalidInput"
  by (auto simp: put_u16_def rmap_def ok_or_def split: sum.splits option.splits)

lemma rmapM_error: "(\<And>x e. f x = Inl e \<Longrightarrow> e = E) \<Longrightarrow> rmapM f xs = Inl e \<Longrightarrow> e = E"
  by (induction xs) (auto simp: rbind_eq_Inl)

lemma encode_cell_error: "encode_cell c = Inl err \<Longrightarrow> err = InvalidInput"
  by (cases c) (auto simp: rbind_eq_Inl dest: put_string_error)

lemma encode_column_error: "encode_column c = Inl err \<Longrightarrow> err = InvalidInput"
  by (auto simp: encode_column_def rbind_eq_Inl dest: put_string_error)

lemma encode_columns_error: "rmapM encode_column cs = Inl err \<Longrightarrow> err = InvalidInput"
  by (rule rmapM_error [where f = encode_column]) (rule encode_column_error)

lemma encode_cells_error: "rmapM encode_cell cs = Inl err \<Longrightarrow> err = InvalidInput"
  by (rule rmapM_error [where f = encode_cell]) (rule encode_cell_error)

lemma encode_op_error: "encode_op op = Inl err \<Longrightarrow> err = InvalidInput"
  by (cases op)
    (auto simp: rbind_eq_Inl
      dest: put_string_error put_u16_error encode_cell_error encode_columns_error encode_cells_error)

lemma encode_transaction_error:
  assumes "encode_transaction crc tx_id ops = Inl err"
  shows "err = InvalidInput"
proof -
  let ?f = "\<lambda>out op. rbind (encode_op op) (\<lambda>bs. if length (out @ bs) + REL_TRAILER_LEN > MAX_VALUE_BYTES
      then Inl InvalidInput else Inr (out @ bs))"
  have step: "e = InvalidInput" if "?f out op = Inl e" for out op e
    using that by (auto simp: rbind_eq_Inl dest: encode_op_error split: if_splits)
  from assms consider "ok_or (try_u32 (length ops)) InvalidInput = Inl err"
    | out where "rfold ?f out ops = Inl err"
    unfolding encode_transaction_def Let_def by (cases "ok_or (try_u32 (length ops)) InvalidInput") (auto simp: rbind_eq_Inl)
  then show ?thesis
  proof cases
    case 1
    then show ?thesis by (simp add: ok_or_def split: option.splits)
  next
    case 2
    from rfold_error [of ?f InvalidInput, OF step this] show ?thesis .
  qed
qed

text \<open>Names the engine accepts are ASCII, hence UTF-8.\<close>

lemma ascii_utf8: "list_all (\<lambda>b. b \<le> 0x7f) s \<Longrightarrow> utf8_valid s"
  by (induction s) auto

lemma valid_name_utf8: "validate_name name = Inr u \<Longrightarrow> utf8_valid name"
proof (rule ascii_utf8)
  assume "validate_name name = Inr u"
  then have "list_all (\<lambda>b. ascii_alphanumeric b \<or> b = 0x5f) name"
    by (auto simp: validate_name_def result_iff split: if_splits)
  then show "list_all (\<lambda>b. b \<le> 0x7f) name"
    by (rule list.pred_mono_strong) (auto simp: ascii_alphanumeric_def intro: order_trans)
qed

text \<open>A Rust \<open>String\<close> is UTF-8: what the type of an operation promises of its texts.\<close>

fun op_texts :: "rel_op \<Rightarrow> bool" where
  "op_texts (CreateTable name schema) \<longleftrightarrow> True"
| "op_texts (UpsertRow table row) \<longleftrightarrow> list_all good_cell row"
| "op_texts (DeleteRow table key) \<longleftrightarrow> good_cell key"

lemma schema_names:
  "rfold (\<lambda>seen column. rbind (validate_name (col_name column)) (\<lambda>_.
      if col_name column \<in> seen then Inl InvalidInput else Inr (insert (col_name column) seen))) seen cols = Inr seen' \<Longrightarrow>
   (\<forall>column \<in> set cols. validate_name (col_name column) = Inr () \<and> col_name column \<notin> seen) \<and> distinct (map col_name cols)"
proof (induction cols arbitrary: seen)
  case Nil
  then show ?case by simp
next
  case (Cons c cols)
  from Cons.prems have c: "validate_name (col_name c) = Inr ()" "col_name c \<notin> seen"
    by (cases "validate_name (col_name c)"; simp split: if_splits)+
  with Cons.IH [of "insert (col_name c) seen"] Cons.prems show ?case by auto
qed

lemma validate_schema_Inr:
  assumes "validate_schema schema = Inr u"
  shows "0 < length (sm_columns schema)" "length (sm_columns schema) \<le> MAX_COLUMNS"
    and "sm_primary_key schema < length (sm_columns schema)"
    and "\<forall>column \<in> set (sm_columns schema). validate_name (col_name column) = Inr ()"
    and "distinct (map col_name (sm_columns schema))"
proof -
  from assms have lens: "sm_columns schema \<noteq> []" "length (sm_columns schema) \<le> MAX_COLUMNS"
    "sm_primary_key schema < length (sm_columns schema)"
    by (auto simp: validate_schema_def not_le split: if_splits)
  then show "0 < length (sm_columns schema)" "length (sm_columns schema) \<le> MAX_COLUMNS"
    "sm_primary_key schema < length (sm_columns schema)" by simp_all
  from assms lens obtain seen where "rfold (\<lambda>seen column. rbind (validate_name (col_name column)) (\<lambda>_.
      if col_name column \<in> seen then Inl InvalidInput else Inr (insert (col_name column) seen))) {} (sm_columns schema) = Inr seen"
    unfolding validate_schema_def by (auto simp: rbind_eq_Inr)
  from schema_names [OF this] show "\<forall>column \<in> set (sm_columns schema). validate_name (col_name column) = Inr ()"
    "distinct (map col_name (sm_columns schema))" by auto
qed

lemma apply_op_good:
  assumes "tables_ok tables" "apply_op tables op = Inr tables'" "op_texts op"
  shows "good_op op"
proof (cases op)
  case (CreateTable name schema)
  then show ?thesis
    using assms(2) validate_schema_Inr [of schema] valid_name_utf8
    by (auto simp: rbind_eq_Inr good_column_def list_all_iff split: if_splits)
next
  case (UpsertRow table row)
  then obtain state where st: "om_lookup tables table = Some state" using assms(2) by (auto split: option.splits)
  then have "validate_row (ts_schema state) row = Inr ()" "validate_schema (ts_schema state) = Inr ()" "utf8_valid table"
    using assms(1,2) UpsertRow valid_name_utf8 by (auto simp: rbind_eq_Inr tables_ok_iff table_ok_iff)
  then show ?thesis
    using UpsertRow assms(3) validate_schema_Inr by (fastforce simp: validate_row_def split: if_splits)
next
  case (DeleteRow table key)
  then obtain state where st: "om_lookup tables table = Some state" using assms(2) by (auto split: option.splits)
  then show ?thesis using DeleteRow assms(1,3) valid_name_utf8 by (auto simp: tables_ok_iff)
qed

lemma apply_ops_good:
  "tables_ok tables \<Longrightarrow> apply_ops tables ops = Inr tables' \<Longrightarrow> list_all op_texts ops \<Longrightarrow> list_all good_op ops"
proof (induction ops arbitrary: tables)
  case Nil
  then show ?case by simp
next
  case (Cons op ops)
  then obtain mid where mid: "apply_op tables op = Inr mid" "apply_ops mid ops = Inr tables'"
    by (auto simp: apply_ops_def rbind_eq_Inr)
  have "list_all good_op ops"
    using Cons.IH [OF _ mid(2)] apply_op_types [OF Cons.prems(1) mid(1)] Cons.prems(3) by simp
  then show ?case using apply_op_good [OF Cons.prems(1) mid(1)] Cons.prems(3) by simp
qed



subsection \<open>Transaction keys are ordered as their ids\<close>

lemma length_be_bytes [simp]: "length (be_bytes k n) = k"
  by (simp add: be_bytes_def)

lemma be_bytes_Suc: "be_bytes (Suc k) n = be_bytes k (n div 256) @ [word_of_nat n]"
  by (simp add: be_bytes_def)

lemma less_append_same: "xs @ us < xs @ vs \<longleftrightarrow> us < (vs :: byte list)"
  by (induction xs) (simp_all add: Cons_less_Cons)

lemma less_append_prefix: "length xs = length ys \<Longrightarrow> xs < ys \<Longrightarrow> xs @ us < ys @ (vs :: byte list)"
  by (induction xs ys rule: list_induct2) (auto simp: Cons_less_Cons)

lemma be_bytes_less: "i < j \<Longrightarrow> j < 256 ^ k \<Longrightarrow> be_bytes k i < be_bytes k j"
proof (induction k arbitrary: i j)
  case 0
  then show ?case by simp
next
  case (Suc k)
  consider "i div 256 < j div 256" | "i div 256 = j div 256" "i mod 256 < j mod 256"
    using Suc.prems(1) by (metis div_le_mono div_mult_mod_eq le_neq_implies_less less_imp_le nat_add_left_cancel_less)
  then show ?case
  proof cases
    case 1
    moreover have "j div 256 < 256 ^ k" using Suc.prems(2) by (simp add: less_mult_imp_div_less mult.commute)
    ultimately show ?thesis
      unfolding be_bytes_Suc by (intro less_append_prefix Suc.IH) simp_all
  next
    case 2
    have "(word_of_nat i :: byte) < word_of_nat j"
      using 2(2) by (simp add: word_less_nat_alt unat_of_nat)
    then show ?thesis unfolding be_bytes_Suc 2(1) less_append_same by (simp add: Cons_less_Cons)
  qed
qed

lemma tx_key_less: "i < j \<Longrightarrow> j \<le> u64_max \<Longrightarrow> tx_key i < tx_key j"
  unfolding tx_key_def less_append_same by (rule be_bytes_less) (simp_all add: u64_max_def)

lemma parse_tx_key_tx_key: "0 < i \<Longrightarrow> i \<le> u64_max \<Longrightarrow> parse_tx_key (tx_key i) = Inr (Some i)"
  by (simp add: parse_tx_key_def tx_key_def Let_def be_bytes_def le_val_le_bytes u64_max_def del: le_bytes.simps)

lemma length_tx_key [simp]: "length (tx_key i) = 23"
  by (simp add: tx_key_def TX_KEY_PREFIX_def)

lemma al_insert_last: "\<forall>(a, b) \<in> set xs. a < k \<Longrightarrow> al_insert k v xs = xs @ [(k, v)]"
  by (induction xs) auto


subsection \<open>The engine and its file\<close>

text \<open>The entries of the backing log that the transactions \<open>txs\<close>, numbered from \<open>i\<close>, leave.\<close>

definition tx_bytes :: "(bytes \<Rightarrow> 32 word) \<Rightarrow> nat \<Rightarrow> rel_op list \<Rightarrow> bytes" where
  "tx_bytes crc i ops = (case encode_transaction crc i ops of Inl _ \<Rightarrow> [] | Inr bs \<Rightarrow> bs)"

primrec tx_entries :: "(bytes \<Rightarrow> 32 word) \<Rightarrow> nat \<Rightarrow> rel_op list list \<Rightarrow> (bytes \<times> bytes) list" where
  "tx_entries crc i [] = []"
| "tx_entries crc i (ops # txs) = (tx_key i, tx_bytes crc i ops) # tx_entries crc (Suc i) txs"

definition tx_ok :: "rel_op list \<Rightarrow> bool" where
  "tx_ok ops \<longleftrightarrow> ops \<noteq> [] \<and> length ops \<le> MAX_OPS \<and> list_all good_op ops \<and>
     (\<exists>bs. encode_transaction (\<lambda>_. 0) 0 ops = Inr bs)"

lemma tx_entries_append:
  "tx_entries crc i (xs @ ys) = tx_entries crc i xs @ tx_entries crc (i + length xs) ys"
  by (induction xs arbitrary: i) simp_all

lemma tx_entries_below: "(k, v) \<in> set (tx_entries crc i txs) \<Longrightarrow> \<exists>j. i \<le> j \<and> j < i + length txs \<and> k = tx_key j"
proof (induction txs arbitrary: i)
  case Nil
  then show ?case by simp
next
  case (Cons ops txs)
  from Cons.prems consider "k = tx_key i" | "(k, v) \<in> set (tx_entries crc (Suc i) txs)" by auto
  then show ?case
  proof cases
    case 2
    from Cons.IH [OF this] obtain j where "Suc i \<le> j" "j < Suc i + length txs" "k = tx_key j" by blast
    then show ?thesis by (intro exI [of _ j]) simp
  qed auto
qed

text \<open>Whether a transaction can be encoded, and how long it is, does not depend on its id or the
  checksum.\<close>

lemma encode_transaction_total:
  assumes "encode_transaction crc i ops = Inr bs" "ops \<noteq> []"
  shows "length bs \<le> MAX_VALUE_BYTES" and "\<exists>bs'. encode_transaction crc' j ops = Inr bs'"
proof -
  from assms obtain bss where "length ops \<le> 4294967295" "rmapM encode_op ops = Inr bss"
    "bs = (tx_header i (length ops) @ concat bss) @ crc_field (crc (tx_header i (length ops) @ concat bss))"
    "length (tx_header i (length ops) @ concat bss) + REL_TRAILER_LEN \<le> MAX_VALUE_BYTES"
    unfolding encode_transaction_iff Let_def by blast
  then show "length bs \<le> MAX_VALUE_BYTES" "\<exists>bs'. encode_transaction crc' j ops = Inr bs'"
    by (simp_all add: encode_transaction_iff Let_def REL_TRAILER_LEN_def)
qed

lemma tx_ok_bytes:
  assumes "tx_ok ops" "i \<le> u64_max"
  shows "encode_transaction crc i ops = Inr (tx_bytes crc i ops)"
    and "decode_transaction crc (tx_bytes crc i ops) i = Inr ops"
    and "length (tx_bytes crc i ops) \<le> MAX_VALUE_BYTES"
proof -
  from assms(1) obtain bs0 where "encode_transaction (\<lambda>_. 0) 0 ops = Inr bs0" "ops \<noteq> []"
    by (auto simp: tx_ok_def)
  from encode_transaction_total(2) [OF this, of crc i] show e: "encode_transaction crc i ops = Inr (tx_bytes crc i ops)"
    by (auto simp: tx_bytes_def)
  then show len: "length (tx_bytes crc i ops) \<le> MAX_VALUE_BYTES"
    using encode_transaction_total(1) assms(1) by (auto simp: tx_ok_def)
  have "length (tx_bytes crc i ops) \<le> u64_max"
    using len by (simp add: MAX_VALUE_BYTES_def u64_max_def)
  from decode_transaction_iff [OF this, of crc i ops] e assms
  show "decode_transaction crc (tx_bytes crc i ops) i = Inr ops"
    by (auto simp: tx_ok_def encode_transaction_iff Let_def)
qed

definition entry_of :: "bytes \<times> bytes \<Rightarrow> inspection_entry" where
  "entry_of = (\<lambda>(key, val). \<lparr>ie_key = key, ie_value_bytes = length val, ie_value = Some val\<rparr>)"

lemma replay_entries:
  "rfold apply_ops tables txs = Inr tables' \<Longrightarrow> list_all tx_ok txs \<Longrightarrow> 0 < i \<Longrightarrow> i + length txs \<le> u64_max \<Longrightarrow>
     rfold (replay_entry crc) (tables, i) (map entry_of (tx_entries crc i txs)) = Inr (tables', i + length txs)"
proof (induction txs arbitrary: tables i)
  case Nil
  then show ?case by simp
next
  case (Cons ops txs)
  from Cons.prems(1) obtain mid where mid: "apply_ops tables ops = Inr mid" "rfold apply_ops mid txs = Inr tables'"
    by (auto simp: rbind_eq_Inr)
  have "replay_entry crc (tables, i) (entry_of (tx_key i, tx_bytes crc i ops)) = Inr (mid, Suc i)"
    using Cons.prems tx_ok_bytes(2) [of ops i crc] mid(1)
    by (simp add: replay_entry_def entry_of_def parse_tx_key_tx_key checked_add64_def)
  then show ?case using Cons.IH [OF mid(2), of "Suc i"] Cons.prems by simp
qed

text \<open>\<open>rel_holds crc e txs\<close>: the file holds the transactions \<open>txs\<close>, and the tables are what they
  make of the empty database.\<close>

definition rel_holds :: "(bytes \<Rightarrow> 32 word) \<Rightarrow> rel_engine \<Rightarrow> rel_op list list \<Rightarrow> bool" where
  "rel_holds crc e txs \<longleftrightarrow> list_all tx_ok txs \<and> entries (le_values (re_backing e)) = tx_entries crc 1 txs \<and>
     rfold apply_ops om_empty txs = Inr (re_tables e) \<and> re_next_tx_id e = 1 + length txs \<and> 1 + length txs \<le> u64_max"

definition rel_invar :: "(bytes \<Rightarrow> 32 word) \<Rightarrow> rel_engine \<Rightarrow> bool" where
  "rel_invar crc e \<longleftrightarrow> log_invar crc (re_backing e) \<and> le_path_ownership (re_backing e) = OwnStandalone \<and>
     (\<exists>txs. rel_holds crc e txs)"

definition rel_room :: "nat \<Rightarrow> rel_engine \<Rightarrow> bool" where
  "rel_room n e \<longleftrightarrow> log_room n (re_backing e) \<and> re_next_tx_id e + n \<le> u64_max"

lemma rfold_tables_ok: "tables_ok tables \<Longrightarrow> rfold apply_ops tables txs = Inr tables' \<Longrightarrow> tables_ok tables'"
  by (induction txs arbitrary: tables) (auto simp: rbind_eq_Inr dest: apply_ops_types)

lemma rel_holds_tables: "rel_holds crc e txs \<Longrightarrow> tables_ok (re_tables e)"
  unfolding rel_holds_def using rfold_tables_ok [OF tables_ok_empty] by blast

lemma rel_invar_tables: "rel_invar crc e \<Longrightarrow> tables_ok (re_tables e)"
  unfolding rel_invar_def using rel_holds_tables by blast

text \<open>Opening a file that holds \<open>txs\<close>.\<close>

lemma rel_open_holds:
  assumes "log_from_file crc path OwnStandalone d False = (Inr b, le_disk b)" "log_invar crc b"
    and "\<not> is_canonical_generation_path path"
    and "entries (le_values b) = tx_entries crc 1 txs" "list_all tx_ok txs"
    and "rfold apply_ops om_empty txs = Inr tables" "1 + length txs \<le> u64_max"
  shows "rel_open crc path (Some d) False =
    (Inr \<lparr>re_backing = b, re_tables = tables, re_next_tx_id = 1 + length txs\<rparr>, Some (le_disk b))"
proof -
  obtain ms where ms: "log_holds crc b ms" using assms(2) by (auto simp: log_invar_def)
  have opened: "log_open crc path (Some d) False = (Inr b, Some (le_disk b))"
    using assms(1,3) by (simp add: log_open_def reject_standalone_generation_path_def
        log_open_with_ownership_def log_open_or_create_def)
  have "log_scan_file crc (le_disk b) = Inr \<lparr>sc_file_bytes = length (log_image crc ms), sc_valid_bytes = length (log_image crc ms),
         sc_record_count = length ms, sc_next_sequence = 1 + length ms,
         sc_recoverable_tail = None, sc_values = log_replay om_empty ms\<rparr>"
    using log_scan_image [of ms crc] ms by (auto simp: log_holds_def)
  then obtain ir where ir: "log_inspect crc (le_disk b) True = Inr ir" "ir_entries ir = map entry_of (tx_entries crc 1 txs)"
    using ms assms(4) by (simp add: log_inspect_def entry_of_def log_holds_def)
  show ?thesis
    using replay_entries [OF assms(6,5), of 1 crc] assms(7) by (simp add: rel_open_def opened ir)
qed


lemma rel_open_same:
  assumes "rel_invar crc e"
  shows "\<exists>e2. rel_open crc (le_path (re_backing e)) (Some (le_disk (re_backing e))) False =
      (Inr e2, Some (le_disk (re_backing e))) \<and> rel_invar crc e2 \<and>
    re_tables e2 = re_tables e \<and> re_next_tx_id e2 = re_next_tx_id e"
proof -
  let ?b = "re_backing e"
  obtain txs ms where e: "log_invar crc ?b" "le_path_ownership ?b = OwnStandalone" "rel_holds crc e txs"
    "log_holds crc ?b ms"
    using assms by (auto simp: rel_invar_def log_invar_def)
  then have path: "\<not> is_canonical_generation_path (le_path ?b)"
    by (simp add: log_invar_def log_path_ok_def)
  obtain b2 where b2: "log_from_file crc (le_path ?b) OwnStandalone (log_image crc ms) False = (Inr b2, log_image crc ms)"
    "le_path b2 = le_path ?b" "le_path_ownership b2 = OwnStandalone" "le_file_open b2" "\<not> le_poisoned b2"
    "log_holds crc b2 ms"
    using log_from_image [of ms crc "le_path ?b" OwnStandalone] e(4) by (auto simp: log_holds_def)
  then have same: "le_disk b2 = le_disk ?b" "le_values b2 = le_values ?b" "log_invar crc b2" "le_disk ?b = log_image crc ms"
    using e(1,2,4) by (auto simp: log_holds_def log_invar_def log_path_ok_def)
  have "rel_open crc (le_path ?b) (Some (le_disk ?b)) False =
      (Inr \<lparr>re_backing = b2, re_tables = re_tables e, re_next_tx_id = 1 + length txs\<rparr>, Some (le_disk b2))"
    using rel_open_holds [of crc "le_path ?b" "le_disk ?b" b2 txs "re_tables e"] b2 same path e(3)
    by (simp add: rel_holds_def)
  moreover have "rel_holds crc \<lparr>re_backing = b2, re_tables = re_tables e, re_next_tx_id = 1 + length txs\<rparr> txs"
    using e(3) same by (simp add: rel_holds_def)
  ultimately show ?thesis
    using same b2(3) e(3) by (auto simp: rel_invar_def rel_holds_def)
qed

text \<open>The put that makes a transaction durable, and the entries the file has after it.\<close>

lemma commit_entry:
  assumes "rel_holds crc e txs" "apply_ops (re_tables e) ops = Inr tables'" "list_all op_texts ops"
    and "ops \<noteq> []" "length ops \<le> MAX_OPS" "encode_transaction crc (re_next_tx_id e) ops = Inr bs"
    and "re_next_tx_id e + 1 \<le> u64_max"
  shows "validate_key_value (tx_key (re_next_tx_id e)) bs = Inr ()"
    and "entries (om_insert (tx_key (re_next_tx_id e)) bs (le_values (re_backing e))) = tx_entries crc 1 (txs @ [ops])"
    and "list_all tx_ok (txs @ [ops])" "rfold apply_ops om_empty (txs @ [ops]) = Inr tables'"
proof -
  note e = assms(1) [unfolded rel_holds_def]
  have len: "length bs \<le> MAX_VALUE_BYTES" by (rule encode_transaction_total(1) [OF assms(6,4)])
  then show "validate_key_value (tx_key (re_next_tx_id e)) bs = Inr ()"
    by (simp add: validate_key_value_Inr MAX_KEY_BYTES_def)
  have "tx_ok ops"
    using assms(4,5) encode_transaction_total(2) [OF assms(6,4)]
      apply_ops_good [OF rel_holds_tables [OF assms(1)] assms(2,3)] by (simp add: tx_ok_def)
  then show "list_all tx_ok (txs @ [ops])" using e by simp
  show "rfold apply_ops om_empty (txs @ [ops]) = Inr tables'"
    using e assms(2) by (simp add: rfold_append)
  have "\<forall>(a, b) \<in> set (tx_entries crc 1 txs). a < tx_key (re_next_tx_id e)"
  proof clarify
    fix a b assume "(a, b) \<in> set (tx_entries crc 1 txs)"
    from tx_entries_below [OF this] obtain j where "j < 1 + length txs" "a = tx_key j" by blast
    then show "a < tx_key (re_next_tx_id e)" using e by (auto intro!: tx_key_less)
  qed
  from al_insert_last [OF this] show
    "entries (om_insert (tx_key (re_next_tx_id e)) bs (le_values (re_backing e))) = tx_entries crc 1 (txs @ [ops])"
    using e assms(6) by (simp add: entries_insert tx_entries_append tx_bytes_def)
qed

text \<open>The transactions \<open>commit\<close> takes.\<close>

definition tx_acceptable :: "(bytes \<Rightarrow> 32 word) \<Rightarrow> rel_engine \<Rightarrow> rel_op list \<Rightarrow> bool" where
  "tx_acceptable crc e ops \<longleftrightarrow> ops \<noteq> [] \<and> length ops \<le> MAX_OPS \<and> is_ok (apply_ops (re_tables e) ops) \<and>
     is_ok (encode_transaction crc (re_next_tx_id e) ops)"

lemma rel_commit_rejects:
  "\<not> tx_acceptable crc e ops \<Longrightarrow> rel_commit crc fault e ops = (Inl InvalidInput, e)"
  by (auto simp: tx_acceptable_def rel_commit_def is_ok_iff Let_def dest: apply_ops_error encode_transaction_error
      split: sum.splits)

lemma rel_commit_result:
  assumes "re_next_tx_id e < u64_max" "rel_commit crc fault e ops = (r, e')"
  shows "case r of Inl err \<Rightarrow> re_tables e' = re_tables e \<and> re_next_tx_id e' = re_next_tx_id e
    | Inr tx_id \<Rightarrow> apply_ops (re_tables e) ops = Inr (re_tables e') \<and> tx_id = re_next_tx_id e \<and> re_next_tx_id e' = tx_id + 1"
proof -
  have "checked_add64 (re_next_tx_id e) 1 = Some (re_next_tx_id e + 1)"
    using assms(1) by (simp add: checked_add64_def)
  with assms(2) show ?thesis
    by (auto simp: rel_commit_def Let_def split: if_splits sum.splits prod.splits)
qed

lemma rel_commit_accepts:
  assumes "rel_invar crc e" "rel_room (Suc n) e" "list_all op_texts ops" "tx_acceptable crc e ops"
  shows "\<exists>e'. rel_commit crc None e ops = (Inr (re_next_tx_id e), e') \<and>
    apply_ops (re_tables e) ops = Inr (re_tables e') \<and> re_next_tx_id e' = re_next_tx_id e + 1 \<and>
    rel_invar crc e' \<and> rel_room n e' \<and> le_path (re_backing e') = le_path (re_backing e)"
proof -
  obtain tables' bs where ok: "ops \<noteq> []" "length ops \<le> MAX_OPS" "apply_ops (re_tables e) ops = Inr tables'"
    "encode_transaction crc (re_next_tx_id e) ops = Inr bs"
    using assms(4) by (auto simp: tx_acceptable_def is_ok_iff)
  obtain txs where e: "log_invar crc (re_backing e)" "le_path_ownership (re_backing e) = OwnStandalone" "rel_holds crc e txs"
    using assms(1) by (auto simp: rel_invar_def)
  have room: "log_room (Suc n) (re_backing e)" "re_next_tx_id e + 1 \<le> u64_max"
    using assms(2) by (simp_all add: rel_room_def)
  note entry = commit_entry [OF e(3) ok(3) assms(3) ok(1,2,4) room(2)]
  obtain b where b: "log_put crc None (re_backing e) (tx_key (re_next_tx_id e)) bs =
      (Inr (om_lookup (le_values (re_backing e)) (tx_key (re_next_tx_id e))), b)"
    "log_invar crc b" "log_room n b" "le_values b = om_insert (tx_key (re_next_tx_id e)) bs (le_values (re_backing e))"
    using log_put_ok [OF e(1) room(1) entry(1)] by blast
  have path: "le_path b = le_path (re_backing e)" "le_path_ownership b = OwnStandalone"
    using log_put_path [OF e(1) room(1) entry(1)] b(1) e(2) by simp_all
  let ?e = "\<lparr>re_backing = b, re_tables = tables', re_next_tx_id = re_next_tx_id e + 1\<rparr>"
  have "rel_commit crc None e ops = (Inr (re_next_tx_id e), ?e)"
    using ok b(1) room(2) by (simp add: rel_commit_def not_less Let_def checked_add64_def)
  moreover have "rel_holds crc ?e (txs @ [ops])"
    using entry e(3) b(4) room(2) by (simp add: rel_holds_def)
  ultimately show ?thesis
    using ok(3) b path assms(2) by (auto simp: rel_invar_def rel_room_def)
qed

lemma rel_commit_faulted:
  assumes "rel_invar crc e" "rel_room 1 e" "list_all op_texts ops" "tx_acceptable crc e ops"
    and "apply_ops (re_tables e) ops = Inr tables'"
  shows "\<exists>d e2. rel_commit crc (Some (n, err)) e ops =
      (Inl (Io err), e\<lparr>re_backing := (re_backing e)\<lparr>le_poisoned := True, le_disk := d\<rparr>\<rparr>) \<and>
    rel_open crc (le_path (re_backing e)) (Some d) False = (Inr e2, Some (le_disk (re_backing e2))) \<and> rel_invar crc e2 \<and>
    (re_tables e2, re_next_tx_id e2) =
      (if 55 + length (tx_bytes crc (re_next_tx_id e) ops) \<le> n then (tables', re_next_tx_id e + 1)
       else (re_tables e, re_next_tx_id e))"
proof -
  obtain bs where ok: "ops \<noteq> []" "length ops \<le> MAX_OPS" "encode_transaction crc (re_next_tx_id e) ops = Inr bs"
    using assms(4) by (auto simp: tx_acceptable_def is_ok_iff)
  obtain txs where e: "log_invar crc (re_backing e)" "le_path_ownership (re_backing e) = OwnStandalone" "rel_holds crc e txs"
    using assms(1) by (auto simp: rel_invar_def)
  have room: "log_room 1 (re_backing e)" "re_next_tx_id e + 1 \<le> u64_max"
    using assms(2) by (simp_all add: rel_room_def)
  have path: "\<not> is_canonical_generation_path (le_path (re_backing e))"
    using e(1,2) by (simp add: log_invar_def log_path_ok_def)
  note entry = commit_entry [OF e(3) assms(5,3) ok room(2)]
  let ?whole = "55 + length bs \<le> n"
  obtain d b where d: "log_put crc (Some (n, err)) (re_backing e) (tx_key (re_next_tx_id e)) bs =
      (Inl (Io err), (re_backing e)\<lparr>le_poisoned := True, le_disk := d\<rparr>)"
    and b: "log_from_file crc (le_path (re_backing e)) OwnStandalone d False = (Inr b, le_disk b)" "log_invar crc b"
      "le_path_ownership b = OwnStandalone"
      "le_values b = (if ?whole then om_insert (tx_key (re_next_tx_id e)) bs (le_values (re_backing e))
         else le_values (re_backing e))"
    using log_put_faulted [OF e(1) room(1) entry(1), of n err] e(2) by auto
  have put: "rel_commit crc (Some (n, err)) e ops =
      (Inl (Io err), e\<lparr>re_backing := (re_backing e)\<lparr>le_poisoned := True, le_disk := d\<rparr>\<rparr>)"
    using ok assms(5) d by (simp add: rel_commit_def not_less Let_def)
  define txs2 where "txs2 = (if ?whole then txs @ [ops] else txs)"
  define tables2 where "tables2 = (if ?whole then tables' else re_tables e)"
  define e2 where "e2 = \<lparr>re_backing = b, re_tables = tables2, re_next_tx_id = 1 + length txs2\<rparr>"
  have holds: "rel_holds crc e2 txs2"
    using e(3) entry b(4) room(2) by (simp add: e2_def txs2_def tables2_def rel_holds_def)
  then have "rel_open crc (le_path (re_backing e)) (Some d) False = (Inr e2, Some (le_disk b))"
    using rel_open_holds [OF b(1,2) path, of txs2 tables2] by (simp add: rel_holds_def e2_def)
  moreover have "rel_invar crc e2"
    using holds b by (auto simp: rel_invar_def e2_def)
  moreover have "(re_tables e2, re_next_tx_id e2) =
      (if 55 + length (tx_bytes crc (re_next_tx_id e) ops) \<le> n then (tables', re_next_tx_id e + 1)
       else (re_tables e, re_next_tx_id e))"
    using ok(3) e(3) by (simp add: e2_def txs2_def tables2_def tx_bytes_def rel_holds_def)
  ultimately show ?thesis using put by (auto simp: e2_def)
qed


fun has_type :: "cell \<Rightarrow> column_type \<Rightarrow> bool" where
  "has_type (CInt64 _) CtInt64 \<longleftrightarrow> True"
| "has_type (CText v) CtText \<longleftrightarrow> length v \<le> MAX_VALUE_BYTES"
| "has_type _ _ \<longleftrightarrow> False"

lemma validate_cell_type_iff: "validate_cell_type c ty = Inr u \<longleftrightarrow> has_type c ty"
  by (cases c; cases ty) (auto simp: validate_cell_type_def ensure_def)

lemma validate_cells_iff: "rfold (\<lambda>_ (c, column). validate_cell_type c (col_ty column)) () xs = Inr u \<longleftrightarrow>
    (\<forall>(c, column) \<in> set xs. has_type c (col_ty column))"
  by (induction xs) (auto simp: rbind_eq_Inr validate_cell_type_iff)

lemma validate_row_iff: "validate_row schema row = Inr u \<longleftrightarrow>
    list_all2 (\<lambda>c column. has_type c (col_ty column)) row (sm_columns schema)"
  by (auto simp: validate_row_def validate_cells_iff list_all2_iff)


subsection \<open>Fresh databases\<close>

definition fresh_rel :: "(bytes \<Rightarrow> 32 word) \<Rightarrow> bytes option \<Rightarrow> rel_engine" where
  "fresh_rel crc path = \<lparr>re_backing = fresh_log crc path OwnStandalone, re_tables = om_empty, re_next_tx_id = 1\<rparr>"

lemma rel_invar_fresh: "\<not> is_canonical_generation_path path \<Longrightarrow> rel_invar crc (fresh_rel crc path)"
  unfolding rel_invar_def
  by (intro conjI exI [of _ "[]"])
    (simp_all add: fresh_rel_def log_invar_fresh rel_holds_def u64_max_def, simp_all add: fresh_log_def)

lemma rel_room_fresh: "n \<le> MAX_WORKLOAD_STEPS \<Longrightarrow> rel_room n (fresh_rel crc path)"
  using log_room_fresh [of n crc path OwnStandalone]
  by (simp add: rel_room_def fresh_rel_def MAX_WORKLOAD_STEPS_def u64_max_def)

lemma rel_open_fresh:
  "\<not> is_canonical_generation_path path \<Longrightarrow>
     rel_open crc path None symlink = (Inr (fresh_rel crc path), Some (encode_log_header crc))"
  using log_scan_image [of "[]" crc]
  by (simp add: rel_open_def log_open_def reject_standalone_generation_path_def log_open_with_ownership_def
      log_open_or_create_def log_from_created fresh_rel_def log_inspect_def log_image_Nil u64_max_def)
    (simp add: fresh_log_def log_inspect_def log_image_Nil)

text \<open>A sample transaction: a table of texts by number, with one row.\<close>

definition sample_schema :: schema where
  "sample_schema = \<lparr>sm_columns = [\<lparr>col_name = ascii ''id'', col_ty = CtInt64\<rparr>, \<lparr>col_name = ascii ''v'', col_ty = CtText\<rparr>],
     sm_primary_key = 0\<rparr>"

definition sample_ops :: "rel_op list" where
  "sample_ops = [CreateTable (ascii ''t'') sample_schema, UpsertRow (ascii ''t'') [CInt64 7, CText (ascii ''x'')]]"

definition sample_tables :: rel_tables where
  "sample_tables = om_insert (ascii ''t'') \<lparr>ts_schema = sample_schema,
     ts_rows = om_insert (CInt64 7) [CInt64 7, CText (ascii ''x'')] om_empty\<rparr> om_empty"

lemma sample_apply: "apply_ops om_empty sample_ops = Inr sample_tables"
proof -
  have names: "validate_name (ascii ''t'') = Inr ()" "validate_name (ascii ''id'') = Inr ()" "validate_name (ascii ''v'') = Inr ()"
    by (simp_all add: validate_name_def ascii_def ascii_alphanumeric_def MAX_NAME_BYTES_def)
  have schema: "validate_schema sample_schema = Inr ()"
    using names by (simp add: validate_schema_def sample_schema_def MAX_COLUMNS_def) (simp add: ascii_def)
  have row: "validate_row sample_schema [CInt64 7, CText (ascii ''x'')] = Inr ()"
    by (simp add: validate_row_iff sample_schema_def MAX_VALUE_BYTES_def)
  show ?thesis
    by (simp add: apply_ops_def sample_ops_def sample_tables_def names schema row)
      (auto simp: sample_schema_def intro!: ordmap_eqI)
qed

lemma sample_encodes: "\<exists>bs. encode_transaction crc i sample_ops = Inr bs \<and> length bs \<le> 100"
  by (simp add: encode_transaction_iff sample_ops_def sample_schema_def rbind_eq_Inr encode_column_def put_string_def
      put_u16_def try_u16_def Let_def rel_consts MAX_VALUE_BYTES_def del: le_bytes.simps)

lemma sample_texts: "list_all op_texts sample_ops" "list_all good_op sample_ops" "sample_ops \<noteq> []" "length sample_ops \<le> MAX_OPS"
  by (simp_all add: sample_ops_def sample_schema_def good_column_def MAX_COLUMNS_def MAX_OPS_def ascii_def)



subsection \<open>Properties\<close>

text \<open>C18 (rel_codec): the transaction decoder accepts exactly what the encoder writes.  Bytes of at
  most the value limit decode, under an id, to a list of operations if and only if encoding those
  operations under that id gives those bytes, and the operations are what a transaction may hold:
  one to 1024 of them, their texts UTF-8, their tables and rows of 1 to 64 columns.  So the format
  is lossless and has one encoding per transaction, and no other bytes are accepted.\<close>

theorem relational_codec_exact:
  assumes "length bs \<le> MAX_VALUE_BYTES" "tx_id \<le> u64_max"
  shows "decode_transaction crc bs tx_id = Inr ops \<longleftrightarrow>
    encode_transaction crc tx_id ops = Inr bs \<and> ops \<noteq> [] \<and> length ops \<le> MAX_OPS \<and> list_all good_op ops"
proof -
  have "length bs \<le> u64_max" using assms(1) by (simp add: MAX_VALUE_BYTES_def u64_max_def)
  note dec = decode_transaction_iff [OF this, of crc tx_id ops]
  have "length (tx_header tx_id (length ops) @ xs) + REL_TRAILER_LEN \<le> MAX_VALUE_BYTES"
    if "bs = (tx_header tx_id (length ops) @ xs) @ crc_field (crc (tx_header tx_id (length ops) @ xs))" for xs
    using assms(1) unfolding that by (simp add: REL_TRAILER_LEN_def)
  moreover have "length ops \<le> 4294967295" if "length ops \<le> MAX_OPS"
    using that by (simp add: MAX_OPS_def)
  ultimately show ?thesis
    unfolding dec encode_transaction_iff Let_def using assms(2) by blast
qed

lemma relational_codec_exact_witness:
  "\<exists>bs. encode_transaction (\<lambda>_. 0) 1 sample_ops = Inr bs \<and> decode_transaction (\<lambda>_. 0) bs 1 = Inr sample_ops"
proof -
  obtain bs where bs: "encode_transaction (\<lambda>_. 0) 1 sample_ops = Inr bs" "length bs \<le> 100"
    using sample_encodes by blast
  then have "length bs \<le> MAX_VALUE_BYTES" "1 \<le> u64_max" by (simp_all add: MAX_VALUE_BYTES_def u64_max_def)
  from relational_codec_exact [OF this, of "\<lambda>_. 0" sample_ops] bs(1) sample_texts show ?thesis by blast
qed

text \<open>C32 (rel_type): applying operations to well-typed tables, when it succeeds, gives well-typed
  tables: valid names and schemas, every row of its table's columns' number and types and stored
  under its own primary key.  No table disappears and no schema changes.\<close>

theorem apply_ops_well_typed:
  assumes "tables_ok tables" "apply_ops tables ops = Inr tables'"
  shows "tables_ok tables' \<and>
    (\<forall>name state key row. om_lookup tables' name = Some state \<and> om_lookup (ts_rows state) key = Some row \<longrightarrow>
       list_all2 (\<lambda>c column. has_type c (col_ty column)) row (sm_columns (ts_schema state)) \<and>
       row ! sm_primary_key (ts_schema state) = key) \<and>
    (\<forall>name state. om_lookup tables name = Some state \<longrightarrow>
       (\<exists>state'. om_lookup tables' name = Some state' \<and> ts_schema state' = ts_schema state))"
  using apply_ops_types [OF assms] by (auto simp: tables_ok_iff table_ok_iff validate_row_iff)

lemma apply_ops_well_typed_witness: "tables_ok sample_tables"
  using apply_ops_well_typed [OF tables_ok_empty sample_apply] by simp

text \<open>C6 (rel_commit): a commit whose writes succeed either rejects the transaction with
  \<open>InvalidInput\<close> and changes nothing, exactly when it is empty, too long, cannot be applied or
  cannot be encoded, or applies all of its operations, numbers it and keeps the invariant.  Either
  way opening the file again gives an engine with the same tables and the same next id.\<close>

theorem rel_commit_durable:
  assumes "rel_invar crc e" "rel_room (Suc n) e" "list_all op_texts ops"
  shows "\<exists>r e' e2. rel_commit crc None e ops = (r, e') \<and>
    (case r of
       Inl err \<Rightarrow> err = InvalidInput \<and> e' = e \<and> \<not> tx_acceptable crc e ops
     | Inr tx_id \<Rightarrow> tx_acceptable crc e ops \<and> tx_id = re_next_tx_id e \<and> re_next_tx_id e' = tx_id + 1 \<and>
         apply_ops (re_tables e) ops = Inr (re_tables e') \<and> rel_room n e') \<and>
    rel_invar crc e' \<and>
    rel_open crc (le_path (re_backing e')) (Some (le_disk (re_backing e'))) False =
      (Inr e2, Some (le_disk (re_backing e'))) \<and>
    re_tables e2 = re_tables e' \<and> re_next_tx_id e2 = re_next_tx_id e' \<and> rel_invar crc e2"
proof (cases "tx_acceptable crc e ops")
  case True
  from rel_commit_accepts [OF assms True] obtain e' where e': "rel_commit crc None e ops = (Inr (re_next_tx_id e), e')"
    "apply_ops (re_tables e) ops = Inr (re_tables e')" "re_next_tx_id e' = re_next_tx_id e + 1" "rel_invar crc e'" "rel_room n e'"
    by blast
  from rel_open_same [OF e'(4)] e' True show ?thesis by fastforce
next
  case False
  from rel_open_same [OF assms(1)] rel_commit_rejects [OF False, of None] False assms(1) show ?thesis by fastforce
qed

lemma sample_acceptable: "tx_acceptable crc (fresh_rel crc None) sample_ops"
  using sample_texts sample_apply sample_encodes [of crc 1]
  by (auto simp: tx_acceptable_def fresh_rel_def)

lemma rel_commit_durable_witness:
  "\<exists>e' e2. rel_commit (\<lambda>_. 0) None (fresh_rel (\<lambda>_. 0) None) sample_ops = (Inr 1, e') \<and>
    re_tables e' = sample_tables \<and>
    rel_open (\<lambda>_. 0) (le_path (re_backing e')) (Some (le_disk (re_backing e'))) False =
      (Inr e2, Some (le_disk (re_backing e'))) \<and> re_tables e2 = sample_tables"
proof -
  have "rel_invar (\<lambda>_. 0) (fresh_rel (\<lambda>_. 0) None)" "rel_room (Suc 0) (fresh_rel (\<lambda>_. 0) None)"
    by (simp_all add: rel_invar_fresh rel_room_fresh MAX_WORKLOAD_STEPS_def)
  from rel_commit_durable [OF this sample_texts(1)] sample_acceptable [of "\<lambda>_. 0"] sample_apply show ?thesis
    by (fastforce simp: fresh_rel_def split: sum.splits)
qed

text \<open>C12 (rel_crash): a commit whose write or sync fails after any number of its bytes reached the
  file reports that I/O error and leaves the tables and the next id in memory as they were.
  Opening the file again succeeds, and the database is the one before the transaction, or, when
  all the transaction's bytes reached the file, the one after it; never a part of it.\<close>

theorem rel_commit_crash_atomic:
  assumes "rel_invar crc e" "rel_room 1 e" "list_all op_texts ops" "tx_acceptable crc e ops"
    and "apply_ops (re_tables e) ops = Inr tables'"
  shows "\<exists>e' e2 f. rel_commit crc (Some (n, err)) e ops = (Inl (Io err), e') \<and>
    re_tables e' = re_tables e \<and> re_next_tx_id e' = re_next_tx_id e \<and>
    rel_open crc (le_path (re_backing e)) (Some (le_disk (re_backing e'))) False = (Inr e2, Some f) \<and> rel_invar crc e2 \<and>
    (re_tables e2, re_next_tx_id e2) =
      (if 55 + length (tx_bytes crc (re_next_tx_id e) ops) \<le> n then (tables', re_next_tx_id e + 1)
       else (re_tables e, re_next_tx_id e))"
  using rel_commit_faulted [OF assms, of n err] by fastforce

lemma rel_commit_crash_atomic_witness:
  "\<exists>e2 f. rel_open (\<lambda>_. 0) None
      (Some (le_disk (re_backing (snd (rel_commit (\<lambda>_. 0) (Some (40, OtherIo)) (fresh_rel (\<lambda>_. 0) None) sample_ops)))))
      False = (Inr e2, Some f) \<and> re_tables e2 = om_empty \<and> re_next_tx_id e2 = 1"
proof -
  have "rel_invar (\<lambda>_. 0) (fresh_rel (\<lambda>_. 0) None)" "rel_room 1 (fresh_rel (\<lambda>_. 0) None)"
    by (simp_all add: rel_invar_fresh rel_room_fresh MAX_WORKLOAD_STEPS_def)
  moreover have "apply_ops (re_tables (fresh_rel (\<lambda>_. 0) None)) sample_ops = Inr sample_tables"
    using sample_apply by (simp add: fresh_rel_def)
  ultimately show ?thesis
    using rel_commit_crash_atomic [of "\<lambda>_. 0" "fresh_rel (\<lambda>_. 0) None" sample_ops sample_tables 40 OtherIo]
      sample_texts(1) sample_acceptable [of "\<lambda>_. 0"]
    by (fastforce simp: fresh_rel_def fresh_log_def)
qed

end
