(* ===== verification/RelQuery.thy ===== *)
theory RelQuery
  imports Relational "HOL-Library.Product_Lexorder"
begin

text \<open>
  Queries over the relational layer: the scans of \<open>crates/db-storage-log/src/query.rs\<close>, the
  borrowed secondary index and its executor (\<open>index.rs\<close>, \<open>indexed_query.rs\<close>), the engine that
  maintains indexes across commits (\<open>maintained_index.rs\<close>), and disjunctions
  (\<open>disjunctive_query.rs\<close>).  An iterator pipeline is the list function of the same name;
  \<open>sort_by\<close> on a key is the stable \<open>sort_key\<close>.
\<close>

subsection \<open>Queries\<close>

datatype compare_op = CmpEq | CmpLt | CmpLe | CmpGt | CmpGe

record predicate =
  pd_column :: bytes
  pd_op :: compare_op
  pd_value :: cell

datatype projection = ProjAll | ProjColumns "bytes list"

record rel_query =
  qy_table :: bytes
  qy_predicate :: "predicate option"
  qy_projection :: projection

text \<open>\<open>ConjunctiveQuery\<close> and \<open>DisjunctiveQuery\<close> have the same fields.\<close>

record multi_query =
  mq_table :: bytes
  mq_predicates :: "predicate list"
  mq_projection :: projection

record query_result =
  qr_columns :: "bytes list"
  qr_rows :: "cell list list"

type_synonym resolved_predicate = "nat \<times> predicate"

primrec position :: "('a \<Rightarrow> bool) \<Rightarrow> 'a list \<Rightarrow> nat option" where
  "position P [] = None"
| "position P (x # xs) = (if P x then Some 0 else map_option Suc (position P xs))"

definition column_index :: "schema \<Rightarrow> bytes \<Rightarrow> nat result" where
  "column_index schema name = ok_or (position (\<lambda>column. col_name column = name) (sm_columns schema)) InvalidInput"

definition validate_literal_type :: "cell \<Rightarrow> column_type \<Rightarrow> unit result" where
  "validate_literal_type val ty =
     (case (val, ty) of
        (CInt64 _, CtInt64) \<Rightarrow> Inr ()
      | (CText _, CtText) \<Rightarrow> Inr ()
      | _ \<Rightarrow> Inl InvalidInput)"

definition resolve_predicate :: "schema \<Rightarrow> predicate \<Rightarrow> resolved_predicate result" where
  "resolve_predicate schema predicate =
     rbind (column_index schema (pd_column predicate)) (\<lambda>index.
     rbind (validate_literal_type (pd_value predicate) (col_ty (sm_columns schema ! index))) (\<lambda>_.
     Inr (index, predicate)))"

text \<open>The closure under \<open>map\<close> in \<open>resolve_projection\<close>: \<open>locate\<close> gives the index of a name.\<close>

fun resolve_names :: "(bytes \<Rightarrow> nat result) \<Rightarrow> bytes set \<Rightarrow> bytes list \<Rightarrow> nat list result" where
  "resolve_names locate seen [] = Inr []"
| "resolve_names locate seen (name # names) =
     (if name \<in> seen then Inl InvalidInput
      else rbind (locate name) (\<lambda>index.
           rbind (resolve_names locate (insert name seen) names) (\<lambda>rest. Inr (index # rest))))"

definition resolve_projection :: "schema \<Rightarrow> projection \<Rightarrow> nat list result" where
  "resolve_projection schema projection =
     (case projection of
        ProjAll \<Rightarrow> Inr [0..<length (sm_columns schema)]
      | ProjColumns columns \<Rightarrow>
          if columns = [] then Inl InvalidInput else resolve_names (column_index schema) {} columns)"

definition matches_predicate :: "cell \<Rightarrow> predicate \<Rightarrow> bool" where
  "matches_predicate val predicate =
     (case pd_op predicate of
        CmpEq \<Rightarrow> val = pd_value predicate
      | CmpLt \<Rightarrow> val < pd_value predicate
      | CmpLe \<Rightarrow> val \<le> pd_value predicate
      | CmpGt \<Rightarrow> val > pd_value predicate
      | CmpGe \<Rightarrow> val \<ge> pd_value predicate)"

definition project_row :: "cell list \<Rightarrow> nat list \<Rightarrow> cell list" where
  "project_row row projection = map (\<lambda>index. row ! index) projection"

definition projected_columns :: "schema \<Rightarrow> nat list \<Rightarrow> bytes list" where
  "projected_columns schema projection = map (\<lambda>index. col_name (sm_columns schema ! index)) projection"

definition query_execute :: "rel_engine \<Rightarrow> rel_query \<Rightarrow> query_result result" where
  "query_execute e query =
     rbind (rel_schema e (qy_table query)) (\<lambda>schema.
     rbind (resolve_projection schema (qy_projection query)) (\<lambda>projection.
     rbind (case qy_predicate query of None \<Rightarrow> Inr None
            | Some predicate \<Rightarrow> rmap Some (resolve_predicate schema predicate)) (\<lambda>predicate.
     rbind (rel_rows e (qy_table query)) (\<lambda>rows.
     Inr \<lparr>qr_columns = projected_columns schema projection,
          qr_rows = map (\<lambda>(_, row). project_row row projection)
            (filter (\<lambda>(_, row). case predicate of None \<Rightarrow> True
               | Some (index, p) \<Rightarrow> matches_predicate (row ! index) p) rows)\<rparr>))))"

definition prepare_conjunctive ::
    "schema \<Rightarrow> predicate list \<Rightarrow> projection \<Rightarrow> (nat list \<times> resolved_predicate list) result" where
  "prepare_conjunctive schema predicates projection =
     (if predicates = [] then Inl InvalidInput
      else rbind (resolve_projection schema projection) (\<lambda>projection.
           rbind (rmapM (resolve_predicate schema) predicates) (\<lambda>predicates.
           Inr (projection, predicates))))"

definition execute_conjunctive :: "rel_engine \<Rightarrow> multi_query \<Rightarrow> query_result result" where
  "execute_conjunctive e query =
     rbind (rel_schema e (mq_table query)) (\<lambda>schema.
     rbind (prepare_conjunctive schema (mq_predicates query) (mq_projection query)) (\<lambda>(projection, predicates).
     rbind (rel_rows e (mq_table query)) (\<lambda>rows.
     Inr \<lparr>qr_columns = projected_columns schema projection,
          qr_rows = map (\<lambda>(_, row). project_row row projection)
            (filter (\<lambda>(_, row). list_all (\<lambda>(index, p). matches_predicate (row ! index) p) predicates) rows)\<rparr>)))"


subsection \<open>Secondary indexes\<close>

datatype index_key_type = IkInt64 | IkText

fun index_key_type_of :: "column_type \<Rightarrow> index_key_type" where
  "index_key_type_of CtInt64 = IkInt64"
| "index_key_type_of CtText = IkText"

fun index_accepts :: "index_key_type \<Rightarrow> cell \<Rightarrow> bool" where
  "index_accepts IkInt64 (CInt64 _) \<longleftrightarrow> True"
| "index_accepts IkText (CText _) \<longleftrightarrow> True"
| "index_accepts _ _ \<longleftrightarrow> False"

text \<open>The index borrows the engine it was built from, so that engine is part of it.\<close>

record secondary_index =
  si_engine :: rel_engine
  si_table :: bytes
  si_column :: bytes
  si_key_type :: index_key_type
  si_primary_key :: nat
  si_columns :: "bytes list"
  si_entries :: "(cell, cell list list) ordmap"

text \<open>The loop \<open>entries.entry(row[column_index]).or_default().push(row)\<close>.\<close>

definition push_row :: "nat \<Rightarrow> (cell, cell list list) ordmap \<Rightarrow> cell list \<Rightarrow> (cell, cell list list) ordmap" where
  "push_row column m row =
     om_insert (row ! column)
       ((case om_lookup m (row ! column) of None \<Rightarrow> [] | Some rows \<Rightarrow> rows) @ [row]) m"

definition index_rows :: "nat \<Rightarrow> (cell \<times> cell list) list \<Rightarrow> (cell, cell list list) ordmap" where
  "index_rows column rows = foldl (\<lambda>m (_, row). push_row column m row) om_empty rows"

definition secondary_build :: "rel_engine \<Rightarrow> bytes \<Rightarrow> bytes \<Rightarrow> secondary_index result" where
  "secondary_build e table column =
     rbind (rel_schema e table) (\<lambda>schema.
     rbind (ok_or (position (\<lambda>candidate. col_name candidate = column) (sm_columns schema)) InvalidInput) (\<lambda>index.
     rbind (rel_rows e table) (\<lambda>rows.
     Inr \<lparr>si_engine = e, si_table = table, si_column = column,
          si_key_type = index_key_type_of (col_ty (sm_columns schema ! index)),
          si_primary_key = sm_primary_key schema, si_columns = map col_name (sm_columns schema),
          si_entries = index_rows index rows\<rparr>)))"

definition index_resolve_projection :: "bytes list \<Rightarrow> projection \<Rightarrow> nat list result" where
  "index_resolve_projection columns projection =
     (case projection of
        ProjAll \<Rightarrow> Inr [0..<length columns]
      | ProjColumns names \<Rightarrow>
          if names = [] then Inl InvalidInput
          else resolve_names (\<lambda>name. ok_or (position (\<lambda>candidate. candidate = name) columns) InvalidInput) {} names)"

definition compare_matches :: "compare_op \<Rightarrow> cell \<Rightarrow> cell \<Rightarrow> bool" where
  "compare_matches op key val =
     (case op of CmpEq \<Rightarrow> key = val | CmpLt \<Rightarrow> key < val | CmpLe \<Rightarrow> key \<le> val | CmpGt \<Rightarrow> key > val | CmpGe \<Rightarrow> key \<ge> val)"

definition entries_matching :: "nat \<Rightarrow> (cell, cell list list) ordmap \<Rightarrow> compare_op \<Rightarrow> cell \<Rightarrow> cell list list" where
  "entries_matching primary_key index op val =
     sort_key (\<lambda>row. row ! primary_key)
       (concat (map snd (filter (\<lambda>(key, _). compare_matches op key val) (entries index))))"

definition secondary_execute_compare ::
    "secondary_index \<Rightarrow> compare_op \<Rightarrow> cell \<Rightarrow> projection \<Rightarrow> query_result result" where
  "secondary_execute_compare ix op val projection =
     (if \<not> index_accepts (si_key_type ix) val then Inl InvalidInput
      else rbind (index_resolve_projection (si_columns ix) projection) (\<lambda>projection.
           Inr \<lparr>qr_columns = map (\<lambda>index. si_columns ix ! index) projection,
                qr_rows = map (\<lambda>row. map (\<lambda>index. row ! index) projection)
                  (entries_matching (si_primary_key ix) (si_entries ix) op val)\<rparr>))"

definition secondary_execute_eq :: "secondary_index \<Rightarrow> cell \<Rightarrow> projection \<Rightarrow> query_result result" where
  "secondary_execute_eq ix val projection = secondary_execute_compare ix CmpEq val projection"


subsection \<open>The executor with one index\<close>

record indexed_executor =
  iq_engine :: rel_engine
  iq_index :: secondary_index

definition executor_build :: "rel_engine \<Rightarrow> bytes \<Rightarrow> bytes \<Rightarrow> indexed_executor result" where
  "executor_build e table column =
     rbind (secondary_build e table column) (\<lambda>ix. Inr \<lparr>iq_engine = e, iq_index = ix\<rparr>)"

definition executor_execute :: "indexed_executor \<Rightarrow> rel_query \<Rightarrow> query_result result" where
  "executor_execute x query =
     (case qy_predicate query of
        Some predicate \<Rightarrow>
          if qy_table query = si_table (iq_index x) \<and> pd_column predicate = si_column (iq_index x)
          then secondary_execute_compare (iq_index x) (pd_op predicate) (pd_value predicate) (qy_projection query)
          else query_execute (iq_engine x) query
      | None \<Rightarrow> query_execute (iq_engine x) query)"


subsection \<open>Maintained indexes\<close>

type_synonym index_spec = "bytes \<times> bytes"

record materialized_index =
  mi_key_type :: column_type
  mi_primary_key :: nat
  mi_columns :: "bytes list"
  mi_entries :: "(cell, cell list list) ordmap"

definition materialized_build :: "rel_engine \<Rightarrow> index_spec \<Rightarrow> materialized_index result" where
  "materialized_build e spec =
     rbind (rel_schema e (fst spec)) (\<lambda>schema.
     rbind (ok_or (position (\<lambda>candidate. col_name candidate = snd spec) (sm_columns schema)) InvalidInput) (\<lambda>index.
     rbind (rel_rows e (fst spec)) (\<lambda>rows.
     Inr \<lparr>mi_key_type = col_ty (sm_columns schema ! index), mi_primary_key = sm_primary_key schema,
          mi_columns = map col_name (sm_columns schema), mi_entries = index_rows index rows\<rparr>)))"

definition matching_rows :: "materialized_index \<Rightarrow> compare_op \<Rightarrow> cell \<Rightarrow> cell list list result" where
  "matching_rows ix op val =
     (if (case (mi_key_type ix, val) of (CtInt64, CInt64 _) \<Rightarrow> True | (CtText, CText _) \<Rightarrow> True | _ \<Rightarrow> False)
      then Inr (entries_matching (mi_primary_key ix) (mi_entries ix) op val)
      else Inl InvalidInput)"

definition materialized_execute_compare ::
    "materialized_index \<Rightarrow> compare_op \<Rightarrow> cell \<Rightarrow> projection \<Rightarrow> query_result result" where
  "materialized_execute_compare ix op val projection =
     rbind (index_resolve_projection (mi_columns ix) projection) (\<lambda>projection.
     rbind (matching_rows ix op val) (\<lambda>rows.
     Inr \<lparr>qr_columns = map (\<lambda>index. mi_columns ix ! index) projection,
          qr_rows = map (\<lambda>row. project_row row projection) rows\<rparr>))"

record maintained_engine =
  mx_engine :: rel_engine
  mx_indexes :: "(index_spec, materialized_index) ordmap"

definition mx_open :: "(bytes \<Rightarrow> 32 word) \<Rightarrow> bytes option \<Rightarrow> bytes option \<Rightarrow> bool \<Rightarrow> maintained_engine result \<times> bytes option" where
  "mx_open crc path existing is_symlink =
     (case rel_open crc path existing is_symlink of
        (r, f) \<Rightarrow> (rbind r (\<lambda>e. Inr \<lparr>mx_engine = e, mx_indexes = om_empty\<rparr>), f))"

definition mx_register_index :: "maintained_engine \<Rightarrow> bytes \<Rightarrow> bytes \<Rightarrow> unit result \<times> maintained_engine" where
  "mx_register_index m table column =
     (if om_lookup (mx_indexes m) (table, column) \<noteq> None then (Inl InvalidInput, m)
      else case materialized_build (mx_engine m) (table, column) of
        Inl err \<Rightarrow> (Inl err, m)
      | Inr index \<Rightarrow> (Inr (), m\<lparr>mx_indexes := om_insert (table, column) index (mx_indexes m)\<rparr>))"

definition mx_rebuild_indexes :: "maintained_engine \<Rightarrow> unit result \<times> maintained_engine" where
  "mx_rebuild_indexes m =
     (case rfold (\<lambda>rebuilt spec.
              rbind (materialized_build (mx_engine m) spec) (\<lambda>index. Inr (om_insert spec index rebuilt)))
            om_empty (om_keys (mx_indexes m)) of
        Inl err \<Rightarrow> (Inl err, m)
      | Inr rebuilt \<Rightarrow> (Inr (), m\<lparr>mx_indexes := rebuilt\<rparr>))"

definition mx_commit ::
    "(bytes \<Rightarrow> 32 word) \<Rightarrow> io_fault \<Rightarrow> maintained_engine \<Rightarrow> rel_op list \<Rightarrow> nat result \<times> maintained_engine" where
  "mx_commit crc fault m ops =
     (case rel_commit crc fault (mx_engine m) ops of
        (Inl err, e) \<Rightarrow> (Inl err, m\<lparr>mx_engine := e\<rparr>)
      | (Inr tx_id, e) \<Rightarrow>
          (case mx_rebuild_indexes (m\<lparr>mx_engine := e\<rparr>) of
             (Inl err, m') \<Rightarrow> (Inl err, m')
           | (Inr _, m') \<Rightarrow> (Inr tx_id, m')))"

definition mx_execute :: "maintained_engine \<Rightarrow> rel_query \<Rightarrow> query_result result" where
  "mx_execute m query =
     (case qy_predicate query of
        None \<Rightarrow> query_execute (mx_engine m) query
      | Some predicate \<Rightarrow>
          (case om_lookup (mx_indexes m) (qy_table query, pd_column predicate) of
             Some index \<Rightarrow> materialized_execute_compare index (pd_op predicate) (pd_value predicate) (qy_projection query)
           | None \<Rightarrow> query_execute (mx_engine m) query))"

fun first_index :: "('a \<Rightarrow> 'b option) \<Rightarrow> 'a list \<Rightarrow> 'b option" where
  "first_index f [] = None"
| "first_index f (x # xs) = (case f x of Some y \<Rightarrow> Some y | None \<Rightarrow> first_index f xs)"

definition mx_execute_conjunctive :: "maintained_engine \<Rightarrow> multi_query \<Rightarrow> query_result result" where
  "mx_execute_conjunctive m query =
     rbind (rel_schema (mx_engine m) (mq_table query)) (\<lambda>schema.
     rbind (prepare_conjunctive schema (mq_predicates query) (mq_projection query)) (\<lambda>(projection, predicates).
     case first_index (\<lambda>(_, p). map_option (\<lambda>index. (index, p)) (om_lookup (mx_indexes m) (mq_table query, pd_column p))) predicates of
       None \<Rightarrow> execute_conjunctive (mx_engine m) query
     | Some (index, driver) \<Rightarrow>
         rbind (matching_rows index (pd_op driver) (pd_value driver)) (\<lambda>rows.
         Inr \<lparr>qr_columns = projected_columns schema projection,
              qr_rows = map (\<lambda>row. project_row row projection)
                (filter (\<lambda>row. list_all (\<lambda>(column, p). matches_predicate (row ! column) p) predicates) rows)\<rparr>)))"


subsection \<open>Disjunctions\<close>

definition prepare_disjunctive ::
    "schema \<Rightarrow> predicate list \<Rightarrow> projection \<Rightarrow> (nat list \<times> resolved_predicate list) result" where
  "prepare_disjunctive schema predicates projection =
     (if predicates = [] then Inl InvalidInput
      else rbind (resolve_projection schema projection) (\<lambda>projection.
           rbind (rmapM (\<lambda>p. rbind (column_index schema (pd_column p)) (\<lambda>column.
                     rbind (validate_literal_type (pd_value p) (col_ty (sm_columns schema ! column))) (\<lambda>_.
                     Inr (column, p)))) predicates) (\<lambda>predicates.
           Inr (projection, predicates))))"

definition disjunctive_scan :: "rel_engine \<Rightarrow> multi_query \<Rightarrow> query_result result" where
  "disjunctive_scan e query =
     rbind (rel_schema e (mq_table query)) (\<lambda>schema.
     rbind (prepare_disjunctive schema (mq_predicates query) (mq_projection query)) (\<lambda>(projection, predicates).
     rbind (rel_rows e (mq_table query)) (\<lambda>rows.
     Inr \<lparr>qr_columns = projected_columns schema projection,
          qr_rows = map (\<lambda>(_, row). project_row row projection)
            (filter (\<lambda>(_, row). list_ex (\<lambda>(column, p). matches_predicate (row ! column) p) predicates) rows)\<rparr>)))"

definition add_candidate :: "nat \<Rightarrow> (cell, cell list) ordmap \<Rightarrow> cell list \<Rightarrow> (cell, cell list) ordmap result" where
  "add_candidate primary_key candidates row =
     (if primary_key < length row then Inr (om_insert (row ! primary_key) row candidates) else Inl (Corruption 0))"

definition disjunctive_indexed :: "maintained_engine \<Rightarrow> multi_query \<Rightarrow> query_result result" where
  "disjunctive_indexed m query =
     rbind (rel_schema (mx_engine m) (mq_table query)) (\<lambda>schema.
     rbind (prepare_disjunctive schema (mq_predicates query) (mq_projection query)) (\<lambda>(projection, predicates).
     rbind (rfold (\<lambda>candidates (_, p).
              rbind (mx_execute m \<lparr>qy_table = mq_table query, qy_predicate = Some p, qy_projection = ProjAll\<rparr>) (\<lambda>result.
              rfold (add_candidate (sm_primary_key schema)) candidates (qr_rows result)))
            om_empty predicates) (\<lambda>candidates.
     Inr \<lparr>qr_columns = projected_columns schema projection,
          qr_rows = map (\<lambda>(_, row). project_row row projection) (entries candidates)\<rparr>)))"

end
