(* ===== verification/RelQuerySpec.thy ===== *)
theory RelQuerySpec
  imports RelationalSpec RelQuery
begin

text \<open>
  Every index path answers as the scan does, errors included, and commits keep the maintained
  indexes equal to indexes built afresh from the tables.
\<close>

subsection \<open>Errors and projections\<close>

lemma resolve_names_error: "(\<And>n e. locate n = Inl e \<Longrightarrow> e = InvalidInput) \<Longrightarrow>
    resolve_names locate seen names = Inl err \<Longrightarrow> err = InvalidInput"
  by (induction names arbitrary: seen) (auto simp: rbind_eq_Inl split: if_splits)

lemma column_index_error: "column_index schema name = Inl e \<Longrightarrow> e = InvalidInput"
  by (simp add: column_index_def ok_or_def split: option.splits)

lemma resolve_projection_error: "resolve_projection schema projection = Inl err \<Longrightarrow> err = InvalidInput"
  by (auto simp: resolve_projection_def split: projection.splits if_splits
      dest: resolve_names_error [OF column_index_error, rotated])

lemma position_map: "position P (map f xs) = position (\<lambda>x. P (f x)) xs"
  by (induction xs) auto

lemma position_less: "position P xs = Some i \<Longrightarrow> i < length xs"
  by (induction xs arbitrary: i) (auto split: if_splits)

lemma column_index_less: "column_index schema name = Inr i \<Longrightarrow> i < length (sm_columns schema)"
  by (auto simp: column_index_def result_iff dest: position_less)

lemma resolve_names_less:
  "(\<And>name i. locate name = Inr i \<Longrightarrow> i < n) \<Longrightarrow> resolve_names locate seen names = Inr is \<Longrightarrow> \<forall>i \<in> set is. i < n"
  by (induction names arbitrary: seen "is") (auto simp: rbind_eq_Inr split: if_splits)

lemma resolve_projection_less:
  "resolve_projection schema projection = Inr is \<Longrightarrow> \<forall>i \<in> set is. i < length (sm_columns schema)"
  using resolve_names_less [of "column_index schema" "length (sm_columns schema)" "{}"] column_index_less
  by (auto simp: resolve_projection_def split: projection.splits if_splits)

text \<open>An index resolves names in its copy of the column names as the catalog does.\<close>

lemma index_resolve_projection_eq:
  "index_resolve_projection (map col_name (sm_columns schema)) projection = resolve_projection schema projection"
proof -
  have "(\<lambda>name. ok_or (position (\<lambda>candidate. candidate = name) (map col_name (sm_columns schema))) InvalidInput) =
      column_index schema"
    by (rule ext) (simp add: position_map column_index_def)
  then show ?thesis unfolding index_resolve_projection_def resolve_projection_def by (simp split: projection.split)
qed

lemma index_columns_eq:
  "resolve_projection schema projection = Inr is \<Longrightarrow>
     map (\<lambda>index. map col_name (sm_columns schema) ! index) is = projected_columns schema is"
  using resolve_projection_less [of schema projection "is"] by (auto simp: projected_columns_def)

lemma validate_literal_iff:
  "validate_literal_type val ty =
     (if index_accepts (index_key_type_of ty) val then Inr () else Inl InvalidInput)"
  "(case (ty, val) of (CtInt64, CInt64 _) \<Rightarrow> True | (CtText, CText _) \<Rightarrow> True | _ \<Rightarrow> False) \<longleftrightarrow>
     index_accepts (index_key_type_of ty) val"
  by (cases ty; cases val; simp add: validate_literal_type_def)+

lemma compare_matches_eq: "compare_matches (pd_op p) val (pd_value p) = matches_predicate val p"
  by (simp add: compare_matches_def matches_predicate_def)


subsection \<open>The rows of an index\<close>

lemma lookup_index_rows:
  "om_lookup (index_rows c rows) k =
     (let rs = filter (\<lambda>row. row ! c = k) (map snd rows) in if rs = [] then None else Some rs)"
proof (induction rows rule: rev_induct)
  case Nil
  show ?case by (simp add: index_rows_def)
next
  case (snoc x rows)
  have "index_rows c (rows @ [x]) = push_row c (index_rows c rows) (snd x)"
    by (simp add: index_rows_def split_beta)
  then show ?case using snoc by (auto simp: push_row_def Let_def)
qed

lemma distinct_groups:
  "distinct ks \<Longrightarrow> distinct (map f rows) \<Longrightarrow> distinct (map f (concat (map (\<lambda>k. filter (\<lambda>r. g r = k) rows) ks)))"
proof (induction ks)
  case Nil
  show ?case by simp
next
  case (Cons k ks)
  have inj: "inj_on f (set rows)" using Cons.prems(2) by (simp add: distinct_map)
  have "distinct (map f (filter (\<lambda>r. g r = k) rows))"
    using Cons.prems(2) by (simp add: distinct_map_filter)
  moreover have "set (map f (filter (\<lambda>r. g r = k) rows)) \<inter>
      set (map f (concat (map (\<lambda>k. filter (\<lambda>r. g r = k) rows) ks))) = {}"
    using Cons.prems(1) inj by (auto dest: inj_onD)
  ultimately show ?case using Cons by simp
qed

text \<open>A table's rows: in key order, each stored under its own primary key.\<close>

definition rows_keyed :: "nat \<Rightarrow> (cell \<times> cell list) list \<Rightarrow> bool" where
  "rows_keyed pk rows \<longleftrightarrow> al_ord rows \<and> (\<forall>(key, row) \<in> set rows. row ! pk = key)"

lemma rows_keyed_map: "rows_keyed pk rows \<Longrightarrow> map (\<lambda>row. row ! pk) (map snd rows) = map fst rows"
  by (auto simp: rows_keyed_def)

lemma entries_matching_scan:
  assumes "rows_keyed pk rows"
  shows "entries_matching pk (index_rows c rows) op val =
    map snd (filter (\<lambda>(_, row). compare_matches op (row ! c) val) rows)"
proof -
  define R where "R = map snd rows"
  define es where "es = filter (\<lambda>(key, _). compare_matches op key val) (entries (index_rows c rows))"
  define ys where "ys = filter (\<lambda>row. compare_matches op (row ! c) val) R"
  let ?f = "\<lambda>row. row ! pk"
  have keys: "map ?f R = map fst rows" using rows_keyed_map [OF assms] by (simp add: R_def)
  have ord: "sorted (map ?f R)" "distinct (map ?f R)"
    using assms unfolding keys by (simp_all add: rows_keyed_def al_ord_def strict_sorted_iff)
  have es: "rs = filter (\<lambda>r. r ! c = k) R \<and> rs \<noteq> [] \<and> compare_matches op k val" if "(k, rs) \<in> set es" for k rs
    using that by (auto simp: es_def set_entries lookup_index_rows R_def Let_def split: if_splits)
  have "map snd es = map (\<lambda>k. filter (\<lambda>r. r ! c = k) R) (map fst es)"
    using es by auto
  moreover have "distinct (map fst es)"
    using al_ord_distinct [OF al_ord_filter [OF entries_ord]] by (simp add: es_def)
  ultimately have dist: "distinct (map ?f (concat (map snd es)))"
    using distinct_groups [OF _ ord(2)] by metis
  have "set (concat (map snd es)) = set ys"
  proof
    show "set (concat (map snd es)) \<subseteq> set ys"
    proof
      fix r assume "r \<in> set (concat (map snd es))"
      then obtain k rs where "(k, rs) \<in> set es" "r \<in> set rs" by auto
      with es [OF this(1)] show "r \<in> set ys" by (auto simp: ys_def)
    qed
    show "set ys \<subseteq> set (concat (map snd es))"
    proof
      fix r assume r: "r \<in> set ys"
      then have "(r ! c, filter (\<lambda>q. q ! c = r ! c) R) \<in> set es"
        by (auto simp: es_def set_entries lookup_index_rows R_def ys_def Let_def filter_empty_conv)
      with r show "r \<in> set (concat (map snd es))" by (force simp: ys_def)
    qed
  qed
  moreover have "inj_on ?f (set ys)" using ord(2) by (auto simp: ys_def distinct_map intro: inj_on_subset)
  moreover have "sorted (map ?f ys)" "distinct (map ?f ys)"
    using ord by (simp_all add: ys_def sorted_filter distinct_map_filter)
  ultimately have "sort_key ?f (concat (map snd es)) = ys"
    using dist by (intro map_sorted_distinct_set_unique [where f = ?f])
      (simp_all add: distinct_map)
  moreover have "ys = map snd (filter (\<lambda>(_, row). compare_matches op (row ! c) val) rows)"
    by (simp add: ys_def R_def filter_map comp_def case_prod_beta')
  ultimately show ?thesis by (simp add: entries_matching_def es_def)
qed

lemma table_rows_keyed:
  assumes "tables_ok tables" "om_lookup tables table = Some state"
  shows "rows_keyed (sm_primary_key (ts_schema state)) (entries (ts_rows state))"
    and "\<forall>(key, row) \<in> set (entries (ts_rows state)). length row = length (sm_columns (ts_schema state))"
    and "sm_primary_key (ts_schema state) < length (sm_columns (ts_schema state))"
proof -
  have ok: "table_ok state" using assms by (auto simp: tables_ok_iff)
  then show "rows_keyed (sm_primary_key (ts_schema state)) (entries (ts_rows state))"
    by (auto simp: rows_keyed_def table_ok_def)
  show "\<forall>(key, row) \<in> set (entries (ts_rows state)). length row = length (sm_columns (ts_schema state))"
    using ok by (auto simp: table_ok_def validate_row_iff list_all2_iff)
  show "sm_primary_key (ts_schema state) < length (sm_columns (ts_schema state))"
    using ok validate_schema_Inr(3) by (auto simp: table_ok_def)
qed


subsection \<open>Index paths equal scans\<close>

lemma rel_table_simps:
  "rel_schema e t = (case om_lookup (re_tables e) t of None \<Rightarrow> Inl InvalidInput | Some state \<Rightarrow> Inr (ts_schema state))"
  "rel_rows e t = (case om_lookup (re_tables e) t of None \<Rightarrow> Inl InvalidInput | Some state \<Rightarrow> Inr (entries (ts_rows state)))"
  by (simp_all add: rel_schema_def rel_rows_def rel_table_def split: option.split)

definition one_predicate :: "bytes \<Rightarrow> predicate \<Rightarrow> projection \<Rightarrow> rel_query" where
  "one_predicate t p projection = \<lparr>qy_table = t, qy_predicate = Some p, qy_projection = projection\<rparr>"

lemma scan_one_predicate:
  assumes "om_lookup (re_tables e) t = Some state" "column_index (ts_schema state) (pd_column p) = Inr c"
  shows "query_execute e (one_predicate t p projection) =
    rbind (resolve_projection (ts_schema state) projection) (\<lambda>is.
      if index_accepts (index_key_type_of (col_ty (sm_columns (ts_schema state) ! c))) (pd_value p)
      then Inr \<lparr>qr_columns = projected_columns (ts_schema state) is,
         qr_rows = map (\<lambda>row. project_row row is)
           (map snd (filter (\<lambda>(_, row). compare_matches (pd_op p) (row ! c) (pd_value p)) (entries (ts_rows state))))\<rparr>
      else Inl InvalidInput)"
  using assms
  by (cases "resolve_projection (ts_schema state) projection")
    (simp_all add: query_execute_def one_predicate_def rel_table_simps resolve_predicate_def validate_literal_iff(1)
      compare_matches_eq split_beta)

lemma materialized_build_Inr:
  assumes "materialized_build e (t, name) = Inr ix"
  shows "\<exists>state c. om_lookup (re_tables e) t = Some state \<and> column_index (ts_schema state) name = Inr c \<and>
    ix = \<lparr>mi_key_type = col_ty (sm_columns (ts_schema state) ! c), mi_primary_key = sm_primary_key (ts_schema state),
          mi_columns = map col_name (sm_columns (ts_schema state)),
          mi_entries = index_rows c (entries (ts_rows state))\<rparr>"
  using assms
  by (auto simp: materialized_build_def rbind_eq_Inr rel_table_simps column_index_def split: option.splits)

lemma materialized_rows:
  assumes "tables_ok (re_tables e)" "materialized_build e (t, pd_column p) = Inr ix"
    and "om_lookup (re_tables e) t = Some state" "column_index (ts_schema state) (pd_column p) = Inr c"
  shows "matching_rows ix (pd_op p) (pd_value p) =
    (if index_accepts (index_key_type_of (col_ty (sm_columns (ts_schema state) ! c))) (pd_value p)
     then Inr (map snd (filter (\<lambda>(_, row). compare_matches (pd_op p) (row ! c) (pd_value p)) (entries (ts_rows state))))
     else Inl InvalidInput)"
  using materialized_build_Inr [OF assms(2)] assms(3,4)
    entries_matching_scan [OF table_rows_keyed(1) [OF assms(1,3)]]
  unfolding matching_rows_def validate_literal_iff(2) by auto

lemma materialized_scan:
  assumes "tables_ok (re_tables e)" "materialized_build e (t, pd_column p) = Inr ix"
  shows "materialized_execute_compare ix (pd_op p) (pd_value p) projection =
    query_execute e (one_predicate t p projection)"
proof -
  from materialized_build_Inr [OF assms(2)] obtain state c where
    st: "om_lookup (re_tables e) t = Some state" "column_index (ts_schema state) (pd_column p) = Inr c"
    "mi_columns ix = map col_name (sm_columns (ts_schema state))"
    by auto
  show ?thesis
    unfolding scan_one_predicate [OF st(1,2)] materialized_execute_compare_def st(3) index_resolve_projection_eq
      materialized_rows [OF assms st(1,2)]
    by (cases "resolve_projection (ts_schema state) projection") (simp_all add: index_columns_eq)
qed

lemma secondary_scan:
  assumes "tables_ok (re_tables e)" "secondary_build e t (pd_column p) = Inr ix"
  shows "secondary_execute_compare ix (pd_op p) (pd_value p) projection = query_execute e (one_predicate t p projection)"
proof -
  from assms(2) obtain state c where
    st: "om_lookup (re_tables e) t = Some state" "column_index (ts_schema state) (pd_column p) = Inr c"
    "si_columns ix = map col_name (sm_columns (ts_schema state))" "si_primary_key ix = sm_primary_key (ts_schema state)"
    "si_key_type ix = index_key_type_of (col_ty (sm_columns (ts_schema state) ! c))"
    "si_entries ix = index_rows c (entries (ts_rows state))"
    by (auto simp: secondary_build_def rbind_eq_Inr rel_table_simps column_index_def split: option.splits)
  show ?thesis
    unfolding scan_one_predicate [OF st(1,2)] secondary_execute_compare_def st(3-6) index_resolve_projection_eq
      entries_matching_scan [OF table_rows_keyed(1) [OF assms(1) st(1)]]
    by (cases "resolve_projection (ts_schema state) projection")
      (auto simp: index_columns_eq project_row_def dest: resolve_projection_error)
qed

text \<open>The executor with one index.\<close>

lemma executor_scan:
  assumes "tables_ok (re_tables e)" "executor_build e t column = Inr x"
  shows "executor_execute x query = query_execute e query"
proof -
  obtain ix where ix: "secondary_build e t column = Inr ix" "x = \<lparr>iq_engine = e, iq_index = ix\<rparr>"
    using assms(2) by (auto simp: executor_build_def rbind_eq_Inr)
  then have names: "si_table ix = t" "si_column ix = column"
    by (auto simp: secondary_build_def rbind_eq_Inr)
  show ?thesis
  proof (cases "qy_predicate query")
    case (Some p)
    then have "query = one_predicate (qy_table query) p (qy_projection query)"
      by (cases query) (simp add: one_predicate_def)
    with Some names ix secondary_scan [OF assms(1), of t p ix "qy_projection query"] show ?thesis
      by (auto simp: executor_execute_def)
  qed (simp add: executor_execute_def ix)
qed


subsection \<open>Maintained indexes\<close>

text \<open>Every registered index is the one built from the tables as they are.\<close>

definition mx_invar :: "maintained_engine \<Rightarrow> bool" where
  "mx_invar m \<longleftrightarrow> tables_ok (re_tables (mx_engine m)) \<and>
     (\<forall>spec \<in> set (om_keys (mx_indexes m)). materialized_build (mx_engine m) spec = Inr (the (om_lookup (mx_indexes m) spec)))"

lemma mx_invar_lookup:
  "mx_invar m \<Longrightarrow> om_lookup (mx_indexes m) spec = Some ix \<Longrightarrow> materialized_build (mx_engine m) spec = Inr ix"
  by (force simp: mx_invar_def set_om_keys)

lemma mx_invar_iff: "mx_invar m \<longleftrightarrow> tables_ok (re_tables (mx_engine m)) \<and>
    (\<forall>spec ix. om_lookup (mx_indexes m) spec = Some ix \<longrightarrow> materialized_build (mx_engine m) spec = Inr ix)"
  by (force simp: mx_invar_def set_om_keys)

lemma mx_execute_scan:
  assumes "mx_invar m"
  shows "mx_execute m query = query_execute (mx_engine m) query"
proof (cases "qy_predicate query")
  case (Some p)
  then have q: "query = one_predicate (qy_table query) p (qy_projection query)"
    by (cases query) (simp add: one_predicate_def)
  show ?thesis
  proof (cases "om_lookup (mx_indexes m) (qy_table query, pd_column p)")
    case (Some ix)
    have "tables_ok (re_tables (mx_engine m))" using assms by (simp add: mx_invar_def)
    from materialized_scan [OF this mx_invar_lookup [OF assms Some]] q Some \<open>qy_predicate query = Some p\<close> show ?thesis
      by (simp add: mx_execute_def)
  qed (simp add: mx_execute_def Some)
qed (simp add: mx_execute_def)

lemma first_index_Some: "first_index f xs = Some y \<Longrightarrow> \<exists>x \<in> set xs. f x = Some y"
  by (induction xs) (auto split: option.splits)

lemma rmapM_set: "rmapM f xs = Inr ys \<Longrightarrow> y \<in> set ys \<Longrightarrow> \<exists>x \<in> set xs. f x = Inr y"
  by (induction xs arbitrary: ys) (auto simp: rbind_eq_Inr)

lemma resolve_predicate_Inr: "resolve_predicate schema p = Inr (c, p') \<longleftrightarrow>
    p' = p \<and> column_index schema (pd_column p) = Inr c \<and> index_accepts (index_key_type_of (col_ty (sm_columns schema ! c))) (pd_value p)"
  by (auto simp: resolve_predicate_def rbind_eq_Inr validate_literal_iff(1) split: if_splits)

lemma mx_conjunctive_scan:
  assumes "mx_invar m"
  shows "mx_execute_conjunctive m query = execute_conjunctive (mx_engine m) query"
proof -
  let ?e = "mx_engine m" and ?t = "mq_table query"
  show ?thesis
  proof (cases "om_lookup (re_tables ?e) ?t")
    case None
    then show ?thesis by (simp add: mx_execute_conjunctive_def execute_conjunctive_def rel_table_simps)
  next
    case (Some state)
    let ?prep = "prepare_conjunctive (ts_schema state) (mq_predicates query) (mq_projection query)"
    show ?thesis
    proof (cases ?prep)
      case (Inl err)
      then show ?thesis using Some by (simp add: mx_execute_conjunctive_def execute_conjunctive_def rel_table_simps)
    next
      case (Inr prep)
      obtain projection predicates where prep: "?prep = Inr (projection, predicates)"
        using Inr by (cases prep) simp
      then have preds: "rmapM (resolve_predicate (ts_schema state)) (mq_predicates query) = Inr predicates"
        by (auto simp: prepare_conjunctive_def rbind_eq_Inr split: if_splits)
      let ?driver = "first_index (\<lambda>(_, p). map_option (\<lambda>index. (index, p)) (om_lookup (mx_indexes m) (?t, pd_column p))) predicates"
      show ?thesis
      proof (cases ?driver)
        case None
        then show ?thesis using Some prep by (simp add: mx_execute_conjunctive_def rel_table_simps)
      next
        case d: (Some d)
        then obtain ix p c where driver: "?driver = Some (ix, p)" "(c, p) \<in> set predicates"
          "om_lookup (mx_indexes m) (?t, pd_column p) = Some ix"
          using first_index_Some [OF d] by auto
        have c: "column_index (ts_schema state) (pd_column p) = Inr c"
          "index_accepts (index_key_type_of (col_ty (sm_columns (ts_schema state) ! c))) (pd_value p)"
          using rmapM_set [OF preds driver(2)] by (auto simp: resolve_predicate_Inr)
        have "tables_ok (re_tables ?e)" using assms by (simp add: mx_invar_def)
        note rows = materialized_rows [OF this mx_invar_lookup [OF assms driver(3)] Some c(1)]
        have sub: "filter (\<lambda>row. list_all (\<lambda>(column, p). matches_predicate (row ! column) p) predicates)
            (map snd (filter (\<lambda>(_, row). compare_matches (pd_op p) (row ! c) (pd_value p)) (entries (ts_rows state)))) =
          map snd (filter (\<lambda>(_, row). list_all (\<lambda>(index, p). matches_predicate (row ! index) p) predicates) (entries (ts_rows state)))"
          using driver(2) by (auto simp: filter_map comp_def split_beta compare_matches_eq list_all_iff intro!: arg_cong [where f = "map snd"] filter_cong)
        show ?thesis
          using Some prep driver(1) rows c(2) sub
          by (simp add: mx_execute_conjunctive_def execute_conjunctive_def rel_table_simps comp_def case_prod_beta')
      qed
    qed
  qed
qed



subsection \<open>Disjunctions\<close>

lemma project_all: "length row = n \<Longrightarrow> project_row row [0..<n] = row"
  by (auto simp: project_row_def map_nth)

lemma add_candidates:
  "\<forall>row \<in> set rows. pk < length row \<Longrightarrow>
     rfold (add_candidate pk) m rows = Inr (fold (\<lambda>row m. om_insert (row ! pk) row m) rows m)"
  by (induction rows arbitrary: m) (simp_all add: add_candidate_def)

lemma lookup_candidates:
  "\<forall>row \<in> set rows. om_lookup table (row ! pk) = Some row \<Longrightarrow>
     om_lookup (fold (\<lambda>row m. om_insert (row ! pk) row m) rows m) k =
       (case om_lookup table k of Some row \<Rightarrow> if row \<in> set rows \<and> row ! pk = k then Some row else om_lookup m k
        | None \<Rightarrow> om_lookup m k)"
proof (induction rows arbitrary: m)
  case Nil
  then show ?case by (auto split: option.split)
next
  case (Cons row rows)
  then show ?case by (auto split: option.split)
qed

text \<open>The candidates after the predicates \<open>ps\<close> are the rows of the table some of them matches.\<close>

lemma disjunctive_candidates:
  assumes "mx_invar m" "om_lookup (re_tables (mx_engine m)) t = Some state"
    and "\<forall>(c, p) \<in> set ps. resolve_predicate (ts_schema state) p = Inr (c, p)"
  shows "rfold (\<lambda>candidates (_, p).
      rbind (mx_execute m \<lparr>qy_table = t, qy_predicate = Some p, qy_projection = ProjAll\<rparr>) (\<lambda>result.
      rfold (add_candidate (sm_primary_key (ts_schema state))) candidates (qr_rows result)))
      (om_filter (\<lambda>_ row. list_ex (\<lambda>(c, p). matches_predicate (row ! c) p) qs) (ts_rows state)) ps =
    Inr (om_filter (\<lambda>_ row. list_ex (\<lambda>(c, p). matches_predicate (row ! c) p) (qs @ ps)) (ts_rows state))"
  using assms(3)
proof (induction ps arbitrary: qs)
  case Nil
  then show ?case by simp
next
  case (Cons q ps)
  obtain c p where q: "q = (c, p)" by force
  let ?pk = "sm_primary_key (ts_schema state)" and ?n = "length (sm_columns (ts_schema state))"
  have ok: "tables_ok (re_tables (mx_engine m))" using assms(1) by (simp add: mx_invar_def)
  have c: "column_index (ts_schema state) (pd_column p) = Inr c"
    "index_accepts (index_key_type_of (col_ty (sm_columns (ts_schema state) ! c))) (pd_value p)"
    using Cons.prems by (auto simp: q resolve_predicate_Inr)
  define rows where "rows = map snd (filter (\<lambda>(_, row). matches_predicate (row ! c) p) (entries (ts_rows state)))"
  have len: "length row = ?n" if "row \<in> set rows" for row
    using that table_rows_keyed(2) [OF ok assms(2)] by (auto simp: rows_def)
  have keyed: "om_lookup (ts_rows state) (row ! ?pk) = Some row" if "row \<in> set rows" for row
    using that table_rows_keyed(1) [OF ok assms(2)] by (auto simp: rows_def rows_keyed_def set_entries [symmetric])
  have "mx_execute m \<lparr>qy_table = t, qy_predicate = Some p, qy_projection = ProjAll\<rparr> =
      Inr \<lparr>qr_columns = projected_columns (ts_schema state) [0..<?n], qr_rows = rows\<rparr>"
    using scan_one_predicate [OF assms(2) c(1), of ProjAll] c(2) len
    by (simp add: mx_execute_scan [OF assms(1)] one_predicate_def resolve_projection_def compare_matches_eq
        rows_def [symmetric] map_idI project_all)
  moreover have "rfold (add_candidate ?pk) m0 rows = Inr (fold (\<lambda>row m. om_insert (row ! ?pk) row m) rows m0)" for m0
    using len table_rows_keyed(3) [OF ok assms(2)] by (intro add_candidates) simp
  moreover have "fold (\<lambda>row m. om_insert (row ! ?pk) row m) rows
      (om_filter (\<lambda>_ row. list_ex (\<lambda>(c, p). matches_predicate (row ! c) p) qs) (ts_rows state)) =
    om_filter (\<lambda>_ row. list_ex (\<lambda>(c, p). matches_predicate (row ! c) p) (qs @ [q])) (ts_rows state)"
  proof (rule ordmap_eqI)
    fix k
    have "row \<in> set rows \<and> row ! ?pk = k \<longleftrightarrow> matches_predicate (row ! c) p" if "om_lookup (ts_rows state) k = Some row" for row
    proof -
      have "(k, row) \<in> set (entries (ts_rows state))" using that by (simp add: set_entries)
      moreover from this have "row ! ?pk = k"
        using table_rows_keyed(1) [OF ok assms(2)] by (auto simp: rows_keyed_def)
      ultimately show ?thesis using keyed [of row] by (auto simp: rows_def image_iff)
    qed
    then show "om_lookup (fold (\<lambda>row m. om_insert (row ! ?pk) row m) rows
        (om_filter (\<lambda>_ row. list_ex (\<lambda>(c, p). matches_predicate (row ! c) p) qs) (ts_rows state))) k =
      om_lookup (om_filter (\<lambda>_ row. list_ex (\<lambda>(c, p). matches_predicate (row ! c) p) (qs @ [q])) (ts_rows state)) k"
      using keyed by (subst lookup_candidates [where table = "ts_rows state"])
        (auto simp: om_lookup_filter q split: option.split)
  qed
  ultimately show ?case
    using Cons.IH [of "qs @ [q]"] Cons.prems by (simp add: q)
qed

lemma prepare_disjunctive_eq: "prepare_disjunctive = prepare_conjunctive"
  by (intro ext) (simp add: prepare_disjunctive_def prepare_conjunctive_def resolve_predicate_def [abs_def])

lemma om_filter_False: "om_filter (\<lambda>_ _. False) m = om_empty"
  by (rule ordmap_eqI) (simp add: om_lookup_filter split: option.split)

lemma disjunctive_equals_scan:
  assumes "mx_invar m"
  shows "disjunctive_indexed m query = disjunctive_scan (mx_engine m) query"
proof (cases "om_lookup (re_tables (mx_engine m)) (mq_table query)")
  case None
  then show ?thesis by (simp add: disjunctive_indexed_def disjunctive_scan_def rel_table_simps)
next
  case (Some state)
  let ?prep = "prepare_conjunctive (ts_schema state) (mq_predicates query) (mq_projection query)"
  show ?thesis
  proof (cases ?prep)
    case (Inl err)
    then show ?thesis
      using Some by (simp add: disjunctive_indexed_def disjunctive_scan_def rel_table_simps prepare_disjunctive_eq)
  next
    case (Inr prep)
    obtain projection predicates where prep: "?prep = Inr (projection, predicates)"
      using Inr by (cases prep) simp
    then have preds: "rmapM (resolve_predicate (ts_schema state)) (mq_predicates query) = Inr predicates"
      by (auto simp: prepare_conjunctive_def rbind_eq_Inr split: if_splits)
    have "\<forall>(c, p) \<in> set predicates. resolve_predicate (ts_schema state) p = Inr (c, p)"
      using rmapM_set [OF preds] by (fastforce simp: resolve_predicate_Inr)
    from disjunctive_candidates [OF assms Some this, of "[]"] Some prep show ?thesis
      by (simp add: disjunctive_indexed_def disjunctive_scan_def rel_table_simps prepare_disjunctive_eq
          om_filter_False entries_filter)
  qed
qed


subsection \<open>Commits keep the indexes\<close>

lemma materialized_build_tables:
  "re_tables e' = re_tables e \<Longrightarrow> materialized_build e' spec = materialized_build e spec"
  by (simp add: materialized_build_def rel_table_simps)

lemma materialized_build_schema:
  assumes "materialized_build e spec = Inr ix"
    and "\<And>name state. om_lookup (re_tables e) name = Some state \<Longrightarrow>
       \<exists>state'. om_lookup (re_tables e') name = Some state' \<and> ts_schema state' = ts_schema state"
  shows "\<exists>ix'. materialized_build e' spec = Inr ix'"
proof -
  obtain t name where spec: "spec = (t, name)" by force
  from materialized_build_Inr [OF assms(1) [unfolded spec]] obtain state c where
    st: "om_lookup (re_tables e) t = Some state" "column_index (ts_schema state) name = Inr c" by auto
  from assms(2) [OF st(1)] st(2) show ?thesis
    by (auto simp: spec materialized_build_def rel_table_simps column_index_def)
qed

lemma rebuild_lookup:
  assumes "\<forall>spec \<in> set specs. \<exists>ix. build spec = Inr ix"
  shows "\<exists>rebuilt. rfold (\<lambda>rebuilt spec. rbind (build spec) (\<lambda>index. Inr (om_insert spec index rebuilt))) m specs = Inr rebuilt \<and>
    (\<forall>spec. om_lookup rebuilt spec =
      (if spec \<in> set specs then case build spec of Inr ix \<Rightarrow> Some ix | Inl _ \<Rightarrow> None else om_lookup m spec))"
  using assms
proof (induction specs arbitrary: m)
  case Nil
  then show ?case by simp
next
  case (Cons spec specs)
  then obtain ix where ix: "build spec = Inr ix" by auto
  with Cons.IH [of "om_insert spec ix m"] Cons.prems show ?case by (auto simp: fun_eq_iff)
qed

lemma sorted_om_keys: "sorted (om_keys m)"
  using entries_ord [of m] by (simp add: om_keys_def al_ord_def strict_sorted_iff)

lemma mx_commit_correct:
  assumes "mx_invar m" "re_next_tx_id (mx_engine m) < u64_max" "rel_commit crc fault (mx_engine m) ops = (r, e')"
  shows "\<exists>m'. mx_commit crc fault m ops = (r, m') \<and> mx_engine m' = e' \<and> mx_invar m' \<and>
    om_keys (mx_indexes m') = om_keys (mx_indexes m)"
proof (cases r)
  case (Inl err)
  then have "re_tables e' = re_tables (mx_engine m)" using rel_commit_result [OF assms(2,3)] by simp
  then show ?thesis
    using Inl assms materialized_build_tables [of e' "mx_engine m"] by (simp add: mx_commit_def mx_invar_def)
next
  case (Inr tx_id)
  then have applied: "apply_ops (re_tables (mx_engine m)) ops = Inr (re_tables e')"
    using rel_commit_result [OF assms(2,3)] by simp
  have ok: "tables_ok (re_tables (mx_engine m))" using assms(1) by (simp add: mx_invar_def)
  note types = apply_ops_types [OF ok applied]
  have builds: "\<exists>ix. materialized_build e' spec = Inr ix" if "spec \<in> set (om_keys (mx_indexes m))" for spec
    using that assms(1) materialized_build_schema [of "mx_engine m" spec _ e'] types by (auto simp: mx_invar_def)
  from rebuild_lookup [of "om_keys (mx_indexes m)" "materialized_build e'" om_empty] builds obtain rebuilt where
    rebuilt: "rfold (\<lambda>rebuilt spec. rbind (materialized_build e' spec) (\<lambda>index. Inr (om_insert spec index rebuilt)))
        om_empty (om_keys (mx_indexes m)) = Inr rebuilt"
      "\<And>spec. om_lookup rebuilt spec = (if spec \<in> set (om_keys (mx_indexes m))
         then case materialized_build e' spec of Inr ix \<Rightarrow> Some ix | Inl _ \<Rightarrow> None else None)"
    by auto
  let ?m = "\<lparr>mx_engine = e', mx_indexes = rebuilt\<rparr>"
  have "mx_commit crc fault m ops = (r, ?m)"
    using Inr assms(3) rebuilt(1) by (cases m) (simp add: mx_commit_def mx_rebuild_indexes_def)
  moreover have "mx_invar ?m"
    using types rebuilt(2) by (auto simp: mx_invar_iff split: if_splits sum.splits)
  moreover have "set (om_keys rebuilt) = set (om_keys (mx_indexes m))"
    using rebuilt(2) builds
    by (fastforce simp: set_om_keys [of rebuilt] split: if_splits)
  then have "om_keys rebuilt = om_keys (mx_indexes m)"
    by (intro sorted_distinct_set_unique sorted_om_keys distinct_om_keys)
  ultimately show ?thesis by auto
qed



text \<open>Registering an index.\<close>

lemma mx_register_invar:
  assumes "mx_invar m" "mx_register_index m table column = (r, m')"
  shows "mx_invar m' \<and> mx_engine m' = mx_engine m"
  using assms by (auto simp: mx_register_index_def mx_invar_iff split: if_splits sum.splits)

lemma mx_open_invar:
  assumes "rel_open crc path existing symlink = (Inr e, f)" "tables_ok (re_tables e)"
  shows "\<exists>m. mx_open crc path existing symlink = (Inr m, f) \<and> mx_engine m = e \<and> mx_invar m"
  using assms by (simp add: mx_open_def mx_invar_iff)


subsection \<open>Properties\<close>

text \<open>C13 (index_scan): every index path answers each query exactly as the scan over the tables does,
  errors included: the executor with one secondary index, and the engine with maintained indexes
  for single predicates, conjunctions (driven by the first predicate that has an index) and
  disjunctions (a union of index answers by primary key).\<close>

theorem index_paths_equal_scans:
  assumes "tables_ok (re_tables e)" "executor_build e table column = Inr x" "mx_invar m"
  shows "executor_execute x query = query_execute e query \<and>
    mx_execute m query = query_execute (mx_engine m) query \<and>
    mx_execute_conjunctive m queries = execute_conjunctive (mx_engine m) queries \<and>
    disjunctive_indexed m queries = disjunctive_scan (mx_engine m) queries"
  using executor_scan [OF assms(1,2)] mx_execute_scan [OF assms(3)] mx_conjunctive_scan [OF assms(3)]
    disjunctive_equals_scan [OF assms(3)] by simp

definition sample_engine :: rel_engine where
  "sample_engine = (fresh_rel (\<lambda>_. 0) None)\<lparr>re_tables := sample_tables, re_next_tx_id := 2\<rparr>"

definition sample_query :: rel_query where
  "sample_query = one_predicate (ascii ''t'') \<lparr>pd_column = ascii ''v'', pd_op = CmpGe, pd_value = CText (ascii ''w'')\<rparr>
     (ProjColumns [ascii ''id''])"

definition sample_index :: materialized_index where
  "sample_index = \<lparr>mi_key_type = CtText, mi_primary_key = 0, mi_columns = [ascii ''id'', ascii ''v''],
     mi_entries = index_rows 1 [(CInt64 7, [CInt64 7, CText (ascii ''x'')])]\<rparr>"

lemma sample_tables_ok: "tables_ok sample_tables"
  using apply_ops_types [OF tables_ok_empty sample_apply] by simp

lemma sample_build: "materialized_build sample_engine (ascii ''t'', ascii ''v'') = Inr sample_index"
  by (simp add: materialized_build_def rel_table_simps sample_engine_def sample_tables_def sample_schema_def sample_index_def
      ascii_def entries_insert)

definition sample_maintained :: maintained_engine where
  "sample_maintained = \<lparr>mx_engine = sample_engine, mx_indexes = om_insert (ascii ''t'', ascii ''v'') sample_index om_empty\<rparr>"

lemma sample_mx_invar: "mx_invar sample_maintained"
  using sample_build sample_tables_ok
  by (auto simp: mx_invar_iff sample_maintained_def split: if_splits) (simp add: sample_engine_def)

lemma index_paths_equal_scans_witness:
  "mx_execute sample_maintained sample_query = Inr \<lparr>qr_columns = [ascii ''id''], qr_rows = [[CInt64 7]]\<rparr>"
proof -
  have ok: "tables_ok (re_tables sample_engine)" using sample_tables_ok by (simp add: sample_engine_def)
  obtain x where x: "executor_build sample_engine (ascii ''t'') (ascii ''v'') = Inr x"
    by (simp add: executor_build_def secondary_build_def rel_table_simps sample_engine_def sample_tables_def
        sample_schema_def ascii_def)
  have "mx_execute sample_maintained sample_query = query_execute sample_engine sample_query"
    using index_paths_equal_scans [OF ok x sample_mx_invar] by (simp add: sample_maintained_def)
  then show ?thesis
    by (simp add: sample_query_def one_predicate_def query_execute_def rel_table_simps sample_engine_def sample_tables_def
        sample_schema_def resolve_projection_def resolve_predicate_def column_index_def validate_literal_type_def
        projected_columns_def project_row_def entries_insert matches_predicate_def ascii_def)
qed

text \<open>C14 (index_commit): a commit on the engine with maintained indexes ends as the commit on its
  relational engine ends, whatever fault the environment injects, and leaves every registered
  index equal to the index built from the tables then in force: new after a success, unchanged
  after a failure.  Rebuilding never fails after a successful commit.\<close>

theorem mx_commit_keeps_indexes:
  assumes "mx_invar m" "re_next_tx_id (mx_engine m) < u64_max"
  shows "\<exists>r m'. mx_commit crc fault m ops = (r, m') \<and> rel_commit crc fault (mx_engine m) ops = (r, mx_engine m') \<and>
    mx_invar m' \<and> om_keys (mx_indexes m') = om_keys (mx_indexes m) \<and>
    (case r of Inl err \<Rightarrow> re_tables (mx_engine m') = re_tables (mx_engine m)
     | Inr tx_id \<Rightarrow> apply_ops (re_tables (mx_engine m)) ops = Inr (re_tables (mx_engine m')))"
proof -
  obtain r e' where r: "rel_commit crc fault (mx_engine m) ops = (r, e')" by force
  from mx_commit_correct [OF assms r] rel_commit_result [OF assms(2) r] r show ?thesis
    by (auto split: sum.splits)
qed

lemma mx_commit_keeps_indexes_witness:
  "mx_invar (snd (mx_commit (\<lambda>_. 0) (Some (3, OtherIo)) sample_maintained [DeleteRow (ascii ''t'') (CInt64 7)]))"
proof -
  have "re_next_tx_id (mx_engine sample_maintained) < u64_max"
    by (simp add: sample_maintained_def sample_engine_def u64_max_def)
  from mx_commit_keeps_indexes [OF sample_mx_invar this, of "\<lambda>_. 0" "Some (3, OtherIo)" "[DeleteRow (ascii ''t'') (CInt64 7)]"]
  show ?thesis by auto
qed

end
