(* ===== verification/OptimisticTx.thy ===== *)
theory OptimisticTx
  imports RelationalSpec "HOL-Library.Product_Lexorder"
begin

text \<open>
  Optimistic transactions over the relational engine
  (\<open>crates/db-storage-log/src/optimistic_tx.rs\<close>).  A transaction takes a snapshot of its declared
  reads under the mutex, runs its body without it, and takes the mutex again to validate the
  snapshot and commit.  The two critical sections are two functions of the shared state; a body
  is any function of the snapshot; what other threads do in between is any sequence of their
  critical sections.  The process-wide registry of open files and mutex poisoning are not
  modelled.
\<close>

subsection \<open>State\<close>

type_synonym row_read = "bytes \<times> cell"

record observed_row =
  ob_row :: "cell list option"
  ob_version :: nat

type_synonym occ_snapshot = "(row_read, observed_row) ordmap"

record occ_state =
  oc_engine :: rel_engine
  oc_row_versions :: "(row_read, nat) ordmap"

type_synonym 'a tx_body = "occ_snapshot \<Rightarrow> ('a \<times> rel_op list) result"

definition snapshot_row :: "occ_snapshot \<Rightarrow> row_read \<Rightarrow> cell list option result" where
  "snapshot_row snapshot read = rbind (ok_or (om_lookup snapshot read) InvalidInput) (\<lambda>observed. Inr (ob_row observed))"

definition row_version :: "occ_state \<Rightarrow> row_read \<Rightarrow> nat" where
  "row_version s read = (case om_lookup (oc_row_versions s) read of None \<Rightarrow> 0 | Some v \<Rightarrow> v)"

definition occ_row :: "occ_state \<Rightarrow> bytes \<Rightarrow> cell \<Rightarrow> cell list option result" where
  "occ_row s table key = rel_row (oc_engine s) table key"

definition occ_next_transaction_id :: "occ_state \<Rightarrow> nat result" where
  "occ_next_transaction_id s = Inr (re_next_tx_id (oc_engine s))"


subsection \<open>The two critical sections\<close>

definition take_snapshot :: "occ_state \<Rightarrow> row_read list \<Rightarrow> occ_snapshot result" where
  "take_snapshot s reads =
     rmap snd (rfold (\<lambda>(unique, rows) read.
       if read \<in> unique then Inl InvalidInput
       else rbind (rel_row (oc_engine s) (fst read) (snd read)) (\<lambda>row.
            Inr (insert read unique, om_insert read \<lparr>ob_row = row, ob_version = row_version s read\<rparr> rows)))
       ({}, om_empty) reads)"

definition validate_snapshot :: "occ_state \<Rightarrow> occ_snapshot \<Rightarrow> unit result" where
  "validate_snapshot s snapshot =
     rfold (\<lambda>_ (read, observed).
       rbind (rel_row (oc_engine s) (fst read) (snd read)) (\<lambda>current.
       if current \<noteq> ob_row observed \<or> row_version s read \<noteq> ob_version observed then Inl InvalidInput else Inr ()))
       () (entries snapshot)"

fun touched_loop :: "(bytes, schema) ordmap \<Rightarrow> rel_op list \<Rightarrow> row_read list" where
  "touched_loop schemas [] = []"
| "touched_loop schemas (CreateTable name schema # ops) = touched_loop (om_insert name schema schemas) ops"
| "touched_loop schemas (UpsertRow table row # ops) =
     (case om_lookup schemas table of
        Some schema \<Rightarrow>
          (if sm_primary_key schema < length row then [(table, row ! sm_primary_key schema)] else [])
      | None \<Rightarrow> []) @ touched_loop schemas ops"
| "touched_loop schemas (DeleteRow table key # ops) = (table, key) # touched_loop schemas ops"

definition touched_rows :: "rel_engine \<Rightarrow> rel_op list \<Rightarrow> row_read list" where
  "touched_rows e ops = touched_loop (om_of_list (rel_catalog e)) ops"

text \<open>The end of \<open>transaction\<close>, after the snapshot is validated and when there is something to write.\<close>

definition occ_publish :: "(bytes \<Rightarrow> 32 word) \<Rightarrow> io_fault \<Rightarrow> occ_state \<Rightarrow> rel_op list \<Rightarrow> nat result \<times> occ_state" where
  "occ_publish crc fault s ops =
     (let touched = touched_rows (oc_engine s) ops in
      case rel_commit crc fault (oc_engine s) ops of
        (Inl err, e) \<Rightarrow> (Inl err, s\<lparr>oc_engine := e\<rparr>)
      | (Inr tx_id, e) \<Rightarrow>
          (Inr tx_id, s\<lparr>oc_engine := e,
             oc_row_versions := fold (\<lambda>row versions. om_insert row tx_id versions) touched (oc_row_versions s)\<rparr>))"

definition occ_finish ::
    "(bytes \<Rightarrow> 32 word) \<Rightarrow> io_fault \<Rightarrow> occ_snapshot \<Rightarrow> 'a \<Rightarrow> rel_op list \<Rightarrow> occ_state \<Rightarrow>
       (nat option \<times> 'a) result \<times> occ_state" where
  "occ_finish crc fault snapshot output ops s =
     (case validate_snapshot s snapshot of
        Inl err \<Rightarrow> (Inl err, s)
      | Inr _ \<Rightarrow>
          if ops = [] then (Inr (None, output), s)
          else case occ_publish crc fault s ops of
            (Inl err, s') \<Rightarrow> (Inl err, s')
          | (Inr tx_id, s') \<Rightarrow> (Inr (Some tx_id, output), s'))"

text \<open>\<open>others\<close> is what the other threads do to the shared state while the body runs.\<close>

definition occ_transaction ::
    "(bytes \<Rightarrow> 32 word) \<Rightarrow> io_fault \<Rightarrow> (occ_state \<Rightarrow> occ_state) \<Rightarrow> row_read list \<Rightarrow> 'a tx_body \<Rightarrow> occ_state \<Rightarrow>
       (nat option \<times> 'a) result \<times> occ_state" where
  "occ_transaction crc fault others reads body s =
     (case take_snapshot s reads of
        Inl err \<Rightarrow> (Inl err, s)
      | Inr snapshot \<Rightarrow>
          (case body snapshot of
             Inl err \<Rightarrow> (Inl err, others s)
           | Inr (output, ops) \<Rightarrow> occ_finish crc fault snapshot output ops (others s)))"


subsection \<open>Threads\<close>

text \<open>A thread between its two critical sections holds its declared reads, its body and its
  snapshot.  The history lists, in the order of their second critical sections, the transactions
  whose snapshot was still valid there, with the fault their commit met and what they returned.\<close>

record 'a occ_pending =
  pe_reads :: "row_read list"
  pe_body :: "'a tx_body"
  pe_snapshot :: occ_snapshot

record 'a occ_done =
  dn_reads :: "row_read list"
  dn_body :: "'a tx_body"
  dn_fault :: io_fault
  dn_result :: "(nat option \<times> 'a) result"

record 'a occ_system =
  os_state :: occ_state
  os_pending :: "nat \<Rightarrow> 'a occ_pending option"
  os_history :: "'a occ_done list"

inductive occ_step :: "(bytes \<Rightarrow> 32 word) \<Rightarrow> 'a occ_system \<Rightarrow> 'a occ_system \<Rightarrow> bool" for crc where
  begin_tx: "take_snapshot (os_state s) reads = Inr snapshot \<Longrightarrow>
     occ_step crc s (s\<lparr>os_pending := (os_pending s)(thread \<mapsto>
       \<lparr>pe_reads = reads, pe_body = body, pe_snapshot = snapshot\<rparr>)\<rparr>)"
| abort_tx: "os_pending s thread = Some p \<Longrightarrow> pe_body p (pe_snapshot p) = Inl err \<Longrightarrow>
     occ_step crc s (s\<lparr>os_pending := (os_pending s)(thread := None)\<rparr>)"
| conflict_tx: "os_pending s thread = Some p \<Longrightarrow> pe_body p (pe_snapshot p) = Inr (output, ops) \<Longrightarrow>
     validate_snapshot (os_state s) (pe_snapshot p) = Inl err \<Longrightarrow>
     occ_finish crc fault (pe_snapshot p) output ops (os_state s) = (r, st) \<Longrightarrow>
     occ_step crc s (s\<lparr>os_state := st, os_pending := (os_pending s)(thread := None)\<rparr>)"
| commit_tx: "os_pending s thread = Some p \<Longrightarrow> pe_body p (pe_snapshot p) = Inr (output, ops) \<Longrightarrow>
     validate_snapshot (os_state s) (pe_snapshot p) = Inr () \<Longrightarrow>
     occ_finish crc fault (pe_snapshot p) output ops (os_state s) = (r, st) \<Longrightarrow>
     occ_step crc s (s\<lparr>os_state := st, os_pending := (os_pending s)(thread := None),
       os_history := os_history s @ [\<lparr>dn_reads = pe_reads p, dn_body = pe_body p, dn_fault = fault, dn_result = r\<rparr>]\<rparr>)"

definition occ_initial :: "occ_state \<Rightarrow> 'a occ_system" where
  "occ_initial st = \<lparr>os_state = st, os_pending = Map.empty, os_history = []\<rparr>"

text \<open>The serial execution: one transaction at a time, nobody in between.\<close>

primrec serial_run :: "(bytes \<Rightarrow> 32 word) \<Rightarrow> occ_state \<Rightarrow> 'a occ_done list \<Rightarrow> (nat option \<times> 'a) result list \<times> occ_state" where
  "serial_run crc s [] = ([], s)"
| "serial_run crc s (d # ds) =
     (case occ_transaction crc (dn_fault d) id (dn_reads d) (dn_body d) s of
        (r, s') \<Rightarrow> (case serial_run crc s' ds of (rs, s'') \<Rightarrow> (r # rs, s'')))"


subsection \<open>Snapshots\<close>

lemma snapshot_loop:
  "rfold (\<lambda>(unique, rows) read.
       if read \<in> unique then Inl InvalidInput
       else rbind (rel_row (oc_engine s) (fst read) (snd read)) (\<lambda>row.
            Inr (insert read unique, om_insert read \<lparr>ob_row = row, ob_version = row_version s read\<rparr> rows)))
       (unique, rows) reads = Inr (unique', rows') \<longleftrightarrow>
   distinct reads \<and> set reads \<inter> unique = {} \<and> unique' = unique \<union> set reads \<and>
   (\<forall>read \<in> set reads. \<exists>row. rel_row (oc_engine s) (fst read) (snd read) = Inr row) \<and>
   rows' = fold (\<lambda>read rows. case rel_row (oc_engine s) (fst read) (snd read) of
      Inr row \<Rightarrow> om_insert read \<lparr>ob_row = row, ob_version = row_version s read\<rparr> rows | Inl _ \<Rightarrow> rows) reads rows"
proof (induction reads arbitrary: unique rows)
  case Nil
  then show ?case by auto
next
  case (Cons read reads)
  show ?case
  proof (cases "rel_row (oc_engine s) (fst read) (snd read)")
    case (Inl err)
    then show ?thesis by auto
  next
    case (Inr row)
    then show ?thesis
      using Cons.IH [of "insert read unique" "om_insert read \<lparr>ob_row = row, ob_version = row_version s read\<rparr> rows"]
      by auto
  qed
qed

lemma lookup_observed:
  "\<forall>read \<in> set reads. rel_row e (fst read) (snd read) = Inr (g read) \<Longrightarrow>
     om_lookup (fold (\<lambda>read rows. case rel_row e (fst read) (snd read) of
       Inr row \<Rightarrow> om_insert read \<lparr>ob_row = row, ob_version = v read\<rparr> rows | Inl _ \<Rightarrow> rows) reads rows) =
     (\<lambda>read. if read \<in> set reads then Some \<lparr>ob_row = g read, ob_version = v read\<rparr> else om_lookup rows read)"
  by (induction reads arbitrary: rows) (auto simp: fun_eq_iff)

lemma occ_observed_eqI: "ob_row x = r \<Longrightarrow> ob_version x = v \<Longrightarrow> x = \<lparr>ob_row = r, ob_version = v\<rparr>"
  for x :: observed_row
  by (cases x) simp

text \<open>What a snapshot holds.\<close>

lemma take_snapshot_iff:
  "take_snapshot s reads = Inr snapshot \<longleftrightarrow> distinct reads \<and>
     (\<forall>read. case om_lookup snapshot read of
        Some observed \<Rightarrow> read \<in> set reads \<and> rel_row (oc_engine s) (fst read) (snd read) = Inr (ob_row observed) \<and>
          ob_version observed = row_version s read
      | None \<Rightarrow> read \<notin> set reads)"
proof -
  define row where "row read = (case rel_row (oc_engine s) (fst read) (snd read) of Inr r \<Rightarrow> r | Inl _ \<Rightarrow> None)" for read
  define obs where "obs = fold (\<lambda>read rows. case rel_row (oc_engine s) (fst read) (snd read) of
      Inr row \<Rightarrow> om_insert read \<lparr>ob_row = row, ob_version = row_version s read\<rparr> rows | Inl _ \<Rightarrow> rows) reads om_empty"
  have "take_snapshot s reads = Inr snapshot \<longleftrightarrow> (\<exists>unique. rfold (\<lambda>(unique, rows) read.
       if read \<in> unique then Inl InvalidInput
       else rbind (rel_row (oc_engine s) (fst read) (snd read)) (\<lambda>row.
            Inr (insert read unique, om_insert read \<lparr>ob_row = row, ob_version = row_version s read\<rparr> rows)))
       ({}, om_empty) reads = Inr (unique, snapshot))"
    by (auto simp: take_snapshot_def rmap_eq_Inr)
  also have "\<dots> \<longleftrightarrow> distinct reads \<and> (\<forall>read \<in> set reads. rel_row (oc_engine s) (fst read) (snd read) = Inr (row read)) \<and> snapshot = obs"
    unfolding snapshot_loop by (auto simp: row_def obs_def)
  also have "\<dots> \<longleftrightarrow> distinct reads \<and> (\<forall>read \<in> set reads. rel_row (oc_engine s) (fst read) (snd read) = Inr (row read)) \<and>
      (\<forall>read. om_lookup snapshot read =
        (if read \<in> set reads then Some \<lparr>ob_row = row read, ob_version = row_version s read\<rparr> else None))"
    using lookup_observed [of reads "oc_engine s" row "row_version s" om_empty]
    by (auto simp: obs_def ordmap_eq_iff fun_eq_iff)
  also have "\<dots> \<longleftrightarrow> distinct reads \<and>
     (\<forall>read. case om_lookup snapshot read of
        Some observed \<Rightarrow> read \<in> set reads \<and> rel_row (oc_engine s) (fst read) (snd read) = Inr (ob_row observed) \<and>
          ob_version observed = row_version s read
      | None \<Rightarrow> read \<notin> set reads)" (is "?d \<and> ?l \<and> ?m \<longleftrightarrow> ?d \<and> ?r")
  proof (intro conj_cong refl iffI)
    assume l: "?l \<and> ?m"
    show ?r using l by (auto split: option.split)
  next
    assume r: ?r
    have look: "om_lookup snapshot read = Some \<lparr>ob_row = row read, ob_version = row_version s read\<rparr> \<and>
        rel_row (oc_engine s) (fst read) (snd read) = Inr (row read)" if "read \<in> set reads" for read
      using spec [OF r, of read] that
      by (cases "om_lookup snapshot read") (auto simp: row_def intro: occ_observed_eqI)
    moreover have "om_lookup snapshot read = None" if "read \<notin> set reads" for read
      using spec [OF r, of read] that by (cases "om_lookup snapshot read") auto
    ultimately show "?l \<and> ?m" by simp
  qed
  finally show ?thesis .
qed

lemma take_snapshot_lookup:
  "take_snapshot s reads = Inr snapshot \<Longrightarrow> case om_lookup snapshot read of
        Some observed \<Rightarrow> read \<in> set reads \<and> rel_row (oc_engine s) (fst read) (snd read) = Inr (ob_row observed) \<and>
          ob_version observed = row_version s read
      | None \<Rightarrow> read \<notin> set reads"
  unfolding take_snapshot_iff by blast

lemma validate_snapshot_iff:
  "validate_snapshot s snapshot = Inr () \<longleftrightarrow>
     (\<forall>read observed. om_lookup snapshot read = Some observed \<longrightarrow>
        rel_row (oc_engine s) (fst read) (snd read) = Inr (ob_row observed) \<and> ob_version observed = row_version s read)"
proof -
  have loop: "rfold (\<lambda>_ (read, observed).
       rbind (rel_row (oc_engine s) (fst read) (snd read)) (\<lambda>current.
       if current \<noteq> ob_row observed \<or> row_version s read \<noteq> ob_version observed then Inl InvalidInput else Inr ()))
       () xs = Inr () \<longleftrightarrow>
     (\<forall>(read, observed) \<in> set xs.
        rel_row (oc_engine s) (fst read) (snd read) = Inr (ob_row observed) \<and> ob_version observed = row_version s read)" for xs
    by (induction xs) (auto simp: rbind_eq_Inr split: if_splits)
  show ?thesis unfolding validate_snapshot_def loop ball_entries ..
qed

text \<open>A snapshot that validates is the one a transaction starting now would take.\<close>

lemma validate_is_fresh:
  assumes "take_snapshot s reads = Inr snapshot" "validate_snapshot s' snapshot = Inr ()"
  shows "take_snapshot s' reads = Inr snapshot"
  unfolding take_snapshot_iff
proof (intro conjI allI)
  show "distinct reads" using assms(1) by (simp add: take_snapshot_iff)
  fix read
  have "case om_lookup snapshot read of Some observed \<Rightarrow> read \<in> set reads | None \<Rightarrow> read \<notin> set reads"
    using take_snapshot_lookup [OF assms(1), of read] by (simp split: option.splits)
  then show "case om_lookup snapshot read of
        Some observed \<Rightarrow> read \<in> set reads \<and> rel_row (oc_engine s') (fst read) (snd read) = Inr (ob_row observed) \<and>
          ob_version observed = row_version s' read
      | None \<Rightarrow> read \<notin> set reads"
    using assms(2) unfolding validate_snapshot_iff by (simp split: option.splits del: split_paired_All)
qed

lemma validate_own_snapshot: "take_snapshot s reads = Inr snapshot \<Longrightarrow> validate_snapshot s snapshot = Inr ()"
  unfolding validate_snapshot_iff using take_snapshot_lookup [of s reads snapshot] by (fastforce split: option.splits)


subsection \<open>Serial executions\<close>

text \<open>Every pending transaction still holds the snapshot its reads had in some earlier state, and
  the state is what the serial execution of the history gives.\<close>

definition snapshot_of :: "row_read list \<Rightarrow> occ_snapshot \<Rightarrow> bool" where
  "snapshot_of reads snapshot \<longleftrightarrow> (\<exists>s. take_snapshot s reads = Inr snapshot)"

lemma transaction_serial:
  assumes "take_snapshot s reads = Inr snapshot" "body snapshot = Inr (output, ops)"
    and "occ_finish crc fault snapshot output ops s = (r, s')"
  shows "occ_transaction crc fault id reads body s = (r, s')"
  using assms by (simp add: occ_transaction_def)

lemma serial_run_append:
  "serial_run crc s (xs @ ys) =
     (case serial_run crc s xs of (rs, s') \<Rightarrow> (case serial_run crc s' ys of (rs', s'') \<Rightarrow> (rs @ rs', s'')))"
  by (induction xs arbitrary: s) (simp_all split: prod.splits)

lemma occ_finish_conflict:
  "validate_snapshot s snapshot = Inl err \<Longrightarrow> occ_finish crc fault snapshot output ops s = (Inl err, s)"
  by (simp add: occ_finish_def)

definition occ_inv :: "(bytes \<Rightarrow> 32 word) \<Rightarrow> occ_state \<Rightarrow> 'a occ_system \<Rightarrow> bool" where
  "occ_inv crc s0 sys \<longleftrightarrow>
     (\<forall>thread p. os_pending sys thread = Some p \<longrightarrow> snapshot_of (pe_reads p) (pe_snapshot p)) \<and>
     serial_run crc s0 (os_history sys) = (map dn_result (os_history sys), os_state sys)"

lemma occ_step_inv: "occ_step crc sys sys' \<Longrightarrow> occ_inv crc s0 sys \<Longrightarrow> occ_inv crc s0 sys'"
proof (induction rule: occ_step.induct)
  case (begin_tx s reads snapshot thread body)
  then show ?case by (auto simp: occ_inv_def snapshot_of_def)
next
  case (abort_tx s thread p err)
  then show ?case by (auto simp: occ_inv_def)
next
  case (conflict_tx s thread p out ops err fault r st)
  then show ?case using occ_finish_conflict [OF conflict_tx(3), of crc fault out ops] by (auto simp: occ_inv_def)
next
  case (commit_tx s thread p out ops fault r st)
  obtain s1 where "take_snapshot s1 (pe_reads p) = Inr (pe_snapshot p)"
    using commit_tx(1,5) by (auto simp: occ_inv_def snapshot_of_def)
  from transaction_serial [where body = "pe_body p", OF validate_is_fresh [OF this commit_tx(3)] commit_tx(2,4)] commit_tx(5) show ?case
    by (auto simp: occ_inv_def serial_run_append)
qed

lemma occ_initial_inv: "occ_inv crc s0 (occ_initial s0)"
  by (simp add: occ_inv_def occ_initial_def)

lemma occ_reachable_inv: "(occ_step crc)\<^sup>*\<^sup>* (occ_initial s0) sys \<Longrightarrow> occ_inv crc s0 sys"
  by (induction rule: rtranclp_induct) (auto intro: occ_initial_inv occ_step_inv)


subsection \<open>What a commit touches\<close>

definition row_in :: "rel_tables \<Rightarrow> row_read \<Rightarrow> cell list option" where
  "row_in tables read = (case om_lookup tables (fst read) of None \<Rightarrow> None | Some state \<Rightarrow> om_lookup (ts_rows state) (snd read))"

definition schemas_of :: "rel_tables \<Rightarrow> (bytes, schema) ordmap \<Rightarrow> bool" where
  "schemas_of tables schemas \<longleftrightarrow> (\<forall>t. om_lookup schemas t = map_option ts_schema (om_lookup tables t))"

text \<open>Rows outside \<open>touched_loop\<close> stay as they are.\<close>

lemma apply_ops_untouched:
  assumes "apply_ops tables ops = Inr tables'" "schemas_of tables schemas" "tables_ok tables"
    and "om_lookup tables (fst read) \<noteq> None" "read \<notin> set (touched_loop schemas ops)"
  shows "row_in tables' read = row_in tables read"
  using assms
proof (induction ops arbitrary: tables schemas)
  case Nil
  then show ?case by (simp add: apply_ops_def)
next
  case (Cons op ops)
  obtain mid where mid: "apply_op tables op = Inr mid" "apply_ops mid ops = Inr tables'"
    using Cons.prems(1) by (auto simp: apply_ops_def rbind_eq_Inr)
  note types = apply_op_types [OF Cons.prems(3) mid(1)]
  have some: "om_lookup mid (fst read) \<noteq> None" using types Cons.prems(4) by auto
  show ?case
  proof (cases op)
    case (CreateTable name schema)
    then have new: "mid = om_insert name \<lparr>ts_schema = schema, ts_rows = om_empty\<rparr> tables" "om_lookup tables name = None"
      using mid(1) by (auto simp: rbind_eq_Inr split: if_splits)
    have "schemas_of mid (om_insert name schema schemas)" using Cons.prems(2) by (simp add: schemas_of_def new)
    from Cons.IH [OF mid(2) this _ some] types Cons.prems(5) CreateTable have "row_in tables' read = row_in mid read" by simp
    then show ?thesis using new Cons.prems(4) by (auto simp: row_in_def)
  next
    case (UpsertRow table row)
    then obtain state where st: "om_lookup tables table = Some state" "validate_row (ts_schema state) row = Inr ()"
      "mid = om_insert table (state\<lparr>ts_rows := om_insert (row ! sm_primary_key (ts_schema state)) row (ts_rows state)\<rparr>) tables"
      using mid(1) by (auto simp: rbind_eq_Inr split: option.splits)
    have "schemas_of mid schemas" using Cons.prems(2) st by (auto simp: schemas_of_def)
    moreover have "sm_primary_key (ts_schema state) < length row"
      using st(1,2) Cons.prems(3) validate_schema_Inr(3) by (auto simp: validate_row_iff list_all2_iff tables_ok_iff table_ok_iff)
    moreover have "om_lookup schemas table = Some (ts_schema state)" using Cons.prems(2) st(1) by (simp add: schemas_of_def)
    ultimately have "row_in tables' read = row_in mid read" "read \<noteq> (table, row ! sm_primary_key (ts_schema state))"
      using Cons.IH [OF mid(2) _ _ some, of schemas] types Cons.prems(5) UpsertRow by auto
    then show ?thesis using st by (cases read) (auto simp: row_in_def)
  next
    case (DeleteRow table key)
    then obtain state where st: "om_lookup tables table = Some state"
      "mid = om_insert table (state\<lparr>ts_rows := om_remove key (ts_rows state)\<rparr>) tables"
      using mid(1) by (auto simp: rbind_eq_Inr split: option.splits)
    have "schemas_of mid schemas" using Cons.prems(2) st by (auto simp: schemas_of_def)
    then have "row_in tables' read = row_in mid read" "read \<noteq> (table, key)"
      using Cons.IH [OF mid(2) _ _ some, of schemas] types Cons.prems(5) DeleteRow by auto
    then show ?thesis using st by (cases read) (auto simp: row_in_def)
  qed
qed

lemma schemas_catalog: "schemas_of (re_tables e) (om_of_list (rel_catalog e))"
proof -
  have "om_lookup (om_of_list (rel_catalog e)) t = map_of (rel_catalog e) t" for t
  proof -
    have "distinct (map fst (rel_catalog e))"
      using al_ord_distinct [OF entries_ord [of "re_tables e"]] by (simp add: rel_catalog_def comp_def case_prod_beta')
    moreover from this have "map_of (rev (rel_catalog e)) = map_of (rel_catalog e)"
      by (intro map_of_inject_set [THEN iffD2]) (simp_all add: rev_map [symmetric])
    ultimately show ?thesis by (simp add: om_of_list_def om_lookup_fold_insert)
  qed
  moreover have "map_of (rel_catalog e) t = map_option ts_schema (om_lookup (re_tables e) t)" for t
    by (simp add: rel_catalog_def om_lookup_entries map_of_map)
  ultimately show ?thesis by (simp add: schemas_of_def)
qed

lemma rel_row_row_in: "rel_row e t k = Inr row \<Longrightarrow> row = row_in (re_tables e) (t, k) \<and> om_lookup (re_tables e) t \<noteq> None"
  by (auto simp: rel_row_def rel_table_def row_in_def rbind_eq_Inr ok_or_eq_Inr)

lemma rel_row_kept:
  assumes "rel_row e t k = Inr row" "om_lookup (re_tables e) t = Some st" "om_lookup (re_tables e') t = Some st'"
    and "ts_schema st' = ts_schema st"
  shows "rel_row e' t k = Inr (row_in (re_tables e') (t, k))"
  using assms by (auto simp: rel_row_def rel_table_def row_in_def rbind_eq_Inr)


text \<open>Row versions are ids already given out.\<close>

definition versions_ok :: "occ_state \<Rightarrow> bool" where
  "versions_ok s \<longleftrightarrow> 1 \<le> re_next_tx_id (oc_engine s) \<and> tables_ok (re_tables (oc_engine s)) \<and>
     (\<forall>read v. om_lookup (oc_row_versions s) read = Some v \<longrightarrow> v < re_next_tx_id (oc_engine s))"

lemma row_version_less: "versions_ok s \<Longrightarrow> row_version s read < re_next_tx_id (oc_engine s)"
  by (simp add: versions_ok_def row_version_def split: option.split del: split_paired_All)

lemma lookup_stamps:
  "om_lookup (fold (\<lambda>row versions. om_insert row v versions) rows m) read = (if read \<in> set rows then Some v else om_lookup m read)"
  by (induction rows arbitrary: m) auto

text \<open>Publishing, by another thread: either nothing a reader sees changes, or exactly the touched
  rows get the new id as their version and the others keep row and version.\<close>

lemma occ_publish_effect:
  assumes "versions_ok s" "re_next_tx_id (oc_engine s) < u64_max" "occ_publish crc fault s ops = (r, s')"
  shows "versions_ok s' \<and> re_next_tx_id (oc_engine s) \<le> re_next_tx_id (oc_engine s') \<and>
    (\<forall>t st. om_lookup (re_tables (oc_engine s)) t = Some st \<longrightarrow>
       (\<exists>st'. om_lookup (re_tables (oc_engine s')) t = Some st' \<and> ts_schema st' = ts_schema st)) \<and>
    (case r of
       Inl err \<Rightarrow> re_tables (oc_engine s') = re_tables (oc_engine s) \<and> oc_row_versions s' = oc_row_versions s
     | Inr tx_id \<Rightarrow> tx_id = re_next_tx_id (oc_engine s) \<and>
         (\<forall>read. row_version s' read =
            (if read \<in> set (touched_rows (oc_engine s) ops) then tx_id else row_version s read)) \<and>
         (\<forall>read. om_lookup (re_tables (oc_engine s)) (fst read) \<noteq> None \<and> read \<notin> set (touched_rows (oc_engine s) ops) \<longrightarrow>
            row_in (re_tables (oc_engine s')) read = row_in (re_tables (oc_engine s)) read))"
proof -
  obtain e' where e': "rel_commit crc fault (oc_engine s) ops = (r, e')"
    using assms(3) by (auto simp: occ_publish_def Let_def split: prod.splits sum.splits)
  note result = rel_commit_result [OF assms(2) e']
  have ok: "tables_ok (re_tables (oc_engine s))" using assms(1) by (simp add: versions_ok_def)
  show ?thesis
  proof (cases r)
    case (Inl err)
    then have "s' = s\<lparr>oc_engine := e'\<rparr>" using assms(3) e' by (simp add: occ_publish_def)
    then show ?thesis using Inl result assms(1) by (simp add: versions_ok_def)
  next
    case (Inr tx_id)
    let ?touched = "touched_rows (oc_engine s) ops"
    have s': "s' = s\<lparr>oc_engine := e', oc_row_versions := fold (\<lambda>row versions. om_insert row tx_id versions) ?touched (oc_row_versions s)\<rparr>"
      using Inr assms(3) e' by (simp add: occ_publish_def)
    have r: "apply_ops (re_tables (oc_engine s)) ops = Inr (re_tables e')" "tx_id = re_next_tx_id (oc_engine s)"
      "re_next_tx_id e' = tx_id + 1"
      using result Inr by auto
    note types = apply_ops_types [OF ok r(1)]
    have "versions_ok s'"
      using assms(1) types r(2,3) by (auto simp: versions_ok_def s' lookup_stamps less_SucI split: if_splits)
    moreover have "row_version s' read = (if read \<in> set ?touched then tx_id else row_version s read)" for read
      by (simp add: s' row_version_def lookup_stamps)
    moreover have "row_in (re_tables e') read = row_in (re_tables (oc_engine s)) read"
      if "om_lookup (re_tables (oc_engine s)) (fst read) \<noteq> None" "read \<notin> set ?touched" for read
      using apply_ops_untouched [OF r(1) schemas_catalog ok that(1)] that(2) by (simp add: touched_rows_def)
    ultimately show ?thesis using Inr r types by (simp add: s' del: split_paired_All)
  qed
qed

text \<open>A run of other threads' commits, each with the fault it met, and the rows those that
  succeeded touched.\<close>

primrec publish_run :: "(bytes \<Rightarrow> 32 word) \<Rightarrow> (io_fault \<times> rel_op list) list \<Rightarrow> occ_state \<Rightarrow> occ_state" where
  "publish_run crc [] s = s"
| "publish_run crc (c # cs) s = publish_run crc cs (snd (occ_publish crc (fst c) s (snd c)))"

primrec run_touches :: "(bytes \<Rightarrow> 32 word) \<Rightarrow> (io_fault \<times> rel_op list) list \<Rightarrow> occ_state \<Rightarrow> row_read set" where
  "run_touches crc [] s = {}"
| "run_touches crc (c # cs) s =
     (if is_ok (fst (occ_publish crc (fst c) s (snd c))) then set (touched_rows (oc_engine s) (snd c)) else {}) \<union>
     run_touches crc cs (snd (occ_publish crc (fst c) s (snd c)))"

lemma publish_run_effect:
  assumes "versions_ok s" "re_next_tx_id (oc_engine s) + length cs \<le> u64_max"
  shows "versions_ok (publish_run crc cs s) \<and> re_next_tx_id (oc_engine s) \<le> re_next_tx_id (oc_engine (publish_run crc cs s)) \<and>
    (\<forall>t st. om_lookup (re_tables (oc_engine s)) t = Some st \<longrightarrow>
       (\<exists>st'. om_lookup (re_tables (oc_engine (publish_run crc cs s))) t = Some st' \<and> ts_schema st' = ts_schema st)) \<and>
    (\<forall>read. om_lookup (re_tables (oc_engine s)) (fst read) \<noteq> None \<longrightarrow>
       (if read \<in> run_touches crc cs s
        then re_next_tx_id (oc_engine s) \<le> row_version (publish_run crc cs s) read
        else row_version (publish_run crc cs s) read = row_version s read \<and>
          row_in (re_tables (oc_engine (publish_run crc cs s))) read = row_in (re_tables (oc_engine s)) read))"
  using assms
proof (induction cs arbitrary: s)
  case Nil
  then show ?case by simp
next
  case (Cons c cs)
  obtain r s1 where p: "occ_publish crc (fst c) s (snd c) = (r, s1)" by force
  have room: "re_next_tx_id (oc_engine s) < u64_max" using Cons.prems(2) by simp
  note eff = occ_publish_effect [OF Cons.prems(1) room p]
  have "re_next_tx_id (oc_engine s1) \<le> re_next_tx_id (oc_engine s) + 1"
  proof -
    obtain e' where "rel_commit crc (fst c) (oc_engine s) (snd c) = (r, e')" "oc_engine s1 = e'"
      using p by (auto simp: occ_publish_def Let_def split: prod.splits sum.splits)
    with rel_commit_result [OF room this(1)] show ?thesis by (auto split: sum.splits)
  qed
  then have room1: "re_next_tx_id (oc_engine s1) + length cs \<le> u64_max" using Cons.prems(2) by simp
  have ok1: "versions_ok s1" using eff by blast
  note ih = Cons.IH [OF ok1 room1]
  have per_row: "if read \<in> run_touches crc (c # cs) s
      then re_next_tx_id (oc_engine s) \<le> row_version (publish_run crc cs s1) read
      else row_version (publish_run crc cs s1) read = row_version s read \<and>
        row_in (re_tables (oc_engine (publish_run crc cs s1))) read = row_in (re_tables (oc_engine s)) read"
    if some: "om_lookup (re_tables (oc_engine s)) (fst read) \<noteq> None" for read
  proof -
    have some1: "om_lookup (re_tables (oc_engine s1)) (fst read) \<noteq> None" using eff some by fastforce
    have mono: "re_next_tx_id (oc_engine s) \<le> re_next_tx_id (oc_engine s1)" using eff by blast
    have rest: "if read \<in> run_touches crc cs s1
        then re_next_tx_id (oc_engine s1) \<le> row_version (publish_run crc cs s1) read
        else row_version (publish_run crc cs s1) read = row_version s1 read \<and>
          row_in (re_tables (oc_engine (publish_run crc cs s1))) read = row_in (re_tables (oc_engine s1)) read"
      using ih some1 by blast
    show ?thesis
    proof (cases r)
      case (Inl err)
      then have "row_version s1 read = row_version s read" "row_in (re_tables (oc_engine s1)) read = row_in (re_tables (oc_engine s)) read"
        using eff by (simp_all add: row_version_def row_in_def)
      then show ?thesis using rest mono Inl by (auto simp: p)
    next
      case (Inr tx_id)
      then have "row_version s1 read = (if read \<in> set (touched_rows (oc_engine s) (snd c)) then tx_id else row_version s read)"
        "tx_id = re_next_tx_id (oc_engine s)"
        "read \<notin> set (touched_rows (oc_engine s) (snd c)) \<Longrightarrow>
           row_in (re_tables (oc_engine s1)) read = row_in (re_tables (oc_engine s)) read"
        using eff some Inr by (simp_all del: split_paired_All)
      then show ?thesis using rest mono Inr by (auto simp: p simp del: split_paired_All split: if_splits)
    qed
  qed
  have "re_next_tx_id (oc_engine s) \<le> re_next_tx_id (oc_engine (publish_run crc cs s1))"
    using ih eff by (meson le_trans)
  moreover have "\<exists>st'. om_lookup (re_tables (oc_engine (publish_run crc cs s1))) t = Some st' \<and> ts_schema st' = ts_schema st"
    if "om_lookup (re_tables (oc_engine s)) t = Some st" for t st
    using eff ih that by metis
  ultimately show ?case using ih per_row by (simp add: p del: split_paired_All run_touches.simps)
qed

lemma validate_snapshot_error: "validate_snapshot s snapshot = Inl err \<Longrightarrow> err = InvalidInput"
proof -
  have row: "rel_row e t k = Inl err' \<Longrightarrow> err' = InvalidInput" for e t k err'
    by (auto simp: rel_row_def rel_table_def rbind_eq_Inl ok_or_def split: option.splits dest: validate_cell_error)
  have step: "e = InvalidInput" if "(\<lambda>_ (read, observed).
       rbind (rel_row (oc_engine s) (fst read) (snd read)) (\<lambda>current.
       if current \<noteq> ob_row observed \<or> row_version s read \<noteq> ob_version observed then Inl InvalidInput else Inr ())) u x = Inl e" for u x e
    using that by (cases x) (auto simp: rbind_eq_Inl dest: row split: if_splits)
  assume "validate_snapshot s snapshot = Inl err"
  from rfold_error [OF step this [unfolded validate_snapshot_def]] show ?thesis .
qed

lemma validate_after_run:
  assumes "versions_ok s" "re_next_tx_id (oc_engine s) + length cs \<le> u64_max" "take_snapshot s reads = Inr snapshot"
  shows "validate_snapshot (publish_run crc cs s) snapshot = Inr () \<longleftrightarrow> set reads \<inter> run_touches crc cs s = {}"
proof -
  let ?s = "publish_run crc cs s"
  note eff = publish_run_effect [OF assms(1,2), of crc]
  have row: "rel_row (oc_engine ?s) (fst read) (snd read) = Inr (ob_row observed) \<and> ob_version observed = row_version ?s read \<longleftrightarrow>
      read \<notin> run_touches crc cs s"
    if "om_lookup snapshot read = Some observed" for read observed
  proof -
    have obs: "rel_row (oc_engine s) (fst read) (snd read) = Inr (ob_row observed)" "ob_version observed = row_version s read"
      using take_snapshot_lookup [OF assms(3), of read] that by auto
    have some: "om_lookup (re_tables (oc_engine s)) (fst read) \<noteq> None" "ob_row observed = row_in (re_tables (oc_engine s)) read"
      using rel_row_row_in [OF obs(1)] by simp_all
    then obtain st st' where "om_lookup (re_tables (oc_engine s)) (fst read) = Some st"
      "om_lookup (re_tables (oc_engine ?s)) (fst read) = Some st'" "ts_schema st' = ts_schema st"
      using eff by (metis not_None_eq)
    from rel_row_kept [OF obs(1) this] have now: "rel_row (oc_engine ?s) (fst read) (snd read) = Inr (row_in (re_tables (oc_engine ?s)) read)"
      by simp
    have per_row: "if read \<in> run_touches crc cs s
       then re_next_tx_id (oc_engine s) \<le> row_version ?s read
       else row_version ?s read = row_version s read \<and> row_in (re_tables (oc_engine ?s)) read = row_in (re_tables (oc_engine s)) read"
      using eff some(1) by blast
    show ?thesis using per_row now obs(2) some(2) row_version_less [OF assms(1), of read] by (auto split: if_splits)
  qed
  have reads: "read \<in> set reads \<longleftrightarrow> (\<exists>observed. om_lookup snapshot read = Some observed)" for read
    using take_snapshot_lookup [OF assms(3), of read] by (auto split: option.splits)
  show ?thesis unfolding validate_snapshot_iff using row reads by (simp add: disjoint_iff del: split_paired_All)
qed



subsection \<open>Properties\<close>

text \<open>C7 (occ_serial): optimistic transactions are serializable.  Whatever interleaving of snapshots,
  bodies, aborts, conflicts and commits the threads reach, and whatever faults the commits meet,
  running the transactions whose snapshot was still valid one at a time, in the order they
  finished, from the same initial state gives every one of them the result it returned, and ends
  in the same engine with the same row versions.\<close>

theorem occ_serializable:
  assumes "(occ_step crc)\<^sup>*\<^sup>* (occ_initial s0) sys"
  shows "serial_run crc s0 (os_history sys) = (map dn_result (os_history sys), os_state sys)"
  using occ_reachable_inv [OF assms] by (simp add: occ_inv_def)

definition sample_occ :: occ_state where
  "sample_occ = \<lparr>oc_engine = fresh_rel (\<lambda>_. 0) None, oc_row_versions = om_empty\<rparr>"

lemma occ_serializable_witness:
  "\<exists>sys :: nat occ_system. os_history sys \<noteq> [] \<and>
     serial_run (\<lambda>_. 0) sample_occ (os_history sys) = (map dn_result (os_history sys), os_state sys)"
proof -
  let ?s = "occ_initial sample_occ :: nat occ_system"
  let ?body = "\<lambda>_. Inr (5, [])"
  have snap: "take_snapshot (os_state ?s) [] = Inr om_empty" by (simp add: take_snapshot_def)
  let ?p = "\<lparr>pe_reads = [], pe_body = ?body, pe_snapshot = om_empty\<rparr>"
  let ?s1 = "?s\<lparr>os_pending := (os_pending ?s)(0 \<mapsto> ?p)\<rparr>"
  let ?s2 = "?s1\<lparr>os_state := sample_occ, os_pending := (os_pending ?s1)(0 := None),
       os_history := os_history ?s1 @ [\<lparr>dn_reads = [], dn_body = ?body, dn_fault = None, dn_result = Inr (None, 5)\<rparr>]\<rparr>"
  have "occ_step (\<lambda>_. 0) ?s ?s1" by (rule occ_step.begin_tx [OF snap])
  moreover have "occ_step (\<lambda>_. 0) ?s1 ?s2"
    using occ_step.commit_tx [of ?s1 0 ?p 5 "[]" "\<lambda>_. 0" None "Inr (None, 5)" sample_occ]
    by (simp add: validate_snapshot_def occ_finish_def occ_initial_def)
  ultimately have "(occ_step (\<lambda>_. 0))\<^sup>*\<^sup>* ?s ?s2" by (meson converse_rtranclp_into_rtranclp rtranclp.rtrancl_refl)
  from occ_serializable [OF this] show ?thesis by (intro exI [of _ ?s2]) simp
qed

text \<open>C8 (occ_conflict): conflicts are exact, so transactions make progress.  When other threads
  commit while a body runs, the transaction ends with a conflict, changing nothing, if and only if
  one of their successful commits touched a row it read, even when the row holds its old value
  again; in every other case its validation passes and it ends as its own commit ends.  So a
  transaction is only ever refused because another one has committed.\<close>

theorem occ_conflict_exact:
  assumes "versions_ok s" "re_next_tx_id (oc_engine s) + length cs \<le> u64_max" "take_snapshot s reads = Inr snapshot"
  shows "occ_finish crc fault snapshot output ops (publish_run crc cs s) =
    (if set reads \<inter> run_touches crc cs s \<noteq> {} then (Inl InvalidInput, publish_run crc cs s)
     else if ops = [] then (Inr (None, output), publish_run crc cs s)
     else (case occ_publish crc fault (publish_run crc cs s) ops of
        (Inl err, s') \<Rightarrow> (Inl err, s')
      | (Inr tx_id, s') \<Rightarrow> (Inr (Some tx_id, output), s')))"
proof (cases "validate_snapshot (publish_run crc cs s) snapshot")
  case (Inl err)
  then have "\<not> set reads \<inter> run_touches crc cs s = {}" using validate_after_run [OF assms, of crc] by simp
  then show ?thesis using Inl validate_snapshot_error [OF Inl] by (simp add: occ_finish_def)
next
  case (Inr u)
  then have "set reads \<inter> run_touches crc cs s = {}" using validate_after_run [OF assms, of crc] by simp
  then show ?thesis using Inr by (simp add: occ_finish_def)
qed

text \<open>The row is deleted and written again with its old value: still a conflict.\<close>

definition rewrite_ops :: "rel_op list" where
  "rewrite_ops = [DeleteRow (ascii ''t'') (CInt64 7), UpsertRow (ascii ''t'') [CInt64 7, CText (ascii ''x'')]]"

lemma rewrite_apply: "apply_ops sample_tables rewrite_ops = Inr sample_tables"
proof -
  have "validate_row sample_schema [CInt64 7, CText (ascii ''x'')] = Inr ()"
    by (simp add: validate_row_iff sample_schema_def MAX_VALUE_BYTES_def)
  moreover have "validate_cell_type (CInt64 7) (key_type sample_schema) = Inr ()"
    by (simp add: validate_cell_type_iff key_type_def sample_schema_def)
  ultimately show ?thesis
    by (simp add: apply_ops_def rewrite_ops_def sample_tables_def)
      (auto simp: sample_schema_def intro!: ordmap_eqI)
qed

lemma rewrite_encodes: "\<exists>bs. encode_transaction crc i rewrite_ops = Inr bs"
  by (simp add: encode_transaction_iff rewrite_ops_def rbind_eq_Inr put_string_def
      put_u16_def try_u16_def Let_def rel_consts MAX_VALUE_BYTES_def del: le_bytes.simps)

lemma occ_conflict_exact_witness:
  "\<exists>s snapshot. take_snapshot s [(ascii ''t'', CInt64 7)] = Inr snapshot \<and>
     re_tables (oc_engine (publish_run (\<lambda>_. 0) [(None, rewrite_ops)] s)) = re_tables (oc_engine s) \<and>
     fst (occ_finish (\<lambda>_. 0) None snapshot () [] (publish_run (\<lambda>_. 0) [(None, rewrite_ops)] s)) = Inl InvalidInput"
proof -
  let ?crc = "\<lambda>_. 0 :: 32 word"
  have "rel_invar ?crc (fresh_rel ?crc None)" "rel_room (Suc 1) (fresh_rel ?crc None)"
    by (simp_all add: rel_invar_fresh rel_room_fresh MAX_WORKLOAD_STEPS_def)
  from rel_commit_accepts [OF this sample_texts(1) sample_acceptable] obtain e where
    c: "apply_ops (re_tables (fresh_rel ?crc None)) sample_ops = Inr (re_tables e)"
    "re_next_tx_id e = re_next_tx_id (fresh_rel ?crc None) + 1" and inv: "rel_invar ?crc e" "rel_room 1 e"
    by blast
  then have e: "re_tables e = sample_tables" "rel_invar ?crc e" "rel_room 1 e" "re_next_tx_id e = 2"
    using sample_apply by (simp_all add: fresh_rel_def)
  let ?s = "\<lparr>oc_engine = e, oc_row_versions = om_empty\<rparr>"
  have vok: "versions_ok ?s" using e rel_invar_tables [OF e(2)] by (simp add: versions_ok_def)
  have row: "rel_row e (ascii ''t'') (CInt64 7) = Inr (Some [CInt64 7, CText (ascii ''x'')])"
    by (simp add: rel_row_def rel_table_def e sample_tables_def validate_cell_type_def key_type_def sample_schema_def)
  then obtain snapshot where snap: "take_snapshot ?s [(ascii ''t'', CInt64 7)] = Inr snapshot"
    by (simp add: take_snapshot_def)
  have acc: "tx_acceptable ?crc e rewrite_ops"
    using rewrite_apply rewrite_encodes [of ?crc "re_next_tx_id e"]
    by (auto simp: tx_acceptable_def e rewrite_ops_def MAX_OPS_def)
  have "list_all op_texts rewrite_ops" by (simp add: rewrite_ops_def ascii_def)
  from rel_commit_accepts [OF e(2) _ this acc, of 0] e(3) rewrite_apply obtain e' where
    e': "rel_commit ?crc None e rewrite_ops = (Inr 2, e')" "re_tables e' = sample_tables"
    by (auto simp: e)
  have "(ascii ''t'', CInt64 7) \<in> run_touches ?crc [(None, rewrite_ops)] ?s"
  proof -
    have "(ascii ''t'', CInt64 7) \<in> set (touched_rows e rewrite_ops)"
      by (simp add: touched_rows_def rewrite_ops_def)
    then show ?thesis by (simp add: occ_publish_def e')
  qed
  then have "fst (occ_finish ?crc None snapshot () [] (publish_run ?crc [(None, rewrite_ops)] ?s)) = Inl InvalidInput"
    using occ_conflict_exact [OF vok _ snap, of "[(None, rewrite_ops)]" ?crc None "()" "[]"] e(4)
    by (simp add: u64_max_def)
  moreover have "re_tables (oc_engine (publish_run ?crc [(None, rewrite_ops)] ?s)) = re_tables (oc_engine ?s)"
    by (simp add: occ_publish_def e' e)
  ultimately show ?thesis using snap by blast
qed

end
