(* ===== verification/Crc32.thy ===== *)
theory Crc32
  imports DbPrelude
begin

text \<open>
  The checksum of \<open>crates/db-cli/src/generation_marker.rs\<close>: CRC-32/IEEE in its reflected form,
  with the 256-entry table the source builds at compile time and the streaming hasher.  The
  register is kept at its width, 32 bits.  The second half gives the reference definition, one
  bit at a time, the equality of the two, and what the checksum detects.
\<close>

subsection \<open>The code\<close>

definition CRC32_POLYNOMIAL :: "32 word" where
  "CRC32_POLYNOMIAL = 0xedb88320"

definition crc32_bit :: "32 word \<Rightarrow> 32 word" where
  "crc32_bit c = (if c AND 1 = 1 then drop_bit 1 c XOR CRC32_POLYNOMIAL else drop_bit 1 c)"

definition build_crc32_table :: "32 word list" where
  "build_crc32_table = map (\<lambda>index. (crc32_bit ^^ 8) (word_of_nat index)) [0..<256]"

definition CRC32_TABLE :: "32 word list" where
  "CRC32_TABLE = build_crc32_table"

record crc32_hasher =
  ch_state :: "32 word"

definition crc32_new :: crc32_hasher where
  "crc32_new = \<lparr>ch_state = - 1\<rparr>"

fun crc32_update :: "crc32_hasher \<Rightarrow> bytes \<Rightarrow> crc32_hasher" where
  "crc32_update h [] = h"
| "crc32_update h (b # bs) =
     (let index = unat ((ch_state h XOR ucast b) AND 0xff)
      in crc32_update (h\<lparr>ch_state := drop_bit 8 (ch_state h) XOR CRC32_TABLE ! index\<rparr>) bs)"

definition crc32_finalize :: "crc32_hasher \<Rightarrow> 32 word" where
  "crc32_finalize h = NOT (ch_state h)"

definition crc32_ieee :: "bytes \<Rightarrow> 32 word" where
  "crc32_ieee bs = crc32_finalize (crc32_update crc32_new bs)"


subsection \<open>The reference: one bit at a time\<close>

definition crc32_bits8 :: "32 word \<Rightarrow> 32 word" where
  "crc32_bits8 c = (crc32_bit ^^ 8) c"

definition crc32_octet :: "32 word \<Rightarrow> byte \<Rightarrow> 32 word" where
  "crc32_octet c b = crc32_bits8 (c XOR ucast b)"

definition crc32_bitwise :: "bytes \<Rightarrow> 32 word" where
  "crc32_bitwise bs = NOT (foldl crc32_octet (- 1) bs)"

lemma and_one_iff: "(c AND 1 = 1) = bit (c :: 32 word) 0"
  by (simp add: and_one_eq bit_0 mod_2_eq_odd)

lemma crc32_bit_eq: "crc32_bit c = drop_bit 1 c XOR (if bit c 0 then CRC32_POLYNOMIAL else 0)"
  by (simp add: crc32_bit_def and_one_iff)

lemma crc32_bit_xor: "crc32_bit (c XOR d) = crc32_bit c XOR crc32_bit d"
  by (rule bit_word_eqI) (auto simp: crc32_bit_eq bit_simps)

lemma crc32_bits_xor: "(crc32_bit ^^ n) (c XOR d) = (crc32_bit ^^ n) c XOR (crc32_bit ^^ n) d"
  by (induction n) (simp_all add: crc32_bit_xor)

text \<open>The top bit of the polynomial is set, so a step can be undone.\<close>

lemma bit_31_crc32_bit: "bit (crc32_bit c) 31 = bit c 0"
proof -
  have "bit CRC32_POLYNOMIAL 31" by (simp add: CRC32_POLYNOMIAL_def)
  moreover have "\<not> bit c 32" using bit_imp_le_length [of c 32] by auto
  ultimately show ?thesis by (simp add: crc32_bit_eq bit_simps)
qed

lemma crc32_bit_zero: "crc32_bit c = 0 \<Longrightarrow> c = 0"
proof -
  assume z: "crc32_bit c = 0"
  then have "\<not> bit c 0" using bit_31_crc32_bit [of c] by simp
  then have d: "drop_bit 1 c = 0" using z by (simp add: crc32_bit_eq)
  have up: "\<not> bit c (Suc n)" for n
    using arg_cong [OF d, of "\<lambda>w. bit w n"] by (simp add: bit_simps)
  show "c = 0"
  proof (rule bit_word_eqI)
    show "bit c n = bit 0 n" for n
      using \<open>\<not> bit c 0\<close> up by (cases n) simp_all
  qed
qed

lemma crc32_bits_zero: "(crc32_bit ^^ n) c = 0 \<Longrightarrow> c = 0"
  by (induction n) (auto dest: crc32_bit_zero)

lemma xor_eq_0_word: "(a XOR b = 0) = (a = (b :: 'a::len word))"
proof
  assume z: "a XOR b = 0"
  have "a = (a XOR b) XOR b" by (simp add: xor.assoc)
  then show "a = b" by (simp only: z xor.left_neutral)
qed simp

lemma xor_cancel: "(a XOR c = b XOR c) = (a = b)" "(c XOR a = c XOR b) = (a = (b :: 'a::len word))"
proof -
  have "a = b" if "a XOR c = b XOR c"
  proof -
    have "a = (a XOR c) XOR c" "b = (b XOR c) XOR c" by (simp_all add: xor.assoc)
    with that show ?thesis by simp
  qed
  then show "(a XOR c = b XOR c) = (a = b)" by auto
  then show "(c XOR a = c XOR b) = (a = b)" by (simp only: xor.commute [of c])
qed

lemma crc32_bits_inject: "(crc32_bit ^^ n) c = (crc32_bit ^^ n) d \<Longrightarrow> c = d"
  using crc32_bits_zero [of n "c XOR d"] by (simp add: crc32_bits_xor xor_eq_0_word)

lemma crc32_bits8_xor: "crc32_bits8 (c XOR d) = crc32_bits8 c XOR crc32_bits8 d"
  unfolding crc32_bits8_def by (rule crc32_bits_xor)

lemma crc32_bits8_inject: "crc32_bits8 c = crc32_bits8 d \<longleftrightarrow> c = d"
  unfolding crc32_bits8_def by (metis crc32_bits_inject)

text \<open>Zero low bits only shift out.\<close>

lemma crc32_bits_shift: "(\<And>i. i < n \<Longrightarrow> \<not> bit c i) \<Longrightarrow> (crc32_bit ^^ n) c = drop_bit n c"
proof (induction n)
  case 0
  show ?case by simp
next
  case (Suc n)
  then have "(crc32_bit ^^ n) c = drop_bit n c" by simp
  then have "(crc32_bit ^^ Suc n) c = crc32_bit (drop_bit n c)" by simp
  also have "\<dots> = drop_bit 1 (drop_bit n c)"
    using Suc.prems [of n] by (subst crc32_bit_eq) (simp add: bit_simps)
  finally show ?case by simp
qed

lemma mask_8: "(0xff :: 32 word) = mask 8"
  by (simp add: mask_eq_exp_minus_1)

lemma crc32_bits8_shift: "(\<And>i. i < 8 \<Longrightarrow> \<not> bit c i) \<Longrightarrow> crc32_bits8 c = drop_bit 8 c"
  unfolding crc32_bits8_def by (rule crc32_bits_shift)

lemma crc32_octet_table:
  "crc32_octet c b = drop_bit 8 c XOR CRC32_TABLE ! unat ((c XOR ucast b) AND 0xff)"
proof -
  let ?x = "c XOR ucast b"
  let ?low = "?x AND 0xff" and ?high = "?x AND NOT 0xff"
  have split: "?x = ?high XOR ?low"
    by (rule bit_word_eqI) (auto simp: bit_simps)
  have "crc32_bits8 ?high = drop_bit 8 ?high"
    by (rule crc32_bits8_shift) (auto simp: mask_8 bit_simps)
  also have "\<dots> = drop_bit 8 c"
  proof (rule bit_word_eqI)
    fix n
    show "bit (drop_bit 8 ?high) n = bit (drop_bit 8 c) n"
      using bit_imp_le_length [of b "8 + n"] bit_imp_le_length [of c "8 + n"]
      by (auto simp: mask_8 bit_simps)
  qed
  finally have high: "crc32_bits8 ?high = drop_bit 8 c" .
  have "?low = take_bit 8 ?x" by (simp add: mask_8 take_bit_eq_mask)
  then have "unat ?low < 256"
    by (simp add: take_bit_eq_mod unat_mod_distrib)
  then have "CRC32_TABLE ! unat ?low = crc32_bits8 ?low"
    by (simp add: CRC32_TABLE_def build_crc32_table_def crc32_bits8_def)
  then show ?thesis
    unfolding crc32_octet_def by (subst split) (simp only: crc32_bits8_xor high)
qed

lemma crc32_update_fold: "ch_state (crc32_update h bs) = foldl crc32_octet (ch_state h) bs"
  by (induction h bs rule: crc32_update.induct) (simp_all add: crc32_octet_table Let_def)

lemma crc32_ieee_fold: "crc32_ieee bs = NOT (foldl crc32_octet (- 1) bs)"
  by (simp add: crc32_ieee_def crc32_finalize_def crc32_update_fold crc32_new_def)

lemma crc32_update_append: "crc32_update h (xs @ ys) = crc32_update (crc32_update h xs) ys"
  by (induction h xs rule: crc32_update.induct) (simp_all add: Let_def)


subsection \<open>What the checksum detects\<close>

text \<open>The first four bytes enter the register as a little-endian word.\<close>

fun le_register :: "bytes \<Rightarrow> 32 word" where
  "le_register [] = 0"
| "le_register (b # bs) = ucast b XOR push_bit 8 (le_register bs)"

lemma bit_le_register: "bit (le_register bs) i \<Longrightarrow> i < 8 * length bs"
proof (induction bs arbitrary: i)
  case Nil
  then show ?case by simp
next
  case (Cons b bs)
  then consider "bit b i" | "8 \<le> i" "bit (le_register bs) (i - 8)"
    by (auto simp: bit_simps)
  then show ?case
  proof cases
    case 1
    then show ?thesis using bit_imp_le_length [of b i] by simp
  next
    case 2
    then show ?thesis using Cons.IH [of "i - 8"] by simp
  qed
qed

lemma crc32_octet_push:
  assumes "length bs \<le> 3"
  shows "crc32_bits8 (push_bit 8 (le_register bs)) = le_register bs"
proof -
  have "crc32_bits8 (push_bit 8 (le_register bs)) = drop_bit 8 (push_bit 8 (le_register bs))"
    by (rule crc32_bits8_shift) (simp add: bit_simps)
  also have "\<dots> = le_register bs"
  proof (rule bit_word_eqI)
    fix i
    show "bit (drop_bit 8 (push_bit 8 (le_register bs))) i = bit (le_register bs) i"
      using assms bit_le_register [of bs i] by (auto simp: bit_simps)
  qed
  finally show ?thesis .
qed

lemma xor_regroup: "(s XOR x) XOR (t XOR y) = (s XOR t) XOR (x XOR y)" for s :: "'a::len word"
  by (simp only: xor.assoc xor.left_commute xor.commute)

lemma xor_move: "a XOR b = c \<longleftrightarrow> a = b XOR c" for a :: "'a::len word"
  by (metis xor_cancel(1) xor.commute xor.assoc xor_self_eq xor.right_neutral)

lemma foldl_octet_diff:
  "length xs = length ys \<Longrightarrow> length xs \<le> 4 \<Longrightarrow> foldl crc32_octet s xs = foldl crc32_octet t ys \<Longrightarrow>
     s XOR t = le_register xs XOR le_register ys"
proof (induction xs ys arbitrary: s t rule: list_induct2)
  case Nil
  then show ?case by simp
next
  case (Cons x xs y ys)
  let ?e = "le_register xs XOR le_register ys"
  have len: "length xs \<le> 3" "length ys \<le> 3" using Cons.hyps Cons.prems(1) by simp_all
  have "crc32_octet s x XOR crc32_octet t y = ?e"
    using Cons.IH [of "crc32_octet s x" "crc32_octet t y"] Cons.prems by simp
  then have "crc32_bits8 ((s XOR ucast x) XOR (t XOR ucast y)) = ?e"
    by (simp only: crc32_octet_def crc32_bits8_xor)
  also have "?e = crc32_bits8 (push_bit 8 ?e)"
    by (simp only: push_bit_xor crc32_bits8_xor crc32_octet_push [OF len(1)] crc32_octet_push [OF len(2)])
  finally have "(s XOR t) XOR (ucast x XOR ucast y) = push_bit 8 ?e"
    by (simp only: crc32_bits8_inject xor_regroup)
  then have "s XOR t = (ucast x XOR ucast y) XOR push_bit 8 ?e"
    by (rule iffD1 [OF xor_move])
  also have "\<dots> = le_register (x # xs) XOR le_register (y # ys)"
    by (simp only: le_register.simps push_bit_xor xor_regroup)
  finally show ?case .
qed

lemma foldl_octet_register:
  assumes "length xs = length ys" "length xs \<le> 4" "foldl crc32_octet s xs = foldl crc32_octet s ys"
  shows "le_register xs = le_register ys"
proof -
  have "s XOR s = le_register xs XOR le_register ys" by (rule foldl_octet_diff) fact+
  then have "le_register xs XOR le_register ys = 0" by (simp only: xor_self_eq)
  then show ?thesis by (simp only: xor_eq_0_word)
qed

lemma foldl_octet_same:
  "length xs = length ys \<Longrightarrow> length xs \<le> 4 \<Longrightarrow> s XOR le_register xs = t XOR le_register ys \<Longrightarrow>
     foldl crc32_octet s xs = foldl crc32_octet t ys"
proof (induction xs ys arbitrary: s t rule: list_induct2)
  case Nil
  then show ?case by simp
next
  case (Cons x xs y ys)
  have len: "length xs \<le> 3" "length ys \<le> 3" using Cons.hyps Cons.prems(1) by simp_all
  have "crc32_bits8 (s XOR le_register (x # xs)) = crc32_bits8 (t XOR le_register (y # ys))"
    using Cons.prems(2) by simp
  then have "crc32_octet s x XOR le_register xs = crc32_octet t y XOR le_register ys"
    by (simp only: le_register.simps crc32_octet_def crc32_bits8_xor xor.assoc [symmetric]
        crc32_octet_push [OF len(1)] crc32_octet_push [OF len(2)])
  then show ?case using Cons.IH len by simp
qed

lemma le_register_inject:
  "length xs = length ys \<Longrightarrow> length xs \<le> 4 \<Longrightarrow> le_register xs = le_register ys \<Longrightarrow> xs = ys"
proof (induction xs ys rule: list_induct2)
  case Nil
  show ?case by simp
next
  case (Cons x xs y ys)
  have len: "length xs \<le> 3" "length ys \<le> 3" using Cons.hyps Cons.prems(1) by simp_all
  have eq: "ucast x XOR push_bit 8 (le_register xs) = (ucast y XOR push_bit 8 (le_register ys) :: 32 word)"
    using Cons.prems(2) by simp
  have low: "bit x i = bit y i" if "i < 8" for i
    using arg_cong [OF eq, of "\<lambda>w. bit w i"] that by (simp add: bit_simps)
  have xy: "x = y" by (rule bit_word_eqI) (simp add: low)
  have "push_bit 8 (le_register xs) = push_bit 8 (le_register ys)"
    using eq unfolding xy xor_cancel .
  then have "le_register xs = le_register ys"
    using crc32_octet_push [OF len(1)] crc32_octet_push [OF len(2)] by metis
  with Cons.IH len xy show ?case by simp
qed

lemma foldl_octet_inject: "foldl crc32_octet s z = foldl crc32_octet t z \<Longrightarrow> s = t"
proof (induction z arbitrary: s t)
  case Nil
  then show ?case by simp
next
  case (Cons b z)
  then have "crc32_octet s b = crc32_octet t b" by simp
  then show ?case by (simp only: crc32_octet_def crc32_bits8_inject xor_cancel)
qed

lemma crc32_state_burst:
  assumes "length x = length y" "length x \<le> 4" "x \<noteq> y"
  shows "foldl crc32_octet s (a @ x @ z) \<noteq> foldl crc32_octet s (a @ y @ z)"
proof
  assume "foldl crc32_octet s (a @ x @ z) = foldl crc32_octet s (a @ y @ z)"
  then have "foldl crc32_octet (foldl crc32_octet s a) x = foldl crc32_octet (foldl crc32_octet s a) y"
    by (auto dest: foldl_octet_inject)
  then have "le_register x = le_register y"
    by (rule foldl_octet_register [OF assms(1,2)])
  with assms show False using le_register_inject by blast
qed

text \<open>A message followed by its own checksum leaves the register in one fixed state.\<close>

definition crc32_residue :: "32 word" where
  "crc32_residue = foldl crc32_octet 0 [0xff, 0xff, 0xff, 0xff]"

lemma le_register_residue: "le_register [0xff, 0xff, 0xff, 0xff] = - 1"
  by simp

lemma le_register_crc_field: "le_register (crc_field w) = w"
proof -
  have "le_register (le_bytes k n) = take_bit (8 * k) (word_of_nat n)" if "k \<le> 4" for k n
    using that
  proof (induction k arbitrary: n)
    case 0
    show ?case by simp
  next
    case (Suc k)
    have "ucast (word_of_nat n :: byte) = take_bit 8 (word_of_nat n :: 32 word)"
      by (rule bit_word_eqI) (simp add: bit_simps)
    moreover have "word_of_nat (n div 256) = (word_of_nat (drop_bit 8 n) :: 32 word)"
      by (simp add: drop_bit_eq_div)
    ultimately have "le_register (le_bytes (Suc k) n) = take_bit 8 (word_of_nat n) XOR
        push_bit 8 (take_bit (8 * k) (word_of_nat (drop_bit 8 n)))"
      using Suc by simp
    also have "\<dots> = take_bit (8 * Suc k) (word_of_nat n)"
      by (rule bit_word_eqI) (use Suc.prems in \<open>auto simp: bit_simps\<close>)
    finally show ?case .
  qed
  from this [of 4 "unat w"] show ?thesis
    by (simp add: crc_field_def take_bit_word_eq_self)
qed

lemma crc32_residue_iff:
  assumes "length f = 4"
  shows "f = crc_field (crc32_ieee bs) \<longleftrightarrow> foldl crc32_octet (- 1) (bs @ f) = crc32_residue"
proof -
  let ?s = "foldl crc32_octet (- 1) bs"
  have res: "foldl crc32_octet ?s (crc_field (NOT ?s)) = crc32_residue"
  proof -
    have "?s XOR le_register (crc_field (NOT ?s)) = 0 XOR le_register [0xff, 0xff, 0xff, 0xff]"
      by (simp only: le_register_crc_field le_register_residue) simp
    then show ?thesis
      unfolding crc32_residue_def by (intro foldl_octet_same) simp_all
  qed
  show ?thesis
  proof
    assume "f = crc_field (crc32_ieee bs)"
    then show "foldl crc32_octet (- 1) (bs @ f) = crc32_residue"
      using res by (simp add: crc32_ieee_fold)
  next
    assume "foldl crc32_octet (- 1) (bs @ f) = crc32_residue"
    then have "foldl crc32_octet ?s f = foldl crc32_octet ?s (crc_field (NOT ?s))"
      using res by simp
    then have "le_register f = le_register (crc_field (NOT ?s))"
      using assms by (intro foldl_octet_register) simp_all
    then show "f = crc_field (crc32_ieee bs)"
      using le_register_inject [of f "crc_field (NOT ?s)"] assms by (simp add: crc32_ieee_fold)
  qed
qed

end
