(* ===== verification/GenMarker.thy ===== *)
theory GenMarker
  imports Crc32
begin

text \<open>
  The commit marker of a log generation (\<open>crates/db-cli/src/generation_marker.rs\<close>): the 64-byte
  image that binds a generation id to the length, the checksum, the record count and the next
  sequence number of the log prefix it commits.  The errors are the source's, their payloads
  included.  Results: a decoded marker re-encodes to the bytes it was read from, and every
  damage confined to four consecutive bytes of an encoded marker is rejected.
\<close>

subsection \<open>Constants and data\<close>

definition COMMIT_MARKER_MAGIC :: bytes where
  "COMMIT_MARKER_MAGIC = ascii ''DBLGCMT'' @ [0]"

definition COMMIT_MARKER_VERSION :: nat where "COMMIT_MARKER_VERSION = 2"
definition COMMIT_MARKER_LEN :: nat where "COMMIT_MARKER_LEN = 64"
definition APPEND_LOG_FORMAT_VERSION :: nat where "APPEND_LOG_FORMAT_VERSION = 1"
definition MIN_COMMITTED_PREFIX_BYTES :: nat where "MIN_COMMITTED_PREFIX_BYTES = 16"

record committed_prefix =
  cp_bytes :: nat
  cp_crc32 :: "32 word"
  cp_record_count :: nat
  cp_next_sequence :: nat

record commit_marker =
  cm_generation_id :: nat
  cm_log_format_version :: nat
  cm_committed_prefix :: committed_prefix

datatype commit_marker_error =
  ZeroGeneration
| MarkerLength nat nat
| MarkerMagic
| MarkerChecksum nat nat
| MarkerVersion nat nat
| HeaderLength nat
| GenerationMismatch nat nat
| MarkerLogFormat nat nat
| MarkerReserved nat
| PrefixTooShort nat nat
| PrefixSequenceOverflow nat
| PrefixSequence nat nat nat
| MarkerFlags nat
| MarkerReserved2 nat


subsection \<open>Encoding and decoding\<close>

definition validate_generation :: "nat \<Rightarrow> commit_marker_error + unit" where
  "validate_generation generation_id = (if generation_id = 0 then Inl ZeroGeneration else Inr ())"

definition validate_committed_prefix :: "committed_prefix \<Rightarrow> commit_marker_error + unit" where
  "validate_committed_prefix prefix =
     (if cp_bytes prefix < MIN_COMMITTED_PREFIX_BYTES
      then Inl (PrefixTooShort (cp_bytes prefix) MIN_COMMITTED_PREFIX_BYTES)
      else rbind (ok_or (checked_add64 (cp_record_count prefix) 1)
                   (PrefixSequenceOverflow (cp_record_count prefix))) (\<lambda>expected.
        if cp_next_sequence prefix \<noteq> expected
        then Inl (PrefixSequence (cp_record_count prefix) (cp_next_sequence prefix) expected)
        else Inr ()))"

definition encode_commit_marker :: "nat \<Rightarrow> committed_prefix \<Rightarrow> commit_marker_error + bytes" where
  "encode_commit_marker generation_id prefix =
     rbind (validate_generation generation_id) (\<lambda>_.
     rbind (validate_committed_prefix prefix) (\<lambda>_.
     (let body = COMMIT_MARKER_MAGIC @ le_bytes 2 COMMIT_MARKER_VERSION @
            le_bytes 2 COMMIT_MARKER_LEN @ le_bytes 8 generation_id @
            le_bytes 2 APPEND_LOG_FORMAT_VERSION @ le_bytes 2 0 @ le_bytes 8 (cp_bytes prefix) @
            crc_field (cp_crc32 prefix) @ le_bytes 4 0 @ le_bytes 8 (cp_record_count prefix) @
            le_bytes 8 (cp_next_sequence prefix) @ le_bytes 4 0
      in Inr (body @ crc_field (crc32_ieee body)))))"

definition decode_commit_marker :: "bytes \<Rightarrow> nat \<Rightarrow> commit_marker_error + commit_marker" where
  "decode_commit_marker bs filename_generation =
     rbind (validate_generation filename_generation) (\<lambda>_.
     rbind (ensure (length bs = COMMIT_MARKER_LEN) (MarkerLength (length bs) COMMIT_MARKER_LEN)) (\<lambda>_.
     rbind (ensure (take 8 bs = COMMIT_MARKER_MAGIC) MarkerMagic) (\<lambda>_.
     let expected_crc = read_u32 (seg 60 64 bs); computed_crc = unat (crc32_ieee (take 60 bs)) in
     rbind (ensure (expected_crc = computed_crc) (MarkerChecksum expected_crc computed_crc)) (\<lambda>_.
     let version = read_u16 (seg 8 10 bs) in
     rbind (ensure (version = COMMIT_MARKER_VERSION) (MarkerVersion version COMMIT_MARKER_VERSION)) (\<lambda>_.
     let header_len = read_u16 (seg 10 12 bs) in
     rbind (ensure (header_len = COMMIT_MARKER_LEN) (HeaderLength header_len)) (\<lambda>_.
     let generation_id = read_u64 (seg 12 20 bs) in
     rbind (ensure (\<not> (generation_id = 0 \<or> generation_id \<noteq> filename_generation))
              (GenerationMismatch generation_id filename_generation)) (\<lambda>_.
     let log_format_version = read_u16 (seg 20 22 bs) in
     rbind (ensure (log_format_version = APPEND_LOG_FORMAT_VERSION)
              (MarkerLogFormat log_format_version APPEND_LOG_FORMAT_VERSION)) (\<lambda>_.
     let reserved = read_u16 (seg 22 24 bs) in
     rbind (ensure (reserved = 0) (MarkerReserved reserved)) (\<lambda>_.
     let prefix = \<lparr>cp_bytes = read_u64 (seg 24 32 bs),
                   cp_crc32 = word_of_nat (read_u32 (seg 32 36 bs)),
                   cp_record_count = read_u64 (seg 40 48 bs),
                   cp_next_sequence = read_u64 (seg 48 56 bs)\<rparr> in
     rbind (validate_committed_prefix prefix) (\<lambda>_.
     let flags = read_u32 (seg 36 40 bs) in
     rbind (ensure (flags = 0) (MarkerFlags flags)) (\<lambda>_.
     let reserved2 = read_u32 (seg 56 60 bs) in
     rbind (ensure (reserved2 = 0) (MarkerReserved2 reserved2)) (\<lambda>_.
     Inr \<lparr>cm_generation_id = generation_id, cm_log_format_version = log_format_version,
          cm_committed_prefix = prefix\<rparr>))))))))))))"


subsection \<open>The codec is exact\<close>

definition prefix_valid :: "committed_prefix \<Rightarrow> bool" where
  "prefix_valid p \<longleftrightarrow> 16 \<le> cp_bytes p \<and> cp_bytes p \<le> u64_max \<and>
     cp_record_count p < u64_max \<and> cp_next_sequence p = cp_record_count p + 1"

lemma validate_generation_Inr [result_iff]: "validate_generation g = Inr u \<longleftrightarrow> 0 < g"
  by (auto simp: validate_generation_def)

lemma validate_committed_prefix_Inr [result_iff]:
  "validate_committed_prefix p = Inr u \<longleftrightarrow> 16 \<le> cp_bytes p \<and> cp_record_count p < u64_max \<and>
     cp_next_sequence p = cp_record_count p + 1"
  by (auto simp: validate_committed_prefix_def MIN_COMMITTED_PREFIX_BYTES_def result_iff)

lemma length_COMMIT_MARKER_MAGIC [simp]: "length COMMIT_MARKER_MAGIC = 8"
  by (simp add: COMMIT_MARKER_MAGIC_def)

definition marker_body :: "nat \<Rightarrow> committed_prefix \<Rightarrow> bytes" where
  "marker_body g p = COMMIT_MARKER_MAGIC @ le_bytes 2 2 @ le_bytes 2 64 @ le_bytes 8 g @
     le_bytes 2 1 @ le_bytes 2 0 @ le_bytes 8 (cp_bytes p) @ crc_field (cp_crc32 p) @ le_bytes 4 0 @
     le_bytes 8 (cp_record_count p) @ le_bytes 8 (cp_next_sequence p) @ le_bytes 4 0"

lemma length_marker_body [simp]: "length (marker_body g p) = 60"
  by (simp add: marker_body_def del: le_bytes.simps)

lemma encode_commit_marker_Inr:
  "encode_commit_marker g p = Inr bs \<longleftrightarrow>
     0 < g \<and> 16 \<le> cp_bytes p \<and> cp_record_count p < u64_max \<and>
     cp_next_sequence p = cp_record_count p + 1 \<and>
     bs = marker_body g p @ crc_field (crc32_ieee (marker_body g p))"
  by (auto simp: encode_commit_marker_def Let_def result_iff marker_body_def
      COMMIT_MARKER_VERSION_def COMMIT_MARKER_LEN_def APPEND_LOG_FORMAT_VERSION_def
      simp del: le_bytes.simps)

lemma marker_body_split:
  assumes "length b = 60"
  shows "b = take 8 b @ seg 8 10 b @ seg 10 12 b @ seg 12 20 b @ seg 20 22 b @ seg 22 24 b @
    seg 24 32 b @ seg 32 36 b @ seg 36 40 b @ seg 40 48 b @ seg 48 56 b @ seg 56 60 b"
  using assms by (simp add: seg_join seg_whole flip: seg_0)

lemma marker_body_iff:
  assumes "length b = 60" "g \<le> u64_max" "cp_bytes p \<le> u64_max" "cp_record_count p \<le> u64_max"
    "cp_next_sequence p \<le> u64_max"
  shows "b = marker_body g p \<longleftrightarrow>
    take 8 b = COMMIT_MARKER_MAGIC \<and> read_u16 (seg 8 10 b) = 2 \<and> read_u16 (seg 10 12 b) = 64 \<and>
    read_u64 (seg 12 20 b) = g \<and> read_u16 (seg 20 22 b) = 1 \<and> read_u16 (seg 22 24 b) = 0 \<and>
    read_u64 (seg 24 32 b) = cp_bytes p \<and> word_of_nat (read_u32 (seg 32 36 b)) = cp_crc32 p \<and>
    read_u32 (seg 36 40 b) = 0 \<and> read_u64 (seg 40 48 b) = cp_record_count p \<and>
    read_u64 (seg 48 56 b) = cp_next_sequence p \<and> read_u32 (seg 56 60 b) = 0"
    (is "_ \<longleftrightarrow> ?fields")
proof
  assume "b = marker_body g p"
  then show ?fields
    using assms by (simp add: marker_body_def layout del: le_bytes.simps)
next
  assume f: ?fields
  have crc: "seg 32 36 b = crc_field (cp_crc32 p)"
  proof -
    have len: "length (seg 32 36 b) = 4" using assms(1) by (simp add: length_seg)
    have "read_u32 (seg 32 36 b) < 4294967296"
      using le_val_less [of "seg 32 36 b"] len by (simp add: read_u32_def)
    then have "unat (word_of_nat (read_u32 (seg 32 36 b)) :: 32 word) = read_u32 (seg 32 36 b)"
      by (simp add: unat_of_nat)
    moreover have "word_of_nat (read_u32 (seg 32 36 b)) = cp_crc32 p" using f by blast
    ultimately have "read_u32 (seg 32 36 b) = unat (cp_crc32 p)" by simp
    then show ?thesis using len by (simp add: read_u32_eq_crc)
  qed
  have "seg 8 10 b = le_bytes 2 2" "seg 10 12 b = le_bytes 2 64" "seg 12 20 b = le_bytes 8 g"
    "seg 20 22 b = le_bytes 2 1" "seg 22 24 b = le_bytes 2 0" "seg 24 32 b = le_bytes 8 (cp_bytes p)"
    "seg 36 40 b = le_bytes 4 0" "seg 40 48 b = le_bytes 8 (cp_record_count p)"
    "seg 48 56 b = le_bytes 8 (cp_next_sequence p)" "seg 56 60 b = le_bytes 4 0"
    using f assms(1) by (simp_all add: read_le_bytes length_seg del: le_bytes.simps)
  with crc f show "b = marker_body g p"
    unfolding marker_body_def by (subst marker_body_split [OF assms(1)]) simp
qed


lemma decode_commit_marker_Inr:
  "decode_commit_marker bs g = Inr m \<longleftrightarrow>
     cm_generation_id m = g \<and> cm_log_format_version m = 1 \<and> g \<le> u64_max \<and>
     cp_bytes (cm_committed_prefix m) \<le> u64_max \<and>
     encode_commit_marker g (cm_committed_prefix m) = Inr bs" (is "?l \<longleftrightarrow> ?r")
proof
  assume ?l
  then have d: "0 < g" "length bs = 64" "take 8 bs = COMMIT_MARKER_MAGIC"
      "read_u32 (seg 60 64 bs) = unat (crc32_ieee (take 60 bs))" "read_u16 (seg 8 10 bs) = 2"
      "read_u16 (seg 10 12 bs) = 64" "read_u64 (seg 12 20 bs) = g" "read_u16 (seg 20 22 bs) = 1"
      "read_u16 (seg 22 24 bs) = 0" "read_u32 (seg 36 40 bs) = 0" "read_u32 (seg 56 60 bs) = 0"
    and m: "m = \<lparr>cm_generation_id = g, cm_log_format_version = 1, cm_committed_prefix =
       \<lparr>cp_bytes = read_u64 (seg 24 32 bs), cp_crc32 = word_of_nat (read_u32 (seg 32 36 bs)),
        cp_record_count = read_u64 (seg 40 48 bs), cp_next_sequence = read_u64 (seg 48 56 bs)\<rparr>\<rparr>"
    and p: "16 \<le> read_u64 (seg 24 32 bs)" "read_u64 (seg 40 48 bs) < u64_max"
      "read_u64 (seg 48 56 bs) = read_u64 (seg 40 48 bs) + 1"
    by (auto simp: decode_commit_marker_def Let_def result_iff COMMIT_MARKER_LEN_def
        COMMIT_MARKER_VERSION_def APPEND_LOG_FORMAT_VERSION_def)
  have u64: "read_u64 s \<le> u64_max" if "length s = 8" for s
    using le_val_less [of s] that by (simp add: read_u64_def u64_max_def)
  have bounds: "g \<le> u64_max" "read_u64 (seg 24 32 bs) \<le> u64_max"
    using u64 [of "seg 12 20 bs"] u64 [of "seg 24 32 bs"] d(2,7) by (simp_all add: length_seg)
  have body: "take 60 bs = marker_body g (cm_committed_prefix m)"
    using d p m bounds by (subst marker_body_iff) (simp_all add: seg_take)
  have "seg 60 64 bs = crc_field (crc32_ieee (take 60 bs))"
    using d(2,4) by (simp add: read_u32_eq_crc length_seg)
  moreover have "bs = take 60 bs @ seg 60 64 bs"
    using d(2) by (simp add: seg_join seg_whole flip: seg_0)
  ultimately show ?r
    using bounds d(1) p m body by (simp add: encode_commit_marker_Inr)
next
  assume ?r
  then have r: "0 < g" "g \<le> u64_max" "prefix_valid (cm_committed_prefix m)"
      "bs = marker_body g (cm_committed_prefix m) @
        crc_field (crc32_ieee (marker_body g (cm_committed_prefix m)))"
    and m: "cm_generation_id m = g" "cm_log_format_version m = 1"
    by (auto simp: encode_commit_marker_Inr prefix_valid_def)
  have len: "length bs = 64" using r(4) by simp
  have body: "take 60 bs = marker_body g (cm_committed_prefix m)" using r(4) by simp
  then have f: "take 8 bs = COMMIT_MARKER_MAGIC" "read_u16 (seg 8 10 bs) = 2"
      "read_u16 (seg 10 12 bs) = 64" "read_u64 (seg 12 20 bs) = g" "read_u16 (seg 20 22 bs) = 1"
      "read_u16 (seg 22 24 bs) = 0" "read_u64 (seg 24 32 bs) = cp_bytes (cm_committed_prefix m)"
      "word_of_nat (read_u32 (seg 32 36 bs)) = cp_crc32 (cm_committed_prefix m)"
      "read_u32 (seg 36 40 bs) = 0" "read_u64 (seg 40 48 bs) = cp_record_count (cm_committed_prefix m)"
      "read_u64 (seg 48 56 bs) = cp_next_sequence (cm_committed_prefix m)"
      "read_u32 (seg 56 60 bs) = 0"
    using iffD1 [OF marker_body_iff [of "take 60 bs" g "cm_committed_prefix m"] body] len r
    by (simp_all add: seg_take seg_append prefix_valid_def)
  have "seg 60 64 bs = crc_field (crc32_ieee (take 60 bs))"
    unfolding body using r(4) by (simp add: layout)
  then have crc: "read_u32 (seg 60 64 bs) = unat (crc32_ieee (take 60 bs))" by simp
  have p: "\<lparr>cp_bytes = read_u64 (seg 24 32 bs), cp_crc32 = word_of_nat (read_u32 (seg 32 36 bs)),
        cp_record_count = read_u64 (seg 40 48 bs), cp_next_sequence = read_u64 (seg 48 56 bs)\<rparr> =
      cm_committed_prefix m"
    unfolding f by simp
  have v: "validate_committed_prefix (cm_committed_prefix m) = Inr ()"
    using r(3) by (simp add: result_iff prefix_valid_def)
  show ?l
    unfolding decode_commit_marker_def Let_def p
    using r(1) m f len crc v
    by (simp add: validate_generation_def COMMIT_MARKER_LEN_def COMMIT_MARKER_VERSION_def
        APPEND_LOG_FORMAT_VERSION_def)
qed


subsection \<open>Damage\<close>

lemma encode_commit_marker_state:
  assumes "encode_commit_marker g p = Inr bs"
  shows "foldl crc32_octet (- 1) bs = crc32_residue" "length bs = 64"
  using assms crc32_residue_iff [of "crc_field (crc32_ieee (marker_body g p))" "marker_body g p"]
  by (simp_all add: encode_commit_marker_Inr)

subsection \<open>Properties\<close>

text \<open>The table-driven checksum equals the one-bit-at-a-time reference on every input,
  and feeding the hasher in two pieces is feeding it the whole.\<close>

theorem crc32_ieee_reference:
  "crc32_ieee bs = crc32_bitwise bs \<and>
   crc32_finalize (crc32_update (crc32_update crc32_new xs) ys) = crc32_ieee (xs @ ys)"
  by (rule conjI)
     (simp add: crc32_ieee_fold crc32_bitwise_def, simp add: crc32_update_append crc32_ieee_def)

text \<open>Decoding accepts exactly the images of the encoder: it returns a marker for the
  generation in the file name if and only if the bytes are the encoding of that marker's prefix
  under that generation.\<close>

theorem decode_commit_marker_exact:
  "decode_commit_marker bs g = Inr m \<longleftrightarrow>
     cm_generation_id m = g \<and> cm_log_format_version m = APPEND_LOG_FORMAT_VERSION \<and> g \<le> u64_max \<and>
     cp_bytes (cm_committed_prefix m) \<le> u64_max \<and>
     encode_commit_marker g (cm_committed_prefix m) = Inr bs"
  by (simp add: decode_commit_marker_Inr APPEND_LOG_FORMAT_VERSION_def)

text \<open>Whatever else the damage does, a marker image in which up to four
  consecutive bytes were altered, the stored checksum included, is rejected under every
  generation id.\<close>

theorem decode_rejects_damage:
  assumes "encode_commit_marker g p = Inr (a @ x @ z)"
    and "length y = length x" "length x \<le> 4" "y \<noteq> x"
  shows "\<exists>e. decode_commit_marker (a @ y @ z) g' = Inl e"
proof (cases "decode_commit_marker (a @ y @ z) g'")
  case (Inr m)
  then have "encode_commit_marker g' (cm_committed_prefix m) = Inr (a @ y @ z)"
    by (simp add: decode_commit_marker_Inr)
  then have "foldl crc32_octet (- 1) (a @ y @ z) = foldl crc32_octet (- 1) (a @ x @ z)"
    using encode_commit_marker_state(1) assms(1) by metis
  then show ?thesis using crc32_state_burst [of y x "- 1" a z] assms by simp
qed simp

lemma decode_rejects_damage_witness:
  "\<exists>bs e. encode_commit_marker 7 \<lparr>cp_bytes = 123, cp_crc32 = 5, cp_record_count = 7, cp_next_sequence = 8\<rparr> =
      Inr bs \<and> decode_commit_marker (take 7 bs @ [1] @ drop 8 bs) 7 = Inl e"
proof -
  define p where "p = \<lparr>cp_bytes = 123, cp_crc32 = 5, cp_record_count = 7, cp_next_sequence = 8\<rparr>"
  define bs where "bs = marker_body 7 p @ crc_field (crc32_ieee (marker_body 7 p))"
  have enc: "encode_commit_marker 7 p = Inr bs"
    by (simp add: encode_commit_marker_Inr u64_max_def p_def bs_def)
  have "bs ! 7 = 0"
    by (simp add: bs_def marker_body_def COMMIT_MARKER_MAGIC_def ascii_def nth_append nth_Cons'
        del: le_bytes.simps)
  moreover have "length bs = 64" by (simp add: bs_def)
  ultimately have split: "bs = take 7 bs @ [0] @ drop 8 bs"
    using id_take_nth_drop [of 7 bs] by simp
  have "encode_commit_marker 7 p = Inr (take 7 bs @ [0] @ drop 8 bs)"
    using enc split by simp
  then have "\<exists>e. decode_commit_marker (take 7 bs @ [1] @ drop 8 bs) 7 = Inl e"
    by (rule decode_rejects_damage) simp_all
  then show ?thesis using enc unfolding p_def by blast
qed

end
