(* ===== verification/GenDirectory.thy ===== *)
theory GenDirectory
  imports GenMarker LogEngine
begin

text \<open>
  A log-generation directory (\<open>crates/db-cli/src/generation_directory.rs\<close> and
  \<open>generation_prefix.rs\<close>): its file names, the scan of its entries, the check of a
  marker-bound prefix and the verification that selects the authoritative generation.  A directory
  is the map from entry names to what they are, a regular file with its bytes or something else
  (a symbolic link, a subdirectory).  Entry names are byte strings: one that is not UTF-8 is
  refused like every other unexpected name.  Resolving the directory's own path and errors of
  reading an existing file are not modelled.  \<open>crc\<close> is the log engine's checksum, a parameter as
  in \<open>LogFormat\<close>; the prefix checksum is the \<open>crc32_ieee\<close> of \<open>Crc32\<close>.
\<close>

subsection \<open>Names\<close>

definition COMMIT_PREFIX :: bytes where "COMMIT_PREFIX = ascii ''commit-''"
definition COMMIT_SUFFIX :: bytes where "COMMIT_SUFFIX = ascii ''.marker''"
definition STAGING_COMMIT_PREFIX :: bytes where "STAGING_COMMIT_PREFIX = ascii ''staging-commit-''"
definition RESERVATION_PREFIX :: bytes where "RESERVATION_PREFIX = ascii ''reserve-''"
definition RESERVATION_SUFFIX :: bytes where "RESERVATION_SUFFIX = ascii ''.frontier''"
definition MAX_DIRECTORY_ENTRIES :: nat where "MAX_DIRECTORY_ENTRIES = 8192"

datatype gen_dir_error = GdInvalid | GdDatabase db_error | GdIo io_kind

text \<open>\<open>Result::map_err\<close>.\<close>

definition map_err :: "('e \<Rightarrow> 'f) \<Rightarrow> 'e + 'a \<Rightarrow> 'f + 'a" where
  "map_err f m = (case m of Inl e \<Rightarrow> Inl (f e) | Inr x \<Rightarrow> Inr x)"

lemma map_err_simps [simp]: "map_err f (Inl e) = Inl (f e)" "map_err f (Inr x) = Inr x"
  by (simp_all add: map_err_def)

lemma map_err_eq_Inr [result_iff]: "map_err f m = Inr x \<longleftrightarrow> m = Inr x"
  by (cases m) simp_all

definition parse_canonical_id :: "bytes \<Rightarrow> bytes \<Rightarrow> bytes \<Rightarrow> gen_dir_error + nat option" where
  "parse_canonical_id name prefix suffix =
     (if strip_prefix prefix name = None then Inr None
      else rbind (ok_or (Option.bind (checked_add64 (length prefix) GENERATION_ID_WIDTH)
                   (\<lambda>len. checked_add64 len (length suffix))) GdInvalid) (\<lambda>expected_len.
        if length name \<noteq> expected_len \<or> strip_suffix suffix name = None then Inl GdInvalid
        else let digits = seg (length prefix) (length prefix + GENERATION_ID_WIDTH) name in
          if \<not> list_all is_ascii_digit digits then Inl GdInvalid
          else rbind (ok_or (parse_digits digits) GdInvalid) (\<lambda>gid.
            if gid = 0 \<or> format_dec 20 gid \<noteq> digits then Inl GdInvalid else Inr (Some gid))))"

definition parse_canonical_generation_name :: "bytes \<Rightarrow> gen_dir_error + nat option" where
  "parse_canonical_generation_name name = parse_canonical_id name GENERATION_PREFIX GENERATION_SUFFIX"

definition parse_canonical_commit_name :: "bytes \<Rightarrow> gen_dir_error + nat option" where
  "parse_canonical_commit_name name = parse_canonical_id name COMMIT_PREFIX COMMIT_SUFFIX"

definition parse_canonical_staging_commit_name :: "bytes \<Rightarrow> gen_dir_error + nat option" where
  "parse_canonical_staging_commit_name name = parse_canonical_id name STAGING_COMMIT_PREFIX COMMIT_SUFFIX"

definition parse_canonical_reservation_name :: "bytes \<Rightarrow> gen_dir_error + nat option" where
  "parse_canonical_reservation_name name = parse_canonical_id name RESERVATION_PREFIX RESERVATION_SUFFIX"

definition canonical_generation_name :: "nat \<Rightarrow> bytes" where
  "canonical_generation_name gid = GENERATION_PREFIX @ format_dec 20 gid @ GENERATION_SUFFIX"

definition canonical_marker_name :: "nat \<Rightarrow> bytes" where
  "canonical_marker_name gid = COMMIT_PREFIX @ format_dec 20 gid @ COMMIT_SUFFIX"

definition canonical_staging_marker_name :: "nat \<Rightarrow> bytes" where
  "canonical_staging_marker_name gid = STAGING_COMMIT_PREFIX @ format_dec 20 gid @ COMMIT_SUFFIX"

definition canonical_reservation_name :: "nat \<Rightarrow> bytes" where
  "canonical_reservation_name gid = RESERVATION_PREFIX @ format_dec 20 gid @ RESERVATION_SUFFIX"


subsection \<open>The namespace\<close>

datatype dir_entry = RegularFile bytes | OtherEntry

type_synonym gen_dir = "(bytes, dir_entry) ordmap"

record gen_namespace =
  ns_generation_files :: "(nat, bytes) ordmap"
  ns_marker_files :: "(nat, bytes) ordmap"
  ns_staging_marker_files :: "(nat, bytes) ordmap"
  ns_reservation_files :: "(nat, bytes) ordmap"

definition empty_namespace :: gen_namespace where
  "empty_namespace = \<lparr>ns_generation_files = om_empty, ns_marker_files = om_empty,
     ns_staging_marker_files = om_empty, ns_reservation_files = om_empty\<rparr>"

text \<open>\<open>keys().max()\<close> and \<open>last_key_value\<close>.\<close>

definition last_key :: "(nat, 'v) ordmap \<Rightarrow> nat option" where
  "last_key m = (if entries m = [] then None else Some (fst (last (entries m))))"

definition opt_max :: "nat option \<Rightarrow> nat option \<Rightarrow> nat option" where
  "opt_max a b = (case (a, b) of (None, _) \<Rightarrow> b | (_, None) \<Rightarrow> a | (Some x, Some y) \<Rightarrow> Some (max x y))"

definition ns_highest_observed_generation :: "gen_namespace \<Rightarrow> nat option" where
  "ns_highest_observed_generation ns =
     opt_max (last_key (ns_generation_files ns)) (opt_max (last_key (ns_marker_files ns))
       (opt_max (last_key (ns_staging_marker_files ns)) (last_key (ns_reservation_files ns))))"

definition require_real_regular_file :: "dir_entry option \<Rightarrow> gen_dir_error + bytes" where
  "require_real_regular_file entry =
     (case entry of
        None \<Rightarrow> Inl (GdIo NotFound)
      | Some OtherEntry \<Rightarrow> Inl GdInvalid
      | Some (RegularFile f) \<Rightarrow> Inr f)"

definition require_empty_reservation_file :: "dir_entry \<Rightarrow> gen_dir_error + unit" where
  "require_empty_reservation_file entry =
     rbind (require_real_regular_file (Some entry)) (\<lambda>f. ensure (length f = 0) GdInvalid)"

definition scan_entry :: "gen_namespace \<Rightarrow> bytes \<times> dir_entry \<Rightarrow> gen_dir_error + gen_namespace" where
  "scan_entry ns entry =
     (case entry of (name, content) \<Rightarrow>
      rbind (parse_canonical_generation_name name) (\<lambda>g. case g of
        Some gid \<Rightarrow> Inr (ns\<lparr>ns_generation_files := om_insert gid name (ns_generation_files ns)\<rparr>)
      | None \<Rightarrow>
      rbind (parse_canonical_commit_name name) (\<lambda>g. case g of
        Some gid \<Rightarrow> Inr (ns\<lparr>ns_marker_files := om_insert gid name (ns_marker_files ns)\<rparr>)
      | None \<Rightarrow>
      rbind (parse_canonical_staging_commit_name name) (\<lambda>g. case g of
        Some gid \<Rightarrow>
          Inr (ns\<lparr>ns_staging_marker_files := om_insert gid name (ns_staging_marker_files ns)\<rparr>)
      | None \<Rightarrow>
      rbind (parse_canonical_reservation_name name) (\<lambda>g. case g of
        Some gid \<Rightarrow>
          rbind (require_empty_reservation_file content) (\<lambda>_.
            Inr (ns\<lparr>ns_reservation_files := om_insert gid name (ns_reservation_files ns)\<rparr>))
      | None \<Rightarrow> Inl GdInvalid)))))"

definition scan_generation_namespace :: "gen_dir \<Rightarrow> gen_dir_error + gen_namespace" where
  "scan_generation_namespace d =
     rfold (\<lambda>ns (index, entry).
         if index \<ge> MAX_DIRECTORY_ENTRIES then Inl GdInvalid else scan_entry ns entry)
       empty_namespace (enumerate 0 (entries d))"


subsection \<open>The committed prefix\<close>

definition COPY_BUFFER_BYTES :: nat where "COPY_BUFFER_BYTES = 65536"

datatype prefix_error = PfInvalid | PfDatabase db_error

text \<open>The buffered read loop the prefix check, the publication and the fingerprints share: the
  checksum of the next \<open>remaining\<close> bytes, and the bytes.\<close>

function read_prefix_chunks :: "bytes \<Rightarrow> nat \<Rightarrow> crc32_hasher \<Rightarrow> bytes \<Rightarrow> (crc32_hasher \<times> bytes) option" where
  "read_prefix_chunks source remaining hasher copied =
     (if remaining = 0 then Some (hasher, copied)
      else let wanted = min remaining COPY_BUFFER_BYTES; chunk = take wanted source in
        if chunk = [] then None
        else read_prefix_chunks (drop wanted source) (remaining - length chunk)
               (crc32_update hasher chunk) (copied @ chunk))"
  by pat_completeness auto
termination
  by (relation "measure (\<lambda>(_, remaining, _, _). remaining)") (auto simp: Let_def)

declare read_prefix_chunks.simps [simp del]

definition verify_committed_prefix ::
    "(bytes \<Rightarrow> 32 word) \<Rightarrow> bytes \<Rightarrow> committed_prefix \<Rightarrow> prefix_error + verification_report" where
  "verify_committed_prefix crc f proof =
     (if length f < cp_bytes proof then Inl PfInvalid
      else case read_prefix_chunks f (cp_bytes proof) crc32_new [] of
        None \<Rightarrow> Inl PfInvalid
      | Some (hasher, temporary) \<Rightarrow>
          if crc32_finalize hasher \<noteq> cp_crc32 proof then Inl PfInvalid
          else case log_verify crc temporary of
            Inl e \<Rightarrow> Inl (PfDatabase e)
          | Inr verification \<Rightarrow>
              if vr_recoverable_tail verification \<noteq> None then Inl PfInvalid
              else if vr_file_bytes verification \<noteq> cp_bytes proof \<or>
                      vr_valid_bytes verification \<noteq> cp_bytes proof then Inl PfInvalid
              else if vr_record_count verification \<noteq> cp_record_count proof then Inl PfInvalid
              else if vr_next_sequence verification \<noteq> cp_next_sequence proof then Inl PfInvalid
              else Inr verification)"


subsection \<open>Verification of a directory\<close>

record gen_summary =
  gs_marker_format_version :: nat
  gs_authoritative_generation :: nat
  gs_authoritative_log :: bytes
  gs_highest_observed_generation :: nat
  gs_marker_generation_ids :: "nat list"
  gs_staging_marker_generation_ids :: "nat list"
  gs_reservation_generation_ids :: "nat list"
  gs_uncommitted_generation_ids :: "nat list"
  gs_committed_prefix :: committed_prefix
  gs_committed_prefix_verification :: verification_report
  gs_log_verification :: verification_report

definition read_commit_marker :: "dir_entry option \<Rightarrow> nat \<Rightarrow> gen_dir_error + commit_marker" where
  "read_commit_marker entry filename_generation =
     rbind (require_real_regular_file entry) (\<lambda>bs.
     rbind (ensure (length bs = COMMIT_MARKER_LEN) GdInvalid) (\<lambda>_.
     map_err (\<lambda>_. GdInvalid) (decode_commit_marker bs filename_generation)))"

definition verify_generation_directory ::
    "(bytes \<Rightarrow> 32 word) \<Rightarrow> gen_dir \<Rightarrow> gen_dir_error + gen_summary" where
  "verify_generation_directory crc d =
     rbind (scan_generation_namespace d) (\<lambda>ns.
     rbind (ok_or (last_key (ns_marker_files ns)) GdInvalid) (\<lambda>authoritative_generation.
     rbind (ok_or (om_lookup (ns_marker_files ns) authoritative_generation) GdInvalid) (\<lambda>marker_path.
     rbind (read_commit_marker (om_lookup d marker_path) authoritative_generation) (\<lambda>marker.
     rbind (ensure (cm_log_format_version marker = APPEND_LOG_FORMAT_VERSION) GdInvalid) (\<lambda>_.
     rbind (ok_or (om_lookup (ns_generation_files ns) authoritative_generation) GdInvalid) (\<lambda>log_path.
     rbind (require_real_regular_file (om_lookup d log_path)) (\<lambda>log_file.
     rbind (map_err GdDatabase (log_verify crc log_file)) (\<lambda>log_verification.
     rbind (ensure (vr_file_format_version log_verification = cm_log_format_version marker) GdInvalid) (\<lambda>_.
     rbind (map_err (\<lambda>_. GdInvalid)
              (verify_committed_prefix crc log_file (cm_committed_prefix marker))) (\<lambda>prefix_verification.
     rbind (ensure (\<not> vr_valid_bytes log_verification < cp_bytes (cm_committed_prefix marker)) GdInvalid) (\<lambda>_.
     rbind (case vr_recoverable_tail log_verification of
              None \<Rightarrow> Inr ()
            | Some tail \<Rightarrow>
                ensure (\<not> tail_record_offset tail < cp_bytes (cm_committed_prefix marker)) GdInvalid) (\<lambda>_.
     rbind (ok_or (ns_highest_observed_generation ns) GdInvalid) (\<lambda>highest.
     Inr \<lparr>gs_marker_format_version = COMMIT_MARKER_VERSION,
          gs_authoritative_generation = authoritative_generation,
          gs_authoritative_log = log_path,
          gs_highest_observed_generation = highest,
          gs_marker_generation_ids = om_keys (ns_marker_files ns),
          gs_staging_marker_generation_ids = om_keys (ns_staging_marker_files ns),
          gs_reservation_generation_ids = om_keys (ns_reservation_files ns),
          gs_uncommitted_generation_ids =
            filter (\<lambda>gid. om_lookup (ns_marker_files ns) gid = None) (om_keys (ns_generation_files ns)),
          gs_committed_prefix = cm_committed_prefix marker,
          gs_committed_prefix_verification = prefix_verification,
          gs_log_verification = log_verification\<rparr>)))))))))))))"

definition next_generation_id :: "gen_summary \<Rightarrow> gen_dir_error + nat" where
  "next_generation_id s = ok_or (checked_add64 (gs_highest_observed_generation s) 1) GdInvalid"

end
