(* ===== verification/GenDirectorySpec.thy ===== *)
theory GenDirectorySpec
  imports GenDirectory
begin

text \<open>
  What the scan and the verification of a generation directory establish.  Entry names are
  classified by the four kinds the protocol uses; \<open>namespace_ok\<close> says which directories scan,
  \<open>gen_authority\<close> which generation a directory commits to, and the verifier is shown to accept
  exactly the directories in which both hold.
\<close>

subsection \<open>Names and kinds\<close>

datatype name_kind = KGeneration nat | KMarker nat | KStaging nat | KReservation nat

fun kind_name :: "name_kind \<Rightarrow> bytes" where
  "kind_name (KGeneration n) = canonical_generation_name n"
| "kind_name (KMarker n) = canonical_marker_name n"
| "kind_name (KStaging n) = canonical_staging_marker_name n"
| "kind_name (KReservation n) = canonical_reservation_name n"

fun kind_id :: "name_kind \<Rightarrow> nat" where
  "kind_id (KGeneration n) = n"
| "kind_id (KMarker n) = n"
| "kind_id (KStaging n) = n"
| "kind_id (KReservation n) = n"

definition kind_ok :: "name_kind \<Rightarrow> bool" where
  "kind_ok k \<longleftrightarrow> 0 < kind_id k \<and> kind_id k \<le> u64_max"

lemmas name_defs = canonical_generation_name_def canonical_marker_name_def
  canonical_staging_marker_name_def canonical_reservation_name_def
  GENERATION_PREFIX_def GENERATION_SUFFIX_def COMMIT_PREFIX_def COMMIT_SUFFIX_def
  STAGING_COMMIT_PREFIX_def RESERVATION_PREFIX_def RESERVATION_SUFFIX_def

lemma hd_kind_name:
  "hd (kind_name k) = (case k of KGeneration _ \<Rightarrow> 0x67 | KMarker _ \<Rightarrow> 0x63 | KStaging _ \<Rightarrow> 0x73
     | KReservation _ \<Rightarrow> 0x72)"
  by (cases k) (simp_all add: name_defs ascii_def)

lemma kind_name_inject [simp]: "kind_name j = kind_name k \<longleftrightarrow> j = k"
proof
  assume eq: "kind_name j = kind_name k"
  then have "hd (kind_name j) = hd (kind_name k)" by (rule arg_cong)
  then have hd: "(case j of KGeneration _ \<Rightarrow> 0x67 | KMarker _ \<Rightarrow> 0x63 | KStaging _ \<Rightarrow> 0x73
     | KReservation _ \<Rightarrow> (0x72 :: byte)) = (case k of KGeneration _ \<Rightarrow> 0x67 | KMarker _ \<Rightarrow> 0x63
     | KStaging _ \<Rightarrow> 0x73 | KReservation _ \<Rightarrow> 0x72)"
    unfolding hd_kind_name .
  show "j = k"
    using hd eq
    by (cases j; cases k)
       (simp_all add: canonical_generation_name_def canonical_marker_name_def
         canonical_staging_marker_name_def canonical_reservation_name_def format_dec_inject)
qed simp

lemma format_dec_20: "n \<le> u64_max \<Longrightarrow> length (format_dec 20 n) = 20"
  by (intro length_format_dec) (simp_all add: u64_max_def)

lemma parse_canonical_id_Some:
  assumes "length prefix + 20 + length suffix \<le> u64_max"
  shows "parse_canonical_id name prefix suffix = Inr (Some n) \<longleftrightarrow>
    0 < n \<and> n \<le> u64_max \<and> name = prefix @ format_dec 20 n @ suffix" (is "?l \<longleftrightarrow> ?r")
proof
  assume ?l
  then have "strip_prefix prefix name \<noteq> None" "strip_suffix suffix name \<noteq> None"
    and len: "length name = length prefix + 20 + length suffix"
    and n: "parse_digits (seg (length prefix) (length prefix + 20) name) = Some n" "0 < n"
      "format_dec 20 n = seg (length prefix) (length prefix + 20) name"
    by (auto simp: parse_canonical_id_def Let_def result_iff GENERATION_ID_WIDTH_def
        Option.bind_eq_Some_conv split: if_splits)
  then obtain a b where "strip_prefix prefix name = Some a" "strip_suffix suffix name = Some b"
    by blast
  then have a: "name = prefix @ a" and b: "name = b @ suffix"
    by (simp_all only: strip_prefix_eq_Some strip_suffix_eq_Some)
  have "name = take (length prefix) name @ seg (length prefix) (length prefix + 20) name @
      drop (length prefix + 20) name"
    by (simp add: seg_def) (metis append_take_drop_id drop_drop add.commute)
  moreover have "take (length prefix) name = prefix" using a by simp
  moreover have "drop (length prefix + 20) name = suffix" using b len by simp
  moreover have "n \<le> u64_max" using n(1) by (auto simp: parse_digits_def result_iff split: if_splits)
  ultimately show ?r using n by metis
next
  assume r: ?r
  have digits: "seg (length prefix) (length prefix + 20) name = format_dec 20 n"
    using r format_dec_20 [of n] by (simp add: seg_append seg_whole)
  have "strip_prefix prefix name \<noteq> None" "strip_suffix suffix name \<noteq> None"
    using r strip_prefix_eq_Some [of prefix name "format_dec 20 n @ suffix"]
      strip_suffix_eq_Some [of suffix name "prefix @ format_dec 20 n"] by simp_all
  moreover have "list_all is_ascii_digit (format_dec 20 n)"
    using digits_format [of 20 n] by (simp add: list_all_iff)
  moreover have "parse_digits (format_dec 20 n) = Some n"
    using r by (simp add: parse_digits_def try_u64_def dec_val_format)
  moreover have "length name = length prefix + 20 + length suffix" using r format_dec_20 [of n] by simp
  ultimately show ?l
    using r assms unfolding parse_canonical_id_def Let_def GENERATION_ID_WIDTH_def digits
    by (simp add: checked_add64_def)
qed

lemma parse_canonical_id_None:
  "parse_canonical_id name prefix suffix = Inr None \<longleftrightarrow> strip_prefix prefix name = None"
  by (auto simp: parse_canonical_id_def Let_def result_iff split: if_splits)

lemmas parse_name_defs = parse_canonical_generation_name_def parse_canonical_commit_name_def
  parse_canonical_staging_commit_name_def parse_canonical_reservation_name_def

lemma parse_name_Some:
  "parse_canonical_generation_name name = Inr (Some n) \<longleftrightarrow> kind_ok (KGeneration n) \<and> name = kind_name (KGeneration n)"
  "parse_canonical_commit_name name = Inr (Some n) \<longleftrightarrow> kind_ok (KMarker n) \<and> name = kind_name (KMarker n)"
  "parse_canonical_staging_commit_name name = Inr (Some n) \<longleftrightarrow> kind_ok (KStaging n) \<and> name = kind_name (KStaging n)"
  "parse_canonical_reservation_name name = Inr (Some n) \<longleftrightarrow> kind_ok (KReservation n) \<and> name = kind_name (KReservation n)"
proof -
  have len: "length GENERATION_PREFIX + 20 + length GENERATION_SUFFIX \<le> u64_max"
    "length COMMIT_PREFIX + 20 + length COMMIT_SUFFIX \<le> u64_max"
    "length STAGING_COMMIT_PREFIX + 20 + length COMMIT_SUFFIX \<le> u64_max"
    "length RESERVATION_PREFIX + 20 + length RESERVATION_SUFFIX \<le> u64_max"
    by (simp_all add: name_defs u64_max_def)
  show "parse_canonical_generation_name name = Inr (Some n) \<longleftrightarrow> kind_ok (KGeneration n) \<and> name = kind_name (KGeneration n)"
    "parse_canonical_commit_name name = Inr (Some n) \<longleftrightarrow> kind_ok (KMarker n) \<and> name = kind_name (KMarker n)"
    "parse_canonical_staging_commit_name name = Inr (Some n) \<longleftrightarrow> kind_ok (KStaging n) \<and> name = kind_name (KStaging n)"
    "parse_canonical_reservation_name name = Inr (Some n) \<longleftrightarrow> kind_ok (KReservation n) \<and> name = kind_name (KReservation n)"
    unfolding parse_name_defs parse_canonical_id_Some [OF len(1)] parse_canonical_id_Some [OF len(2)]
      parse_canonical_id_Some [OF len(3)] parse_canonical_id_Some [OF len(4)] kind_ok_def
    by (simp_all add: canonical_generation_name_def canonical_marker_name_def
        canonical_staging_marker_name_def canonical_reservation_name_def)
qed

lemma strip_prefix_hd:
  assumes "p \<noteq> []" "name = [] \<or> hd name \<noteq> hd p"
  shows "strip_prefix p name = None"
proof (cases "strip_prefix p name")
  case (Some ys)
  then have "name = p @ ys" by (simp add: strip_prefix_eq_Some)
  with assms show ?thesis by (cases p) simp_all
qed simp

lemma parse_other_kinds:
  "parse_canonical_generation_name (kind_name (KMarker n)) = Inr None"
  "parse_canonical_generation_name (kind_name (KStaging n)) = Inr None"
  "parse_canonical_generation_name (kind_name (KReservation n)) = Inr None"
  "parse_canonical_commit_name (kind_name (KStaging n)) = Inr None"
  "parse_canonical_commit_name (kind_name (KReservation n)) = Inr None"
  "parse_canonical_staging_commit_name (kind_name (KReservation n)) = Inr None"
proof -
  have none: "parse_canonical_id (kind_name k) p s = Inr None"
    if "p \<noteq> []" "hd (kind_name k) \<noteq> hd p" for k p s
    using that by (simp add: parse_canonical_id_None strip_prefix_hd)
  show "parse_canonical_generation_name (kind_name (KMarker n)) = Inr None"
    "parse_canonical_generation_name (kind_name (KStaging n)) = Inr None"
    "parse_canonical_generation_name (kind_name (KReservation n)) = Inr None"
    "parse_canonical_commit_name (kind_name (KStaging n)) = Inr None"
    "parse_canonical_commit_name (kind_name (KReservation n)) = Inr None"
    "parse_canonical_staging_commit_name (kind_name (KReservation n)) = Inr None"
    unfolding parse_name_defs
    by (simp_all add: none hd_kind_name name_defs ascii_def del: kind_name.simps)
qed



subsection \<open>What scans\<close>

fun ns_get :: "name_kind \<Rightarrow> gen_namespace \<Rightarrow> bytes option" where
  "ns_get (KGeneration n) ns = om_lookup (ns_generation_files ns) n"
| "ns_get (KMarker n) ns = om_lookup (ns_marker_files ns) n"
| "ns_get (KStaging n) ns = om_lookup (ns_staging_marker_files ns) n"
| "ns_get (KReservation n) ns = om_lookup (ns_reservation_files ns) n"

fun ns_add :: "name_kind \<Rightarrow> gen_namespace \<Rightarrow> gen_namespace" where
  "ns_add (KGeneration n) ns =
     ns\<lparr>ns_generation_files := om_insert n (kind_name (KGeneration n)) (ns_generation_files ns)\<rparr>"
| "ns_add (KMarker n) ns =
     ns\<lparr>ns_marker_files := om_insert n (kind_name (KMarker n)) (ns_marker_files ns)\<rparr>"
| "ns_add (KStaging n) ns =
     ns\<lparr>ns_staging_marker_files := om_insert n (kind_name (KStaging n)) (ns_staging_marker_files ns)\<rparr>"
| "ns_add (KReservation n) ns =
     ns\<lparr>ns_reservation_files := om_insert n (kind_name (KReservation n)) (ns_reservation_files ns)\<rparr>"

lemma ns_get_add [simp]: "ns_get j (ns_add k ns) = (if j = k then Some (kind_name k) else ns_get j ns)"
  by (cases j; cases k) auto

lemma ns_get_empty [simp]: "ns_get k empty_namespace = None"
  by (cases k) (simp_all add: empty_namespace_def)

definition entry_ok :: "name_kind \<Rightarrow> dir_entry \<Rightarrow> bool" where
  "entry_ok k c \<longleftrightarrow> kind_ok k \<and> (\<forall>n. k = KReservation n \<longrightarrow> c = RegularFile [])"

definition namespace_ok :: "gen_dir \<Rightarrow> bool" where
  "namespace_ok d \<longleftrightarrow> om_size d \<le> MAX_DIRECTORY_ENTRIES \<and>
     (\<forall>name c. om_lookup d name = Some c \<longrightarrow> (\<exists>k. name = kind_name k \<and> entry_ok k c))"

lemma require_empty_Inr: "require_empty_reservation_file c = Inr u \<longleftrightarrow> c = RegularFile []"
  by (cases c) (auto simp: require_empty_reservation_file_def require_real_regular_file_def result_iff)

lemma scan_entry_kind: "entry_ok k c \<Longrightarrow> scan_entry ns (kind_name k, c) = Inr (ns_add k ns)"
proof -
  assume ok: "entry_ok k c"
  note parse = parse_name_Some [THEN iffD2, OF conjI [OF _ refl]]
  show ?thesis
  proof (cases k)
    case (KGeneration n)
    then show ?thesis
      using ok parse(1) [of n] by (simp add: scan_entry_def entry_ok_def)
  next
    case (KMarker n)
    then show ?thesis
      using ok parse(2) [of n] parse_other_kinds(1) [of n] by (simp add: scan_entry_def entry_ok_def)
  next
    case (KStaging n)
    then show ?thesis
      using ok parse(3) [of n] parse_other_kinds(2,4) [of n] by (simp add: scan_entry_def entry_ok_def)
  next
    case (KReservation n)
    then show ?thesis
      using ok parse(4) [of n] parse_other_kinds(3,5,6) [of n]
      by (simp add: scan_entry_def entry_ok_def require_empty_reservation_file_def
          require_real_regular_file_def)
  qed
qed

lemma scan_entry_Inr:
  "scan_entry ns (name, c) = Inr ns' \<longleftrightarrow> (\<exists>k. name = kind_name k \<and> entry_ok k c \<and> ns' = ns_add k ns)"
proof
  assume "scan_entry ns (name, c) = Inr ns'"
  then have "\<exists>k. name = kind_name k \<and> entry_ok k c"
    unfolding scan_entry_def
    by (auto simp: result_iff parse_name_Some entry_ok_def require_empty_Inr simp del: kind_name.simps
        split: option.splits)
  then obtain k where k: "name = kind_name k" "entry_ok k c" by blast
  with \<open>scan_entry ns (name, c) = Inr ns'\<close> scan_entry_kind [OF k(2), of ns]
  show "\<exists>k. name = kind_name k \<and> entry_ok k c \<and> ns' = ns_add k ns" by auto
qed (auto simp: scan_entry_kind)

lemma scan_entries_Inr:
  "rfold (\<lambda>ns (index, entry). if index \<ge> MAX_DIRECTORY_ENTRIES then Inl GdInvalid else scan_entry ns entry)
     ns (enumerate i xs) = Inr ns' \<longleftrightarrow>
   (xs = [] \<or> i + length xs \<le> MAX_DIRECTORY_ENTRIES) \<and>
   (\<forall>(name, c) \<in> set xs. \<exists>k. name = kind_name k \<and> entry_ok k c) \<and>
   ns' = fold (\<lambda>(name, c) ns. ns_add (SOME k. name = kind_name k) ns) xs ns"
proof (induction xs arbitrary: ns i)
  case Nil
  then show ?case by auto
next
  case (Cons x xs)
  obtain name c where x: "x = (name, c)" by force
  have some: "(SOME k. kind_name j = kind_name k) = j" for j by auto
  show ?case
    by (auto simp: x result_iff scan_entry_Inr Cons.IH some split: if_splits)
qed

lemma ns_get_fold:
  assumes "\<forall>(name, c) \<in> set xs. \<exists>k. name = kind_name k \<and> entry_ok k c"
  shows "ns_get k (fold (\<lambda>(name, c) ns. ns_add (SOME k. name = kind_name k) ns) xs ns) =
    (if kind_name k \<in> fst ` set xs then Some (kind_name k) else ns_get k ns)"
  using assms
proof (induction xs arbitrary: ns)
  case Nil
  show ?case by simp
next
  case (Cons x xs)
  obtain j c where x: "x = (kind_name j, c)" using Cons.prems by (cases x) auto
  have some: "(SOME k. kind_name j = kind_name k) = j" by auto
  show ?case
    using Cons by (auto simp: x some)
qed

lemma scan_namespace_Inr:
  assumes "scan_generation_namespace d = Inr ns"
  shows "namespace_ok d" "ns_get k ns = (if om_lookup d (kind_name k) = None then None else Some (kind_name k))"
proof -
  have s: "entries d = [] \<or> length (entries d) \<le> MAX_DIRECTORY_ENTRIES"
      "\<forall>(name, c) \<in> set (entries d). \<exists>k. name = kind_name k \<and> entry_ok k c"
      "ns = fold (\<lambda>(name, c) ns. ns_add (SOME k. name = kind_name k) ns) (entries d) empty_namespace"
    using assms unfolding scan_generation_namespace_def scan_entries_Inr by simp_all
  show "namespace_ok d"
    using s(1,2) unfolding namespace_ok_def om_size_def
    by (fastforce simp: set_entries [symmetric])
  have "kind_name k \<in> fst ` set (entries d) \<longleftrightarrow> om_lookup d (kind_name k) \<noteq> None"
    by (metis domIff om_keys_def set_map set_om_keys)
  then show "ns_get k ns = (if om_lookup d (kind_name k) = None then None else Some (kind_name k))"
    using ns_get_fold [OF s(2), of k empty_namespace] s(3) by auto
qed

lemma scan_namespace_ok:
  assumes "namespace_ok d"
  obtains ns where "scan_generation_namespace d = Inr ns"
proof -
  have "\<forall>(name, c) \<in> set (entries d). \<exists>k. name = kind_name k \<and> entry_ok k c"
    using assms by (auto simp: namespace_ok_def set_entries)
  then show thesis
    using that assms unfolding scan_generation_namespace_def scan_entries_Inr
    by (simp add: namespace_ok_def om_size_def)
qed

lemma namespace_ok_kind: "namespace_ok d \<Longrightarrow> om_lookup d (kind_name k) \<noteq> None \<Longrightarrow> kind_ok k"
  unfolding namespace_ok_def by (metis entry_ok_def kind_name_inject option.exhaust)

lemma last_key_Some:
  "last_key m = Some n \<longleftrightarrow> om_lookup m n \<noteq> None \<and> (\<forall>i. om_lookup m i \<noteq> None \<longrightarrow> i \<le> n)"
proof (cases "entries m = []")
  case True
  then show ?thesis by (simp add: last_key_def)
next
  case False
  then obtain xs k v where e: "entries m = xs @ [(k, v)]"
    by (metis append_butlast_last_id surj_pair)
  have ord: "al_ord (xs @ [(k, v)])" using entries_ord [of m] e by simp
  have k: "om_lookup m k \<noteq> None"
    using set_entries [of k v m] e by simp
  have "i \<le> k" if i: "om_lookup m i \<noteq> None" for i
  proof -
    obtain w where "om_lookup m i = Some w" using i by auto
    then have "(i, w) \<in> set (xs @ [(k, v)])" using set_entries [of i w m] e by simp
    with ord show ?thesis by (fastforce simp: al_ord_append)
  qed
  then show ?thesis
    using k e False by (auto simp: last_key_def order_antisym)
qed

lemma last_key_None: "last_key m = None \<longleftrightarrow> (\<forall>i. om_lookup m i = None)"
  by (simp add: last_key_def ordmap_eq_iff fun_eq_iff)



subsection \<open>Committed prefixes\<close>

lemma read_prefix_chunks_eq:
  "read_prefix_chunks source n h copied =
     (if n \<le> length source then Some (crc32_update h (take n source), copied @ take n source) else None)"
proof (induction source n h copied rule: read_prefix_chunks.induct)
  case (1 source n h copied)
  let ?w = "min n COPY_BUFFER_BYTES"
  show ?case
  proof (cases "n = 0")
    case True
    then show ?thesis by (simp add: read_prefix_chunks.simps)
  next
    case False
    then have w: "0 < ?w" by (simp add: COPY_BUFFER_BYTES_def)
    show ?thesis
    proof (cases "take ?w source = []")
      case True
      then have "source = []" using w by simp
      with False show ?thesis by (simp add: read_prefix_chunks.simps Let_def)
    next
      case ne: False
      have eq: "read_prefix_chunks source n h copied =
          read_prefix_chunks (drop ?w source) (n - length (take ?w source))
            (crc32_update h (take ?w source)) (copied @ take ?w source)"
        by (simp only: read_prefix_chunks.simps [of source n h copied] Let_def False ne if_False)
      note ih = "1.IH" [OF False refl refl ne]
      show ?thesis
      proof (cases "?w \<le> length source")
        case True
        have "take ?w source @ take (n - ?w) (drop ?w source) = take n source"
          by (metis le_add_diff_inverse min.cobounded1 take_add)
        with True show ?thesis
          unfolding eq ih by (auto simp flip: crc32_update_append simp: min_absorb2)
      next
        case short: False
        then show ?thesis unfolding eq ih by auto
      qed
    qed
  qed
qed

definition prefix_binds ::
    "(bytes \<Rightarrow> 32 word) \<Rightarrow> committed_prefix \<Rightarrow> (mutation_kind \<times> bytes \<times> bytes) list \<Rightarrow> bool" where
  "prefix_binds crc p ms \<longleftrightarrow> (\<forall>m \<in> set ms. record_wf m) \<and> length ms < u64_max \<and>
     cp_bytes p = length (log_image crc ms) \<and> cp_crc32 p = crc32_ieee (log_image crc ms) \<and>
     cp_record_count p = length ms \<and> cp_next_sequence p = 1 + length ms"

definition image_report ::
    "(bytes \<Rightarrow> 32 word) \<Rightarrow> (mutation_kind \<times> bytes \<times> bytes) list \<Rightarrow> verification_report" where
  "image_report crc ms =
     \<lparr>vr_file_format_version = 1, vr_file_bytes = length (log_image crc ms),
      vr_valid_bytes = length (log_image crc ms), vr_record_count = length ms,
      vr_live_keys = om_size (log_replay om_empty ms), vr_next_sequence = 1 + length ms,
      vr_recoverable_tail = None\<rparr>"

lemma log_verify_image:
  assumes "\<forall>m \<in> set ms. record_wf m" "length ms < u64_max" "length (log_image crc ms) \<le> u64_max"
  shows "log_verify crc (log_image crc ms) = Inr (image_report crc ms)"
  using log_scan_image [OF assms]
  by (simp add: log_verify_def log_verification_def image_report_def LOG_FILE_VERSION_def)

lemma verify_committed_prefix_Inr:
  assumes "length f \<le> u64_max"
  shows "verify_committed_prefix crc f p = Inr v \<longleftrightarrow>
    (\<exists>ms suf. f = log_image crc ms @ suf \<and> prefix_binds crc p ms \<and> v = image_report crc ms)"
proof
  assume v: "verify_committed_prefix crc f p = Inr v"
  let ?t = "take (cp_bytes p) f"
  have len: "cp_bytes p \<le> length f" using v by (auto simp: verify_committed_prefix_def split: if_splits)
  have crc: "crc32_ieee ?t = cp_crc32 p" and lv: "log_verify crc ?t = Inr v"
    and eq: "vr_recoverable_tail v = None" "vr_record_count v = cp_record_count p"
      "vr_next_sequence v = cp_next_sequence p"
    using v len by (auto simp: verify_committed_prefix_def read_prefix_chunks_eq crc32_ieee_def
        split: if_splits sum.splits)
  obtain r where r: "log_scan_file crc ?t = Inr r" "v = log_verification r"
    using lv by (auto simp: log_verify_def result_iff)
  obtain ms rest where ms: "?t = log_image crc ms @ rest" "\<forall>m \<in> set ms. record_wf m"
      "sc_record_count r = length ms" "sc_next_sequence r = 1 + length ms"
      "ms \<noteq> [] \<longrightarrow> length ms < u64_max" "sc_recoverable_tail r = None \<longleftrightarrow> rest = []"
    using log_scan_file_sound [OF r(1)] by (elim exE conjE) (rule that)
  have n: "length ms < u64_max" using ms(5) by (cases ms) (simp_all add: u64_max_def)
  have t: "?t = log_image crc ms" using ms(1,6) eq(1) r(2) by (simp add: log_verification_def)
  have lt: "length ?t = cp_bytes p" using len by simp
  have "v = image_report crc ms"
    using lv log_verify_image [OF ms(2) n] t lt len assms by simp
  moreover have "prefix_binds crc p ms"
    using ms n t lt crc eq r(2) by (simp add: prefix_binds_def log_verification_def)
  moreover have "f = log_image crc ms @ drop (cp_bytes p) f"
    by (simp add: t [symmetric])
  ultimately show "\<exists>ms suf. f = log_image crc ms @ suf \<and> prefix_binds crc p ms \<and> v = image_report crc ms"
    by blast
next
  assume "\<exists>ms suf. f = log_image crc ms @ suf \<and> prefix_binds crc p ms \<and> v = image_report crc ms"
  then obtain ms suf where f: "f = log_image crc ms @ suf" and p: "prefix_binds crc p ms"
    and v: "v = image_report crc ms" by blast
  have t: "take (cp_bytes p) f = log_image crc ms" using f p by (simp add: prefix_binds_def)
  have lv: "log_verify crc (log_image crc ms) = Inr v"
    using log_verify_image [of ms crc] p f assms v by (simp add: prefix_binds_def)
  show "verify_committed_prefix crc f p = Inr v"
    using f p lv
    by (simp add: verify_committed_prefix_def read_prefix_chunks_eq t prefix_binds_def
        crc32_ieee_def [symmetric] v image_report_def)
qed

text \<open>A file that scans and starts with a complete image continues it record by record.\<close>

lemma log_scan_extends:
  assumes "log_scan_file crc (log_image crc ms @ suf) = Inr r" "length (log_image crc ms @ suf) \<le> u64_max"
    and "\<forall>m \<in> set ms. record_wf m" "length ms < u64_max"
  obtains ms' rest where "log_image crc ms @ suf = log_image crc (ms @ ms') @ rest"
    "\<forall>m \<in> set (ms @ ms'). record_wf m" "sc_values r = log_replay om_empty (ms @ ms')"
    "sc_valid_bytes r = length (log_image crc (ms @ ms'))" "sc_record_count r = length (ms @ ms')"
    "length (ms @ ms') < u64_max" "sc_recoverable_tail r = None \<longleftrightarrow> rest = []"
    "\<forall>t. sc_recoverable_tail r = Some t \<longrightarrow> tail_record_offset t = sc_valid_bytes r"
proof -
  let ?f = "log_image crc ms @ suf" and ?n = "length (log_image crc ms)"
  have f: "?f = encode_log_header crc @ frames (log_record_bytes crc) 1 ms @ suf"
    by (simp add: log_image_def)
  have "log_scan_loop crc ?f 16 1 0 om_empty = Inr r"
    using assms(1) by (simp add: log_scan_file_def LOG_FILE_HEADER_LEN_def log_image_def result_iff)
  moreover have "log_scan_loop crc ?f 16 1 0 om_empty =
      log_scan_loop crc ?f ?n (1 + length ms) (0 + length ms) (log_replay om_empty ms)"
    using log.loop_replay [of ms 1 0 "encode_log_header crc" crc suf om_empty "log_replay om_empty ms"]
      assms f by (simp add: replay_log_apply log_image_def)
  ultimately have loop_eq: "log_scan_loop crc ?f ?n (1 + length ms) (0 + length ms) (log_replay om_empty ms) = Inr r"
    by simp
  have le: "?n \<le> length ?f" and seq_le: "1 + length ms \<le> u64_max" using assms(4) by simp_all
  from log.loop_sound [OF loop_eq le seq_le] obtain ms' rest where ms':
    "drop ?n ?f = frames (log_record_bytes crc) (1 + length ms) ms' @ rest" "\<forall>m \<in> set ms'. record_wf m"
    "replay (\<lambda>_. log_apply) (1 + length ms) (log_replay om_empty ms) ms' = Inr (sc_values r)"
    "sc_valid_bytes r = ?n + length (frames (log_record_bytes crc) (1 + length ms) ms')"
    "sc_record_count r = 0 + length ms + length ms'"
    "ms' \<noteq> [] \<longrightarrow> 1 + length ms + length ms' \<le> u64_max \<and> 0 + length ms + length ms' \<le> u64_max"
    "sc_recoverable_tail r = None \<longleftrightarrow> rest = []"
    "\<forall>t. sc_recoverable_tail r = Some t \<longrightarrow>
       tail_record_offset t = sc_valid_bytes r \<and> tail_available_bytes t = length rest"
    by (elim exE conjE) (rule that)
  have image: "log_image crc (ms @ ms') = log_image crc ms @ frames (log_record_bytes crc) (1 + length ms) ms'"
    by (simp add: log_image_def frames_append)
  have rep: "log_replay (log_replay vs xs) ys = log_replay vs (xs @ ys)" for vs xs ys
    by (induction vs xs rule: log_replay.induct) simp_all
  show thesis
  proof (rule that)
    show "?f = log_image crc (ms @ ms') @ rest" using ms'(1) by (simp add: image)
    show "length (ms @ ms') < u64_max" using ms'(6) assms(4) by (cases ms') simp_all
  qed (use ms' assms(3) in \<open>auto simp: image replay_log_apply rep\<close>)
qed


subsection \<open>What verifies\<close>

text \<open>\<open>gen_authority crc d g p f ms\<close>: generation \<open>g\<close> is the highest one with a commit marker, its
  marker is the encoding of \<open>p\<close>, its log \<open>f\<close> scans, and \<open>f\<close> begins with the complete image of the
  records \<open>ms\<close>, which is what \<open>p\<close> binds.\<close>

definition gen_authority ::
    "(bytes \<Rightarrow> 32 word) \<Rightarrow> gen_dir \<Rightarrow> nat \<Rightarrow> committed_prefix \<Rightarrow> bytes \<Rightarrow>
       (mutation_kind \<times> bytes \<times> bytes) list \<Rightarrow> bool" where
  "gen_authority crc d g p f ms \<longleftrightarrow>
     (\<exists>bs. om_lookup d (canonical_marker_name g) = Some (RegularFile bs) \<and> encode_commit_marker g p = Inr bs) \<and>
     (\<forall>i > g. om_lookup d (canonical_marker_name i) = None) \<and>
     om_lookup d (canonical_generation_name g) = Some (RegularFile f) \<and>
     is_ok (log_scan_file crc f) \<and> prefix_binds crc p ms \<and> (\<exists>suf. f = log_image crc ms @ suf)"

text \<open>File lengths are 64-bit.\<close>

definition files_fit :: "gen_dir \<Rightarrow> bool" where
  "files_fit d \<longleftrightarrow> (\<forall>name f. om_lookup d name = Some (RegularFile f) \<longrightarrow> length f \<le> u64_max)"

lemma require_real_Inr: "require_real_regular_file x = Inr f \<longleftrightarrow> x = Some (RegularFile f)"
  by (auto simp: require_real_regular_file_def split: option.splits dir_entry.splits)

lemma verify_generation_sound:
  assumes "verify_generation_directory crc d = Inr s" "files_fit d"
  obtains f ms where "namespace_ok d" "gen_authority crc d (gs_authoritative_generation s) (gs_committed_prefix s) f ms"
    "gs_authoritative_log s = canonical_generation_name (gs_authoritative_generation s)"
    "gs_committed_prefix_verification s = image_report crc ms"
    "log_verify crc f = Inr (gs_log_verification s)"
proof -
  let ?g = "gs_authoritative_generation s" and ?p = "gs_committed_prefix s"
  obtain ns path marker f v where v:
    "scan_generation_namespace d = Inr ns" "last_key (ns_marker_files ns) = Some ?g"
    "om_lookup (ns_marker_files ns) ?g = Some path" "read_commit_marker (om_lookup d path) ?g = Inr marker"
    "om_lookup (ns_generation_files ns) ?g = Some (gs_authoritative_log s)"
    "om_lookup d (gs_authoritative_log s) = Some (RegularFile f)"
    "log_verify crc f = Inr (gs_log_verification s)"
    "verify_committed_prefix crc f ?p = Inr (gs_committed_prefix_verification s)"
    "?p = cm_committed_prefix marker"
    using assms(1) unfolding verify_generation_directory_def
    by (auto simp: result_iff require_real_Inr)
  note ns = scan_namespace_Inr [OF v(1)]
  have path: "path = canonical_marker_name ?g"
    using ns(2) [of "KMarker ?g"] v(3) by (auto split: if_splits)
  have logp: "gs_authoritative_log s = canonical_generation_name ?g"
    using ns(2) [of "KGeneration ?g"] v(5) by (auto split: if_splits)
  obtain bs where bs: "om_lookup d path = Some (RegularFile bs)" "decode_commit_marker bs ?g = Inr marker"
    using v(4) by (auto simp: read_commit_marker_def result_iff require_real_Inr split: sum.splits)
  then have enc: "encode_commit_marker ?g ?p = Inr bs"
    unfolding v(9) by (simp add: decode_commit_marker_Inr)
  have top: "om_lookup d (canonical_marker_name i) = None" if "?g < i" for i
    using v(2) ns(2) [of "KMarker i"] that by (auto simp: last_key_Some split: if_splits)
  have "length f \<le> u64_max" using assms(2) v(6) by (simp add: files_fit_def)
  then obtain ms suf where ms: "f = log_image crc ms @ suf" "prefix_binds crc ?p ms"
      "gs_committed_prefix_verification s = image_report crc ms"
    using v(8) by (auto simp: verify_committed_prefix_Inr)
  have scan: "is_ok (log_scan_file crc f)" using v(7) by (auto simp: log_verify_def result_iff)
  show thesis
  proof (rule that)
    show "gen_authority crc d ?g ?p f ms"
      using bs(1) enc top v(6) ms scan unfolding path logp by (auto simp: gen_authority_def)
  qed (use ns(1) logp ms v(7) in simp_all)
qed


lemma opt_max_cases: "opt_max a b = Some n \<Longrightarrow> a = Some n \<or> b = Some n"
  by (auto simp: opt_max_def max_def split: option.splits if_splits)

lemma opt_max_bounds:
  "a = Some i \<Longrightarrow> \<exists>n. opt_max a b = Some n \<and> i \<le> n" "b = Some i \<Longrightarrow> \<exists>n. opt_max a b = Some n \<and> i \<le> n"
  by (auto simp: opt_max_def split: option.splits)

lemma highest_observed_bound:
  assumes "last_key m = Some i" "m \<in> {ns_generation_files ns, ns_marker_files ns,
      ns_staging_marker_files ns, ns_reservation_files ns}"
  shows "\<exists>n. ns_highest_observed_generation ns = Some n \<and> i \<le> n"
proof -
  note b = opt_max_bounds
  from assms(2) consider "m = ns_generation_files ns" | "m = ns_marker_files ns"
    | "m = ns_staging_marker_files ns" | "m = ns_reservation_files ns" by blast
  then show ?thesis
    using assms(1) unfolding ns_highest_observed_generation_def
    by cases (metis b order_trans)+
qed

lemma verify_generation_complete:
  assumes "namespace_ok d" "files_fit d" "gen_authority crc d g p f ms"
  obtains s where "verify_generation_directory crc d = Inr s" "gs_authoritative_generation s = g"
    "gs_committed_prefix s = p" "gs_authoritative_log s = canonical_generation_name g"
    "gs_committed_prefix_verification s = image_report crc ms" "log_verify crc f = Inr (gs_log_verification s)"
proof -
  obtain bs suf r where a: "om_lookup d (canonical_marker_name g) = Some (RegularFile bs)"
      "encode_commit_marker g p = Inr bs" "\<forall>i > g. om_lookup d (canonical_marker_name i) = None"
      "om_lookup d (canonical_generation_name g) = Some (RegularFile f)" "log_scan_file crc f = Inr r"
      "prefix_binds crc p ms" "f = log_image crc ms @ suf"
    using assms(3) by (auto simp: gen_authority_def is_ok_iff)
  obtain ns where ns: "scan_generation_namespace d = Inr ns" using scan_namespace_ok [OF assms(1)] .
  note get = scan_namespace_Inr(2) [OF ns]
  have marker_path: "om_lookup (ns_marker_files ns) g = Some (canonical_marker_name g)"
    using get [of "KMarker g"] a(1) by simp
  have last: "last_key (ns_marker_files ns) = Some g"
    using get [of "KMarker _"] a(1,3) by (fastforce simp: last_key_Some not_le [symmetric] split: if_splits)
  have log_path: "om_lookup (ns_generation_files ns) g = Some (canonical_generation_name g)"
    using get [of "KGeneration g"] a(4) by simp
  have lenf: "length f \<le> u64_max" using assms(2) a(4) by (auto simp: files_fit_def)
  have ok: "kind_ok (KMarker g)" using namespace_ok_kind [OF assms(1), of "KMarker g"] a(1) by simp
  define marker where "marker = \<lparr>cm_generation_id = g, cm_log_format_version = 1, cm_committed_prefix = p\<rparr>"
  have "decode_commit_marker bs g = Inr marker"
    using a(2,6,7) ok lenf by (simp add: decode_commit_marker_Inr marker_def kind_ok_def prefix_binds_def)
  then have rm: "read_commit_marker (om_lookup d (canonical_marker_name g)) g = Inr marker"
    using a(1) encode_commit_marker_state(2) [OF a(2)]
    by (simp add: read_commit_marker_def require_real_regular_file_def COMMIT_MARKER_LEN_def)
  have pv: "verify_committed_prefix crc f p = Inr (image_report crc ms)"
    using lenf a(6,7) by (auto simp: verify_committed_prefix_Inr)
  obtain ms' rest where ext: "f = log_image crc (ms @ ms') @ rest"
      "sc_valid_bytes r = length (log_image crc (ms @ ms'))"
      "\<forall>t. sc_recoverable_tail r = Some t \<longrightarrow> tail_record_offset t = sc_valid_bytes r"
    using log_scan_extends [of crc ms suf r] a(5-7) lenf unfolding prefix_binds_def by metis
  have bound: "cp_bytes p \<le> sc_valid_bytes r"
    using ext(2) a(6) by (simp add: prefix_binds_def log_image_def frames_append)
  have lv: "log_verify crc f = Inr (log_verification r)"
    using a(5) by (simp add: log_verify_def)
  obtain hi where hi: "ns_highest_observed_generation ns = Some hi"
    using highest_observed_bound [OF last] by auto
  have tail: "(case vr_recoverable_tail (log_verification r) of None \<Rightarrow> Inr ()
            | Some t \<Rightarrow> ensure (\<not> tail_record_offset t < cp_bytes p) GdInvalid) = Inr ()"
    using ext(3) bound by (simp add: log_verification_def split: option.split)
  define s where "s = \<lparr>gs_marker_format_version = COMMIT_MARKER_VERSION,
          gs_authoritative_generation = g, gs_authoritative_log = canonical_generation_name g,
          gs_highest_observed_generation = hi,
          gs_marker_generation_ids = om_keys (ns_marker_files ns),
          gs_staging_marker_generation_ids = om_keys (ns_staging_marker_files ns),
          gs_reservation_generation_ids = om_keys (ns_reservation_files ns),
          gs_uncommitted_generation_ids =
            filter (\<lambda>gid. om_lookup (ns_marker_files ns) gid = None) (om_keys (ns_generation_files ns)),
          gs_committed_prefix = p, gs_committed_prefix_verification = image_report crc ms,
          gs_log_verification = log_verification r\<rparr>"
  have fields: "cm_log_format_version marker = APPEND_LOG_FORMAT_VERSION" "cm_committed_prefix marker = p"
      "vr_file_format_version (log_verification r) = APPEND_LOG_FORMAT_VERSION"
      "\<not> vr_valid_bytes (log_verification r) < cp_bytes p"
    using bound by (simp_all add: marker_def APPEND_LOG_FORMAT_VERSION_def log_verification_def LOG_FILE_VERSION_def)
  have log_file: "require_real_regular_file (om_lookup d (canonical_generation_name g)) = Inr f"
    using a(4) by (simp add: require_real_regular_file_def)
  have "verify_generation_directory crc d = Inr s"
    unfolding verify_generation_directory_def ns rbind_simps last ok_or_simps marker_path rm log_path log_file
      lv map_err_simps fields(1,2,3) pv hi ensure_simps tail s_def
    using fields(4) by (simp add: ensure_def)
  then show thesis
    by (rule that) (simp_all only: s_def gen_summary.select_convs lv)
qed

lemma verify_generation_ids:
  assumes "verify_generation_directory crc d = Inr s"
  shows "om_lookup d (kind_name k) \<noteq> None \<Longrightarrow> kind_id k \<le> gs_highest_observed_generation s"
    and "\<exists>k. om_lookup d (kind_name k) \<noteq> None \<and> kind_id k = gs_highest_observed_generation s"
    and "n \<in> set (gs_reservation_generation_ids s) \<longleftrightarrow> om_lookup d (canonical_reservation_name n) \<noteq> None"
    and "n \<in> set (gs_marker_generation_ids s) \<longleftrightarrow> om_lookup d (canonical_marker_name n) \<noteq> None"
proof -
  obtain ns where ns: "scan_generation_namespace d = Inr ns"
    and hi: "ns_highest_observed_generation ns = Some (gs_highest_observed_generation s)"
    and ids: "gs_reservation_generation_ids s = om_keys (ns_reservation_files ns)"
      "gs_marker_generation_ids s = om_keys (ns_marker_files ns)"
    using assms unfolding verify_generation_directory_def by (auto simp: result_iff)
  note get = scan_namespace_Inr(2) [OF ns]
  show "n \<in> set (gs_reservation_generation_ids s) \<longleftrightarrow> om_lookup d (canonical_reservation_name n) \<noteq> None"
    using get [of "KReservation n"] by (auto simp: ids set_om_keys split: if_splits)
  show "n \<in> set (gs_marker_generation_ids s) \<longleftrightarrow> om_lookup d (canonical_marker_name n) \<noteq> None"
    using get [of "KMarker n"] by (auto simp: ids set_om_keys split: if_splits)
  let ?h = "gs_highest_observed_generation s"
  have bound: "i \<le> ?h" if "last_key m = Some i" "m \<in> {ns_generation_files ns, ns_marker_files ns,
      ns_staging_marker_files ns, ns_reservation_files ns}" for m i
    using hi highest_observed_bound [OF that] by simp
  have le: "i \<le> ?h" if "om_lookup m i \<noteq> None" "m \<in> {ns_generation_files ns, ns_marker_files ns,
      ns_staging_marker_files ns, ns_reservation_files ns}" for m i
  proof -
    have "last_key m \<noteq> None" using that(1) by (auto simp: last_key_None)
    then obtain j where j: "last_key m = Some j" by blast
    then have "i \<le> j" using that(1) by (simp add: last_key_Some)
    also have "j \<le> ?h" using j that(2) by (rule bound)
    finally show ?thesis .
  qed
  show "kind_id k \<le> ?h" if "om_lookup d (kind_name k) \<noteq> None"
    using that get [of k] le by (cases k) (auto split: if_splits)
  have "last_key (ns_generation_files ns) = Some ?h \<or> last_key (ns_marker_files ns) = Some ?h \<or>
      last_key (ns_staging_marker_files ns) = Some ?h \<or> last_key (ns_reservation_files ns) = Some ?h"
    using hi opt_max_cases unfolding ns_highest_observed_generation_def by blast
  then have "ns_get (KGeneration ?h) ns \<noteq> None \<or> ns_get (KMarker ?h) ns \<noteq> None \<or>
      ns_get (KStaging ?h) ns \<noteq> None \<or> ns_get (KReservation ?h) ns \<noteq> None"
    by (auto simp: last_key_Some)
  then obtain k where "ns_get k ns \<noteq> None" "kind_id k = ?h" by (metis kind_id.simps)
  then show "\<exists>k. om_lookup d (kind_name k) \<noteq> None \<and> kind_id k = ?h"
    using get [of k] by (auto split: if_splits)
qed



subsection \<open>Opening the authoritative log\<close>

lemma canonical_generation_path: "kind_ok (KGeneration g) \<Longrightarrow> is_canonical_generation_path (Some (canonical_generation_name g))"
  by (simp add: kind_ok_def is_canonical_generation_path_iff canonical_generation_name_def
      generation_file_name_def) blast

lemma log_from_scan:
  assumes "log_scan_file crc f = Inr r" "f = log_image crc ms @ rest" "sc_values r = log_replay om_empty ms"
    "sc_valid_bytes r = length (log_image crc ms)" "sc_record_count r = length ms"
    "sc_recoverable_tail r = None \<longleftrightarrow> rest = []" "\<forall>m \<in> set ms. record_wf m" "length ms < u64_max"
    "length f \<le> u64_max"
  shows "\<exists>e. log_from_file crc path own f False = (Inr e, log_image crc ms) \<and> log_holds crc e ms \<and>
    le_path e = path \<and> le_path_ownership e = own \<and> le_file_open e \<and> \<not> le_poisoned e"
proof -
  have "sc_next_sequence r = 1 + length ms"
    using log_scan_file_sound [OF assms(1)] assms(5) by auto
  then show ?thesis
    using assms by (cases rest) (simp_all add: log_from_file_def hash_file_prefix_def Let_def log_holds_def)
qed

lemma open_authority:
  assumes "gen_authority crc d g p f ms" "files_fit d" "kind_ok (KGeneration g)"
  obtains e ms' rest where "f = log_image crc (ms @ ms') @ rest"
    "log_open_managed_generation crc (Some (canonical_generation_name g)) (Some f) False =
       (Inr e, Some (log_image crc (ms @ ms')))"
    "log_invar crc e" "log_holds crc e (ms @ ms')" "le_path e = Some (canonical_generation_name g)"
    "le_path_ownership e = OwnGenerationManaged"
proof -
  have "om_lookup d (canonical_generation_name g) = Some (RegularFile f)"
    using assms(1) by (simp add: gen_authority_def)
  then have "length f \<le> u64_max" using assms(2) unfolding files_fit_def by blast
  then obtain suf r where a: "f = log_image crc ms @ suf" "log_scan_file crc f = Inr r" "prefix_binds crc p ms"
      "length f \<le> u64_max"
    using assms(1) unfolding gen_authority_def is_ok_iff by blast
  obtain ms' rest where ext: "f = log_image crc (ms @ ms') @ rest" "\<forall>m \<in> set (ms @ ms'). record_wf m"
    "sc_values r = log_replay om_empty (ms @ ms')" "sc_valid_bytes r = length (log_image crc (ms @ ms'))"
    "sc_record_count r = length (ms @ ms')" "length (ms @ ms') < u64_max"
    "sc_recoverable_tail r = None \<longleftrightarrow> rest = []"
    using log_scan_extends [of crc ms suf r] a unfolding prefix_binds_def by metis
  obtain e where e: "log_from_file crc (Some (canonical_generation_name g)) OwnGenerationManaged f False =
      (Inr e, log_image crc (ms @ ms'))" "log_holds crc e (ms @ ms')"
      "le_path e = Some (canonical_generation_name g)" "le_path_ownership e = OwnGenerationManaged"
      "le_file_open e" "\<not> le_poisoned e"
    using log_from_scan [OF a(2) ext(1,3,4,5,7,2,6) a(4)] by blast
  have path: "is_canonical_generation_path (Some (canonical_generation_name g))"
    using assms(3) by (rule canonical_generation_path)
  have "log_open_managed_generation crc (Some (canonical_generation_name g)) (Some f) False =
       (Inr e, Some (log_image crc (ms @ ms')))"
    using e(1) path by (simp add: log_open_managed_generation_def require_managed_generation_path_def
        log_open_with_ownership_def log_open_or_create_def)
  moreover have "log_invar crc e"
    using e path by (auto simp: log_invar_def log_path_ok_def)
  ultimately show thesis using that ext(1) e by blast
qed


subsection \<open>A directory with one generation\<close>

definition image_prefix ::
    "(bytes \<Rightarrow> 32 word) \<Rightarrow> (mutation_kind \<times> bytes \<times> bytes) list \<Rightarrow> committed_prefix" where
  "image_prefix crc ms =
     \<lparr>cp_bytes = length (log_image crc ms), cp_crc32 = crc32_ieee (log_image crc ms),
      cp_record_count = length ms, cp_next_sequence = 1 + length ms\<rparr>"

definition single_generation_dir ::
    "(bytes \<Rightarrow> 32 word) \<Rightarrow> nat \<Rightarrow> (mutation_kind \<times> bytes \<times> bytes) list \<Rightarrow> gen_dir" where
  "single_generation_dir crc g ms =
     om_insert (canonical_marker_name g)
       (RegularFile (marker_body g (image_prefix crc ms) @
          crc_field (crc32_ieee (marker_body g (image_prefix crc ms)))))
       (om_insert (canonical_generation_name g) (RegularFile (log_image crc ms)) om_empty)"

lemma kind_names_differ [simp]:
  "canonical_generation_name i \<noteq> canonical_marker_name j" "canonical_marker_name j \<noteq> canonical_generation_name i"
  "canonical_generation_name i \<noteq> canonical_staging_marker_name j" "canonical_staging_marker_name j \<noteq> canonical_generation_name i"
  "canonical_generation_name i \<noteq> canonical_reservation_name j" "canonical_reservation_name j \<noteq> canonical_generation_name i"
  "canonical_marker_name i \<noteq> canonical_staging_marker_name j" "canonical_staging_marker_name j \<noteq> canonical_marker_name i"
  "canonical_marker_name i \<noteq> canonical_reservation_name j" "canonical_reservation_name j \<noteq> canonical_marker_name i"
  "canonical_staging_marker_name i \<noteq> canonical_reservation_name j" "canonical_reservation_name j \<noteq> canonical_staging_marker_name i"
  using kind_name_inject [of "KGeneration i" "KMarker j"] kind_name_inject [of "KGeneration i" "KStaging j"]
    kind_name_inject [of "KGeneration i" "KReservation j"] kind_name_inject [of "KMarker i" "KStaging j"]
    kind_name_inject [of "KMarker i" "KReservation j"] kind_name_inject [of "KStaging i" "KReservation j"]
  by auto

lemma kind_names_inject [simp]:
  "canonical_generation_name i = canonical_generation_name j \<longleftrightarrow> i = j"
  "canonical_marker_name i = canonical_marker_name j \<longleftrightarrow> i = j"
  "canonical_staging_marker_name i = canonical_staging_marker_name j \<longleftrightarrow> i = j"
  "canonical_reservation_name i = canonical_reservation_name j \<longleftrightarrow> i = j"
  by (simp_all add: canonical_generation_name_def canonical_marker_name_def
      canonical_staging_marker_name_def canonical_reservation_name_def format_dec_inject)

lemma single_generation_dir:
  assumes "0 < g" "g \<le> u64_max" "\<forall>m \<in> set ms. record_wf m" "length ms < u64_max"
    "length (log_image crc ms) \<le> u64_max"
  shows "namespace_ok (single_generation_dir crc g ms)" "files_fit (single_generation_dir crc g ms)"
    "gen_authority crc (single_generation_dir crc g ms) g (image_prefix crc ms) (log_image crc ms) ms"
proof -
  let ?d = "single_generation_dir crc g ms"
  have ok: "entry_ok (KMarker g) c" "entry_ok (KGeneration g) c" for c
    using assms(1,2) by (simp_all add: entry_ok_def kind_ok_def)
  have "om_size ?d = 2"
    by (simp add: single_generation_dir_def om_size_insert_new) (simp add: om_size_def)
  then show "namespace_ok ?d"
    using ok unfolding namespace_ok_def
    by (auto simp: single_generation_dir_def MAX_DIRECTORY_ENTRIES_def split: if_splits
        intro: exI [of _ "KMarker g"] exI [of _ "KGeneration g"])
  show "files_fit ?d"
    using assms(5) by (auto simp: files_fit_def single_generation_dir_def u64_max_def split: if_splits)
  have "encode_commit_marker g (image_prefix crc ms) =
      Inr (marker_body g (image_prefix crc ms) @ crc_field (crc32_ieee (marker_body g (image_prefix crc ms))))"
    using assms(1,4) by (simp add: encode_commit_marker_Inr image_prefix_def log_image_def)
  moreover have "is_ok (log_scan_file crc (log_image crc ms))"
    using log_scan_image [OF assms(3-5)] by simp
  ultimately show "gen_authority crc ?d g (image_prefix crc ms) (log_image crc ms) ms"
    using assms(3-5) by (auto simp: gen_authority_def single_generation_dir_def prefix_binds_def image_prefix_def)
qed

lemma empty_generation_dir:
  "namespace_ok (single_generation_dir crc 1 [])" "files_fit (single_generation_dir crc 1 [])"
  "gen_authority crc (single_generation_dir crc 1 []) 1 (image_prefix crc []) (log_image crc []) []"
  using single_generation_dir [of 1 "[]" crc] by (simp_all add: u64_max_def log_image_def)


subsection \<open>Properties\<close>

text \<open>C16 (gen_verify): a directory verifies, for generation \<open>g\<close> with committed prefix \<open>p\<close>, if and
  only if every entry is one of the protocol's names and within the entry limit, the reservations
  are empty, \<open>g\<close> is the highest generation with a marker, that marker is the encoding of \<open>p\<close>, the
  log of \<open>g\<close> scans, and it begins with a complete log image of the length, checksum, record
  count and next sequence number that \<open>p\<close> states.\<close>

theorem verify_generation_exact:
  assumes "files_fit d"
  shows "(\<exists>s. verify_generation_directory crc d = Inr s \<and> gs_authoritative_generation s = g \<and>
           gs_committed_prefix s = p) \<longleftrightarrow>
    namespace_ok d \<and> (\<exists>f ms. gen_authority crc d g p f ms)"
  using verify_generation_sound [OF _ assms] verify_generation_complete [OF _ assms] by metis

lemma verify_generation_exact_witness:
  "\<exists>s. verify_generation_directory (\<lambda>_. 0) (single_generation_dir (\<lambda>_. 0) 1 []) = Inr s \<and>
    gs_authoritative_generation s = 1 \<and> gs_committed_prefix s = image_prefix (\<lambda>_. 0) []"
  using verify_generation_exact [OF empty_generation_dir(2) [of "\<lambda>_. 0"], of "\<lambda>_. 0" 1 "image_prefix (\<lambda>_. 0) []"]
    empty_generation_dir [of "\<lambda>_. 0"] by blast

text \<open>Opening the log that a verified directory selects succeeds, repairs at most a
  torn record behind the committed prefix, and yields an engine in its invariant that holds every
  record the commit marker binds, followed by the complete records appended after it.\<close>

theorem verified_log_opens:
  assumes "verify_generation_directory crc d = Inr s" "files_fit d"
  shows "\<exists>f e ms ms' rest. om_lookup d (gs_authoritative_log s) = Some (RegularFile f) \<and>
    f = log_image crc (ms @ ms') @ rest \<and> prefix_binds crc (gs_committed_prefix s) ms \<and>
    log_open_managed_generation crc (Some (gs_authoritative_log s)) (Some f) False =
      (Inr e, Some (log_image crc (ms @ ms'))) \<and>
    log_invar crc e \<and> le_values e = log_replay om_empty (ms @ ms')"
proof -
  let ?g = "gs_authoritative_generation s"
  obtain f ms where v: "namespace_ok d" "gen_authority crc d ?g (gs_committed_prefix s) f ms"
    "gs_authoritative_log s = canonical_generation_name ?g"
    using verify_generation_sound [OF assms] by metis
  have "kind_ok (KGeneration ?g)"
    using namespace_ok_kind [OF v(1), of "KGeneration ?g"] v(2) by (auto simp: gen_authority_def)
  with open_authority [OF v(2) assms(2)] obtain e ms' rest where
    "f = log_image crc (ms @ ms') @ rest"
    "log_open_managed_generation crc (Some (canonical_generation_name ?g)) (Some f) False =
       (Inr e, Some (log_image crc (ms @ ms')))" "log_invar crc e" "log_holds crc e (ms @ ms')"
    by metis
  moreover have "om_lookup d (canonical_generation_name ?g) = Some (RegularFile f)"
    "prefix_binds crc (gs_committed_prefix s) ms"
    using v(2) by (simp_all add: gen_authority_def)
  ultimately show ?thesis
    unfolding v(3) log_holds_def by blast
qed

lemma verified_log_opens_witness:
  "\<exists>s f e. verify_generation_directory (\<lambda>_. 0) (single_generation_dir (\<lambda>_. 0) 1 []) = Inr s \<and>
    fst (log_open_managed_generation (\<lambda>_. 0) (Some (gs_authoritative_log s)) (Some f) False) = Inr e \<and>
    log_invar (\<lambda>_. 0) e"
proof -
  obtain s where s: "verify_generation_directory (\<lambda>_. 0) (single_generation_dir (\<lambda>_. 0) 1 []) = Inr s"
    by (rule verify_generation_complete [OF empty_generation_dir [of "\<lambda>_. 0"]])
  then show ?thesis
    using verified_log_opens [OF s empty_generation_dir(2)] by (metis fst_conv)
qed

end
