(* ===== verification/GenWorld.thy ===== *)
theory GenWorld
  imports GenDirectorySpec Disk StateResult
begin

text \<open>
  The world a generation directory lives in: its entries, the sibling writer-lock file, and what
  the file system will do.  Every create, remove, link and sync consumes one entry of
  \<open>gw_faults\<close>: no fault, a failure before anything happened, or (for a create) a failure after some
  bytes reached the file; past the end of the list everything succeeds.  An operation stopped by
  a fault at a step leaves what a crash at that step leaves.  The second half is the cooperative
  writer lease (\<open>crates/db-cli/src/generation_lock.rs\<close>).
\<close>

subsection \<open>File-system calls\<close>

record gen_world =
  gw_entries :: gen_dir
  gw_lock :: "dir_entry option"
  gw_faults :: "write_fault option list"

type_synonym ('e, 'a) gen_act = "(gen_world, 'e, 'a) act"

definition gw_next_fault :: "gen_world \<Rightarrow> write_fault option \<times> gen_world" where
  "gw_next_fault w =
     (case gw_faults w of [] \<Rightarrow> (None, w) | f # fs \<Rightarrow> (f, w\<lparr>gw_faults := fs\<rparr>))"

fun fault_kind :: "write_fault \<Rightarrow> io_kind" where
  "fault_kind (BeforeWrite k) = k"
| "fault_kind (TornWrite n k) = k"

definition gw_file :: "gen_world \<Rightarrow> bytes \<Rightarrow> dir_entry option" where
  "gw_file w name = om_lookup (gw_entries w) name"

text \<open>\<open>create_new(true)\<close>, \<open>write_all\<close>, \<open>sync_all\<close>.\<close>

definition fs_create_new :: "bytes \<Rightarrow> bytes \<Rightarrow> (io_kind, unit) gen_act" where
  "fs_create_new name bs w =
     (if gw_file w name \<noteq> None then (Inl AlreadyExists, w)
      else case gw_next_fault w of
        (Some (BeforeWrite k), w') \<Rightarrow> (Inl k, w')
      | (Some (TornWrite n k), w') \<Rightarrow>
          (Inl k, w'\<lparr>gw_entries := om_insert name (RegularFile (take n bs)) (gw_entries w')\<rparr>)
      | (None, w') \<Rightarrow> (Inr (), w'\<lparr>gw_entries := om_insert name (RegularFile bs) (gw_entries w')\<rparr>))"

text \<open>\<open>remove_file\<close>.  An entry that is not a regular file (a directory, or a link, which the real call
  would unlink) is an error here; every caller has checked under the lease that its name is regular.\<close>

definition fs_remove_file :: "bytes \<Rightarrow> (io_kind, unit) gen_act" where
  "fs_remove_file name w =
     (case gw_file w name of
        None \<Rightarrow> (Inl NotFound, w)
      | Some OtherEntry \<Rightarrow> (Inl OtherIo, w)
      | Some (RegularFile _) \<Rightarrow>
          (case gw_next_fault w of
             (Some f, w') \<Rightarrow> (Inl (fault_kind f), w')
           | (None, w') \<Rightarrow> (Inr (), w'\<lparr>gw_entries := om_remove name (gw_entries w')\<rparr>)))"

definition fs_hard_link :: "bytes \<Rightarrow> bytes \<Rightarrow> (io_kind, unit) gen_act" where
  "fs_hard_link source target w =
     (case gw_file w source of
        None \<Rightarrow> (Inl NotFound, w)
      | Some entry \<Rightarrow>
          if gw_file w target \<noteq> None then (Inl AlreadyExists, w)
          else case gw_next_fault w of
            (Some f, w') \<Rightarrow> (Inl (fault_kind f), w')
          | (None, w') \<Rightarrow> (Inr (), w'\<lparr>gw_entries := om_insert target entry (gw_entries w')\<rparr>))"

text \<open>\<open>sync_all\<close> of an existing file or of the directory.\<close>

definition fs_sync :: "(io_kind, unit) gen_act" where
  "fs_sync w =
     (case gw_next_fault w of (Some f, w') \<Rightarrow> (Inl (fault_kind f), w') | (None, w') \<Rightarrow> (Inr (), w'))"

text \<open>A read-only step, and the error conversion of a step.\<close>

definition sask :: "('s \<Rightarrow> 'e + 'a) \<Rightarrow> ('s, 'e, 'a) act" where
  "sask f s = (f s, s)"

definition smap_err :: "('e \<Rightarrow> 'f) \<Rightarrow> ('s, 'e, 'a) act \<Rightarrow> ('s, 'f, 'a) act" where
  "smap_err h m s = (case m s of (r, s') \<Rightarrow> (map_err h r, s'))"

text \<open>A step whose failure is a value: \<open>match ... { Ok(..) => .., Err(..) => .. }\<close>.\<close>

definition strycatch :: "('s, 'e, 'a) act \<Rightarrow> ('s, 'f, 'e + 'a) act" where
  "strycatch m s = (case m s of (r, s') \<Rightarrow> (Inr r, s'))"

lemma sbind_sask [simp]: "sbind (sask f) k s = (case f s of Inl e \<Rightarrow> (Inl e, s) | Inr x \<Rightarrow> k x s)"
  by (simp add: sbind_def sask_def split: sum.split)

lemma sask_run: "sask f s = (f s, s)"
  by (simp add: sask_def)

lemma smap_err_cases:
  assumes "smap_err h m s = (r, s')"
  obtains r0 where "m s = (r0, s')" "r = map_err h r0"
  using assms by (auto simp: smap_err_def split: prod.splits)

lemma strycatch_cases:
  assumes "strycatch m s = (r, s')"
  obtains r0 where "m s = (r0, s')" "r = Inr r0"
  using assms by (auto simp: strycatch_def split: prod.splits)

lemma gw_next_fault_sel:
  "gw_next_fault w = (f, w') \<Longrightarrow> gw_entries w' = gw_entries w \<and> gw_lock w' = gw_lock w"
  by (auto simp: gw_next_fault_def split: list.splits)

lemma gw_next_fault_quiet [simp]: "gw_faults w = [] \<Longrightarrow> gw_next_fault w = (None, w)"
  by (simp add: gw_next_fault_def)

lemma fs_create_cases:
  assumes "fs_create_new name bs w = (r, w')"
  obtains (fail) e where "r = Inl e" "gw_entries w' = gw_entries w" "gw_lock w' = gw_lock w"
  | (torn) e n where "r = Inl e" "gw_file w name = None" "gw_lock w' = gw_lock w"
      "gw_entries w' = om_insert name (RegularFile (take n bs)) (gw_entries w)"
  | (whole) "r = Inr ()" "gw_file w name = None" "gw_lock w' = gw_lock w"
      "gw_entries w' = om_insert name (RegularFile bs) (gw_entries w)"
proof -
  obtain f w1 where f: "gw_next_fault w = (f, w1)" by force
  then have "gw_entries w1 = gw_entries w" "gw_lock w1 = gw_lock w" by (simp_all add: gw_next_fault_sel)
  with assms f show thesis
    unfolding fs_create_new_def
    by (auto split: if_splits option.splits write_fault.splits intro: fail torn whole)
qed

lemma fs_remove_cases:
  assumes "fs_remove_file name w = (r, w')"
  obtains (fail) e where "r = Inl e" "gw_entries w' = gw_entries w" "gw_lock w' = gw_lock w"
  | (gone) f where "r = Inr ()" "gw_file w name = Some (RegularFile f)" "gw_lock w' = gw_lock w"
      "gw_entries w' = om_remove name (gw_entries w)"
proof -
  obtain f w1 where f: "gw_next_fault w = (f, w1)" by force
  then have "gw_entries w1 = gw_entries w" "gw_lock w1 = gw_lock w" by (simp_all add: gw_next_fault_sel)
  with assms f show thesis
    unfolding fs_remove_file_def
    by (auto split: option.splits dir_entry.splits intro: fail gone)
qed

lemma fs_link_cases:
  assumes "fs_hard_link source target w = (r, w')"
  obtains (fail) e where "r = Inl e" "gw_entries w' = gw_entries w" "gw_lock w' = gw_lock w"
  | (linked) entry where "r = Inr ()" "gw_file w source = Some entry" "gw_file w target = None"
      "gw_lock w' = gw_lock w" "gw_entries w' = om_insert target entry (gw_entries w)"
proof -
  obtain f w1 where f: "gw_next_fault w = (f, w1)" by force
  then have "gw_entries w1 = gw_entries w" "gw_lock w1 = gw_lock w" by (simp_all add: gw_next_fault_sel)
  with assms f show thesis
    unfolding fs_hard_link_def
    by (auto split: option.splits if_splits intro: fail linked)
qed

lemma fs_sync_same: "fs_sync w = (r, w') \<Longrightarrow> gw_entries w' = gw_entries w \<and> gw_lock w' = gw_lock w"
  by (auto simp: fs_sync_def gw_next_fault_sel split: prod.splits option.splits)

lemma gw_quiet [simp]:
  "gw_faults w = [] \<Longrightarrow> gw_file w name = None \<Longrightarrow>
     fs_create_new name bs w = (Inr (), w\<lparr>gw_entries := om_insert name (RegularFile bs) (gw_entries w)\<rparr>)"
  "gw_faults w = [] \<Longrightarrow> gw_file w name = Some (RegularFile f) \<Longrightarrow>
     fs_remove_file name w = (Inr (), w\<lparr>gw_entries := om_remove name (gw_entries w)\<rparr>)"
  "gw_faults w = [] \<Longrightarrow> gw_file w source = Some entry \<Longrightarrow> gw_file w target = None \<Longrightarrow>
     fs_hard_link source target w = (Inr (), w\<lparr>gw_entries := om_insert target entry (gw_entries w)\<rparr>)"
  "gw_faults w = [] \<Longrightarrow> fs_sync w = (Inr (), w)"
  by (simp_all add: fs_create_new_def fs_remove_file_def fs_hard_link_def fs_sync_def)


subsection \<open>The writer lease (generation\_lock.rs)\<close>

definition MAX_GENERATION_WRITER_LOCK_BYTES :: nat where "MAX_GENERATION_WRITER_LOCK_BYTES = 4096"

datatype writer_lock_error =
  LockDirectory gen_dir_error
| LockInvalid
| LockBusy
| LockIo io_kind

text \<open>\<open>owner\<close> is the record of process id, time and counter that identifies the acquisition.\<close>

definition acquire_generation_writer_lease :: "bytes \<Rightarrow> (writer_lock_error, bytes) gen_act" where
  "acquire_generation_writer_lease owner w =
     (if gw_lock w \<noteq> None then (Inl LockBusy, w)
      else case gw_next_fault w of
        (Some (BeforeWrite k), w') \<Rightarrow> (Inl (LockIo k), w')
      | (Some (TornWrite n k), w') \<Rightarrow>
          (case gw_next_fault w' of
             (None, w'') \<Rightarrow> (Inl (LockIo k), w'')
           | (Some _, w'') \<Rightarrow> (Inl (LockIo k), w''\<lparr>gw_lock := Some (RegularFile (take n owner))\<rparr>))
      | (None, w') \<Rightarrow> (Inr owner, w'\<lparr>gw_lock := Some (RegularFile owner)\<rparr>))"

definition read_lock_record_if_present :: "gen_world \<Rightarrow> writer_lock_error + bytes option" where
  "read_lock_record_if_present w =
     (case gw_lock w of
        None \<Rightarrow> Inr None
      | Some OtherEntry \<Rightarrow> Inl LockInvalid
      | Some (RegularFile bs) \<Rightarrow>
          if length bs > MAX_GENERATION_WRITER_LOCK_BYTES then Inl LockInvalid else Inr (Some bs))"

text \<open>\<open>Drop\<close>: the lock file goes only while it still holds this acquisition's record.\<close>

definition release_generation_writer_lease :: "bytes \<Rightarrow> gen_world \<Rightarrow> gen_world" where
  "release_generation_writer_lease owner w =
     (if read_lock_record_if_present w = Inr (Some owner)
      then case gw_next_fault w of (Some _, w') \<Rightarrow> w' | (None, w') \<Rightarrow> w'\<lparr>gw_lock := None\<rparr>
      else w)"

text \<open>A lease held for the rest of a function body.\<close>

definition with_lease ::
    "(writer_lock_error \<Rightarrow> 'e) \<Rightarrow> bytes \<Rightarrow> ('e, 'a) gen_act \<Rightarrow> ('e, 'a) gen_act" where
  "with_lease h owner body =
     sbind (smap_err h (acquire_generation_writer_lease owner)) (\<lambda>_ w.
       case body w of (r, w') \<Rightarrow> (r, release_generation_writer_lease owner w'))"

record lock_inspection =
  li_present :: bool
  li_record_bytes :: nat
  li_record_hex :: "bytes option"

definition inspect_generation_writer_lock :: "gen_world \<Rightarrow> writer_lock_error + lock_inspection" where
  "inspect_generation_writer_lock w =
     rbind (read_lock_record_if_present w) (\<lambda>record.
       Inr \<lparr>li_present = record \<noteq> None,
            li_record_bytes = (case record of None \<Rightarrow> 0 | Some bs \<Rightarrow> length bs),
            li_record_hex = map_option to_hex record\<rparr>)"

fun lock_hex_pairs :: "bytes \<Rightarrow> writer_lock_error + bytes" where
  "lock_hex_pairs (p0 # p1 # rest) =
     rbind (ok_or (decode_nibble p0) LockInvalid) (\<lambda>high.
     rbind (ok_or (decode_nibble p1) LockInvalid) (\<lambda>low.
     rbind (lock_hex_pairs rest) (\<lambda>bs. Inr ((push_bit 4 high OR low) # bs))))"
| "lock_hex_pairs _ = Inr []"

definition lock_decode_hex :: "bytes \<Rightarrow> writer_lock_error + bytes" where
  "lock_decode_hex encoded =
     (if length encoded mod 2 \<noteq> 0 then Inl LockInvalid
      else if length encoded div 2 > MAX_GENERATION_WRITER_LOCK_BYTES then Inl LockInvalid
      else lock_hex_pairs encoded)"

record lock_clear_summary =
  lc_removed_record_bytes :: nat
  lc_removed_record_hex :: bytes

definition clear_stale_generation_writer_lock ::
    "bytes \<Rightarrow> bool \<Rightarrow> (writer_lock_error, lock_clear_summary) gen_act" where
  "clear_stale_generation_writer_lock expected_record_hex confirmed_no_live_writer =
     sbind (slift (ensure confirmed_no_live_writer LockInvalid)) (\<lambda>_.
     sbind (slift (lock_decode_hex expected_record_hex)) (\<lambda>expected.
     sbind (slift (ensure (\<not> length expected > MAX_GENERATION_WRITER_LOCK_BYTES) LockInvalid)) (\<lambda>_.
     sbind (sask (\<lambda>w. rbind (read_lock_record_if_present w) (\<lambda>r. ok_or r LockInvalid))) (\<lambda>current.
     sbind (slift (ensure (current = expected) LockInvalid)) (\<lambda>_.
     sbind (sask (\<lambda>w. rbind (read_lock_record_if_present w) (\<lambda>r. ok_or r LockInvalid))) (\<lambda>current_again.
     sbind (slift (ensure (current_again = expected) LockInvalid)) (\<lambda>_.
     sbind (\<lambda>w. case gw_next_fault w of
               (Some f, w') \<Rightarrow> (Inl (LockIo (fault_kind f)), w')
             | (None, w') \<Rightarrow> (Inr (), w'\<lparr>gw_lock := None\<rparr>)) (\<lambda>_.
     sbind (sask (\<lambda>w. ensure (gw_lock w = None) LockInvalid)) (\<lambda>_.
     sret \<lparr>lc_removed_record_bytes = length expected, lc_removed_record_hex = to_hex expected\<rparr>)))))))))"

lemma acquire_cases:
  assumes "acquire_generation_writer_lease owner w = (r, w')"
  obtains (fail) e where "r = Inl e" "gw_entries w' = gw_entries w"
  | (held) "r = Inr owner" "gw_entries w' = gw_entries w" "gw_lock w = None"
      "gw_lock w' = Some (RegularFile owner)"
proof -
  obtain f w1 where f: "gw_next_fault w = (f, w1)" by force
  obtain f2 w2 where f2: "gw_next_fault w1 = (f2, w2)" by force
  have e1: "gw_entries w1 = gw_entries w" and e2: "gw_entries w2 = gw_entries w1"
    using gw_next_fault_sel [OF f] gw_next_fault_sel [OF f2] by simp_all
  show thesis
  proof (cases "gw_lock w = None")
    case False
    then show thesis
      using assms by (intro fail [of LockBusy]) (simp_all add: acquire_generation_writer_lease_def)
  next
    case True
    show thesis
    proof (cases f)
      case None
      then show thesis
        using assms True f e1 by (intro held) (auto simp: acquire_generation_writer_lease_def)
    next
      case (Some fault)
      then have "r = Inl (LockIo (fault_kind fault))" "gw_entries w' = gw_entries w"
        using assms True f f2 e1 e2
        by (cases fault; cases f2; clarsimp simp: acquire_generation_writer_lease_def)+
      then show thesis by (rule fail)
    qed
  qed
qed

lemma release_entries [simp]: "gw_entries (release_generation_writer_lease owner w) = gw_entries w"
proof -
  obtain f w1 where f: "gw_next_fault w = (f, w1)" by force
  then have "gw_entries w1 = gw_entries w" by (simp add: gw_next_fault_sel)
  then show ?thesis
    by (cases f) (simp_all add: release_generation_writer_lease_def f)
qed

lemma with_lease_cases:
  assumes "with_lease h owner body w = (r, w')"
  obtains (fail) e where "r = Inl (h e)" "gw_entries w' = gw_entries w"
  | (ran) w1 w2 where "gw_entries w1 = gw_entries w" "gw_lock w = None"
      "gw_lock w1 = Some (RegularFile owner)" "body w1 = (r, w2)"
      "gw_entries w' = gw_entries w2" "w' = release_generation_writer_lease owner w2"
proof -
  obtain r0 w0 where acq: "acquire_generation_writer_lease owner w = (r0, w0)" by force
  obtain r1 w2 where body: "body w0 = (r1, w2)" by force
  from acq show thesis
  proof (cases rule: acquire_cases)
    case (fail e)
    have "with_lease h owner body w = (Inl (h e), w0)"
      by (simp add: with_lease_def sbind_def smap_err_def acq fail(1))
    with assms fail(2) show thesis by (intro that(1) [of e]) simp_all
  next
    case held
    have "with_lease h owner body w = (r1, release_generation_writer_lease owner w2)"
      by (simp add: with_lease_def sbind_def smap_err_def acq held(1) body)
    with assms have "r1 = r" "w' = release_generation_writer_lease owner w2" by simp_all
    with body held(2-4) show thesis by (intro that(2) [of w0 w2]) simp_all
  qed
qed

end
