(* ===== verification/GenPublish.thy ===== *)
theory GenPublish
  imports GenWorld
begin

text \<open>
  Publication of a commit marker and reservation of generation ids
  (\<open>crates/db-cli/src/generation_publication.rs\<close> and \<open>generation_reservation.rs\<close>, Unix).  Both
  are sequences of file-system calls any of which may fail; the fault points the tests inject are
  not part of the code and not modelled, the faults of the world take their place.
\<close>

subsection \<open>Publication\<close>

datatype publication_error =
  PubInvalid
| PubDatabase db_error
| PubPrefix prefix_error
| PubIo io_kind
| PubDurabilityUncertain io_kind

record publication_summary =
  ps_marker_format_version :: nat
  ps_generation :: nat
  ps_generation_log :: bytes
  ps_marker :: bytes
  ps_committed_prefix :: committed_prefix
  ps_staging_retained :: bool

fun map_directory_error :: "gen_dir_error \<Rightarrow> publication_error" where
  "map_directory_error GdInvalid = PubInvalid"
| "map_directory_error (GdDatabase e) = PubDatabase e"
| "map_directory_error (GdIo k) = PubIo k"

text \<open>The bytes behind a path that is opened for reading; publication reads only the log, which it has
  found to be a regular file, so the open does not fail.\<close>

definition gw_read :: "gen_world \<Rightarrow> bytes \<Rightarrow> io_kind + bytes" where
  "gw_read w path =
     (case gw_file w path of
        None \<Rightarrow> Inl NotFound
      | Some OtherEntry \<Rightarrow> Inl OtherIo
      | Some (RegularFile f) \<Rightarrow> Inr f)"

definition require_clean_generation ::
    "(bytes \<Rightarrow> 32 word) \<Rightarrow> bytes \<Rightarrow> gen_world \<Rightarrow> publication_error + verification_report" where
  "require_clean_generation crc path w =
     rbind (map_err PubIo (gw_read w path)) (\<lambda>f.
     rbind (map_err PubDatabase (log_verify crc f)) (\<lambda>report.
       if vr_recoverable_tail report \<noteq> None \<or> vr_file_bytes report \<noteq> vr_valid_bytes report
       then Inl PubInvalid else Inr report))"

definition derive_prefix_proof ::
    "bytes \<Rightarrow> verification_report \<Rightarrow> gen_world \<Rightarrow> publication_error + committed_prefix" where
  "derive_prefix_proof path report w =
     rbind (map_err PubIo (gw_read w path)) (\<lambda>f.
     rbind (ok_or (read_prefix_chunks f (vr_file_bytes report) crc32_new []) PubInvalid) (\<lambda>(hasher, _).
       if length f > vr_file_bytes report then Inl PubInvalid
       else Inr \<lparr>cp_bytes = vr_file_bytes report, cp_crc32 = crc32_finalize hasher,
                 cp_record_count = vr_record_count report,
                 cp_next_sequence = vr_next_sequence report\<rparr>))"

definition verify_prefix_at ::
    "(bytes \<Rightarrow> 32 word) \<Rightarrow> bytes \<Rightarrow> committed_prefix \<Rightarrow> gen_world \<Rightarrow> publication_error + verification_report" where
  "verify_prefix_at crc path prefix w =
     rbind (map_err PubIo (gw_read w path)) (\<lambda>f.
       map_err PubPrefix (verify_committed_prefix crc f prefix))"

definition require_exact_clean_generation ::
    "(bytes \<Rightarrow> 32 word) \<Rightarrow> bytes \<Rightarrow> verification_report \<Rightarrow> committed_prefix \<Rightarrow> gen_world \<Rightarrow>
       publication_error + unit" where
  "require_exact_clean_generation crc path baseline prefix w =
     rbind (verify_prefix_at crc path prefix w) (\<lambda>_.
     rbind (require_clean_generation crc path w) (\<lambda>current.
       ensure (current = baseline) PubInvalid))"

definition require_absent :: "bytes \<Rightarrow> gen_world \<Rightarrow> publication_error + unit" where
  "require_absent path w = (case gw_file w path of None \<Rightarrow> Inr () | Some _ \<Rightarrow> Inl PubInvalid)"

definition remove_stale_staging_if_safe :: "bytes \<Rightarrow> (publication_error, unit) gen_act" where
  "remove_stale_staging_if_safe path w =
     (case gw_file w path of
        None \<Rightarrow> (Inr (), w)
      | Some (RegularFile _) \<Rightarrow> smap_err PubIo (fs_remove_file path) w
      | Some OtherEntry \<Rightarrow> (Inl PubInvalid, w))"

definition verify_published_marker ::
    "bytes \<Rightarrow> nat \<Rightarrow> committed_prefix \<Rightarrow> gen_world \<Rightarrow> publication_error + commit_marker" where
  "verify_published_marker path generation prefix w =
     rbind (map_err map_directory_error (require_real_regular_file (gw_file w path))) (\<lambda>bs.
     rbind (map_err (\<lambda>_. PubInvalid) (decode_commit_marker bs generation)) (\<lambda>marker.
       if cm_committed_prefix marker \<noteq> prefix then Inl PubInvalid else Inr marker))"

text \<open>The second half of the function, from the first synchronization on.\<close>

definition publish_derived_marker ::
    "(bytes \<Rightarrow> 32 word) \<Rightarrow> nat \<Rightarrow> verification_report \<Rightarrow> committed_prefix \<Rightarrow>
       (publication_error, publication_summary) gen_act" where
  "publish_derived_marker crc generation baseline prefix =
     (let log_path = canonical_generation_name generation;
          marker_path = canonical_marker_name generation;
          staging_path = canonical_staging_marker_name generation in
      sbind (smap_err PubIo fs_sync) (\<lambda>_.
      sbind (smap_err PubIo fs_sync) (\<lambda>_.
      sbind (sask (require_exact_clean_generation crc log_path baseline prefix)) (\<lambda>_.
      sbind (slift (map_err (\<lambda>_. PubInvalid) (encode_commit_marker generation prefix))) (\<lambda>encoded.
      sbind (smap_err PubIo (fs_create_new staging_path encoded)) (\<lambda>_.
      sbind (sask (require_exact_clean_generation crc log_path baseline prefix)) (\<lambda>_.
      sbind (smap_err PubIo (fs_hard_link staging_path marker_path)) (\<lambda>_.
      sbind (smap_err PubDurabilityUncertain fs_sync) (\<lambda>_.
      sbind (sask (verify_published_marker marker_path generation prefix)) (\<lambda>_.
      sbind (sask (verify_prefix_at crc log_path prefix)) (\<lambda>_.
      sbind (strycatch (fs_remove_file staging_path)) (\<lambda>removed.
      sret \<lparr>ps_marker_format_version = COMMIT_MARKER_VERSION, ps_generation = generation,
            ps_generation_log = log_path, ps_marker = marker_path, ps_committed_prefix = prefix,
            ps_staging_retained = (removed \<noteq> Inr () \<and> removed \<noteq> Inl NotFound)\<rparr>))))))))))))"

definition publish_generation_marker ::
    "(bytes \<Rightarrow> 32 word) \<Rightarrow> nat \<Rightarrow> (publication_error, publication_summary) gen_act" where
  "publish_generation_marker crc generation =
     (let log_path = canonical_generation_name generation;
          marker_path = canonical_marker_name generation;
          staging_path = canonical_staging_marker_name generation in
      sbind (slift (ensure (generation \<noteq> 0) PubInvalid)) (\<lambda>_.
      sbind (sask (\<lambda>w. map_err map_directory_error (scan_generation_namespace (gw_entries w)))) (\<lambda>ns.
      sbind (slift (ensure (\<not> list_ex (\<lambda>gid. gid \<ge> generation) (om_keys (ns_marker_files ns))) PubInvalid)) (\<lambda>_.
      sbind (sask (\<lambda>w. map_err map_directory_error (require_real_regular_file (gw_file w log_path)))) (\<lambda>_.
      sbind (sask (require_absent marker_path)) (\<lambda>_.
      sbind (remove_stale_staging_if_safe staging_path) (\<lambda>_.
      sbind (sask (require_clean_generation crc log_path)) (\<lambda>baseline.
      sbind (sask (derive_prefix_proof log_path baseline)) (\<lambda>prefix.
      sbind (sask (verify_prefix_at crc log_path prefix)) (\<lambda>prefix_verification.
      sbind (slift (ensure (prefix_verification = baseline) PubInvalid)) (\<lambda>_.
      publish_derived_marker crc generation baseline prefix)))))))))))"


subsection \<open>Reservation\<close>

datatype reservation_error =
  ResLock writer_lock_error
| ResDirectory gen_dir_error
| ResIo io_kind
| ResDurabilityUncertain nat io_kind
| NotRetained nat

record reservation_summary =
  rs_generation :: nat
  rs_reservation :: bytes
  rs_authoritative_generation :: nat
  rs_highest_observed_generation :: nat

definition retained_summary ::
    "(bytes \<Rightarrow> 32 word) \<Rightarrow> nat \<Rightarrow> bytes \<Rightarrow> gen_world \<Rightarrow> reservation_error + reservation_summary" where
  "retained_summary crc generation reservation w =
     rbind (map_err ResDirectory (verify_generation_directory crc (gw_entries w))) (\<lambda>after.
       if generation \<notin> set (gs_reservation_generation_ids after) \<or>
          gs_highest_observed_generation after < generation
       then Inl (NotRetained generation)
       else Inr \<lparr>rs_generation = generation, rs_reservation = reservation,
                 rs_authoritative_generation = gs_authoritative_generation after,
                 rs_highest_observed_generation = gs_highest_observed_generation after\<rparr>)"

definition reserve_next_generation ::
    "(bytes \<Rightarrow> 32 word) \<Rightarrow> bytes \<Rightarrow> (reservation_error, reservation_summary) gen_act" where
  "reserve_next_generation crc owner =
     with_lease ResLock owner
      (sbind (sask (\<lambda>w. map_err ResDirectory (verify_generation_directory crc (gw_entries w)))) (\<lambda>before.
       sbind (slift (map_err ResDirectory (next_generation_id before))) (\<lambda>generation.
       let reservation = canonical_reservation_name generation in
       sbind (smap_err ResIo (fs_create_new reservation [])) (\<lambda>_.
       sbind (smap_err (ResDurabilityUncertain generation) fs_sync) (\<lambda>_.
       sask (retained_summary crc generation reservation))))))"


subsection \<open>Directories that agree on the authority\<close>

text \<open>Entries outside the markers and logs do not matter to which generation is authoritative.\<close>

lemma gen_authority_cong:
  assumes "gen_authority crc d g p f ms"
    "\<And>n. om_lookup d' (canonical_marker_name n) = om_lookup d (canonical_marker_name n)"
    "om_lookup d' (canonical_generation_name g) = om_lookup d (canonical_generation_name g)"
  shows "gen_authority crc d' g p f ms"
  using assms by (simp add: gen_authority_def)

lemma namespace_ok_update:
  assumes "namespace_ok d" "om_size d' \<le> MAX_DIRECTORY_ENTRIES"
    and "\<And>k c. om_lookup d' k = Some c \<Longrightarrow> om_lookup d k = Some c \<or> (\<exists>j. k = kind_name j \<and> entry_ok j c)"
  shows "namespace_ok d'"
  using assms unfolding namespace_ok_def by metis

text \<open>\<open>verifies_as crc d g p\<close>: the directory verifies, with that authority and committed prefix.\<close>

definition verifies_as :: "(bytes \<Rightarrow> 32 word) \<Rightarrow> gen_dir \<Rightarrow> nat \<Rightarrow> committed_prefix \<Rightarrow> bool" where
  "verifies_as crc d g p \<longleftrightarrow> (\<exists>s. verify_generation_directory crc d = Inr s \<and>
     gs_authoritative_generation s = g \<and> gs_committed_prefix s = p)"

lemma verifies_as_iff:
  "files_fit d \<Longrightarrow> verifies_as crc d g p \<longleftrightarrow> namespace_ok d \<and> (\<exists>f ms. gen_authority crc d g p f ms)"
  unfolding verifies_as_def using verify_generation_sound verify_generation_complete by metis

end
