(* ===== verification/GenCompact.thy ===== *)
theory GenCompact
  imports GenPublish
begin

text \<open>
  Compaction of an append log (\<open>crates/db-cli/src/log_compaction.rs\<close>) and the offline switch of a
  generation directory to the compacted generation (\<open>generation_compaction.rs\<close>), both as on Unix.
  Source, output and staging file are entries of one directory, as the switch uses them; path
  canonicalization is not modelled.  Every create, append, link, remove and sync may fail.
\<close>

subsection \<open>The compact copy\<close>

datatype log_compaction_error =
  LcDatabase db_error
| LcIo io_kind
| LcInvalid

record log_compaction_report =
  lr_file_format_version :: nat
  lr_source_file_bytes :: nat
  lr_source_record_count :: nat
  lr_live_keys :: nat
  lr_compacted_file_bytes :: nat
  lr_compacted_record_count :: nat
  lr_reclaimed_bytes :: nat
  lr_staging_retained :: bool

definition staging_path :: "bytes \<Rightarrow> bytes" where
  "staging_path output = ascii ''.'' @ output @ ascii ''.compacting''"

definition lc_require_absent :: "bytes \<Rightarrow> gen_world \<Rightarrow> log_compaction_error + unit" where
  "lc_require_absent path w = (case gw_file w path of None \<Rightarrow> Inr () | Some _ \<Rightarrow> Inl LcInvalid)"

definition lc_require_regular :: "bytes \<Rightarrow> gen_world \<Rightarrow> log_compaction_error + unit" where
  "lc_require_regular path w =
     (case gw_file w path of
        None \<Rightarrow> Inl (LcIo NotFound) | Some OtherEntry \<Rightarrow> Inl LcInvalid | Some (RegularFile _) \<Rightarrow> Inr ())"

text \<open>\<open>LogEngine::verify\<close> and \<open>LogEngine::inspect\<close> of a path.\<close>

definition verify_path :: "(bytes \<Rightarrow> 32 word) \<Rightarrow> bytes \<Rightarrow> gen_world \<Rightarrow> verification_report result" where
  "verify_path crc path w = rbind (map_err Io (gw_read w path)) (\<lambda>f. log_verify crc f)"

definition inspect_path :: "(bytes \<Rightarrow> 32 word) \<Rightarrow> bytes \<Rightarrow> gen_world \<Rightarrow> inspection_report result" where
  "inspect_path crc path w = rbind (map_err Io (gw_read w path)) (\<lambda>f. log_inspect crc f True)"

text \<open>What a failed write of the append leaves behind.\<close>

fun append_fault :: "write_fault option \<Rightarrow> io_fault" where
  "append_fault None = None"
| "append_fault (Some (BeforeWrite k)) = Some (0, k)"
| "append_fault (Some (TornWrite n k)) = Some (n, k)"

definition cleanup_on_error :: "bytes list \<Rightarrow> ('e, 'a) gen_act \<Rightarrow> ('e, 'a) gen_act" where
  "cleanup_on_error paths m w =
     (case m w of
        (Inr x, w') \<Rightarrow> (Inr x, w')
      | (Inl e, w') \<Rightarrow> (Inl e, fold (\<lambda>path w. snd (fs_remove_file path w)) paths w'))"

fun copy_entries ::
    "(bytes \<Rightarrow> 32 word) \<Rightarrow> bytes \<Rightarrow> inspection_entry list \<Rightarrow> log_engine \<Rightarrow> (log_compaction_error, unit) gen_act" where
  "copy_entries crc path [] compacted w = (Inr (), w)"
| "copy_entries crc path (entry # rest) compacted w =
     (case ie_value entry of
        None \<Rightarrow> (Inl LcInvalid, w)
      | Some val \<Rightarrow>
          (case gw_next_fault w of (fault, w1) \<Rightarrow>
             (case log_put crc (append_fault fault) compacted (ie_key entry) val of
                (r, compacted') \<Rightarrow>
                  let w2 = w1\<lparr>gw_entries := om_insert path (RegularFile (le_disk compacted')) (gw_entries w1)\<rparr> in
                  case r of
                    Inl e \<Rightarrow> (Inl (LcDatabase e), w2)
                  | Inr _ \<Rightarrow> copy_entries crc path rest compacted' w2)))"

text \<open>The copy as one step: other processes see the staging file before or after it, not while it grows,
  and reading the source does not fail.\<close>

definition build_staging ::
    "(bytes \<Rightarrow> 32 word) \<Rightarrow> bytes \<Rightarrow> inspection_report \<Rightarrow> (log_compaction_error, unit) gen_act" where
  "build_staging crc path source =
     cleanup_on_error [path] (\<lambda>w.
       case log_create_new crc (Some path) (case gw_file w path of None \<Rightarrow> None | Some _ \<Rightarrow> Some []) of
         (Inl e, _) \<Rightarrow> (Inl (LcDatabase e), w)
       | (Inr compacted, _) \<Rightarrow>
           sbind (smap_err (\<lambda>k. LcDatabase (Io k)) (fs_create_new path (le_disk compacted)))
             (\<lambda>_. copy_entries crc path (ir_entries source) compacted) w)"

definition validate_compacted_state ::
    "inspection_report \<Rightarrow> inspection_report \<Rightarrow> log_compaction_error + unit" where
  "validate_compacted_state source compacted =
     (if vr_recoverable_tail (ir_verification compacted) \<noteq> None then Inl LcInvalid
      else if vr_live_keys (ir_verification compacted) \<noteq> vr_live_keys (ir_verification source) \<or>
              vr_record_count (ir_verification compacted) \<noteq> length (ir_entries source) \<or>
              ir_entries compacted \<noteq> ir_entries source
      then Inl LcInvalid
      else Inr ())"

definition publish_staging :: "bytes \<Rightarrow> bytes \<Rightarrow> (log_compaction_error, unit) gen_act" where
  "publish_staging staging output =
     cleanup_on_error [staging] (smap_err LcIo (fs_hard_link staging output))"

text \<open>From the complete staging file on.\<close>

definition publish_compacted ::
    "(bytes \<Rightarrow> 32 word) \<Rightarrow> bytes \<Rightarrow> bytes \<Rightarrow> bytes \<Rightarrow> verification_report \<Rightarrow> inspection_report \<Rightarrow>
       (log_compaction_error, log_compaction_report) gen_act" where
  "publish_compacted crc source output staging source_verification source_inspection =
     sbind (cleanup_on_error [staging] (sask (\<lambda>w. map_err LcDatabase (inspect_path crc staging w)))) (\<lambda>compacted_inspection.
     sbind (cleanup_on_error [staging] (slift (validate_compacted_state source_inspection compacted_inspection))) (\<lambda>_.
     sbind (cleanup_on_error [staging] (sask (\<lambda>w.
              rbind (map_err LcDatabase (inspect_path crc source w)) (\<lambda>source_after.
                ensure (source_after = source_inspection) LcInvalid)))) (\<lambda>_.
     sbind (publish_staging staging output) (\<lambda>_.
     sbind (cleanup_on_error [output, staging] (sask (\<lambda>w.
              rbind (map_err LcDatabase (inspect_path crc output w)) (\<lambda>report.
              rbind (ensure (report = compacted_inspection) LcInvalid) (\<lambda>_. Inr report))))) (\<lambda>published.
     sbind (cleanup_on_error [output, staging] (slift (ok_or
              (checked_sub64 (vr_file_bytes source_verification) (vr_file_bytes (ir_verification published)))
              LcInvalid))) (\<lambda>reclaimed_bytes.
     sbind (strycatch (fs_remove_file staging)) (\<lambda>removed.
     sret \<lparr>lr_file_format_version = vr_file_format_version (ir_verification published),
           lr_source_file_bytes = vr_file_bytes source_verification,
           lr_source_record_count = vr_record_count source_verification,
           lr_live_keys = vr_live_keys source_verification,
           lr_compacted_file_bytes = vr_file_bytes (ir_verification published),
           lr_compacted_record_count = vr_record_count (ir_verification published),
           lr_reclaimed_bytes = reclaimed_bytes,
           lr_staging_retained = (removed \<noteq> Inr () \<and> removed \<noteq> Inl NotFound)\<rparr>)))))))"

definition compact_log_to_fresh_file ::
    "(bytes \<Rightarrow> 32 word) \<Rightarrow> bytes \<Rightarrow> bytes \<Rightarrow> (log_compaction_error, log_compaction_report) gen_act" where
  "compact_log_to_fresh_file crc source output =
     sbind (sask (lc_require_regular source)) (\<lambda>_.
     sbind (sask (lc_require_absent output)) (\<lambda>_.
     sbind (slift (ensure (source \<noteq> output) LcInvalid)) (\<lambda>_.
     let staging = staging_path output in
     sbind (slift (ensure (source \<noteq> staging) LcInvalid)) (\<lambda>_.
     sbind (sask (lc_require_absent staging)) (\<lambda>_.
     sbind (sask (\<lambda>w. map_err LcDatabase (verify_path crc source w))) (\<lambda>source_verification.
     sbind (slift (ensure (vr_recoverable_tail source_verification = None) LcInvalid)) (\<lambda>_.
     sbind (sask (\<lambda>w. map_err LcDatabase (inspect_path crc source w))) (\<lambda>source_inspection.
     sbind (slift (ensure (ir_verification source_inspection = source_verification) LcInvalid)) (\<lambda>_.
     sbind (build_staging crc staging source_inspection) (\<lambda>_.
     publish_compacted crc source output staging source_verification source_inspection))))))))))"


subsection \<open>The offline switch\<close>

datatype compact_switch_error =
  SwDirectory gen_dir_error
| SwWriterLock writer_lock_error
| SwReservation reservation_error
| SwDatabase db_error
| SwCompaction log_compaction_error
| SwPublication publication_error
| ReservedGenerationObsolete nat nat
| SourceChanged nat
| TargetChanged nat
| FinalAuthority nat nat
| FinalState nat

record compact_switch_summary =
  cs_old_generation :: nat
  cs_new_generation :: nat
  cs_old_generation_log :: bytes
  cs_new_generation_log :: bytes
  cs_reservation :: reservation_summary
  cs_compaction :: log_compaction_report
  cs_publication :: publication_summary
  cs_final_generation :: gen_summary

record source_authority_witness =
  sw_authoritative_generation :: nat
  sw_committed_prefix :: committed_prefix
  sw_log_verification :: verification_report

definition source_witness :: "gen_summary \<Rightarrow> source_authority_witness" where
  "source_witness summary =
     \<lparr>sw_authoritative_generation = gs_authoritative_generation summary,
      sw_committed_prefix = gs_committed_prefix summary,
      sw_log_verification = gs_log_verification summary\<rparr>"

definition validate_compact_state ::
    "nat \<Rightarrow> inspection_report \<Rightarrow> inspection_report \<Rightarrow> compact_switch_error + unit" where
  "validate_compact_state generation source compacted =
     (if vr_recoverable_tail (ir_verification compacted) \<noteq> None \<or>
         vr_record_count (ir_verification compacted) \<noteq> vr_live_keys (ir_verification compacted) \<or>
         vr_live_keys (ir_verification compacted) \<noteq> vr_live_keys (ir_verification source) \<or>
         ir_entries compacted \<noteq> ir_entries source
      then Inl (TargetChanged generation) else Inr ())"

definition verify_directory_step :: "(bytes \<Rightarrow> 32 word) \<Rightarrow> gen_world \<Rightarrow> compact_switch_error + gen_summary" where
  "verify_directory_step crc w = map_err SwDirectory (verify_generation_directory crc (gw_entries w))"

text \<open>The part that runs under the lease.\<close>

definition switch_critical_section ::
    "(bytes \<Rightarrow> 32 word) \<Rightarrow> gen_summary \<Rightarrow> inspection_report \<Rightarrow> nat \<Rightarrow>
       (compact_switch_error, publication_summary \<times> gen_summary) gen_act" where
  "switch_critical_section crc before source_state new_generation =
     (let source_path = gs_authoritative_log before; new_path = canonical_generation_name new_generation in
      sbind (sask (verify_directory_step crc)) (\<lambda>before_publication.
      sbind (sask (\<lambda>w. map_err SwDatabase (inspect_path crc source_path w))) (\<lambda>current_source_state.
      sbind (slift (ensure (\<not> (source_witness before_publication \<noteq> source_witness before \<or>
               current_source_state \<noteq> source_state)) (SourceChanged new_generation))) (\<lambda>_.
      sbind (sask (\<lambda>w. map_err SwDatabase (inspect_path crc new_path w))) (\<lambda>compact_state.
      sbind (slift (validate_compact_state new_generation source_state compact_state)) (\<lambda>_.
      sbind (smap_err SwPublication (publish_generation_marker crc new_generation)) (\<lambda>publication.
      sbind (sask (verify_directory_step crc)) (\<lambda>final_verified.
      sbind (slift (ensure (gs_authoritative_generation final_verified = new_generation)
               (FinalAuthority (gs_authoritative_generation final_verified) new_generation))) (\<lambda>_.
      sbind (sask (\<lambda>w. map_err SwDatabase (inspect_path crc new_path w))) (\<lambda>final_state.
      sbind (slift (ensure (final_state = compact_state) (FinalState new_generation))) (\<lambda>_.
      sret (publication, final_verified))))))))))))"

definition compact_switch_generation_offline ::
    "(bytes \<Rightarrow> 32 word) \<Rightarrow> bytes \<Rightarrow> bytes \<Rightarrow> (compact_switch_error, compact_switch_summary) gen_act" where
  "compact_switch_generation_offline crc owner1 owner2 =
     sbind (smap_err SwReservation (reserve_next_generation crc owner1)) (\<lambda>reservation.
     sbind (sask (verify_directory_step crc)) (\<lambda>before.
     let old_generation = gs_authoritative_generation before; new_generation = rs_generation reservation;
         source_path = gs_authoritative_log before; new_path = canonical_generation_name new_generation in
     sbind (slift (ensure (\<not> rs_generation reservation \<le> old_generation)
              (ReservedGenerationObsolete (rs_generation reservation) old_generation))) (\<lambda>_.
     sbind (sask (\<lambda>w. map_err SwDatabase (inspect_path crc source_path w))) (\<lambda>source_state.
     sbind (smap_err SwCompaction (compact_log_to_fresh_file crc source_path new_path)) (\<lambda>compaction.
     sbind (with_lease SwWriterLock owner2 (switch_critical_section crc before source_state new_generation))
       (\<lambda>(publication, final_generation).
     sret \<lparr>cs_old_generation = old_generation, cs_new_generation = new_generation,
           cs_old_generation_log = source_path, cs_new_generation_log = new_path,
           cs_reservation = reservation, cs_compaction = compaction, cs_publication = publication,
           cs_final_generation = final_generation\<rparr>))))))"

end
