(* ===== verification/GenPublishSpec.thy ===== *)
theory GenPublishSpec
  imports GenPublish
begin

text \<open>
  Publication and reservation under faults: whatever call fails, and after however many bytes, the
  directory still verifies, with the old authority or, once the marker is linked, with the new
  one; a successful call has switched the authority, a reservation never changes it and never
  lets an id be given out twice.
\<close>

subsection \<open>Runs of the steps\<close>

lemma bind_ask:
  assumes "sbind (sask f) k s = (r, s')"
  obtains (err) e where "f s = Inl e" "r = Inl e" "s' = s" | (ok) x where "f s = Inr x" "k x s = (r, s')"
  using assms by (cases "f s") auto

lemma bind_lift:
  assumes "sbind (slift m) k s = (r, s')"
  obtains (err) e where "m = Inl e" "r = Inl e" "s' = s" | (ok) x where "m = Inr x" "k x s = (r, s')"
  using assms by (cases m) auto

lemma bind_err:
  assumes "sbind (smap_err h m) k s = (r, s')"
  obtains (err) e where "m s = (Inl e, s')" "r = Inl (h e)" | (ok) x s1 where "m s = (Inr x, s1)" "k x s1 = (r, s')"
  using assms by (elim sbind_cases smap_err_cases) (auto simp: map_err_def split: sum.splits)

lemma bind_sync:
  assumes "sbind (smap_err h fs_sync) k w = (r, w')"
  obtains (err) e where "r = Inl (h e)" "gw_entries w' = gw_entries w" "gw_lock w' = gw_lock w"
  | (ok) w1 where "gw_entries w1 = gw_entries w" "gw_lock w1 = gw_lock w" "k () w1 = (r, w')"
proof -
  from assms show thesis
  proof (cases rule: bind_err)
    case (err e)
    with fs_sync_same [OF err(1)] show thesis by (intro that(1)) simp_all
  next
    case (ok x w1)
    with fs_sync_same [OF ok(1)] show thesis by (intro that(2)) simp_all
  qed
qed

text \<open>What a publication that got past its checks knows of the log it commits.\<close>

lemma clean_image:
  assumes "log_verify crc f = Inr v" "vr_recoverable_tail v = None" "length f \<le> u64_max"
  obtains ms where "f = log_image crc ms" "v = image_report crc ms" "\<forall>m \<in> set ms. record_wf m"
    "length ms < u64_max"
proof -
  obtain r where r: "log_scan_file crc f = Inr r" "v = log_verification r"
    using assms(1) by (auto simp: log_verify_def result_iff)
  obtain ms rest where ms: "f = log_image crc ms @ rest" "\<forall>m \<in> set ms. record_wf m"
      "ms \<noteq> [] \<longrightarrow> length ms < u64_max" "sc_recoverable_tail r = None \<longleftrightarrow> rest = []"
    using log_scan_file_sound [OF r(1)] by (elim exE conjE) (rule that)
  have f: "f = log_image crc ms" using ms(1,4) assms(2) r(2) by (simp add: log_verification_def)
  have n: "length ms < u64_max" using ms(3) by (cases ms) (simp_all add: u64_max_def)
  show thesis
    using that [of ms] f ms(2) n log_verify_image [OF ms(2) n, of crc] assms(1,3) by simp
qed

lemma exact_prefix:
  assumes "require_clean_generation crc path w = Inr baseline"
    "derive_prefix_proof path baseline w = Inr prefix" "files_fit (gw_entries w)"
  obtains f ms where "gw_file w path = Some (RegularFile f)" "f = log_image crc ms"
    "baseline = image_report crc ms" "prefix = image_prefix crc ms" "\<forall>m \<in> set ms. record_wf m"
    "length ms < u64_max" "length f \<le> u64_max"
proof -
  obtain f where f: "gw_file w path = Some (RegularFile f)" and v: "log_verify crc f = Inr baseline"
      "vr_recoverable_tail baseline = None"
    using assms(1)
    by (auto simp: require_clean_generation_def result_iff gw_read_def split: if_splits option.splits dir_entry.splits)
  have len: "length f \<le> u64_max" using f assms(3) by (auto simp: files_fit_def gw_file_def)
  obtain ms where ms: "f = log_image crc ms" "baseline = image_report crc ms" "\<forall>m \<in> set ms. record_wf m"
      "length ms < u64_max"
    using clean_image [OF v len] .
  have "prefix = image_prefix crc ms"
    using assms(2) f ms(1,2)
    by (auto simp: derive_prefix_proof_def result_iff gw_read_def read_prefix_chunks_eq image_report_def
        image_prefix_def crc32_ieee_def split: if_splits)
  with f ms len that show thesis by blast
qed

lemma image_prefix_binds:
  "\<forall>m \<in> set ms. record_wf m \<Longrightarrow> length ms < u64_max \<Longrightarrow> prefix_binds crc (image_prefix crc ms) ms"
  by (simp add: prefix_binds_def image_prefix_def)



subsection \<open>The second half\<close>

text \<open>What it may leave behind, \<open>d\<close> being the directory it started from.\<close>

definition publish_leaves :: "gen_dir \<Rightarrow> nat \<Rightarrow> bytes \<Rightarrow> bool \<Rightarrow> gen_dir \<Rightarrow> bool" where
  "publish_leaves d g enc done_ok d' \<longleftrightarrow>
     (\<not> done_ok \<and> d' = d) \<or>
     (\<not> done_ok \<and> (\<exists>n. d' = om_insert (canonical_staging_marker_name g) (RegularFile (take n enc)) d)) \<or>
     d' = om_insert (canonical_marker_name g) (RegularFile enc)
            (om_insert (canonical_staging_marker_name g) (RegularFile enc) d) \<or>
     d' = om_insert (canonical_marker_name g) (RegularFile enc) d"

lemma publish_finish:
  assumes "sbind (sask c1) (\<lambda>_. sbind (smap_err PubIo (fs_hard_link st m)) (\<lambda>_.
      sbind (smap_err PubDurabilityUncertain fs_sync) (\<lambda>_. sbind (sask c2) (\<lambda>_. sbind (sask c3) (\<lambda>_.
      sbind (strycatch (fs_remove_file st)) (\<lambda>removed. sret (fin removed))))))) w = (r, w')"
    and "gw_file w st = Some entry"
  shows "gw_lock w' = gw_lock w \<and>
    ((\<not> is_ok r \<and> gw_entries w' = gw_entries w) \<or> gw_entries w' = om_insert m entry (gw_entries w) \<or>
     (is_ok r \<and> gw_entries w' = om_remove st (om_insert m entry (gw_entries w)))) \<and>
    (is_ok r \<longrightarrow> (\<exists>x. r = Inr (fin x)))"
  using assms(1)
proof (cases rule: bind_ask)
  case (ok u)
  from ok(2) show ?thesis
  proof (cases rule: bind_err)
    case (err e)
    from err(1) show ?thesis by (cases rule: fs_link_cases) (use err(2) in simp_all)
  next
    case (ok u w1)
    from ok(1) have w1: "gw_entries w1 = om_insert m entry (gw_entries w)" "gw_lock w1 = gw_lock w"
      by (cases rule: fs_link_cases; use assms(2) in simp)+
    from ok(2) show ?thesis
    proof (cases rule: bind_sync)
      case (ok w2)
      note w2 = ok(1,2) [unfolded w1]
      from ok(3) show ?thesis
      proof (cases rule: bind_ask)
        case (ok u)
        from ok(2) show ?thesis
        proof (cases rule: bind_ask)
          case (ok u)
          from ok(2) obtain r0 where rm: "fs_remove_file st w2 = (r0, w')" "r = Inr (fin r0)"
            by (elim sbind_cases strycatch_cases) (simp_all add: sret_def)
          from rm(1) show ?thesis by (cases rule: fs_remove_cases) (use rm(2) w2 in auto)
        qed (use w2 in simp_all)
      qed (use w2 in simp_all)
    qed (use w1 in simp_all)
  qed
qed simp_all

lemma publish_derived_leaves:
  assumes "publish_derived_marker crc g baseline prefix w = (r, w')"
    and "gw_file w (canonical_marker_name g) = None" "gw_file w (canonical_staging_marker_name g) = None"
  shows "gw_lock w' = gw_lock w \<and> (gw_entries w' = gw_entries w \<and> \<not> is_ok r \<or>
    (\<exists>enc. encode_commit_marker g prefix = Inr enc \<and>
       publish_leaves (gw_entries w) g enc (is_ok r) (gw_entries w') \<and>
       (is_ok r \<longrightarrow> ps_generation (projr r) = g \<and> ps_committed_prefix (projr r) = prefix)))"
proof -
  let ?d = "gw_entries w" and ?m = "canonical_marker_name g" and ?s = "canonical_staging_marker_name g"
  from assms(1) show ?thesis unfolding publish_derived_marker_def Let_def
  proof (cases rule: bind_sync)
    case (ok w1)
    note w1 = ok(1,2)
    from ok(3) show ?thesis
    proof (cases rule: bind_sync)
      case (ok w2)
      note w2 = ok(1,2) [unfolded w1]
      from ok(3) show ?thesis
      proof (cases rule: bind_ask)
        case (ok u)
        from ok(2) show ?thesis
        proof (cases rule: bind_lift)
          case (ok enc)
          then have enc: "encode_commit_marker g prefix = Inr enc" by (simp add: result_iff)
          from ok(2) show ?thesis
          proof (cases rule: bind_err)
            case (err e)
            from err(1) show ?thesis
            proof (cases rule: fs_create_cases)
              case (torn e' n)
              then have "publish_leaves ?d g enc False (gw_entries w')"
                using w2 by (auto simp: publish_leaves_def)
              then show ?thesis using torn(3) err(2) w2 enc by auto
            qed (use w2 err(2) in simp_all)
          next
            case (ok u w3)
            then have w3: "gw_entries w3 = om_insert ?s (RegularFile enc) ?d" "gw_lock w3 = gw_lock w"
              using w2 by (elim fs_create_cases; simp)+
            then have st: "gw_file w3 ?s = Some (RegularFile enc)" by (simp add: gw_file_def)
            have undo: "om_remove ?s (om_insert ?m e (om_insert ?s e' ?d)) = om_insert ?m e ?d" for e e'
              using assms(3) by (intro ordmap_eqI) (auto simp: gw_file_def)
            have "publish_leaves ?d g enc False (gw_entries w3)"
              using w3 by (auto simp: publish_leaves_def intro: exI [of _ "length enc"])
            with publish_finish [OF ok(2) st] w3 undo enc show ?thesis
              by (auto simp: publish_leaves_def)
          qed
        qed (use w2 in simp_all)
      qed (use w2 in simp_all)
    qed (use w1 in simp_all)
  qed simp_all
qed



subsection \<open>The whole publication\<close>

lemma om_remove_absent: "om_lookup d k = None \<Longrightarrow> om_remove k d = d"
  by (intro ordmap_eqI) auto

lemma om_remove_remove [simp]: "om_remove k (om_remove k d) = om_remove k d"
  by (intro ordmap_eqI) auto

text \<open>\<open>commits_log crc d g ms enc\<close>: what the checks before the first write establish.\<close>

definition commits_log ::
    "(bytes \<Rightarrow> 32 word) \<Rightarrow> gen_dir \<Rightarrow> nat \<Rightarrow> (mutation_kind \<times> bytes \<times> bytes) list \<Rightarrow> bytes \<Rightarrow> bool" where
  "commits_log crc d g ms enc \<longleftrightarrow>
     namespace_ok d \<and> (\<forall>i \<ge> g. om_lookup d (canonical_marker_name i) = None) \<and>
     om_lookup d (canonical_generation_name g) = Some (RegularFile (log_image crc ms)) \<and>
     (\<forall>m \<in> set ms. record_wf m) \<and> length ms < u64_max \<and> length (log_image crc ms) \<le> u64_max \<and>
     encode_commit_marker g (image_prefix crc ms) = Inr enc"

lemma stale_staging_removed:
  assumes "remove_stale_staging_if_safe st w = (r, w')"
  obtains (fail) e where "r = Inl e" "gw_entries w' = gw_entries w" "gw_lock w' = gw_lock w"
  | (ok) "r = Inr ()" "gw_entries w' = om_remove st (gw_entries w)" "gw_lock w' = gw_lock w"
proof (cases "gw_file w st")
  case None
  then show thesis
    using assms that(2) by (simp add: remove_stale_staging_if_safe_def om_remove_absent gw_file_def)
next
  case (Some entry)
  show thesis
  proof (cases entry)
    case (RegularFile f)
    then obtain r0 where r0: "fs_remove_file st w = (r0, w')" "r = map_err PubIo r0"
      using assms Some by (auto simp: remove_stale_staging_if_safe_def elim: smap_err_cases)
    from r0(1) show thesis
      by (cases rule: fs_remove_cases) (use r0(2) that in simp_all)
  next
    case OtherEntry
    then show thesis
      using assms Some that(1) by (auto simp: remove_stale_staging_if_safe_def)
  qed
qed

lemma publish_generation_leaves:
  assumes "publish_generation_marker crc g w = (r, w')" "files_fit (gw_entries w)"
  shows "gw_lock w' = gw_lock w \<and>
    (\<not> is_ok r \<and> gw_entries w' \<in> {gw_entries w, om_remove (canonical_staging_marker_name g) (gw_entries w)} \<or>
     (\<exists>ms enc. commits_log crc (gw_entries w) g ms enc \<and>
       publish_leaves (om_remove (canonical_staging_marker_name g) (gw_entries w)) g enc (is_ok r) (gw_entries w') \<and>
       (is_ok r \<longrightarrow> ps_generation (projr r) = g \<and> ps_committed_prefix (projr r) = image_prefix crc ms)))"
proof -
  let ?d = "gw_entries w" and ?m = "canonical_marker_name g" and ?s = "canonical_staging_marker_name g"
  let ?l = "canonical_generation_name g"
  from assms(1) show ?thesis unfolding publish_generation_marker_def Let_def
  proof (cases rule: bind_lift)
    case (ok u)
    from ok(2) show ?thesis
    proof (cases rule: bind_ask)
      case (ok ns)
      then have ns: "scan_generation_namespace ?d = Inr ns" by (simp add: result_iff)
      from ok(2) show ?thesis
      proof (cases rule: bind_lift)
        case (ok u)
        then have "\<not> list_ex (\<lambda>gid. gid \<ge> g) (om_keys (ns_marker_files ns))" by (simp add: result_iff)
        then have top: "om_lookup ?d (canonical_marker_name i) = None" if "g \<le> i" for i
          using scan_namespace_Inr(2) [OF ns, of "KMarker i"] that
          by (auto simp: list_ex_iff set_om_keys split: if_splits)
        from ok(2) show ?thesis
        proof (cases rule: bind_ask)
          case (ok f0)
          from ok(2) show ?thesis
          proof (cases rule: bind_ask)
            case (ok u)
            from ok(2) show ?thesis
            proof (cases rule: sbind_cases)
              case (fail e)
              from fail(1) show ?thesis by (cases rule: stale_staging_removed) (use fail(2) in simp_all)
            next
              case (run u w1)
              from run(1) have w1: "gw_entries w1 = om_remove ?s ?d" "gw_lock w1 = gw_lock w"
                by (cases rule: stale_staging_removed; simp)+
              from run(2) show ?thesis
              proof (cases rule: bind_ask)
                case baseline: (ok baseline)
                from baseline(2) show ?thesis
                proof (cases rule: bind_ask)
                  case prefix: (ok prefix)
                  from prefix(2) show ?thesis
                  proof (cases rule: bind_ask)
                    case (ok v)
                    from ok(2) show ?thesis
                    proof (cases rule: bind_lift)
                      case (ok u)
                      have fit: "files_fit (gw_entries w1)"
                        using assms(2) by (auto simp: files_fit_def w1 split: if_splits)
                      obtain f ms where f: "gw_file w1 ?l = Some (RegularFile f)" "f = log_image crc ms"
                        "prefix = image_prefix crc ms" "\<forall>m \<in> set ms. record_wf m"
                        "length ms < u64_max" "length f \<le> u64_max"
                        using exact_prefix [OF baseline(1) prefix(1) fit] by metis
                      have none: "gw_file w1 ?m = None" "gw_file w1 ?s = None"
                        using top [of g] by (simp_all add: gw_file_def w1)
                      have commits: "commits_log crc ?d g ms enc"
                        if "encode_commit_marker g prefix = Inr enc" for enc
                        using that f scan_namespace_Inr(1) [OF ns] top
                        by (simp add: commits_log_def gw_file_def w1)
                      show ?thesis
                        using publish_derived_leaves [OF ok(2) none] w1 commits f(3) by auto
                    qed (use w1 in simp_all)
                  qed (use w1 in simp_all)
                qed (use w1 in simp_all)
              qed (use w1 in simp_all)
            qed
          qed simp_all
        qed simp_all
      qed simp_all
    qed simp_all
  qed simp_all
qed

subsection \<open>What the directories left behind verify as\<close>

lemma verifies_unstaged:
  assumes "verifies_as crc d g0 p0" "files_fit d" "om_size d' \<le> MAX_DIRECTORY_ENTRIES" "kind_ok (KStaging g)"
    and "\<And>k. k \<noteq> canonical_staging_marker_name g \<Longrightarrow> om_lookup d' k = om_lookup d k"
    and "\<And>f. om_lookup d' (canonical_staging_marker_name g) = Some (RegularFile f) \<Longrightarrow> length f \<le> u64_max"
  shows "verifies_as crc d' g0 p0" "files_fit d'"
proof -
  show fit: "files_fit d'"
    using assms(2,5,6) unfolding files_fit_def by metis
  obtain f ms where a: "namespace_ok d" "gen_authority crc d g0 p0 f ms"
    using assms(1) by (auto simp: verifies_as_iff [OF assms(2)])
  have "entry_ok (KStaging g) c" for c using assms(4) by (simp add: entry_ok_def)
  then have "namespace_ok d'"
    by (intro namespace_ok_update [OF a(1) assms(3)]) (metis assms(5) kind_name.simps(3))
  moreover have "gen_authority crc d' g0 p0 f ms"
    by (rule gen_authority_cong [OF a(2)]) (simp_all add: assms(5))
  ultimately show "verifies_as crc d' g0 p0" by (auto simp: verifies_as_iff [OF fit])
qed

lemma verifies_published:
  assumes "commits_log crc d g ms enc" "files_fit d" "om_size d' \<le> MAX_DIRECTORY_ENTRIES"
    and "om_lookup d' (canonical_marker_name g) = Some (RegularFile enc)"
    and "\<And>k. k \<noteq> canonical_marker_name g \<Longrightarrow> k \<noteq> canonical_staging_marker_name g \<Longrightarrow> om_lookup d' k = om_lookup d k"
    and "\<And>f. om_lookup d' (canonical_staging_marker_name g) = Some (RegularFile f) \<Longrightarrow> length f \<le> u64_max"
  shows "verifies_as crc d' g (image_prefix crc ms)" "files_fit d'"
proof -
  have c: "namespace_ok d" "\<forall>i \<ge> g. om_lookup d (canonical_marker_name i) = None"
     "om_lookup d (canonical_generation_name g) = Some (RegularFile (log_image crc ms))"
     "\<forall>m \<in> set ms. record_wf m" "length ms < u64_max" "length (log_image crc ms) \<le> u64_max"
     "encode_commit_marker g (image_prefix crc ms) = Inr enc"
    using assms(1) by (simp_all add: commits_log_def)
  have "length enc = 64" using encode_commit_marker_state(2) [OF c(7)] .
  then show fit: "files_fit d'"
    using assms(2,4-6) unfolding files_fit_def by (metis dir_entry.inject option.inject numeral_le_iff u64_max_def
        semiring_norm(68,71) semiring_norm(69) semiring_norm(72))
  have ok: "kind_ok (KGeneration g)" using namespace_ok_kind [OF c(1), of "KGeneration g"] c(3) by simp
  then have "entry_ok (KStaging g) e" "entry_ok (KMarker g) e" for e by (simp_all add: entry_ok_def kind_ok_def)
  then have "namespace_ok d'"
    by (intro namespace_ok_update [OF c(1) assms(3)]) (metis assms(5) kind_name.simps(2,3))
  moreover have "gen_authority crc d' g (image_prefix crc ms) (log_image crc ms) ms"
    using c assms(4,5) log_scan_image [OF c(4-6)] image_prefix_binds [OF c(4,5), of crc]
    by (simp add: gen_authority_def)
  ultimately show "verifies_as crc d' g (image_prefix crc ms)" by (auto simp: verifies_as_iff [OF fit])
qed



lemma unstaged_verifies:
  assumes "verifies_as crc d g0 p0" "files_fit d" "om_size d \<le> MAX_DIRECTORY_ENTRIES"
  shows "verifies_as crc (om_remove (canonical_staging_marker_name g) d) g0 p0"
proof (cases "om_lookup d (canonical_staging_marker_name g)")
  case None
  then show ?thesis using assms(1) by (simp add: om_remove_absent)
next
  case (Some c)
  have "namespace_ok d" using assms(1) by (simp add: verifies_as_iff [OF assms(2)])
  then have ok: "kind_ok (KStaging g)" using namespace_ok_kind [of d "KStaging g"] Some by simp
  have "om_size (om_remove (canonical_staging_marker_name g) d) \<le> om_size d"
    by (rule om_size_remove_le)
  then show ?thesis
    using assms(3) by (intro verifies_unstaged(1) [OF assms(1,2) _ ok]) auto
qed

subsection \<open>Publication without faults\<close>

lemma gw_file_update [simp]:
  "gw_file (w\<lparr>gw_entries := om_insert k e m\<rparr>) n = (if n = k then Some e else om_lookup m n)"
  "gw_file (w\<lparr>gw_entries := om_remove k m\<rparr>) n = (if n = k then None else om_lookup m n)"
  by (simp_all add: gw_file_def)

lemma clean_log_checks:
  assumes "gw_file w path = Some (RegularFile (log_image crc ms))" "\<forall>m \<in> set ms. record_wf m"
    "length ms < u64_max" "length (log_image crc ms) \<le> u64_max"
  shows "require_clean_generation crc path w = Inr (image_report crc ms)"
    "derive_prefix_proof path (image_report crc ms) w = Inr (image_prefix crc ms)"
    "verify_prefix_at crc path (image_prefix crc ms) w = Inr (image_report crc ms)"
    "require_exact_clean_generation crc path (image_report crc ms) (image_prefix crc ms) w = Inr ()"
proof -
  show clean: "require_clean_generation crc path w = Inr (image_report crc ms)"
    using log_verify_image [OF assms(2-4)]
    by (simp add: require_clean_generation_def gw_read_def assms(1)) (simp add: image_report_def)
  show "derive_prefix_proof path (image_report crc ms) w = Inr (image_prefix crc ms)"
    by (simp add: derive_prefix_proof_def gw_read_def assms(1) read_prefix_chunks_eq image_report_def
        image_prefix_def crc32_ieee_def)
  show pre: "verify_prefix_at crc path (image_prefix crc ms) w = Inr (image_report crc ms)"
    using image_prefix_binds [OF assms(2,3), of crc] assms(4)
    by (simp add: verify_prefix_at_def gw_read_def assms(1)) (auto simp: result_iff verify_committed_prefix_Inr)
  show "require_exact_clean_generation crc path (image_report crc ms) (image_prefix crc ms) w = Inr ()"
    by (simp add: require_exact_clean_generation_def pre clean)
qed

lemma publish_quiet:
  assumes "gw_faults w = []" "commits_log crc (gw_entries w) g ms enc" "files_fit (gw_entries w)"
    and "gw_file w (canonical_staging_marker_name g) \<noteq> Some OtherEntry"
  obtains s where "publish_generation_marker crc g w = (Inr s,
      w\<lparr>gw_entries := om_insert (canonical_marker_name g) (RegularFile enc)
         (om_remove (canonical_staging_marker_name g) (gw_entries w))\<rparr>)"
proof -
  let ?d = "gw_entries w" and ?m = "canonical_marker_name g" and ?s = "canonical_staging_marker_name g"
  let ?l = "canonical_generation_name g"
  define w1 where "w1 = w\<lparr>gw_entries := om_remove ?s ?d\<rparr>"
  define w2 where "w2 = w\<lparr>gw_entries := om_insert ?s (RegularFile enc) (om_remove ?s ?d)\<rparr>"
  define w3 where "w3 = w\<lparr>gw_entries := om_insert ?m (RegularFile enc) (om_insert ?s (RegularFile enc) (om_remove ?s ?d))\<rparr>"
  have c: "namespace_ok ?d" "\<forall>i \<ge> g. om_lookup ?d (canonical_marker_name i) = None"
     "om_lookup ?d ?l = Some (RegularFile (log_image crc ms))"
     "\<forall>m \<in> set ms. record_wf m" "length ms < u64_max" "length (log_image crc ms) \<le> u64_max"
     "encode_commit_marker g (image_prefix crc ms) = Inr enc"
    using assms(2) by (simp_all add: commits_log_def)
  have q: "gw_faults w1 = []" "gw_faults w2 = []" "gw_faults w3 = []"
    by (simp_all add: assms(1) w1_def w2_def w3_def)
  have ok: "kind_ok (KGeneration g)" using namespace_ok_kind [OF c(1), of "KGeneration g"] c(3) by simp
  obtain ns where ns: "scan_generation_namespace ?d = Inr ns" using scan_namespace_ok [OF c(1)] .
  have top: "\<not> list_ex (\<lambda>gid. gid \<ge> g) (om_keys (ns_marker_files ns))"
    using scan_namespace_Inr(2) [OF ns, of "KMarker _"] c(2)
    by (auto simp: list_ex_iff set_om_keys split: if_splits)
  have stale: "remove_stale_staging_if_safe ?s w = (Inr (), w1)"
    using assms(1,4)
    by (cases "gw_file w ?s"; cases "the (gw_file w ?s)")
       (auto simp: remove_stale_staging_if_safe_def smap_err_def w1_def gw_file_def om_remove_absent)
  have logs: "gw_file w1 ?l = Some (RegularFile (log_image crc ms))"
      "gw_file w2 ?l = Some (RegularFile (log_image crc ms))" "gw_file w3 ?l = Some (RegularFile (log_image crc ms))"
    using c(3) by (simp_all add: w1_def w2_def w3_def)
  note checks = clean_log_checks [OF logs(1) c(4-6)] clean_log_checks [OF logs(2) c(4-6)]
    clean_log_checks [OF logs(3) c(4-6)]
  have marker: "verify_published_marker ?m g (image_prefix crc ms) w3 =
      Inr \<lparr>cm_generation_id = g, cm_log_format_version = 1, cm_committed_prefix = image_prefix crc ms\<rparr>"
  proof -
    have "decode_commit_marker enc g =
        Inr \<lparr>cm_generation_id = g, cm_log_format_version = 1, cm_committed_prefix = image_prefix crc ms\<rparr>"
      using c(6,7) ok by (simp add: decode_commit_marker_Inr kind_ok_def image_prefix_def)
    then show ?thesis by (simp add: verify_published_marker_def w3_def require_real_regular_file_def)
  qed
  have fs: "fs_sync w1 = (Inr (), w1)" "fs_create_new ?s enc w1 = (Inr (), w2)"
      "fs_hard_link ?s ?m w2 = (Inr (), w3)" "fs_sync w3 = (Inr (), w3)"
      "fs_remove_file ?s w3 = (Inr (), w\<lparr>gw_entries := om_insert ?m (RegularFile enc) (om_remove ?s ?d)\<rparr>)"
    using q c(2) by (auto simp: w1_def w2_def w3_def intro!: arg_cong [of _ _ "\<lambda>e. w\<lparr>gw_entries := e\<rparr>"] ordmap_eqI)
  have start: "require_absent ?m w = Inr ()" "require_real_regular_file (gw_file w ?l) = Inr (log_image crc ms)"
    using c(2,3) by (simp_all add: require_absent_def gw_file_def require_real_regular_file_def)
  have derived: "\<exists>s. publish_derived_marker crc g (image_report crc ms) (image_prefix crc ms) w1 =
      (Inr s, w\<lparr>gw_entries := om_insert ?m (RegularFile enc) (om_remove ?s ?d)\<rparr>)"
    by (simp add: publish_derived_marker_def Let_def sbind_def smap_err_def strycatch_def sask_def slift_def
        sret_def checks fs c(7) marker)
  have "publish_generation_marker crc g w =
      publish_derived_marker crc g (image_report crc ms) (image_prefix crc ms) w1"
    using top ok start
    by (simp add: publish_generation_marker_def Let_def ns checks kind_ok_def
        sbind_run(1) [where m = "remove_stale_staging_if_safe ?s" and s = w, OF stale])
  with derived that show thesis by auto
qed


subsection \<open>Reservations\<close>

lemma reserved_verifies:
  assumes "verifies_as crc d g p" "files_fit d" "om_size d' \<le> MAX_DIRECTORY_ENTRIES"
    and "d' = om_insert (canonical_reservation_name n) (RegularFile []) d" "0 < n" "n \<le> u64_max"
  shows "verifies_as crc d' g p" "files_fit d'"
proof -
  show fit: "files_fit d'"
    using assms(2,4) by (auto simp: files_fit_def u64_max_def)
  obtain f ms where a: "namespace_ok d" "gen_authority crc d g p f ms"
    using assms(1) by (auto simp: verifies_as_iff [OF assms(2)])
  have "entry_ok (KReservation n) (RegularFile [])" using assms(5,6) by (simp add: entry_ok_def kind_ok_def)
  then have "namespace_ok d'"
    using assms(4) by (intro namespace_ok_update [OF a(1) assms(3)]) (metis fun_upd_apply kind_name.simps(4)
        om_lookup_insert option.inject)
  moreover have "gen_authority crc d' g p f ms"
    by (rule gen_authority_cong [OF a(2)]) (simp_all add: assms(4))
  ultimately show "verifies_as crc d' g p" by (auto simp: verifies_as_iff [OF fit])
qed

lemma reserve_cases:
  assumes "reserve_next_generation crc owner w = (r, w')" "files_fit (gw_entries w)"
  obtains (unchanged) e where "r = Inl e" "gw_entries w' = gw_entries w"
  | (reserved) n where "gw_entries w' = om_insert (canonical_reservation_name n) (RegularFile []) (gw_entries w)"
      "\<forall>k. om_lookup (gw_entries w) (kind_name k) \<noteq> None \<longrightarrow> kind_id k < n" "0 < n" "n \<le> u64_max"
      "\<forall>s. r = Inr s \<longrightarrow> rs_generation s = n \<and> rs_highest_observed_generation s = n \<and>
         (\<exists>v. verify_generation_directory crc (gw_entries w') = Inr v \<and>
            gs_authoritative_generation v = rs_authoritative_generation s)"
proof -
  let ?d = "gw_entries w"
  from assms(1) [unfolded reserve_next_generation_def] show thesis
  proof (cases rule: with_lease_cases)
    case (fail e)
    then show thesis by (rule unchanged)
  next
    case (ran w1 w2)
    note w' = ran(5)
    from ran(4) show thesis
    proof (cases rule: bind_ask)
      case (err e)
      then show thesis using unchanged w' ran(1) by auto
    next
      case v: (ok v)
      then have ver: "verify_generation_directory crc ?d = Inr v" by (simp add: result_iff ran(1))
      from v(2) show thesis
      proof (cases rule: bind_lift)
        case (err e)
        then show thesis using unchanged w' ran(1) by auto
      next
        case (ok n)
        then have n: "n = gs_highest_observed_generation v + 1" "n \<le> u64_max"
          by (auto simp: next_generation_id_def result_iff)
        have fresh: "\<forall>k. om_lookup ?d (kind_name k) \<noteq> None \<longrightarrow> kind_id k < n"
          using verify_generation_ids(1) [OF ver] n(1) by (simp add: less_Suc_eq_le)
        from ok(2) show thesis unfolding Let_def
        proof (cases rule: bind_err)
          case (err e)
          from err(1) show thesis
          proof (cases rule: fs_create_cases)
            case (torn e' k)
            then show thesis using n fresh w' ran(1) err(2) by (intro reserved [of n]) auto
          qed (use unchanged w' ran(1) err(2) in auto)
        next
          case (ok u w3)
          then have w3: "gw_entries w3 = om_insert (canonical_reservation_name n) (RegularFile []) ?d"
            using ran(1) by (auto elim: fs_create_cases)
          from ok(2) show thesis
          proof (cases rule: bind_sync)
            case (err e)
            then show thesis using n fresh w' w3 by (intro reserved [of n]) auto
          next
            case (ok w4)
            have w2: "gw_entries w2 = gw_entries w4" and res: "retained_summary crc n (canonical_reservation_name n) w4 = r"
              using ok(3) by (auto simp: sask_run)
            show thesis
            proof (rule reserved [of n])
              show "gw_entries w' = om_insert (canonical_reservation_name n) (RegularFile []) ?d"
                using w' w2 ok(1) w3 by simp
              show "\<forall>s. r = Inr s \<longrightarrow> rs_generation s = n \<and> rs_highest_observed_generation s = n \<and>
                 (\<exists>v. verify_generation_directory crc (gw_entries w') = Inr v \<and>
                    gs_authoritative_generation v = rs_authoritative_generation s)"
              proof (intro allI impI)
                fix s assume "r = Inr s"
                with res obtain v' where v': "verify_generation_directory crc (gw_entries w4) = Inr v'"
                  "n \<le> gs_highest_observed_generation v'" "rs_generation s = n"
                  "rs_highest_observed_generation s = gs_highest_observed_generation v'"
                  "rs_authoritative_generation s = gs_authoritative_generation v'"
                  by (auto simp: retained_summary_def result_iff split: if_splits)
                obtain k where k: "om_lookup (gw_entries w4) (kind_name k) \<noteq> None"
                  "kind_id k = gs_highest_observed_generation v'"
                  using verify_generation_ids(2) [OF v'(1)] by blast
                have "kind_id k \<le> n"
                  using k(1) fresh ok(1) w3 kind_name_inject [of k "KReservation n"]
                  by (cases "k = KReservation n") (auto simp: less_imp_le)
                then show "rs_generation s = n \<and> rs_highest_observed_generation s = n \<and>
                 (\<exists>v. verify_generation_directory crc (gw_entries w') = Inr v \<and>
                    gs_authoritative_generation v = rs_authoritative_generation s)"
                  using v' k(2) w' w2 by auto
              qed
            qed (use fresh n in simp_all)
          qed
        qed
      qed
    qed
  qed
qed

subsection \<open>A full directory\<close>

lemma reserve_quiet:
  assumes "gw_faults w = []" "gw_lock w = None" "verify_generation_directory crc (gw_entries w) = Inr v"
    "gs_highest_observed_generation v < u64_max"
  shows "reserve_next_generation crc owner w =
    (let n = gs_highest_observed_generation v + 1;
         d = om_insert (canonical_reservation_name n) (RegularFile []) (gw_entries w);
         r = retained_summary crc n (canonical_reservation_name n)
               (w\<lparr>gw_lock := Some (RegularFile owner), gw_entries := d\<rparr>)
     in (r, release_generation_writer_lease owner (w\<lparr>gw_lock := Some (RegularFile owner), gw_entries := d\<rparr>)))"
proof -
  let ?n = "gs_highest_observed_generation v + 1"
  let ?w1 = "w\<lparr>gw_lock := Some (RegularFile owner)\<rparr>"
  have acq: "acquire_generation_writer_lease owner w = (Inr owner, ?w1)"
    using assms(1,2) by (simp add: acquire_generation_writer_lease_def)
  have n: "next_generation_id v = Inr ?n"
    using assms(4) by (simp add: next_generation_id_def checked_add64_def)
  have absent: "gw_file ?w1 (canonical_reservation_name ?n) = None"
  proof (rule ccontr)
    assume "gw_file ?w1 (canonical_reservation_name ?n) \<noteq> None"
    then have "kind_id (KReservation ?n) \<le> gs_highest_observed_generation v"
      by (intro verify_generation_ids(1) [OF assms(3)]) (simp add: gw_file_def)
    then show False by simp
  qed
  have q: "gw_faults ?w1 = []" using assms(1) by simp
  show ?thesis
    using q absent assms(1)
    by (simp add: reserve_next_generation_def with_lease_def sbind_run(1) [OF _] sbind_def smap_err_def
        acq assms(3) n Let_def sask_run slift_def)
qed

text \<open>The directory counts its entries against the limit only when it scans, so a reservation
  made in a directory that is exactly full is written before it is noticed.\<close>

lemma overfull_invalid:
  assumes "MAX_DIRECTORY_ENTRIES < om_size d"
  shows "\<exists>e. verify_generation_directory crc d = Inl e"
proof (cases "verify_generation_directory crc d")
  case (Inr s)
  then obtain ns where "scan_generation_namespace d = Inr ns"
    by (auto simp: verify_generation_directory_def result_iff)
  then have "namespace_ok d" by (rule scan_namespace_Inr(1))
  with assms show ?thesis by (simp add: namespace_ok_def)
qed simp


text \<open>A world with an authoritative and an unpublished log, and a full directory.\<close>

definition two_log_world :: "(bytes \<Rightarrow> 32 word) \<Rightarrow> gen_world" where
  "two_log_world crc =
     \<lparr>gw_entries = om_insert (canonical_generation_name 2) (RegularFile (log_image crc []))
        (single_generation_dir crc 1 []), gw_lock = None, gw_faults = []\<rparr>"

lemma single_generation_lookup:
  "om_lookup (single_generation_dir crc g ms) (kind_name k) \<noteq> None \<longleftrightarrow> k = KMarker g \<or> k = KGeneration g"
  by (cases k) (auto simp: single_generation_dir_def)

lemma two_log_world:
  "gw_faults (two_log_world crc) = []" "files_fit (gw_entries (two_log_world crc))"
  "om_size (gw_entries (two_log_world crc)) + 2 \<le> MAX_DIRECTORY_ENTRIES"
  "\<exists>ms enc. commits_log crc (gw_entries (two_log_world crc)) 2 ms enc"
  "gw_file (two_log_world crc) (canonical_staging_marker_name 2) \<noteq> Some OtherEntry"
  "verifies_as crc (gw_entries (two_log_world crc)) 1 (image_prefix crc [])"
proof -
  let ?d = "single_generation_dir crc 1 []"
  have size: "om_size ?d \<le> 2"
    using om_size_insert_le [of "canonical_marker_name 1" _ "om_insert (canonical_generation_name 1) _ om_empty"]
      om_size_insert_le [of "canonical_generation_name 1" _ "om_empty :: gen_dir"]
    unfolding single_generation_dir_def by (metis (no_types) le_trans Suc_le_mono numeral_2_eq_2
        om_size_def entries_empty list.size(3))
  show size2: "om_size (gw_entries (two_log_world crc)) + 2 \<le> MAX_DIRECTORY_ENTRIES"
    using size om_size_insert_le [of "canonical_generation_name 2" "RegularFile (log_image crc [])" ?d]
    by (simp add: two_log_world_def MAX_DIRECTORY_ENTRIES_def)
  show fit: "files_fit (gw_entries (two_log_world crc))"
    using empty_generation_dir(2) [of crc]
    by (auto simp: files_fit_def two_log_world_def u64_max_def log_image_def split: if_splits)
  have "entry_ok (KGeneration 2) c" for c by (simp add: entry_ok_def kind_ok_def u64_max_def)
  then have names: "namespace_ok (gw_entries (two_log_world crc))"
    using size2 by (intro namespace_ok_update [OF empty_generation_dir(1) [of crc]])
      (auto simp: two_log_world_def split: if_splits intro: exI [of _ "KGeneration 2"])
  have above: "om_lookup ?d (canonical_marker_name i) = None" if "2 \<le> i" for i
    using single_generation_lookup [of crc 1 "[]" "KMarker i"] that by auto
  have "gen_authority crc (gw_entries (two_log_world crc)) 1 (image_prefix crc []) (log_image crc []) []"
    by (rule gen_authority_cong [OF empty_generation_dir(3) [of crc]]) (simp_all add: two_log_world_def)
  with names fit show "verifies_as crc (gw_entries (two_log_world crc)) 1 (image_prefix crc [])"
    by (auto simp: verifies_as_iff)
  have "commits_log crc (gw_entries (two_log_world crc)) 2 []
      (marker_body 2 (image_prefix crc []) @ crc_field (crc32_ieee (marker_body 2 (image_prefix crc []))))"
    using names above
    by (simp add: commits_log_def two_log_world_def u64_max_def log_image_def)
       (simp add: encode_commit_marker_Inr image_prefix_def log_image_def u64_max_def)
  then show "\<exists>ms enc. commits_log crc (gw_entries (two_log_world crc)) 2 ms enc" by blast
  show "gw_file (two_log_world crc) (canonical_staging_marker_name 2) \<noteq> Some OtherEntry"
    using single_generation_lookup [of crc 1 "[]" "KStaging 2"]
    by (simp add: gw_file_def two_log_world_def)
qed (simp add: two_log_world_def)

definition reserved_dir :: "(bytes \<Rightarrow> 32 word) \<Rightarrow> nat \<Rightarrow> gen_dir" where
  "reserved_dir crc n =
     fold (\<lambda>i d. om_insert (canonical_reservation_name i) (RegularFile []) d) [2..<n]
       (single_generation_dir crc 1 [])"

lemma reserved_dir_Suc:
  "2 \<le> n \<Longrightarrow> reserved_dir crc (Suc n) = om_insert (canonical_reservation_name n) (RegularFile []) (reserved_dir crc n)"
  by (simp add: reserved_dir_def)

lemma reserved_dir_props:
  assumes "2 \<le> n" "n \<le> 8192"
  shows "verifies_as crc (reserved_dir crc n) 1 (image_prefix crc []) \<and> files_fit (reserved_dir crc n) \<and>
    om_size (reserved_dir crc n) = n \<and>
    (\<forall>k. om_lookup (reserved_dir crc n) (kind_name k) \<noteq> None \<longrightarrow> kind_id k < n)"
  using assms
proof (induction n rule: dec_induct)
  case base
  have "om_size (single_generation_dir crc 1 []) = 2"
    by (simp add: single_generation_dir_def om_size_insert_new) (simp add: om_size_def)
  then show ?case
    using empty_generation_dir [of crc] single_generation_lookup [of crc 1 "[]"]
    by (auto simp: reserved_dir_def verifies_as_iff)
next
  case (step n)
  then have ih: "verifies_as crc (reserved_dir crc n) 1 (image_prefix crc [])" "files_fit (reserved_dir crc n)"
      "om_size (reserved_dir crc n) = n"
      "om_lookup (reserved_dir crc n) (kind_name k) \<noteq> None \<Longrightarrow> kind_id k < n" for k
    by simp_all
  note suc = reserved_dir_Suc [OF step.hyps(1), of crc]
  have absent: "om_lookup (reserved_dir crc n) (canonical_reservation_name n) = None"
    by (metis ih(4) kind_id.simps(4) kind_name.simps(4) less_irrefl)
  have size: "om_size (reserved_dir crc (Suc n)) = Suc n"
    unfolding suc using absent ih(3) by (simp add: om_size_insert_new)
  have "kind_id k < Suc n" if "om_lookup (reserved_dir crc (Suc n)) (kind_name k) \<noteq> None" for k
    using that ih(4) [of k] kind_name_inject [of k "KReservation n"]
    by (cases "k = KReservation n") (auto simp: suc)
  moreover have "verifies_as crc (reserved_dir crc (Suc n)) 1 (image_prefix crc [])" "files_fit (reserved_dir crc (Suc n))"
    using reserved_verifies [OF ih(1,2) _ suc] size step.hyps step.prems
    by (simp_all add: MAX_DIRECTORY_ENTRIES_def u64_max_def)
  ultimately show ?case using size by blast
qed


subsection \<open>Properties\<close>

text \<open>C5 (gen_publish): publishing a marker for generation \<open>g\<close>, whatever call fails and however
  torn the staged marker is, changes no entry but that marker and its staging file.  On success
  the directory verifies with \<open>g\<close> as its authority and the whole of its log as the committed
  prefix.  On failure a directory that verified still does, with its old authority and prefix or,
  once the marker is linked, with the new one; and losing the link that was not yet synchronized
  brings back the old authority.\<close>

theorem publish_marker_atomic:
  assumes "publish_generation_marker crc g w = (r, w')" "files_fit (gw_entries w)"
    and "om_size (gw_entries w) + 2 \<le> MAX_DIRECTORY_ENTRIES"
  shows "(\<forall>name. name \<notin> {canonical_marker_name g, canonical_staging_marker_name g} \<longrightarrow>
      gw_file w' name = gw_file w name) \<and>
    (case r of
       Inr s \<Rightarrow> ps_generation s = g \<and> verifies_as crc (gw_entries w') g (ps_committed_prefix s) \<and>
         (\<exists>ms. gw_file w (canonical_generation_name g) = Some (RegularFile (log_image crc ms)) \<and>
            ps_committed_prefix s = image_prefix crc ms)
     | Inl e \<Rightarrow> \<forall>g0 p0. verifies_as crc (gw_entries w) g0 p0 \<longrightarrow>
         (verifies_as crc (gw_entries w') g0 p0 \<or> (\<exists>p. verifies_as crc (gw_entries w') g p)) \<and>
         (gw_file w (canonical_marker_name g) = None \<longrightarrow>
            verifies_as crc (om_remove (canonical_marker_name g) (gw_entries w')) g0 p0)) \<and>
    (gw_faults w = [] \<and> (\<exists>ms enc. commits_log crc (gw_entries w) g ms enc) \<and>
       gw_file w (canonical_staging_marker_name g) \<noteq> Some OtherEntry \<longrightarrow> is_ok r)"
    (is "?same \<and> ?out \<and> ?live")
proof -
  let ?d = "gw_entries w" and ?d' = "gw_entries w'"
  let ?m = "canonical_marker_name g" and ?s = "canonical_staging_marker_name g"
  have ?live
    using publish_quiet [of w crc g _ _ thesis] publish_quiet [of w crc g] assms(1,2)
    by (metis fst_conv is_ok_simps(2))
  from publish_generation_leaves [OF assms(1,2)] consider
      (stopped) "\<not> is_ok r" "?d' \<in> {?d, om_remove ?s ?d}"
    | (ran) ms enc where "commits_log crc ?d g ms enc" "publish_leaves (om_remove ?s ?d) g enc (is_ok r) ?d'"
        "is_ok r \<longrightarrow> ps_generation (projr r) = g \<and> ps_committed_prefix (projr r) = image_prefix crc ms"
    by blast
  then show ?thesis
  proof cases
    case stopped
    obtain e where e: "r = Inl e" using stopped(1) by (cases r) simp_all
    have "verifies_as crc ?d' g0 p0" if "verifies_as crc ?d g0 p0" for g0 p0
      using stopped(2) unstaged_verifies [OF that assms(2)] assms(3) that by auto
    then show ?thesis
      using stopped(2) e \<open>?live\<close> by (auto simp: gw_file_def om_remove_absent)
  next
    case (ran ms enc)
    have absent: "om_lookup ?d ?m = None" using ran(1) by (simp add: commits_log_def)
    have size: "om_size x \<le> MAX_DIRECTORY_ENTRIES"
      if "\<And>k. om_lookup x k \<noteq> None \<Longrightarrow> om_lookup ?d k \<noteq> None \<or> k \<in> set [?m, ?s]" for x
      using om_size_le [of x ?d "[?m, ?s]", OF that] assms(3) by simp
    have enc: "length (take n enc) \<le> u64_max" for n
      using encode_commit_marker_state(2) ran(1) by (auto simp: commits_log_def u64_max_def)
    have gok: "kind_ok (KStaging g)"
      using ran(1) namespace_ok_kind [of ?d "KGeneration g"] by (auto simp: commits_log_def kind_ok_def)
    have new: "verifies_as crc ?d' g (image_prefix crc ms)" if "om_lookup ?d' ?m \<noteq> None"
      using ran(2) that absent enc [of "length enc"]
      by (intro verifies_published(1) [OF ran(1) assms(2)] size)
         (auto simp: publish_leaves_def split: if_splits)
    have old: "verifies_as crc (om_remove ?m ?d') g0 p0" if "verifies_as crc ?d g0 p0" for g0 p0
      using ran(2) absent enc enc [of "length enc"]
      by (intro verifies_unstaged(1) [OF that assms(2) size gok])
         (auto simp: publish_leaves_def split: if_splits)
    have ?same using ran(2) by (auto simp: publish_leaves_def gw_file_def)
    moreover have ?out
    proof (cases r)
      case (Inr s)
      then have "om_lookup ?d' ?m \<noteq> None" using ran(2) by (auto simp: publish_leaves_def)
      with Inr ran(1,3) new show ?thesis by (auto simp: commits_log_def gw_file_def)
    next
      case (Inl e)
      have "verifies_as crc ?d' g0 p0 \<or> (\<exists>p. verifies_as crc ?d' g p)" if "verifies_as crc ?d g0 p0" for g0 p0
        using old [OF that] new by (cases "om_lookup ?d' ?m") (auto simp: om_remove_absent)
      with Inl old show ?thesis by simp
    qed
    ultimately show ?thesis using \<open>?live\<close> by blast
  qed
qed

lemma publish_marker_atomic_witness:
  "\<exists>s w'. publish_generation_marker (\<lambda>_. 0) 2 (two_log_world (\<lambda>_. 0)) = (Inr s, w') \<and>
     verifies_as (\<lambda>_. 0) (gw_entries w') 2 (ps_committed_prefix s)"
proof -
  let ?w = "two_log_world (\<lambda>_. 0)"
  obtain r w' where run: "publish_generation_marker (\<lambda>_. 0) 2 ?w = (r, w')" by force
  note w = two_log_world [of "\<lambda>_. 0"]
  have "is_ok r"
    using publish_marker_atomic [OF run w(2,3)] w(1,4,5) by blast
  then obtain s where "r = Inr s" by (auto simp: is_ok_iff)
  then show ?thesis
    using publish_marker_atomic [OF run w(2,3)] run by auto
qed

text \<open>C27 (gen_reserve): reserving an id, whatever call fails, keeps the authority, the committed
  prefix and every other entry.  When it succeeds the id is above every id the directory shows in
  any name and has become the highest observed one, so it is never given out again; when it
  fails the directory gained at most that reservation.\<close>

theorem reserve_keeps_authority:
  assumes "reserve_next_generation crc owner w = (r, w')" "files_fit (gw_entries w)"
    and "om_size (gw_entries w) + 1 \<le> MAX_DIRECTORY_ENTRIES"
  shows "(\<forall>g p. verifies_as crc (gw_entries w) g p \<longrightarrow> verifies_as crc (gw_entries w') g p) \<and>
    (case r of
       Inr s \<Rightarrow> (\<forall>k. gw_file w (kind_name k) \<noteq> None \<longrightarrow> kind_id k < rs_generation s) \<and>
         gw_entries w' = om_insert (canonical_reservation_name (rs_generation s)) (RegularFile []) (gw_entries w) \<and>
         rs_highest_observed_generation s = rs_generation s \<and> rs_generation s \<le> u64_max
     | Inl e \<Rightarrow> gw_entries w' = gw_entries w \<or>
         (\<exists>n. (\<forall>k. gw_file w (kind_name k) \<noteq> None \<longrightarrow> kind_id k < n) \<and>
            gw_entries w' = om_insert (canonical_reservation_name n) (RegularFile []) (gw_entries w)))"
proof -
  let ?d = "gw_entries w"
  from assms(1,2) show ?thesis
  proof (cases rule: reserve_cases)
    case (unchanged e)
    then show ?thesis by simp
  next
    case (reserved n)
    have fresh: "kind_id k < n" if "om_lookup ?d (kind_name k) \<noteq> None" for k
      using reserved(2) that by blast
    have size: "om_size (gw_entries w') \<le> MAX_DIRECTORY_ENTRIES"
      using om_size_insert_le [of "canonical_reservation_name n" "RegularFile []" ?d] assms(3) reserved(1)
      by simp
    note keep = reserved_verifies [OF _ assms(2) size reserved(1,3,4)]
    show ?thesis
    proof (cases r)
      case (Inl e)
      have "\<exists>n. (\<forall>k. gw_file w (kind_name k) \<noteq> None \<longrightarrow> kind_id k < n) \<and>
          gw_entries w' = om_insert (canonical_reservation_name n) (RegularFile []) ?d"
        using fresh reserved(1) unfolding gw_file_def by blast
      with Inl keep(1) show ?thesis by simp
    next
      case (Inr s)
      with reserved fresh keep(1) show ?thesis by (auto simp: gw_file_def)
    qed
  qed
qed


lemma reserve_keeps_authority_witness:
  "\<exists>r w'. reserve_next_generation (\<lambda>_. 0) [] (two_log_world (\<lambda>_. 0)) = (r, w') \<and>
     verifies_as (\<lambda>_. 0) (gw_entries w') 1 (image_prefix (\<lambda>_. 0) [])"
proof -
  let ?w = "two_log_world (\<lambda>_. 0)"
  obtain r w' where run: "reserve_next_generation (\<lambda>_. 0) [] ?w = (r, w')" by force
  have size: "om_size (gw_entries ?w) + 1 \<le> MAX_DIRECTORY_ENTRIES"
    using two_log_world(3) [of "\<lambda>_. 0"] by simp
  show ?thesis
    using reserve_keeps_authority [OF run two_log_world(2) size] two_log_world(6) run by blast
qed

text \<open>C36 (gen_full): the entry limit is only checked when a directory is scanned.  Reserving an id
  in a verified directory that holds exactly the maximal number of entries fails, but leaves the
  new reservation behind; the directory, one entry over the limit, never verifies again, and no
  later reservation or publication in it can succeed.\<close>

theorem reserve_overfills_directory:
  assumes "verify_generation_directory crc (gw_entries w) = Inr v" "gw_faults w = []" "gw_lock w = None"
    and "om_size (gw_entries w) = MAX_DIRECTORY_ENTRIES" "gs_highest_observed_generation v < u64_max"
  shows "\<exists>e w'. reserve_next_generation crc owner w = (Inl e, w') \<and>
    gw_entries w' = om_insert (canonical_reservation_name (gs_highest_observed_generation v + 1))
      (RegularFile []) (gw_entries w) \<and>
    \<not> is_ok (verify_generation_directory crc (gw_entries w')) \<and>
    (\<forall>w2 owner' g. gw_entries w2 = gw_entries w' \<longrightarrow>
       \<not> is_ok (fst (reserve_next_generation crc owner' w2)) \<and>
       \<not> is_ok (fst (publish_generation_marker crc g w2)))"
proof -
  let ?n = "gs_highest_observed_generation v + 1"
  let ?d = "om_insert (canonical_reservation_name ?n) (RegularFile []) (gw_entries w)"
  have "om_lookup (gw_entries w) (canonical_reservation_name ?n) = None"
    using verify_generation_ids(1) [OF assms(1), of "KReservation ?n"]
    by (cases "om_lookup (gw_entries w) (canonical_reservation_name ?n)") auto
  then have over: "MAX_DIRECTORY_ENTRIES < om_size ?d"
    using assms(4) by (simp add: om_size_insert_new)
  have unverified: "\<not> is_ok (verify_generation_directory crc ?d)"
    using overfull_invalid [OF over, of crc] by auto
  have unscanned: "\<not> is_ok (scan_generation_namespace ?d)"
    using over scan_namespace_Inr(1) [of ?d] by (auto simp: is_ok_iff namespace_ok_def)
  have "\<exists>e w'. reserve_next_generation crc owner w = (Inl e, w') \<and> gw_entries w' = ?d"
    using reserve_quiet [OF assms(2,3,1,5), of owner] unverified
    by (auto simp: Let_def retained_summary_def is_ok_def split: sum.splits)
  moreover have "\<not> is_ok (fst (reserve_next_generation crc owner' w2))" if "gw_entries w2 = ?d" for w2 owner'
  proof -
    obtain r w' where run: "reserve_next_generation crc owner' w2 = (r, w')" by force
    from run [unfolded reserve_next_generation_def] have "\<not> is_ok r"
    proof (cases rule: with_lease_cases)
      case (ran w1 w3)
      from ran(4) show ?thesis
        by (cases rule: bind_ask) (use unverified ran(1) that in \<open>auto simp: is_ok_iff result_iff\<close>)
    qed simp
    then show ?thesis using run by simp
  qed
  moreover have "\<not> is_ok (fst (publish_generation_marker crc g w2))" if "gw_entries w2 = ?d" for w2 g
    using unscanned that
    by (cases "scan_generation_namespace ?d"; cases "g = 0")
       (simp_all add: publish_generation_marker_def Let_def)
  ultimately show ?thesis using unverified by metis
qed

lemma reserve_overfills_directory_witness:
  "\<exists>e w'. reserve_next_generation (\<lambda>_. 0) []
      \<lparr>gw_entries = reserved_dir (\<lambda>_. 0) 8192, gw_lock = None, gw_faults = []\<rparr> = (Inl e, w') \<and>
    \<not> is_ok (verify_generation_directory (\<lambda>_. 0) (gw_entries w'))"
proof -
  let ?w = "\<lparr>gw_entries = reserved_dir (\<lambda>_. 0) 8192, gw_lock = None, gw_faults = []\<rparr>"
  have d: "verifies_as (\<lambda>_. 0) (gw_entries ?w) 1 (image_prefix (\<lambda>_. 0) [])"
      "om_size (gw_entries ?w) = MAX_DIRECTORY_ENTRIES"
      "\<forall>k. om_lookup (gw_entries ?w) (kind_name k) \<noteq> None \<longrightarrow> kind_id k < 8192"
    using reserved_dir_props [of 8192 "\<lambda>_. 0"] by (simp_all add: MAX_DIRECTORY_ENTRIES_def)
  obtain v where v: "verify_generation_directory (\<lambda>_. 0) (gw_entries ?w) = Inr v"
    using d(1) by (auto simp: verifies_as_def)
  have "gs_highest_observed_generation v < 8192"
    using verify_generation_ids(2) [OF v] d(3) by metis
  then have "gs_highest_observed_generation v < u64_max" by (simp add: u64_max_def)
  with reserve_overfills_directory [OF v _ _ d(2)] show ?thesis by (metis gen_world.select_convs(2,3))
qed

end
