(* ===== verification/GenEngine.thy ===== *)
theory GenEngine
  imports GenPublishSpec
begin

text \<open>
  The routed append-log engine (\<open>crates/db-cli/src/generation_engine.rs\<close>): every operation takes
  the writer lease, follows the directory's authority forward, and runs on the append log of the
  authoritative generation.  The state is the handle together with the world; the bytes of the
  routed log live in the directory and are handed to the inner engine for each operation, so other
  processes may have changed them in between.  The kind \<open>WouldBlock\<close> is \<open>OtherIo\<close> here.
\<close>

record gen_engine =
  ge_authoritative_generation :: nat
  ge_inner :: log_engine
  ge_poisoned :: bool

type_synonym gen_state = "gen_engine \<times> gen_world"

fun engine_directory_error :: "gen_dir_error \<Rightarrow> db_error" where
  "engine_directory_error GdInvalid = Corruption 0"
| "engine_directory_error (GdDatabase e) = e"
| "engine_directory_error (GdIo k) = Io k"

fun engine_lock_error :: "writer_lock_error \<Rightarrow> db_error" where
  "engine_lock_error (LockDirectory e) = engine_directory_error e"
| "engine_lock_error LockInvalid = Corruption 0"
| "engine_lock_error LockBusy = Io OtherIo"
| "engine_lock_error (LockIo k) = Io k"

text \<open>\<open>LogEngine::open_managed_generation\<close> on an entry of the directory; the repair of a torn tail
  and the creation of a missing file reach the entry.\<close>

definition open_generation_log ::
    "(bytes \<Rightarrow> 32 word) \<Rightarrow> bytes \<Rightarrow> (db_error, log_engine) gen_act" where
  "open_generation_log crc name w =
     (case log_open_managed_generation crc (Some name)
             (case gw_file w name of None \<Rightarrow> None | Some (RegularFile f) \<Rightarrow> Some f | Some OtherEntry \<Rightarrow> Some [])
             (gw_file w name = Some OtherEntry) of
        (r, None) \<Rightarrow> (r, w)
      | (r, Some f') \<Rightarrow>
          (r, if gw_file w name = Some OtherEntry then w
              else w\<lparr>gw_entries := om_insert name (RegularFile f') (gw_entries w)\<rparr>))"

definition resolve_authority ::
    "(bytes \<Rightarrow> 32 word) \<Rightarrow> nat \<Rightarrow> (db_error, nat \<times> log_engine) gen_act" where
  "resolve_authority crc minimum_generation =
     sbind (sask (\<lambda>w. map_err engine_directory_error (verify_generation_directory crc (gw_entries w)))) (\<lambda>verified.
     let generation = gs_authoritative_generation verified in
     sbind (slift (ensure (\<not> generation < minimum_generation) (Corruption 0))) (\<lambda>_.
     sbind (open_generation_log crc (gs_authoritative_log verified)) (\<lambda>inner.
     sbind (sask (\<lambda>w. map_err engine_directory_error (verify_generation_directory crc (gw_entries w)))) (\<lambda>after_open.
     let after_generation = gs_authoritative_generation after_open in
     sbind (slift (ensure (\<not> (after_generation < minimum_generation \<or> after_generation \<noteq> generation))
                     (Corruption 0))) (\<lambda>_.
     sbind (slift (ensure (Some (gs_authoritative_log after_open) = le_path inner) (Corruption 0))) (\<lambda>_.
     sret (generation, inner)))))))"

definition gen_open :: "(bytes \<Rightarrow> 32 word) \<Rightarrow> bytes \<Rightarrow> (db_error, gen_engine) gen_act" where
  "gen_open crc owner =
     with_lease engine_lock_error owner
      (sbind (resolve_authority crc 0) (\<lambda>(generation, inner).
       sret \<lparr>ge_authoritative_generation = generation, ge_inner = inner, ge_poisoned = False\<rparr>))"

definition gen_poison :: "db_error \<Rightarrow> gen_state \<Rightarrow> 'a result \<times> gen_state" where
  "gen_poison err s = (case s of (e, w) \<Rightarrow> (Inl err, e\<lparr>ge_poisoned := True\<rparr>, w))"

definition refresh_authority :: "(bytes \<Rightarrow> 32 word) \<Rightarrow> (gen_state, db_error, unit) act" where
  "refresh_authority crc s =
     (case s of (e, w) \<Rightarrow>
        if ge_poisoned e then (Inl Poisoned, s)
        else case scan_generation_namespace (gw_entries w) of
          Inl err \<Rightarrow> gen_poison (engine_directory_error err) s
        | Inr ns \<Rightarrow>
            (case last_key (ns_marker_files ns) of
               None \<Rightarrow> gen_poison (Corruption 0) s
             | Some highest_marker \<Rightarrow>
                 if highest_marker < ge_authoritative_generation e then gen_poison (Corruption 0) s
                 else if highest_marker = ge_authoritative_generation e then (Inr (), s)
                 else case resolve_authority crc highest_marker w of
                   (Inl err, w') \<Rightarrow> gen_poison err (e, w')
                 | (Inr (generation, inner), w') \<Rightarrow>
                     (Inr (), e\<lparr>ge_authoritative_generation := generation, ge_inner := inner\<rparr>, w')))"

definition reopen_routed :: "(bytes \<Rightarrow> 32 word) \<Rightarrow> (gen_state, db_error, unit) act" where
  "reopen_routed crc s =
     (case s of (e, w) \<Rightarrow>
        (case resolve_authority crc (ge_authoritative_generation e) w of
           (Inl err, w') \<Rightarrow> gen_poison err (e, w')
         | (Inr (generation, inner), w') \<Rightarrow>
             (Inr (), e\<lparr>ge_authoritative_generation := generation, ge_inner := inner,
                        ge_poisoned := False\<rparr>, w')))"

text \<open>The lease around an operation of a handle.\<close>

definition with_operation_lease ::
    "bytes \<Rightarrow> (gen_state, db_error, 'a) act \<Rightarrow> (gen_state, db_error, 'a) act" where
  "with_operation_lease owner body s =
     (case s of (e, w) \<Rightarrow>
        (case acquire_generation_writer_lease owner w of
           (Inl err, w') \<Rightarrow> (Inl (engine_lock_error err), e, w')
         | (Inr _, w') \<Rightarrow>
             (case body (e, w') of
                (r, e', w'') \<Rightarrow> (r, e', release_generation_writer_lease owner w''))))"

text \<open>An operation of the inner engine on the bytes its file has now.\<close>

definition on_inner ::
    "(log_engine \<Rightarrow> 'a result \<times> log_engine) \<Rightarrow> (gen_state, db_error, 'a) act" where
  "on_inner operation s =
     (case s of (e, w) \<Rightarrow>
        (case le_path (ge_inner e) of
           None \<Rightarrow> (case operation (ge_inner e) of (r, inner') \<Rightarrow> (r, e\<lparr>ge_inner := inner'\<rparr>, w))
         | Some name \<Rightarrow>
             (case gw_file w name of
                Some (RegularFile f) \<Rightarrow>
                  (case operation ((ge_inner e)\<lparr>le_disk := f\<rparr>) of
                     (r, inner') \<Rightarrow>
                       (r, e\<lparr>ge_inner := inner'\<rparr>,
                        w\<lparr>gw_entries := om_insert name (RegularFile (le_disk inner')) (gw_entries w)\<rparr>))
              | _ \<Rightarrow> (case operation (ge_inner e) of (r, inner') \<Rightarrow> (r, e\<lparr>ge_inner := inner'\<rparr>, w)))))"

definition gen_put ::
    "(bytes \<Rightarrow> 32 word) \<Rightarrow> io_fault \<Rightarrow> bytes \<Rightarrow> gen_state \<Rightarrow> bytes \<Rightarrow> bytes \<Rightarrow>
       bytes option result \<times> gen_state" where
  "gen_put crc fault owner s key val =
     with_operation_lease owner
       (sbind (refresh_authority crc) (\<lambda>_. on_inner (\<lambda>inner. log_put crc fault inner key val))) s"

definition gen_get ::
    "(bytes \<Rightarrow> 32 word) \<Rightarrow> bytes \<Rightarrow> gen_state \<Rightarrow> bytes \<Rightarrow> bytes option result \<times> gen_state" where
  "gen_get crc owner s key =
     with_operation_lease owner
       (sbind (refresh_authority crc) (\<lambda>_. on_inner (\<lambda>inner. log_get inner key))) s"

definition gen_delete ::
    "(bytes \<Rightarrow> 32 word) \<Rightarrow> io_fault \<Rightarrow> bytes \<Rightarrow> gen_state \<Rightarrow> bytes \<Rightarrow>
       bytes option result \<times> gen_state" where
  "gen_delete crc fault owner s key =
     with_operation_lease owner
       (sbind (refresh_authority crc) (\<lambda>_. on_inner (\<lambda>inner. log_delete crc fault inner key))) s"

definition gen_reopen ::
    "(bytes \<Rightarrow> 32 word) \<Rightarrow> bytes \<Rightarrow> gen_state \<Rightarrow> unit result \<times> gen_state" where
  "gen_reopen crc owner = with_operation_lease owner (reopen_routed crc)"

text \<open>The engine trait.  The capabilities are those of the inner log; the code replaces their \<open>name\<close>,
  a text for reports that the model's record does not have.\<close>

definition gen_ops :: "(bytes \<Rightarrow> 32 word) \<Rightarrow> bytes \<Rightarrow> gen_state kv_ops" where
  "gen_ops crc owner =
     \<lparr>op_capabilities = (\<lambda>(e, w). log_capabilities (ge_inner e)), op_put = gen_put crc None owner,
      op_get = gen_get crc owner, op_delete = gen_delete crc None owner,
      op_range_scan = default_range_scan, op_reopen = gen_reopen crc owner\<rparr>"

end
