(* ===== verification/GenEngineSpec.thy ===== *)
theory GenEngineSpec
  imports GenEngine MemoryEngine
begin

text \<open>
  The routed engine implements the ordered map that the authoritative log of its directory holds,
  whichever process published that log: \<open>gen_content\<close> is read off the directory alone.  The
  contract \<open>kv_model\<close> is interpreted on it, which gives the differential harness; a second group
  of lemmas holds in every state: a handle never follows the authority backward, answers only from
  the highest committed generation, and does nothing while another owner holds the lease.
\<close>

subsection \<open>Logs and what they hold\<close>

definition log_file_holds ::
    "(bytes \<Rightarrow> 32 word) \<Rightarrow> bytes \<Rightarrow> (mutation_kind \<times> bytes \<times> bytes) list \<Rightarrow> bytes \<Rightarrow> bool" where
  "log_file_holds crc f ms rest \<longleftrightarrow> f = log_image crc ms @ rest \<and> (\<forall>m \<in> set ms. record_wf m) \<and>
     length ms < u64_max \<and>
     (\<exists>r. log_scan_file crc f = Inr r \<and> sc_values r = log_replay om_empty ms \<and>
        sc_valid_bytes r = length (log_image crc ms) \<and> sc_record_count r = length ms \<and>
        sc_next_sequence r = 1 + length ms \<and> (sc_recoverable_tail r = None \<longleftrightarrow> rest = []))"

lemma log_file_holds_scan:
  assumes "log_scan_file crc f = Inr r"
  obtains ms rest where "log_file_holds crc f ms rest"
proof -
  obtain ms rest where ms: "f = log_image crc ms @ rest" "\<forall>m \<in> set ms. record_wf m"
    "sc_values r = log_replay om_empty ms" "sc_valid_bytes r = length (log_image crc ms)"
    "sc_record_count r = length ms" "sc_next_sequence r = 1 + length ms"
    "ms \<noteq> [] \<longrightarrow> length ms < u64_max" "sc_recoverable_tail r = None \<longleftrightarrow> rest = []"
    using log_scan_file_sound [OF assms] by (elim exE conjE) (rule that)
  have "length ms < u64_max" using ms(7) by (cases ms) (simp_all add: u64_max_def)
  with ms assms have "log_file_holds crc f ms rest" by (auto simp: log_file_holds_def)
  then show thesis by (rule that)
qed

lemma log_file_holds_image:
  assumes "\<forall>m \<in> set ms. record_wf m" "length ms < u64_max" "length (log_image crc ms) \<le> u64_max"
  shows "log_file_holds crc (log_image crc ms) ms []"
  using log_scan_image [OF assms] assms by (simp add: log_file_holds_def)

lemma open_holds:
  assumes "log_file_holds crc f ms rest" "length f \<le> u64_max" "kind_ok (KGeneration g)"
  obtains inner where "log_open_managed_generation crc (Some (canonical_generation_name g)) (Some f) False =
       (Inr inner, Some (log_image crc ms))"
    "log_invar crc inner" "log_holds crc inner ms" "le_path inner = Some (canonical_generation_name g)"
    "le_path_ownership inner = OwnGenerationManaged"
proof -
  obtain r where r: "f = log_image crc ms @ rest" "\<forall>m \<in> set ms. record_wf m" "length ms < u64_max"
    "log_scan_file crc f = Inr r" "sc_values r = log_replay om_empty ms"
    "sc_valid_bytes r = length (log_image crc ms)" "sc_record_count r = length ms"
    "sc_recoverable_tail r = None \<longleftrightarrow> rest = []"
    using assms(1) unfolding log_file_holds_def by (elim conjE exE) (rule that)
  obtain e where e: "log_from_file crc (Some (canonical_generation_name g)) OwnGenerationManaged f False =
      (Inr e, log_image crc ms)" "log_holds crc e ms"
      "le_path e = Some (canonical_generation_name g)" "le_path_ownership e = OwnGenerationManaged"
      "le_file_open e" "\<not> le_poisoned e"
    using log_from_scan [OF r(4,1,5,6,7,8,2,3) assms(2)] by blast
  have path: "is_canonical_generation_path (Some (canonical_generation_name g))"
    using assms(3) by (rule canonical_generation_path)
  have "log_open_managed_generation crc (Some (canonical_generation_name g)) (Some f) False =
       (Inr e, Some (log_image crc ms))"
    using e(1) path by (simp add: log_open_managed_generation_def require_managed_generation_path_def
        log_open_with_ownership_def log_open_or_create_def)
  moreover have "log_invar crc e"
    using e path by (auto simp: log_invar_def log_path_ok_def)
  ultimately show thesis using that e by blast
qed

text \<open>Dropping a torn tail keeps the committed prefix.\<close>

lemma prefix_kept:
  assumes "log_file_holds crc f ms rest" "length f \<le> u64_max" "f = log_image crc ms0 @ suf" "prefix_binds crc p ms0"
  shows "\<exists>suf'. log_image crc ms = log_image crc ms0 @ suf'"
proof -
  obtain r where r: "f = log_image crc ms @ rest" "log_scan_file crc f = Inr r"
    "sc_valid_bytes r = length (log_image crc ms)"
    using assms(1) unfolding log_file_holds_def by blast
  obtain ms' rest' where ext: "f = log_image crc (ms0 @ ms') @ rest'"
      "sc_valid_bytes r = length (log_image crc (ms0 @ ms'))"
    using log_scan_extends [of crc ms0 suf r] r(2) assms(2-4) unfolding prefix_binds_def by metis
  have "log_image crc ms = take (sc_valid_bytes r) f" using r(1,3) by simp
  also have "\<dots> = log_image crc (ms0 @ ms')" using ext by simp
  also have "\<dots> = log_image crc ms0 @ frames (log_record_bytes crc) (1 + length ms0) ms'"
    by (simp add: log_image_def frames_append)
  finally show ?thesis by blast
qed


subsection \<open>Directories\<close>

text \<open>\<open>gen_holds crc d g ms rest\<close>: the directory verifies with authority \<open>g\<close>, whose log holds the
  records \<open>ms\<close> followed by a torn tail \<open>rest\<close>.\<close>

definition gen_holds ::
    "(bytes \<Rightarrow> 32 word) \<Rightarrow> gen_dir \<Rightarrow> nat \<Rightarrow> (mutation_kind \<times> bytes \<times> bytes) list \<Rightarrow> bytes \<Rightarrow> bool" where
  "gen_holds crc d g ms rest \<longleftrightarrow> namespace_ok d \<and> files_fit d \<and>
     (\<exists>p f ms0. gen_authority crc d g p f ms0 \<and> log_file_holds crc f ms rest)"

definition gen_content :: "(bytes \<Rightarrow> 32 word) \<Rightarrow> gen_dir \<Rightarrow> kv_state" where
  "gen_content crc d =
     (case verify_generation_directory crc d of
        Inl _ \<Rightarrow> om_empty
      | Inr s \<Rightarrow>
          (case om_lookup d (gs_authoritative_log s) of
             Some (RegularFile f) \<Rightarrow>
               (case log_scan_file crc f of Inl _ \<Rightarrow> om_empty | Inr r \<Rightarrow> sc_values r)
           | _ \<Rightarrow> om_empty))"

lemma gen_holds_file:
  assumes "gen_holds crc d g ms rest"
  shows "om_lookup d (canonical_generation_name g) = Some (RegularFile (log_image crc ms @ rest))"
    "length (log_image crc ms @ rest) \<le> u64_max" "kind_ok (KGeneration g)" "kind_ok (KMarker g)"
    "\<forall>m \<in> set ms. record_wf m" "length ms < u64_max" "namespace_ok d" "files_fit d"
proof -
  obtain p f ms0 where a: "namespace_ok d" "files_fit d" "gen_authority crc d g p f ms0" "log_file_holds crc f ms rest"
    using assms unfolding gen_holds_def by blast
  show l: "om_lookup d (canonical_generation_name g) = Some (RegularFile (log_image crc ms @ rest))"
    using a(3,4) by (simp add: gen_authority_def log_file_holds_def)
  show "length (log_image crc ms @ rest) \<le> u64_max" using a(2) l unfolding files_fit_def by blast
  show "kind_ok (KGeneration g)" using namespace_ok_kind [OF a(1), of "KGeneration g"] l by simp
  then show "kind_ok (KMarker g)" by (simp add: kind_ok_def)
  show "\<forall>m \<in> set ms. record_wf m" "length ms < u64_max" using a(4) by (simp_all add: log_file_holds_def)
  show "namespace_ok d" "files_fit d" by fact+
qed

lemma gen_holds_verify:
  assumes "gen_holds crc d g ms rest"
  obtains s where "verify_generation_directory crc d = Inr s" "gs_authoritative_generation s = g"
    "gs_authoritative_log s = canonical_generation_name g"
  using assms verify_generation_complete unfolding gen_holds_def by metis

lemma gen_holds_content:
  assumes "gen_holds crc d g ms rest"
  shows "gen_content crc d = log_replay om_empty ms"
proof -
  obtain s where s: "verify_generation_directory crc d = Inr s"
    "gs_authoritative_log s = canonical_generation_name g"
    using gen_holds_verify [OF assms] by metis
  obtain r where "log_scan_file crc (log_image crc ms @ rest) = Inr r" "sc_values r = log_replay om_empty ms"
    using assms unfolding gen_holds_def log_file_holds_def by blast
  with s gen_holds_file(1) [OF assms] show ?thesis by (simp add: gen_content_def)
qed

lemma gen_holds_ex:
  assumes "verifies_as crc d g p" "files_fit d"
  obtains ms rest where "gen_holds crc d g ms rest"
proof -
  obtain f ms0 where a: "namespace_ok d" "gen_authority crc d g p f ms0"
    using assms by (auto simp: verifies_as_iff)
  then obtain r where "log_scan_file crc f = Inr r" by (auto simp: gen_authority_def is_ok_iff)
  then obtain ms rest where "log_file_holds crc f ms rest" by (rule log_file_holds_scan)
  with a assms(2) that show thesis unfolding gen_holds_def by blast
qed

lemma gen_holds_top:
  assumes "gen_holds crc d g ms rest"
  shows "om_lookup d (canonical_marker_name g) \<noteq> None" "i > g \<Longrightarrow> om_lookup d (canonical_marker_name i) = None"
  using assms by (auto simp: gen_holds_def gen_authority_def)

lemma gen_holds_last_key:
  assumes "gen_holds crc d g ms rest"
  obtains ns where "scan_generation_namespace d = Inr ns" "last_key (ns_marker_files ns) = Some g"
proof -
  obtain ns where ns: "scan_generation_namespace d = Inr ns"
    using scan_namespace_ok [OF gen_holds_file(7) [OF assms]] .
  have "last_key (ns_marker_files ns) = Some g"
    using scan_namespace_Inr(2) [OF ns, of "KMarker _"] gen_holds_top [OF assms]
    by (fastforce simp: last_key_Some not_le [symmetric] split: if_splits)
  with ns that show thesis by blast
qed

text \<open>Replacing the authoritative log by a file that continues what is committed.\<close>

lemma gen_holds_replace:
  assumes "gen_holds crc d g ms rest" "log_file_holds crc f' ms' rest'" "length f' \<le> u64_max"
    "\<exists>suf. f' = log_image crc ms @ suf"
  shows "gen_holds crc (om_insert (canonical_generation_name g) (RegularFile f') d) g ms' rest'"
proof -
  let ?n = "canonical_generation_name g"
  let ?d' = "om_insert ?n (RegularFile f') d"
  obtain p f ms0 where a: "gen_authority crc d g p f ms0" "log_file_holds crc f ms rest"
    using assms(1) unfolding gen_holds_def by blast
  note d = gen_holds_file [OF assms(1)]
  have f: "f = log_image crc ms @ rest" using a(2) by (simp add: log_file_holds_def)
  obtain suf where "f = log_image crc ms0 @ suf" "prefix_binds crc p ms0" using a(1) by (auto simp: gen_authority_def)
  then obtain suf' where "f' = log_image crc ms0 @ suf'"
    using prefix_kept [OF a(2)] d(2) f assms(4) by (metis append_assoc)
  then have "\<exists>suf. f' = log_image crc ms0 @ suf" by blast
  moreover have "\<exists>r. log_scan_file crc f' = Inr r" using assms(2) unfolding log_file_holds_def by blast
  ultimately have "gen_authority crc ?d' g p f' ms0"
    using a(1) by (auto simp: gen_authority_def is_ok_iff)
  moreover have "namespace_ok ?d'"
  proof (rule namespace_ok_update [OF d(7)])
    have "om_size ?d' = om_size d"
      using d(1) by (intro om_size_replace) simp
    then show "om_size ?d' \<le> MAX_DIRECTORY_ENTRIES" using d(7) by (simp add: namespace_ok_def)
    have "entry_ok (KGeneration g) c" for c using d(3) by (simp add: entry_ok_def)
    then show "om_lookup d k = Some c \<or> (\<exists>j. k = kind_name j \<and> entry_ok j c)"
      if "om_lookup ?d' k = Some c" for k c
      using that by (auto split: if_splits intro: exI [of _ "KGeneration g"])
  qed
  moreover have "files_fit ?d'" using d(8) assms(3) by (auto simp: files_fit_def)
  ultimately show ?thesis using assms(2) unfolding gen_holds_def by blast
qed

lemma gen_holds_update:
  assumes "gen_holds crc d g ms rest" "\<forall>m \<in> set ms'. record_wf m" "length ms' < u64_max"
    "length (log_image crc ms') \<le> u64_max" "\<exists>suf. log_image crc ms' = log_image crc ms @ suf"
  shows "gen_holds crc (om_insert (canonical_generation_name g) (RegularFile (log_image crc ms')) d) g ms' []"
  by (rule gen_holds_replace [OF assms(1) log_file_holds_image [OF assms(2-4)] assms(4,5)])


subsection \<open>A handle that has caught up\<close>

definition gen_synced :: "(bytes \<Rightarrow> 32 word) \<Rightarrow> gen_state \<Rightarrow> nat \<Rightarrow> (mutation_kind \<times> bytes \<times> bytes) list \<Rightarrow> bool" where
  "gen_synced crc s g ms \<longleftrightarrow>
     (case s of (e, w) \<Rightarrow>
        \<not> ge_poisoned e \<and> gw_faults w = [] \<and> gen_holds crc (gw_entries w) g ms [] \<and>
        ge_authoritative_generation e = g \<and> log_holds crc (ge_inner e) ms \<and> log_invar crc (ge_inner e) \<and>
        le_path (ge_inner e) = Some (canonical_generation_name g) \<and>
        le_path_ownership (ge_inner e) = OwnGenerationManaged)"

lemma om_insert_same: "om_lookup d k = Some v \<Longrightarrow> om_insert k v d = d"
  by (intro ordmap_eqI) auto

lemma resolve_ok:
  assumes "gen_holds crc (gw_entries w) g ms rest" "gw_faults w = []" "minimum \<le> g"
  obtains inner w' where "resolve_authority crc minimum w = (Inr (g, inner), w')" "gw_lock w' = gw_lock w"
    "gw_faults w' = []" "gen_holds crc (gw_entries w') g ms []" "log_holds crc inner ms" "log_invar crc inner"
    "le_path inner = Some (canonical_generation_name g)" "le_path_ownership inner = OwnGenerationManaged"
proof -
  let ?n = "canonical_generation_name g"
  let ?w' = "w\<lparr>gw_entries := om_insert ?n (RegularFile (log_image crc ms)) (gw_entries w)\<rparr>"
  note d = gen_holds_file [OF assms(1)]
  obtain s where s: "verify_generation_directory crc (gw_entries w) = Inr s" "gs_authoritative_generation s = g"
    "gs_authoritative_log s = ?n" using gen_holds_verify [OF assms(1)] .
  obtain f where f1: "log_file_holds crc f ms rest" using assms(1) unfolding gen_holds_def by blast
  then have f2: "f = log_image crc ms @ rest" by (simp add: log_file_holds_def)
  note f = f1 f2
  obtain inner where inner: "log_open_managed_generation crc (Some ?n) (Some (log_image crc ms @ rest)) False =
       (Inr inner, Some (log_image crc ms))" "log_invar crc inner" "log_holds crc inner ms"
    "le_path inner = Some ?n" "le_path_ownership inner = OwnGenerationManaged"
    using open_holds [OF f(1) d(2) [folded f(2)] d(3)] unfolding f(2) .
  have "gw_file w ?n = Some (RegularFile (log_image crc ms @ rest))" using d(1) by (simp add: gw_file_def)
  then have opened: "open_generation_log crc ?n w = (Inr inner, ?w')"
    by (simp add: open_generation_log_def inner(1))
  have "length (log_image crc ms) \<le> u64_max" using d(2) by simp
  then have new: "gen_holds crc (gw_entries ?w') g ms []"
    using gen_holds_update [OF assms(1) d(5,6)] by simp
  obtain s' where s': "verify_generation_directory crc (gw_entries ?w') = Inr s'" "gs_authoritative_generation s' = g"
    "gs_authoritative_log s' = ?n" using gen_holds_verify [OF new] .
  have "resolve_authority crc minimum w = (Inr (g, inner), ?w')"
    unfolding resolve_authority_def Let_def
    using assms(3) s s' inner(4)
    by (simp add: sbind_run(1) [where m = "open_generation_log crc ?n" and s = w, OF opened] sret_def ensure_def)
  then show thesis
    by (rule that) (use new inner assms(2) in simp_all)
qed

text \<open>\<open>gen_current crc (e, w) g ms rest\<close>: the handle is usable, and is in step with the directory if it
  points at its authority.\<close>

definition gen_current ::
    "(bytes \<Rightarrow> 32 word) \<Rightarrow> gen_state \<Rightarrow> nat \<Rightarrow> (mutation_kind \<times> bytes \<times> bytes) list \<Rightarrow> bytes \<Rightarrow> bool" where
  "gen_current crc s g ms rest \<longleftrightarrow>
     (case s of (e, w) \<Rightarrow>
        \<not> ge_poisoned e \<and> gw_faults w = [] \<and> gen_holds crc (gw_entries w) g ms rest \<and>
        ge_authoritative_generation e \<le> g \<and>
        (ge_authoritative_generation e = g \<longrightarrow> rest = [] \<and> gen_synced crc s g ms))"

lemma refresh_ok:
  assumes "gen_current crc (e, w) g ms rest"
  obtains e' w' where "refresh_authority crc (e, w) = (Inr (), e', w')" "gen_synced crc (e', w') g ms"
    "gw_lock w' = gw_lock w"
proof -
  have c: "\<not> ge_poisoned e" "gw_faults w = []" "gen_holds crc (gw_entries w) g ms rest"
    "ge_authoritative_generation e \<le> g"
    "ge_authoritative_generation e = g \<Longrightarrow> gen_synced crc (e, w) g ms"
    using assms by (simp_all add: gen_current_def)
  obtain ns where ns: "scan_generation_namespace (gw_entries w) = Inr ns" "last_key (ns_marker_files ns) = Some g"
    using gen_holds_last_key [OF c(3)] .
  show thesis
  proof (cases "ge_authoritative_generation e = g")
    case True
    then have "refresh_authority crc (e, w) = (Inr (), e, w)"
      using c(1) ns by (simp add: refresh_authority_def)
    then show thesis using c(5) [OF True] by (intro that) simp_all
  next
    case False
    obtain inner w' where r: "resolve_authority crc g w = (Inr (g, inner), w')" "gw_lock w' = gw_lock w"
      "gw_faults w' = []" "gen_holds crc (gw_entries w') g ms []" "log_holds crc inner ms" "log_invar crc inner"
      "le_path inner = Some (canonical_generation_name g)" "le_path_ownership inner = OwnGenerationManaged"
      using resolve_ok [OF c(3,2) order_refl] .
    have "refresh_authority crc (e, w) =
        (Inr (), e\<lparr>ge_authoritative_generation := g, ge_inner := inner\<rparr>, w')"
      using c(1,4) False ns r(1) by (simp add: refresh_authority_def)
    then show thesis
      by (rule that) (use r c(1) in \<open>simp_all add: gen_synced_def\<close>)
  qed
qed

text \<open>The inner engine on its file.\<close>

lemma on_inner_synced:
  assumes "gen_synced crc (e, w) g ms"
  shows "on_inner op (e, w) = (case op (ge_inner e) of (r, inner') \<Rightarrow>
     (r, e\<lparr>ge_inner := inner'\<rparr>,
      w\<lparr>gw_entries := om_insert (canonical_generation_name g) (RegularFile (le_disk inner')) (gw_entries w)\<rparr>))"
proof -
  have s: "gen_holds crc (gw_entries w) g ms []" "log_holds crc (ge_inner e) ms"
    "le_path (ge_inner e) = Some (canonical_generation_name g)"
    using assms by (simp_all add: gen_synced_def)
  have "gw_file w (canonical_generation_name g) = Some (RegularFile (le_disk (ge_inner e)))"
    using gen_holds_file(1) [OF s(1)] s(2) by (simp add: gw_file_def log_holds_def)
  then show ?thesis by (simp add: on_inner_def s(3))
qed

lemma log_mutation_keeps:
  assumes "log_invar crc e" "log_holds crc e ms" "log_room (Suc n) e" "record_wf (kind, key, val)"
    and "vs = log_replay om_empty (ms @ [(kind, key, val)])"
  obtains e1 where "log_append crc None kind key val e = (Inr (), e1)" "le_values e1 = le_values e"
    "log_holds crc (e1\<lparr>le_values := vs\<rparr>) (ms @ [(kind, key, val)])" "log_invar crc (e1\<lparr>le_values := vs\<rparr>)"
    "le_path e1 = le_path e" "le_path_ownership e1 = le_path_ownership e"
    "le_disk e1 = log_image crc (ms @ [(kind, key, val)])"
proof -
  note step = log_append_ok [OF assms(1-4)]
  obtain e1 where e1: "log_append crc None kind key val e = (Inr (), e1)"
    "le_values e1 = le_values e" "le_path e1 = le_path e" "le_path_ownership e1 = le_path_ownership e"
    "le_disk e1 = log_image crc (ms @ [(kind, key, val)])"
    using step by simp
  have "e1\<lparr>le_values := vs\<rparr> = snd (log_append crc None kind key val e)\<lparr>le_values := vs\<rparr>"
    by (simp add: e1(1))
  from log_mutation_ok [OF assms(1-5) this] e1 show thesis by (intro that) simp_all
qed

lemma synced_mutation:
  assumes "gen_synced crc (e, w) g ms" "log_holds crc inner' ms'" "log_invar crc inner'"
    "le_path inner' = le_path (ge_inner e)" "le_path_ownership inner' = le_path_ownership (ge_inner e)"
    "\<exists>suf. log_image crc ms' = log_image crc ms @ suf"
  shows "gen_synced crc (e\<lparr>ge_inner := inner'\<rparr>,
      w\<lparr>gw_entries := om_insert (canonical_generation_name g) (RegularFile (le_disk inner')) (gw_entries w)\<rparr>) g ms'"
proof -
  have s: "gen_holds crc (gw_entries w) g ms []" using assms(1) by (simp add: gen_synced_def)
  have m: "\<forall>m \<in> set ms'. record_wf m" "length ms' < u64_max" "length (log_image crc ms') \<le> u64_max"
    "le_disk inner' = log_image crc ms'"
    using assms(2) by (auto simp: log_holds_def)
  show ?thesis
    using gen_holds_update [OF s m(1-3) assms(6)] assms m(4) by (simp add: gen_synced_def)
qed

lemma inner_put_ok:
  assumes "gen_synced crc (e, w) g ms" "log_room (Suc n) (ge_inner e)" "validate_key_value k v = Inr ()"
  obtains e' w' where "on_inner (\<lambda>i. log_put crc None i k v) (e, w) =
      (Inr (om_lookup (log_replay om_empty ms) k), e', w')"
    "gen_synced crc (e', w') g (ms @ [(MPut, k, v)])" "gw_lock w' = gw_lock w"
proof -
  have s: "log_holds crc (ge_inner e) ms" "log_invar crc (ge_inner e)" using assms(1) by (simp_all add: gen_synced_def)
  have wf: "record_wf (MPut, k, v)" using assms(3) by (simp add: record_wf_def result_iff)
  obtain i1 where i1: "log_append crc None MPut k v (ge_inner e) = (Inr (), i1)" "le_values i1 = le_values (ge_inner e)"
    "log_holds crc (i1\<lparr>le_values := log_replay om_empty (ms @ [(MPut, k, v)])\<rparr>) (ms @ [(MPut, k, v)])"
    "log_invar crc (i1\<lparr>le_values := log_replay om_empty (ms @ [(MPut, k, v)])\<rparr>)"
    "le_path i1 = le_path (ge_inner e)" "le_path_ownership i1 = le_path_ownership (ge_inner e)"
    using log_mutation_keeps [OF s(2,1) assms(2) wf refl] .
  have vals: "le_values (ge_inner e) = log_replay om_empty ms" using s(1) by (simp add: log_holds_def)
  have put: "log_put crc None (ge_inner e) k v =
      (Inr (om_lookup (log_replay om_empty ms) k), i1\<lparr>le_values := log_replay om_empty (ms @ [(MPut, k, v)])\<rparr>)"
    using assms(3) i1(1,2) vals by (simp add: log_put_def Let_def log_replay_snoc)
  show thesis
    by (rule that [OF _ synced_mutation [OF assms(1) i1(3,4)]])
       (simp_all add: on_inner_synced [OF assms(1)] put i1(5,6) log_image_snoc)
qed

lemma inner_delete_ok:
  assumes "gen_synced crc (e, w) g ms" "log_room (Suc n) (ge_inner e)" "validate_key k = Inr ()"
  obtains e' w' where "on_inner (\<lambda>i. log_delete crc None i k) (e, w) =
      (Inr (om_lookup (log_replay om_empty ms) k), e', w')"
    "gen_synced crc (e', w') g (ms @ [(MDelete, k, [])])" "gw_lock w' = gw_lock w"
proof -
  have s: "log_holds crc (ge_inner e) ms" "log_invar crc (ge_inner e)" using assms(1) by (simp_all add: gen_synced_def)
  have wf: "record_wf (MDelete, k, [])" using assms(3) by (simp add: record_wf_def result_iff)
  obtain i1 where i1: "log_append crc None MDelete k [] (ge_inner e) = (Inr (), i1)" "le_values i1 = le_values (ge_inner e)"
    "log_holds crc (i1\<lparr>le_values := log_replay om_empty (ms @ [(MDelete, k, [])])\<rparr>) (ms @ [(MDelete, k, [])])"
    "log_invar crc (i1\<lparr>le_values := log_replay om_empty (ms @ [(MDelete, k, [])])\<rparr>)"
    "le_path i1 = le_path (ge_inner e)" "le_path_ownership i1 = le_path_ownership (ge_inner e)"
    using log_mutation_keeps [OF s(2,1) assms(2) wf refl] .
  have vals: "le_values (ge_inner e) = log_replay om_empty ms" using s(1) by (simp add: log_holds_def)
  have del: "log_delete crc None (ge_inner e) k =
      (Inr (om_lookup (log_replay om_empty ms) k), i1\<lparr>le_values := log_replay om_empty (ms @ [(MDelete, k, [])])\<rparr>)"
    using assms(3) i1(1,2) vals by (simp add: log_delete_def Let_def log_replay_snoc)
  show thesis
    by (rule that [OF _ synced_mutation [OF assms(1) i1(3,4)]])
       (simp_all add: on_inner_synced [OF assms(1)] del i1(5,6) log_image_snoc)
qed

lemma inner_get_ok:
  assumes "gen_synced crc (e, w) g ms" "validate_key k = Inr ()"
  shows "on_inner (\<lambda>i. log_get i k) (e, w) = (Inr (om_lookup (log_replay om_empty ms) k), e, w)"
proof -
  have s: "gen_holds crc (gw_entries w) g ms []" "log_holds crc (ge_inner e) ms" "log_invar crc (ge_inner e)"
    using assms(1) by (simp_all add: gen_synced_def)
  have "om_lookup (gw_entries w) (canonical_generation_name g) = Some (RegularFile (le_disk (ge_inner e)))"
    using gen_holds_file(1) [OF s(1)] s(2) by (simp add: log_holds_def)
  then show ?thesis
    using s(2,3) assms(2)
    by (simp add: on_inner_synced [OF assms(1)] log_get_def log_ensure_usable_def log_invar_def
        log_holds_def om_insert_same)
qed



subsection \<open>The contract\<close>

definition gen_invar :: "(bytes \<Rightarrow> 32 word) \<Rightarrow> bytes \<Rightarrow> gen_state \<Rightarrow> bool" where
  "gen_invar crc owner s \<longleftrightarrow>
     gw_lock (snd s) = None \<and> length owner \<le> MAX_GENERATION_WRITER_LOCK_BYTES \<and>
     (\<exists>g ms rest. gen_current crc s g ms rest)"

text \<open>\<open>n\<close> more records fit the sequence numbers and the length of the authoritative log.\<close>

definition gen_room :: "(bytes \<Rightarrow> 32 word) \<Rightarrow> nat \<Rightarrow> gen_state \<Rightarrow> bool" where
  "gen_room crc n s \<longleftrightarrow>
     (\<forall>v f r. verify_generation_directory crc (gw_entries (snd s)) = Inr v \<longrightarrow>
        om_lookup (gw_entries (snd s)) (gs_authoritative_log v) = Some (RegularFile f) \<longrightarrow>
        log_scan_file crc f = Inr r \<longrightarrow>
        sc_next_sequence r + n \<le> u64_max \<and> sc_valid_bytes r + n * 1052704 \<le> u64_max)"

definition gen_abs :: "(bytes \<Rightarrow> 32 word) \<Rightarrow> gen_state \<Rightarrow> kv_state" where
  "gen_abs crc s = gen_content crc (gw_entries (snd s))"

lemma gen_room_holds:
  assumes "gen_holds crc (gw_entries w) g ms rest"
  shows "gen_room crc n (e, w) \<longleftrightarrow>
    1 + length ms + n \<le> u64_max \<and> length (log_image crc ms) + n * 1052704 \<le> u64_max"
proof -
  obtain v where v: "verify_generation_directory crc (gw_entries w) = Inr v"
    "gs_authoritative_log v = canonical_generation_name g"
    using gen_holds_verify [OF assms] .
  obtain f where f: "log_file_holds crc f ms rest" using assms unfolding gen_holds_def by blast
  then have "f = log_image crc ms @ rest" by (simp add: log_file_holds_def)
  moreover obtain r where "log_scan_file crc f = Inr r" "sc_valid_bytes r = length (log_image crc ms)"
    "sc_next_sequence r = 1 + length ms"
    using f unfolding log_file_holds_def by blast
  ultimately show ?thesis using v gen_holds_file(1) [OF assms] by (simp add: gen_room_def)
qed

lemma gen_synced_lock [simp]:
  "gen_synced crc (e, w\<lparr>gw_lock := l\<rparr>) g ms \<longleftrightarrow> gen_synced crc (e, w) g ms"
  "gen_current crc (e, w\<lparr>gw_lock := l\<rparr>) g ms rest \<longleftrightarrow> gen_current crc (e, w) g ms rest"
  by (simp_all add: gen_synced_def gen_current_def)

lemma gen_synced_current: "gen_synced crc (e, w) g ms \<Longrightarrow> gen_current crc (e, w) g ms []"
  by (simp add: gen_synced_def gen_current_def)

lemma gen_synced_room:
  assumes "gen_synced crc (e, w) g ms" "1 + length ms + n \<le> u64_max"
    "length (log_image crc ms) + n * 1052704 \<le> u64_max"
  shows "log_room n (ge_inner e)"
  using assms by (simp add: gen_synced_def log_holds_def log_room_def)

lemma leased_run:
  assumes "gw_faults w = []" "gw_lock w = None" "length owner \<le> MAX_GENERATION_WRITER_LOCK_BYTES"
    and "body (e, w\<lparr>gw_lock := Some (RegularFile owner)\<rparr>) = (r, e2, w2)"
    and "gw_lock w2 = Some (RegularFile owner)" "gw_faults w2 = []"
  shows "with_operation_lease owner body (e, w) = (r, e2, w2\<lparr>gw_lock := None\<rparr>)"
  using assms
  by (simp add: with_operation_lease_def acquire_generation_writer_lease_def
      release_generation_writer_lease_def read_lock_record_if_present_def)

text \<open>An operation that keeps a handle in step, run under the lease after the refresh.\<close>

lemma leased_op:
  assumes "gen_invar crc owner (e, w)"
  obtains g ms rest e1 w1 where "gen_holds crc (gw_entries w) g ms rest" "gen_synced crc (e1, w1) g ms"
    "\<And>(op :: (gen_state, db_error, bytes option) act) r e2 w2 ms2. \<lbrakk>op (e1, w1) = (r, e2, w2); gen_synced crc (e2, w2) g ms2; gw_lock w2 = gw_lock w1\<rbrakk> \<Longrightarrow>
       \<exists>s'. with_operation_lease owner (sbind (refresh_authority crc) (\<lambda>_. op)) (e, w) = (r, s') \<and>
         gen_invar crc owner s' \<and> gen_abs crc s' = log_replay om_empty ms2 \<and>
         (\<forall>n. gen_room crc n s' \<longleftrightarrow> 1 + length ms2 + n \<le> u64_max \<and>
            length (log_image crc ms2) + n * 1052704 \<le> u64_max)"
proof -
  let ?w0 = "w\<lparr>gw_lock := Some (RegularFile owner)\<rparr>"
  obtain g ms rest where c: "gen_current crc (e, w) g ms rest" and l: "gw_lock w = None"
    "length owner \<le> MAX_GENERATION_WRITER_LOCK_BYTES"
    using assms by (auto simp: gen_invar_def)
  then have h: "gw_faults w = []" "gen_holds crc (gw_entries w) g ms rest" by (simp_all add: gen_current_def)
  have "gen_current crc (e, ?w0) g ms rest" using c by simp
  then obtain e1 w1 where r: "refresh_authority crc (e, ?w0) = (Inr (), e1, w1)" "gen_synced crc (e1, w1) g ms"
    "gw_lock w1 = gw_lock ?w0"
    by (rule refresh_ok)
  show thesis
  proof (rule that [OF h(2) r(2)])
    fix op :: "(gen_state, db_error, bytes option) act" and ra e2 w2 ms2
    assume op: "op (e1, w1) = (ra, e2, w2)" "gen_synced crc (e2, w2) g ms2" "gw_lock w2 = gw_lock w1"
    let ?s = "(e2, w2\<lparr>gw_lock := None\<rparr>)"
    have h2: "gen_holds crc (gw_entries (w2\<lparr>gw_lock := None\<rparr>)) g ms2 []" "gw_faults w2 = []"
      using op(2) by (simp_all add: gen_synced_def)
    have "sbind (refresh_authority crc) (\<lambda>_. op) (e, ?w0) = (ra, e2, w2)"
      using r(1) op(1) by (simp add: sbind_def)
    from leased_run [where body = "sbind (refresh_authority crc) (\<lambda>_. op)", OF h(1) l this] op(3) r(3) h2(2)
    have "with_operation_lease owner (sbind (refresh_authority crc) (\<lambda>_. op)) (e, w) = (ra, ?s)" by simp
    moreover have "gen_current crc ?s g ms2 []" using gen_synced_current [OF op(2)] by simp
    then have "gen_invar crc owner ?s" using l(2) by (auto simp: gen_invar_def)
    moreover have "gen_abs crc ?s = log_replay om_empty ms2"
      using gen_holds_content [OF h2(1)] by (simp add: gen_abs_def)
    ultimately show "\<exists>s'. with_operation_lease owner (sbind (refresh_authority crc) (\<lambda>_. op)) (e, w) = (ra, s') \<and>
         gen_invar crc owner s' \<and> gen_abs crc s' = log_replay om_empty ms2 \<and>
         (\<forall>n. gen_room crc n s' \<longleftrightarrow> 1 + length ms2 + n \<le> u64_max \<and>
            length (log_image crc ms2) + n * 1052704 \<le> u64_max)"
      using gen_room_holds [OF h2(1)] by blast
  qed
qed

text \<open>Reopening needs no more than a directory that has not fallen behind the handle.\<close>

lemma gen_reopen_run:
  assumes "gw_faults w = []" "gw_lock w = None" "length owner \<le> MAX_GENERATION_WRITER_LOCK_BYTES"
    and "gen_holds crc (gw_entries w) g ms rest" "ge_authoritative_generation e \<le> g"
  obtains e' w' where "gen_reopen crc owner (e, w) = (Inr (), e', w')" "gen_synced crc (e', w') g ms"
    "gw_lock w' = None"
proof -
  let ?w0 = "w\<lparr>gw_lock := Some (RegularFile owner)\<rparr>"
  have h0: "gen_holds crc (gw_entries ?w0) g ms rest" "gw_faults ?w0 = []" using assms by simp_all
  obtain inner w' where r: "resolve_authority crc (ge_authoritative_generation e) ?w0 = (Inr (g, inner), w')"
    "gw_lock w' = gw_lock ?w0" "gw_faults w' = []" "gen_holds crc (gw_entries w') g ms []" "log_holds crc inner ms"
    "log_invar crc inner" "le_path inner = Some (canonical_generation_name g)"
    "le_path_ownership inner = OwnGenerationManaged"
    by (rule resolve_ok [OF h0 assms(5)])
  let ?e = "e\<lparr>ge_authoritative_generation := g, ge_inner := inner, ge_poisoned := False\<rparr>"
  have "reopen_routed crc (e, ?w0) = (Inr (), ?e, w')" using r(1) by (simp add: reopen_routed_def)
  from leased_run [where body = "reopen_routed crc", OF assms(1-3) this] r(2,3)
  have run: "gen_reopen crc owner (e, w) = (Inr (), ?e, w'\<lparr>gw_lock := None\<rparr>)" by (simp add: gen_reopen_def)
  have "gen_synced crc (?e, w'\<lparr>gw_lock := None\<rparr>) g ms" using r by (simp add: gen_synced_def)
  with run show thesis by (rule that) simp
qed

lemma gen_reopen_ok:
  assumes "gen_invar crc owner (e, w)"
  shows "\<exists>s'. gen_reopen crc owner (e, w) = (Inr (), s') \<and> gen_invar crc owner s' \<and>
    gen_abs crc s' = gen_abs crc (e, w) \<and> (\<forall>n. gen_room crc n s' \<longleftrightarrow> gen_room crc n (e, w))"
proof -
  obtain g ms rest where c: "gen_current crc (e, w) g ms rest" and l: "gw_lock w = None"
    "length owner \<le> MAX_GENERATION_WRITER_LOCK_BYTES"
    using assms by (auto simp: gen_invar_def)
  then have h: "gw_faults w = []" "gen_holds crc (gw_entries w) g ms rest" "ge_authoritative_generation e \<le> g"
    by (simp_all add: gen_current_def)
  obtain e' w' where r: "gen_reopen crc owner (e, w) = (Inr (), e', w')" "gen_synced crc (e', w') g ms"
    "gw_lock w' = None"
    by (rule gen_reopen_run [OF h(1) l h(2,3)])
  have h2: "gen_holds crc (gw_entries w') g ms []" using r(2) by (simp add: gen_synced_def)
  have "gen_invar crc owner (e', w')" using gen_synced_current [OF r(2)] r(3) l(2) by (auto simp: gen_invar_def)
  with r(1) show ?thesis
    using gen_holds_content [OF h2] gen_holds_content [OF h(2)] gen_room_holds [OF h2] gen_room_holds [OF h(2)]
    by (auto simp: gen_abs_def)
qed

interpretation gen_kv: kv_model "gen_ops crc owner" "gen_invar crc owner" "gen_room crc" "gen_abs crc" "\<lambda>_ _. True"
  for crc owner
proof
  fix s :: gen_state and n :: nat and k v :: bytes
  obtain e w where s: "s = (e, w)" by force
  show "common_contract (op_capabilities (gen_ops crc owner) s)"
    by (simp add: s gen_ops_def log_capabilities_def common_contract_def)
  assume inv: "gen_invar crc owner s" and room: "gen_room crc (Suc n) s"
  obtain g ms rest e1 w1 where op: "gen_holds crc (gw_entries w) g ms rest" "gen_synced crc (e1, w1) g ms"
    and run: "\<And>(op :: (gen_state, db_error, bytes option) act) r e2 w2 ms2. \<lbrakk>op (e1, w1) = (r, e2, w2); gen_synced crc (e2, w2) g ms2; gw_lock w2 = gw_lock w1\<rbrakk> \<Longrightarrow>
       \<exists>s'. with_operation_lease owner (sbind (refresh_authority crc) (\<lambda>_. op)) (e, w) = (r, s') \<and>
         gen_invar crc owner s' \<and> gen_abs crc s' = log_replay om_empty ms2 \<and>
         (\<forall>n. gen_room crc n s' \<longleftrightarrow> 1 + length ms2 + n \<le> u64_max \<and>
            length (log_image crc ms2) + n * 1052704 \<le> u64_max)"
    using leased_op [OF inv [unfolded s]] by blast
  have abs: "gen_abs crc s = log_replay om_empty ms" using gen_holds_content [OF op(1)] by (simp add: s gen_abs_def)
  have fits: "1 + length ms + Suc n \<le> u64_max" "length (log_image crc ms) + Suc n * 1052704 \<le> u64_max"
    using room gen_room_holds [OF op(1)] by (simp_all add: s)
  then have inner: "log_room (Suc n) (ge_inner e1)" by (intro gen_synced_room [OF op(2)])
  have grown: "1 + length (ms @ [m]) + n \<le> u64_max" "length (log_image crc (ms @ [m])) + n * 1052704 \<le> u64_max"
    if "record_wf m" for m
    using fits log_record_length_bound [OF that, of crc "1 + length ms"] by (simp_all add: log_image_snoc)
  {
    assume valid: "validate_key_value k v = Inr ()"
    then have wf: "record_wf (MPut, k, v)" by (simp add: record_wf_def result_iff)
    obtain e2 w2 where put: "on_inner (\<lambda>i. log_put crc None i k v) (e1, w1) =
        (Inr (om_lookup (log_replay om_empty ms) k), e2, w2)"
      "gen_synced crc (e2, w2) g (ms @ [(MPut, k, v)])" "gw_lock w2 = gw_lock w1"
      by (rule inner_put_ok [OF op(2) inner valid])
    show "\<exists>s'. op_put (gen_ops crc owner) s k v = (Inr (om_lookup (gen_abs crc s) k), s') \<and> gen_invar crc owner s' \<and>
        gen_room crc n s' \<and> gen_abs crc s' = om_insert k v (gen_abs crc s)"
      using run [where op = "on_inner (\<lambda>i. log_put crc None i k v)", OF put] grown [OF wf] abs
      by (auto simp: s gen_ops_def gen_put_def log_replay_snoc)
  }
  {
    assume valid: "validate_key k = Inr ()"
    have get: "on_inner (\<lambda>i. log_get i k) (e1, w1) = (Inr (om_lookup (log_replay om_empty ms) k), e1, w1)"
      by (rule inner_get_ok [OF op(2) valid])
    show "\<exists>s'. op_get (gen_ops crc owner) s k = (Inr (om_lookup (gen_abs crc s) k), s') \<and> gen_invar crc owner s' \<and>
        gen_room crc n s' \<and> gen_abs crc s' = gen_abs crc s"
      using run [where op = "on_inner (\<lambda>i. log_get i k)", OF get op(2) refl] fits abs
      by (auto simp: s gen_ops_def gen_get_def)
  }
  {
    assume valid: "validate_key k = Inr ()"
    then have wf: "record_wf (MDelete, k, [])" by (simp add: record_wf_def result_iff)
    obtain e2 w2 where del: "on_inner (\<lambda>i. log_delete crc None i k) (e1, w1) =
        (Inr (om_lookup (log_replay om_empty ms) k), e2, w2)"
      "gen_synced crc (e2, w2) g (ms @ [(MDelete, k, [])])" "gw_lock w2 = gw_lock w1"
      by (rule inner_delete_ok [OF op(2) inner valid])
    show "\<exists>s'. op_delete (gen_ops crc owner) s k = (Inr (om_lookup (gen_abs crc s) k), s') \<and> gen_invar crc owner s' \<and>
        gen_room crc n s' \<and> gen_abs crc s' = om_remove k (gen_abs crc s)"
      using run [where op = "on_inner (\<lambda>i. log_delete crc None i k)", OF del] grown [OF wf] abs
      by (auto simp: s gen_ops_def gen_delete_def log_replay_snoc)
  }
  have less: "gen_room crc n s" using gen_room_holds [OF op(1), of n e] fits by (simp add: s)
  show "\<exists>s'. op_reopen (gen_ops crc owner) s = (Inr (), s') \<and> gen_invar crc owner s' \<and>
      gen_room crc n s' \<and> gen_abs crc s' = gen_abs crc s"
    using gen_reopen_ok [OF inv [unfolded s]] less by (auto simp: s gen_ops_def)
qed

interpretation mem_gen: kv_engine_pair memory_ops "\<lambda>_. True" "\<lambda>_ _. True" mem_values "\<lambda>_ _. True"
    "gen_ops crc owner" "gen_invar crc owner" "gen_room crc" "gen_abs crc" "\<lambda>_ _. True" for crc owner
  by unfold_locales



subsection \<open>Opening\<close>

text \<open>A fault-free, unleased world whose directory verifies opens to a handle in its invariant.\<close>

lemma gen_open_ok:
  assumes "gw_faults w = []" "gw_lock w = None" "length owner \<le> MAX_GENERATION_WRITER_LOCK_BYTES"
    and "gen_holds crc (gw_entries w) g ms rest"
  obtains e w1 where "gen_open crc owner w = (Inr e, w1)" "gen_synced crc (e, w1) g ms" "gw_lock w1 = None"
proof -
  let ?w0 = "w\<lparr>gw_lock := Some (RegularFile owner)\<rparr>"
  have h0: "gen_holds crc (gw_entries ?w0) g ms rest" "gw_faults ?w0 = []" using assms by simp_all
  obtain inner w' where r: "resolve_authority crc 0 ?w0 = (Inr (g, inner), w')"
    "gw_lock w' = gw_lock ?w0" "gw_faults w' = []" "gen_holds crc (gw_entries w') g ms []" "log_holds crc inner ms"
    "log_invar crc inner" "le_path inner = Some (canonical_generation_name g)"
    "le_path_ownership inner = OwnGenerationManaged"
    by (rule resolve_ok [OF h0 le0])
  let ?e = "\<lparr>ge_authoritative_generation = g, ge_inner = inner, ge_poisoned = False\<rparr>"
  have acq: "acquire_generation_writer_lease owner w = (Inr owner, ?w0)"
    using assms by (simp add: acquire_generation_writer_lease_def)
  have "gen_open crc owner w = (Inr ?e, w'\<lparr>gw_lock := None\<rparr>)"
    using r(1-3) assms(3)
    by (simp add: gen_open_def with_lease_def sbind_def smap_err_def acq sret_def
        release_generation_writer_lease_def read_lock_record_if_present_def)
  moreover have "gen_synced crc (?e, w'\<lparr>gw_lock := None\<rparr>) g ms" using r by (simp add: gen_synced_def)
  ultimately show thesis by (rule that) simp
qed

text \<open>C20 (diff_gen): a routed engine opened on any directory that verifies starts from the map its
  authoritative log holds, and the differential harness accepts every valid workload that fits the
  log against an oracle holding that map: no mismatch, no engine error, and what the directory
  holds afterwards is the state of the abstract map.\<close>

theorem memory_gen_differential:
  assumes "gw_faults w = []" "gw_lock w = None" "length owner \<le> MAX_GENERATION_WRITER_LOCK_BYTES"
    and "verify_generation_directory crc (gw_entries w) = Inr v" "files_fit (gw_entries w)"
  shows "\<exists>e w1. gen_open crc owner w = (Inr e, w1) \<and>
    ge_authoritative_generation e = gs_authoritative_generation v \<and>
    gen_content crc (gw_entries w1) = gen_content crc (gw_entries w) \<and>
    (\<forall>wl. workload_validate wl = Inr () \<longrightarrow> gen_room crc (length (wl_steps wl)) (e, w1) \<longrightarrow>
      (\<exists>l s'. compare_workload memory_ops (gen_ops crc owner)
           \<lparr>mem_values = gen_content crc (gw_entries w)\<rparr> (e, w1) wl =
         (Inr \<lparr>steps_checked = length (wl_steps wl)\<rparr>, l, s') \<and>
       gen_content crc (gw_entries (snd s')) =
         snd (spec_steps (gen_content crc (gw_entries w)) (wl_steps wl))))"
proof -
  have "verifies_as crc (gw_entries w) (gs_authoritative_generation v) (gs_committed_prefix v)"
    using assms(4) by (simp add: verifies_as_def)
  then obtain ms rest where h: "gen_holds crc (gw_entries w) (gs_authoritative_generation v) ms rest"
    using assms(5) by (rule gen_holds_ex)
  then obtain e w1 where o: "gen_open crc owner w = (Inr e, w1)"
    "gen_synced crc (e, w1) (gs_authoritative_generation v) ms" "gw_lock w1 = None"
    by (rule gen_open_ok [OF assms(1-3)])
  have h1: "gen_holds crc (gw_entries w1) (gs_authoritative_generation v) ms []"
    "ge_authoritative_generation e = gs_authoritative_generation v"
    using o(2) by (simp_all add: gen_synced_def)
  have same: "gen_content crc (gw_entries w1) = gen_content crc (gw_entries w)"
    using gen_holds_content [OF h1(1)] gen_holds_content [OF h] by simp
  have inv: "gen_invar crc owner (e, w1)"
    using gen_synced_current [OF o(2)] o(3) assms(3) by (auto simp: gen_invar_def)
  have "\<exists>l s'. compare_workload memory_ops (gen_ops crc owner)
           \<lparr>mem_values = gen_content crc (gw_entries w)\<rparr> (e, w1) wl =
         (Inr \<lparr>steps_checked = length (wl_steps wl)\<rparr>, l, s') \<and>
       gen_content crc (gw_entries (snd s')) =
         snd (spec_steps (gen_content crc (gw_entries w)) (wl_steps wl))"
    if "workload_validate wl = Inr ()" "gen_room crc (length (wl_steps wl)) (e, w1)" for wl
    using mem_gen.compare_workload_agrees [where l = "\<lparr>mem_values = gen_content crc (gw_entries w)\<rparr>"
        and crc = crc and owner = owner, OF TrueI TrueI inv that(2) _ that(1)] same
    by (fastforce simp: gen_abs_def)
  with o(1) h1(2) same show ?thesis by blast
qed


text \<open>A world around one generation whose log holds nothing yet.\<close>

definition single_world :: "(bytes \<Rightarrow> 32 word) \<Rightarrow> gen_world" where
  "single_world crc = \<lparr>gw_entries = single_generation_dir crc 1 [], gw_lock = None, gw_faults = []\<rparr>"

lemma single_world_holds: "gen_holds crc (gw_entries (single_world crc)) 1 [] []"
proof -
  have "log_file_holds crc (log_image crc []) [] []"
    by (rule log_file_holds_image) (simp_all add: u64_max_def log_image_def)
  then show ?thesis
    using empty_generation_dir [of crc] unfolding gen_holds_def single_world_def by auto
qed

lemma single_world_opens:
  assumes "length owner \<le> MAX_GENERATION_WRITER_LOCK_BYTES"
  obtains e w1 where "gen_open crc owner (single_world crc) = (Inr e, w1)" "gen_synced crc (e, w1) 1 []"
    "gw_lock w1 = None"
  using gen_open_ok [OF _ _ assms single_world_holds, of crc] by (auto simp: single_world_def)

lemma single_world_room:
  assumes "gen_synced crc (e, w1) 1 []" "n \<le> MAX_WORKLOAD_STEPS"
  shows "gen_room crc n (e, w1)"
proof -
  have h: "gen_holds crc (gw_entries w1) 1 [] []" using assms(1) by (simp add: gen_synced_def)
  show ?thesis
    using assms(2) by (simp add: gen_room_holds [OF h] log_image_def u64_max_def MAX_WORKLOAD_STEPS_def)
qed

lemma memory_gen_differential_witness:
  "\<exists>e w1 l s'. gen_open (\<lambda>_. 0) [7] (single_world (\<lambda>_. 0)) = (Inr e, w1) \<and>
    compare_workload memory_ops (gen_ops (\<lambda>_. 0) [7]) \<lparr>mem_values = om_empty\<rparr> (e, w1)
        \<lparr>wl_format_version = 1, wl_seed = None, wl_steps = [Put [1] [2], Reopen, Get [1]]\<rparr> =
      (Inr \<lparr>steps_checked = 3\<rparr>, l, s') \<and>
    gen_content (\<lambda>_. 0) (gw_entries (snd s')) = om_insert [1] [2] om_empty"
proof -
  let ?c = "\<lambda>_. 0 :: 32 word" and ?wl = "\<lparr>wl_format_version = 1, wl_seed = None, wl_steps = [Put [1] [2], Reopen, Get [1]]\<rparr>"
  have own: "length [7 :: byte] \<le> MAX_GENERATION_WRITER_LOCK_BYTES" by (simp add: MAX_GENERATION_WRITER_LOCK_BYTES_def)
  obtain e w1 where o: "gen_open ?c [7] (single_world ?c) = (Inr e, w1)" "gen_synced ?c (e, w1) 1 []"
    by (rule single_world_opens [OF own])
  obtain v where v: "verify_generation_directory ?c (gw_entries (single_world ?c)) = Inr v"
    by (rule gen_holds_verify [OF single_world_holds])
  have wl: "workload_validate ?wl = Inr ()"
    by (simp add: result_iff WORKLOAD_FORMAT_VERSION_def MAX_WORKLOAD_STEPS_def MAX_KEY_BYTES_def MAX_VALUE_BYTES_def)
  have "gen_room ?c (length (wl_steps ?wl)) (e, w1)"
    by (rule single_world_room [OF o(2)]) (simp add: MAX_WORKLOAD_STEPS_def)
  moreover have "gen_content ?c (gw_entries (single_world ?c)) = om_empty"
    using gen_holds_content [OF single_world_holds [of ?c]] by simp
  ultimately show ?thesis
    using memory_gen_differential [OF _ _ own v gen_holds_file(8) [OF single_world_holds]] wl o(1)
    by (fastforce simp: single_world_def)
qed



subsection \<open>Two handles on one generation\<close>

lemma synced_get_run:
  assumes "gen_synced crc (e, w) g ms" "gw_lock w = None" "length owner \<le> MAX_GENERATION_WRITER_LOCK_BYTES"
    and "gen_room crc 1 (e, w)" "validate_key k = Inr ()"
  shows "fst (gen_get crc owner (e, w) k) = Inr (om_lookup (log_replay om_empty ms) k)"
proof -
  have h: "gen_holds crc (gw_entries w) g ms []" using assms(1) by (simp add: gen_synced_def)
  have inv: "gen_invar crc owner (e, w)"
    using gen_synced_current [OF assms(1)] assms(2,3) by (auto simp: gen_invar_def)
  show ?thesis
    using gen_kv.get_ok [of crc owner "(e, w)" 0 k, OF inv _ assms(5)] assms(4) gen_holds_content [OF h]
    by (auto simp: gen_ops_def gen_abs_def)
qed

text \<open>A handle whose log another handle has extended: the marker frontier has not moved, so the
  refresh lets it pass with its old index.\<close>

lemma behind_run:
  assumes "gen_synced crc (b, w) g ms" "gen_holds crc (gw_entries w') g ms' []" "gw_faults w' = []" "gw_lock w' = None"
    and "length owner \<le> MAX_GENERATION_WRITER_LOCK_BYTES"
    and "op ((ge_inner b)\<lparr>le_disk := log_image crc ms'\<rparr>) = (r, inner')" "le_disk inner' = log_image crc ms'"
  shows "with_operation_lease owner (sbind (refresh_authority crc) (\<lambda>_. on_inner op)) (b, w') =
    (r, b\<lparr>ge_inner := inner'\<rparr>, w')"
proof -
  let ?n = "canonical_generation_name g" and ?w0 = "w'\<lparr>gw_lock := Some (RegularFile owner)\<rparr>"
  have b: "\<not> ge_poisoned b" "ge_authoritative_generation b = g" "le_path (ge_inner b) = Some ?n"
    using assms(1) by (simp_all add: gen_synced_def)
  have entry: "om_lookup (gw_entries w') ?n = Some (RegularFile (log_image crc ms'))"
    using gen_holds_file(1) [OF assms(2)] by simp
  obtain ns where ns: "scan_generation_namespace (gw_entries w') = Inr ns" "last_key (ns_marker_files ns) = Some g"
    using gen_holds_last_key [OF assms(2)] .
  have "refresh_authority crc (b, ?w0) = (Inr (), b, ?w0)"
    using b(1,2) ns by (simp add: refresh_authority_def)
  moreover have "on_inner op (b, ?w0) = (r, b\<lparr>ge_inner := inner'\<rparr>, ?w0)"
    using entry assms(6,7) by (simp add: on_inner_def b(3) gw_file_def om_insert_same)
  ultimately have "sbind (refresh_authority crc) (\<lambda>_. on_inner op) (b, ?w0) = (r, b\<lparr>ge_inner := inner'\<rparr>, ?w0)"
    by (simp add: sbind_def)
  from leased_run [where body = "sbind (refresh_authority crc) (\<lambda>_. on_inner op)", OF assms(3-5) this] assms(3,4)
  show ?thesis by simp
qed

text \<open>The acknowledged put of the first handle.\<close>

lemma synced_put_run:
  assumes "gen_synced crc (a, w) g ms" "gw_lock w = None" "length owner \<le> MAX_GENERATION_WRITER_LOCK_BYTES"
    and "log_room (Suc 0) (ge_inner a)" "validate_key_value k v = Inr ()"
  obtains a' w' where "gen_put crc None owner (a, w) k v = (Inr (om_lookup (log_replay om_empty ms) k), a', w')"
    "gen_holds crc (gw_entries w') g (ms @ [(MPut, k, v)]) []" "gw_faults w' = []" "gw_lock w' = None"
    "le_disk (ge_inner a') = log_image crc (ms @ [(MPut, k, v)])"
proof -
  let ?ms' = "ms @ [(MPut, k, v)]" and ?w0 = "w\<lparr>gw_lock := Some (RegularFile owner)\<rparr>"
  have h: "gen_holds crc (gw_entries w) g ms []" "gw_faults w = []" using assms(1) by (simp_all add: gen_synced_def)
  have "gen_synced crc (a, ?w0) g ms" using assms(1) by simp
  then obtain a' w1 where put0: "on_inner (\<lambda>i. log_put crc None i k v) (a, ?w0) =
      (Inr (om_lookup (log_replay om_empty ms) k), a', w1)" "gen_synced crc (a', w1) g ?ms'" "gw_lock w1 = gw_lock ?w0"
    by (rule inner_put_ok [OF _ assms(4,5)])
  obtain ns where ns: "scan_generation_namespace (gw_entries w) = Inr ns" "last_key (ns_marker_files ns) = Some g"
    using gen_holds_last_key [OF h(1)] .
  have "refresh_authority crc (a, ?w0) = (Inr (), a, ?w0)"
    using assms(1) ns by (simp add: refresh_authority_def gen_synced_def)
  then have run0: "sbind (refresh_authority crc) (\<lambda>_. on_inner (\<lambda>i. log_put crc None i k v)) (a, ?w0) =
      (Inr (om_lookup (log_replay om_empty ms) k), a', w1)"
    using put0(1) by (simp add: sbind_def)
  have q: "gw_faults w1 = []" using put0(2) by (simp add: gen_synced_def)
  have "gen_put crc None owner (a, w) k v = (Inr (om_lookup (log_replay om_empty ms) k), a', w1\<lparr>gw_lock := None\<rparr>)"
    using leased_run [where body = "sbind (refresh_authority crc) (\<lambda>_. on_inner (\<lambda>i. log_put crc None i k v))",
        OF h(2) assms(2,3) run0] put0(3) q
    by (simp add: gen_put_def)
  then show thesis by (rule that) (use put0(2) in \<open>simp_all add: gen_synced_def log_holds_def\<close>)
qed

text \<open>A handle that is behind answers reads from its own index and has its puts refused.\<close>

lemma behind_answers:
  assumes "gen_synced crc (b, w) g ms" "gen_holds crc (gw_entries w') g ms' []" "gw_faults w' = []" "gw_lock w' = None"
    and "length owner \<le> MAX_GENERATION_WRITER_LOCK_BYTES"
  shows "validate_key k = Inr () \<Longrightarrow> gen_get crc owner (b, w') k = (Inr (om_lookup (log_replay om_empty ms) k),
      b\<lparr>ge_inner := (ge_inner b)\<lparr>le_disk := log_image crc ms'\<rparr>\<rparr>, w')"
    and "log_room 1 (ge_inner b) \<Longrightarrow> validate_key_value k v = Inr () \<Longrightarrow>
      length (log_image crc ms') \<noteq> length (log_image crc ms) \<Longrightarrow>
      gen_put crc fault owner (b, w') k v = (Inl (Corruption (length (log_image crc ms'))),
        b\<lparr>ge_inner := (ge_inner b)\<lparr>le_disk := log_image crc ms', le_poisoned := True\<rparr>\<rparr>, w')"
proof -
  have b: "log_invar crc (ge_inner b)" "le_values (ge_inner b) = log_replay om_empty ms" "le_disk (ge_inner b) = log_image crc ms"
    using assms(1) by (simp_all add: gen_synced_def log_holds_def)
  have "log_get ((ge_inner b)\<lparr>le_disk := log_image crc ms'\<rparr>) k =
      (Inr (om_lookup (log_replay om_empty ms) k), (ge_inner b)\<lparr>le_disk := log_image crc ms'\<rparr>)" if "validate_key k = Inr ()"
    using b(1,2) that by (simp add: log_get_def log_ensure_usable_def log_invar_def)
  from behind_run [where op = "\<lambda>i. log_get i k", OF assms this]
  show "validate_key k = Inr () \<Longrightarrow> gen_get crc owner (b, w') k = (Inr (om_lookup (log_replay om_empty ms) k),
      b\<lparr>ge_inner := (ge_inner b)\<lparr>le_disk := log_image crc ms'\<rparr>\<rparr>, w')"
    by (simp add: gen_get_def)
  assume r: "log_room 1 (ge_inner b)" "validate_key_value k v = Inr ()" "length (log_image crc ms') \<noteq> length (log_image crc ms)"
  then have longer: "length (log_image crc ms') \<noteq> length (le_disk (ge_inner b))" by (simp add: b(3))
  show "gen_put crc fault owner (b, w') k v = (Inl (Corruption (length (log_image crc ms'))),
      b\<lparr>ge_inner := (ge_inner b)\<lparr>le_disk := log_image crc ms', le_poisoned := True\<rparr>\<rparr>, w')"
    using behind_run [where op = "\<lambda>i. log_put crc fault i k v", OF assms
        log_put_detects_tampering [OF b(1) r(1,2) disjI1 [OF longer]]] longer
    by (simp add: gen_put_def)
qed

text \<open>C34 (gen_handles): two handles follow the same generation.  Once a put through the first is
  acknowledged, the second still answers reads from its old index, although the put is on disk and
  both operations held the lease; every put it tries is refused as corruption before a byte is
  written, so nothing is lost; and reopening it makes the put visible.\<close>

theorem second_handle_reads_stale:
  assumes "gen_synced crc (a, w) g ms" "gen_synced crc (b, w) g ms" "gw_lock w = None"
    and "length owner \<le> MAX_GENERATION_WRITER_LOCK_BYTES" "gen_room crc 2 (a, w)" "validate_key_value k v = Inr ()"
  shows "\<exists>a' w'. gen_put crc None owner (a, w) k v = (Inr (om_lookup (gen_content crc (gw_entries w)) k), a', w') \<and>
    gen_content crc (gw_entries w') = om_insert k v (gen_content crc (gw_entries w)) \<and>
    gen_get crc owner (b, w') k =
      (Inr (om_lookup (gen_content crc (gw_entries w)) k),
       b\<lparr>ge_inner := (ge_inner b)\<lparr>le_disk := le_disk (ge_inner a')\<rparr>\<rparr>, w') \<and>
    (\<forall>fault k2 v2. validate_key_value k2 v2 = Inr () \<longrightarrow>
       (\<exists>b'. gen_put crc fault owner (b, w') k2 v2 = (Inl (Corruption (length (le_disk (ge_inner a')))), b', w'))) \<and>
    (\<exists>b' w2. gen_reopen crc owner (b, w') = (Inr (), b', w2) \<and> fst (gen_get crc owner (b', w2) k) = Inr (Some v))"
proof -
  let ?ms' = "ms @ [(MPut, k, v)]"
  have h: "gen_holds crc (gw_entries w) g ms []" using assms(1) by (simp add: gen_synced_def)
  have wf: "record_wf (MPut, k, v)" "validate_key k = Inr ()" using assms(6) by (simp_all add: record_wf_def result_iff)
  have room: "1 + length ms + 2 \<le> u64_max" "length (log_image crc ms) + 2 * 1052704 \<le> u64_max"
    using assms(5) by (simp_all add: gen_room_holds [OF h])
  have inner: "log_room (Suc 0) (ge_inner a)" "log_room 1 (ge_inner b)"
    by (rule gen_synced_room [OF assms(1)], use room in simp_all) (rule gen_synced_room [OF assms(2)], use room in simp_all)
  obtain a' w' where put: "gen_put crc None owner (a, w) k v = (Inr (om_lookup (log_replay om_empty ms) k), a', w')"
    and h': "gen_holds crc (gw_entries w') g ?ms' []" "gw_faults w' = []" "gw_lock w' = None"
    and disk: "le_disk (ge_inner a') = log_image crc ?ms'"
    by (rule synced_put_run [OF assms(1,3,4) inner(1) assms(6)])
  note behind = behind_answers [OF assms(2) h' assms(4)]
  have "ge_authoritative_generation b \<le> g" using assms(2) by (simp add: gen_synced_def)
  then obtain b' w2 where re: "gen_reopen crc owner (b, w') = (Inr (), b', w2)" "gen_synced crc (b', w2) g ?ms'" "gw_lock w2 = None"
    by (rule gen_reopen_run [OF h'(2,3) assms(4) h'(1)])
  have h2: "gen_holds crc (gw_entries w2) g ?ms' []" using re(2) by (simp add: gen_synced_def)
  have "gen_room crc 1 (b', w2)"
    unfolding gen_room_holds [OF h2] using room log_record_length_bound [OF wf(1), of crc "1 + length ms"] by (simp add: log_image_snoc)
  then have "fst (gen_get crc owner (b', w2) k) = Inr (Some v)"
    using synced_get_run [OF re(2,3) assms(4) _ wf(2)] by (simp add: log_replay_snoc)
  with re(1) have fresh: "\<exists>b' w2. gen_reopen crc owner (b, w') = (Inr (), b', w2) \<and>
      fst (gen_get crc owner (b', w2) k) = Inr (Some v)" by blast
  have content: "gen_content crc (gw_entries w') = om_insert k v (gen_content crc (gw_entries w))"
    using gen_holds_content [OF h'(1)] gen_holds_content [OF h] by (simp add: log_replay_snoc)
  have "length (log_image crc ?ms') \<noteq> length (log_image crc ms)" by (simp add: log_image_snoc)
  then show ?thesis
    using put behind(1) [OF wf(2)] behind(2) [OF inner(2)] fresh content gen_holds_content [OF h]
    by (intro exI [of _ a'] exI [of _ w']) (simp add: disk)
qed


lemma second_handle_reads_stale_witness:
  "\<exists>e w a' w'. gen_open (\<lambda>_. 0) [7] (single_world (\<lambda>_. 0)) = (Inr e, w) \<and>
    gen_put (\<lambda>_. 0) None [7] (e, w) [1] [2] = (Inr None, a', w') \<and>
    gen_content (\<lambda>_. 0) (gw_entries w') = om_insert [1] [2] om_empty \<and>
    fst (gen_get (\<lambda>_. 0) [7] (e, w') [1]) = Inr None"
proof -
  let ?c = "\<lambda>_. 0 :: 32 word"
  have own: "length [7 :: byte] \<le> MAX_GENERATION_WRITER_LOCK_BYTES" by (simp add: MAX_GENERATION_WRITER_LOCK_BYTES_def)
  obtain e w where o: "gen_open ?c [7] (single_world ?c) = (Inr e, w)" "gen_synced ?c (e, w) 1 []" "gw_lock w = None"
    by (rule single_world_opens [OF own])
  have room: "gen_room ?c 2 (e, w)" by (rule single_world_room [OF o(2)]) (simp add: MAX_WORKLOAD_STEPS_def)
  have valid: "validate_key_value [1] [2] = Inr ()" by (simp add: result_iff MAX_KEY_BYTES_def MAX_VALUE_BYTES_def)
  have "gen_holds ?c (gw_entries w) 1 [] []" using o(2) by (simp add: gen_synced_def)
  then have "gen_content ?c (gw_entries w) = om_empty" by (simp add: gen_holds_content)
  then show ?thesis
    using second_handle_reads_stale [OF o(2,2,3) own room valid] o(1) by fastforce
qed


subsection \<open>Appends that fail\<close>

lemma log_put_extends:
  assumes "log_put crc fault e k v = (r, e')"
  shows "\<exists>suf. le_disk e' = le_disk e @ suf" "le_path e' = le_path e" "le_path_ownership e' = le_path_ownership e"
  using assms
  by (auto simp: log_put_def log_append_def Let_def split: sum.splits prod.splits option.splits if_splits)

lemma log_put_length:
  assumes "log_put crc fault e k v = (r, e')" "length (le_disk e) \<le> u64_max"
  shows "length (le_disk e') \<le> u64_max"
  using assms
  by (auto simp: log_put_def log_append_def Let_def result_iff checked_add64_def min_def
      split: sum.splits prod.splits option.splits if_splits)

lemma log_delete_extends:
  assumes "log_delete crc fault e k = (r, e')"
  shows "\<exists>suf. le_disk e' = le_disk e @ suf" "le_path e' = le_path e" "le_path_ownership e' = le_path_ownership e"
  using assms
  by (auto simp: log_delete_def log_append_def Let_def split: sum.splits prod.splits option.splits if_splits)

lemma gen_authority_verify:
  "gen_holds crc (gw_entries w) g ms rest \<Longrightarrow>
     \<exists>v. verify_generation_directory crc (gw_entries w) = Inr v \<and> gs_authoritative_generation v = g"
  by (metis gen_holds_verify)


text \<open>A routed put whose append tears: the directory holds the old records or those and the new
  one, and the handle is poisoned.\<close>

lemma gen_put_torn:
  assumes "gen_invar crc owner (e, w)" "gen_room crc 1 (e, w)" "validate_key_value k v = Inr ()"
  obtains e' w' g ms rest ms' rest' where
    "gen_put crc (Some (n, err)) owner (e, w) k v = (Inl (Io err), e', w')"
    "gw_faults w' = []" "gw_lock w' = None" "length owner \<le> MAX_GENERATION_WRITER_LOCK_BYTES"
    "gen_holds crc (gw_entries w) g ms rest" "gen_holds crc (gw_entries w') g ms' rest'"
    "gen_content crc (gw_entries w') =
      (if 32 + length k + length v \<le> n then om_insert k v (gen_content crc (gw_entries w))
       else gen_content crc (gw_entries w))"
    "\<not> ge_poisoned e'" "ge_authoritative_generation e' = g" "le_poisoned (ge_inner e')"
    "le_path (ge_inner e') = Some (canonical_generation_name g)"
    "gw_file w' (canonical_generation_name g) = Some (RegularFile (le_disk (ge_inner e')))"
proof -
  let ?w0 = "w\<lparr>gw_lock := Some (RegularFile owner)\<rparr>"
  obtain g ms rest where c: "gen_current crc (e, w) g ms rest" and l: "gw_lock w = None"
    "length owner \<le> MAX_GENERATION_WRITER_LOCK_BYTES"
    using assms(1) by (auto simp: gen_invar_def)
  then have h: "gw_faults w = []" "gen_holds crc (gw_entries w) g ms rest" by (simp_all add: gen_current_def)
  let ?n = "canonical_generation_name g"
  have room: "1 + length ms + 1 \<le> u64_max" "length (log_image crc ms) + 1 * 1052704 \<le> u64_max"
    using assms(2) by (simp_all add: gen_room_holds [OF h(2)])
  have "gen_current crc (e, ?w0) g ms rest" using c by simp
  then obtain e1 w1 where r: "refresh_authority crc (e, ?w0) = (Inr (), e1, w1)" "gen_synced crc (e1, w1) g ms"
    "gw_lock w1 = gw_lock ?w0"
    by (rule refresh_ok)
  have i: "log_invar crc (ge_inner e1)" "log_holds crc (ge_inner e1) ms" "le_path (ge_inner e1) = Some ?n"
    "gen_holds crc (gw_entries w1) g ms []" "gw_faults w1 = []" "\<not> ge_poisoned e1" "ge_authoritative_generation e1 = g"
    using r(2) by (simp_all add: gen_synced_def)
  have inner_room: "log_room 1 (ge_inner e1)" by (rule gen_synced_room [OF r(2) room])
  obtain d e2 where put: "log_put crc (Some (n, err)) (ge_inner e1) k v =
        (Inl (Io err), (ge_inner e1)\<lparr>le_poisoned := True, le_disk := d\<rparr>)"
    and again: "log_from_file crc (le_path (ge_inner e1)) (le_path_ownership (ge_inner e1)) d False = (Inr e2, le_disk e2)"
      "le_values e2 = (if 32 + length k + length v \<le> n then om_insert k v (le_values (ge_inner e1))
         else le_values (ge_inner e1))"
    using log_put_faulted [OF i(1) inner_room assms(3), of n err] by blast
  obtain suf where suf: "d = log_image crc ms @ suf"
    using log_put_extends(1) [OF put] i(2) by (auto simp: log_holds_def)
  obtain sc where sc: "log_scan_file crc d = Inr sc" "le_values e2 = sc_values sc"
    using again(1) by (auto simp: log_from_file_def Let_def split: sum.splits if_splits)
  obtain ms' rest' where d: "log_file_holds crc d ms' rest'" by (rule log_file_holds_scan [OF sc(1)])
  then have vals: "log_replay om_empty ms' = le_values e2" using sc by (auto simp: log_file_holds_def)
  have short: "length d \<le> u64_max" using log_put_length [OF put] i(2) by (auto simp: log_holds_def)
  let ?d = "om_insert ?n (RegularFile d) (gw_entries w1)"
  have h1: "gen_holds crc ?d g ms' rest'"
    by (rule gen_holds_replace [OF i(4) d short]) (use suf in blast)
  define e' where "e' = e1\<lparr>ge_inner := (ge_inner e1)\<lparr>le_poisoned := True, le_disk := d\<rparr>\<rparr>"
  define w' where "w' = w1\<lparr>gw_entries := ?d, gw_lock := None\<rparr>"
  have run0: "sbind (refresh_authority crc) (\<lambda>_. on_inner (\<lambda>i. log_put crc (Some (n, err)) i k v)) (e, ?w0) =
      (Inl (Io err), e', w1\<lparr>gw_entries := ?d\<rparr>)"
    using r(1) by (simp add: sbind_def on_inner_synced [OF r(2)] put e'_def)
  have run: "gen_put crc (Some (n, err)) owner (e, w) k v = (Inl (Io err), e', w')"
    using leased_run [where body = "sbind (refresh_authority crc) (\<lambda>_. on_inner (\<lambda>i. log_put crc (Some (n, err)) i k v))",
        OF h(1) l run0] r(3) i(5)
    by (simp add: gen_put_def w'_def)
  have w': "gw_faults w' = []" "gw_lock w' = None" "gen_holds crc (gw_entries w') g ms' rest'"
    using i(5) h1 by (simp_all add: w'_def)
  have content: "gen_content crc (gw_entries w') =
      (if 32 + length k + length v \<le> n then om_insert k v (gen_content crc (gw_entries w))
       else gen_content crc (gw_entries w))"
    using gen_holds_content [OF w'(3)] gen_holds_content [OF h(2)] vals again(2) i(2) by (simp add: log_holds_def)
  show thesis
    by (rule that [OF run w'(1,2) l(2) h(2) w'(3) content])
       (simp_all add: e'_def w'_def i(3,6,7) gw_file_def)
qed

text \<open>A handle on the current authority whose log is poisoned: an operation that checks for it is
  refused, takes and releases the lease, and changes nothing.\<close>

lemma gen_poisoned_refuses:
  assumes "gen_holds crc (gw_entries w) g ms rest" "gw_faults w = []" "gw_lock w = None"
    and "length owner \<le> MAX_GENERATION_WRITER_LOCK_BYTES"
    and "\<not> ge_poisoned e" "ge_authoritative_generation e = g" "le_poisoned (ge_inner e)"
    and "le_path (ge_inner e) = Some n" "gw_file w n = Some (RegularFile (le_disk (ge_inner e)))"
    and refused: "operation (ge_inner e) = (Inl Poisoned, ge_inner e)"
  shows "with_operation_lease owner (sbind (refresh_authority crc) (\<lambda>_. on_inner operation)) (e, w) =
    (Inl Poisoned, e, w)"
proof -
  let ?w = "w\<lparr>gw_lock := Some (RegularFile owner)\<rparr>"
  obtain ns where ns: "scan_generation_namespace (gw_entries w) = Inr ns" "last_key (ns_marker_files ns) = Some g"
    using gen_holds_last_key [OF assms(1)] .
  then have fresh: "refresh_authority crc (e, ?w) = (Inr (), e, ?w)"
    using assms(5,6) by (simp add: refresh_authority_def)
  have "om_lookup (gw_entries w) n = Some (RegularFile (le_disk (ge_inner e)))"
    using assms(9) by (simp add: gw_file_def)
  then have "on_inner operation (e, ?w) = (Inl Poisoned, e, ?w)"
    using assms(8,9) refused by (simp add: on_inner_def gw_file_def om_insert_same)
  then have "sbind (refresh_authority crc) (\<lambda>_. on_inner operation) (e, ?w) = (Inl Poisoned, e, ?w)"
    using fresh by (simp add: sbind_def)
  from leased_run [where body = "sbind (refresh_authority crc) (\<lambda>_. on_inner operation)", OF assms(2,3,4) this]
  show ?thesis using assms(2,3) by simp
qed

lemma log_poisoned_refuses:
  assumes "le_poisoned i"
  shows "validate_key k = Inr () \<Longrightarrow> log_get i k = (Inl Poisoned, i)"
    and "validate_key_value k v = Inr () \<Longrightarrow> log_put crc fault i k v = (Inl Poisoned, i)"
    and "validate_key k = Inr () \<Longrightarrow> log_delete crc fault i k = (Inl Poisoned, i)"
  using assms by (simp_all add: log_get_def log_put_def log_delete_def log_append_def log_ensure_usable_def Let_def)

text \<open>C3 (gen_crash): a routed put whose append fails after any number of its bytes reached the log
  returns that I/O error and releases the lease.  From then on, while the directory keeps its
  authority, the handle refuses every get, put and delete of a valid key and value as poisoned,
  whatever the file system would do, and these refusals change neither the handle nor the directory.
  The directory still verifies with the same authority, and holds either exactly the old map
  or, when the whole record reached the log, exactly the new one; reopening the handle succeeds and
  serves that map.\<close>

theorem gen_put_crash_atomic:
  assumes "gen_invar crc owner (e, w)" "gen_room crc 1 (e, w)" "validate_key_value k v = Inr ()"
  shows "\<exists>e' w'. gen_put crc (Some (n, err)) owner (e, w) k v = (Inl (Io err), e', w') \<and> gw_lock w' = None \<and>
    (\<exists>v0 v1. verify_generation_directory crc (gw_entries w) = Inr v0 \<and>
       verify_generation_directory crc (gw_entries w') = Inr v1 \<and>
       gs_authoritative_generation v1 = gs_authoritative_generation v0) \<and>
    gen_content crc (gw_entries w') =
      (if 32 + length k + length v \<le> n then om_insert k v (gen_content crc (gw_entries w))
       else gen_content crc (gw_entries w)) \<and>
    (\<forall>k'. validate_key k' = Inr () \<longrightarrow> gen_get crc owner (e', w') k' = (Inl Poisoned, e', w')) \<and>
    (\<forall>fault k' v'. validate_key_value k' v' = Inr () \<longrightarrow>
       gen_put crc fault owner (e', w') k' v' = (Inl Poisoned, e', w')) \<and>
    (\<forall>fault k'. validate_key k' = Inr () \<longrightarrow>
       gen_delete crc fault owner (e', w') k' = (Inl Poisoned, e', w')) \<and>
    (\<exists>s2. gen_reopen crc owner (e', w') = (Inr (), s2) \<and> gen_invar crc owner s2 \<and>
       gen_abs crc s2 = gen_content crc (gw_entries w'))"
proof -
  obtain e' w' g ms rest ms' rest' where t: "gen_put crc (Some (n, err)) owner (e, w) k v = (Inl (Io err), e', w')"
    "gw_faults w' = []" "gw_lock w' = None" "length owner \<le> MAX_GENERATION_WRITER_LOCK_BYTES"
    "gen_holds crc (gw_entries w) g ms rest" "gen_holds crc (gw_entries w') g ms' rest'"
    "gen_content crc (gw_entries w') =
      (if 32 + length k + length v \<le> n then om_insert k v (gen_content crc (gw_entries w))
       else gen_content crc (gw_entries w))"
    "\<not> ge_poisoned e'" "ge_authoritative_generation e' = g" "le_poisoned (ge_inner e')"
    "le_path (ge_inner e') = Some (canonical_generation_name g)"
    "gw_file w' (canonical_generation_name g) = Some (RegularFile (le_disk (ge_inner e')))"
    by (rule gen_put_torn [OF assms])
  have "ge_authoritative_generation e' \<le> g" by (simp add: t(9))
  then obtain e3 w3 where re: "gen_reopen crc owner (e', w') = (Inr (), e3, w3)" "gen_synced crc (e3, w3) g ms'"
    "gw_lock w3 = None"
    by (rule gen_reopen_run [OF t(2-4,6)])
  have "gen_invar crc owner (e3, w3)" using gen_synced_current [OF re(2)] re(3) t(4) by (auto simp: gen_invar_def)
  moreover have "gen_abs crc (e3, w3) = gen_content crc (gw_entries w')"
    using gen_holds_content [OF t(6)] gen_holds_content [of crc "gw_entries w3" g ms' "[]"] re(2)
    by (simp add: gen_abs_def gen_synced_def)
  moreover have "\<exists>v0 v1. verify_generation_directory crc (gw_entries w) = Inr v0 \<and>
       verify_generation_directory crc (gw_entries w') = Inr v1 \<and>
       gs_authoritative_generation v1 = gs_authoritative_generation v0"
    using gen_authority_verify [OF t(5)] gen_authority_verify [OF t(6)] by auto
  moreover note refuses = gen_poisoned_refuses [OF t(6,2-4,8-12)]
    and inner = log_poisoned_refuses [OF t(10)]
  have "\<forall>k'. validate_key k' = Inr () \<longrightarrow> gen_get crc owner (e', w') k' = (Inl Poisoned, e', w')"
    "\<forall>fault k' v'. validate_key_value k' v' = Inr () \<longrightarrow>
       gen_put crc fault owner (e', w') k' v' = (Inl Poisoned, e', w')"
    "\<forall>fault k'. validate_key k' = Inr () \<longrightarrow> gen_delete crc fault owner (e', w') k' = (Inl Poisoned, e', w')"
    unfolding gen_get_def gen_put_def gen_delete_def
    by (intro allI impI refuses inner; assumption)+
  ultimately show ?thesis
    using t(1,3,7) re(1) by (intro exI [of _ e'] exI [of _ w'] conjI; (assumption | blast)?)
qed


lemma gen_put_crash_atomic_witness:
  "\<exists>e w e' w'. gen_open (\<lambda>_. 0) [7] (single_world (\<lambda>_. 0)) = (Inr e, w) \<and>
    gen_put (\<lambda>_. 0) (Some (20, OtherIo)) [7] (e, w) [1] [2] = (Inl (Io OtherIo), e', w') \<and>
    gen_content (\<lambda>_. 0) (gw_entries w') = om_empty \<and>
    gen_get (\<lambda>_. 0) [7] (e', w') [1] = (Inl Poisoned, e', w') \<and>
    gen_put (\<lambda>_. 0) None [7] (e', w') [1] [2] = (Inl Poisoned, e', w')"
proof -
  let ?c = "\<lambda>_. 0 :: 32 word"
  have own: "length [7 :: byte] \<le> MAX_GENERATION_WRITER_LOCK_BYTES" by (simp add: MAX_GENERATION_WRITER_LOCK_BYTES_def)
  obtain e w where o: "gen_open ?c [7] (single_world ?c) = (Inr e, w)" "gen_synced ?c (e, w) 1 []" "gw_lock w = None"
    by (rule single_world_opens [OF own])
  have inv: "gen_invar ?c [7] (e, w)" using gen_synced_current [OF o(2)] o(3) own by (auto simp: gen_invar_def)
  have room: "gen_room ?c 1 (e, w)" by (rule single_world_room [OF o(2)]) (simp add: MAX_WORKLOAD_STEPS_def)
  have valid: "validate_key_value [1] [2] = Inr ()" "validate_key [1] = Inr ()"
    by (simp_all add: result_iff MAX_KEY_BYTES_def MAX_VALUE_BYTES_def)
  have "gen_holds ?c (gw_entries w) 1 [] []" using o(2) by (simp add: gen_synced_def)
  then have "gen_content ?c (gw_entries w) = om_empty" by (simp add: gen_holds_content)
  moreover obtain e' w' where "gen_put ?c (Some (20, OtherIo)) [7] (e, w) [1] [2] = (Inl (Io OtherIo), e', w')"
    "gen_content ?c (gw_entries w') = gen_content ?c (gw_entries w)"
    "\<forall>k'. validate_key k' = Inr () \<longrightarrow> gen_get ?c [7] (e', w') k' = (Inl Poisoned, e', w')"
    "\<forall>fault k' v'. validate_key_value k' v' = Inr () \<longrightarrow> gen_put ?c fault [7] (e', w') k' v' = (Inl Poisoned, e', w')"
    using gen_put_crash_atomic [OF inv room valid(1), of 20 OtherIo] by auto
  ultimately show ?thesis using valid o(1) by metis
qed


subsection \<open>Any state, any interleaving\<close>

text \<open>One step of a handle, with the write fault of its append.\<close>

definition gen_step ::
    "(bytes \<Rightarrow> 32 word) \<Rightarrow> io_fault \<Rightarrow> bytes \<Rightarrow> workload_step \<Rightarrow> gen_state \<Rightarrow> outcome result \<times> gen_state" where
  "gen_step crc fault owner step s =
     execute_step ((gen_ops crc owner)\<lparr>op_put := gen_put crc fault owner, op_delete := gen_delete crc fault owner\<rparr>) s step"

definition gen_routed :: "gen_engine \<Rightarrow> bool" where
  "gen_routed e \<longleftrightarrow> le_path (ge_inner e) = Some (canonical_generation_name (ge_authoritative_generation e))"

text \<open>Only logs from generation \<open>lo\<close> on may differ.\<close>

definition logs_only :: "nat \<Rightarrow> gen_dir \<Rightarrow> gen_dir \<Rightarrow> bool" where
  "logs_only lo d d' \<longleftrightarrow> (\<forall>k. (\<forall>i \<ge> lo. k \<noteq> canonical_generation_name i) \<longrightarrow> om_lookup d' k = om_lookup d k)"

lemma logs_only_refl [simp]: "logs_only lo d d"
  by (simp add: logs_only_def)

lemma logs_only_trans: "logs_only lo d d' \<Longrightarrow> logs_only lo d' d'' \<Longrightarrow> logs_only lo d d''"
  by (simp add: logs_only_def)

lemma logs_only_insert: "lo \<le> g \<Longrightarrow> logs_only lo d (om_insert (canonical_generation_name g) c d)"
  by (auto simp: logs_only_def)

lemma logs_only_mono: "logs_only hi d d' \<Longrightarrow> lo \<le> hi \<Longrightarrow> logs_only lo d d'"
  by (auto simp: logs_only_def)

lemma verify_authority_top:
  assumes "verify_generation_directory crc d = Inr v"
  obtains ns where "scan_generation_namespace d = Inr ns"
    "last_key (ns_marker_files ns) = Some (gs_authoritative_generation v)"
    "gs_authoritative_log v = canonical_generation_name (gs_authoritative_generation v)"
proof -
  obtain ns where ns: "scan_generation_namespace d = Inr ns"
    "last_key (ns_marker_files ns) = Some (gs_authoritative_generation v)"
    "om_lookup (ns_generation_files ns) (gs_authoritative_generation v) = Some (gs_authoritative_log v)"
    using assms unfolding verify_generation_directory_def by (auto simp: result_iff)
  have "gs_authoritative_log v = canonical_generation_name (gs_authoritative_generation v)"
    using scan_namespace_Inr(2) [OF ns(1), of "KGeneration (gs_authoritative_generation v)"] ns(3)
    by (simp split: if_splits)
  with ns(1,2) show thesis by (rule that)
qed

lemma open_generation_log_run:
  assumes "open_generation_log crc name w = (r, w')"
  shows "w' = w \<or> (\<exists>f. w' = w\<lparr>gw_entries := om_insert name (RegularFile f) (gw_entries w)\<rparr>)"
    and "r = Inr inner \<Longrightarrow> le_path inner = Some name"
  using assms
  by (auto simp: open_generation_log_def log_open_managed_generation_def log_open_with_ownership_def
      log_from_file_def Let_def split: prod.splits option.splits if_splits sum.splits)


definition marker_top :: "gen_dir \<Rightarrow> nat \<Rightarrow> bool" where
  "marker_top d g \<longleftrightarrow> (\<exists>ns. scan_generation_namespace d = Inr ns \<and> last_key (ns_marker_files ns) = Some g)"

lemma resolve_run:
  assumes "resolve_authority crc m w = (r, w')"
  shows "logs_only m (gw_entries w) (gw_entries w')"
    and "r = Inr (g, inner) \<Longrightarrow> m \<le> g \<and> le_path inner = Some (canonical_generation_name g) \<and> marker_top (gw_entries w) g"
proof -
  have "logs_only m (gw_entries w) (gw_entries w') \<and> (\<forall>g inner. r = Inr (g, inner) \<longrightarrow> m \<le> g \<and>
      le_path inner = Some (canonical_generation_name g) \<and> marker_top (gw_entries w) g)"
    using assms [unfolded resolve_authority_def]
  proof (cases rule: bind_ask)
    case (ok v)
    then have v: "verify_generation_directory crc (gw_entries w) = Inr v" by (simp add: result_iff)
    let ?g = "gs_authoritative_generation v"
    obtain ns where ns: "marker_top (gw_entries w) ?g" "gs_authoritative_log v = canonical_generation_name ?g"
      using verify_authority_top [OF v] unfolding marker_top_def by metis
    from ok(2) [unfolded Let_def] show ?thesis
    proof (cases rule: bind_lift)
      case (ok u)
      then have m: "m \<le> ?g" by (simp add: result_iff)
      from ok(2) show ?thesis
      proof (cases rule: sbind_cases)
        case (fail err)
        then show ?thesis
          using open_generation_log_run(1) [OF fail(1)] m by (auto simp: ns(2) intro: logs_only_insert)
      next
        case (run inner w1)
        note ok = run
        have w1: "logs_only m (gw_entries w) (gw_entries w1)" "le_path inner = Some (canonical_generation_name ?g)"
          using open_generation_log_run(1) [OF ok(1)] open_generation_log_run(2) [OF ok(1) refl] m
          by (auto simp: ns(2) intro: logs_only_insert)
        from ok(2) have "w' = w1 \<and> (\<forall>g i. r = Inr (g, i) \<longrightarrow> g = ?g \<and> i = inner)"
          by (auto simp: sbind_def sask_def slift_def sret_def split: sum.splits)
        with w1 m ns(1) show ?thesis by auto
      qed
    qed simp
  qed simp
  then show "logs_only m (gw_entries w) (gw_entries w')"
    and "r = Inr (g, inner) \<Longrightarrow> m \<le> g \<and> le_path inner = Some (canonical_generation_name g) \<and> marker_top (gw_entries w) g"
    by blast+
qed

text \<open>What a body run under the lease promises: the effect on the handle, the logs it may touch, and
  that a success has looked at the marker frontier.\<close>

definition body_safe :: "(gen_state, db_error, 'a) act \<Rightarrow> gen_engine \<Rightarrow> bool" where
  "body_safe body e \<longleftrightarrow>
     (\<forall>w r e' w'. body (e, w) = (r, e', w') \<longrightarrow> gen_routed e' \<and>
        ge_authoritative_generation e \<le> ge_authoritative_generation e' \<and>
        logs_only (ge_authoritative_generation e) (gw_entries w) (gw_entries w') \<and>
        (is_ok r \<longrightarrow> marker_top (gw_entries w) (ge_authoritative_generation e') \<and> \<not> ge_poisoned e'))"

lemma refresh_run:
  assumes "refresh_authority crc (e, w) = (r, e', w')" "gen_routed e"
  shows "gen_routed e'" "ge_authoritative_generation e \<le> ge_authoritative_generation e'"
    "logs_only (ge_authoritative_generation e) (gw_entries w) (gw_entries w')"
    "is_ok r \<Longrightarrow> marker_top (gw_entries w) (ge_authoritative_generation e') \<and> \<not> ge_poisoned e'"
    "ge_poisoned e \<Longrightarrow> r = Inl Poisoned \<and> e' = e \<and> w' = w"
proof -
  have "gen_routed e' \<and> ge_authoritative_generation e \<le> ge_authoritative_generation e' \<and>
    logs_only (ge_authoritative_generation e) (gw_entries w) (gw_entries w') \<and>
    (is_ok r \<longrightarrow> marker_top (gw_entries w) (ge_authoritative_generation e') \<and> \<not> ge_poisoned e') \<and>
    (ge_poisoned e \<longrightarrow> r = Inl Poisoned \<and> e' = e \<and> w' = w)"
  proof (cases "\<exists>ns top. \<not> ge_poisoned e \<and> scan_generation_namespace (gw_entries w) = Inr ns \<and>
      last_key (ns_marker_files ns) = Some top \<and> ge_authoritative_generation e < top")
    case True
    then obtain ns top where t: "\<not> ge_poisoned e" "scan_generation_namespace (gw_entries w) = Inr ns"
      "last_key (ns_marker_files ns) = Some top" "ge_authoritative_generation e < top" by blast
    obtain ra wa where ra: "resolve_authority crc top w = (ra, wa)" by force
    note run = resolve_run [OF ra]
    show ?thesis
    proof (cases ra)
      case (Inl err)
      then show ?thesis
        using assms t ra run(1) by (auto simp: refresh_authority_def gen_poison_def gen_routed_def intro: logs_only_mono)
    next
      case (Inr p)
      obtain g inner where p: "p = (g, inner)" by force
      then show ?thesis
        using assms t ra run(1) run(2) [of g inner] Inr
        by (auto simp: refresh_authority_def gen_routed_def intro: logs_only_mono)
    qed
  next
    case False
    then show ?thesis
      using assms by (auto simp: refresh_authority_def gen_poison_def gen_routed_def marker_top_def
          split: if_splits sum.splits option.splits)
  qed
  then show "gen_routed e'" "ge_authoritative_generation e \<le> ge_authoritative_generation e'"
    "logs_only (ge_authoritative_generation e) (gw_entries w) (gw_entries w')"
    "is_ok r \<Longrightarrow> marker_top (gw_entries w) (ge_authoritative_generation e') \<and> \<not> ge_poisoned e'"
    "ge_poisoned e \<Longrightarrow> r = Inl Poisoned \<and> e' = e \<and> w' = w"
    by blast+
qed

lemma on_inner_run:
  assumes "on_inner op (e, w) = (r, e', w')" "gen_routed e" "\<And>i r i'. op i = (r, i') \<Longrightarrow> le_path i' = le_path i"
  shows "gen_routed e'" "ge_authoritative_generation e' = ge_authoritative_generation e"
    "ge_poisoned e' = ge_poisoned e"
    "logs_only (ge_authoritative_generation e) (gw_entries w) (gw_entries w')"
  using assms(1,2) assms(3) [of "ge_inner e"] assms(3) [of "(ge_inner e)\<lparr>le_disk := f\<rparr>" for f]
  by (auto simp: on_inner_def gen_routed_def split: option.splits dir_entry.splits prod.splits
      intro: logs_only_insert)


lemma routed_body_safe:
  assumes "gen_routed e" "\<And>i r i'. op i = (r, i') \<Longrightarrow> le_path i' = le_path i"
  shows "body_safe (sbind (refresh_authority crc) (\<lambda>_. on_inner op)) e"
  unfolding body_safe_def
proof (intro allI impI)
  fix w r e' w'
  assume "sbind (refresh_authority crc) (\<lambda>_. on_inner op) (e, w) = (r, e', w')"
  then show "gen_routed e' \<and> ge_authoritative_generation e \<le> ge_authoritative_generation e' \<and>
      logs_only (ge_authoritative_generation e) (gw_entries w) (gw_entries w') \<and>
      (is_ok r \<longrightarrow> marker_top (gw_entries w) (ge_authoritative_generation e') \<and> \<not> ge_poisoned e')"
  proof (cases rule: sbind_cases)
    case (fail err)
    then show ?thesis using refresh_run [OF fail(1) assms(1)] by simp
  next
    case (run u s1)
    obtain e1 w1 where s1: "s1 = (e1, w1)" by force
    note re = refresh_run [OF run(1) [unfolded s1] assms(1)]
    note inner = on_inner_run [OF run(2) [unfolded s1] re(1) assms(2)]
    have "logs_only (ge_authoritative_generation e) (gw_entries w1) (gw_entries w')"
      by (rule logs_only_mono [OF inner(4) re(2)])
    then show ?thesis using re inner(1-3) logs_only_trans [OF re(3)] by (auto simp: is_ok_def)
  qed
qed

lemma reopen_body_safe: "gen_routed e \<Longrightarrow> body_safe (reopen_routed crc) e"
  unfolding body_safe_def
proof (intro allI impI)
  fix w r e' w'
  assume e: "gen_routed e" and run: "reopen_routed crc (e, w) = (r, e', w')"
  obtain ra wa where ra: "resolve_authority crc (ge_authoritative_generation e) w = (ra, wa)" by force
  show "gen_routed e' \<and> ge_authoritative_generation e \<le> ge_authoritative_generation e' \<and>
      logs_only (ge_authoritative_generation e) (gw_entries w) (gw_entries w') \<and>
      (is_ok r \<longrightarrow> marker_top (gw_entries w) (ge_authoritative_generation e') \<and> \<not> ge_poisoned e')"
  proof (cases ra)
    case (Inl err)
    then show ?thesis
      using run e ra resolve_run(1) [OF ra] by (auto simp: reopen_routed_def gen_poison_def gen_routed_def)
  next
    case (Inr p)
    obtain g inner where p: "p = (g, inner)" by force
    then show ?thesis
      using run ra resolve_run(1) [OF ra] resolve_run(2) [OF ra, of g inner] Inr
      by (auto simp: reopen_routed_def gen_routed_def)
  qed
qed

lemma lease_safe:
  assumes "with_operation_lease owner body (e, w) = (r, e', w')" "gen_routed e" "body_safe body e"
  shows "gen_routed e'" "ge_authoritative_generation e \<le> ge_authoritative_generation e'"
    "logs_only (ge_authoritative_generation e) (gw_entries w) (gw_entries w')"
    "is_ok r \<Longrightarrow> marker_top (gw_entries w) (ge_authoritative_generation e') \<and> \<not> ge_poisoned e'"
    "gw_lock w \<noteq> None \<Longrightarrow> r = Inl (Io OtherIo) \<and> e' = e \<and> w' = w"
proof -
  obtain ra wa where acq: "acquire_generation_writer_lease owner w = (ra, wa)" by force
  have same: "gw_entries wa = gw_entries w" using acq by (cases rule: acquire_cases) simp_all
  have all: "gen_routed e' \<and> ge_authoritative_generation e \<le> ge_authoritative_generation e' \<and>
    logs_only (ge_authoritative_generation e) (gw_entries w) (gw_entries w') \<and>
    (is_ok r \<longrightarrow> marker_top (gw_entries w) (ge_authoritative_generation e') \<and> \<not> ge_poisoned e')"
  proof (cases ra)
    case (Inl err)
    then show ?thesis using assms(1,2) acq same by (auto simp: with_operation_lease_def)
  next
    case (Inr u)
    obtain rb eb wb where b: "body (e, wa) = (rb, eb, wb)" using prod_cases3 by blast
    then have "r = rb" "e' = eb" "gw_entries w' = gw_entries wb"
      using assms(1) acq Inr by (auto simp: with_operation_lease_def)
    with b assms(3) same show ?thesis unfolding body_safe_def by metis
  qed
  then show "gen_routed e'" "ge_authoritative_generation e \<le> ge_authoritative_generation e'"
    "logs_only (ge_authoritative_generation e) (gw_entries w) (gw_entries w')"
    "is_ok r \<Longrightarrow> marker_top (gw_entries w) (ge_authoritative_generation e') \<and> \<not> ge_poisoned e'"
    by blast+
  show "r = Inl (Io OtherIo) \<and> e' = e \<and> w' = w" if "gw_lock w \<noteq> None"
    using that assms(1) by (simp add: with_operation_lease_def acquire_generation_writer_lease_def)
qed

lemma lease_poisoned:
  assumes "with_operation_lease owner (sbind (refresh_authority crc) f) (e, w) = (r, e', w')" "gen_routed e" "ge_poisoned e"
  shows "\<not> is_ok r" "e' = e" "gw_entries w' = gw_entries w"
proof -
  have "refresh_authority crc (e, v) = (Inl Poisoned, e, v)" for v
    using refresh_run(5) [OF _ assms(2,3), of crc v] by (cases "refresh_authority crc (e, v)") auto
  then have body: "sbind (refresh_authority crc) f (e, v) = (Inl Poisoned, e, v)" for v
    by (simp add: sbind_def)
  obtain ra wa where acq: "acquire_generation_writer_lease owner w = (ra, wa)" by force
  have "gw_entries wa = gw_entries w" using acq by (cases rule: acquire_cases) simp_all
  then show "\<not> is_ok r" "e' = e" "gw_entries w' = gw_entries w"
    using assms(1) acq by (auto simp: with_operation_lease_def body split: sum.splits)
qed

lemma gen_step_shape:
  obtains (routed) op wrap where "step \<noteq> Reopen" "\<And>i r i'. op i = (r, i') \<Longrightarrow> le_path i' = le_path i"
      "\<And>s. gen_step crc fault owner step s =
        (case with_operation_lease owner (sbind (refresh_authority crc) (\<lambda>_. on_inner op)) s of
           (r :: bytes option result, s') \<Rightarrow> (rmap wrap r, s'))"
    | (reopen) "step = Reopen" "\<And>s. gen_step crc fault owner step s =
        (case with_operation_lease owner (reopen_routed crc) s of (r, s') \<Rightarrow> (rmap (\<lambda>_. OReopened) r, s'))"
proof (cases step)
  case (Put k v)
  then show thesis
    by (intro routed [of "\<lambda>i. log_put crc fault i k v" OPut])
       (auto simp: gen_step_def gen_put_def dest: log_put_extends(2))
next
  case (Get k)
  then show thesis
    by (intro routed [of "\<lambda>i. log_get i k" OGet]) (auto simp: gen_step_def gen_ops_def gen_get_def log_get_def)
next
  case (Delete k)
  then show thesis
    by (intro routed [of "\<lambda>i. log_delete crc fault i k" ODelete])
       (auto simp: gen_step_def gen_delete_def dest: log_delete_extends(2))
next
  case Reopen
  then show thesis by (intro reopen) (simp_all add: gen_step_def gen_ops_def gen_reopen_def)
qed

lemma is_ok_rmap [simp]: "is_ok (rmap f r) = is_ok r"
  by (cases r) simp_all


lemma gen_step_run:
  assumes "gen_step crc fault owner step (e, w) = (r, e', w')" "gen_routed e"
  shows "gen_routed e'" "ge_authoritative_generation e \<le> ge_authoritative_generation e'"
    "logs_only (ge_authoritative_generation e) (gw_entries w) (gw_entries w')"
    "is_ok r \<Longrightarrow> marker_top (gw_entries w) (ge_authoritative_generation e') \<and> \<not> ge_poisoned e'"
    "gw_lock w \<noteq> None \<Longrightarrow> r = Inl (Io OtherIo) \<and> e' = e \<and> w' = w"
    "ge_poisoned e \<Longrightarrow> step \<noteq> Reopen \<Longrightarrow> \<not> is_ok r \<and> e' = e \<and> gw_entries w' = gw_entries w"
proof -
  have "gen_routed e' \<and> ge_authoritative_generation e \<le> ge_authoritative_generation e' \<and>
    logs_only (ge_authoritative_generation e) (gw_entries w) (gw_entries w') \<and>
    (is_ok r \<longrightarrow> marker_top (gw_entries w) (ge_authoritative_generation e') \<and> \<not> ge_poisoned e') \<and>
    (gw_lock w \<noteq> None \<longrightarrow> r = Inl (Io OtherIo) \<and> e' = e \<and> w' = w) \<and>
    (ge_poisoned e \<and> step \<noteq> Reopen \<longrightarrow> \<not> is_ok r \<and> e' = e \<and> gw_entries w' = gw_entries w)"
  proof (cases rule: gen_step_shape [of step crc fault owner])
    case (routed op wrap)
    obtain r0 where run: "with_operation_lease owner (sbind (refresh_authority crc) (\<lambda>_. on_inner op)) (e, w) = (r0, e', w')"
      "r = rmap wrap r0"
      using assms(1) routed(3) by (auto split: prod.splits)
    note safe = lease_safe [OF run(1) assms(2) routed_body_safe [OF assms(2) routed(2)]]
    note poisoned = lease_poisoned [OF run(1) assms(2)]
    show ?thesis using safe poisoned by (auto simp: run(2))
  next
    case reopen
    obtain r0 where run: "with_operation_lease owner (reopen_routed crc) (e, w) = (r0, e', w')"
      "r = rmap (\<lambda>_. OReopened) r0"
      using assms(1) reopen(2) by (auto split: prod.splits)
    note safe = lease_safe [OF run(1) assms(2) reopen_body_safe [OF assms(2)]]
    show ?thesis using safe reopen(1) by (auto simp: run(2))
  qed
  then show "gen_routed e'" "ge_authoritative_generation e \<le> ge_authoritative_generation e'"
    "logs_only (ge_authoritative_generation e) (gw_entries w) (gw_entries w')"
    "is_ok r \<Longrightarrow> marker_top (gw_entries w) (ge_authoritative_generation e') \<and> \<not> ge_poisoned e'"
    "gw_lock w \<noteq> None \<Longrightarrow> r = Inl (Io OtherIo) \<and> e' = e \<and> w' = w"
    "ge_poisoned e \<Longrightarrow> step \<noteq> Reopen \<Longrightarrow> \<not> is_ok r \<and> e' = e \<and> gw_entries w' = gw_entries w"
    by blast+
qed

text \<open>Whatever happens to a handle after it was opened: its own steps, under any write fault and any
  owner record, and arbitrary changes of the world by others in between.\<close>

inductive gen_reach :: "(bytes \<Rightarrow> 32 word) \<Rightarrow> gen_state \<Rightarrow> gen_state \<Rightarrow> bool" for crc where
  reach_start: "gen_reach crc s s"
| reach_step: "gen_reach crc s (e, w) \<Longrightarrow> gen_step crc fault owner step (e, w) = (r, e', w') \<Longrightarrow> gen_reach crc s (e', w')"
| reach_world: "gen_reach crc s (e, w) \<Longrightarrow> gen_reach crc s (e, w')"

lemma gen_reach_routed:
  assumes "gen_reach crc s s'" "gen_routed (fst s)"
  shows "gen_routed (fst s') \<and> ge_authoritative_generation (fst s) \<le> ge_authoritative_generation (fst s')"
  using assms
proof (induction rule: gen_reach.induct)
  case (reach_step s e w fault owner step r e' w')
  then show ?case using gen_step_run(1,2) [OF reach_step.hyps(2)] by auto
qed auto

lemma gen_open_routed:
  assumes "gen_open crc owner w = (Inr e, w')"
  shows "gen_routed e \<and> marker_top (gw_entries w) (ge_authoritative_generation e)"
  using assms [unfolded gen_open_def]
proof (cases rule: with_lease_cases)
  case (ran w1 w2)
  from ran(4) obtain g inner where "resolve_authority crc 0 w1 = (Inr (g, inner), w2)"
      "e = \<lparr>ge_authoritative_generation = g, ge_inner = inner, ge_poisoned = False\<rparr>"
    by (auto simp: sbind_eq_Inr sret_def)
  with resolve_run(2) [of crc 0 w1 _ w2 g inner] ran(1) show ?thesis by (auto simp: gen_routed_def)
qed simp

text \<open>C9 (gen_safe): whatever a handle and the other users of the directory have done since it was
  opened, its next step never moves its authority backward and touches no entry but logs of its
  own or later generations.  While another owner holds the lease the step changes nothing and
  reports it; a poisoned handle refuses everything but a reopen; and a step that succeeds ran on
  the generation of the highest commit marker.\<close>

theorem gen_step_follows_authority:
  assumes "gen_open crc owner0 w0 = (Inr e0, w1)" "gen_reach crc (e0, w1) (e, w)"
    and "gen_step crc fault owner step (e, w) = (r, e', w')"
  shows "ge_authoritative_generation e0 \<le> ge_authoritative_generation e \<and>
    ge_authoritative_generation e \<le> ge_authoritative_generation e' \<and>
    logs_only (ge_authoritative_generation e) (gw_entries w) (gw_entries w') \<and>
    (gw_lock w \<noteq> None \<longrightarrow> r = Inl (Io OtherIo) \<and> e' = e \<and> w' = w) \<and>
    (ge_poisoned e \<and> step \<noteq> Reopen \<longrightarrow> \<not> is_ok r \<and> e' = e \<and> gw_entries w' = gw_entries w) \<and>
    (is_ok r \<longrightarrow> \<not> ge_poisoned e' \<and> (\<exists>ns. scan_generation_namespace (gw_entries w) = Inr ns \<and>
       last_key (ns_marker_files ns) = Some (ge_authoritative_generation e')))"
  using gen_reach_routed [OF assms(2)] gen_open_routed [OF assms(1)] gen_step_run [OF assms(3)]
  by (auto simp: marker_top_def)

lemma gen_step_follows_authority_witness:
  "\<exists>e w1 r e' w'. gen_open (\<lambda>_. 0) [7] (single_world (\<lambda>_. 0)) = (Inr e, w1) \<and>
    gen_step (\<lambda>_. 0) None [8] (Put [1] [2]) (e, w1\<lparr>gw_lock := Some (RegularFile [9])\<rparr>) = (r, e', w') \<and>
    r = Inl (Io OtherIo) \<and> e' = e \<and> ge_authoritative_generation e \<le> ge_authoritative_generation e'"
proof -
  let ?c = "\<lambda>_. 0 :: 32 word"
  have own: "length [7 :: byte] \<le> MAX_GENERATION_WRITER_LOCK_BYTES" by (simp add: MAX_GENERATION_WRITER_LOCK_BYTES_def)
  obtain e w1 where o: "gen_open ?c [7] (single_world ?c) = (Inr e, w1)"
    by (rule single_world_opens [OF own])
  let ?w = "w1\<lparr>gw_lock := Some (RegularFile [9])\<rparr>"
  have reach: "gen_reach ?c (e, w1) (e, ?w)" by (rule reach_world [OF reach_start])
  obtain r e' w' where s: "gen_step ?c None [8] (Put [1] [2]) (e, ?w) = (r, e', w')" by (rule prod_cases3)
  show ?thesis using gen_step_follows_authority [OF o reach s] o s by fastforce
qed

end
