(* ===== verification/GenCompactSpec.thy ===== *)
theory GenCompactSpec
  imports GenCompact GenEngineSpec
begin

text \<open>
  What compaction promises.  The compact copy of a clean log is the image of one put per live key,
  in key order; it holds the same map, is never longer than its source, and appears under its final
  name completely or not at all, whatever fails on the way.  The offline switch leaves the old or
  the new generation authoritative with the same content.  While the copy is being built the
  directory holds a name that no reader of the directory accepts.
\<close>

subsection \<open>Live records\<close>

definition live_records :: "kv_state \<Rightarrow> (mutation_kind \<times> bytes \<times> bytes) list" where
  "live_records m = map (\<lambda>(k, v). (MPut, k, v)) (entries m)"

lemma length_live_records [simp]: "length (live_records m) = om_size m"
  by (simp add: live_records_def om_size_def)

lemma log_replay_puts: "log_replay m (map (\<lambda>(k, v). (MPut, k, v)) xs) = fold (\<lambda>(k, v) m. om_insert k v m) xs m"
  by (induction xs arbitrary: m) auto

lemma log_replay_append: "log_replay m (xs @ ys) = log_replay (log_replay m xs) ys"
  by (induction m xs rule: log_replay.induct) simp_all


lemma log_replay_live [simp]: "log_replay om_empty (live_records m) = m"
proof (rule ordmap_eqI)
  fix k
  have "distinct (map fst (entries m))" by (simp add: al_ord_distinct)
  then have "map_of (rev (entries m)) = map_of (entries m)"
    by (intro map_of_inject_set [THEN iffD2]) (simp_all add: rev_map [symmetric])
  then show "om_lookup (log_replay om_empty (live_records m)) k = om_lookup m k"
    unfolding live_records_def log_replay_puts om_lookup_fold_insert by (simp add: om_lookup_entries [of m])
qed

lemma live_records_wf:
  assumes "\<forall>r \<in> set ms. record_wf r"
  shows "\<forall>r \<in> set (live_records (log_replay om_empty ms)). record_wf r"
proof -
  have "record_wf (MPut, k, v)" if "om_lookup (log_replay om_empty ms) k = Some v" for k v
    using assms that
  proof (induction ms arbitrary: k v rule: rev_induct)
    case (snoc r ms)
    obtain kind k' v' where r: "r = (kind, k', v')" by (rule prod_cases3)
    show ?case
    proof (cases "k = k'")
      case True
      then show ?thesis
        using snoc.prems by (cases kind) (auto simp: r log_replay_snoc)
    next
      case False
      have "\<forall>q \<in> set ms. record_wf q" using snoc.prems(1) by simp
      then show ?thesis
        using snoc.IH [of k v] snoc.prems(2) False by (cases kind) (simp_all add: r log_replay_snoc)
    qed
  qed simp
  then show ?thesis by (auto simp: live_records_def set_entries)
qed

text \<open>The bytes of a list of records.\<close>

definition records_length :: "(mutation_kind \<times> bytes \<times> bytes) list \<Rightarrow> nat" where
  "records_length ms = (\<Sum>(kind, k, v) \<leftarrow> ms. 32 + length k + length v)"

lemma length_log_image: "length (log_image crc ms) = 16 + records_length ms"
proof -
  have "length (frames (log_record_bytes crc) q ms) = records_length ms" for q
    by (induction ms arbitrary: q) (auto simp: records_length_def)
  then show ?thesis by (simp add: log_image_def)
qed

lemma live_insert_length:
  "records_length (live_records (om_insert k v m)) \<le> records_length (live_records m) + (32 + length k + length v)"
proof -
  have "records_length (map (\<lambda>(k, v). (MPut, k, v)) (al_insert k v xs)) \<le>
      records_length (map (\<lambda>(k, v). (MPut, k, v)) xs) + (32 + length k + length v)" for xs
    by (induction k v xs rule: al_insert.induct) (auto simp: records_length_def)
  then show ?thesis by (simp add: live_records_def entries_insert)
qed

lemma live_remove_length: "records_length (live_records (om_remove k m)) \<le> records_length (live_records m)"
proof -
  have "records_length (map (\<lambda>(k, v). (MPut, k, v)) (filter P xs)) \<le>
      records_length (map (\<lambda>(k, v). (MPut, k, v)) xs)" for P xs
    by (induction xs) (auto simp: records_length_def)
  then show ?thesis by (simp add: live_records_def om_remove_def entries_filter)
qed

lemma compact_shrinks:
  "records_length (live_records (log_replay om_empty ms)) \<le> records_length ms"
  "om_size (log_replay om_empty ms) \<le> length ms"
proof (induction ms rule: rev_induct)
  case Nil
  show "records_length (live_records (log_replay om_empty [])) \<le> records_length []"
    by (simp add: live_records_def records_length_def)
  show "om_size (log_replay om_empty []) \<le> length []" by (simp add: om_size_def)
next
  case (snoc r ms)
  obtain kind k v where r: "r = (kind, k, v)" by (rule prod_cases3)
  show "records_length (live_records (log_replay om_empty (ms @ [r]))) \<le> records_length (ms @ [r])"
    using snoc(1) live_insert_length [of k v "log_replay om_empty ms"] live_remove_length [of k "log_replay om_empty ms"]
    by (cases kind) (auto simp: r log_replay_snoc records_length_def)
  show "om_size (log_replay om_empty (ms @ [r])) \<le> length (ms @ [r])"
    using snoc(2) om_size_insert_le [of k v "log_replay om_empty ms"] om_size_remove_le [of k "log_replay om_empty ms"]
    by (cases kind) (auto simp: r log_replay_snoc)
qed


subsection \<open>Inspection\<close>

definition inspection_entries :: "kv_state \<Rightarrow> inspection_entry list" where
  "inspection_entries m = map (\<lambda>(k, v). \<lparr>ie_key = k, ie_value_bytes = length v, ie_value = Some v\<rparr>) (entries m)"

lemma inspection_entries_inject: "inspection_entries m = inspection_entries m' \<longleftrightarrow> m = m'"
proof -
  have "inj (\<lambda>(k :: bytes, v :: byte list). \<lparr>ie_key = k, ie_value_bytes = length v, ie_value = Some v\<rparr>)"
    by (auto simp: inj_def)
  then show ?thesis by (auto simp: inspection_entries_def inj_map_eq_map entries_inject)
qed

lemma log_inspect_eq:
  "log_inspect crc f True =
     rbind (log_scan_file crc f) (\<lambda>r. Inr \<lparr>ir_verification = log_verification r, ir_entries = inspection_entries (sc_values r)\<rparr>)"
  by (simp add: log_inspect_def inspection_entries_def)

definition image_inspection ::
    "(bytes \<Rightarrow> 32 word) \<Rightarrow> (mutation_kind \<times> bytes \<times> bytes) list \<Rightarrow> inspection_report" where
  "image_inspection crc ms =
     \<lparr>ir_verification = image_report crc ms, ir_entries = inspection_entries (log_replay om_empty ms)\<rparr>"

lemma log_inspect_image:
  assumes "\<forall>m \<in> set ms. record_wf m" "length ms < u64_max" "length (log_image crc ms) \<le> u64_max"
  shows "log_inspect crc (log_image crc ms) True = Inr (image_inspection crc ms)"
  using log_scan_image [OF assms]
  by (simp add: log_inspect_eq log_verification_def image_inspection_def image_report_def LOG_FILE_VERSION_def)

lemma inspect_path_file:
  "gw_file w path = Some (RegularFile f) \<Longrightarrow> inspect_path crc path w = log_inspect crc f True"
  "gw_file w path = Some (RegularFile f) \<Longrightarrow> verify_path crc path w = log_verify crc f"
  by (simp_all add: inspect_path_def verify_path_def gw_read_def)


subsection \<open>What a step may touch\<close>

text \<open>Only the entries of \<open>S\<close> may differ, the lease is left alone, and no fault appears from nowhere.\<close>

definition confined :: "bytes set \<Rightarrow> gen_world \<Rightarrow> gen_world \<Rightarrow> bool" where
  "confined S w w' \<longleftrightarrow> gw_lock w' = gw_lock w \<and> (gw_faults w = [] \<longrightarrow> gw_faults w' = []) \<and>
     (\<forall>k. k \<notin> S \<longrightarrow> gw_file w' k = gw_file w k)"

lemma confined_refl: "reflp (confined S)"
  by (simp add: reflp_def confined_def)

lemma confined_trans: "transp (confined S)"
  by (simp add: transp_def confined_def)

lemma confined_mono: "confined S w w' \<Longrightarrow> S \<subseteq> T \<Longrightarrow> confined T w w'"
  by (auto simp: confined_def)

lemma next_fault_confined: "gw_next_fault w = (f, w') \<Longrightarrow> gw_lock w' = gw_lock w \<and> gw_entries w' = gw_entries w \<and>
    (gw_faults w = [] \<longrightarrow> f = None \<and> gw_faults w' = [])"
  by (auto simp: gw_next_fault_def split: list.splits)

lemma keeps_create [intro!]: "path \<in> S \<Longrightarrow> keeps (confined S) (fs_create_new path bs)"
  by (rule keepsI) (auto simp: fs_create_new_def confined_def gw_file_def dest!: next_fault_confined
      split: if_splits prod.splits option.splits write_fault.splits)

lemma keeps_remove [intro!]: "path \<in> S \<Longrightarrow> keeps (confined S) (fs_remove_file path)"
  by (rule keepsI) (auto simp: fs_remove_file_def confined_def gw_file_def dest!: next_fault_confined
      split: prod.splits option.splits dir_entry.splits)

lemma keeps_link [intro!]: "target \<in> S \<Longrightarrow> keeps (confined S) (fs_hard_link source target)"
  by (rule keepsI) (auto simp: fs_hard_link_def confined_def gw_file_def dest!: next_fault_confined
      split: if_splits prod.splits option.splits)

lemma keeps_sync [intro!]: "keeps (confined S) fs_sync"
  by (rule keepsI) (auto simp: fs_sync_def confined_def gw_file_def dest!: next_fault_confined
      split: prod.splits option.splits)

lemma keeps_ask [intro!]: "keeps (confined S) (sask f)"
  using confined_refl [of S] by (simp add: keeps_def sask_def reflp_def)

lemma keeps_map_err [intro!]: "keeps R m \<Longrightarrow> keeps R (smap_err h m)"
  by (rule keepsI) (auto elim!: smap_err_cases dest: keepsD)

lemma keeps_try [intro!]: "keeps R m \<Longrightarrow> keeps R (strycatch m)"
  by (rule keepsI) (auto elim!: strycatch_cases dest: keepsD)

lemma keeps_confined_bind [intro!]:
  "keeps (confined S) m \<Longrightarrow> (\<And>x. keeps (confined S) (f x)) \<Longrightarrow> keeps (confined S) (sbind m f)"
  by (rule keeps_bind [OF confined_trans])

lemmas keeps_confined_pure [intro!] = keeps_pure [OF confined_refl]

lemma removes_confined: "set paths \<subseteq> S \<Longrightarrow> confined S w (fold (\<lambda>path w. snd (fs_remove_file path w)) paths w)"
proof (induction paths arbitrary: w)
  case Nil
  show ?case using confined_refl by (simp add: reflp_def)
next
  case (Cons p paths)
  have "keeps (confined S) (fs_remove_file p)" using Cons.prems by auto
  then have "confined S w (snd (fs_remove_file p w))" by (simp add: keeps_def)
  with Cons show ?case using confined_trans [of S] by (fastforce dest: transpD)
qed

lemma keeps_cleanup [intro!]: "set paths \<subseteq> S \<Longrightarrow> keeps (confined S) m \<Longrightarrow> keeps (confined S) (cleanup_on_error paths m)"
proof (rule keepsI)
  fix w r w' assume s: "set paths \<subseteq> S" "keeps (confined S) m" "cleanup_on_error paths m w = (r, w')"
  obtain r0 w0 where m: "m w = (r0, w0)" by force
  have "confined S w w0" using keepsD [OF s(2) m] .
  then show "confined S w w'"
    using s(3) m removes_confined [OF s(1), of w0] confined_trans [of S]
    by (auto simp: cleanup_on_error_def split: sum.splits dest: transpD)
qed

lemma keeps_copy: "path \<in> S \<Longrightarrow> keeps (confined S) (copy_entries crc path es e)"
proof (induction es arbitrary: e)
  case Nil
  show ?case using confined_refl [of S] by (simp add: keeps_def reflp_def)
next
  case (Cons x es)
  show ?case
  proof (rule keepsI)
    fix w r w' assume run: "copy_entries crc path (x # es) e w = (r, w')"
    obtain f w1 where f: "gw_next_fault w = (f, w1)" by force
    note sel = next_fault_confined [OF f]
    show "confined S w w'"
    proof (cases "ie_value x")
      case None
      then show ?thesis using run confined_refl [of S] by (simp add: reflp_def)
    next
      case (Some v)
      obtain p e' where p: "log_put crc (append_fault f) e (ie_key x) v = (p, e')" by force
      let ?w2 = "w1\<lparr>gw_entries := om_insert path (RegularFile (le_disk e')) (gw_entries w1)\<rparr>"
      have w2: "confined S w ?w2" using Cons.prems sel by (auto simp: confined_def gw_file_def)
      show ?thesis
      proof (cases p)
        case (Inl err)
        then show ?thesis using run w2 by (simp add: Some f p Let_def)
      next
        case (Inr prev)
        then have "copy_entries crc path es e' ?w2 = (r, w')" using run by (simp add: Some f p Let_def)
        then have "confined S ?w2 w'" using keepsD [OF Cons.IH [OF Cons.prems]] by blast
        with w2 show ?thesis using confined_trans [of S] by (blast dest: transpD)
      qed
    qed
  qed
qed

lemma keeps_build_staging [intro!]: "path \<in> S \<Longrightarrow> keeps (confined S) (build_staging crc path source)"
proof -
  assume p: "path \<in> S"
  have "keeps (confined S) (\<lambda>w. case log_create_new crc (Some path) (c w) of
         (Inl e, _) \<Rightarrow> (Inl (LcDatabase e), w)
       | (Inr compacted, _) \<Rightarrow>
           sbind (smap_err (\<lambda>k. LcDatabase (Io k)) (fs_create_new path (le_disk compacted)))
             (\<lambda>_. copy_entries crc path (ir_entries source) compacted) w)" for c
  proof (rule keepsI)
    fix w r w'
    assume run: "(case log_create_new crc (Some path) (c w) of
         (Inl e, _) \<Rightarrow> (Inl (LcDatabase e), w)
       | (Inr compacted, _) \<Rightarrow>
           sbind (smap_err (\<lambda>k. LcDatabase (Io k)) (fs_create_new path (le_disk compacted)))
             (\<lambda>_. copy_entries crc path (ir_entries source) compacted) w) = (r, w')"
    have "keeps (confined S) (sbind (smap_err (\<lambda>k. LcDatabase (Io k)) (fs_create_new path (le_disk e)))
             (\<lambda>_. copy_entries crc path (ir_entries source) e))" for e
      using p by (intro keeps_confined_bind keeps_map_err keeps_create keeps_copy)
    then show "confined S w w'"
      using run confined_refl [of S] by (auto split: prod.splits sum.splits dest: keepsD simp: reflp_def)
  qed
  then show "keeps (confined S) (build_staging crc path source)"
    unfolding build_staging_def using p by (intro keeps_cleanup) simp_all
qed

lemma keeps_compact_log [intro!]:
  "{output, staging_path output} \<subseteq> S \<Longrightarrow> keeps (confined S) (compact_log_to_fresh_file crc source output)"
  unfolding compact_log_to_fresh_file_def publish_compacted_def publish_staging_def Let_def
  by (intro keeps_confined_bind keeps_ask keeps_confined_pure keeps_build_staging keeps_cleanup keeps_map_err keeps_link
      keeps_try keeps_remove) simp_all



subsection \<open>The compact copy\<close>

lemma log_put_exact:
  assumes "log_holds crc e ms" "le_file_open e" "\<not> le_poisoned e" "record_wf (MPut, k, v)"
    "2 + length ms \<le> u64_max" "length (log_image crc (ms @ [(MPut, k, v)])) \<le> u64_max"
  shows "\<exists>e'. log_put crc None e k v = (Inr (om_lookup (le_values e) k), e') \<and>
      log_holds crc e' (ms @ [(MPut, k, v)]) \<and> le_file_open e' \<and> \<not> le_poisoned e'"
    and "log_put crc (Some (n, err)) e k v = (p, e') \<Longrightarrow> p = Inl (Io err)"
proof -
  let ?rec = "log_record_bytes crc (1 + length ms) (MPut, k, v)"
  have enc: "encode_log_record crc MPut (1 + length ms) k v = Inr ?rec"
    using assms(4) by (simp add: result_iff)
  have image: "log_image crc (ms @ [(MPut, k, v)]) = log_image crc ms @ ?rec" by (rule log_image_snoc)
  have valid: "validate_key_value k v = Inr ()" using assms(4) by (simp add: record_wf_def result_iff)
  have bytes: "length (log_image crc ms) + length ?rec \<le> u64_max" using assms(6) image by simp
  show "\<exists>e'. log_put crc None e k v = (Inr (om_lookup (le_values e) k), e') \<and>
      log_holds crc e' (ms @ [(MPut, k, v)]) \<and> le_file_open e' \<and> \<not> le_poisoned e'"
    using assms enc image valid bytes
    by (simp add: log_put_def log_append_def log_holds_def log_ensure_usable_def checked_add64_def
        hash_file_prefix_def log_replay_snoc Let_def)
  show "log_put crc (Some (n, err)) e k v = (p, e') \<Longrightarrow> p = Inl (Io err)"
    using assms enc valid bytes
    by (auto simp: log_put_def log_append_def log_holds_def log_ensure_usable_def checked_add64_def
        hash_file_prefix_def Let_def)
qed

lemma copy_entries_run:
  assumes "log_holds crc e ms" "le_file_open e" "\<not> le_poisoned e"
    and "\<forall>(k, v) \<in> set xs. record_wf (MPut, k, v)" "1 + length ms + length xs \<le> u64_max"
    and "length (log_image crc (ms @ map (\<lambda>(k, v). (MPut, k, v)) xs)) \<le> u64_max"
    and "gw_file w path = Some (RegularFile (le_disk e))"
    and "copy_entries crc path (map (\<lambda>(k, v). \<lparr>ie_key = k, ie_value_bytes = length v, ie_value = Some v\<rparr>) xs) e w = (r, w')"
  shows "r = Inr () \<longrightarrow> gw_file w' path = Some (RegularFile (log_image crc (ms @ map (\<lambda>(k, v). (MPut, k, v)) xs)))"
    and "gw_faults w = [] \<longrightarrow> r = Inr () \<and> gw_faults w' = []"
proof -
  have "(r = Inr () \<longrightarrow> gw_file w' path = Some (RegularFile (log_image crc (ms @ map (\<lambda>(k, v). (MPut, k, v)) xs)))) \<and>
      (gw_faults w = [] \<longrightarrow> r = Inr () \<and> gw_faults w' = [])"
    using assms
  proof (induction xs arbitrary: ms e w)
    case Nil
    then show ?case by (auto simp: log_holds_def)
  next
    case (Cons x xs)
    obtain k v where x: "x = (k, v)" by force
    let ?ms = "ms @ [(MPut, k, v)]"
    have wf: "record_wf (MPut, k, v)" using Cons.prems(4) x by simp
    have fits: "2 + length ms \<le> u64_max" "length (log_image crc ?ms) \<le> u64_max"
      using Cons.prems(5,6) by (simp_all add: x length_log_image records_length_def)
    note put = log_put_exact [OF Cons.prems(1-3) wf fits]
    obtain f w1 where f: "gw_next_fault w = (f, w1)" by force
    show ?case
    proof (cases f)
      case None
      obtain e1 where e1: "log_put crc None e k v = (Inr (om_lookup (le_values e) k), e1)"
        "log_holds crc e1 ?ms" "le_file_open e1" "\<not> le_poisoned e1"
        using put(1) by blast
      let ?w2 = "w1\<lparr>gw_entries := om_insert path (RegularFile (le_disk e1)) (gw_entries w1)\<rparr>"
      have "copy_entries crc path (map (\<lambda>(k, v). \<lparr>ie_key = k, ie_value_bytes = length v, ie_value = Some v\<rparr>) xs) e1 ?w2 = (r, w')"
        using Cons.prems(8) by (simp add: x f None e1(1) Let_def)
      moreover have "\<forall>(k, v) \<in> set xs. record_wf (MPut, k, v)" "1 + length ?ms + length xs \<le> u64_max"
        "length (log_image crc (?ms @ map (\<lambda>(k, v). (MPut, k, v)) xs)) \<le> u64_max"
        "gw_file ?w2 path = Some (RegularFile (le_disk e1))"
        using Cons.prems(4-6) by (simp_all add: x gw_file_def)
      ultimately have "(r = Inr () \<longrightarrow> gw_file w' path = Some (RegularFile (log_image crc (?ms @ map (\<lambda>(k, v). (MPut, k, v)) xs)))) \<and>
          (gw_faults ?w2 = [] \<longrightarrow> r = Inr () \<and> gw_faults w' = [])"
        using Cons.IH [OF e1(2-4)] by blast
      moreover have "gw_faults w = [] \<Longrightarrow> gw_faults w1 = []" using f by simp
      ultimately show ?thesis by (auto simp: x)
    next
      case (Some fault)
      obtain n err where n: "append_fault f = Some (n, err)" using Some by (cases fault) simp_all
      obtain p e1 where p: "log_put crc (Some (n, err)) e k v = (p, e1)" by force
      have "r = Inl (LcDatabase (Io err))"
        using Cons.prems(8) put(2) [OF p] by (simp add: x f n p Let_def)
      moreover have "gw_faults w \<noteq> []" using f Some by auto
      ultimately show ?thesis by simp
    qed
  qed
  then show "r = Inr () \<longrightarrow> gw_file w' path = Some (RegularFile (log_image crc (ms @ map (\<lambda>(k, v). (MPut, k, v)) xs)))"
    and "gw_faults w = [] \<longrightarrow> r = Inr () \<and> gw_faults w' = []" by blast+
qed

lemma staging_not_canonical [simp]: "\<not> is_canonical_generation_path (Some (staging_path output))"
  by (simp add: is_canonical_generation_path_def strip_prefix_def staging_path_def GENERATION_PREFIX_def ascii_def)

lemma build_staging_run:
  assumes "build_staging crc st source w = (r, w')" "ir_entries source = inspection_entries m"
    "gw_file w st = None" "\<not> is_canonical_generation_path (Some st)"
    "\<forall>q \<in> set (live_records m). record_wf q" "1 + om_size m \<le> u64_max" "length (log_image crc (live_records m)) \<le> u64_max"
  shows "r = Inr () \<longrightarrow> gw_file w' st = Some (RegularFile (log_image crc (live_records m)))"
    and "gw_faults w = [] \<longrightarrow> r = Inr () \<and> gw_faults w' = []"
proof -
  let ?e = "fresh_log crc (Some st) OwnStandalone"
  let ?m = "sbind (smap_err (\<lambda>k. LcDatabase (Io k)) (fs_create_new st (le_disk ?e)))
             (\<lambda>_. copy_entries crc st (ir_entries source) ?e)"
  obtain r0 w0 where run: "?m w = (r0, w0)" by force
  have res: "r = r0" "r0 = Inr () \<Longrightarrow> w' = w0"
    using assms(1,3) log_create_new_fresh [OF assms(4), of crc] run
    by (auto simp: build_staging_def cleanup_on_error_def split: sum.splits)
  have e: "log_holds crc ?e []" "le_file_open ?e" "\<not> le_poisoned ?e" "le_disk ?e = log_image crc []"
    by (simp_all add: log_holds_fresh) (simp_all add: fresh_log_def log_image_Nil)
  have wf: "\<forall>(k, v) \<in> set (entries m). record_wf (MPut, k, v)"
    using assms(5) by (auto simp: live_records_def)
  have main: "(r0 = Inr () \<longrightarrow> gw_file w0 st = Some (RegularFile (log_image crc (live_records m)))) \<and>
      (gw_faults w = [] \<longrightarrow> r0 = Inr () \<and> gw_faults w0 = [])"
    using run
  proof (cases rule: sbind_cases)
    case (fail err)
    from fail(1) obtain k where k: "fs_create_new st (le_disk ?e) w = (Inl k, w0)"
      by (auto elim!: smap_err_cases simp: map_err_def split: sum.splits)
    have "gw_faults w \<noteq> []"
    proof
      assume "gw_faults w = []"
      then show False using k gw_quiet(1) [of w st "le_disk ?e"] assms(3) by simp
    qed
    then show ?thesis using fail(2) by simp
  next
    case (run u w1)
    from run(1) have c: "fs_create_new st (le_disk ?e) w = (Inr (), w1)"
      by (auto elim!: smap_err_cases simp: map_err_def split: sum.splits)
    then have st: "gw_file w1 st = Some (RegularFile (le_disk ?e))"
      by (cases rule: fs_create_cases) (simp_all add: gw_file_def)
    have q: "gw_faults w1 = []" if "gw_faults w = []"
      using c gw_quiet(1) [OF that assms(3), of "le_disk ?e"] that by auto
    note copy = copy_entries_run [OF e(1-3) wf _ _ st run(2) [unfolded assms(2) inspection_entries_def]]
    show ?thesis
      using copy assms(6,7) q by (auto simp: live_records_def om_size_def)
  qed
  then show "r = Inr () \<longrightarrow> gw_file w' st = Some (RegularFile (log_image crc (live_records m)))"
    and "gw_faults w = [] \<longrightarrow> r = Inr () \<and> gw_faults w' = []"
    using res by auto
qed


lemma remove_quiet_or_fault:
  assumes "fs_remove_file path w = (r, w')" "gw_file w path = Some (RegularFile f)"
  shows "gw_file w' path = (if r = Inr () then None else Some (RegularFile f))" "r \<noteq> Inl NotFound \<or> gw_faults w \<noteq> []"
    "gw_faults w = [] \<Longrightarrow> r = Inr ()"
proof -
  from assms show "gw_file w' path = (if r = Inr () then None else Some (RegularFile f))"
    by (cases rule: fs_remove_cases) (auto simp: gw_file_def)
  show "gw_faults w = [] \<Longrightarrow> r = Inr ()" using assms by simp
  then show "r \<noteq> Inl NotFound \<or> gw_faults w \<noteq> []" by auto
qed

lemma publish_compacted_run:
  assumes "publish_compacted crc source output st (image_report crc ms) (image_inspection crc ms) w = (r, w')"
    and wf: "\<forall>q \<in> set ms. record_wf q" "length ms < u64_max" "length (log_image crc ms) \<le> u64_max"
    and files: "gw_file w source = Some (RegularFile (log_image crc ms))" "gw_file w output = None"
      "gw_file w st = Some (RegularFile (log_image crc (live_records (log_replay om_empty ms))))" "output \<noteq> st"
  shows "gw_faults w = [] \<longrightarrow> is_ok r \<and> gw_file w' st = None"
    and "\<forall>e. r = Inl e \<longrightarrow> gw_file w' output = None"
    and "\<forall>report. r = Inr report \<longrightarrow>
       gw_file w' output = Some (RegularFile (log_image crc (live_records (log_replay om_empty ms)))) \<and>
       lr_live_keys report = om_size (log_replay om_empty ms) \<and>
       lr_compacted_record_count report = om_size (log_replay om_empty ms) \<and>
       lr_source_file_bytes report = length (log_image crc ms) \<and>
       lr_source_file_bytes report = lr_reclaimed_bytes report + lr_compacted_file_bytes report \<and>
       lr_compacted_file_bytes report = length (log_image crc (live_records (log_replay om_empty ms)))"
proof -
  let ?vs = "log_replay om_empty ms"
  let ?img = "log_image crc (live_records ?vs)"
  have live: "\<forall>q \<in> set (live_records ?vs). record_wf q" "length (live_records ?vs) < u64_max" "length ?img \<le> u64_max"
    using live_records_wf [OF wf(1)] compact_shrinks [of ms] wf by (simp_all add: length_log_image)
  have src: "log_inspect crc (log_image crc ms) True = Inr (image_inspection crc ms)" by (rule log_inspect_image [OF wf])
  have out: "log_inspect crc ?img True = Inr (image_inspection crc (live_records ?vs))" by (rule log_inspect_image [OF live])
  have valid: "validate_compacted_state (image_inspection crc ms) (image_inspection crc (live_records ?vs)) = Inr ()"
    by (simp add: validate_compacted_state_def image_inspection_def image_report_def inspection_entries_def om_size_def)
  have sub: "checked_sub64 (length (log_image crc ms)) (length ?img) = Some (length (log_image crc ms) - length ?img)"
    "length ?img \<le> length (log_image crc ms)"
    using compact_shrinks(1) [of ms] by (simp_all add: checked_sub64_def length_log_image)
  define fin where "fin removed = \<lparr>lr_file_format_version = 1, lr_source_file_bytes = length (log_image crc ms),
      lr_source_record_count = length ms, lr_live_keys = om_size ?vs, lr_compacted_file_bytes = length ?img,
      lr_compacted_record_count = om_size ?vs, lr_reclaimed_bytes = length (log_image crc ms) - length ?img,
      lr_staging_retained = (removed \<noteq> Inr () \<and> removed \<noteq> Inl NotFound)\<rparr>" for removed
  obtain rl wl where link: "fs_hard_link st output w = (rl, wl)" by force
  let ?P = "(gw_faults w = [] \<longrightarrow> is_ok r \<and> gw_file w' st = None) \<and>
    (\<forall>e. r = Inl e \<longrightarrow> gw_file w' output = None) \<and>
    (\<forall>report. r = Inr report \<longrightarrow> gw_file w' output = Some (RegularFile ?img) \<and>
       lr_live_keys report = om_size ?vs \<and> lr_compacted_record_count report = om_size ?vs \<and>
       lr_source_file_bytes report = length (log_image crc ms) \<and>
       lr_source_file_bytes report = lr_reclaimed_bytes report + lr_compacted_file_bytes report \<and>
       lr_compacted_file_bytes report = length ?img)"
  have pre: "publish_compacted crc source output st (image_report crc ms) (image_inspection crc ms) w =
      sbind (publish_staging st output) (\<lambda>_.
      sbind (cleanup_on_error [output, st] (sask (\<lambda>w.
            rbind (map_err LcDatabase (inspect_path crc output w)) (\<lambda>report.
            rbind (ensure (report = image_inspection crc (live_records ?vs)) LcInvalid) (\<lambda>_. Inr report))))) (\<lambda>published.
      sbind (cleanup_on_error [output, st] (slift (ok_or
            (checked_sub64 (length (log_image crc ms)) (vr_file_bytes (ir_verification published)))
            LcInvalid))) (\<lambda>reclaimed_bytes.
      sbind (strycatch (fs_remove_file st)) (\<lambda>removed.
      sret \<lparr>lr_file_format_version = vr_file_format_version (ir_verification published),
         lr_source_file_bytes = length (log_image crc ms),
         lr_source_record_count = length ms, lr_live_keys = om_size ?vs,
         lr_compacted_file_bytes = vr_file_bytes (ir_verification published),
         lr_compacted_record_count = vr_record_count (ir_verification published),
         lr_reclaimed_bytes = reclaimed_bytes,
         lr_staging_retained = (removed \<noteq> Inr () \<and> removed \<noteq> Inl NotFound)\<rparr>)))) w"
    unfolding publish_compacted_def
    by (simp add: sbind_def [of "cleanup_on_error _ _"] cleanup_on_error_def [of _ "sask _"] cleanup_on_error_def [of _ "slift _"]
        sask_run slift_def inspect_path_file [OF files(1)] inspect_path_file [OF files(3)] src out valid image_report_def)
  have ?P
  proof (cases rl)
    case (Inl k)
    have "r = Inl (LcIo k)" "w' = snd (fs_remove_file st wl)"
      using assms(1) Inl by (simp_all add: pre sbind_def publish_staging_def cleanup_on_error_def smap_err_def link)
    moreover have "gw_faults w \<noteq> []"
    proof
      assume "gw_faults w = []"
      then show False using link files(2,3) Inl by simp
    qed
    moreover have "gw_file wl output = None"
      using link files(2) Inl by (cases rule: fs_link_cases) (simp_all add: gw_file_def)
    moreover have "gw_file (snd (fs_remove_file st wl)) output = gw_file wl output"
      using removes_confined [of "[st]" "{st}" wl] files(4) by (simp add: confined_def)
    ultimately show ?thesis by simp
  next
    case (Inr u)
    from link have wl: "gw_file wl output = Some (RegularFile ?img) \<and> gw_file wl st = Some (RegularFile ?img)"
      by (cases rule: fs_link_cases) (use Inr files(3) in \<open>simp_all add: gw_file_def\<close>)
    note wl = conjunct1 [OF wl] conjunct2 [OF wl]
    obtain rr wr where rm: "fs_remove_file st wl = (rr, wr)" by force
    have res: "r = Inr (fin rr)" "w' = wr"
      using assms(1) [unfolded pre] Inr
      by (simp_all add: sbind_def publish_staging_def cleanup_on_error_def smap_err_def link sask_run
          inspect_path_file [OF wl(1)] out sub slift_def strycatch_def rm sret_def fin_def image_inspection_def
          image_report_def)
    have gone: "gw_file wr st = (if rr = Inr () then None else Some (RegularFile ?img))"
      by (rule remove_quiet_or_fault(1) [OF rm wl(2)])
    have "gw_file wr output = Some (RegularFile ?img)"
      using rm wl(1) files(4) by (cases rule: fs_remove_cases) (simp_all add: gw_file_def)
    moreover have "rr = Inr ()" if "gw_faults w = []"
    proof -
      have "gw_faults wl = []" using link that files(2,3) by auto
      then show ?thesis by (rule remove_quiet_or_fault(3) [OF rm wl(2)])
    qed
    ultimately show ?thesis using res gone sub(2) by (auto simp: fin_def is_ok_def)
  qed
  then show "gw_faults w = [] \<longrightarrow> is_ok r \<and> gw_file w' st = None"
    "\<forall>e. r = Inl e \<longrightarrow> gw_file w' output = None"
    "\<forall>report. r = Inr report \<longrightarrow>
       gw_file w' output = Some (RegularFile ?img) \<and>
       lr_live_keys report = om_size ?vs \<and> lr_compacted_record_count report = om_size ?vs \<and>
       lr_source_file_bytes report = length (log_image crc ms) \<and>
       lr_source_file_bytes report = lr_reclaimed_bytes report + lr_compacted_file_bytes report \<and>
       lr_compacted_file_bytes report = length ?img"
    by blast+
qed


lemma compact_copy_run:
  assumes "\<forall>m \<in> set ms. record_wf m" "length ms < u64_max" "length (log_image crc ms) \<le> u64_max"
    and "gw_file w source = Some (RegularFile (log_image crc ms))" "gw_file w output = None"
    and "gw_file w (staging_path output) = None" "compact_log_to_fresh_file crc source output w = (r, w')"
  shows "confined {output, staging_path output} w w' \<and>
    (\<forall>e. r = Inl e \<longrightarrow> gw_file w' output = None) \<and>
    (gw_faults w = [] \<longrightarrow> is_ok r \<and> gw_file w' (staging_path output) = None) \<and>
    (\<forall>report. r = Inr report \<longrightarrow>
       gw_file w' output = Some (RegularFile (log_image crc (live_records (log_replay om_empty ms)))) \<and>
       lr_compacted_record_count report = om_size (log_replay om_empty ms) \<and>
       lr_live_keys report = om_size (log_replay om_empty ms) \<and>
       lr_source_file_bytes report = length (log_image crc ms) \<and>
       lr_source_file_bytes report = lr_reclaimed_bytes report + lr_compacted_file_bytes report)"
proof -
  let ?st = "staging_path output" and ?vs = "log_replay om_empty ms"
  have confined: "confined {output, ?st} w w'"
    by (rule keepsD [OF keeps_compact_log assms(7)]) simp
  have distinct: "output \<noteq> ?st" "source \<noteq> output" "source \<noteq> ?st"
  proof -
    have "length output \<noteq> length ?st" by (simp add: staging_path_def ascii_def)
    then show "output \<noteq> ?st" by metis
    show "source \<noteq> output" "source \<noteq> ?st" using assms(4-6) by auto
  qed
  have live: "\<forall>q \<in> set (live_records ?vs). record_wf q" "1 + om_size ?vs \<le> u64_max"
    "length (log_image crc (live_records ?vs)) \<le> u64_max"
    using live_records_wf [OF assms(1)] compact_shrinks [of ms] assms(2,3) by (simp_all add: length_log_image)
  obtain rb wb where build: "build_staging crc ?st (image_inspection crc ms) w = (rb, wb)" by force
  have entries: "ir_entries (image_inspection crc ms) = inspection_entries ?vs" by (simp add: image_inspection_def)
  note built = build_staging_run [OF build entries assms(6) staging_not_canonical live]
  have run: "(r, w') = (case rb of Inl e \<Rightarrow> (Inl e, wb)
      | Inr _ \<Rightarrow> publish_compacted crc source output ?st (image_report crc ms) (image_inspection crc ms) wb)"
    using assms(4-6) distinct log_verify_image [OF assms(1-3)] log_inspect_image [OF assms(1-3)] build
    unfolding assms(7) [symmetric] compact_log_to_fresh_file_def Let_def
    by (simp add: lc_require_regular_def lc_require_absent_def act_simps inspect_path_file [OF assms(4)]
        sbind_def [of "build_staging _ _ _"] sbind_def [of "slift _"] image_report_def image_inspection_def
        split: sum.split)
  have wb: "confined {?st} w wb" by (rule keepsD [OF keeps_build_staging build]) simp
  then have kept: "gw_file wb source = Some (RegularFile (log_image crc ms))" "gw_file wb output = None"
    using assms(4,5) distinct by (simp_all add: confined_def)
  show ?thesis
  proof (cases rb)
    case (Inl e)
    then have "r = Inl e" "w' = wb" using run by simp_all
    then show ?thesis using confined kept(2) built(2) Inl by (simp add: confined_def)
  next
    case (Inr u)
    then have "publish_compacted crc source output ?st (image_report crc ms) (image_inspection crc ms) wb = (r, w')"
      using run by simp
    from publish_compacted_run [OF this assms(1-3) kept _ distinct(1)] built Inr confined
    show ?thesis by (auto simp: confined_def)
  qed
qed


text \<open>C15 (compact): compacting a clean log to a fresh name of its directory.  Whatever fails on the
  way, nothing but the output and its staging name is touched, and on an error there is no output.  On
  success the output is the image of one put per live key in key order, so it holds the same map, and
  the report's sizes add up (the copy is never longer than its source); and when nothing fails the
  copy succeeds and leaves no staging file.\<close>

theorem compact_copy_correct:
  assumes "\<forall>m \<in> set ms. record_wf m" "length ms < u64_max" "length (log_image crc ms) \<le> u64_max"
    and "gw_file w source = Some (RegularFile (log_image crc ms))" "gw_file w output = None"
    and "gw_file w (staging_path output) = None" "compact_log_to_fresh_file crc source output w = (r, w')"
  shows "(\<forall>name. name \<noteq> output \<longrightarrow> name \<noteq> staging_path output \<longrightarrow> gw_file w' name = gw_file w name) \<and>
    (\<forall>e. r = Inl e \<longrightarrow> gw_file w' output = None) \<and>
    (gw_faults w = [] \<longrightarrow> is_ok r \<and> gw_file w' (staging_path output) = None) \<and>
    (\<forall>report. r = Inr report \<longrightarrow>
       gw_file w' output = Some (RegularFile (log_image crc (live_records (log_replay om_empty ms)))) \<and>
       log_replay om_empty (live_records (log_replay om_empty ms)) = log_replay om_empty ms \<and>
       lr_compacted_record_count report = om_size (log_replay om_empty ms) \<and>
       lr_live_keys report = om_size (log_replay om_empty ms) \<and>
       lr_source_file_bytes report = length (log_image crc ms) \<and>
       lr_source_file_bytes report = lr_reclaimed_bytes report + lr_compacted_file_bytes report)"
  using compact_copy_run [OF assms] by (auto simp: confined_def)

definition two_puts_world :: "(bytes \<Rightarrow> 32 word) \<Rightarrow> gen_world" where
  "two_puts_world crc =
     \<lparr>gw_entries = om_insert [1] (RegularFile (log_image crc [(MPut, [1], [2]), (MPut, [1], [3])])) om_empty,
      gw_lock = None, gw_faults = []\<rparr>"

lemma compact_copy_correct_witness:
  "\<exists>report w'. compact_log_to_fresh_file (\<lambda>_. 0) [1] [2] (two_puts_world (\<lambda>_. 0)) = (Inr report, w') \<and>
    lr_live_keys report = 1 \<and> lr_reclaimed_bytes report + lr_compacted_file_bytes report = 84 \<and>
    gw_file w' [2] = Some (RegularFile (log_image (\<lambda>_. 0) [(MPut, [1], [3])]))"
proof -
  let ?c = "\<lambda>_. 0 :: 32 word" and ?ms = "[(MPut, [1], [2]), (MPut, [1], [3])]"
  obtain r w' where run: "compact_log_to_fresh_file ?c [1] [2] (two_puts_world ?c) = (r, w')" by force
  have "\<forall>m \<in> set ?ms. record_wf m" "length ?ms < u64_max" "length (log_image ?c ?ms) \<le> u64_max"
    by (simp_all add: record_wf_def MAX_KEY_BYTES_def MAX_VALUE_BYTES_def u64_max_def length_log_image records_length_def)
  moreover have "gw_file (two_puts_world ?c) [1] = Some (RegularFile (log_image ?c ?ms))"
    "gw_file (two_puts_world ?c) [2] = None" "gw_file (two_puts_world ?c) (staging_path [2]) = None"
    "gw_faults (two_puts_world ?c) = []"
    by (simp_all add: two_puts_world_def gw_file_def staging_path_def ascii_def)
  moreover have "live_records (log_replay om_empty ?ms) = [(MPut, [1], [3])]" "om_size (log_replay om_empty ?ms) = 1"
    by (simp_all add: live_records_def entries_insert om_size_def)
  moreover have "length (log_image ?c ?ms) = 84" "length (log_image ?c [(MPut, [1], [3])]) = 50"
    by (simp_all add: length_log_image records_length_def)
  ultimately show ?thesis
    using compact_copy_correct [of ?ms ?c "two_puts_world ?c" "[1]" "[2]" r w'] run
    by (auto simp: is_ok_iff)
qed



subsection \<open>The offline switch\<close>

lemma staging_not_kind [simp]: "staging_path output \<noteq> kind_name k" "kind_name k \<noteq> staging_path output"
proof -
  have "hd (staging_path output) = 0x2E" by (simp add: staging_path_def ascii_def)
  moreover have "hd (kind_name k) \<noteq> 0x2E" unfolding hd_kind_name by (simp split: name_kind.split)
  ultimately show "staging_path output \<noteq> kind_name k" "kind_name k \<noteq> staging_path output" by metis+
qed

lemma staging_not_canonical_name [simp]:
  "canonical_generation_name i \<noteq> staging_path output" "canonical_marker_name i \<noteq> staging_path output"
  "canonical_staging_marker_name i \<noteq> staging_path output" "canonical_reservation_name i \<noteq> staging_path output"
  "staging_path output \<noteq> canonical_reservation_name i"
  using staging_not_kind(1) [where k = "KReservation i"] staging_not_kind(2) [of "KGeneration i"] staging_not_kind(2) [of "KMarker i"]
    staging_not_kind(2) [of "KStaging i"] staging_not_kind(2) [of "KReservation i"] by simp_all

lemma verify_content:
  assumes "verify_generation_directory crc d = Inr v"
  obtains f sc where "om_lookup d (canonical_generation_name (gs_authoritative_generation v)) = Some (RegularFile f)"
    "log_scan_file crc f = Inr sc" "gen_content crc d = sc_values sc"
proof -
  obtain f where f: "om_lookup d (gs_authoritative_log v) = Some (RegularFile f)"
    "log_verify crc f = Inr (gs_log_verification v)"
    using assms unfolding verify_generation_directory_def by (auto simp: result_iff require_real_Inr)
  then obtain sc where sc: "log_scan_file crc f = Inr sc" by (auto simp: log_verify_def result_iff)
  moreover have "gs_authoritative_log v = canonical_generation_name (gs_authoritative_generation v)"
    by (rule verify_authority_top [OF assms])
  ultimately show thesis
    using that [of f sc] f(1) assms by (simp add: gen_content_def)
qed

lemma verify_marker_bounds:
  assumes "verify_generation_directory crc d = Inr v"
  shows "om_lookup d (canonical_marker_name (gs_authoritative_generation v)) \<noteq> None"
    "om_lookup d (canonical_marker_name i) \<noteq> None \<Longrightarrow> i \<le> gs_authoritative_generation v"
    "om_lookup d k \<noteq> None \<Longrightarrow> \<exists>j. k = kind_name j"
proof -
  obtain ns where ns: "scan_generation_namespace d = Inr ns"
    "last_key (ns_marker_files ns) = Some (gs_authoritative_generation v)"
    by (rule verify_authority_top [OF assms])
  note get = scan_namespace_Inr(2) [OF ns(1), of "KMarker _"]
  show "om_lookup d (canonical_marker_name (gs_authoritative_generation v)) \<noteq> None"
    "om_lookup d (canonical_marker_name i) \<noteq> None \<Longrightarrow> i \<le> gs_authoritative_generation v"
    using ns(2) get by (auto simp: last_key_Some split: if_splits)
  show "om_lookup d k \<noteq> None \<Longrightarrow> \<exists>j. k = kind_name j"
    using scan_namespace_Inr(1) [OF ns(1)] unfolding namespace_ok_def by blast
qed

text \<open>A directory that differs from a verified one only in names of a fresh id.\<close>

definition fresh_names :: "nat \<Rightarrow> bytes set" where
  "fresh_names n = {canonical_reservation_name n, canonical_generation_name n, staging_path (canonical_generation_name n),
     canonical_marker_name n, canonical_staging_marker_name n}"

definition same_outside :: "bytes set \<Rightarrow> gen_world \<Rightarrow> gen_world \<Rightarrow> bool" where
  "same_outside S w w' \<longleftrightarrow> (\<forall>k. k \<notin> S \<longrightarrow> gw_file w' k = gw_file w k)"

lemma same_outside_trans: "same_outside S w w' \<Longrightarrow> same_outside S w' w'' \<Longrightarrow> same_outside S w w''"
  by (simp add: same_outside_def)

lemma confined_same: "confined T w w' \<Longrightarrow> T \<subseteq> S \<Longrightarrow> same_outside S w w'"
  by (auto simp: confined_def same_outside_def)

lemma same_entries: "gw_entries w' = gw_entries w \<Longrightarrow> same_outside S w w'"
  by (simp add: same_outside_def gw_file_def)

lemma old_or_new:
  assumes "verify_generation_directory crc (gw_entries w) = Inr v" "same_outside (fresh_names n) w w'"
    "gs_highest_observed_generation v < n" "verify_generation_directory crc (gw_entries w') = Inr v'"
  shows "gs_authoritative_generation v' = gs_authoritative_generation v \<and>
      gen_content crc (gw_entries w') = gen_content crc (gw_entries w) \<or>
    gs_authoritative_generation v' = n \<and> gw_file w' (canonical_marker_name n) \<noteq> None"
proof -
  let ?g = "gs_authoritative_generation v" and ?g' = "gs_authoritative_generation v'"
  note top = verify_marker_bounds [OF assms(1)] and top' = verify_marker_bounds [OF assms(4)]
  have old: "?g < n" using verify_generation_ids(1) [OF assms(1), of "KMarker ?g"] top(1) assms(3) by simp
  have markers: "om_lookup (gw_entries w') (canonical_marker_name i) = om_lookup (gw_entries w) (canonical_marker_name i)"
    if "i \<noteq> n" for i
    using assms(2) that staging_not_kind(2) [of "KMarker i"] by (auto simp: same_outside_def fresh_names_def gw_file_def)
  show ?thesis
  proof (cases "?g' = n")
    case True
    then show ?thesis using top'(1) by (simp add: gw_file_def)
  next
    case False
    have "?g' = ?g"
      using markers [OF False] top'(1) top(2) [of ?g'] markers [of ?g] top(1) top'(2) [of ?g] old by simp
    moreover have "om_lookup (gw_entries w') (canonical_generation_name ?g) = om_lookup (gw_entries w) (canonical_generation_name ?g)"
      using assms(2) old staging_not_kind(2) [of "KGeneration ?g"]
      by (auto simp: same_outside_def fresh_names_def gw_file_def)
    ultimately have "gen_content crc (gw_entries w') = gen_content crc (gw_entries w)"
      using verify_content [OF assms(1)] verify_content [OF assms(4)] by (metis dir_entry.inject option.inject sum.inject(2))
    with \<open>?g' = ?g\<close> show ?thesis by simp
  qed
qed

lemma old_names_kept:
  assumes "verify_generation_directory crc (gw_entries w) = Inr v" "same_outside (fresh_names n) w w'"
    "gs_highest_observed_generation v < n" "gw_file w k = Some c"
  shows "gw_file w' k = Some c"
proof -
  obtain j where j: "k = kind_name j" using verify_marker_bounds(3) [OF assms(1), of k] assms(4) by (auto simp: gw_file_def)
  then have "kind_id j < n"
    using verify_generation_ids(1) [OF assms(1), of j] assms(3,4) by (simp add: gw_file_def)
  then have "k \<notin> fresh_names n" by (cases j) (auto simp: j fresh_names_def)
  with assms(2,4) show ?thesis by (simp add: same_outside_def)
qed


lemma keeps_publish_marker:
  "{canonical_marker_name n, canonical_staging_marker_name n} \<subseteq> S \<Longrightarrow>
     keeps (confined S) (publish_generation_marker crc n)"
proof -
  assume s: "{canonical_marker_name n, canonical_staging_marker_name n} \<subseteq> S"
  have remove: "keeps (confined S) (remove_stale_staging_if_safe (canonical_staging_marker_name n))"
  proof (rule keepsI)
    fix w r w'
    assume run: "remove_stale_staging_if_safe (canonical_staging_marker_name n) w = (r, w')"
    have "keeps (confined S) (smap_err PubIo (fs_remove_file (canonical_staging_marker_name n)))"
      using s by (intro keeps_map_err keeps_remove) simp
    then show "confined S w w'"
      using run confined_refl [of S]
      by (auto simp: remove_stale_staging_if_safe_def reflp_def dest: keepsD split: option.splits dir_entry.splits)
  qed
  then show ?thesis
    unfolding publish_generation_marker_def publish_derived_marker_def Let_def
    using s by (intro keeps_confined_bind keeps_ask keeps_confined_pure keeps_map_err keeps_link keeps_create keeps_sync
        keeps_try keeps_remove) simp_all
qed

lemma critical_section_run:
  assumes "switch_critical_section crc before ss n w = (r, w')"
  shows "confined {canonical_marker_name n, canonical_staging_marker_name n} w w'"
    and "gw_entries w' = gw_entries w \<or>
      inspect_path crc (gs_authoritative_log before) w = Inr ss \<and>
      (\<exists>cs. inspect_path crc (canonical_generation_name n) w = Inr cs \<and> ir_entries cs = ir_entries ss)"
    and "\<forall>p fv. r = Inr (p, fv) \<longrightarrow>
      verify_generation_directory crc (gw_entries w') = Inr fv \<and> gs_authoritative_generation fv = n"
proof -
  let ?S = "{canonical_marker_name n, canonical_staging_marker_name n}"
  have refl: "confined ?S w w" using confined_refl by (simp add: reflp_def)
  let ?Q = "\<lambda>r w'. gw_entries w' = gw_entries w \<or>
      inspect_path crc (gs_authoritative_log before) w = Inr ss \<and>
      (\<exists>cs. inspect_path crc (canonical_generation_name n) w = Inr cs \<and> ir_entries cs = ir_entries ss)"
  have "confined ?S w w' \<and> ?Q r w' \<and> (\<forall>p fv. r = Inr (p, fv) \<longrightarrow>
      verify_generation_directory crc (gw_entries w') = Inr fv \<and> gs_authoritative_generation fv = n)"
    using assms [unfolded switch_critical_section_def Let_def]
  proof (cases rule: bind_ask)
    case (ok bp)
    from ok(2) show ?thesis
    proof (cases rule: bind_ask)
      case (ok cur)
      then have cur: "inspect_path crc (gs_authoritative_log before) w = Inr cur" by (simp add: result_iff)
      from ok(2) show ?thesis
      proof (cases rule: bind_lift)
        case (ok u)
        then have "cur = ss" by (simp add: result_iff)
        with cur have src: "inspect_path crc (gs_authoritative_log before) w = Inr ss" by simp
        from ok(2) show ?thesis
        proof (cases rule: bind_ask)
          case (ok cs)
          then have cs: "inspect_path crc (canonical_generation_name n) w = Inr cs" by (simp add: result_iff)
          from ok(2) show ?thesis
          proof (cases rule: bind_lift)
            case (ok u)
            then have "ir_entries cs = ir_entries ss" by (simp add: validate_compact_state_def split: if_splits)
            with src cs have q: "?Q r w'" by blast
            from ok(2) show ?thesis
            proof (cases rule: sbind_cases)
              case (fail e)
              have "keeps (confined ?S) (smap_err SwPublication (publish_generation_marker crc n))"
                by (intro keeps_map_err keeps_publish_marker) simp
              then have "confined ?S w w'" using fail(1) by (rule keepsD)
              with q fail(2) show ?thesis by simp
            next
              case (run pub w1)
              have "keeps (confined ?S) (smap_err SwPublication (publish_generation_marker crc n))"
                by (intro keeps_map_err keeps_publish_marker) simp
              then have c: "confined ?S w w1" using run(1) by (rule keepsD)
              from run(2) have "w' = w1 \<and> (\<forall>p fv. r = Inr (p, fv) \<longrightarrow>
                  verify_generation_directory crc (gw_entries w1) = Inr fv \<and> gs_authoritative_generation fv = n)"
                by (auto simp: sbind_def [of "slift _"] slift_def sret_def verify_directory_step_def result_iff
                    split: sum.splits)
              with c q show ?thesis by simp
            qed
          qed (use refl in simp)
        qed (use refl in simp)
      qed (use refl in simp)
    qed (use refl in simp)
  qed (use refl in simp)
  then show "confined ?S w w'" "?Q r w'" "\<forall>p fv. r = Inr (p, fv) \<longrightarrow>
      verify_generation_directory crc (gw_entries w') = Inr fv \<and> gs_authoritative_generation fv = n"
    by blast+
qed


lemma inspect_path_entries:
  assumes "inspect_path crc path w = Inr rep" "gw_file w path = Some (RegularFile f)" "log_scan_file crc f = Inr sc"
  shows "ir_entries rep = inspection_entries (sc_values sc)"
  using assms by (simp add: inspect_path_file log_inspect_eq) auto

lemma fresh_absent:
  assumes "verify_generation_directory crc (gw_entries w) = Inr v" "gs_highest_observed_generation v < n" "n \<le> kind_id k"
  shows "gw_file w (kind_name k) = None"
  using verify_generation_ids(1) [OF assms(1), of k] assms(2,3) by (fastforce simp: gw_file_def)

lemma inspect_path_cong: "gw_entries w' = gw_entries w \<Longrightarrow> inspect_path crc path w' = inspect_path crc path w"
  by (simp add: inspect_path_def gw_read_def gw_file_def)

lemma leased_switch:
  assumes "with_lease SwWriterLock owner (switch_critical_section crc before ss n) w = (r, w')"
  shows "same_outside {canonical_marker_name n, canonical_staging_marker_name n} w w'"
    and "gw_entries w' = gw_entries w \<or>
      inspect_path crc (gs_authoritative_log before) w = Inr ss \<and>
      (\<exists>cs. inspect_path crc (canonical_generation_name n) w = Inr cs \<and> ir_entries cs = ir_entries ss)"
    and "\<forall>p fv. r = Inr (p, fv) \<longrightarrow>
      verify_generation_directory crc (gw_entries w') = Inr fv \<and> gs_authoritative_generation fv = n"
proof -
  let ?S = "{canonical_marker_name n, canonical_staging_marker_name n}"
  let ?Q = "\<lambda>w w'. gw_entries w' = gw_entries w \<or>
      inspect_path crc (gs_authoritative_log before) w = Inr ss \<and>
      (\<exists>cs. inspect_path crc (canonical_generation_name n) w = Inr cs \<and> ir_entries cs = ir_entries ss)"
  have "same_outside ?S w w' \<and> ?Q w w' \<and> (\<forall>p fv. r = Inr (p, fv) \<longrightarrow>
      verify_generation_directory crc (gw_entries w') = Inr fv \<and> gs_authoritative_generation fv = n)"
    using assms
  proof (cases rule: with_lease_cases)
    case (fail e)
    then show ?thesis by (simp add: same_entries)
  next
    case (ran w1 w2)
    note run = critical_section_run [OF ran(4)]
    have "gw_file w k = gw_file w1 k" "gw_file w' k = gw_file w2 k" for k using ran(1,5) by (simp_all add: gw_file_def)
    then have "same_outside ?S w w'" using confined_same [OF run(1) subset_refl] by (simp add: same_outside_def)
    moreover have "?Q w w'" using run(2) ran(1,5) inspect_path_cong [OF ran(1)] by simp
    ultimately show ?thesis using run(3) ran(5) by simp
  qed
  then show "same_outside ?S w w'" "?Q w w'" "\<forall>p fv. r = Inr (p, fv) \<longrightarrow>
      verify_generation_directory crc (gw_entries w') = Inr fv \<and> gs_authoritative_generation fv = n"
    by blast+
qed

text \<open>What a run of the switch did, with the id it reserved.\<close>

lemma compact_switch_run:
  assumes "verify_generation_directory crc (gw_entries w) = Inr v" "files_fit (gw_entries w)"
    and "compact_switch_generation_offline crc owner1 owner2 w = (r, w')"
  obtains n where "gs_highest_observed_generation v < n" "same_outside (fresh_names n) w w'"
    "gw_file w' (canonical_marker_name n) = None \<or>
      (\<forall>f sc. gw_file w' (canonical_generation_name n) = Some (RegularFile f) \<longrightarrow> log_scan_file crc f = Inr sc \<longrightarrow>
         sc_values sc = gen_content crc (gw_entries w))"
    "\<forall>s. r = Inr s \<longrightarrow> cs_old_generation s = gs_authoritative_generation v \<and> cs_new_generation s = n \<and>
       verify_generation_directory crc (gw_entries w') = Inr (cs_final_generation s) \<and>
       gs_authoritative_generation (cs_final_generation s) = n"
proof -
  let ?goal = "\<lambda>n. gs_highest_observed_generation v < n \<and> same_outside (fresh_names n) w w' \<and>
    (gw_file w' (canonical_marker_name n) = None \<or>
      (\<forall>f sc. gw_file w' (canonical_generation_name n) = Some (RegularFile f) \<longrightarrow> log_scan_file crc f = Inr sc \<longrightarrow>
         sc_values sc = gen_content crc (gw_entries w))) \<and>
    (\<forall>s. r = Inr s \<longrightarrow> cs_old_generation s = gs_authoritative_generation v \<and> cs_new_generation s = n \<and>
       verify_generation_directory crc (gw_entries w') = Inr (cs_final_generation s) \<and>
       gs_authoritative_generation (cs_final_generation s) = n)"
  obtain rr w1 where res: "reserve_next_generation crc owner1 w = (rr, w1)" by force
  have "\<exists>n. ?goal n"
    using res assms(2)
  proof (cases rule: reserve_cases)
    case (unchanged e)
    let ?n = "gs_highest_observed_generation v + 1"
    have "r = Inl (SwReservation e)" "w' = w1"
      using assms(3) res unchanged(1) by (simp_all add: compact_switch_generation_offline_def sbind_def smap_err_def)
    then have "gw_file w' (canonical_marker_name ?n) = None" "r = Inl (SwReservation e)" "same_outside (fresh_names ?n) w w'"
      using fresh_absent [OF assms(1), of ?n "KMarker ?n"] unchanged(2) by (simp_all add: gw_file_def same_entries)
    then have "?goal ?n" by simp
    then show ?thesis ..
  next
    case (reserved n)
    obtain k where "om_lookup (gw_entries w) (kind_name k) \<noteq> None" "kind_id k = gs_highest_observed_generation v"
      using verify_generation_ids(2) [OF assms(1)] by blast
    then have n: "gs_highest_observed_generation v < n" using reserved(2) by metis
    have w1: "same_outside (fresh_names n) w w1" using reserved(1) by (auto simp: same_outside_def fresh_names_def gw_file_def)
    have unmarked: "gw_file w1 (canonical_marker_name n) = None"
      using fresh_absent [OF assms(1) n, of "KMarker n"] reserved(1) by (simp add: gw_file_def)
    have stop: "?goal n" if "same_outside (fresh_names n) w1 w'" "gw_file w' (canonical_marker_name n) = gw_file w1 (canonical_marker_name n)" "\<not> is_ok r"
      using that n same_outside_trans [OF w1 that(1)] unmarked by (auto simp: is_ok_def)
    have refl: "same_outside (fresh_names n) w1 w1" by (simp add: same_outside_def)
    from assms(3) [unfolded compact_switch_generation_offline_def] have "?goal n"
    proof (cases rule: bind_err)
      case (err e)
      then show ?thesis using res refl by (intro stop) simp_all
    next
      case (ok reservation w1')
      then have rr: "rr = Inr reservation" "w1' = w1" using res by simp_all
      have rid: "rs_generation reservation = n" using reserved(5) rr(1) by blast
      from ok(2) [unfolded rr(2)] show ?thesis
      proof (cases rule: bind_ask)
        case (err e)
        then show ?thesis using refl by (intro stop) simp_all
      next
        case (ok before)
        then have before: "verify_generation_directory crc (gw_entries w1) = Inr before"
          by (simp add: verify_directory_step_def result_iff)
        have g: "gs_authoritative_generation before = gs_authoritative_generation v"
          using old_or_new [OF assms(1) w1 n before] unmarked by auto
        have glog: "gs_authoritative_log before = canonical_generation_name (gs_authoritative_generation v)"
          using verify_authority_top [OF before] g by metis
        from ok(2) [unfolded Let_def rid g glog] show ?thesis
        proof (cases rule: bind_lift)
          case (err e)
          then show ?thesis using refl by (intro stop) simp_all
        next
          case (ok u)
          from ok(2) show ?thesis
          proof (cases rule: bind_ask)
            case (err e)
            then show ?thesis using refl by (intro stop) simp_all
          next
            case (ok ss)
            let ?c = "compact_log_to_fresh_file crc (canonical_generation_name (gs_authoritative_generation v)) (canonical_generation_name n)"
            let ?S = "{canonical_generation_name n, staging_path (canonical_generation_name n)}"
            have frame: "same_outside (fresh_names n) w1 x" "gw_file x (canonical_marker_name n) = gw_file w1 (canonical_marker_name n)"
              if "?c w1 = (rc, x)" for rc x
            proof -
              have c: "confined ?S w1 x" by (rule keepsD [OF keeps_compact_log that]) simp
              then show "same_outside (fresh_names n) w1 x" by (rule confined_same) (auto simp: fresh_names_def)
              show "gw_file x (canonical_marker_name n) = gw_file w1 (canonical_marker_name n)"
                using c by (simp add: confined_def)
            qed
            from ok(2) show ?thesis
            proof (cases rule: bind_err)
              case (err e)
              then show ?thesis using frame [OF err(1)] by (intro stop) simp_all
            next
              case (ok report w2)
              note f2 = frame [OF ok(1)]
              have w2: "same_outside (fresh_names n) w w2" by (rule same_outside_trans [OF w1 f2(1)])
              obtain ro w3 where lease: "with_lease SwWriterLock owner2 (switch_critical_section crc before ss n) w2 = (ro, w3)"
                by force
              note sw = leased_switch [OF lease]
              have w': "w' = w3" and out: "r = (case ro of Inl e \<Rightarrow> Inl e | Inr (publication, final_generation) \<Rightarrow>
                  Inr \<lparr>cs_old_generation = gs_authoritative_generation v, cs_new_generation = n,
                    cs_old_generation_log = canonical_generation_name (gs_authoritative_generation v),
                    cs_new_generation_log = canonical_generation_name n, cs_reservation = reservation,
                    cs_compaction = report, cs_publication = publication, cs_final_generation = final_generation\<rparr>)"
                using ok(2) lease by (auto simp: sbind_def sret_def split: sum.splits prod.splits)
              have "same_outside (fresh_names n) w2 w3"
                using sw(1) by (auto simp: same_outside_def fresh_names_def)
              then have same: "same_outside (fresh_names n) w w'" using same_outside_trans [OF w2] w' by simp
              have "gw_file w' (canonical_marker_name n) = None \<or>
                (\<forall>f sc. gw_file w' (canonical_generation_name n) = Some (RegularFile f) \<longrightarrow> log_scan_file crc f = Inr sc \<longrightarrow>
                   sc_values sc = gen_content crc (gw_entries w))"
                using sw(2)
              proof
                assume "gw_entries w3 = gw_entries w2"
                then have "gw_file w' (canonical_marker_name n) = None"
                  using f2(2) unmarked w' by (simp add: gw_file_def)
                then show ?thesis ..
              next
                assume "inspect_path crc (gs_authoritative_log before) w2 = Inr ss \<and>
                  (\<exists>cs. inspect_path crc (canonical_generation_name n) w2 = Inr cs \<and> ir_entries cs = ir_entries ss)"
                then obtain cs where i: "inspect_path crc (canonical_generation_name (gs_authoritative_generation v)) w2 = Inr ss"
                  "inspect_path crc (canonical_generation_name n) w2 = Inr cs" "ir_entries cs = ir_entries ss"
                  using glog by auto
                obtain f0 sc0 where src: "gw_file w (canonical_generation_name (gs_authoritative_generation v)) = Some (RegularFile f0)"
                  "log_scan_file crc f0 = Inr sc0" "gen_content crc (gw_entries w) = sc_values sc0"
                  using verify_content [OF assms(1)] unfolding gw_file_def .
                have "gw_file w2 (canonical_generation_name (gs_authoritative_generation v)) = Some (RegularFile f0)"
                  by (rule old_names_kept [OF assms(1) w2 n src(1)])
                note e0 = inspect_path_entries [OF i(1) this src(2)]
                have "sc_values sc = gen_content crc (gw_entries w)"
                  if "gw_file w' (canonical_generation_name n) = Some (RegularFile f)" "log_scan_file crc f = Inr sc" for f sc
                proof -
                  have "gw_file w2 (canonical_generation_name n) = Some (RegularFile f)"
                    using that(1) sw(1) w' by (simp add: same_outside_def)
                  note e1 = inspect_path_entries [OF i(2) this that(2)]
                  show ?thesis using e0 e1 i(3) src(3) by (simp add: inspection_entries_inject)
                qed
                then show ?thesis by blast
              qed
              then show ?thesis
                using n same out sw(3) w' by (auto split: sum.splits prod.splits)
            qed
          qed
        qed
      qed
    qed
    then show ?thesis ..
  qed
  then show thesis using that by blast
qed


text \<open>The critical section on a directory that holds the compacted image of its clean authority.\<close>

lemma critical_section_quiet:
  assumes "gw_faults w = []" "verifies_as crc (gw_entries w) g p" "files_fit (gw_entries w)"
    and "om_size (gw_entries w) + 1 \<le> MAX_DIRECTORY_ENTRIES"
    and ms: "\<forall>m \<in> set ms. record_wf m" "length ms < u64_max" "length (log_image crc ms) \<le> u64_max"
    and source: "gw_file w (canonical_generation_name g) = Some (RegularFile (log_image crc ms))"
    and target: "gw_file w (canonical_generation_name n) = Some (RegularFile (log_image crc (live_records (log_replay om_empty ms))))"
    and fresh: "\<forall>i \<ge> n. gw_file w (canonical_marker_name i) = None" "gw_file w (canonical_staging_marker_name n) = None"
    and n: "0 < n" and before: "gs_authoritative_generation before = g" "gs_committed_prefix before = p"
      "gs_authoritative_log before = canonical_generation_name g" "gs_log_verification before = image_report crc ms"
  obtains pub fv w' where "switch_critical_section crc before (image_inspection crc ms) n w = (Inr (pub, fv), w')"
    "gw_lock w' = gw_lock w" "gw_faults w' = []"
proof -
  let ?d = "gw_entries w" and ?live = "live_records (log_replay om_empty ms)"
  let ?l = "canonical_generation_name n"
  have live: "\<forall>q \<in> set ?live. record_wf q" "length ?live < u64_max" "length (log_image crc ?live) \<le> u64_max"
    using live_records_wf [OF ms(1)] compact_shrinks [of ms] ms(2,3) by (simp_all add: length_log_image)
  obtain s1 where s1: "verify_generation_directory crc ?d = Inr s1" "gs_authoritative_generation s1 = g"
    "gs_committed_prefix s1 = p"
    using assms(2) by (auto simp: verifies_as_def)
  obtain f ms0 where snd1: "gen_authority crc ?d g p f ms0" "namespace_ok ?d" "log_verify crc f = Inr (gs_log_verification s1)"
    using verify_generation_sound [OF s1(1) assms(3)] s1(2,3) by metis
  then have "f = log_image crc ms" using source by (simp add: gen_authority_def gw_file_def)
  then have "gs_log_verification s1 = image_report crc ms" using snd1(3) log_verify_image [OF ms] by simp
  then have wit: "source_witness s1 = source_witness before" using s1(2,3) before by (simp add: source_witness_def)
  have src: "inspect_path crc (canonical_generation_name g) w = Inr (image_inspection crc ms)"
    using inspect_path_file [OF source] log_inspect_image [OF ms] by simp
  have tgt: "inspect_path crc ?l x = Inr (image_inspection crc ?live)"
    if "gw_file x ?l = Some (RegularFile (log_image crc ?live))" for x
    using inspect_path_file [OF that] log_inspect_image [OF live] by simp
  have valid: "validate_compact_state n (image_inspection crc ms) (image_inspection crc ?live) = Inr ()"
    by (simp add: validate_compact_state_def image_inspection_def image_report_def)
  define enc where "enc = marker_body n (image_prefix crc ?live) @ crc_field (crc32_ieee (marker_body n (image_prefix crc ?live)))"
  have "encode_commit_marker n (image_prefix crc ?live) = Inr enc"
    using n live(2) by (simp add: encode_commit_marker_Inr image_prefix_def log_image_def enc_def)
  then have commits: "commits_log crc ?d n ?live enc"
    using snd1(2) fresh(1) target live by (simp add: commits_log_def gw_file_def)
  obtain pub where pub: "publish_generation_marker crc n w = (Inr pub,
      w\<lparr>gw_entries := om_insert (canonical_marker_name n) (RegularFile enc) (om_remove (canonical_staging_marker_name n) ?d)\<rparr>)"
    using publish_quiet [OF assms(1) commits assms(3)] fresh(2) by (metis option.distinct(1))
  define w' where "w' = w\<lparr>gw_entries := om_insert (canonical_marker_name n) (RegularFile enc)
      (om_remove (canonical_staging_marker_name n) ?d)\<rparr>"
  have "om_size (gw_entries w') \<le> MAX_DIRECTORY_ENTRIES"
    using assms(4) om_size_insert_le [of "canonical_marker_name n" "RegularFile enc" "om_remove (canonical_staging_marker_name n) ?d"]
      om_size_remove_le [of "canonical_staging_marker_name n" ?d] by (simp add: w'_def)
  then have "verifies_as crc (gw_entries w') n (image_prefix crc ?live)"
    by (rule verifies_published [OF commits assms(3)]) (simp_all add: w'_def)
  then obtain fv where fv: "verify_generation_directory crc (gw_entries w') = Inr fv" "gs_authoritative_generation fv = n"
    by (auto simp: verifies_as_def)
  have "gw_file w' ?l = Some (RegularFile (log_image crc ?live))" using target by (simp add: w'_def gw_file_def)
  note tgt' = tgt [OF this]
  have "switch_critical_section crc before (image_inspection crc ms) n w = (Inr (pub, fv), w')"
    unfolding switch_critical_section_def Let_def before(3)
    using s1(1) src tgt [OF target] tgt' valid pub [folded w'_def] fv wit
    by (simp add: verify_directory_step_def sbind_def [of "slift _"] sbind_def [of "smap_err _ _"] slift_def sret_def smap_err_def)
  then show thesis by (rule that) (simp_all add: w'_def assms(1))
qed


lemma compact_switch_quiet:
  assumes "gw_faults w = []" "gw_lock w = None" "length owner1 \<le> MAX_GENERATION_WRITER_LOCK_BYTES"
    "length owner2 \<le> MAX_GENERATION_WRITER_LOCK_BYTES"
    and h: "gen_holds crc (gw_entries w) g ms []" and v: "verify_generation_directory crc (gw_entries w) = Inr v"
    and "gs_highest_observed_generation v < u64_max" "om_size (gw_entries w) + 3 \<le> MAX_DIRECTORY_ENTRIES"
  shows "is_ok (fst (compact_switch_generation_offline crc owner1 owner2 w))"
proof -
  let ?n = "gs_highest_observed_generation v + 1" and ?d = "gw_entries w"
  let ?src = "canonical_generation_name g" and ?new = "canonical_generation_name ?n"
  define d1 where "d1 = om_insert (canonical_reservation_name ?n) (RegularFile []) ?d"
  define w1 where "w1 = w\<lparr>gw_entries := d1, gw_lock := None\<rparr>"
  note d = gen_holds_file [OF h]
  have wf: "\<forall>m \<in> set ms. record_wf m" "length ms < u64_max" "length (log_image crc ms) \<le> u64_max"
    using d by simp_all
  obtain p f0 ms0 where auth: "gen_authority crc ?d g p f0 ms0" using h unfolding gen_holds_def by blast
  then have vp: "verifies_as crc ?d g p" using d(7) by (auto simp: verifies_as_iff [OF d(8)])
  have size: "om_size d1 \<le> om_size ?d + 1" unfolding d1_def using om_size_insert_le [of "canonical_reservation_name ?n" "RegularFile []" ?d] by simp
  then have size1: "om_size d1 \<le> MAX_DIRECTORY_ENTRIES" using assms(8) by simp
  note v1 = reserved_verifies [OF vp d(8) size1 d1_def]
  have v1: "verifies_as crc d1 g p" "files_fit d1" by (rule v1; use assms(7) in simp)+
  then obtain before where before: "verify_generation_directory crc d1 = Inr before" "gs_authoritative_generation before = g"
    "gs_committed_prefix before = p" by (auto simp: verifies_as_def)
  have blog: "gs_authoritative_log before = ?src" using verify_authority_top [OF before(1)] before(2) by metis
  have absent: "gw_file w (kind_name k) = None" if "?n \<le> kind_id k" for k
    using fresh_absent [OF v _ that] by simp
  have file1: "gw_file w1 ?src = Some (RegularFile (log_image crc ms))" using d(1) by (simp add: w1_def d1_def gw_file_def)
  have ver1: "gs_log_verification before = image_report crc ms"
  proof -
    obtain f ms' where "gen_authority crc d1 g p f ms'" "log_verify crc f = Inr (gs_log_verification before)"
      using verify_generation_sound [OF before(1) v1(2)] before(2,3) by metis
    then show ?thesis using file1 log_verify_image [OF wf] by (simp add: gen_authority_def w1_def gw_file_def)
  qed
  have fresh1: "gw_file w1 ?new = None" "gw_file w1 (canonical_staging_marker_name ?n) = None"
    "\<forall>i \<ge> ?n. gw_file w1 (canonical_marker_name i) = None"
    using absent [of "KGeneration ?n"] absent [of "KStaging ?n"] absent [of "KMarker _"]
    by (simp_all add: w1_def d1_def gw_file_def)
  have "gw_file w (staging_path ?new) = None"
    using verify_marker_bounds(3) [OF v, of "staging_path ?new"] staging_not_kind(1) unfolding gw_file_def by metis
  then have fresh2: "gw_file w1 (staging_path ?new) = None"
    by (simp add: w1_def d1_def gw_file_def)
  obtain rs where rs: "retained_summary crc ?n (canonical_reservation_name ?n) w1 = Inr rs" "rs_generation rs = ?n"
  proof -
    have "om_lookup d1 (canonical_reservation_name ?n) \<noteq> None" by (simp add: d1_def)
    then have "?n \<in> set (gs_reservation_generation_ids before)" "?n \<le> gs_highest_observed_generation before"
      using verify_generation_ids(3) [OF before(1)] verify_generation_ids(1) [OF before(1), of "KReservation ?n"] by simp_all
    then show thesis using that before(1) by (simp add: retained_summary_def w1_def)
  qed
  have "retained_summary crc ?n (canonical_reservation_name ?n) x = Inr rs" if "gw_entries x = d1" for x
    using rs(1) that by (simp add: retained_summary_def w1_def)
  then have reserve: "reserve_next_generation crc owner1 w = (Inr rs, w1)"
    using reserve_quiet [OF assms(1,2) v assms(7), of owner1] assms(1-3)
    by (simp add: Let_def w1_def d1_def release_generation_writer_lease_def read_lock_record_if_present_def)
  obtain rc w2 where copy: "compact_log_to_fresh_file crc ?src ?new w1 = (rc, w2)" by force
  have q1: "gw_faults w1 = []" "gw_lock w1 = None" using assms(1,2) by (simp_all add: w1_def)
  note copied = compact_copy_run [OF wf file1 fresh1(1) fresh2 copy]
  then obtain report where rc: "rc = Inr report" using q1(1) by (auto simp: is_ok_iff)
  let ?img = "log_image crc (live_records (log_replay om_empty ms))"
  have w2: "gw_lock w2 = None" "gw_faults w2 = []" "gw_file w2 (staging_path ?new) = None" "gw_file w2 ?new = Some (RegularFile ?img)"
    "\<And>k. k \<noteq> ?new \<Longrightarrow> k \<noteq> staging_path ?new \<Longrightarrow> gw_file w2 k = gw_file w1 k"
    using copied q1 rc by (auto simp: confined_def)
  have d2: "gw_entries w2 = om_insert ?new (RegularFile ?img) d1"
  proof (rule ordmap_eqI)
    fix k
    show "om_lookup (gw_entries w2) k = om_lookup (om_insert ?new (RegularFile ?img) d1) k"
      using w2(3-5) fresh2 by (cases "k = ?new"; cases "k = staging_path ?new") (simp_all add: gw_file_def w1_def)
  qed
  define w3 where "w3 = w2\<lparr>gw_lock := Some (RegularFile owner2)\<rparr>"
  have size2: "om_size (gw_entries w3) + 1 \<le> MAX_DIRECTORY_ENTRIES"
    using size assms(8) om_size_insert_le [of ?new "RegularFile ?img" d1] by (simp add: w3_def d2)
  have live: "length ?img \<le> u64_max" using compact_shrinks [of ms] wf(3) by (simp add: length_log_image)
  have old: "g < ?n" using verify_generation_ids(1) [OF v, of "KMarker g"] gen_holds_top(1) [OF h] by simp
  have vp3: "verifies_as crc (gw_entries w3) g p" "files_fit (gw_entries w3)"
  proof -
    have fit: "files_fit (gw_entries w3)" using v1(2) live by (auto simp: w3_def d2 files_fit_def)
    obtain f ms' where a: "namespace_ok d1" "gen_authority crc d1 g p f ms'" using v1(1) by (auto simp: verifies_as_iff [OF v1(2)])
    have "entry_ok (KGeneration ?n) c" for c using assms(7) by (simp add: entry_ok_def kind_ok_def)
    then have "namespace_ok (gw_entries w3)"
      using size2 by (intro namespace_ok_update [OF a(1)]) (auto simp: w3_def d2 split: if_splits intro: exI [of _ "KGeneration ?n"])
    moreover have "gen_authority crc (gw_entries w3) g p f ms'"
      by (rule gen_authority_cong [OF a(2)]) (use old in \<open>simp_all add: w3_def d2\<close>)
    ultimately show "verifies_as crc (gw_entries w3) g p" using fit by (auto simp: verifies_as_iff)
    show "files_fit (gw_entries w3)" by fact
  qed
  have w3: "gw_faults w3 = []" "gw_file w3 ?src = Some (RegularFile (log_image crc ms))" "gw_file w3 ?new = Some (RegularFile ?img)"
    "\<forall>i \<ge> ?n. gw_file w3 (canonical_marker_name i) = None" "gw_file w3 (canonical_staging_marker_name ?n) = None"
    using w2 file1 fresh1 old by (simp_all add: w3_def d2 gw_file_def w1_def)
  have pos: "0 < ?n" by simp
  obtain pub fv w4 where crit: "switch_critical_section crc before (image_inspection crc ms) ?n w3 = (Inr (pub, fv), w4)"
    "gw_lock w4 = gw_lock w3" "gw_faults w4 = []"
    by (rule critical_section_quiet [OF w3(1) vp3 size2 wf w3(2-5) pos before(2,3) blog ver1])
  have acq: "acquire_generation_writer_lease owner2 w2 = (Inr owner2, w3)"
    using w2(1,2) by (simp add: acquire_generation_writer_lease_def w3_def)
  have src: "inspect_path crc ?src w1 = Inr (image_inspection crc ms)"
    using inspect_path_file [OF file1] log_inspect_image [OF wf] by simp
  have "verify_directory_step crc w1 = Inr before" using before(1) by (simp add: verify_directory_step_def w1_def)
  then show ?thesis
    unfolding compact_switch_generation_offline_def Let_def
    using src copy rc crit acq old before(2)
    by (simp add: sbind_def [of "smap_err _ _"] smap_err_def reserve rs(2) sbind_def [of "slift _"] slift_def blog
        with_lease_def sask_run sbind_def sret_def case_prod_beta)
qed


text \<open>A log without a torn tail is the image of its records.\<close>

lemma clean_log_holds:
  assumes "verify_generation_directory crc d = Inr v" "files_fit d" "vr_recoverable_tail (gs_log_verification v) = None"
  shows "\<exists>ms. gen_holds crc d (gs_authoritative_generation v) ms []"
proof -
  have "verifies_as crc d (gs_authoritative_generation v) (gs_committed_prefix v)"
    using assms(1) by (simp add: verifies_as_def)
  then obtain ms rest where h: "gen_holds crc d (gs_authoritative_generation v) ms rest"
    using assms(2) by (rule gen_holds_ex)
  obtain f ms0 where f: "gen_authority crc d (gs_authoritative_generation v) (gs_committed_prefix v) f ms0"
    "log_verify crc f = Inr (gs_log_verification v)"
    using verify_generation_sound [OF assms(1,2)] by metis
  then have "f = log_image crc ms @ rest" using gen_holds_file(1) [OF h] by (simp add: gen_authority_def)
  moreover obtain f1 where "log_file_holds crc f1 ms rest" using h unfolding gen_holds_def by blast
  then obtain sc where "log_scan_file crc (log_image crc ms @ rest) = Inr sc" "sc_recoverable_tail sc = None \<longleftrightarrow> rest = []"
    unfolding log_file_holds_def by metis
  ultimately have "rest = []"
    using f(2) assms(3) by (metis log_verify_def log_verification_def rmap_simps(2) sum.inject(2)
        verification_report.select_convs(7))
  then show ?thesis using h by blast
qed

text \<open>C4 (compact_switch): from a directory that verifies, whatever fails during the offline switch:
  if the directory verifies afterwards, its authority is the old generation or the freshly reserved
  one and it holds the same map, and nothing that was there before is gone.  A switch that returns
  normally ran to the new generation; and when nothing fails, the authoritative log is clean and
  three more entries fit, it does return normally.\<close>

theorem compact_switch_old_or_new:
  assumes "verify_generation_directory crc (gw_entries w) = Inr v" "files_fit (gw_entries w)"
    and "compact_switch_generation_offline crc owner1 owner2 w = (r, w')"
  shows "\<exists>n > gs_highest_observed_generation v.
    (\<forall>v'. verify_generation_directory crc (gw_entries w') = Inr v' \<longrightarrow>
       gs_authoritative_generation v' \<in> {gs_authoritative_generation v, n} \<and>
       gen_content crc (gw_entries w') = gen_content crc (gw_entries w)) \<and>
    (\<forall>name c. gw_file w name = Some c \<longrightarrow> gw_file w' name = Some c) \<and>
    (\<forall>s. r = Inr s \<longrightarrow> cs_old_generation s = gs_authoritative_generation v \<and> cs_new_generation s = n \<and>
       verify_generation_directory crc (gw_entries w') = Inr (cs_final_generation s) \<and>
       gs_authoritative_generation (cs_final_generation s) = n) \<and>
    (gw_faults w = [] \<and> gw_lock w = None \<and> length owner1 \<le> MAX_GENERATION_WRITER_LOCK_BYTES \<and>
       length owner2 \<le> MAX_GENERATION_WRITER_LOCK_BYTES \<and>
       vr_recoverable_tail (gs_log_verification v) = None \<and> gs_highest_observed_generation v < u64_max \<and>
       om_size (gw_entries w) + 3 \<le> MAX_DIRECTORY_ENTRIES \<longrightarrow> is_ok r)"
proof -
  obtain n where n: "gs_highest_observed_generation v < n" "same_outside (fresh_names n) w w'"
    "gw_file w' (canonical_marker_name n) = None \<or>
      (\<forall>f sc. gw_file w' (canonical_generation_name n) = Some (RegularFile f) \<longrightarrow> log_scan_file crc f = Inr sc \<longrightarrow>
         sc_values sc = gen_content crc (gw_entries w))"
    "\<forall>s. r = Inr s \<longrightarrow> cs_old_generation s = gs_authoritative_generation v \<and> cs_new_generation s = n \<and>
       verify_generation_directory crc (gw_entries w') = Inr (cs_final_generation s) \<and>
       gs_authoritative_generation (cs_final_generation s) = n"
    by (rule compact_switch_run [OF assms])
  have either: "gs_authoritative_generation v' \<in> {gs_authoritative_generation v, n} \<and>
      gen_content crc (gw_entries w') = gen_content crc (gw_entries w)"
    if v': "verify_generation_directory crc (gw_entries w') = Inr v'" for v'
    using old_or_new [OF assms(1) n(2,1) v']
  proof
    assume new: "gs_authoritative_generation v' = n \<and> gw_file w' (canonical_marker_name n) \<noteq> None"
    obtain f sc where f: "gw_file w' (canonical_generation_name n) = Some (RegularFile f)"
      "log_scan_file crc f = Inr sc" "gen_content crc (gw_entries w') = sc_values sc"
      using verify_content [OF v'] new unfolding gw_file_def by metis
    then show ?thesis using n(3) new by auto
  qed simp
  have "is_ok r" if quiet: "gw_faults w = []" "gw_lock w = None" "length owner1 \<le> MAX_GENERATION_WRITER_LOCK_BYTES"
      "length owner2 \<le> MAX_GENERATION_WRITER_LOCK_BYTES" "vr_recoverable_tail (gs_log_verification v) = None"
      "gs_highest_observed_generation v < u64_max" "om_size (gw_entries w) + 3 \<le> MAX_DIRECTORY_ENTRIES"
    using compact_switch_quiet [OF quiet(1-4) _ assms(1) quiet(6,7)] clean_log_holds [OF assms(1,2) quiet(5)] assms(3)
    by fastforce
  then show ?thesis
    using n(1,4) either old_names_kept [OF assms(1) n(2,1)] by (intro exI [of _ n]) simp
qed


lemma clean_world_switch:
  "\<exists>v. verify_generation_directory crc (gw_entries (single_world crc)) = Inr v \<and>
     gs_authoritative_generation v = 1 \<and> vr_recoverable_tail (gs_log_verification v) = None \<and>
     gs_highest_observed_generation v = 1"
proof -
  let ?d = "gw_entries (single_world crc)"
  have h: "gen_holds crc ?d 1 [] []" by (rule single_world_holds)
  obtain v where v: "verify_generation_directory crc ?d = Inr v" "gs_authoritative_generation v = 1"
    by (rule gen_holds_verify [OF h])
  obtain f ms where f: "gen_authority crc ?d 1 (gs_committed_prefix v) f ms" "log_verify crc f = Inr (gs_log_verification v)"
    using verify_generation_sound [OF v(1) gen_holds_file(8) [OF h]] v(2) by metis
  then have "f = log_image crc []" using gen_holds_file(1) [OF h] by (simp add: gen_authority_def)
  then have "gs_log_verification v = image_report crc []"
    using f(2) log_verify_image [of "[]" crc] by (simp add: u64_max_def log_image_def)
  moreover have "om_lookup ?d (kind_name k) \<noteq> None \<Longrightarrow> kind_id k = 1" for k
    by (cases k) (auto simp: single_world_def single_generation_dir_def split: if_splits)
  then have "gs_highest_observed_generation v = 1" using verify_generation_ids(2) [OF v(1)] by metis
  ultimately show ?thesis using v by (simp add: image_report_def)
qed

lemma compact_switch_old_or_new_witness:
  "\<exists>s w'. compact_switch_generation_offline (\<lambda>_. 0) [7] [8] (single_world (\<lambda>_. 0)) = (Inr s, w') \<and>
    cs_old_generation s = 1 \<and> 1 < cs_new_generation s \<and>
    gen_content (\<lambda>_. 0) (gw_entries w') = gen_content (\<lambda>_. 0) (gw_entries (single_world (\<lambda>_. 0)))"
proof -
  let ?c = "\<lambda>_. 0 :: 32 word"
  obtain v where v: "verify_generation_directory ?c (gw_entries (single_world ?c)) = Inr v"
    "gs_authoritative_generation v = 1" "vr_recoverable_tail (gs_log_verification v) = None"
    "gs_highest_observed_generation v = 1"
    using clean_world_switch [of ?c] by blast
  obtain r w' where run: "compact_switch_generation_offline ?c [7] [8] (single_world ?c) = (r, w')" by force
  have "om_size (gw_entries (single_world ?c)) + 3 \<le> MAX_DIRECTORY_ENTRIES"
    by (simp add: single_world_def single_generation_dir_def om_size_insert_new MAX_DIRECTORY_ENTRIES_def)
      (simp add: om_size_def)
  then show ?thesis
    using compact_switch_old_or_new [OF v(1) gen_holds_file(8) [OF single_world_holds] run] v run
    by (auto simp: is_ok_iff single_world_def MAX_GENERATION_WRITER_LOCK_BYTES_def u64_max_def)
qed


subsection \<open>Readers during a compaction\<close>

lemma copy_entries_present:
  "copy_entries crc path es e w = (r, w') \<Longrightarrow> gw_file w path \<noteq> None \<Longrightarrow> gw_file w' path \<noteq> None"
proof (induction es arbitrary: e w)
  case (Cons x es)
  obtain f w1 where f: "gw_next_fault w = (f, w1)" by force
  show ?case
  proof (cases "ie_value x")
    case (Some v)
    obtain p e' where p: "log_put crc (append_fault f) e (ie_key x) v = (p, e')" by force
    then show ?thesis
      using Cons.prems(1) Cons.IH [of e' "w1\<lparr>gw_entries := om_insert path (RegularFile (le_disk e')) (gw_entries w1)\<rparr>"]
      by (cases p) (auto simp: Some f Let_def gw_file_def)
  qed (use Cons.prems in simp)
qed simp

lemma build_staging_present:
  assumes "build_staging crc st source w = (Inr (), w')"
  shows "gw_file w' st \<noteq> None"
proof -
  obtain e where "sbind (smap_err (\<lambda>k. LcDatabase (Io k)) (fs_create_new st (le_disk e)))
      (\<lambda>_. copy_entries crc st (ir_entries source) e) w = (Inr (), w')"
    using assms by (auto simp: build_staging_def cleanup_on_error_def split: sum.splits prod.splits)
  then obtain w1 where w1: "fs_create_new st (le_disk e) w = (Inr (), w1)"
    "copy_entries crc st (ir_entries source) e w1 = (Inr (), w')"
    by (auto simp: sbind_eq_Inr smap_err_def map_err_def split: prod.splits sum.splits)
  from w1(1) have "gw_file w1 st \<noteq> None" by (cases rule: fs_create_cases) (simp_all add: gw_file_def)
  with w1(2) show ?thesis by (rule copy_entries_present)
qed

lemma staging_unscannable:
  assumes "om_lookup d (staging_path output) \<noteq> None"
  shows "\<exists>err. scan_generation_namespace d = Inl err" "\<not> is_ok (verify_generation_directory crc d)"
proof -
  have "scan_generation_namespace d \<noteq> Inr ns" for ns
  proof
    assume "scan_generation_namespace d = Inr ns"
    then have "namespace_ok d" by (rule scan_namespace_Inr(1))
    then obtain k where "staging_path output = kind_name k" using assms unfolding namespace_ok_def by blast
    then show False using staging_not_kind(1) by blast
  qed
  then show "\<exists>err. scan_generation_namespace d = Inl err" by (cases "scan_generation_namespace d") auto
  show "\<not> is_ok (verify_generation_directory crc d)"
  proof
    assume "is_ok (verify_generation_directory crc d)"
    then obtain v where "verify_generation_directory crc d = Inr v" by (auto simp: is_ok_iff)
    then obtain k where "staging_path output = kind_name k" using verify_marker_bounds(3) assms by blast
    then show False using staging_not_kind(1) by blast
  qed
qed

lemma unverified_stuck:
  assumes "\<not> is_ok (verify_generation_directory crc (gw_entries w))"
  shows "\<not> is_ok (fst (gen_open crc owner w))" "\<not> is_ok (fst (reserve_next_generation crc owner w))"
    "\<not> is_ok (fst (compact_switch_generation_offline crc owner owner2 w))"
proof -
  obtain r w' where o: "gen_open crc owner w = (r, w')" by force
  from o [unfolded gen_open_def] have "\<not> is_ok r"
  proof (cases rule: with_lease_cases)
    case (ran w1 w2)
    from ran(4) show ?thesis
      by (rule sbind_cases) (use assms ran(1) in \<open>auto simp: resolve_authority_def is_ok_iff result_iff split: sum.splits\<close>)
  qed simp
  then show "\<not> is_ok (fst (gen_open crc owner w))" using o by simp
  obtain r2 w2 where rs: "reserve_next_generation crc owner w = (r2, w2)" by force
  from rs [unfolded reserve_next_generation_def] have stop: "\<not> is_ok r2"
  proof (cases rule: with_lease_cases)
    case (ran w1 w3)
    from ran(4) show ?thesis
      by (cases rule: bind_ask) (use assms ran(1) in \<open>auto simp: is_ok_iff result_iff\<close>)
  qed simp
  then show "\<not> is_ok (fst (reserve_next_generation crc owner w))" using rs by simp
  show "\<not> is_ok (fst (compact_switch_generation_offline crc owner owner2 w))"
    using stop by (cases r2) (simp_all add: compact_switch_generation_offline_def sbind_def smap_err_def rs)
qed


text \<open>C35 (compact_blocks): while a compaction builds its copy the lease is free, but the directory holds
  the staging name, which no scan accepts.  A routed operation that runs then fails and poisons its
  handle, although nothing is wrong with the authority; and as long as the staging file stays, as it
  does after a crash at that point, the directory cannot be verified, opened, reserved from or
  compacted again.\<close>

theorem compaction_blocks_directory:
  assumes "build_staging crc (staging_path output) source w = (Inr (), w1)" "gw_lock w = None"
    and "\<not> ge_poisoned e" "step \<noteq> Reopen" "gw_faults w1 = []" "length owner \<le> MAX_GENERATION_WRITER_LOCK_BYTES"
  shows "(\<exists>err e' w2. gen_step crc fault owner step (e, w1) = (Inl err, e', w2) \<and> ge_poisoned e' \<and>
      gw_entries w2 = gw_entries w1 \<and> gw_lock w2 = None) \<and>
    (\<forall>later. gw_file later (staging_path output) \<noteq> None \<longrightarrow>
      \<not> is_ok (verify_generation_directory crc (gw_entries later)) \<and> \<not> is_ok (fst (gen_open crc owner later)) \<and>
      \<not> is_ok (fst (reserve_next_generation crc owner later)) \<and>
      \<not> is_ok (fst (compact_switch_generation_offline crc owner owner2 later)))"
proof -
  have present: "gw_file w1 (staging_path output) \<noteq> None" by (rule build_staging_present [OF assms(1)])
  have "confined {staging_path output} w w1" by (rule keepsD [OF keeps_build_staging assms(1)]) simp
  then have lock: "gw_lock w1 = None" using assms(2) by (simp add: confined_def)
  obtain err where scan: "scan_generation_namespace (gw_entries w1) = Inl err"
    using staging_unscannable(1) [of "gw_entries w1" "output"] present by (auto simp: gw_file_def)
  let ?w0 = "w1\<lparr>gw_lock := Some (RegularFile owner)\<rparr>"
  have refresh: "refresh_authority crc (e, ?w0) = (Inl (engine_directory_error err), e\<lparr>ge_poisoned := True\<rparr>, ?w0)"
    using assms(3) scan by (simp add: refresh_authority_def gen_poison_def)
  have "\<exists>e' w2. gen_step crc fault owner step (e, w1) = (Inl (engine_directory_error err), e', w2) \<and> ge_poisoned e' \<and>
      gw_entries w2 = gw_entries w1 \<and> gw_lock w2 = None"
  proof (cases rule: gen_step_shape [of step crc fault owner])
    case (routed op wrap)
    have "sbind (refresh_authority crc) (\<lambda>_. on_inner op) (e, ?w0) =
        (Inl (engine_directory_error err), e\<lparr>ge_poisoned := True\<rparr>, ?w0)"
      using refresh by (simp add: sbind_def)
    from leased_run [where body = "sbind (refresh_authority crc) (\<lambda>_. on_inner op)", OF assms(5) lock assms(6) this] assms(5)
    show ?thesis by (simp add: routed(3))
  next
    case reopen
    then show ?thesis using assms(4) by simp
  qed
  moreover have "\<not> is_ok (verify_generation_directory crc (gw_entries later)) \<and> \<not> is_ok (fst (gen_open crc owner later)) \<and>
      \<not> is_ok (fst (reserve_next_generation crc owner later)) \<and>
      \<not> is_ok (fst (compact_switch_generation_offline crc owner owner2 later))"
    if "gw_file later (staging_path output) \<noteq> None" for later
  proof -
    have "\<not> is_ok (verify_generation_directory crc (gw_entries later))"
      using staging_unscannable(2) [of "gw_entries later" "output"] that by (simp add: gw_file_def)
    with unverified_stuck [OF this] show ?thesis by blast
  qed
  ultimately show ?thesis by blast
qed

lemma compaction_blocks_directory_witness:
  "\<exists>w1 err e' w2. build_staging (\<lambda>_. 0) (staging_path [2]) (image_inspection (\<lambda>_. 0) [(MPut, [1], [3])]) (two_puts_world (\<lambda>_. 0)) = (Inr (), w1) \<and>
    gen_step (\<lambda>_. 0) None [7] (Get [1])
      (\<lparr>ge_authoritative_generation = 1, ge_inner = fresh_log (\<lambda>_. 0) None OwnStandalone, ge_poisoned = False\<rparr>, w1) =
      (Inl err, e', w2) \<and> ge_poisoned e'"
proof -
  let ?c = "\<lambda>_. 0 :: 32 word" and ?w = "two_puts_world (\<lambda>_. 0)" and ?ms = "[(MPut, [1], [3 :: byte])]"
  let ?e = "\<lparr>ge_authoritative_generation = 1, ge_inner = fresh_log (\<lambda>_. 0 :: 32 word) None OwnStandalone, ge_poisoned = False\<rparr>"
  obtain r w1 where run: "build_staging ?c (staging_path [2]) (image_inspection ?c ?ms) ?w = (r, w1)" by force
  have entries: "ir_entries (image_inspection ?c ?ms) = inspection_entries (log_replay om_empty ?ms)"
    by (simp add: image_inspection_def)
  have live: "live_records (log_replay om_empty ?ms) = ?ms" "om_size (log_replay om_empty ?ms) = 1"
    by (simp_all add: live_records_def entries_insert om_size_def)
  have "gw_file ?w (staging_path [2]) = None" by (simp add: two_puts_world_def gw_file_def staging_path_def ascii_def)
  then have "gw_faults ?w = [] \<longrightarrow> r = Inr () \<and> gw_faults w1 = []"
    by (rule build_staging_run(2) [OF run entries _ staging_not_canonical])
       (simp_all only: live, simp_all add: record_wf_def MAX_KEY_BYTES_def MAX_VALUE_BYTES_def u64_max_def length_log_image records_length_def)
  then have q: "r = Inr ()" "gw_faults w1 = []" by (simp_all add: two_puts_world_def)
  have "gw_lock ?w = None" "\<not> ge_poisoned ?e" "length [7 :: byte] \<le> MAX_GENERATION_WRITER_LOCK_BYTES"
    by (simp_all add: two_puts_world_def MAX_GENERATION_WRITER_LOCK_BYTES_def)
  then show ?thesis
    using compaction_blocks_directory [OF run [unfolded q(1)] _ _ _ q(2), where e = ?e and step = "Get [1]" and owner = "[7]"
        and ?owner2.0 = "[]" and fault = None] run q(1)
    by fastforce
qed

end
