(* ===== verification/GenCleanup.thy ===== *)
theory GenCleanup
  imports GenCompactSpec
begin

text \<open>
  Housekeeping of a generation directory, as on Unix: removal of obsolete history
  (\<open>crates/db-cli/src/generation_cleanup.rs\<close>) and retirement of an abandoned candidate
  (\<open>generation_orphan.rs\<close>).  Both hold the writer lease, re-verify the authority between the phases,
  and may be stopped by a fault at any remove or sync.
\<close>

subsection \<open>Cleanup\<close>

datatype cleanup_error =
  ClnLock writer_lock_error
| ClnDirectory gen_dir_error
| ClnInvalid
| ClnIo io_kind
| ClnAuthorityChanged nat
| ClnDurabilityUncertain io_kind

record cleanup_summary =
  cl_authoritative_generation :: nat
  cl_removed_marker_generation_ids :: "nat list"
  cl_removed_generation_ids :: "nat list"
  cl_removed_staging_marker_generation_ids :: "nat list"
  cl_retained_staging_marker_generation_ids :: "nat list"
  cl_retained_uncommitted_generation_ids :: "nat list"
  cl_final_generation :: gen_summary

record authority_witness =
  aw_generation :: nat
  aw_authoritative_log :: bytes
  aw_committed_prefix :: committed_prefix
  aw_log_verification :: verification_report

definition witness_from_summary :: "gen_summary \<Rightarrow> authority_witness" where
  "witness_from_summary summary =
     \<lparr>aw_generation = gs_authoritative_generation summary, aw_authoritative_log = gs_authoritative_log summary,
      aw_committed_prefix = gs_committed_prefix summary, aw_log_verification = gs_log_verification summary\<rparr>"

definition cln_verify :: "(bytes \<Rightarrow> 32 word) \<Rightarrow> gen_world \<Rightarrow> cleanup_error + gen_summary" where
  "cln_verify crc w = map_err ClnDirectory (verify_generation_directory crc (gw_entries w))"

definition cln_scan :: "gen_world \<Rightarrow> cleanup_error + gen_namespace" where
  "cln_scan w = map_err ClnDirectory (scan_generation_namespace (gw_entries w))"

definition require_same_authority ::
    "(bytes \<Rightarrow> 32 word) \<Rightarrow> authority_witness \<Rightarrow> gen_world \<Rightarrow> cleanup_error + gen_summary" where
  "require_same_authority crc expected w =
     rbind (cln_verify crc w) (\<lambda>current.
       if witness_from_summary current \<noteq> expected then Inl (ClnAuthorityChanged (aw_generation expected))
       else Inr current)"

definition cln_require_regular :: "gen_world \<Rightarrow> bytes \<Rightarrow> cleanup_error + unit" where
  "cln_require_regular w path =
     (case gw_file w path of
        None \<Rightarrow> Inl (ClnIo NotFound) | Some OtherEntry \<Rightarrow> Inl ClnInvalid | Some (RegularFile _) \<Rightarrow> Inr ())"

text \<open>The plan holds ids that came from the namespace, so the lookups succeed.\<close>

definition planned_path :: "(nat, bytes) ordmap \<Rightarrow> nat \<Rightarrow> bytes" where
  "planned_path names gid = the (om_lookup names gid)"

definition require_plan_regular :: "(nat, bytes) ordmap \<Rightarrow> nat list \<Rightarrow> gen_world \<Rightarrow> cleanup_error + unit" where
  "require_plan_regular names ids w = rfold (\<lambda>_ gid. cln_require_regular w (planned_path names gid)) () ids"

definition remove_plan :: "(nat, bytes) ordmap \<Rightarrow> nat list \<Rightarrow> (cleanup_error, unit) gen_act" where
  "remove_plan names ids = sfold (\<lambda>_ gid. smap_err ClnIo (fs_remove_file (planned_path names gid))) () ids"

definition sync_directory_if :: "bool \<Rightarrow> (cleanup_error, unit) gen_act" where
  "sync_directory_if needed = (if needed then smap_err ClnDurabilityUncertain fs_sync else sret ())"

definition cleanup_obsolete_generations ::
    "(bytes \<Rightarrow> 32 word) \<Rightarrow> bytes \<Rightarrow> (cleanup_error, cleanup_summary) gen_act" where
  "cleanup_obsolete_generations crc owner =
     with_lease ClnLock owner
      (sbind (sask (cln_verify crc)) (\<lambda>before.
       let witness = witness_from_summary before; authoritative_generation = aw_generation witness in
       sbind (sask cln_scan) (\<lambda>namespace.
       let removed_markers = filter (\<lambda>gid. gid < authoritative_generation) (om_keys (ns_marker_files namespace));
           removed_generations = filter (\<lambda>gid. gid < authoritative_generation) (om_keys (ns_generation_files namespace));
           removed_stagings = filter (\<lambda>gid. gid \<le> authoritative_generation) (om_keys (ns_staging_marker_files namespace)) in
       sbind (sask (require_plan_regular (ns_marker_files namespace) removed_markers)) (\<lambda>_.
       sbind (sask (require_plan_regular (ns_staging_marker_files namespace) removed_stagings)) (\<lambda>_.
       sbind (sask (require_plan_regular (ns_generation_files namespace) removed_generations)) (\<lambda>_.
       sbind (sask (require_same_authority crc witness)) (\<lambda>_.
       sbind (remove_plan (ns_marker_files namespace) removed_markers) (\<lambda>_.
       sbind (remove_plan (ns_staging_marker_files namespace) removed_stagings) (\<lambda>_.
       sbind (sync_directory_if (removed_markers \<noteq> [] \<or> removed_stagings \<noteq> [])) (\<lambda>_.
       sbind (sask (require_same_authority crc witness)) (\<lambda>_.
       sbind (remove_plan (ns_generation_files namespace) removed_generations) (\<lambda>_.
       sbind (sync_directory_if (removed_generations \<noteq> [])) (\<lambda>_.
       sbind (sask (require_same_authority crc witness)) (\<lambda>final_verified.
       sbind (sask cln_scan) (\<lambda>final_namespace.
       sret \<lparr>cl_authoritative_generation = authoritative_generation,
             cl_removed_marker_generation_ids = removed_markers,
             cl_removed_generation_ids = removed_generations,
             cl_removed_staging_marker_generation_ids = removed_stagings,
             cl_retained_staging_marker_generation_ids = om_keys (ns_staging_marker_files final_namespace),
             cl_retained_uncommitted_generation_ids =
               filter (\<lambda>gid. om_lookup (ns_marker_files final_namespace) gid = None)
                 (om_keys (ns_generation_files final_namespace)),
             cl_final_generation = final_verified\<rparr>)))))))))))))))"


subsection \<open>Retirement of an orphan\<close>

definition FINGERPRINT_BUFFER_BYTES :: nat where "FINGERPRINT_BUFFER_BYTES = 65536"

record file_fingerprint =
  fp_bytes :: nat
  fp_crc32 :: "32 word"

datatype orphan_error =
  OrConfirmationRequired
| OrLock writer_lock_error
| OrDirectory gen_dir_error
| OrInvalid
| OrIo io_kind
| FingerprintChanged nat file_fingerprint file_fingerprint
| StagingChanged nat
| OrAuthorityChanged nat nat
| OrDurabilityUncertain io_kind

record orphan_inspection =
  oi_authoritative_generation :: nat
  oi_orphan_generation :: nat
  oi_orphan_log :: bytes
  oi_orphan_fingerprint :: file_fingerprint
  oi_staging_fingerprint :: "file_fingerprint option"
  oi_reservation :: bytes
  oi_highest_observed_generation :: nat

record orphan_retirement_summary =
  os_authoritative_generation :: nat
  os_retired_generation :: nat
  os_retired_orphan_fingerprint :: file_fingerprint
  os_retired_staging_fingerprint :: "file_fingerprint option"
  os_reservation :: bytes
  os_final_generation :: gen_summary

definition or_require_regular :: "gen_world \<Rightarrow> bytes \<Rightarrow> orphan_error + bytes" where
  "or_require_regular w path = map_err OrDirectory (require_real_regular_file (gw_file w path))"

function fingerprint_chunks :: "bytes \<Rightarrow> nat \<Rightarrow> crc32_hasher \<Rightarrow> (nat \<times> crc32_hasher) option" where
  "fingerprint_chunks source n hasher =
     (let chunk = take FINGERPRINT_BUFFER_BYTES source in
      if chunk = [] then Some (n, hasher)
      else Option.bind (checked_add64 n (length chunk)) (\<lambda>n'.
             fingerprint_chunks (drop FINGERPRINT_BUFFER_BYTES source) n' (crc32_update hasher chunk)))"
  by pat_completeness auto
termination
  by (relation "measure (\<lambda>(source, _, _). length source)") (auto simp: FINGERPRINT_BUFFER_BYTES_def)

declare fingerprint_chunks.simps [simp del]

definition fingerprint_file :: "gen_world \<Rightarrow> bytes \<Rightarrow> orphan_error + file_fingerprint" where
  "fingerprint_file w path =
     rbind (or_require_regular w path) (\<lambda>f.
     rbind (ok_or (fingerprint_chunks f 0 crc32_new) OrInvalid) (\<lambda>(n, hasher).
       Inr \<lparr>fp_bytes = n, fp_crc32 = crc32_finalize hasher\<rparr>))"

definition validate_reserved_orphan_candidate ::
    "gen_namespace \<Rightarrow> nat \<Rightarrow> nat \<Rightarrow> gen_world \<Rightarrow> orphan_error + bytes" where
  "validate_reserved_orphan_candidate namespace authoritative_generation generation w =
     (if generation = 0 then Inl OrInvalid
      else if generation \<le> authoritative_generation then Inl OrInvalid
      else if om_lookup (ns_marker_files namespace) generation \<noteq> None then Inl OrInvalid
      else if om_lookup (ns_reservation_files namespace) generation = None then Inl OrInvalid
      else rbind (ok_or (om_lookup (ns_generation_files namespace) generation) OrInvalid) (\<lambda>path.
           rbind (or_require_regular w path) (\<lambda>_. Inr path)))"

definition require_fingerprint :: "nat \<Rightarrow> bytes \<Rightarrow> file_fingerprint \<Rightarrow> gen_world \<Rightarrow> orphan_error + unit" where
  "require_fingerprint generation path expected w =
     rbind (fingerprint_file w path) (\<lambda>found.
       if found \<noteq> expected then Inl (FingerprintChanged generation expected found) else Inr ())"

definition require_staging_fingerprint ::
    "nat \<Rightarrow> bytes option \<Rightarrow> file_fingerprint option \<Rightarrow> gen_world \<Rightarrow> orphan_error + unit" where
  "require_staging_fingerprint generation path expected w =
     (case (path, expected) of
        (None, None) \<Rightarrow> Inr ()
      | (Some path, Some expected) \<Rightarrow>
          rbind (fingerprint_file w path) (\<lambda>found.
            if found = expected then Inr () else Inl (StagingChanged generation))
      | _ \<Rightarrow> Inl (StagingChanged generation))"

definition or_scan :: "gen_world \<Rightarrow> orphan_error + gen_namespace" where
  "or_scan w = map_err OrDirectory (scan_generation_namespace (gw_entries w))"

definition verify_expected_authority :: "(bytes \<Rightarrow> 32 word) \<Rightarrow> nat \<Rightarrow> gen_world \<Rightarrow> orphan_error + gen_summary" where
  "verify_expected_authority crc expected w =
     rbind (map_err OrDirectory (verify_generation_directory crc (gw_entries w))) (\<lambda>verified.
       if gs_authoritative_generation verified \<noteq> expected
       then Inl (OrAuthorityChanged expected (gs_authoritative_generation verified)) else Inr verified)"

definition inspect_generation_orphan ::
    "(bytes \<Rightarrow> 32 word) \<Rightarrow> nat \<Rightarrow> gen_world \<Rightarrow> orphan_error + orphan_inspection" where
  "inspect_generation_orphan crc generation w =
     rbind (map_err OrDirectory (verify_generation_directory crc (gw_entries w))) (\<lambda>verified.
     rbind (or_scan w) (\<lambda>namespace.
     rbind (validate_reserved_orphan_candidate namespace (gs_authoritative_generation verified) generation w) (\<lambda>orphan_path.
     rbind (fingerprint_file w orphan_path) (\<lambda>orphan_fingerprint.
     rbind (case om_lookup (ns_staging_marker_files namespace) generation of
              None \<Rightarrow> Inr None | Some path \<Rightarrow> rmap Some (fingerprint_file w path)) (\<lambda>staging_fingerprint.
       Inr \<lparr>oi_authoritative_generation = gs_authoritative_generation verified, oi_orphan_generation = generation,
            oi_orphan_log = orphan_path, oi_orphan_fingerprint = orphan_fingerprint,
            oi_staging_fingerprint = staging_fingerprint, oi_reservation = canonical_reservation_name generation,
            oi_highest_observed_generation = gs_highest_observed_generation verified\<rparr>)))))"

text \<open>The candidate and its staging marker are looked at, and found as expected.\<close>

definition check_orphan ::
    "(bytes \<Rightarrow> 32 word) \<Rightarrow> nat \<Rightarrow> nat \<Rightarrow> file_fingerprint \<Rightarrow> file_fingerprint option \<Rightarrow> gen_world \<Rightarrow>
       orphan_error + (gen_summary \<times> gen_namespace \<times> bytes)" where
  "check_orphan crc generation expected_authority expected_orphan expected_staging w =
     rbind (verify_expected_authority crc expected_authority w) (\<lambda>verified.
     rbind (or_scan w) (\<lambda>namespace.
     rbind (validate_reserved_orphan_candidate namespace expected_authority generation w) (\<lambda>orphan_path.
     rbind (require_fingerprint generation orphan_path expected_orphan w) (\<lambda>_.
     rbind (require_staging_fingerprint generation (om_lookup (ns_staging_marker_files namespace) generation)
              expected_staging w) (\<lambda>_.
       Inr (verified, namespace, orphan_path))))))"

definition retire_generation_orphan ::
    "(bytes \<Rightarrow> 32 word) \<Rightarrow> bytes \<Rightarrow> nat \<Rightarrow> nat \<Rightarrow> file_fingerprint \<Rightarrow> file_fingerprint option \<Rightarrow> bool \<Rightarrow>
       (orphan_error, orphan_retirement_summary) gen_act" where
  "retire_generation_orphan crc owner generation expected_authority expected_orphan expected_staging confirm =
     sbind (slift (ensure confirm OrConfirmationRequired)) (\<lambda>_.
     with_lease OrLock owner
      (sbind (sask (check_orphan crc generation expected_authority expected_orphan expected_staging)) (\<lambda>(before, namespace, _).
       sbind (sask (\<lambda>w. or_require_regular w (the (om_lookup (ns_reservation_files namespace) generation)))) (\<lambda>_.
       sbind (sask (check_orphan crc generation expected_authority expected_orphan expected_staging)) (\<lambda>(_, current_namespace, _).
       sbind (case om_lookup (ns_staging_marker_files current_namespace) generation of
                None \<Rightarrow> sret ()
              | Some path \<Rightarrow>
                  sbind (smap_err OrIo (fs_remove_file path)) (\<lambda>_.
                  smap_err OrDurabilityUncertain fs_sync)) (\<lambda>_.
       sbind (sask (\<lambda>w. rbind (verify_expected_authority crc expected_authority w) (\<lambda>_.
                rbind (or_scan w) (\<lambda>after_staging.
                rbind (validate_reserved_orphan_candidate after_staging expected_authority generation w) (\<lambda>path.
                rbind (require_fingerprint generation path expected_orphan w) (\<lambda>_. Inr path)))))) (\<lambda>orphan_path.
       sbind (smap_err OrIo (fs_remove_file orphan_path)) (\<lambda>_.
       sbind (smap_err OrDurabilityUncertain fs_sync) (\<lambda>_.
       sbind (sask (verify_expected_authority crc expected_authority)) (\<lambda>final_verified.
       sbind (sask or_scan) (\<lambda>final_namespace.
       sbind (slift (ensure (\<not> (om_lookup (ns_generation_files final_namespace) generation \<noteq> None \<or>
                om_lookup (ns_staging_marker_files final_namespace) generation \<noteq> None)) OrInvalid)) (\<lambda>_.
       sbind (slift (ensure (om_lookup (ns_reservation_files final_namespace) generation \<noteq> None) OrInvalid)) (\<lambda>_.
       sbind (slift (ensure (\<not> gs_highest_observed_generation final_verified < generation) OrInvalid)) (\<lambda>_.
       sret \<lparr>os_authoritative_generation = gs_authoritative_generation before, os_retired_generation = generation,
             os_retired_orphan_fingerprint = expected_orphan, os_retired_staging_fingerprint = expected_staging,
             os_reservation = canonical_reservation_name generation, os_final_generation = final_verified\<rparr>))))))))))))))"

end
