(* ===== verification/GenCleanupSpec.thy ===== *)
theory GenCleanupSpec
  imports GenCleanup
begin

text \<open>
  What housekeeping promises: wherever it stops, the directory still verifies with the same
  authority, committed prefix and content, the allocation frontier has not moved, and only the names
  the operation is about are gone.
\<close>

subsection \<open>Pruning\<close>

text \<open>Only names of kinds in \<open>P\<close> may have disappeared, and nothing else has changed.\<close>

definition prunes :: "(name_kind \<Rightarrow> bool) \<Rightarrow> gen_world \<Rightarrow> gen_world \<Rightarrow> bool" where
  "prunes P w w' \<longleftrightarrow> gw_lock w' = gw_lock w \<and> (gw_faults w = [] \<longrightarrow> gw_faults w' = []) \<and>
     (\<forall>name. gw_file w' name = gw_file w name \<or> gw_file w' name = None \<and> (\<exists>k. name = kind_name k \<and> P k))"

lemma prunes_refl: "reflp (prunes P)"
  by (simp add: reflp_def prunes_def)

lemma prunes_trans: "transp (prunes P)"
  unfolding transp_def prunes_def by metis

lemma prunes_self [simp]: "prunes P w w"
  by (simp add: prunes_def)

lemma keeps_prune_remove [intro]: "P k \<Longrightarrow> keeps (prunes P) (fs_remove_file (kind_name k))"
  by (rule keepsI) (auto simp: fs_remove_file_def prunes_def gw_file_def dest!: next_fault_confined
      split: prod.splits option.splits dir_entry.splits)

lemma keeps_prune_sync [intro]: "keeps (prunes P) fs_sync"
  by (rule keepsI) (auto simp: fs_sync_def prunes_def gw_file_def dest!: next_fault_confined
      split: prod.splits option.splits)

lemma keeps_prune_ask [intro]: "keeps (prunes P) (sask f)"
  by (simp add: keeps_def sask_def)

lemmas keeps_prune_bind = keeps_bind [OF prunes_trans]
lemmas keeps_prune_pure = keeps_pure [OF prunes_refl]
lemmas keeps_prune_fold = keeps_fold [OF prunes_refl prunes_trans]

lemma prunes_witness:
  assumes "verify_generation_directory crc (gw_entries w) = Inr v" "files_fit (gw_entries w)" "prunes P w w'"
    and "\<not> P (KMarker (gs_authoritative_generation v))" "\<not> P (KGeneration (gs_authoritative_generation v))"
  obtains v' where "verify_generation_directory crc (gw_entries w') = Inr v'"
    "witness_from_summary v' = witness_from_summary v" "files_fit (gw_entries w')"
    "gen_content crc (gw_entries w') = gen_content crc (gw_entries w)"
proof -
  let ?d = "gw_entries w" and ?d' = "gw_entries w'" and ?g = "gs_authoritative_generation v"
  obtain f ms where a: "namespace_ok ?d" "gen_authority crc ?d ?g (gs_committed_prefix v) f ms"
    "gs_authoritative_log v = canonical_generation_name ?g" "log_verify crc f = Inr (gs_log_verification v)"
    using verify_generation_sound [OF assms(1,2)] by metis
  have sub: "om_lookup ?d' k = Some c \<Longrightarrow> om_lookup ?d k = Some c" for k c
    using assms(3) unfolding prunes_def gw_file_def by (metis option.distinct(1))
  have keep: "om_lookup ?d' (kind_name k) = om_lookup ?d (kind_name k)" if "\<not> P k" for k
    using assms(3) that unfolding prunes_def gw_file_def by (metis kind_name_inject)
  have "om_size ?d' \<le> om_size ?d"
    using om_size_le [of ?d' ?d "[]"] sub by (metis add_0_right list.size(3) not_Some_eq)
  then have ns: "namespace_ok ?d'"
    using a(1) by (intro namespace_ok_update [OF a(1)]) (auto simp: namespace_ok_def dest: sub)
  have fit: "files_fit ?d'" using assms(2) sub unfolding files_fit_def by blast
  have auth: "gen_authority crc ?d' ?g (gs_committed_prefix v) f ms"
  proof -
    have "om_lookup ?d' (canonical_marker_name i) = None" if "om_lookup ?d (canonical_marker_name i) = None" for i
      using sub [of "canonical_marker_name i"] that by (cases "om_lookup ?d' (canonical_marker_name i)") auto
    then show ?thesis
      using a(2) keep [OF assms(4)] keep [OF assms(5)] unfolding gen_authority_def by simp
  qed
  obtain v' where v': "verify_generation_directory crc ?d' = Inr v'" "gs_authoritative_generation v' = ?g"
    "gs_committed_prefix v' = gs_committed_prefix v" "gs_authoritative_log v' = canonical_generation_name ?g"
    "log_verify crc f = Inr (gs_log_verification v')"
    using verify_generation_complete [OF ns fit auth] by metis
  have "witness_from_summary v' = witness_from_summary v"
    using v' a(3,4) by (simp add: witness_from_summary_def)
  moreover have "gen_content crc ?d' = gen_content crc ?d"
    using v'(1,4) assms(1) a(3) keep [OF assms(5)] by (simp add: gen_content_def)
  ultimately show thesis using v'(1) fit by (intro that)
qed

lemma prunes_frontier:
  assumes "verify_generation_directory crc (gw_entries w) = Inr v" "verify_generation_directory crc (gw_entries w') = Inr v'"
    and "prunes P w w'" "\<not> P k0" "gw_file w (kind_name k0) \<noteq> None" "\<And>k. P k \<Longrightarrow> kind_id k \<le> kind_id k0"
  shows "gs_highest_observed_generation v' = gs_highest_observed_generation v"
proof (rule antisym)
  note ids = verify_generation_ids [OF assms(1)] and ids' = verify_generation_ids [OF assms(2)]
  obtain k where k: "om_lookup (gw_entries w') (kind_name k) \<noteq> None" "kind_id k = gs_highest_observed_generation v'"
    using ids'(2) by blast
  then have "om_lookup (gw_entries w) (kind_name k) \<noteq> None"
    using assms(3) unfolding prunes_def gw_file_def by metis
  then show "gs_highest_observed_generation v' \<le> gs_highest_observed_generation v" using ids(1) k(2) by metis
  obtain j where j: "om_lookup (gw_entries w) (kind_name j) \<noteq> None" "kind_id j = gs_highest_observed_generation v"
    using ids(2) by blast
  have kept: "om_lookup (gw_entries w') (kind_name i) = om_lookup (gw_entries w) (kind_name i)" if "\<not> P i" for i
    using assms(3) that unfolding prunes_def gw_file_def by (metis kind_name_inject)
  show "gs_highest_observed_generation v \<le> gs_highest_observed_generation v'"
  proof (cases "P j")
    case True
    then have "kind_id j \<le> kind_id k0" by (rule assms(6))
    also have "\<dots> \<le> gs_highest_observed_generation v'"
      using ids'(1) [of k0] kept [OF assms(4)] assms(5) by (simp add: gw_file_def)
    finally show ?thesis using j(2) by simp
  next
    case False
    then show ?thesis using ids'(1) [of j] kept [OF False] j by simp
  qed
qed



subsection \<open>Cleanup\<close>

fun obsolete :: "nat \<Rightarrow> name_kind \<Rightarrow> bool" where
  "obsolete g (KMarker i) \<longleftrightarrow> i < g"
| "obsolete g (KGeneration i) \<longleftrightarrow> i < g"
| "obsolete g (KStaging i) \<longleftrightarrow> i \<le> g"
| "obsolete g (KReservation i) \<longleftrightarrow> False"

lemma remove_plan_keeps:
  "(\<And>gid. gid \<in> set ids \<Longrightarrow> \<exists>k. planned_path names gid = kind_name k \<and> P k) \<Longrightarrow> keeps (prunes P) (remove_plan names ids)"
  unfolding remove_plan_def by (rule keeps_prune_fold) (metis keeps_map_err keeps_prune_remove)

lemma remove_plan_gone:
  "remove_plan names ids w = (Inr (), w') \<Longrightarrow> gid \<in> set ids \<Longrightarrow> gw_file w' (planned_path names gid) = None"
proof (induction ids arbitrary: w)
  case (Cons x ids)
  obtain w1 where w1: "fs_remove_file (planned_path names x) w = (Inr (), w1)" "remove_plan names ids w1 = (Inr (), w')"
    using Cons.prems(1) by (auto simp: remove_plan_def sbind_eq_Inr smap_err_def map_err_def split: prod.splits sum.splits)
  have mono: "gw_file v' path = None" if "remove_plan names js v = (r, v')" "gw_file v path = None" for js v v' r path
    using that
  proof (induction js arbitrary: v)
    case (Cons j js)
    obtain ra va where ra: "fs_remove_file (planned_path names j) v = (ra, va)" by force
    then have va: "gw_file va path = None" using Cons.prems(2) by (cases rule: fs_remove_cases) (auto simp: gw_file_def)
    show ?case
    proof (cases ra)
      case (Inl e)
      then show ?thesis using Cons.prems(1) ra va by (simp add: remove_plan_def sbind_def smap_err_def)
    next
      case (Inr u)
      then have "remove_plan names js va = (r, v')" using Cons.prems(1) ra by (simp add: remove_plan_def sbind_def smap_err_def)
      then show ?thesis using va by (rule Cons.IH)
    qed
  qed (simp add: remove_plan_def sret_def)
  have "gw_file w1 (planned_path names x) = None"
    using w1(1) by (cases rule: fs_remove_cases) (simp_all add: gw_file_def)
  then show ?case using mono [OF w1(2)] Cons.IH [OF w1(2)] Cons.prems(2) by auto
qed simp

lemma remove_plan_quiet:
  assumes "gw_faults w = []" "distinct ids" "\<And>gid. gid \<in> set ids \<Longrightarrow> \<exists>f. gw_file w (planned_path names gid) = Some (RegularFile f)"
    "inj_on (planned_path names) (set ids)"
  shows "fst (remove_plan names ids w) = Inr ()"
  using assms
proof (induction ids arbitrary: w)
  case (Cons x ids)
  obtain f where f: "gw_file w (planned_path names x) = Some (RegularFile f)" using Cons.prems(3) by fastforce
  let ?w1 = "w\<lparr>gw_entries := om_remove (planned_path names x) (gw_entries w)\<rparr>"
  have rm: "fs_remove_file (planned_path names x) w = (Inr (), ?w1)" using Cons.prems(1) f by simp
  have "fst (remove_plan names ids ?w1) = Inr ()"
  proof (rule Cons.IH)
    show "\<exists>f. gw_file ?w1 (planned_path names gid) = Some (RegularFile f)" if "gid \<in> set ids" for gid
    proof -
      have "planned_path names gid \<noteq> planned_path names x"
        using that Cons.prems(2,4) by (auto simp: inj_on_def)
      then show ?thesis using Cons.prems(3) [of gid] that by (simp add: gw_file_def)
    qed
  qed (use Cons.prems in \<open>simp_all\<close>)
  then show ?case by (simp add: remove_plan_def sbind_def smap_err_def rm)
qed (simp add: remove_plan_def sret_def)

lemma sync_if_keeps: "keeps (prunes P) (sync_directory_if b)"
  unfolding sync_directory_if_def by (intro keeps_if keeps_map_err keeps_prune_sync keeps_prune_pure)

lemma same_authority_Inr:
  "require_same_authority crc aw w = Inr s \<longleftrightarrow>
     verify_generation_directory crc (gw_entries w) = Inr s \<and> witness_from_summary s = aw"
  by (auto simp: require_same_authority_def cln_verify_def result_iff)


text \<open>The body once the directory has verified and been scanned.\<close>

definition cleanup_phases ::
    "(bytes \<Rightarrow> 32 word) \<Rightarrow> gen_summary \<Rightarrow> gen_namespace \<Rightarrow> (cleanup_error, gen_summary) gen_act" where
  "cleanup_phases crc v ns =
     (let g = gs_authoritative_generation v;
          markers = filter (\<lambda>gid. gid < g) (om_keys (ns_marker_files ns));
          logs = filter (\<lambda>gid. gid < g) (om_keys (ns_generation_files ns));
          stagings = filter (\<lambda>gid. gid \<le> g) (om_keys (ns_staging_marker_files ns)) in
      sbind (sask (require_plan_regular (ns_marker_files ns) markers)) (\<lambda>_.
      sbind (sask (require_plan_regular (ns_staging_marker_files ns) stagings)) (\<lambda>_.
      sbind (sask (require_plan_regular (ns_generation_files ns) logs)) (\<lambda>_.
      sbind (sask (require_same_authority crc (witness_from_summary v))) (\<lambda>_.
      sbind (remove_plan (ns_marker_files ns) markers) (\<lambda>_.
      sbind (remove_plan (ns_staging_marker_files ns) stagings) (\<lambda>_.
      sbind (sync_directory_if (markers \<noteq> [] \<or> stagings \<noteq> [])) (\<lambda>_.
      sbind (sask (require_same_authority crc (witness_from_summary v))) (\<lambda>_.
      sbind (remove_plan (ns_generation_files ns) logs) (\<lambda>_.
      sbind (sync_directory_if (logs \<noteq> [])) (\<lambda>_.
      sask (require_same_authority crc (witness_from_summary v)))))))))))))"

definition cleanup_summary_of :: "gen_summary \<Rightarrow> gen_namespace \<Rightarrow> gen_summary \<Rightarrow> gen_namespace \<Rightarrow> cleanup_summary" where
  "cleanup_summary_of v ns final_verified final_namespace =
     (let g = gs_authoritative_generation v in
      \<lparr>cl_authoritative_generation = g,
       cl_removed_marker_generation_ids = filter (\<lambda>gid. gid < g) (om_keys (ns_marker_files ns)),
       cl_removed_generation_ids = filter (\<lambda>gid. gid < g) (om_keys (ns_generation_files ns)),
       cl_removed_staging_marker_generation_ids = filter (\<lambda>gid. gid \<le> g) (om_keys (ns_staging_marker_files ns)),
       cl_retained_staging_marker_generation_ids = om_keys (ns_staging_marker_files final_namespace),
       cl_retained_uncommitted_generation_ids =
         filter (\<lambda>gid. om_lookup (ns_marker_files final_namespace) gid = None)
           (om_keys (ns_generation_files final_namespace)),
       cl_final_generation = final_verified\<rparr>)"

lemma cleanup_run:
  assumes "verify_generation_directory crc (gw_entries w) = Inr v" "scan_generation_namespace (gw_entries w) = Inr ns"
    and "cleanup_obsolete_generations crc owner w = (r, w')"
  obtains (fail) e where "r = Inl e" "gw_entries w' = gw_entries w"
  | (ran) w1 w2 where "gw_entries w1 = gw_entries w" "gw_entries w' = gw_entries w2"
      "sbind (cleanup_phases crc v ns) (\<lambda>s. sbind (sask cln_scan) (\<lambda>fns. sret (cleanup_summary_of v ns s fns))) w1 = (r, w2)"
  using assms(3) [unfolded cleanup_obsolete_generations_def]
proof (cases rule: with_lease_cases)
  case (fail e)
  then show thesis by (rule that(1))
next
  case (ran w1 w2)
  have "sbind (cleanup_phases crc v ns) (\<lambda>s. sbind (sask cln_scan) (\<lambda>fns. sret (cleanup_summary_of v ns s fns))) w1 = (r, w2)"
    unfolding ran(4) [symmetric] using assms(1,2) ran(1)
    by (simp add: cleanup_phases_def sbind_assoc Let_def cln_verify_def cln_scan_def cleanup_summary_of_def witness_from_summary_def)
  with ran(1,5) show thesis by (rule that(2))
qed


lemma planned_kind:
  assumes "scan_generation_namespace d = Inr ns"
  shows "gid \<in> set (om_keys (ns_marker_files ns)) \<Longrightarrow>
      planned_path (ns_marker_files ns) gid = kind_name (KMarker gid)"
    "gid \<in> set (om_keys (ns_generation_files ns)) \<Longrightarrow>
      planned_path (ns_generation_files ns) gid = kind_name (KGeneration gid)"
    "gid \<in> set (om_keys (ns_staging_marker_files ns)) \<Longrightarrow>
      planned_path (ns_staging_marker_files ns) gid = kind_name (KStaging gid)"
    "gid \<in> set (om_keys (ns_marker_files ns)) \<longleftrightarrow> om_lookup d (kind_name (KMarker gid)) \<noteq> None"
    "gid \<in> set (om_keys (ns_generation_files ns)) \<longleftrightarrow> om_lookup d (kind_name (KGeneration gid)) \<noteq> None"
    "gid \<in> set (om_keys (ns_staging_marker_files ns)) \<longleftrightarrow> om_lookup d (kind_name (KStaging gid)) \<noteq> None"
  using scan_namespace_Inr(2) [OF assms, of "KMarker gid"] scan_namespace_Inr(2) [OF assms, of "KGeneration gid"]
    scan_namespace_Inr(2) [OF assms, of "KStaging gid"]
  by (auto simp: planned_path_def set_om_keys domIff split: if_splits)

lemma phases_keep:
  assumes "scan_generation_namespace d = Inr ns"
  shows "keeps (prunes (obsolete (gs_authoritative_generation v))) (cleanup_phases crc v ns)"
proof -
  note planned = planned_kind [OF assms]
  let ?g = "gs_authoritative_generation v"
  have m: "keeps (prunes (obsolete ?g)) (remove_plan (ns_marker_files ns) (filter (\<lambda>gid. gid < ?g) (om_keys (ns_marker_files ns))))"
    by (rule remove_plan_keeps) (use planned(1) in \<open>fastforce intro: exI [of _ "KMarker _"]\<close>)
  have l: "keeps (prunes (obsolete ?g)) (remove_plan (ns_generation_files ns) (filter (\<lambda>gid. gid < ?g) (om_keys (ns_generation_files ns))))"
    by (rule remove_plan_keeps) (use planned(2) in \<open>fastforce intro: exI [of _ "KGeneration _"]\<close>)
  have s: "keeps (prunes (obsolete ?g)) (remove_plan (ns_staging_marker_files ns) (filter (\<lambda>gid. gid \<le> ?g) (om_keys (ns_staging_marker_files ns))))"
    by (rule remove_plan_keeps) (use planned(3) in \<open>fastforce intro: exI [of _ "KStaging _"]\<close>)
  show ?thesis
    unfolding cleanup_phases_def Let_def by (intro keeps_prune_bind keeps_prune_ask m l s sync_if_keeps)
qed

lemma prunes_None: "prunes P w w' \<Longrightarrow> gw_file w name = None \<Longrightarrow> gw_file w' name = None"
  unfolding prunes_def by metis

lemma phases_done:
  assumes "scan_generation_namespace (gw_entries w) = Inr ns" "cleanup_phases crc v ns w = (Inr s, w')"
    and "obsolete (gs_authoritative_generation v) k"
  shows "gw_file w' (kind_name k) = None"
    "verify_generation_directory crc (gw_entries w') = Inr s"
proof -
  let ?g = "gs_authoritative_generation v"
  note planned = planned_kind [OF assms(1)]
  obtain wa wb wc wd where p:
    "remove_plan (ns_marker_files ns) (filter (\<lambda>gid. gid < ?g) (om_keys (ns_marker_files ns))) w = (Inr (), wa)"
    "remove_plan (ns_staging_marker_files ns) (filter (\<lambda>gid. gid \<le> ?g) (om_keys (ns_staging_marker_files ns))) wa = (Inr (), wb)"
    "sync_directory_if (filter (\<lambda>gid. gid < ?g) (om_keys (ns_marker_files ns)) \<noteq> [] \<or>
        filter (\<lambda>gid. gid \<le> ?g) (om_keys (ns_staging_marker_files ns)) \<noteq> []) wb = (Inr (), wc)"
    "remove_plan (ns_generation_files ns) (filter (\<lambda>gid. gid < ?g) (om_keys (ns_generation_files ns))) wc = (Inr (), wd)"
    "sync_directory_if (filter (\<lambda>gid. gid < ?g) (om_keys (ns_generation_files ns)) \<noteq> []) wd = (Inr (), w')"
    "require_same_authority crc (witness_from_summary v) w' = Inr s"
    using assms(2) unfolding cleanup_phases_def Let_def
    by (auto simp: sbind_eq_Inr sask_def sbind_sask split: sum.splits simp del: sbind_sask)
  have any: "prunes (\<lambda>_. True) x y" if "sync_directory_if b x = (r, y)" for b x y r
    using keepsD [OF sync_if_keeps that] .
  have ps: "prunes (\<lambda>_. True) x y"
    if "remove_plan names ids x = (r, y)" "\<And>gid. gid \<in> set ids \<Longrightarrow> \<exists>k. planned_path names gid = kind_name k" for names ids x y r
    by (rule keepsD [OF remove_plan_keeps that(1)]) (use that(2) in blast)
  have ab: "prunes (\<lambda>_. True) wa wb" by (rule ps [OF p(2)]) (use planned(3) in \<open>fastforce intro: exI [of _ "KStaging _"]\<close>)
  have cd: "prunes (\<lambda>_. True) wc wd" by (rule ps [OF p(4)]) (use planned(2) in \<open>fastforce intro: exI [of _ "KGeneration _"]\<close>)
  have late: "gw_file w' name = None" if "gw_file wd name = None" for name
    by (rule prunes_None [OF any [OF p(5)] that])
  have mid: "gw_file w' name = None" if "gw_file wb name = None" for name
    by (rule late [OF prunes_None [OF cd prunes_None [OF any [OF p(3)] that]]])
  have "keeps (prunes (obsolete ?g)) (cleanup_phases crc v ns)" by (rule phases_keep [OF assms(1)])
  then have whole: "prunes (obsolete ?g) w w'" using assms(2) by (rule keepsD)
  show "gw_file w' (kind_name k) = None"
  proof (cases "gw_file w (kind_name k) = None")
    case True
    then show ?thesis by (rule prunes_None [OF whole])
  next
    case False
    show ?thesis
    proof (cases k)
      case (KMarker i)
      then have "i \<in> set (filter (\<lambda>gid. gid < ?g) (om_keys (ns_marker_files ns)))"
        using False assms(3) planned(4) [of i] by (simp add: gw_file_def)
      from remove_plan_gone [OF p(1) this] planned(1) [of i] this
      have "gw_file wa (kind_name k) = None" by (simp add: KMarker)
      then show ?thesis by (intro mid prunes_None [OF ab])
    next
      case (KStaging i)
      then have "i \<in> set (filter (\<lambda>gid. gid \<le> ?g) (om_keys (ns_staging_marker_files ns)))"
        using False assms(3) planned(6) [of i] by (simp add: gw_file_def)
      from remove_plan_gone [OF p(2) this] planned(3) [of i] this
      have "gw_file wb (kind_name k) = None" by (simp add: KStaging)
      then show ?thesis by (rule mid)
    next
      case (KGeneration i)
      then have "i \<in> set (filter (\<lambda>gid. gid < ?g) (om_keys (ns_generation_files ns)))"
        using False assms(3) planned(5) [of i] by (simp add: gw_file_def)
      from remove_plan_gone [OF p(4) this] planned(2) [of i] this
      have "gw_file wd (kind_name k) = None" by (simp add: KGeneration)
      then show ?thesis by (rule late)
    qed (use assms(3) in simp)
  qed
  show "verify_generation_directory crc (gw_entries w') = Inr s" using p(6) by (simp add: same_authority_Inr)
qed


lemma require_plan_Inr:
  "(\<And>gid. gid \<in> set ids \<Longrightarrow> \<exists>f. gw_file w (planned_path names gid) = Some (RegularFile f)) \<Longrightarrow>
     require_plan_regular names ids w = Inr ()"
  unfolding require_plan_regular_def
  by (induction ids) (fastforce simp: cln_require_regular_def)+

lemma prunes_kept: "prunes P w w' \<Longrightarrow> \<not> P k \<Longrightarrow> gw_file w' (kind_name k) = gw_file w (kind_name k)"
  unfolding prunes_def by (metis kind_name_inject)

lemma prunes_quiet: "prunes P w w' \<Longrightarrow> gw_faults w = [] \<Longrightarrow> gw_faults w' = []"
  by (simp add: prunes_def)

lemma sync_if_quiet: "gw_faults w = [] \<Longrightarrow> sync_directory_if b w = (Inr (), w)"
  by (simp add: sync_directory_if_def smap_err_def sret_def)

lemma phases_quiet:
  assumes "gw_faults w = []" "verify_generation_directory crc (gw_entries w) = Inr v" "files_fit (gw_entries w)"
    and "scan_generation_namespace (gw_entries w) = Inr ns"
    and "\<And>k. obsolete (gs_authoritative_generation v) k \<Longrightarrow> gw_file w (kind_name k) \<noteq> Some OtherEntry"
  shows "is_ok (fst (cleanup_phases crc v ns w))"
proof -
  let ?g = "gs_authoritative_generation v"
  let ?ms = "filter (\<lambda>gid. gid < ?g) (om_keys (ns_marker_files ns))"
  let ?ss = "filter (\<lambda>gid. gid \<le> ?g) (om_keys (ns_staging_marker_files ns))"
  let ?ls = "filter (\<lambda>gid. gid < ?g) (om_keys (ns_generation_files ns))"
  let ?P = "\<lambda>k. obsolete ?g k \<and> (\<forall>i. k \<noteq> KGeneration i)" and ?M = "\<lambda>k. obsolete ?g k \<and> (\<exists>i. k = KMarker i)"
  note planned = planned_kind [OF assms(4)]
  have regular: "\<exists>f. gw_file w (kind_name k) = Some (RegularFile f)" if "obsolete ?g k" "gw_file w (kind_name k) \<noteq> None" for k
    using assms(5) [OF that(1)] that(2) by (metis dir_entry.exhaust option.exhaust)
  have m: "\<exists>f. gw_file w (planned_path (ns_marker_files ns) i) = Some (RegularFile f)" if "i \<in> set ?ms" for i
    using regular [of "KMarker i"] planned(1,4) [of i] that by (simp add: gw_file_def)
  have s: "\<exists>f. gw_file w (planned_path (ns_staging_marker_files ns) i) = Some (RegularFile f)" if "i \<in> set ?ss" for i
    using regular [of "KStaging i"] planned(3,6) [of i] that by (simp add: gw_file_def)
  have l: "\<exists>f. gw_file w (planned_path (ns_generation_files ns) i) = Some (RegularFile f)" if "i \<in> set ?ls" for i
    using regular [of "KGeneration i"] planned(2,5) [of i] that by (simp add: gw_file_def)
  have inj: "inj_on (planned_path (ns_marker_files ns)) (set ?ms)" "inj_on (planned_path (ns_staging_marker_files ns)) (set ?ss)"
    "inj_on (planned_path (ns_generation_files ns)) (set ?ls)"
    using planned(1-3) by (auto simp: inj_on_def)
  have distinct: "distinct ?ms" "distinct ?ss" "distinct ?ls"
    by (simp_all add: om_keys_def al_ord_distinct)
  have same: "\<exists>s. require_same_authority crc (witness_from_summary v) x = Inr s" if "prunes (obsolete ?g) w x" for x
    using prunes_witness [OF assms(2,3) that] by (simp add: same_authority_Inr) metis
  obtain wa where wa: "remove_plan (ns_marker_files ns) ?ms w = (Inr (), wa)"
    using remove_plan_quiet [OF assms(1) distinct(1) m inj(1)] by (metis prod.collapse)
  have pa: "prunes ?M w wa"
    by (rule keepsD [OF remove_plan_keeps wa]) (use planned(1) in \<open>fastforce intro: exI [of _ "KMarker _"]\<close>)
  have sa: "\<exists>f. gw_file wa (planned_path (ns_staging_marker_files ns) i) = Some (RegularFile f)" if "i \<in> set ?ss" for i
    using s [OF that] prunes_kept [OF pa, of "KStaging i"] planned(3) [of i] that by simp
  have qa: "gw_faults wa = []" by (rule prunes_quiet [OF pa assms(1)])
  obtain wb where wb: "remove_plan (ns_staging_marker_files ns) ?ss wa = (Inr (), wb)"
    using remove_plan_quiet [OF qa distinct(2) sa inj(2)] by (metis prod.collapse)
  have pab: "prunes ?P wa wb"
    by (rule keepsD [OF remove_plan_keeps wb]) (use planned(3) in \<open>fastforce intro: exI [of _ "KStaging _"]\<close>)
  have "prunes ?P w wa" using pa unfolding prunes_def by blast
  then have pb: "prunes ?P w wb" using pab prunes_trans [of ?P] by (blast dest: transpD)
  then have pb': "prunes (obsolete ?g) w wb" unfolding prunes_def by blast
  have qb: "gw_faults wb = []" by (rule prunes_quiet [OF pb assms(1)])
  have lb: "\<exists>f. gw_file wb (planned_path (ns_generation_files ns) i) = Some (RegularFile f)" if "i \<in> set ?ls" for i
    using l [OF that] prunes_kept [OF pb, of "KGeneration i"] planned(2) [of i] that by simp
  obtain wc where wc: "remove_plan (ns_generation_files ns) ?ls wb = (Inr (), wc)"
    using remove_plan_quiet [OF qb distinct(3) lb inj(3)] by (metis prod.collapse)
  have "prunes (obsolete ?g) wb wc"
    by (rule keepsD [OF remove_plan_keeps wc]) (use planned(2) in \<open>fastforce intro: exI [of _ "KGeneration _"]\<close>)
  then have pc: "prunes (obsolete ?g) w wc" using pb' prunes_trans [of "obsolete ?g"] by (blast dest: transpD)
  have qc: "gw_faults wc = []" by (rule prunes_quiet [OF pc assms(1)])
  obtain s0 s1 s2 where auth: "require_same_authority crc (witness_from_summary v) w = Inr s0"
    "require_same_authority crc (witness_from_summary v) wb = Inr s1" "require_same_authority crc (witness_from_summary v) wc = Inr s2"
    using same [OF prunes_self] same [OF pb'] same [OF pc] by blast
  have plan: "require_plan_regular (ns_marker_files ns) ?ms w = Inr ()"
    "require_plan_regular (ns_staging_marker_files ns) ?ss w = Inr ()"
    "require_plan_regular (ns_generation_files ns) ?ls w = Inr ()"
    by (rule require_plan_Inr [OF m], assumption, rule require_plan_Inr [OF s], assumption,
        rule require_plan_Inr [OF l], assumption)
  have "cleanup_phases crc v ns w = (Inr s2, wc)"
    unfolding cleanup_phases_def Let_def
    using plan auth wa wb wc
      sync_if_quiet [OF qb] sync_if_quiet [OF qc]
    by (simp add: sbind_def [of "remove_plan _ _"] sbind_def [of "sync_directory_if _"] sask_run)
  then show ?thesis by simp
qed


lemma with_lease_quiet:
  assumes "gw_faults w = []" "gw_lock w = None"
  shows "fst (with_lease h owner body w) = fst (body (w\<lparr>gw_lock := Some (RegularFile owner)\<rparr>))"
proof -
  have "acquire_generation_writer_lease owner w = (Inr owner, w\<lparr>gw_lock := Some (RegularFile owner)\<rparr>)"
    using assms by (simp add: acquire_generation_writer_lease_def)
  then show ?thesis by (simp add: with_lease_def sbind_def smap_err_def case_prod_beta)
qed

lemma verified_scans: "verify_generation_directory crc d = Inr v \<Longrightarrow> \<exists>ns. scan_generation_namespace d = Inr ns"
  using verify_authority_top by metis

lemma cleanup_quiet:
  assumes "gw_faults w = []" "gw_lock w = None" "verify_generation_directory crc (gw_entries w) = Inr v"
    and "files_fit (gw_entries w)"
    and "\<And>k. obsolete (gs_authoritative_generation v) k \<Longrightarrow> gw_file w (kind_name k) \<noteq> Some OtherEntry"
  shows "is_ok (fst (cleanup_obsolete_generations crc owner w))"
proof -
  obtain ns where ns: "scan_generation_namespace (gw_entries w) = Inr ns" using verified_scans [OF assms(3)] ..
  let ?w = "w\<lparr>gw_lock := Some (RegularFile owner)\<rparr>"
  obtain r1 w1 where run: "cleanup_phases crc v ns ?w = (r1, w1)" by force
  have "is_ok (fst (cleanup_phases crc v ns ?w))"
    by (rule phases_quiet) (use assms ns in \<open>simp_all add: gw_file_def\<close>)
  then obtain s where s: "r1 = Inr s" using run by (auto simp: is_ok_iff)
  have "verify_generation_directory crc (gw_entries w1) = Inr s"
    by (rule phases_done(2) [of ?w ns crc v s w1 "KStaging 0"]) (use ns run s in simp_all)
  then obtain fns where "scan_generation_namespace (gw_entries w1) = Inr fns" using verified_scans by blast
  then have "is_ok (fst (sbind (cleanup_phases crc v ns) (\<lambda>s. sbind (sask cln_scan) (\<lambda>fns. sret (cleanup_summary_of v ns s fns))) ?w))"
    by (simp add: sbind_def [of "cleanup_phases _ _ _"] run s cln_scan_def sret_def)
  then show ?thesis
    unfolding cleanup_obsolete_generations_def with_lease_quiet [OF assms(1,2)] using assms(3) ns
    by (simp add: cleanup_phases_def sbind_assoc Let_def cln_verify_def cln_scan_def cleanup_summary_of_def witness_from_summary_def)
qed

text \<open>C10 (cleanup): cleanup of a directory that verifies.  Wherever a fault stops it, the directory
  still verifies with the same authority, committed prefix, log and content and the same allocation
  frontier; only obsolete names are gone (markers and logs below the authority, staging markers up to
  it), no reservation among them, and nothing new has appeared.  A cleanup that returns normally has
  removed every obsolete name; and when nothing fails and the obsolete names are regular files it
  does return normally.\<close>

theorem cleanup_keeps_authority:
  assumes "verify_generation_directory crc (gw_entries w) = Inr v" "files_fit (gw_entries w)"
    and "cleanup_obsolete_generations crc owner w = (r, w')"
  shows "(\<exists>v'. verify_generation_directory crc (gw_entries w') = Inr v' \<and> witness_from_summary v' = witness_from_summary v \<and>
      gs_highest_observed_generation v' = gs_highest_observed_generation v \<and>
      (\<forall>s. r = Inr s \<longrightarrow> cl_final_generation s = v')) \<and>
    gen_content crc (gw_entries w') = gen_content crc (gw_entries w) \<and>
    (\<forall>name. gw_file w' name = gw_file w name \<or>
      gw_file w' name = None \<and> (\<exists>k. name = kind_name k \<and> obsolete (gs_authoritative_generation v) k)) \<and>
    (is_ok r \<longrightarrow> (\<forall>k. obsolete (gs_authoritative_generation v) k \<longrightarrow> gw_file w' (kind_name k) = None)) \<and>
    (gw_faults w = [] \<and> gw_lock w = None \<and>
       (\<forall>k. obsolete (gs_authoritative_generation v) k \<longrightarrow> gw_file w (kind_name k) \<noteq> Some OtherEntry) \<longrightarrow> is_ok r)"
proof -
  let ?g = "gs_authoritative_generation v"
  obtain ns where ns: "scan_generation_namespace (gw_entries w) = Inr ns" by (rule verify_authority_top [OF assms(1)])
  have frame: "(\<exists>v'. verify_generation_directory crc (gw_entries w2) = Inr v' \<and> witness_from_summary v' = witness_from_summary v \<and>
      gs_highest_observed_generation v' = gs_highest_observed_generation v) \<and>
    gen_content crc (gw_entries w2) = gen_content crc (gw_entries w1)"
    if "prunes (obsolete ?g) w1 w2" "gw_entries w1 = gw_entries w" for w1 w2
  proof -
    have v1: "verify_generation_directory crc (gw_entries w1) = Inr v" "files_fit (gw_entries w1)"
      using assms(1,2) that(2) by simp_all
    have "\<not> obsolete ?g (KMarker ?g)" "\<not> obsolete ?g (KGeneration ?g)" by simp_all
    from prunes_witness [OF v1 that(1) this] obtain v' where v': "verify_generation_directory crc (gw_entries w2) = Inr v'"
      "witness_from_summary v' = witness_from_summary v" "gen_content crc (gw_entries w2) = gen_content crc (gw_entries w1)" by metis
    have top: "gw_file w1 (kind_name (KMarker ?g)) \<noteq> None" "\<not> obsolete ?g (KMarker ?g)"
      using verify_marker_bounds(1) [OF v1(1)] by (simp_all add: gw_file_def)
    have "kind_id k \<le> kind_id (KMarker ?g)" if "obsolete ?g k" for k using that by (cases k) simp_all
    then show ?thesis
      using v' prunes_frontier [OF v1(1) v'(1) that(1) top(2,1)] by blast
  qed
  have quiet: "is_ok r" if "gw_faults w = []" "gw_lock w = None"
      "\<forall>k. obsolete ?g k \<longrightarrow> gw_file w (kind_name k) \<noteq> Some OtherEntry"
    using cleanup_quiet [OF that(1,2) assms(1,2), of owner] that(3) assms(3) by simp
  show ?thesis
    using assms(1) ns assms(3)
  proof (cases rule: cleanup_run)
    case (fail e)
    have "gw_file w' k = gw_file w k" for k using fail(2) by (simp add: gw_file_def)
    then show ?thesis using fail assms(1) quiet by auto
  next
    case (ran w1 w2)
    obtain r1 w3 where run: "cleanup_phases crc v ns w1 = (r1, w3)" by force
    have same: "w2 = w3" "is_ok r \<Longrightarrow> is_ok r1 \<and> cl_final_generation (projr r) = projr r1"
      using ran(3) run by (auto simp: sbind_def sask_def sret_def cleanup_summary_of_def Let_def is_ok_def split: sum.splits)
    have ns1: "scan_generation_namespace (gw_entries w1) = Inr ns" using ns ran(1) by simp
    have p: "prunes (obsolete ?g) w1 w2" unfolding same(1) by (rule keepsD [OF phases_keep [OF ns1] run])
    have files: "gw_file w1 k = gw_file w k" "gw_file w' k = gw_file w2 k" for k using ran(1,2) by (simp_all add: gw_file_def)
    have gone: "gw_file w' (kind_name k) = None" if ok: "is_ok r" "obsolete ?g k" for k
    proof -
      obtain s where "r1 = Inr s" using same(2) [OF ok(1)] by (auto simp: is_ok_iff)
      then show ?thesis using phases_done(1) [OF ns1 _ ok(2)] run files(2) same(1) by simp
    qed
    have final: "verify_generation_directory crc (gw_entries w') = Inr (cl_final_generation s)" if "r = Inr s" for s
      using same that phases_done(2) [OF ns1, of crc v "projr r1" w3 "KStaging 0"] run ran(2) by (auto simp: is_ok_iff)
    have "\<forall>name. gw_file w' name = gw_file w name \<or> gw_file w' name = None \<and> (\<exists>k. name = kind_name k \<and> obsolete ?g k)"
      using p unfolding prunes_def files by blast
    then show ?thesis using frame [OF p ran(1)] ran(1,2) gone final quiet by fastforce
  qed
qed


lemma cleanup_keeps_authority_witness:
  "\<exists>s w' v'. cleanup_obsolete_generations (\<lambda>_. 0) [7] (single_world (\<lambda>_. 0)) = (Inr s, w') \<and>
    verify_generation_directory (\<lambda>_. 0) (gw_entries w') = Inr v' \<and> aw_generation (witness_from_summary v') = 1 \<and>
    cl_final_generation s = v'"
proof -
  let ?c = "\<lambda>_. 0 :: 32 word" and ?w = "single_world (\<lambda>_. 0 :: 32 word)"
  obtain v where v: "verify_generation_directory ?c (gw_entries ?w) = Inr v" "gs_authoritative_generation v = 1"
    using clean_world_switch [of ?c] by blast
  obtain r w' where run: "cleanup_obsolete_generations ?c [7] ?w = (r, w')" by force
  have "\<forall>k. obsolete 1 k \<longrightarrow> gw_file ?w (kind_name k) \<noteq> Some OtherEntry"
    by (auto simp: single_world_def single_generation_dir_def gw_file_def split: if_splits)
  then show ?thesis
    using cleanup_keeps_authority [OF v(1) gen_holds_file(8) [OF single_world_holds] run] v run
    by (auto simp: single_world_def is_ok_iff witness_from_summary_def)
qed


subsection \<open>Retirement of an orphan\<close>

lemma fingerprint_chunks_eq:
  "fingerprint_chunks source n hasher =
     (if n + length source \<le> u64_max \<or> source = [] then Some (n + length source, crc32_update hasher source) else None)"
proof (induction source n hasher rule: fingerprint_chunks.induct)
  case (1 source n hasher)
  let ?c = "take FINGERPRINT_BUFFER_BYTES source" and ?r = "drop FINGERPRINT_BUFFER_BYTES source"
  have append: "crc32_update (crc32_update hasher ?c) ?r = crc32_update hasher source"
    using crc32_update_append [of hasher ?c ?r] by simp
  have len: "length ?c + length ?r = length source" by simp
  show ?case
  proof (cases "source = []")
    case True
    then show ?thesis by (simp add: fingerprint_chunks.simps)
  next
    case False
    then have c: "?c \<noteq> []" by (simp add: FINGERPRINT_BUFFER_BYTES_def)
    show ?thesis
    proof (cases "n + length ?c \<le> u64_max")
      case True
      then have "fingerprint_chunks source n hasher = fingerprint_chunks ?r (n + length ?c) (crc32_update hasher ?c)"
        using c by (subst fingerprint_chunks.simps) (simp add: Let_def checked_add64_def)
      also have "\<dots> = (if n + length ?c + length ?r \<le> u64_max \<or> ?r = [] then
          Some (n + length ?c + length ?r, crc32_update (crc32_update hasher ?c) ?r) else None)"
        by (rule 1) (use c True in \<open>simp_all add: checked_add64_def\<close>)
      also have "n + length ?c + length ?r = n + length source" using len by linarith
      finally have run: "fingerprint_chunks source n hasher =
          (if n + length source \<le> u64_max \<or> ?r = [] then Some (n + length source, crc32_update hasher source) else None)"
        unfolding append .
      have "n + length source \<le> u64_max" if "?r = []" using True len that by (metis add_0_right list.size(3))
      then show ?thesis unfolding run using False by meson
    next
      case no: False
      then have "fingerprint_chunks source n hasher = None"
        using c by (subst fingerprint_chunks.simps) (simp add: Let_def checked_add64_def)
      moreover have "\<not> n + length source \<le> u64_max" using no len by linarith
      ultimately show ?thesis using False by (metis (full_types))
    qed
  qed
qed

definition fingerprint_of :: "bytes \<Rightarrow> file_fingerprint" where
  "fingerprint_of f = \<lparr>fp_bytes = length f, fp_crc32 = crc32_ieee f\<rparr>"

lemma fingerprint_file_Inr:
  "fingerprint_file w path = Inr fp \<longleftrightarrow>
     (\<exists>f. gw_file w path = Some (RegularFile f) \<and> length f \<le> u64_max \<and> fp = fingerprint_of f)"
proof -
  have "fingerprint_chunks f 0 crc32_new = Some (n, h) \<longleftrightarrow> length f \<le> u64_max \<and> n = length f \<and> h = crc32_update crc32_new f"
    for f n h
    unfolding fingerprint_chunks_eq by (cases f) auto
  then show ?thesis
    by (auto simp: fingerprint_file_def or_require_regular_def result_iff require_real_Inr
      fingerprint_of_def crc32_ieee_def)
qed

lemma orphan_candidate:
  assumes "validate_reserved_orphan_candidate ns auth n w = Inr path" "scan_generation_namespace d = Inr ns"
  shows "path = kind_name (KGeneration n)" "auth < n" "om_lookup d (kind_name (KReservation n)) \<noteq> None"
    "om_lookup d (kind_name (KMarker n)) = None"
  using assms(1) scan_namespace_Inr(2) [OF assms(2), of "KGeneration n"] scan_namespace_Inr(2) [OF assms(2), of "KMarker n"]
    scan_namespace_Inr(2) [OF assms(2), of "KReservation n"]
  by (auto simp: validate_reserved_orphan_candidate_def result_iff split: if_splits)

lemma check_orphan_facts:
  assumes "check_orphan crc n auth fo fs w = Inr (v, ns, path)"
  shows "verify_generation_directory crc (gw_entries w) = Inr v" "gs_authoritative_generation v = auth"
    "scan_generation_namespace (gw_entries w) = Inr ns" "path = kind_name (KGeneration n)" "auth < n"
    "gw_file w (kind_name (KReservation n)) \<noteq> None"
    "\<exists>f. gw_file w (kind_name (KGeneration n)) = Some (RegularFile f) \<and> fingerprint_of f = fo"
    "case gw_file w (kind_name (KStaging n)) of None \<Rightarrow> fs = None
     | Some c \<Rightarrow> \<exists>f. c = RegularFile f \<and> fs = Some (fingerprint_of f)"
proof -
  have c: "verify_generation_directory crc (gw_entries w) = Inr v" "gs_authoritative_generation v = auth"
    "scan_generation_namespace (gw_entries w) = Inr ns" "validate_reserved_orphan_candidate ns auth n w = Inr path"
    "require_fingerprint n path fo w = Inr ()"
    "require_staging_fingerprint n (om_lookup (ns_staging_marker_files ns) n) fs w = Inr ()"
    using assms by (auto simp: check_orphan_def verify_expected_authority_def or_scan_def result_iff split: if_splits)
  note o = orphan_candidate [OF c(4,3)]
  show "verify_generation_directory crc (gw_entries w) = Inr v" "gs_authoritative_generation v = auth"
    "scan_generation_namespace (gw_entries w) = Inr ns" "path = kind_name (KGeneration n)" "auth < n"
    "gw_file w (kind_name (KReservation n)) \<noteq> None"
    using c o by (simp_all add: gw_file_def)
  show "\<exists>f. gw_file w (kind_name (KGeneration n)) = Some (RegularFile f) \<and> fingerprint_of f = fo"
    using c(5) o(1) by (auto simp: require_fingerprint_def result_iff fingerprint_file_Inr split: if_splits)
  show "case gw_file w (kind_name (KStaging n)) of None \<Rightarrow> fs = None
     | Some c \<Rightarrow> \<exists>f. c = RegularFile f \<and> fs = Some (fingerprint_of f)"
    using c(6) scan_namespace_Inr(2) [OF c(3), of "KStaging n"]
    by (auto simp: require_staging_fingerprint_def result_iff fingerprint_file_Inr gw_file_def
        split: option.splits if_splits)
qed


text \<open>The names a retirement may remove.\<close>

definition orphan_name :: "nat \<Rightarrow> name_kind \<Rightarrow> bool" where
  "orphan_name n k \<longleftrightarrow> k = KGeneration n \<or> k = KStaging n"

definition retire_after_check ::
    "(bytes \<Rightarrow> 32 word) \<Rightarrow> nat \<Rightarrow> nat \<Rightarrow> file_fingerprint \<Rightarrow> bytes option \<Rightarrow> (orphan_error, gen_summary) gen_act" where
  "retire_after_check crc n auth fo staging =
     sbind (case staging of None \<Rightarrow> sret ()
              | Some path \<Rightarrow> sbind (smap_err OrIo (fs_remove_file path)) (\<lambda>_. smap_err OrDurabilityUncertain fs_sync)) (\<lambda>_.
     sbind (sask (\<lambda>w. rbind (verify_expected_authority crc auth w) (\<lambda>_.
                rbind (or_scan w) (\<lambda>after_staging.
                rbind (validate_reserved_orphan_candidate after_staging auth n w) (\<lambda>path.
                rbind (require_fingerprint n path fo w) (\<lambda>_. Inr path)))))) (\<lambda>orphan_path.
     sbind (smap_err OrIo (fs_remove_file orphan_path)) (\<lambda>_.
     sbind (smap_err OrDurabilityUncertain fs_sync) (\<lambda>_.
     sbind (sask (verify_expected_authority crc auth)) (\<lambda>final_verified.
     sbind (sask or_scan) (\<lambda>final_namespace.
     sbind (slift (ensure (\<not> (om_lookup (ns_generation_files final_namespace) n \<noteq> None \<or>
                om_lookup (ns_staging_marker_files final_namespace) n \<noteq> None)) OrInvalid)) (\<lambda>_.
     sbind (slift (ensure (om_lookup (ns_reservation_files final_namespace) n \<noteq> None) OrInvalid)) (\<lambda>_.
     sbind (slift (ensure (\<not> gs_highest_observed_generation final_verified < n) OrInvalid)) (\<lambda>_.
     sret final_verified)))))))))"

lemma retire_after_check_run:
  assumes "retire_after_check crc n auth fo staging w = (r, w')"
    and "staging = None \<or> staging = Some (kind_name (KStaging n))"
  shows "prunes (orphan_name n) w w'"
    and "r = Inr s \<Longrightarrow> verify_generation_directory crc (gw_entries w') = Inr s \<and>
      gw_file w' (kind_name (KGeneration n)) = None \<and> gw_file w' (kind_name (KStaging n)) = None"
proof -
  have names: "orphan_name n (KGeneration n)" "orphan_name n (KStaging n)" by (simp_all add: orphan_name_def)
  let ?st = "case staging of None \<Rightarrow> sret ()
      | Some path \<Rightarrow> sbind (smap_err OrIo (fs_remove_file path)) (\<lambda>_. smap_err OrDurabilityUncertain fs_sync)"
  have first: "keeps (prunes (orphan_name n)) ?st"
  proof -
    have "keeps (prunes (orphan_name n)) (sbind (smap_err OrIo (fs_remove_file (kind_name (KStaging n))))
        (\<lambda>_. smap_err OrDurabilityUncertain fs_sync))"
      by (intro keeps_prune_bind keeps_map_err keeps_prune_remove keeps_prune_sync names(2))
    then show ?thesis using assms(2) keeps_prune_pure(1) by (elim disjE) (simp_all del: kind_name.simps)
  qed
  have later: "keeps (prunes (orphan_name n)) (sbind (smap_err OrIo (fs_remove_file (kind_name (KGeneration n)))) (\<lambda>_.
     sbind (smap_err OrDurabilityUncertain fs_sync) (\<lambda>_.
     sbind (sask (verify_expected_authority crc auth)) (\<lambda>final_verified.
     sbind (sask or_scan) (\<lambda>final_namespace.
     sbind (slift (ensure (\<not> (om_lookup (ns_generation_files final_namespace) n \<noteq> None \<or>
                om_lookup (ns_staging_marker_files final_namespace) n \<noteq> None)) OrInvalid)) (\<lambda>_.
     sbind (slift (ensure (om_lookup (ns_reservation_files final_namespace) n \<noteq> None) OrInvalid)) (\<lambda>_.
     sbind (slift (ensure (\<not> gs_highest_observed_generation final_verified < n) OrInvalid)) (\<lambda>_.
     sret final_verified))))))))"
    by (intro keeps_prune_bind keeps_map_err keeps_prune_remove keeps_prune_sync keeps_prune_ask keeps_prune_pure names(1))
  have "prunes (orphan_name n) w w' \<and> (r = Inr s \<longrightarrow> verify_generation_directory crc (gw_entries w') = Inr s \<and>
      gw_file w' (kind_name (KGeneration n)) = None \<and> gw_file w' (kind_name (KStaging n)) = None)"
    using assms(1) [unfolded retire_after_check_def]
  proof (cases rule: sbind_cases)
    case (fail e)
    then show ?thesis using keepsD [OF first fail(1)] by simp
  next
    case (run u w1)
    have p1: "prunes (orphan_name n) w w1" by (rule keepsD [OF first run(1)])
    from run(2) show ?thesis
    proof (cases rule: bind_ask)
      case (err e)
      then show ?thesis using p1 by simp
    next
      case (ok path)
      then obtain ns where "scan_generation_namespace (gw_entries w1) = Inr ns"
        "validate_reserved_orphan_candidate ns auth n w1 = Inr path"
        by (auto simp: or_scan_def result_iff)
      then have path: "path = kind_name (KGeneration n)" by (metis orphan_candidate(1))
      have p2: "prunes (orphan_name n) w1 w'" by (rule keepsD [OF later ok(2) [unfolded path]])
      have "verify_generation_directory crc (gw_entries w') = Inr s \<and>
          gw_file w' (kind_name (KGeneration n)) = None \<and> gw_file w' (kind_name (KStaging n)) = None" if r: "r = Inr s"
      proof -
        obtain fns where f: "verify_expected_authority crc auth w' = Inr s" "or_scan w' = Inr fns"
          "om_lookup (ns_generation_files fns) n = None" "om_lookup (ns_staging_marker_files fns) n = None"
          using ok(2) r
          by (auto simp: sbind_eq_Inr sask_def slift_def sret_def result_iff simp del: sbind_sask sbind_simps)
        then have v: "verify_generation_directory crc (gw_entries w') = Inr s" "scan_generation_namespace (gw_entries w') = Inr fns"
          by (auto simp: verify_expected_authority_def or_scan_def result_iff split: if_splits)
        then show ?thesis
          using scan_namespace_Inr(2) [OF v(2), of "KGeneration n"] scan_namespace_Inr(2) [OF v(2), of "KStaging n"] f(3,4)
          by (auto simp: gw_file_def split: if_splits)
      qed
      then show ?thesis using p1 p2 prunes_trans [of "orphan_name n"] by (blast dest: transpD)
    qed
  qed
  then show "prunes (orphan_name n) w w'"
    and "r = Inr s \<Longrightarrow> verify_generation_directory crc (gw_entries w') = Inr s \<and>
      gw_file w' (kind_name (KGeneration n)) = None \<and> gw_file w' (kind_name (KStaging n)) = None" by blast+
qed


definition retirement_summary ::
    "gen_summary \<Rightarrow> nat \<Rightarrow> file_fingerprint \<Rightarrow> file_fingerprint option \<Rightarrow> gen_summary \<Rightarrow> orphan_retirement_summary" where
  "retirement_summary before n fo fs final_verified =
     \<lparr>os_authoritative_generation = gs_authoritative_generation before, os_retired_generation = n,
      os_retired_orphan_fingerprint = fo, os_retired_staging_fingerprint = fs,
      os_reservation = canonical_reservation_name n, os_final_generation = final_verified\<rparr>"

text \<open>The body under the lease, once the first check has passed; the reservation is a regular file
  because the scan accepted it.\<close>

lemma retire_body:
  assumes "check_orphan crc n auth fo fs w = Inr (v, ns, path)"
  shows "(sbind (sask (check_orphan crc n auth fo fs)) (\<lambda>(before, namespace, _).
       sbind (sask (\<lambda>w. or_require_regular w (the (om_lookup (ns_reservation_files namespace) n)))) (\<lambda>_.
       sbind (sask (check_orphan crc n auth fo fs)) (\<lambda>(_, current_namespace, _).
       f before current_namespace)))) w = f v ns w"
proof -
  note c = check_orphan_facts [OF assms]
  have "om_lookup (ns_reservation_files ns) n = Some (canonical_reservation_name n)"
    using scan_namespace_Inr(2) [OF c(3), of "KReservation n"] c(6) by (simp add: gw_file_def)
  moreover have "namespace_ok (gw_entries w)" by (rule scan_namespace_Inr(1) [OF c(3)])
  then have "om_lookup (gw_entries w) (kind_name (KReservation n)) = Some (RegularFile [])"
    using c(6) unfolding namespace_ok_def gw_file_def entry_ok_def
    by (metis kind_name_inject option.exhaust)
  ultimately have "or_require_regular w (the (om_lookup (ns_reservation_files ns) n)) = Inr []"
    by (simp add: or_require_regular_def gw_file_def require_real_regular_file_def)
  then show ?thesis using assms by simp
qed

lemma retire_eq:
  "retire_generation_orphan crc owner n auth fo fs confirm =
     sbind (slift (ensure confirm OrConfirmationRequired)) (\<lambda>_.
     with_lease OrLock owner
      (sbind (sask (check_orphan crc n auth fo fs)) (\<lambda>(before, namespace, _).
       sbind (sask (\<lambda>w. or_require_regular w (the (om_lookup (ns_reservation_files namespace) n)))) (\<lambda>_.
       sbind (sask (check_orphan crc n auth fo fs)) (\<lambda>(_, current_namespace, _).
       sbind (retire_after_check crc n auth fo (om_lookup (ns_staging_marker_files current_namespace) n)) (\<lambda>s.
       sret (retirement_summary before n fo fs s)))))))"
  by (simp add: retire_generation_orphan_def retire_after_check_def sbind_assoc sbind_pure(1) retirement_summary_def)

lemma retire_run:
  assumes "retire_generation_orphan crc owner n auth fo fs confirm w = (r, w')"
  obtains (unchanged) e where "r = Inl e" "gw_entries w' = gw_entries w"
  | (ran) v ns path w1 r1 w2 where "confirm" "gw_entries w1 = gw_entries w" "gw_entries w' = gw_entries w2"
      "check_orphan crc n auth fo fs w1 = Inr (v, ns, path)"
      "retire_after_check crc n auth fo (om_lookup (ns_staging_marker_files ns) n) w1 = (r1, w2)"
      "r = rmap (retirement_summary v n fo fs) r1"
  using assms [unfolded retire_eq]
proof (cases rule: bind_lift)
  case (err e)
  then show thesis by (intro that(1)) simp_all
next
  case (ok u)
  then have confirm: "confirm" by (simp add: result_iff)
  from ok(2) show thesis
  proof (cases rule: with_lease_cases)
    case (fail e)
    then show thesis by (rule that(1))
  next
    case (ran w1 w2)
    show thesis
    proof (cases "check_orphan crc n auth fo fs w1")
      case (Inl e)
      then show thesis using ran(1,4,5) by (intro that(1) [of e]) simp_all
    next
      case (Inr c)
      obtain v ns path where c: "c = (v, ns, path)" by (rule prod_cases3)
      obtain r1 w3 where run: "retire_after_check crc n auth fo (om_lookup (ns_staging_marker_files ns) n) w1 = (r1, w3)" by force
      have "(r, w2) = sbind (retire_after_check crc n auth fo (om_lookup (ns_staging_marker_files ns) n))
          (\<lambda>s. sret (retirement_summary v n fo fs s)) w1"
        using ran(4) retire_body [OF Inr [unfolded c]] by metis
      then have "r = rmap (retirement_summary v n fo fs) r1" "w2 = w3"
        by (cases r1; simp add: sbind_def run sret_def)+
      then show thesis using that(2) [OF confirm ran(1) _ Inr [unfolded c] run] ran(5) by simp
    qed
  qed
qed

lemma inspected_check:
  assumes "inspect_generation_orphan crc n w = Inr i"
  shows "\<exists>v ns path. check_orphan crc n (oi_authoritative_generation i) (oi_orphan_fingerprint i) (oi_staging_fingerprint i) w
    = Inr (v, ns, path)"
proof -
  obtain v ns path fo fs where i: "verify_generation_directory crc (gw_entries w) = Inr v" "or_scan w = Inr ns"
    "validate_reserved_orphan_candidate ns (gs_authoritative_generation v) n w = Inr path" "fingerprint_file w path = Inr fo"
    "(case om_lookup (ns_staging_marker_files ns) n of None \<Rightarrow> Inr None | Some path \<Rightarrow> rmap Some (fingerprint_file w path)) = Inr fs"
    "oi_authoritative_generation i = gs_authoritative_generation v" "oi_orphan_fingerprint i = fo" "oi_staging_fingerprint i = fs"
    using assms by (auto simp: inspect_generation_orphan_def result_iff)
  have "require_staging_fingerprint n (om_lookup (ns_staging_marker_files ns) n) fs w = Inr ()"
    using i(5) by (auto simp: require_staging_fingerprint_def result_iff split: option.splits)
  then show ?thesis
    using i by (simp add: check_orphan_def verify_expected_authority_def require_fingerprint_def)
qed


lemma orphan_witness:
  assumes "check_orphan crc n auth fo fs w = Inr (v, ns, path)" "files_fit (gw_entries w)" "prunes (orphan_name n) w w'"
  obtains v' where "verify_generation_directory crc (gw_entries w') = Inr v'" "witness_from_summary v' = witness_from_summary v"
    "gs_highest_observed_generation v' = gs_highest_observed_generation v"
    "gen_content crc (gw_entries w') = gen_content crc (gw_entries w)" "n \<le> gs_highest_observed_generation v'"
proof -
  note c = check_orphan_facts [OF assms(1)]
  have no: "\<not> orphan_name n (KMarker (gs_authoritative_generation v))" "\<not> orphan_name n (KGeneration (gs_authoritative_generation v))"
    "\<not> orphan_name n (KReservation n)"
    using c(2,5) by (simp_all add: orphan_name_def)
  obtain v' where v': "verify_generation_directory crc (gw_entries w') = Inr v'" "witness_from_summary v' = witness_from_summary v"
    "gen_content crc (gw_entries w') = gen_content crc (gw_entries w)"
    by (rule prunes_witness [OF c(1) assms(2,3) no(1,2)])
  have "kind_id k \<le> kind_id (KReservation n)" if "orphan_name n k" for k using that by (auto simp: orphan_name_def)
  then have "gs_highest_observed_generation v' = gs_highest_observed_generation v"
    by (rule prunes_frontier [OF c(1) v'(1) assms(3) no(3) c(6)])
  moreover have "n \<le> gs_highest_observed_generation v"
    using verify_generation_ids(1) [OF c(1), of "KReservation n"] c(6) by (simp add: gw_file_def)
  ultimately show thesis using v' that by simp
qed

lemma retire_after_check_quiet:
  assumes "check_orphan crc n auth fo fs w = Inr (v, ns, path)" "files_fit (gw_entries w)" "gw_faults w = []"
  shows "is_ok (fst (retire_after_check crc n auth fo (om_lookup (ns_staging_marker_files ns) n) w))"
proof -
  let ?log = "kind_name (KGeneration n)" and ?stg = "kind_name (KStaging n)"
  let ?st = "om_lookup (ns_staging_marker_files ns) n"
  note c = check_orphan_facts [OF assms(1)]
  obtain f where f: "gw_file w ?log = Some (RegularFile f)" "fingerprint_of f = fo" using c(7) by blast
  have st: "?st = (if gw_file w ?stg = None then None else Some ?stg)"
    using scan_namespace_Inr(2) [OF c(3), of "KStaging n"] by (simp add: gw_file_def)
  define w1 where "w1 = (if gw_file w ?stg = None then w else w\<lparr>gw_entries := om_remove ?stg (gw_entries w)\<rparr>)"
  have first: "(case ?st of None \<Rightarrow> sret ()
      | Some path \<Rightarrow> sbind (smap_err OrIo (fs_remove_file path)) (\<lambda>_. smap_err OrDurabilityUncertain fs_sync)) w = (Inr (), w1)"
  proof (cases "gw_file w ?stg")
    case None
    then show ?thesis by (simp add: st w1_def sret_def)
  next
    case (Some ct)
    then obtain g where "gw_file w ?stg = Some (RegularFile g)" using c(8) by auto
    then show ?thesis using assms(3) by (simp add: st w1_def sbind_def smap_err_def)
  qed
  define w2 where "w2 = w1\<lparr>gw_entries := om_remove ?log (gw_entries w1)\<rparr>"
  have p: "prunes (orphan_name n) w w1" "prunes (orphan_name n) w w2"
    by (auto simp: prunes_def w1_def w2_def gw_file_def orphan_name_def
        intro: exI [of _ "KStaging n"] exI [of _ "KGeneration n"])
  have q: "gw_faults w1 = []" "gw_faults w2 = []" using assms(3) by (simp_all add: w1_def w2_def)
  have log1: "gw_file w1 ?log = Some (RegularFile f)" using f(1) by (simp add: w1_def gw_file_def)
  have short: "length f \<le> u64_max" using assms(2) f(1) by (auto simp: files_fit_def gw_file_def)
  have ok: "\<exists>s ns'. verify_expected_authority crc auth x = Inr s \<and> or_scan x = Inr ns' \<and> n \<le> gs_highest_observed_generation s \<and>
      scan_generation_namespace (gw_entries x) = Inr ns'"
    if px: "prunes (orphan_name n) w x" for x
  proof -
    obtain s where s: "verify_generation_directory crc (gw_entries x) = Inr s" "witness_from_summary s = witness_from_summary v"
      "n \<le> gs_highest_observed_generation s" by (rule orphan_witness [OF assms(1,2) px])
    then have "gs_authoritative_generation s = auth" using c(2) by (simp add: witness_from_summary_def)
    moreover obtain ns' where "scan_generation_namespace (gw_entries x) = Inr ns'" using verified_scans [OF s(1)] ..
    ultimately show ?thesis using s(1,3) by (simp add: verify_expected_authority_def or_scan_def)
  qed
  obtain s1 ns1 where one: "verify_expected_authority crc auth w1 = Inr s1" "or_scan w1 = Inr ns1"
    "scan_generation_namespace (gw_entries w1) = Inr ns1" using ok [OF p(1)] by blast
  obtain s2 ns2 where two: "verify_expected_authority crc auth w2 = Inr s2" "or_scan w2 = Inr ns2" "n \<le> gs_highest_observed_generation s2"
    "scan_generation_namespace (gw_entries w2) = Inr ns2" using ok [OF p(2)] by blast
  have kept: "gw_file x (kind_name (KReservation n)) \<noteq> None" "gw_file x (kind_name (KMarker n)) = None"
    if "prunes (orphan_name n) w x" for x
  proof -
    have "gw_file w (kind_name (KMarker n)) = None"
      using verify_marker_bounds(2) [OF c(1), of n] c(2,5) by (fastforce simp: gw_file_def)
    then show "gw_file x (kind_name (KReservation n)) \<noteq> None" "gw_file x (kind_name (KMarker n)) = None"
      using prunes_kept [OF that, of "KReservation n"] prunes_kept [OF that, of "KMarker n"] c(6)
      by (simp_all add: orphan_name_def)
  qed
  have cand: "validate_reserved_orphan_candidate ns1 auth n w1 = Inr ?log"
    using scan_namespace_Inr(2) [OF one(3), of "KGeneration n"] scan_namespace_Inr(2) [OF one(3), of "KMarker n"]
      scan_namespace_Inr(2) [OF one(3), of "KReservation n"] kept [OF p(1)] log1 c(5)
    by (simp add: validate_reserved_orphan_candidate_def or_require_regular_def require_real_regular_file_def gw_file_def)
  have fp: "require_fingerprint n ?log fo w1 = Inr ()"
    using fingerprint_file_Inr [of w1 ?log fo] log1 short f(2) by (auto simp: require_fingerprint_def)
  have "gw_file w2 ?log = None" "gw_file w2 ?stg = None" "gw_file w2 (kind_name (KReservation n)) \<noteq> None"
    using kept(1) [OF p(2)] by (auto simp: w2_def w1_def gw_file_def)
  then have final: "om_lookup (ns_generation_files ns2) n = None" "om_lookup (ns_staging_marker_files ns2) n = None"
    "om_lookup (ns_reservation_files ns2) n \<noteq> None"
    using scan_namespace_Inr(2) [OF two(4), of "KGeneration n"] scan_namespace_Inr(2) [OF two(4), of "KStaging n"]
      scan_namespace_Inr(2) [OF two(4), of "KReservation n"]
    by (simp_all add: gw_file_def)
  have rm: "fs_remove_file ?log w1 = (Inr (), w2)" using q(1) log1 by (simp add: w2_def)
  have "retire_after_check crc n auth fo ?st w = (Inr s2, w2)"
    unfolding retire_after_check_def
    using one(1,2) two(1-3) cand fp final q
    by (simp add: sbind_def [of "case_option _ _ _"] first sbind_def [of "smap_err _ _"] smap_err_def rm [simplified]
        sret_def not_less)
  then show ?thesis by simp
qed


lemma retire_quiet:
  assumes "inspect_generation_orphan crc n w = Inr i" "files_fit (gw_entries w)" "gw_faults w = []" "gw_lock w = None"
  shows "is_ok (fst (retire_generation_orphan crc owner n (oi_authoritative_generation i) (oi_orphan_fingerprint i)
    (oi_staging_fingerprint i) True w))"
proof -
  let ?auth = "oi_authoritative_generation i" and ?fo = "oi_orphan_fingerprint i" and ?fs = "oi_staging_fingerprint i"
  let ?w = "w\<lparr>gw_lock := Some (RegularFile owner)\<rparr>"
  have "inspect_generation_orphan crc n ?w = Inr i"
    using assms(1) by (simp add: inspect_generation_orphan_def or_scan_def validate_reserved_orphan_candidate_def
        or_require_regular_def fingerprint_file_def gw_file_def cong: if_cong option.case_cong)
  then obtain v ns path where c: "check_orphan crc n ?auth ?fo ?fs ?w = Inr (v, ns, path)"
    using inspected_check by blast
  obtain s w2 where run: "retire_after_check crc n ?auth ?fo (om_lookup (ns_staging_marker_files ns) n) ?w = (Inr s, w2)"
    using retire_after_check_quiet [OF c] assms(2,3) by (auto simp: is_ok_iff prod_eq_iff)
  show ?thesis
    unfolding retire_eq
    by (simp add: with_lease_quiet [OF assms(3,4)] retire_body [OF c] sbind_def [of "retire_after_check _ _ _ _ _"] run sret_def
        del: sbind_sask)
qed

text \<open>C11 (orphan): retirement of an abandoned candidate from a directory that verifies.  Wherever a
  fault stops it, the directory still verifies with the same authority, committed prefix, log and
  content and the same allocation frontier, and at most the candidate and its staging marker are gone.
  If anything is gone, the caller had confirmed, the id is reserved and above the authority the
  caller named, the candidate carried the expected length and checksum, and the staging marker was
  absent as expected or carried its expected length and checksum; a normal return means
  both names are gone and the reservation is not.  When nothing fails, retiring exactly what an
  inspection reported succeeds.\<close>

theorem retire_orphan_correct:
  assumes "verify_generation_directory crc (gw_entries w) = Inr v" "files_fit (gw_entries w)"
    and "retire_generation_orphan crc owner n auth fo fs confirm w = (r, w')"
  shows "(\<exists>v'. verify_generation_directory crc (gw_entries w') = Inr v' \<and> witness_from_summary v' = witness_from_summary v \<and>
      gs_highest_observed_generation v' = gs_highest_observed_generation v) \<and>
    gen_content crc (gw_entries w') = gen_content crc (gw_entries w) \<and>
    (\<forall>name. gw_file w' name = gw_file w name \<or>
      gw_file w' name = None \<and> name \<in> {canonical_generation_name n, canonical_staging_marker_name n}) \<and>
    (gw_entries w' \<noteq> gw_entries w \<longrightarrow> confirm \<and> auth = gs_authoritative_generation v \<and> auth < n \<and>
      gw_file w (canonical_reservation_name n) \<noteq> None \<and>
      (\<exists>f. gw_file w (canonical_generation_name n) = Some (RegularFile f) \<and> fp_bytes fo = length f \<and> fp_crc32 fo = crc32_ieee f) \<and>
      (case gw_file w (canonical_staging_marker_name n) of None \<Rightarrow> fs = None
       | Some c \<Rightarrow> \<exists>f p. c = RegularFile f \<and> fs = Some p \<and> fp_bytes p = length f \<and> fp_crc32 p = crc32_ieee f)) \<and>
    (is_ok r \<longrightarrow> gw_file w' (canonical_generation_name n) = None \<and> gw_file w' (canonical_staging_marker_name n) = None \<and>
      gw_file w' (canonical_reservation_name n) \<noteq> None) \<and>
    (\<forall>i. inspect_generation_orphan crc n w = Inr i \<and> auth = oi_authoritative_generation i \<and>
      fo = oi_orphan_fingerprint i \<and> fs = oi_staging_fingerprint i \<and> confirm \<and> gw_faults w = [] \<and> gw_lock w = None \<longrightarrow> is_ok r)"
proof -
  have quiet: "is_ok r" if "inspect_generation_orphan crc n w = Inr i" "auth = oi_authoritative_generation i"
      "fo = oi_orphan_fingerprint i" "fs = oi_staging_fingerprint i" "confirm" "gw_faults w = []" "gw_lock w = None" for i
    using retire_quiet [OF that(1) assms(2) that(6,7), of owner] that(2-5) assms(3) by simp
  show ?thesis
    using assms(3)
  proof (cases rule: retire_run)
    case (unchanged e)
    have "gw_file w' k = gw_file w k" for k using unchanged(2) by (simp add: gw_file_def)
    then show ?thesis using unchanged assms(1) quiet by auto
  next
    case (ran v1 ns path w1 r1 w2)
    have v1: "v1 = v" using check_orphan_facts(1) [OF ran(4)] assms(1) ran(2) by simp
    note c = check_orphan_facts [OF ran(4)]
    have st: "om_lookup (ns_staging_marker_files ns) n = None \<or>
        om_lookup (ns_staging_marker_files ns) n = Some (kind_name (KStaging n))"
      using scan_namespace_Inr(2) [OF c(3), of "KStaging n"] by (auto split: if_splits)
    note after = retire_after_check_run [OF ran(5) st]
    have fit: "files_fit (gw_entries w1)" using assms(2) ran(2) by simp
    obtain v' where v': "verify_generation_directory crc (gw_entries w2) = Inr v'" "witness_from_summary v' = witness_from_summary v1"
      "gs_highest_observed_generation v' = gs_highest_observed_generation v1"
      "gen_content crc (gw_entries w2) = gen_content crc (gw_entries w1)"
      by (rule orphan_witness [OF ran(4) fit after(1)])
    have files: "gw_file w1 k = gw_file w k" "gw_file w' k = gw_file w2 k" for k using ran(2,3) by (simp_all add: gw_file_def)
    have frame: "\<forall>name. gw_file w' name = gw_file w name \<or>
        gw_file w' name = None \<and> name \<in> {canonical_generation_name n, canonical_staging_marker_name n}"
      using after(1) unfolding prunes_def files orphan_name_def by fastforce
    have done1: "gw_file w' (canonical_generation_name n) = None \<and> gw_file w' (canonical_staging_marker_name n) = None" if ok: "is_ok r"
    proof -
      obtain s where "r1 = Inr s" using ok ran(6) by (cases r1) simp_all
      then show ?thesis using after(2) files(2) by simp
    qed
    have kept: "gw_file w' (canonical_reservation_name n) \<noteq> None"
      using frame c(6) files(1) by (auto simp: kind_names_differ dest: spec [of _ "canonical_reservation_name n"])
    have guard: "confirm \<and> auth = gs_authoritative_generation v \<and> auth < n \<and> gw_file w (canonical_reservation_name n) \<noteq> None \<and>
      (\<exists>f. gw_file w (canonical_generation_name n) = Some (RegularFile f) \<and> fp_bytes fo = length f \<and> fp_crc32 fo = crc32_ieee f)"
      using ran(1) c(2,5-7) v1 files(1) by (auto simp: fingerprint_of_def)
    have staging: "case gw_file w (canonical_staging_marker_name n) of None \<Rightarrow> fs = None
       | Some c \<Rightarrow> \<exists>f p. c = RegularFile f \<and> fs = Some p \<and> fp_bytes p = length f \<and> fp_crc32 p = crc32_ieee f"
      using c(8) files(1) by (auto simp: fingerprint_of_def split: option.splits)
    show ?thesis
      using v' v1 ran(2,3) frame done1 kept guard staging quiet by (auto split del: option.split)
  qed
qed


definition orphan_world :: gen_world where
  "orphan_world =
     \<lparr>gw_entries = om_insert (canonical_reservation_name 2) (RegularFile [])
        (om_insert (canonical_generation_name 2) (RegularFile []) (single_generation_dir (\<lambda>_. 0) 1 [])),
      gw_lock = None, gw_faults = []\<rparr>"

lemma orphan_world_verifies:
  obtains v where "verify_generation_directory (\<lambda>_. 0) (gw_entries orphan_world) = Inr v" "gs_authoritative_generation v = 1"
    "files_fit (gw_entries orphan_world)"
proof -
  let ?c = "\<lambda>_. 0 :: 32 word" and ?d = "gw_entries orphan_world"
  note e = empty_generation_dir [of ?c]
  have entries: "om_lookup ?d k = (if k = canonical_reservation_name 2 then Some (RegularFile [])
      else if k = canonical_generation_name 2 then Some (RegularFile [])
      else om_lookup (single_generation_dir ?c 1 []) k)" for k
    by (simp add: orphan_world_def)
  have "entry_ok (KReservation 2) (RegularFile [])" "entry_ok (KGeneration 2) (RegularFile [])"
    by (simp_all add: entry_ok_def kind_ok_def u64_max_def)
  moreover have "om_size ?d \<le> MAX_DIRECTORY_ENTRIES"
    by (simp add: orphan_world_def om_size_insert_new single_generation_dir_def MAX_DIRECTORY_ENTRIES_def)
      (simp add: om_size_def)
  ultimately have ns: "namespace_ok ?d"
    by (intro namespace_ok_update [OF e(1)])
      (auto simp: entries split: if_splits intro: exI [of _ "KReservation 2"] exI [of _ "KGeneration 2"])
  have fit: "files_fit ?d" using e(2) unfolding files_fit_def by (auto simp: entries split: if_splits)
  have "gen_authority ?c ?d 1 (image_prefix ?c []) (log_image ?c []) []"
    using e(3) by (simp add: gen_authority_def entries)
  from verify_generation_complete [OF ns fit this] show thesis using that fit by metis
qed

lemma orphan_world_inspects:
  obtains i where "inspect_generation_orphan (\<lambda>_. 0) 2 orphan_world = Inr i"
proof -
  obtain v where v: "verify_generation_directory (\<lambda>_. 0) (gw_entries orphan_world) = Inr v" "gs_authoritative_generation v = 1"
    by (rule orphan_world_verifies)
  obtain ns where ns: "scan_generation_namespace (gw_entries orphan_world) = Inr ns" using verified_scans [OF v(1)] by blast
  note get = scan_namespace_Inr(2) [OF ns]
  have f: "gw_file orphan_world (canonical_generation_name 2) = Some (RegularFile [])"
    by (simp add: gw_file_def orphan_world_def)
  have "om_lookup (ns_marker_files ns) 2 = None" "om_lookup (ns_reservation_files ns) 2 \<noteq> None"
    "om_lookup (ns_generation_files ns) 2 = Some (canonical_generation_name 2)" "om_lookup (ns_staging_marker_files ns) 2 = None"
    using get [of "KMarker 2"] get [of "KReservation 2"] get [of "KGeneration 2"] get [of "KStaging 2"]
    by (simp_all add: orphan_world_def single_generation_dir_def)
  then show thesis
    using that v ns f fingerprint_file_Inr [of orphan_world "canonical_generation_name 2" "fingerprint_of []"]
    by (auto simp: inspect_generation_orphan_def or_scan_def validate_reserved_orphan_candidate_def
        or_require_regular_def require_real_regular_file_def)
qed

lemma retire_orphan_correct_witness:
  "\<exists>i s w'. inspect_generation_orphan (\<lambda>_. 0) 2 orphan_world = Inr i \<and>
    retire_generation_orphan (\<lambda>_. 0) [7] 2 (oi_authoritative_generation i) (oi_orphan_fingerprint i)
      (oi_staging_fingerprint i) True orphan_world = (Inr s, w') \<and>
    gw_file w' (canonical_generation_name 2) = None \<and> gw_file w' (canonical_reservation_name 2) \<noteq> None"
proof -
  obtain v where v: "verify_generation_directory (\<lambda>_. 0) (gw_entries orphan_world) = Inr v"
    "files_fit (gw_entries orphan_world)"
    by (rule orphan_world_verifies)
  obtain i where i: "inspect_generation_orphan (\<lambda>_. 0) 2 orphan_world = Inr i" by (rule orphan_world_inspects)
  obtain r w' where run: "retire_generation_orphan (\<lambda>_. 0) [7] 2 (oi_authoritative_generation i) (oi_orphan_fingerprint i)
      (oi_staging_fingerprint i) True orphan_world = (r, w')" by force
  have "gw_faults orphan_world = []" "gw_lock orphan_world = None" by (simp_all add: orphan_world_def)
  then have "is_ok r \<and> gw_file w' (canonical_generation_name 2) = None \<and> gw_file w' (canonical_reservation_name 2) \<noteq> None"
    using retire_orphan_correct [OF v run] i by blast
  then show ?thesis using i run by (auto simp: is_ok_iff)
qed

end
