(* ===== verification/Spec2Isabelle.thy ===== *)
theory Spec2Isabelle
  imports Harness LsmHarness Bloom SsTableSpec ManifestSpec BtreeProps RelQuerySpec OptimisticTx GenCleanupSpec
begin

text \<open>
  A verification library for the Rust laboratory of database engines under \<open>src/crates\<close>.

  \<^bold>\<open>The program.\<close>  \<open>db-core\<close> fixes the logical semantics: errors, operations, size limits, the
  \<open>KvEngine\<close> trait, a deterministic workload generator, a differential harness that runs one workload
  against two engines, and a minimiser of failing workloads.  Four engines implement the trait: the
  in-memory oracle (\<open>db-storage-memory\<close>), the append log (\<open>db-storage-log\<close>), the LSM tree
  (\<open>db-storage-lsm\<close>) and the copy-on-write B+ tree (\<open>db-storage-btree\<close>).  On the append log stand a
  relational layer, queries with secondary indexes, and optimistic transactions.  \<open>db-cli\<close> manages
  directories of append-log generations: commit markers select the authoritative log, a writer lease
  serialises processes, and compaction switches a directory to a new generation.

  \<^bold>\<open>What is modelled where.\<close>  Each record, datatype and function carries the name of the struct, enum
  or function it stands for, with a prefix where two files share a name.

  \<^item> Prelude: \<open>DbPrelude\<close> (bytes, little-endian fields, checked arithmetic, the result type),
    \<open>OrdMap\<close> (\<open>BTreeMap\<close>), \<open>StateResult\<close> (methods with \<open>&mut self\<close> that return early), \<open>Decimal\<close>
    (numbers in file names), \<open>Disk\<close> (a directory whose writes may fail or tear).
  \<^item> \<open>db-core\<close>: \<open>KvCore\<close> (\<open>error.rs\<close>, \<open>bytes.rs\<close>, \<open>operation.rs\<close>, the limits of \<open>engine.rs\<close>), \<open>KvEngine\<close>
    (the trait, \<open>execute_workload\<close>, \<open>differential.rs\<close>), \<open>WorkloadGen\<close> (\<open>workload.rs\<close>), \<open>Shrink\<close>
    (\<open>shrink.rs\<close>).
  \<^item> \<open>db-storage-memory\<close>: \<open>MemoryEngine\<close>.
  \<^item> \<open>db-storage-log/src/lib.rs\<close>: \<open>RecordFrame\<close>, \<open>RecordScan\<close> and \<open>RecordCodec\<close> (what the log and the
    write-ahead log share), \<open>LogFormat\<close> (file names, records, the scan), \<open>LogEngine\<close> (open, append,
    reopen, verify, inspect).
  \<^item> \<open>db-storage-lsm\<close>: \<open>Bloom\<close> (\<open>bloom.rs\<close>), \<open>MemTable\<close> (\<open>memtable.rs\<close>), \<open>SsTable\<close> (\<open>sstable.rs\<close>),
    \<open>Manifest\<close> (\<open>manifest.rs\<close>), \<open>Wal\<close> (\<open>wal.rs\<close>), \<open>LsmEngine\<close> (\<open>lib.rs\<close>).  Proofs: \<open>SsTableSpec\<close>,
    \<open>ManifestSpec\<close>, \<open>LsmLayout\<close>, \<open>LsmView\<close>, \<open>LsmReplay\<close>, \<open>LsmVersions\<close>, \<open>LsmState\<close>, \<open>LsmPhases\<close>,
    \<open>LsmCorrect\<close>, \<open>LsmProps\<close>, \<open>LsmHarness\<close>.
  \<^item> \<open>db-storage-btree\<close>: \<open>BtreePage\<close> and \<open>BtreePager\<close> (\<open>lib.rs\<close>), \<open>BtreeNode\<close>, \<open>BtreeTree\<close> and
    \<open>BtreeEngine\<close> (\<open>tree.rs\<close> and \<open>tree/\<close>).  Proofs: \<open>BtreePageSpec\<close>, \<open>BtreePagerSpec\<close>, \<open>BtreeCells\<close>,
    \<open>BtreeRead\<close>, \<open>BtreeShape\<close>, \<open>BtreeLookup\<close>, \<open>BtreeQuery\<close>, \<open>BtreeCow\<close>, \<open>BtreeForest\<close>,
    \<open>BtreeInsert\<close>, \<open>BtreePut\<close>, \<open>BtreeDelete\<close>, \<open>BtreeKv\<close>, \<open>BtreeGap\<close>, \<open>BtreeProps\<close>.
  \<^item> \<open>db-storage-log\<close>, upper layers: \<open>Relational\<close> (\<open>relational.rs\<close>), \<open>RelQuery\<close> (\<open>query.rs\<close>, \<open>index.rs\<close>,
    \<open>indexed_query.rs\<close>, \<open>maintained_index.rs\<close>, \<open>disjunctive_query.rs\<close>), \<open>OptimisticTx\<close>
    (\<open>optimistic_tx.rs\<close>).  Proofs: \<open>RelationalSpec\<close>, \<open>RelQuerySpec\<close>, \<open>OptimisticTx\<close>.
  \<^item> \<open>db-cli\<close>: \<open>Crc32\<close> and \<open>GenMarker\<close> (\<open>generation_marker.rs\<close>), \<open>GenDirectory\<close>
    (\<open>generation_directory.rs\<close>, \<open>generation_prefix.rs\<close>), \<open>GenWorld\<close> (\<open>generation_lock.rs\<close> and the
    file-system calls), \<open>GenPublish\<close> (\<open>generation_publication.rs\<close>, \<open>generation_reservation.rs\<close>),
    \<open>GenEngine\<close> (\<open>generation_engine.rs\<close>), \<open>GenCompact\<close> (\<open>log_compaction.rs\<close>,
    \<open>generation_compaction.rs\<close>), \<open>GenCleanup\<close> (\<open>generation_cleanup.rs\<close>, \<open>generation_orphan.rs\<close>).
    Proofs: the theories of the same names with \<open>Spec\<close>.

  \<^bold>\<open>Interfaces.\<close>  \<open>kv_model\<close> states what the trait promises: under an invariant and while counters have
  room, each method acts as the ordered map.  \<open>kv_engine\<close> adds that invalid input changes nothing,
  \<open>kv_ordered\<close> that range scans are ordered; \<open>kv_engine_pair\<close> proves the differential harness once.
  They are interpreted on the models of all five engines, the routed generation engine included.
  \<open>record_codec\<close> and \<open>record_scan\<close> are interpreted on the append log and the write-ahead log, and
  \<open>rel_codec\<close> on cells, columns and operations.

  \<^bold>\<open>What is shown.\<close>  Every engine refines the ordered map, step by step, through every flush,
  compaction, rotation, split, merge, page reuse and reopen, and passes the harness against the
  oracle.  Formats decode exactly what their encoders produce.  A log or write-ahead log opens exactly
  when it is a header, whole canonical records and at most one incomplete record, in the sense of
  \<open>torn_frame\<close>: bytes that agree with a header for the next sequence number and end before the length
  it declares; a whole record is never cut.  An interrupted write leaves the old state or the new one (append log,
  manifest, relational commit, marker publication, compact switch, cleanup, orphan retirement), and
  a failure that could leave a handle behind its file poisons it.  For the manifest one case remains
  and is part of the theorem (\<open>slot_collision\<close>): a \<open>CURRENT\<close> slot torn within its first 32 bytes whose
  mixture with the old slot carries its own right checksum.  Relational operations keep tables
  well typed; index paths answer as scans do; every interleaving of optimistic transactions is
  serial.  A routed handle never follows authority backward whatever other processes do.
  The properties that state a limit of the code rather than a promise are \<open>valid_put_rejected\<close> (a
  valid put fails, in any tree, when the leaf it goes to cannot be cut into two pages), \<open>reserve_overfills_directory\<close>, \<open>second_handle_reads_stale\<close> and
  \<open>compaction_blocks_directory\<close>.

  \<^bold>\<open>Representation.\<close>  Bytes are 8-bit words; hashes and the workload generator wrap on 64-bit words,
  checksums are 32-bit words.  Ids, offsets, lengths and sequence numbers are natural numbers with
  every checked or saturating operation written out against \<open>u64_max\<close>.  64-bit integer cells are
  signed words.  Strings and file names are their bytes.  Errors keep their variant and drop their
  text.  The checksum crate \<open>crc32fast\<close> is the parameter \<open>crc\<close> of every definition that uses it,
  and no theorem assumes anything of it, not even that it detects torn writes; the hand-written
  checksum of \<open>db-cli\<close> is modelled as it is.
  The text of a lease's owner record (process id, time, counter) is a parameter of at most 4096 bytes.

  \<^bold>\<open>Failures.\<close>  An append takes its fault as an argument: the number of bytes that reached the file and
  the error.  The LSM directory, the page file and a generation directory carry a list of faults, one
  per durable call: none, before anything happened, or after some bytes.  A crash keeps the files
  and drops the handle.

  \<^bold>\<open>Bounds.\<close>  Loops are structural recursion or \<open>function\<close> with a measure.  Where the code stops a walk of
  the tree at \<open>MAX_TREE_HEIGHT = 64\<close> levels, the model recurses over the levels left, as the code
  counts them; every tree in the invariant is lower, so the limit is not reached.  The unbounded loop that contracts one-child roots
  (\<open>contract_root\<close>) gets the same number of levels as fuel, which suffices for the same reason.
  The refinement theorems assume room
  for the steps that follow: an append log needs \<open>sequence + n \<le> u64_max\<close> and 1052704 bytes per step
  (the longest record), an LSM database ids below \<open>10^16\<close> and at most \<open>2^31\<close> entries, a B+ tree
  115201 pages per step, a generation directory one free entry for a reservation, two for a
  publication and three for a compact switch, of its 8192.  Newly created engines have room for the
  longest valid workload.  The tree theorems take pairs whose keys have one stored size and of which
  a page holds two, because the code splits a node only in two and otherwise may refuse a valid put.

  \<^bold>\<open>Not modelled.\<close>  Command-line parsing, archives and experiment reports (serde, JSON, measurement);
  amplification and timing reports; the Windows variants; migration and cutover between directory
  layouts; test-only fault hooks.  Of the file system: path resolution, symbolic links, errors when
  reading an existing file, and files that change between two calls of one operation under a lease
  (changes between operations are modelled), such as a compact copy other processes watch grow.
  Removing a name that is not a regular file is an error of the model; the callers have checked
  before that it is one.  Names of capability sets and of lock errors are not represented beyond
  the variants of their types.  The process-wide registry of open relational files and
  mutex poisoning.
\<close>

end
